(* ===== verification/Prelude.thy ===== *)
theory Prelude
  imports Main "HOL-Library.Word"
begin

text \<open>
  Shared vocabulary of the development: the machine types of the C sources, the values and
  exceptions of the virtual machine, C memory blocks with their bounds, and the generic lemmas
  on words, lists and options that the component theories use.

  Conventions. A C function that can reach undefined behaviour (an access outside its memory
  block, a shift by more than the width of its operand) returns an \<^typ>\<open>'a option\<close>, and
  \<^const>\<open>None\<close> is that behaviour. An Ejscript exception is a value of \<open>ejs_error\<close>: either it
  is recorded in the state that the function returns, as \<^verbatim>\<open>ejs->exception\<close> is, or it is the left
  value of a sum.
\<close>

unbundle bit_operations_syntax

section \<open>Collections of facts\<close>

named_theorems memory_simps \<open>reads and writes of memory blocks\<close>
named_theorems decode_simps \<open>decoding what was encoded\<close>
named_theorems wf_intros \<open>operations keep the well-formedness of their component\<close>

section \<open>Machine types\<close>

type_synonym byte = "8 word"
type_synonym bytes = "byte list"
type_synonym uint32 = "32 word"
type_synonym uint64 = "64 word"

text \<open>The value of a C \<^verbatim>\<open>(int)\<close> cast of an integer, in two's complement.\<close>

definition c_int :: "int \<Rightarrow> int" where
  "c_int i = signed_take_bit 31 i"

text \<open>The largest \<^verbatim>\<open>int\<close>, \<^verbatim>\<open>MAXINT\<close>.\<close>

definition MAXINT :: int where
  "MAXINT = 2147483647"

lemma c_int_id: "- (2 ^ 31) \<le> i \<Longrightarrow> i < 2 ^ 31 \<Longrightarrow> c_int i = i"
  unfolding c_int_def by (rule signed_take_bit_int_eq_self) simp_all

lemma c_int_bounds: "- (2 ^ 31) \<le> c_int i \<and> c_int i < 2 ^ 31"
  unfolding c_int_def
  using signed_take_bit_int_greater_eq_minus_exp [of 31 i] signed_take_bit_int_less_exp [of 31 i]
  by simp

section \<open>Exceptions\<close>

text \<open>The classes of Ejscript exceptions that the modelled code throws (\<^verbatim>\<open>ejsThrow...Error\<close>).\<close>

datatype ejs_error =
    ArgError | IOError | MemoryError | OutOfBoundsError | ReferenceError
  | ResourceError | StateError | StopIteration | SyntaxError | TypeError

text \<open>
  The part of the interpreter \<^verbatim>\<open>Ejs\<close> that native methods share: the pending exception and the
  heap, as the function that says whether an allocation of so many bytes succeeds.
\<close>

record ejs =
  exception :: "ejs_error option"
  heap :: "int \<Rightarrow> bool"

definition ejsThrow :: "ejs_error \<Rightarrow> ejs \<Rightarrow> ejs" where
  "ejsThrow e ejs = ejs\<lparr>exception := Some e\<rparr>"

text \<open>\<^verbatim>\<open>EJS_ERR\<close>, the error return of the property operations.\<close>

definition EJS_ERR :: int where
  "EJS_ERR = -1"

text \<open>Error codes of the runtime library.\<close>

definition MPR_ERR_CANT_FIND :: int where
  "MPR_ERR_CANT_FIND = -18"

definition MPR_ERR_MEMORY :: int where
  "MPR_ERR_MEMORY = -25"

definition MPR_ERR_BAD_STATE :: int where
  "MPR_ERR_BAD_STATE = -7"

definition MPR_ERR_CANT_WRITE :: int where
  "MPR_ERR_CANT_WRITE = -23"

definition MPR_ERR_CANT_READ :: int where
  "MPR_ERR_CANT_READ = -22"

definition MPR_ERR_TOO_MANY :: int where
  "MPR_ERR_TOO_MANY = -31"

section \<open>Memory blocks\<close>

text \<open>
  A block of memory is the list of its cells. A C index is an \<^typ>\<open>int\<close>, since the sources
  compute indices with signed arithmetic; reading or writing outside the block is undefined.
\<close>

definition mem_read :: "'a list \<Rightarrow> int \<Rightarrow> 'a option" where
  "mem_read m i = (if 0 \<le> i \<and> i < int (length m) then Some (m ! nat i) else None)"

definition mem_write :: "'a list \<Rightarrow> int \<Rightarrow> 'a \<Rightarrow> 'a list option" where
  "mem_write m i v = (if 0 \<le> i \<and> i < int (length m) then Some (m[nat i := v]) else None)"

text \<open>Reading or writing \<open>n\<close> consecutive cells (\<^verbatim>\<open>memcpy\<close>, \<^verbatim>\<open>memmove\<close>, a copying loop).\<close>

definition mem_read_block :: "'a list \<Rightarrow> int \<Rightarrow> int \<Rightarrow> 'a list option" where
  "mem_read_block m i n =
     (if n \<le> 0 then Some []
      else if 0 \<le> i \<and> i + n \<le> int (length m) then Some (take (nat n) (drop (nat i) m))
      else None)"

definition mem_write_block :: "'a list \<Rightarrow> int \<Rightarrow> 'a list \<Rightarrow> 'a list option" where
  "mem_write_block m i vs =
     (if vs = [] then Some m
      else if 0 \<le> i \<and> i + int (length vs) \<le> int (length m)
        then Some (take (nat i) m @ vs @ drop (nat i + length vs) m)
      else None)"

lemma mem_read_Some [memory_simps]:
  "0 \<le> i \<Longrightarrow> i < int (length m) \<Longrightarrow> mem_read m i = Some (m ! nat i)"
  by (simp add: mem_read_def)

lemma mem_write_Some [memory_simps]:
  "0 \<le> i \<Longrightarrow> i < int (length m) \<Longrightarrow> mem_write m i v = Some (m[nat i := v])"
  by (simp add: mem_write_def)

lemma mem_write_length: "mem_write m i v = Some m' \<Longrightarrow> length m' = length m"
  by (auto simp: mem_write_def split: if_splits)

lemma mem_write_block_length: "mem_write_block m i vs = Some m' \<Longrightarrow> length m' = length m"
  by (auto simp: mem_write_block_def split: if_splits)

lemma mem_write_block_defined:
  "0 \<le> i \<Longrightarrow> i + int (length vs) \<le> int (length m) \<Longrightarrow> \<exists>m'. mem_write_block m i vs = Some m'"
  by (simp add: mem_write_block_def)

text \<open>What was written is what is read back, and the other cells keep their contents.\<close>

lemma mem_read_block_written:
  assumes "mem_write_block m i vs = Some m'"
  shows "mem_read_block m' i (int (length vs)) = Some vs"
proof (cases "vs = []")
  case False
  with assms have b: "0 \<le> i" "i + int (length vs) \<le> int (length m)"
    and m': "m' = take (nat i) m @ vs @ drop (nat i + length vs) m"
    by (auto simp: mem_write_block_def split: if_splits)
  then have "length (take (nat i) m) = nat i" by simp
  with b m' False show ?thesis by (simp add: mem_read_block_def)
qed (simp add: mem_read_block_def)

lemma mem_write_block_nth:
  assumes "mem_write_block m i vs = Some m'" and "k < length m"
  shows "m' ! k = (if i \<le> int k \<and> int k < i + int (length vs) then vs ! (k - nat i) else m ! k)"
proof (cases "vs = []")
  case True
  with assms show ?thesis by (auto simp: mem_write_block_def)
next
  case False
  with assms(1) have b: "0 \<le> i" "i + int (length vs) \<le> int (length m)"
    and m': "m' = take (nat i) m @ vs @ drop (nat i + length vs) m"
    by (simp_all add: mem_write_block_def split: if_splits)
  obtain p where i: "i = int p" using b(1) by (rule nonneg_int_cases)
  consider "k < p" | "p \<le> k" "k < p + length vs" | "p + length vs \<le> k" by linarith
  then show ?thesis
    by cases (use b(2) i assms(2) in \<open>auto simp: m' nth_append\<close>)
qed

lemma mem_read_block_other:
  assumes w: "mem_write_block m i vs = Some m'"
    and apart: "j + n \<le> i \<or> i + int (length vs) \<le> j"
  shows "mem_read_block m' j n = mem_read_block m j n"
proof (cases "0 < n \<and> 0 \<le> j \<and> j + n \<le> int (length m)")
  case True
  have len: "length m' = length m" by (rule mem_write_block_length [OF w])
  have "take (nat n) (drop (nat j) m') = take (nat n) (drop (nat j) m)"
  proof (rule nth_equalityI)
    fix k assume "k < length (take (nat n) (drop (nat j) m'))"
    with True have k: "k < nat n" "nat j + k < length m" by (auto simp: len)
    have "m' ! (nat j + k) = m ! (nat j + k)"
      using mem_write_block_nth [OF w k(2)] apart True k by auto
    with k show "take (nat n) (drop (nat j) m') ! k = take (nat n) (drop (nat j) m) ! k"
      by (simp add: len)
  qed (simp add: len)
  with True show ?thesis by (simp add: mem_read_block_def len)
next
  case False
  then show ?thesis using mem_write_block_length [OF w] by (auto simp: mem_read_block_def)
qed

text \<open>Writing at the end of a first part, and at the front.\<close>

lemma write_behind:
  "mem_write_block (xs @ ys) (int (length xs)) vs
     = (if length vs \<le> length ys then Some (xs @ vs @ drop (length vs) ys) else None)"
  by (auto simp: mem_write_block_def)

lemma write_front:
  "mem_write_block ys 0 vs = (if length vs \<le> length ys then Some (vs @ drop (length vs) ys) else None)"
  using write_behind [of "[]" ys vs] by simp

section \<open>Hash tables\<close>

text \<open>
  The hash of a name, \<^verbatim>\<open>shash\<close> of \<^verbatim>\<open>src/mpr/mprLib.c\<close>; \<^verbatim>\<open>whash\<close> is the same for one-byte characters, which are signed.
\<close>

definition HASH_PRIME :: uint32 where "HASH_PRIME = 0x01000193"

definition shash :: "string \<Rightarrow> uint32" where
  "shash cname = foldl (\<lambda>h c. (h XOR scast (of_char c :: byte)) * HASH_PRIME) (of_nat (length cname)) cname"

text \<open>The sizes that the hash tables of the virtual machine and of the runtime grow to.\<close>

definition hashSizes :: "int list" where
  "hashSizes = [19, 29, 59, 79, 97, 193, 389, 769, 1543, 3079, 6151, 12289, 24593, 49157, 98317, 196613]"

fun hash_size_from :: "int list \<Rightarrow> int \<Rightarrow> int \<Rightarrow> int" where
  "hash_size_from [] prev n = prev"
| "hash_size_from (h # hs) prev n = (if n < h then h else hash_size_from hs h n)"

section \<open>Scripts of calls\<close>

text \<open>
  A script calls the operations of a component one after the other and collects what they return.
  The specification of a component says what each call returns and does on an abstract state, and
  which calls it speaks of.
\<close>

fun run_script :: "('c \<Rightarrow> 's \<Rightarrow> ('r \<times> 's) option) \<Rightarrow> 'c list \<Rightarrow> 's \<Rightarrow> ('r list \<times> 's) option" where
  "run_script run [] s = Some ([], s)"
| "run_script run (c # cs) s =
     (case run c s of
        None \<Rightarrow> None
      | Some (r, s1) \<Rightarrow> map_option (\<lambda>(rs, s2). (r # rs, s2)) (run_script run cs s1))"

fun spec_script :: "('c \<Rightarrow> 'a \<Rightarrow> 'r \<times> 'a) \<Rightarrow> 'c list \<Rightarrow> 'a \<Rightarrow> 'r list \<times> 'a" where
  "spec_script spec [] a = ([], a)"
| "spec_script spec (c # cs) a =
     (let (r, a1) = spec c a; (rs, a2) = spec_script spec cs a1 in (r # rs, a2))"

fun valid_script :: "('c \<Rightarrow> 'a \<Rightarrow> bool) \<Rightarrow> ('c \<Rightarrow> 'a \<Rightarrow> 'r \<times> 'a) \<Rightarrow> 'c list \<Rightarrow> 'a \<Rightarrow> bool" where
  "valid_script valid spec [] a \<longleftrightarrow> True"
| "valid_script valid spec (c # cs) a \<longleftrightarrow> valid c a \<and> valid_script valid spec cs (snd (spec c a))"

text \<open>A component refines its specification when every single call does.\<close>

locale simulation =
  fixes ok :: "'s \<Rightarrow> bool"
    and view :: "'s \<Rightarrow> 'a"
    and valid :: "'c \<Rightarrow> 'a \<Rightarrow> bool"
    and run :: "'c \<Rightarrow> 's \<Rightarrow> ('r \<times> 's) option"
    and spec :: "'c \<Rightarrow> 'a \<Rightarrow> 'r \<times> 'a"
  assumes call_law: "ok s \<Longrightarrow> valid c (view s)
      \<Longrightarrow> \<exists>s'. run c s = Some (fst (spec c (view s)), s') \<and> ok s' \<and> view s' = snd (spec c (view s))"
begin

lemma script_refines:
  "ok s \<Longrightarrow> valid_script valid spec cs (view s)
   \<Longrightarrow> \<exists>s'. run_script run cs s = Some (fst (spec_script spec cs (view s)), s') \<and> ok s'
           \<and> view s' = snd (spec_script spec cs (view s))"
proof (induction cs arbitrary: s)
  case (Cons c cs)
  then obtain s1 where 1: "run c s = Some (fst (spec c (view s)), s1)" "ok s1" "view s1 = snd (spec c (view s))"
    using call_law [of s c] by auto
  with Cons.prems have "valid_script valid spec cs (view s1)" by simp
  from Cons.IH [OF 1(2) this] 1 show ?case by (auto simp: split_def Let_def)
qed simp

end

section \<open>Words\<close>

lemma unat_drop_bit_7_less: "u \<noteq> 0 \<Longrightarrow> unat (drop_bit 7 u) < unat (u :: uint64)"
proof -
  assume "u \<noteq> 0"
  then have "0 < unat u" by (simp add: unat_gt_0)
  then show ?thesis by (simp add: unat_drop_bit_eq drop_bit_nat_def)
qed

text \<open>The bits of the masks that the encoder and the decoders use.\<close>

lemma bit_128_iff [simp]: "bit (128 :: int) n \<longleftrightarrow> n = 7"
proof -
  have "(128 :: int) = push_bit 7 1" by (simp add: push_bit_eq_mult)
  then show ?thesis by (simp only: bit_simps) auto
qed

lemma bit_127_iff [simp]: "bit (127 :: int) n \<longleftrightarrow> n < 7"
proof -
  have "(127 :: int) = mask 7" by (simp add: mask_eq_exp_minus_1)
  then show ?thesis by (simp only: bit_simps) auto
qed

lemma bit_64_iff [simp]: "bit (64 :: int) n \<longleftrightarrow> n = 6"
proof -
  have "(64 :: int) = push_bit 6 1" by (simp add: push_bit_eq_mult)
  then show ?thesis by (simp only: bit_simps) auto
qed

lemma bit_63_iff [simp]: "bit (63 :: int) n \<longleftrightarrow> n < 6"
proof -
  have "(63 :: int) = mask 6" by (simp add: mask_eq_exp_minus_1)
  then show ?thesis by (simp only: bit_simps) auto
qed

lemma uint_drop_bit_div: "uint (drop_bit k w) = uint (w :: uint64) div 2 ^ k"
proof -
  have "uint (drop_bit k w) = drop_bit k (uint w)" by (rule bit_eqI) (simp add: bit_simps)
  then show ?thesis by (simp add: drop_bit_eq_div)
qed

lemma unat_less_exp_iff: "unat w < 2 ^ k \<longleftrightarrow> uint w < 2 ^ k"
  unfolding uint_nat by (metis of_nat_less_iff of_nat_numeral of_nat_power)

lemmas unat_less_exp = unat_less_exp_iff [THEN iffD2]

end
