(* ===== verification/Encoding.thy ===== *)
theory Encoding
  imports Prelude
begin

text \<open>
  The number encoding of module files and byte code (\<^verbatim>\<open>src/vm/ejsModule.c\<close>, section Encoding).
  Numbers are written as a sign bit, six low bits and then groups of seven bits, with the top bit
  of every byte but the last one set. The compiler writes them with \<open>ejsEncodeNum\<close>; the virtual
  machine reads them from memory with \<open>ejsDecodeNum\<close> and the loader from a file with
  \<open>ejsModuleReadNum\<close>. C integers keep their widths here: \<^verbatim>\<open>int64\<close> and \<^verbatim>\<open>uint64\<close> are
  \<^typ>\<open>uint64\<close>, \<^verbatim>\<open>uint\<close> is \<^typ>\<open>uint32\<close>. A shift by 32 or more of a 32-bit operand is
  undefined in C and gives \<^const>\<open>None\<close>.
\<close>

section \<open>Encoding\<close>

text \<open>The \<^verbatim>\<open>while (unumber)\<close> loop of \<^verbatim>\<open>ejsEncodeNum\<close> and the final byte after it.\<close>

function encode_groups :: "uint32 \<Rightarrow> uint64 \<Rightarrow> bytes" where
  "encode_groups encoded unumber =
     (if unumber \<noteq> 0
      then ucast (encoded OR 0x80) # encode_groups (ucast (unumber AND 0x7f)) (drop_bit 7 unumber)
      else [ucast encoded])"
  by pat_completeness auto
termination
  by (relation "measure (\<lambda>(encoded, unumber). unat unumber)") (auto intro: unat_drop_bit_7_less)

declare encode_groups.simps [simp del]

definition ejsEncodeNum :: "uint64 \<Rightarrow> bytes" where
  "ejsEncodeNum number =
     (if number <s 0
      then let unumber = - number
           in encode_groups (ucast (push_bit 1 (unumber AND 0x3F) OR 1)) (drop_bit 6 unumber)
      else encode_groups (ucast (push_bit 1 (number AND 0x3F))) (drop_bit 6 number))"

text \<open>\<^verbatim>\<open>EJS_ENCODE_MAX_WORD\<close>, the largest magnitude that fits in four encoded bytes.\<close>

definition EJS_ENCODE_MAX_WORD :: int where
  "EJS_ENCODE_MAX_WORD = 0x07FFFFFF"

text \<open>
  \<^verbatim>\<open>ejsEncodeInt32\<close> clears four bytes at \<^verbatim>\<open>pos\<close> and encodes the number over them; it returns the
  number of bytes used, zero when the magnitude is too large. The bytes at \<^verbatim>\<open>pos\<close> are the argument.
\<close>

definition ejsEncodeInt32 :: "bytes \<Rightarrow> int \<Rightarrow> bytes \<times> int" where
  "ejsEncodeInt32 pos number =
     (if \<bar>number\<bar> > EJS_ENCODE_MAX_WORD then (pos, 0)
      else let cleared = replicate 4 0 @ drop 4 pos;
               code = ejsEncodeNum (word_of_int number)
           in (code @ drop (length code) cleared, 4))"

definition ejsEncodeByteAtPos :: "bytes \<Rightarrow> int \<Rightarrow> bytes" where
  "ejsEncodeByteAtPos pos value = word_of_int value # drop 1 pos"

definition ejsEncodeInt32AtPos :: "bytes \<Rightarrow> int \<Rightarrow> bytes \<times> int" where
  "ejsEncodeInt32AtPos pos value = ejsEncodeInt32 pos value"

section \<open>Decoding from memory\<close>

text \<open>
  The \<^verbatim>\<open>while (c & 0x80)\<close> loop of \<^verbatim>\<open>ejsDecodeNum\<close>. The operand of the shift is the 32-bit \<^verbatim>\<open>c\<close>,
  so the group is shifted at 32 bits before it is joined to the 64-bit \<^verbatim>\<open>t\<close>.
\<close>

fun decode_groups :: "uint32 \<Rightarrow> bytes \<Rightarrow> uint64 \<Rightarrow> nat \<Rightarrow> (uint64 \<times> bytes) option" where
  "decode_groups c [] t shift = (if c AND 0x80 \<noteq> 0 then None else Some (t, []))"
| "decode_groups c (b # pos) t shift =
     (if c AND 0x80 \<noteq> 0
      then if 32 \<le> shift then None
           else decode_groups (ucast b) pos
                  (t OR ucast (push_bit shift (ucast b AND 0x7f :: uint32))) (shift + 7)
      else Some (t, b # pos))"

definition ejsDecodeNum :: "bytes \<Rightarrow> (uint64 \<times> bytes) option" where
  "ejsDecodeNum pp =
     (case pp of [] \<Rightarrow> None
      | b # pos \<Rightarrow>
          let c = ucast b :: uint32;
              sign = 1 - push_bit 1 (ucast (c AND 1)) :: uint64;
              t = ucast (drop_bit 1 c AND 0x3f)
          in map_option (\<lambda>(t, pos). (t * sign, pos)) (decode_groups c pos t 6))"

text \<open>\<^verbatim>\<open>ejsDecodeInt32\<close> casts the number to \<^verbatim>\<open>int\<close> and always advances by four bytes.\<close>

definition ejsDecodeInt32 :: "bytes \<Rightarrow> (int \<times> bytes) option" where
  "ejsDecodeInt32 pp = map_option (\<lambda>(v, _). (c_int (sint v), drop 4 pp)) (ejsDecodeNum pp)"

section \<open>Reading from a module file\<close>

text \<open>The part of \<^verbatim>\<open>EjsModule\<close> that the read routines use: the unread bytes of the file and the
  error flag.\<close>

record module_reader =
  mfile :: bytes
  hasError :: bool

definition ejsModuleReadBlock :: "module_reader \<Rightarrow> nat \<Rightarrow> bytes \<times> module_reader" where
  "ejsModuleReadBlock mp len =
     (let buf = take len (mfile mp); mp' = mp\<lparr>mfile := drop len (mfile mp)\<rparr>
      in (buf, if length buf \<noteq> len then mp'\<lparr>hasError := True\<rparr> else mp'))"

definition ejsModuleReadByte :: "module_reader \<Rightarrow> int \<times> module_reader" where
  "ejsModuleReadByte mp =
     (case mfile mp of [] \<Rightarrow> (0, mp\<lparr>hasError := True\<rparr>)
      | c # rest \<Rightarrow> (uint c, mp\<lparr>mfile := rest\<rparr>))"

text \<open>
  The loop of \<^verbatim>\<open>ejsModuleReadNum\<close>. Here \<^verbatim>\<open>c\<close> is a signed \<^verbatim>\<open>int\<close>: a shifted group that is not
  representable in an \<^verbatim>\<open>int\<close> is undefined. The end of the file sets the error flag and gives zero.
\<close>

fun read_groups ::
  "int \<Rightarrow> bytes \<Rightarrow> bool \<Rightarrow> int \<Rightarrow> nat \<Rightarrow> int \<Rightarrow> (int \<times> module_reader) option" where
  "read_groups c [] err t shift sign =
     (if c AND 0x80 \<noteq> 0 then Some (0, \<lparr>mfile = [], hasError = True\<rparr>)
      else Some (t * sign, \<lparr>mfile = [], hasError = err\<rparr>))"
| "read_groups c (b # rest) err t shift sign =
     (if c AND 0x80 \<noteq> 0
      then let group = push_bit shift (uint b AND 0x7f)
           in if 32 \<le> shift \<or> MAXINT < group then None
              else read_groups (uint b) rest err (t OR group) (shift + 7) sign
      else Some (t * sign, \<lparr>mfile = b # rest, hasError = err\<rparr>))"

definition ejsModuleReadNum :: "module_reader \<Rightarrow> (int \<times> module_reader) option" where
  "ejsModuleReadNum mp =
     (case mfile mp of [] \<Rightarrow> Some (0, mp\<lparr>hasError := True\<rparr>)
      | b # rest \<Rightarrow>
          let c = uint b; sign = 1 - push_bit 1 (c AND 1); t = drop_bit 1 c AND 0x3f
          in read_groups c rest (hasError mp) t 6 sign)"

definition ejsModuleReadInt :: "module_reader \<Rightarrow> (int \<times> module_reader) option" where
  "ejsModuleReadInt mp = map_option (\<lambda>(n, mp). (c_int n, mp)) (ejsModuleReadNum mp)"

definition ejsModuleReadInt32 :: "module_reader \<Rightarrow> (int \<times> module_reader) option" where
  "ejsModuleReadInt32 mp =
     (let buf = take 4 (mfile mp); mp' = mp\<lparr>mfile := drop 4 (mfile mp)\<rparr>
      in if length buf \<noteq> 4 then Some (0, mp'\<lparr>hasError := True\<rparr>)
         else map_option (\<lambda>(v, _). (v, mp')) (ejsDecodeInt32 buf))"

text \<open>\<^verbatim>\<open>ejsModuleReadMulti\<close>: a length, then that many bytes; no result on an error. A negative
  length fails the assertion of the source and is undefined.\<close>

definition ejsModuleReadMulti :: "module_reader \<Rightarrow> (bytes option \<times> module_reader) option" where
  "ejsModuleReadMulti mp =
     (case ejsModuleReadInt mp of None \<Rightarrow> None
      | Some (len, mp1) \<Rightarrow>
          if hasError mp1 then Some (None, mp1)
          else if len < 0 then None
          else let (buf, mp2) = ejsModuleReadBlock mp1 (nat len)
               in if length buf \<noteq> nat len then Some (None, mp2\<lparr>hasError := True\<rparr>)
                  else Some (Some buf, mp2))"

section \<open>Decoding what was encoded\<close>

text \<open>
  Every step of the encoder emits the low seven bits of what is left and sets the continuation
  bit exactly when more follows. The lemmas below say that for one byte, at the word level for the
  decoder in memory and over the integers for the file reader, and then for the whole loop.
\<close>

lemma encode_groups_unfold:
  "encode_groups e u = ucast (if u = 0 then e else e OR 0x80)
     # (if u = 0 then [] else encode_groups (ucast (u AND 0x7f)) (drop_bit 7 u))"
  by (subst encode_groups.simps) simp

lemma small_bits: "e < (0x80 :: uint32) \<Longrightarrow> bit e n \<Longrightarrow> n < 7"
proof -
  assume "e < 0x80" "bit e n"
  then have "unat e < 2 ^ 7" by (simp add: word_less_nat_alt)
  then have "take_bit 7 e = e" by (simp add: take_bit_eq_mod word_less_nat_alt unat_mod word_unat_eq_iff)
  then show "n < 7" using \<open>bit e n\<close> by (metis bit_take_bit_iff)
qed

lemma continuation_bit:
  assumes "e < (0x80 :: uint32)"
  shows "(ucast (ucast (if u = 0 then e else e OR 0x80) :: byte) AND 0x80 :: uint32) \<noteq> 0 \<longleftrightarrow> u \<noteq> (0 :: uint64)"
proof (cases "u = 0")
  case True
  have "(ucast (ucast e :: byte) AND 0x80 :: uint32) = 0"
    by (rule bit_word_eqI) (auto simp: bit_simps dest: small_bits [OF assms])
  with True show ?thesis by simp
next
  case False
  have "bit (ucast (ucast (e OR 0x80) :: byte) AND 0x80 :: uint32) 7"
    by (simp add: bit_simps)
  then have "(ucast (ucast (e OR 0x80) :: byte) AND 0x80 :: uint32) \<noteq> 0" by auto
  with False show ?thesis by simp
qed

lemma group_bits:
  assumes "e < (0x80 :: uint32)"
  shows "(ucast (ucast (if u = (0 :: uint64) then e else e OR 0x80) :: byte) AND 0x7f :: uint32) = e"
  by (rule bit_word_eqI) (auto simp: bit_simps dest: small_bits [OF assms])

lemma join_groups:
  "(t OR ucast (push_bit s (ucast (u AND 0x7f :: uint64) :: uint32)))
     OR ucast (push_bit (s + 7) (ucast (drop_bit 7 u) :: uint32))
   = (t OR ucast (push_bit s (ucast u :: uint32)) :: uint64)"
proof (rule bit_word_eqI)
  fix n
  have "s + 7 \<le> n \<Longrightarrow> 7 + (n - (s + 7)) = n - s" by simp
  then show "bit ((t OR ucast (push_bit s (ucast (u AND 0x7f) :: uint32)))
        OR ucast (push_bit (s + 7) (ucast (drop_bit 7 u) :: uint32))) n
      = bit (t OR ucast (push_bit s (ucast u :: uint32)) :: uint64) n"
    by (cases "s + 7 \<le> n") (auto simp: bit_simps)
qed

lemma next_group_small: "ucast (u AND 0x7f :: uint64) < (0x80 :: uint32)"
proof -
  have "u AND 0x7f \<le> 0x7f" by (rule word_and_le1)
  then have "unat (u AND 0x7f) < 128" by (simp add: word_le_nat_alt)
  then show ?thesis by (simp add: word_less_nat_alt unsigned_ucast_eq take_bit_nat_eq_self)
qed

lemma decode_encode_groups:
  assumes "e < 0x80"
  shows "decode_groups (ucast (hd (encode_groups e u))) (tl (encode_groups e u) @ rest) t s =
     (if unat u < 2 ^ (7 * ((38 - s) div 7))
      then Some (t OR ucast (push_bit s (ucast u :: uint32)), rest) else None)"
  using assms
proof (induction e u arbitrary: t s rule: encode_groups.induct)
  case (1 e u)
  note e = continuation_bit [OF "1.prems", of u]
  show ?case
  proof (cases "u = 0")
    case True
    with e have "decode_groups (ucast (ucast e :: byte)) rest t s = Some (t, rest)"
      by (cases rest) simp_all
    with True show ?thesis by (simp add: encode_groups_unfold [of e 0])
  next
    case False
    let ?e = "ucast (u AND 0x7f) :: uint32" and ?u = "drop_bit 7 u"
    obtain b bs where bs: "encode_groups ?e ?u = b # bs" using encode_groups_unfold by blast
    then have b: "b = ucast (if ?u = 0 then ?e else ?e OR 0x80)" by (simp add: encode_groups_unfold [of ?e])
    have g: "(ucast b AND 0x7f :: uint32) = ?e" unfolding b by (rule group_bits [OF next_group_small])
    have IH: "decode_groups (ucast b) (bs @ rest) t' s' =
     (if unat ?u < 2 ^ (7 * ((38 - s') div 7))
      then Some (t' OR ucast (push_bit s' (ucast ?u :: uint32)), rest) else None)" for t' s'
      using "1.IH" [OF False next_group_small, of t' s'] by (simp add: bs)
    have "decode_groups (ucast (hd (encode_groups e u))) (tl (encode_groups e u) @ rest) t s
      = (if 32 \<le> s then None else decode_groups (ucast b) (bs @ rest) (t OR ucast (push_bit s ?e)) (s + 7))"
      using e False by (simp add: encode_groups_unfold [of e u] bs g)
    then show ?thesis 
    proof (cases "32 \<le> s")
      case True
      then have "(38 - s) div 7 = 0" by simp
      with False True \<open>decode_groups (ucast (hd _)) _ _ _ = _\<close> show ?thesis by (simp add: unat_eq_zero)
    next
      case ns: False
      then have *: "(38 - s) div 7 = Suc ((38 - (s + 7)) div 7)" by linarith
      have "unat ?u < 2 ^ (7 * ((38 - (s+7)) div 7)) \<longleftrightarrow> unat u < 2 ^ (7 * ((38 - s) div 7))"
        by (simp add: * power_add unat_drop_bit_eq drop_bit_nat_def div_less_iff_less_mult mult.commute)
      with ns \<open>decode_groups (ucast (hd _)) _ _ _ = _\<close> show ?thesis by (simp add: IH join_groups)
    qed
  qed
qed

text \<open>The first byte: sign bit and six low bits.\<close>

definition first_group :: "uint64 \<Rightarrow> bool \<Rightarrow> uint32" where
  "first_group m neg = ucast (push_bit 1 (m AND 0x3F) OR of_bool neg)"

lemma bit_first_group: "bit (first_group m neg) n \<longleftrightarrow> n = 0 \<and> neg \<or> 1 \<le> n \<and> n < 7 \<and> bit m (n - 1)"
  unfolding first_group_def by (simp only: bit_simps bit_63_iff possible_bit_word) auto

lemma first_group_small: "first_group m neg < 0x80"
proof -
  have "take_bit 7 (first_group m neg) = first_group m neg"
    by (rule bit_word_eqI) (auto simp: bit_simps bit_first_group)
  then have "unat (first_group m neg) < 2 ^ 7" by (metis take_bit_nat_less_exp unsigned_take_bit_eq)
  then show ?thesis by (simp add: word_less_nat_alt)
qed

definition magnitude :: "uint64 \<Rightarrow> uint64" where
  "magnitude n = (if n <s 0 then - n else n)"

lemma ejsEncodeNum_eq: "ejsEncodeNum n = encode_groups (first_group (magnitude n) (n <s 0)) (drop_bit 6 (magnitude n))"
  by (simp add: ejsEncodeNum_def first_group_def magnitude_def)

lemma first_byte:
  fixes u m :: uint64 and neg :: bool
  defines "c \<equiv> ucast (ucast (if u = 0 then first_group m neg else first_group m neg OR 0x80) :: byte) :: uint32"
  shows "drop_bit 1 c AND 0x3f = ucast (m AND 0x3f)"
    and "c AND 1 = of_bool neg"
proof -
  show "drop_bit 1 c AND 0x3f = ucast (m AND 0x3f)"
    by (rule bit_word_eqI) (auto simp: bit_simps c_def bit_first_group)
  show "c AND 1 = of_bool neg"
    by (rule bit_word_eqI) (auto simp: bit_simps c_def bit_first_group)
qed

lemma join_first:
  "(ucast (ucast (m AND 0x3f :: uint64) :: uint32) OR ucast (push_bit 6 (ucast (drop_bit 6 m) :: uint32)) :: uint64)
   = take_bit 32 m"
proof (rule bit_word_eqI)
  fix n :: nat
  have "6 \<le> n \<Longrightarrow> 6 + (n - 6) = n" by simp
  then show "bit (ucast (ucast (m AND 0x3f) :: uint32) OR ucast (push_bit 6 (ucast (drop_bit 6 m) :: uint32)) :: uint64) n
      = bit (take_bit 32 m) n"
    by (cases "6 \<le> n") (auto simp: bit_simps)
qed

lemma decode_encode_word:
  "ejsDecodeNum (ejsEncodeNum n @ rest) =
     (if unat (magnitude n) < 2 ^ 34
      then Some (take_bit 32 (magnitude n) * (if n <s 0 then -1 else 1), rest) else None)"
proof -
  let ?m = "magnitude n" let ?u = "drop_bit 6 ?m" let ?e = "first_group ?m (n <s 0)"
  obtain b bs where bs: "encode_groups ?e ?u = b # bs" using encode_groups_unfold by blast
  then have b: "b = ucast (if ?u = 0 then ?e else ?e OR 0x80)"
    by (simp add: encode_groups_unfold [of ?e])
  have "unat ?u < 2 ^ 28 \<longleftrightarrow> unat ?m < 2 ^ 34"
    by (simp add: unat_drop_bit_eq drop_bit_nat_def div_less_iff_less_mult)
  then have "decode_groups (ucast b) (bs @ rest) t 6 = (if unat ?m < 2 ^ 34
      then Some (t OR ucast (push_bit 6 (ucast ?u :: uint32)), rest) else None)" for t
    using decode_encode_groups [OF first_group_small, of ?m "n <s 0" ?u rest t 6] by (simp add: bs)
  moreover have "drop_bit 1 (ucast b :: uint32) AND 0x3f = ucast (?m AND 0x3f)"
    and "(ucast b :: uint32) AND 1 = of_bool (n <s 0)"
    unfolding b by (rule first_byte)+
  ultimately show ?thesis
    by (simp add: ejsDecodeNum_def ejsEncodeNum_eq bs Let_def join_first del: One_nat_def)
qed

lemma uint_magnitude: "uint (magnitude n) = \<bar>sint n\<bar>"
proof -
  have b: "- (2 ^ 63) \<le> sint n" "sint n < 2 ^ 63"
    using sint_ge [of n] sint_lt [of n] by simp_all
  have "magnitude n = word_of_int \<bar>sint n\<bar>"
    by (auto simp: magnitude_def word_sless_alt abs_if)
  then have "uint (magnitude n) = take_bit 64 \<bar>sint n\<bar>" by (simp add: unsigned_of_int)
  also have "\<dots> = \<bar>sint n\<bar>" using b by (intro take_bit_int_eq_self) auto
  finally show ?thesis .
qed

lemma sint_take:
  assumes "\<bar>sint n\<bar> < 2 ^ 32"
  shows "take_bit 32 (magnitude n) * (if n <s 0 then -1 else 1) = n"
proof -
  have "unat (magnitude n) < 2 ^ 32" using uint_magnitude [of n] assms by (simp add: unat_eq_nat_uint)
  then have "take_bit 32 (magnitude n) = magnitude n"
    by (simp add: word_unat_eq_iff unsigned_take_bit_eq take_bit_nat_eq_self)
  then show ?thesis by (simp add: magnitude_def)
qed

lemma continuation_bit_int:
  assumes "e < (0x80 :: uint32)"
  shows "uint (ucast (if u = 0 then e else e OR 0x80) :: byte) AND 0x80 \<noteq> 0 \<longleftrightarrow> u \<noteq> (0 :: uint64)"
proof -
  let ?b = "ucast (if u = 0 then e else e OR 0x80) :: byte"
  have "uint ?b AND 0x80 = uint (ucast ?b AND 0x80 :: uint32)"
    by (rule bit_eqI) (auto simp: bit_simps)
  then show ?thesis using continuation_bit [OF assms, of u] by (simp only: uint_0_iff)
qed

lemma group_bits_int:
  assumes "e < (0x80 :: uint32)"
  shows "uint (ucast (if u = (0 :: uint64) then e else e OR 0x80) :: byte) AND 0x7f = uint e"
  by (rule bit_eqI) (auto simp: bit_simps dest: small_bits [OF assms])

lemma join_groups_int:
  "(t OR push_bit s (x mod 128)) OR push_bit (s + 7) (x div 128) = (t OR push_bit s x :: int)"
proof -
  have "x mod 128 = take_bit 7 x" "x div 128 = drop_bit 7 x"
    by (simp_all add: take_bit_eq_mod drop_bit_eq_div)
  moreover have "push_bit s (take_bit 7 x) OR push_bit (s + 7) (drop_bit 7 x) = push_bit s x"
  proof (rule bit_eqI)
    fix n
    have "s + 7 \<le> n \<Longrightarrow> 7 + (n - (s + 7)) = n - s" by simp
    then show "bit (push_bit s (take_bit 7 x) OR push_bit (s + 7) (drop_bit 7 x)) n = bit (push_bit s x) n"
      by (cases "s + 7 \<le> n") (auto simp: bit_simps)
  qed
  ultimately show ?thesis by (simp add: or.assoc)
qed

lemma next_group_int: "uint (ucast (u AND 0x7f :: uint64) :: uint32) = uint u mod 128"
proof -
  have "uint (ucast (u AND 0x7f :: uint64) :: uint32) = take_bit 7 (uint u)"
    by (rule bit_eqI) (auto simp: bit_simps)
  then show ?thesis by (simp add: take_bit_eq_mod)
qed

lemma read_condition:
  fixes u :: int
  assumes "0 < u"
  shows "s < 32 \<and> push_bit s (u mod 128) \<le> MAXINT \<and> u div 128 < 2 ^ (31 - (s + 7)) \<longleftrightarrow> u < 2 ^ (31 - s)"
proof -
  consider "32 \<le> s" | "24 < s" "s < 32" | "s \<le> 24" by linarith
  then show ?thesis
  proof cases
    case 1 then show ?thesis using assms by simp
  next
    case 2
    obtain k where k: "s = 31 - k" "k < 7" using 2 by (intro that [of "31 - s"]) auto
    then have "k = 0 \<or> k = 1 \<or> k = 2 \<or> k = 3 \<or> k = 4 \<or> k = 5 \<or> k = 6" by linarith
    then show ?thesis using assms k by (elim disjE) (auto simp: push_bit_eq_mult MAXINT_def)
  next
    case 3
    then have "(2::int) ^ (31 - s) = 128 * 2 ^ (31 - (s + 7))"
      by (simp flip: power_add add: Suc_diff_le numeral_eq_Suc)
    moreover have "push_bit s (u mod 128) \<le> MAXINT"
    proof -
      have "(2::int) ^ s \<le> 2 ^ 24" using 3 by (rule power_increasing) simp
      moreover have "0 \<le> u mod 128" "u mod 128 \<le> 127" by simp_all
      ultimately have "u mod 128 * 2 ^ s \<le> 127 * 2 ^ 24" by (intro mult_mono) auto
      then show ?thesis by (simp add: push_bit_eq_mult MAXINT_def)
    qed
    ultimately show ?thesis using 3 by auto
  qed
qed

lemma read_encode_groups:
  assumes "e < 0x80"
  shows "read_groups (uint (hd (encode_groups e u))) (tl (encode_groups e u) @ rest) err t s sg =
     (if uint u < 2 ^ (31 - s)
      then Some ((t OR push_bit s (uint u)) * sg, \<lparr>mfile = rest, hasError = err\<rparr>) else None)"
  using assms
proof (induction e u arbitrary: t s rule: encode_groups.induct)
  case (1 e u)
  note e = continuation_bit_int [OF "1.prems", of u]
  show ?case
  proof (cases "u = 0")
    case True
    with e have "read_groups (uint (ucast e :: byte)) rest err t s sg
        = Some (t * sg, \<lparr>mfile = rest, hasError = err\<rparr>)"
      by (cases rest) simp_all
    with True show ?thesis by (simp add: encode_groups_unfold [of e 0])
  next
    case False
    let ?e = "ucast (u AND 0x7f) :: uint32" and ?u = "drop_bit 7 u"
    obtain b bs where bs: "encode_groups ?e ?u = b # bs" using encode_groups_unfold by blast
    then have b: "b = ucast (if ?u = 0 then ?e else ?e OR 0x80)"
      by (simp add: encode_groups_unfold [of ?e])
    have g: "uint b AND 0x7f = uint ?e" unfolding b by (rule group_bits_int [OF next_group_small])
    have step: "read_groups (uint (hd (encode_groups e u))) (tl (encode_groups e u) @ rest) err t s sg
      = (if 32 \<le> s \<or> MAXINT < push_bit s (uint ?e) then None
         else read_groups (uint b) (bs @ rest) err (t OR push_bit s (uint ?e)) (s + 7) sg)"
      using e False by (simp add: encode_groups_unfold [of e u] bs g Let_def)
    have IH: "read_groups (uint b) (bs @ rest) err t' s' sg =
     (if uint ?u < 2 ^ (31 - s')
      then Some ((t' OR push_bit s' (uint ?u)) * sg, \<lparr>mfile = rest, hasError = err\<rparr>) else None)" for t' s'
      using "1.IH" [OF False next_group_small, of t' s'] by (simp add: bs)
    have "0 < uint u" using False by (simp add: uint_0_iff less_le)
    from read_condition [OF this, of s] show ?thesis
      by (auto simp: step IH join_groups_int next_group_int uint_drop_bit_div)
  qed
qed

lemma first_byte_int:
  fixes u m :: uint64 and neg :: bool
  defines "b \<equiv> ucast (if u = 0 then first_group m neg else first_group m neg OR 0x80) :: byte"
  shows "drop_bit 1 (uint b) AND 0x3f = uint (m AND 0x3f)"
    and "uint b AND 1 = of_bool neg"
proof -
  show "drop_bit 1 (uint b) AND 0x3f = uint (m AND 0x3f)"
    by (rule bit_eqI) (auto simp: bit_simps b_def bit_first_group)
  show "uint b AND 1 = of_bool neg"
    by (rule bit_eqI) (auto simp: bit_simps b_def bit_first_group)
qed

lemma join_first_int: "uint (m AND 0x3f :: uint64) OR push_bit 6 (uint (drop_bit 6 m)) = uint m"
proof (rule bit_eqI)
  fix n :: nat
  have "6 \<le> n \<Longrightarrow> 6 + (n - 6) = n" by simp
  then show "bit (uint (m AND 0x3f) OR push_bit 6 (uint (drop_bit 6 m))) n = bit (uint m) n"
    by (cases "6 \<le> n") (auto simp: bit_simps)
qed

lemma read_encode_int:
  "ejsModuleReadNum \<lparr>mfile = ejsEncodeNum n @ rest, hasError = err\<rparr> =
     (if \<bar>sint n\<bar> < 2 ^ 31 then Some (sint n, \<lparr>mfile = rest, hasError = err\<rparr>) else None)"
proof -
  let ?m = "magnitude n" let ?u = "drop_bit 6 ?m" let ?e = "first_group ?m (n <s 0)"
  obtain b bs where bs: "encode_groups ?e ?u = b # bs" using encode_groups_unfold by blast
  then have b: "b = ucast (if ?u = 0 then ?e else ?e OR 0x80)"
    by (simp add: encode_groups_unfold [of ?e])
  have "uint ?u < 2 ^ 25 \<longleftrightarrow> uint ?m < 2 ^ 31"
    by (auto simp: uint_drop_bit_div)
  then have *: "read_groups (uint b) (bs @ rest) err t 6 s = (if uint ?m < 2 ^ 31
      then Some ((t OR push_bit 6 (uint ?u)) * s, \<lparr>mfile = rest, hasError = err\<rparr>) else None)" for t s
    using read_encode_groups [OF first_group_small, of ?m "n <s 0" ?u rest err t 6 s] by (simp add: bs)
  have "drop_bit 1 (uint b) AND 0x3f = uint (?m AND 0x3f)" "uint b AND 1 = of_bool (n <s 0)"
    unfolding b by (rule first_byte_int)+
  then have "ejsModuleReadNum \<lparr>mfile = ejsEncodeNum n @ rest, hasError = err\<rparr>
      = read_groups (uint b) (bs @ rest) err (uint (?m AND 0x3f)) 6 (if n <s 0 then -1 else 1)"
    by (simp add: ejsModuleReadNum_def ejsEncodeNum_eq bs Let_def del: One_nat_def push_bit_and)
  then show ?thesis
    by (auto simp: * join_first_int uint_magnitude word_sless_alt abs_if)
qed

section \<open>Length of an encoding\<close>

lemma encode_groups_length:
  "unat u < 2 ^ (7 * k) \<Longrightarrow> length (encode_groups e u) \<le> Suc k"
proof (induction k arbitrary: e u)
  case 0
  then show ?case by (simp add: encode_groups_unfold unat_eq_0)
next
  case (Suc k)
  then have "unat (drop_bit 7 u) < 2 ^ (7 * k)"
    by (simp add: unat_drop_bit_eq drop_bit_nat_def power_add div_less_iff_less_mult mult.commute)
  then have "length (encode_groups e' (drop_bit 7 u)) \<le> Suc k" for e' by (rule Suc.IH)
  then show ?case by (simp add: encode_groups_unfold [of e u])
qed

lemma ejsEncodeNum_length_le:
  assumes "\<bar>sint n\<bar> < 2 ^ (6 + 7 * k)"
  shows "length (ejsEncodeNum n) \<le> Suc k"
proof -
  have "uint (magnitude n) < 64 * 2 ^ (7 * k)" using assms unfolding uint_magnitude power_add by simp
  then have "uint (magnitude n) div 64 < 2 ^ (7 * k)" by linarith
  then have "uint (drop_bit 6 (magnitude n)) < 2 ^ (7 * k)" unfolding uint_drop_bit_div by simp
  then have "unat (drop_bit 6 (magnitude n)) < 2 ^ (7 * k)" by (rule unat_less_exp)
  then show ?thesis unfolding ejsEncodeNum_eq by (rule encode_groups_length)
qed

lemma ejsEncodeNum_nonempty: "ejsEncodeNum n \<noteq> []"
  unfolding ejsEncodeNum_eq by (subst encode_groups_unfold) simp

lemma length_encoded: "length (ejsEncodeNum n) \<le> 10"
proof -
  have "- (2 ^ 63) \<le> sint n" "sint n < 2 ^ 63" using sint_ge [of n] sint_lt [of n] by simp_all
  then have "\<bar>sint n\<bar> < 2 ^ (6 + 7 * 9)" by simp
  then have "length (ejsEncodeNum n) \<le> Suc 9" by (rule ejsEncodeNum_length_le)
  then show ?thesis by simp
qed

text \<open>
  An encoded number takes between one and ten bytes, so the assertion
  \<^verbatim>\<open>(pos - start) < 11\<close> of \<^verbatim>\<open>ejsEncodeNum\<close> holds and the \<^verbatim>\<open>sizeof(int64) + 2\<close> bytes that
  \<^verbatim>\<open>ecEncodeNum\<close> reserves are enough.
\<close>

theorem encoded_length: "1 \<le> length (ejsEncodeNum n) \<and> length (ejsEncodeNum n) \<le> 10"
  using ejsEncodeNum_nonempty [of n] length_encoded [of n] by (simp add: Suc_le_eq)

lemma take_magnitude:
  "take_bit 32 (magnitude n) * (if n <s 0 then -1 else 1) = word_of_int (sgn (sint n) * (\<bar>sint n\<bar> mod 2 ^ 32))"
proof -
  have "take_bit 32 (magnitude n) = word_of_int (take_bit 32 (uint (magnitude n)))"
    by (simp flip: unsigned_take_bit_eq)
  then have "take_bit 32 (magnitude n) = word_of_int (\<bar>sint n\<bar> mod 2 ^ 32)"
    by (simp add: uint_magnitude take_bit_eq_mod)
  then show ?thesis by (auto simp: word_sless_alt sgn_if)
qed

text \<open>
  Property C7. What the virtual machine decodes from an encoded number, for every 64-bit number:
  the number itself as long as its magnitude is below \<open>2 ^ 32\<close>; from there to \<open>2 ^ 34\<close> the bits
  above the 32nd are lost, since the groups are shifted as 32-bit values; beyond that the decoder
  shifts a 32-bit value by 34 places, which is undefined. In the defined cases exactly the bytes
  of the number are consumed.
\<close>

theorem decode_encode_num:
  "ejsDecodeNum (ejsEncodeNum n @ rest) =
     (if \<bar>sint n\<bar> < 2 ^ 34
      then Some (word_of_int (sgn (sint n) * (\<bar>sint n\<bar> mod 2 ^ 32)), rest) else None)"
proof -
  have "unat (magnitude n) < 2 ^ 34 \<longleftrightarrow> \<bar>sint n\<bar> < 2 ^ 34"
    using unat_less_exp_iff [of "magnitude n" 34] by (simp only: uint_magnitude)
  then show ?thesis by (simp only: decode_encode_word take_magnitude)
qed

lemma decode_encode_small:
  assumes "\<bar>sint n\<bar> < 2 ^ 32"
  shows "ejsDecodeNum (ejsEncodeNum n @ rest) = Some (n, rest)"
proof -
  have "uint (magnitude n) < 2 ^ 34" using assms by (simp add: uint_magnitude)
  then have "unat (magnitude n) < 2 ^ 34" by (rule unat_less_exp)
  then show ?thesis using sint_take [OF assms] by (simp add: decode_encode_word)
qed

section \<open>Fixed-width numbers\<close>

lemma sint_of_int_small: "\<bar>i\<bar> < 2 ^ 63 \<Longrightarrow> sint (word_of_int i :: uint64) = i"
  by (simp add: signed_of_int signed_take_bit_int_eq_self)

lemma encode_int32_bytes:
  assumes "\<bar>number\<bar> \<le> EJS_ENCODE_MAX_WORD" and "4 \<le> length pos"
  shows "ejsEncodeInt32 pos number =
     (ejsEncodeNum (word_of_int number) @ replicate (4 - length (ejsEncodeNum (word_of_int number))) 0 @ drop 4 pos, 4)"
    and "length (ejsEncodeNum (word_of_int number)) \<le> 4"
proof -
  have "\<bar>sint (word_of_int number :: uint64)\<bar> < 2 ^ (6 + 7 * 3)"
    using assms(1) by (simp add: sint_of_int_small EJS_ENCODE_MAX_WORD_def)
  then show l: "length (ejsEncodeNum (word_of_int number)) \<le> 4"
    using ejsEncodeNum_length_le [of "word_of_int number" 3] by simp
  then show "ejsEncodeInt32 pos number =
     (ejsEncodeNum (word_of_int number) @ replicate (4 - length (ejsEncodeNum (word_of_int number))) 0 @ drop 4 pos, 4)"
    using assms by (simp add: ejsEncodeInt32_def Let_def)
qed

lemma int32_roundtrip_aux:
  assumes "\<bar>number\<bar> \<le> EJS_ENCODE_MAX_WORD" and "4 \<le> length pos"
  shows "snd (ejsEncodeInt32 pos number) = 4
    \<and> length (fst (ejsEncodeInt32 pos number)) = length pos
    \<and> ejsDecodeInt32 (fst (ejsEncodeInt32 pos number)) = Some (number, drop 4 pos)"
proof -
  have b: "\<bar>number\<bar> < 2 ^ 27" using assms(1) by (simp add: EJS_ENCODE_MAX_WORD_def)
  then have "sint (word_of_int number :: uint64) = number" by (simp add: sint_of_int_small)
  then have "ejsDecodeNum (fst (ejsEncodeInt32 pos number)) = Some (word_of_int number, replicate (4 - length (ejsEncodeNum (word_of_int number))) 0 @ drop 4 pos)"
    using b by (simp add: encode_int32_bytes(1) [OF assms] decode_encode_small)
  then show ?thesis using b encode_int32_bytes [OF assms] assms(2)
    by (simp add: ejsDecodeInt32_def sint_of_int_small c_int_id)
qed

text \<open>
  Property C27. Fixed-width numbers: a number of at most \<open>EJS_ENCODE_MAX_WORD\<close> in magnitude is
  written over exactly four bytes, leaves what follows alone, and is decoded to itself with the
  position advanced by four.
\<close>

theorem int32_roundtrip:
  assumes "\<bar>number\<bar> \<le> EJS_ENCODE_MAX_WORD" and "4 \<le> length pos"
  shows "snd (ejsEncodeInt32 pos number) = 4
    \<and> length (fst (ejsEncodeInt32 pos number)) = length pos
    \<and> ejsDecodeInt32 (fst (ejsEncodeInt32 pos number)) = Some (number, drop 4 pos)"
  using assms by (rule int32_roundtrip_aux)

theorem int32_roundtrip_witness:
  "snd (ejsEncodeInt32 [9, 9, 9, 9, 7] (-1000)) = 4
    \<and> length (fst (ejsEncodeInt32 [9, 9, 9, 9, 7] (-1000))) = length [9, 9, 9, 9, 7 :: byte]
    \<and> ejsDecodeInt32 (fst (ejsEncodeInt32 [9, 9, 9, 9, 7] (-1000))) = Some (-1000, drop 4 [9, 9, 9, 9, 7])"
  by (rule int32_roundtrip) (simp_all add: EJS_ENCODE_MAX_WORD_def)

section \<open>Fields of a module file\<close>

text \<open>A loop of the loader that reads a known number of items.\<close>

fun read_many ::
  "(module_reader \<Rightarrow> ('a \<times> module_reader) option) \<Rightarrow> nat \<Rightarrow> module_reader
    \<Rightarrow> ('a list \<times> module_reader) option" where
  "read_many get 0 mp = Some ([], mp)"
| "read_many get (Suc n) mp =
     (case get mp of None \<Rightarrow> None
      | Some (a, mp1) \<Rightarrow> (case read_many get n mp1 of None \<Rightarrow> None
          | Some (as, mp2) \<Rightarrow> Some (a # as, mp2)))"

text \<open>
  The contract between the writer and the reader of one kind of field: what was put is what is
  got, and exactly the bytes of the field are consumed. Fields so described are prefix-free, and
  sequences of them are read back in order.
\<close>

locale module_field =
  fixes put :: "'a \<Rightarrow> bytes"
    and get :: "module_reader \<Rightarrow> ('a \<times> module_reader) option"
    and fits :: "'a \<Rightarrow> bool"
  assumes get_put: "fits a \<Longrightarrow> get \<lparr>mfile = put a @ rest, hasError = False\<rparr>
      = Some (a, \<lparr>mfile = rest, hasError = False\<rparr>)"
begin

lemma put_prefix_free:
  assumes "fits a" "fits b" "put a @ xs = put b @ ys"
  shows "a = b \<and> xs = ys"
  using get_put [OF assms(1), of xs] get_put [OF assms(2), of ys] unfolding assms(3) by simp

lemma put_inj: "fits a \<Longrightarrow> fits b \<Longrightarrow> put a = put b \<Longrightarrow> a = b"
  using put_prefix_free [of a b "[]" "[]"] by simp

lemma read_many_put:
  "list_all fits as \<Longrightarrow>
    read_many get (length as) \<lparr>mfile = concat (map put as) @ rest, hasError = False\<rparr>
      = Some (as, \<lparr>mfile = rest, hasError = False\<rparr>)"
  by (induction as) (simp_all add: get_put)

end

lemma read_int_encoded:
  "\<bar>i\<bar> < 2 ^ 31 \<Longrightarrow> ejsModuleReadInt \<lparr>mfile = ejsEncodeNum (word_of_int i) @ rest, hasError = err\<rparr>
     = Some (i, \<lparr>mfile = rest, hasError = err\<rparr>)"
  by (simp add: ejsModuleReadInt_def read_encode_int sint_of_int_small c_int_id)

interpretation num_field: module_field "\<lambda>i. ejsEncodeNum (word_of_int i)" ejsModuleReadInt "\<lambda>i. \<bar>i\<bar> < 2 ^ 31"
  by unfold_locales (rule read_int_encoded)

interpretation byte_field: module_field "\<lambda>i. [word_of_int i]" "\<lambda>mp. Some (ejsModuleReadByte mp)" "\<lambda>i. 0 \<le> i \<and> i < 256"
  by unfold_locales (simp add: ejsModuleReadByte_def unsigned_of_int take_bit_int_eq_self)

lemma length_encode_int32: "\<bar>i\<bar> \<le> EJS_ENCODE_MAX_WORD \<Longrightarrow> length (fst (ejsEncodeInt32 (replicate 4 0) i)) = 4"
  using int32_roundtrip_aux [of i "replicate 4 0"] by simp

interpretation int32_field: module_field "\<lambda>i. fst (ejsEncodeInt32 (replicate 4 0) i)" ejsModuleReadInt32
  "\<lambda>i. \<bar>i\<bar> \<le> EJS_ENCODE_MAX_WORD"
proof unfold_locales
  fix a rest
  assume a: "\<bar>a\<bar> \<le> EJS_ENCODE_MAX_WORD"
  then have "ejsDecodeInt32 (fst (ejsEncodeInt32 (replicate 4 0) a)) = Some (a, [])"
    using int32_roundtrip_aux [of a "replicate 4 0"] by simp
  with length_encode_int32 [OF a]
  show "ejsModuleReadInt32 \<lparr>mfile = fst (ejsEncodeInt32 (replicate 4 0) a) @ rest, hasError = False\<rparr>
      = Some (a, \<lparr>mfile = rest, hasError = False\<rparr>)"
    by (simp add: ejsModuleReadInt32_def Let_def)
qed

lemma read_length_encoded:
  "n < 2 ^ 31 \<Longrightarrow> ejsModuleReadInt \<lparr>mfile = ejsEncodeNum (word_of_nat n) @ rest, hasError = err\<rparr>
     = Some (int n, \<lparr>mfile = rest, hasError = err\<rparr>)"
  using read_int_encoded [of "int n" rest err] by simp

interpretation multi_field: module_field
  "\<lambda>bs. ejsEncodeNum (word_of_int (int (length bs))) @ bs"
  "\<lambda>mp. case ejsModuleReadMulti mp of Some (Some bs, mp') \<Rightarrow> Some (bs, mp') | _ \<Rightarrow> None"
  "\<lambda>bs. length bs < 2 ^ 31"
  by unfold_locales
    (simp add: ejsModuleReadMulti_def read_length_encoded ejsModuleReadBlock_def)

text \<open>
  Property C21. What the loader reads back from an encoded number, for every 64-bit number: the
  number itself when its magnitude is below \<open>2 ^ 31\<close>, with the rest of the file unread and the error
  flag unchanged. For larger numbers the reader shifts bits into or past the sign of an \<^verbatim>\<open>int\<close>.
\<close>

theorem module_read_encoded_num:
  "ejsModuleReadNum \<lparr>mfile = ejsEncodeNum n @ rest, hasError = err\<rparr> =
     (if \<bar>sint n\<bar> < 2 ^ 31 then Some (sint n, \<lparr>mfile = rest, hasError = err\<rparr>) else None)"
  by (rule read_encode_int)

text \<open>
  Sequences of numbers: a list of numbers written one after the other is read back,
  in order, by as many calls of \<^verbatim>\<open>ejsModuleReadInt\<close>, whatever follows it in the file.
\<close>

theorem read_back_numbers:
  assumes "list_all (\<lambda>i. \<bar>i\<bar> < 2 ^ 31) is"
  shows "read_many ejsModuleReadInt (length is)
      \<lparr>mfile = concat (map (\<lambda>i. ejsEncodeNum (word_of_int i)) is) @ rest, hasError = False\<rparr>
    = Some (is, \<lparr>mfile = rest, hasError = False\<rparr>)"
  using assms by (rule num_field.read_many_put)

theorem read_back_numbers_witness:
  "read_many ejsModuleReadInt (length [3 :: int, -70, 123456789])
      \<lparr>mfile = concat (map (\<lambda>i. ejsEncodeNum (word_of_int i)) [3, -70, 123456789]) @ [5, 6],
       hasError = False\<rparr>
    = Some ([3, -70, 123456789], \<lparr>mfile = [5, 6], hasError = False\<rparr>)"
  by (rule read_back_numbers) simp

section \<open>Truncated files\<close>

lemma read_groups_truncated:
  assumes "e < 0x80" and "uint u < 2 ^ (31 - s)" and "k < length (tl (encode_groups e u))"
  shows "read_groups (uint (hd (encode_groups e u))) (take k (tl (encode_groups e u))) err t s sg
    = Some (0, \<lparr>mfile = [], hasError = True\<rparr>)"
  using assms
proof (induction e u arbitrary: t s k rule: encode_groups.induct)
  case (1 e u)
  have nz: "u \<noteq> 0" using "1.prems"(3) by (auto simp: encode_groups_unfold [of e u] split: if_splits)
  let ?e = "ucast (u AND 0x7f) :: uint32" and ?u = "drop_bit 7 u"
  obtain b bs where bs: "encode_groups ?e ?u = b # bs" using encode_groups_unfold by blast
  then have b: "b = ucast (if ?u = 0 then ?e else ?e OR 0x80)"
    by (simp add: encode_groups_unfold [of ?e])
  have g: "uint b AND 0x7f = uint ?e" unfolding b by (rule group_bits_int [OF next_group_small])
  have c: "uint (hd (encode_groups e u)) AND 0x80 \<noteq> 0"
    using continuation_bit_int [OF "1.prems"(1), of u] nz by (simp add: encode_groups_unfold [of e u])
  have tl: "tl (encode_groups e u) = b # bs" using nz by (simp add: encode_groups_unfold [of e u] bs)
  show ?case
  proof (cases k)
    case 0
    with c show ?thesis by simp
  next
    case (Suc k')
    have "0 < uint u" using nz by (simp add: uint_0_iff less_le)
    from read_condition [OF this, of s] "1.prems"(2)
    have ok: "s < 32" "push_bit s (uint ?e) \<le> MAXINT" "uint ?u < 2 ^ (31 - (s + 7))"
      by (simp_all add: next_group_int uint_drop_bit_div)
    have "k' < length (tl (encode_groups ?e ?u))" using "1.prems"(3) Suc by (simp add: tl bs)
    from "1.IH" [OF nz next_group_small ok(3) this] ok c show ?thesis
      by (simp add: tl bs Suc g Let_def)
  qed
qed

text \<open>
  A file that ends inside an encoded number: the read gives zero, consumes what there
  is and sets the error flag of the module, which the section loaders test.
\<close>

theorem read_truncated_num:
  assumes "\<bar>sint n\<bar> < 2 ^ 31" and "k < length (ejsEncodeNum n)"
  shows "ejsModuleReadNum \<lparr>mfile = take k (ejsEncodeNum n), hasError = err\<rparr>
    = Some (0, \<lparr>mfile = [], hasError = True\<rparr>)"
proof (cases k)
  case 0
  then show ?thesis by (simp add: ejsModuleReadNum_def)
next
  case (Suc k')
  let ?m = "magnitude n" let ?u = "drop_bit 6 ?m" let ?e = "first_group ?m (n <s 0)"
  obtain b bs where bs: "encode_groups ?e ?u = b # bs" using encode_groups_unfold by blast
  have "uint ?u < 2 ^ (31 - 6)" using assms(1) by (simp add: uint_drop_bit_div uint_magnitude)
  then have "read_groups (uint b) (take k' bs) err t 6 sg
      = Some (0, \<lparr>mfile = [], hasError = True\<rparr>)" for t sg
    using read_groups_truncated [of ?e ?u 6 k' err t sg] assms(2) Suc
    by (simp add: first_group_small ejsEncodeNum_eq bs)
  then show ?thesis by (simp add: ejsModuleReadNum_def ejsEncodeNum_eq bs Let_def Suc)
qed

theorem read_truncated_num_witness:
  "ejsModuleReadNum \<lparr>mfile = take 2 (ejsEncodeNum 100000), hasError = False\<rparr>
    = Some (0, \<lparr>mfile = [], hasError = True\<rparr>)"
  by (rule read_truncated_num) (simp_all add: ejsEncodeNum_def encode_groups.simps)

end
