(* ===== verification/ByteArray.thy ===== *)
theory ByteArray
  imports Prelude
begin

text \<open>
  The ByteArray class (\<^verbatim>\<open>src/core/src/ejsByteArray.c\<close>): a block of bytes with a read and a write
  position, used as a stream between producers and consumers that observe its events.

  \<^item> \<^verbatim>\<open>ap->value\<close> is the list of the cells of the allocated block; an access outside it is
    undefined (\<^const>\<open>None\<close>).
  \<^item> \<^verbatim>\<open>ejsSendEvent\<close> runs the observers, which are scripts and may change the array and throw: they
    are the parameter \<open>obs\<close> of every method that sends an event.
  \<^item> Casts between \<^verbatim>\<open>double\<close> and \<^verbatim>\<open>int64\<close> are the parameter \<open>fp\<close>; a \<^verbatim>\<open>double\<close> is its 64 bits.
  \<^item> Multi-byte values are stored in the order of a little-endian host.
  \<^item> Where a method takes a second array, the two are distinct objects.
\<close>

section \<open>State\<close>

record byte_array =
  emitter :: bool
  bvalue :: bytes
  async :: int
  endian_mode :: int
  growInc :: int
  readPosition :: int
  writePosition :: int
  bsize :: int
  swap :: bool
  resizable :: bool

type_synonym observers = "string \<Rightarrow> ejs \<Rightarrow> byte_array \<Rightarrow> ejs \<times> byte_array"

record fp_casts =
  double_to_int64 :: "uint64 \<Rightarrow> uint64"
  int64_to_double :: "uint64 \<Rightarrow> uint64"

text \<open>What a method returns to the script: nothing (C's null pointer), or a value.\<close>

datatype ba_result =
    NoResult | JsNull | JsBoolean bool | JsNumber int | JsDouble uint64 | JsDate uint64 | JsString bytes

definition availableBytes :: "byte_array \<Rightarrow> int" where
  "availableBytes ap = writePosition ap - readPosition ap"

definition room :: "byte_array \<Rightarrow> int" where
  "room ap = bsize ap - writePosition ap"

definition adjustReadPosition :: "byte_array \<Rightarrow> int \<Rightarrow> byte_array" where
  "adjustReadPosition ap amt =
     (let ap1 = ap\<lparr>readPosition := readPosition ap + amt\<rparr>
      in if readPosition ap1 = writePosition ap1
         then ap1\<lparr>readPosition := 0, writePosition := 0\<rparr> else ap1)"

definition ME_MAX_BUFFER :: int where
  "ME_MAX_BUFFER = 4096"

text \<open>\<^verbatim>\<open>mprGetEndian\<close> on a little-endian host is \<^verbatim>\<open>ME_LITTLE_ENDIAN\<close>.\<close>

definition ME_LITTLE_ENDIAN :: int where
  "ME_LITTLE_ENDIAN = 1"

definition ejsSendEvent :: "observers \<Rightarrow> string \<Rightarrow> ejs \<Rightarrow> byte_array \<Rightarrow> ejs \<times> byte_array" where
  "ejsSendEvent obs name ejs ap = obs name ejs ap"

definition reset_positions :: "byte_array \<Rightarrow> byte_array" where
  "reset_positions ap = ap\<lparr>writePosition := 0, readPosition := 0\<rparr>"

section \<open>Support routines\<close>

definition flushByteArray :: "observers \<Rightarrow> ejs \<Rightarrow> byte_array \<Rightarrow> ejs \<times> byte_array" where
  "flushByteArray obs ejs ap =
     (let (ejs1, ap1) = (if emitter ap \<and> availableBytes ap \<noteq> 0 \<and> exception ejs = None
            then ejsSendEvent obs ''flush'' ejs ap else (ejs, ap));
          ap2 = reset_positions ap1
      in if emitter ap2 then ejsSendEvent obs ''writable'' ejs1 ap2 else (ejs1, ap2))"

text \<open>
  \<^verbatim>\<open>mprRealloc\<close> keeps the contents of the block and never shrinks it. When it fails, \<^verbatim>\<open>ap->value\<close>
  has already been set to the null pointer.
\<close>

definition mprRealloc :: "bytes \<Rightarrow> int \<Rightarrow> bytes" where
  "mprRealloc v n = v @ replicate (nat n - length v) 0"

text \<open>\<^verbatim>\<open>memset(&v[i], 0, n - i)\<close> in a block of at least \<open>n\<close> cells.\<close>

definition zero_between :: "bytes \<Rightarrow> int \<Rightarrow> int \<Rightarrow> bytes" where
  "zero_between v i n = take (nat i) v @ replicate (nat (n - i)) 0 @ drop (nat n) v"

definition ejsGrowByteArray :: "ejs \<Rightarrow> byte_array \<Rightarrow> int \<Rightarrow> int \<times> ejs \<times> byte_array" where
  "ejsGrowByteArray ejs ap len =
     (if len > bsize ap
      then if \<not> resizable ap then (EJS_ERR, ejsThrow ResourceError ejs, ap)
           else if \<not> heap ejs len then (EJS_ERR, ejsThrow MemoryError ejs, ap\<lparr>bvalue := []\<rparr>)
           else let ap1 = ap\<lparr>bvalue := zero_between (mprRealloc (bvalue ap) len) (bsize ap) len,
                             growInc := min (growInc ap * 2) (32 * 1024),
                             bsize := len\<rparr>
                in (bsize ap1, ejs, ap1)
      else (bsize ap, ejs, ap))"

definition getInput :: "observers \<Rightarrow> ejs \<Rightarrow> byte_array \<Rightarrow> int \<Rightarrow> int \<times> ejs \<times> byte_array" where
  "getInput obs ejs ap required =
     (let ap1 = (if availableBytes ap = 0 then reset_positions ap else ap);
          (ejs2, ap2) = (if availableBytes ap1 < required \<and> exception ejs = None \<and> emitter ap1
            then ejsSendEvent obs ''writable'' ejs ap1 else (ejs, ap1))
      in (if availableBytes ap2 < required then 0 else availableBytes ap2, ejs2, ap2))"

definition ejsMakeRoomInByteArray ::
    "observers \<Rightarrow> ejs \<Rightarrow> byte_array \<Rightarrow> int \<Rightarrow> bool \<times> ejs \<times> byte_array" where
  "ejsMakeRoomInByteArray obs ejs ap require =
     (if room ap < require
      then let (ejs1, ap1) = (if emitter ap \<and> availableBytes ap \<noteq> 0
                 then ejsSendEvent obs ''readable'' ejs ap else (ejs, ap))
           in if room ap1 < require
              then let newLen = max (bsize ap1 + require) (bsize ap1 + growInc ap1);
                       (rc, ejs2, ap2) = ejsGrowByteArray ejs1 ap1 newLen
                   in (\<not> rc < 0, ejs2, ap2)
              else (True, ejs1, ap1)
      else (True, ejs, ap))"

text \<open>
  The byte swapping routines, with the precedence of the source: \<^verbatim>\<open>a & 0xFF00 >> 8\<close> is
  \<^verbatim>\<open>a & (0xFF00 >> 8)\<close>. A left shift into the sign bit keeps the bits.
\<close>

definition swap16 :: "byte_array \<Rightarrow> uint32 \<Rightarrow> uint32" where
  "swap16 ap a =
     (if \<not> swap ap then a else push_bit 8 (a AND 0xFF) OR (a AND drop_bit 8 0xFF00))"

definition swap_word :: "'a::len word \<Rightarrow> 'a word" where
  "swap_word a = push_bit 24 (a AND 0xFF) OR (a AND push_bit 8 0xFF00)
     OR (a AND drop_bit 8 0xFF0000) OR (a AND drop_bit 16 0xFF000000)"

definition swap32 :: "byte_array \<Rightarrow> uint32 \<Rightarrow> uint32" where
  "swap32 ap a = (if \<not> swap ap then a else swap_word a)"

definition swap64 :: "byte_array \<Rightarrow> uint64 \<Rightarrow> uint64" where
  "swap64 ap a =
     (if \<not> swap ap then a
      else let low = a AND 0xFFFFFFFF; high = signed_drop_bit 32 a AND 0xFFFFFFFF
           in swap_word low OR push_bit 32 (swap_word high))"

definition swapDouble :: "fp_casts \<Rightarrow> byte_array \<Rightarrow> uint64 \<Rightarrow> uint64" where
  "swapDouble fp ap a =
     (if \<not> swap ap then a
      else let low = double_to_int64 fp a AND 0xFFFFFFFF;
               high = signed_drop_bit 32 (double_to_int64 fp a) AND 0xFFFFFFFF
           in int64_to_double fp (swap_word low OR push_bit 32 (swap_word high)))"

text \<open>Little-endian storage of \<open>n\<close> bytes of a word, and the word read back from bytes.\<close>

definition word_bytes :: "nat \<Rightarrow> 'a::len word \<Rightarrow> bytes" where
  "word_bytes n w = map (\<lambda>i. ucast (drop_bit (8 * i) w)) [0..<n]"

fun bytes_word :: "bytes \<Rightarrow> 'a::len word" where
  "bytes_word [] = 0"
| "bytes_word (b # bs) = ucast b OR push_bit 8 (bytes_word bs)"

definition put_bytes :: "byte_array \<Rightarrow> bytes \<Rightarrow> (int \<times> byte_array) option" where
  "put_bytes ap bs =
     map_option (\<lambda>v. (int (length bs),
                      ap\<lparr>bvalue := v, writePosition := writePosition ap + int (length bs)\<rparr>))
       (mem_write_block (bvalue ap) (writePosition ap) bs)"

definition putByte :: "byte_array \<Rightarrow> int \<Rightarrow> (int \<times> byte_array) option" where
  "putByte ap val = put_bytes ap [word_of_int val]"

definition putShort :: "byte_array \<Rightarrow> int \<Rightarrow> (int \<times> byte_array) option" where
  "putShort ap val = put_bytes ap (word_bytes 2 (swap16 ap (word_of_int val)))"

definition putInteger :: "byte_array \<Rightarrow> int \<Rightarrow> (int \<times> byte_array) option" where
  "putInteger ap val = put_bytes ap (word_bytes 4 (swap32 ap (word_of_int val)))"

definition putLong :: "byte_array \<Rightarrow> int \<Rightarrow> (int \<times> byte_array) option" where
  "putLong ap val = put_bytes ap (word_bytes 8 (swap64 ap (word_of_int val)))"

definition putDouble :: "fp_casts \<Rightarrow> byte_array \<Rightarrow> uint64 \<Rightarrow> (int \<times> byte_array) option" where
  "putDouble fp ap val = put_bytes ap (word_bytes 8 (swapDouble fp ap val))"

definition putNumber :: "fp_casts \<Rightarrow> byte_array \<Rightarrow> uint64 \<Rightarrow> (int \<times> byte_array) option" where
  "putNumber fp ap val = putDouble fp ap val"

text \<open>\<^verbatim>\<open>mprMemcpy\<close>: a positive limit that is too small copies nothing; the limit is a \<^verbatim>\<open>size_t\<close>, so
  a negative one is a very large one, and a limit of zero is no limit.\<close>

definition mprMemcpy :: "bytes \<Rightarrow> int \<Rightarrow> int \<Rightarrow> bytes \<Rightarrow> bytes option" where
  "mprMemcpy dest offset destMax src =
     (if 0 < destMax \<and> destMax < int (length src) then Some dest
      else mem_write_block dest offset src)"

definition putString :: "byte_array \<Rightarrow> bytes \<Rightarrow> (int \<times> byte_array) option" where
  "putString ap str =
     map_option (\<lambda>v. (c_int (int (length str)),
                      ap\<lparr>bvalue := v, writePosition := writePosition ap + int (length str)\<rparr>))
       (mprMemcpy (bvalue ap) (writePosition ap) (room ap) str)"

definition zero_block :: "byte_array \<Rightarrow> byte_array option" where
  "zero_block ba = map_option (\<lambda>v. ba\<lparr>bvalue := v\<rparr>)
     (mem_write_block (bvalue ba) 0 (replicate (nat (bsize ba)) 0))"

definition ejsResetByteArray :: "byte_array \<Rightarrow> byte_array option" where
  "ejsResetByteArray ba =
     (if writePosition ba = readPosition ba then zero_block (reset_positions ba) else Some ba)"

definition ejsSetByteArrayPositions :: "byte_array \<Rightarrow> int \<Rightarrow> int \<Rightarrow> byte_array" where
  "ejsSetByteArrayPositions ba rpos wpos =
     (let ba1 = (if rpos \<ge> 0 then ba\<lparr>readPosition := rpos\<rparr> else ba)
      in if wpos \<ge> 0 then ba1\<lparr>writePosition := wpos\<rparr> else ba1)"

definition ejsCopyToByteArray ::
    "observers \<Rightarrow> ejs \<Rightarrow> byte_array \<Rightarrow> int \<Rightarrow> bytes \<Rightarrow> (int \<times> ejs \<times> byte_array) option" where
  "ejsCopyToByteArray obs ejs ba offset data =
     (let off = (if offset < 0 then writePosition ba else offset); len = int (length data);
          (ok, ejs1, ba1) = ejsMakeRoomInByteArray obs ejs ba (off + len)
      in if \<not> ok then Some (EJS_ERR, ejs1, ba1)
         else if bsize ba1 < off + len then Some (EJS_ERR, ejs1, ba1)
         else map_option (\<lambda>v. (len, ejs1, ba1\<lparr>bvalue := v\<rparr>)) (mem_write_block (bvalue ba1) off data))"

definition ejsGetByteArrayAvailableData :: "byte_array \<Rightarrow> int" where
  "ejsGetByteArrayAvailableData ba = availableBytes ba"

definition ejsGetByteArrayRoom :: "byte_array \<Rightarrow> int" where
  "ejsGetByteArrayRoom ba = room ba"

text \<open>A new object has all its fields zero before the constructor runs.\<close>

definition fresh_byte_array :: byte_array where
  "fresh_byte_array = \<lparr>emitter = False, bvalue = [], async = 0, endian_mode = 0, growInc = 0,
     readPosition = 0, writePosition = 0, bsize = 0, swap = False, resizable = False\<rparr>"

definition ejsCreateByteArray :: "ejs \<Rightarrow> int \<Rightarrow> byte_array option \<times> ejs" where
  "ejsCreateByteArray ejs len =
     (let size1 = (if len \<le> 0 then ME_MAX_BUFFER else len);
          ap = fresh_byte_array\<lparr>async := -1, resizable := True, growInc := ME_MAX_BUFFER,
                 endian_mode := ME_LITTLE_ENDIAN\<rparr>;
          (rc, ejs1, ap1) = ejsGrowByteArray ejs ap size1
      in if rc < 0 then (None, ejs1) else (Some ap1, ejs1))"

section \<open>Property helpers\<close>

definition cloneByteArrayVar :: "ejs \<Rightarrow> byte_array \<Rightarrow> (byte_array option \<times> ejs) option" where
  "cloneByteArrayVar ejs ap =
     (case ejsCreateByteArray ejs (bsize ap) of
        (None, ejs1) \<Rightarrow> Some (None, ejsThrow MemoryError ejs1)
      | (Some newArray, ejs1) \<Rightarrow>
          Option.bind (mem_read_block (bvalue ap) 0 (bsize ap)) (\<lambda>bs.
          map_option (\<lambda>v. (Some (newArray\<lparr>bvalue := v, readPosition := readPosition ap,
                                        writePosition := writePosition ap\<rparr>), ejs1))
            (mem_write_block (bvalue newArray) 0 bs)))"

definition getByteArrayPropertyCount :: "byte_array \<Rightarrow> int" where
  "getByteArrayPropertyCount ap = bsize ap"

definition getByteArrayProperty :: "ejs \<Rightarrow> byte_array \<Rightarrow> int \<Rightarrow> (ba_result \<times> ejs) option" where
  "getByteArrayProperty ejs ap slotNum =
     (if slotNum < 0 \<or> slotNum \<ge> bsize ap then Some (NoResult, ejsThrow OutOfBoundsError ejs)
      else map_option (\<lambda>b. (JsNumber (uint b), ejs)) (mem_read (bvalue ap) slotNum))"

text \<open>The name of a numeric property is the digits of its index: \<open>index\<close> is what \<^verbatim>\<open>ejsAtoi\<close> makes of it.\<close>

definition lookupByteArrayProperty :: "byte_array \<Rightarrow> int option \<Rightarrow> int" where
  "lookupByteArrayProperty ap index =
     (case index of None \<Rightarrow> EJS_ERR | Some i \<Rightarrow> if i < bsize ap then i else EJS_ERR)"

text \<open>The value stored is what \<^verbatim>\<open>ejsGetInt\<close> returns for it, cut to a byte.\<close>

definition setByteArrayProperty ::
    "ejs \<Rightarrow> byte_array \<Rightarrow> int \<Rightarrow> int \<Rightarrow> (int \<times> ejs \<times> byte_array) option" where
  "setByteArrayProperty ejs ap slotNum val =
     (let (rc, ejs1, ap1) = (if slotNum \<ge> bsize ap then ejsGrowByteArray ejs ap (slotNum + 1) else (0, ejs, ap))
      in if rc < 0 then Some (EJS_ERR, ejs1, ap1)
         else map_option (\<lambda>v. (slotNum, ejs1,
                 (let ap2 = ap1\<lparr>bvalue := v\<rparr>
                  in if slotNum \<ge> bsize ap2 then ap2\<lparr>bsize := slotNum + 1\<rparr> else ap2)))
                (mem_write (bvalue ap1) slotNum (word_of_int val)))"

text \<open>\<open>undef\<close> is the integer that \<^verbatim>\<open>ejsGetInt\<close> makes of the number that undefined casts to.\<close>

definition deleteByteArrayProperty ::
    "int \<Rightarrow> ejs \<Rightarrow> byte_array \<Rightarrow> int \<Rightarrow> (int \<times> ejs \<times> byte_array) option" where
  "deleteByteArrayProperty undef ejs ap slot =
     (if slot \<ge> bsize ap then Some (EJS_ERR, ejsThrow OutOfBoundsError ejs, ap)
      else let ap1 = (if slot + 1 = bsize ap
                 then let a = ap\<lparr>bsize := bsize ap - 1\<rparr>;
                          b = (if readPosition a \<ge> bsize a then a\<lparr>readPosition := bsize a - 1\<rparr> else a)
                      in if writePosition b \<ge> bsize b then b\<lparr>writePosition := bsize b - 1\<rparr> else b
                 else ap)
           in map_option (\<lambda>(rc, ejs2, ap2). (if rc < 0 then EJS_ERR else 0, ejs2, ap2))
                (setByteArrayProperty ejs ap1 slot undef))"

section \<open>Methods\<close>

text \<open>The constructor's arguments are the optional size and resizable flag; it returns the array or null.\<close>

definition ba_ByteArray :: "ejs \<Rightarrow> byte_array \<Rightarrow> int option \<Rightarrow> bool option \<Rightarrow> bool \<times> ejs \<times> byte_array" where
  "ba_ByteArray ejs ap size_arg resizable_arg =
     (let size0 = (case size_arg of Some n \<Rightarrow> n | None \<Rightarrow> ME_MAX_BUFFER);
          size1 = (if size0 \<le> 0 then 1 else size0);
          res = (case resizable_arg of Some b \<Rightarrow> b | None \<Rightarrow> True);
          ap1 = ap\<lparr>growInc := (if res then ME_MAX_BUFFER else 0), endian_mode := ME_LITTLE_ENDIAN,
                   resizable := True\<rparr>;
          (rc, ejs2, ap2) = ejsGrowByteArray ejs ap1 size1
      in if rc < 0 then (False, ejs2, ap2) else (True, ejs2, ap2\<lparr>resizable := res\<rparr>))"

definition ba_async :: "byte_array \<Rightarrow> ba_result" where
  "ba_async ap = JsBoolean (async ap \<noteq> 0)"

definition ba_setAsync :: "byte_array \<Rightarrow> bool \<Rightarrow> byte_array" where
  "ba_setAsync ap enable = ap\<lparr>async := of_bool enable\<rparr>"

definition ba_close :: "observers \<Rightarrow> ejs \<Rightarrow> byte_array \<Rightarrow> ejs \<times> byte_array" where
  "ba_close obs ejs ap =
     (let (ejs1, ap1) = (if emitter ap then ejsSendEvent obs ''close'' ejs ap else (ejs, ap))
      in (ejs1, reset_positions ap1))"

definition ba_compact :: "byte_array \<Rightarrow> byte_array option" where
  "ba_compact ap =
     (if writePosition ap = readPosition ap then Some (reset_positions ap)
      else if readPosition ap > 0
      then Option.bind (mem_read_block (bvalue ap) (readPosition ap) (writePosition ap - readPosition ap)) (\<lambda>bs.
           map_option (\<lambda>v. ap\<lparr>bvalue := v, writePosition := writePosition ap - readPosition ap,
                              readPosition := 0\<rparr>)
             (mem_write_block (bvalue ap) 0 bs))
      else Some ap)"

text \<open>The last two arguments are optional; the result of making room is not looked at.\<close>

definition ba_copyIn ::
    "observers \<Rightarrow> ejs \<Rightarrow> byte_array \<Rightarrow> int \<Rightarrow> byte_array \<Rightarrow> int option \<Rightarrow> int option
       \<Rightarrow> (ba_result \<times> ejs \<times> byte_array) option" where
  "ba_copyIn obs ejs ap destOffset src src_arg count_arg =
     (let srcOffset = (case src_arg of Some n \<Rightarrow> n | None \<Rightarrow> 0);
          count0 = (case count_arg of Some n \<Rightarrow> n | None \<Rightarrow> MAXINT)
      in if srcOffset \<ge> bsize src then Some (NoResult, ejsThrow OutOfBoundsError ejs, ap)
         else let count = min (bsize src - srcOffset) (if count0 < 0 then MAXINT else count0);
                  (ok, ejs1, ap1) = ejsMakeRoomInByteArray obs ejs ap (destOffset + count)
              in if destOffset + count > bsize src
                 then Some (NoResult, ejsThrow OutOfBoundsError ejs1, ap1)
                 else Option.bind (mem_read_block (bvalue src) srcOffset count) (\<lambda>bs.
                      map_option (\<lambda>v. (JsNumber count, ejs1, ap1\<lparr>bvalue := v\<rparr>))
                        (mem_write_block (bvalue ap1) destOffset bs)))"

definition ba_copyOut ::
    "observers \<Rightarrow> ejs \<Rightarrow> byte_array \<Rightarrow> int \<Rightarrow> byte_array \<Rightarrow> int option \<Rightarrow> int option
       \<Rightarrow> (ba_result \<times> ejs \<times> byte_array) option" where
  "ba_copyOut obs ejs ap srcOffset dest dest_arg count_arg =
     (let destOffset = (case dest_arg of Some n \<Rightarrow> n | None \<Rightarrow> 0);
          count0 = (case count_arg of Some n \<Rightarrow> n | None \<Rightarrow> MAXINT)
      in if srcOffset \<ge> bsize ap then Some (NoResult, ejsThrow OutOfBoundsError ejs, dest)
         else let count = min (bsize ap - srcOffset) count0;
                  (ok, ejs1, dest1) = ejsMakeRoomInByteArray obs ejs dest (destOffset + count)
              in if destOffset + count > bsize dest1
                 then Some (NoResult, ejsThrow OutOfBoundsError ejs1, dest1)
                 else Option.bind (mem_read_block (bvalue ap) srcOffset count) (\<lambda>bs.
                      map_option (\<lambda>v. (JsNumber count, ejs1, dest1\<lparr>bvalue := v\<rparr>))
                        (mem_write_block (bvalue dest1) destOffset bs)))"

definition endian :: "byte_array \<Rightarrow> ba_result" where
  "endian ap = JsNumber (endian_mode ap)"

definition setEndian :: "ejs \<Rightarrow> byte_array \<Rightarrow> int \<Rightarrow> ejs \<times> byte_array" where
  "setEndian ejs ap e =
     (if e \<noteq> 0 \<and> e \<noteq> 1 then (ejsThrow ArgError ejs, ap)
      else (ejs, ap\<lparr>endian_mode := e, swap := (e \<noteq> ME_LITTLE_ENDIAN)\<rparr>))"

text \<open>The iterators hold the index of the next element; their target may be of another type.\<close>

definition nextByteArrayKey :: "ejs \<Rightarrow> byte_array option \<Rightarrow> int \<Rightarrow> ba_result \<times> ejs \<times> int" where
  "nextByteArrayKey ejs target index =
     (case target of None \<Rightarrow> (NoResult, ejsThrow ReferenceError ejs, index)
      | Some ap \<Rightarrow>
          let i = (if index < readPosition ap then c_int (readPosition ap) else index)
          in if i < c_int (writePosition ap) then (JsNumber i, ejs, i + 1)
             else (NoResult, ejsThrow StopIteration ejs, i))"

definition nextByteArrayValue :: "ejs \<Rightarrow> byte_array option \<Rightarrow> int \<Rightarrow> (ba_result \<times> ejs \<times> int) option" where
  "nextByteArrayValue ejs target index =
     (case target of None \<Rightarrow> Some (NoResult, ejsThrow ReferenceError ejs, index)
      | Some ap \<Rightarrow>
          let i = (if index < c_int (readPosition ap) then c_int (readPosition ap) else index)
          in if i < writePosition ap
             then map_option (\<lambda>b. (JsNumber (uint b), ejs, i + 1)) (mem_read (bvalue ap) i)
             else Some (NoResult, ejsThrow StopIteration ejs, i))"

definition ba_flush :: "observers \<Rightarrow> ejs \<Rightarrow> byte_array \<Rightarrow> (ejs \<times> byte_array) option" where
  "ba_flush obs ejs ap =
     (let (ejs1, ap1) = flushByteArray obs ejs ap
      in map_option (Pair ejs1) (zero_block (reset_positions ap1)))"

definition ba_getLength :: "byte_array \<Rightarrow> ba_result" where
  "ba_getLength ap = JsNumber (writePosition ap - readPosition ap)"

definition ba_resizable :: "byte_array \<Rightarrow> ba_result" where
  "ba_resizable ap = JsBoolean (resizable ap)"

text \<open>
  \<^verbatim>\<open>ba_read\<close> takes the buffer, its offset when there are exactly two arguments, and the count when
  there are three.
\<close>

definition ba_read ::
    "observers \<Rightarrow> ejs \<Rightarrow> byte_array \<Rightarrow> byte_array \<Rightarrow> int list \<Rightarrow> (ba_result \<times> ejs \<times> byte_array \<times> byte_array) option" where
  "ba_read obs ejs ap buffer args =
     (let offset0 = (case args of [n] \<Rightarrow> n | _ \<Rightarrow> 0);
          count0 = (case args of [_, n] \<Rightarrow> n | _ \<Rightarrow> c_int (bsize buffer));
          count1 = (if count0 < 0 then bsize buffer else count0)
      in if offset0 \<ge> 0 \<and> offset0 \<ge> bsize buffer
         then Some (NoResult, ejsThrow OutOfBoundsError ejs, ap, buffer)
         else let offset = (if offset0 < 0 then writePosition buffer else offset0);
                  buffer1 = (if offset0 < 0 then buffer else buffer\<lparr>readPosition := 0, writePosition := 0\<rparr>);
                  (n, ejs1, ap1) = getInput obs ejs ap 1
              in if n \<le> 0 then Some (JsNull, ejs1, ap1, buffer1)
                 else let count = min (availableBytes ap1) count1
                      in Option.bind (mem_read_block (bvalue ap1) (readPosition ap1) count) (\<lambda>bs.
                         map_option (\<lambda>v.
                           (let ap2 = ap1\<lparr>readPosition := readPosition ap1 + int (length bs)\<rparr>;
                                (ejs2, ap3) = (if emitter ap2 \<and> availableBytes ap2 \<noteq> 0 \<and> exception ejs1 = None
                                  then ejsSendEvent obs ''writable'' ejs1 ap2 else (ejs1, ap2))
                            in (JsNumber count, ejs2, ap3,
                                buffer1\<lparr>bvalue := v, writePosition := writePosition buffer1 + count\<rparr>)))
                           (mem_write_block (bvalue buffer1) offset bs)))"

text \<open>
  The typed readers share their shape: get input, take \<open>n\<close> bytes at the read position, convert
  them and advance. \<open>premature\<close> says whether a short read throws.
\<close>

definition read_typed ::
    "observers \<Rightarrow> ejs \<Rightarrow> byte_array \<Rightarrow> int \<Rightarrow> bool \<Rightarrow> (byte_array \<Rightarrow> bytes \<Rightarrow> ba_result)
       \<Rightarrow> (ba_result \<times> ejs \<times> byte_array) option" where
  "read_typed obs ejs ap n premature conv =
     (let (avail, ejs1, ap1) = getInput obs ejs ap n
      in if avail \<le> 0
         then if premature \<and> availableBytes ap1 > 0 then Some (NoResult, ejsThrow IOError ejs1, ap1)
              else Some (JsNull, ejs1, ap1)
         else map_option (\<lambda>bs. (conv ap1 bs, ejs1, adjustReadPosition ap1 n))
                (mem_read_block (bvalue ap1) (readPosition ap1) n))"

definition ba_readBoolean :: "observers \<Rightarrow> ejs \<Rightarrow> byte_array \<Rightarrow> (ba_result \<times> ejs \<times> byte_array) option" where
  "ba_readBoolean obs ejs ap = read_typed obs ejs ap 1 False (\<lambda>_ bs. JsBoolean (hd bs \<noteq> 0))"

definition ba_readByte :: "observers \<Rightarrow> ejs \<Rightarrow> byte_array \<Rightarrow> (ba_result \<times> ejs \<times> byte_array) option" where
  "ba_readByte obs ejs ap = read_typed obs ejs ap 1 False (\<lambda>_ bs. JsNumber (uint (hd bs)))"

definition ba_readDate ::
    "fp_casts \<Rightarrow> observers \<Rightarrow> ejs \<Rightarrow> byte_array \<Rightarrow> (ba_result \<times> ejs \<times> byte_array) option" where
  "ba_readDate fp obs ejs ap = read_typed obs ejs ap 8 True
     (\<lambda>a bs. JsDate (double_to_int64 fp (swapDouble fp a (bytes_word bs))))"

definition ba_readDouble ::
    "fp_casts \<Rightarrow> observers \<Rightarrow> ejs \<Rightarrow> byte_array \<Rightarrow> (ba_result \<times> ejs \<times> byte_array) option" where
  "ba_readDouble fp obs ejs ap = read_typed obs ejs ap 8 True
     (\<lambda>a bs. JsDouble (swapDouble fp a (bytes_word bs)))"

definition ba_readInteger :: "observers \<Rightarrow> ejs \<Rightarrow> byte_array \<Rightarrow> (ba_result \<times> ejs \<times> byte_array) option" where
  "ba_readInteger obs ejs ap = read_typed obs ejs ap 4 True
     (\<lambda>a bs. JsNumber (sint (swap32 a (bytes_word bs))))"

definition ba_readLong ::
    "fp_casts \<Rightarrow> observers \<Rightarrow> ejs \<Rightarrow> byte_array \<Rightarrow> (ba_result \<times> ejs \<times> byte_array) option" where
  "ba_readLong fp obs ejs ap = read_typed obs ejs ap 8 True
     (\<lambda>a bs. JsDouble (int64_to_double fp (swap64 a (bytes_word bs))))"

definition ba_readShort :: "observers \<Rightarrow> ejs \<Rightarrow> byte_array \<Rightarrow> (ba_result \<times> ejs \<times> byte_array) option" where
  "ba_readShort obs ejs ap = read_typed obs ejs ap 2 False
     (\<lambda>a bs. JsNumber (sint (swap16 a (scast (bytes_word bs :: 16 word)))))"

definition ba_readString ::
    "observers \<Rightarrow> ejs \<Rightarrow> byte_array \<Rightarrow> int option \<Rightarrow> (ba_result \<times> ejs \<times> byte_array) option" where
  "ba_readString obs ejs ap count_arg =
     (let count0 = (case count_arg of Some n \<Rightarrow> n | None \<Rightarrow> -1);
          (n, ejs1, ap1) = getInput obs ejs ap (if count0 < 0 then 1 else count0)
      in if n < 0 then Some (JsNull, ejs1, ap1)
         else let count1 = (if count0 < 0 then availableBytes ap1 else count0);
                  count = min count1 (availableBytes ap1)
              in map_option (\<lambda>bs. (JsString bs, ejs1, adjustReadPosition ap1 count))
                   (mem_read_block (bvalue ap1) (readPosition ap1) count))"

definition ba_readPosition :: "byte_array \<Rightarrow> ba_result" where
  "ba_readPosition ap = JsNumber (readPosition ap)"

definition ba_setReadPosition :: "ejs \<Rightarrow> byte_array \<Rightarrow> int \<Rightarrow> ejs \<times> byte_array" where
  "ba_setReadPosition ejs ap pos =
     (if pos < 0 \<or> pos > bsize ap then (ejsThrow OutOfBoundsError ejs, ap)
      else if pos > writePosition ap then (ejsThrow StateError ejs, ap)
      else (ejs, ap\<lparr>readPosition := pos\<rparr>))"

definition ba_reset :: "byte_array \<Rightarrow> byte_array option" where
  "ba_reset ap = ejsResetByteArray ap"

definition ba_room :: "byte_array \<Rightarrow> ba_result" where
  "ba_room ap = JsNumber (room ap)"

definition ba_size :: "byte_array \<Rightarrow> ba_result" where
  "ba_size ap = JsNumber (c_int (bsize ap))"

definition ba_toString :: "byte_array \<Rightarrow> ba_result option" where
  "ba_toString ap = map_option JsString (mem_read_block (bvalue ap) (readPosition ap) (availableBytes ap))"

datatype cast_target = S_Boolean | S_Number | S_String | S_Other

definition castByteArrayVar :: "ejs \<Rightarrow> byte_array \<Rightarrow> cast_target \<Rightarrow> (ba_result \<times> ejs) option" where
  "castByteArrayVar ejs vp t =
     (case t of
        S_Boolean \<Rightarrow> Some (JsBoolean True, ejs)
      | S_Number \<Rightarrow> Some (JsNumber 0, ejs)
      | S_String \<Rightarrow> map_option (\<lambda>r. (r, ejs)) (ba_toString vp)
      | S_Other \<Rightarrow> Some (NoResult, ejsThrow TypeError ejs))"

text \<open>
  The values that \<^verbatim>\<open>write\<close> accepts. Every array and every other object comes with the string that
  \<^verbatim>\<open>ejsToString\<close> makes of it; a property without value is \<open>WNone\<close>.
\<close>

datatype ba_datum =
    WNone
  | WBoolean bool
  | WDate uint64
  | WNumber uint64
  | WString bytes
  | WByteArray byte_array
  | WArray "ba_datum list" bytes
  | WOther bytes

fun unwrap_args :: "ba_datum list \<Rightarrow> ba_datum list" where
  "unwrap_args [WArray args _] = unwrap_args args"
| "unwrap_args args = args"

definition make_room_and_put ::
    "observers \<Rightarrow> ejs \<Rightarrow> byte_array \<Rightarrow> int \<Rightarrow> (byte_array \<Rightarrow> (int \<times> byte_array) option)
       \<Rightarrow> (int option \<times> ejs \<times> byte_array) option" where
  "make_room_and_put obs ejs ap n put =
     (let (ok, ejs1, ap1) = ejsMakeRoomInByteArray obs ejs ap n
      in if ok then map_option (\<lambda>(k, ap2). (Some k, ejs1, ap2)) (put ap1) else Some (None, ejs1, ap1))"

text \<open>One round of the loop of \<^verbatim>\<open>write\<close>: the number of bytes written, or no number when it returns.\<close>

definition write_datum ::
    "fp_casts \<Rightarrow> observers \<Rightarrow> ejs \<Rightarrow> byte_array \<Rightarrow> ba_datum \<Rightarrow> (int option \<times> ejs \<times> byte_array) option" where
  "write_datum fp obs ejs ap vp =
     (case vp of
        WNone \<Rightarrow> Some (Some 0, ejs, ap)
      | WBoolean b \<Rightarrow> make_room_and_put obs ejs ap 1 (\<lambda>a. putByte a (of_bool b))
      | WDate t \<Rightarrow> make_room_and_put obs ejs ap 8 (\<lambda>a. putNumber fp a (int64_to_double fp t))
      | WNumber d \<Rightarrow> make_room_and_put obs ejs ap 8 (\<lambda>a. putNumber fp a d)
      | WString s \<Rightarrow> make_room_and_put obs ejs ap (int (length s)) (\<lambda>a. putString a s)
      | WArray _ s \<Rightarrow> map_option (\<lambda>(k, a). (Some k, ejs, a)) (putString ap s)
      | WOther s \<Rightarrow> map_option (\<lambda>(k, a). (Some k, ejs, a)) (putString ap s)
      | WByteArray bp \<Rightarrow>
          let len = availableBytes bp;
              (ok, ejs1, ap1) = ejsMakeRoomInByteArray obs ejs ap len
          in if \<not> ok then Some (None, ejs1, ap1)
             else Option.bind (mem_read_block (bvalue bp) (readPosition bp) len) (\<lambda>bs.
                  map_option (\<lambda>(rc, ejs2, ap2). (Some len, ejs2, ap2\<lparr>writePosition := writePosition ap2 + len\<rparr>))
                    (ejsCopyToByteArray obs ejs1 ap1 (writePosition ap1) bs)))"

fun write_data ::
    "fp_casts \<Rightarrow> observers \<Rightarrow> ejs \<Rightarrow> byte_array \<Rightarrow> ba_datum list \<Rightarrow> int \<Rightarrow> (int option \<times> ejs \<times> byte_array) option" where
  "write_data fp obs ejs ap [] wrote = Some (Some wrote, ejs, ap)"
| "write_data fp obs ejs ap (vp # vps) wrote =
     (case write_datum fp obs ejs ap vp of
        None \<Rightarrow> None
      | Some (None, ejs1, ap1) \<Rightarrow> Some (None, ejs1, ap1)
      | Some (Some k, ejs1, ap1) \<Rightarrow> write_data fp obs ejs1 ap1 vps (wrote + k))"

definition ejsWriteToByteArray ::
    "fp_casts \<Rightarrow> observers \<Rightarrow> ejs \<Rightarrow> byte_array \<Rightarrow> ba_datum list \<Rightarrow> (ba_result \<times> ejs \<times> byte_array) option" where
  "ejsWriteToByteArray fp obs ejs ap args =
     (let ap0 = (if availableBytes ap = 0 then reset_positions ap else ap)
      in map_option (\<lambda>(r, ejs1, ap1).
           (case r of
              None \<Rightarrow> (NoResult, ejs1, ap1)
            | Some wrote \<Rightarrow>
                let (ejs2, ap2) = (if emitter ap1 \<and> wrote > 0 \<and> availableBytes ap1 > 0
                      then ejsSendEvent obs ''readable'' ejs1 ap1 else (ejs1, ap1))
                in (JsNumber wrote, ejs2, ap2)))
         (write_data fp obs ejs ap0 (unwrap_args args) 0))"

text \<open>The typed writers share their shape: make room, put the value, tell the observers.\<close>

definition write_typed ::
    "observers \<Rightarrow> ejs \<Rightarrow> byte_array \<Rightarrow> int \<Rightarrow> (byte_array \<Rightarrow> (int \<times> byte_array) option) \<Rightarrow> (ejs \<times> byte_array) option" where
  "write_typed obs ejs ap n put =
     (let (ok, ejs1, ap1) = ejsMakeRoomInByteArray obs ejs ap n
      in if \<not> ok then Some (ejs1, ap1)
         else map_option (\<lambda>(_, ap2). if emitter ap2 then ejsSendEvent obs ''readable'' ejs1 ap2 else (ejs1, ap2))
                (put ap1))"

definition ba_writeByte :: "observers \<Rightarrow> ejs \<Rightarrow> byte_array \<Rightarrow> int \<Rightarrow> (ejs \<times> byte_array) option" where
  "ba_writeByte obs ejs ap val = write_typed obs ejs ap 1 (\<lambda>a. putByte a val)"

definition ba_writeShort :: "observers \<Rightarrow> ejs \<Rightarrow> byte_array \<Rightarrow> int \<Rightarrow> (ejs \<times> byte_array) option" where
  "ba_writeShort obs ejs ap val = write_typed obs ejs ap 2 (\<lambda>a. putShort a val)"

definition ba_writeDouble :: "fp_casts \<Rightarrow> observers \<Rightarrow> ejs \<Rightarrow> byte_array \<Rightarrow> uint64 \<Rightarrow> (ejs \<times> byte_array) option" where
  "ba_writeDouble fp obs ejs ap val = write_typed obs ejs ap 8 (\<lambda>a. putDouble fp a val)"

definition ba_writeInteger :: "observers \<Rightarrow> ejs \<Rightarrow> byte_array \<Rightarrow> int \<Rightarrow> (ejs \<times> byte_array) option" where
  "ba_writeInteger obs ejs ap val = write_typed obs ejs ap 4 (\<lambda>a. putInteger a val)"

text \<open>\<^verbatim>\<open>ba_writeLong\<close> makes room for \<^verbatim>\<open>sizeof(int)\<close> bytes and puts eight.\<close>

definition ba_writeLong :: "observers \<Rightarrow> ejs \<Rightarrow> byte_array \<Rightarrow> int \<Rightarrow> (ejs \<times> byte_array) option" where
  "ba_writeLong obs ejs ap val = write_typed obs ejs ap 4 (\<lambda>a. putLong a val)"

definition ba_writePosition :: "byte_array \<Rightarrow> ba_result" where
  "ba_writePosition ap = JsNumber (writePosition ap)"

definition ba_setWritePosition :: "ejs \<Rightarrow> byte_array \<Rightarrow> int \<Rightarrow> ejs \<times> byte_array" where
  "ba_setWritePosition ejs ap pos =
     (if pos < 0 \<or> pos > bsize ap then (ejsThrow StateError ejs, ap)
      else if pos < readPosition ap then (ejsThrow StateError ejs, ap)
      else (ejs, ap\<lparr>writePosition := pos\<rparr>))"

section \<open>The invariant\<close>

definition ba_wf :: "byte_array \<Rightarrow> bool" where
  "ba_wf ap \<longleftrightarrow> 0 \<le> readPosition ap \<and> readPosition ap \<le> writePosition ap
     \<and> writePosition ap \<le> bsize ap \<and> bsize ap \<le> int (length (bvalue ap)) \<and> 0 \<le> growInc ap"

text \<open>The bytes between the two positions: what a reader of the stream has still to see.\<close>

definition contents :: "byte_array \<Rightarrow> bytes" where
  "contents ap = take (nat (availableBytes ap)) (drop (nat (readPosition ap)) (bvalue ap))"

definition memory_ok :: "ejs \<Rightarrow> bool" where
  "memory_ok ejs \<longleftrightarrow> heap ejs = (\<lambda>_. True)"

definition observers_ok :: "observers \<Rightarrow> bool" where
  "observers_ok obs \<longleftrightarrow> (\<forall>name ejs ap. memory_ok ejs \<longrightarrow> ba_wf ap \<longrightarrow>
     memory_ok (fst (obs name ejs ap)) \<and> ba_wf (snd (obs name ejs ap)))"

lemmas position_defs = availableBytes_def room_def reset_positions_def

lemma ba_wf_reset [wf_intros]: "ba_wf ap \<Longrightarrow> ba_wf (reset_positions ap)"
  by (simp add: ba_wf_def reset_positions_def)

lemma memory_ok_throw [simp]: "memory_ok (ejsThrow e ejs) = memory_ok ejs"
  by (simp add: memory_ok_def ejsThrow_def)

lemma contents_length: "ba_wf ap \<Longrightarrow> int (length (contents ap)) = availableBytes ap"
  by (auto simp: ba_wf_def contents_def availableBytes_def)

lemma send_event_ok:
  assumes "observers_ok obs" "memory_ok ejs" "ba_wf ap" "ejsSendEvent obs name ejs ap = (ejs', ap')"
  shows "memory_ok ejs'" "ba_wf ap'"
proof -
  from assms(4) have "ejs' = fst (obs name ejs ap)" "ap' = snd (obs name ejs ap)"
    by (simp_all add: ejsSendEvent_def)
  with assms(1-3) show "memory_ok ejs'" "ba_wf ap'" by (simp_all add: observers_ok_def)
qed

lemma maybe_event_ok:
  assumes "(if c then ejsSendEvent obs name ejs ap else (ejs, ap)) = (ejs', ap')"
    and "observers_ok obs" "memory_ok ejs" "ba_wf ap"
  shows "memory_ok ejs'" "ba_wf ap'"
  using assms send_event_ok [OF assms(2-4), of name ejs' ap'] by (cases c; simp)+

lemma zero_between_length:
  "0 \<le> i \<Longrightarrow> i \<le> n \<Longrightarrow> n \<le> int (length v) \<Longrightarrow> length (zero_between v i n) = length v"
  by (auto simp: zero_between_def)

lemma mprRealloc_length: "int (length (mprRealloc v n)) = max (int (length v)) n" if "0 \<le> n"
  using that by (auto simp: mprRealloc_def)

definition grown :: "byte_array \<Rightarrow> int \<Rightarrow> byte_array" where
  "grown ap len = ap\<lparr>bvalue := zero_between (mprRealloc (bvalue ap) len) (bsize ap) len,
     growInc := min (growInc ap * 2) (32 * 1024), bsize := len\<rparr>"

lemma grow_cases:
  assumes "memory_ok ejs"
  shows "ejsGrowByteArray ejs ap len =
     (if len > bsize ap then if resizable ap then (len, ejs, grown ap len)
        else (-1, ejsThrow ResourceError ejs, ap)
      else (bsize ap, ejs, ap))"
  using assms by (simp add: ejsGrowByteArray_def memory_ok_def grown_def Let_def EJS_ERR_def)

lemma grown_prefix:
  assumes "0 \<le> bsize ap" "bsize ap < len" "bsize ap \<le> int (length (bvalue ap))"
  shows "len \<le> int (length (bvalue (grown ap len)))"
    and "take (nat (bsize ap)) (bvalue (grown ap len)) = take (nat (bsize ap)) (bvalue ap)"
proof -
  have "length (bvalue (grown ap len)) = length (mprRealloc (bvalue ap) len)"
    unfolding grown_def using assms by (simp add: zero_between_length mprRealloc_length)
  then show "len \<le> int (length (bvalue (grown ap len)))"
    using assms by (simp add: mprRealloc_length)
  show "take (nat (bsize ap)) (bvalue (grown ap len)) = take (nat (bsize ap)) (bvalue ap)"
    using assms by (simp add: grown_def zero_between_def mprRealloc_def)
qed

lemma grown_ok:
  assumes "ba_wf ap" "bsize ap < len"
  shows "ba_wf (grown ap len)" "contents (grown ap len) = contents ap"
proof -
  from assms have b: "0 \<le> bsize ap" "bsize ap \<le> int (length (bvalue ap))" by (simp_all add: ba_wf_def)
  note gp = grown_prefix [OF b(1) assms(2) b(2)]
  from gp(1) assms show "ba_wf (grown ap len)" by (simp add: ba_wf_def grown_def)
  have *: "contents x = take (nat (availableBytes x)) (drop (nat (readPosition x)) (take (nat n) (bvalue x)))"
    if "0 \<le> readPosition x" "readPosition x \<le> writePosition x" "writePosition x \<le> n" for x n
    using that by (auto simp: contents_def availableBytes_def drop_take min_def)
  show "contents (grown ap len) = contents ap"
    using assms gp(2) * [of ap "bsize ap"] * [of "grown ap len" "bsize ap"]
    by (simp add: ba_wf_def grown_def availableBytes_def)
qed

lemma grow_ok:
  assumes "ba_wf ap" "memory_ok ejs" "ejsGrowByteArray ejs ap len = (rc, ejs', ap')"
  shows "memory_ok ejs'" "ba_wf ap'" "0 \<le> rc \<Longrightarrow> len \<le> bsize ap'"
  using assms(3) grow_cases [OF assms(2), of ap len] assms(1,2) grown_ok(1) [OF assms(1), of len]
  by (auto split: if_splits simp: grown_def)

lemma make_room_ok:
  assumes "observers_ok obs" "ba_wf ap" "memory_ok ejs"
    and "ejsMakeRoomInByteArray obs ejs ap n = (ok, ejs', ap')"
  shows "memory_ok ejs'" "ba_wf ap'" "ok \<Longrightarrow> n \<le> room ap'"
proof -
  obtain ejs1 ap1 where e: "(if emitter ap \<and> availableBytes ap \<noteq> 0
      then ejsSendEvent obs ''readable'' ejs ap else (ejs, ap)) = (ejs1, ap1)" by (rule prod.exhaust)
  note ok1 = maybe_event_ok [OF e assms(1,3,2)]
  obtain rc ejs2 ap2 where g: "ejsGrowByteArray ejs1 ap1 (max (bsize ap1 + n) (bsize ap1 + growInc ap1))
      = (rc, ejs2, ap2)" by (rule prod_cases3)
  note gk = grow_ok [OF ok1(2) ok1(1) g]
  have w: "room ap1 < n \<Longrightarrow> 0 \<le> rc \<Longrightarrow> writePosition ap2 = writePosition ap1"
    using g by (auto simp: ejsGrowByteArray_def Let_def split: if_splits)
  consider "n \<le> room ap" | "room ap < n" "n \<le> room ap1" | "room ap < n" "room ap1 < n" by linarith
  then have "memory_ok ejs' \<and> ba_wf ap' \<and> (ok \<longrightarrow> n \<le> room ap')"
  proof cases
    case 1
    with assms(2-4) show ?thesis by (simp add: ejsMakeRoomInByteArray_def)
  next
    case 2
    with assms(4) ok1 show ?thesis by (simp add: ejsMakeRoomInByteArray_def e)
  next
    case 3
    with assms(4) have "ejs' = ejs2" "ap' = ap2" "ok = (\<not> rc < 0)"
      by (simp_all add: ejsMakeRoomInByteArray_def e g)
    with gk w 3 ok1(2) show ?thesis by (auto simp: room_def ba_wf_def)
  qed
  then show "memory_ok ejs'" "ba_wf ap'" "ok \<Longrightarrow> n \<le> room ap'" by simp_all
qed

lemma take_drop_append_block:
  assumes "r + k + length bs \<le> length v"
  shows "take (k + length bs) (drop r (take (r + k) v @ bs @ drop (r + k + length bs) v)) = take k (drop r v) @ bs"
  using assms by (cases bs) (auto simp: drop_take min_def)

lemma put_bytes_ok:
  assumes "ba_wf ap" "int (length bs) \<le> room ap"
  shows "\<exists>v. put_bytes ap bs = Some (int (length bs), ap\<lparr>bvalue := v, writePosition := writePosition ap + int (length bs)\<rparr>)
     \<and> length v = length (bvalue ap)
     \<and> contents (ap\<lparr>bvalue := v, writePosition := writePosition ap + int (length bs)\<rparr>) = contents ap @ bs"
proof -
  obtain r where r: "readPosition ap = int r" using assms(1) by (auto simp: ba_wf_def elim: nonneg_int_cases)
  obtain k where k: "writePosition ap = int (r + k)"
    using assms(1) r by (metis ba_wf_def zle_iff_zadd of_nat_add)
  from assms k have b: "r + k + length bs \<le> length (bvalue ap)" by (auto simp: ba_wf_def room_def)
  then obtain v where v: "mem_write_block (bvalue ap) (writePosition ap) bs = Some v"
    using mem_write_block_defined [of "writePosition ap" bs "bvalue ap"] k by auto
  have n: "nat (int k + int (length bs)) = k + length bs" by simp
  have "take (k + length bs) (drop r v) = take k (drop r (bvalue ap)) @ bs"
    using v k b take_drop_append_block [OF b]
    by (auto simp: mem_write_block_def nat_int_add split: if_splits)
  then show ?thesis
    using v mem_write_block_length [OF v] r k n
    by (intro exI [of _ v]) (simp add: put_bytes_def contents_def availableBytes_def)
qed

section \<open>Every method keeps the invariant\<close>

text \<open>A method is safe when it is defined and leaves a well-formed array.\<close>

definition ba_safe :: "('r \<times> ejs \<times> byte_array) option \<Rightarrow> bool" where
  "ba_safe out \<longleftrightarrow> (\<exists>r ejs ap. out = Some (r, ejs, ap) \<and> memory_ok ejs \<and> ba_wf ap)"

lemma ba_safeI: "memory_ok ejs \<Longrightarrow> ba_wf ap \<Longrightarrow> ba_safe (Some (r, ejs, ap))"
  by (simp add: ba_safe_def)

lemma mem_read_block_in:
  "0 \<le> i \<Longrightarrow> i + n \<le> int (length m) \<Longrightarrow> mem_read_block m i n = Some (take (nat n) (drop (nat i) m))"
  by (simp add: mem_read_block_def)

lemma getInput_ok:
  assumes "observers_ok obs" "memory_ok ejs" "ba_wf ap" "getInput obs ejs ap n = (k, ejs', ap')"
  shows "memory_ok ejs'" "ba_wf ap'" "k = (if availableBytes ap' < n then 0 else availableBytes ap')"
proof -
  define ap1 where "ap1 = (if availableBytes ap = 0 then reset_positions ap else ap)"
  have w: "ba_wf ap1" using assms(3) by (simp add: ap1_def ba_wf_reset)
  obtain ejs2 ap2 where e: "(if availableBytes ap1 < n \<and> exception ejs = None \<and> emitter ap1
      then ejsSendEvent obs ''writable'' ejs ap1 else (ejs, ap1)) = (ejs2, ap2)" by (rule prod.exhaust)
  note ok = maybe_event_ok [OF e assms(1,2) w]
  from assms(4) have "ejs' = ejs2" "ap' = ap2" "k = (if availableBytes ap2 < n then 0 else availableBytes ap2)"
    by (auto simp: getInput_def Let_def e simp flip: ap1_def)
  with ok show "memory_ok ejs'" "ba_wf ap'" "k = (if availableBytes ap' < n then 0 else availableBytes ap')"
    by simp_all
qed

lemma adjust_ok: "ba_wf ap \<Longrightarrow> 0 \<le> n \<Longrightarrow> n \<le> availableBytes ap \<Longrightarrow> ba_wf (adjustReadPosition ap n)"
  by (auto simp: ba_wf_def adjustReadPosition_def availableBytes_def Let_def)

lemma read_typed_safe [wf_intros]:
  assumes "observers_ok obs" "memory_ok ejs" "ba_wf ap" "0 < n"
  shows "ba_safe (read_typed obs ejs ap n premature conv)"
proof -
  obtain k ejs1 ap1 where g: "getInput obs ejs ap n = (k, ejs1, ap1)" by (rule prod_cases3)
  note ok = getInput_ok [OF assms(1-3) g]
  show ?thesis
  proof (cases "k \<le> 0")
    case True
    with ok(1,2) show ?thesis by (simp add: read_typed_def g ba_safe_def)
  next
    case False
    with ok(3) assms(4) have av: "n \<le> availableBytes ap1" "0 \<le> n" by (auto split: if_splits)
    with ok(2) have "mem_read_block (bvalue ap1) (readPosition ap1) n
        = Some (take (nat n) (drop (nat (readPosition ap1)) (bvalue ap1)))"
      by (intro mem_read_block_in) (auto simp: ba_wf_def availableBytes_def)
    with False ok(1) adjust_ok [OF ok(2) av(2,1)] show ?thesis by (simp add: read_typed_def g ba_safe_def)
  qed
qed

lemma readString_safe [wf_intros]:
  assumes "observers_ok obs" "memory_ok ejs" "ba_wf ap"
  shows "ba_safe (ba_readString obs ejs ap count_arg)"
proof -
  define c0 where "c0 = (case count_arg of Some n \<Rightarrow> n | None \<Rightarrow> - 1)"
  obtain k ejs1 ap1 where g: "getInput obs ejs ap (if c0 < 0 then 1 else c0) = (k, ejs1, ap1)" by (rule prod_cases3)
  note ok = getInput_ok [OF assms(1-3) g]
  have nn: "0 \<le> k" "0 \<le> availableBytes ap1" using ok(2,3) by (auto simp: ba_wf_def availableBytes_def)
  define c where "c = min (if c0 < 0 then availableBytes ap1 else c0) (availableBytes ap1)"
  have c: "0 \<le> c" "c \<le> availableBytes ap1" using nn(2) by (auto simp: c_def)
  with ok(2) have "mem_read_block (bvalue ap1) (readPosition ap1) c
      = Some (take (nat c) (drop (nat (readPosition ap1)) (bvalue ap1)))"
    by (intro mem_read_block_in) (auto simp: ba_wf_def availableBytes_def)
  with nn(1) ok(1) adjust_ok [OF ok(2) c] show ?thesis
    by (simp add: ba_readString_def ba_safe_def Let_def g flip: c0_def c_def)
qed

text \<open>A put operation that needs \<open>n\<close> bytes of room.\<close>

definition put_ok :: "int \<Rightarrow> (byte_array \<Rightarrow> (int \<times> byte_array) option) \<Rightarrow> bool" where
  "put_ok n put \<longleftrightarrow> (\<forall>a. ba_wf a \<longrightarrow> n \<le> room a \<longrightarrow> (\<exists>k a'. put a = Some (k, a') \<and> ba_wf a'))"

lemma put_bytes_put_ok: "put_ok n (\<lambda>a. put_bytes a (f a))" if "\<And>a. int (length (f a)) = n"
  unfolding put_ok_def
proof (intro allI impI)
  fix a assume a: "ba_wf a" "n \<le> room a"
  from put_bytes_ok [OF a(1), of "f a"] a(2) that obtain v where
    "put_bytes a (f a) = Some (n, a\<lparr>bvalue := v, writePosition := writePosition a + n\<rparr>)"
    "length v = length (bvalue a)" by auto
  with a that [of a] show "\<exists>k a'. put_bytes a (f a) = Some (k, a') \<and> ba_wf a'" by (auto simp: ba_wf_def room_def)
qed

lemma word_bytes_length [simp]: "length (word_bytes n w) = n"
  by (simp add: word_bytes_def)

lemma word_bytes_Nil [simp]: "word_bytes n w = [] \<longleftrightarrow> n = 0"
  by (simp flip: length_0_conv)

lemma puts_ok [wf_intros]:
  "put_ok 1 (\<lambda>a. putByte a val)" "put_ok 2 (\<lambda>a. putShort a val)" "put_ok 4 (\<lambda>a. putInteger a val)"
  "put_ok 8 (\<lambda>a. putLong a val)" "put_ok 8 (\<lambda>a. putDouble fp a d)" "put_ok 8 (\<lambda>a. putNumber fp a d)"
  by (simp_all add: putByte_def putShort_def putInteger_def putLong_def putNumber_def putDouble_def
      put_bytes_put_ok)

lemma putString_eq: "int (length str) \<le> room ap \<Longrightarrow>
    putString ap str = map_option (\<lambda>(k, a). (c_int k, a)) (put_bytes ap str)"
  by (auto simp: putString_def put_bytes_def mprMemcpy_def option.map_comp comp_def)

lemma putString_ok [wf_intros]: "put_ok (int (length s)) (\<lambda>a. putString a s)"
  using put_bytes_put_ok [of "\<lambda>_. s" "int (length s)"]
  by (fastforce simp: put_ok_def putString_eq)

lemma write_typed_safe:
  assumes "observers_ok obs" "memory_ok ejs" "ba_wf ap" "put_ok n put"
  shows "ba_safe (map_option (Pair r) (write_typed obs ejs ap n put))"
proof -
  obtain ok ejs1 ap1 where m: "ejsMakeRoomInByteArray obs ejs ap n = (ok, ejs1, ap1)" by (rule prod_cases3)
  note mk = make_room_ok [OF assms(1,3,2) m]
  show ?thesis
  proof (cases ok)
    case True
    with mk assms(4) obtain k a where p: "put ap1 = Some (k, a)" "ba_wf a" unfolding put_ok_def by blast
    obtain e a' where ev: "(if emitter a then ejsSendEvent obs ''readable'' ejs1 a else (ejs1, a)) = (e, a')"
      by (rule prod.exhaust)
    from maybe_event_ok [OF ev assms(1) mk(1) p(2)] True p(1) show ?thesis
      by (simp add: write_typed_def m ev ba_safe_def)
  next
    case False
    with mk show ?thesis by (simp add: write_typed_def m ba_safe_def)
  qed
qed

lemma make_room_and_put_safe [wf_intros]:
  assumes "observers_ok obs" "memory_ok ejs" "ba_wf ap" "put_ok n put"
  shows "ba_safe (make_room_and_put obs ejs ap n put)"
proof -
  obtain ok ejs1 ap1 where m: "ejsMakeRoomInByteArray obs ejs ap n = (ok, ejs1, ap1)" by (rule prod_cases3)
  note mk = make_room_ok [OF assms(1,3,2) m]
  show ?thesis
  proof (cases ok)
    case True
    with mk assms(4) obtain k a where "put ap1 = Some (k, a)" "ba_wf a" unfolding put_ok_def by blast
    with mk(1) True show ?thesis by (simp add: make_room_and_put_def m ba_safe_def)
  next
    case False
    with mk show ?thesis by (simp add: make_room_and_put_def m ba_safe_def)
  qed
qed

text \<open>The copy into the array checks the bounds itself.\<close>

lemma copyTo_safe:
  assumes "observers_ok obs" "memory_ok ejs" "ba_wf ap" "0 \<le> off"
    and "ejsCopyToByteArray obs ejs ap off data = out"
  shows "\<exists>rc ejs' ap'. out = Some (rc, ejs', ap') \<and> memory_ok ejs' \<and> ba_wf ap'
     \<and> (rc \<noteq> EJS_ERR \<longrightarrow> off + int (length data) \<le> room ap')"
proof -
  obtain ok ejs1 ap1 where m: "ejsMakeRoomInByteArray obs ejs ap (off + int (length data)) = (ok, ejs1, ap1)"
    by (rule prod_cases3)
  note mk = make_room_ok [OF assms(1,3,2) m]
  show ?thesis
  proof (cases "ok \<and> off + int (length data) \<le> bsize ap1")
    case True
    with mk(2) have "off + int (length data) \<le> int (length (bvalue ap1))" by (simp add: ba_wf_def)
    with assms(4) obtain v where v: "mem_write_block (bvalue ap1) off data = Some v"
      using mem_write_block_defined [of off data "bvalue ap1"] by auto
    with True mk assms(4,5) mem_write_block_length [OF v] show ?thesis
      by (auto simp: ejsCopyToByteArray_def m ba_wf_def room_def Let_def)
  next
    case False
    with mk assms(4,5) show ?thesis by (auto simp: ejsCopyToByteArray_def m EJS_ERR_def Let_def)
  qed
qed

lemma ba_safe_cases:
  assumes "ba_safe out"
  obtains r ejs ap where "out = Some (r, ejs, ap)" "memory_ok ejs" "ba_wf ap"
  using assms by (auto simp: ba_safe_def)

text \<open>
  The data that \<^verbatim>\<open>write\<close> makes room for. The default case of its switch makes none, and the room
  made for a byte array is not the room that its copy asks for.
\<close>

fun datum_ok :: "ba_datum \<Rightarrow> bool" where
  "datum_ok (WArray _ _) = False"
| "datum_ok (WOther _) = False"
| "datum_ok (WByteArray _) = False"
| "datum_ok _ = True"

lemma write_datum_safe [wf_intros]:
  assumes "observers_ok obs" "memory_ok ejs" "ba_wf ap" "datum_ok vp"
  shows "ba_safe (write_datum fp obs ejs ap vp)"
  using assms(4)
  by (cases vp) (simp_all add: write_datum_def ba_safeI assms make_room_and_put_safe puts_ok putString_ok)

lemma write_data_safe:
  assumes "observers_ok obs" "memory_ok ejs" "ba_wf ap" "list_all datum_ok vps"
  shows "ba_safe (write_data fp obs ejs ap vps wrote)"
  using assms(2-4)
proof (induction vps arbitrary: ejs ap wrote)
  case Nil
  then show ?case by (simp add: ba_safeI)
next
  case (Cons vp vps)
  from write_datum_safe [OF assms(1) Cons.prems(1,2), of vp fp] Cons.prems(3)
  obtain r e a where *: "write_datum fp obs ejs ap vp = Some (r, e, a)" "memory_ok e" "ba_wf a"
    by (auto elim: ba_safe_cases)
  with Cons.IH [of e a] Cons.prems(3) show ?case by (cases r) (simp_all add: ba_safeI)
qed

lemma write_safe:
  assumes "observers_ok obs" "memory_ok ejs" "ba_wf ap" "list_all datum_ok (unwrap_args args)"
  shows "ba_safe (ejsWriteToByteArray fp obs ejs ap args)"
proof -
  define ap0 where "ap0 = (if availableBytes ap = 0 then reset_positions ap else ap)"
  have "ba_wf ap0" using assms(3) by (simp add: ap0_def ba_wf_reset)
  from write_data_safe [OF assms(1,2) this assms(4), of fp 0]
  obtain r e a where w: "write_data fp obs ejs ap0 (unwrap_args args) 0 = Some (r, e, a)" "memory_ok e" "ba_wf a"
    by (rule ba_safe_cases)
  show ?thesis
  proof (cases r)
    case None
    with w show ?thesis by (simp add: ejsWriteToByteArray_def ba_safeI flip: ap0_def)
  next
    case (Some n)
    obtain e' a' where ev: "(if emitter a \<and> n > 0 \<and> availableBytes a > 0
        then ejsSendEvent obs ''readable'' e a else (e, a)) = (e', a')" by (rule prod.exhaust)
    from maybe_event_ok [OF ev assms(1) w(2,3)] Some w(1) show ?thesis
      by (simp add: ejsWriteToByteArray_def ev ba_safeI flip: ap0_def)
  qed
qed

lemma zero_block_ok:
  assumes "ba_wf ap"
  obtains v where "zero_block ap = Some (ap\<lparr>bvalue := v\<rparr>)" "ba_wf (ap\<lparr>bvalue := v\<rparr>)"
proof -
  from assms obtain v where v: "mem_write_block (bvalue ap) 0 (replicate (nat (bsize ap)) 0) = Some v"
    using mem_write_block_defined [of 0 "replicate (nat (bsize ap)) 0" "bvalue ap"] by (auto simp: ba_wf_def)
  with mem_write_block_length [OF v] assms show thesis
    by (intro that) (auto simp: zero_block_def ba_wf_def)
qed

lemma flush_ok:
  assumes "observers_ok obs" "memory_ok ejs" "ba_wf ap" "flushByteArray obs ejs ap = (ejs', ap')"
  shows "memory_ok ejs'" "ba_wf ap'"
proof -
  obtain e1 a1 where e: "(if emitter ap \<and> availableBytes ap \<noteq> 0 \<and> exception ejs = None
      then ejsSendEvent obs ''flush'' ejs ap else (ejs, ap)) = (e1, a1)" by (rule prod.exhaust)
  note ok = maybe_event_ok [OF e assms(1-3)]
  have f: "(if emitter (reset_positions a1) then ejsSendEvent obs ''writable'' e1 (reset_positions a1)
      else (e1, reset_positions a1)) = (ejs', ap')"
    using assms(4) by (simp add: flushByteArray_def e Let_def)
  show "memory_ok ejs'" "ba_wf ap'"
    using maybe_event_ok [OF f assms(1) ok(1) ba_wf_reset [OF ok(2)]] by simp_all
qed

lemma compact_ok:
  assumes "ba_wf ap"
  obtains ap' where "ba_compact ap = Some ap'" "ba_wf ap'" "contents ap' = contents ap" "readPosition ap' = 0"
    "bsize ap' = bsize ap" "room ap' \<ge> room ap"
proof -
  from assms obtain r where r: "readPosition ap = int r" by (auto simp: ba_wf_def elim: nonneg_int_cases)
  obtain k where k: "writePosition ap = int (r + k)"
    using assms r by (metis ba_wf_def zle_iff_zadd of_nat_add)
  from assms k have b: "r + k \<le> length (bvalue ap)" by (simp add: ba_wf_def)
  consider "k = 0" | "k \<noteq> 0" "r = 0" | "k \<noteq> 0" "r \<noteq> 0" by blast
  then show thesis
  proof cases
    case 1
    with that [of "reset_positions ap"] r k assms show thesis
      by (simp add: ba_compact_def ba_wf_def reset_positions_def contents_def availableBytes_def room_def)
  next
    case 2
    with that [of ap] r k assms show thesis by (simp add: ba_compact_def)
  next
    case 3
    define bs where "bs = take k (drop r (bvalue ap))"
    have lb: "length bs = k" using b by (simp add: bs_def)
    have rd: "mem_read_block (bvalue ap) (int r) (int k) = Some bs"
      using b 3 by (simp add: mem_read_block_def bs_def)
    from b lb obtain v where v: "mem_write_block (bvalue ap) 0 bs = Some v"
      using mem_write_block_defined [of 0 bs "bvalue ap"] by auto
    let ?a = "ap\<lparr>bvalue := v, writePosition := int k, readPosition := 0\<rparr>"
    have "contents ?a = contents ap"
      using mem_read_block_written [OF v] lb b r k 3
      by (auto simp: contents_def availableBytes_def mem_read_block_def bs_def split: if_splits)
    with that [of ?a] rd v mem_write_block_length [OF v] 3 r k assms show thesis
      by (simp add: ba_compact_def ba_wf_def room_def)
  qed
qed

text \<open>
  The methods of a script, as one operation on the interpreter and the array. The last five are the ones that overrun blocks when they
  are called with unsuitable arguments; a second array that a method takes is an argument, and what it becomes is not looked at.
\<close>

datatype ba_call =
    CallSetAsync bool | CallClose | CallCompact | CallSetEndian int | CallFlush | CallReset
  | CallReadBoolean | CallReadByte | CallReadDate | CallReadDouble | CallReadInteger | CallReadLong
  | CallReadShort | CallReadString "int option" | CallSetReadPosition int | CallToString
  | CallWrite "ba_datum list" | CallWriteByte int | CallWriteShort int | CallWriteInteger int
  | CallWriteDouble uint64 | CallSetWritePosition int | CallGetProperty int | CallSetProperty int int
  | CallWriteLong int | CallDeleteProperty int int | CallRead byte_array "int list"
  | CallCopyIn int byte_array "int option" "int option" | CallCopyOut int byte_array "int option" "int option"

definition no_result :: "(ejs \<times> byte_array) option \<Rightarrow> (ba_result \<times> ejs \<times> byte_array) option" where
  "no_result out = map_option (Pair NoResult) out"

fun ba_exec :: "fp_casts \<Rightarrow> observers \<Rightarrow> ba_call \<Rightarrow> ejs \<Rightarrow> byte_array \<Rightarrow> (ba_result \<times> ejs \<times> byte_array) option" where
  "ba_exec fp obs (CallSetAsync b) ejs ap = Some (NoResult, ejs, ba_setAsync ap b)"
| "ba_exec fp obs CallClose ejs ap = no_result (Some (ba_close obs ejs ap))"
| "ba_exec fp obs CallCompact ejs ap = no_result (map_option (Pair ejs) (ba_compact ap))"
| "ba_exec fp obs (CallSetEndian e) ejs ap = no_result (Some (setEndian ejs ap e))"
| "ba_exec fp obs CallFlush ejs ap = no_result (ba_flush obs ejs ap)"
| "ba_exec fp obs CallReset ejs ap = no_result (map_option (Pair ejs) (ba_reset ap))"
| "ba_exec fp obs CallReadBoolean ejs ap = ba_readBoolean obs ejs ap"
| "ba_exec fp obs CallReadByte ejs ap = ba_readByte obs ejs ap"
| "ba_exec fp obs CallReadDate ejs ap = ba_readDate fp obs ejs ap"
| "ba_exec fp obs CallReadDouble ejs ap = ba_readDouble fp obs ejs ap"
| "ba_exec fp obs CallReadInteger ejs ap = ba_readInteger obs ejs ap"
| "ba_exec fp obs CallReadLong ejs ap = ba_readLong fp obs ejs ap"
| "ba_exec fp obs CallReadShort ejs ap = ba_readShort obs ejs ap"
| "ba_exec fp obs (CallReadString n) ejs ap = ba_readString obs ejs ap n"
| "ba_exec fp obs (CallSetReadPosition n) ejs ap = no_result (Some (ba_setReadPosition ejs ap n))"
| "ba_exec fp obs CallToString ejs ap = map_option (\<lambda>r. (r, ejs, ap)) (ba_toString ap)"
| "ba_exec fp obs (CallWrite args) ejs ap = ejsWriteToByteArray fp obs ejs ap args"
| "ba_exec fp obs (CallWriteByte n) ejs ap = no_result (ba_writeByte obs ejs ap n)"
| "ba_exec fp obs (CallWriteShort n) ejs ap = no_result (ba_writeShort obs ejs ap n)"
| "ba_exec fp obs (CallWriteInteger n) ejs ap = no_result (ba_writeInteger obs ejs ap n)"
| "ba_exec fp obs (CallWriteDouble d) ejs ap = no_result (ba_writeDouble fp obs ejs ap d)"
| "ba_exec fp obs (CallSetWritePosition n) ejs ap = no_result (Some (ba_setWritePosition ejs ap n))"
| "ba_exec fp obs (CallGetProperty i) ejs ap = map_option (\<lambda>(r, e). (r, e, ap)) (getByteArrayProperty ejs ap i)"
| "ba_exec fp obs (CallSetProperty i n) ejs ap =
     map_option (\<lambda>(rc, e, a). (JsNumber rc, e, a)) (setByteArrayProperty ejs ap i n)"
| "ba_exec fp obs (CallWriteLong n) ejs ap = no_result (ba_writeLong obs ejs ap n)"
| "ba_exec fp obs (CallDeleteProperty undef i) ejs ap =
     map_option (\<lambda>(rc, e, a). (JsNumber rc, e, a)) (deleteByteArrayProperty undef ejs ap i)"
| "ba_exec fp obs (CallRead buffer args) ejs ap = map_option (\<lambda>(r, e, a, _). (r, e, a)) (ba_read obs ejs ap buffer args)"
| "ba_exec fp obs (CallCopyIn i src src_arg count_arg) ejs ap = ba_copyIn obs ejs ap i src src_arg count_arg"
| "ba_exec fp obs (CallCopyOut i dest dest_arg count_arg) ejs ap =
     map_option (\<lambda>(r, e, _). (r, e, ap)) (ba_copyOut obs ejs ap i dest dest_arg count_arg)"

text \<open>
  What a call needs. An element is not stored at a negative index. \<^verbatim>\<open>writeLong\<close> needs eight bytes where it asks for four. The last byte of
  an array is not deleted, and no element at a negative index. A read, and a copy from or to another array, needs offsets
  in the arrays and a target that holds the bytes; \<^verbatim>\<open>copyOut\<close> looks after its target itself. A negative offset of \<^verbatim>\<open>read\<close> is the
  write position of the buffer.
\<close>

fun call_ok :: "observers \<Rightarrow> ejs \<Rightarrow> byte_array \<Rightarrow> ba_call \<Rightarrow> bool" where
  "call_ok obs ejs ap (CallWrite args) = list_all datum_ok (unwrap_args args)"
| "call_ok obs ejs ap (CallSetProperty i n) = (0 \<le> i)"
| "call_ok obs ejs ap (CallWriteLong n) = (let (ok, ejs1, ap1) = ejsMakeRoomInByteArray obs ejs ap 4 in ok \<longrightarrow> 8 \<le> room ap1)"
| "call_ok obs ejs ap (CallDeleteProperty undef i) = (0 \<le> i \<and> bsize ap \<noteq> 1)"
| "call_ok obs ejs ap (CallRead buffer args) =
     (let offset0 = (case args of [n] \<Rightarrow> n | _ \<Rightarrow> 0);
          offset = (if offset0 < 0 then writePosition buffer else offset0);
          count0 = (case args of [_, n] \<Rightarrow> n | _ \<Rightarrow> c_int (bsize buffer));
          count = (if count0 < 0 then bsize buffer else count0)
      in ba_wf buffer \<and> (offset0 < bsize buffer \<longrightarrow> offset + count \<le> bsize buffer))"
| "call_ok obs ejs ap (CallCopyIn i src src_arg count_arg) =
     (let offset = (case src_arg of Some n \<Rightarrow> n | None \<Rightarrow> 0);
          count0 = (case count_arg of Some n \<Rightarrow> n | None \<Rightarrow> MAXINT);
          count = min (bsize src - offset) (if count0 < 0 then MAXINT else count0);
          (ok, ejs1, ap1) = ejsMakeRoomInByteArray obs ejs ap (i + count)
      in ba_wf src \<and> 0 \<le> offset \<and> 0 \<le> i \<and> (ok \<or> i + count \<le> bsize ap1))"
| "call_ok obs ejs ap (CallCopyOut i dest dest_arg count_arg) =
     (ba_wf dest \<and> 0 \<le> i \<and> (\<forall>n \<in> set_option dest_arg. 0 \<le> n))"
| "call_ok obs ejs ap _ = True"

lemma setProperty_safe:
  assumes "memory_ok ejs" "ba_wf ap" "0 \<le> i"
  shows "ba_safe (setByteArrayProperty ejs ap i n)"
proof -
  obtain rc e a where g: "(if i \<ge> bsize ap then ejsGrowByteArray ejs ap (i + 1) else (0, ejs, ap)) = (rc, e, a)"
    by (rule prod_cases3)
  then have ok: "memory_ok e" "ba_wf a" "0 \<le> rc \<Longrightarrow> i < bsize a"
    using assms grow_ok [OF assms(2,1), of "i + 1" rc e a] by (auto split: if_splits)
  show ?thesis
  proof (cases "rc < 0")
    case True
    with ok show ?thesis by (simp add: setByteArrayProperty_def g ba_safeI)
  next
    case False
    with ok assms(3) have "mem_write (bvalue a) i (word_of_int n) = Some ((bvalue a)[nat i := word_of_int n])"
      by (intro mem_write_Some) (auto simp: ba_wf_def)
    with False ok show ?thesis by (simp add: setByteArrayProperty_def g ba_safe_def ba_wf_def)
  qed
qed

lemma readers_safe:
  assumes "observers_ok obs" "memory_ok ejs" "ba_wf ap"
  shows "ba_safe (ba_readBoolean obs ejs ap)" "ba_safe (ba_readByte obs ejs ap)"
    "ba_safe (ba_readDate fp obs ejs ap)" "ba_safe (ba_readDouble fp obs ejs ap)"
    "ba_safe (ba_readInteger obs ejs ap)" "ba_safe (ba_readLong fp obs ejs ap)" "ba_safe (ba_readShort obs ejs ap)"
  by (simp_all add: ba_readBoolean_def ba_readByte_def ba_readDate_def ba_readDouble_def ba_readInteger_def
      ba_readLong_def ba_readShort_def read_typed_safe [OF assms])

lemma writers_safe:
  assumes "observers_ok obs" "memory_ok ejs" "ba_wf ap"
  shows "ba_safe (no_result (ba_writeByte obs ejs ap n))" "ba_safe (no_result (ba_writeShort obs ejs ap n))"
    "ba_safe (no_result (ba_writeInteger obs ejs ap n))" "ba_safe (no_result (ba_writeDouble fp obs ejs ap d))"
  by (simp_all add: no_result_def ba_writeByte_def ba_writeShort_def ba_writeInteger_def ba_writeDouble_def
      write_typed_safe [OF assms] puts_ok)

lemma setters_safe:
  assumes "memory_ok ejs" "ba_wf ap"
  shows "ba_safe (no_result (Some (setEndian ejs ap e)))" "ba_safe (Some (NoResult, ejs, ba_setAsync ap b))"
    "ba_safe (no_result (Some (ba_setReadPosition ejs ap n)))" "ba_safe (no_result (Some (ba_setWritePosition ejs ap n)))"
  using assms by (auto simp: no_result_def ba_setAsync_def setEndian_def ba_setReadPosition_def
      ba_setWritePosition_def ba_safe_def ba_wf_def)

lemma writeLong_safe:
  assumes "observers_ok obs" "memory_ok ejs" "ba_wf ap" and "call_ok obs ejs ap (CallWriteLong n)"
  shows "ba_safe (no_result (ba_writeLong obs ejs ap n))"
proof -
  obtain ok ejs1 ap1 where m: "ejsMakeRoomInByteArray obs ejs ap 4 = (ok, ejs1, ap1)" by (rule prod_cases3)
  note mk = make_room_ok [OF assms(1,3,2) m]
  show ?thesis
  proof (cases ok)
    case True
    with assms(4) m have "8 \<le> room ap1" by simp
    with mk(2) puts_ok(4) obtain k a where p: "putLong ap1 n = Some (k, a)" "ba_wf a" unfolding put_ok_def by blast
    obtain e a' where ev: "(if emitter a then ejsSendEvent obs ''readable'' ejs1 a else (ejs1, a)) = (e, a')"
      by (rule prod.exhaust)
    from maybe_event_ok [OF ev assms(1) mk(1) p(2)] True p(1) show ?thesis
      by (simp add: ba_writeLong_def write_typed_def m ev ba_safe_def no_result_def)
  next
    case False
    with mk show ?thesis by (simp add: ba_writeLong_def write_typed_def m ba_safe_def no_result_def)
  qed
qed

lemma delete_safe:
  assumes "memory_ok ejs" "ba_wf ap" "0 \<le> i" "bsize ap \<noteq> 1"
  shows "ba_safe (map_option (\<lambda>(rc, e, a). (JsNumber rc, e, a)) (deleteByteArrayProperty undef ejs ap i))"
proof (cases "i \<ge> bsize ap")
  case True
  with assms show ?thesis by (simp add: deleteByteArrayProperty_def ba_safe_def)
next
  case False
  define ap1 where "ap1 = (if i + 1 = bsize ap
      then let a = ap\<lparr>bsize := bsize ap - 1\<rparr>;
               b = (if readPosition a \<ge> bsize a then a\<lparr>readPosition := bsize a - 1\<rparr> else a)
           in if writePosition b \<ge> bsize b then b\<lparr>writePosition := bsize b - 1\<rparr> else b
      else ap)"
  have "ba_wf ap1" using assms(2-4) by (auto simp: ap1_def ba_wf_def Let_def)
  from setProperty_safe [OF assms(1) this assms(3), of undef]
  obtain r e a where "setByteArrayProperty ejs ap1 i undef = Some (r, e, a)" "memory_ok e" "ba_wf a" by (rule ba_safe_cases)
  with False show ?thesis by (simp add: deleteByteArrayProperty_def ba_safe_def flip: ap1_def)
qed

lemma read_safe:
  assumes "observers_ok obs" "memory_ok ejs" "ba_wf ap" and "call_ok obs ejs ap (CallRead buffer args)"
  shows "ba_safe (map_option (\<lambda>(r, e, a, _). (r, e, a)) (ba_read obs ejs ap buffer args))"
proof -
  define offset0 where "offset0 = (case args of [n] \<Rightarrow> n | _ \<Rightarrow> 0)"
  define offset where "offset = (if offset0 < 0 then writePosition buffer else offset0)"
  define count0 where "count0 = (case args of [_, n] \<Rightarrow> n | _ \<Rightarrow> c_int (bsize buffer))"
  define count1 where "count1 = (if count0 < 0 then bsize buffer else count0)"
  define buffer1 where "buffer1 = (if offset0 < 0 then buffer else buffer\<lparr>readPosition := 0, writePosition := 0\<rparr>)"
  obtain n ejs1 ap1 where g: "getInput obs ejs ap 1 = (n, ejs1, ap1)" by (rule prod_cases3)
  note gi = getInput_ok [OF assms(1-3) g]
  note defs = ba_read_def offset0_def [symmetric] count0_def [symmetric] offset_def [symmetric] count1_def [symmetric] buffer1_def [symmetric] Let_def g
  have "ba_wf buffer \<and> (offset0 < bsize buffer \<longrightarrow> offset + count1 \<le> bsize buffer)"
    using assms(4) unfolding call_ok.simps Let_def offset_def offset0_def count1_def count0_def .
  then have ok: "ba_wf buffer" "offset0 < bsize buffer \<longrightarrow> offset + count1 \<le> bsize buffer" by simp_all
  consider "0 \<le> offset0" "offset0 \<ge> bsize buffer" | "offset0 < bsize buffer" "n \<le> 0" | "offset0 < bsize buffer" "0 < n"
  proof (cases "offset0 < bsize buffer")
    case True
    then show ?thesis using that(2,3) by (cases "n \<le> 0") simp_all
  next
    case False
    then show ?thesis using ok(1) by (intro that(1)) (auto simp: ba_wf_def)
  qed
  then show ?thesis
  proof cases
    case 1
    with assms show ?thesis by (simp add: defs ba_safe_def)
  next
    case 2
    with gi show ?thesis by (simp add: defs ba_safe_def)
  next
    case 3
    define count where "count = min (availableBytes ap1) count1"
    have nn: "0 \<le> offset" "0 \<le> count1" using ok(1) by (auto simp: offset_def count1_def ba_wf_def)
    have av: "1 \<le> availableBytes ap1" using 3(2) gi(3) by (auto split: if_splits)
    have c: "0 \<le> count" "count \<le> availableBytes ap1" "offset + count \<le> bsize buffer" using nn av ok(2) 3(1) by (auto simp: count_def)
    obtain bs where bs: "mem_read_block (bvalue ap1) (readPosition ap1) count = Some bs" "int (length bs) = count"
      using mem_read_block_in [of "readPosition ap1" count "bvalue ap1"] gi(2) c(1,2) by (auto simp: ba_wf_def availableBytes_def)
    have "bvalue buffer1 = bvalue buffer" by (simp add: buffer1_def)
    then obtain v where v: "mem_write_block (bvalue buffer1) offset bs = Some v"
      using mem_write_block_defined [of offset bs "bvalue buffer1"] nn(1) c(3) bs(2) ok(1) by (auto simp: ba_wf_def)
    define ap2 where "ap2 = ap1\<lparr>readPosition := readPosition ap1 + int (length bs)\<rparr>"
    have w: "ba_wf ap2" using gi(2) c(1,2) bs(2) by (simp add: ap2_def ba_wf_def availableBytes_def)
    obtain e a where ev: "(if emitter ap2 \<and> availableBytes ap2 \<noteq> 0 \<and> exception ejs1 = None
        then ejsSendEvent obs ''writable'' ejs1 ap2 else (ejs1, ap2)) = (e, a)" by (rule prod.exhaust)
    note after = maybe_event_ok [OF ev assms(1) gi(1) w]
    have "ba_read obs ejs ap buffer args = Some (JsNumber count, e, a, buffer1\<lparr>bvalue := v, writePosition := writePosition buffer1 + count\<rparr>)"
      using 3 bs(1) v ev unfolding defs by (simp split del: if_split flip: count_def ap2_def) (auto simp: ap2_def split: if_splits)
    with after show ?thesis by (simp add: ba_safe_def)
  qed
qed

lemma copyIn_safe:
  assumes "observers_ok obs" "memory_ok ejs" "ba_wf ap" and "call_ok obs ejs ap (CallCopyIn i src src_arg count_arg)"
  shows "ba_safe (ba_copyIn obs ejs ap i src src_arg count_arg)"
proof -
  define offset where "offset = (case src_arg of Some n \<Rightarrow> n | None \<Rightarrow> 0)"
  define count0 where "count0 = (case count_arg of Some n \<Rightarrow> n | None \<Rightarrow> MAXINT)"
  define count where "count = min (bsize src - offset) (if count0 < 0 then MAXINT else count0)"
  obtain ok ejs1 ap1 where m: "ejsMakeRoomInByteArray obs ejs ap (i + count) = (ok, ejs1, ap1)" by (rule prod_cases3)
  note mk = make_room_ok [OF assms(1,3,2) m]
  note defs = ba_copyIn_def offset_def [symmetric] count0_def [symmetric] Let_def
  have c: "ba_wf src" "0 \<le> offset" "0 \<le> i" "ok \<or> i + count \<le> bsize ap1"
    using assms(4) m by (simp_all add: Let_def flip: offset_def count0_def count_def)
  consider "offset \<ge> bsize src" | "offset < bsize src" "i + count > bsize src" | "offset < bsize src" "i + count \<le> bsize src" by linarith
  then show ?thesis
  proof cases
    case 1
    with assms show ?thesis by (simp add: defs ba_safe_def)
  next
    case 2
    with mk m show ?thesis by (simp add: defs ba_safe_def flip: count_def)
  next
    case 3
    have n: "0 \<le> count" "count \<le> bsize src - offset" using 3(1) by (auto simp: count_def MAXINT_def)
    have room: "i + count \<le> bsize ap1" using c(4) mk(2,3) by (auto simp: ba_wf_def room_def)
    obtain bs where bs: "mem_read_block (bvalue src) offset count = Some bs" "int (length bs) = count"
      using mem_read_block_in [of offset count "bvalue src"] c(1,2) n by (auto simp: ba_wf_def)
    obtain v where v: "mem_write_block (bvalue ap1) i bs = Some v"
      using mem_write_block_defined [of i bs "bvalue ap1"] c(3) room bs(2) mk(2) by (auto simp: ba_wf_def)
    with 3 bs m mem_write_block_length [OF v] mk show ?thesis by (simp add: defs ba_safe_def ba_wf_def flip: count_def)
  qed
qed

lemma copyOut_safe:
  assumes "observers_ok obs" "memory_ok ejs" "ba_wf ap" and "call_ok obs ejs ap (CallCopyOut i dest dest_arg count_arg)"
  shows "ba_safe (map_option (\<lambda>(r, e, _). (r, e, ap)) (ba_copyOut obs ejs ap i dest dest_arg count_arg))"
proof -
  define offset where "offset = (case dest_arg of Some n \<Rightarrow> n | None \<Rightarrow> 0)"
  define count where "count = min (bsize ap - i) (case count_arg of Some n \<Rightarrow> n | None \<Rightarrow> MAXINT)"
  have c: "ba_wf dest" "0 \<le> i" "0 \<le> offset" using assms(4) by (auto simp: offset_def split: option.split)
  obtain ok ejs1 dest1 where m: "ejsMakeRoomInByteArray obs ejs dest (offset + count) = (ok, ejs1, dest1)" by (rule prod_cases3)
  note mk = make_room_ok [OF assms(1) c(1) assms(2) m]
  note defs = ba_copyOut_def offset_def [symmetric] Let_def
  consider "i \<ge> bsize ap" | "i < bsize ap" "offset + count > bsize dest1" | "i < bsize ap" "offset + count \<le> bsize dest1" by linarith
  then show ?thesis
  proof cases
    case 1
    with assms show ?thesis by (simp add: defs ba_safe_def)
  next
    case 2
    with mk m assms(3) show ?thesis by (simp add: defs ba_safe_def flip: count_def)
  next
    case 3
    have n: "count \<le> bsize ap - i" by (simp add: count_def)
    obtain bs where bs: "mem_read_block (bvalue ap) i count = Some bs" "int (length bs) = max 0 count"
    proof (cases "count \<le> 0")
      case True
      then show ?thesis using that [of "[]"] by (simp add: mem_read_block_def)
    next
      case False
      then show ?thesis using that mem_read_block_in [of i count "bvalue ap"] c(2) n assms(3) by (auto simp: ba_wf_def)
    qed
    have "bs = [] \<or> offset + int (length bs) \<le> int (length (bvalue dest1))" using bs(2) 3(2) mk(2) by (cases "count \<le> 0") (auto simp: ba_wf_def)
    then obtain v where v: "mem_write_block (bvalue dest1) offset bs = Some v"
      using mem_write_block_defined [of offset bs "bvalue dest1"] c(3) by (cases "bs = []") (auto simp: mem_write_block_def)
    with 3 bs m mk assms(3) show ?thesis by (simp add: defs ba_safe_def flip: count_def)
  qed
qed

text \<open>What the methods have in common: they are safe on a well-formed array.\<close>

lemma ba_exec_safe:
  assumes o: "observers_ok obs" and m: "memory_ok ejs" and w: "ba_wf ap" and c: "call_ok obs ejs ap call"
  shows "ba_safe (ba_exec fp obs call ejs ap)"
proof (cases call)
  case CallClose
  obtain e a where ev: "(if emitter ap then ejsSendEvent obs ''close'' ejs ap else (ejs, ap)) = (e, a)"
    by (rule prod.exhaust)
  from maybe_event_ok [OF ev o m w] CallClose show ?thesis
    by (simp add: ba_close_def ev no_result_def ba_safeI ba_wf_reset)
next
  case CallCompact
  with compact_ok [OF w] m show ?thesis by (auto simp: no_result_def ba_safe_def)
next
  case CallFlush
  obtain e a where f: "flushByteArray obs ejs ap = (e, a)" by (rule prod.exhaust)
  note ok = flush_ok [OF o m w f]
  from zero_block_ok [OF ba_wf_reset [OF ok(2)]] ok(1) CallFlush show ?thesis
    by (auto simp: ba_flush_def f no_result_def ba_safe_def)
next
  case CallReset
  with zero_block_ok [OF ba_wf_reset [OF w]] m w show ?thesis
    by (auto simp: ba_reset_def ejsResetByteArray_def no_result_def ba_safe_def)
next
  case CallToString
  with m w show ?thesis
    by (simp add: ba_toString_def ba_safe_def mem_read_block_in ba_wf_def availableBytes_def)
next
  case (CallGetProperty i)
  with m w show ?thesis
    by (auto simp: getByteArrayProperty_def ba_safe_def mem_read_def ba_wf_def)
next
  case (CallSetProperty i n)
  with setProperty_safe [OF m w, of i n] c show ?thesis by (auto elim!: ba_safe_cases intro!: ba_safeI)
next
  case (CallWrite args)
  with write_safe [OF o m w, of args fp] c show ?thesis by simp
next
  case (CallWriteLong n)
  with writeLong_safe [OF o m w] c show ?thesis by (simp only: ba_exec.simps)
next
  case (CallDeleteProperty undef i)
  with delete_safe [OF m w, of i undef] c show ?thesis by simp
next
  case (CallRead buffer args)
  with read_safe [OF o m w] c show ?thesis by (simp only: ba_exec.simps)
next
  case (CallCopyIn i src src_arg count_arg)
  with copyIn_safe [OF o m w] c show ?thesis by (simp only: ba_exec.simps)
next
  case (CallCopyOut i dest dest_arg count_arg)
  with copyOut_safe [OF o m w] c show ?thesis by (simp only: ba_exec.simps)
qed (simp_all add: readers_safe [OF o m w] writers_safe [OF o m w] setters_safe [OF m w] readString_safe [OF o m w])

section \<open>Scripts over an array\<close>

fun ba_run :: "fp_casts \<Rightarrow> observers \<Rightarrow> ba_call list \<Rightarrow> ejs \<Rightarrow> byte_array \<Rightarrow> (ba_result list \<times> ejs \<times> byte_array) option" where
  "ba_run fp obs [] ejs ap = Some ([], ejs, ap)"
| "ba_run fp obs (c # cs) ejs ap =
     (case ba_exec fp obs c ejs ap of
        None \<Rightarrow> None
      | Some (r, ejs1, ap1) \<Rightarrow> map_option (\<lambda>(rs, out). (r # rs, out)) (ba_run fp obs cs ejs1 ap1))"

text \<open>Every call of the script has what it needs when it is made.\<close>

fun script_ok :: "fp_casts \<Rightarrow> observers \<Rightarrow> ba_call list \<Rightarrow> ejs \<Rightarrow> byte_array \<Rightarrow> bool" where
  "script_ok fp obs [] ejs ap \<longleftrightarrow> True"
| "script_ok fp obs (c # cs) ejs ap \<longleftrightarrow>
     call_ok obs ejs ap c \<and> (case ba_exec fp obs c ejs ap of None \<Rightarrow> True | Some (_, ejs1, ap1) \<Rightarrow> script_ok fp obs cs ejs1 ap1)"

lemma ba_run_safe:
  assumes "observers_ok obs" "memory_ok ejs" "ba_wf ap" "script_ok fp obs calls ejs ap"
  shows "\<exists>rs ejs' ap'. ba_run fp obs calls ejs ap = Some (rs, ejs', ap') \<and> length rs = length calls \<and> memory_ok ejs' \<and> ba_wf ap'"
  using assms(2-4)
proof (induction calls arbitrary: ejs ap)
  case (Cons c cs)
  have "call_ok obs ejs ap c" using Cons.prems(3) by simp
  from ba_exec_safe [OF assms(1) Cons.prems(1,2) this, of fp]
  obtain r e a where "ba_exec fp obs c ejs ap = Some (r, e, a)" "memory_ok e" "ba_wf a" by (rule ba_safe_cases)
  with Cons.IH [of e a] Cons.prems(3) show ?case by auto
qed simp

lemma constructor_ok:
  assumes "memory_ok ejs"
  obtains ap where "ba_ByteArray ejs fresh_byte_array len res = (True, ejs, ap)" "ba_wf ap" "contents ap = []"
    "\<not> emitter ap" "\<not> swap ap" "resizable ap = (res \<noteq> Some False)"
proof -
  let ?n = "let n = (case len of Some n \<Rightarrow> n | None \<Rightarrow> ME_MAX_BUFFER) in if n \<le> 0 then 1 else n"
  let ?r = "case res of Some b \<Rightarrow> b | None \<Rightarrow> True"
  let ?a = "fresh_byte_array\<lparr>growInc := (if ?r then ME_MAX_BUFFER else 0), endian_mode := ME_LITTLE_ENDIAN,
      resizable := True\<rparr>"
  have wf: "ba_wf ?a" by (simp add: ba_wf_def fresh_byte_array_def ME_MAX_BUFFER_def)
  have n: "bsize ?a < ?n" by (simp add: fresh_byte_array_def Let_def)
  have g: "ejsGrowByteArray ejs ?a ?n = (?n, ejs, grown ?a ?n)"
    using grow_cases [OF assms, of ?a ?n] n by simp
  let ?b = "(grown ?a ?n)\<lparr>resizable := ?r\<rparr>"
  have "ba_ByteArray ejs fresh_byte_array len res = (True, ejs, ?b)"
    using g n by (simp add: ba_ByteArray_def Let_def fresh_byte_array_def split: if_splits)
  moreover have "ba_wf ?b" using grown_ok(1) [OF wf n] by (simp add: ba_wf_def)
  moreover have "contents ?b = []" "\<not> emitter ?b" "\<not> swap ?b" "resizable ?b = (res \<noteq> Some False)"
    by (auto simp: contents_def availableBytes_def grown_def fresh_byte_array_def split: option.splits)
  ultimately show thesis by (rule that)
qed

text \<open>
  Property C10. Every script over a new byte array is defined when its calls have what they need: whatever methods it calls, in whatever
  order and with whatever observers that themselves keep the positions in order, no method reads or writes outside the
  block, and the positions stay in order and within the size. What is needed is nothing for most methods; no negative index for a
  store; eight bytes of room for \<^verbatim>\<open>writeLong\<close>, which asks for four and otherwise overruns the block; more than one byte for a
  deletion; and blocks that hold the bytes for reads into another array and for copies. \<^verbatim>\<open>write\<close> is called on booleans, dates,
  numbers and strings.
\<close>

theorem scripts_stay_in_bounds:
  assumes "observers_ok obs" and "memory_ok ejs" and "ba_ByteArray ejs fresh_byte_array len res = (True, ejs1, ap1)"
    and "script_ok fp obs calls ejs1 ap1"
  shows "\<exists>rs ejs2 ap2. ba_run fp obs calls ejs1 ap1 = Some (rs, ejs2, ap2) \<and> length rs = length calls
     \<and> 0 \<le> readPosition ap2 \<and> readPosition ap2 \<le> writePosition ap2 \<and> writePosition ap2 \<le> bsize ap2
     \<and> bsize ap2 \<le> int (length (bvalue ap2))"
proof -
  from constructor_ok [OF assms(2), of len res] assms(3) have "ejs1 = ejs" "ba_wf ap1" by auto
  with ba_run_safe [OF assms(1) _ _ assms(4)] assms(2) show ?thesis by (auto simp: ba_wf_def)
qed

definition quiet :: observers where
  "quiet name ejs ap = (ejs, ap)"

definition id_casts :: fp_casts where
  "id_casts = \<lparr>double_to_int64 = id, int64_to_double = id\<rparr>"

definition idle :: ejs where
  "idle = \<lparr>exception = None, heap = (\<lambda>_. True)\<rparr>"

lemma quiet_ok: "observers_ok quiet"
  by (simp add: observers_ok_def quiet_def)

lemma idle_ok: "memory_ok idle"
  by (simp add: memory_ok_def idle_def)

definition sample_calls :: "ba_call list" where
  "sample_calls = [CallWriteByte 7, CallWriteInteger 70000, CallReadByte, CallWriteLong 5, CallCompact, CallSetEndian 0, CallReadShort,
     CallRead (fresh_byte_array\<lparr>bvalue := [0, 0], bsize := 2\<rparr>) [0, 2], CallDeleteProperty 0 3, CallCopyOut 1 (fresh_byte_array\<lparr>bvalue := [0, 0], bsize := 2\<rparr>) None (Some 2), CallSetProperty 9 1, CallFlush]"

theorem scripts_stay_in_bounds_witness:
  "\<exists>rs ejs2 ap2. ba_run id_casts quiet sample_calls idle (snd (snd (ba_ByteArray idle fresh_byte_array (Some 16) (Some False)))) = Some (rs, ejs2, ap2)
     \<and> length rs = 12 \<and> 0 \<le> readPosition ap2 \<and> readPosition ap2 \<le> writePosition ap2 \<and> writePosition ap2 \<le> bsize ap2
     \<and> bsize ap2 \<le> int (length (bvalue ap2))"
proof -
  obtain ap1 where ap1: "ba_ByteArray idle fresh_byte_array (Some 16) (Some False) = (True, idle, ap1)"
    by (rule constructor_ok [OF idle_ok])
  have "script_ok id_casts quiet sample_calls idle (snd (snd (ba_ByteArray idle fresh_byte_array (Some 16) (Some False))))" by code_simp
  then have "script_ok id_casts quiet sample_calls idle ap1" by (simp add: ap1)
  from scripts_stay_in_bounds [OF quiet_ok idle_ok ap1 this] show ?thesis by (simp add: ap1 sample_calls_def eval_nat_numeral del: ba_run.simps)
qed

section \<open>A byte array is a queue\<close>

text \<open>Sending a list of messages over a channel, and receiving messages of given kinds from it.\<close>

fun send_all :: "('v \<Rightarrow> 's \<Rightarrow> 's option) \<Rightarrow> 'v list \<Rightarrow> 's \<Rightarrow> 's option" where
  "send_all send [] s = Some s"
| "send_all send (v # vs) s = Option.bind (send v s) (send_all send vs)"

fun recv_all :: "('k \<Rightarrow> 's \<Rightarrow> ('r \<times> 's) option) \<Rightarrow> 'k list \<Rightarrow> 's \<Rightarrow> ('r list \<times> 's) option" where
  "recv_all recv [] s = Some ([], s)"
| "recv_all recv (k # ks) s =
     Option.bind (recv k s) (\<lambda>(r, s1). map_option (\<lambda>(rs, s2). (r # rs, s2)) (recv_all recv ks s1))"

locale fifo_channel =
  fixes ready :: "'s \<Rightarrow> bool"
    and pending :: "'s \<Rightarrow> 'b list"
    and send :: "'v \<Rightarrow> 's \<Rightarrow> 's option"
    and recv :: "'k \<Rightarrow> 's \<Rightarrow> ('r \<times> 's) option"
    and kind :: "'v \<Rightarrow> 'k"
    and wire :: "'v \<Rightarrow> 'b list"
    and seen :: "'v \<Rightarrow> 'r"
  assumes send_law: "ready s \<Longrightarrow> \<exists>s'. send v s = Some s' \<and> ready s' \<and> pending s' = pending s @ wire v"
    and recv_law: "ready s \<Longrightarrow> pending s = wire v @ rest
      \<Longrightarrow> \<exists>s'. recv (kind v) s = Some (seen v, s') \<and> ready s' \<and> pending s' = rest"
begin

lemma send_all_appends:
  "ready s \<Longrightarrow> \<exists>s'. send_all send vs s = Some s' \<and> ready s' \<and> pending s' = pending s @ concat (map wire vs)"
proof (induction vs arbitrary: s)
  case (Cons v vs)
  from send_law [OF Cons.prems] obtain s1 where
    "send v s = Some s1" "ready s1" "pending s1 = pending s @ wire v" by blast
  with Cons.IH [of s1] show ?case by auto
qed simp

lemma recv_all_takes:
  "ready s \<Longrightarrow> pending s = concat (map wire vs) @ rest
    \<Longrightarrow> \<exists>s'. recv_all recv (map kind vs) s = Some (map seen vs, s') \<and> ready s' \<and> pending s' = rest"
proof (induction vs arbitrary: s)
  case (Cons v vs)
  from recv_law [OF Cons.prems(1), of v "concat (map wire vs) @ rest"] Cons.prems(2) obtain s1 where
    "recv (kind v) s = Some (seen v, s1)" "ready s1" "pending s1 = concat (map wire vs) @ rest" by auto
  with Cons.IH [of s1] show ?case by auto
qed simp

lemma first_in_first_out:
  assumes "ready s" and "pending s = concat (map wire us)"
  shows "\<exists>s1 s2. send_all send vs s = Some s1 \<and> recv_all recv (map kind (us @ vs)) s1 = Some (map seen (us @ vs), s2)
     \<and> pending s2 = []"
proof -
  from send_all_appends [OF assms(1), of vs] assms(2) obtain s1 where
    s1: "send_all send vs s = Some s1" "ready s1" "pending s1 = concat (map wire (us @ vs)) @ []" by auto
  with recv_all_takes [OF s1(2,3)] show ?thesis by blast
qed

end

text \<open>The typed values of the array, the methods that write and read each, and their bytes.\<close>

datatype typed_value = TByte int | TShort int | TInteger int | TDouble uint64

datatype typed_kind = KByte | KShort | KInteger | KDouble

fun kind_of :: "typed_value \<Rightarrow> typed_kind" where
  "kind_of (TByte _) = KByte" | "kind_of (TShort _) = KShort"
| "kind_of (TInteger _) = KInteger" | "kind_of (TDouble _) = KDouble"

fun wire_bytes :: "typed_value \<Rightarrow> bytes" where
  "wire_bytes (TByte n) = [word_of_int n]"
| "wire_bytes (TShort n) = word_bytes 2 (word_of_int n :: uint32)"
| "wire_bytes (TInteger n) = word_bytes 4 (word_of_int n :: uint32)"
| "wire_bytes (TDouble d) = word_bytes 8 d"

text \<open>What the reader of a value sees: the value cut to the width of its type.\<close>

fun seen_value :: "typed_value \<Rightarrow> ba_result" where
  "seen_value (TByte n) = JsNumber (n mod 256)"
| "seen_value (TShort n) = JsNumber (signed_take_bit 15 n)"
| "seen_value (TInteger n) = JsNumber (signed_take_bit 31 n)"
| "seen_value (TDouble d) = JsDouble d"

fun typed_write :: "fp_casts \<Rightarrow> observers \<Rightarrow> typed_value \<Rightarrow> ejs \<times> byte_array \<Rightarrow> (ejs \<times> byte_array) option" where
  "typed_write fp obs (TByte n) (ejs, ap) = ba_writeByte obs ejs ap n"
| "typed_write fp obs (TShort n) (ejs, ap) = ba_writeShort obs ejs ap n"
| "typed_write fp obs (TInteger n) (ejs, ap) = ba_writeInteger obs ejs ap n"
| "typed_write fp obs (TDouble d) (ejs, ap) = ba_writeDouble fp obs ejs ap d"

fun typed_read :: "fp_casts \<Rightarrow> observers \<Rightarrow> typed_kind \<Rightarrow> ejs \<times> byte_array \<Rightarrow> (ba_result \<times> ejs \<times> byte_array) option" where
  "typed_read fp obs KByte (ejs, ap) = ba_readByte obs ejs ap"
| "typed_read fp obs KShort (ejs, ap) = ba_readShort obs ejs ap"
| "typed_read fp obs KInteger (ejs, ap) = ba_readInteger obs ejs ap"
| "typed_read fp obs KDouble (ejs, ap) = ba_readDouble fp obs ejs ap"

text \<open>A resizable array in the byte order of the host with no observer.\<close>

definition ba_plain :: "ejs \<times> byte_array \<Rightarrow> bool" where
  "ba_plain s \<longleftrightarrow> (case s of (ejs, ap) \<Rightarrow> memory_ok ejs \<and> ba_wf ap \<and> \<not> emitter ap \<and> \<not> swap ap \<and> resizable ap)"

lemma bytes_word_bit: "bit (bytes_word bs :: 'a::len word) i \<longleftrightarrow> i < LENGTH('a) \<and> i div 8 < length bs \<and> bit (bs ! (i div 8)) (i mod 8)"
proof (induction bs arbitrary: i)
  case (Cons b bs)
  show ?case
  proof (cases "i < 8")
    case True
    then show ?thesis by (auto simp: bit_simps)
  next
    case False
    then have "i div 8 = Suc ((i - 8) div 8)" "i mod 8 = (i - 8) mod 8" by (auto simp: le_div_geq le_mod_geq)
    with False Cons.IH [of "i - 8"] show ?thesis
      by (auto simp: bit_simps dest: bit_imp_le_length)
  qed
qed simp

lemma bytes_word_of_bytes: "8 * n \<le> LENGTH('a) \<Longrightarrow> 8 * n \<le> LENGTH('b) \<Longrightarrow> (bytes_word (word_bytes n (w :: 'a::len word)) :: 'b::len word) = ucast (take_bit (8 * n) w)"
  by (rule bit_word_eqI) (auto simp: bytes_word_bit word_bytes_def bit_simps less_mult_imp_div_less div_less_iff_less_mult)

lemma make_room_plain:
  assumes "ba_plain (ejs, ap)"
  obtains ap' where "ejsMakeRoomInByteArray obs ejs ap n = (True, ejs, ap')" "ba_plain (ejs, ap')"
    "contents ap' = contents ap" "n \<le> room ap'"
proof (cases "room ap < n")
  case True
  let ?len = "max (bsize ap + n) (bsize ap + growInc ap)"
  from assms have p: "memory_ok ejs" "ba_wf ap" "\<not> emitter ap" "\<not> swap ap" "resizable ap" by (simp_all add: ba_plain_def)
  from True p(2) have l: "bsize ap < ?len" "0 \<le> bsize ap" by (auto simp: room_def ba_wf_def)
  have "ejsMakeRoomInByteArray obs ejs ap n = (True, ejs, grown ap ?len)"
    using True p l by (auto simp: ejsMakeRoomInByteArray_def grow_cases ba_wf_def)
  moreover have "ba_plain (ejs, grown ap ?len)" "contents (grown ap ?len) = contents ap"
    using grown_ok [OF p(2) l(1)] p by (simp_all add: ba_plain_def grown_def)
  moreover have "n \<le> room (grown ap ?len)" using p(2) by (auto simp: room_def grown_def ba_wf_def)
  ultimately show thesis by (rule that)
next
  case False
  with assms that [of ap] show thesis by (simp add: ejsMakeRoomInByteArray_def)
qed

lemma write_typed_appends:
  assumes "ba_plain (ejs, ap)" and put: "\<And>a. \<not> swap a \<Longrightarrow> put a = put_bytes a bs" and "int (length bs) = n"
  shows "\<exists>s'. write_typed obs ejs ap n put = Some s' \<and> ba_plain s' \<and> contents (snd s') = contents ap @ bs"
proof -
  from assms(1) obtain a where m: "ejsMakeRoomInByteArray obs ejs ap n = (True, ejs, a)" "ba_plain (ejs, a)"
    "contents a = contents ap" "n \<le> room a" by (rule make_room_plain)
  from m(2) have w: "ba_wf a" "\<not> swap a" "\<not> emitter a" by (simp_all add: ba_plain_def)
  from put_bytes_ok [OF w(1), of bs] m(4) assms(3) obtain v where
    v: "put_bytes a bs = Some (n, a\<lparr>bvalue := v, writePosition := writePosition a + n\<rparr>)" "length v = length (bvalue a)"
      "contents (a\<lparr>bvalue := v, writePosition := writePosition a + n\<rparr>) = contents a @ bs" by auto
  have "ba_plain (ejs, a\<lparr>bvalue := v, writePosition := writePosition a + n\<rparr>)"
    using m(2,4) v(2) assms(3) by (auto simp: ba_plain_def ba_wf_def room_def)
  with v m w put [OF w(2)] show ?thesis by (simp add: write_typed_def)
qed

lemma contents_adjust:
  assumes "ba_wf ap" "contents ap = bs @ rest"
  shows "contents (adjustReadPosition ap (int (length bs))) = rest"
proof -
  have l: "availableBytes ap = int (length bs) + int (length rest)"
    using contents_length [OF assms(1)] assms(2) by simp
  from assms(1) have r: "0 \<le> readPosition ap" by (simp add: ba_wf_def)
  have "rest = drop (length bs) (contents ap)" using assms(2) by simp
  also have "\<dots> = take (length rest) (drop (nat (readPosition ap + int (length bs))) (bvalue ap))"
    using l r by (simp add: contents_def drop_take nat_add_distrib add.commute)
  finally have *: "take (length rest) (drop (nat (readPosition ap + int (length bs))) (bvalue ap)) = rest" by simp
  show ?thesis
  proof (cases "rest = []")
    case True
    with l show ?thesis by (simp add: adjustReadPosition_def contents_def availableBytes_def)
  next
    case False
    then have "0 < length rest" by simp
    then have "readPosition ap + int (length bs) \<noteq> writePosition ap" using l unfolding availableBytes_def by linarith
    moreover have "nat (writePosition ap - (readPosition ap + int (length bs))) = length rest"
      using l by (simp add: availableBytes_def)
    ultimately show ?thesis using * by (simp add: adjustReadPosition_def contents_def availableBytes_def Let_def)
  qed
qed

lemma read_contents:
  assumes "ba_wf ap" "contents ap = bs @ rest"
  shows "mem_read_block (bvalue ap) (readPosition ap) (int (length bs)) = Some bs"
proof -
  have l: "availableBytes ap = int (length bs) + int (length rest)"
    using contents_length [OF assms(1)] assms(2) by simp
  have "bs = take (length bs) (contents ap)" using assms(2) by simp
  also have "\<dots> = take (length bs) (drop (nat (readPosition ap)) (bvalue ap))"
    using l by (auto simp: contents_def min_def)
  finally show ?thesis
    using assms(1) l by (subst mem_read_block_in) (auto simp: ba_wf_def availableBytes_def)
qed

lemma read_typed_takes:
  assumes "ba_plain (ejs, ap)" "contents ap = bs @ rest" "int (length bs) = n" "0 < n"
    and conv: "\<And>a. \<not> swap a \<Longrightarrow> conv a bs = r"
  shows "\<exists>s'. read_typed obs ejs ap n pre conv = Some (r, s') \<and> ba_plain s' \<and> contents (snd s') = rest"
proof -
  from assms(1) have p: "ba_wf ap" "\<not> swap ap" "\<not> emitter ap" by (simp_all add: ba_plain_def)
  have av: "n \<le> availableBytes ap" using contents_length [OF p(1)] assms(2,3) by simp
  then have "getInput obs ejs ap n = (availableBytes ap, ejs, ap)"
    using p assms(4) by (simp add: getInput_def Let_def)
  moreover have "ba_plain (ejs, adjustReadPosition ap n)"
    using assms(1,4) adjust_ok [OF p(1) _ av] by (simp add: ba_plain_def adjustReadPosition_def Let_def)
  ultimately show ?thesis
    using av assms(3,4) read_contents [OF p(1) assms(2)] contents_adjust [OF p(1) assms(2)] conv [OF p(2)]
    by (simp add: read_typed_def)
qed

lemma bytes_word_short: "sint (scast (bytes_word (word_bytes 2 (word_of_int n :: uint32)) :: 16 word) :: uint32) = signed_take_bit 15 n"
  apply (subst bytes_word_of_bytes)
  apply simp
  apply simp
  apply (rule bit_eqI)
  apply (auto simp: bit_simps min_def)
  done

lemma bytes_word_integer: "sint (bytes_word (word_bytes 4 (word_of_int n :: uint32)) :: uint32) = signed_take_bit 31 n"
  by (subst bytes_word_of_bytes) (auto intro!: bit_eqI simp: bit_simps min_def)

lemma bytes_word_double: "bytes_word (word_bytes 8 (d :: uint64)) = d"
  by (subst bytes_word_of_bytes) (auto intro!: bit_word_eqI simp: bit_simps)

lemma ba_send_law:
  "ba_plain s \<Longrightarrow> \<exists>s'. typed_write fp obs v s = Some s' \<and> ba_plain s' \<and> contents (snd s') = contents (snd s) @ wire_bytes v"
  by (cases s; cases v; simp only: typed_write.simps wire_bytes.simps snd_conv ba_writeByte_def ba_writeShort_def
      ba_writeInteger_def ba_writeDouble_def; rule write_typed_appends)
    (simp_all add: putByte_def putShort_def putInteger_def putDouble_def swap16_def swap32_def swapDouble_def)

lemma ba_recv_law:
  "ba_plain s \<Longrightarrow> contents (snd s) = wire_bytes v @ rest
    \<Longrightarrow> \<exists>s'. typed_read fp obs (kind_of v) s = Some (seen_value v, s') \<and> ba_plain s' \<and> contents (snd s') = rest"
  by (cases s; cases v; simp only: typed_read.simps kind_of.simps wire_bytes.simps seen_value.simps snd_conv
      ba_readByte_def ba_readShort_def ba_readInteger_def ba_readDouble_def; rule read_typed_takes, assumption, assumption)
    (simp_all add: swap16_def swap32_def swapDouble_def bytes_word_short bytes_word_integer bytes_word_double
      uint_word_of_int)

interpretation ba_stream: fifo_channel ba_plain "\<lambda>s. contents (snd s)" "typed_write fp obs" "typed_read fp obs"
  kind_of wire_bytes seen_value
  for fp obs
  by unfold_locales (rule ba_send_law ba_recv_law; assumption)+

text \<open>
  Property C23. A byte array is a queue: bytes, 16-bit, 32-bit and double values written one after
  the other to a new resizable array are read back by the matching read methods in the order of
  the writes, each cut to the width of its type, and nothing is left to read.
\<close>

theorem typed_values_fifo:
  assumes "memory_ok ejs" and "ba_ByteArray ejs fresh_byte_array len None = (True, ejs1, ap1)"
  shows "\<exists>s2 s3. send_all (typed_write fp obs) vs (ejs1, ap1) = Some s2
     \<and> recv_all (typed_read fp obs) (map kind_of vs) s2 = Some (map seen_value vs, s3)
     \<and> ba_getLength (snd s3) = JsNumber 0"
proof -
  from constructor_ok [OF assms(1), of len None] assms have c: "ba_plain (ejs1, ap1)" "contents ap1 = []"
    by (auto simp: ba_plain_def)
  from c(2) ba_stream.send_all_appends [OF c(1), of fp obs vs] obtain s2 where
    s2: "send_all (typed_write fp obs) vs (ejs1, ap1) = Some s2" "ba_plain s2"
      "contents (snd s2) = concat (map wire_bytes vs) @ []" by auto
  from ba_stream.recv_all_takes [OF s2(2,3), of fp obs] obtain s3 where
    s3: "recv_all (typed_read fp obs) (map kind_of vs) s2 = Some (map seen_value vs, s3)" "ba_plain s3"
      "contents (snd s3) = []" by blast
  from s3(2) have "availableBytes (snd s3) = 0"
    using contents_length [of "snd s3"] s3(3) by (cases s3) (simp add: ba_plain_def)
  with s2(1) s3(1) show ?thesis by (cases s3) (simp add: ba_getLength_def availableBytes_def)
qed

theorem typed_values_fifo_witness:
  "\<exists>s2 s3. send_all (typed_write id_casts quiet) [TByte 300, TShort (- 2), TInteger 70000, TDouble 1]
       (idle, snd (snd (ba_ByteArray idle fresh_byte_array (Some 1) None))) = Some s2
     \<and> recv_all (typed_read id_casts quiet) [KByte, KShort, KInteger, KDouble] s2
         = Some ([JsNumber 44, JsNumber (- 2), JsNumber 70000, JsDouble 1], s3)
     \<and> ba_getLength (snd s3) = JsNumber 0"
proof -
  obtain ap1 where a: "ba_ByteArray idle fresh_byte_array (Some 1) None = (True, idle, ap1)"
    by (rule constructor_ok [OF idle_ok])
  from typed_values_fifo [OF idle_ok a, of id_casts quiet "[TByte 300, TShort (- 2), TInteger 70000, TDouble 1]"] a
  show ?thesis by (simp del: send_all.simps recv_all.simps)
qed

section \<open>Writing lists of values, copying, swapping\<close>

text \<open>The bytes of the values that \<^verbatim>\<open>write\<close> stores on an array in the byte order of the host.\<close>

fun datum_bytes :: "fp_casts \<Rightarrow> ba_datum \<Rightarrow> bytes" where
  "datum_bytes fp WNone = []"
| "datum_bytes fp (WBoolean b) = [of_bool b]"
| "datum_bytes fp (WDate t) = word_bytes 8 (int64_to_double fp t)"
| "datum_bytes fp (WNumber d) = word_bytes 8 d"
| "datum_bytes fp (WString s) = s"
| "datum_bytes fp (WByteArray bp) = contents bp"
| "datum_bytes fp (WArray _ s) = s"
| "datum_bytes fp (WOther s) = s"

text \<open>The data whose case of the switch makes room before it copies.\<close>

fun datum_plain :: "ba_datum \<Rightarrow> bool" where
  "datum_plain (WArray _ _) = False"
| "datum_plain (WOther _) = False"
| "datum_plain (WByteArray bp) = ba_wf bp"
| "datum_plain (WString s) = (length s < 2 ^ 31)"
| "datum_plain _ = True"

lemma make_room_and_put_appends:
  assumes "ba_plain (ejs, ap)" and put: "\<And>a. ba_plain (ejs, a) \<Longrightarrow> n \<le> room a \<Longrightarrow> put a = put_bytes a bs"
    and "int (length bs) = n"
  shows "\<exists>ap'. make_room_and_put obs ejs ap n put = Some (Some n, ejs, ap') \<and> ba_plain (ejs, ap')
     \<and> contents ap' = contents ap @ bs"
proof -
  from assms(1) obtain a where m: "ejsMakeRoomInByteArray obs ejs ap n = (True, ejs, a)" "ba_plain (ejs, a)"
    "contents a = contents ap" "n \<le> room a" by (rule make_room_plain)
  from m(2) have w: "ba_wf a" by (simp add: ba_plain_def)
  from put_bytes_ok [OF w, of bs] m(4) assms(3) obtain v where
    v: "put_bytes a bs = Some (n, a\<lparr>bvalue := v, writePosition := writePosition a + n\<rparr>)" "length v = length (bvalue a)"
      "contents (a\<lparr>bvalue := v, writePosition := writePosition a + n\<rparr>) = contents a @ bs" by auto
  have "ba_plain (ejs, a\<lparr>bvalue := v, writePosition := writePosition a + n\<rparr>)"
    using m(2,4) v(2) assms(3) by (auto simp: ba_plain_def ba_wf_def room_def)
  with v m put [OF m(2,4)] show ?thesis by (simp add: make_room_and_put_def)
qed

lemma write_byte_array_appends:
  assumes "ba_plain (ejs, ap)" "ba_wf bp"
  shows "\<exists>ap'. write_datum fp obs ejs ap (WByteArray bp) = Some (Some (availableBytes bp), ejs, ap')
     \<and> ba_plain (ejs, ap') \<and> contents ap' = contents ap @ contents bp"
proof -
  define n where "n = availableBytes bp"
  have n: "n = int (length (contents bp))" using contents_length [OF assms(2)] by (simp add: n_def)
  from assms(1) obtain a where m: "ejsMakeRoomInByteArray obs ejs ap n = (True, ejs, a)" "ba_plain (ejs, a)"
    "contents a = contents ap" "n \<le> room a" by (rule make_room_plain)
  from m(2) obtain b where r: "ejsMakeRoomInByteArray obs ejs a (writePosition a + n) = (True, ejs, b)"
    "ba_plain (ejs, b)" "contents b = contents a" "writePosition a + n \<le> room b" by (rule make_room_plain)
  have wp: "writePosition b = writePosition a"
    using r(1) m(2) by (auto simp: ejsMakeRoomInByteArray_def grow_cases ba_plain_def grown_def Let_def split: if_splits)
  have nn: "0 \<le> writePosition a" "0 \<le> writePosition b" "0 \<le> n" "ba_wf b"
    using m(2) r(2) n by (auto simp: ba_plain_def ba_wf_def)
  from put_bytes_ok [OF nn(4), of "contents bp"] n r(4) nn(1) obtain v where
    v: "put_bytes b (contents bp) = Some (n, b\<lparr>bvalue := v, writePosition := writePosition b + n\<rparr>)"
      "length v = length (bvalue b)"
      "contents (b\<lparr>bvalue := v, writePosition := writePosition b + n\<rparr>) = contents b @ contents bp" by auto
  then have wr: "mem_write_block (bvalue b) (writePosition b) (contents bp) = Some v"
    by (auto simp: put_bytes_def dest!: arg_cong [of _ _ "bvalue"])
  have rd: "mem_read_block (bvalue bp) (readPosition bp) n = Some (contents bp)"
    using read_contents [OF assms(2), of "contents bp" "[]"] n by simp
  have "\<not> bsize b < writePosition a + n" using r(4) nn by (simp add: room_def)
  then have "ejsCopyToByteArray obs ejs a (writePosition a) (contents bp) = Some (n, ejs, b\<lparr>bvalue := v\<rparr>)"
    using r(1) wr wp nn(1) n by (simp add: ejsCopyToByteArray_def Let_def)
  then have "write_datum fp obs ejs ap (WByteArray bp)
      = Some (Some n, ejs, b\<lparr>bvalue := v, writePosition := writePosition b + n\<rparr>)"
    using m(1) rd by (simp add: write_datum_def flip: n_def)
  moreover have "ba_plain (ejs, b\<lparr>bvalue := v, writePosition := writePosition b + n\<rparr>)"
    using r(2,4) v(2) nn by (auto simp: ba_plain_def ba_wf_def room_def)
  ultimately show ?thesis using v(3) m(3) r(3) by (simp add: n_def)
qed

lemma write_datum_appends:
  assumes "ba_plain (ejs, ap)" "datum_plain vp"
  shows "\<exists>ap'. write_datum fp obs ejs ap vp = Some (Some (int (length (datum_bytes fp vp))), ejs, ap')
     \<and> ba_plain (ejs, ap') \<and> contents ap' = contents ap @ datum_bytes fp vp"
proof (cases vp)
  case (WBoolean b)
  then show ?thesis
    using make_room_and_put_appends [OF assms(1), of 1 "\<lambda>a. putByte a (of_bool b)" "[of_bool b]" obs]
    by (simp add: write_datum_def putByte_def)
next
  case (WDate t)
  then show ?thesis
    using make_room_and_put_appends [OF assms(1), of 8 "\<lambda>a. putNumber fp a (int64_to_double fp t)"
        "word_bytes 8 (int64_to_double fp t)" obs]
    by (simp add: write_datum_def putNumber_def putDouble_def swapDouble_def ba_plain_def)
next
  case (WNumber d)
  then show ?thesis
    using make_room_and_put_appends [OF assms(1), of 8 "\<lambda>a. putNumber fp a d" "word_bytes 8 d" obs]
    by (simp add: write_datum_def putNumber_def putDouble_def swapDouble_def ba_plain_def)
next
  case (WString s)
  then have l: "c_int (int (length s)) = int (length s)" using assms(2) by (intro c_int_id) simp_all
  have "putString a s = put_bytes a s" if "int (length s) \<le> room a" for a
    using that l by (auto simp: putString_eq put_bytes_def option.map_comp comp_def)
  then show ?thesis
    using make_room_and_put_appends [OF assms(1), of "int (length s)" "\<lambda>a. putString a s" s obs] WString
    by (simp add: write_datum_def)
next
  case (WByteArray bp)
  with assms write_byte_array_appends [OF assms(1), of bp fp obs] contents_length [of bp] show ?thesis by simp
qed (use assms in \<open>simp_all add: write_datum_def\<close>)

lemma write_data_appends:
  assumes "ba_plain (ejs, ap)" "list_all datum_plain vps"
  shows "\<exists>ap'. write_data fp obs ejs ap vps wrote
       = Some (Some (wrote + int (length (concat (map (datum_bytes fp) vps)))), ejs, ap')
     \<and> ba_plain (ejs, ap') \<and> contents ap' = contents ap @ concat (map (datum_bytes fp) vps)"
  using assms
proof (induction vps arbitrary: ap wrote)
  case (Cons vp vps)
  from write_datum_appends [OF Cons.prems(1), of vp fp obs] Cons.prems(2) obtain a where
    a: "write_datum fp obs ejs ap vp = Some (Some (int (length (datum_bytes fp vp))), ejs, a)" "ba_plain (ejs, a)"
      "contents a = contents ap @ datum_bytes fp vp" by auto
  with Cons.IH [OF a(2), of "wrote + int (length (datum_bytes fp vp))"] Cons.prems(2) show ?case
    by (simp add: add.assoc)
qed simp

text \<open>
  Writing a list of values to a resizable array without observers appends their
  bytes, in order, to what is left to read, and returns their number: booleans, dates, numbers
  and strings, and the part of other byte arrays between their positions.
\<close>

theorem write_appends:
  assumes "ba_plain (ejs, ap)" and "list_all datum_plain (unwrap_args args)"
  shows "\<exists>ap'. ejsWriteToByteArray fp obs ejs ap args
       = Some (JsNumber (int (length (concat (map (datum_bytes fp) (unwrap_args args))))), ejs, ap')
     \<and> ba_plain (ejs, ap') \<and> contents ap' = contents ap @ concat (map (datum_bytes fp) (unwrap_args args))"
proof -
  define ap0 where "ap0 = (if availableBytes ap = 0 then reset_positions ap else ap)"
  have p: "ba_plain (ejs, ap0)" "contents ap0 = contents ap"
    using assms(1) by (auto simp: ap0_def ba_plain_def ba_wf_reset)
      (auto simp: reset_positions_def contents_def availableBytes_def)
  from write_data_appends [OF p(1) assms(2), of fp obs 0] p(2) show ?thesis
    by (auto simp: ejsWriteToByteArray_def ba_plain_def simp flip: ap0_def)
qed

definition sample :: byte_array where
  "sample = fresh_byte_array\<lparr>bvalue := [1, 2, 3, 4, 5], readPosition := 1, writePosition := 3, bsize := 5,
     growInc := 4, resizable := True\<rparr>"

lemma sample_plain: "ba_plain (idle, sample)" "contents sample = [2, 3]"
  by (simp_all add: ba_plain_def ba_wf_def sample_def idle_ok fresh_byte_array_def contents_def availableBytes_def)

theorem write_appends_witness:
  "\<exists>ap'. ejsWriteToByteArray id_casts quiet idle sample [WString [65, 66], WBoolean True, WByteArray sample]
     = Some (JsNumber 5, idle, ap') \<and> contents ap' = [2, 3, 65, 66, 1, 2, 3]"
  using write_appends [OF sample_plain(1), of "[WString [65, 66], WBoolean True, WByteArray sample]" id_casts quiet]
    sample_plain by (auto simp: ba_plain_def)

text \<open>
  Compaction keeps what is left to read, moves it to the start of the block, and
  gives the room of the bytes already read back to the writers.
\<close>

theorem compact_keeps_contents:
  assumes "ba_wf ap"
  shows "\<exists>ap'. ba_compact ap = Some ap' \<and> contents ap' = contents ap \<and> readPosition ap' = 0
     \<and> room ap' = room ap + readPosition ap \<and> ba_wf ap'"
proof -
  from assms obtain ap' where a: "ba_compact ap = Some ap'" "ba_wf ap'" "contents ap' = contents ap"
    "readPosition ap' = 0" "bsize ap' = bsize ap" by (rule compact_ok)
  have "availableBytes ap' = availableBytes ap" using contents_length [OF assms] contents_length [OF a(2)] a(3) by simp
  with a show ?thesis by (simp add: room_def availableBytes_def)
qed

theorem compact_keeps_contents_witness:
  "\<exists>ap'. ba_compact sample = Some ap' \<and> contents ap' = [2, 3] \<and> readPosition ap' = 0 \<and> room ap' = 3 \<and> ba_wf ap'"
  using compact_keeps_contents [of sample] sample_plain
  by (auto simp: ba_plain_def room_def) (auto simp: sample_def)

text \<open>Reading into another array.\<close>

lemma getInput_plain:
  assumes "ba_plain (ejs, ap)" "contents ap \<noteq> []"
  shows "getInput obs ejs ap 1 = (availableBytes ap, ejs, ap)"
proof -
  from assms have "0 < availableBytes ap" using contents_length [of ap] by (cases "contents ap") (auto simp: ba_plain_def)
  with assms(1) show ?thesis by (simp add: getInput_def Let_def ba_plain_def)
qed

text \<open>
  \<^verbatim>\<open>read\<close> into a whole buffer moves as many bytes as both sides hold from the front of
  the array to the start of the buffer: what the buffer then holds and what the array still holds
  together are what the array held.
\<close>

theorem read_moves_bytes:
  assumes "ba_plain (ejs, ap)" and "contents ap \<noteq> []" and "ba_wf buffer" and "0 < bsize buffer" and "bsize buffer \<le> MAXINT"
  shows "\<exists>ap' buffer'. ba_read obs ejs ap buffer [] = Some (JsNumber (min (availableBytes ap) (bsize buffer)), ejs, ap', buffer')
     \<and> contents buffer' @ contents ap' = contents ap
     \<and> int (length (contents buffer')) = min (availableBytes ap) (bsize buffer)"
proof -
  define n where "n = min (availableBytes ap) (bsize buffer)"
  define bs where "bs = take (nat n) (contents ap)"
  define b0 where "b0 = buffer\<lparr>readPosition := 0, writePosition := 0\<rparr>"
  from assms have p: "ba_wf ap" "\<not> emitter ap" and wb: "ba_wf b0" by (simp_all add: ba_plain_def b0_def ba_wf_def)
  have cl: "int (length (contents ap)) = availableBytes ap" using contents_length [OF p(1)] .
  have av: "0 < availableBytes ap" using assms(2) cl by (cases "contents ap") auto
  have n: "0 < n" "n \<le> availableBytes ap" "n \<le> bsize buffer" using av assms(4) by (auto simp: n_def)
  have lb: "int (length bs) = n" using n cl by (auto simp: bs_def)
  have split: "contents ap = bs @ drop (nat n) (contents ap)" by (simp add: bs_def)
  have rd: "mem_read_block (bvalue ap) (readPosition ap) n = Some bs" using read_contents [OF p(1) split] lb by simp
  from put_bytes_ok [OF wb, of bs] lb n(3) obtain v where
    v: "put_bytes b0 bs = Some (n, b0\<lparr>bvalue := v, writePosition := n\<rparr>)"
      "contents (b0\<lparr>bvalue := v, writePosition := n\<rparr>) = contents b0 @ bs" by (auto simp: room_def b0_def)
  have wr: "mem_write_block (bvalue b0) 0 bs = Some v"
    using v(1) by (auto simp: put_bytes_def b0_def dest!: arg_cong [of _ _ "bvalue"])
  have "contents b0 = []" by (simp add: contents_def availableBytes_def b0_def)
  let ?ap = "ap\<lparr>readPosition := readPosition ap + n\<rparr>"
  have ca: "contents ?ap = drop (nat n) (contents ap)"
    using p(1) n by (auto simp: contents_def availableBytes_def drop_take nat_diff_distrib ba_wf_def nat_add_distrib add.commute)
  have ci: "c_int (bsize buffer) = bsize buffer" using assms(4,5) by (intro c_int_id) (simp_all add: MAXINT_def)
  have "ba_read obs ejs ap buffer [] = Some (JsNumber n, ejs, ?ap, b0\<lparr>bvalue := v, writePosition := n\<rparr>)"
    using rd wr p(2) getInput_plain [OF assms(1,2)] assms(4) av ci lb
    by (simp add: ba_read_def Let_def b0_def flip: n_def)
  then show ?thesis using v(2) \<open>contents b0 = []\<close> ca lb split by (simp flip: n_def)
qed

theorem read_moves_bytes_witness:
  "\<exists>ap' buffer'. ba_read quiet idle sample sample [] = Some (JsNumber 2, idle, ap', buffer')
     \<and> contents buffer' @ contents ap' = [2, 3]"
  using read_moves_bytes [OF sample_plain(1), of sample quiet] sample_plain contents_length [of sample]
  by (auto simp: ba_plain_def) (auto simp: sample_def MAXINT_def)

text \<open>
  In the other byte order the swap of a short is not a byte swap: for lack of
  parentheses the low byte is stored twice and the high byte is lost.
\<close>

theorem swap16_loses_high_byte:
  "swap16 (snd (setEndian ejs ap 0)) a = push_bit 8 (a AND 0xFF) OR (a AND 0xFF)"
  by (simp add: swap16_def setEndian_def ME_LITTLE_ENDIAN_def drop_bit_eq_div)

text \<open>
  \<^verbatim>\<open>writeLong\<close> makes room for four bytes and stores eight: on an array that has room for
  four but not for eight bytes the store goes past the end of the block.
\<close>

theorem writeLong_overruns:
  assumes "4 \<le> room ap" and "room ap < 8" and "bsize ap = int (length (bvalue ap))"
  shows "ba_writeLong obs ejs ap n = None"
  using assms
  by (auto simp: ba_writeLong_def write_typed_def ejsMakeRoomInByteArray_def putLong_def put_bytes_def
      mem_write_block_def room_def)

theorem writeLong_overruns_witness:
  "ba_writeLong quiet idle (sample\<lparr>writePosition := 1\<rparr>) 7 = None"
  by (rule writeLong_overruns) (simp_all add: sample_def room_def)

end
