(* ===== verification/Pot.thy ===== *)
theory Pot
  imports Prelude
begin

text \<open>
  Property objects (\<^verbatim>\<open>src/core/src/ejsPot.c\<close>), the base of every scripted object: an array of slots
  with names, traits and values, and a hash index over the names whose chains run through the
  slots.

  \<^item> Names are interned in the sources, so comparing the pointers is comparing the strings. A name
    is a pair of its name and its namespace; the names of slots are never null.
  \<^item> The size of \<^verbatim>\<open>slots[]\<close> and of \<^verbatim>\<open>hash->buckets[]\<close> is the length of the list; an access outside a
    list is undefined (\<^const>\<open>None\<close>), and so is a walk along a cyclic chain, which never ends.
  \<^item> The heap of \<open>ejs\<close> is asked for the number of elements of a block.
\<close>

section \<open>State\<close>

type_synonym qname = "string \<times> string"

text \<open>The values that the code tells apart; a function is a reference into the table of functions.\<close>

datatype ejs_value = VUndefined | VNull | VFunction nat | VOther nat

record slot =
  slot_qname :: qname
  trait_type :: "nat option"
  trait_attributes :: int
  hashChain :: int
  slot_value :: ejs_value

record properties =
  hash :: "int list option"
  slots :: "slot list"

record pot =
  isBlock :: bool
  isFrame :: bool
  isFunction :: bool
  isPrototype :: bool
  isType :: bool
  separateHash :: bool
  separateSlots :: bool
  shortScope :: bool
  dynamic :: bool
  hasScriptFunctions :: bool
  props :: "properties option"
  numProp :: int

definition EJS_LOTSA_PROP :: int where "EJS_LOTSA_PROP = 256"
definition EJS_ROUND_PROP :: int where "EJS_ROUND_PROP = 16"
definition EJS_HASH_MIN_PROP :: int where "EJS_HASH_MIN_PROP = 8"

definition EJS_PROP_ROUNDUP :: "int \<Rightarrow> int" where
  "EJS_PROP_ROUNDUP x = (x + EJS_ROUND_PROP - 1) div EJS_ROUND_PROP * EJS_ROUND_PROP"

definition EJS_TRAIT_DELETED :: int where "EJS_TRAIT_DELETED = 0x2"
definition EJS_TRAIT_GETTER :: int where "EJS_TRAIT_GETTER = 0x4"
definition EJS_TRAIT_HIDDEN :: int where "EJS_TRAIT_HIDDEN = 0x10"
definition EJS_TRAIT_SETTER :: int where "EJS_TRAIT_SETTER = 0x80"

definition empty_qname :: qname where
  "empty_qname = ([], [])"

definition CMP_QNAME :: "qname \<Rightarrow> qname \<Rightarrow> bool" where
  "CMP_QNAME a b \<longleftrightarrow> fst a = fst b \<and> snd a = snd b"

definition CMP_NAME :: "qname \<Rightarrow> qname \<Rightarrow> bool" where
  "CMP_NAME a b \<longleftrightarrow> fst a = fst b"

text \<open>The slots of an object, none when it has no properties block.\<close>

definition pot_slots :: "pot \<Rightarrow> slot list" where
  "pot_slots obj = (case props obj of None \<Rightarrow> [] | Some p \<Rightarrow> slots p)"

definition set_slots :: "slot list \<Rightarrow> pot \<Rightarrow> pot" where
  "set_slots ss obj = obj\<lparr>props := map_option (\<lambda>p. p\<lparr>slots := ss\<rparr>) (props obj)\<rparr>"

definition pot_hash :: "pot \<Rightarrow> int list option" where
  "pot_hash obj = Option.bind (props obj) hash"

definition set_hash :: "int list \<Rightarrow> pot \<Rightarrow> pot" where
  "set_hash bs obj = obj\<lparr>props := map_option (\<lambda>p. p\<lparr>hash := Some bs\<rparr>) (props obj)\<rparr>"

section \<open>Slots\<close>

text \<open>A cleared slot, and clearing \<open>count\<close> slots from an offset on.\<close>

definition zero_slot :: slot where
  "zero_slot = \<lparr>slot_qname = empty_qname, trait_type = None, trait_attributes = 0, hashChain = -1,
     slot_value = VNull\<rparr>"

definition ejsZeroSlots :: "slot list \<Rightarrow> int \<Rightarrow> int \<Rightarrow> slot list option" where
  "ejsZeroSlots ss off count = mem_write_block ss off (replicate (nat count) zero_slot)"

text \<open>
  Growing the slots: a new block of the rounded size, with the old slots copied and the rest
  cleared. It returns \<^const>\<open>EJS_ERR\<close> and changes nothing when there is no memory.
\<close>

definition grow_count :: "int \<Rightarrow> int \<Rightarrow> int" where
  "grow_count oldSize slotCount =
     EJS_PROP_ROUNDUP
       (if slotCount > EJS_LOTSA_PROP
        then let factor = max (oldSize div 4) EJS_ROUND_PROP in (slotCount + factor) div factor * factor
        else slotCount)"

definition growSlots :: "ejs \<Rightarrow> pot \<Rightarrow> int \<Rightarrow> int \<times> pot" where
  "growSlots ejs obj slotCount =
     (let oldSize = int (length (pot_slots obj))
      in if slotCount > oldSize
         then let n = grow_count oldSize slotCount
              in if \<not> heap ejs n then (EJS_ERR, obj)
                 else (0, obj\<lparr>separateSlots := True,
                        props := Some (case props obj of
                            None \<Rightarrow> \<lparr>hash = None, slots = replicate (nat n) zero_slot\<rparr>
                          | Some p \<Rightarrow> p\<lparr>slots := slots p @ replicate (nat n - length (slots p)) zero_slot\<rparr>)\<rparr>)
         else (0, obj))"

definition needs_slots :: "pot \<Rightarrow> int \<Rightarrow> bool" where
  "needs_slots obj slotNum \<longleftrightarrow> props obj = None \<or> slotNum \<ge> int (length (pot_slots obj))"

definition ejsGrowPot :: "ejs \<Rightarrow> pot \<Rightarrow> int \<Rightarrow> int \<times> pot" where
  "ejsGrowPot ejs obj n =
     (let (rc, obj1) = (if props obj = None \<or> n > int (length (pot_slots obj)) then growSlots ejs obj n else (0, obj))
      in if rc < 0 then (EJS_ERR, obj1)
         else (0, if n > numProp obj1 then obj1\<lparr>numProp := n\<rparr> else obj1))"

text \<open>An object of the types Null and Void throws the same class of error as one that is sealed.\<close>

definition ejsCheckSlot :: "ejs \<Rightarrow> pot \<Rightarrow> int \<Rightarrow> int \<times> ejs \<times> pot" where
  "ejsCheckSlot ejs obj slotNum =
     (if slotNum < 0 \<or> slotNum \<ge> numProp obj
      then if \<not> dynamic obj then (EJS_ERR, ejsThrow ReferenceError ejs, obj)
           else let s = (if slotNum < 0 then numProp obj else slotNum);
                    (rc, obj1) = (if needs_slots obj s then growSlots ejs obj (s + 1) else (0, obj))
                in if rc < 0 then (EJS_ERR, ejsThrow MemoryError ejs, obj1)
                   else (s, ejs, obj1\<lparr>numProp := (if s > numProp obj1 then s else numProp obj1) + 1\<rparr>)
      else (slotNum, ejs, obj))"

definition ejsCopySlots :: "pot \<Rightarrow> int \<Rightarrow> pot \<Rightarrow> int \<Rightarrow> int \<Rightarrow> pot option" where
  "ejsCopySlots dest destOff src srcOff count =
     Option.bind (mem_read_block (pot_slots src) srcOff count) (\<lambda>ss.
     map_option (\<lambda>ss1. set_slots ss1 dest)
       (mem_write_block (pot_slots dest) destOff (map (\<lambda>sp. sp\<lparr>hashChain := -1\<rparr>) ss)))"

section \<open>The hash index\<close>

definition hash_index :: "int list \<Rightarrow> string \<Rightarrow> nat" where
  "hash_index buckets name = nat (uint (shash name) mod int (length buckets))"

definition ejsGetHashSize :: "int \<Rightarrow> int" where
  "ejsGetHashSize n = hash_size_from hashSizes 0 n"

text \<open>
  Walking a hash chain from slot \<open>s\<close> for the first slot whose name satisfies \<open>P\<close>: the slot before
  it and the slot, or the last slot and a negative number.
\<close>

partial_function (option) hash_walk :: "slot list \<Rightarrow> (qname \<Rightarrow> bool) \<Rightarrow> int \<Rightarrow> int \<Rightarrow> (int \<times> int) option" where
  "hash_walk ss P prev s =
     (if s < 0 then Some (prev, -1)
      else if s \<ge> int (length ss) then None
      else if P (slot_qname (ss ! nat s)) then Some (prev, s)
      else hash_walk ss P s (hashChain (ss ! nat s)))"

declare hash_walk.simps [code]

definition set_chain :: "int \<Rightarrow> int \<Rightarrow> slot list \<Rightarrow> slot list" where
  "set_chain s next ss = ss[nat s := (ss ! nat s)\<lparr>hashChain := next\<rparr>]"

text \<open>The second half of \<^verbatim>\<open>hashProperty\<close>: linking a slot at the end of the chain of its name.\<close>

definition link_slots :: "int list \<Rightarrow> slot list \<Rightarrow> int \<Rightarrow> qname \<Rightarrow> (int list \<times> slot list) option" where
  "link_slots buckets ss slotNum qname =
     (if buckets = [] then None
      else let index = hash_index buckets (fst qname)
           in case hash_walk ss (\<lambda>q. CMP_QNAME q qname) (-1) (buckets ! index) of
                None \<Rightarrow> None
              | Some (lastSlot, found) \<Rightarrow>
                  if found \<ge> 0 then Some (buckets, ss)
                  else if slotNum < 0 \<or> slotNum \<ge> int (length ss) then None
                  else let ss1 = (if lastSlot \<ge> 0 then set_chain lastSlot slotNum ss else ss);
                           bs1 = (if lastSlot \<ge> 0 then buckets else buckets[index := slotNum])
                       in Some (bs1, ss1[nat slotNum := (ss1 ! nat slotNum)\<lparr>slot_qname := qname, hashChain := -2\<rparr>]))"

definition link_property :: "int list \<Rightarrow> pot \<Rightarrow> int \<Rightarrow> qname \<Rightarrow> pot option" where
  "link_property buckets obj slotNum qname =
     map_option (\<lambda>(bs, ss). set_hash bs (set_slots ss obj)) (link_slots buckets (pot_slots obj) slotNum qname)"

text \<open>
  \<^verbatim>\<open>hashProperty\<close> and \<^verbatim>\<open>ejsIndexProperties\<close> call each other: the first remakes the index when it is
  too small, the second calls the first for every slot. The depth of the calls is the fuel.
\<close>

definition hashProperty_with :: "(pot \<Rightarrow> (int \<times> pot) option) \<Rightarrow> pot \<Rightarrow> int \<Rightarrow> qname \<Rightarrow> (int \<times> pot) option" where
  "hashProperty_with index_properties obj slotNum qname =
     (case pot_hash obj of
        None \<Rightarrow> index_properties obj
      | Some buckets \<Rightarrow>
          if int (length buckets) < numProp obj then index_properties obj
          else map_option (Pair 0) (link_property buckets obj slotNum qname))"

fun rehash_slots :: "(pot \<Rightarrow> int \<Rightarrow> qname \<Rightarrow> (int \<times> pot) option) \<Rightarrow> nat list \<Rightarrow> pot \<Rightarrow> (int \<times> pot) option" where
  "rehash_slots hashProp [] obj = Some (0, obj)"
| "rehash_slots hashProp (i # is) obj =
     (if i < length (pot_slots obj)
      then case hashProp obj (int i) (slot_qname (pot_slots obj ! i)) of
             None \<Rightarrow> None
           | Some (rc, obj1) \<Rightarrow> if rc < 0 then Some (EJS_ERR, obj1) else rehash_slots hashProp is obj1
      else None)"

definition clear_chains :: "int \<Rightarrow> slot list \<Rightarrow> slot list" where
  "clear_chains n ss = map (\<lambda>sp. sp\<lparr>hashChain := -1\<rparr>) (take (nat n) ss) @ drop (nat n) ss"

text \<open>The buckets that the index starts from, and the slots with the old chains cleared.\<close>

definition reset_hash :: "pot \<Rightarrow> pot" where
  "reset_hash obj =
     (let newHashSize = ejsGetHashSize (numProp obj);
          ss = (case pot_hash obj of None \<Rightarrow> pot_slots obj | Some _ \<Rightarrow> clear_chains (numProp obj) (pot_slots obj));
          grow = (case pot_hash obj of None \<Rightarrow> True | Some bs \<Rightarrow> int (length bs) < newHashSize);
          n = (case pot_hash obj of None \<Rightarrow> nat newHashSize
               | Some bs \<Rightarrow> if int (length bs) < newHashSize then nat newHashSize else length bs)
      in (set_hash (replicate n (-1)) (set_slots ss obj))\<lparr>separateHash := (if grow then True else separateHash obj)\<rparr>)"

fun index_properties :: "nat \<Rightarrow> ejs \<Rightarrow> pot \<Rightarrow> (int \<times> pot) option" where
  "index_properties 0 ejs obj = None"
| "index_properties (Suc depth) ejs obj =
     (if props obj = None then Some (0, obj)
      else if numProp obj \<le> EJS_HASH_MIN_PROP \<and> pot_hash obj = None then Some (0, obj)
      else if (case pot_hash obj of None \<Rightarrow> True | Some bs \<Rightarrow> int (length bs) < ejsGetHashSize (numProp obj))
           \<and> \<not> heap ejs (ejsGetHashSize (numProp obj)) then Some (EJS_ERR, obj)
      else rehash_slots (hashProperty_with (index_properties depth ejs)) [0..<nat (numProp obj)] (reset_hash obj))"

definition ejsIndexProperties :: "ejs \<Rightarrow> pot \<Rightarrow> (int \<times> pot) option" where
  "ejsIndexProperties ejs obj = index_properties 2 ejs obj"

definition hashProperty :: "ejs \<Rightarrow> pot \<Rightarrow> int \<Rightarrow> qname \<Rightarrow> (int \<times> pot) option" where
  "hashProperty ejs obj slotNum qname = hashProperty_with (ejsIndexProperties ejs) obj slotNum qname"

fun find_slot :: "(qname \<Rightarrow> bool) \<Rightarrow> slot list \<Rightarrow> nat \<Rightarrow> int" where
  "find_slot P [] i = -1"
| "find_slot P (sp # ss) i = (if P (slot_qname sp) then int i else find_slot P ss (Suc i))"

text \<open>
  Unlinking a name, and clearing the name of its slot. A name that is not there is an assertion
  in the sources and changes nothing in a release build.
\<close>

definition forget_name :: "slot \<Rightarrow> slot" where
  "forget_name sp = sp\<lparr>slot_qname := empty_qname, hashChain := -1\<rparr>"

definition unlink_slots :: "int list \<Rightarrow> slot list \<Rightarrow> qname \<Rightarrow> (int list \<times> slot list) option" where
  "unlink_slots buckets ss qname =
     (if buckets = [] then None
      else let index = hash_index buckets (fst qname)
           in case hash_walk ss (\<lambda>q. CMP_QNAME q qname) (-1) (buckets ! index) of
                None \<Rightarrow> None
              | Some (lastSlot, s) \<Rightarrow>
                  if s < 0 then Some (buckets, ss)
                  else let next = hashChain (ss ! nat s);
                           ss1 = (if lastSlot \<ge> 0 then set_chain lastSlot next ss else ss);
                           bs1 = (if lastSlot \<ge> 0 then buckets else buckets[index := next])
                       in Some (bs1, ss1[nat s := forget_name (ss1 ! nat s)]))"

definition removeHashEntry :: "pot \<Rightarrow> qname \<Rightarrow> pot option" where
  "removeHashEntry obj qname =
     (let ss = pot_slots obj
      in if int (length ss) < numProp obj then None
         else case pot_hash obj of
           None \<Rightarrow>
             let s = find_slot (\<lambda>q. CMP_QNAME q qname) (take (nat (numProp obj)) ss) 0
             in if s < 0 then Some obj
                else Some (set_slots (ss[nat s := forget_name (ss ! nat s)]) obj)
         | Some buckets \<Rightarrow>
             map_option (\<lambda>(bs, ss1). set_hash bs (set_slots ss1 obj)) (unlink_slots buckets ss qname))"

section \<open>Property operations\<close>

text \<open>
  Looking up a name. Without a namespace the name has to be unique. The properties of an object
  whose slots are not indexed are searched in order.
\<close>

definition ejsLookupPotProperty :: "pot \<Rightarrow> string \<Rightarrow> string option \<Rightarrow> int option" where
  "ejsLookupPotProperty obj name space =
     (if props obj = None \<or> numProp obj = 0 then Some (-1)
      else let ss = pot_slots obj; named = take (nat (numProp obj)) ss
           in if int (length ss) < numProp obj then None
              else case pot_hash obj of
                None \<Rightarrow>
                  (case space of
                     Some sp \<Rightarrow> Some (find_slot (\<lambda>q. CMP_QNAME q (name, sp)) named 0)
                   | None \<Rightarrow>
                       let prior = find_slot (\<lambda>q. CMP_NAME q (name, [])) named 0
                       in if prior < 0 then Some (-1)
                          else if find_slot (\<lambda>q. CMP_NAME q (name, [])) (drop (Suc (nat prior)) named) 0 < 0
                            then Some prior else Some (-1))
              | Some buckets \<Rightarrow>
                  if buckets = [] then None
                  else (case space of
                     Some sp \<Rightarrow>
                       map_option snd (hash_walk ss (\<lambda>q. CMP_QNAME q (name, sp)) (-1) (buckets ! hash_index buckets name))
                   | None \<Rightarrow>
                       Option.bind (hash_walk ss (\<lambda>q. CMP_NAME q (name, [])) (-1) (buckets ! hash_index buckets name))
                         (\<lambda>(_, s). if s < 0 then Some (-1)
                            else map_option (\<lambda>(_, other). if other < 0 then s else -1)
                                   (hash_walk ss (\<lambda>q. CMP_NAME q (name, [])) (-1) (hashChain (ss ! nat s))))))"

definition getPotProperty :: "ejs \<Rightarrow> pot \<Rightarrow> int \<Rightarrow> (ejs_value option \<times> ejs) option" where
  "getPotProperty ejs obj slotNum =
     (if slotNum < 0 \<or> slotNum \<ge> numProp obj then Some (None, ejsThrow ReferenceError ejs)
      else map_option (\<lambda>sp. (Some (slot_value sp), ejs)) (mem_read (pot_slots obj) slotNum))"

definition getPotPropertyCount :: "pot \<Rightarrow> int" where
  "getPotPropertyCount obj = numProp obj"

definition ejsGetPotPropertyName :: "pot \<Rightarrow> int \<Rightarrow> qname option option" where
  "ejsGetPotPropertyName obj slotNum =
     (if slotNum < 0 \<or> slotNum \<ge> numProp obj then Some None
      else map_option (\<lambda>sp. Some (slot_qname sp)) (mem_read (pot_slots obj) slotNum))"

definition getPotPropertyTraits :: "pot \<Rightarrow> int \<Rightarrow> (nat option \<times> int) option option" where
  "getPotPropertyTraits obj slotNum =
     (if slotNum < 0 \<or> slotNum \<ge> numProp obj then Some None
      else map_option (\<lambda>sp. Some (trait_type sp, trait_attributes sp)) (mem_read (pot_slots obj) slotNum))"

text \<open>Changing one slot of an object.\<close>

definition update_slot :: "(slot \<Rightarrow> slot) \<Rightarrow> int \<Rightarrow> pot \<Rightarrow> pot option" where
  "update_slot f slotNum obj =
     Option.bind (mem_read (pot_slots obj) slotNum) (\<lambda>sp.
     map_option (\<lambda>ss. set_slots ss obj) (mem_write (pot_slots obj) slotNum (f sp)))"

definition setPotProperty :: "ejs \<Rightarrow> pot \<Rightarrow> int \<Rightarrow> ejs_value \<Rightarrow> (int \<times> ejs \<times> pot) option" where
  "setPotProperty ejs obj slotNum val =
     (let (s, ejs1, obj1) = ejsCheckSlot ejs obj slotNum
      in if s < 0 then Some (EJS_ERR, ejs1, obj1)
         else map_option (\<lambda>obj2. (s, ejs1, obj2)) (update_slot (\<lambda>sp. sp\<lparr>slot_value := val\<rparr>) s obj1))"

definition setPotPropertyTraits :: "ejs \<Rightarrow> pot \<Rightarrow> int \<Rightarrow> nat option \<Rightarrow> int \<Rightarrow> (int \<times> ejs \<times> pot) option" where
  "setPotPropertyTraits ejs obj slotNum type attributes =
     (let (s, ejs1, obj1) = ejsCheckSlot ejs obj slotNum
      in if s < 0 then Some (EJS_ERR, ejs1, obj1)
         else map_option (\<lambda>obj2. (s, ejs1, obj2))
                (update_slot (\<lambda>sp. sp\<lparr>trait_type := (if type \<noteq> None then type else trait_type sp),
                    trait_attributes := (if attributes \<noteq> -1 then attributes else trait_attributes sp)\<rparr>) s obj1))"

definition setPotPropertyName :: "ejs \<Rightarrow> pot \<Rightarrow> int \<Rightarrow> qname \<Rightarrow> (int \<times> ejs \<times> pot) option" where
  "setPotPropertyName ejs obj slotNum qname =
     (let (s, ejs1, obj1) = ejsCheckSlot ejs obj slotNum
      in if s < 0 then Some (EJS_ERR, ejs1, obj1)
         else case mem_read (pot_slots obj1) s of
           None \<Rightarrow> None
         | Some sp \<Rightarrow>
             if hashChain sp \<ge> 0 \<and> CMP_QNAME (slot_qname sp) qname then Some (s, ejs1, obj1)
             else Option.bind (if hashChain sp \<ge> 0 then removeHashEntry obj1 (slot_qname sp) else Some obj1) (\<lambda>obj2.
                  Option.bind (update_slot (\<lambda>sp. sp\<lparr>slot_qname := qname\<rparr>) s obj2) (\<lambda>obj3.
                  if pot_hash obj3 \<noteq> None \<or> numProp obj3 > EJS_HASH_MIN_PROP
                  then map_option (\<lambda>(rc, obj4). if rc < 0 then (EJS_ERR, ejsThrow MemoryError ejs1, obj4) else (s, ejs1, obj4))
                         (hashProperty ejs1 obj3 s qname)
                  else Some (s, ejs1, obj3))))"

text \<open>
  The functions that accessors refer to: the setter of a getter, which functions are native, and
  the next free reference. \<open>nop_native\<close> says whether \<^verbatim>\<open>ESV(nop)\<close> is.
\<close>

record function_table =
  setter :: "nat \<Rightarrow> nat option"
  native :: "nat \<Rightarrow> bool"
  next_function :: nat
  nop_native :: bool

definition isFunctionValue :: "ejs_value option \<Rightarrow> bool" where
  "isFunctionValue val = (case val of Some (VFunction f) \<Rightarrow> True | _ \<Rightarrow> False)"

definition isAccessor :: "int \<Rightarrow> bool" where
  "isAccessor attributes \<longleftrightarrow> attributes AND (EJS_TRAIT_GETTER OR EJS_TRAIT_SETTER) \<noteq> 0"

definition prepareAccessors ::
    "ejs \<Rightarrow> function_table \<Rightarrow> pot \<Rightarrow> int \<Rightarrow> int \<Rightarrow> nat \<Rightarrow> (nat \<times> int \<times> ejs \<times> function_table) option" where
  "prepareAccessors ejs fns obj slotNum attributes val =
     Option.bind (getPotProperty ejs obj slotNum) (\<lambda>(prior, ejs1).
     Option.bind (getPotPropertyTraits obj slotNum) (\<lambda>trait.
       let oldAttributes = (case trait of None \<Rightarrow> 0 | Some (_, a) \<Rightarrow> a)
       in if attributes AND EJS_TRAIT_SETTER \<noteq> 0
          then case prior of
                 Some (VFunction f) \<Rightarrow>
                   Some (f, attributes OR oldAttributes, ejs1, fns\<lparr>setter := (setter fns)(f := Some val)\<rparr>)
               | _ \<Rightarrow>
                   let f = next_function fns
                   in Some (f, attributes, ejs1,
                        fns\<lparr>setter := (setter fns)(f := Some val), native := (native fns)(f := nop_native fns),
                            next_function := Suc f\<rparr>)
          else case prior of
                 Some (VFunction f) \<Rightarrow>
                   if oldAttributes AND EJS_TRAIT_SETTER \<noteq> 0 \<and> setter fns f \<noteq> None
                   then Some (val, attributes OR EJS_TRAIT_SETTER, ejs1,
                          fns\<lparr>setter := (setter fns)(val := setter fns f)\<rparr>)
                   else Some (val, attributes, ejs1, fns)
               | _ \<Rightarrow> Some (val, attributes, ejs1, fns)))"

text \<open>Making the slot of a sealed object; a dynamic one grows when its name and value are set.\<close>

definition define_slot :: "ejs \<Rightarrow> pot \<Rightarrow> int \<Rightarrow> int \<times> pot" where
  "define_slot ejs obj slotNum =
     (if slotNum \<ge> numProp obj \<and> \<not> dynamic obj
      then let (rc, obj1) = (if needs_slots obj slotNum then growSlots ejs obj (slotNum + 1) else (0, obj))
           in if rc < 0 then (EJS_ERR, obj1) else (0, obj1\<lparr>numProp := slotNum + 1\<rparr>)
      else (0, obj))"

definition definePotProperty ::
    "ejs \<Rightarrow> function_table \<Rightarrow> pot \<Rightarrow> int \<Rightarrow> qname \<Rightarrow> nat option \<Rightarrow> int \<Rightarrow> ejs_value option
       \<Rightarrow> (int \<times> ejs \<times> function_table \<times> pot) option" where
  "definePotProperty ejs fns obj slotNum qname propType attributes val =
     (if isAccessor attributes \<and> \<not> isFunctionValue val
      then Some (0, ejsThrow TypeError ejs, fns, obj)
      else Option.bind (ejsLookupPotProperty obj (fst qname) (Some (snd qname))) (\<lambda>priorSlot.
        let s = (if slotNum < 0 then if priorSlot < 0 then numProp obj else priorSlot else slotNum);
            (rc, obj1) = define_slot ejs obj s
        in if rc < 0 then Some (EJS_ERR, ejsThrow MemoryError ejs, fns, obj1)
           else Option.bind (if priorSlot < 0 then setPotPropertyName ejs obj1 s qname else Some (s, ejs, obj1))
             (\<lambda>(rc2, ejs2, obj2).
             if rc2 < 0 then Some (EJS_ERR, ejs2, fns, obj2)
             else Option.bind (case val of
                 Some (VFunction f) \<Rightarrow> if isAccessor attributes
                   then map_option (\<lambda>(f1, a1, e1, fns1). (Some (VFunction f1), a1, e1, fns1))
                          (prepareAccessors ejs2 fns obj2 s attributes f)
                   else Some (val, attributes, ejs2, fns)
               | _ \<Rightarrow> Some (val, attributes, ejs2, fns)) (\<lambda>(val3, attributes3, ejs3, fns3).
             Option.bind (case val3 of None \<Rightarrow> Some (0, ejs3, obj2) | Some v \<Rightarrow> setPotProperty ejs3 obj2 s v)
               (\<lambda>(rc4, ejs4, obj4).
             if rc4 < 0 then Some (EJS_ERR, ejs4, fns3, obj4)
             else map_option (\<lambda>(rc5, ejs5, obj5).
                 if rc5 < 0 then (EJS_ERR, ejs5, fns3, obj5)
                 else (s, ejs5, fns3,
                   (case val3 of Some (VFunction f) \<Rightarrow>
                        if \<not> native fns3 f \<and> isType obj5 then obj5\<lparr>hasScriptFunctions := True\<rparr> else obj5
                    | _ \<Rightarrow> obj5)))
               (setPotPropertyTraits ejs4 obj4 s propType (c_int attributes3)))))))"

definition deletePotProperty :: "ejs \<Rightarrow> pot \<Rightarrow> int \<Rightarrow> (int \<times> ejs \<times> pot) option" where
  "deletePotProperty ejs obj slotNum =
     (if slotNum < 0 \<or> slotNum \<ge> numProp obj then Some (EJS_ERR, ejsThrow ReferenceError ejs, obj)
      else Option.bind (mem_read (pot_slots obj) slotNum) (\<lambda>sp.
           Option.bind (removeHashEntry obj (slot_qname sp)) (\<lambda>obj1.
           map_option (\<lambda>obj2. (0, ejs, obj2))
             (update_slot (\<lambda>sp. sp\<lparr>slot_value := VUndefined, trait_type := None,
                trait_attributes := EJS_TRAIT_DELETED OR EJS_TRAIT_HIDDEN\<rparr>) slotNum obj1))))"

definition deletePotPropertyByName :: "ejs \<Rightarrow> pot \<Rightarrow> qname \<Rightarrow> (int \<times> ejs \<times> pot) option" where
  "deletePotPropertyByName ejs obj qname =
     Option.bind (ejsLookupPotProperty obj (fst qname) (Some (snd qname))) (\<lambda>slotNum.
       if slotNum < 0 then Some (EJS_ERR, ejsThrow ReferenceError ejs, obj)
       else deletePotProperty ejs obj slotNum)"

section \<open>Moving slots\<close>

text \<open>The copying loop of \<^verbatim>\<open>ejsInsertPotProperties\<close>, with the indices it visits.\<close>

fun shift_slots :: "nat \<Rightarrow> nat list \<Rightarrow> slot list \<Rightarrow> slot list" where
  "shift_slots mark [] ss = ss"
| "shift_slots mark (i # is) ss = shift_slots mark is (ss[i := ss ! (i - mark)])"

definition ejsInsertPotProperties :: "ejs \<Rightarrow> pot \<Rightarrow> int \<Rightarrow> int \<Rightarrow> (int \<times> pot) option" where
  "ejsInsertPotProperties ejs obj incr offset =
     (if incr \<le> 0 then Some (0, obj)
      else let n = numProp obj + incr;
               (rc, obj1) = (if needs_slots obj (n - 1) then growSlots ejs obj n else (0, obj))
           in if rc < 0 then Some (EJS_ERR, obj1)
              else if int (length (pot_slots obj1)) < n then None
              else let mark = nat (offset + incr);
                       ss = shift_slots mark (rev [mark..<nat n]) (pot_slots obj1)
                   in Option.bind (ejsZeroSlots ss offset incr) (\<lambda>ss1.
                      map_option (\<lambda>(rc2, obj2). (if rc2 < 0 then EJS_ERR else 0, obj2))
                        (ejsIndexProperties ejs (set_slots ss1 (obj1\<lparr>numProp := n\<rparr>)))))"

definition removeSlot :: "ejs \<Rightarrow> pot \<Rightarrow> int \<Rightarrow> pot option" where
  "removeSlot ejs obj slotNum =
     (if props obj = None then Some obj
      else let n = nat (numProp obj); k = nat slotNum; ss = pot_slots obj
           in if length ss < n then None
              else map_option snd (ejsIndexProperties ejs
                     (set_slots (take k ss @ drop (Suc k) (take n ss) @ [zero_slot] @ drop n ss)
                       (obj\<lparr>numProp := numProp obj - 1\<rparr>))))"

definition ejsRemovePotProperty :: "ejs \<Rightarrow> pot \<Rightarrow> int \<Rightarrow> (int \<times> pot) option" where
  "ejsRemovePotProperty ejs obj slotNum =
     (if slotNum < 0 \<or> slotNum \<ge> numProp obj then Some (EJS_ERR, obj)
      else map_option (Pair 0) (removeSlot ejs obj slotNum))"

definition ejsIsDefined :: "ejs_value \<Rightarrow> bool" where
  "ejsIsDefined v \<longleftrightarrow> v \<noteq> VUndefined \<and> v \<noteq> VNull"

text \<open>The slots that keep their value move down; the cells above them keep their old contents.\<close>

definition ejsCompactPot :: "ejs \<Rightarrow> pot \<Rightarrow> (int \<times> pot) option" where
  "ejsCompactPot ejs obj =
     (let ss = pot_slots obj; n = nat (numProp obj);
          kept = filter (\<lambda>sp. ejsIsDefined (slot_value sp)) (take n ss)
      in if props obj = None \<or> length ss < n then None
         else map_option (\<lambda>(_, obj1). (numProp obj1, obj1))
                (ejsIndexProperties ejs (set_slots (kept @ drop (length kept) ss)
                  (obj\<lparr>numProp := numProp obj - int (n - length kept)\<rparr>))))"

section \<open>Creating and cloning\<close>

text \<open>The part of a type that creating an instance looks at.\<close>

record pot_class =
  prototype :: pot
  hasInstanceVars :: bool
  dynamicInstances :: bool

definition blank_pot :: pot where
  "blank_pot = \<lparr>isBlock = False, isFrame = False, isFunction = False, isPrototype = False, isType = False,
     separateHash = False, separateSlots = False, shortScope = False, dynamic = False,
     hasScriptFunctions = False, props = None, numProp = 0\<rparr>"

text \<open>
  \<^verbatim>\<open>ejsCreatePot\<close>. The result of growing the slots of a dynamic object is not looked at: without
  memory the initialisation that follows dereferences the null pointer.
\<close>

definition ejsCreatePot :: "ejs \<Rightarrow> pot_class \<Rightarrow> int \<Rightarrow> pot option" where
  "ejsCreatePot ejs type count =
     (let n = (if hasInstanceVars type then max count (numProp (prototype type)) else count);
          obj = (if dynamicInstances type
                 then (if n > 0 then snd (growSlots ejs blank_pot n) else blank_pot)\<lparr>dynamic := True\<rparr>
                 else if n > 0 then blank_pot\<lparr>props := Some \<lparr>hash = None, slots = replicate (nat n) zero_slot\<rparr>\<rparr>
                 else blank_pot)\<lparr>numProp := n\<rparr>
      in if n > 0
         then if props obj = None then None
              else if hasInstanceVars type
              then let base = numProp (prototype type)
                   in Option.bind (if base > 0 then ejsCopySlots obj 0 (prototype type) 0 base else Some obj) (\<lambda>obj1.
                      Option.bind (ejsZeroSlots (pot_slots obj1) base (int (length (pot_slots obj1)) - base)) (\<lambda>ss.
                        let obj2 = set_slots ss obj1
                        in if n > EJS_HASH_MIN_PROP then map_option snd (ejsIndexProperties ejs obj2) else Some obj2))
              else map_option (\<lambda>ss. set_slots ss obj)
                     (ejsZeroSlots (pot_slots obj) 0 (int (length (pot_slots obj))))
         else Some obj)"

text \<open>
  \<open>copy\<close> is what a deep clone makes of the value of a slot (it clones the instances of mutable
  types); a shallow clone shares the values.
\<close>

definition ejsClonePot :: "ejs \<Rightarrow> pot_class \<Rightarrow> pot \<Rightarrow> (ejs_value \<Rightarrow> ejs_value) \<Rightarrow> pot option" where
  "ejsClonePot ejs type src copy =
     Option.bind (ejsCreatePot ejs type (numProp src)) (\<lambda>dest.
     Option.bind (mem_read_block (pot_slots src) 0 (numProp src)) (\<lambda>sps.
     Option.bind (mem_write_block (pot_slots dest) 0
         (map (\<lambda>sp. sp\<lparr>hashChain := -1, slot_value := copy (slot_value sp)\<rparr>) sps)) (\<lambda>ss.
       let dest1 = set_slots ss (dest\<lparr>isBlock := isBlock src, isFrame := isFrame src, isFunction := isFunction src,
             isPrototype := isPrototype src, isType := isType src, shortScope := shortScope src,
             dynamic := dynamic src, numProp := numProp src\<rparr>)
       in if numProp dest1 > EJS_HASH_MIN_PROP then map_option snd (ejsIndexProperties ejs dest1) else Some dest1)))"

section \<open>Hash chains\<close>

text \<open>The chain that starts at \<open>s\<close> runs through the slots \<open>xs\<close> and ends.\<close>

fun is_chain :: "slot list \<Rightarrow> int \<Rightarrow> nat list \<Rightarrow> bool" where
  "is_chain ss s [] = (s < 0)"
| "is_chain ss s (x # xs) = (s = int x \<and> x < length ss \<and> is_chain ss (hashChain (ss ! x)) xs)"

fun walk_list :: "(qname \<Rightarrow> bool) \<Rightarrow> slot list \<Rightarrow> int \<Rightarrow> nat list \<Rightarrow> int \<times> int" where
  "walk_list P ss prev [] = (prev, -1)"
| "walk_list P ss prev (x # xs) = (if P (slot_qname (ss ! x)) then (prev, int x) else walk_list P ss (int x) xs)"

lemma hash_walk_chain: "is_chain ss s xs \<Longrightarrow> hash_walk ss P prev s = Some (walk_list P ss prev xs)"
  by (induction xs arbitrary: s prev) (subst hash_walk.simps, auto)+

lemma is_chain_bounds: "is_chain ss s xs \<Longrightarrow> x \<in> set xs \<Longrightarrow> x < length ss"
  by (induction xs arbitrary: s) auto

lemma is_chain_cong:
  assumes "length ss' = length ss" "\<And>x. x \<in> set xs \<Longrightarrow> hashChain (ss' ! x) = hashChain (ss ! x)"
  shows "is_chain ss' s xs = is_chain ss s xs"
  using assms(2) by (induction xs arbitrary: s) (auto simp: assms(1))

lemma walk_list_not_found:
  "(\<forall>x \<in> set xs. \<not> P (slot_qname (ss ! x))) \<Longrightarrow> walk_list P ss prev xs = (if xs = [] then prev else int (last xs), -1)"
  by (induction xs arbitrary: prev) auto

lemma walk_list_found:
  assumes "x \<in> set xs" "P (slot_qname (ss ! x))" "\<And>y. y \<in> set xs \<Longrightarrow> P (slot_qname (ss ! y)) \<Longrightarrow> y = x" "distinct xs"
  shows "\<exists>ys zs. xs = ys @ x # zs \<and> walk_list P ss prev xs = (if ys = [] then prev else int (last ys), int x)"
  using assms
proof (induction xs arbitrary: prev)
  case (Cons a xs)
  show ?case
  proof (cases "a = x")
    case True
    with Cons.prems(2) show ?thesis by (intro exI [of _ "[]"] exI [of _ xs]) auto
  next
    case False
    with Cons.prems have na: "\<not> P (slot_qname (ss ! a))" by auto
    have "\<exists>ys zs. xs = ys @ x # zs \<and> walk_list P ss (int a) xs = (if ys = [] then int a else int (last ys), int x)"
      by (rule Cons.IH) (use False Cons.prems in simp_all)
    then obtain ys zs where
      "xs = ys @ x # zs" "walk_list P ss (int a) xs = (if ys = [] then int a else int (last ys), int x)" by blast
    with na show ?thesis by (intro exI [of _ "a # ys"] exI [of _ zs]) simp
  qed
qed simp

lemma is_chain_snoc:
  assumes "is_chain ss s xs" "distinct xs" "k < length ss" "k \<notin> set xs" "xs \<noteq> []" "e < 0"
  shows "is_chain (ss[last xs := (ss ! last xs)\<lparr>hashChain := int k\<rparr>, k := v\<lparr>hashChain := e\<rparr>]) s (xs @ [k])"
  using assms
proof (induction xs arbitrary: s)
  case (Cons x xs)
  show ?case
  proof (cases "xs = []")
    case True
    with Cons.prems show ?thesis by auto
  next
    case False
    with Cons.prems have "x \<noteq> last xs" "x \<noteq> k" by auto
    with False Cons.prems Cons.IH [of "hashChain (ss ! x)"] show ?thesis by auto
  qed
qed simp

lemma nth_update_notin: "x \<notin> S \<Longrightarrow> y \<in> S \<Longrightarrow> xs[x := v] ! y = xs ! y"
  by (metis nth_list_update_neq)

text \<open>Taking a slot out of the middle of a chain.\<close>

lemma is_chain_split: "is_chain ss s (ys @ x # zs) \<Longrightarrow> is_chain ss (hashChain (ss ! x)) zs \<and> (ys = [] \<longrightarrow> s = int x)"
  by (induction ys arbitrary: s) auto

lemma is_chain_remove:
  assumes "is_chain ss s (ys @ x # zs)" "distinct (ys @ x # zs)" "ys \<noteq> []"
  shows "is_chain (ss[last ys := (ss ! last ys)\<lparr>hashChain := hashChain (ss ! x)\<rparr>, x := v]) s (ys @ zs)"
  using assms
proof (induction ys arbitrary: s)
  case (Cons y ys)
  let ?ss = "\<lambda>l. ss[l := (ss ! l)\<lparr>hashChain := hashChain (ss ! x)\<rparr>, x := v]"
  show ?case
  proof (cases "ys = []")
    case True
    with Cons.prems have "y < length ss" "y \<noteq> x" "is_chain ss (hashChain (ss ! x)) zs" "y \<notin> set zs" "x \<notin> set zs" by auto
    moreover from this have "is_chain (?ss y) h zs = is_chain ss h zs" for h
      by (intro is_chain_cong) (simp_all add: nth_update_notin [of _ "set zs"])
    ultimately show ?thesis using True Cons.prems(1) by simp
  next
    case False
    with Cons.prems have "y \<noteq> last ys" "y \<noteq> x" by auto
    with False Cons.prems Cons.IH [of "hashChain (ss ! y)"] show ?thesis by auto
  qed
qed simp

section \<open>The index of an object\<close>

text \<open>
  The index over the first \<open>n\<close> slots: the chain of every bucket ends, holds slots whose names hash
  to the bucket and differ from each other, and every slot outside the chains is marked so.
\<close>

definition slot_name :: "slot list \<Rightarrow> nat \<Rightarrow> qname" where
  "slot_name ss x = slot_qname (ss ! x)"

definition bucket_ok :: "slot list \<Rightarrow> nat \<Rightarrow> int list \<Rightarrow> nat \<Rightarrow> nat list \<Rightarrow> bool" where
  "bucket_ok ss n bs b xs \<longleftrightarrow> is_chain ss (bs ! b) xs \<and> distinct (map (slot_name ss) xs)
     \<and> (\<forall>x \<in> set xs. x < n \<and> hash_index bs (fst (slot_name ss x)) = b \<and> hashChain (ss ! x) \<noteq> -1)"

definition chains_ok :: "slot list \<Rightarrow> nat \<Rightarrow> int list \<Rightarrow> (nat \<Rightarrow> nat list) \<Rightarrow> bool" where
  "chains_ok ss n bs ch \<longleftrightarrow> bs \<noteq> [] \<and> n \<le> length ss \<and> (\<forall>b < length bs. bucket_ok ss n bs b (ch b))
     \<and> (\<forall>x < length ss. (\<forall>b < length bs. x \<notin> set (ch b)) \<longrightarrow> hashChain (ss ! x) = -1)"

text \<open>The chain that a name belongs to.\<close>

abbreviation chain_of :: "int list \<Rightarrow> (nat \<Rightarrow> nat list) \<Rightarrow> qname \<Rightarrow> nat list" where
  "chain_of bs ch q \<equiv> ch (hash_index bs (fst q))"

lemma hash_index_less: "bs \<noteq> [] \<Longrightarrow> hash_index bs n < length bs"
  by (simp add: hash_index_def nat_less_iff)

lemma hash_index_cong: "length bs' = length bs \<Longrightarrow> hash_index bs' n = hash_index bs n"
  by (simp add: hash_index_def)

lemma bucket_ok_distinct: "bucket_ok ss n bs b xs \<Longrightarrow> distinct xs"
  by (simp add: bucket_ok_def distinct_map)

lemma bucket_ok_unique:
  "bucket_ok ss n bs b xs \<Longrightarrow> x \<in> set xs \<Longrightarrow> y \<in> set xs \<Longrightarrow> slot_name ss x = slot_name ss y \<Longrightarrow> x = y"
  by (auto simp: bucket_ok_def distinct_map dest: inj_onD)

lemma chains_ok_bucket: "chains_ok ss n bs ch \<Longrightarrow> bucket_ok ss n bs (hash_index bs (fst q)) (chain_of bs ch q)"
  by (simp add: chains_ok_def hash_index_less)

lemma chains_ok_member:
  assumes "chains_ok ss n bs ch" "b < length bs" "x \<in> set (ch b)"
  shows "x < n" "hashChain (ss ! x) \<noteq> -1"
  using assms by (auto simp: chains_ok_def bucket_ok_def)

lemma chains_ok_in_chain:
  "chains_ok ss n bs ch \<Longrightarrow> b < length bs \<Longrightarrow> x \<in> set (ch b) \<Longrightarrow> x \<in> set (chain_of bs ch (slot_name ss x))"
  by (auto simp: chains_ok_def bucket_ok_def)

text \<open>A bucket does not see changes of slots outside its chain.\<close>

lemma bucket_ok_cong:
  assumes "bucket_ok ss n bs b xs" "length ss' = length ss" "length bs' = length bs" "bs' ! b = bs ! b"
    and "\<And>x. x \<in> set xs \<Longrightarrow> ss' ! x = ss ! x"
  shows "bucket_ok ss' n bs' b xs"
proof -
  have "is_chain ss' (bs ! b) xs = is_chain ss (bs ! b) xs" using assms(2,5) by (intro is_chain_cong) auto
  moreover have n: "\<And>x. x \<in> set xs \<Longrightarrow> slot_name ss' x = slot_name ss x" using assms(5) by (simp add: slot_name_def)
  then have "distinct (map (slot_name ss') xs) = distinct (map (slot_name ss) xs)" by (simp add: distinct_map inj_on_def)
  ultimately show ?thesis
    using assms n by (simp add: bucket_ok_def hash_index_cong [OF assms(3)])
qed

text \<open>Walking the chain of a name finds the slot of the name.\<close>

lemma walk_name:
  assumes "chains_ok ss n bs ch"
  shows "hash_walk ss P prev (bs ! hash_index bs (fst q)) = Some (walk_list P ss prev (chain_of bs ch q))"
  using chains_ok_bucket [OF assms, of q] by (intro hash_walk_chain) (simp add: bucket_ok_def)

lemma CMP_QNAME_eq: "CMP_QNAME a b \<longleftrightarrow> a = b"
  by (simp add: CMP_QNAME_def prod_eq_iff)

lemma walk_qname_found:
  assumes "chains_ok ss n bs ch" "x \<in> set (chain_of bs ch q)" "slot_name ss x = q"
  shows "\<exists>ys zs. chain_of bs ch q = ys @ x # zs \<and> hash_walk ss (\<lambda>a. CMP_QNAME a q) prev (bs ! hash_index bs (fst q))
     = Some (if ys = [] then prev else int (last ys), int x)"
proof -
  note b = chains_ok_bucket [OF assms(1), of q]
  have "\<exists>ys zs. chain_of bs ch q = ys @ x # zs \<and> walk_list (\<lambda>a. CMP_QNAME a q) ss prev (chain_of bs ch q)
     = (if ys = [] then prev else int (last ys), int x)"
  proof (rule walk_list_found)
    show "x \<in> set (chain_of bs ch q)" "distinct (chain_of bs ch q)" using assms(2) bucket_ok_distinct [OF b] by simp_all
    show "CMP_QNAME (slot_qname (ss ! x)) q" using assms(3) by (simp add: CMP_QNAME_eq slot_name_def)
    show "y = x" if "y \<in> set (chain_of bs ch q)" "CMP_QNAME (slot_qname (ss ! y)) q" for y
      using bucket_ok_unique [OF b that(1) assms(2)] that(2) assms(3) by (simp add: CMP_QNAME_eq slot_name_def)
  qed
  with walk_name [OF assms(1)] show ?thesis by auto
qed

lemma walk_qname_missing:
  assumes "chains_ok ss n bs ch" "\<And>x. x \<in> set (chain_of bs ch q) \<Longrightarrow> slot_name ss x \<noteq> q"
  shows "hash_walk ss (\<lambda>a. CMP_QNAME a q) prev (bs ! hash_index bs (fst q))
     = Some (if chain_of bs ch q = [] then prev else int (last (chain_of bs ch q)), -1)"
  using walk_name [OF assms(1)] walk_list_not_found [of "chain_of bs ch q" "\<lambda>a. CMP_QNAME a q" ss prev] assms(2)
  by (simp add: CMP_QNAME_eq slot_name_def)

section \<open>Linking and unlinking keep the index\<close>

text \<open>Chains of different buckets are disjoint, so replacing one keeps the others.\<close>

lemma chains_ok_index: "chains_ok ss n bs ch \<Longrightarrow> b < length bs \<Longrightarrow> x \<in> set (ch b) \<Longrightarrow> hash_index bs (fst (slot_name ss x)) = b"
  by (simp add: chains_ok_def bucket_ok_def)

lemma chains_ok_disjoint:
  "chains_ok ss n bs ch \<Longrightarrow> b < length bs \<Longrightarrow> c < length bs \<Longrightarrow> c \<noteq> b \<Longrightarrow> x \<in> set (ch c) \<Longrightarrow> x \<notin> set (ch b)"
  by (metis chains_ok_index)

lemma chains_ok_update:
  assumes ok: "chains_ok ss n bs ch" "b < length bs" and len: "length ss' = length ss" "length bs' = length bs"
    and bs: "\<And>c. c \<noteq> b \<Longrightarrow> bs' ! c = bs ! c" and new: "bucket_ok ss' n bs' b xs"
    and same: "\<And>y. y \<notin> set (ch b) \<Longrightarrow> y \<notin> set xs \<Longrightarrow> ss' ! y = ss ! y"
    and fresh: "\<And>c y. c < length bs \<Longrightarrow> c \<noteq> b \<Longrightarrow> y \<in> set (ch c) \<Longrightarrow> y \<notin> set xs"
    and gone: "\<And>y. y \<in> set (ch b) \<Longrightarrow> y \<notin> set xs \<Longrightarrow> hashChain (ss' ! y) = -1"
  shows "chains_ok ss' n bs' (ch(b := xs))"
  unfolding chains_ok_def
proof (intro conjI allI impI)
  show "bs' \<noteq> []" "n \<le> length ss'" using ok len by (auto simp: chains_ok_def)
  show "bucket_ok ss' n bs' c ((ch(b := xs)) c)" if c: "c < length bs'" for c
  proof (cases "c = b")
    case False
    with ok c len have "bucket_ok ss n bs c (ch c)" by (simp add: chains_ok_def)
    then have "bucket_ok ss' n bs' c (ch c)"
      by (rule bucket_ok_cong) (use len bs False c same fresh chains_ok_disjoint [OF ok(1,2)] in auto)
    with False show ?thesis by simp
  qed (simp add: new)
  show "hashChain (ss' ! y) = - 1" if y: "y < length ss'" "\<forall>c < length bs'. y \<notin> set ((ch(b := xs)) c)" for y
  proof (cases "y \<in> set (ch b)")
    case True
    with gone y(2) ok(2) len(2) show ?thesis by (auto dest: spec [of _ b])
  next
    case False
    have "y \<notin> set (ch c)" if "c < length bs" for c using y(2) that False len(2) by (cases "c = b") auto
    then have "hashChain (ss ! y) = -1" using ok(1) y(1) len(1) by (simp add: chains_ok_def)
    moreover have "y \<notin> set xs" using y(2) ok(2) len(2) by auto
    ultimately show ?thesis using same [OF False] by simp
  qed
qed

text \<open>
  Linking slot \<open>k\<close>, which is in no chain, under its name: the chain of the name grows at its end.
\<close>

lemma link_slots_missing:
  assumes "chains_ok ss n bs ch" "k < n" "slot_name ss k = q" "hashChain (ss ! k) = -1"
    and "\<And>x. x \<in> set (chain_of bs ch q) \<Longrightarrow> slot_name ss x \<noteq> q"
  shows "\<exists>bs' ss'. link_slots bs ss (int k) q = Some (bs', ss') \<and> length bs' = length bs \<and> length ss' = length ss
     \<and> (\<forall>x. ss' ! x = (ss ! x)\<lparr>hashChain := hashChain (ss' ! x)\<rparr>)
     \<and> chains_ok ss' n bs' (ch(hash_index bs (fst q) := chain_of bs ch q @ [k]))"
proof -
  define b where "b = hash_index bs (fst q)"
  define xs where "xs = ch b"
  have bs: "bs \<noteq> []" "n \<le> length ss" using assms(1) by (simp_all add: chains_ok_def)
  have b: "b < length bs" using bs hash_index_less by (simp add: b_def)
  have bk: "bucket_ok ss n bs b xs" using chains_ok_bucket [OF assms(1), of q] by (simp add: b_def xs_def)
  have kn: "k \<notin> set (ch c)" if "c < length bs" for c
    using assms(1,4) that by (auto simp: chains_ok_def bucket_ok_def)
  have kx: "k \<notin> set xs" using kn [OF b] by (simp add: xs_def b_def)
  define ss1 where "ss1 = (if xs = [] then ss else ss[last xs := (ss ! last xs)\<lparr>hashChain := int k\<rparr>])"
  define bs' where "bs' = (if xs = [] then bs[b := int k] else bs)"
  define ss' where "ss' = ss1[k := (ss1 ! k)\<lparr>slot_qname := q, hashChain := -2\<rparr>]"
  have lx: "xs \<noteq> [] \<Longrightarrow> last xs \<in> set xs" by simp
  have lk: "xs \<noteq> [] \<Longrightarrow> last xs \<noteq> k" using kx lx by metis
  have k1: "ss1 ! k = ss ! k" using lk by (simp add: ss1_def)
  have kq: "slot_qname (ss ! k) = q" using assms(3) by (simp add: slot_name_def)
  have len: "length ss' = length ss" "length bs' = length bs" by (simp_all add: ss'_def ss1_def bs'_def)
  have nth': "ss' ! x = (if x = k then (ss ! k)\<lparr>hashChain := -2\<rparr>
      else if xs \<noteq> [] \<and> x = last xs then (ss ! x)\<lparr>hashChain := int k\<rparr> else ss ! x)" for x
  proof -
    have "xs \<noteq> [] \<Longrightarrow> last xs < length ss" using is_chain_bounds [OF _ lx] bk by (auto simp: bucket_ok_def)
    moreover have "k < length ss" using assms(2) bs(2) by simp
    ultimately show ?thesis using lk kq by (auto simp: ss'_def ss1_def nth_list_update)
  qed
  have link: "link_slots bs ss (int k) q = Some (bs', ss')"
    using walk_qname_missing [OF assms(1,5), of "-1"] bs assms(2)
    by (simp add: link_slots_def bs'_def ss'_def ss1_def set_chain_def Let_def flip: b_def xs_def)
  have names: "slot_name ss' = slot_name ss" by (simp add: fun_eq_iff slot_name_def nth')
  have missing: "q \<notin> slot_name ss ` set xs" using assms(5) by (auto simp: xs_def b_def)
  have chain: "bucket_ok ss' n bs' b (xs @ [k])"
  proof -
    have "is_chain ss' (bs' ! b) (xs @ [k])"
    proof (cases "xs = []")
      case True
      then show ?thesis using b assms(2) bs(2) by (simp add: bs'_def ss'_def ss1_def)
    next
      case False
      have "is_chain ss (bs ! b) xs" using bk by (simp add: bucket_ok_def)
      from is_chain_snoc [OF this bucket_ok_distinct [OF bk] _ kx False, of "-2" "(ss1 ! k)\<lparr>slot_qname := q\<rparr>"]
      show ?thesis using False assms(2) bs(2) by (simp add: ss'_def ss1_def bs'_def)
    qed
    moreover have "distinct (map (slot_name ss') (xs @ [k]))"
      using bk missing by (simp add: names bucket_ok_def assms(3))
    moreover have "hash_index bs' (fst (slot_name ss' k)) = b"
      using assms(3) by (simp add: names b_def hash_index_cong [OF len(2)])
    ultimately show ?thesis
      using bk assms(2) kx by (auto simp: bucket_ok_def names hash_index_cong [OF len(2)] nth')
  qed
  have "chains_ok ss' n bs' (ch(b := xs @ [k]))"
    by (rule chains_ok_update [OF assms(1) b len _ chain])
      (use kn chains_ok_disjoint [OF assms(1) b] lx in \<open>auto simp: nth' bs'_def simp flip: xs_def\<close>)
  then show ?thesis using link len by (intro exI [of _ bs'] exI [of _ ss']) (simp add: nth' flip: b_def xs_def)
qed

lemma unlink_slots_found:
  assumes "chains_ok ss n bs ch" "x \<in> set (chain_of bs ch q)" "slot_name ss x = q"
  shows "\<exists>bs' ss'. unlink_slots bs ss q = Some (bs', ss') \<and> length bs' = length bs \<and> length ss' = length ss
     \<and> (\<forall>y. y \<noteq> x \<longrightarrow> ss' ! y = (ss ! y)\<lparr>hashChain := hashChain (ss' ! y)\<rparr>) \<and> ss' ! x = forget_name (ss ! x)
     \<and> chains_ok ss' n bs' (ch(hash_index bs (fst q) := removeAll x (chain_of bs ch q)))"
proof -
  define b where "b = hash_index bs (fst q)"
  have bs: "bs \<noteq> []" "n \<le> length ss" using assms(1) by (simp_all add: chains_ok_def)
  have b: "b < length bs" using bs hash_index_less by (simp add: b_def)
  have bk: "bucket_ok ss n bs b (ch b)" using chains_ok_bucket [OF assms(1), of q] by (simp add: b_def)
  obtain ys zs where yz: "ch b = ys @ x # zs" and w: "hash_walk ss (\<lambda>a. CMP_QNAME a q) (-1) (bs ! b)
      = Some (if ys = [] then -1 else int (last ys), int x)"
    using walk_qname_found [OF assms, of "-1"] by (auto simp: b_def)
  have d: "distinct (ys @ x # zs)" using bucket_ok_distinct [OF bk] yz by simp
  have rm: "removeAll x (ch b) = ys @ zs" using d yz by simp
  have chn: "is_chain ss (bs ! b) (ys @ x # zs)" using bk yz by (simp add: bucket_ok_def)
  have xl: "x < length ss" using is_chain_bounds [OF chn] by simp
  have ll: "ys \<noteq> [] \<Longrightarrow> last ys < length ss" using is_chain_bounds [OF chn] by simp
  have lx: "ys \<noteq> [] \<Longrightarrow> last ys \<noteq> x" using d by auto
  define nx where "nx = hashChain (ss ! x)"
  define ss1 where "ss1 = (if ys = [] then ss else ss[last ys := (ss ! last ys)\<lparr>hashChain := nx\<rparr>])"
  define bs' where "bs' = (if ys = [] then bs[b := nx] else bs)"
  define ss' where "ss' = ss1[x := forget_name (ss1 ! x)]"
  have len: "length ss' = length ss" "length bs' = length bs" by (simp_all add: ss'_def ss1_def bs'_def)
  have nth': "ss' ! y = (if y = x then forget_name (ss ! x)
      else if ys \<noteq> [] \<and> y = last ys then (ss ! y)\<lparr>hashChain := nx\<rparr> else ss ! y)" for y
    using xl ll lx by (auto simp: ss'_def ss1_def nth_list_update)
  have unlink: "unlink_slots bs ss q = Some (bs', ss')"
    using w bs by (simp add: unlink_slots_def bs'_def ss'_def ss1_def set_chain_def Let_def nx_def flip: b_def)
  have names: "slot_name ss' y = slot_name ss y" if "y \<in> set (ys @ zs)" for y
  proof -
    have "y \<noteq> x" using that d by auto
    then show ?thesis by (simp add: slot_name_def nth')
  qed
  have chain: "bucket_ok ss' n bs' b (ys @ zs)"
  proof -
    have "is_chain ss' (bs' ! b) (ys @ zs)"
    proof (cases "ys = []")
      case True
      have "is_chain ss' h zs = is_chain ss h zs" for h using d True by (intro is_chain_cong) (auto simp: nth' len)
      then show ?thesis using is_chain_split [OF chn] True b by (simp add: bs'_def nx_def)
    next
      case False
      from is_chain_remove [OF chn d this, of "forget_name (ss ! x)"] lx [OF False]
      show ?thesis using False by (simp add: ss'_def ss1_def bs'_def nx_def)
    qed
    moreover have eq: "map (slot_name ss') (ys @ zs) = map (slot_name ss) (ys @ zs)" by (intro map_cong refl names)
    moreover have "distinct (map (slot_name ss') (ys @ zs))" unfolding eq using bk yz by (simp add: bucket_ok_def)
    moreover have "hashChain (ss' ! y) \<noteq> -1" if y: "y \<in> set (ys @ zs)" for y
    proof -
      have "hashChain (ss ! y) \<noteq> -1" "hashChain (ss ! x) \<noteq> -1" using bk y yz by (auto simp: bucket_ok_def)
      then show ?thesis using d y by (auto simp: nth' nx_def)
    qed
    moreover have "y < n \<and> hash_index bs' (fst (slot_name ss' y)) = b" if y: "y \<in> set (ys @ zs)" for y
      using bk yz names [OF y] y by (auto simp: bucket_ok_def hash_index_cong [OF len(2)])
    ultimately show ?thesis by (simp add: bucket_ok_def)
  qed
  have "chains_ok ss' n bs' (ch(b := ys @ zs))"
    by (rule chains_ok_update [OF assms(1) b len _ chain])
      (use chains_ok_disjoint [OF assms(1) b] yz in \<open>auto simp: nth' bs'_def forget_name_def\<close>)
  then show ?thesis
    using unlink len rm by (intro exI [of _ bs'] exI [of _ ss']) (simp add: nth' forget_name_def flip: b_def)
qed

section \<open>The invariant of property objects\<close>

lemma pot_accessors [simp]:
  "props obj \<noteq> None \<Longrightarrow> pot_slots (set_slots ss obj) = ss"
  "pot_hash (set_slots ss obj) = pot_hash obj"
  "pot_slots (set_hash bs obj) = pot_slots obj"
  "props obj \<noteq> None \<Longrightarrow> pot_hash (set_hash bs obj) = Some bs"
  "numProp (set_slots ss obj) = numProp obj" "numProp (set_hash bs obj) = numProp obj"
  "dynamic (set_slots ss obj) = dynamic obj" "dynamic (set_hash bs obj) = dynamic obj"
  "isType (set_slots ss obj) = isType obj" "isType (set_hash bs obj) = isType obj"
  "(props (set_slots ss obj) = None) = (props obj = None)" "(props (set_hash bs obj) = None) = (props obj = None)"
  "(\<exists>p. props (set_slots ss obj) = Some p) = (\<exists>p. props obj = Some p)"
  "(\<exists>p. props (set_hash bs obj) = Some p) = (\<exists>p. props obj = Some p)"
  "pot_slots (obj\<lparr>numProp := n\<rparr>) = pot_slots obj" "pot_hash (obj\<lparr>numProp := n\<rparr>) = pot_hash obj"
  "pot_slots (obj\<lparr>hasScriptFunctions := h\<rparr>) = pot_slots obj" "pot_hash (obj\<lparr>hasScriptFunctions := h\<rparr>) = pot_hash obj"
  "pot_slots (obj\<lparr>separateHash := h\<rparr>) = pot_slots obj" "pot_hash (obj\<lparr>separateHash := h\<rparr>) = pot_hash obj"
  by (cases "props obj"; auto simp: pot_slots_def pot_hash_def set_slots_def set_hash_def)+

text \<open>Slots up to their links.\<close>

definition unlinked :: "slot list \<Rightarrow> slot list" where
  "unlinked ss = map (\<lambda>sp. sp\<lparr>hashChain := -1\<rparr>) ss"

lemma unlinked_length: "unlinked ss' = unlinked ss \<Longrightarrow> length ss' = length ss"
  unfolding unlinked_def by (rule map_eq_imp_length_eq)

lemma unlinked_nth: "unlinked ss' = unlinked ss \<Longrightarrow> x < length ss \<Longrightarrow> (ss' ! x)\<lparr>hashChain := -1\<rparr> = (ss ! x)\<lparr>hashChain := -1\<rparr>"
  unfolding unlinked_def by (metis (no_types, lifting) length_map nth_map)

lemma unlinked_name:
  assumes "unlinked ss' = unlinked ss" "x < length ss"
  shows "slot_name ss' x = slot_name ss x"
  using arg_cong [OF unlinked_nth [OF assms], of slot_qname] by (simp add: slot_name_def)

lemma unlinkedI:
  assumes "length ss' = length ss" "\<And>x. ss' ! x = (ss ! x)\<lparr>hashChain := hashChain (ss' ! x)\<rparr>"
  shows "unlinked ss' = unlinked ss"
proof (rule nth_equalityI)
  show "unlinked ss' ! i = unlinked ss ! i" if "i < length (unlinked ss')" for i
  proof -
    obtain c where "ss' ! i = (ss ! i)\<lparr>hashChain := c\<rparr>" using assms(2) [of i] by blast
    with that assms(1) show ?thesis by (simp add: unlinked_def)
  qed
qed (simp add: assms(1) unlinked_def)

text \<open>Only the empty name may be shared by several slots: it is the name of free and deleted slots.\<close>

definition names_distinct :: "slot list \<Rightarrow> nat \<Rightarrow> bool" where
  "names_distinct ss n \<longleftrightarrow> (\<forall>x < n. \<forall>y < n. slot_name ss x = slot_name ss y \<longrightarrow> slot_name ss x \<noteq> empty_qname \<longrightarrow> x = y)"

definition indexed :: "slot list \<Rightarrow> nat \<Rightarrow> int list \<Rightarrow> (nat \<Rightarrow> nat list) \<Rightarrow> bool" where
  "indexed ss n bs ch \<longleftrightarrow> chains_ok ss n bs ch
     \<and> (\<forall>x < n. slot_name ss x \<noteq> empty_qname \<longrightarrow> x \<in> set (chain_of bs ch (slot_name ss x)))"

definition pot_ok :: "pot \<Rightarrow> bool" where
  "pot_ok obj \<longleftrightarrow> 0 \<le> numProp obj \<and> numProp obj \<le> int (length (pot_slots obj))
     \<and> names_distinct (pot_slots obj) (nat (numProp obj))
     \<and> (\<forall>x < length (pot_slots obj). nat (numProp obj) \<le> x \<longrightarrow> slot_name (pot_slots obj) x = empty_qname)
     \<and> (case pot_hash obj of
          None \<Rightarrow> \<forall>x < length (pot_slots obj). hashChain (pot_slots obj ! x) = -1
        | Some bs \<Rightarrow> \<exists>ch. indexed (pot_slots obj) (nat (numProp obj)) bs ch)"

lemma names_distinct_cong:
  assumes "unlinked ss' = unlinked ss" "n \<le> length ss"
  shows "names_distinct ss' n = names_distinct ss n"
proof -
  have "slot_name ss' x = slot_name ss x" if "x < n" for x using unlinked_name [OF assms(1)] assms(2) that by simp
  then show ?thesis unfolding names_distinct_def by (simp cong: imp_cong)
qed

lemma names_distinctD:
  "names_distinct ss n \<Longrightarrow> x < n \<Longrightarrow> y < n \<Longrightarrow> slot_name ss x = slot_name ss y \<Longrightarrow> x \<noteq> y \<Longrightarrow> slot_name ss y = empty_qname"
  unfolding names_distinct_def by metis

text \<open>Indexing the slots one after the other, from slot \<open>i\<close> on.\<close>

lemma rehash_slots_ok:
  assumes "props obj \<noteq> None" "pot_hash obj = Some bs" "int n = numProp obj" "n \<le> length bs"
    and "chains_ok (pot_slots obj) n bs ch" "names_distinct (pot_slots obj) n" "i \<le> n"
    and "\<forall>b < length bs. \<forall>x \<in> set (ch b). x < i"
    and "\<forall>x < i. slot_name (pot_slots obj) x \<noteq> empty_qname \<longrightarrow> x \<in> set (chain_of bs ch (slot_name (pot_slots obj) x))"
  shows "\<exists>bs' ss' ch'. rehash_slots (hashProperty_with f) [i..<n] obj = Some (0, set_hash bs' (set_slots ss' obj))
     \<and> length bs' = length bs \<and> unlinked ss' = unlinked (pot_slots obj) \<and> indexed ss' n bs' ch'"
  using assms
proof (induction "n - i" arbitrary: i obj bs ch)
  case 0
  then have "obj = set_hash bs (set_slots (pot_slots obj) obj)"
    by (cases "props obj") (auto simp: set_hash_def set_slots_def pot_slots_def pot_hash_def)
  with 0 show ?case by (auto simp: indexed_def)
next
  case (Suc d)
  let ?ss = "pot_slots obj"
  define q where "q = slot_name ?ss i"
  from Suc.hyps(2) have i: "i < n" "d = n - Suc i" by auto
  from Suc.prems(5) have nl: "n \<le> length ?ss" "bs \<noteq> []" by (simp_all add: chains_ok_def)
  have upt: "[i..<n] = i # [Suc i..<n]" using i by (simp add: upt_conv_Cons)
  have hp: "hashProperty_with f obj (int i) q = map_option (Pair 0) (link_property bs obj (int i) q)"
    using Suc.prems(2-4) by (simp add: hashProperty_with_def)
  have hi: "hashChain (?ss ! i) = -1" proof -
    have "i \<notin> set (ch b)" if "b < length bs" for b using Suc.prems(8) that by blast
    then show ?thesis using Suc.prems(5) i nl by (simp add: chains_ok_def)
  qed
  show ?case
  proof (cases "\<exists>x \<in> set (chain_of bs ch q). slot_name ?ss x = q")
    case True
    then obtain x where x: "x \<in> set (chain_of bs ch q)" "slot_name ?ss x = q" by blast
    have "x < i" using x(1) Suc.prems(8) nl hash_index_less by blast
    then have qe: "q = empty_qname" using names_distinctD [OF Suc.prems(6), of x i] x(2) i by (simp add: q_def)
    have "link_slots bs ?ss (int i) q = Some (bs, ?ss)"
      using walk_qname_found [OF Suc.prems(5) x, of "-1"] nl by (auto simp: link_slots_def Let_def)
    then have l: "link_property bs obj (int i) q = Some obj"
      using Suc.prems(1,2) by (cases "props obj") (auto simp: link_property_def set_hash_def set_slots_def pot_slots_def pot_hash_def)
    have "\<exists>bs' ss' ch'. rehash_slots (hashProperty_with f) [Suc i..<n] obj = Some (0, set_hash bs' (set_slots ss' obj))
       \<and> length bs' = length bs \<and> unlinked ss' = unlinked ?ss \<and> indexed ss' n bs' ch'"
      by (rule Suc.hyps(1) [OF i(2)]) (use Suc.prems i qe in \<open>auto simp: q_def less_Suc_eq\<close>)
    with hp l i nl show ?thesis by (simp add: upt q_def [symmetric] slot_name_def [symmetric])
  next
    case False
    then obtain bs1 ss1 where l: "link_slots bs ?ss (int i) q = Some (bs1, ss1)" "length bs1 = length bs"
      "length ss1 = length ?ss" "\<forall>x. ss1 ! x = (?ss ! x)\<lparr>hashChain := hashChain (ss1 ! x)\<rparr>"
      "chains_ok ss1 n bs1 (ch(hash_index bs (fst q) := chain_of bs ch q @ [i]))"
      using link_slots_missing [OF Suc.prems(5) i(1), of q] hi by (auto simp: q_def)
    let ?obj = "set_hash bs1 (set_slots ss1 obj)"
    let ?ch = "ch(hash_index bs (fst q) := chain_of bs ch q @ [i])"
    have u: "unlinked ss1 = unlinked ?ss" using l(3,4) by (intro unlinkedI) auto
    have nm: "slot_name ss1 x = slot_name ?ss x" if "x < n" for x using unlinked_name [OF u] that nl by simp
    have "\<exists>bs' ss' ch'. rehash_slots (hashProperty_with f) [Suc i..<n] ?obj = Some (0, set_hash bs' (set_slots ss' ?obj))
       \<and> length bs' = length bs1 \<and> unlinked ss' = unlinked (pot_slots ?obj) \<and> indexed ss' n bs' ch'"
    proof (rule Suc.hyps(1) [OF i(2)])
      show "props ?obj \<noteq> None" "pot_hash ?obj = Some bs1" "int n = numProp ?obj" "n \<le> length bs1" "Suc i \<le> n"
        using Suc.prems(1,3,4) l(2) i by simp_all
      show "chains_ok (pot_slots ?obj) n bs1 ?ch" "names_distinct (pot_slots ?obj) n"
        using l(5) Suc.prems(1,6) names_distinct_cong [OF u nl(1)] by simp_all
      show "\<forall>b < length bs1. \<forall>x \<in> set (?ch b). x < Suc i"
        using Suc.prems(8) l(2) hash_index_less [OF nl(2)] by (auto simp: less_Suc_eq)
      show "\<forall>x < Suc i. slot_name (pot_slots ?obj) x \<noteq> empty_qname
          \<longrightarrow> x \<in> set (chain_of bs1 ?ch (slot_name (pot_slots ?obj) x))"
        using Suc.prems(1,9) i nm by (auto simp: less_Suc_eq hash_index_cong [OF l(2)] q_def)
    qed
    moreover have "set_hash bs' (set_slots ss' ?obj) = set_hash bs' (set_slots ss' obj)" for bs' ss'
      by (cases "props obj") (simp_all add: set_hash_def set_slots_def)
    ultimately show ?thesis
      using hp l(1,2) i nl u Suc.prems(1)
      by (simp add: upt link_property_def q_def [symmetric] slot_name_def [symmetric])
  qed
qed

definition MAX_HASH :: int where
  "MAX_HASH = 196613"

lemma MAX_HASH_bounds: "0 < MAX_HASH" "EJS_HASH_MIN_PROP < MAX_HASH"
  by (simp_all add: MAX_HASH_def EJS_HASH_MIN_PROP_def)

lemma hash_size_ge: "n \<le> MAX_HASH \<Longrightarrow> n \<le> ejsGetHashSize n \<and> 0 < ejsGetHashSize n"
  by (simp add: MAX_HASH_def ejsGetHashSize_def hashSizes_def)

lemma hash_size_max: "MAX_HASH < n \<Longrightarrow> ejsGetHashSize n = MAX_HASH"
  by (simp add: MAX_HASH_def ejsGetHashSize_def hashSizes_def)

lemma clear_chains_unlinked: "unlinked (clear_chains n ss) = unlinked ss"
proof -
  have "unlinked (clear_chains n ss) = unlinked (take (nat n) ss) @ unlinked (drop (nat n) ss)"
    by (simp add: clear_chains_def unlinked_def)
  also have "\<dots> = unlinked ss" by (simp add: unlinked_def flip: map_append)
  finally show ?thesis .
qed

lemma clear_chains_nth:
  "x < length ss \<Longrightarrow> hashChain (clear_chains n ss ! x) = (if x < nat n then -1 else hashChain (ss ! x))"
  by (auto simp: clear_chains_def nth_append min_def)

text \<open>What indexing needs of an object: names that differ, and no stale links.\<close>

definition can_index :: "pot \<Rightarrow> bool" where
  "can_index obj \<longleftrightarrow> props obj \<noteq> None \<and> 0 \<le> numProp obj \<and> numProp obj \<le> int (length (pot_slots obj)) \<and> numProp obj \<le> MAX_HASH
     \<and> names_distinct (pot_slots obj) (nat (numProp obj))
     \<and> (\<forall>x < length (pot_slots obj). nat (numProp obj) \<le> x \<longrightarrow> slot_name (pot_slots obj) x = empty_qname)
     \<and> (\<forall>x < length (pot_slots obj). pot_hash obj = None \<or> nat (numProp obj) \<le> x \<longrightarrow> hashChain (pot_slots obj ! x) = -1)"

lemma reset_hash_props:
  assumes "can_index obj"
  obtains bs ss h where "reset_hash obj = (set_hash bs (set_slots ss obj))\<lparr>separateHash := h\<rparr>"
    "unlinked ss = unlinked (pot_slots obj)" "chains_ok ss (nat (numProp obj)) bs (\<lambda>_. [])" "numProp obj \<le> int (length bs)"
proof -
  let ?n = "ejsGetHashSize (numProp obj)"
  define ss where "ss = (case pot_hash obj of None \<Rightarrow> pot_slots obj | Some _ \<Rightarrow> clear_chains (numProp obj) (pot_slots obj))"
  define m where "m = (case pot_hash obj of None \<Rightarrow> nat ?n | Some bs \<Rightarrow> if int (length bs) < ?n then nat ?n else length bs)"
  have m: "numProp obj \<le> int m" "0 < m"
    using assms hash_size_ge [of "numProp obj"] by (auto simp: can_index_def m_def split: option.splits)
  have u: "unlinked ss = unlinked (pot_slots obj)" by (simp add: ss_def clear_chains_unlinked split: option.split)
  have "hashChain (ss ! x) = -1" if "x < length ss" for x
    using that assms unlinked_length [OF u]
    by (auto simp: ss_def can_index_def clear_chains_nth split: option.splits)
  then have "chains_ok ss (nat (numProp obj)) (replicate m (-1)) (\<lambda>_. [])"
    using m(2) assms unlinked_length [OF u] by (auto simp: chains_ok_def bucket_ok_def can_index_def)
  with m(1) u show thesis by (intro that [of _ "replicate m (-1)" ss]) (auto simp: reset_hash_def Let_def ss_def m_def)
qed

lemma index_properties_ok:
  assumes "can_index obj" "heap ejs = (\<lambda>_. True)"
  shows "\<exists>obj'. index_properties (Suc d) ejs obj = Some (0, obj') \<and> pot_ok obj' \<and> numProp obj' = numProp obj
     \<and> unlinked (pot_slots obj') = unlinked (pot_slots obj) \<and> dynamic obj' = dynamic obj \<and> props obj' \<noteq> None
     \<and> (pot_hash obj' = None \<longrightarrow> numProp obj \<le> EJS_HASH_MIN_PROP)"
proof (cases "numProp obj \<le> EJS_HASH_MIN_PROP \<and> pot_hash obj = None")
  case True
  with assms(1) have "pot_ok obj" by (simp add: can_index_def pot_ok_def)
  with True assms(1) show ?thesis by (simp add: can_index_def)
next
  case False
  from assms(1) obtain bs ss h where r: "reset_hash obj = (set_hash bs (set_slots ss obj))\<lparr>separateHash := h\<rparr>"
    "unlinked ss = unlinked (pot_slots obj)" "chains_ok ss (nat (numProp obj)) bs (\<lambda>_. [])" "numProp obj \<le> int (length bs)"
    by (rule reset_hash_props)
  let ?n = "nat (numProp obj)"
  from assms(1) have c: "props obj \<noteq> None" "0 \<le> numProp obj" "?n \<le> length (pot_slots obj)" "names_distinct (pot_slots obj) ?n"
    by (auto simp: can_index_def)
  have p: "props (reset_hash obj) \<noteq> None" "pot_slots (reset_hash obj) = ss" "pot_hash (reset_hash obj) = Some bs"
    "numProp (reset_hash obj) = numProp obj" "dynamic (reset_hash obj) = dynamic obj"
    using c(1) by (simp_all add: r(1))
  have "\<exists>bs' ss' ch'. rehash_slots (hashProperty_with (index_properties d ejs)) [0..<?n] (reset_hash obj)
        = Some (0, set_hash bs' (set_slots ss' (reset_hash obj)))
     \<and> length bs' = length bs \<and> unlinked ss' = unlinked (pot_slots (reset_hash obj)) \<and> indexed ss' ?n bs' ch'"
    by (rule rehash_slots_ok [where ch = "\<lambda>_. []"]) (use p c r names_distinct_cong [OF r(2) c(3)] in simp_all)
  then obtain bs' ss' ch' where x: "rehash_slots (hashProperty_with (index_properties d ejs)) [0..<?n] (reset_hash obj)
        = Some (0, set_hash bs' (set_slots ss' (reset_hash obj)))"
     "unlinked ss' = unlinked (pot_slots obj)" "indexed ss' ?n bs' ch'" using p(2) r(2) by auto
  let ?obj = "set_hash bs' (set_slots ss' (reset_hash obj))"
  have "pot_ok ?obj"
    unfolding pot_ok_def
    using assms(1) x(3) p names_distinct_cong [OF x(2) c(3)] unlinked_length [OF x(2)] unlinked_name [OF x(2)]
    by (auto simp: can_index_def)
  with x(1,2) p False assms(2) c(1) show ?thesis by auto
qed

text \<open>Beyond the largest hash size the two routines call each other for ever.\<close>

lemma index_properties_diverges:
  assumes "MAX_HASH < numProp obj" "props obj \<noteq> None" "heap ejs = (\<lambda>_. True)" "\<forall>bs. pot_hash obj = Some bs \<longrightarrow> int (length bs) \<le> MAX_HASH"
  shows "index_properties d ejs obj = None"
  using assms
proof (induction d arbitrary: obj)
  case (Suc d)
  define obj1 where "obj1 = reset_hash obj"
  have p: "props obj1 \<noteq> None" "numProp obj1 = numProp obj" and h: "\<exists>bs. pot_hash obj1 = Some bs \<and> int (length bs) = MAX_HASH"
    using Suc.prems hash_size_max [OF Suc.prems(1)]
    using MAX_HASH_bounds(1) by (auto simp: obj1_def reset_hash_def Let_def split: option.splits)
  then obtain bs where bs: "pot_hash obj1 = Some bs" "int (length bs) = MAX_HASH" by blast
  have "index_properties d ejs obj1 = None"
    using Suc.IH [of obj1] Suc.prems(1,3) p bs by simp
  then have "hashProperty_with (index_properties d ejs) obj1 s q = None" for s q
    using bs p Suc.prems(1) by (simp add: hashProperty_with_def)
  moreover have "[0..<nat (numProp obj)] = 0 # [1..<nat (numProp obj)]"
    using Suc.prems(1) MAX_HASH_bounds(1) by (simp add: upt_conv_Cons)
  ultimately have "rehash_slots (hashProperty_with (index_properties d ejs)) [0..<nat (numProp obj)] obj1 = None"
    by simp
  with Suc.prems MAX_HASH_bounds(2) show ?case by (auto simp: obj1_def)
qed simp

section \<open>Looking up\<close>

text \<open>The reference: the first of the used slots that has the name.\<close>

definition property_slot :: "pot \<Rightarrow> qname \<Rightarrow> int" where
  "property_slot obj q = find_slot (\<lambda>a. CMP_QNAME a q) (take (nat (numProp obj)) (pot_slots obj)) 0"

text \<open>The reference for a name without namespace: the only slot that has it.\<close>

definition named_slots :: "pot \<Rightarrow> string \<Rightarrow> nat list" where
  "named_slots obj name = filter (\<lambda>x. fst (slot_name (pot_slots obj) x) = name) [0..<nat (numProp obj)]"

fun only_slot :: "nat list \<Rightarrow> int" where
  "only_slot [x] = int x"
| "only_slot _ = -1"

lemma find_slot_none: "(\<And>x. x < length ss \<Longrightarrow> \<not> P (slot_name ss x)) \<Longrightarrow> find_slot P ss i = -1"
proof (induction ss arbitrary: i)
  case (Cons a ss)
  from Cons.prems [of 0] Cons.prems [of "Suc x" for x] Cons.IH show ?case by (simp add: slot_name_def)
qed simp

lemma find_slot_first:
  "k < length ss \<Longrightarrow> P (slot_name ss k) \<Longrightarrow> (\<And>x. x < k \<Longrightarrow> \<not> P (slot_name ss x)) \<Longrightarrow> find_slot P ss i = int (i + k)"
proof (induction ss arbitrary: i k)
  case (Cons a ss)
  show ?case
  proof (cases k)
    case 0
    with Cons.prems(2) show ?thesis by (simp add: slot_name_def)
  next
    case (Suc j)
    with Cons.prems Cons.prems(3) [of 0] Cons.prems(3) [of "Suc x" for x] Cons.IH [of j "Suc i"]
    show ?thesis by (simp add: slot_name_def)
  qed
qed simp

lemma find_slot_cases:
  obtains (none) "find_slot P ss i = -1" "\<And>x. x < length ss \<Longrightarrow> \<not> P (slot_name ss x)"
  | (some) k where "find_slot P ss i = int (i + k)" "k < length ss" "P (slot_name ss k)" "\<And>x. x < k \<Longrightarrow> \<not> P (slot_name ss x)"
proof (cases "\<exists>k < length ss. P (slot_name ss k)")
  case True
  define k where "k = (LEAST k. k < length ss \<and> P (slot_name ss k))"
  have "k < length ss \<and> P (slot_name ss k)" unfolding k_def by (rule LeastI_ex) (use True in blast)
  moreover have "\<not> P (slot_name ss x)" if "x < k" for x
    using that not_less_Least [of x "\<lambda>k. k < length ss \<and> P (slot_name ss k)"] calculation by (auto simp: k_def)
  ultimately show thesis using some find_slot_first by blast
qed (use none find_slot_none in blast)

lemma slot_name_take [simp]: "x < n \<Longrightarrow> slot_name (take n ss) x = slot_name ss x"
  by (simp add: slot_name_def)

lemma property_slot_unique:
  assumes "names_distinct (pot_slots obj) (nat (numProp obj))" "k < nat (numProp obj)" "k < length (pot_slots obj)"
    "slot_name (pot_slots obj) k = q" "q \<noteq> empty_qname"
  shows "property_slot obj q = int k"
  unfolding property_slot_def
proof (subst find_slot_first)
  show "\<not> CMP_QNAME (slot_name (take (nat (numProp obj)) (pot_slots obj)) x) q" if "x < k" for x
    using names_distinctD [OF assms(1), of x k] assms that by (auto simp: CMP_QNAME_eq)
qed (use assms in \<open>simp_all add: CMP_QNAME_eq\<close>)

lemma property_slot_absent:
  "nat (numProp obj) \<le> length (pot_slots obj) \<Longrightarrow> property_slot obj q = -1 \<longleftrightarrow> (\<forall>x < nat (numProp obj). slot_name (pot_slots obj) x \<noteq> q)"
  unfolding property_slot_def
  by (rule find_slot_cases [of "\<lambda>a. CMP_QNAME a q" "take (nat (numProp obj)) (pot_slots obj)" 0]) (auto simp: CMP_QNAME_eq)

lemma property_slot_present:
  assumes "0 \<le> property_slot obj q" "nat (numProp obj) \<le> length (pot_slots obj)"
  obtains k where "property_slot obj q = int k" "k < nat (numProp obj)" "slot_name (pot_slots obj) k = q"
  using assms unfolding property_slot_def
  by (cases rule: find_slot_cases [of "\<lambda>a. CMP_QNAME a q" "take (nat (numProp obj)) (pot_slots obj)" 0]) (auto simp: CMP_QNAME_eq)

lemma pot_okD:
  assumes "pot_ok obj"
  shows "0 \<le> numProp obj" "numProp obj \<le> int (length (pot_slots obj))" "nat (numProp obj) \<le> length (pot_slots obj)"
    "names_distinct (pot_slots obj) (nat (numProp obj))"
    "\<And>x. x < length (pot_slots obj) \<Longrightarrow> nat (numProp obj) \<le> x \<Longrightarrow> slot_name (pot_slots obj) x = empty_qname"
    "\<And>x. pot_hash obj = None \<Longrightarrow> x < length (pot_slots obj) \<Longrightarrow> hashChain (pot_slots obj ! x) = -1"
    "\<And>bs. pot_hash obj = Some bs \<Longrightarrow> \<exists>ch. indexed (pot_slots obj) (nat (numProp obj)) bs ch"
  using assms by (auto simp: pot_ok_def)

text \<open>The hashed lookup of a full name is the linear search.\<close>

lemma lookup_qualified:
  assumes "pot_ok obj" "q \<noteq> empty_qname"
  shows "ejsLookupPotProperty obj (fst q) (Some (snd q)) = Some (property_slot obj q)"
proof -
  note ok = pot_okD [OF assms(1)]
  let ?ss = "pot_slots obj" and ?n = "nat (numProp obj)"
  consider "props obj = None \<or> numProp obj = 0" | "props obj \<noteq> None" "numProp obj \<noteq> 0" "pot_hash obj = None"
    | bs where "props obj \<noteq> None" "numProp obj \<noteq> 0" "pot_hash obj = Some bs" by fastforce
  then show ?thesis
  proof cases
    case 1
    then have "?n = 0" using ok(1,2) by (auto simp: pot_slots_def)
    with 1 show ?thesis by (auto simp: ejsLookupPotProperty_def property_slot_def)
  next
    case 2
    with ok(2) show ?thesis by (auto simp: ejsLookupPotProperty_def property_slot_def Let_def)
  next
    case 3
    obtain ch where i: "indexed ?ss ?n bs ch" using ok(7) [OF 3(3)] by blast
    then have c: "chains_ok ?ss ?n bs ch" "bs \<noteq> []" by (simp_all add: indexed_def chains_ok_def)
    have l: "ejsLookupPotProperty obj (fst q) (Some (snd q))
        = map_option snd (hash_walk ?ss (\<lambda>a. CMP_QNAME a q) (-1) (bs ! hash_index bs (fst q)))"
      using 3 ok(2) c(2) by (auto simp: ejsLookupPotProperty_def Let_def)
    show ?thesis
    proof (cases "\<exists>x < ?n. slot_name ?ss x = q")
      case True
      then obtain x where x: "x < ?n" "slot_name ?ss x = q" by blast
      with i assms(2) have "x \<in> set (chain_of bs ch q)" by (auto simp: indexed_def)
      from walk_qname_found [OF c(1) this x(2), of "-1"] l property_slot_unique [OF ok(4) x(1) _ x(2) assms(2)] x ok(3)
      show ?thesis by auto
    next
      case False
      have "slot_name ?ss x \<noteq> q" if "x \<in> set (chain_of bs ch q)" for x
        using False that chains_ok_bucket [OF c(1), of q] by (auto simp: bucket_ok_def)
      from walk_qname_missing [OF c(1) this, of "-1"] l property_slot_absent [OF ok(3), of q] False
      show ?thesis by simp
    qed
  qed
qed

text \<open>A name without namespace: along a chain, and over the slots in order.\<close>

lemma only_slot_cong: "distinct xs \<Longrightarrow> distinct ys \<Longrightarrow> set xs = set ys \<Longrightarrow> only_slot xs = only_slot ys"
proof -
  assume d: "distinct xs" "distinct ys" "set xs = set ys"
  then have "length xs = length ys" by (metis distinct_card)
  with d show ?thesis
    by (cases xs; cases "tl xs"; cases ys; cases "tl ys") auto
qed

lemma walk_only:
  assumes "is_chain ss s xs"
  shows "Option.bind (hash_walk ss P prev s) (\<lambda>(_, x). if x < 0 then Some (-1)
       else map_option (\<lambda>(_, other). if other < 0 then x else -1) (hash_walk ss P (-1) (hashChain (ss ! nat x))))
     = Some (only_slot (filter (\<lambda>x. P (slot_name ss x)) xs))"
  using assms
proof (induction xs arbitrary: s prev)
  case Nil
  then show ?case by (simp add: hash_walk_chain [of ss s "[]"])
next
  case (Cons x xs)
  then have c: "s = int x" "x < length ss" "is_chain ss (hashChain (ss ! x)) xs" by simp_all
  have w: "hash_walk ss P prev s = (if P (slot_name ss x) then Some (prev, int x) else hash_walk ss P (int x) (hashChain (ss ! x)))"
    using c by (subst hash_walk.simps) (simp add: slot_name_def)
  show ?case
  proof (cases "P (slot_name ss x)")
    case True
    have "snd (walk_list P ss (-1) xs) < 0 \<longleftrightarrow> filter (\<lambda>x. P (slot_name ss x)) xs = []" for prev
      by (rule walk_list.induct [of "\<lambda>P ss prev xs. snd (walk_list P ss prev xs) < 0 \<longleftrightarrow> filter (\<lambda>x. P (slot_name ss x)) xs = []"])
        (auto simp: slot_name_def)
    with True w hash_walk_chain [OF c(3), of P "-1"] show ?thesis
      by (cases "filter (\<lambda>x. P (slot_name ss x)) xs") (auto split: prod.split)
  next
    case False
    with w Cons.IH [OF c(3)] show ?thesis by simp
  qed
qed

lemma find_only:
  assumes "find_slot P ss i = int (i + k)" "k < length ss"  "P (slot_name ss k)" "\<And>x. x < k \<Longrightarrow> \<not> P (slot_name ss x)"
  shows "find_slot P (drop (Suc k) ss) 0 < 0 \<longleftrightarrow> filter (\<lambda>x. P (slot_name ss x)) [0..<length ss] = [k]"
proof -
  have split: "[0..<length ss] = [0..<k] @ k # [Suc k..<length ss]"
    using assms(2) upt_add_eq_append [of 0 k "length ss - k"] by (simp add: upt_conv_Cons)
  have "filter (\<lambda>x. P (slot_name ss x)) [0..<k] = []" using assms(4) by auto
  then have "filter (\<lambda>x. P (slot_name ss x)) [0..<length ss] = [k]
      \<longleftrightarrow> (\<forall>x. Suc k \<le> x \<and> x < length ss \<longrightarrow> \<not> P (slot_name ss x))"
    using assms(3) by (auto simp: split filter_empty_conv)
  also have "\<dots> \<longleftrightarrow> (\<forall>x < length (drop (Suc k) ss). \<not> P (slot_name (drop (Suc k) ss) x))"
  proof -
    have n: "slot_name (drop (Suc k) ss) x = slot_name ss (Suc k + x)" if "Suc k + x < length ss" for x
      using that by (simp add: slot_name_def)
    show ?thesis
    proof (intro iffI allI impI)
      fix x assume "\<forall>x. Suc k \<le> x \<and> x < length ss \<longrightarrow> \<not> P (slot_name ss x)" "x < length (drop (Suc k) ss)"
      then show "\<not> P (slot_name (drop (Suc k) ss) x)" using n [of x] by simp
    next
      fix x assume "\<forall>x < length (drop (Suc k) ss). \<not> P (slot_name (drop (Suc k) ss) x)" "Suc k \<le> x \<and> x < length ss"
      then show "\<not> P (slot_name ss x)" using n [of "x - Suc k"] by (auto dest!: spec [of _ "x - Suc k"])
    qed
  qed
  also have "\<dots> \<longleftrightarrow> find_slot P (drop (Suc k) ss) 0 < 0"
    by (rule find_slot_cases [of P "drop (Suc k) ss" 0]) auto
  finally show ?thesis by simp
qed

lemma lookup_unqualified:
  assumes "pot_ok obj" "name \<noteq> []"
  shows "ejsLookupPotProperty obj name None = Some (only_slot (named_slots obj name))"
proof -
  note ok = pot_okD [OF assms(1)]
  let ?ss = "pot_slots obj" and ?n = "nat (numProp obj)" and ?P = "\<lambda>q. CMP_NAME q (name, [])"
  have fl: "filter (\<lambda>x. ?P (slot_name (take ?n ?ss) x)) [0..<length (take ?n ?ss)] = named_slots obj name"
    using ok(3) by (auto simp: named_slots_def CMP_NAME_def min_def intro!: filter_cong)
  consider "props obj = None \<or> numProp obj = 0" | "props obj \<noteq> None" "numProp obj \<noteq> 0" "pot_hash obj = None"
    | bs where "props obj \<noteq> None" "numProp obj \<noteq> 0" "pot_hash obj = Some bs" by fastforce
  then show ?thesis
  proof cases
    case 1
    then have "?n = 0" using ok(1,2) by (auto simp: pot_slots_def)
    with 1 show ?thesis by (auto simp: ejsLookupPotProperty_def named_slots_def)
  next
    case 2
    let ?f = "\<lambda>ss. find_slot ?P ss 0"
    have l: "ejsLookupPotProperty obj name None = Some (if ?f (take ?n ?ss) < 0 then -1
        else if ?f (drop (Suc (nat (?f (take ?n ?ss)))) (take ?n ?ss)) < 0 then ?f (take ?n ?ss) else -1)"
      using 2 ok(2) by (auto simp: ejsLookupPotProperty_def Let_def)
    show ?thesis
    proof (cases rule: find_slot_cases [of ?P "take ?n ?ss" 0])
      case none
      then have "named_slots obj name = []" unfolding fl [symmetric] by (auto simp: filter_empty_conv)
      with none(1) l show ?thesis by simp
    next
      case (some k)
      have "find_slot ?P (take ?n ?ss) 0 = int (0 + k)" using some(1) by simp
      note fo = find_only [OF this some(2-4), unfolded fl]
      have "k \<in> set (named_slots obj name)" unfolding fl [symmetric] using some(2,3) by simp
      then have "only_slot (named_slots obj name) = (if named_slots obj name = [k] then int k else -1)"
        by (cases "named_slots obj name" rule: only_slot.cases) auto
      with l some(1) fo show ?thesis by simp
    qed
  next
    case 3
    obtain ch where i: "indexed ?ss ?n bs ch" using ok(7) [OF 3(3)] by blast
    then have c: "chains_ok ?ss ?n bs ch" "bs \<noteq> []" by (simp_all add: indexed_def chains_ok_def)
    define xs where "xs = ch (hash_index bs name)"
    have b: "bucket_ok ?ss ?n bs (hash_index bs name) xs" using chains_ok_bucket [OF c(1), of "(name, [])"] by (simp add: xs_def)
    then have ic: "is_chain ?ss (bs ! hash_index bs name) xs" by (simp add: bucket_ok_def)
    have "ejsLookupPotProperty obj name None = Some (only_slot (filter (\<lambda>x. ?P (slot_name ?ss x)) xs))"
      using 3 ok(2) c(2) walk_only [OF ic, of ?P "-1"] by (auto simp: ejsLookupPotProperty_def Let_def)
    moreover have "only_slot (filter (\<lambda>x. ?P (slot_name ?ss x)) xs) = only_slot (named_slots obj name)"
    proof (rule only_slot_cong)
      show "distinct (filter (\<lambda>x. ?P (slot_name ?ss x)) xs)" using bucket_ok_distinct [OF b] by simp
      have "x \<in> set xs" if "x < ?n" "fst (slot_name ?ss x) = name" for x
        using i that assms(2) by (force simp: indexed_def empty_qname_def xs_def)
      then show "set (filter (\<lambda>x. ?P (slot_name ?ss x)) xs) = set (named_slots obj name)"
        using b by (auto simp: named_slots_def CMP_NAME_def bucket_ok_def)
    qed (simp add: named_slots_def)
    ultimately show ?thesis by simp
  qed
qed

section \<open>The operations keep the invariant\<close>

text \<open>The properties of an object, by name.\<close>

definition pot_view :: "pot \<Rightarrow> qname \<Rightarrow> ejs_value option" where
  "pot_view obj q =
     (if q = empty_qname \<or> property_slot obj q < 0 then None
      else Some (slot_value (pot_slots obj ! nat (property_slot obj q))))"

lemma grow_count_ge: "slotCount \<le> grow_count oldSize slotCount"
proof -
  have r: "x \<le> EJS_PROP_ROUNDUP x" for x by (simp add: EJS_PROP_ROUNDUP_def EJS_ROUND_PROP_def)
  define f where "f = max (oldSize div 4) EJS_ROUND_PROP"
  have "0 < f" by (simp add: f_def EJS_ROUND_PROP_def)
  then have "slotCount \<le> (slotCount + f) div f * f"
    by (simp add: minus_mod_eq_div_mult [symmetric] less_imp_le)
  also have "\<dots> \<le> EJS_PROP_ROUNDUP ((slotCount + f) div f * f)" by (rule r)
  finally show ?thesis using r [of slotCount] by (simp add: grow_count_def Let_def flip: f_def)
qed

text \<open>Growing adds cleared slots at the end.\<close>

lemma growSlots_ok:
  assumes "heap ejs = (\<lambda>_. True)" "growSlots ejs obj n = (rc, obj')"
  shows "rc = 0" "numProp obj' = numProp obj" "dynamic obj' = dynamic obj" "pot_hash obj' = pot_hash obj"
    "\<exists>k. pot_slots obj' = pot_slots obj @ replicate k zero_slot" "n \<le> int (length (pot_slots obj'))"
    "0 < n \<Longrightarrow> props obj' \<noteq> None"
proof -
  have g: "n \<le> grow_count (int (length (pot_slots obj))) n" by (rule grow_count_ge)
  show "rc = 0" "numProp obj' = numProp obj" "dynamic obj' = dynamic obj" "pot_hash obj' = pot_hash obj"
    "\<exists>k. pot_slots obj' = pot_slots obj @ replicate k zero_slot" "n \<le> int (length (pot_slots obj'))"
    "0 < n \<Longrightarrow> props obj' \<noteq> None"
    using assms g
    by (auto simp: growSlots_def Let_def pot_slots_def pot_hash_def split: if_splits option.splits intro: exI [of _ 0])
qed

lemma slot_name_append: "x < length ss \<Longrightarrow> slot_name (ss @ ts) x = slot_name ss x"
  by (simp add: slot_name_def nth_append)

lemma zero_slot_nth: "length ss \<le> x \<Longrightarrow> x < length ss + k \<Longrightarrow> (ss @ replicate k zero_slot) ! x = zero_slot"
  by (simp add: nth_append)

lemma zero_slot_fields [simp]: "slot_qname zero_slot = empty_qname" "hashChain zero_slot = -1"
  by (simp_all add: zero_slot_def)

lemma chains_ok_append:
  assumes "chains_ok ss n bs ch" "n \<le> m" "m \<le> length ss + k"
  shows "chains_ok (ss @ replicate k zero_slot) m bs ch"
proof -
  let ?ss = "ss @ replicate k zero_slot"
  have s: "?ss ! x = ss ! x" if "x < length ss" for x using that by (simp add: nth_append)
  have "bucket_ok ?ss m bs b (ch b)" if "b < length bs" for b
  proof -
    have bk: "bucket_ok ss n bs b (ch b)" using assms(1) that by (simp add: chains_ok_def)
    then have i: "is_chain ss (bs ! b) (ch b)" by (simp add: bucket_ok_def)
    have "is_chain ?ss h xs" if "is_chain ss h xs" for h xs using that by (induction xs arbitrary: h) (auto simp: s)
    with i have "is_chain ?ss (bs ! b) (ch b)" by blast
    moreover have nm: "slot_name ?ss x = slot_name ss x" if "x \<in> set (ch b)" for x
      using is_chain_bounds [OF i that] by (simp add: slot_name_append)
    then have "map (slot_name ?ss) (ch b) = map (slot_name ss) (ch b)" by simp
    then have "distinct (map (slot_name ?ss) (ch b))" using bk by (simp only: bucket_ok_def)
    ultimately show ?thesis
      using bk assms(2) nm is_chain_bounds [OF i] by (auto simp: bucket_ok_def s)
  qed
  moreover have "hashChain (?ss ! x) = -1" if "x < length ?ss" "\<forall>b < length bs. x \<notin> set (ch b)" for x
    using assms(1) that by (cases "x < length ss") (simp_all add: s zero_slot_nth chains_ok_def)
  ultimately show ?thesis using assms by (simp add: chains_ok_def)
qed

text \<open>Extending the used slots over cleared ones.\<close>

lemma pot_ok_extend:
  assumes "pot_ok obj" "pot_slots obj' = pot_slots obj @ replicate k zero_slot" "pot_hash obj' = pot_hash obj"
    "numProp obj \<le> numProp obj'" "numProp obj' \<le> int (length (pot_slots obj'))"
  shows "pot_ok obj'" "property_slot obj' q = property_slot obj q \<or> q = empty_qname"
    "q \<noteq> empty_qname \<Longrightarrow> pot_view obj' q = pot_view obj q"
proof -
  note ok = pot_okD [OF assms(1)]
  let ?ss = "pot_slots obj" and ?ss' = "pot_slots obj'" and ?n = "nat (numProp obj)" and ?n' = "nat (numProp obj')"
  have n: "?n \<le> ?n'" "?n' \<le> length ?ss'" using assms(4,5) by auto
  have e: "slot_name ?ss' x = empty_qname" if "?n \<le> x" "x < length ?ss'" for x
    using that ok(5) [of x] assms(2) by (cases "x < length ?ss") (simp_all add: slot_name_def nth_append)
  have s: "slot_name ?ss' x = slot_name ?ss x" if "x < ?n" for x using that ok(3) assms(2) by (simp add: slot_name_append)
  have d: "names_distinct ?ss' ?n'"
    unfolding names_distinct_def
  proof (intro allI impI)
    fix x y assume xy: "x < ?n'" "y < ?n'" "slot_name ?ss' x = slot_name ?ss' y" "slot_name ?ss' x \<noteq> empty_qname"
    have "x < ?n" by (rule ccontr) (use e [of x] xy(1,4) n(2) in simp)
    moreover have "y < ?n" by (rule ccontr) (use e [of y] xy(2-4) n(2) in simp)
    ultimately show "x = y" using xy(3,4) s names_distinctD [OF ok(4), of x y] by auto
  qed
  show okk: "pot_ok obj'"
    unfolding pot_ok_def
  proof (intro conjI)
    show "case pot_hash obj' of None \<Rightarrow> \<forall>x < length ?ss'. hashChain (?ss' ! x) = -1 | Some bs \<Rightarrow> \<exists>ch. indexed ?ss' ?n' bs ch"
    proof (cases "pot_hash obj")
      case None
      then show ?thesis using ok(6) assms(2,3) by (auto simp: nth_append)
    next
      case (Some bs)
      with ok(7) obtain ch where "indexed ?ss ?n bs ch" by blast
      then have i: "chains_ok ?ss ?n bs ch" "\<And>x. x < ?n \<Longrightarrow> slot_name ?ss x \<noteq> empty_qname \<Longrightarrow> x \<in> set (chain_of bs ch (slot_name ?ss x))"
        by (simp_all add: indexed_def)
      have "x \<in> set (chain_of bs ch (slot_name ?ss' x))" if x: "x < ?n'" "slot_name ?ss' x \<noteq> empty_qname" for x
      proof -
        have "x < ?n" by (rule ccontr) (use e [of x] x n(2) in simp)
        with i(2) s x(2) show ?thesis by simp
      qed
      then have "indexed ?ss' ?n' bs ch"
        using chains_ok_append [OF i(1) n(1), of k] n(2) assms(2) by (simp add: indexed_def)
      with Some assms(3) show ?thesis by auto
    qed
  qed (use d e n assms(5) ok(1) assms(4) in auto)
  have ps: "property_slot obj' q = property_slot obj q" if "q \<noteq> empty_qname"
  proof (cases "\<exists>x < ?n. slot_name ?ss x = q")
    case True
    then obtain x where x: "x < ?n" "slot_name ?ss x = q" by blast
    show ?thesis
      using property_slot_unique [OF ok(4) x(1) _ x(2) that] property_slot_unique [OF d, of x q] x s [OF x(1)] n ok(3) that by auto
  next
    case False
    have "slot_name ?ss' x \<noteq> q" if "x < ?n'" for x
      using False e [of x] s [of x] \<open>q \<noteq> empty_qname\<close> that n(2) by (cases "x < ?n") auto
    then show ?thesis using property_slot_absent [OF n(2), of q] property_slot_absent [OF ok(3), of q] False by simp
  qed
  then show "property_slot obj' q = property_slot obj q \<or> q = empty_qname" by blast
  show "pot_view obj' q = pot_view obj q" if q: "q \<noteq> empty_qname"
  proof (cases "property_slot obj q < 0")
    case False
    then obtain x where "property_slot obj q = int x" "x < ?n" using property_slot_present [OF _ ok(3), of q] by auto
    with ps [OF q] ok(3) assms(2) q show ?thesis by (simp add: pot_view_def nth_append)
  qed (simp add: pot_view_def ps [OF q])
qed

text \<open>Making a slot: of a dynamic object, or one that is used already.\<close>

lemma ejsCheckSlot_ok:
  assumes "pot_ok obj" "heap ejs = (\<lambda>_. True)" "dynamic obj \<or> 0 \<le> slotNum \<and> slotNum < numProp obj"
  obtains obj' s where "ejsCheckSlot ejs obj slotNum = (int s, ejs, obj')" "pot_ok obj'" "dynamic obj' = dynamic obj"
    "int s = (if slotNum < 0 then numProp obj else slotNum)" "int s < numProp obj'" "numProp obj \<le> numProp obj'"
    "numProp obj' \<le> max (numProp obj) (int s + 1)" "\<And>q. q \<noteq> empty_qname \<Longrightarrow> property_slot obj' q = property_slot obj q"
    "\<And>q. q \<noteq> empty_qname \<Longrightarrow> pot_view obj' q = pot_view obj q" "props obj' \<noteq> None"
    "\<exists>k. pot_slots obj' = pot_slots obj @ replicate k zero_slot" "pot_hash obj' = pot_hash obj"
proof (cases "slotNum < 0 \<or> slotNum \<ge> numProp obj")
  case True
  note ok = pot_okD [OF assms(1)]
  define s where "s = nat (if slotNum < 0 then numProp obj else slotNum)"
  have s: "int s = (if slotNum < 0 then numProp obj else slotNum)" "numProp obj \<le> int s" using True ok(1) by (auto simp: s_def)
  from True assms(3) have dyn: "dynamic obj" by auto
  obtain rc obj1 where g: "(if needs_slots obj (int s) then growSlots ejs obj (int s + 1) else (0, obj)) = (rc, obj1)"
    by (rule prod.exhaust)
  have g1: "rc = 0" "numProp obj1 = numProp obj" "dynamic obj1 = dynamic obj" "pot_hash obj1 = pot_hash obj"
    "\<exists>k. pot_slots obj1 = pot_slots obj @ replicate k zero_slot" "int s + 1 \<le> int (length (pot_slots obj1))" "props obj1 \<noteq> None"
    using g growSlots_ok [OF assms(2), of obj "int s + 1" rc obj1]
    by (auto simp: needs_slots_def split: if_splits intro: exI [of _ 0])
  let ?obj = "obj1\<lparr>numProp := int s + 1\<rparr>"
  have c: "ejsCheckSlot ejs obj slotNum = (int s, ejs, ?obj)"
    using True dyn g g1(1,2) s by (auto simp: ejsCheckSlot_def Let_def)
  from g1(5) obtain k where k: "pot_slots ?obj = pot_slots obj @ replicate k zero_slot" by auto
  have ext: "pot_hash ?obj = pot_hash obj" "numProp obj \<le> numProp ?obj" "numProp ?obj \<le> int (length (pot_slots ?obj))"
    using g1 s(2) by simp_all
  note pe = pot_ok_extend [OF assms(1) k ext]
  show thesis
    by (rule that [OF c pe(1) _ s(1)]) (use g1 s(2) pe(2,3) k in auto)
next
  case False
  then have c: "ejsCheckSlot ejs obj slotNum = (int (nat slotNum), ejs, obj)" by (simp add: ejsCheckSlot_def)
  show thesis
    by (rule that [OF c assms(1)]) (use False pot_okD(2) [OF assms(1)] in \<open>auto simp: pot_slots_def intro: exI [of _ 0] split: option.splits\<close>)
qed

lemma find_slot_cong: "map slot_qname ss' = map slot_qname ss \<Longrightarrow> find_slot P ss' i = find_slot P ss i"
proof (induction ss' arbitrary: ss i)
  case (Cons a ss')
  then show ?case by (cases ss) simp_all
qed simp

text \<open>A change of a slot that keeps its name and its link.\<close>

lemma update_slot_ok:
  assumes "pot_ok obj" "s < nat (numProp obj)" "\<And>sp. slot_qname (f sp) = slot_qname sp" "\<And>sp. hashChain (f sp) = hashChain sp"
  obtains obj' where "update_slot f (int s) obj = Some obj'" "pot_ok obj'" "numProp obj' = numProp obj" "dynamic obj' = dynamic obj"
    "pot_slots obj' = (pot_slots obj)[s := f (pot_slots obj ! s)]" "pot_hash obj' = pot_hash obj"
    "\<And>q. property_slot obj' q = property_slot obj q" "(props obj' = None) = (props obj = None)" "isType obj' = isType obj"
proof -
  note ok = pot_okD [OF assms(1)]
  let ?ss = "pot_slots obj"
  let ?ss' = "?ss[s := f (?ss ! s)]"
  have s: "s < length ?ss" using assms(2) ok(3) by simp
  then have p: "props obj \<noteq> None" by (auto simp: pot_slots_def split: option.splits)
  let ?obj = "set_slots ?ss' obj"
  have nm: "slot_name ?ss' = slot_name ?ss"
    using assms(3) s by (auto simp: fun_eq_iff slot_name_def nth_list_update)
  have hc: "hashChain (?ss' ! x) = hashChain (?ss ! x)" for x
    using assms(4) s by (cases "x = s") simp_all
  have "indexed ?ss' n bs ch" if "indexed ?ss n bs ch" for n bs ch
  proof -
    have "is_chain ?ss' h xs = is_chain ?ss h xs" for h xs by (rule is_chain_cong) (simp_all add: hc)
    with that show ?thesis by (simp add: indexed_def chains_ok_def bucket_ok_def nm hc)
  qed
  then have "pot_ok ?obj"
    unfolding pot_ok_def using ok p by (auto simp: nm names_distinct_def hc split: option.splits) blast
  moreover have "property_slot ?obj q = property_slot obj q" for q
    using p assms(3) s by (auto simp: property_slot_def intro!: find_slot_cong nth_equalityI) (simp add: nth_list_update)
  moreover have "update_slot f (int s) obj = Some ?obj"
    using s by (simp add: update_slot_def mem_read_def mem_write_def)
  ultimately show thesis using p by (intro that [of ?obj]) simp_all
qed

text \<open>A slot with the empty name that is in no chain can be named.\<close>

lemma fresh_slot:
  assumes "pot_ok obj" "nat (numProp obj) \<le> x" "x < length (pot_slots obj)"
  shows "hashChain (pot_slots obj ! x) = -1" "slot_name (pot_slots obj) x = empty_qname"
proof -
  note ok = pot_okD [OF assms(1)]
  show "slot_name (pot_slots obj) x = empty_qname" using ok(5) assms(2,3) by simp
  show "hashChain (pot_slots obj ! x) = -1"
  proof (cases "pot_hash obj")
    case (Some bs)
    with ok(7) obtain ch where c: "chains_ok (pot_slots obj) (nat (numProp obj)) bs ch" by (auto simp: indexed_def)
    then have "x \<notin> set (ch b)" if "b < length bs" for b using chains_ok_member(1) [OF c that] assms(2) by force
    with c assms(3) show ?thesis by (simp add: chains_ok_def)
  qed (use ok(6) assms(3) in simp)
qed

lemma can_index_of_ok:
  assumes "pot_ok obj" "props obj \<noteq> None" "numProp obj \<le> MAX_HASH"
  shows "can_index obj"
  using pot_okD [OF assms(1)] fresh_slot(1) [OF assms(1)] assms(2,3) by (auto simp: can_index_def)

lemma named_slots_distinct:
  assumes "names_distinct ss n" "s < n" "n \<le> length ss" "\<forall>x < n. slot_name ss x \<noteq> q"
  shows "names_distinct (ss[s := (ss ! s)\<lparr>slot_qname := q\<rparr>]) n"
proof -
  let ?ss' = "ss[s := (ss ! s)\<lparr>slot_qname := q\<rparr>]"
  have nm: "slot_name ?ss' x = (if x = s then q else slot_name ss x)" for x
    using assms(2,3) by (simp add: slot_name_def nth_list_update)
  show ?thesis
    unfolding names_distinct_def
  proof (intro allI impI)
    fix x y assume "x < n" "y < n" "slot_name ?ss' x = slot_name ?ss' y" "slot_name ?ss' x \<noteq> empty_qname"
    then show "x = y" using assms(4) names_distinctD [OF assms(1), of x y] by (auto simp: nm split: if_splits)
  qed
qed

definition name_slot :: "nat \<Rightarrow> qname \<Rightarrow> pot \<Rightarrow> pot" where
  "name_slot s q obj = set_slots ((pot_slots obj)[s := (pot_slots obj ! s)\<lparr>slot_qname := q\<rparr>]) obj"

text \<open>Hashing the new name: appended to its chain, or the whole index made anew.\<close>

lemma hashProperty_ok:
  assumes ok: "pot_ok obj" and s: "s < nat (numProp obj)" "slot_name (pot_slots obj) s = empty_qname"
      "hashChain (pot_slots obj ! s) = -1"
    and q: "q \<noteq> empty_qname" "\<forall>x < nat (numProp obj). slot_name (pot_slots obj) x \<noteq> q"
    and m: "numProp obj \<le> MAX_HASH" "heap ejs = (\<lambda>_. True)"
  shows "\<exists>obj'. hashProperty ejs (name_slot s q obj) (int s) q = Some (0, obj') \<and> pot_ok obj' \<and> numProp obj' = numProp obj
     \<and> unlinked (pot_slots obj') = unlinked (pot_slots (name_slot s q obj)) \<and> dynamic obj' = dynamic obj \<and> props obj' \<noteq> None"
proof -
  note okk = pot_okD [OF ok]
  let ?ss = "pot_slots obj" and ?n = "nat (numProp obj)" and ?obj = "name_slot s q obj"
  let ?ss' = "?ss[s := (?ss ! s)\<lparr>slot_qname := q\<rparr>]"
  have sl: "s < length ?ss" using s(1) okk(3) by simp
  then have p: "props obj \<noteq> None" by (auto simp: pot_slots_def split: option.splits)
  then have a: "pot_slots ?obj = ?ss'" "pot_hash ?obj = pot_hash obj" "numProp ?obj = numProp obj"
    "props ?obj \<noteq> None" "dynamic ?obj = dynamic obj" by (simp_all add: name_slot_def)
  have d: "names_distinct ?ss' ?n" by (rule named_slots_distinct) (use okk(3,4) s(1) q(2) in auto)
  have nm: "slot_name ?ss' x = (if x = s then q else slot_name ?ss x)" for x using sl by (simp add: slot_name_def nth_list_update)
  have hc: "hashChain (?ss' ! x) = hashChain (?ss ! x)" for x using sl by (cases "x = s") simp_all
  have ci: "can_index ?obj"
    unfolding can_index_def
    using okk(1,2) m(1) a d s(1) fresh_slot [OF ok] okk(6) by (auto simp: hc nm)
  have re: "hashProperty ejs ?obj (int s) q = ejsIndexProperties ejs ?obj \<Longrightarrow> ?thesis"
    using index_properties_ok [OF ci m(2), of 1] a by (auto simp: ejsIndexProperties_def numeral_2_eq_2)
  show ?thesis
  proof (cases "\<exists>bs. pot_hash obj = Some bs \<and> ?n \<le> length bs")
    case False
    then show ?thesis using a by (intro re) (auto simp: hashProperty_def hashProperty_with_def split: option.split)
  next
    case True
    then obtain bs where bs: "pot_hash obj = Some bs" "?n \<le> length bs" by blast
    with okk(7) obtain ch where i: "indexed ?ss ?n bs ch" by blast
    then have c: "chains_ok ?ss ?n bs ch" by (simp add: indexed_def)
    have sn: "s \<notin> set (ch b)" if "b < length bs" for b using chains_ok_member(2) [OF c that] s(3) by blast
    have "bucket_ok ?ss' ?n bs b (ch b)" if "b < length bs" for b
      by (rule bucket_ok_cong [of ?ss]) (use c that nth_update_notin [OF sn [OF that]] in \<open>auto simp: chains_ok_def\<close>)
    then have c': "chains_ok ?ss' ?n bs ch" using c by (simp add: chains_ok_def hc)
    have miss: "slot_name ?ss' x \<noteq> q" if "x \<in> set (chain_of bs ch q)" for x
    proof -
      have "hash_index bs (fst q) < length bs" using c by (intro hash_index_less) (simp add: chains_ok_def)
      then have "x \<noteq> s" "x < ?n" using that sn chains_ok_member(1) [OF c] by blast+
      with q(2) show ?thesis by (simp add: nm)
    qed
    obtain bs1 ss1 where l: "link_slots bs ?ss' (int s) q = Some (bs1, ss1)" "length bs1 = length bs" "length ss1 = length ?ss'"
      "\<forall>x. ss1 ! x = (?ss' ! x)\<lparr>hashChain := hashChain (ss1 ! x)\<rparr>"
      "chains_ok ss1 ?n bs1 (ch(hash_index bs (fst q) := chain_of bs ch q @ [s]))"
      using link_slots_missing [OF c' s(1) _ _ miss] s(3) nm [of s] hc [of s] by auto
    let ?obj' = "set_hash bs1 (set_slots ss1 ?obj)" and ?ch = "ch(hash_index bs (fst q) := chain_of bs ch q @ [s])"
    have u: "unlinked ss1 = unlinked ?ss'" using l(3,4) by (intro unlinkedI) auto
    have n1: "slot_name ss1 x = slot_name ?ss' x" if "x < length ?ss" for x using unlinked_name [OF u] that by simp
    have "indexed ss1 ?n bs1 ?ch"
      unfolding indexed_def
    proof (intro conjI allI impI l(5))
      fix x assume x: "x < ?n" "slot_name ss1 x \<noteq> empty_qname"
      then show "x \<in> set (chain_of bs1 ?ch (slot_name ss1 x))"
        using i n1 [of x] okk(3) nm [of x] by (auto simp: indexed_def hash_index_cong [OF l(2)])
    qed
    then have "pot_ok ?obj'"
      unfolding pot_ok_def
      using okk(1,2) a l(3) names_distinct_cong [OF u, of ?n] d okk(3) n1 nm s(1) fresh_slot(2) [OF ok] by auto
    moreover have "hashProperty ejs ?obj (int s) q = Some (0, ?obj')"
      using bs a l(1) okk(1) by (auto simp: hashProperty_def hashProperty_with_def link_property_def)
    ultimately show ?thesis using a u by auto
  qed
qed

section \<open>An object is a map from names to values\<close>

text \<open>How the view follows from the names and values of the slots.\<close>

lemma property_slot_neg: "property_slot obj q < 0 \<Longrightarrow> property_slot obj q = -1"
  unfolding property_slot_def
  by (cases rule: find_slot_cases [of "\<lambda>a. CMP_QNAME a q" "take (nat (numProp obj)) (pot_slots obj)" 0]) auto

lemma pot_view_Some:
  assumes "pot_ok obj" "q \<noteq> empty_qname"
  shows "pot_view obj q = Some v \<longleftrightarrow> (\<exists>x < nat (numProp obj). slot_name (pot_slots obj) x = q \<and> slot_value (pot_slots obj ! x) = v)"
proof -
  note ok = pot_okD [OF assms(1)]
  show ?thesis
  proof (cases "property_slot obj q < 0")
    case True
    with property_slot_absent [OF ok(3), of q] property_slot_neg [OF True] show ?thesis by (auto simp: pot_view_def)
  next
    case False
    then obtain x where x: "property_slot obj q = int x" "x < nat (numProp obj)" "slot_name (pot_slots obj) x = q"
      using property_slot_present [OF _ ok(3), of q] by auto
    then have v: "pot_view obj q = Some (slot_value (pot_slots obj ! x))" using assms(2) by (simp add: pot_view_def)
    have "y = x" if "y < nat (numProp obj)" "slot_name (pot_slots obj) y = q" for y
      using names_distinctD [OF ok(4) that(1) x(2)] x(3) that(2) assms(2) by auto
    then show ?thesis unfolding v using x(2,3) by blast
  qed
qed

lemma pot_view_eqI:
  assumes "pot_ok obj" "pot_ok obj'" "q \<noteq> empty_qname"
    and "\<And>v. (\<exists>x < nat (numProp obj'). slot_name (pot_slots obj') x = q \<and> slot_value (pot_slots obj' ! x) = v)
      \<longleftrightarrow> (\<exists>x < nat (numProp obj). slot_name (pot_slots obj) x = q \<and> slot_value (pot_slots obj ! x) = v)"
  shows "pot_view obj' q = pot_view obj q"
proof (rule option.expand)
  have "(pot_view obj' q = Some v) = (pot_view obj q = Some v)" for v using assms pot_view_Some by blast
  then show "(pot_view obj' q = None) = (pot_view obj q = None)" by (metis option.exhaust)
  then show "pot_view obj' q \<noteq> None \<Longrightarrow> pot_view obj q \<noteq> None \<Longrightarrow> the (pot_view obj' q) = the (pot_view obj q)"
    using \<open>\<And>v. (pot_view obj' q = Some v) = (pot_view obj q = Some v)\<close> by (metis option.sel option.exhaust)
qed

lemma unlinked_value: "unlinked ss' = unlinked ss \<Longrightarrow> x < length ss \<Longrightarrow> slot_value (ss' ! x) = slot_value (ss ! x)"
  using arg_cong [OF unlinked_nth, of ss' ss x slot_value] by simp

text \<open>Naming a new slot of an object adds the name and keeps the other properties.\<close>

lemma name_slot_unhashed:
  assumes ok: "pot_ok obj" and s: "s < nat (numProp obj)" and q: "\<forall>x < nat (numProp obj). slot_name (pot_slots obj) x \<noteq> q"
    and h: "pot_hash obj = None"
  shows "pot_ok (name_slot s q obj)"
proof -
  note okk = pot_okD [OF ok]
  let ?ss = "pot_slots obj"
  let ?ss' = "?ss[s := (?ss ! s)\<lparr>slot_qname := q\<rparr>]"
  have sl: "s < length ?ss" using s okk(3) by simp
  then have p: "props obj \<noteq> None" by (auto simp: pot_slots_def split: option.splits)
  have "hashChain (?ss' ! x) = hashChain (?ss ! x)" for x using sl by (cases "x = s") simp_all
  moreover have "slot_name ?ss' x = (if x = s then q else slot_name ?ss x)" for x
    using sl by (simp add: slot_name_def nth_list_update)
  ultimately show ?thesis
    unfolding pot_ok_def
    using okk(1-3,5,6) named_slots_distinct [OF okk(4) s okk(3) q] s p h by (auto simp: name_slot_def)
qed

lemma name_fresh_slot:
  assumes c: "ejsCheckSlot ejs obj0 slotNum = (int s, ejs, obj)"
    and ok: "pot_ok obj" and s: "s < nat (numProp obj)" "slot_name (pot_slots obj) s = empty_qname"
      "hashChain (pot_slots obj ! s) = -1"
    and q: "q \<noteq> empty_qname" "\<forall>x < nat (numProp obj). slot_name (pot_slots obj) x \<noteq> q"
    and m: "numProp obj \<le> MAX_HASH" "heap ejs = (\<lambda>_. True)"
  obtains obj' where "setPotPropertyName ejs obj0 slotNum q = Some (int s, ejs, obj')" "pot_ok obj'" "numProp obj' = numProp obj"
    "unlinked (pot_slots obj') = unlinked (pot_slots (name_slot s q obj))" "dynamic obj' = dynamic obj"
proof -
  note okk = pot_okD [OF ok]
  let ?obj = "name_slot s q obj"
  have sl: "s < length (pot_slots obj)" using s okk(3) by simp
  then have p: "props obj \<noteq> None" by (auto simp: pot_slots_def split: option.splits)
  have u: "update_slot (\<lambda>sp. sp\<lparr>slot_qname := q\<rparr>) (int s) obj = Some ?obj"
    using sl by (simp add: update_slot_def mem_read_def mem_write_def name_slot_def)
  show thesis
  proof (cases "pot_hash ?obj \<noteq> None \<or> numProp ?obj > EJS_HASH_MIN_PROP")
    case True
    from hashProperty_ok [OF ok s q m] obtain obj' where
      "hashProperty ejs ?obj (int s) q = Some (0, obj')" "pot_ok obj'" "numProp obj' = numProp obj"
        "unlinked (pot_slots obj') = unlinked (pot_slots ?obj)" "dynamic obj' = dynamic obj" by auto
    with True c u s(3) sl show thesis
      by (intro that [of obj']) (simp_all add: setPotPropertyName_def mem_read_def)
  next
    case False
    with c u s(3) sl name_slot_unhashed [OF ok s(1) q(2)] show thesis
      by (intro that [of ?obj]) (simp_all add: setPotPropertyName_def mem_read_def name_slot_def)
  qed
qed

lemma named_view:
  assumes ok: "pot_ok obj" and s: "s < nat (numProp obj)" "slot_name (pot_slots obj) s = empty_qname" and q: "q \<noteq> empty_qname"
    and ok': "pot_ok obj'" "numProp obj' = numProp obj" "unlinked (pot_slots obj') = unlinked (pot_slots (name_slot s q obj))"
  shows "property_slot obj' q = int s" "q' \<noteq> q \<Longrightarrow> pot_view obj' q' = pot_view obj q'"
proof -
  note okk = pot_okD [OF ok]
  let ?ss = "pot_slots obj"
  have sl: "s < length ?ss" using s okk(3) by simp
  then have "props obj \<noteq> None" by (auto simp: pot_slots_def split: option.splits)
  then have an: "pot_slots (name_slot s q obj) = ?ss[s := (?ss ! s)\<lparr>slot_qname := q\<rparr>]" by (simp add: name_slot_def)
  have ln: "length (pot_slots obj') = length ?ss" using unlinked_length [OF ok'(3)] an by simp
  have nm: "slot_name (pot_slots obj') x = (if x = s then q else slot_name ?ss x)" if "x < length ?ss" for x
    using unlinked_name [OF ok'(3), of x] that sl an by (simp add: slot_name_def nth_list_update)
  have vl: "slot_value (pot_slots obj' ! x) = slot_value (?ss ! x)" if "x < length ?ss" for x
    using unlinked_value [OF ok'(3), of x] that an sl by (cases "x = s") simp_all
  show "property_slot obj' q = int s"
    by (rule property_slot_unique) (use pot_okD(4) [OF ok'(1)] s(1) sl ok'(2) ln nm q in auto)
  show "pot_view obj' q' = pot_view obj q'" if "q' \<noteq> q"
  proof (cases "q' = empty_qname")
    case False
    have same: "(slot_name (pot_slots obj') x = q' \<and> slot_value (pot_slots obj' ! x) = v)
        = (slot_name ?ss x = q' \<and> slot_value (?ss ! x) = v)" if "x < nat (numProp obj)" for x v
      using nm [of x] vl [of x] that okk(3) \<open>q' \<noteq> q\<close> s(2) False by (cases "x = s") simp_all
    show ?thesis
      by (rule pot_view_eqI [OF ok ok'(1) False]) (use same ok'(2) in auto)
  qed (simp add: pot_view_def)
qed

lemma setPotPropertyName_new:
  assumes ok: "pot_ok obj" and q: "q \<noteq> empty_qname" "property_slot obj q < 0"
    and m: "numProp obj < MAX_HASH" "heap ejs = (\<lambda>_. True)" and dyn: "dynamic obj"
  obtains obj' where "setPotPropertyName ejs obj (numProp obj) q = Some (numProp obj, ejs, obj')" "pot_ok obj'"
    "numProp obj' = numProp obj + 1" "property_slot obj' q = numProp obj" "dynamic obj'"
    "\<And>q'. q' \<noteq> q \<Longrightarrow> pot_view obj' q' = pot_view obj q'"
proof -
  define s where "s = nat (numProp obj)"
  have s: "int s = numProp obj" using pot_okD(1) [OF ok] by (simp add: s_def)
  obtain obj1 where c: "ejsCheckSlot ejs obj (numProp obj) = (int s, ejs, obj1)" and ok1: "pot_ok obj1" and d1: "dynamic obj1"
    and n1: "numProp obj1 = numProp obj + 1" and p1: "\<And>q. q \<noteq> empty_qname \<Longrightarrow> property_slot obj1 q = property_slot obj q"
    and v1: "\<And>q. q \<noteq> empty_qname \<Longrightarrow> pot_view obj1 q = pot_view obj q"
    and sl: "\<exists>k. pot_slots obj1 = pot_slots obj @ replicate k zero_slot"
    by (rule ejsCheckSlot_ok [OF ok m(2), of "numProp obj"]) (use dyn s pot_okD(1) [OF ok] in \<open>auto split: if_splits\<close>)
  note okk = pot_okD [OF ok1]
  let ?ss = "pot_slots obj1" and ?n = "nat (numProp obj1)"
  have sn: "s < ?n" "s < length ?ss" using n1 s okk(3) by auto
  from sl obtain k where k: "?ss = pot_slots obj @ replicate k zero_slot" by blast
  have fresh: "hashChain (?ss ! s) = -1" "slot_name ?ss s = empty_qname"
    using fresh_slot [OF ok, of s] sn(2) k s_def by (cases "s < length (pot_slots obj)"; simp add: slot_name_def nth_append)+
  have "property_slot obj1 q = -1" using p1 [OF q(1)] property_slot_neg [OF q(2)] by simp
  then have absent: "\<forall>x < ?n. slot_name ?ss x \<noteq> q" using property_slot_absent [OF okk(3), of q] by simp
  obtain obj' where o': "setPotPropertyName ejs obj (numProp obj) q = Some (int s, ejs, obj')" "pot_ok obj'"
    "numProp obj' = numProp obj1" "unlinked (pot_slots obj') = unlinked (pot_slots (name_slot s q obj1))" "dynamic obj' = dynamic obj1"
    by (rule name_fresh_slot [OF c ok1 sn(1) fresh(2,1) q(1) absent _ m(2)]) (use m(1) n1 in auto)
  note nv = named_view [OF ok1 sn(1) fresh(2) q(1) o'(2-4)]
  have "pot_view obj' q' = pot_view obj q'" if "q' \<noteq> q" for q'
    using nv(2) [OF that] v1 [of q'] by (cases "q' = empty_qname") (simp_all add: pot_view_def)
  with that [of obj'] o' n1 s d1 nv(1) show thesis by simp
qed

text \<open>Setting the value or the traits of a used slot.\<close>

lemma setPotProperty_ok:
  assumes ok: "pot_ok obj" and s: "s < nat (numProp obj)"
  obtains obj' where "setPotProperty ejs obj (int s) v = Some (int s, ejs, obj')" "pot_ok obj'" "numProp obj' = numProp obj"
    "dynamic obj' = dynamic obj" "\<And>q. property_slot obj' q = property_slot obj q"
    "pot_slots obj' = (pot_slots obj)[s := (pot_slots obj ! s)\<lparr>slot_value := v\<rparr>]"
proof -
  have c: "ejsCheckSlot ejs obj (int s) = (int s, ejs, obj)"
    using s by (simp add: ejsCheckSlot_def zless_nat_eq_int_zless)
  obtain obj' where "update_slot (\<lambda>sp. sp\<lparr>slot_value := v\<rparr>) (int s) obj = Some obj'" "pot_ok obj'" "numProp obj' = numProp obj"
    "dynamic obj' = dynamic obj" "pot_slots obj' = (pot_slots obj)[s := (pot_slots obj ! s)\<lparr>slot_value := v\<rparr>]"
    "\<And>q. property_slot obj' q = property_slot obj q"
    by (rule update_slot_ok [OF ok s, of "\<lambda>sp. sp\<lparr>slot_value := v\<rparr>"]) auto
  with c show thesis by (intro that [of obj']) (simp_all add: setPotProperty_def)
qed

lemma setPotPropertyTraits_ok:
  assumes ok: "pot_ok obj" and s: "s < nat (numProp obj)"
  obtains obj' where "setPotPropertyTraits ejs obj (int s) ty attr = Some (int s, ejs, obj')" "pot_ok obj'" "numProp obj' = numProp obj"
    "dynamic obj' = dynamic obj" "\<And>q. pot_view obj' q = pot_view obj q" "\<And>q. property_slot obj' q = property_slot obj q"
proof -
  let ?f = "\<lambda>sp. sp\<lparr>trait_type := (if ty \<noteq> None then ty else trait_type sp),
      trait_attributes := (if attr \<noteq> -1 then attr else trait_attributes sp)\<rparr>"
  have c: "ejsCheckSlot ejs obj (int s) = (int s, ejs, obj)"
    using s by (simp add: ejsCheckSlot_def zless_nat_eq_int_zless)
  obtain obj' where o': "update_slot ?f (int s) obj = Some obj'" "pot_ok obj'" "numProp obj' = numProp obj"
    "dynamic obj' = dynamic obj" "pot_slots obj' = (pot_slots obj)[s := ?f (pot_slots obj ! s)]"
    "\<And>q. property_slot obj' q = property_slot obj q"
    by (rule update_slot_ok [OF ok s, of ?f]) auto
  have "s < length (pot_slots obj)" using s pot_okD(3) [OF ok] by simp
  then have "slot_value (pot_slots obj' ! x) = slot_value (pot_slots obj ! x)" for x
    by (cases "x = s") (simp_all add: o'(5))
  then have "pot_view obj' q = pot_view obj q" for q by (simp add: pot_view_def o'(6))
  with c o' show thesis by (intro that [of obj']) (simp_all add: setPotPropertyTraits_def)
qed

lemma set_value_view:
  assumes "pot_ok obj" "property_slot obj q = int s" "s < nat (numProp obj)" "q \<noteq> empty_qname"
    and "pot_slots obj' = (pot_slots obj)[s := (pot_slots obj ! s)\<lparr>slot_value := v\<rparr>]"
    and "\<And>q. property_slot obj' q = property_slot obj q"
  shows "pot_view obj' = (pot_view obj)(q \<mapsto> v)"
proof -
  note ok = pot_okD [OF assms(1)]
  have sl: "s < length (pot_slots obj)" using assms(3) ok(3) by simp
  have sq: "slot_name (pot_slots obj) s = q"
    by (rule property_slot_present [of obj q]) (use assms(2) ok(3) in auto)
  have ne: "s \<noteq> nat (property_slot obj q')" if "q' \<noteq> q" "0 \<le> property_slot obj q'" for q'
    by (rule property_slot_present [OF that(2) ok(3)]) (use sq that(1) in auto)
  have "pot_view obj' q' = ((pot_view obj)(q \<mapsto> v)) q'" for q'
  proof (cases "q' = q")
    case True
    with assms(2,4) sl show ?thesis by (simp add: pot_view_def assms(5,6))
  next
    case False
    with ne [OF False] show ?thesis by (simp add: pot_view_def assms(5,6))
  qed
  then show ?thesis by blast
qed

text \<open>
  Defining a property of a dynamic object, without accessors: the object then maps the name to the
  value, whether the name is new or not, and keeps the other properties.
\<close>

lemma definePotProperty_ok:
  assumes ok: "pot_ok obj" and q: "q \<noteq> empty_qname"
    and m: "numProp obj < MAX_HASH" "heap ejs = (\<lambda>_. True)" and dyn: "dynamic obj" and attr: "\<not> isAccessor attr"
  obtains s obj' where "definePotProperty ejs fns obj (-1) q ty attr (Some v) = Some (int s, ejs, fns, obj')" "pot_ok obj'" "dynamic obj'"
    "numProp obj' \<le> numProp obj + 1" "pot_view obj' = (pot_view obj)(q \<mapsto> v)" "property_slot obj' q = int s"
proof -
  note okk = pot_okD [OF ok]
  have lk: "ejsLookupPotProperty obj (fst q) (Some (snd q)) = Some (property_slot obj q)" by (rule lookup_qualified [OF ok q])
  define s where "s = (if property_slot obj q < 0 then nat (numProp obj) else nat (property_slot obj q))"
  obtain obj2 where o2: "(if property_slot obj q < 0 then setPotPropertyName ejs obj (int s) q else Some (int s, ejs, obj)) = Some (int s, ejs, obj2)"
    "pot_ok obj2" "dynamic obj2" "numProp obj2 \<le> numProp obj + 1" "property_slot obj2 q = int s" "s < nat (numProp obj2)"
    "\<And>q'. q' \<noteq> q \<Longrightarrow> pot_view obj2 q' = pot_view obj q'"
  proof (cases "property_slot obj q < 0")
    case True
    obtain obj' where "setPotPropertyName ejs obj (numProp obj) q = Some (numProp obj, ejs, obj')" "pot_ok obj'"
      "numProp obj' = numProp obj + 1" "property_slot obj' q = numProp obj" "dynamic obj'" "\<And>q'. q' \<noteq> q \<Longrightarrow> pot_view obj' q' = pot_view obj q'"
      by (rule setPotPropertyName_new [OF ok q True m dyn]) blast
    with True that [of obj'] okk(1) show thesis by (simp add: s_def)
  next
    case False
    then obtain x where "property_slot obj q = int x" "x < nat (numProp obj)" using property_slot_present [OF _ okk(3), of q] by auto
    with False that [of obj] ok dyn show thesis by (simp add: s_def)
  qed
  obtain obj4 where o4: "setPotProperty ejs obj2 (int s) v = Some (int s, ejs, obj4)" "pot_ok obj4" "numProp obj4 = numProp obj2"
    "dynamic obj4 = dynamic obj2" "\<And>q. property_slot obj4 q = property_slot obj2 q"
    "pot_slots obj4 = (pot_slots obj2)[s := (pot_slots obj2 ! s)\<lparr>slot_value := v\<rparr>]"
    by (rule setPotProperty_ok [OF o2(2,6), of ejs v]) blast
  have v4: "pot_view obj4 = (pot_view obj2)(q \<mapsto> v)" by (rule set_value_view [OF o2(2,5,6) q o4(6,5)])
  obtain obj5 where o5: "setPotPropertyTraits ejs obj4 (int s) ty (c_int attr) = Some (int s, ejs, obj5)" "pot_ok obj5"
    "numProp obj5 = numProp obj4" "dynamic obj5 = dynamic obj4" "\<And>q. pot_view obj5 q = pot_view obj4 q" "\<And>q. property_slot obj5 q = property_slot obj4 q"
    by (rule setPotPropertyTraits_ok [OF o4(2), of s ejs ty "c_int attr"]) (use o2(6) o4(3) in auto)
  define obj6 where "obj6 = (case v of VFunction f \<Rightarrow> if \<not> native fns f \<and> isType obj5 then obj5\<lparr>hasScriptFunctions := True\<rparr> else obj5 | _ \<Rightarrow> obj5)"
  have o6: "pot_ok obj6 = pot_ok obj5" "dynamic obj6 = dynamic obj5" "numProp obj6 = numProp obj5" "pot_view obj6 = pot_view obj5"
    "property_slot obj6 = property_slot obj5"
    by (auto simp: obj6_def pot_ok_def pot_view_def property_slot_def fun_eq_iff split: ejs_value.splits option.splits)
  have si: "int s = (if property_slot obj q < 0 then numProp obj else property_slot obj q)" using okk(1) by (auto simp: s_def)
  have "definePotProperty ejs fns obj (-1) q ty attr (Some v) = Some (int s, ejs, fns, obj6)"
  proof (cases "property_slot obj q < 0")
    case True
    then have "numProp obj = int s" using si by simp
    with True attr lk o2(1) o4(1) o5(1) dyn show ?thesis
      by (cases v) (simp_all add: definePotProperty_def define_slot_def Let_def obj6_def)
  next
    case False
    then have "property_slot obj q = int s" using si by simp
    with False attr lk o2(1) o4(1) o5(1) dyn show ?thesis
      by (cases v) (simp_all add: definePotProperty_def define_slot_def Let_def obj6_def)
  qed
  moreover have "pot_view obj6 = (pot_view obj)(q \<mapsto> v)" using o6(4) o5(5) v4 o2(7) by (auto simp: fun_eq_iff)
  ultimately show thesis
    using that [of s obj6] o6 o5 o4 o2 by simp
qed

text \<open>Removing the name of a slot.\<close>

lemma forgotten_ok:
  assumes ok: "pot_ok obj" and s: "s < nat (numProp obj)" "slot_name (pot_slots obj) s = q" and q: "q \<noteq> empty_qname"
    and n: "numProp obj' = numProp obj" and len: "length (pot_slots obj') = length (pot_slots obj)"
    and at: "pot_slots obj' ! s = forget_name (pot_slots obj ! s)"
    and others: "\<And>x. x \<noteq> s \<Longrightarrow> pot_slots obj' ! x = (pot_slots obj ! x)\<lparr>hashChain := hashChain (pot_slots obj' ! x)\<rparr>"
    and h: "case pot_hash obj' of None \<Rightarrow> \<forall>x < length (pot_slots obj'). hashChain (pot_slots obj' ! x) = -1
      | Some bs \<Rightarrow> \<exists>ch. indexed (pot_slots obj') (nat (numProp obj')) bs ch"
  shows "pot_ok obj'" "pot_view obj' = (pot_view obj)(q := None)"
proof -
  note okk = pot_okD [OF ok]
  have nm: "slot_name (pot_slots obj') x = (if x = s then empty_qname else slot_name (pot_slots obj) x)" for x
  proof (cases "x = s")
    case False
    from arg_cong [OF others [OF this], of slot_qname] False show ?thesis by (simp add: slot_name_def)
  qed (simp add: slot_name_def at forget_name_def)
  have vl: "slot_value (pot_slots obj' ! x) = slot_value (pot_slots obj ! x)" for x
  proof (cases "x = s")
    case False
    from arg_cong [OF others [OF this], of slot_value] show ?thesis by simp
  qed (simp add: at forget_name_def)
  have d: "names_distinct (pot_slots obj') (nat (numProp obj))"
    using okk(4) by (auto simp: names_distinct_def nm)
  then show ok': "pot_ok obj'"
    unfolding pot_ok_def using okk(1,2,5) n len h s(1) by (auto simp: nm)
  have sq: "x = s" if "x < nat (numProp obj)" "slot_name (pot_slots obj) x = q" for x
    using names_distinctD [OF okk(4) that(1) s(1)] s(2) that(2) q by auto
  have same: "pot_view obj' q' = pot_view obj q'" if "q' \<noteq> q" "q' \<noteq> empty_qname" for q'
  proof (rule pot_view_eqI [OF ok ok' that(2)])
    have "(slot_name (pot_slots obj') x = q' \<and> slot_value (pot_slots obj' ! x) = v)
        = (slot_name (pot_slots obj) x = q' \<and> slot_value (pot_slots obj ! x) = v)" for x v
      using nm [of x] vl [of x] that s(2) by (cases "x = s") auto
    then show "(\<exists>x < nat (numProp obj'). slot_name (pot_slots obj') x = q' \<and> slot_value (pot_slots obj' ! x) = v)
        = (\<exists>x < nat (numProp obj). slot_name (pot_slots obj) x = q' \<and> slot_value (pot_slots obj ! x) = v)" for v by (simp add: n)
  qed
  have "\<not> (\<exists>x < nat (numProp obj'). slot_name (pot_slots obj') x = q \<and> slot_value (pot_slots obj' ! x) = v)" for v
    using sq q by (auto simp: n nm)
  then have "pot_view obj' q = None" using pot_view_Some [OF ok' q] by (cases "pot_view obj' q") blast+
  moreover have "pot_view o1 empty_qname = None" for o1 by (simp add: pot_view_def)
  ultimately have "pot_view obj' q' = ((pot_view obj)(q := None)) q'" for q'
    using same [of q'] by (cases "q' = q"; cases "q' = empty_qname") simp_all
  then show "pot_view obj' = (pot_view obj)(q := None)" by blast
qed

lemma removeHashEntry_ok:
  assumes ok: "pot_ok obj" and s: "s < nat (numProp obj)" "slot_name (pot_slots obj) s = q" and q: "q \<noteq> empty_qname"
  obtains obj' where "removeHashEntry obj q = Some obj'" "pot_ok obj'" "pot_view obj' = (pot_view obj)(q := None)"
    "numProp obj' = numProp obj" "dynamic obj' = dynamic obj" "slot_name (pot_slots obj') s = empty_qname"
proof -
  note okk = pot_okD [OF ok]
  let ?ss = "pot_slots obj" and ?n = "nat (numProp obj)"
  have sl: "s < length ?ss" using s okk(3) by simp
  then have p: "props obj \<noteq> None" by (auto simp: pot_slots_def split: option.splits)
  show thesis
  proof (cases "pot_hash obj")
    case None
    let ?obj = "set_slots (?ss[s := forget_name (?ss ! s)]) obj"
    have "find_slot (\<lambda>a. CMP_QNAME a q) (take ?n ?ss) 0 = int s"
      using property_slot_unique [OF okk(4) s(1) sl s(2) q] by (simp add: property_slot_def)
    then have r: "removeHashEntry obj q = Some ?obj" using None okk(2) by (simp add: removeHashEntry_def Let_def)
    have "\<forall>x < length ?ss. hashChain (?ss[s := forget_name (?ss ! s)] ! x) = -1"
      using okk(6) [OF None] sl by (auto simp: nth_list_update forget_name_def)
    then have "pot_ok ?obj" "pot_view ?obj = (pot_view obj)(q := None)"
      using forgotten_ok [OF ok s q, of ?obj] p sl None okk(6) [OF None] by (auto simp: nth_list_update_neq)
    with r p sl show thesis by (intro that [of ?obj]) (simp_all add: slot_name_def forget_name_def)
  next
    case (Some bs)
    with okk(7) obtain ch where i: "indexed ?ss ?n bs ch" by blast
    then have c: "chains_ok ?ss ?n bs ch" by (simp add: indexed_def)
    have sc: "s \<in> set (chain_of bs ch q)" using i s q by (auto simp: indexed_def)
    obtain bs' ss' where u: "unlink_slots bs ?ss q = Some (bs', ss')" "length bs' = length bs" "length ss' = length ?ss"
      "\<And>y. y \<noteq> s \<Longrightarrow> ss' ! y = (?ss ! y)\<lparr>hashChain := hashChain (ss' ! y)\<rparr>" "ss' ! s = forget_name (?ss ! s)"
      "chains_ok ss' ?n bs' (ch(hash_index bs (fst q) := removeAll s (chain_of bs ch q)))"
      using unlink_slots_found [OF c sc s(2)] by blast
    let ?obj = "set_hash bs' (set_slots ss' obj)" and ?ch = "ch(hash_index bs (fst q) := removeAll s (chain_of bs ch q))"
    have nm: "slot_name ss' x = slot_name ?ss x" if "x \<noteq> s" for x
      using arg_cong [OF u(4) [OF that], of slot_qname] by (simp add: slot_name_def)
    have e: "slot_name ss' s = empty_qname" by (simp add: slot_name_def u(5) forget_name_def)
    have "x \<in> set (chain_of bs' ?ch (slot_name ss' x))" if x: "x < ?n" "slot_name ss' x \<noteq> empty_qname" for x
    proof -
      have "x \<noteq> s" using x(2) e by auto
      with x nm i show ?thesis by (auto simp: indexed_def hash_index_cong [OF u(2)])
    qed
    then have "indexed ss' ?n bs' ?ch" using u(6) by (simp add: indexed_def)
    then have "pot_ok ?obj \<and> pot_view ?obj = (pot_view obj)(q := None)"
      using forgotten_ok [OF ok s q, of ?obj] p u(3-5) by auto
    moreover have "removeHashEntry obj q = Some ?obj" using Some u(1) okk(2) by (simp add: removeHashEntry_def Let_def)
    ultimately show thesis using p e by (intro that [of ?obj]) simp_all
  qed
qed

text \<open>Deleting a property by its name.\<close>

lemma deletePotPropertyByName_ok:
  assumes ok: "pot_ok obj" and q: "q \<noteq> empty_qname" and d: "pot_view obj q \<noteq> None"
  obtains obj' where "deletePotPropertyByName ejs obj q = Some (0, ejs, obj')" "pot_ok obj'" "dynamic obj' = dynamic obj"
    "numProp obj' = numProp obj" "pot_view obj' = (pot_view obj)(q := None)"
proof -
  note okk = pot_okD [OF ok]
  have "0 \<le> property_slot obj q" using d by (auto simp: pot_view_def split: if_splits)
  then obtain s where s: "property_slot obj q = int s" "s < nat (numProp obj)" "slot_name (pot_slots obj) s = q"
    by (rule property_slot_present [OF _ okk(3)])
  have sl: "s < length (pot_slots obj)" using s okk(3) by simp
  obtain obj1 where o1: "removeHashEntry obj q = Some obj1" "pot_ok obj1" "pot_view obj1 = (pot_view obj)(q := None)"
    "numProp obj1 = numProp obj" "dynamic obj1 = dynamic obj" "slot_name (pot_slots obj1) s = empty_qname"
    by (rule removeHashEntry_ok [OF ok s(2,3) q])
  let ?f = "\<lambda>sp. sp\<lparr>slot_value := VUndefined, trait_type := None, trait_attributes := EJS_TRAIT_DELETED OR EJS_TRAIT_HIDDEN\<rparr>"
  obtain obj2 where o2: "update_slot ?f (int s) obj1 = Some obj2" "pot_ok obj2" "numProp obj2 = numProp obj1"
    "dynamic obj2 = dynamic obj1" "pot_slots obj2 = (pot_slots obj1)[s := ?f (pot_slots obj1 ! s)]"
    "\<And>q. property_slot obj2 q = property_slot obj1 q"
    by (rule update_slot_ok [OF o1(2), of s ?f]) (use s(2) o1(4) in auto)
  have "s \<noteq> nat (property_slot obj1 q')" if "q' \<noteq> empty_qname" "0 \<le> property_slot obj1 q'" for q'
    by (rule property_slot_present [OF that(2) pot_okD(3) [OF o1(2)]]) (use o1(6) that(1) in auto)
  then have "pot_view obj2 q' = pot_view obj1 q'" for q' by (auto simp: pot_view_def o2(6,5))
  then have v: "pot_view obj2 = (pot_view obj)(q := None)" using o1(3) by auto
  have "deletePotPropertyByName ejs obj q = Some (0, ejs, obj2)"
    using lookup_qualified [OF ok q] s sl o1(1) o2(1)
    by (simp add: deletePotPropertyByName_def deletePotProperty_def mem_read_def slot_name_def zless_nat_eq_int_zless)
  with o2 o1 v show thesis by (intro that [of obj2]) simp_all
qed

section \<open>The interface of property stores\<close>

text \<open>
  What the clients of an object rely on: defining and deleting properties by name changes the map
  from names to values in one place, and getting a property is looking it up in the map. An
  object may be limited in the number of properties it can take.
\<close>

locale property_store =
  fixes ok :: "'o \<Rightarrow> bool"
    and view :: "'o \<Rightarrow> 'k \<Rightarrow> 'v option"
    and valid :: "'k \<Rightarrow> bool"
    and used :: "'o \<Rightarrow> nat"
    and limit :: nat
    and put :: "'o \<Rightarrow> 'k \<Rightarrow> 'v \<Rightarrow> 'o option"
    and remove :: "'o \<Rightarrow> 'k \<Rightarrow> 'o option"
    and get :: "'o \<Rightarrow> 'k \<Rightarrow> 'v option option"
  assumes put_law: "ok obj \<Longrightarrow> valid k \<Longrightarrow> used obj < limit
      \<Longrightarrow> \<exists>obj'. put obj k v = Some obj' \<and> ok obj' \<and> used obj' \<le> Suc (used obj) \<and> view obj' = (view obj)(k \<mapsto> v)"
    and remove_law: "ok obj \<Longrightarrow> valid k
      \<Longrightarrow> \<exists>obj'. remove obj k = Some obj' \<and> ok obj' \<and> used obj' = used obj \<and> view obj' = (view obj)(k := None)"
    and get_law: "ok obj \<Longrightarrow> valid k \<Longrightarrow> get obj k = Some (view obj k)"

text \<open>Scripts of definitions and deletions, and what they do to a map.\<close>

datatype ('k, 'v) store_op = Put 'k 'v | Remove 'k

fun op_key :: "('k, 'v) store_op \<Rightarrow> 'k" where
  "op_key (Put k v) = k" | "op_key (Remove k) = k"

fun map_op :: "('k, 'v) store_op \<Rightarrow> ('k \<Rightarrow> 'v option) \<Rightarrow> 'k \<Rightarrow> 'v option" where
  "map_op (Put k v) m = m(k \<mapsto> v)"
| "map_op (Remove k) m = m(k := None)"

fun apply_op :: "('o \<Rightarrow> 'k \<Rightarrow> 'v \<Rightarrow> 'o option) \<Rightarrow> ('o \<Rightarrow> 'k \<Rightarrow> 'o option) \<Rightarrow> ('k, 'v) store_op \<Rightarrow> 'o \<Rightarrow> 'o option" where
  "apply_op put remove (Put k v) obj = put obj k v"
| "apply_op put remove (Remove k) obj = remove obj k"

fun store_ops :: "('o \<Rightarrow> 'k \<Rightarrow> 'v \<Rightarrow> 'o option) \<Rightarrow> ('o \<Rightarrow> 'k \<Rightarrow> 'o option) \<Rightarrow> ('k, 'v) store_op list \<Rightarrow> 'o \<Rightarrow> 'o option" where
  "store_ops put remove [] obj = Some obj"
| "store_ops put remove (x # xs) obj = Option.bind (apply_op put remove x obj) (store_ops put remove xs)"

context property_store
begin

lemma store_ops_view:
  assumes "ok obj" "\<forall>x \<in> set xs. valid (op_key x)" "used obj + length xs \<le> limit"
  shows "\<exists>obj'. store_ops put remove xs obj = Some obj' \<and> ok obj' \<and> view obj' = fold map_op xs (view obj)"
  using assms
proof (induction xs arbitrary: obj)
  case (Cons x xs)
  have "\<exists>obj1. apply_op put remove x obj = Some obj1 \<and> ok obj1 \<and> used obj1 \<le> Suc (used obj) \<and> view obj1 = map_op x (view obj)"
    using Cons.prems put_law [OF Cons.prems(1)] remove_law [OF Cons.prems(1)] by (cases x) fastforce+
  then obtain obj1 where "apply_op put remove x obj = Some obj1" "ok obj1" "used obj1 \<le> Suc (used obj)"
    "view obj1 = map_op x (view obj)" by blast
  with Cons.IH [of obj1] Cons.prems show ?case by simp
qed simp

lemma store_ops_get:
  assumes "ok obj" "\<forall>x \<in> set xs. valid (op_key x)" "used obj + length xs \<le> limit" "valid k"
  shows "\<exists>obj'. store_ops put remove xs obj = Some obj' \<and> get obj' k = Some (fold map_op xs (view obj) k)"
  using store_ops_view [OF assms(1-3)] get_law [OF _ assms(4)] by metis

end

text \<open>An interpreter with memory.\<close>

definition ready :: "ejs_error option \<Rightarrow> ejs" where
  "ready e = \<lparr>exception = e, heap = (\<lambda>_. True)\<rparr>"

definition pot_put :: "ejs \<Rightarrow> function_table \<Rightarrow> pot \<Rightarrow> qname \<Rightarrow> ejs_value \<Rightarrow> pot option" where
  "pot_put ejs fns obj q v = map_option (\<lambda>(_, _, _, obj'). obj') (definePotProperty ejs fns obj (-1) q None 0 (Some v))"

text \<open>A deletion of a property that is not there throws and leaves the object as it is.\<close>

definition pot_remove :: "ejs \<Rightarrow> pot \<Rightarrow> qname \<Rightarrow> pot option" where
  "pot_remove ejs obj q = map_option (\<lambda>(_, _, obj'). obj') (deletePotPropertyByName ejs obj q)"

definition pot_get :: "ejs \<Rightarrow> pot \<Rightarrow> qname \<Rightarrow> ejs_value option option" where
  "pot_get ejs obj q =
     Option.bind (ejsLookupPotProperty obj (fst q) (Some (snd q))) (\<lambda>s.
       if s < 0 then Some None else map_option fst (getPotProperty ejs obj s))"

lemma pot_get_view:
  assumes "pot_ok obj" "q \<noteq> empty_qname"
  shows "pot_get ejs obj q = Some (pot_view obj q)"
proof (cases "property_slot obj q < 0")
  case True
  with lookup_qualified [OF assms] show ?thesis by (simp add: pot_get_def pot_view_def)
next
  case False
  note ok = pot_okD [OF assms(1)]
  from False obtain s where s: "property_slot obj q = int s" "s < nat (numProp obj)"
    using property_slot_present [OF _ ok(3), of q] by auto
  with lookup_qualified [OF assms] ok(3) assms(2) show ?thesis
    by (auto simp: pot_get_def pot_view_def getPotProperty_def mem_read_def zless_nat_eq_int_zless)
qed

interpretation pot_store: property_store "\<lambda>obj. pot_ok obj \<and> dynamic obj" pot_view "\<lambda>q. q \<noteq> empty_qname"
  "\<lambda>obj. nat (numProp obj)" "nat MAX_HASH" "pot_put (ready e) fns" "pot_remove (ready e)" "pot_get (ready e)"
  for e fns
proof
  fix obj q v
  assume a: "pot_ok obj \<and> dynamic obj" "q \<noteq> empty_qname" "nat (numProp obj) < nat MAX_HASH"
  have m: "heap (ready e) = (\<lambda>_. True)" by (simp add: ready_def)
  show "\<exists>obj'. pot_put (ready e) fns obj q v = Some obj' \<and> (pot_ok obj' \<and> dynamic obj')
      \<and> nat (numProp obj') \<le> Suc (nat (numProp obj)) \<and> pot_view obj' = (pot_view obj)(q \<mapsto> v)"
    by (rule definePotProperty_ok [of obj q "ready e" 0 fns None v])
      (use a m in \<open>auto simp: pot_put_def isAccessor_def\<close>)
next
  fix obj q
  assume a: "pot_ok obj \<and> dynamic obj" "q \<noteq> empty_qname"
  show "\<exists>obj'. pot_remove (ready e) obj q = Some obj' \<and> (pot_ok obj' \<and> dynamic obj')
      \<and> nat (numProp obj') = nat (numProp obj) \<and> pot_view obj' = (pot_view obj)(q := None)"
  proof (cases "pot_view obj q = None")
    case True
    then have "property_slot obj q < 0" using a(2) by (auto simp: pot_view_def split: if_splits)
    with lookup_qualified [of obj q] a True show ?thesis
      by (auto simp: pot_remove_def deletePotPropertyByName_def fun_upd_idem)
  next
    case False
    show ?thesis by (rule deletePotPropertyByName_ok [of obj q "ready e"]) (use a False in \<open>auto simp: pot_remove_def\<close>)
  qed
next
  fix obj q
  assume "pot_ok obj \<and> dynamic obj" "q \<noteq> empty_qname"
  then show "pot_get (ready e) obj q = Some (pot_view obj q)" by (simp add: pot_get_view)
qed

lemma blank_pot_ok: "pot_ok blank_pot" "pot_view blank_pot = Map.empty" "pot_ok (blank_pot\<lparr>dynamic := True\<rparr>)"
    "pot_view (blank_pot\<lparr>dynamic := True\<rparr>) = Map.empty"
  by (simp_all add: pot_ok_def blank_pot_def pot_slots_def pot_hash_def names_distinct_def pot_view_def
      property_slot_def fun_eq_iff)

text \<open>
  Property C1. A dynamic object is a finite map: after any script of at most 196613 definitions and deletions of properties,
  with names that are not empty, on a new object, looking such a name up and getting its slot gives the value of the map that the
  same script makes, or nothing when the map has none. A deletion of a name that is not there changes nothing. The index is
  built on the way when there are more than eight properties and remade whenever it is too small. The bound is that of the largest
  index: an object of more properties is never indexed.
\<close>

theorem pot_refines_map:
  assumes "ejsCreatePot (ready e) \<lparr>prototype = proto, hasInstanceVars = False, dynamicInstances = True\<rparr> 0 = Some obj"
    and "\<forall>x \<in> set script. op_key x \<noteq> empty_qname" and "int (length script) \<le> 196613"
    and "q \<noteq> empty_qname"
  shows "\<exists>obj'. store_ops (pot_put (ready e) fns) (pot_remove (ready e)) script obj = Some obj'
     \<and> pot_get (ready e) obj' q = Some (fold map_op script Map.empty q)"
proof -
  have o: "obj = blank_pot\<lparr>dynamic := True\<rparr>" using assms(1) by (auto simp: ejsCreatePot_def blank_pot_def Let_def)
  have "pot_ok obj \<and> dynamic obj" "pot_view obj = Map.empty" "numProp obj = 0"
    using blank_pot_ok by (simp_all add: o) (simp add: blank_pot_def)
  with pot_store.store_ops_get [of obj script q e fns] assms(2-4) show ?thesis by (simp add: MAX_HASH_def)
qed

definition no_functions :: function_table where
  "no_functions = \<lparr>setter = (\<lambda>_. None), native = (\<lambda>_. False), next_function = 0, nop_native = True\<rparr>"

theorem pot_refines_map_witness:
  "\<exists>obj'. store_ops (pot_put (ready None) no_functions) (pot_remove (ready None))
       [Put (''a'', ''public'') (VOther 1), Put (''b'', ''public'') (VOther 2), Remove (''a'', ''public''), Remove (''c'', ''public''), Put (''b'', ''public'') VNull]
       (blank_pot\<lparr>dynamic := True\<rparr>) = Some obj'
     \<and> pot_get (ready None) obj' (''b'', ''public'') = Some (Some VNull)"
  using pot_refines_map [of None blank_pot "blank_pot\<lparr>dynamic := True\<rparr>"
      "[Put (''a'', ''public'') (VOther 1), Put (''b'', ''public'') (VOther 2), Remove (''a'', ''public''), Remove (''c'', ''public''), Put (''b'', ''public'') VNull]"
      "(''b'', ''public'')" no_functions]
  by (simp add: empty_qname_def ejsCreatePot_def blank_pot_def del: store_ops.simps)

text \<open>
  Property C18. The hashed lookup of a full name is the linear search through the slots: on every
  object that the operations keep in order it ends, stays inside the slots, and returns the slot
  that has the name, or a negative number when there is none.
\<close>

theorem hashed_lookup_is_linear_search:
  assumes "pot_ok obj" and "(name, space) \<noteq> empty_qname"
  shows "ejsLookupPotProperty obj name (Some space)
     = Some (find_slot (\<lambda>q. CMP_QNAME q (name, space)) (take (nat (numProp obj)) (pot_slots obj)) 0)"
  using lookup_qualified [OF assms] by (simp add: property_slot_def)

text \<open>
  A lookup without a namespace returns the slot of the name when exactly one slot has
  it, and fails when several namespaces have it, with an index as without one.
\<close>

theorem lookup_without_namespace:
  assumes "pot_ok obj" and "name \<noteq> []"
  shows "ejsLookupPotProperty obj name None = Some (only_slot (named_slots obj name))"
  by (rule lookup_unqualified [OF assms])

text \<open>An object of two properties of the same name in different namespaces, and a third.\<close>

definition sample_slot :: "string \<Rightarrow> string \<Rightarrow> slot" where
  "sample_slot n s = zero_slot\<lparr>slot_qname := (n, s)\<rparr>"

definition sample_pot :: pot where
  "sample_pot = blank_pot\<lparr>dynamic := True, props := Some \<lparr>hash = None,
     slots = [sample_slot ''a'' ''x'', sample_slot ''a'' ''y'', sample_slot ''b'' ''x'', zero_slot]\<rparr>, numProp := 3\<rparr>"

lemma sample_pot_ok: "pot_ok sample_pot"
  by (auto simp: pot_ok_def sample_pot_def pot_slots_def pot_hash_def names_distinct_def sample_slot_def slot_name_def
      less_Suc_eq numeral_3_eq_3 nth_Cons empty_qname_def zero_slot_def split: nat.splits)

text \<open>An object of nine properties, and its index.\<close>

definition nine_pot :: pot where
  "nine_pot = blank_pot\<lparr>dynamic := True, props := Some \<lparr>hash = None,
     slots = map (\<lambda>n. sample_slot n ''x'') [''a'', ''b'', ''c'', ''d'', ''e'', ''f'', ''g'', ''h'', ''i''] @ [zero_slot]\<rparr>, numProp := 9\<rparr>"

lemma nine_pot_ok: "can_index nine_pot"
  by (auto simp: can_index_def MAX_HASH_def nine_pot_def pot_slots_def pot_hash_def names_distinct_def sample_slot_def slot_name_def
      less_Suc_eq eval_nat_numeral nth_Cons empty_qname_def zero_slot_def split: nat.splits)

theorem hashed_lookup_is_linear_search_witness:
  "\<exists>obj. ejsIndexProperties (ready None) nine_pot = Some (0, obj) \<and> pot_hash obj \<noteq> None
     \<and> ejsLookupPotProperty obj ''g'' (Some ''x'') = Some 6"
proof -
  from index_properties_ok [OF nine_pot_ok, of "ready None" 1] obtain obj where
    o: "ejsIndexProperties (ready None) nine_pot = Some (0, obj)" "pot_ok obj" "numProp obj = 9"
      "unlinked (pot_slots obj) = unlinked (pot_slots nine_pot)" "pot_hash obj \<noteq> None"
    by (auto simp: ejsIndexProperties_def ready_def numeral_2_eq_2 nine_pot_def EJS_HASH_MIN_PROP_def)
  have "map slot_qname (pot_slots obj) = map slot_qname (pot_slots nine_pot)"
    using arg_cong [OF o(4), of "map slot_qname"] by (simp add: unlinked_def comp_def)
  then have "find_slot P (take 9 (pot_slots obj)) 0 = find_slot P (take 9 (pot_slots nine_pot)) 0" for P
    by (intro find_slot_cong) (simp add: take_map [symmetric])
  with hashed_lookup_is_linear_search [OF o(2), of "''g''" "''x''"] o show ?thesis
    by (simp add: empty_qname_def nine_pot_def pot_slots_def sample_slot_def CMP_QNAME_def eval_nat_numeral)
qed

theorem lookup_without_namespace_witness:
  "ejsLookupPotProperty sample_pot ''a'' None = Some (-1) \<and> ejsLookupPotProperty sample_pot ''b'' None = Some 2"
  using lookup_without_namespace [OF sample_pot_ok, of "''a''"] lookup_without_namespace [OF sample_pot_ok, of "''b''"]
  by (simp add: named_slots_def sample_pot_def pot_slots_def slot_name_def sample_slot_def upt_rec numeral_3_eq_3)

text \<open>
  Property C29. Making the index of an object with up to 196613 properties of different names ends,
  whatever index it had before: the slots keep everything but their links, and the index is in
  order, so that lookups find every name.
\<close>

theorem reindex_restores_index:
  assumes "can_index obj" and "heap ejs = (\<lambda>_. True)"
  shows "\<exists>obj'. ejsIndexProperties ejs obj = Some (0, obj') \<and> pot_ok obj' \<and> numProp obj' = numProp obj
     \<and> unlinked (pot_slots obj') = unlinked (pot_slots obj)"
  using index_properties_ok [OF assms, of 1] by (auto simp: ejsIndexProperties_def numeral_2_eq_2)

theorem reindex_restores_index_witness:
  "\<exists>obj'. ejsIndexProperties (ready None) nine_pot = Some (0, obj') \<and> pot_ok obj' \<and> numProp obj' = 9"
  using reindex_restores_index [OF nine_pot_ok, of "ready None"] by (auto simp: ready_def nine_pot_def)

text \<open>
  Property C30. With more than 196613 properties the index is never finished: the largest hash size
  is smaller than the number of properties, so \<^verbatim>\<open>hashProperty\<close> asks for a new index for the first
  slot of every new index, at any depth of the calls.
\<close>

theorem index_never_ends_beyond_largest_hash:
  assumes "196613 < numProp obj" and "numProp obj \<le> int (length (pot_slots obj))" and "pot_hash obj = None"
    and "heap ejs = (\<lambda>_. True)"
  shows "index_properties depth ejs obj = None"
proof (rule index_properties_diverges)
  show "props obj \<noteq> None" using assms(1,2) by (auto simp: pot_slots_def split: option.splits)
qed (use assms in \<open>simp_all add: MAX_HASH_def\<close>)

definition many :: nat where
  "many = 200000"

definition huge_pot :: pot where
  "huge_pot = blank_pot\<lparr>props := Some \<lparr>hash = None, slots = replicate many zero_slot\<rparr>, numProp := 196614\<rparr>"

theorem index_never_ends_beyond_largest_hash_witness:
  "\<forall>depth. index_properties depth (ready None) huge_pot = None"
proof
  fix depth
  have "196614 \<le> int many" by (simp add: many_def)
  then show "index_properties depth (ready None) huge_pot = None"
    by (intro index_never_ends_beyond_largest_hash)
      (simp_all add: huge_pot_def pot_slots_def pot_hash_def ready_def)
qed

section \<open>Inserting slots\<close>

lemma shift_slots_nth:
  assumes "0 < m" "n \<le> length ss" "x < length ss"
  shows "shift_slots m (rev [m..<n]) ss ! x = (if m \<le> x \<and> x < n then ss ! (x - m) else ss ! x)"
  using assms
proof (induction n arbitrary: ss)
  case (Suc n)
  show ?case
  proof (cases "m \<le> n")
    case True
    have "shift_slots m (rev [m..<Suc n]) ss = shift_slots m (rev [m..<n]) (ss[n := ss ! (n - m)])"
      using True by simp
    with Suc.IH [of "ss[n := ss ! (n - m)]"] Suc.prems True show ?thesis by (auto simp: nth_list_update)
  qed (use Suc.prems in auto)
qed simp

lemma shift_slots_length: "length (shift_slots m xs ss) = length ss"
  by (induction xs arbitrary: ss) simp_all

text \<open>The slots after an insertion of \<open>m\<close> at the front of the first \<open>k\<close>.\<close>

definition pushed :: "nat \<Rightarrow> nat \<Rightarrow> slot list \<Rightarrow> slot list" where
  "pushed m k ss = replicate m zero_slot @ take k ss @ drop (k + m) ss"

lemma pushed_eq:
  assumes "0 < m" "k + m \<le> length ss"
  shows "ejsZeroSlots (shift_slots m (rev [m..<k + m]) ss) 0 (int m) = Some (pushed m k ss)"
proof -
  let ?s = "shift_slots m (rev [m..<k + m]) ss"
  have "drop m ?s = take k ss @ drop (k + m) ss"
  proof (rule nth_equalityI)
    show "drop m ?s ! i = (take k ss @ drop (k + m) ss) ! i" if "i < length (drop m ?s)" for i
      using that assms shift_slots_nth [OF assms, of "m + i"] by (auto simp: shift_slots_length nth_append min_def)
  qed (use assms in \<open>simp add: shift_slots_length\<close>)
  with assms show ?thesis by (simp add: ejsZeroSlots_def mem_write_block_def pushed_def shift_slots_length)
qed

lemma pushed_name:
  assumes "k + m \<le> length ss" "x < length ss"
  shows "pushed m k ss ! x = (if x < m then zero_slot else if x < k + m then ss ! (x - m) else ss ! x)"
  using assms by (auto simp: pushed_def nth_append min_def)

lemma pushed_can_index:
  assumes ok: "pot_ok obj" and m: "nat (numProp obj) + m \<le> length (pot_slots obj)" "numProp obj + int m \<le> MAX_HASH" and p: "props obj \<noteq> None"
  shows "can_index (set_slots (pushed m (nat (numProp obj)) (pot_slots obj)) (obj\<lparr>numProp := numProp obj + int m\<rparr>))"
proof -
  note okk = pot_okD [OF ok]
  let ?ss = "pot_slots obj" and ?k = "nat (numProp obj)"
  let ?ss' = "pushed m ?k ?ss"
  have len: "length ?ss' = length ?ss" using m(1) by (simp add: pushed_def)
  note nth' = pushed_name [OF m(1)]
  have nm: "slot_name ?ss' x = (if x < m then empty_qname else slot_name ?ss (x - m))" if "x < ?k + m" for x
    using nth' [of x] that m(1) by (simp add: slot_name_def)
  have f: "hashChain (?ss ! x) = -1 \<and> slot_name ?ss x = empty_qname" if "?k + m \<le> x" "x < length ?ss" for x
    using fresh_slot [OF ok, of x] that by simp
  have "names_distinct ?ss' (?k + m)"
    unfolding names_distinct_def
  proof (intro allI impI)
    fix x y assume a: "x < ?k + m" "y < ?k + m" "slot_name ?ss' x = slot_name ?ss' y" "slot_name ?ss' x \<noteq> empty_qname"
    then have ge: "m \<le> x" "m \<le> y" by (auto simp: nm split: if_splits)
    then have "x - m < ?k" "y - m < ?k" using a by auto
    then have "x - m = y - m" using a ge names_distinctD [OF okk(4), of "x - m" "y - m"] by (auto simp: nm)
    with ge show "x = y" by simp
  qed
  moreover have "slot_name ?ss' x = empty_qname" if "?k + m \<le> x" "x < length ?ss" for x
    using f [OF that] nth' [OF that(2)] that(1) by (simp add: slot_name_def)
  moreover have "hashChain (?ss' ! x) = -1" if "pot_hash obj = None \<or> ?k + m \<le> x" "x < length ?ss" for x
    using that f [of x] nth' [OF that(2)] okk(6) m(1) by auto
  ultimately show ?thesis
    using okk(1) m p len by (auto simp: can_index_def nat_add_distrib)
qed

lemma pushed_property_slot:
  assumes ok: "pot_ok obj" "pot_ok obj'" and q: "q \<noteq> empty_qname" and n: "nat (numProp obj') = nat (numProp obj) + m"
    and nm: "\<And>x. x < nat (numProp obj') \<Longrightarrow> slot_name (pot_slots obj') x = (if x < m then empty_qname else slot_name (pot_slots obj) (x - m))"
  shows "property_slot obj' q = (if property_slot obj q < 0 then -1 else property_slot obj q + int m)"
proof (cases "property_slot obj q < 0")
  case True
  then have "\<forall>x < nat (numProp obj). slot_name (pot_slots obj) x \<noteq> q"
    using property_slot_absent [OF pot_okD(3) [OF ok(1)], of q] property_slot_neg by blast
  then have "\<forall>x < nat (numProp obj'). slot_name (pot_slots obj') x \<noteq> q" using q n by (auto simp: nm)
  with True property_slot_absent [OF pot_okD(3) [OF ok(2)], of q] show ?thesis by simp
next
  case False
  then obtain x where x: "property_slot obj q = int x" "x < nat (numProp obj)" "slot_name (pot_slots obj) x = q"
    using property_slot_present [OF _ pot_okD(3) [OF ok(1)], of q] by auto
  have "property_slot obj' q = int (x + m)"
    by (rule property_slot_unique [OF pot_okD(4) [OF ok(2)]])
      (use x q nm [of "x + m"] n pot_okD(3) [OF ok(2)] in auto)
  with x(1) False show ?thesis by simp
qed

text \<open>
  Inserting slots at the front, as a class does for the properties that it inherits:
  every property keeps its name and moves up by the number of slots inserted, and the index is in
  order again.
\<close>

theorem insert_at_front_shifts:
  assumes ok: "pot_ok obj" and incr: "0 < incr" "numProp obj + incr \<le> 196613" and heap: "heap ejs = (\<lambda>_. True)" and q: "q \<noteq> empty_qname"
  shows "\<exists>obj'. ejsInsertPotProperties ejs obj incr 0 = Some (0, obj') \<and> pot_ok obj' \<and> numProp obj' = numProp obj + incr
     \<and> property_slot obj' q = (if property_slot obj q < 0 then -1 else property_slot obj q + incr)"
proof -
  define n where "n = numProp obj + incr"
  define m where "m = nat incr"
  have n0: "0 \<le> numProp obj" using pot_okD(1) [OF ok] .
  have m: "0 < m" "int m = incr" "nat n = nat (numProp obj) + m" using incr(1) n0 by (auto simp: m_def n_def nat_add_distrib)
  obtain rc obj1 where g: "(if needs_slots obj (n - 1) then growSlots ejs obj n else (0, obj)) = (rc, obj1)" by (rule prod.exhaust)
  have g1: "rc = 0" "numProp obj1 = numProp obj" "pot_hash obj1 = pot_hash obj" "n \<le> int (length (pot_slots obj1))" "props obj1 \<noteq> None"
    "\<exists>k. pot_slots obj1 = pot_slots obj @ replicate k zero_slot"
    using g growSlots_ok [OF heap, of obj n rc obj1] incr(1) n0
    by (auto simp: needs_slots_def n_def split: if_splits intro: exI [of _ 0])
  from g1(6) obtain k where k: "pot_slots obj1 = pot_slots obj @ replicate k zero_slot" by blast
  have ok1: "pot_ok obj1" by (rule pot_ok_extend(1) [OF ok k g1(3)]) (use g1 incr(1) in \<open>simp_all add: n_def\<close>)
  let ?ss = "pot_slots obj1" and ?k = "nat (numProp obj)"
  let ?obj = "set_slots (pushed m ?k ?ss) (obj1\<lparr>numProp := n\<rparr>)"
  have len: "?k + m \<le> length ?ss" using g1(4) m(3) by simp
  have ci: "can_index ?obj"
    using pushed_can_index [OF ok1, of m] g1(2,5) len incr(2) m(2) by (simp add: MAX_HASH_def n_def)
  from index_properties_ok [OF ci heap, of 1] obtain obj' where o': "ejsIndexProperties ejs ?obj = Some (0, obj')" "pot_ok obj'"
    "numProp obj' = n" "unlinked (pot_slots obj') = unlinked (pushed m ?k ?ss)"
    using g1(5) by (auto simp: ejsIndexProperties_def numeral_2_eq_2)
  have "slot_name (pot_slots obj') x = (if x < m then empty_qname else slot_name (pot_slots obj) (x - m))" if "x < nat n" for x
    using unlinked_name [OF o'(4), of x] that len m(3) k pot_okD(3) [OF ok] pushed_name [OF len, of x]
    by (auto simp: slot_name_def pushed_def nth_append)
  then have "property_slot obj' q = (if property_slot obj q < 0 then -1 else property_slot obj q + int m)"
    using o'(3) m(3) by (intro pushed_property_slot [OF ok o'(2) q]) simp_all
  moreover have "ejsInsertPotProperties ejs obj incr 0 = Some (0, obj')"
    using incr(1) g g1(1,4) pushed_eq [OF m(1) len] o'(1) m
    by (simp add: ejsInsertPotProperties_def Let_def flip: n_def m_def)
  ultimately show ?thesis using o' m(2) by (auto simp: n_def)
qed

theorem insert_at_front_shifts_witness:
  "\<exists>obj'. ejsInsertPotProperties (ready None) sample_pot 2 0 = Some (0, obj') \<and> numProp obj' = 5 \<and> property_slot obj' (''b'', ''x'') = 4"
proof -
  have "property_slot sample_pot (''b'', ''x'') = 2"
    by (simp add: property_slot_def sample_pot_def pot_slots_def sample_slot_def CMP_QNAME_def numeral_3_eq_3)
  with insert_at_front_shifts [OF sample_pot_ok, of 2 "ready None" "(''b'', ''x'')"] show ?thesis
    by (auto simp: ready_def empty_qname_def sample_pot_def)
qed

text \<open>
  Inserting anywhere else moves the wrong slots: the loop reads the slot at the
  distance of the mark instead of the number of slots inserted. Inserting one slot behind the
  first of three duplicates the first property and loses the last.
\<close>

theorem insert_in_middle_loses_property:
  "map_option (\<lambda>(rc, obj). (rc, numProp obj, map slot_qname (take 4 (pot_slots obj)))) (ejsInsertPotProperties (ready None) sample_pot 1 1)
     = Some (0, 4, [(''a'', ''x''), empty_qname, (''a'', ''x''), (''a'', ''y'')])"
  by code_simp

text \<open>Naming slots one after the other.\<close>

fun set_names :: "ejs \<Rightarrow> (int \<times> qname) list \<Rightarrow> pot \<Rightarrow> pot option" where
  "set_names ejs [] obj = Some obj"
| "set_names ejs ((s, q) # rest) obj =
     Option.bind (setPotPropertyName ejs obj s q) (\<lambda>(rc, ejs1, obj1). set_names ejs1 rest obj1)"

text \<open>
  Renaming the last slot of a hash chain does not take it out of the chain, since only
  slots with a successor are unlinked. A slot that is in two chains in this way cuts one of them
  when it is renamed again: here slot 8 is renamed, slot 9 is added behind it in its old chain,
  and after the second renaming the property in slot 9 is not found any more.
\<close>

theorem rename_loses_property:
  "Option.bind (ejsIndexProperties (ready None) nine_pot) (\<lambda>(_, obj0).
   map_option (\<lambda>obj. (slot_qname (pot_slots obj ! 9), numProp obj, ejsLookupPotProperty obj ''z'' (Some ''x'')))
     (set_names (ready None) [(8, (''l'', ''x'')), (9, (''z'', ''x'')), (8, (''m'', ''x''))] obj0))
   = Some ((''z'', ''x''), 10, Some (-1))"
  by code_simp

end
