(* ===== verification/MprString.thy ===== *)
theory MprString
  imports Prelude "HOL-Library.Monad_Syntax"
begin

text \<open>
  Strings of the runtime (\<^verbatim>\<open>src/mpr/mprLib.c\<close>): comparison and hashing without case, and the conversion of
  numbers to strings and back. Strings are C strings, without the null character at their end. Integers of 64 bits that
  overflow are undefined (\<^const>\<open>None\<close>), and so is a write outside of the buffer for the digits.
\<close>

section \<open>C strings\<close>

text \<open>A function that takes a C string sees what is in front of the first null character.\<close>

definition c_string :: "string \<Rightarrow> bool" where
  "c_string s \<longleftrightarrow> CHR 0x00 \<notin> set s"

definition c_str :: "string \<Rightarrow> string" where
  "c_str s = takeWhile (\<lambda>ch. ch \<noteq> CHR 0x00) s"

lemma c_str_id [simp]: "c_string k \<Longrightarrow> c_str k = k"
  unfolding c_str_def c_string_def by (rule takeWhile_eq_all_conv [THEN iffD2]) auto

section \<open>Without case\<close>

text \<open>\<^verbatim>\<open>tolower\<close> of the C locale on an unsigned character.\<close>

definition tolower :: "char \<Rightarrow> int" where
  "tolower c = (let v = int (of_char c) in if 65 \<le> v \<and> v \<le> 90 then v + 32 else v)"

definition shashlower :: "string \<Rightarrow> uint32" where
  "shashlower cname = foldl (\<lambda>h c. (h XOR word_of_int (tolower c)) * HASH_PRIME) (of_nat (length cname)) cname"

text \<open>The comparison without case: the end of a string reads as the null character.\<close>

fun sncaselesscmp :: "string \<Rightarrow> string \<Rightarrow> nat \<Rightarrow> int" where
  "sncaselesscmp (c # s1) s2 (Suc n) =
     (let rc = tolower c - (case s2 of [] \<Rightarrow> 0 | d # _ \<Rightarrow> tolower d)
      in if rc \<noteq> 0 then (if rc > 0 then 1 else -1) else sncaselesscmp s1 (tl s2) n)"
| "sncaselesscmp s1 s2 0 = 0"
| "sncaselesscmp [] s2 (Suc n) = (if s2 = [] then 0 else -1)"

definition scaselesscmp :: "string \<Rightarrow> string \<Rightarrow> int" where
  "scaselesscmp s1 s2 = sncaselesscmp s1 s2 (max (length s1) (length s2))"

section \<open>Numbers\<close>

definition in_int64 :: "int \<Rightarrow> bool" where
  "in_int64 v \<longleftrightarrow> - (2 ^ 63) \<le> v \<and> v < 2 ^ 63"

definition check_int64 :: "int \<Rightarrow> int option" where
  "check_int64 v = (if in_int64 v then Some v else None)"

definition digits :: string where "digits = ''0123456789ABCDEF''"

text \<open>
  The digits from the last to the first, each in front of those there are: \<open>cp\<close> is the place in the buffer behind the
  next digit.
\<close>

function put_digits :: "int \<Rightarrow> int \<Rightarrow> int \<Rightarrow> string \<Rightarrow> (int \<times> string) option" where
  "put_digits radix value cp acc =
     (if radix < 2 \<or> cp \<le> 0 then None
      else do { d \<leftarrow> mem_read digits (value mod radix);
                let value1 = value div radix;
                if value1 > 0 then put_digits radix value1 (cp - 1) (d # acc) else Some (cp - 1, d # acc) })"
  by pat_completeness auto
termination by (relation "measure (\<lambda>(_, _, cp, _). nat cp)") auto

declare put_digits.simps [simp del]

text \<open>A radix that is not supported gives the null string, the inner \<^const>\<open>None\<close>. The buffer has 32 places, the last one for the null character.\<close>

definition itosradix :: "int \<Rightarrow> int \<Rightarrow> string option option" where
  "itosradix value radix =
     (if radix \<noteq> 10 \<and> radix \<noteq> 16 then Some None
      else do { v \<leftarrow> (if value < 0 then check_int64 (- value) else Some value);
                (cp, s) \<leftarrow> put_digits radix v 31 [];
                if value < 0 then (if cp \<le> 0 then None else Some (Some (CHR ''-'' # s))) else Some (Some s) })"

definition itos :: "int \<Rightarrow> string option option" where
  "itos value = itosradix value 10"

definition char_code :: "char \<Rightarrow> int" where
  "char_code c = int (of_char c)"

definition isspace :: "char \<Rightarrow> bool" where
  "isspace c \<longleftrightarrow> char_code c = 32 \<or> (9 \<le> char_code c \<and> char_code c \<le> 13)"

definition isdigit :: "char \<Rightarrow> bool" where
  "isdigit c \<longleftrightarrow> 48 \<le> char_code c \<and> char_code c \<le> 57"

text \<open>
  The loops over the digits: the value, and the rest of the string. In base sixteen the code of the character is added before the
  code of the first digit is taken away, so that the largest numbers overflow on the way.
\<close>

fun hex_digits :: "string \<Rightarrow> int \<Rightarrow> (int \<times> string) option" where
  "hex_digits [] val = Some (val, [])"
| "hex_digits (ch # str) val =
     (let c = tolower ch
      in if 48 \<le> c \<and> c \<le> 57 then do { v \<leftarrow> check_int64 (val * 16 + c); hex_digits str (v - 48) }
         else if 97 \<le> c \<and> c \<le> 102 then do { v \<leftarrow> check_int64 (val * 16 + c); hex_digits str (v - 97 + 10) }
         else Some (val, ch # str))"

fun dec_digits :: "int \<Rightarrow> string \<Rightarrow> int \<Rightarrow> (int \<times> string) option" where
  "dec_digits radix [] val = Some (val, [])"
| "dec_digits radix (ch # str) val =
     (let n = char_code ch - 48
      in if \<not> isdigit ch \<or> n \<ge> radix then Some (val, ch # str)
         else do { v \<leftarrow> check_int64 (val * radix + n); dec_digits radix str v })"

definition second_is_x :: "string \<Rightarrow> bool" where
  "second_is_x str \<longleftrightarrow> (case str of _ # c # _ \<Rightarrow> tolower c = 120 | _ \<Rightarrow> False)"

definition starts_0 :: "string \<Rightarrow> bool" where
  "starts_0 str \<longleftrightarrow> (case str of c # _ \<Rightarrow> c = CHR ''0'' | [] \<Rightarrow> False)"

text \<open>The radix that is used, and the string behind a prefix.\<close>

definition radix_prefix :: "string \<Rightarrow> int \<Rightarrow> int \<times> string" where
  "radix_prefix str radix =
     (if radix \<le> 0
      then if starts_0 str then (if second_is_x str then (16, drop 2 str) else (8, drop 1 str)) else (10, str)
      else if radix = 16 then (16, if starts_0 str \<and> second_is_x str then drop 2 str else str)
      else (if radix > 10 then 10 else radix, str))"

definition MPR_ERR_BAD_SYNTAX :: int where "MPR_ERR_BAD_SYNTAX = -8"

text \<open>The error code and the value. The string is not null.\<close>

definition stoiradix :: "string \<Rightarrow> int \<Rightarrow> (int \<times> int) option" where
  "stoiradix str0 radix0 =
     (let str1 = dropWhile isspace str0;
          negative = (str1 \<noteq> [] \<and> hd str1 = CHR ''-'');
          start = (if negative then tl str1 else str1);
          (radix, str2) = radix_prefix start radix0
      in do { (val, rest) \<leftarrow> (if radix = 16 then hex_digits str2 0 else dec_digits radix str2 0);
              if rest = start then Some (MPR_ERR_BAD_SYNTAX, 0)
              else Some (0, if negative then - val else val) })"

definition stoi :: "string \<Rightarrow> int option" where
  "stoi str = map_option snd (stoiradix str 10)"

section \<open>Numbers come back\<close>

definition digit_value :: "char \<Rightarrow> int" where
  "digit_value c = (if isdigit c then char_code c - 48 else tolower c - 87)"

text \<open>What the loops read off a digit of the table.\<close>

definition digit_law :: "nat \<Rightarrow> bool" where
  "digit_law d \<longleftrightarrow> digit_value (digits ! d) = int d \<and> digits ! d \<noteq> CHR ''-'' \<and> \<not> isspace (digits ! d) \<and> tolower (digits ! d) \<noteq> 120
     \<and> (d < 10 \<longrightarrow> isdigit (digits ! d) \<and> tolower (digits ! d) = 48 + int d) \<and> (10 \<le> d \<longrightarrow> tolower (digits ! d) = 87 + int d)"

lemma digit_laws: "d < 16 \<Longrightarrow> digit_law d"
proof -
  have "\<forall>d \<in> set [0..<16]. digit_law d" by code_simp
  then show "d < 16 \<Longrightarrow> digit_law d" by auto
qed

definition is_digits :: "int \<Rightarrow> string \<Rightarrow> bool" where
  "is_digits r ds \<longleftrightarrow> (\<forall>c \<in> set ds. \<exists>d. d < nat r \<and> c = digits ! d)"

definition number :: "int \<Rightarrow> int \<Rightarrow> string \<Rightarrow> int" where
  "number r a ds = foldl (\<lambda>a c. a * r + digit_value c) a ds"

lemma put_digits_ok:
  assumes "2 \<le> r" "r \<le> 16"
  shows "0 \<le> v \<Longrightarrow> v < r ^ n \<Longrightarrow> 0 < n \<Longrightarrow> int n \<le> cp
     \<Longrightarrow> \<exists>ds. put_digits r v cp acc = Some (cp - int (length ds), ds @ acc) \<and> ds \<noteq> [] \<and> length ds \<le> n \<and> is_digits r ds \<and> number r 0 ds = v
       \<and> (if v = 0 then length ds = 1 else digit_value (hd ds) \<noteq> 0)"
proof (induction n arbitrary: v cp acc)
  case (Suc n)
  have m: "0 \<le> v mod r" "v mod r < r" using assms by simp_all
  define d where "d = digits ! nat (v mod r)"
  have d: "mem_read digits (v mod r) = Some d" 
  proof -
    have "int (length digits) = 16" by (simp add: digits_def)
    then have "v mod r < int (length digits)" using m(2) assms(2) by linarith
    then show ?thesis using m(1) by (simp add: mem_read_Some d_def)
  qed
  have nat_m: "nat (v mod r) < nat r" "nat (v mod r) < 16" using m assms(2) by linarith+
  have dv: "digit_value d = v mod r" using digit_laws [OF nat_m(2)] m(1) by (simp add: d_def digit_law_def)
  have dd: "is_digits r [d]" unfolding is_digits_def d_def using nat_m(1) by (metis list.set(1,2) singletonD)
  show ?case
  proof (cases "v div r > 0")
    case False
    moreover have "0 \<le> v div r" using Suc.prems(1) assms by (simp add: pos_imp_zdiv_nonneg_iff)
    ultimately have "v div r = 0" by simp
    then have "v mod r = v" by (metis div_mult_mod_eq mult_zero_left add_0)
    with False d dv dd Suc.prems assms show ?thesis by (subst put_digits.simps) (auto simp: Let_def number_def intro!: exI [of _ "[d]"])
  next
    case True
    have n: "0 < n"
    proof (rule ccontr)
      assume "\<not> 0 < n"
      then have "v < r" using Suc.prems(2) by simp
      then show False using True Suc.prems(1) by (simp add: div_pos_pos_trivial)
    qed
    have "r * (v div r) \<le> v" using m(1) minus_mod_eq_mult_div [of v r] by linarith
    then have "r * (v div r) < r * r ^ n" using Suc.prems(2) by simp
    then have "v div r < r ^ n" using assms(1) by simp
    then obtain ds where ds: "put_digits r (v div r) (cp - 1) (d # acc) = Some (cp - 1 - int (length ds), ds @ d # acc)" "ds \<noteq> []" "length ds \<le> n"
      "is_digits r ds" "number r 0 ds = v div r" "digit_value (hd ds) \<noteq> 0" using Suc.IH [of "v div r" "cp - 1" "d # acc"] n True Suc.prems(4) by auto
    have "number r 0 (ds @ [d]) = v" using ds(5) dv by (simp add: number_def)
    moreover have "put_digits r v cp acc = Some (cp - int (length (ds @ [d])), (ds @ [d]) @ acc)"
      using d ds(1) True Suc.prems(4) assms by (subst put_digits.simps) (simp add: Let_def)
    moreover have "v \<noteq> 0" using True by auto
    ultimately show ?thesis using ds(2,3,4,6) dd by (intro exI [of _ "ds @ [d]"]) (auto simp: is_digits_def)
  qed
qed simp

lemma number_mono: "2 \<le> r \<Longrightarrow> r \<le> 16 \<Longrightarrow> is_digits r ds \<Longrightarrow> 0 \<le> a \<Longrightarrow> a \<le> number r a ds"
proof (induction ds arbitrary: a)
  case (Cons c ds)
  obtain d where "d < nat r" "c = digits ! d" using Cons.prems(3) by (auto simp: is_digits_def)
  then have c: "0 \<le> digit_value c" using digit_laws [of d] Cons.prems(2) by (simp add: digit_law_def)
  have "a \<le> a * r" using Cons.prems(1,4) by (simp add: mult_le_cancel_left1)
  then have "a \<le> a * r + digit_value c" "0 \<le> a * r + digit_value c" using c Cons.prems(4) by simp_all
  moreover have "a * r + digit_value c \<le> number r (a * r + digit_value c) ds" using Cons calculation(2) by (intro Cons.IH) (auto simp: is_digits_def)
  ultimately show ?case by (simp add: number_def)
qed (simp add: number_def)

text \<open>What is added too much on the way, for the last digit.\<close>

definition hex_excess :: "int \<Rightarrow> int" where
  "hex_excess v = (if v mod 16 < 10 then 48 else 87)"

lemma read_digits_append:
  assumes r: "r = 10 \<or> r = 16"
  shows "is_digits r ds \<Longrightarrow> 0 \<le> a \<Longrightarrow> number r a ds + (if r = 16 then 87 else 0) < 2 ^ 63
    \<Longrightarrow> (if r = 16 then hex_digits (ds @ cs) a else dec_digits r (ds @ cs) a) = (if r = 16 then hex_digits cs (number r a ds) else dec_digits r cs (number r a ds))"
proof (induction ds arbitrary: a)
  case (Cons c ds)
  obtain d where d: "d < nat r" "c = digits ! d" using Cons.prems(1) by (auto simp: is_digits_def)
  have law: "digit_law d" using d(1) r by (intro digit_laws) auto
  have dv: "digit_value c = int d" using law d(2) by (simp add: digit_law_def)
  have ds: "is_digits r ds" using Cons.prems(1) by (simp add: is_digits_def)
  have n: "number r a (c # ds) = number r (a * r + int d) ds" by (simp add: number_def dv)
  have pos: "0 \<le> a * r + int d" using r Cons.prems(2) by auto
  then have small: "a * r + int d + (if r = 16 then 87 else 0) < 2 ^ 63" using number_mono [of r ds "a * r + int d"] ds r Cons.prems(3) n by auto
  have IH: "(if r = 16 then hex_digits (ds @ cs) (a * r + int d) else dec_digits r (ds @ cs) (a * r + int d))
      = (if r = 16 then hex_digits cs (number r (a * r + int d) ds) else dec_digits r cs (number r (a * r + int d) ds))"
    using ds pos Cons.prems(3) n by (intro Cons.IH) simp_all
  show ?case
  proof (cases "r = 16")
    case True
    have "tolower c = 48 + int d \<and> d < 10 \<or> tolower c = 87 + int d \<and> 10 \<le> d \<and> d < 16" using law d True by (auto simp: digit_law_def)
    moreover have "check_int64 w = Some w" if "w = a * 16 + (48 + int d) \<or> w = a * 16 + (87 + int d)" for w
      using that small pos True by (auto simp: check_int64_def in_int64_def)
    ultimately show ?thesis using IH True n by (auto simp: Let_def algebra_simps)
  next
    case False
    have "check_int64 (a * r + int d) = Some (a * r + int d)" using small pos False by (simp add: check_int64_def in_int64_def)
    moreover from False r d law have "isdigit c" "char_code c - 48 = int d" "d < 10" by (auto simp: digit_law_def digit_value_def split: if_splits)
    ultimately show ?thesis using IH False n r by (auto simp: Let_def)
  qed
qed (simp add: number_def)

lemma read_digits:
  assumes "r = 10 \<or> r = 16" "is_digits r ds" "0 \<le> a" "number r a ds + (if r = 16 then 87 else 0) < 2 ^ 63"
  shows "(if r = 16 then hex_digits ds a else dec_digits r ds a) = Some (number r a ds, [])"
  using read_digits_append [OF assms, of "[]"] by (auto split: if_splits)

text \<open>The digits of any number of 64 bits: only the last one can overflow.\<close>

lemma read_hex:
  assumes "is_digits 16 ds" "ds \<noteq> []" "number 16 0 ds = v" "v < 2 ^ 63"
  shows "hex_digits ds 0 = (if v + hex_excess v < 2 ^ 63 then Some (v, []) else None)"
proof -
  obtain es c where ds: "ds = es @ [c]" using assms(2) by (metis append_butlast_last_id)
  obtain d where d: "d < 16" "c = digits ! d" using assms(1) ds by (auto simp: is_digits_def)
  have law: "digit_law d" using d(1) by (rule digit_laws)
  have es: "is_digits 16 es" using assms(1) ds by (simp add: is_digits_def)
  let ?a = "number 16 0 es"
  have a: "0 \<le> ?a" using number_mono [of 16 es 0] es by simp
  have v: "v = ?a * 16 + int d" using assms(3) ds law d(2) by (simp add: number_def digit_law_def)
  then have m: "v mod 16 = int d" using d(1) by simp
  have "?a + 87 < 2 ^ 63" using v assms(4) by simp
  then have "hex_digits ds 0 = hex_digits [c] ?a" using read_digits_append [of 16 es 0 "[c]"] es ds by simp
  moreover have "tolower c = 48 + int d \<and> d < 10 \<or> tolower c = 87 + int d \<and> 10 \<le> d" using law d by (auto simp: digit_law_def)
  then have "tolower c = hex_excess v + int d" "hex_excess v = 48 \<and> 48 \<le> tolower c \<and> tolower c \<le> 57 \<or> hex_excess v = 87 \<and> 97 \<le> tolower c \<and> tolower c \<le> 102"
    using m d(1) by (auto simp: hex_excess_def)
  moreover have "check_int64 (?a * 16 + (hex_excess v + int d)) = (if v + hex_excess v < 2 ^ 63 then Some (?a * 16 + (hex_excess v + int d)) else None)"
    using a v by (auto simp: check_int64_def in_int64_def hex_excess_def)
  ultimately show ?thesis using v by (auto simp: Let_def)
qed

lemma number_string:
  assumes "radix = 10 \<or> radix = 16" and "in_int64 value"
  shows "if value = - (2 ^ 63) then itosradix value radix = None
     else \<exists>s. itosradix value radix = Some (Some s)
       \<and> stoiradix s radix = (if radix = 16 \<and> \<bar>value\<bar> + hex_excess \<bar>value\<bar> \<ge> 2 ^ 63 then None else Some (0, value))"
proof (cases "value = - (2 ^ 63)")
  case True
  with assms(1) show ?thesis by (auto simp: itosradix_def check_int64_def in_int64_def)
next
  case False
  define v where "v = \<bar>value\<bar>"
  have v: "0 \<le> v" "v < 2 ^ 63" "v < radix ^ 19" using assms False by (auto simp: v_def in_int64_def)
  obtain ds where ds: "put_digits radix v 31 [] = Some (31 - int (length ds), ds)" "ds \<noteq> []" "length ds \<le> 19" "is_digits radix ds" "number radix 0 ds = v"
    using put_digits_ok [of radix v 19 31 "[]"] assms(1) v by auto
  define s where "s = (if value < 0 then CHR ''-'' # ds else ds)"
  have "itosradix value radix = Some (Some s)"
    using assms(1) ds(1,3) v(2) by (auto simp: itosradix_def check_int64_def in_int64_def s_def v_def)
  moreover have "stoiradix s radix = (if radix = 16 \<and> v + hex_excess v \<ge> 2 ^ 63 then None else Some (0, value))"
  proof -
    obtain c cs where c: "ds = c # cs" using ds(2) by (cases ds) auto
    obtain d where d: "d < nat radix" "c = digits ! d" using ds(4) c by (auto simp: is_digits_def)
    have law: "c \<noteq> CHR ''-''" "\<not> isspace c" using digit_laws [of d] d assms(1) by (auto simp: digit_law_def)
    have "\<not> second_is_x ds"
    proof -
      have "tolower x \<noteq> 120" if x: "x \<in> set ds" for x
      proof -
        obtain d where "d < nat radix" "x = digits ! d" using ds(4) x by (auto simp: is_digits_def)
        then show ?thesis using digit_laws [of d] assms(1) by (auto simp: digit_law_def)
      qed
      then show ?thesis by (auto simp: second_is_x_def c split: list.split)
    qed
    then have p: "radix_prefix ds radix = (radix, ds)" using assms(1) by (auto simp: radix_prefix_def)
    have "(if radix = 16 then hex_digits ds 0 else dec_digits radix ds 0) = (if radix = 16 \<and> v + hex_excess v \<ge> 2 ^ 63 then None else Some (v, []))"
    proof (cases "radix = 16")
      case True
      then show ?thesis using read_hex [of ds v] ds(2,4,5) v(2) by auto
    next
      case False
      then show ?thesis using read_digits [OF assms(1) ds(4), of 0] ds(5) v(2) by simp
    qed
    moreover have "\<not> isspace CHR ''-''" by code_simp
    then have "dropWhile isspace s = s" "(s \<noteq> [] \<and> hd s = CHR ''-'') = (value < 0)" "(if value < 0 then tl s else s) = ds" using law c by (simp_all add: s_def)
    moreover have "(if value < 0 then - v else v) = value" by (simp add: v_def)
    ultimately show ?thesis using p ds(2) by (simp add: stoiradix_def Let_def)
  qed
  ultimately show ?thesis using False by (auto simp: v_def)
qed

text \<open>The shape of a decimal string: no leading zeros.\<close>

lemma itos_digits:
  assumes "in_int64 i" and "i \<noteq> - (2 ^ 63)"
  obtains ds where "itos i = Some (Some (if i < 0 then CHR ''-'' # ds else ds))" "ds \<noteq> []" "length ds \<le> 19" "is_digits 10 ds" "dec_digits 10 ds 0 = Some (\<bar>i\<bar>, [])"
    "hd ds = CHR ''0'' \<Longrightarrow> ds = ''0''"
proof -
  have v: "0 \<le> \<bar>i\<bar>" "\<bar>i\<bar> < 2 ^ 63" "\<bar>i\<bar> < 10 ^ 19" using assms by (auto simp: in_int64_def)
  obtain ds where ds: "put_digits 10 \<bar>i\<bar> 31 [] = Some (31 - int (length ds), ds)" "ds \<noteq> []" "length ds \<le> 19" "is_digits 10 ds" "number 10 0 ds = \<bar>i\<bar>"
    "if i = 0 then length ds = 1 else digit_value (hd ds) \<noteq> 0"
    using put_digits_ok [of 10 "\<bar>i\<bar>" 19 31 "[]"] v by auto
  have "dec_digits 10 ds 0 = Some (\<bar>i\<bar>, [])" using read_digits [of 10 ds 0] ds(4,5) v(2) by simp
  moreover have "itos i = Some (Some (if i < 0 then CHR ''-'' # ds else ds))"
    using ds(1,3) v(2) by (auto simp: itos_def itosradix_def check_int64_def in_int64_def)
  moreover have "ds = ''0''" if z: "hd ds = CHR ''0''"
  proof -
    have "digit_value CHR ''0'' = 0" by code_simp
    then have "length ds = 1" using ds(6) z by (auto split: if_splits)
    then show ?thesis using z by (cases ds) simp_all
  qed
  ultimately show ?thesis using that ds(2-4) by blast
qed

text \<open>
  Property C16. Every 64-bit number but the least one has a string in base ten and in base sixteen whose digits fit the buffer; the
  least number has none, since it cannot be negated. In base ten the number comes back from its string. In base sixteen it does
  too, but for the numbers within 87 of the largest one (48 when the last digit is below ten), for which reading overflows.
\<close>

theorem number_string_roundtrip:
  assumes "radix = 10 \<or> radix = 16" and "in_int64 value"
  shows "if value = - (2 ^ 63) then itosradix value radix = None
     else \<exists>s. itosradix value radix = Some (Some s)
       \<and> stoiradix s radix = (if radix = 16 \<and> \<bar>value\<bar> + hex_excess \<bar>value\<bar> \<ge> 2 ^ 63 then None else Some (0, value))"
  using assms by (rule number_string)

theorem number_string_roundtrip_witness:
  "in_int64 (-305) \<and> (\<exists>s. itosradix (-305) 16 = Some (Some s) \<and> stoiradix s 16 = Some (0, -305))"
  using number_string_roundtrip [of 16 "-305"] by (simp add: in_int64_def hex_excess_def)

end
