(* ===== verification/EjsArray.thy ===== *)
theory EjsArray
  imports Pot MprString "HOL-Library.Monad_Syntax" "HOL-Library.Multiset"
begin

text \<open>
  The Array class (\<^verbatim>\<open>src/core/src/ejsArray.c\<close>): a block of element references with a length.

  \<^item> \<^verbatim>\<open>ap->data\<close> is the list of the cells of the block, whose size is what was asked for; the null
    pointer is the empty list. Elements are never null pointers.
  \<^item> An access outside the block is undefined (\<^const>\<open>None\<close>).
  \<^item> Numbers are integers here, so that every number is equal to itself; objects and arrays have an identity, arrays also the elements that
    they had when they were passed.
  \<^item> The lengths of the arguments of a method, themselves an array, are the lengths of lists.
  \<^item> The string of an element (\<^verbatim>\<open>ejsToString\<close>) and the comparison function of a script are parameters.
\<close>

section \<open>State\<close>

datatype element =
    EUndefined | ENull | EBoolean bool | ENumber int | EString string | EPath string | EObject nat
  | EArray nat "element list"

record ejs_array =
  data :: "element list"
  alength :: int
  adynamic :: bool

text \<open>The elements of the array; the cells behind them are not cleared.\<close>

definition elements :: "ejs_array \<Rightarrow> element list" where
  "elements ap = take (nat (alength ap)) (data ap)"

definition arr_ok :: "ejs_array \<Rightarrow> bool" where
  "arr_ok ap \<longleftrightarrow> 0 \<le> alength ap \<and> alength ap \<le> int (length (data ap))"

text \<open>The methods walk over the elements: they are defined on arrays whose length fits the block.\<close>

definition arr_fits :: "ejs_array \<Rightarrow> bool" where
  "arr_fits ap \<longleftrightarrow> alength ap \<le> int (length (data ap))"

definition on_elements :: "ejs_array \<Rightarrow> 'a \<Rightarrow> 'a option" where
  "on_elements ap r = (if arr_fits ap then Some r else None)"

definition new_array :: ejs_array where
  "new_array = \<lparr>data = [], alength = 0, adynamic = True\<rparr>"

section \<open>Support\<close>

definition grow_cells :: "int \<Rightarrow> int \<Rightarrow> int" where
  "grow_cells cells len =
     EJS_PROP_ROUNDUP
       (if cells > EJS_LOTSA_PROP
        then let factor = max (cells div 4) EJS_ROUND_PROP in (len + factor) div factor * factor
        else len)"

text \<open>
  When there is no memory the data pointer has been overwritten with null. A new block is filled
  with undefined values from the index of the old length, which must not be negative.
\<close>

definition growArray :: "ejs \<Rightarrow> ejs_array \<Rightarrow> int \<Rightarrow> (int \<times> ejs_array) option" where
  "growArray ejs ap len =
     (if len \<le> 0 then Some (0, ap)
      else if len \<le> alength ap then Some (0, ap)
      else let cells = int (length (data ap))
           in if len > cells
              then let count = grow_cells cells len
                   in if \<not> heap ejs count then Some (EJS_ERR, ap\<lparr>data := []\<rparr>)
                      else if alength ap < 0 then None
                      else Some (0, ap\<lparr>data := take (nat (alength ap)) (data ap) @ replicate (nat (count - alength ap)) EUndefined,
                                       alength := len\<rparr>)
              else Some (0, ap\<lparr>alength := len\<rparr>))"

definition checkSlot :: "ejs \<Rightarrow> ejs_array \<Rightarrow> int \<Rightarrow> (int \<times> ejs \<times> ejs_array) option" where
  "checkSlot ejs ap slotNum =
     (if slotNum < 0
      then if \<not> adynamic ap then Some (EJS_ERR, ejsThrow TypeError ejs, ap)
           else do { (rc, ap1) \<leftarrow> growArray ejs ap (alength ap + 1);
                     Some (if rc < 0 then (EJS_ERR, ejsThrow MemoryError ejs, ap1) else (alength ap, ejs, ap1)) }
      else if slotNum \<ge> alength ap
      then do { (rc, ap1) \<leftarrow> growArray ejs ap (slotNum + 1);
                Some (if rc < 0 then (EJS_ERR, ejsThrow MemoryError ejs, ap1) else (slotNum, ejs, ap1)) }
      else Some (slotNum, ejs, ap))"

definition setArrayProperty :: "ejs \<Rightarrow> ejs_array \<Rightarrow> int \<Rightarrow> element \<Rightarrow> (int \<times> ejs \<times> ejs_array) option" where
  "setArrayProperty ejs ap slotNum val =
     do { (s, ejs1, ap1) \<leftarrow> checkSlot ejs ap slotNum;
          if s < 0 then Some (EJS_ERR, ejs1, ap1)
          else map_option (\<lambda>d. (s, ejs1, ap1\<lparr>data := d\<rparr>)) (mem_write (data ap1) s val) }"


definition getArrayPropertyCount :: "ejs_array \<Rightarrow> int" where
  "getArrayPropertyCount ap = alength ap"

text \<open>The index is what \<^verbatim>\<open>ejsAtoi\<close> makes of a name that starts with a digit.\<close>

definition lookupArrayProperty :: "ejs_array \<Rightarrow> int option \<Rightarrow> int" where
  "lookupArrayProperty ap index =
     (case index of None \<Rightarrow> EJS_ERR | Some i \<Rightarrow> if i < alength ap then i else EJS_ERR)"

definition deleteArrayProperty :: "ejs \<Rightarrow> ejs_array \<Rightarrow> int \<Rightarrow> (int \<times> ejs \<times> ejs_array) option" where
  "deleteArrayProperty ejs ap slot =
     (if slot \<ge> alength ap then Some (EJS_ERR, ejs, ap)
      else do { (rc, ejs1, ap1) \<leftarrow> setArrayProperty ejs ap slot EUndefined;
                Some (if rc < 0 then (EJS_ERR, ejs1, ap1)
                      else (slot, ejs1, if slot + 1 = alength ap1 then ap1\<lparr>alength := alength ap1 - 1\<rparr> else ap1)) })"

definition ejsCreateArray :: "ejs \<Rightarrow> int \<Rightarrow> (ejs_array option \<times> ejs) option" where
  "ejsCreateArray ejs len =
     do { (rc, ap) \<leftarrow> (if len > 0 then growArray ejs new_array len else Some (0, new_array));
          Some (if rc < 0 then (None, ejsThrow MemoryError ejs) else (Some ap, ejs)) }"

text \<open>A deep clone clones every element (\<^verbatim>\<open>ejsClone\<close>, a parameter); the pot part has no properties.\<close>

definition ejsCloneArray :: "(element \<Rightarrow> element) \<Rightarrow> ejs \<Rightarrow> ejs_array \<Rightarrow> bool \<Rightarrow> (ejs_array option \<times> ejs) option" where
  "ejsCloneArray clone ejs ap deep =
     (if alength ap > 0
      then do { (rc, newArray) \<leftarrow> growArray ejs (new_array\<lparr>adynamic := adynamic ap\<rparr>) (alength ap);
                if rc < 0 then Some (None, ejsThrow MemoryError ejs)
                else do { src \<leftarrow> mem_read_block (data ap) 0 (alength ap);
                          d \<leftarrow> mem_write_block (data newArray) 0 (if deep then map clone src else src);
                          Some (Some (newArray\<lparr>data := d\<rparr>), ejs) } }
      else Some (Some (new_array\<lparr>adynamic := adynamic ap\<rparr>), ejs))"

fun compareArrayElement :: "element \<Rightarrow> element \<Rightarrow> bool" where
  "compareArrayElement (EArray i _) (EArray j _) = (i = j)"
| "compareArrayElement v1 v2 = (v1 = v2)"

section \<open>Sets of elements\<close>

definition has_element :: "element list \<Rightarrow> element \<Rightarrow> bool" where
  "has_element xs v \<longleftrightarrow> (\<exists>x \<in> set xs. compareArrayElement x v)"

definition addUnique :: "ejs \<Rightarrow> ejs_array \<Rightarrow> element \<Rightarrow> (int \<times> ejs \<times> ejs_array) option" where
  "addUnique ejs ap val =
     (if \<not> arr_fits ap then None
      else if has_element (elements ap) val then Some (0, ejs, ap)
      else do { (rc, ejs1, ap1) \<leftarrow> setArrayProperty ejs ap (-1) val;
                Some (if rc < 0 then EJS_ERR else 0, ejs1, ap1) })"

fun add_all_unique :: "ejs \<Rightarrow> element list \<Rightarrow> ejs_array \<Rightarrow> (ejs \<times> ejs_array) option" where
  "add_all_unique ejs [] ap = Some (ejs, ap)"
| "add_all_unique ejs (v # vs) ap = do { (_, ejs1, ap1) \<leftarrow> addUnique ejs ap v; add_all_unique ejs1 vs ap1 }"

definition makeUnion :: "ejs \<Rightarrow> ejs_array \<Rightarrow> ejs_array \<Rightarrow> (ejs \<times> ejs_array) option" where
  "makeUnion ejs lhs rhs =
     (if arr_fits lhs \<and> arr_fits rhs
      then do { (ejs1, ap1) \<leftarrow> add_all_unique ejs (elements lhs) new_array;
                add_all_unique ejs1 (elements rhs) ap1 }
      else None)"

text \<open>The inner loop goes on after it has added the element.\<close>

fun intersect_with :: "ejs \<Rightarrow> element \<Rightarrow> element list \<Rightarrow> ejs_array \<Rightarrow> (ejs \<times> ejs_array) option" where
  "intersect_with ejs v [] ap = Some (ejs, ap)"
| "intersect_with ejs v (r # rs) ap =
     (if compareArrayElement v r
      then if \<not> arr_fits ap then None
           else if alength ap = 0 \<or> \<not> (\<exists>x \<in> set (elements ap). compareArrayElement v x)
           then do { (_, ejs1, ap1) \<leftarrow> setArrayProperty ejs ap (-1) v; intersect_with ejs1 v rs ap1 }
           else intersect_with ejs v rs ap
      else intersect_with ejs v rs ap)"

fun intersect_all :: "ejs \<Rightarrow> element list \<Rightarrow> element list \<Rightarrow> ejs_array \<Rightarrow> (ejs \<times> ejs_array) option" where
  "intersect_all ejs [] rs ap = Some (ejs, ap)"
| "intersect_all ejs (v # vs) rs ap = do { (ejs1, ap1) \<leftarrow> intersect_with ejs v rs ap; intersect_all ejs1 vs rs ap1 }"

definition makeIntersection :: "ejs \<Rightarrow> ejs_array \<Rightarrow> ejs_array \<Rightarrow> (ejs \<times> ejs_array) option" where
  "makeIntersection ejs lhs rhs =
     (if arr_fits lhs \<and> arr_fits rhs then intersect_all ejs (elements lhs) (elements rhs) new_array else None)"

text \<open>Taking out the element \<open>i\<close> moves the ones behind it down one cell; the last cell keeps its contents.\<close>

definition remove_at :: "nat \<Rightarrow> ejs_array \<Rightarrow> ejs_array" where
  "remove_at i ap =
     (let n = nat (alength ap)
      in ap\<lparr>data := take i (data ap) @ drop (Suc i) (take n (data ap)) @ drop (n - 1) (data ap),
            alength := alength ap - 1\<rparr>)"

text \<open>The loop goes on with the next index after a removal.\<close>

function remove_items_from :: "nat \<Rightarrow> element \<Rightarrow> ejs_array \<Rightarrow> ejs_array" where
  "remove_items_from i v ap =
     (if int i < alength ap
      then if compareArrayElement (data ap ! i) v then remove_items_from (Suc i) v (remove_at i ap)
           else remove_items_from (Suc i) v ap
      else ap)"
  by pat_completeness auto
termination
  by (relation "measure (\<lambda>(i, v, ap). nat (alength ap) - i)") (auto simp: remove_at_def Let_def)

declare remove_items_from.simps [simp del]

definition ejsRemoveItems :: "ejs_array \<Rightarrow> element list \<Rightarrow> ejs_array option" where
  "ejsRemoveItems lhs rhs = on_elements lhs (foldl (\<lambda>ap v. remove_items_from 0 v ap) lhs rhs)"

section \<open>Methods\<close>

text \<open>The arguments of the constructor are an array; one number is a size.\<close>

definition arrayConstructor :: "ejs \<Rightarrow> ejs_array \<Rightarrow> element list \<Rightarrow> (bool \<times> ejs \<times> ejs_array) option" where
  "arrayConstructor ejs ap args =
     (case args of
        [] \<Rightarrow> Some (True, ejs, ap)
      | [ENumber n] \<Rightarrow>
          do { (rc, ap1) \<leftarrow> (if n > 0 then growArray ejs ap n else Some (0, ap));
               Some (if rc < 0 then (False, ejsThrow MemoryError ejs, ap1) else (True, ejs, ap1\<lparr>alength := n\<rparr>)) }
      | _ \<Rightarrow>
          do { (rc, ap1) \<leftarrow> growArray ejs ap (int (length args));
               if rc < 0 then Some (False, ejsThrow MemoryError ejs, ap1)
               else do { d \<leftarrow> mem_write_block (data ap1) 0 args;
                         Some (True, ejs, ap1\<lparr>data := d, alength := int (length args)\<rparr>) } })"


definition clearArray :: "ejs_array \<Rightarrow> ejs_array" where
  "clearArray ap = ap\<lparr>alength := 0\<rparr>"

definition defined_element :: "element \<Rightarrow> bool" where
  "defined_element v \<longleftrightarrow> v \<noteq> EUndefined \<and> v \<noteq> ENull"

definition compactArray :: "ejs_array \<Rightarrow> ejs_array option" where
  "compactArray ap =
     on_elements ap (let n = nat (alength ap); kept = filter defined_element (elements ap)
       in ap\<lparr>data := kept @ replicate (n - length kept) EUndefined @ drop n (data ap), alength := int (length kept)\<rparr>)"

text \<open>
  \<^verbatim>\<open>concat\<close> keeps a pointer to the data of the new array. It takes the pointer anew after it has
  made room for the elements of an array argument, but not for a single element: when the block
  has moved, the pointer is the one of the old block (null, when there was none) and the element
  is stored behind its end.
\<close>

fun concat_args :: "ejs \<Rightarrow> element list \<Rightarrow> int \<Rightarrow> ejs_array \<Rightarrow> (ejs_array option \<times> ejs) option" where
  "concat_args ejs [] k ap = Some (Some ap, ejs)"
| "concat_args ejs (v # vs) k ap =
     (case v of
        EArray _ es \<Rightarrow>
          do { (rc, ap1) \<leftarrow> growArray ejs ap (k + int (length es));
               if rc < 0 then Some (None, ejsThrow MemoryError ejs)
               else do { d \<leftarrow> mem_write_block (data ap1) k es;
                         concat_args ejs vs (k + int (length es)) (ap1\<lparr>data := d\<rparr>) } }
      | _ \<Rightarrow>
          do { (rc, ap1) \<leftarrow> growArray ejs ap (k + 1);
               if rc < 0 then Some (None, ejsThrow MemoryError ejs)
               else do { dest \<leftarrow> mem_write (data ap) k v;
                         concat_args ejs vs (k + 1) (ap1\<lparr>data := dest\<rparr>) } })"

text \<open>The result of the allocation of the new array is not checked.\<close>

definition concatArray :: "ejs \<Rightarrow> ejs_array \<Rightarrow> element list \<Rightarrow> (ejs_array option \<times> ejs) option" where
  "concatArray ejs ap args =
     (if \<not> arr_fits ap then None
      else do { (created, ejs1) \<leftarrow> ejsCreateArray ejs (alength ap);
                newArray \<leftarrow> created;
                d \<leftarrow> mem_write_block (data newArray) 0 (elements ap);
                concat_args ejs1 args (int (length (elements ap))) (newArray\<lparr>data := d\<rparr>) })"

text \<open>Iterators. The iterator keeps the index, and the length the array had when it was made.\<close>

record array_iterator =
  iindex :: int
  ilength :: int

text \<open>The state that the method returns has the exception that ends the iteration.\<close>

function skip_undefined :: "ejs_array \<Rightarrow> array_iterator \<Rightarrow> (element option \<times> array_iterator) option" where
  "skip_undefined ap ip =
     (if iindex ip < ilength ip
      then case mem_read (data ap) (iindex ip) of
             None \<Rightarrow> None
           | Some vp \<Rightarrow> if vp = EUndefined then skip_undefined ap (ip\<lparr>iindex := iindex ip + 1\<rparr>) else Some (Some vp, ip)
      else Some (None, ip))"
  by pat_completeness auto
termination
  by (relation "measure (\<lambda>(ap, ip). nat (ilength ip - iindex ip))") auto

declare skip_undefined.simps [simp del]

definition getArrayIterator :: "ejs_array \<Rightarrow> array_iterator" where
  "getArrayIterator ap = \<lparr>iindex = 0, ilength = alength ap\<rparr>"

definition nextArrayKey :: "ejs \<Rightarrow> ejs_array \<Rightarrow> array_iterator \<Rightarrow> (int option \<times> ejs \<times> array_iterator) option" where
  "nextArrayKey ejs ap ip =
     do { (r, ip1) \<leftarrow> skip_undefined ap (if alength ap < ilength ip then ip\<lparr>ilength := alength ap\<rparr> else ip);
          Some (case r of None \<Rightarrow> (None, ejsThrow StopIteration ejs, ip1)
                | Some vp \<Rightarrow> (Some (iindex ip1), ejs, ip1\<lparr>iindex := iindex ip1 + 1\<rparr>)) }"

definition nextArrayValue :: "ejs \<Rightarrow> ejs_array \<Rightarrow> array_iterator \<Rightarrow> (element option \<times> ejs \<times> array_iterator) option" where
  "nextArrayValue ejs ap ip =
     do { (r, ip1) \<leftarrow> skip_undefined ap (if alength ap < ilength ip then ip\<lparr>ilength := alength ap\<rparr> else ip);
          Some (case r of None \<Rightarrow> (None, ejsThrow StopIteration ejs, ip1)
                | Some vp \<Rightarrow> (Some vp, ejs, ip1\<lparr>iindex := iindex ip1 + 1\<rparr>)) }"


function index_back :: "element list \<Rightarrow> element \<Rightarrow> int \<Rightarrow> int" where
  "index_back xs v i =
     (if i \<ge> 0 then if compareArrayElement (xs ! nat i) v then i else index_back xs v (i - 1) else -1)"
  by pat_completeness auto
termination
  by (relation "measure (\<lambda>(xs, v, i). nat (i + 1))") auto



definition lastArrayIndexOf :: "ejs_array \<Rightarrow> element \<Rightarrow> int option \<Rightarrow> int option" where
  "lastArrayIndexOf ap v fromIndex =
     on_elements ap
       (let start = (case fromIndex of Some s \<Rightarrow> s | None \<Rightarrow> alength ap - 1);
            start = (if start < 0 then start + alength ap else start);
            start = (if start \<ge> alength ap then alength ap - 1 else start)
        in if start < 0 then -1 else index_back (elements ap) v start)"

text \<open>
  Making room at \<open>pos\<close> and copying the new elements in. The loop moves the elements from the last
  one down to \<open>pos\<close>, so that none is overwritten before it is moved.
\<close>

definition open_gap :: "element list \<Rightarrow> int \<Rightarrow> int \<Rightarrow> int \<Rightarrow> element list option" where
  "open_gap d pos delta len =
     do { moved \<leftarrow> mem_read_block d pos (len - delta - pos);
          mem_write_block d (pos + delta) moved }"


text \<open>
  Joining. \<open>tostr\<close> is \<^verbatim>\<open>ejsToString\<close>, where \<^const>\<open>None\<close> stands for a value that is not defined.
  An undefined element has no string and no separator.
\<close>

fun join_from :: "(element \<Rightarrow> string option) \<Rightarrow> string option \<Rightarrow> nat \<Rightarrow> element list \<Rightarrow> string" where
  "join_from tostr sep i [] = []"
| "join_from tostr sep i (v # vs) =
     (case (if defined_element v then tostr v else None) of
        None \<Rightarrow> []
      | Some sp \<Rightarrow> (case sep of Some s \<Rightarrow> if i > 0 then s else [] | None \<Rightarrow> []) @ sp) @ join_from tostr sep (Suc i) vs"

definition joinArray :: "(element \<Rightarrow> string option) \<Rightarrow> ejs_array \<Rightarrow> string option \<Rightarrow> string option" where
  "joinArray tostr ap sep =
     on_elements ap
       (case (sep, elements ap) of (Some [], [EString s]) \<Rightarrow> s | _ \<Rightarrow> join_from tostr sep 0 (elements ap))"

fun to_string_from :: "(element \<Rightarrow> string) \<Rightarrow> nat \<Rightarrow> element list \<Rightarrow> string" where
  "to_string_from tostr i [] = []"
| "to_string_from tostr i (v # vs) =
     (if i > 0 then '','' else []) @ (if defined_element v then tostr v else []) @ to_string_from tostr (Suc i) vs"

definition arrayToString :: "(element \<Rightarrow> string) \<Rightarrow> ejs_array \<Rightarrow> string option" where
  "arrayToString tostr ap = on_elements ap (to_string_from tostr 0 (elements ap))"

definition getArrayLength :: "ejs_array \<Rightarrow> int" where
  "getArrayLength ap = alength ap"

text \<open>
  \<^verbatim>\<open>growArray\<close> has set the length already: the loop of \<^verbatim>\<open>setArrayLength\<close> that would clear the new
  cells has nothing to do.
\<close>

definition setArrayLength :: "ejs \<Rightarrow> ejs_array \<Rightarrow> int \<Rightarrow> ejs_array option" where
  "setArrayLength ejs ap len =
     (let len = (if len < 0 then 0 else len)
      in if len > alength ap
         then do { (rc, ap1) \<leftarrow> growArray ejs ap len;
                   Some (if rc < 0 then ap1 else ap1\<lparr>alength := len\<rparr>) }
         else Some (ap\<lparr>alength := len\<rparr>))"



definition removeElements :: "ejs_array \<Rightarrow> element list \<Rightarrow> ejs_array option" where
  "removeElements ap elts = ejsRemoveItems ap elts"




text \<open>The indices of a slice, in the order of the loop; a step of nought has been made one.\<close>

function slice_up :: "int \<Rightarrow> int \<Rightarrow> int \<Rightarrow> int list" where
  "slice_up i e step = (if i < e \<and> step > 0 then i # slice_up (i + step) e step else [])"
  by pat_completeness auto
termination by (relation "measure (\<lambda>(i, e, step). nat (e - i))") auto

function slice_down :: "int \<Rightarrow> int \<Rightarrow> int \<Rightarrow> int list" where
  "slice_down i e step = (if i > e \<and> step < 0 then i # slice_down (i + step) e step else [])"
  by pat_completeness auto
termination by (relation "measure (\<lambda>(i, e, step). nat (i - e))") auto

declare slice_up.simps [simp del] slice_down.simps [simp del]

fun read_all :: "'a list \<Rightarrow> int list \<Rightarrow> 'a list option" where
  "read_all m [] = Some []"
| "read_all m (i # is) = do { v \<leftarrow> mem_read m i; vs \<leftarrow> read_all m is; Some (v # vs) }"

definition clamp_index :: "ejs_array \<Rightarrow> int \<Rightarrow> int" where
  "clamp_index ap i =
     (let i = (if i < 0 then i + alength ap else i)
      in if i < 0 then 0 else if i \<ge> alength ap then alength ap else i)"

definition sliceArray :: "ejs \<Rightarrow> ejs_array \<Rightarrow> int \<Rightarrow> int option \<Rightarrow> int option \<Rightarrow> (ejs_array option \<times> ejs) option" where
  "sliceArray ejs ap start endIndex step =
     (let stp = (case step of Some s \<Rightarrow> if s = 0 then 1 else s | None \<Rightarrow> 1);
          e = clamp_index ap (case endIndex of Some k \<Rightarrow> k | None \<Rightarrow> alength ap);
          s = clamp_index ap start
      in do { (created, ejs1) \<leftarrow> ejsCreateArray ejs (if s < e then e - s else s - e);
              case created of
                None \<Rightarrow> Some (None, ejsThrow MemoryError ejs1)
              | Some result \<Rightarrow>
                  do { vs \<leftarrow> read_all (data ap) (if stp > 0 then slice_up s e stp else slice_down s e stp);
                       d \<leftarrow> mem_write_block (data result) 0 vs;
                       Some (Some (result\<lparr>data := d, alength := int (length vs)\<rparr>), ejs1) } })"

text \<open>
  An array pushed onto itself (the operator \<^verbatim>\<open><<\<close> with the same array on both sides): the loop
  runs to the length of the argument, which has grown meanwhile.
\<close>

fun copy_up :: "element list \<Rightarrow> nat \<Rightarrow> nat \<Rightarrow> nat \<Rightarrow> element list option" where
  "copy_up d oldLen i 0 = Some d"
| "copy_up d oldLen i (Suc n) =
     do { v \<leftarrow> mem_read d (int i); d1 \<leftarrow> mem_write d (int (i + oldLen)) v; copy_up d1 oldLen (Suc i) n }"

definition push_itself :: "ejs \<Rightarrow> ejs_array \<Rightarrow> (int option \<times> ejs_array) option" where
  "push_itself ejs ap =
     do { (rc, ap1) \<leftarrow> growArray ejs ap (alength ap + alength ap);
          if rc < 0 then Some (None, ap1)
          else do { d \<leftarrow> copy_up (data ap1) (nat (alength ap)) 0 (nat (alength ap1));
                    Some (Some (alength ap1), ap1\<lparr>data := d\<rparr>) } }"

section \<open>Sorting\<close>

text \<open>
  The order of two elements comes from a comparison function of the script, which is called with
  the array and two indices, or from their strings. A comparison function may return something
  that is no number, and it may throw.
\<close>

datatype order_result = Order int | NotNumber | Throws ejs_error

type_synonym sort_order = "element list \<Rightarrow> nat \<Rightarrow> nat \<Rightarrow> order_result"

text \<open>
  Strings are interned: equal strings are the same object. The comparison stops at the first null character of either, a
  \<^verbatim>\<open>char\<close> is signed. For two strings that differ only behind a null character the end of the function is reached, which
  returns nought.
\<close>

definition char_value :: "char \<Rightarrow> int" where
  "char_value c = (let v = int (of_char c) in if v \<ge> 128 then v - 256 else v)"

fun compare_chars :: "string \<Rightarrow> string \<Rightarrow> int" where
  "compare_chars [] [] = 0"
| "compare_chars [] (c2 # s2) = -1"
| "compare_chars (c1 # s1) [] = 1"
| "compare_chars (c1 # s1) (c2 # s2) =
     (let rc = char_value c1 - char_value c2
      in if rc < 0 then -1 else if rc > 0 then 1 else compare_chars s1 s2)"

definition ejsCompareString :: "string \<Rightarrow> string \<Rightarrow> int" where
  "ejsCompareString sp1 sp2 = (if sp1 = sp2 then 0 else compare_chars (c_str sp1) (c_str sp2))"

definition string_order :: "(element \<Rightarrow> string) \<Rightarrow> sort_order" where
  "string_order tostr d r i = Order (ejsCompareString (tostr (d ! r)) (tostr (d ! i)))"

text \<open>The result of the comparison is multiplied as an \<^verbatim>\<open>int\<close>, which must not overflow.\<close>

definition times_direction :: "int \<Rightarrow> int \<Rightarrow> int option" where
  "times_direction n direction = (let v = n * direction in if - (2 ^ 31) \<le> v \<and> v < 2 ^ 31 then Some v else None)"

text \<open>
  The loop of \<^verbatim>\<open>partition\<close>; \<open>k\<close> is \<^verbatim>\<open>j + 1\<close>. An early return leaves the array as it is and
  returns nought.
\<close>

function partition_from :: "sort_order \<Rightarrow> int \<Rightarrow> nat \<Rightarrow> nat \<Rightarrow> nat \<Rightarrow> ejs \<Rightarrow> element list \<Rightarrow> (int \<times> ejs \<times> element list) option" where
  "partition_from order direction r i k ejs d =
     (if i < r
      then case order d r i of
             Throws e \<Rightarrow> Some (0, ejsThrow e ejs, d)
           | NotNumber \<Rightarrow> Some (0, ejs, d)
           | Order n \<Rightarrow>
               do { v \<leftarrow> times_direction n direction;
                    if v > 0
                    then partition_from order direction r (Suc i) (Suc k) ejs (d[k := d ! i, i := d ! k])
                    else partition_from order direction r (Suc i) k ejs d }
      else Some (int k, ejs, d[r := d ! k, k := d ! r]))"
  by pat_completeness auto
termination by (relation "measure (\<lambda>(order, direction, r, i, k, ejs, d). r - i)") auto

declare partition_from.simps [simp del]

definition partition_array :: "sort_order \<Rightarrow> int \<Rightarrow> nat \<Rightarrow> nat \<Rightarrow> ejs \<Rightarrow> element list \<Rightarrow> (int \<times> ejs \<times> element list) option" where
  "partition_array order direction p r ejs d = partition_from order direction r p p ejs d"

text \<open>The recursion need not end: fuel that runs out is \<^const>\<open>None\<close>, as undefined behaviour is.\<close>

fun quickSort :: "nat \<Rightarrow> sort_order \<Rightarrow> int \<Rightarrow> int \<Rightarrow> int \<Rightarrow> ejs \<Rightarrow> element list \<Rightarrow> (ejs \<times> element list) option" where
  "quickSort 0 order direction p r ejs d = None"
| "quickSort (Suc fuel) order direction p r ejs d =
     (if p < r \<and> exception ejs = None
      then do { (q, ejs1, d1) \<leftarrow> partition_array order direction (nat p) (nat r) ejs d;
                (ejs2, d2) \<leftarrow> quickSort fuel order direction p (q - 1) ejs1 d1;
                quickSort fuel order direction (q + 1) r ejs2 d2 }
      else Some (ejs, d))"

text \<open>The comparison argument: absent or null, a function, or another value.\<close>

datatype compare_arg = NoCompare | CompareFunction sort_order | OtherCompare

definition ejsSortArray ::
    "(element \<Rightarrow> string) \<Rightarrow> nat \<Rightarrow> ejs \<Rightarrow> ejs_array \<Rightarrow> compare_arg \<Rightarrow> int option \<Rightarrow> (bool \<times> ejs \<times> ejs_array) option" where
  "ejsSortArray tostr fuel ejs ap compare direction =
     (if alength ap \<le> 1 then Some (True, ejs, ap)
      else let dir = (case direction of Some k \<Rightarrow> k | None \<Rightarrow> 1);
               run = (\<lambda>order. if arr_fits ap
                              then map_option (\<lambda>(ejs1, d). (True, ejs1, ap\<lparr>data := d\<rparr>))
                                     (quickSort fuel order dir 0 (alength ap - 1) ejs (data ap))
                              else None)
           in case compare of
                OtherCompare \<Rightarrow> Some (False, ejsThrow ArgError ejs, ap)
              | NoCompare \<Rightarrow> run (string_order tostr)
              | CompareFunction f \<Rightarrow> run f)"

section \<open>Splice, unique and unshift\<close>

text \<open>Copying cells up or down one by one, from the lowest index on.\<close>

fun copy_cells :: "element list \<Rightarrow> int \<Rightarrow> int \<Rightarrow> nat \<Rightarrow> element list option" where
  "copy_cells d dest src 0 = Some d"
| "copy_cells d dest src (Suc n) =
     do { v \<leftarrow> mem_read d src; d1 \<leftarrow> mem_write d dest v; copy_cells d1 (dest + 1) (src + 1) n }"

text \<open>
  The result of \<^verbatim>\<open>splice\<close>: the array itself (an empty array with nothing to delete), an exception
  or no memory, or a new array with the removed elements.
\<close>

datatype splice_result = SpliceSame | SpliceError | SpliceRemoved ejs_array

definition splice_start :: "ejs_array \<Rightarrow> int \<Rightarrow> int" where
  "splice_start ap start =
     (let start = (if start < 0 then start + alength ap else start);
          start = (if start < 0 then 0 else start)
      in if start \<ge> alength ap then alength ap - 1 else start)"

definition splice_count :: "ejs_array \<Rightarrow> int \<Rightarrow> int \<Rightarrow> int" where
  "splice_count ap start deleteCount =
     (let deleteCount = (if deleteCount < 0 then alength ap - start + 1 else deleteCount)
      in if deleteCount > alength ap then alength ap else deleteCount)"

text \<open>The part of \<^verbatim>\<open>splice\<close> that changes the array, after the removed elements have been copied.\<close>

definition splice_cells :: "ejs \<Rightarrow> ejs_array \<Rightarrow> int \<Rightarrow> int \<Rightarrow> element list \<Rightarrow> (bool \<times> ejs_array) option" where
  "splice_cells ejs ap start deleteCount values =
     (let oldLen = alength ap; delta = int (length values) - deleteCount
      in if delta > 0
         then do { (rc, ap1) \<leftarrow> growArray ejs ap (alength ap + delta);
                   if rc < 0 then Some (False, ap1)
                   else do { d1 \<leftarrow> open_gap (data ap1) start delta (alength ap1);
                             d2 \<leftarrow> mem_write_block d1 start values;
                             Some (True, ap1\<lparr>data := d2\<rparr>) } }
         else do { d2 \<leftarrow> mem_write_block (data ap) start values;
                   let from = start + int (length values);
                   d3 \<leftarrow> (if delta < 0 then copy_cells d2 from (from - delta) (nat (oldLen - from)) else Some d2);
                   Some (True, ap\<lparr>data := d3, alength := oldLen + delta\<rparr>) })"

definition spliceArray ::
    "ejs \<Rightarrow> ejs_array \<Rightarrow> int \<Rightarrow> int \<Rightarrow> element list \<Rightarrow> (splice_result \<times> ejs \<times> ejs_array) option" where
  "spliceArray ejs ap start deleteCount values =
     (if alength ap = 0
      then Some (if deleteCount \<le> 0 then (SpliceSame, ejs, ap) else (SpliceError, ejsThrow ArgError ejs, ap))
      else let start = splice_start ap start; deleteCount = splice_count ap start deleteCount
      in do { (created, ejs1) \<leftarrow> ejsCreateArray ejs deleteCount;
              case created of
                None \<Rightarrow> Some (SpliceError, ejsThrow MemoryError ejs1, ap)
              | Some result \<Rightarrow>
                  do { removed \<leftarrow> mem_read_block (data ap) start deleteCount;
                       dest \<leftarrow> mem_write_block (data result) 0 removed;
                       (ok, ap1) \<leftarrow> splice_cells ejs1 ap start deleteCount values;
                       Some (if ok then SpliceRemoved (result\<lparr>data := dest\<rparr>) else SpliceError, ejs1, ap1) } })"








section \<open>The C interface\<close>

definition ejsAddItem :: "ejs \<Rightarrow> ejs_array \<Rightarrow> element \<Rightarrow> (int \<times> ejs \<times> ejs_array) option" where
  "ejsAddItem ejs ap item =
     do { (rc, ejs1, ap1) \<leftarrow> setArrayProperty ejs ap (alength ap) item;
          Some (if rc < 0 then MPR_ERR_MEMORY else alength ap, ejs1, ap1) }"

fun ejsAppendArray :: "ejs \<Rightarrow> ejs_array \<Rightarrow> element list \<Rightarrow> (int \<times> ejs \<times> ejs_array) option" where
  "ejsAppendArray ejs dest [] = Some (0, ejs, dest)"
| "ejsAppendArray ejs dest (v # vs) =
     do { (rc, ejs1, dest1) \<leftarrow> setArrayProperty ejs dest (alength dest) v;
          if rc < 0 then Some (MPR_ERR_MEMORY, ejs1, dest1) else ejsAppendArray ejs1 dest1 vs }"

definition ejsClearArray :: "ejs_array \<Rightarrow> ejs_array" where
  "ejsClearArray ap = ap\<lparr>alength := 0\<rparr>"

text \<open>The item is \<^const>\<open>None\<close> for the null pointer.\<close>

definition ejsGetFirstItem :: "ejs_array \<Rightarrow> element option option" where
  "ejsGetFirstItem ap = (if alength ap = 0 then Some None else map_option Some (mem_read (data ap) 0))"

definition ejsGetLastItem :: "ejs_array \<Rightarrow> element option option" where
  "ejsGetLastItem ap = (if alength ap = 0 then Some None else map_option Some (mem_read (data ap) (alength ap - 1)))"

definition ejsGetNextItem :: "ejs_array \<Rightarrow> int \<Rightarrow> (element option \<times> int) option" where
  "ejsGetNextItem ap index =
     (if index < alength ap then map_option (\<lambda>v. (Some v, index + 1)) (mem_read (data ap) index) else Some (None, index))"

definition ejsGetPrevItem :: "ejs_array \<Rightarrow> int \<Rightarrow> (element option \<times> int) option" where
  "ejsGetPrevItem ap index =
     (let index = (if index < 0 then alength ap else index)
      in if index - 1 < alength ap \<and> index - 1 \<ge> 0
         then map_option (\<lambda>v. (Some v, index - 1)) (mem_read (data ap) (index - 1))
         else Some (None, index))"

text \<open>Items are compared as pointers: \<open>same\<close> says which elements are the very item.\<close>

function lookup_item_from :: "(element \<Rightarrow> bool) \<Rightarrow> element list \<Rightarrow> nat \<Rightarrow> int" where
  "lookup_item_from same xs i =
     (if i < length xs then if same (xs ! i) then int i else lookup_item_from same xs (Suc i) else MPR_ERR_CANT_FIND)"
  by pat_completeness auto
termination by (relation "measure (\<lambda>(same, xs, i). length xs - i)") auto

declare lookup_item_from.simps [simp del]

definition ejsLookupItem :: "(element \<Rightarrow> bool) \<Rightarrow> ejs_array \<Rightarrow> int option" where
  "ejsLookupItem same ap = on_elements ap (lookup_item_from same (elements ap) 0)"

definition ejsRemoveItem :: "(element \<Rightarrow> bool) \<Rightarrow> ejs \<Rightarrow> ejs_array \<Rightarrow> bool \<Rightarrow> (int \<times> ejs \<times> ejs_array) option" where
  "ejsRemoveItem same ejs ap compact =
     do { i \<leftarrow> ejsLookupItem same ap;
          if i < 0 then Some (MPR_ERR_CANT_FIND, ejs, ap)
          else do { (_, ejs1, ap1) \<leftarrow> deleteArrayProperty ejs ap i;
                    ap2 \<leftarrow> (if compact then compactArray ap1 else Some ap1);
                    Some (i, ejs1, ap2) } }"

definition ejsRemoveLastItem :: "ejs \<Rightarrow> ejs_array \<Rightarrow> (int \<times> ejs \<times> ejs_array) option" where
  "ejsRemoveLastItem ejs ap =
     (if alength ap \<le> 0 then Some (MPR_ERR_CANT_FIND, ejs, ap) else deleteArrayProperty ejs ap (alength ap - 1))"

definition ejsRemoveItemAtPos :: "ejs \<Rightarrow> ejs_array \<Rightarrow> int \<Rightarrow> bool \<Rightarrow> (int \<times> ejs \<times> ejs_array) option" where
  "ejsRemoveItemAtPos ejs ap index compact =
     (if alength ap \<le> 0 then Some (MPR_ERR_CANT_FIND, ejs, ap)
      else do { (rc, ejs1, ap1) \<leftarrow> deleteArrayProperty ejs ap index;
                ap2 \<leftarrow> (if compact then compactArray ap1 else Some ap1);
                Some (rc, ejs1, ap2) })"

section \<open>Growing\<close>

lemma grow_cells_ge: "len \<le> grow_cells cells len"
proof -
  have r: "x \<le> EJS_PROP_ROUNDUP x" for x by (simp add: EJS_PROP_ROUNDUP_def EJS_ROUND_PROP_def)
  define f where "f = max (cells div 4) EJS_ROUND_PROP"
  have "0 < f" by (simp add: f_def EJS_ROUND_PROP_def)
  then have "len \<le> (len + f) div f * f"
    using div_mult_mod_eq [of "len + f" f] pos_mod_bound [of f "len + f"] by linarith
  also have "\<dots> \<le> EJS_PROP_ROUNDUP ((len + f) div f * f)" by (rule r)
  finally show ?thesis using r [of len] by (simp add: grow_cells_def Let_def flip: f_def)
qed

text \<open>Growing with enough memory: the elements stay, the length is the one asked for.\<close>

lemma growArray_ok:
  assumes "arr_ok ap" and "heap ejs = (\<lambda>_. True)" and "alength ap \<le> len"
  obtains ap1 where "growArray ejs ap len = Some (0, ap1)" "arr_ok ap1" "alength ap1 = len"
    "take (nat (alength ap)) (data ap1) = elements ap" "adynamic ap1 = adynamic ap"
proof -
  have g: "len \<le> grow_cells (int (length (data ap))) len" by (rule grow_cells_ge)
  consider "len = alength ap" | "alength ap < len" "len \<le> int (length (data ap))" | "alength ap < len" "int (length (data ap)) < len"
    using assms(3) by linarith
  then show ?thesis
  proof cases
    case 1
    with assms show ?thesis by (intro that [of ap]) (auto simp: growArray_def elements_def)
  next
    case 2
    with assms show ?thesis by (intro that [of "ap\<lparr>alength := len\<rparr>"]) (auto simp: growArray_def elements_def arr_ok_def)
  next
    case 3
    let ?d = "take (nat (alength ap)) (data ap) @ replicate (nat (grow_cells (int (length (data ap))) len - alength ap)) EUndefined"
    have "arr_ok (ap\<lparr>data := ?d, alength := len\<rparr>)" using assms(1) 3 g by (auto simp: arr_ok_def)
    with 3 assms show ?thesis
      by (intro that [of "ap\<lparr>data := ?d, alength := len\<rparr>"]) (auto simp: growArray_def elements_def arr_ok_def Let_def)
  qed
qed

lemma arr_ok_fits [simp]: "arr_ok ap \<Longrightarrow> arr_fits ap"
  by (simp add: arr_ok_def arr_fits_def)

lemma on_elements_ok [simp]: "arr_ok ap \<Longrightarrow> on_elements ap r = Some r"
  by (simp add: on_elements_def)

lemma length_elements: "arr_ok ap \<Longrightarrow> int (length (elements ap)) = alength ap"
  by (auto simp: arr_ok_def elements_def)

lemma elements_nth: "i < length (elements ap) \<Longrightarrow> data ap ! i = elements ap ! i"
  by (simp add: elements_def)

text \<open>The cells of a block from its elements.\<close>

lemma data_split: "arr_ok ap \<Longrightarrow> data ap = elements ap @ drop (length (elements ap)) (data ap)"
  by (auto simp: arr_ok_def elements_def min_def)

lemma elements_update:
  "alength ap = int (length xs) \<Longrightarrow> elements (ap\<lparr>data := xs @ ys\<rparr>) = xs"
  "elements (ap\<lparr>data := xs @ ys, alength := int (length xs)\<rparr>) = xs"
  by (simp_all add: elements_def)

lemma arr_ok_update:
  "alength ap = int (length xs) \<Longrightarrow> arr_ok (ap\<lparr>data := xs @ ys\<rparr>)"
  "arr_ok (ap\<lparr>data := xs @ ys, alength := int (length xs)\<rparr>)"
  by (simp_all add: arr_ok_def)

text \<open>Opening a gap between the elements.\<close>

lemma open_gap_split:
  assumes "delta \<le> length ys"
  shows "\<exists>ms. length ms = delta \<and> open_gap (xs @ us @ ys) (int (length xs)) (int delta) (int (length xs + length us + delta))
     = Some (xs @ ms @ us @ drop delta ys)"
proof (cases "us = []")
  case True
  with assms show ?thesis
    by (intro exI [of _ "take delta ys"]) (auto simp: open_gap_def mem_read_block_def mem_write_block_def)
next
  case False
  let ?ms = "take delta (us @ ys)"
  have m: "mem_read_block (xs @ us @ ys) (int (length xs)) (int (length us)) = Some us"
    using False by (auto simp: mem_read_block_def)
  have s: "xs @ us @ ys = (xs @ ?ms) @ drop delta (us @ ys)" by (simp only: append_assoc append_take_drop_id)
  have l: "length (xs @ ?ms) = length xs + delta" using assms by simp
  have "mem_write_block (xs @ us @ ys) (int (length xs + delta)) us = Some ((xs @ ?ms) @ us @ drop (length us) (drop delta (us @ ys)))"
    using write_behind [of "xs @ ?ms" "drop delta (us @ ys)" us, folded s, unfolded l] assms by simp
  moreover have "drop (length us) (drop delta (us @ ys)) = drop delta ys" by (simp only: drop_drop) simp
  ultimately show ?thesis using m assms by (intro exI [of _ ?ms]) (auto simp: open_gap_def algebra_simps)
qed

section \<open>Arrays are lists\<close>

lemma ready_heap [simp]: "heap (ready e) = (\<lambda>_. True)"
  by (simp add: ready_def)

text \<open>After growing by \<open>n\<close> cells the block has the elements and at least \<open>n\<close> cells behind them.\<close>

lemma growArray_by:
  assumes "arr_ok ap" and "heap ejs = (\<lambda>_. True)"
  obtains ap1 ys where "growArray ejs ap (alength ap + int n) = Some (0, ap1)"
    "data ap1 = elements ap @ ys" "n \<le> length ys" "alength ap1 = int (length (elements ap) + n)" "adynamic ap1 = adynamic ap"
proof -
  obtain ap1 where 1: "growArray ejs ap (alength ap + int n) = Some (0, ap1)" "arr_ok ap1" "alength ap1 = alength ap + int n"
    "take (nat (alength ap)) (data ap1) = elements ap" "adynamic ap1 = adynamic ap"
    using growArray_ok [OF assms, of "alength ap + int n"] by auto
  have l: "alength ap = int (length (elements ap))" using length_elements [OF assms(1)] by simp
  have "data ap1 = elements ap @ drop (nat (alength ap)) (data ap1)"
    using 1(4) append_take_drop_id [of "nat (alength ap)" "data ap1"] by simp
  moreover have "n \<le> length (drop (nat (alength ap)) (data ap1))" using 1(2,3) l by (simp add: arr_ok_def)
  ultimately show ?thesis using that 1 l by simp
qed










fun unique_list :: "element list \<Rightarrow> element list" where
  "unique_list [] = []"
| "unique_list (x # xs) = x # filter (\<lambda>y. \<not> compareArrayElement x y) (unique_list xs)"


lemma compareArrayElement_sym: "compareArrayElement x y = compareArrayElement y x"
  by (induction x y rule: compareArrayElement.induct) auto

lemma compareArrayElement_trans: "compareArrayElement x y \<Longrightarrow> compareArrayElement y z \<Longrightarrow> compareArrayElement x z"
  by (cases x; cases y; cases z) auto





lemma setArrayProperty_ok:
  assumes "arr_ok ap" and "heap ejs = (\<lambda>_. True)" and "0 \<le> i" and "i \<le> alength ap"
  shows "\<exists>ap'. setArrayProperty ejs ap i v = Some (i, ejs, ap') \<and> arr_ok ap' \<and> adynamic ap' = adynamic ap
     \<and> elements ap' = (if i < alength ap then (elements ap)[nat i := v] else elements ap @ [v])"
proof (cases "i < alength ap")
  case True
  with assms have "mem_write (data ap) i v = Some ((data ap)[nat i := v])" by (simp add: memory_simps arr_ok_def)
  with True assms show ?thesis by (auto simp: setArrayProperty_def checkSlot_def elements_def arr_ok_def take_update_swap)
next
  case False
  then have i: "i = alength ap" using assms by simp
  obtain ap1 ys where g: "growArray ejs ap (alength ap + int 1) = Some (0, ap1)" "data ap1 = elements ap @ ys" "1 \<le> length ys"
    "alength ap1 = int (length (elements ap) + 1)" "adynamic ap1 = adynamic ap"
    using growArray_by [OF assms(1,2), of 1] by blast
  then obtain y zs where ys: "ys = y # zs" by (cases ys) auto
  have l: "alength ap = int (length (elements ap))" using length_elements [OF assms(1)] by simp
  have w: "mem_write (data ap1) i v = Some ((elements ap @ [v]) @ zs)" using g(2) ys i l by (simp add: mem_write_def)
  have "setArrayProperty ejs ap i v = Some (i, ejs, ap1\<lparr>data := (elements ap @ [v]) @ zs\<rparr>)"
    using g(1) w i assms(3) by (simp add: setArrayProperty_def checkSlot_def)
  moreover have "alength ap1 = int (length (elements ap @ [v]))" using g(4) by simp
  ultimately show ?thesis
    using False g(5) elements_update(1) [of ap1 "elements ap @ [v]" zs] arr_ok_update(1) [of ap1 "elements ap @ [v]" zs] by simp
qed



section \<open>Calls of array methods\<close>
















section \<open>Sorting is correct\<close>

text \<open>The elements from \<open>p\<close> up to \<open>e\<close> have been permuted, and nothing else has changed.\<close>

definition permuted :: "nat \<Rightarrow> nat \<Rightarrow> 'a list \<Rightarrow> 'a list \<Rightarrow> bool" where
  "permuted p e d d' \<longleftrightarrow> length d' = length d \<and> mset d' = mset d \<and> (\<forall>j. j < p \<or> e \<le> j \<longrightarrow> d' ! j = d ! j)"

lemma permuted_element:
  fixes d :: "'a list"
  assumes "permuted p e d d'" and "p \<le> j" and "j < e" and "e \<le> length d"
  obtains i where "p \<le> i" "i < e" "d' ! j = d ! i"
proof -
  have split: "xs = take p xs @ drop p (take e xs) @ drop e xs" for xs :: "'a list"
    using append_take_drop_id [of p "take e xs"] assms(2,3) by (simp add: min_def flip: append_assoc)
  have t: "take p d' = take p d" "drop e d' = drop e d" and l: "length d' = length d"
    using assms by (auto simp: permuted_def intro!: nth_equalityI)
  have "mset (drop p (take e d')) = mset (drop p (take e d))"
    using assms(1) arg_cong [OF split [of d], of mset] arg_cong [OF split [of d'], of mset] by (simp add: t permuted_def)
  then have s: "set (drop p (take e d')) = set (drop p (take e d))" by (rule mset_eq_setD)
  have "d' ! j = drop p (take e d') ! (j - p)" "j - p < length (drop p (take e d'))" using assms l by auto
  then have "d' ! j \<in> set (drop p (take e d))" using s nth_mem by metis
  then obtain k where "k < length (drop p (take e d))" "drop p (take e d) ! k = d' ! j" by (metis in_set_conv_nth)
  then show ?thesis using assms(4) by (intro that [of "p + k"]) auto
qed

lemma permuted_trans: "permuted p e d d' \<Longrightarrow> permuted p' e' d' d'' \<Longrightarrow> p \<le> p' \<Longrightarrow> e' \<le> e \<Longrightarrow> permuted p e d d''"
  by (auto simp: permuted_def)

definition sorted_range :: "(element \<Rightarrow> element \<Rightarrow> bool) \<Rightarrow> nat \<Rightarrow> nat \<Rightarrow> element list \<Rightarrow> bool" where
  "sorted_range before p e d \<longleftrightarrow> (\<forall>i j. p \<le> i \<and> i < j \<and> j < e \<longrightarrow> \<not> before (d ! j) (d ! i))"

text \<open>The range from \<open>p\<close> to \<open>r\<close> has been divided at \<open>q\<close>, and nothing else has changed.\<close>

definition divided :: "(element \<Rightarrow> element \<Rightarrow> bool) \<Rightarrow> nat \<Rightarrow> nat \<Rightarrow> element list \<Rightarrow> nat \<Rightarrow> element list \<Rightarrow> bool" where
  "divided before p r d q d' \<longleftrightarrow> p \<le> q \<and> q \<le> r \<and> permuted p (Suc r) d d'
     \<and> (\<forall>j. p \<le> j \<and> j < q \<longrightarrow> before (d' ! j) (d' ! q)) \<and> (\<forall>j. q < j \<and> j \<le> r \<longrightarrow> \<not> before (d' ! j) (d' ! q))"

lemma divided_swapped:
  "divided before p r d' q e \<Longrightarrow> permuted p (Suc r) d d' \<Longrightarrow> divided before p r d q e"
  by (auto simp: divided_def permuted_def)

text \<open>
  What the sort relies on: the comparison returns numbers whose product with the direction does not overflow, and its sign
  is a strict order \<open>before\<close> of the two elements whose indices it is given.
\<close>

locale comparison =
  fixes order :: sort_order
    and direction :: int
    and before :: "element \<Rightarrow> element \<Rightarrow> bool"
  assumes order_law: "r < length d \<Longrightarrow> i < length d
      \<Longrightarrow> \<exists>n v. order d r i = Order n \<and> times_direction n direction = Some v \<and> (v > 0 \<longleftrightarrow> before (d ! i) (d ! r))"
    and before_irrefl: "\<not> before x x"
    and before_trans: "before x y \<Longrightarrow> before y z \<Longrightarrow> before x z"
begin

lemma partition_from_ok:
  "p \<le> k \<Longrightarrow> k \<le> i \<Longrightarrow> i \<le> r \<Longrightarrow> r < length d
   \<Longrightarrow> \<forall>j. p \<le> j \<and> j < k \<longrightarrow> before (d ! j) (d ! r) \<Longrightarrow> \<forall>j. k \<le> j \<and> j < i \<longrightarrow> \<not> before (d ! j) (d ! r)
   \<Longrightarrow> \<exists>q d'. partition_from order direction r i k ejs d = Some (int q, ejs, d') \<and> divided before p r d q d'"
proof (induction "r - i" arbitrary: i k d)
  case 0
  then have i: "i = r" and k: "k \<le> r" by auto
  let ?d = "d[r := d ! k, k := d ! r]"
  have n: "?d ! j = (if j = k then d ! r else if j = r then d ! k else d ! j)" if "j < length d" for j
    using that k \<open>r < length d\<close> by (auto simp: nth_list_update)
  have m: "mset ?d = mset d" using k \<open>r < length d\<close> mset_swap [of k d r] by simp
  have "permuted p (Suc r) d ?d" using k 0 m by (auto simp: permuted_def)
  moreover have "\<not> before (?d ! j) (?d ! k)" if "k < j" "j \<le> r" for j using that n [of j] n [of k] 0 i by auto
  moreover have "before (?d ! j) (?d ! k)" if "p \<le> j" "j < k" for j using that n [of j] n [of k] 0 i by auto
  ultimately have "divided before p r d k ?d" using 0 k by (auto simp: divided_def simp del: nth_list_update_neq)
  with i show ?case by (subst partition_from.simps) auto
next
  case (Suc c)
  then have i: "i < r" and l: "i < length d" "k < length d" and c: "c = r - Suc i" by auto
  obtain n v where n: "order d r i = Order n" "v > 0 \<longleftrightarrow> before (d ! i) (d ! r)" "times_direction n direction = Some v"
    using order_law [of r d i] Suc.prems l by blast
  show ?case
  proof (cases "v > 0")
    case True
    let ?d = "d[k := d ! i, i := d ! k]"
    have nth: "?d ! j = (if j = i then d ! k else if j = k then d ! i else d ! j)" if "j < length d" for j
      using that by (simp add: nth_list_update l)
    have m: "mset ?d = mset d" using l mset_swap [of i d k] by simp
    have o: "permuted p (Suc r) d ?d" using Suc.prems i m by (auto simp: permuted_def)
    have "?d ! r = d ! r" using i Suc.prems by simp
    moreover have "\<forall>j. p \<le> j \<and> j < Suc k \<longrightarrow> before (?d ! j) (?d ! r)"
      using Suc.prems n(2) True i nth calculation by (auto simp: less_Suc_eq)
    moreover have "\<forall>j. Suc k \<le> j \<and> j < Suc i \<longrightarrow> \<not> before (?d ! j) (?d ! r)"
      using Suc.prems i nth calculation(1) by (auto simp: less_Suc_eq)
    ultimately obtain q d' where "partition_from order direction r (Suc i) (Suc k) ejs ?d = Some (int q, ejs, d')" "divided before p r ?d q d'"
      using Suc.hyps(1) [of "Suc i" "Suc k" ?d] c Suc.prems i by auto
    with i n(1,3) True divided_swapped [OF _ o] show ?thesis by (subst partition_from.simps) auto
  next
    case False
    have "\<forall>j. k \<le> j \<and> j < Suc i \<longrightarrow> \<not> before (d ! j) (d ! r)" using Suc.prems n(2) False by (auto simp: less_Suc_eq)
    with Suc.hyps(1) [of "Suc i" k d] c Suc.prems i n(1,3) False show ?thesis by (subst partition_from.simps) auto
  qed
qed

text \<open>A divided range whose two parts have been sorted is sorted.\<close>

lemma sorted_divided:
  assumes d1: "divided before p r d q d1" and d2: "permuted p q d1 d2" "sorted_range before p q d2"
    and d3: "permuted (Suc q) (Suc r) d2 d3" "sorted_range before (Suc q) (Suc r) d3" and r: "r < length d"
  shows "sorted_range before p (Suc r) d3"
proof -
  have len: "q \<le> r" "length d1 = length d" "length d2 = length d" using d1 d2(1) by (auto simp: divided_def permuted_def)
  have pivot: "d3 ! q = d1 ! q" and low: "\<And>j. j < q \<Longrightarrow> d3 ! j = d2 ! j" using d2(1) d3(1) by (auto simp: permuted_def)
  have lower: "before (d3 ! j) (d1 ! q)" if "p \<le> j" "j < q" for j
    using permuted_element [OF d2(1) that] len r low [OF that(2)] d1 by (fastforce simp: divided_def)
  have upper: "\<not> before (d3 ! j) (d1 ! q)" if "q < j" "j \<le> r" for j
  proof -
    have "Suc q \<le> j" "j < Suc r" "Suc r \<le> length d2" using that len r by auto
    from permuted_element [OF d3(1) this] obtain i where "Suc q \<le> i" "i < Suc r" "d3 ! j = d2 ! i" by blast
    then show ?thesis using d2(1) d1 by (auto simp: permuted_def divided_def)
  qed
  show ?thesis unfolding sorted_range_def
  proof (intro allI impI)
    fix i j assume ij: "p \<le> i \<and> i < j \<and> j < Suc r"
    consider "j < q" | "j = q" | "i < q" "q < j" | "i = q" | "q < i" by linarith
    then show "\<not> before (d3 ! j) (d3 ! i)"
    proof cases
      case 1 then show ?thesis using d2(2) low ij by (auto simp: sorted_range_def)
    next
      case 2 then show ?thesis using lower [of i] ij pivot before_irrefl before_trans by auto
    next
      case 3 then show ?thesis using lower [of i] upper [of j] ij before_trans by auto
    next
      case 4 then show ?thesis using upper [of j] ij pivot by auto
    next
      case 5 then show ?thesis using d3(2) ij by (auto simp: sorted_range_def)
    qed
  qed
qed

lemma quickSort_ok:
  "nat (r + 1 - p) < fuel \<Longrightarrow> 0 \<le> p \<Longrightarrow> p \<le> r + 1 \<Longrightarrow> r < int (length d) \<Longrightarrow> exception ejs = None
   \<Longrightarrow> \<exists>d'. quickSort fuel order direction p r ejs d = Some (ejs, d') \<and> permuted (nat p) (nat (r + 1)) d d'
     \<and> sorted_range before (nat p) (nat (r + 1)) d'"
proof (induction fuel arbitrary: p r d)
  case (Suc fuel)
  show ?case
  proof (cases "p < r")
    case False
    with Suc.prems show ?thesis by (auto simp: permuted_def sorted_range_def)
  next
    case True
    define a b where "a = nat p" and "b = nat r"
    have ab: "p = int a" "r = int b" "a < b" "b < length d" using True Suc.prems by (auto simp: a_def b_def)
    have v: "\<forall>j. a \<le> j \<and> j < a \<longrightarrow> P j" for P by (metis leD)
    obtain q d1 where q: "partition_array order direction a b ejs d = Some (int q, ejs, d1)" and d1: "divided before a b d q d1"
      using partition_from_ok [OF order.refl order.refl _ _ v v, of b d ejs] ab unfolding partition_array_def by auto
    have len: "a \<le> q" "q \<le> b" "length d1 = length d" using d1 by (auto simp: divided_def permuted_def)
    have f: "nat (int q - 1 + 1 - p) < fuel" "nat (r + 1 - (int q + 1)) < fuel" using Suc.prems(1) ab len by linarith+
    obtain d2 where r2: "quickSort fuel order direction p (int q - 1) ejs d1 = Some (ejs, d2)"
      and d2: "permuted a q d1 d2" "sorted_range before a q d2"
      using Suc.IH [OF f(1) Suc.prems(2) _ _ Suc.prems(5), of d1] ab len by auto
    have "length d2 = length d" using d2(1) len by (simp add: permuted_def)
    then obtain d3 where r3: "quickSort fuel order direction (int q + 1) r ejs d2 = Some (ejs, d3)"
      and d3: "permuted (Suc q) (Suc b) d2 d3" "sorted_range before (Suc q) (Suc b) d3"
      using Suc.IH [OF f(2) _ _ _ Suc.prems(5), of d2] ab len by (auto simp: nat_add_distrib)
    have "quickSort (Suc fuel) order direction p r ejs d = Some (ejs, d3)"
      using True Suc.prems(5) q r2 r3 by (simp flip: a_def b_def)
    moreover have "permuted a (Suc b) d d3"
      using d1 permuted_trans [OF permuted_trans [OF _ d2(1)] d3(1)] len by (auto simp: divided_def)
    ultimately show ?thesis using sorted_divided [OF d1 d2 d3 ab(4)] ab by (auto simp: nat_add_distrib)
  qed
qed simp

lemma sort_ok:
  assumes "arr_ok ap" and "exception ejs = None" and "nat (alength ap) < fuel" and "1 < alength ap"
  shows "\<exists>d'. quickSort fuel order direction 0 (alength ap - 1) ejs (data ap) = Some (ejs, d')
     \<and> mset (elements (ap\<lparr>data := d'\<rparr>)) = mset (elements ap) \<and> arr_ok (ap\<lparr>data := d'\<rparr>)
     \<and> sorted_wrt (\<lambda>x y. \<not> before y x) (elements (ap\<lparr>data := d'\<rparr>))"
proof -
  obtain n where n: "alength ap = int n" using assms(1) by (auto simp: arr_ok_def intro: nonneg_int_cases)
  obtain d' where d: "quickSort fuel order direction 0 (alength ap - 1) ejs (data ap) = Some (ejs, d')"
    "permuted 0 n (data ap) d'" "sorted_range before 0 n d'"
    using quickSort_ok [of "alength ap - 1" 0 fuel "data ap" ejs] assms n by (auto simp: arr_ok_def)
  have "drop n d' = drop n (data ap)" using d(2) by (auto simp: permuted_def intro!: nth_equalityI)
  moreover have "mset d' = mset (take n d') + mset (drop n d')" "mset (data ap) = mset (take n (data ap)) + mset (drop n (data ap))"
    by (simp_all flip: mset_append)
  ultimately have "mset (take n d') = mset (take n (data ap))" using d(2) by (simp add: permuted_def)
  moreover have "length d' = length (data ap)" using d(2) by (simp add: permuted_def)
  moreover have "sorted_wrt (\<lambda>x y. \<not> before y x) (take n d')"
    using d(3) by (auto simp: sorted_wrt_iff_nth_less sorted_range_def)
  ultimately show ?thesis using d(1) n assms(1) by (auto simp: elements_def arr_ok_def)
qed

end

text \<open>The order of strings.\<close>

lemma compare_chars_same: "compare_chars s s = 0"
  by (induction s) auto

lemma ejsCompareString_chars: "ejsCompareString s t = compare_chars (c_str s) (c_str t)"
  by (simp add: ejsCompareString_def compare_chars_same)

lemma compare_chars_sign: "compare_chars s t \<in> {-1, 0, 1}"
  by (induction s t rule: compare_chars.induct) (auto simp: Let_def)

lemma compare_chars_flip: "compare_chars s t = - compare_chars t s"
  by (induction s t rule: compare_chars.induct) (auto simp: Let_def)

lemma compare_chars_Cons_less:
  "compare_chars (c1 # s1) (c2 # s2) < 0
     \<longleftrightarrow> char_value c1 < char_value c2 \<or> char_value c1 = char_value c2 \<and> compare_chars s1 s2 < 0"
  by (simp add: Let_def)

lemma compare_chars_trans: "compare_chars s t < 0 \<Longrightarrow> compare_chars t u < 0 \<Longrightarrow> compare_chars s u < 0"
proof (induction s arbitrary: t u)
  case Nil
  then show ?case by (cases t; cases u) simp_all
next
  case (Cons c s)
  then obtain c2 s2 c3 s3 where tu: "t = c2 # s2" "u = c3 # s3" by (cases t; cases u) simp_all
  show ?case
    using Cons.prems Cons.IH [of s2 s3] unfolding tu compare_chars_Cons_less by (elim disjE conjE) simp_all
qed

text \<open>Element \<open>x\<close> is before element \<open>y\<close> when its string is less.\<close>

definition string_before :: "(element \<Rightarrow> string) \<Rightarrow> element \<Rightarrow> element \<Rightarrow> bool" where
  "string_before tostr x y \<longleftrightarrow> ejsCompareString (tostr x) (tostr y) < 0"

interpretation ascending: comparison "string_order tostr" 1 "string_before tostr"
  for tostr
proof unfold_locales
  show "\<exists>n v. string_order tostr d r i = Order n \<and> times_direction n 1 = Some v \<and> (v > 0 \<longleftrightarrow> string_before tostr (d ! i) (d ! r))" for d r i
    using compare_chars_flip [of "c_str (tostr (d ! r))" "c_str (tostr (d ! i))"] compare_chars_sign [of "c_str (tostr (d ! r))" "c_str (tostr (d ! i))"]
    by (auto simp: string_order_def string_before_def ejsCompareString_chars times_direction_def)
qed (auto simp: string_before_def ejsCompareString_chars compare_chars_same intro: compare_chars_trans)

interpretation descending: comparison "string_order tostr" "-1" "\<lambda>x y. string_before tostr y x"
  for tostr
proof unfold_locales
  show "\<exists>n v. string_order tostr d r i = Order n \<and> times_direction n (- 1) = Some v \<and> (v > 0 \<longleftrightarrow> string_before tostr (d ! r) (d ! i))" for d r i
    using compare_chars_sign [of "c_str (tostr (d ! r))" "c_str (tostr (d ! i))"]
    by (auto simp: string_order_def string_before_def ejsCompareString_chars times_direction_def)
qed (auto simp: string_before_def ejsCompareString_chars compare_chars_same intro: compare_chars_trans)

text \<open>
  Property C17. Sorting without a comparison function ends, returns the array, throws nothing, keeps the
  elements and leaves them in the order of their strings: upwards, or downwards when the direction is
  minus one. The fuel is the number of elements and one.
\<close>

theorem sort_by_strings:
  assumes "arr_ok ap" and "exception ejs = None" and "direction \<in> {None, Some 1, Some (-1)}"
  shows "\<exists>ap'. ejsSortArray tostr (Suc (nat (alength ap))) ejs ap NoCompare direction = Some (True, ejs, ap')
     \<and> arr_ok ap' \<and> mset (elements ap') = mset (elements ap)
     \<and> sorted_wrt (\<lambda>x y. if direction = Some (-1) then \<not> string_before tostr x y else \<not> string_before tostr y x) (elements ap')"
proof (cases "alength ap \<le> 1")
  case True
  then have "length (elements ap) \<le> 1" using length_elements [OF assms(1)] by simp
  then have "sorted_wrt P (elements ap)" for P by (cases "elements ap") auto
  with True assms(1) show ?thesis by (auto simp: ejsSortArray_def)
next
  case False
  then have n: "1 < alength ap" "nat (alength ap) < Suc (nat (alength ap))" by auto
  show ?thesis
  proof (cases "direction = Some (-1)")
    case True
    then show ?thesis using descending.sort_ok [OF assms(1,2) n(2,1), of tostr] False assms(1)
      by (auto simp: ejsSortArray_def)
  next
    case d: False
    then show ?thesis using ascending.sort_ok [OF assms(1,2) n(2,1), of tostr] False assms(1,3)
      by (auto simp: ejsSortArray_def)
  qed
qed

definition element_text :: "element \<Rightarrow> string" where
  "element_text v = (case v of EString s \<Rightarrow> s | _ \<Rightarrow> ''x'')"

definition three_strings :: ejs_array where
  "three_strings = \<lparr>data = [EString ''b'', EString ''c'', EString ''a'', EUndefined], alength = 3, adynamic = True\<rparr>"

theorem sort_by_strings_witness:
  "\<exists>ap'. ejsSortArray element_text 4 (ready None) three_strings NoCompare (Some (-1)) = Some (True, ready None, ap')
     \<and> arr_ok ap' \<and> mset (elements ap') = mset [EString ''b'', EString ''c'', EString ''a'']
     \<and> sorted_wrt (\<lambda>x y. \<not> string_before element_text x y) (elements ap')"
proof -
  have "arr_ok three_strings" "exception (ready None) = None" "Some (-1 :: int) \<in> {None, Some 1, Some (-1)}"
    by (simp_all add: arr_ok_def three_strings_def ready_def)
  from sort_by_strings [OF this, of element_text] show ?thesis by (simp add: three_strings_def elements_def)
qed

text \<open>
  Property C24. Sorting with a comparison function that returns numbers whose product with the direction does not overflow
  an \<^verbatim>\<open>int\<close> and is positive exactly for a strict order of the elements (\<open>before\<close> is transitive and no element is before itself),
  ends with a permutation of the elements in that order.
\<close>

theorem sort_by_function:
  assumes "arr_ok ap" and "exception ejs = None"
    and "\<And>d r i. r < length d \<Longrightarrow> i < length d
        \<Longrightarrow> \<exists>n v. order d r i = Order n \<and> times_direction n direction = Some v \<and> (v > 0 \<longleftrightarrow> before (d ! i) (d ! r))"
    and "\<And>x. \<not> before x x" and "\<And>x y z. before x y \<Longrightarrow> before y z \<Longrightarrow> before x z"
  shows "\<exists>ap'. ejsSortArray tostr (Suc (nat (alength ap))) ejs ap (CompareFunction order) (Some direction) = Some (True, ejs, ap')
     \<and> arr_ok ap' \<and> mset (elements ap') = mset (elements ap) \<and> sorted_wrt (\<lambda>x y. \<not> before y x) (elements ap')"
proof (cases "alength ap \<le> 1")
  case True
  then have "length (elements ap) \<le> 1" using length_elements [OF assms(1)] by simp
  then have "sorted_wrt P (elements ap)" for P by (cases "elements ap") auto
  with True assms(1) show ?thesis by (auto simp: ejsSortArray_def)
next
  case False
  have "comparison order direction before" by unfold_locales (use assms(3-5) in blast)+
  from comparison.sort_ok [OF this assms(1,2), of "Suc (nat (alength ap))"] False assms(1)
  show ?thesis by (auto simp: ejsSortArray_def)
qed

text \<open>A comparison of numbers, as a script would write it.\<close>

definition by_number :: sort_order where
  "by_number d r i = Order (case (d ! r, d ! i) of (ENumber x, ENumber y) \<Rightarrow> sgn (x - y) | _ \<Rightarrow> 0)"

definition number_before :: "element \<Rightarrow> element \<Rightarrow> bool" where
  "number_before x y \<longleftrightarrow> (case (x, y) of (ENumber m, ENumber n) \<Rightarrow> m < n | _ \<Rightarrow> False)"

definition three_numbers :: ejs_array where
  "three_numbers = \<lparr>data = [ENumber 5, ENumber 7, ENumber 3], alength = 3, adynamic = True\<rparr>"

theorem sort_by_function_witness:
  "\<exists>ap'. ejsSortArray element_text 4 (ready None) three_numbers (CompareFunction by_number) (Some 1) = Some (True, ready None, ap')
     \<and> arr_ok ap' \<and> mset (elements ap') = mset [ENumber 5, ENumber 7, ENumber 3]
     \<and> sorted_wrt (\<lambda>x y. \<not> number_before y x) (elements ap')"
proof -
  have a: "arr_ok three_numbers" "exception (ready None) = None" by (simp_all add: arr_ok_def three_numbers_def ready_def)
  have n: "\<exists>n v. by_number d r i = Order n \<and> times_direction n 1 = Some v \<and> (v > 0 \<longleftrightarrow> number_before (d ! i) (d ! r))" for d r i
    by (auto simp: by_number_def number_before_def times_direction_def sgn_if split: element.split)
  have i: "\<not> number_before x x" and t: "number_before x y \<Longrightarrow> number_before y z \<Longrightarrow> number_before x z" for x y z
    by (auto simp: number_before_def split: element.splits)
  from sort_by_function [where order = by_number and before = number_before and direction = 1 and tostr = element_text, OF a n i t]
  show ?thesis by (simp add: three_numbers_def elements_def)
qed

text \<open>
  Property C31. A comparison function that returns no number makes the sort of three or more elements
  recurse for ever: \<^verbatim>\<open>partition\<close> returns nought, and the right half that starts at one is sorted again
  and again. No fuel is enough.
\<close>

theorem sort_never_ends:
  assumes "arr_ok ap" and "3 \<le> alength ap" and "exception ejs = None"
  shows "ejsSortArray tostr fuel ejs ap (CompareFunction (\<lambda>d r i. NotNumber)) direction = None"
proof -
  have p: "partition_array (\<lambda>d r i. NotNumber) dir (nat p) (nat r) e d = Some (0, e, d)" if "0 \<le> p" "p < r" for p r e d dir
    using that by (simp add: partition_array_def partition_from.simps)
  have one: "quickSort n (\<lambda>d r i. NotNumber) dir 1 r ejs d = None" if "1 < r" for n r d dir
  proof (induction n)
    case (Suc n)
    then show ?case using that assms(3) p [of 1 r dir ejs d] by (cases n) simp_all
  qed simp
  have "quickSort n (\<lambda>d r i. NotNumber) dir 0 r ejs d = None" if "1 < r" for n r d dir
  proof (cases n)
    case (Suc m)
    then show ?thesis using that assms(3) one [of r m dir d] p [of 0 r dir ejs d] by (cases m) simp_all
  qed simp
  with assms show ?thesis by (simp add: ejsSortArray_def)
qed

theorem sort_never_ends_witness:
  "ejsSortArray element_text 1000 (ready None) three_numbers (CompareFunction (\<lambda>d r i. NotNumber)) None = None"
  by (rule sort_never_ends) (simp_all add: arr_ok_def three_numbers_def ready_def)

section \<open>What is behind the elements\<close>

text \<open>
  Cleared elements come back: growing fills new cells only when it moves the block, so an
  array that is cleared and then given a length again has its old elements.
\<close>

theorem cleared_elements_return:
  assumes "arr_ok ap" and "0 < n" and "n \<le> alength ap"
  shows "\<exists>ap'. setArrayLength ejs (clearArray ap) n = Some ap' \<and> elements ap' = take (nat n) (elements ap)"
  using assms by (auto simp: setArrayLength_def clearArray_def growArray_def elements_def arr_ok_def min_def Let_def)

theorem cleared_elements_return_witness:
  "\<exists>ap'. setArrayLength (ready None) (clearArray three_numbers) 2 = Some ap' \<and> elements ap' = [ENumber 5, ENumber 7]"
proof -
  have "arr_ok three_numbers" "0 < (2 :: int)" "2 \<le> alength three_numbers" by (simp_all add: arr_ok_def three_numbers_def)
  from cleared_elements_return [OF this, of "ready None"] show ?thesis by (simp add: three_numbers_def elements_def)
qed

text \<open>A new array of \<open>n\<close> undefined elements.\<close>

lemma new_array_ok: "arr_ok new_array" "elements new_array = []" "alength new_array = 0"
  by (simp_all add: new_array_def arr_ok_def elements_def)

lemma ejsCreateArray_ok:
  assumes "heap ejs = (\<lambda>_. True)"
  obtains ap where "ejsCreateArray ejs (int n) = Some (Some ap, ejs)" "arr_ok ap" "alength ap = int n"
    "length (data ap) = nat (grow_cells 0 (int n))"
proof (cases n)
  case 0
  with new_array_ok show ?thesis
    by (intro that [of new_array]) (simp_all add: ejsCreateArray_def new_array_def grow_cells_def EJS_LOTSA_PROP_def EJS_PROP_ROUNDUP_def EJS_ROUND_PROP_def)
next
  case (Suc m)
  let ?ap = "new_array\<lparr>data := replicate (nat (grow_cells 0 (int n))) EUndefined, alength := int n\<rparr>"
  have "ejsCreateArray ejs (int n) = Some (Some ?ap, ejs)"
    using Suc assms by (simp add: ejsCreateArray_def growArray_def new_array_def Let_def)
  moreover have "arr_ok ?ap" using grow_cells_ge [of "int n" 0] by (simp add: arr_ok_def)
  ultimately show ?thesis by (intro that [of ?ap]) simp_all
qed

section \<open>Concat\<close>

fun array_elements :: "element \<Rightarrow> element list" where
  "array_elements (EArray _ es) = es"
| "array_elements v = [v]"

fun is_array :: "element \<Rightarrow> bool" where
  "is_array (EArray _ _) = True"
| "is_array _ = False"

lemma concat_args_arrays:
  "arr_ok ap \<Longrightarrow> list_all is_array vs \<Longrightarrow> heap ejs = (\<lambda>_. True)
   \<Longrightarrow> \<exists>ap'. concat_args ejs vs (alength ap) ap = Some (Some ap', ejs) \<and> arr_ok ap'
         \<and> elements ap' = elements ap @ concat (map array_elements vs)"
proof (induction vs arbitrary: ap)
  case (Cons v vs)
  then obtain k es where v: "v = EArray k es" by (cases v) auto
  obtain ap1 ys where g: "growArray ejs ap (alength ap + int (length es)) = Some (0, ap1)"
    "data ap1 = elements ap @ ys" "length es \<le> length ys" "alength ap1 = int (length (elements ap) + length es)" "adynamic ap1 = adynamic ap"
    using growArray_by [OF Cons.prems(1,3)] by blast
  have l: "alength ap = int (length (elements ap))" using length_elements [OF Cons.prems(1)] by simp
  let ?ap2 = "ap1\<lparr>data := (elements ap @ es) @ drop (length es) ys\<rparr>"
  have a: "alength ap1 = int (length (elements ap @ es))" using g(4) by simp
  note e = elements_update(1) [OF a, of "drop (length es) ys"] and o = arr_ok_update(1) [OF a, of "drop (length es) ys"]
  have w: "mem_write_block (data ap1) (int (length (elements ap))) es = Some ((elements ap @ es) @ drop (length es) ys)"
    using g(2,3) by (simp add: write_behind)
  have "concat_args ejs (v # vs) (alength ap) ap = concat_args ejs vs (alength ?ap2) ?ap2"
    using g(1,4) w l v by simp
  with Cons.IH [OF o] Cons.prems(2,3) e v show ?case by simp
qed simp

lemma concat_start:
  assumes "arr_ok ap" and "heap ejs = (\<lambda>_. True)"
  obtains ap1 where "concatArray ejs ap args = concat_args ejs args (alength ap1) ap1" "arr_ok ap1" "elements ap1 = elements ap"
    "length (data ap1) = nat (grow_cells 0 (alength ap))" "alength ap1 = alength ap"
proof -
  obtain ap1 where c: "ejsCreateArray ejs (int (length (elements ap))) = Some (Some ap1, ejs)" "arr_ok ap1" "alength ap1 = int (length (elements ap))"
    "length (data ap1) = nat (grow_cells 0 (int (length (elements ap))))"
    by (rule ejsCreateArray_ok [OF assms(2)])
  have l: "alength ap = int (length (elements ap))" using length_elements [OF assms(1)] by simp
  have le: "length (elements ap) \<le> length (data ap1)" using c(2,3) by (simp add: arr_ok_def)
  then have w: "mem_write_block (data ap1) 0 (elements ap) = Some (elements ap @ drop (length (elements ap)) (data ap1))"
    by (simp add: write_front)
  show ?thesis
    using that [of "ap1\<lparr>data := elements ap @ drop (length (elements ap)) (data ap1)\<rparr>"] c w l assms(1) le
      elements_update(1) [OF c(3)] arr_ok_update(1) [OF c(3)]
    by (simp add: concatArray_def)
qed

text \<open>
  \<^verbatim>\<open>concat\<close> of arrays returns a new array with the elements of the array and of its
  arguments, one level flattened.
\<close>

theorem concat_flattens:
  assumes "arr_ok ap" and "list_all is_array args" and "heap ejs = (\<lambda>_. True)"
  shows "\<exists>ap'. concatArray ejs ap args = Some (Some ap', ejs) \<and> arr_ok ap'
     \<and> elements ap' = elements ap @ concat (map array_elements args)"
proof -
  obtain ap1 where "concatArray ejs ap args = concat_args ejs args (alength ap1) ap1" "arr_ok ap1" "elements ap1 = elements ap"
    using concat_start [OF assms(1,3)] by blast
  with concat_args_arrays [of ap1, OF _ assms(2,3)] show ?thesis by auto
qed

theorem concat_flattens_witness:
  "\<exists>ap'. concatArray (ready None) three_numbers [EArray 1 [ENull, ENumber 4], EArray 2 [EArray 1 []]] = Some (Some ap', ready None) \<and> arr_ok ap'
     \<and> elements ap' = [ENumber 5, ENumber 7, ENumber 3, ENull, ENumber 4, EArray 1 []]"
proof -
  have "arr_ok three_numbers" "list_all is_array [EArray 1 [ENull, ENumber 4], EArray 2 [EArray 1 []]]"
    by (simp_all add: arr_ok_def three_numbers_def)
  from concat_flattens [OF this ready_heap, of None] show ?thesis by (simp add: three_numbers_def elements_def)
qed

text \<open>
  \<^verbatim>\<open>concat\<close> of a single element stores it outside of the block when the block of the copy
  is full: always when the array is empty, where the store goes through a null pointer, and when its
  length is a multiple of sixteen.
\<close>

theorem concat_item_overruns:
  assumes "arr_ok ap" and "alength ap mod 16 = 0" and "\<not> is_array v" and "heap ejs = (\<lambda>_. True)"
  shows "concatArray ejs ap (v # args) = None"
proof -
  obtain ap1 where c: "concatArray ejs ap (v # args) = concat_args ejs (v # args) (alength ap1) ap1" "arr_ok ap1"
    "length (data ap1) = nat (grow_cells 0 (alength ap))" "alength ap1 = alength ap"
    using concat_start [OF assms(1,4)] by blast
  obtain k where k: "alength ap = 16 * k" using assms(2) by (auto simp: mod_eq_0_iff_dvd dvd_def)
  have "grow_cells 0 (alength ap) = alength ap"
    by (simp add: grow_cells_def EJS_LOTSA_PROP_def EJS_PROP_ROUNDUP_def EJS_ROUND_PROP_def k)
  moreover obtain n where "alength ap = int n" using assms(1) by (auto simp: arr_ok_def intro: nonneg_int_cases)
  ultimately have full: "int (length (data ap1)) = alength ap1" using c(3,4) by simp
  obtain ap2 where "growArray ejs ap1 (alength ap1 + 1) = Some (0, ap2)"
    using growArray_ok [OF c(2) assms(4), of "alength ap1 + 1"] by auto
  then have "concat_args ejs (v # args) (alength ap1) ap1 = None"
    using full assms(3) by (cases v) (simp_all add: mem_write_def)
  with c(1) show ?thesis by simp
qed

theorem concat_item_overruns_witness: "concatArray (ready None) new_array [ENumber 1] = None"
  by (rule concat_item_overruns) (simp_all add: new_array_ok)

section \<open>Splice\<close>

lemma copy_cells_down:
  "dest < src \<Longrightarrow> src + n \<le> length d
   \<Longrightarrow> copy_cells d (int dest) (int src) n = Some (take dest d @ take n (drop src d) @ drop (dest + n) d)"
proof (induction n arbitrary: d dest src)
  case (Suc n)
  let ?d = "d[dest := d ! src]"
  have "copy_cells ?d (int (Suc dest)) (int (Suc src)) n
      = Some (take (Suc dest) ?d @ take n (drop (Suc src) ?d) @ drop (Suc dest + n) ?d)"
    using Suc.prems by (intro Suc.IH) simp_all
  moreover have "take (Suc dest) ?d = take dest d @ [d ! src]" using Suc.prems by (simp add: take_Suc_conv_app_nth)
  moreover have "drop src d = d ! src # drop (Suc src) d" using Suc.prems by (simp add: Cons_nth_drop_Suc)
  ultimately show ?case using Suc.prems by (simp add: mem_read_def mem_write_def ac_simps)
qed simp

lemma copy_cells_overrun: "0 < n \<Longrightarrow> length d < src + n \<Longrightarrow> copy_cells d dest (int src) n = None"
proof (induction n arbitrary: d dest src)
  case (Suc n)
  show ?case
  proof (cases "mem_read d (int src)")
    case (Some v)
    then have "src < length d" by (simp add: mem_read_def split: if_splits)
    then have "copy_cells d1 (dest + 1) (int (Suc src)) n = None" if "length d1 = length d" for d1
      using Suc.IH [of d1 "Suc src" "dest + 1"] Suc.prems(2) that by (cases n) auto
    then show ?thesis using Some by (cases "mem_write d dest v") (auto simp: mem_write_length add.commute)
  qed simp
qed simp

text \<open>Clamping does nothing to a start and a count inside of the array.\<close>

lemma splice_in_range:
  "0 \<le> start \<Longrightarrow> start < alength ap \<Longrightarrow> splice_start ap start = start"
  "0 \<le> dc \<Longrightarrow> dc \<le> alength ap \<Longrightarrow> splice_count ap start dc = dc"
  by (simp_all add: splice_start_def splice_count_def Let_def)

lemma splice_result:
  assumes "heap ejs = (\<lambda>_. True)" and "length removed = n"
  obtains result where "ejsCreateArray ejs (int n) = Some (Some result, ejs)"
    "\<exists>dest. mem_write_block (data result) 0 removed = Some dest \<and> elements (result\<lparr>data := dest\<rparr>) = removed"
proof -
  obtain ap where c: "ejsCreateArray ejs (int n) = Some (Some ap, ejs)" "arr_ok ap" "alength ap = int n" "length (data ap) = nat (grow_cells 0 (int n))"
    by (rule ejsCreateArray_ok [OF assms(1)])
  have a: "alength ap = int (length removed)" using c(3) assms(2) by simp
  have "length removed \<le> length (data ap)" using c(2) a by (simp add: arr_ok_def)
  then show ?thesis using that [OF c(1)] elements_update(1) [OF a] by (auto simp: write_front)
qed

text \<open>The array after a splice inside of it, with the elements cut at the two ends of the removed part.\<close>

lemma splice_cells_grow:
  assumes ap: "arr_ok ap" "heap ejs = (\<lambda>_. True)" and e: "elements ap = xs @ ms @ us" and "length ms < length vs"
  shows "\<exists>ap'. splice_cells ejs ap (int (length xs)) (int (length ms)) vs = Some (True, ap') \<and> arr_ok ap' \<and> elements ap' = xs @ vs @ us"
proof -
  define k where "k = length vs - length ms"
  have k: "int (length vs) - int (length ms) = int k" "0 < k" using assms(4) by (simp_all add: k_def)
  obtain ap1 zs where g: "growArray ejs ap (alength ap + int k) = Some (0, ap1)" "data ap1 = elements ap @ zs" "k \<le> length zs"
    "alength ap1 = int (length (elements ap) + k)"
    using growArray_by [OF ap] by blast
  obtain hs where o: "length hs = k" "open_gap (xs @ (ms @ us) @ zs) (int (length xs)) (int k) (int (length xs + length (ms @ us) + k))
      = Some (xs @ hs @ (ms @ us) @ drop k zs)"
    using open_gap_split [OF g(3), of xs "ms @ us"] by blast
  have w: "mem_write_block (xs @ hs @ (ms @ us) @ drop k zs) (int (length xs)) vs = Some ((xs @ vs @ us) @ drop k zs)"
    using o(1) assms(4) by (simp add: write_behind k_def)
  have "splice_cells ejs ap (int (length xs)) (int (length ms)) vs = Some (True, ap1\<lparr>data := (xs @ vs @ us) @ drop k zs\<rparr>)"
    using g o w k e by (simp add: splice_cells_def Let_def)
  moreover have "alength ap1 = int (length (xs @ vs @ us))" using g(4) e k by simp
  ultimately show ?thesis using elements_update(1) [of ap1 "xs @ vs @ us"] arr_ok_update(1) [of ap1 "xs @ vs @ us"] by simp
qed

lemma splice_cells_shrink:
  assumes l: "alength ap = int (length xs + length ms + length us)" and d: "data ap = xs @ ms @ us @ ys" and "length vs < length ms"
    and room: "length us + length xs + (length ms + length ms) \<le> length (data ap) + length vs"
  shows "\<exists>ap'. splice_cells ejs ap (int (length xs)) (int (length ms)) vs = Some (True, ap') \<and> arr_ok ap' \<and> elements ap' = xs @ vs @ us"
proof -
  let ?d = "xs @ vs @ drop (length vs) ms @ us @ ys"
  have w: "mem_write_block (data ap) (int (length xs)) vs = Some ?d" using assms(3) by (simp add: d write_behind)
  define n where "n = length ms + length us - length vs"
  have n: "int (length ms + length us + length xs) - int (length xs + length vs) = int n" using assms(3) by (simp add: n_def)
  have c: "copy_cells ?d (int (length xs + length vs)) (int (length xs + length ms)) n
     = Some ((xs @ vs) @ take n (us @ ys) @ drop (length xs + length vs + n) ?d)"
    using copy_cells_down [of "length xs + length vs" "length xs + length ms" n ?d] assms(3) room by (simp add: d n_def)
  have t: "take n (us @ ys) = us @ take (n - length us) ys" using assms(3) by (simp add: n_def)
  have "splice_cells ejs ap (int (length xs)) (int (length ms)) vs
      = Some (True, ap\<lparr>data := (xs @ vs @ us) @ take (n - length us) ys @ drop (length xs + length vs + n) ?d, alength := int (length (xs @ vs @ us))\<rparr>)"
    using assms(3) w c n t by (simp add: splice_cells_def l Let_def algebra_simps)
  then show ?thesis using elements_update(2) [where xs = "xs @ vs @ us"] arr_ok_update(2) [where xs = "xs @ vs @ us"] by auto
qed

lemma splice_cells_ok:
  assumes ap: "arr_ok ap" "heap ejs = (\<lambda>_. True)" and e: "elements ap = xs @ ms @ us"
    and room: "length us + length xs + (length ms + length ms) \<le> length (data ap) + length vs"
  shows "\<exists>ap'. splice_cells ejs ap (int (length xs)) (int (length ms)) vs = Some (True, ap') \<and> arr_ok ap' \<and> elements ap' = xs @ vs @ us"
proof -
  have l: "alength ap = int (length xs + length ms + length us)" using length_elements [OF ap(1)] e by simp
  obtain ys where d: "data ap = xs @ ms @ us @ ys" using data_split [OF ap(1)] e by (metis append_assoc)
  consider "length ms < length vs" | "length vs = length ms" | "length vs < length ms" by linarith
  then show ?thesis
  proof cases
    case 2
    have w: "mem_write_block (data ap) (int (length xs)) vs = Some ((xs @ vs @ us) @ ys)" using 2 by (simp add: d write_behind)
    have "alength ap = int (length (xs @ vs @ us))" using l 2 by simp
    with w 2 elements_update(2) [where ap = ap and xs = "xs @ vs @ us" and ys = ys]
      arr_ok_update(2) [where ap = ap and xs = "xs @ vs @ us" and ys = ys]
    show ?thesis by (simp add: splice_cells_def Let_def)
  qed (use splice_cells_grow [OF ap e] splice_cells_shrink [OF l d _ room] in blast)+
qed

text \<open>
  Property C26. A splice inside of an array returns the removed elements and puts the new ones in their
  place, if the block has room behind the elements for as many cells as the array becomes shorter.
\<close>

theorem splice_replaces:
  assumes "arr_ok ap" and "heap ejs = (\<lambda>_. True)" and "elements ap = xs @ ms @ us" and "ms @ us \<noteq> []"
    and "length (elements ap) + length ms \<le> length (data ap) + length vs"
  shows "\<exists>result ap'. spliceArray ejs ap (int (length xs)) (int (length ms)) vs = Some (SpliceRemoved result, ejs, ap')
     \<and> elements result = ms \<and> arr_ok ap' \<and> elements ap' = xs @ vs @ us"
proof -
  have l: "alength ap = int (length xs + length ms + length us)" using length_elements [OF assms(1)] assms(3) by simp
  obtain ys where d: "data ap = xs @ ms @ us @ ys" using data_split [OF assms(1)] assms(3) by (metis append_assoc)
  obtain result dest where r: "ejsCreateArray ejs (int (length ms)) = Some (Some result, ejs)"
    "mem_write_block (data result) 0 ms = Some dest" "elements (result\<lparr>data := dest\<rparr>) = ms"
    using splice_result [OF assms(2) refl, of ms] by blast
  have rd: "mem_read_block (data ap) (int (length xs)) (int (length ms)) = Some ms" by (auto simp: d mem_read_block_def)
  have pos: "0 < length ms + length us" using assms(4) by (cases ms) auto
  then have ne: "alength ap \<noteq> 0" using l by linarith
  have cl: "splice_start ap (int (length xs)) = int (length xs)" "splice_count ap (int (length xs)) (int (length ms)) = int (length ms)"
    by (rule splice_in_range; use l pos in linarith)+
  show ?thesis
    using splice_cells_ok [OF assms(1-3), of vs] assms(3,5) r(3) by (auto simp: spliceArray_def ne cl r(1,2) rd Let_def)
qed

definition roomy :: ejs_array where
  "roomy = \<lparr>data = map ENumber [1, 2, 3, 4, 5, 6], alength = 4, adynamic = True\<rparr>"

theorem splice_replaces_witness:
  "\<exists>result ap'. spliceArray (ready None) roomy 1 2 [ENull] = Some (SpliceRemoved result, ready None, ap')
     \<and> elements result = [ENumber 2, ENumber 3] \<and> arr_ok ap' \<and> elements ap' = [ENumber 1, ENull, ENumber 4]"
proof -
  have "arr_ok roomy" "elements roomy = [ENumber 1] @ [ENumber 2, ENumber 3] @ [ENumber 4]" "[ENumber 2, ENumber 3] @ [ENumber 4] \<noteq> []"
    "length (elements roomy) + length [ENumber 2, ENumber 3] \<le> length (data roomy) + length [ENull]"
    by (simp_all add: roomy_def arr_ok_def elements_def)
  from splice_replaces [OF this(1) ready_heap this(2-4), of None] show ?thesis by simp
qed

text \<open>
  The loop of \<^verbatim>\<open>splice\<close> that closes the hole runs to the old length and reads as many cells
  behind it as the array becomes shorter: on a full block every removal reads outside of the block.
\<close>

theorem splice_overruns:
  assumes "heap ejs = (\<lambda>_. True)" and "data ap = xs @ ms @ us" and "alength ap = int (length (data ap))" and "length vs < length ms"
  shows "spliceArray ejs ap (int (length xs)) (int (length ms)) vs = None"
proof -
  have l: "alength ap = int (length xs + length ms + length us)" using assms by simp
  obtain result dest where r: "ejsCreateArray ejs (int (length ms)) = Some (Some result, ejs)"
    "mem_write_block (data result) 0 ms = Some dest"
    using splice_result [OF assms(1) refl, of ms] by blast
  have rd: "mem_read_block (data ap) (int (length xs)) (int (length ms)) = Some ms" by (auto simp: assms(2) mem_read_block_def)
  have ne: "alength ap \<noteq> 0" using l assms(4) by linarith
  have cl: "splice_start ap (int (length xs)) = int (length xs)" "splice_count ap (int (length xs)) (int (length ms)) = int (length ms)"
    by (rule splice_in_range; use l assms(4) in linarith)+
  let ?d = "xs @ vs @ drop (length vs) ms @ us"
  have w: "mem_write_block (data ap) (int (length xs)) vs = Some ?d" using assms(4) by (simp add: assms(2) write_behind)
  define n where "n = length ms + length us - length vs"
  have "copy_cells ?d (int (length xs + length vs)) (int (length xs + length ms)) n = None"
    using assms(4) by (intro copy_cells_overrun) (simp_all add: n_def)
  moreover have "int (length ms + length us + length xs) - int (length xs + length vs) = int n" using assms(4) by (simp add: n_def)
  ultimately have "splice_cells ejs ap (int (length xs)) (int (length ms)) vs = None"
    using assms(4) w by (simp add: splice_cells_def l Let_def algebra_simps)
  then show ?thesis by (simp add: spliceArray_def ne cl r rd Let_def)
qed

theorem splice_overruns_witness: "spliceArray (ready None) three_numbers 0 1 [] = None"
  using splice_overruns [OF ready_heap, of three_numbers "[]" "[ENumber 5]" "[ENumber 7, ENumber 3]" "[]" None]
  by (simp add: three_numbers_def)

section \<open>Union and intersection\<close>

text \<open>Appending with the index minus one, as the set operators do.\<close>

lemma setArrayProperty_append:
  assumes "arr_ok ap" and "heap ejs = (\<lambda>_. True)" and "adynamic ap"
  shows "\<exists>ap'. setArrayProperty ejs ap (-1) v = Some (alength ap, ejs, ap') \<and> arr_ok ap' \<and> adynamic ap' \<and> elements ap' = elements ap @ [v]"
proof -
  have "0 \<le> alength ap" using assms(1) by (simp add: arr_ok_def)
  then have "setArrayProperty ejs ap (-1) v = setArrayProperty ejs ap (alength ap) v"
    using assms(3) by (simp add: setArrayProperty_def checkSlot_def)
  then show ?thesis using setArrayProperty_ok [OF assms(1,2), of "alength ap" v] assms(1,3) by (auto simp: arr_ok_def)
qed

definition add_new :: "element list \<Rightarrow> element \<Rightarrow> element list" where
  "add_new xs v = (if has_element xs v then xs else xs @ [v])"

lemma addUnique_ok:
  assumes "arr_ok ap" and "heap ejs = (\<lambda>_. True)" and "adynamic ap"
  shows "\<exists>ap'. addUnique ejs ap v = Some (0, ejs, ap') \<and> arr_ok ap' \<and> adynamic ap' \<and> elements ap' = add_new (elements ap) v"
  using setArrayProperty_append [OF assms, of v] assms by (auto simp: addUnique_def add_new_def arr_ok_def)

lemma add_all_unique_ok:
  "arr_ok ap \<Longrightarrow> heap ejs = (\<lambda>_. True) \<Longrightarrow> adynamic ap
   \<Longrightarrow> \<exists>ap'. add_all_unique ejs vs ap = Some (ejs, ap') \<and> arr_ok ap' \<and> adynamic ap' \<and> elements ap' = foldl add_new (elements ap) vs"
proof (induction vs arbitrary: ap)
  case (Cons v vs)
  obtain ap1 where "addUnique ejs ap v = Some (0, ejs, ap1)" "arr_ok ap1" "adynamic ap1" "elements ap1 = add_new (elements ap) v"
    using addUnique_ok [OF Cons.prems, of v] by blast
  with Cons.IH [of ap1] Cons.prems(2) show ?case by simp
qed simp

text \<open>Adding the new elements one by one keeps the first of equal elements.\<close>

lemma unique_list_append:
  "unique_list (xs @ [v]) = add_new (unique_list xs) v"
proof (induction xs)
  case (Cons x xs)
  have "has_element (filter (\<lambda>y. \<not> compareArrayElement x y) ys) v = has_element ys v" if "\<not> compareArrayElement x v" for ys
    using that compareArrayElement_trans compareArrayElement_sym by (fastforce simp: has_element_def)
  with Cons show ?case by (auto simp: add_new_def has_element_def)
qed (simp add: add_new_def has_element_def)

lemma foldl_add_new: "foldl add_new (unique_list xs) vs = unique_list (xs @ vs)"
proof (induction vs rule: rev_induct)
  case (snoc v vs)
  then show ?case using unique_list_append [of "xs @ vs" v] by simp
qed simp

lemma intersect_with_ok:
  "arr_ok ap \<Longrightarrow> heap ejs = (\<lambda>_. True) \<Longrightarrow> adynamic ap
   \<Longrightarrow> \<exists>ap'. intersect_with ejs v rs ap = Some (ejs, ap') \<and> arr_ok ap' \<and> adynamic ap'
     \<and> elements ap' = (if has_element rs v then add_new (elements ap) v else elements ap)"
proof (induction rs arbitrary: ap)
  case (Cons r rs)
  have s: "(\<exists>x\<in>set xs. compareArrayElement v x) = has_element xs v" for xs
    by (auto simp: has_element_def compareArrayElement_sym)
  have l: "alength ap = 0 \<Longrightarrow> \<not> has_element (elements ap) v" by (simp add: has_element_def elements_def)
  show ?case
  proof (cases "compareArrayElement v r")
    case True
    then have h: "has_element (r # rs) v" by (simp add: has_element_def compareArrayElement_sym)
    show ?thesis
    proof (cases "has_element (elements ap) v")
      case old: True
      obtain ap1 where "intersect_with ejs v rs ap = Some (ejs, ap1)" "arr_ok ap1" "adynamic ap1" "elements ap1 = elements ap"
        using Cons.IH [OF Cons.prems] old by (auto simp: add_new_def)
      then show ?thesis using Cons.prems True h old l by (auto simp: s add_new_def)
    next
      case new: False
      obtain ap1 where ap1: "setArrayProperty ejs ap (-1) v = Some (alength ap, ejs, ap1)" "arr_ok ap1" "adynamic ap1" "elements ap1 = elements ap @ [v]"
        using setArrayProperty_append [OF Cons.prems, of v] by blast
      have "compareArrayElement v v" by (cases v) auto
      then have "add_new (elements ap1) v = elements ap1" by (auto simp: add_new_def has_element_def ap1(4))
      with Cons.IH [OF ap1(2) Cons.prems(2) ap1(3)] Cons.prems(1) True new h ap1 show ?thesis by (auto simp: s add_new_def)
    qed
  next
    case False
    then have "has_element (r # rs) v = has_element rs v" by (simp add: has_element_def compareArrayElement_sym)
    with Cons False show ?thesis by auto
  qed
qed (simp add: has_element_def)

lemma intersect_all_ok:
  "arr_ok ap \<Longrightarrow> heap ejs = (\<lambda>_. True) \<Longrightarrow> adynamic ap
   \<Longrightarrow> \<exists>ap'. intersect_all ejs vs rs ap = Some (ejs, ap') \<and> arr_ok ap' \<and> elements ap' = foldl add_new (elements ap) (filter (has_element rs) vs)"
proof (induction vs arbitrary: ap)
  case (Cons v vs)
  obtain ap1 where "intersect_with ejs v rs ap = Some (ejs, ap1)" "arr_ok ap1" "adynamic ap1"
    "elements ap1 = (if has_element rs v then add_new (elements ap) v else elements ap)"
    using intersect_with_ok [OF Cons.prems, of v rs] by blast
  with Cons.IH [of ap1] Cons.prems(2) show ?case by (auto split: if_splits)
qed simp

text \<open>
  Property C28. The operators \<^verbatim>\<open>|\<close> and \<^verbatim>\<open>&\<close> on arrays are union and intersection: each makes a new array
  with the first of equal elements, in the order of the operands.
\<close>

theorem set_operators:
  assumes "arr_ok lhs" and "arr_ok rhs" and "heap ejs = (\<lambda>_. True)"
  shows "(\<exists>ap. makeUnion ejs lhs rhs = Some (ejs, ap) \<and> arr_ok ap \<and> elements ap = unique_list (elements lhs @ elements rhs))
    \<and> (\<exists>ap. makeIntersection ejs lhs rhs = Some (ejs, ap) \<and> arr_ok ap
         \<and> elements ap = unique_list (filter (has_element (elements rhs)) (elements lhs)))"
proof -
  have n: "arr_ok new_array" "adynamic new_array" "elements new_array = unique_list []"
    using new_array_ok by (simp_all add: new_array_def)
  obtain ap1 where 1: "add_all_unique ejs (elements lhs) new_array = Some (ejs, ap1)" "arr_ok ap1" "adynamic ap1"
    "elements ap1 = unique_list (elements lhs)"
    using add_all_unique_ok [OF n(1) assms(3) n(2), of "elements lhs"] foldl_add_new [of "[]"] n(3) by auto
  show ?thesis
    using add_all_unique_ok [OF 1(2) assms(3) 1(3), of "elements rhs"] 1 foldl_add_new [of "elements lhs"] assms
      intersect_all_ok [OF n(1) assms(3) n(2), of "elements lhs" "elements rhs"] foldl_add_new [of "[]"] n(3)
    by (auto simp: makeUnion_def makeIntersection_def)
qed

theorem set_operators_witness:
  "(\<exists>ap. makeUnion (ready None) three_numbers roomy = Some (ready None, ap) \<and> arr_ok ap
       \<and> elements ap = map ENumber [5, 7, 3, 1, 2, 4])
   \<and> (\<exists>ap. makeIntersection (ready None) three_numbers roomy = Some (ready None, ap) \<and> arr_ok ap \<and> elements ap = [ENumber 3])"
proof -
  have "arr_ok three_numbers" "arr_ok roomy" by (simp_all add: arr_ok_def three_numbers_def roomy_def)
  from set_operators [OF this ready_heap, of None] show ?thesis
    by (simp add: three_numbers_def roomy_def elements_def has_element_def)
qed

section \<open>Iteration\<close>

text \<open>A loop over the values of an array that the loop does not change; it ends with the exception that stops it.\<close>

fun iterate :: "nat \<Rightarrow> ejs \<Rightarrow> ejs_array \<Rightarrow> array_iterator \<Rightarrow> (element list \<times> ejs) option" where
  "iterate 0 ejs ap ip = None"
| "iterate (Suc fuel) ejs ap ip =
     (case nextArrayValue ejs ap ip of
        None \<Rightarrow> None
      | Some (None, ejs1, _) \<Rightarrow> Some ([], ejs1)
      | Some (Some v, ejs1, ip1) \<Rightarrow> map_option (\<lambda>(vs, e). (v # vs, e)) (iterate fuel ejs1 ap ip1))"

lemma skip_undefined_ok:
  "arr_ok ap \<Longrightarrow> 0 \<le> iindex ip \<Longrightarrow> ilength ip = alength ap
   \<Longrightarrow> dropWhile (\<lambda>v. v = EUndefined) (drop (nat (iindex ip)) (elements ap)) = rest
   \<Longrightarrow> skip_undefined ap ip =
     Some (case rest of [] \<Rightarrow> None | v # vs \<Rightarrow> Some v,
           ip\<lparr>iindex := if rest = [] then max (iindex ip) (alength ap) else alength ap - int (length rest)\<rparr>)"
proof (induction ap ip rule: skip_undefined.induct)
  case (1 ap ip)
  have l: "alength ap = int (length (elements ap))" using length_elements [OF 1(2)] by simp
  show ?case
  proof (cases "iindex ip < ilength ip")
    case False
    then have "rest = []" using 1(4,5) l by auto
    with False 1(4) show ?thesis by (subst skip_undefined.simps) simp
  next
    case True
    define i where "i = nat (iindex ip)"
    have i: "iindex ip = int i" "i < length (elements ap)" using True 1(3,4) l by (auto simp: i_def)
    have r: "mem_read (data ap) (iindex ip) = Some (elements ap ! i)"
      using i elements_nth [OF i(2)] by (simp add: mem_read_def elements_def)
    have d: "drop i (elements ap) = elements ap ! i # drop (Suc i) (elements ap)" using i(2) by (simp add: Cons_nth_drop_Suc)
    have s: "nat (iindex ip + 1) = Suc i" using i by simp
    show ?thesis
    proof (cases "elements ap ! i = EUndefined")
      case u: True
      have "dropWhile (\<lambda>v. v = EUndefined) (drop (Suc i) (elements ap)) = rest" using 1(5) d u by (simp add: i(1))
      then have ih: "skip_undefined ap (ip\<lparr>iindex := iindex ip + 1\<rparr>) =
         Some (case rest of [] \<Rightarrow> None | v # vs \<Rightarrow> Some v,
           ip\<lparr>iindex := if rest = [] then max (iindex ip + 1) (alength ap) else alength ap - int (length rest)\<rparr>)"
        using 1(1) [OF True r u] 1(2-4) s by simp
      have "max (iindex ip + 1) (alength ap) = max (iindex ip) (alength ap)" using True 1(4) by simp
      with ih True r u show ?thesis by (subst skip_undefined.simps) simp
    next
      case False
      have "rest = drop i (elements ap)" using 1(5) d False by (simp add: i(1))
      then show ?thesis using True r d False l i by (subst skip_undefined.simps) simp
    qed
  qed
qed

lemma iterate_from:
  "arr_ok ap \<Longrightarrow> i \<le> length (elements ap) \<Longrightarrow> length (elements ap) - i < fuel
   \<Longrightarrow> iterate fuel ejs ap \<lparr>iindex = int i, ilength = alength ap\<rparr>
       = Some (filter (\<lambda>v. v \<noteq> EUndefined) (drop i (elements ap)), ejsThrow StopIteration ejs)"
proof (induction fuel arbitrary: i)
  case (Suc fuel)
  let ?rest = "dropWhile (\<lambda>v. v = EUndefined) (drop i (elements ap))"
  have "filter (\<lambda>v. v \<noteq> EUndefined) xs = filter (\<lambda>v. v \<noteq> EUndefined) (dropWhile (\<lambda>v. v = EUndefined) xs)" for xs
    by (induction xs) simp_all
  note f = this [of "drop i (elements ap)"]
  show ?case
  proof (cases ?rest)
    case Nil
    have "skip_undefined ap \<lparr>iindex = int i, ilength = alength ap\<rparr>
        = Some (None, \<lparr>iindex = max (int i) (alength ap), ilength = alength ap\<rparr>)"
      using skip_undefined_ok [of ap "\<lparr>iindex = int i, ilength = alength ap\<rparr>" "[]"] Suc.prems(1) Nil by simp
    then show ?thesis using f Nil by (simp add: nextArrayValue_def del: dropWhile_eq_Nil_conv)
  next
    case (Cons v vs)
    define j where "j = length (elements ap) - length vs"
    have suffix: "\<exists>us. drop i (elements ap) = us @ v # vs" using Cons by (metis takeWhile_dropWhile_id)
    then obtain us where us: "drop i (elements ap) = us @ v # vs" by blast
    have "elements ap = (take i (elements ap) @ us @ [v]) @ vs" using us append_take_drop_id [of i "elements ap"] by simp
    then have v: "drop j (elements ap) = vs" by (metis append_eq_conv_conj diff_add_inverse2 j_def length_append)
    have "length (elements ap) - i = length us + Suc (length vs)" using arg_cong [OF us, of length] by simp
    then have j: "j \<le> length (elements ap)" "length (elements ap) - j < fuel" "alength ap - int (length vs) = int j"
      using Suc.prems length_elements [OF Suc.prems(1)] by (auto simp: j_def)
    have "skip_undefined ap \<lparr>iindex = int i, ilength = alength ap\<rparr> = Some (Some v, \<lparr>iindex = int j - 1, ilength = alength ap\<rparr>)"
      using skip_undefined_ok [of ap "\<lparr>iindex = int i, ilength = alength ap\<rparr>" "v # vs"] Suc.prems(1) Cons j(3) by simp
    moreover have "v \<noteq> EUndefined" using Cons by (metis (mono_tags) dropWhile_eq_Cons_conv)
    ultimately show ?thesis using Suc.IH [OF Suc.prems(1) j(1,2)] Cons f v by (simp add: nextArrayValue_def)
  qed
qed simp

text \<open>
  Iterating over the values of an array visits exactly the elements that are not undefined,
  in order, and ends with the exception \<^verbatim>\<open>StopIteration\<close>.
\<close>

theorem iterate_values:
  assumes "arr_ok ap"
  shows "iterate (Suc (nat (alength ap))) ejs ap (getArrayIterator ap)
    = Some (filter (\<lambda>v. v \<noteq> EUndefined) (elements ap), ejsThrow StopIteration ejs)"
  using iterate_from [OF assms, of 0 "Suc (nat (alength ap))" ejs] length_elements [OF assms]
  by (simp add: getArrayIterator_def)

theorem iterate_values_witness:
  "iterate 4 (ready None) three_strings (getArrayIterator three_strings)
     = Some ([EString ''b'', EString ''c'', EString ''a''], ejsThrow StopIteration (ready None))"
proof -
  have "arr_ok three_strings" by (simp add: arr_ok_def three_strings_def)
  from iterate_values [OF this, of "ready None"] show ?thesis by (simp add: three_strings_def elements_def)
qed

section \<open>Removing items\<close>

text \<open>
  After a removal the loop of \<^verbatim>\<open>ejsRemoveItems\<close> goes on behind the element that has moved into the
  place: of two equal neighbours one stays.
\<close>

theorem remove_skips_neighbour:
  "map_option elements (removeElements \<lparr>data = [ENumber 1, ENumber 1, ENumber 2], alength = 3, adynamic = True\<rparr> [ENumber 1])
     = Some [ENumber 1, ENumber 2]"
  by (simp add: removeElements_def ejsRemoveItems_def on_elements_def arr_fits_def remove_items_from.simps remove_at_def elements_def)

end
