(* ===== verification/Scope.thy ===== *)
theory Scope
  imports Pot "HOL-Library.Monad_Syntax"
begin

text \<open>
  Variable lookup (\<^verbatim>\<open>src/vm/ejsScope.c\<close>): a name is looked up in an object, in its prototypes and
  base classes, or along the chain of lexical blocks, with the namespaces that are open there.

  \<^item> Objects live at addresses. An object has its properties (a pot), its type and, when it is a
    block, a frame or a type, what the lookup reads of these. All of them look their properties up
    as pots do.
  \<^item> The namespaces of a block are the list of the values of its namespace objects.
  \<^item> The loops that follow pointers (scope, base types) need not end: a lookup that does not is
    \<^const>\<open>None\<close>, as is one that follows a pointer to no object.
\<close>

section \<open>State\<close>

record scope_obj =
  so_pot :: pot
  so_type :: nat
  virtualSlots :: bool
  namespaces :: "string list"
  scope :: "nat option"
  boundThis :: "nat option"
  staticMethod :: bool
  isInitializer :: bool
  isConstructor :: bool
  baseType :: "nat option"
  prototype :: "nat option"

text \<open>The interpreter: the innermost block and the current frame are its state, absent before it runs.\<close>

record interp_state =
  bp :: "nat option"
  fp :: nat

record vm =
  objs :: "nat \<Rightarrow> scope_obj option"
  global :: nat
  state :: "interp_state option"

record lookup =
  slotNum :: int
  nthBase :: nat
  nthBlock :: nat
  ltype :: "nat option"
  lobj :: "nat option"
  originalObj :: "nat option"
  lref :: "ejs_value option"
  ltrait :: "(nat option \<times> int) option"
  lname :: "qname option"

definition blank_lookup :: lookup where
  "blank_lookup = \<lparr>slotNum = 0, nthBase = 0, nthBlock = 0, ltype = None, lobj = None, originalObj = None,
     lref = None, ltrait = None, lname = None\<rparr>"

text \<open>
  A loop along pointers: the visit of an address, with its position in the chain, either ends the
  loop with a result or says where it goes on.
\<close>

partial_function (option) walk_chain :: "(nat \<Rightarrow> nat \<Rightarrow> ('r + nat option) option) \<Rightarrow> nat option \<Rightarrow> nat \<Rightarrow> 'r option option" where
  "walk_chain visit p k =
     (case p of
        None \<Rightarrow> Some None
      | Some a \<Rightarrow>
          (case visit a k of
             None \<Rightarrow> None
           | Some (Inl r) \<Rightarrow> Some (Some r)
           | Some (Inr q) \<Rightarrow> walk_chain visit q (Suc k)))"

declare walk_chain.simps [code]

section \<open>Lookup in one object\<close>

text \<open>The list of a block is searched from its end.\<close>

definition open_in_blocks :: "vm \<Rightarrow> string \<Rightarrow> bool option" where
  "open_in_blocks vm space =
     do { st \<leftarrow> state vm;
          r \<leftarrow> walk_chain (\<lambda>b _. do { bo \<leftarrow> objs vm b;
                                       Some (if space \<in> set (rev (namespaces bo)) then Inl () else Inr (scope bo)) }) (bp st) 0;
          Some (r \<noteq> None) }"

text \<open>The first of a list of namespaces in which the object has the name.\<close>

fun first_space :: "pot \<Rightarrow> string \<Rightarrow> string list \<Rightarrow> (int \<times> string) option option" where
  "first_space obj name [] = Some None"
| "first_space obj name (sp # sps) =
     do { s \<leftarrow> ejsLookupPotProperty obj name (Some sp);
          if s \<ge> 0 then Some (Some (s, sp)) else first_space obj name sps }"

definition search_spaces :: "vm \<Rightarrow> pot \<Rightarrow> string \<Rightarrow> (int \<times> string) option option" where
  "search_spaces vm obj name =
     do { st \<leftarrow> state vm;
          r \<leftarrow> walk_chain (\<lambda>b _. do { bo \<leftarrow> objs vm b;
                                       f \<leftarrow> first_space obj name (rev (namespaces bo));
                                       Some (case f of Some x \<Rightarrow> Inl x | None \<Rightarrow> Inr (scope bo)) }) (bp st) 0;
          case r of
            Some x \<Rightarrow> Some (Some x)
          | None \<Rightarrow> do { g \<leftarrow> objs vm (global vm); first_space obj name (rev (namespaces g)) } }"

text \<open>The end of the lookup: the reference is read, and a pending exception makes it fail.\<close>

definition lookup_done :: "ejs \<Rightarrow> nat \<Rightarrow> pot \<Rightarrow> int \<Rightarrow> lookup \<Rightarrow> (int \<times> ejs \<times> lookup) option" where
  "lookup_done ejs obj pt slot l =
     (if slot \<ge> 0
      then do { (ref, ejs1) \<leftarrow> getPotProperty ejs pt slot;
                if exception ejs1 \<noteq> None then Some (-1, ejs1, l\<lparr>lref := ref\<rparr>)
                else do { tr \<leftarrow> getPotPropertyTraits pt slot;
                          Some (slot, ejs1, l\<lparr>lref := ref, lobj := Some obj, slotNum := slot, ltrait := tr\<rparr>) } }
      else Some (slot, ejs, l))"

definition ejsLookupVarWithNamespaces :: "vm \<Rightarrow> ejs \<Rightarrow> nat \<Rightarrow> qname \<Rightarrow> lookup \<Rightarrow> (int \<times> ejs \<times> lookup) option" where
  "ejsLookupVarWithNamespaces vm ejs obj name l =
     do { ob \<leftarrow> objs vm obj;
          let pt = so_pot ob;
          if snd name \<noteq> []
          then do { slot \<leftarrow> ejsLookupPotProperty pt (fst name) (Some (snd name));
                    lookup_done ejs obj pt slot (l\<lparr>lname := Some name\<rparr>) }
          else do {
            slot \<leftarrow> ejsLookupPotProperty pt (fst name) None;
            if slot \<ge> 0
            then do {
              ty \<leftarrow> objs vm (so_type ob);
              if virtualSlots ty then lookup_done ejs obj pt slot (l\<lparr>lname := Some name\<rparr>)
              else do {
                targ \<leftarrow> ejsGetPotPropertyName pt slot;
                let l1 = l\<lparr>lname := targ\<rparr>;
                case targ of
                  Some target \<Rightarrow>
                    if snd target \<noteq> []
                    then do { g \<leftarrow> objs vm (global vm);
                              opened \<leftarrow> (if snd target \<in> set (rev (namespaces g)) then Some True else open_in_blocks vm (snd target));
                              lookup_done ejs obj pt (if opened then slot else -1) l1 }
                    else lookup_done ejs obj pt slot l1
                | None \<Rightarrow> lookup_done ejs obj pt slot l1 } }
            else do {
              found \<leftarrow> search_spaces vm pt (fst name);
              case found of
                Some (s, sp) \<Rightarrow> lookup_done ejs obj pt s (l\<lparr>lname := Some (fst name, sp)\<rparr>)
              | None \<Rightarrow> lookup_done ejs obj pt (-1) l } } }"

section \<open>Prototypes and base classes\<close>

text \<open>
  The loop over the prototypes of a type and its base types. It stops at a type without prototype
  or with a short scope; \<open>keep_type\<close> says whether the type is recorded.
\<close>

type_synonym progress = "int \<times> ejs \<times> lookup"

text \<open>The loops thread the state of the exception and the lookup record from visit to visit.\<close>

partial_function (option) search_prototypes ::
    "vm \<Rightarrow> bool \<Rightarrow> qname \<Rightarrow> nat option \<Rightarrow> nat \<Rightarrow> ejs \<Rightarrow> lookup \<Rightarrow> progress option" where
  "search_prototypes vm keep_type name type n ejs l =
     (case type of
        None \<Rightarrow> Some (-1, ejs, l)
      | Some t \<Rightarrow>
          Option.bind (objs vm t) (\<lambda>ty.
            case prototype ty of
              None \<Rightarrow> Some (-1, ejs, l)
            | Some p \<Rightarrow>
                Option.bind (objs vm p) (\<lambda>pr.
                  if shortScope (so_pot pr) then Some (-1, ejs, l)
                  else Option.bind (ejsLookupVarWithNamespaces vm ejs p name l) (\<lambda>(slot, ejs1, l1).
                    if slot \<ge> 0
                    then Some (slot, ejs1, if keep_type then l1\<lparr>nthBase := n, ltype := Some t\<rparr> else l1\<lparr>nthBase := n\<rparr>)
                    else search_prototypes vm keep_type name (baseType ty) (Suc n) ejs1 l1))))"

declare search_prototypes.simps [code]

text \<open>
  The loop over a type and its base types. A type with a short scope ends the loop in the lookup
  of a block, and is passed over in the lookup of an object.
\<close>

partial_function (option) search_bases ::
    "vm \<Rightarrow> bool \<Rightarrow> qname \<Rightarrow> nat option \<Rightarrow> nat \<Rightarrow> ejs \<Rightarrow> lookup \<Rightarrow> progress option" where
  "search_bases vm pass_over name type n ejs l =
     (case type of
        None \<Rightarrow> Some (-1, ejs, l)
      | Some t \<Rightarrow>
          Option.bind (objs vm t) (\<lambda>ty.
            if shortScope (so_pot ty)
            then if pass_over then search_bases vm pass_over name (baseType ty) (Suc n) ejs l else Some (-1, ejs, l)
            else Option.bind (ejsLookupVarWithNamespaces vm ejs t name l) (\<lambda>(slot, ejs1, l1).
              if slot \<ge> 0 then Some (slot, ejs1, l1\<lparr>nthBase := n\<rparr>)
              else search_bases vm pass_over name (baseType ty) (Suc n) ejs1 l1)))"

declare search_bases.simps [code]

definition ejsLookupVar :: "vm \<Rightarrow> ejs \<Rightarrow> nat \<Rightarrow> qname \<Rightarrow> progress option" where
  "ejsLookupVar vm ejs obj name =
     do { (slot, ejs1, l1) \<leftarrow> ejsLookupVarWithNamespaces vm ejs obj name blank_lookup;
          if slot \<ge> 0 then Some (slot, ejs1, l1)
          else do {
            ob \<leftarrow> objs vm obj;
            (slot2, ejs2, l2) \<leftarrow> search_prototypes vm False name (Some (so_type ob)) 1 ejs1 l1;
            if slot2 \<ge> 0 then Some (slot2, ejs2, l2)
            else search_bases vm True name (if isType (so_pot ob) then baseType ob else Some (so_type ob)) 1 ejs2 l2 } }"

text \<open>The part of the lookup in a frame that searches the object of the method.\<close>

definition lookup_this :: "vm \<Rightarrow> ejs \<Rightarrow> nat \<Rightarrow> qname \<Rightarrow> bool \<Rightarrow> lookup \<Rightarrow> progress option" where
  "lookup_this vm ejs this name constructing l1 =
     do { thisObj \<leftarrow> objs vm this;
          (slot2, ejs2, l2) \<leftarrow> ejsLookupVarWithNamespaces vm ejs this name (l1\<lparr>originalObj := Some this\<rparr>);
          if slot2 \<ge> 0 then Some (slot2, ejs2, l2)
          else do {
            (slot3, ejs3, l3) \<leftarrow> search_prototypes vm True name (Some (so_type thisObj)) 1 ejs2 l2;
            if slot3 \<ge> 0 then Some (slot3, ejs3, l3)
            else if constructing then search_bases vm False name (Some (so_type thisObj)) 1 ejs3 l3
            else Some (-1, ejs3, l3) } }"

text \<open>
  One block of the scope chain. The object that the current function is bound to is searched at the
  frame of a method that is bound to it, unless the method is static or an initializer.
\<close>

definition lookupVarInBlock :: "vm \<Rightarrow> ejs \<Rightarrow> nat \<Rightarrow> qname \<Rightarrow> lookup \<Rightarrow> progress option" where
  "lookupVarInBlock vm ejs b name l =
     do { st \<leftarrow> state vm;
          frame \<leftarrow> objs vm (fp st);
          bo \<leftarrow> objs vm b;
          (slot, ejs1, l1) \<leftarrow> ejsLookupVarWithNamespaces vm ejs b name (l\<lparr>originalObj := Some b\<rparr>);
          if slot \<ge> 0 then Some (slot, ejs1, l1)
          else if isFrame (so_pot bo)
          then case boundThis frame of
                 None \<Rightarrow> Some (-1, ejs1, l1)
               | Some this \<Rightarrow>
                   if boundThis bo = Some this \<and> this \<noteq> global vm \<and> \<not> staticMethod bo \<and> \<not> isInitializer bo
                   then lookup_this vm ejs1 this name (isConstructor bo) l1
                   else Some (-1, ejs1, l1)
          else if isType (so_pot bo) then search_bases vm False name (Some b) 1 ejs1 l1
          else Some (-1, ejs1, l1) }"

section \<open>The scope chain\<close>

text \<open>Without an interpreter state only the global object is searched, which needs the state.\<close>

partial_function (option) search_scope :: "vm \<Rightarrow> qname \<Rightarrow> nat option \<Rightarrow> nat \<Rightarrow> ejs \<Rightarrow> lookup \<Rightarrow> progress option" where
  "search_scope vm name b n ejs l =
     (case b of
        None \<Rightarrow> Some (-1, ejs, l\<lparr>nthBlock := n\<rparr>)
      | Some a \<Rightarrow>
          Option.bind (objs vm a) (\<lambda>bo.
            Option.bind (lookupVarInBlock vm ejs a name (l\<lparr>nthBlock := n\<rparr>)) (\<lambda>(slot, ejs1, l1).
              if slot \<ge> 0 then Some (slot, ejs1, l1)
              else search_scope vm name (scope bo) (Suc n) ejs1 l1)))"

declare search_scope.simps [code]

definition ejsLookupScope :: "vm \<Rightarrow> ejs \<Rightarrow> qname \<Rightarrow> progress option" where
  "ejsLookupScope vm ejs name =
     (case state vm of
        None \<Rightarrow> lookupVarInBlock vm ejs (global vm) name blank_lookup
      | Some st \<Rightarrow>
          do { (slot, ejs1, l1) \<leftarrow> search_scope vm name (bp st) 0 ejs blank_lookup;
               if slot \<ge> 0 then Some (slot, ejs1, l1) else lookupVarInBlock vm ejs1 (global vm) name l1 })"

text \<open>
  The value of a variable. \<open>byName\<close> is the helper that some types have to get a property by its
  name; it comes first.
\<close>

definition ejsGetVarByName ::
    "(nat \<Rightarrow> qname \<Rightarrow> ejs_value option) \<Rightarrow> vm \<Rightarrow> ejs \<Rightarrow> nat option \<Rightarrow> qname \<Rightarrow> (ejs_value option \<times> ejs) option" where
  "ejsGetVarByName byName vm ejs obj name =
     (case Option.bind obj (\<lambda>a. byName a name) of
        Some v \<Rightarrow> Some (Some v, ejs)
      | None \<Rightarrow>
          do { (slot, ejs1, l) \<leftarrow> (case obj of Some a \<Rightarrow> ejsLookupVar vm ejs a name | None \<Rightarrow> ejsLookupScope vm ejs name);
               if slot < 0 then Some (None, ejs1)
               else do { a \<leftarrow> lobj l; ob \<leftarrow> objs vm a; getPotProperty ejs1 (so_pot ob) slot } })"

section \<open>What a name means\<close>

text \<open>A chain of pointers as the list of the addresses on it.\<close>

fun linked :: "(nat \<Rightarrow> nat option option) \<Rightarrow> nat option \<Rightarrow> nat list \<Rightarrow> bool" where
  "linked nxt p [] \<longleftrightarrow> p = None"
| "linked nxt p (a # as) \<longleftrightarrow> p = Some a \<and> (case nxt a of None \<Rightarrow> False | Some q \<Rightarrow> linked nxt q as)"

abbreviation scope_of :: "vm \<Rightarrow> nat \<Rightarrow> nat option option" where
  "scope_of vm a \<equiv> map_option scope (objs vm a)"

abbreviation base_of :: "vm \<Rightarrow> nat \<Rightarrow> nat option option" where
  "base_of vm a \<equiv> map_option baseType (objs vm a)"

abbreviation obj_at :: "vm \<Rightarrow> nat \<Rightarrow> scope_obj" where
  "obj_at vm a \<equiv> the (objs vm a)"

text \<open>
  An interpreter in order: it runs, every object has its properties in order and a type that keeps
  its slots in a pot, no pointer dangles, and the chains of blocks and of base types end.
\<close>

definition object_ok :: "vm \<Rightarrow> (nat \<Rightarrow> nat list) \<Rightarrow> nat \<Rightarrow> bool" where
  "object_ok vm bases a \<longleftrightarrow>
     (case objs vm a of
        None \<Rightarrow> False
      | Some ob \<Rightarrow> pot_ok (so_pot ob) \<and> objs vm (so_type ob) \<noteq> None \<and> \<not> virtualSlots (obj_at vm (so_type ob))
          \<and> (\<forall>p. prototype ob = Some p \<longrightarrow> objs vm p \<noteq> None) \<and> (\<forall>p. boundThis ob = Some p \<longrightarrow> objs vm p \<noteq> None)
          \<and> linked (base_of vm) (Some a) (bases a))"

definition scope_ok :: "vm \<Rightarrow> (nat \<Rightarrow> nat list) \<Rightarrow> nat list \<Rightarrow> bool" where
  "scope_ok vm bases blocks \<longleftrightarrow>
     (\<forall>a. objs vm a \<noteq> None \<longrightarrow> object_ok vm bases a) \<and> objs vm (global vm) \<noteq> None
     \<and> (case state vm of
          None \<Rightarrow> False
        | Some st \<Rightarrow> objs vm (fp st) \<noteq> None \<and> linked (scope_of vm) (bp st) blocks)"

text \<open>The open namespaces in the order of the search: those of the inner blocks first, the global ones last.\<close>

definition open_spaces :: "vm \<Rightarrow> nat list \<Rightarrow> string list" where
  "open_spaces vm blocks = concat (map (\<lambda>a. rev (namespaces (obj_at vm a))) (blocks @ [global vm]))"

text \<open>
  The slot that a name means in one object. A name with a namespace is the property of that name. A
  name without one is the only property that has it, if its namespace is open, and otherwise the
  property in the first open namespace that has one.
\<close>

definition resolve :: "string list \<Rightarrow> pot \<Rightarrow> qname \<Rightarrow> int" where
  "resolve spaces obj name =
     (if snd name \<noteq> [] then property_slot obj name
      else case named_slots obj (fst name) of
             [x] \<Rightarrow> let sp = snd (slot_name (pot_slots obj) x) in if sp = [] \<or> sp \<in> set spaces then int x else -1
           | _ \<Rightarrow> (case find (\<lambda>sp. 0 \<le> property_slot obj (fst name, sp)) spaces of
                    None \<Rightarrow> -1 | Some sp \<Rightarrow> property_slot obj (fst name, sp)))"

section \<open>Lookup in one object\<close>

lemma walk_chain_step:
  "walk_chain visit None k = Some None"
  "walk_chain visit (Some a) k =
     (case visit a k of None \<Rightarrow> None | Some (Inl r) \<Rightarrow> Some (Some r) | Some (Inr q) \<Rightarrow> walk_chain visit q (Suc k))"
  by (subst walk_chain.simps, simp)+

lemma open_in_chain:
  "linked (scope_of vm) p as
   \<Longrightarrow> walk_chain (\<lambda>b _. Option.bind (objs vm b) (\<lambda>bo. Some (if space \<in> set (rev (namespaces bo)) then Inl () else Inr (scope bo)))) p k
     = Some (if \<exists>a \<in> set as. space \<in> set (namespaces (obj_at vm a)) then Some () else None)"
proof (induction as arbitrary: p k)
  case Nil
  then show ?case by (simp add: walk_chain_step)
next
  case (Cons a as)
  then obtain bo where "p = Some a" "objs vm a = Some bo" "linked (scope_of vm) (scope bo) as" by (auto split: option.splits)
  with Cons.IH [of "scope bo" "Suc k"] show ?case by (auto simp: walk_chain_step)
qed

lemma first_space_find:
  "pot_ok obj \<Longrightarrow> name \<noteq> []
   \<Longrightarrow> first_space obj name sps = Some (map_option (\<lambda>sp. (property_slot obj (name, sp), sp)) (find (\<lambda>sp. 0 \<le> property_slot obj (name, sp)) sps))"
  using lookup_qualified [of obj "(name, sp)" for sp] by (induction sps) (auto simp: empty_qname_def)

lemma find_append: "find P (xs @ ys) = (case find P xs of None \<Rightarrow> find P ys | Some x \<Rightarrow> Some x)"
  by (induction xs) auto

lemma search_chain:
  assumes "pot_ok obj" and "name \<noteq> []"
  shows "linked (scope_of vm) p as
   \<Longrightarrow> walk_chain (\<lambda>b _. Option.bind (objs vm b) (\<lambda>bo. Option.bind (first_space obj name (rev (namespaces bo)))
             (\<lambda>f. Some (case f of Some x \<Rightarrow> Inl x | None \<Rightarrow> Inr (scope bo))))) p k
     = Some (map_option (\<lambda>sp. (property_slot obj (name, sp), sp))
          (find (\<lambda>sp. 0 \<le> property_slot obj (name, sp)) (concat (map (\<lambda>a. rev (namespaces (obj_at vm a))) as))))"
proof (induction as arbitrary: p k)
  case Nil
  then show ?case by (simp add: walk_chain_step)
next
  case (Cons a as)
  then obtain bo where "p = Some a" "objs vm a = Some bo" "linked (scope_of vm) (scope bo) as" by (auto split: option.splits)
  with Cons.IH [of "scope bo" "Suc k"] show ?case
    by (auto simp: walk_chain_step first_space_find [OF assms] find_append split: option.split)
qed

lemma scope_okD:
  assumes "scope_ok vm bases blocks"
  shows "objs vm a = Some ob \<Longrightarrow> pot_ok (so_pot ob)"
    and "objs vm a = Some ob \<Longrightarrow> \<exists>ty. objs vm (so_type ob) = Some ty \<and> \<not> virtualSlots ty"
    and "objs vm a = Some ob \<Longrightarrow> prototype ob = Some p \<Longrightarrow> \<exists>pr. objs vm p = Some pr"
    and "objs vm a = Some ob \<Longrightarrow> boundThis ob = Some p \<Longrightarrow> \<exists>pr. objs vm p = Some pr"
    and "objs vm a = Some ob \<Longrightarrow> linked (base_of vm) (Some a) (bases a)"
    and "\<exists>g. objs vm (global vm) = Some g"
    and "\<exists>st frame. state vm = Some st \<and> objs vm (fp st) = Some frame \<and> linked (scope_of vm) (bp st) blocks"
  using assms by (auto simp: scope_ok_def object_ok_def split: option.splits) force+

lemma search_spaces_ok:
  assumes "scope_ok vm bases blocks" and "pot_ok obj" and "name \<noteq> []"
  shows "search_spaces vm obj name
    = Some (map_option (\<lambda>sp. (property_slot obj (name, sp), sp)) (find (\<lambda>sp. 0 \<le> property_slot obj (name, sp)) (open_spaces vm blocks)))"
proof -
  obtain st where st: "state vm = Some st" "linked (scope_of vm) (bp st) blocks" using scope_okD(7) [OF assms(1)] by blast
  obtain g where "objs vm (global vm) = Some g" using scope_okD(6) [OF assms(1)] by blast
  with st search_chain [OF assms(2,3) st(2), of 0] show ?thesis
    by (simp add: search_spaces_def first_space_find [OF assms(2,3)] open_spaces_def find_append split: option.split)
qed

lemma open_in_blocks_ok:
  assumes "scope_ok vm bases blocks" and "objs vm (global vm) = Some g"
  shows "(if sp \<in> set (rev (namespaces g)) then Some True else open_in_blocks vm sp) = Some (sp \<in> set (open_spaces vm blocks))"
proof -
  obtain st where st: "state vm = Some st" "linked (scope_of vm) (bp st) blocks" using scope_okD(7) [OF assms(1)] by blast
  show ?thesis using st(1) open_in_chain [OF st(2), of sp 0] assms(2) by (auto simp: open_in_blocks_def open_spaces_def)
qed

text \<open>What a lookup leaves behind when it has searched the objects of a path.\<close>

definition slot_at :: "vm \<Rightarrow> nat list \<Rightarrow> qname \<Rightarrow> nat \<Rightarrow> int" where
  "slot_at vm blocks name a = resolve (open_spaces vm blocks) (so_pot (obj_at vm a)) name"

definition found_on :: "vm \<Rightarrow> nat list \<Rightarrow> qname \<Rightarrow> nat list \<Rightarrow> int \<Rightarrow> lookup \<Rightarrow> bool" where
  "found_on vm blocks name path slot l \<longleftrightarrow>
     (case find (\<lambda>a. 0 \<le> slot_at vm blocks name a) path of
        None \<Rightarrow> slot = -1
      | Some a \<Rightarrow> slot = slot_at vm blocks name a \<and> lobj l = Some a \<and> slotNum l = slot
          \<and> lref l = Some (slot_value (pot_slots (so_pot (obj_at vm a)) ! nat slot)))"

lemma resolve_range:
  assumes "pot_ok obj"
  shows "resolve spaces obj name = -1 \<or> (\<exists>k < nat (numProp obj). resolve spaces obj name = int k)"
proof -
  have len: "nat (numProp obj) \<le> length (pot_slots obj)" using assms by (auto simp: pot_ok_def)
  have ps: "property_slot obj q = -1 \<or> (\<exists>k < nat (numProp obj). property_slot obj q = int k)" for q
    using property_slot_neg [of obj q] property_slot_present [OF _ len, of q] by (metis linorder_not_less)
  have "x < nat (numProp obj)" if "named_slots obj (fst name) = [x]" for x
  proof -
    have "x \<in> set (named_slots obj (fst name))" using that by simp
    then show ?thesis by (simp add: named_slots_def)
  qed
  then show ?thesis using ps by (auto simp: resolve_def Let_def split: list.splits option.splits)
qed

lemma lookup_done_ok:
  assumes "pot_ok pt" and "exception ejs = None" and "slot = -1 \<or> (\<exists>k < nat (numProp pt). slot = int k)"
  shows "\<exists>l'. lookup_done ejs obj pt slot l = Some (slot, ejs, l') \<and> nthBlock l' = nthBlock l
     \<and> (0 \<le> slot \<longrightarrow> lobj l' = Some obj \<and> slotNum l' = slot \<and> lref l' = Some (slot_value (pot_slots pt ! nat slot)))"
  using assms by (auto simp: lookup_done_def getPotProperty_def getPotPropertyTraits_def mem_read_def pot_ok_def)

text \<open>The three ways to a slot: with a namespace, by the only property of the name, by the open namespaces.\<close>

lemma lookup_reaches_done:
  assumes ok: "scope_ok vm bases blocks" and ob: "objs vm a = Some ob" and "fst name \<noteq> []"
  shows "\<exists>l1. ejsLookupVarWithNamespaces vm ejs a name l = lookup_done ejs a (so_pot ob) (slot_at vm blocks name a) l1 \<and> nthBlock l1 = nthBlock l"
proof -
  let ?pt = "so_pot ob" and ?n = "fst name"
  have pt: "pot_ok ?pt" using scope_okD(1) [OF ok ob] .
  note un = lookup_unqualified [OF pt assms(3)]
  show ?thesis
  proof (cases "snd name = []")
    case False
    then have "name \<noteq> empty_qname" by (auto simp: empty_qname_def)
    with lookup_qualified [OF pt this] False ob show ?thesis
      by (intro exI [of _ "l\<lparr>lname := Some name\<rparr>"]) (simp add: ejsLookupVarWithNamespaces_def slot_at_def resolve_def Let_def)
  next
    case True
    show ?thesis
    proof (cases "\<exists>x. named_slots ?pt ?n = [x]")
      case single: True
      then obtain x where x: "named_slots ?pt ?n = [x]" by blast
      then have "x \<in> set (named_slots ?pt ?n)" by simp
      then have lt: "x < nat (numProp ?pt)" by (simp add: named_slots_def)
      then have nm: "ejsGetPotPropertyName ?pt (int x) = Some (Some (slot_name (pot_slots ?pt) x))"
        using pt by (auto simp: ejsGetPotPropertyName_def mem_read_def slot_name_def pot_ok_def)
      obtain ty where ty: "objs vm (so_type ob) = Some ty" "\<not> virtualSlots ty" using scope_okD(2) [OF ok ob] by blast
      obtain g where g: "objs vm (global vm) = Some g" using scope_okD(6) [OF ok] by blast
      show ?thesis using True x un nm ty g ob open_in_blocks_ok [OF ok g, of "snd (slot_name (pot_slots ?pt) x)"]
        by (intro exI [of _ "l\<lparr>lname := Some (slot_name (pot_slots ?pt) x)\<rparr>"])
          (auto simp: ejsLookupVarWithNamespaces_def slot_at_def resolve_def Let_def split: if_splits)
    next
      case several: False
      then have "only_slot (named_slots ?pt ?n) = -1" by (cases "named_slots ?pt ?n" rule: only_slot.cases) auto
      moreover have "slot_at vm blocks name a = (case find (\<lambda>sp. 0 \<le> property_slot ?pt (?n, sp)) (open_spaces vm blocks) of
          None \<Rightarrow> -1 | Some sp \<Rightarrow> property_slot ?pt (?n, sp))"
        using several True ob by (auto simp: slot_at_def resolve_def split: list.splits)
      ultimately show ?thesis using True un ob search_spaces_ok [OF ok pt assms(3)]
        by (cases "find (\<lambda>sp. 0 \<le> property_slot ?pt (?n, sp)) (open_spaces vm blocks)")
          (auto simp: ejsLookupVarWithNamespaces_def Let_def intro: exI [of _ l] exI [of _ "l\<lparr>lname := Some (?n, sp)\<rparr>" for sp])
    qed
  qed
qed

lemma lookup_in_object:
  assumes "scope_ok vm bases blocks" and "objs vm a = Some ob" and "fst name \<noteq> []" and "exception ejs = None"
  shows "\<exists>l'. ejsLookupVarWithNamespaces vm ejs a name l = Some (slot_at vm blocks name a, ejs, l') \<and> nthBlock l' = nthBlock l
     \<and> found_on vm blocks name [a] (slot_at vm blocks name a) l'"
proof -
  let ?pt = "so_pot ob" and ?s = "slot_at vm blocks name a"
  have pt: "pot_ok ?pt" using scope_okD(1) [OF assms(1,2)] .
  have range: "?s = -1 \<or> (\<exists>k < nat (numProp ?pt). ?s = int k)" using resolve_range [OF pt] by (simp add: slot_at_def assms(2))
  obtain l1 where l1: "ejsLookupVarWithNamespaces vm ejs a name l = lookup_done ejs a ?pt ?s l1" "nthBlock l1 = nthBlock l"
    using lookup_reaches_done [OF assms(1-3)] by blast
  from lookup_done_ok [OF pt assms(4) range, of a l1] l1 assms(2) range show ?thesis
    by (auto simp: found_on_def)
qed

section \<open>Search paths\<close>

lemma find_true: "find P xs = Some a \<Longrightarrow> P a"
  by (induction xs) (auto split: if_splits)

text \<open>What was found on the first part of a path, or else on the second, is found on the whole.\<close>

lemma found_on_neg: "found_on vm blocks name p s l \<Longrightarrow> \<not> 0 \<le> s \<Longrightarrow> find (\<lambda>a. 0 \<le> slot_at vm blocks name a) p = None \<and> s = -1"
  by (cases "find (\<lambda>a. 0 \<le> slot_at vm blocks name a) p") (auto simp: found_on_def dest: find_true)

lemma found_on_append:
  "found_on vm blocks name p1 s1 l1 \<Longrightarrow> 0 \<le> s1 \<Longrightarrow> found_on vm blocks name (p1 @ p2) s1 l1"
  "found_on vm blocks name p1 s1 l1 \<Longrightarrow> \<not> 0 \<le> s1 \<Longrightarrow> found_on vm blocks name p2 s2 l2 \<Longrightarrow> found_on vm blocks name (p1 @ p2) s2 l2"
proof -
  assume "found_on vm blocks name p1 s1 l1" "0 \<le> s1"
  then show "found_on vm blocks name (p1 @ p2) s1 l1"
    by (cases "find (\<lambda>a. 0 \<le> slot_at vm blocks name a) p1") (simp_all add: found_on_def find_append)
next
  assume "found_on vm blocks name p1 s1 l1" "\<not> 0 \<le> s1" "found_on vm blocks name p2 s2 l2"
  then show "found_on vm blocks name (p1 @ p2) s2 l2"
    using found_on_neg [of vm blocks name p1 s1 l1] by (simp add: found_on_def find_append)
qed

lemma found_on_Cons:
  "found_on vm blocks name [a] s1 l1 \<Longrightarrow> 0 \<le> s1 \<Longrightarrow> found_on vm blocks name (a # p2) s1 l1"
  "found_on vm blocks name [a] s1 l1 \<Longrightarrow> \<not> 0 \<le> s1 \<Longrightarrow> found_on vm blocks name p2 s2 l2 \<Longrightarrow> found_on vm blocks name (a # p2) s2 l2"
  using found_on_append(1) [of vm blocks name "[a]" s1 l1 p2] found_on_append(2) [of vm blocks name "[a]" s1 l1 p2 s2 l2] by simp_all

lemma found_on_Nil [simp]: "found_on vm blocks name [] s l \<longleftrightarrow> s = -1"
  by (simp add: found_on_def)

lemma found_on_update [simp]:
  "found_on vm blocks name p s (l\<lparr>nthBase := n\<rparr>) = found_on vm blocks name p s l"
  "found_on vm blocks name p s (l\<lparr>nthBase := n, ltype := t\<rparr>) = found_on vm blocks name p s l"
  by (auto simp: found_on_def split: option.split)

text \<open>The prototypes of a chain of types, up to the first that has none or a short scope.\<close>

definition has_prototype :: "vm \<Rightarrow> nat \<Rightarrow> bool" where
  "has_prototype vm t \<longleftrightarrow>
     (case prototype (obj_at vm t) of None \<Rightarrow> False | Some p \<Rightarrow> \<not> shortScope (so_pot (obj_at vm p)))"

definition prototypes :: "vm \<Rightarrow> nat list \<Rightarrow> nat list" where
  "prototypes vm ts = map (\<lambda>t. the (prototype (obj_at vm t))) (takeWhile (has_prototype vm) ts)"

abbreviation long_scope :: "vm \<Rightarrow> nat \<Rightarrow> bool" where
  "long_scope vm t \<equiv> \<not> shortScope (so_pot (obj_at vm t))"

lemma search_prototypes_ok:
  assumes ok: "scope_ok vm bases blocks" and "fst name \<noteq> []" and "exception ejs = None"
  shows "linked (base_of vm) type ts
   \<Longrightarrow> \<exists>s l'. search_prototypes vm keep name type n ejs l = Some (s, ejs, l') \<and> nthBlock l' = nthBlock l
     \<and> found_on vm blocks name (prototypes vm ts) s l'"
proof (induction ts arbitrary: type n l)
  case Nil
  then show ?case by (subst search_prototypes.simps) (simp add: prototypes_def)
next
  case (Cons t ts)
  then obtain ty where t: "type = Some t" "objs vm t = Some ty" "linked (base_of vm) (baseType ty) ts" by (auto split: option.splits)
  show ?case
  proof (cases "has_prototype vm t")
    case False
    then show ?thesis using t scope_okD(3) [OF ok t(2)]
      by (subst search_prototypes.simps) (auto simp: prototypes_def has_prototype_def split: option.splits)
  next
    case True
    then obtain p pr where p: "prototype ty = Some p" "objs vm p = Some pr" "\<not> shortScope (so_pot pr)"
      using t scope_okD(3) [OF ok t(2)] by (auto simp: has_prototype_def split: option.splits)
    obtain l1 where l1: "ejsLookupVarWithNamespaces vm ejs p name l = Some (slot_at vm blocks name p, ejs, l1)" "nthBlock l1 = nthBlock l"
      "found_on vm blocks name [p] (slot_at vm blocks name p) l1"
      using lookup_in_object [OF ok p(2) assms(2,3)] by blast
    have path: "prototypes vm (t # ts) = p # prototypes vm ts" using True t p by (simp add: prototypes_def)
    show ?thesis
    proof (cases "0 \<le> slot_at vm blocks name p")
      case f: True
      then show ?thesis using t p l1 found_on_Cons(1) [OF l1(3) f] by (subst search_prototypes.simps) (auto simp: path)
    next
      case f: False
      then show ?thesis using t p l1 Cons.IH [OF t(3), of "Suc n" l1] found_on_Cons(2) [OF l1(3) f]
        by (subst search_prototypes.simps) (auto simp: path)
    qed
  qed
qed

lemma search_bases_ok:
  assumes ok: "scope_ok vm bases blocks" and "fst name \<noteq> []" and "exception ejs = None"
  shows "linked (base_of vm) type ts
   \<Longrightarrow> \<exists>s l'. search_bases vm pass name type n ejs l = Some (s, ejs, l') \<and> nthBlock l' = nthBlock l
     \<and> found_on vm blocks name (if pass then filter (long_scope vm) ts else takeWhile (long_scope vm) ts) s l'"
proof (induction ts arbitrary: type n l)
  case Nil
  then show ?case by (subst search_bases.simps) simp
next
  case (Cons t ts)
  then obtain ty where t: "type = Some t" "objs vm t = Some ty" "linked (base_of vm) (baseType ty) ts" by (auto split: option.splits)
  show ?case
  proof (cases "shortScope (so_pot ty)")
    case True
    then show ?thesis using t Cons.IH [OF t(3), of "Suc n" l] by (subst search_bases.simps) auto
  next
    case False
    obtain l1 where l1: "ejsLookupVarWithNamespaces vm ejs t name l = Some (slot_at vm blocks name t, ejs, l1)" "nthBlock l1 = nthBlock l"
      "found_on vm blocks name [t] (slot_at vm blocks name t) l1"
      using lookup_in_object [OF ok t(2) assms(2,3)] by blast
    show ?thesis
    proof (cases "0 \<le> slot_at vm blocks name t")
      case f: True
      then show ?thesis using t False l1 found_on_Cons(1) [OF l1(3) f] by (subst search_bases.simps) auto
    next
      case f: False
      then show ?thesis using t False l1 Cons.IH [OF t(3), of "Suc n" l1] found_on_Cons(2) [OF l1(3) f]
        by (subst search_bases.simps) auto
    qed
  qed
qed

text \<open>The objects that the lookup of a block, and of an object, goes through, in order.\<close>

definition block_path :: "vm \<Rightarrow> (nat \<Rightarrow> nat list) \<Rightarrow> nat \<Rightarrow> nat list" where
  "block_path vm bases b =
     b # (let bo = obj_at vm b; frame = obj_at vm (fp (the (state vm)))
          in if isFrame (so_pot bo)
             then case boundThis frame of
                    None \<Rightarrow> []
                  | Some this \<Rightarrow>
                      if boundThis bo = Some this \<and> this \<noteq> global vm \<and> \<not> staticMethod bo \<and> \<not> isInitializer bo
                      then let ts = bases (so_type (obj_at vm this))
                           in this # prototypes vm ts @ (if isConstructor bo then takeWhile (long_scope vm) ts else [])
                      else []
             else if isType (so_pot bo) then takeWhile (long_scope vm) (bases b) else [])"

definition object_path :: "vm \<Rightarrow> (nat \<Rightarrow> nat list) \<Rightarrow> nat \<Rightarrow> nat list" where
  "object_path vm bases a =
     (let ob = obj_at vm a; ts = bases (so_type ob)
      in a # prototypes vm ts @ filter (long_scope vm) (if isType (so_pot ob) then tl (bases a) else ts))"

lemma lookup_this_ok:
  assumes ok: "scope_ok vm bases blocks" and ob: "objs vm this = Some ob" and nm: "fst name \<noteq> []" and ex: "exception ejs = None"
  shows "\<exists>s l'. lookup_this vm ejs this name c l = Some (s, ejs, l') \<and> nthBlock l' = nthBlock l
     \<and> found_on vm blocks name (this # prototypes vm (bases (so_type ob)) @ (if c then takeWhile (long_scope vm) (bases (so_type ob)) else [])) s l'"
proof -
  obtain l1 where l1: "ejsLookupVarWithNamespaces vm ejs this name (l\<lparr>originalObj := Some this\<rparr>) = Some (slot_at vm blocks name this, ejs, l1)"
    "nthBlock l1 = nthBlock l" "found_on vm blocks name [this] (slot_at vm blocks name this) l1"
    using lookup_in_object [OF ok ob nm ex, of "l\<lparr>originalObj := Some this\<rparr>"] by auto
  obtain ty where "objs vm (so_type ob) = Some ty" using scope_okD(2) [OF ok ob] by blast
  note bases = scope_okD(5) [OF ok this]
  obtain s2 l2 where l2: "search_prototypes vm True name (Some (so_type ob)) 1 ejs l1 = Some (s2, ejs, l2)" "nthBlock l2 = nthBlock l1"
    "found_on vm blocks name (prototypes vm (bases (so_type ob))) s2 l2"
    using search_prototypes_ok [OF ok nm ex bases] by blast
  obtain s3 l3 where l3: "search_bases vm False name (Some (so_type ob)) 1 ejs l2 = Some (s3, ejs, l3)" "nthBlock l3 = nthBlock l2"
    "found_on vm blocks name (takeWhile (long_scope vm) (bases (so_type ob))) s3 l3"
    using search_bases_ok [OF ok nm ex bases, of False 1 l2] by auto
  show ?thesis
  proof (cases "0 \<le> slot_at vm blocks name this")
    case True
    then show ?thesis using ob l1 found_on_Cons(1) [OF l1(3) True] by (simp add: lookup_this_def)
  next
    case none: False
    note step = found_on_Cons(2) [OF l1(3) none]
    show ?thesis
      using ob l1 l2 l3 none step [OF found_on_append(1) [OF l2(3)]] step [OF found_on_append(2) [OF l2(3) _ l3(3)]] step [OF l2(3)]
        found_on_neg [OF l2(3)]
      by (cases "0 \<le> s2") (auto simp: lookup_this_def)
  qed
qed

lemma lookupVarInBlock_ok:
  assumes ok: "scope_ok vm bases blocks" and b: "objs vm b = Some bo" and nm: "fst name \<noteq> []" and ex: "exception ejs = None"
  shows "\<exists>s l'. lookupVarInBlock vm ejs b name l = Some (s, ejs, l') \<and> nthBlock l' = nthBlock l
     \<and> found_on vm blocks name (block_path vm bases b) s l'"
proof -
  obtain st frame where st: "state vm = Some st" "objs vm (fp st) = Some frame" using scope_okD(7) [OF ok] by blast
  obtain l1 where l1: "ejsLookupVarWithNamespaces vm ejs b name (l\<lparr>originalObj := Some b\<rparr>) = Some (slot_at vm blocks name b, ejs, l1)"
    "nthBlock l1 = nthBlock l" "found_on vm blocks name [b] (slot_at vm blocks name b) l1"
    using lookup_in_object [OF ok b nm ex, of "l\<lparr>originalObj := Some b\<rparr>"] by auto
  note start = lookupVarInBlock_def st b l1(1)
  show ?thesis
  proof (cases "0 \<le> slot_at vm blocks name b")
    case True
    then show ?thesis using l1 found_on_Cons(1) [OF l1(3) True] by (simp add: start block_path_def)
  next
    case none: False
    note next_path = found_on_Cons(2) [OF l1(3) none]
    show ?thesis
    proof (cases "isFrame (so_pot bo)")
      case False
      then show ?thesis using none l1(2) next_path b scope_okD(5) [OF ok b] search_bases_ok [OF ok nm ex, of "Some b" "bases b" False 1 l1]
        by (auto simp: start block_path_def Let_def)
    next
      case frame: True
      show ?thesis
      proof (cases "\<exists>this. boundThis frame = Some this \<and> boundThis bo = Some this \<and> this \<noteq> global vm \<and> \<not> staticMethod bo \<and> \<not> isInitializer bo")
        case False
        then show ?thesis using frame none l1(2) next_path by (auto simp: start block_path_def Let_def split: option.split)
      next
        case True
        then obtain this where th: "boundThis frame = Some this" "boundThis bo = Some this" "this \<noteq> global vm" "\<not> staticMethod bo" "\<not> isInitializer bo"
          by blast
        then obtain ob where ob: "objs vm this = Some ob" using scope_okD(4) [OF ok b] by blast
        obtain s2 l2 where l2: "lookup_this vm ejs this name (isConstructor bo) l1 = Some (s2, ejs, l2)" "nthBlock l2 = nthBlock l1"
          "found_on vm blocks name (this # prototypes vm (bases (so_type ob))
             @ (if isConstructor bo then takeWhile (long_scope vm) (bases (so_type ob)) else [])) s2 l2"
          using lookup_this_ok [OF ok ob nm ex] by blast
        then show ?thesis using frame none l1(2) next_path [OF l2(3)] th ob
          by (auto simp: start block_path_def Let_def lookup_this_def)
      qed
    qed
  qed
qed

lemma found_on_nthBlock [simp]: "found_on vm blocks name p s (l\<lparr>nthBlock := n\<rparr>) = found_on vm blocks name p s l"
  by (auto simp: found_on_def split: option.split)

definition unbound :: "vm \<Rightarrow> (nat \<Rightarrow> nat list) \<Rightarrow> nat list \<Rightarrow> qname \<Rightarrow> nat \<Rightarrow> bool" where
  "unbound vm bases blocks name b \<longleftrightarrow> find (\<lambda>a. 0 \<le> slot_at vm blocks name a) (block_path vm bases b) = None"

lemma search_scope_ok:
  assumes ok: "scope_ok vm bases blocks" and nm: "fst name \<noteq> []" and ex: "exception ejs = None"
  shows "linked (scope_of vm) p bs
   \<Longrightarrow> \<exists>s l'. search_scope vm name p n ejs l = Some (s, ejs, l') \<and> found_on vm blocks name (concat (map (block_path vm bases) bs)) s l'
     \<and> nthBlock l' = n + length (takeWhile (unbound vm bases blocks name) bs)"
proof (induction bs arbitrary: p n l)
  case Nil
  then show ?case by (subst search_scope.simps) simp
next
  case (Cons b bs)
  then obtain bo where b: "p = Some b" "objs vm b = Some bo" "linked (scope_of vm) (scope bo) bs" by (auto split: option.splits)
  obtain s1 l1 where l1: "lookupVarInBlock vm ejs b name (l\<lparr>nthBlock := n\<rparr>) = Some (s1, ejs, l1)" "nthBlock l1 = n"
    "found_on vm blocks name (block_path vm bases b) s1 l1"
    using lookupVarInBlock_ok [OF ok b(2) nm ex, of "l\<lparr>nthBlock := n\<rparr>"] by auto
  show ?case
  proof (cases "0 \<le> s1")
    case True
    then have "\<not> unbound vm bases blocks name b" using l1(3) by (auto simp: unbound_def found_on_def split: option.splits)
    with True show ?thesis using b l1 found_on_append(1) [OF l1(3) True] by (subst search_scope.simps) simp
  next
    case False
    then have "unbound vm bases blocks name b" using found_on_neg [OF l1(3)] by (simp add: unbound_def)
    with False show ?thesis using b l1 Cons.IH [OF b(3), of "Suc n" l1] found_on_append(2) [OF l1(3) False]
      by (subst search_scope.simps) auto
  qed
qed

text \<open>
  Property C14. Looking up a variable finds the first object on the search path that has it: the blocks
  from the innermost outwards, each with the object of its method, the prototypes and the base
  classes, and the global object last. The slot is the one that the name means there under the open
  namespaces, and the lookup says how many blocks do not have it. When no object has it the result
  is minus one.
\<close>

theorem scope_lookup_first_match:
  assumes "scope_ok vm bases blocks" and "fst name \<noteq> []" and "exception ejs = None"
  shows "\<exists>s l. ejsLookupScope vm ejs name = Some (s, ejs, l)
     \<and> found_on vm blocks name (concat (map (block_path vm bases) (blocks @ [global vm]))) s l
     \<and> nthBlock l = length (takeWhile (unbound vm bases blocks name) blocks)"
proof -
  obtain st where st: "state vm = Some st" "linked (scope_of vm) (bp st) blocks" using scope_okD(7) [OF assms(1)] by blast
  obtain g where g: "objs vm (global vm) = Some g" using scope_okD(6) [OF assms(1)] by blast
  obtain s1 l1 where l1: "search_scope vm name (bp st) 0 ejs blank_lookup = Some (s1, ejs, l1)"
    "found_on vm blocks name (concat (map (block_path vm bases) blocks)) s1 l1"
    "nthBlock l1 = length (takeWhile (unbound vm bases blocks name) blocks)"
    using search_scope_ok [OF assms st(2), of 0 blank_lookup] by auto
  obtain s2 l2 where l2: "lookupVarInBlock vm ejs (global vm) name l1 = Some (s2, ejs, l2)" "nthBlock l2 = nthBlock l1"
    "found_on vm blocks name (block_path vm bases (global vm)) s2 l2"
    using lookupVarInBlock_ok [OF assms(1) g assms(2,3), of l1] by blast
  show ?thesis
    using st(1) l1 l2 found_on_append(1) [OF l1(2)] found_on_append(2) [OF l1(2) _ l2(3)]
    by (cases "0 \<le> s1") (auto simp: ejsLookupScope_def)
qed

text \<open>
  Property C25. Looking up a property of an object finds the first object on its path that has it: the
  object, the prototypes of its type and the base types, and then the types themselves, without
  those of short scope; for a type it begins with the base type.
\<close>

theorem object_lookup_first_match:
  assumes "scope_ok vm bases blocks" and "objs vm a \<noteq> None" and "fst name \<noteq> []" and "exception ejs = None"
  shows "\<exists>s l. ejsLookupVar vm ejs a name = Some (s, ejs, l) \<and> found_on vm blocks name (object_path vm bases a) s l"
proof -
  obtain ob where ob: "objs vm a = Some ob" using assms(2) by blast
  obtain l1 where l1: "ejsLookupVarWithNamespaces vm ejs a name blank_lookup = Some (slot_at vm blocks name a, ejs, l1)"
    "found_on vm blocks name [a] (slot_at vm blocks name a) l1"
    using lookup_in_object [OF assms(1) ob assms(3,4)] by blast
  obtain ty where "objs vm (so_type ob) = Some ty" using scope_okD(2) [OF assms(1) ob] by blast
  note ts = scope_okD(5) [OF assms(1) this]
  obtain s2 l2 where l2: "search_prototypes vm False name (Some (so_type ob)) 1 ejs l1 = Some (s2, ejs, l2)"
    "found_on vm blocks name (prototypes vm (bases (so_type ob))) s2 l2"
    using search_prototypes_ok [OF assms(1,3,4) ts, of False 1 l1] by blast
  define t us where "t = (if isType (so_pot ob) then baseType ob else Some (so_type ob))"
    and "us = (if isType (so_pot ob) then tl (bases a) else bases (so_type ob))"
  have "linked (base_of vm) (baseType ob) (tl (bases a))"
    using scope_okD(5) [OF assms(1) ob] ob by (cases "bases a") auto
  with ts have "linked (base_of vm) t us" by (simp add: t_def us_def)
  then obtain s3 l3 where l3: "search_bases vm True name t 1 ejs l2 = Some (s3, ejs, l3)"
    "found_on vm blocks name (filter (long_scope vm) us) s3 l3"
    using search_bases_ok [OF assms(1,3,4), of t us True 1 l2] by auto
  have path: "object_path vm bases a = a # prototypes vm (bases (so_type ob))
      @ filter (long_scope vm) us"
    using ob by (simp add: object_path_def Let_def us_def)
  show ?thesis
  proof (cases "0 \<le> slot_at vm blocks name a")
    case True
    then show ?thesis using ob l1 found_on_Cons(1) [OF l1(2) True] by (simp add: ejsLookupVar_def path)
  next
    case none: False
    note step = found_on_Cons(2) [OF l1(2) none]
    show ?thesis
    proof (cases "0 \<le> s2")
      case True
      then show ?thesis using ob l1(1) l2(1) none step [OF found_on_append(1) [OF l2(2) True]] by (simp add: ejsLookupVar_def path)
    next
      case False
      then show ?thesis using ob l1(1) l2(1) l3(1) none step [OF found_on_append(2) [OF l2(2) False l3(2)]]
        by (simp add: ejsLookupVar_def path flip: t_def)
    qed
  qed
qed

text \<open>A block with two properties \<open>a\<close> in different namespaces, inside of the global object.\<close>

definition plain_obj :: scope_obj where
  "plain_obj = \<lparr>so_pot = blank_pot, so_type = 2, virtualSlots = False, namespaces = [''x''], scope = None, boundThis = None,
     staticMethod = False, isInitializer = False, isConstructor = False, baseType = None, prototype = None\<rparr>"

definition sample_vm :: vm where
  "sample_vm = \<lparr>objs = (\<lambda>a. if a = 0 \<or> a = 2 then Some plain_obj
       else if a = 1 then Some (plain_obj\<lparr>so_pot := sample_pot, namespaces := [''z'', ''y''], scope := Some 0\<rparr>) else None),
     global = 0, state = Some \<lparr>bp = Some 1, fp = 0\<rparr>\<rparr>"

lemma sample_vm_ok: "scope_ok sample_vm (\<lambda>a. [a]) [1, 0]"
proof -
  have "pot_ok blank_pot"
    by (simp add: pot_ok_def blank_pot_def pot_slots_def pot_hash_def names_distinct_def)
  then show ?thesis using sample_pot_ok by (auto simp: scope_ok_def object_ok_def sample_vm_def plain_obj_def)
qed

theorem scope_lookup_first_match_witness:
  "\<exists>l. ejsLookupScope sample_vm (ready None) (''a'', []) = Some (1, ready None, l) \<and> lobj l = Some 1 \<and> nthBlock l = 0"
proof -
  have slot: "slot_at sample_vm [1, 0] (''a'', []) 1 = 1"
    by (simp add: slot_at_def resolve_def open_spaces_def sample_vm_def plain_obj_def named_slots_def sample_pot_def
        pot_slots_def slot_name_def sample_slot_def upt_rec numeral_3_eq_3 property_slot_def CMP_QNAME_def blank_pot_def)
  then have u: "\<not> unbound sample_vm (\<lambda>a. [a]) [1, 0] (''a'', []) 1"
    by (simp add: unbound_def block_path_def)
  have e: "exception (ready None) = None" by (simp add: ready_def)
  have "block_path sample_vm (\<lambda>a. [a]) 1 = [1]"
    by (simp add: block_path_def sample_vm_def plain_obj_def sample_pot_def blank_pot_def)
  with scope_lookup_first_match [OF sample_vm_ok, of "(''a'', [])" "ready None"] e slot u show ?thesis
    by (auto simp: found_on_def)
qed

theorem object_lookup_first_match_witness:
  "\<exists>l. ejsLookupVar sample_vm (ready None) 1 (''b'', ''x'') = Some (2, ready None, l) \<and> lobj l = Some 1"
proof -
  have slot: "slot_at sample_vm [1, 0] (''b'', ''x'') 1 = 2"
    by (simp add: slot_at_def resolve_def sample_vm_def plain_obj_def sample_pot_def pot_slots_def sample_slot_def property_slot_def
        CMP_QNAME_def numeral_3_eq_3)
  have e: "exception (ready None) = None" "objs sample_vm 1 \<noteq> None" by (simp_all add: ready_def sample_vm_def)
  from object_lookup_first_match [OF sample_vm_ok e(2), of "(''b'', ''x'')" "ready None"] e slot show ?thesis
    by (auto simp: found_on_def object_path_def Let_def)
qed

end
