(* ===== verification/MprBuf.thy ===== *)
theory MprBuf
  imports Prelude "HOL-Library.Monad_Syntax"
begin

text \<open>
  Growable byte buffers (\<^verbatim>\<open>MprBuf\<close>, \<^verbatim>\<open>src/mpr/mprLib.c\<close>), which the compiler writes module files
  and the string functions their results with.

  \<^item> The pointers \<^verbatim>\<open>start\<close> and \<^verbatim>\<open>end\<close> are offsets from \<^verbatim>\<open>data\<close>, and \<^verbatim>\<open>endbuf\<close> is the offset \<open>buflen\<close>, as
    the assertions of the source say. The null pointer is the empty block.
  \<^item> A read or write outside of the block is undefined (\<^const>\<open>None\<close>). Fresh memory is shown as zeros.
  \<^item> The procedure that refills a buffer is not modelled.
\<close>

section \<open>State and operations\<close>

record mprbuf =
  bdata :: bytes
  buflen :: int
  bstart :: int
  bend :: int
  maxsize :: int
  growBy :: int

definition ME_BUFSIZE :: int where "ME_BUFSIZE = 4096"

definition mprGetBufLength :: "mprbuf \<Rightarrow> int" where
  "mprGetBufLength bp = bend bp - bstart bp"

definition mprGetBufSpace :: "mprbuf \<Rightarrow> int" where
  "mprGetBufSpace bp = buflen bp - bend bp"

definition mprGetBufSize :: "mprbuf \<Rightarrow> int" where
  "mprGetBufSize bp = buflen bp"

definition mprFlushBuf :: "mprbuf \<Rightarrow> mprbuf" where
  "mprFlushBuf bp = bp\<lparr>bstart := 0, bend := 0\<rparr>"

definition mprCompactBuf :: "mprbuf \<Rightarrow> mprbuf option" where
  "mprCompactBuf bp =
     (if mprGetBufLength bp = 0 then Some (mprFlushBuf bp)
      else if bstart bp > 0
      then do { moved \<leftarrow> mem_read_block (bdata bp) (bstart bp) (bend bp - bstart bp);
                d \<leftarrow> mem_write_block (bdata bp) 0 moved;
                Some (bp\<lparr>bdata := d, bend := bend bp - bstart bp, bstart := 0\<rparr>) }
      else Some bp)"

text \<open>Growing compacts only when the start is behind the end.\<close>

definition mprGrowBuf :: "ejs \<Rightarrow> mprbuf \<Rightarrow> int \<Rightarrow> (int \<times> mprbuf) option" where
  "mprGrowBuf ejs bp need =
     (if maxsize bp > 0 \<and> buflen bp \<ge> maxsize bp then Some (MPR_ERR_TOO_MANY, bp)
      else do {
        bp1 \<leftarrow> (if bstart bp > bend bp then mprCompactBuf bp else Some bp);
        let grow = (if need > 0 then max (growBy bp1) need else growBy bp1);
        if \<not> heap ejs (buflen bp1 + grow) then Some (MPR_ERR_MEMORY, bp1)
        else if grow < 0 then None
        else let len = buflen bp1 + grow;
                 twice = growBy bp1 * 2;
                 by = (if maxsize bp1 > 0
                       then if len + twice > maxsize bp1 then min (maxsize bp1 - len) twice else growBy bp1
                       else if len + twice > maxsize bp1 then min len twice else growBy bp1)
             in Some (0, bp1\<lparr>bdata := bdata bp1 @ replicate (nat grow) 0, buflen := len, growBy := by\<rparr>) })"

definition mprSetBufSize :: "ejs \<Rightarrow> mprbuf \<Rightarrow> int \<Rightarrow> int \<Rightarrow> (int \<times> mprbuf) option" where
  "mprSetBufSize ejs bp initialSize maxSize =
     (if initialSize \<le> 0 then Some (0, if maxSize > 0 then bp\<lparr>maxsize := maxSize\<rparr> else bp)
      else let initialSize = (if maxSize > 0 \<and> initialSize > maxSize then maxSize else initialSize)
      in if bdata bp \<noteq> []
         then do { (rc, bp1) \<leftarrow> (if buflen bp < initialSize then mprGrowBuf ejs bp (initialSize - buflen bp) else Some (0, bp));
                   Some (if rc < 0 then (MPR_ERR_MEMORY, bp1) else (0, bp1\<lparr>maxsize := maxSize\<rparr>)) }
         else if \<not> heap ejs initialSize then Some (MPR_ERR_MEMORY, bp)
         else Some (0, bp\<lparr>bdata := replicate (nat initialSize) 0, buflen := initialSize, bstart := 0, bend := 0,
                          maxsize := maxSize, growBy := initialSize\<rparr>))"

text \<open>The buffer is returned even when there was no memory for its data.\<close>

definition no_buf :: mprbuf where
  "no_buf = \<lparr>bdata = [], buflen = 0, bstart = 0, bend = 0, maxsize = 0, growBy = 0\<rparr>"

definition mprCreateBuf :: "ejs \<Rightarrow> int \<Rightarrow> int \<Rightarrow> mprbuf option" where
  "mprCreateBuf ejs initialSize maxSize =
     map_option snd (mprSetBufSize ejs no_buf (if initialSize \<le> 0 then ME_BUFSIZE else initialSize) maxSize)"

definition mprSetBufMax :: "mprbuf \<Rightarrow> int \<Rightarrow> mprbuf" where
  "mprSetBufMax bp m = bp\<lparr>maxsize := m\<rparr>"

text \<open>Cloning copies from the start of the block, into a block of the size \<^verbatim>\<open>growBy\<close>.\<close>

definition mprCloneBuf :: "ejs \<Rightarrow> mprbuf \<Rightarrow> mprbuf option" where
  "mprCloneBuf ejs orig =
     do { bp \<leftarrow> mprCreateBuf ejs (growBy orig) (maxsize orig);
          let len = mprGetBufLength orig;
          if len > 0
          then do { vs \<leftarrow> mem_read_block (bdata orig) 0 len;
                    d \<leftarrow> mem_write_block (bdata bp) 0 vs;
                    Some (bp\<lparr>bdata := d, bend := len\<rparr>) }
          else Some bp }"

definition mprAddNullToBuf :: "ejs \<Rightarrow> mprbuf \<Rightarrow> mprbuf option" where
  "mprAddNullToBuf ejs bp =
     do { (rc, bp1) \<leftarrow> (if buflen bp - bend bp < 1 then mprGrowBuf ejs bp 1 else Some (0, bp));
          if rc < 0 then Some bp1
          else if bend bp1 < buflen bp1
          then map_option (\<lambda>d. bp1\<lparr>bdata := d\<rparr>) (mem_write (bdata bp1) (bend bp1) 0)
          else Some bp1 }"

definition mprAdjustBufEnd :: "mprbuf \<Rightarrow> int \<Rightarrow> mprbuf" where
  "mprAdjustBufEnd bp n =
     (let e = bend bp + n; e = (if e > buflen bp then buflen bp else e) in bp\<lparr>bend := if e < 0 then 0 else e\<rparr>)"

definition mprAdjustBufStart :: "mprbuf \<Rightarrow> int \<Rightarrow> mprbuf" where
  "mprAdjustBufStart bp n =
     (let s = bstart bp + n; s = (if s > bend bp then bend bp else s) in bp\<lparr>bstart := if s \<le> 0 then 0 else s\<rparr>)"

definition mprGetCharFromBuf :: "mprbuf \<Rightarrow> (int \<times> mprbuf) option" where
  "mprGetCharFromBuf bp =
     (if bstart bp = bend bp then Some (-1, bp)
      else do { c \<leftarrow> mem_read (bdata bp) (bstart bp); Some (uint c, bp\<lparr>bstart := bstart bp + 1\<rparr>) })"

text \<open>The loop copies what there is in its first round and stops in its second.\<close>

definition mprGetBlockFromBuf :: "mprbuf \<Rightarrow> int \<Rightarrow> (bytes \<times> mprbuf) option" where
  "mprGetBlockFromBuf bp n =
     (let thisLen = min (mprGetBufLength bp) n
      in if n > 0 \<and> thisLen > 0
         then do { vs \<leftarrow> mem_read_block (bdata bp) (bstart bp) thisLen;
                   Some (vs, bp\<lparr>bstart := bstart bp + thisLen\<rparr>) }
         else Some ([], bp))"

definition mprInsertCharToBuf :: "mprbuf \<Rightarrow> byte \<Rightarrow> (int \<times> mprbuf) option" where
  "mprInsertCharToBuf bp c =
     (if bstart bp = 0 then Some (MPR_ERR_BAD_STATE, bp)
      else do { d \<leftarrow> mem_write (bdata bp) (bstart bp - 1) c; Some (0, bp\<lparr>bdata := d, bstart := bstart bp - 1\<rparr>) })"

text \<open>Looking at a character reads a signed \<^verbatim>\<open>char\<close>.\<close>

definition mprLookAtNextCharInBuf :: "mprbuf \<Rightarrow> int option" where
  "mprLookAtNextCharInBuf bp = (if bstart bp = bend bp then Some (-1) else map_option sint (mem_read (bdata bp) (bstart bp)))"

definition mprLookAtLastCharInBuf :: "mprbuf \<Rightarrow> int option" where
  "mprLookAtLastCharInBuf bp = (if bstart bp = bend bp then Some (-1) else map_option sint (mem_read (bdata bp) (bend bp - 1)))"

text \<open>The byte behind the end is made a null, if there is one.\<close>

definition null_behind :: "mprbuf \<Rightarrow> mprbuf option" where
  "null_behind bp =
     (if bend bp < buflen bp then map_option (\<lambda>d. bp\<lparr>bdata := d\<rparr>) (mem_write (bdata bp) (bend bp) 0) else Some bp)"

text \<open>The space for a character is the size of the buffer without the contents, wherever they are.\<close>

definition mprPutCharToBuf :: "ejs \<Rightarrow> mprbuf \<Rightarrow> byte \<Rightarrow> (int \<times> mprbuf) option" where
  "mprPutCharToBuf ejs bp c =
     do { (rc, bp1) \<leftarrow> (if buflen bp - mprGetBufLength bp < 1 then mprGrowBuf ejs bp 1 else Some (0, bp));
          if rc < 0 then Some (-1, bp1)
          else do { d \<leftarrow> mem_write (bdata bp1) (bend bp1) c;
                    bp2 \<leftarrow> null_behind (bp1\<lparr>bdata := d, bend := bend bp1 + 1\<rparr>);
                    Some (1, bp2) } }"

text \<open>
  The loop of \<^verbatim>\<open>mprPutBlockToBuf\<close>. A round either fills the rest of the buffer or has grown it by
  what is left, and growing adds at least that: the third round has nothing left to do.
\<close>

fun put_rounds :: "nat \<Rightarrow> ejs \<Rightarrow> mprbuf \<Rightarrow> bytes \<Rightarrow> int \<Rightarrow> (int \<times> mprbuf) option" where
  "put_rounds 0 ejs bp str n = None"
| "put_rounds (Suc fuel) ejs bp str n =
     (if str = [] then Some (n, bp)
      else do {
        (rc, bp1) \<leftarrow> (if min (mprGetBufSpace bp) (int (length str)) \<le> 0
                       then mprGrowBuf ejs bp (int (length str)) else Some (0, bp));
        if rc < 0 then Some (n, bp1)
        else do {
          let thisLen = min (mprGetBufSpace bp1) (int (length str));
          d \<leftarrow> mem_write_block (bdata bp1) (bend bp1) (take (nat thisLen) str);
          put_rounds fuel ejs (bp1\<lparr>bdata := d, bend := bend bp1 + thisLen\<rparr>) (drop (nat thisLen) str) (n + thisLen) } })"

definition mprPutBlockToBuf :: "ejs \<Rightarrow> mprbuf \<Rightarrow> bytes \<Rightarrow> (int \<times> mprbuf) option" where
  "mprPutBlockToBuf ejs bp str =
     do { (n, bp1) \<leftarrow> put_rounds 3 ejs bp str 0; bp2 \<leftarrow> null_behind bp1; Some (n, bp2) }"

text \<open>The loop counts down past nought.\<close>

fun mprPutPadToBuf :: "ejs \<Rightarrow> mprbuf \<Rightarrow> byte \<Rightarrow> nat \<Rightarrow> (int \<times> mprbuf) option" where
  "mprPutPadToBuf ejs bp c 0 = Some (-1, bp)"
| "mprPutPadToBuf ejs bp c (Suc count) =
     do { (rc, bp1) \<leftarrow> mprPutCharToBuf ejs bp c;
          if rc < 0 then Some (-1, bp1) else mprPutPadToBuf ejs bp1 c count }"

definition mprResetBufIfEmpty :: "mprbuf \<Rightarrow> mprbuf" where
  "mprResetBufIfEmpty bp = (if mprGetBufLength bp = 0 then mprFlushBuf bp else bp)"

text \<open>Numbers of two and four bytes, the highest byte first. The result of growing is not looked at.\<close>

definition put_raw :: "ejs \<Rightarrow> mprbuf \<Rightarrow> bytes \<Rightarrow> mprbuf option" where
  "put_raw ejs bp bs =
     do { (_, bp1) \<leftarrow> (if mprGetBufSpace bp < int (length bs) then mprGrowBuf ejs bp (int (length bs)) else Some (0, bp));
          d \<leftarrow> mem_write_block (bdata bp1) (bend bp1) bs;
          Some (mprAdjustBufEnd (bp1\<lparr>bdata := d\<rparr>) (int (length bs))) }"

definition mprPutUint16ToBuf :: "ejs \<Rightarrow> mprbuf \<Rightarrow> int \<Rightarrow> mprbuf option" where
  "mprPutUint16ToBuf ejs bp num = put_raw ejs bp [word_of_int (drop_bit 8 num), word_of_int (num AND 0xFF)]"

definition mprPutUint32ToBuf :: "ejs \<Rightarrow> mprbuf \<Rightarrow> int \<Rightarrow> mprbuf option" where
  "mprPutUint32ToBuf ejs bp num =
     put_raw ejs bp [word_of_int (drop_bit 24 num), word_of_int (drop_bit 16 num), word_of_int (drop_bit 8 num), word_of_int num]"

definition mprGetUint16FromBuf :: "mprbuf \<Rightarrow> (int \<times> mprbuf) option" where
  "mprGetUint16FromBuf bp =
     (if mprGetBufLength bp < 2 then Some (0, bp)
      else do { b0 \<leftarrow> mem_read (bdata bp) (bstart bp); b1 \<leftarrow> mem_read (bdata bp) (bstart bp + 1);
                Some (push_bit 8 (uint b0) OR uint b1, mprAdjustBufStart bp 2) })"

section \<open>A buffer is a queue of bytes\<close>

definition buf_ok :: "mprbuf \<Rightarrow> bool" where
  "buf_ok bp \<longleftrightarrow> 0 \<le> bstart bp \<and> bstart bp \<le> bend bp \<and> bend bp \<le> buflen bp \<and> buflen bp = int (length (bdata bp))
     \<and> bdata bp \<noteq> [] \<and> 0 < growBy bp \<and> maxsize bp \<le> 0"

definition buf_contents :: "mprbuf \<Rightarrow> bytes" where
  "buf_contents bp = take (nat (bend bp - bstart bp)) (drop (nat (bstart bp)) (bdata bp))"

lemma length_buf_contents: "buf_ok bp \<Longrightarrow> int (length (buf_contents bp)) = mprGetBufLength bp"
  by (auto simp: buf_ok_def buf_contents_def mprGetBufLength_def)

text \<open>The block in three parts: what has been read, the contents, and the space.\<close>

lemma buf_split:
  assumes "buf_ok bp"
  obtains xs ys where "bdata bp = xs @ buf_contents bp @ ys" "bstart bp = int (length xs)"
    "bend bp = int (length xs + length (buf_contents bp))" "buflen bp = int (length xs + length (buf_contents bp) + length ys)"
proof -
  define s e where "s = nat (bstart bp)" and "e = nat (bend bp)"
  have se: "bstart bp = int s" "bend bp = int e" "s \<le> e" "e \<le> length (bdata bp)" using assms by (auto simp: buf_ok_def s_def e_def)
  have c: "buf_contents bp = take (e - s) (drop s (bdata bp))" using se by (simp add: buf_contents_def nat_diff_distrib)
  have d: "bdata bp = take s (bdata bp) @ buf_contents bp @ drop e (bdata bp)"
    using se by (simp add: c flip: drop_drop) (metis append_take_drop_id drop_drop le_add_diff_inverse2)
  have "length (buf_contents bp) = e - s" using se by (simp add: c)
  then show ?thesis using that [of "take s (bdata bp)" "drop e (bdata bp)"] d se assms by (auto simp: buf_ok_def)
qed

lemma buf_parts:
  "buf_contents (bp\<lparr>bdata := xs @ cs @ ys, buflen := n, bstart := int (length xs), bend := int (length xs + length cs), growBy := g\<rparr>) = cs"
  by (simp add: buf_contents_def)

text \<open>Growing without limit and with memory keeps the contents and adds at least what is needed.\<close>

lemma mprGrowBuf_ok:
  assumes "buf_ok bp" and "heap ejs = (\<lambda>_. True)" and "0 < need"
  shows "\<exists>bp'. mprGrowBuf ejs bp need = Some (0, bp') \<and> buf_ok bp' \<and> buf_contents bp' = buf_contents bp
     \<and> bstart bp' = bstart bp \<and> bend bp' = bend bp \<and> buflen bp + need \<le> buflen bp'"
proof -
  have g: "0 < growBy bp" "maxsize bp \<le> 0" "\<not> bstart bp > bend bp" "0 \<le> buflen bp" using assms(1) by (auto simp: buf_ok_def)
  define k where "k = max (growBy bp) need"
  define by' where "by' = (if buflen bp + k + growBy bp * 2 > maxsize bp then min (buflen bp + k) (growBy bp * 2) else growBy bp)"
  let ?bp = "bp\<lparr>bdata := bdata bp @ replicate (nat k) 0, buflen := buflen bp + k, growBy := by'\<rparr>"
  have k: "need \<le> k" "0 < k" "0 < by'" using assms(3) g by (auto simp: k_def by'_def)
  have "mprGrowBuf ejs bp need = Some (0, ?bp)" using g k assms(2,3) by (simp add: mprGrowBuf_def Let_def k_def by'_def)
  moreover have "buf_ok ?bp" using assms(1) k by (auto simp: buf_ok_def)
  moreover have "buf_contents ?bp = buf_contents bp" using assms(1) by (auto simp: buf_contents_def buf_ok_def)
  ultimately show ?thesis using k(1) by auto
qed

lemma null_behind_ok:
  assumes "buf_ok bp"
  shows "\<exists>bp'. null_behind bp = Some bp' \<and> buf_ok bp' \<and> buf_contents bp' = buf_contents bp \<and> bstart bp' = bstart bp \<and> bend bp' = bend bp"
proof -
  have "take (nat (bend bp - bstart bp)) (drop (nat (bstart bp)) ((bdata bp)[nat (bend bp) := 0])) = buf_contents bp"
    using assms by (auto simp: buf_contents_def buf_ok_def drop_update_swap take_update_swap nat_diff_distrib list_update_beyond)
  then show ?thesis using assms
    by (auto simp: null_behind_def buf_ok_def buf_contents_def mem_write_def)
qed

lemma write_end:
  assumes "buf_ok bp" and "int (length vs) \<le> mprGetBufSpace bp"
  shows "\<exists>d. mem_write_block (bdata bp) (bend bp) vs = Some d \<and> buf_ok (bp\<lparr>bdata := d, bend := bend bp + int (length vs)\<rparr>)
     \<and> buf_contents (bp\<lparr>bdata := d, bend := bend bp + int (length vs)\<rparr>) = buf_contents bp @ vs"
proof -
  obtain xs ys where d: "bdata bp = xs @ buf_contents bp @ ys" "bstart bp = int (length xs)"
    "bend bp = int (length xs + length (buf_contents bp))" "buflen bp = int (length xs + length (buf_contents bp) + length ys)"
    using buf_split [OF assms(1)] .
  have l: "length vs \<le> length ys" using assms(2) d by (simp add: mprGetBufSpace_def)
  then have w: "mem_write_block (bdata bp) (bend bp) vs = Some (xs @ buf_contents bp @ vs @ drop (length vs) ys)"
    using write_behind [of "xs @ buf_contents bp" ys vs] d(1,3) by simp
  have "buf_contents (bp\<lparr>bdata := xs @ buf_contents bp @ vs @ drop (length vs) ys, bend := bend bp + int (length vs)\<rparr>) = buf_contents bp @ vs"
    by (subst buf_contents_def) (simp add: d(2,3))
  moreover have "buf_ok (bp\<lparr>bdata := xs @ buf_contents bp @ vs @ drop (length vs) ys, bend := bend bp + int (length vs)\<rparr>)"
    using assms(1) l d by (auto simp: buf_ok_def)
  ultimately show ?thesis using w by blast
qed

text \<open>With space for all, one round writes all; otherwise a round fills the space and the next one grows.\<close>

lemma put_fits:
  assumes "buf_ok bp" and "int (length str) \<le> mprGetBufSpace bp"
  shows "\<exists>bp'. put_rounds (Suc (Suc fuel)) ejs bp str n = Some (n + int (length str), bp') \<and> buf_ok bp'
     \<and> buf_contents bp' = buf_contents bp @ str"
proof (cases "str = []")
  case False
  then have "0 < length str" by simp
  then have m: "\<not> min (mprGetBufSpace bp) (int (length str)) \<le> 0" "min (mprGetBufSpace bp) (int (length str)) = int (length str)"
    using assms(2) by linarith+
  obtain d where "mem_write_block (bdata bp) (bend bp) str = Some d" "buf_ok (bp\<lparr>bdata := d, bend := bend bp + int (length str)\<rparr>)"
    "buf_contents (bp\<lparr>bdata := d, bend := bend bp + int (length str)\<rparr>) = buf_contents bp @ str"
    using write_end [OF assms] by blast
  with False m show ?thesis by (simp add: Let_def)
qed (simp add: assms)

lemma put_full:
  assumes "buf_ok bp" and "heap ejs = (\<lambda>_. True)" and "mprGetBufSpace bp \<le> 0" and "str \<noteq> []"
  shows "\<exists>bp'. put_rounds (Suc (Suc fuel)) ejs bp str n = Some (n + int (length str), bp') \<and> buf_ok bp'
     \<and> buf_contents bp' = buf_contents bp @ str"
proof -
  have pos: "0 < int (length str)" using assms(4) by simp
  obtain bp1 where g: "mprGrowBuf ejs bp (int (length str)) = Some (0, bp1)" "buf_ok bp1" "buf_contents bp1 = buf_contents bp" "bend bp1 = bend bp"
    "buflen bp + int (length str) \<le> buflen bp1"
    using mprGrowBuf_ok [OF assms(1,2) pos] by blast
  have "int (length str) \<le> mprGetBufSpace bp1" using g(4,5) assms(1) by (auto simp: mprGetBufSpace_def buf_ok_def)
  moreover then have m: "min (mprGetBufSpace bp1) (int (length str)) = int (length str)" by simp
  moreover have z: "min (mprGetBufSpace bp) (int (length str)) \<le> 0" using assms(3) by simp
  ultimately show ?thesis
    using write_end [OF g(2), of str] g(1,3) assms(4) by (auto simp: Let_def)
qed

lemma mprPutBlockToBuf_ok:
  assumes "buf_ok bp" and "heap ejs = (\<lambda>_. True)"
  shows "\<exists>bp'. mprPutBlockToBuf ejs bp str = Some (int (length str), bp') \<and> buf_ok bp' \<and> buf_contents bp' = buf_contents bp @ str"
proof -
  have "\<exists>bp1. put_rounds 3 ejs bp str 0 = Some (int (length str), bp1) \<and> buf_ok bp1 \<and> buf_contents bp1 = buf_contents bp @ str"
  proof (cases "int (length str) \<le> mprGetBufSpace bp")
    case True
    then show ?thesis using put_fits [OF assms(1) True, of 1 ejs 0] by (simp add: numeral_3_eq_3)
  next
    case more: False
    show ?thesis
    proof (cases "mprGetBufSpace bp \<le> 0")
      case True
      have "str \<noteq> []" using more assms(1) by (auto simp: mprGetBufSpace_def buf_ok_def)
      from put_full [OF assms True this, of 1 0] show ?thesis by (simp add: numeral_3_eq_3)
    next
      case False
      define k where "k = nat (mprGetBufSpace bp)"
      have k: "mprGetBufSpace bp = int k" "0 < k" "k < length str" using False more by (auto simp: k_def)
      obtain d where d: "mem_write_block (bdata bp) (bend bp) (take k str) = Some d" "buf_ok (bp\<lparr>bdata := d, bend := bend bp + int k\<rparr>)"
        "buf_contents (bp\<lparr>bdata := d, bend := bend bp + int k\<rparr>) = buf_contents bp @ take k str"
        using write_end [OF assms(1), of "take k str"] k by auto
      have full: "mprGetBufSpace (bp\<lparr>bdata := d, bend := bend bp + int k\<rparr>) \<le> 0" using k(1) by (simp add: mprGetBufSpace_def)
      have rest: "drop k str \<noteq> []" using k(3) by simp
      obtain bp' where p: "put_rounds 2 ejs (bp\<lparr>bdata := d, bend := bend bp + int k\<rparr>) (drop k str) (int k) = Some (int k + int (length (drop k str)), bp')"
        "buf_ok bp'" "buf_contents bp' = (buf_contents bp @ take k str) @ drop k str"
        using put_full [OF d(2) assms(2) full rest, of 0 "int k"] d(3) by (auto simp: numeral_2_eq_2)
      have m: "min (int k) (int (length str)) = int k" "str \<noteq> []" using k by auto
      have "put_rounds 3 ejs bp str 0 = Some (int (length str), bp')"
        using p(1) d(1) k m put_rounds.simps(2) [of 2 ejs bp str 0] by (simp add: Let_def)
      with p show ?thesis by simp
    qed
  qed
  then obtain bp1 where p: "put_rounds 3 ejs bp str 0 = Some (int (length str), bp1)" "buf_ok bp1" "buf_contents bp1 = buf_contents bp @ str" by blast
  with null_behind_ok [OF p(2)] show ?thesis by (auto simp: mprPutBlockToBuf_def)
qed

lemma mprGetCharFromBuf_ok:
  assumes "buf_ok bp"
  shows "\<exists>bp'. mprGetCharFromBuf bp = Some (case buf_contents bp of [] \<Rightarrow> -1 | c # _ \<Rightarrow> uint c, bp') \<and> buf_ok bp' \<and> buf_contents bp' = tl (buf_contents bp)"
proof -
  obtain xs ys where d: "bdata bp = xs @ buf_contents bp @ ys" "bstart bp = int (length xs)"
    "bend bp = int (length xs + length (buf_contents bp))" "buflen bp = int (length xs + length (buf_contents bp) + length ys)"
    using buf_split [OF assms] .
  show ?thesis
  proof (cases "buf_contents bp")
    case Nil
    with d assms show ?thesis by (simp add: mprGetCharFromBuf_def)
  next
    case (Cons c cs)
    have "mem_read (bdata bp) (bstart bp) = Some c" by (subst d(1)) (simp add: d(2) Cons mem_read_def)
    moreover have "buf_contents (bp\<lparr>bstart := bstart bp + 1\<rparr>) = cs"
      by (subst buf_contents_def) (use d Cons in \<open>simp add: nat_add_distrib\<close>)
    ultimately show ?thesis using assms d Cons by (auto simp: mprGetCharFromBuf_def buf_ok_def)
  qed
qed

lemma mprGetBlockFromBuf_ok:
  assumes "buf_ok bp"
  shows "\<exists>bp'. mprGetBlockFromBuf bp n = Some (take (nat n) (buf_contents bp), bp') \<and> buf_ok bp' \<and> buf_contents bp' = drop (nat n) (buf_contents bp)"
proof -
  obtain xs ys where d: "bdata bp = xs @ buf_contents bp @ ys" "bstart bp = int (length xs)"
    "bend bp = int (length xs + length (buf_contents bp))" "buflen bp = int (length xs + length (buf_contents bp) + length ys)"
    using buf_split [OF assms] .
  define k where "k = min (length (buf_contents bp)) (nat n)"
  have l: "mprGetBufLength bp = int (length (buf_contents bp))" using length_buf_contents [OF assms] by simp
  show ?thesis
  proof (cases "0 < n \<and> 0 < length (buf_contents bp)")
    case False
    then show ?thesis using assms l by (auto simp: mprGetBlockFromBuf_def Let_def)
  next
    case True
    then have k: "min (mprGetBufLength bp) n = int k" "0 < k" using l by (auto simp: k_def)
    have t: "take (nat n) (buf_contents bp) = take k (buf_contents bp)" "drop (nat n) (buf_contents bp) = drop k (buf_contents bp)"
      by (auto simp: k_def min_def)
    have kl: "k \<le> length (buf_contents bp)" by (simp add: k_def)
    have "mem_read_block (bdata bp) (bstart bp) (int k) = Some (take k (buf_contents bp))"
      by (subst d(1)) (use d(2) k kl in \<open>simp add: mem_read_block_def\<close>)
    moreover have "buf_contents (bp\<lparr>bstart := bstart bp + int k\<rparr>) = drop k (buf_contents bp)"
      by (subst buf_contents_def) (use d kl in \<open>simp add: nat_add_distrib nat_diff_distrib\<close>)
    ultimately show ?thesis using True k kl assms d by (auto simp: mprGetBlockFromBuf_def Let_def t buf_ok_def)
  qed
qed

lemma mprCompactBuf_ok:
  assumes "buf_ok bp"
  shows "\<exists>bp'. mprCompactBuf bp = Some bp' \<and> buf_ok bp' \<and> buf_contents bp' = buf_contents bp \<and> bstart bp' = 0"
proof -
  obtain xs ys where d: "bdata bp = xs @ buf_contents bp @ ys" "bstart bp = int (length xs)"
    "bend bp = int (length xs + length (buf_contents bp))" "buflen bp = int (length xs + length (buf_contents bp) + length ys)"
    using buf_split [OF assms] .
  define cs where "cs = buf_contents bp"
  note d = d [folded cs_def]
  consider "cs = []" | "cs \<noteq> []" "xs = []" | "cs \<noteq> []" "xs \<noteq> []" by blast
  then show ?thesis
  proof cases
    case 1
    then have "mprCompactBuf bp = Some (mprFlushBuf bp)" using d(2,3) by (simp add: mprCompactBuf_def mprGetBufLength_def)
    moreover have "buf_ok (mprFlushBuf bp)" "buf_contents (mprFlushBuf bp) = []" "bstart (mprFlushBuf bp) = 0"
      using assms by (auto simp: mprFlushBuf_def buf_ok_def buf_contents_def)
    ultimately show ?thesis using 1 cs_def by simp
  next
    case 2
    then show ?thesis using d(2,3) assms by (simp add: mprCompactBuf_def mprGetBufLength_def)
  next
    case 3
    have r: "mem_read_block (xs @ cs @ ys) (int (length xs)) (int (length cs)) = Some cs" by (simp add: mem_read_block_def 3)
    have w: "mem_write_block (xs @ cs @ ys) 0 cs = Some (cs @ drop (length cs) (xs @ cs @ ys))" by (simp add: write_front)
    let ?bp = "bp\<lparr>bdata := cs @ drop (length cs) (xs @ cs @ ys), bend := int (length cs), bstart := 0\<rparr>"
    have "mprCompactBuf bp = Some ?bp" using d 3 r w by (simp add: mprCompactBuf_def mprGetBufLength_def)
    moreover have "buf_contents ?bp = cs" by (subst buf_contents_def) simp
    moreover have "buf_ok ?bp" using assms d(1,4) 3 by (auto simp: buf_ok_def)
    ultimately show ?thesis by (auto simp: cs_def)
  qed
qed

datatype buf_call = PutBlock bytes | GetChar | GetBlock int | FlushBuf | CompactBuf | AddNull

datatype buf_answer = NoAnswer | Number int | Block bytes

fun buf_run :: "ejs \<Rightarrow> buf_call \<Rightarrow> mprbuf \<Rightarrow> (buf_answer \<times> mprbuf) option" where
  "buf_run ejs (PutBlock bs) bp = map_option (\<lambda>(n, bp1). (Number n, bp1)) (mprPutBlockToBuf ejs bp bs)"
| "buf_run ejs GetChar bp = map_option (\<lambda>(c, bp1). (Number c, bp1)) (mprGetCharFromBuf bp)"
| "buf_run ejs (GetBlock n) bp = map_option (\<lambda>(bs, bp1). (Block bs, bp1)) (mprGetBlockFromBuf bp n)"
| "buf_run ejs FlushBuf bp = Some (NoAnswer, mprFlushBuf bp)"
| "buf_run ejs CompactBuf bp = map_option (Pair NoAnswer) (mprCompactBuf bp)"
| "buf_run ejs AddNull bp = map_option (Pair NoAnswer) (mprAddNullToBuf ejs bp)"

fun buf_spec :: "buf_call \<Rightarrow> bytes \<Rightarrow> buf_answer \<times> bytes" where
  "buf_spec (PutBlock bs) cs = (Number (int (length bs)), cs @ bs)"
| "buf_spec GetChar cs = (Number (case cs of [] \<Rightarrow> -1 | c # _ \<Rightarrow> uint c), tl cs)"
| "buf_spec (GetBlock n) cs = (Block (take (nat n) cs), drop (nat n) cs)"
| "buf_spec FlushBuf cs = (NoAnswer, [])"
| "buf_spec CompactBuf cs = (NoAnswer, cs)"
| "buf_spec AddNull cs = (NoAnswer, cs)"

lemma mprAddNullToBuf_ok:
  assumes "buf_ok bp" and "heap ejs = (\<lambda>_. True)"
  shows "\<exists>bp'. mprAddNullToBuf ejs bp = Some bp' \<and> buf_ok bp' \<and> buf_contents bp' = buf_contents bp"
proof (cases "buflen bp - bend bp < 1")
  case True
  obtain bp1 where g: "mprGrowBuf ejs bp 1 = Some (0, bp1)" "buf_ok bp1" "buf_contents bp1 = buf_contents bp" "bend bp1 = bend bp" "buflen bp + 1 \<le> buflen bp1"
    using mprGrowBuf_ok [OF assms, of 1] by auto
  then have "bend bp1 < buflen bp1" using assms(1) by (auto simp: buf_ok_def)
  then have "mprAddNullToBuf ejs bp = null_behind bp1" using True g(1) by (simp add: mprAddNullToBuf_def null_behind_def)
  with null_behind_ok [OF g(2)] g(3) show ?thesis by auto
next
  case False
  then have "mprAddNullToBuf ejs bp = null_behind bp" by (simp add: mprAddNullToBuf_def null_behind_def)
  with null_behind_ok [OF assms(1)] show ?thesis by auto
qed

interpretation buf_calls: simulation buf_ok buf_contents "\<lambda>_ _. True" "buf_run \<lparr>exception = e, heap = (\<lambda>_. True)\<rparr>" buf_spec
  for e
proof unfold_locales
  fix bp c
  assume bp: "buf_ok bp"
  let ?ejs = "\<lparr>exception = e, heap = (\<lambda>_. True)\<rparr> :: ejs"
  have h: "heap ?ejs = (\<lambda>_. True)" by simp
  show "\<exists>bp'. buf_run ?ejs c bp = Some (fst (buf_spec c (buf_contents bp)), bp') \<and> buf_ok bp' \<and> buf_contents bp' = snd (buf_spec c (buf_contents bp))"
  proof (cases c)
    case (PutBlock bs) then show ?thesis using mprPutBlockToBuf_ok [OF bp h, of bs] by auto
  next
    case GetChar then show ?thesis using mprGetCharFromBuf_ok [OF bp] by auto
  next
    case (GetBlock n) then show ?thesis using mprGetBlockFromBuf_ok [OF bp, of n] by auto
  next
    case FlushBuf then show ?thesis using bp by (auto simp: mprFlushBuf_def buf_ok_def buf_contents_def)
  next
    case CompactBuf then show ?thesis using mprCompactBuf_ok [OF bp] by auto
  next
    case AddNull then show ?thesis using mprAddNullToBuf_ok [OF bp h] by auto
  qed
qed

lemma create_ok:
  assumes "heap ejs = (\<lambda>_. True)" and "m \<le> 0"
  shows "\<exists>bp. mprCreateBuf ejs n m = Some bp \<and> buf_ok bp \<and> buf_contents bp = []"
  using assms by (auto simp: mprCreateBuf_def mprSetBufSize_def no_buf_def buf_ok_def buf_contents_def ME_BUFSIZE_def)

text \<open>
  Property C19. A buffer without a size limit is a queue of bytes, whatever its initial size: blocks that
  are put are read back byte by byte or in blocks, in order, and growing, compacting and adding a
  null behind the end change nothing that can be read. No access leaves the block.
\<close>

theorem buffer_is_queue:
  assumes "heap ejs = (\<lambda>_. True)" and "m \<le> 0"
  shows "\<exists>bp bp'. mprCreateBuf ejs n m = Some bp
     \<and> run_script (buf_run ejs) calls bp = Some (fst (spec_script buf_spec calls []), bp') \<and> buf_contents bp' = snd (spec_script buf_spec calls [])"
proof -
  obtain e where e: "ejs = \<lparr>exception = e, heap = (\<lambda>_. True)\<rparr>" using assms(1) by (cases ejs) auto
  obtain bp where bp: "mprCreateBuf ejs n m = Some bp" "buf_ok bp" "buf_contents bp = []" using create_ok [OF assms] by blast
  have "valid_script (\<lambda>_ _. True) buf_spec calls a" for a by (induction calls arbitrary: a) auto
  from buf_calls.script_refines [OF bp(2) this, of e] bp e show ?thesis by auto
qed

theorem buffer_is_queue_witness:
  "\<exists>bp bp'. mprCreateBuf \<lparr>exception = None, heap = (\<lambda>_. True)\<rparr> 2 (-1) = Some bp
     \<and> run_script (buf_run \<lparr>exception = None, heap = (\<lambda>_. True)\<rparr>) [PutBlock [1, 2, 3], GetChar, CompactBuf, PutBlock [4], GetBlock 2] bp
         = Some ([Number 3, Number 1, NoAnswer, Number 1, Block [2, 3]], bp')
     \<and> buf_contents bp' = [4]"
  using buffer_is_queue [of "\<lparr>exception = None, heap = (\<lambda>_. True)\<rparr>" "-1" 2 "[PutBlock [1, 2, 3], GetChar, CompactBuf, PutBlock [4], GetBlock 2]"]
  by (simp add: numeral_2_eq_2)

text \<open>
  A character put into a buffer that is full to its end, but of which something has been
  read, is stored behind the end of the block: the space is computed as if the contents began at
  the start of the block.
\<close>

theorem put_char_overruns:
  assumes "buf_ok bp" and "bend bp = buflen bp" and "0 < bstart bp"
  shows "mprPutCharToBuf ejs bp c = None"
  using assms by (auto simp: mprPutCharToBuf_def mprGetBufLength_def buf_ok_def mem_write_def)

definition read_one :: mprbuf where
  "read_one = \<lparr>bdata = [1, 2], buflen = 2, bstart = 1, bend = 2, maxsize = -1, growBy = 2\<rparr>"

theorem put_char_overruns_witness: "mprPutCharToBuf \<lparr>exception = None, heap = (\<lambda>_. True)\<rparr> read_one 3 = None"
  by (rule put_char_overruns) (simp_all add: read_one_def buf_ok_def)

text \<open>A clone copies from the start of the block instead of the start of the contents.\<close>

theorem clone_copies_read_bytes:
  "map_option buf_contents (mprCloneBuf \<lparr>exception = None, heap = (\<lambda>_. True)\<rparr> read_one) = Some [1] \<and> buf_contents read_one = [2]"
  by (simp add: mprCloneBuf_def mprCreateBuf_def mprSetBufSize_def no_buf_def read_one_def mprGetBufLength_def buf_contents_def
      mem_read_block_def mem_write_block_def numeral_2_eq_2)

end
