(* ===== verification/ModuleFile.thy ===== *)
theory ModuleFile
  imports Encoding MprBuf
begin

text \<open>
  Parts of module files, on the side of the compiler that writes them (\<^verbatim>\<open>src/compiler/ecModuleWrite.c\<close>)
  and of the virtual machine that loads them (\<^verbatim>\<open>src/vm/ejsModule.c\<close>, \<^verbatim>\<open>ejsLoader.c\<close>): the constant pool,
  the code buffer with its encoders, the debug lines of functions, and the versions of modules.

  \<^item> Strings are lists of bytes without a null; in the pool every one is followed by a null.
  \<^item> An entry of the index is an offset into the pool, tagged in its lowest bit, or an interned
    string. Fresh memory is shown as zeros, and a fresh entry of the index as \<open>Unset\<close>.
  \<^item> The hash table of the compiler is a map from strings to indices.
\<close>

section \<open>Constant pool\<close>

datatype const_ref = Unset | Offset int | Interned bytes

record constants =
  pool :: bytes
  poolSize :: int
  poolLength :: int
  indexSize :: int
  indexCount :: int
  locked :: bool
  table :: "(bytes \<Rightarrow> int option) option"
  index :: "const_ref list"

definition EC_BUFSIZE :: int where "EC_BUFSIZE = 4096"
definition EJS_INDEX_INCR :: int where "EJS_INDEX_INCR = 256"

text \<open>The string at an offset of a block, up to its null; without a null the end of the block is passed.\<close>

definition cstring_at :: "bytes \<Rightarrow> nat \<Rightarrow> bytes option" where
  "cstring_at m pos =
     (let s = takeWhile (\<lambda>b. b \<noteq> 0) (drop pos m) in if pos + length s < length m then Some s else None)"

text \<open>The loop that enters the strings of a loaded pool into the index goes to the end of the pool.\<close>

function fill_index :: "bytes \<Rightarrow> int \<Rightarrow> nat \<Rightarrow> nat \<Rightarrow> const_ref list \<Rightarrow> const_ref list option" where
  "fill_index p len pp i idx =
     (if int pp < len
      then case mem_write idx (int i) (Offset (int pp)) of
             None \<Rightarrow> None
           | Some idx1 \<Rightarrow>
               (case cstring_at p pp of
                  None \<Rightarrow> None
                | Some s \<Rightarrow> fill_index p len (pp + length s + 1) (Suc i) idx1)
      else Some idx)"
  by pat_completeness auto
termination by (relation "measure (\<lambda>(p, len, pp, i, idx). nat len - pp)") auto

declare fill_index.simps [simp del]

definition no_constants :: constants where
  "no_constants = \<lparr>pool = [], poolSize = 0, poolLength = 0, indexSize = 0, indexCount = 0, locked = False, table = None, index = []\<rparr>"

definition ejsCreateConstants :: "ejs \<Rightarrow> bool \<Rightarrow> int \<Rightarrow> int \<Rightarrow> bytes option \<Rightarrow> (int \<times> constants) option" where
  "ejsCreateConstants ejs compiling count len p =
     (let cp = no_constants\<lparr>table := if compiling then Some Map.empty else None, poolSize := len\<rparr>
      in if p = None \<and> \<not> heap ejs len then Some (MPR_ERR_MEMORY, cp)
         else let cp1 = cp\<lparr>pool := case p of Some bs \<Rightarrow> bs | None \<Rightarrow> replicate (nat len) 0\<rparr>
              in if count = 0 then Some (0, cp1)
                 else if \<not> heap ejs count then Some (MPR_ERR_MEMORY, cp1\<lparr>poolLength := len\<rparr>)
                 else if p = None then Some (0, cp1\<lparr>poolLength := len, index := replicate (nat count) Unset\<rparr>)
                 else do { idx \<leftarrow> fill_index (pool cp1) len 0 0 (replicate (nat count) Unset);
                           Some (0, cp1\<lparr>poolLength := len, index := idx, indexCount := count\<rparr>) })"

text \<open>When there is no memory the pointer to the pool, or to the index, has been overwritten with null.\<close>

definition ejsGrowConstants :: "ejs \<Rightarrow> constants \<Rightarrow> int \<Rightarrow> int \<times> constants" where
  "ejsGrowConstants ejs cp len =
     (let grows = (poolLength cp + len \<ge> poolSize cp);
          newSize = (poolSize cp + len + EC_BUFSIZE - 1) div EC_BUFSIZE * EC_BUFSIZE
      in if grows \<and> \<not> heap ejs newSize then (MPR_ERR_MEMORY, cp\<lparr>poolSize := newSize, pool := []\<rparr>)
         else let cp1 = (if grows then cp\<lparr>poolSize := newSize, pool := pool cp @ replicate (nat newSize - length (pool cp)) 0\<rparr> else cp)
              in if indexCount cp1 \<ge> indexSize cp1
                 then let n = (indexCount cp1 + EJS_INDEX_INCR) div EJS_INDEX_INCR * EJS_INDEX_INCR
                      in if \<not> heap ejs n then (MPR_ERR_MEMORY, cp1\<lparr>index := []\<rparr>)
                         else (0, cp1\<lparr>index := index cp1 @ replicate (nat n - length (index cp1)) Unset, indexSize := n\<rparr>)
                 else (0, cp1))"

definition ejsAddConstant :: "ejs \<Rightarrow> constants \<Rightarrow> bytes \<Rightarrow> (int \<times> constants) option" where
  "ejsAddConstant ejs cp str =
     (if locked cp then Some (MPR_ERR_CANT_WRITE, cp)
      else let len = int (length str) + 1; (rc, cp1) = ejsGrowConstants ejs cp len
      in if rc < 0 then Some (MPR_ERR_MEMORY, cp1)
         else do { p \<leftarrow> mem_write_block (pool cp1) (poolLength cp1) (str @ [0]);
                   idx \<leftarrow> mem_write (index cp1) (indexCount cp1) (Offset (poolLength cp1));
                   Some (indexCount cp1,
                         cp1\<lparr>pool := p, poolLength := poolLength cp1 + len, index := idx, indexCount := indexCount cp1 + 1,
                             table := map_option (\<lambda>t. t(str \<mapsto> indexCount cp1)) (table cp1)\<rparr>) })"

text \<open>The offset has gone through an \<^verbatim>\<open>int\<close>, shifted by the tag.\<close>

definition untag :: "int \<Rightarrow> int" where
  "untag off = c_int (2 * off + 1) div 2"

definition ejsCreateStringFromConst :: "constants \<Rightarrow> int \<Rightarrow> (bytes option \<times> constants) option" where
  "ejsCreateStringFromConst cp i =
     (if i < 0 \<or> i \<ge> indexCount cp then Some (None, cp)
      else do { r \<leftarrow> mem_read (index cp) i;
                case r of
                  Unset \<Rightarrow> None
                | Interned s \<Rightarrow> Some (Some s, cp)
                | Offset off \<Rightarrow>
                    if untag off < 0 then None
                    else do { s \<leftarrow> cstring_at (pool cp) (nat (untag off));
                              idx \<leftarrow> mem_write (index cp) i (Interned s);
                              Some (Some s, cp\<lparr>index := idx\<rparr>) } })"

definition ecAddModuleConstant :: "ejs \<Rightarrow> constants \<Rightarrow> bytes \<Rightarrow> (int \<times> constants) option" where
  "ecAddModuleConstant ejs cp str =
     (case Option.bind (table cp) (\<lambda>t. t str) of
        Some i \<Rightarrow> Some (i, cp)
      | None \<Rightarrow>
          do { (i, cp1) \<leftarrow> ejsAddConstant ejs cp str;
               Some (i, cp1\<lparr>table := map_option (\<lambda>t. t(str \<mapsto> i)) (table cp1)\<rparr>) })"

section \<open>Loaded modules\<close>

record module =
  mname :: bytes
  mversion :: int

fun best_module :: "bytes \<Rightarrow> int \<Rightarrow> int \<Rightarrow> module list \<Rightarrow> module option \<Rightarrow> module option" where
  "best_module name lo hi [] best = best"
| "best_module name lo hi (mp # ms) best =
     best_module name lo hi ms
       (if (lo = 0 \<and> hi = 0 \<or> lo \<le> mversion mp \<and> mversion mp \<le> hi) \<and> mname mp = name
           \<and> (case best of None \<Rightarrow> True | Some b \<Rightarrow> mversion b < mversion mp)
        then Some mp else best)"

definition ejsLookupModule :: "module list \<Rightarrow> bytes \<Rightarrow> int \<Rightarrow> int \<Rightarrow> module option" where
  "ejsLookupModule modules name minVersion maxVersion =
     best_module name minVersion (if maxVersion < 0 then MAXINT else maxVersion) modules None"

text \<open>Version numbers.\<close>

definition EJS_VERSION_FACTOR :: int where "EJS_VERSION_FACTOR = 1000"

definition EJS_MAKE_VERSION :: "int \<Rightarrow> int \<Rightarrow> int \<Rightarrow> int" where
  "EJS_MAKE_VERSION maj mnr patch = (maj * EJS_VERSION_FACTOR + mnr) * EJS_VERSION_FACTOR + patch"

definition EJS_MAJOR :: "int \<Rightarrow> int" where
  "EJS_MAJOR v = v div EJS_VERSION_FACTOR div EJS_VERSION_FACTOR mod EJS_VERSION_FACTOR"

definition EJS_MINOR :: "int \<Rightarrow> int" where
  "EJS_MINOR v = v div EJS_VERSION_FACTOR mod EJS_VERSION_FACTOR"

definition EJS_PATCH :: "int \<Rightarrow> int" where
  "EJS_PATCH v = v mod EJS_VERSION_FACTOR"

section \<open>Code buffer\<close>

record code_gen =
  cbuf :: mprbuf
  fatalError :: bool

text \<open>When the space is too small the buffer grows once, by its own increment.\<close>

definition reserveRoom :: "ejs \<Rightarrow> code_gen \<Rightarrow> int \<Rightarrow> (int \<times> code_gen) option" where
  "reserveRoom ejs cp room =
     (if mprGetBufSpace (cbuf cp) < room
      then do { (rc, bp) \<leftarrow> mprGrowBuf ejs (cbuf cp) (-1);
                Some (if rc < 0 then (MPR_ERR_MEMORY, cp\<lparr>cbuf := bp, fatalError := True\<rparr>) else (0, cp\<lparr>cbuf := bp\<rparr>)) }
      else Some (0, cp))"

text \<open>Bytes are stored at the end of the buffer, and the end is moved behind them.\<close>

definition emit :: "ejs \<Rightarrow> int \<Rightarrow> bytes \<Rightarrow> code_gen \<Rightarrow> code_gen option" where
  "emit ejs room bs cp =
     do { (rc, cp1) \<leftarrow> reserveRoom ejs cp room;
          if rc < 0 then Some cp1
          else do { d \<leftarrow> mem_write_block (bdata (cbuf cp1)) (bend (cbuf cp1)) bs;
                    Some (cp1\<lparr>cbuf := mprAdjustBufEnd ((cbuf cp1)\<lparr>bdata := d\<rparr>) (int (length bs))\<rparr>) } }"

definition ecEncodeByte :: "ejs \<Rightarrow> int \<Rightarrow> code_gen \<Rightarrow> code_gen option" where
  "ecEncodeByte ejs val cp = emit ejs 1 [word_of_int val] cp"

definition ecEncodeNum :: "ejs \<Rightarrow> int \<Rightarrow> code_gen \<Rightarrow> code_gen option" where
  "ecEncodeNum ejs number cp = emit ejs 10 (ejsEncodeNum (word_of_int number)) cp"

text \<open>A number that is too large for four bytes emits nothing.\<close>

definition ecEncodeInt32 :: "ejs \<Rightarrow> int \<Rightarrow> code_gen \<Rightarrow> code_gen option" where
  "ecEncodeInt32 ejs number cp =
     emit ejs 4 (if \<bar>number\<bar> > EJS_ENCODE_MAX_WORD then [] else fst (ejsEncodeInt32 (replicate 4 0) number)) cp"

definition ecEncodeBlock :: "ejs \<Rightarrow> bytes \<Rightarrow> code_gen \<Rightarrow> code_gen option" where
  "ecEncodeBlock ejs bs cp =
     do { (rc, cp1) \<leftarrow> reserveRoom ejs cp (int (length bs));
          if rc < 0 then Some cp1
          else do { (n, bp) \<leftarrow> mprPutBlockToBuf ejs (cbuf cp1) bs;
                    Some (cp1\<lparr>cbuf := bp, fatalError := (fatalError cp1 \<or> n \<noteq> int (length bs))\<rparr>) } }"

text \<open>A string is written with its length, which counts the null, and its null.\<close>

definition ecEncodeMulti :: "ejs \<Rightarrow> bytes \<Rightarrow> code_gen \<Rightarrow> code_gen option" where
  "ecEncodeMulti ejs str cp =
     do { cp1 \<leftarrow> ecEncodeNum ejs (int (length str) + 1) cp; ecEncodeBlock ejs (str @ [0]) cp1 }"

text \<open>Wide characters are bytes in the configuration of the sources.\<close>

definition ecEncodeWideAsMulti :: "ejs \<Rightarrow> bytes \<Rightarrow> code_gen \<Rightarrow> code_gen option" where
  "ecEncodeWideAsMulti ejs str cp =
     do { cp1 \<leftarrow> ecEncodeNum ejs (int (length str) + 1) cp; ecEncodeBlock ejs (str @ [0]) cp1 }"

definition ecEncodeInt32AtPos :: "int \<Rightarrow> int \<Rightarrow> code_gen \<Rightarrow> code_gen option" where
  "ecEncodeInt32AtPos offset val cp =
     (if \<bar>val\<bar> > EJS_ENCODE_MAX_WORD then Some (cp\<lparr>fatalError := True\<rparr>)
      else do { d \<leftarrow> mem_write_block (bdata (cbuf cp)) (bstart (cbuf cp) + offset) (fst (ejsEncodeInt32 (replicate 4 0) val));
                Some (cp\<lparr>cbuf := (cbuf cp)\<lparr>bdata := d\<rparr>\<rparr>) })"

definition ecGetCodeOffset :: "code_gen \<Rightarrow> int" where
  "ecGetCodeOffset cp = bend (cbuf cp) - bstart (cbuf cp)"

text \<open>A constant is written as its index.\<close>

definition ecEncodeConst :: "ejs \<Rightarrow> bytes \<Rightarrow> constants \<Rightarrow> code_gen \<Rightarrow> (constants \<times> code_gen) option" where
  "ecEncodeConst ejs str consts cp =
     do { (i, consts1) \<leftarrow> ecAddModuleConstant ejs consts str;
          if i < 0 then Some (consts1, cp\<lparr>fatalError := True\<rparr>)
          else map_option (Pair consts1) (ecEncodeNum ejs i cp) }"

definition ecEncodeName :: "ejs \<Rightarrow> bytes \<times> bytes \<Rightarrow> constants \<Rightarrow> code_gen \<Rightarrow> (constants \<times> code_gen) option" where
  "ecEncodeName ejs qname consts cp =
     do { (consts1, cp1) \<leftarrow> ecEncodeConst ejs (fst qname) consts cp; ecEncodeConst ejs (snd qname) consts1 cp1 }"

section \<open>Debug lines\<close>

type_synonym line = "int \<times> bytes"

record debug =
  dsize :: int
  numLines :: int
  lines :: "line list"

definition EJS_DEBUG_INCR :: int where "EJS_DEBUG_INCR = 16"
definition EJS_SECT_DEBUG :: int where "EJS_SECT_DEBUG = 3"

definition ejsCreateDebug :: "ejs \<Rightarrow> int \<Rightarrow> debug option" where
  "ejsCreateDebug ejs len =
     (let count = (if len > 0 then len else EJS_DEBUG_INCR)
      in if heap ejs count then Some \<lparr>dsize = count, numLines = len, lines = replicate (nat count) (0, [])\<rparr> else None)"

text \<open>
  The record is made when there is none. Without memory for it the code goes on with a null pointer;
  without memory to grow, the old record stays with the new size.
\<close>

definition ejsAddDebugLine :: "ejs \<Rightarrow> debug option \<Rightarrow> int \<Rightarrow> bytes \<Rightarrow> (int \<times> debug option) option" where
  "ejsAddDebugLine ejs debugp offset source =
     do { debug \<leftarrow> (case debugp of None \<Rightarrow> ejsCreateDebug ejs 0 | Some d \<Rightarrow> Some d);
          let grows = numLines debug \<ge> dsize debug;
          let debug1 = (if grows then debug\<lparr>dsize := dsize debug + EJS_DEBUG_INCR\<rparr> else debug);
          if grows \<and> \<not> heap ejs (dsize debug1) then Some (MPR_ERR_MEMORY, Some debug1)
          else do {
            let debug2 = (if grows then debug1\<lparr>lines := lines debug1 @ replicate (nat (dsize debug1) - length (lines debug1)) (0, [])\<rparr> else debug1);
            same \<leftarrow> (if numLines debug2 > 0
                      then map_option (\<lambda>l. fst l = offset) (mem_read (lines debug2) (numLines debug2 - 1)) else Some False);
            ls \<leftarrow> mem_write (lines debug2) (if same then numLines debug2 - 1 else numLines debug2) (offset, source);
            Some (0, Some (debug2\<lparr>lines := ls, numLines := if same then numLines debug2 else numLines debug2 + 1\<rparr>)) } }"

text \<open>The search for the line of an offset: the line before the first one that starts behind it.\<close>

function line_index :: "line list \<Rightarrow> int \<Rightarrow> int \<Rightarrow> int \<Rightarrow> int option" where
  "line_index ls n offset i =
     (if i < n
      then case mem_read ls i of
             None \<Rightarrow> None
           | Some l \<Rightarrow> if offset < fst l then Some i else line_index ls n offset (i + 1)
      else Some i)"
  by pat_completeness auto
termination by (relation "measure (\<lambda>(ls, n, offset, i). nat (n - i))") auto

declare line_index.simps [simp del]

text \<open>Writing the lines of a function: the section, its length, which is patched in, the lines.\<close>

fun encode_lines :: "ejs \<Rightarrow> line list \<Rightarrow> code_gen \<Rightarrow> code_gen option" where
  "encode_lines ejs [] cp = Some cp"
| "encode_lines ejs (l # ls) cp =
     do { cp1 \<leftarrow> ecEncodeNum ejs (fst l) cp; cp2 \<leftarrow> ecEncodeWideAsMulti ejs (snd l) cp1; encode_lines ejs ls cp2 }"

definition createDebugSection :: "ejs \<Rightarrow> debug \<Rightarrow> code_gen \<Rightarrow> code_gen option" where
  "createDebugSection ejs debug cp =
     do { cp1 \<leftarrow> ecEncodeByte ejs EJS_SECT_DEBUG cp;
          let patchSizeOffset = ecGetCodeOffset cp1;
          cp2 \<leftarrow> ecEncodeInt32 ejs 0 cp1;
          let startDebug = ecGetCodeOffset cp2;
          cp3 \<leftarrow> ecEncodeNum ejs (numLines debug) cp2;
          cp4 \<leftarrow> encode_lines ejs (take (nat (numLines debug)) (lines debug)) cp3;
          ecEncodeInt32AtPos patchSizeOffset (ecGetCodeOffset cp4 - startDebug) cp4 }"

text \<open>
  Reading them back on demand. The string of a line that was read ends at its null; the memory
  behind a null pointer is not read: a line that could not be read has no source.
\<close>

fun read_lines :: "nat \<Rightarrow> module_reader \<Rightarrow> (line list \<times> module_reader) option" where
  "read_lines 0 mp = Some ([], mp)"
| "read_lines (Suc n) mp =
     do { (off, mp1) \<leftarrow> ejsModuleReadInt mp;
          (src, mp2) \<leftarrow> ejsModuleReadMulti mp1;
          s \<leftarrow> (case src of None \<Rightarrow> Some [] | Some bs \<Rightarrow> cstring_at bs 0);
          (ls, mp3) \<leftarrow> read_lines n mp2;
          Some ((off, s) # ls, mp3) }"

text \<open>
  The module file is opened again, read from the offset of the section, and left where it was. Its
  contents are an argument; without them it cannot be opened. The second result is the error flag.
\<close>

definition loadDebug :: "ejs \<Rightarrow> bytes option \<Rightarrow> int \<Rightarrow> bool \<Rightarrow> (debug option \<times> bool) option" where
  "loadDebug ejs contents offset err =
     (case contents of
        None \<Rightarrow> Some (None, err)
      | Some bs \<Rightarrow>
          if offset < 0 then Some (None, err)
          else do { (len, mp) \<leftarrow> ejsModuleReadInt \<lparr>mfile = drop (nat offset) bs, hasError = err\<rparr>;
                    if hasError mp then Some (None, True)
                    else case ejsCreateDebug ejs len of
                           None \<Rightarrow> Some (None, False)
                         | Some d \<Rightarrow>
                             do { (ls, mp1) \<leftarrow> read_lines (nat len) mp;
                                  Some (if hasError mp1 then None else Some (d\<lparr>lines := ls @ drop (length ls) (lines d)\<rparr>),
                                        hasError mp1) } })"

text \<open>The code of a function: its debug lines if they are in memory, and where they are in the file.\<close>

record fun_code =
  cdebug :: "debug option"
  debugOffset :: int

text \<open>The loader notes where the lines begin and passes over them.\<close>

definition loadDebugSection :: "bytes \<Rightarrow> fun_code \<Rightarrow> module_reader \<Rightarrow> (int \<times> fun_code \<times> module_reader) option" where
  "loadDebugSection contents code mp =
     do { (n, mp1) \<leftarrow> ejsModuleReadInt32 mp;
          let pos = int (length contents) - int (length (mfile mp1));
          Some (0, code\<lparr>debugOffset := c_int pos\<rparr>,
                if pos + n < 0 then mp1 else mp1\<lparr>mfile := drop (nat (pos + n)) contents\<rparr>) }"

text \<open>
  The line of a program counter, as an offset from the start of the code: the one for the byte
  before it. Lines that are not in memory are loaded and kept.
\<close>

definition ejsGetDebugLine ::
  "ejs \<Rightarrow> bytes option \<Rightarrow> bool \<Rightarrow> fun_code option \<Rightarrow> int \<Rightarrow> (line option \<times> fun_code option \<times> bool) option" where
  "ejsGetDebugLine ejs contents err codep pc =
     (case codep of
        None \<Rightarrow> Some (None, None, err)
      | Some code \<Rightarrow>
          do { (debugp, err1) \<leftarrow> (if cdebug code = None
                                   then if debugOffset code = 0 then Some (None, err) else loadDebug ejs contents (debugOffset code) err
                                   else Some (cdebug code, err));
               let code1 = code\<lparr>cdebug := debugp\<rparr>;
               case debugp of
                 None \<Rightarrow> Some (None, Some code1, err1)
               | Some debug \<Rightarrow>
                   if numLines debug > 0
                   then do { i \<leftarrow> line_index (lines debug) (numLines debug) (pc - 1) 0;
                             l \<leftarrow> mem_read (lines debug) (if i > 0 then i - 1 else i);
                             Some (Some l, Some code1, err1) }
                   else Some (None, Some code1, err1) })"

section \<open>Module sections\<close>

definition EJS_SECT_MODULE :: int where "EJS_SECT_MODULE = 1"
definition EJS_MAX_POOL :: int where "EJS_MAX_POOL = 4194304"

text \<open>
  The first part of a module section: name, version, space for the checksum, and the constants, which
  are locked from here on. What follows, the sections of the module, is not part of this definition.
\<close>

definition createModuleStart :: "ejs \<Rightarrow> bytes \<Rightarrow> int \<Rightarrow> constants \<Rightarrow> code_gen \<Rightarrow> (constants \<times> code_gen) option" where
  "createModuleStart ejs name version consts cp =
     do { cp1 \<leftarrow> ecEncodeByte ejs EJS_SECT_MODULE cp;
          (consts1, cp2) \<leftarrow> ecEncodeConst ejs name consts cp1;
          cp3 \<leftarrow> ecEncodeNum ejs version cp2;
          cp4 \<leftarrow> ecEncodeInt32 ejs 0 cp3;
          let consts2 = consts1\<lparr>locked := True\<rparr>;
          cp5 \<leftarrow> ecEncodeNum ejs (poolLength consts2) cp4;
          cp6 \<leftarrow> ecEncodeNum ejs (indexCount consts2) cp5;
          bs \<leftarrow> mem_read_block (pool consts2) 0 (c_int (poolLength consts2));
          cp7 \<leftarrow> ecEncodeBlock ejs bs cp6;
          Some (consts2, cp7) }"

text \<open>
  Loading it: the name, if the index has it, the version, the checksum and the constants of the new
  module. The name is compared with the size of the pool, not with the number of strings.
\<close>

definition loadModuleSection ::
  "ejs \<Rightarrow> bool \<Rightarrow> bytes \<Rightarrow> ((bytes option \<times> int \<times> int \<times> constants) option \<times> bytes) option" where
  "loadModuleSection ejs compiling bs =
     do { (nameToken, mp1) \<leftarrow> ejsModuleReadInt \<lparr>mfile = bs, hasError = False\<rparr>;
          (version, mp2) \<leftarrow> ejsModuleReadInt mp1;
          (checksum, mp3) \<leftarrow> ejsModuleReadInt32 mp2;
          (poolSize, mp4) \<leftarrow> ejsModuleReadInt mp3;
          (poolCount, mp5) \<leftarrow> ejsModuleReadInt mp4;
          if hasError mp5 \<or> poolSize \<le> 0 \<or> poolSize > EJS_MAX_POOL \<or> nameToken < 0 \<or> nameToken \<ge> poolSize \<or> \<not> heap ejs poolSize
          then Some (None, mfile mp5)
          else if int (length (mfile mp5)) < poolSize then Some (None, [])
          else do { let rest = drop (nat poolSize) (mfile mp5);
                    (rc, consts) \<leftarrow> ejsCreateConstants ejs compiling poolCount poolSize (Some (take (nat poolSize) (mfile mp5)));
                    if rc < 0 then Some (None, rest)
                    else do { (name, consts1) \<leftarrow> ejsCreateStringFromConst consts nameToken;
                              Some (Some (name, version, checksum, consts1), rest) } } }"

section \<open>The constant pool is a list of distinct strings\<close>

text \<open>The strings of a pool, one after the other with their nulls, and back.\<close>

definition flat :: "bytes list \<Rightarrow> bytes" where
  "flat strs = concat (map (\<lambda>s. s @ [0]) strs)"

lemma flat_simps [simp]: "flat [] = []" "flat (s # strs) = s @ 0 # flat strs" "flat (xs @ ys) = flat xs @ flat ys"
  by (simp_all add: flat_def)

fun strings_of :: "bytes \<Rightarrow> bytes \<Rightarrow> bytes list" where
  "strings_of cur [] = []"
| "strings_of cur (b # bs) = (if b = 0 then cur # strings_of [] bs else strings_of (cur @ [b]) bs)"

lemma strings_of_append: "0 \<notin> set s \<Longrightarrow> strings_of cur (s @ 0 # bs) = (cur @ s) # strings_of [] bs"
  by (induction s arbitrary: cur) auto

lemma strings_of_flat [simp]: "\<forall>s \<in> set strs. 0 \<notin> set s \<Longrightarrow> strings_of [] (flat strs) = strs"
  by (induction strs) (auto simp: strings_of_append)

definition const_strings :: "constants \<Rightarrow> bytes list" where
  "const_strings cp = strings_of [] (take (nat (poolLength cp)) (pool cp))"

text \<open>The string of an index starts where the strings before it end.\<close>

definition string_start :: "bytes list \<Rightarrow> nat \<Rightarrow> int" where
  "string_start strs i = int (length (flat (take i strs)))"

lemma flat_at: "i < length strs \<Longrightarrow> flat strs = flat (take i strs) @ strs ! i @ 0 # flat (drop (Suc i) strs)"
  using arg_cong [OF id_take_nth_drop [of i strs], of flat] by simp

lemma takeWhile_null: "0 \<notin> set s \<Longrightarrow> takeWhile (\<lambda>b. b \<noteq> 0) (s @ 0 # ys) = s" for s :: bytes
  by (subst takeWhile_append2) (metis, simp)

lemma cstring_at_flat:
  assumes "\<forall>s \<in> set strs. 0 \<notin> set s" and "i < length strs"
  shows "cstring_at (flat strs @ junk) (nat (string_start strs i)) = Some (strs ! i)"
proof -
  have "flat strs @ junk = flat (take i strs) @ strs ! i @ 0 # (flat (drop (Suc i) strs) @ junk)"
    using flat_at [OF assms(2)] by simp
  moreover have "0 \<notin> set (strs ! i)" using assms by auto
  then have "takeWhile (\<lambda>b. b \<noteq> 0) (strs ! i @ 0 # ys) = strs ! i" for ys
    by (rule takeWhile_null)
  ultimately show ?thesis by (simp add: cstring_at_def string_start_def Let_def)
qed

lemma string_start_bound: "i < length strs \<Longrightarrow> 0 \<le> string_start strs i \<and> string_start strs i < int (length (flat strs))"
  using flat_at [of i strs] by (simp add: string_start_def)

lemma string_start_append [simp]: "i \<le> length strs \<Longrightarrow> string_start (strs @ ss) i = string_start strs i"
  by (simp add: string_start_def)

text \<open>An entry stands for a string when it is the string or the place where it starts.\<close>

definition stands_for :: "bytes list \<Rightarrow> nat \<Rightarrow> const_ref \<Rightarrow> bool" where
  "stands_for strs i r \<longleftrightarrow> r = Offset (string_start strs i) \<or> r = Interned (strs ! i)"

definition readable :: "constants \<Rightarrow> bool" where
  "readable cp \<longleftrightarrow> (let strs = const_strings cp in
     (\<forall>s \<in> set strs. 0 \<notin> set s) \<and> int (length (flat strs)) < 2 ^ 30
     \<and> take (length (flat strs)) (pool cp) = flat strs \<and> length (flat strs) \<le> length (pool cp)
     \<and> indexCount cp = int (length strs) \<and> length strs \<le> length (index cp)
     \<and> (\<forall>i < length strs. stands_for strs i (index cp ! i)))"

lemma untag_small: "0 \<le> off \<Longrightarrow> off < 2 ^ 30 \<Longrightarrow> untag off = off"
  by (simp add: untag_def c_int_id)

lemma const_strings_index [simp]: "const_strings (cp\<lparr>index := idx\<rparr>) = const_strings cp"
  by (simp add: const_strings_def)

lemma ejsCreateStringFromConst_ok:
  assumes "readable cp"
  shows "\<exists>idx. ejsCreateStringFromConst cp i
      = Some (if 0 \<le> i \<and> i < int (length (const_strings cp)) then Some (const_strings cp ! nat i) else None, cp\<lparr>index := idx\<rparr>)
     \<and> readable (cp\<lparr>index := idx\<rparr>) \<and> length idx = length (index cp)"
proof (cases "0 \<le> i \<and> i < int (length (const_strings cp))")
  case False
  then show ?thesis using assms by (auto simp: ejsCreateStringFromConst_def readable_def Let_def intro!: exI [of _ "index cp"])
next
  case True
  define strs k where "strs = const_strings cp" and "k = nat i"
  have k: "i = int k" "k < length strs" using True by (auto simp: k_def strs_def)
  have r: "\<forall>s \<in> set strs. 0 \<notin> set s" "int (length (flat strs)) < 2 ^ 30" "take (length (flat strs)) (pool cp) = flat strs"
    "indexCount cp = int (length strs)" "length strs \<le> length (index cp)" "stands_for strs k (index cp ! k)"
    using assms k by (auto simp: readable_def strs_def Let_def)
  have "pool cp = flat strs @ drop (length (flat strs)) (pool cp)" using r(3) by (metis append_take_drop_id)
  then have c: "cstring_at (pool cp) (nat (string_start strs k)) = Some (strs ! k)" using cstring_at_flat [OF r(1) k(2)] by metis
  have u: "untag (string_start strs k) = string_start strs k" "0 \<le> string_start strs k"
    using string_start_bound [OF k(2)] r(2) by (auto intro: untag_small)
  let ?cp = "cp\<lparr>index := (index cp)[k := Interned (strs ! k)]\<rparr>"
  have s: "const_strings ?cp = strs" by (simp add: const_strings_def strs_def)
  have "stands_for strs j ((index cp)[k := Interned (strs ! k)] ! j)" if "j < length strs" for j
    using that assms r(5) by (cases "j = k") (auto simp: readable_def Let_def strs_def [symmetric] stands_for_def)
  then have rd: "readable ?cp" using assms unfolding readable_def s Let_def by (simp add: strs_def [symmetric])
  show ?thesis
  proof (cases "index cp ! k = Interned (strs ! k)")
    case True
    with k r(4,5) assms show ?thesis
      by (auto simp: ejsCreateStringFromConst_def mem_read_def strs_def [symmetric] intro!: exI [of _ "index cp"])
  next
    case False
    then have "index cp ! k = Offset (string_start strs k)" using r(6) by (simp add: stands_for_def)
    then have "ejsCreateStringFromConst cp i = Some (Some (strs ! k), ?cp)"
      using k r(4,5) u c by (simp add: ejsCreateStringFromConst_def mem_read_def mem_write_def)
    then show ?thesis using rd k by (auto simp: strs_def [symmetric])
  qed
qed

text \<open>
  While a module is compiled the table of the constants has every string with its index, and the pool
  and the index have the sizes that are noted for them.
\<close>

definition compiling_ok :: "constants \<Rightarrow> bool" where
  "compiling_ok cp \<longleftrightarrow> readable cp \<and> \<not> locked cp \<and> distinct (const_strings cp)
     \<and> poolLength cp = int (length (flat (const_strings cp))) \<and> poolSize cp = int (length (pool cp)) \<and> indexSize cp = int (length (index cp))
     \<and> (\<exists>t. table cp = Some t \<and> (\<forall>s i. t s = Some i \<longleftrightarrow> 0 \<le> i \<and> i < int (length (const_strings cp)) \<and> const_strings cp ! nat i = s))"

lemma grow_constants_ok:
  assumes "heap ejs = (\<lambda>_. True)" and "0 < len" and "0 \<le> poolLength cp" and "poolLength cp \<le> poolSize cp"
    and "poolSize cp = int (length (pool cp))" and "indexSize cp = int (length (index cp))"
    and "indexCount cp \<le> indexSize cp"
  shows "\<exists>p idx. ejsGrowConstants ejs cp len
      = (0, cp\<lparr>poolSize := int (length (pool cp @ p)), pool := pool cp @ p, index := index cp @ idx, indexSize := int (length (index cp @ idx))\<rparr>)
     \<and> poolLength cp + len \<le> int (length (pool cp @ p)) \<and> indexCount cp < int (length (index cp @ idx))"
proof -
  define grows where "grows = (poolLength cp + len \<ge> poolSize cp)"
  define n where "n = (poolSize cp + len + EC_BUFSIZE - 1) div EC_BUFSIZE * EC_BUFSIZE"
  define m where "m = (indexCount cp + EJS_INDEX_INCR) div EJS_INDEX_INCR * EJS_INDEX_INCR"
  define p where "p = (if grows then replicate (nat n - length (pool cp)) (0 :: byte) else [])"
  define idx where "idx = (if indexCount cp \<ge> indexSize cp then replicate (nat m - length (index cp)) Unset else [])"
  have n: "poolSize cp + len \<le> n" using minus_mod_eq_div_mult [of "poolSize cp + len + EC_BUFSIZE - 1" EC_BUFSIZE]
    by (simp add: n_def EC_BUFSIZE_def minus_mod_eq_div_mult [symmetric])
  have m: "indexCount cp < m" by (simp add: m_def EJS_INDEX_INCR_def minus_mod_eq_div_mult [symmetric])
  have lp: "int (length (pool cp @ p)) = (if grows then n else poolSize cp)" using n assms(2,5) by (simp add: p_def)
  have li: "int (length (index cp @ idx)) = (if indexCount cp \<ge> indexSize cp then m else indexSize cp)" using m assms(6,7) by (simp add: idx_def)
  have "ejsGrowConstants ejs cp len
      = (0, cp\<lparr>poolSize := int (length (pool cp @ p)), pool := pool cp @ p, index := index cp @ idx, indexSize := int (length (index cp @ idx))\<rparr>)"
    unfolding lp li unfolding ejsGrowConstants_def Let_def p_def idx_def grows_def [symmetric] n_def [symmetric] m_def [symmetric]
    using assms(1) by (auto simp: m_def [symmetric])
  moreover have "poolLength cp + len \<le> int (length (pool cp @ p))" using n assms(2,4) unfolding lp by (auto simp: grows_def)
  moreover have "indexCount cp < int (length (index cp @ idx))" using m unfolding li by auto
  ultimately show ?thesis by blast
qed


lemma compiling_ok_facts:
  assumes "compiling_ok cp"
  defines "strs \<equiv> const_strings cp"
  shows "\<forall>s \<in> set strs. 0 \<notin> set s" "pool cp = flat strs @ drop (length (flat strs)) (pool cp)" "poolLength cp = int (length (flat strs))"
    "length (flat strs) \<le> length (pool cp)" "indexCount cp = int (length strs)" "length strs \<le> length (index cp)"
    "poolSize cp = int (length (pool cp))" "indexSize cp = int (length (index cp))" "distinct strs" "\<not> locked cp"
    "\<And>i. i < length strs \<Longrightarrow> stands_for strs i (index cp ! i)"
  using assms append_take_drop_id [of "length (flat strs)" "pool cp"]
  unfolding compiling_ok_def readable_def strs_def Let_def by auto

lemma const_strings_pool:
  "\<forall>s \<in> set strs. 0 \<notin> set s \<Longrightarrow> pool cp = flat strs @ junk \<Longrightarrow> poolLength cp = int (length (flat strs)) \<Longrightarrow> const_strings cp = strs"
  by (simp add: const_strings_def)

lemma ejsAddConstant_ok:
  assumes heap: "heap ejs = (\<lambda>_. True)" and ok: "compiling_ok cp" and s: "0 \<notin> set s" "s \<notin> set (const_strings cp)"
    and small: "int (length (flat (const_strings cp @ [s]))) < 2 ^ 30"
  shows "\<exists>cp'. ejsAddConstant ejs cp s = Some (int (length (const_strings cp)), cp') \<and> compiling_ok cp' \<and> const_strings cp' = const_strings cp @ [s]"
proof -
  define strs where "strs = const_strings cp"
  note f = compiling_ok_facts [OF ok, folded strs_def]
  obtain t where t: "table cp = Some t" "\<And>s i. t s = Some i \<longleftrightarrow> 0 \<le> i \<and> i < int (length strs) \<and> strs ! nat i = s"
    using ok by (auto simp: compiling_ok_def strs_def)
  obtain p idx where g: "ejsGrowConstants ejs cp (int (length s) + 1)
      = (0, cp\<lparr>poolSize := int (length (pool cp @ p)), pool := pool cp @ p, index := index cp @ idx, indexSize := int (length (index cp @ idx))\<rparr>)"
    "poolLength cp + (int (length s) + 1) \<le> int (length (pool cp @ p))" "indexCount cp < int (length (index cp @ idx))"
    using grow_constants_ok [OF heap, of "int (length s) + 1" cp] f by auto
  obtain junk where j: "pool cp @ p = flat strs @ junk" using f(2) by (metis append_assoc)
  have l: "length s + 1 \<le> length junk" using g(2) unfolding j f(3) by simp
  define idx' where "idx' = (index cp @ idx)[length strs := Offset (int (length (flat strs)))]"
  define junk' where "junk' = drop (length s + 1) junk"
  define cp' where "cp' = cp\<lparr>poolSize := int (length (flat (strs @ [s]) @ junk')), pool := flat (strs @ [s]) @ junk', poolLength := int (length (flat (strs @ [s]))),
     index := idx', indexSize := int (length idx'), indexCount := int (length (strs @ [s])), table := Some (t(s \<mapsto> int (length strs)))\<rparr>"
  have lj: "length (flat strs @ junk) = length (flat (strs @ [s]) @ junk')" using l by (simp add: junk'_def)
  have "mem_write_block (flat strs @ junk) (poolLength cp) (s @ [0]) = Some (flat (strs @ [s]) @ junk')"
    using write_behind [of "flat strs" junk "s @ [0]"] l f(3) by (simp add: junk'_def)
  moreover have "mem_write (index cp @ idx) (indexCount cp) (Offset (poolLength cp)) = Some idx'"
    using g(3) f(3,5) by (simp add: mem_write_def idx'_def)
  ultimately have run: "ejsAddConstant ejs cp s = Some (int (length strs), cp')"
    using f(3,5,10) g(1) j t(1) lj by (simp add: ejsAddConstant_def cp'_def Let_def idx'_def)
  have strs': "\<forall>s \<in> set (strs @ [s]). 0 \<notin> set s" using f(1) s(1) by auto
  have cs: "const_strings cp' = strs @ [s]" by (rule const_strings_pool [OF strs', of _ junk']) (simp_all add: cp'_def)
  have "stands_for (strs @ [s]) i (idx' ! i)" if "i < length (strs @ [s])" for i
    using that g(3) f(5,6) f(11) [of i]
    by (cases "i = length strs") (auto simp: idx'_def stands_for_def nth_append string_start_def)
  moreover have "length strs < length idx'" using g(3) f(5) by (simp add: idx'_def)
  ultimately have rd: "readable cp'"
    unfolding readable_def cs Let_def using strs' small by (simp add: cp'_def strs_def [symmetric])
  have tab: "(t(s \<mapsto> int (length strs))) r = Some i \<longleftrightarrow> 0 \<le> i \<and> i < int (length (strs @ [s])) \<and> (strs @ [s]) ! nat i = r" for r i
  proof (cases "i = int (length strs)")
    case True
    then show ?thesis using t(2) [of r i] by auto
  next
    case False
    have "nat i < length strs \<Longrightarrow> strs ! nat i \<noteq> s" using s(2) unfolding strs_def [symmetric] by (metis nth_mem)
    then show ?thesis using False t(2) [of r i] by (auto simp: nth_append)
  qed
  have "compiling_ok cp'" unfolding compiling_ok_def cs using rd f(9,10) s(2) tab
    by (auto simp: cp'_def strs_def [symmetric])
  with run cs show ?thesis by (simp add: strs_def [symmetric])
qed


datatype const_call = AddConst bytes | GetConst int
datatype const_answer = Index int | Text "bytes option"

fun const_run :: "ejs \<Rightarrow> const_call \<Rightarrow> constants \<Rightarrow> (const_answer \<times> constants) option" where
  "const_run ejs (AddConst s) cp = map_option (\<lambda>(i, cp). (Index i, cp)) (ecAddModuleConstant ejs cp s)"
| "const_run ejs (GetConst i) cp = map_option (\<lambda>(s, cp). (Text s, cp)) (ejsCreateStringFromConst cp i)"

fun const_spec :: "const_call \<Rightarrow> bytes list \<Rightarrow> const_answer \<times> bytes list" where
  "const_spec (AddConst s) strs =
     (Index (int (length (takeWhile (\<lambda>r. r \<noteq> s) strs))), if s \<in> set strs then strs else strs @ [s])"
| "const_spec (GetConst i) strs = (Text (if 0 \<le> i \<and> i < int (length strs) then Some (strs ! nat i) else None), strs)"

fun const_valid :: "const_call \<Rightarrow> bytes list \<Rightarrow> bool" where
  "const_valid (AddConst s) strs \<longleftrightarrow> 0 \<notin> set s \<and> length (flat strs) + length s + 1 < 2 ^ 30"
| "const_valid (GetConst i) strs \<longleftrightarrow> True"

lemma takeWhile_index: "distinct xs \<Longrightarrow> i < length xs \<Longrightarrow> length (takeWhile (\<lambda>r. r \<noteq> xs ! i) xs) = i"
proof -
  assume d: "distinct xs" and i: "i < length xs"
  have "takeWhile (\<lambda>r. r \<noteq> xs ! i) (take i xs @ xs ! i # drop (Suc i) xs) = take i xs"
    using d i by (subst takeWhile_append2) (auto simp: in_set_conv_nth nth_eq_iff_index_eq)
  with i show ?thesis by (simp add: id_take_nth_drop [symmetric])
qed

lemma ecAddModuleConstant_ok:
  assumes "heap ejs = (\<lambda>_. True)" and ok: "compiling_ok cp" and "const_valid (AddConst s) (const_strings cp)"
  shows "\<exists>cp'. ecAddModuleConstant ejs cp s = Some (int (length (takeWhile (\<lambda>r. r \<noteq> s) (const_strings cp))), cp') \<and> compiling_ok cp'
     \<and> const_strings cp' = snd (const_spec (AddConst s) (const_strings cp))"
proof -
  define strs where "strs = const_strings cp"
  obtain t where t: "table cp = Some t" "\<And>s i. t s = Some i \<longleftrightarrow> 0 \<le> i \<and> i < int (length strs) \<and> strs ! nat i = s"
    using ok by (auto simp: compiling_ok_def strs_def)
  show ?thesis
  proof (cases "s \<in> set strs")
    case True
    then obtain i where i: "i < length strs" "strs ! i = s" by (auto simp: in_set_conv_nth)
    then have "t s = Some (int i)" by (simp add: t(2))
    moreover have "length (takeWhile (\<lambda>r. r \<noteq> s) strs) = i"
      using takeWhile_index [OF compiling_ok_facts(9) [OF ok], folded strs_def, OF i(1)] i(2) by simp
    ultimately show ?thesis using True ok t(1) by (simp add: ecAddModuleConstant_def strs_def [symmetric])
  next
    case False
    have none: "t s = None"
    proof (cases "t s")
      case (Some i)
      then show ?thesis using t(2) [of s i] False by (auto simp: in_set_conv_nth) (metis nat_less_iff)
    qed
    have len: "length (takeWhile (\<lambda>r. r \<noteq> s) strs) = length strs" using False by (metis (mono_tags, lifting) takeWhile_eq_all_conv)
    obtain cp' where c: "ejsAddConstant ejs cp s = Some (int (length strs), cp')" "compiling_ok cp'" "const_strings cp' = strs @ [s]"
      using ejsAddConstant_ok [OF assms(1,2), of s] assms(3) False by (auto simp: strs_def [symmetric])
    obtain t' where t': "table cp' = Some t'" "t' s = Some (int (length strs))"
      using c(2) unfolding compiling_ok_def c(3) by auto
    have "cp'\<lparr>table := map_option (\<lambda>t. t(s \<mapsto> int (length strs))) (table cp')\<rparr> = cp'"
      using t' by (cases cp') (auto simp: fun_upd_idem)
    with c False none t(1) len show ?thesis by (simp add: ecAddModuleConstant_def strs_def [symmetric])
  qed
qed

interpretation const_calls: simulation compiling_ok const_strings const_valid "const_run \<lparr>exception = e, heap = (\<lambda>_. True)\<rparr>" const_spec
  for e
proof unfold_locales
  fix cp c
  assume ok: "compiling_ok cp" and v: "const_valid c (const_strings cp)"
  let ?ejs = "\<lparr>exception = e, heap = (\<lambda>_. True)\<rparr> :: ejs"
  show "\<exists>cp'. const_run ?ejs c cp = Some (fst (const_spec c (const_strings cp)), cp') \<and> compiling_ok cp'
      \<and> const_strings cp' = snd (const_spec c (const_strings cp))"
  proof (cases c)
    case (AddConst s)
    then show ?thesis using ecAddModuleConstant_ok [of ?ejs cp s] ok v by auto
  next
    case (GetConst i)
    have "readable cp" using ok by (simp add: compiling_ok_def)
    from ejsCreateStringFromConst_ok [OF this, of i] obtain idx where
      c: "ejsCreateStringFromConst cp i
        = Some (if 0 \<le> i \<and> i < int (length (const_strings cp)) then Some (const_strings cp ! nat i) else None, cp\<lparr>index := idx\<rparr>)"
      "readable (cp\<lparr>index := idx\<rparr>)" "length idx = length (index cp)" by blast
    then have "compiling_ok (cp\<lparr>index := idx\<rparr>)" using ok unfolding compiling_ok_def by simp
    with c GetConst show ?thesis by auto
  qed
qed

lemma new_constants_ok:
  "heap ejs = (\<lambda>_. True) \<Longrightarrow> 0 \<le> n \<Longrightarrow>
     \<exists>cp. ejsCreateConstants ejs True 0 n None = Some (0, cp) \<and> compiling_ok cp \<and> const_strings cp = []"
  by (simp add: ejsCreateConstants_def no_constants_def compiling_ok_def readable_def const_strings_def)

text \<open>Loading a pool: every string gets an entry, as long as the index has room for it.\<close>

lemma string_start_Cons [simp]: "string_start (s # strs) (Suc k) = int (length s) + 1 + string_start strs k" "string_start strs 0 = 0"
  by (simp_all add: string_start_def)

lemma fill_index_flat:
  assumes "\<forall>s \<in> set strs. 0 \<notin> set s"
  shows "fill_index (pre @ flat strs) (int (length (pre @ flat strs))) (length pre) (length filled) (filled @ free) =
     (if length strs \<le> length free
      then Some (filled @ map (\<lambda>k. Offset (int (length pre) + string_start strs k)) [0..<length strs] @ drop (length strs) free) else None)"
  using assms
proof (induction strs arbitrary: pre filled free)
  case Nil
  then show ?case by (simp add: fill_index.simps)
next
  case (Cons s strs)
  let ?p = "pre @ s @ 0 # flat strs"
  have "takeWhile (\<lambda>b. b \<noteq> 0) (s @ 0 # flat strs) = s" using Cons.prems by (intro takeWhile_null) simp
  then have c: "cstring_at ?p (length pre) = Some s" by (simp add: cstring_at_def)
  show ?case
  proof (cases free)
    case Nil
    then show ?thesis by (simp add: fill_index.simps [of _ _ "length pre"] mem_write_def)
  next
    case (Cons f fs)
    have "fill_index ?p (int (length ?p)) (length pre) (length filled) (filled @ free)
        = fill_index ((pre @ s @ [0]) @ flat strs) (int (length ((pre @ s @ [0]) @ flat strs))) (length (pre @ s @ [0]))
            (length (filled @ [Offset (int (length pre))])) ((filled @ [Offset (int (length pre))]) @ fs)"
      using c by (simp add: fill_index.simps [of _ _ "length pre"] mem_write_def Cons)
    also have "\<dots> = (if length strs \<le> length fs
      then Some ((filled @ [Offset (int (length pre))]) @ map (\<lambda>k. Offset (int (length (pre @ s @ [0])) + string_start strs k)) [0..<length strs]
          @ drop (length strs) fs) else None)"
      by (rule Cons.IH) (use Cons.prems in auto)
    finally show ?thesis by (simp add: Cons upt_conv_Cons map_Suc_upt [symmetric] del: upt_Suc)
  qed
qed


lemma load_constants:
  assumes "heap ejs = (\<lambda>_. True)" and "\<forall>s \<in> set strs. 0 \<notin> set s" and "int (length (flat strs)) < 2 ^ 30" and "strs \<noteq> []"
  shows "\<exists>cp. ejsCreateConstants ejs compiling (int (length strs)) (int (length (flat strs))) (Some (flat strs)) = Some (0, cp)
     \<and> readable cp \<and> const_strings cp = strs"
proof -
  define idx where "idx = map (\<lambda>k. Offset (string_start strs k)) [0..<length strs]"
  have "fill_index (flat strs) (int (length (flat strs))) 0 0 (replicate (length strs) Unset) = Some idx"
    using fill_index_flat [OF assms(2), of "[]" "[]" "replicate (length strs) Unset"] by (simp add: idx_def)
  then obtain cp where cp: "ejsCreateConstants ejs compiling (int (length strs)) (int (length (flat strs))) (Some (flat strs)) = Some (0, cp)"
    "pool cp = flat strs" "poolLength cp = int (length (flat strs))" "index cp = idx" "indexCount cp = int (length strs)"
    using assms(1,4) by (simp add: ejsCreateConstants_def Let_def)
  have cs: "const_strings cp = strs" using const_strings_pool [OF assms(2), of cp "[]"] cp by simp
  have "readable cp" unfolding readable_def cs Let_def using assms(2,3) cp by (simp add: idx_def stands_for_def)
  with cp(1) cs show ?thesis by blast
qed

lemma flat_nonempty: "strs \<noteq> [] \<Longrightarrow> 0 < length (flat strs)"
  by (cases strs) auto

text \<open>
  Property C20. The constant pool of a module that is being compiled is a list of distinct strings: adding a
  string returns its index and adds it behind the others unless it is there already, an index gives
  its string, however often the pool and the index have been moved to larger blocks, and no
  access leaves a block.
\<close>

theorem constants_refine_list:
  assumes "heap ejs = (\<lambda>_. True)" and "0 \<le> n" and "valid_script const_valid const_spec calls []"
  shows "\<exists>cp cp'. ejsCreateConstants ejs True 0 n None = Some (0, cp)
     \<and> run_script (const_run ejs) calls cp = Some (fst (spec_script const_spec calls []), cp')
     \<and> const_strings cp' = snd (spec_script const_spec calls []) \<and> distinct (const_strings cp')"
proof -
  obtain e where e: "ejs = \<lparr>exception = e, heap = (\<lambda>_. True)\<rparr>" using assms(1) by (cases ejs) auto
  obtain cp where cp: "ejsCreateConstants ejs True 0 n None = Some (0, cp)" "compiling_ok cp" "const_strings cp = []"
    using new_constants_ok [OF assms(1,2)] by blast
  with const_calls.script_refines [of cp calls e] assms(3) e show ?thesis by (auto simp: compiling_ok_def)
qed

theorem constants_refine_list_witness:
  "\<exists>cp cp'. ejsCreateConstants \<lparr>exception = None, heap = (\<lambda>_. True)\<rparr> True 0 2 None = Some (0, cp)
     \<and> run_script (const_run \<lparr>exception = None, heap = (\<lambda>_. True)\<rparr>) [AddConst [7], AddConst [], AddConst [7], GetConst 1, GetConst 2] cp
         = Some ([Index 0, Index 1, Index 0, Text (Some []), Text None], cp')
     \<and> const_strings cp' = [[7], []] \<and> distinct (const_strings cp')"
  using constants_refine_list [of "\<lparr>exception = None, heap = (\<lambda>_. True)\<rparr>" 2 "[AddConst [7], AddConst [], AddConst [7], GetConst 1, GetConst 2]"]
  by simp

text \<open>
  A pool that has more strings than the file says makes the loader write behind the index.
\<close>

theorem load_overruns_index:
  assumes "\<forall>s \<in> set strs. 0 \<notin> set s" and "0 < count" and "count < int (length strs)" and "heap ejs = (\<lambda>_. True)"
  shows "ejsCreateConstants ejs compiling count (int (length (flat strs))) (Some (flat strs)) = None"
  using fill_index_flat [OF assms(1), of "[]" "[]" "replicate (nat count) Unset"] assms(2-4) by (simp add: ejsCreateConstants_def Let_def)

section \<open>The encoders append to the code\<close>

text \<open>
  The code buffer starts with 4096 bytes and grows by at least its increment, which never shrinks, so
  that one round of growing makes room for any number.
\<close>

definition code_ok :: "code_gen \<Rightarrow> bool" where
  "code_ok cp \<longleftrightarrow> buf_ok (cbuf cp) \<and> 10 \<le> growBy (cbuf cp)"

definition code_bytes :: "code_gen \<Rightarrow> bytes" where
  "code_bytes cp = buf_contents (cbuf cp)"

lemma grow_increment:
  assumes "buf_ok bp" and "mprGrowBuf ejs bp need = Some (rc, bp')"
  shows "growBy bp \<le> growBy bp'"
  using assms by (auto simp: mprGrowBuf_def buf_ok_def Let_def split: if_splits)

lemma grow_once:
  assumes "buf_ok bp" and "heap ejs = (\<lambda>_. True)"
  shows "\<exists>bp'. mprGrowBuf ejs bp (-1) = Some (0, bp') \<and> buf_ok bp' \<and> buf_contents bp' = buf_contents bp
     \<and> bend bp' = bend bp \<and> buflen bp' = buflen bp + growBy bp"
proof -
  have g: "0 < growBy bp" "maxsize bp \<le> 0" "\<not> bstart bp > bend bp" "0 \<le> buflen bp" using assms(1) by (auto simp: buf_ok_def)
  have "mprGrowBuf ejs bp (-1) = mprGrowBuf ejs bp (growBy bp)" using g by (simp add: mprGrowBuf_def)
  with mprGrowBuf_ok [OF assms g(1)] obtain bp' where bp': "mprGrowBuf ejs bp (-1) = Some (0, bp')" "buf_ok bp'" "buf_contents bp' = buf_contents bp"
    "bend bp' = bend bp" by auto
  moreover have "buflen bp' = buflen bp + growBy bp" using bp'(1) g assms(2) by (auto simp: mprGrowBuf_def Let_def split: if_splits)
  ultimately show ?thesis by blast
qed

lemma reserveRoom_ok:
  assumes "code_ok cp" and "heap ejs = (\<lambda>_. True)"
  shows "\<exists>cp'. reserveRoom ejs cp room = Some (0, cp') \<and> code_ok cp' \<and> code_bytes cp' = code_bytes cp \<and> fatalError cp' = fatalError cp
     \<and> (room \<le> 10 \<longrightarrow> room \<le> mprGetBufSpace (cbuf cp'))"
proof (cases "mprGetBufSpace (cbuf cp) < room")
  case True
  have b: "buf_ok (cbuf cp)" "10 \<le> growBy (cbuf cp)" using assms(1) by (auto simp: code_ok_def)
  obtain bp where g: "mprGrowBuf ejs (cbuf cp) (-1) = Some (0, bp)" "buf_ok bp" "buf_contents bp = buf_contents (cbuf cp)"
    "bend bp = bend (cbuf cp)" "buflen bp = buflen (cbuf cp) + growBy (cbuf cp)" using grow_once [OF b(1) assms(2)] by blast
  have "10 \<le> growBy bp" "10 \<le> mprGetBufSpace bp" using grow_increment [OF b(1) g(1)] b g(4,5) by (auto simp: mprGetBufSpace_def buf_ok_def)
  with True g show ?thesis by (auto simp: reserveRoom_def code_ok_def code_bytes_def)
qed (use assms in \<open>auto simp: reserveRoom_def\<close>)

lemma emit_ok:
  assumes "code_ok cp" and "heap ejs = (\<lambda>_. True)" and "room \<le> 10" and "int (length bs) \<le> room"
  shows "\<exists>cp'. emit ejs room bs cp = Some cp' \<and> code_ok cp' \<and> code_bytes cp' = code_bytes cp @ bs \<and> fatalError cp' = fatalError cp"
proof -
  obtain cp1 where r: "reserveRoom ejs cp room = Some (0, cp1)" "code_ok cp1" "code_bytes cp1 = code_bytes cp" "fatalError cp1 = fatalError cp"
    "room \<le> mprGetBufSpace (cbuf cp1)" using reserveRoom_ok [OF assms(1,2), of room] assms(3) by auto
  have "buf_ok (cbuf cp1)" "int (length bs) \<le> mprGetBufSpace (cbuf cp1)" using r assms(4) by (auto simp: code_ok_def)
  moreover from this have "mprAdjustBufEnd ((cbuf cp1)\<lparr>bdata := d\<rparr>) (int (length bs)) = (cbuf cp1)\<lparr>bdata := d, bend := bend (cbuf cp1) + int (length bs)\<rparr>" for d
    by (simp add: mprAdjustBufEnd_def mprGetBufSpace_def buf_ok_def)
  ultimately show ?thesis using write_end [of "cbuf cp1" bs] r by (auto simp: emit_def code_ok_def code_bytes_def)
qed

lemma put_rounds_increment:
  "put_rounds fuel ejs bp str n = Some (k, bp') \<Longrightarrow> buf_ok bp \<Longrightarrow> heap ejs = (\<lambda>_. True) \<Longrightarrow> growBy bp \<le> growBy bp'"
proof (induction fuel arbitrary: bp str n)
  case (Suc fuel)
  show ?case
  proof (cases "str = []")
    case False
    let ?need = "int (length str)"
    define small where "small = (min (mprGetBufSpace bp) ?need \<le> 0)"
    have need: "0 < ?need" using False by simp
    obtain bp1 where g: "(if small then mprGrowBuf ejs bp ?need else Some (0, bp)) = Some (0, bp1)" "buf_ok bp1" "growBy bp \<le> growBy bp1"
      using mprGrowBuf_ok [OF Suc.prems(2,3) need] grow_increment [OF Suc.prems(2)] Suc.prems(2) by (cases small) auto
    define k1 where "k1 = min (mprGetBufSpace bp1) ?need"
    have k1: "0 \<le> k1" "int (length (take (nat k1) str)) = k1" using g(2) by (auto simp: k1_def mprGetBufSpace_def buf_ok_def)
    then have "int (length (take (nat k1) str)) \<le> mprGetBufSpace bp1" by (simp add: k1_def)
    from write_end [OF g(2) this] obtain d where d: "mem_write_block (bdata bp1) (bend bp1) (take (nat k1) str) = Some d"
      "buf_ok (bp1\<lparr>bdata := d, bend := bend bp1 + k1\<rparr>)" unfolding k1(2) by blast
    then have "put_rounds fuel ejs (bp1\<lparr>bdata := d, bend := bend bp1 + k1\<rparr>) (drop (nat k1) str) (n + k1) = Some (k, bp')"
      using Suc.prems(1) False g(1) by (simp add: small_def [symmetric] k1_def Let_def)
    from Suc.IH [OF this d(2) Suc.prems(3)] g(3) show ?thesis by simp
  qed (use Suc.prems in simp)
qed simp

lemma ecEncodeBlock_ok:
  assumes "code_ok cp" and "heap ejs = (\<lambda>_. True)"
  shows "\<exists>cp'. ecEncodeBlock ejs bs cp = Some cp' \<and> code_ok cp' \<and> code_bytes cp' = code_bytes cp @ bs \<and> fatalError cp' = fatalError cp"
proof -
  obtain cp1 where r: "reserveRoom ejs cp (int (length bs)) = Some (0, cp1)" "code_ok cp1" "code_bytes cp1 = code_bytes cp" "fatalError cp1 = fatalError cp"
    using reserveRoom_ok [OF assms, of "int (length bs)"] by auto
  have b: "buf_ok (cbuf cp1)" using r by (simp add: code_ok_def)
  obtain bp where p: "mprPutBlockToBuf ejs (cbuf cp1) bs = Some (int (length bs), bp)" "buf_ok bp" "buf_contents bp = buf_contents (cbuf cp1) @ bs"
    using mprPutBlockToBuf_ok [OF b assms(2)] by blast
  have "growBy (cbuf cp1) \<le> growBy bp"
    using p(1) put_rounds_increment [OF _ b assms(2)]
    by (auto simp: mprPutBlockToBuf_def null_behind_def mem_write_def bind_eq_Some_conv split: if_splits)
  with r p show ?thesis by (auto simp: ecEncodeBlock_def code_ok_def code_bytes_def)
qed


text \<open>An encoder that appends these bytes and changes nothing else that can be seen, and two of them in a row.\<close>

definition appends :: "(code_gen \<Rightarrow> code_gen option) \<Rightarrow> bytes \<Rightarrow> bool" where
  "appends f bs \<longleftrightarrow> (\<forall>cp. code_ok cp \<longrightarrow>
     (\<exists>cp'. f cp = Some cp' \<and> code_ok cp' \<and> code_bytes cp' = code_bytes cp @ bs \<and> fatalError cp' = fatalError cp))"

lemma appendsD:
  assumes "appends f bs" and "code_ok cp"
  obtains cp' where "f cp = Some cp'" "code_ok cp'" "code_bytes cp' = code_bytes cp @ bs" "fatalError cp' = fatalError cp"
  using assms unfolding appends_def by blast

lemma appends_bind: "appends f bs \<Longrightarrow> appends g cs \<Longrightarrow> appends (\<lambda>cp. Option.bind (f cp) g) (bs @ cs)"
  unfolding appends_def by fastforce

lemma appends_Some: "appends Some []"
  by (simp add: appends_def)

lemma appends_encode:
  assumes "heap ejs = (\<lambda>_. True)"
  shows "appends (ecEncodeByte ejs b) [word_of_int b]" "appends (ecEncodeNum ejs i) (ejsEncodeNum (word_of_int i))"
    "appends (ecEncodeBlock ejs bs) bs"
    "\<bar>i\<bar> \<le> EJS_ENCODE_MAX_WORD \<Longrightarrow> appends (ecEncodeInt32 ejs i) (fst (ejsEncodeInt32 (replicate 4 0) i))"
  using emit_ok [OF _ assms] ecEncodeBlock_ok [OF _ assms] length_encoded length_encode_int32
  unfolding appends_def ecEncodeByte_def ecEncodeNum_def ecEncodeInt32_def by auto

lemma appends_multi:
  assumes "heap ejs = (\<lambda>_. True)"
  shows "appends (ecEncodeWideAsMulti ejs s) (ejsEncodeNum (word_of_int (int (length (s @ [0])))) @ s @ [0])"
    "appends (ecEncodeMulti ejs s) (ejsEncodeNum (word_of_int (int (length (s @ [0])))) @ s @ [0])"
  using appends_bind [OF appends_encode(2,3) [OF assms], of "int (length (s @ [0]))" "s @ [0]"]
  unfolding ecEncodeWideAsMulti_def ecEncodeMulti_def by (simp_all add: add.commute)

lemma code_offset: "code_ok cp \<Longrightarrow> ecGetCodeOffset cp = int (length (code_bytes cp))"
  by (simp add: ecGetCodeOffset_def code_ok_def code_bytes_def length_buf_contents mprGetBufLength_def)

text \<open>Patching a number into the code.\<close>

lemma ecEncodeInt32AtPos_ok:
  assumes "code_ok cp" and "code_bytes cp = xs @ ys @ zs" and "length ys = 4" and "\<bar>i\<bar> \<le> EJS_ENCODE_MAX_WORD"
  shows "\<exists>cp'. ecEncodeInt32AtPos (int (length xs)) i cp = Some cp' \<and> code_ok cp' \<and> fatalError cp' = fatalError cp
     \<and> code_bytes cp' = xs @ fst (ejsEncodeInt32 (replicate 4 0) i) @ zs"
proof -
  define bp vs where "bp = cbuf cp" and "vs = fst (ejsEncodeInt32 (replicate 4 0) i)"
  have vs: "length vs = 4" using length_encode_int32 [OF assms(4)] by (simp add: vs_def)
  have b: "buf_ok bp" "buf_contents bp = xs @ ys @ zs" using assms(1,2) by (auto simp: code_ok_def code_bytes_def bp_def)
  obtain us ws where d: "bdata bp = us @ (xs @ ys @ zs) @ ws" "bstart bp = int (length us)" "bend bp = int (length us + length (xs @ ys @ zs))"
    "buflen bp = int (length us + length (xs @ ys @ zs) + length ws)"
    using buf_split [OF b(1)] b(2) by metis
  have w: "mem_write_block (bdata bp) (bstart bp + int (length xs)) vs = Some (us @ (xs @ vs @ zs) @ ws)"
    using write_behind [of "us @ xs" "ys @ zs @ ws" vs] d(1,2) vs assms(3) by simp
  let ?bp = "bp\<lparr>bdata := us @ (xs @ vs @ zs) @ ws\<rparr>"
  have "buf_ok ?bp" using b(1) d vs assms(3) by (auto simp: buf_ok_def)
  moreover have "buf_contents ?bp = xs @ vs @ zs" using d vs assms(3) by (simp add: buf_contents_def)
  ultimately show ?thesis using w assms(1,4) unfolding ecEncodeInt32AtPos_def bp_def [symmetric] vs_def [symmetric]
    by (simp add: code_ok_def code_bytes_def bp_def [symmetric])
qed


section \<open>Debug lines\<close>

definition line_bytes :: "line \<Rightarrow> bytes" where
  "line_bytes l = ejsEncodeNum (word_of_int (fst l)) @ ejsEncodeNum (word_of_int (int (length (snd l @ [0])))) @ snd l @ [0]"

definition line_fits :: "line \<Rightarrow> bool" where
  "line_fits l \<longleftrightarrow> \<bar>fst l\<bar> < 2 ^ 31 \<and> 0 \<notin> set (snd l) \<and> length (snd l) + 1 < 2 ^ 31"

definition debug_bytes :: "line list \<Rightarrow> bytes" where
  "debug_bytes ls = ejsEncodeNum (word_of_int (int (length ls))) @ concat (map line_bytes ls)"

lemma appends_lines: "heap ejs = (\<lambda>_. True) \<Longrightarrow> appends (encode_lines ejs ls) (concat (map line_bytes ls))"
proof (induction ls)
  case Nil
  then show ?case using appends_Some by (simp add: appends_def)
next
  case (Cons l ls)
  have "appends (\<lambda>cp. Option.bind (ecEncodeNum ejs (fst l) cp) (\<lambda>cp1. Option.bind (ecEncodeWideAsMulti ejs (snd l) cp1) (encode_lines ejs ls)))
     (ejsEncodeNum (word_of_int (fst l)) @ (ejsEncodeNum (word_of_int (int (length (snd l @ [0])))) @ snd l @ [0]) @ concat (map line_bytes ls))"
    by (intro appends_bind appends_encode appends_multi Cons)
  then show ?case by (simp add: appends_def line_bytes_def [of l])
qed

lemma read_multi_encoded:
  "length bs < 2 ^ 31 \<Longrightarrow> ejsModuleReadMulti \<lparr>mfile = ejsEncodeNum (word_of_int (int (length bs))) @ bs @ rest, hasError = False\<rparr>
     = Some (Some bs, \<lparr>mfile = rest, hasError = False\<rparr>)"
  by (simp add: ejsModuleReadMulti_def read_length_encoded ejsModuleReadBlock_def)

lemma read_lines_encoded:
  "list_all line_fits ls \<Longrightarrow> read_lines (length ls) \<lparr>mfile = concat (map line_bytes ls) @ rest, hasError = False\<rparr>
     = Some (ls, \<lparr>mfile = rest, hasError = False\<rparr>)"
proof (induction ls)
  case (Cons l ls)
  have "cstring_at (snd l @ [0]) 0 = Some (snd l)" using Cons.prems takeWhile_null [of "snd l" "[]"] by (simp add: cstring_at_def line_fits_def)
  moreover have "length (snd l @ [0]) < 2 ^ 31" "\<bar>fst l\<bar> < 2 ^ 31" using Cons.prems by (simp_all add: line_fits_def)
  note read_int_encoded [OF this(2), of _ False] read_multi_encoded [OF this(1)]
  ultimately show ?case using Cons
    by (simp add: line_bytes_def [of l] del: of_int_add of_int_of_nat_eq length_append)
qed simp

lemma loadDebug_encoded:
  assumes "heap ejs = (\<lambda>_. True)" and "list_all line_fits ls" and "length ls < 2 ^ 31"
  shows "\<exists>d. loadDebug ejs (Some (pre @ debug_bytes ls @ rest)) (int (length pre)) False = Some (Some d, False)
     \<and> numLines d = int (length ls) \<and> take (length ls) (lines d) = ls"
  using assms read_lines_encoded [OF assms(2), of rest]
    read_length_encoded [of 0 rest False]
  by (cases "ls = []") (simp_all add: loadDebug_def debug_bytes_def read_length_encoded ejsCreateDebug_def Let_def)

definition debug_section :: "line list \<Rightarrow> bytes" where
  "debug_section ls = fst (ejsEncodeInt32 (replicate 4 0) (int (length (debug_bytes ls)))) @ debug_bytes ls"

lemma createDebugSection_ok:
  assumes "heap ejs = (\<lambda>_. True)" and "code_ok cp" and "numLines d = int (length ls)" and "take (length ls) (lines d) = ls"
    and "int (length (debug_bytes ls)) \<le> EJS_ENCODE_MAX_WORD"
  shows "\<exists>cp'. createDebugSection ejs d cp = Some cp' \<and> code_ok cp' \<and> fatalError cp' = fatalError cp
     \<and> code_bytes cp' = code_bytes cp @ 3 # debug_section ls"
proof -
  have m: "\<bar>0\<bar> \<le> EJS_ENCODE_MAX_WORD" by (simp add: EJS_ENCODE_MAX_WORD_def)
  define z where "z = fst (ejsEncodeInt32 (replicate 4 0) 0)"
  have z: "length z = 4" using length_encode_int32 [OF m] by (simp add: z_def)
  obtain cp1 where 1: "ecEncodeByte ejs EJS_SECT_DEBUG cp = Some cp1" "code_ok cp1" "code_bytes cp1 = code_bytes cp @ [3]" "fatalError cp1 = fatalError cp"
    using appendsD [OF appends_encode(1) [OF assms(1), of EJS_SECT_DEBUG] assms(2)] by (auto simp: EJS_SECT_DEBUG_def)
  obtain cp2 where 2: "ecEncodeInt32 ejs 0 cp1 = Some cp2" "code_ok cp2" "code_bytes cp2 = code_bytes cp1 @ z" "fatalError cp2 = fatalError cp1"
    using appendsD [OF appends_encode(4) [OF assms(1) m] 1(2)] by (auto simp: z_def)
  obtain cp3 where 3: "ecEncodeNum ejs (numLines d) cp2 = Some cp3" "code_ok cp3" "code_bytes cp3 = code_bytes cp2 @ ejsEncodeNum (word_of_int (numLines d))"
    "fatalError cp3 = fatalError cp2"
    using appendsD [OF appends_encode(2) [OF assms(1)] 2(2)] by blast
  obtain cp4 where 4: "encode_lines ejs ls cp3 = Some cp4" "code_ok cp4" "code_bytes cp4 = code_bytes cp3 @ concat (map line_bytes ls)"
    "fatalError cp4 = fatalError cp3"
    using appendsD [OF appends_lines [OF assms(1)] 3(2)] by blast
  have b4: "code_bytes cp4 = code_bytes cp1 @ z @ debug_bytes ls" using 2(3) 3(3) 4(3) assms(3) by (simp add: debug_bytes_def)
  have o: "ecGetCodeOffset cp1 = int (length (code_bytes cp1))" "ecGetCodeOffset cp4 - ecGetCodeOffset cp2 = int (length (debug_bytes ls))"
    using code_offset 1(2) 2(2,3) 4(2) b4 by auto
  obtain cp5 where 5: "ecEncodeInt32AtPos (int (length (code_bytes cp1))) (int (length (debug_bytes ls))) cp4 = Some cp5" "code_ok cp5"
    "fatalError cp5 = fatalError cp4" "code_bytes cp5 = code_bytes cp1 @ debug_section ls"
    using ecEncodeInt32AtPos_ok [OF 4(2) b4 z, of "int (length (debug_bytes ls))"] assms(5) by (auto simp: debug_section_def)
  have "createDebugSection ejs d cp = Some cp5"
    using 1(1) 2(1) 3(1) 4(1) 5(1) o assms(3,4) by (simp add: createDebugSection_def Let_def)
  with 1 2 3 4 5 show ?thesis by simp
qed

lemma loadDebugSection_ok:
  assumes "int (length (debug_bytes ls)) \<le> EJS_ENCODE_MAX_WORD" and "int (length before) + 4 < 2 ^ 31"
  shows "loadDebugSection (before @ debug_section ls @ rest) code \<lparr>mfile = debug_section ls @ rest, hasError = False\<rparr>
       = Some (0, code\<lparr>debugOffset := int (length before + 4)\<rparr>, \<lparr>mfile = rest, hasError = False\<rparr>)"
proof -
  define z where "z = fst (ejsEncodeInt32 (replicate 4 0) (int (length (debug_bytes ls))))"
  have m: "\<bar>int (length (debug_bytes ls))\<bar> \<le> EJS_ENCODE_MAX_WORD" using assms(1) by simp
  have z: "length z = 4" using length_encode_int32 [OF m] by (simp add: z_def)
  have "ejsModuleReadInt32 \<lparr>mfile = debug_section ls @ rest, hasError = False\<rparr>
      = Some (int (length (debug_bytes ls)), \<lparr>mfile = debug_bytes ls @ rest, hasError = False\<rparr>)"
    using int32_field.get_put [OF m, of "debug_bytes ls @ rest"] by (simp add: debug_section_def)
  moreover have "length (debug_section ls) = 4 + length (debug_bytes ls)" using z by (simp add: debug_section_def z_def)
  ultimately show ?thesis using assms(2) z
    by (simp add: loadDebugSection_def Let_def c_int_id nat_add_distrib)
qed

text \<open>
  Property C22. The debug lines of a function come back from a module file: the compiler appends a section
  with the tag, the size and the lines to its code; the loader, wherever the section is in a file, notes
  the offset of the lines and goes on behind them; and loading from that offset gives the lines.
\<close>

theorem debug_section_roundtrip:
  assumes "heap ejs = (\<lambda>_. True)" and "code_ok cp"
    and "numLines d = int (length ls)" and "take (length ls) (lines d) = ls" and "list_all line_fits ls"
    and "int (length (debug_bytes ls)) \<le> EJS_ENCODE_MAX_WORD" and "length ls < 2 ^ 31" and "int (length before) + 4 < 2 ^ 31"
  shows "\<exists>cp' sect code' d'. createDebugSection ejs d cp = Some cp' \<and> code_bytes cp' = code_bytes cp @ 3 # sect \<and> fatalError cp' = fatalError cp
     \<and> loadDebugSection (before @ sect @ rest) code \<lparr>mfile = sect @ rest, hasError = False\<rparr>
       = Some (0, code', \<lparr>mfile = rest, hasError = False\<rparr>)
     \<and> loadDebug ejs (Some (before @ sect @ rest)) (debugOffset code') False = Some (Some d', False)
     \<and> numLines d' = numLines d \<and> take (length ls) (lines d') = ls"
proof -
  define z where "z = fst (ejsEncodeInt32 (replicate 4 0) (int (length (debug_bytes ls))))"
  have z: "length z = 4" using length_encode_int32 [of "int (length (debug_bytes ls))"] assms(6) by (simp add: z_def)
  have s: "before @ debug_section ls @ rest = (before @ z) @ debug_bytes ls @ rest" by (simp add: debug_section_def z_def)
  obtain d' where "loadDebug ejs (Some ((before @ z) @ debug_bytes ls @ rest)) (int (length (before @ z))) False = Some (Some d', False)"
    "numLines d' = int (length ls)" "take (length ls) (lines d') = ls"
    using loadDebug_encoded [OF assms(1,5,7), of "before @ z"] by blast
  then show ?thesis using createDebugSection_ok [OF assms(1-4,6)] loadDebugSection_ok [OF assms(6,8), of rest code] z assms(3)
    by (auto simp: s [symmetric] simp del: append_assoc)
qed


definition empty_code :: code_gen where
  "empty_code = \<lparr>cbuf = \<lparr>bdata = replicate 12 0, buflen = 12, bstart = 0, bend = 0, maxsize = 0, growBy = 12\<rparr>, fatalError = False\<rparr>"

lemma empty_code_ok: "code_ok empty_code" "code_bytes empty_code = []" "fatalError empty_code = False"
  by (simp_all add: empty_code_def code_ok_def buf_ok_def code_bytes_def buf_contents_def)

theorem debug_section_roundtrip_witness:
  "\<exists>cp' sect code' d'. createDebugSection \<lparr>exception = None, heap = (\<lambda>_. True)\<rparr> \<lparr>dsize = 3, numLines = 2, lines = [(0, [97]), (5, [98, 99]), (0, [])]\<rparr> empty_code = Some cp'
     \<and> code_bytes cp' = 3 # sect \<and> \<not> fatalError cp'
     \<and> loadDebugSection ([9, 9] @ sect @ [7]) \<lparr>cdebug = None, debugOffset = 0\<rparr> \<lparr>mfile = sect @ [7], hasError = False\<rparr>
       = Some (0, code', \<lparr>mfile = [7], hasError = False\<rparr>)
     \<and> loadDebug \<lparr>exception = None, heap = (\<lambda>_. True)\<rparr> (Some ([9, 9] @ sect @ [7])) (debugOffset code') False = Some (Some d', False)
     \<and> numLines d' = 2 \<and> take 2 (lines d') = [(0, [97]), (5, [98, 99])]"
proof -
  let ?ls = "[(0, [97]), (5, [98, 99])] :: line list"
  have "length (ejsEncodeNum a) + (length (ejsEncodeNum b) + (length (ejsEncodeNum c) + (length (ejsEncodeNum d) + length (ejsEncodeNum e)))) \<le> 50" for a b c d e
    using length_encoded [of a] length_encoded [of b] length_encoded [of c] length_encoded [of d] length_encoded [of e] by simp
  note this [of 2 0 2 5 3]
  then have "int (length (debug_bytes ?ls)) \<le> EJS_ENCODE_MAX_WORD"
    by (simp add: debug_bytes_def line_bytes_def EJS_ENCODE_MAX_WORD_def)
  then show ?thesis
    using debug_section_roundtrip [of "\<lparr>exception = None, heap = (\<lambda>_. True)\<rparr>" empty_code
        "\<lparr>dsize = 3, numLines = 2, lines = [(0, [97]), (5, [98, 99]), (0, [])]\<rparr>" ?ls "[9, 9]" "[7]" "\<lparr>cdebug = None, debugOffset = 0\<rparr>"]
    by (simp add: empty_code_ok line_fits_def flip: numeral_2_eq_2)
qed

text \<open>Recording lines while code is generated, and finding the line of an instruction.\<close>

definition debug_ok :: "debug option \<Rightarrow> bool" where
  "debug_ok debugp \<longleftrightarrow> (case debugp of None \<Rightarrow> True
     | Some d \<Rightarrow> 0 \<le> numLines d \<and> numLines d \<le> dsize d \<and> dsize d = int (length (lines d)))"

definition debug_lines :: "debug option \<Rightarrow> line list" where
  "debug_lines debugp = (case debugp of None \<Rightarrow> [] | Some d \<Rightarrow> take (nat (numLines d)) (lines d))"

datatype debug_call = AddLine int bytes | GetLine int
datatype debug_answer = Added int | Line "line option"

fun debug_run :: "ejs \<Rightarrow> debug_call \<Rightarrow> debug option \<Rightarrow> (debug_answer \<times> debug option) option" where
  "debug_run ejs (AddLine off src) debugp = map_option (\<lambda>(rc, d). (Added rc, d)) (ejsAddDebugLine ejs debugp off src)"
| "debug_run ejs (GetLine pc) debugp =
     map_option (\<lambda>(l, code, err). (Line l, Option.bind code cdebug)) (ejsGetDebugLine ejs None False (Some \<lparr>cdebug = debugp, debugOffset = 0\<rparr>) pc)"

definition add_line :: "line \<Rightarrow> line list \<Rightarrow> line list" where
  "add_line l ls = (if ls \<noteq> [] \<and> fst (last ls) = fst l then butlast ls else ls) @ [l]"

fun debug_spec :: "debug_call \<Rightarrow> line list \<Rightarrow> debug_answer \<times> line list" where
  "debug_spec (AddLine off src) ls = (Added 0, add_line (off, src) ls)"
| "debug_spec (GetLine pc) ls =
     (Line (if ls = [] then None else Some (last (hd ls # takeWhile (\<lambda>l. fst l < pc) ls))), ls)"

lemma line_index_eq:
  "int n \<le> int (length ls) \<Longrightarrow> i \<le> n \<Longrightarrow>
     line_index ls (int n) off (int i) = Some (int (i + length (takeWhile (\<lambda>l. fst l \<le> off) (take (n - i) (drop i ls)))))"
proof (induction "n - i" arbitrary: i)
  case 0
  then show ?case by (simp add: line_index.simps)
next
  case (Suc k)
  then have i: "i < n" "i < length ls" by auto
  then have d: "take (n - i) (drop i ls) = ls ! i # take (n - Suc i) (drop (Suc i) ls)"
    by (simp add: Cons_nth_drop_Suc [symmetric] take_Cons' Suc_diff_Suc)
  have "line_index ls (int n) off (int i) = (if off < fst (ls ! i) then Some (int i) else line_index ls (int n) off (int (Suc i)))"
    using i by (subst line_index.simps) (simp add: mem_read_def add.commute)
  with Suc.hyps(1) [of "Suc i"] Suc.hyps(2) Suc.prems i show ?case by (simp add: d)
qed

lemma last_take: "0 < n \<Longrightarrow> n \<le> length xs \<Longrightarrow> last (take n xs) = xs ! (n - 1)"
  by (subst last_conv_nth) (auto simp: min_def)

lemma put_line_ok:
  fixes off :: int and src :: bytes
  assumes "0 \<le> numLines d" and "numLines d < dsize d" and "dsize d = int (length (lines d))"
  defines "same \<equiv> 0 < numLines d \<and> fst (lines d ! nat (numLines d - 1)) = off"
  defines "d' \<equiv> d\<lparr>lines := (lines d)[nat (if same then numLines d - 1 else numLines d) := (off, src)],
                   numLines := if same then numLines d else numLines d + 1\<rparr>"
  shows "debug_ok (Some d')" "debug_lines (Some d') = add_line (off, src) (debug_lines (Some d))"
proof -
  show "debug_ok (Some d')" using assms(1-3) by (auto simp: debug_ok_def d'_def)
  define n where "n = nat (numLines d)"
  have n: "numLines d = int n" "n < length (lines d)" using assms(1-3) by (auto simp: n_def)
  show "debug_lines (Some d') = add_line (off, src) (debug_lines (Some d))"
  proof (cases "same")
    case True
    then have "0 < n" "fst (lines d ! (n - 1)) = off" using n by (auto simp: same_def nat_diff_distrib)
    moreover from this have "take n ((lines d)[n - 1 := (off, src)]) = take (n - 1) (lines d) @ [(off, src)]"
      using n by (cases n) (simp_all add: take_Suc_conv_app_nth)
    ultimately show ?thesis using True n
      by (auto simp: debug_lines_def d'_def add_line_def last_take butlast_take nat_diff_distrib)
  next
    case False
    then have "\<not> (0 < n \<and> fst (last (take n (lines d))) = off)" using n by (auto simp: same_def last_take nat_diff_distrib)
    moreover have "take (Suc n) ((lines d)[n := (off, src)]) = take n (lines d) @ [(off, src)]"
      using n by (simp add: take_Suc_conv_app_nth)
    ultimately show ?thesis using False n by (auto simp: debug_lines_def d'_def add_line_def nat_add_distrib)
  qed
qed

lemma add_debug_line_ok:
  assumes "heap ejs = (\<lambda>_. True)" and "debug_ok debugp"
  shows "\<exists>d. ejsAddDebugLine ejs debugp off src = Some (0, d) \<and> debug_ok d \<and> debug_lines d = add_line (off, src) (debug_lines debugp)"
proof -
  obtain d where d: "(case debugp of None \<Rightarrow> ejsCreateDebug ejs 0 | Some d \<Rightarrow> Some d) = Some d" "debug_ok (Some d)" "debug_lines (Some d) = debug_lines debugp"
    using assms by (cases debugp) (auto simp: ejsCreateDebug_def EJS_DEBUG_INCR_def debug_ok_def debug_lines_def)
  define d2 where "d2 = (if numLines d \<ge> dsize d
     then d\<lparr>dsize := dsize d + EJS_DEBUG_INCR, lines := lines d @ replicate (nat (dsize d + EJS_DEBUG_INCR) - length (lines d)) (0, [])\<rparr> else d)"
  have d2: "0 \<le> numLines d2" "numLines d2 < dsize d2" "dsize d2 = int (length (lines d2))" "debug_lines (Some d2) = debug_lines (Some d)"
    using d(2) by (auto simp: d2_def debug_ok_def EJS_DEBUG_INCR_def debug_lines_def)
  have "ejsAddDebugLine ejs debugp off src =
      do { same \<leftarrow> (if numLines d2 > 0 then map_option (\<lambda>l. fst l = off) (mem_read (lines d2) (numLines d2 - 1)) else Some False);
           ls \<leftarrow> mem_write (lines d2) (if same then numLines d2 - 1 else numLines d2) (off, src);
           Some (0, Some (d2\<lparr>lines := ls, numLines := if same then numLines d2 else numLines d2 + 1\<rparr>)) }"
    unfolding ejsAddDebugLine_def d(1) d2_def using assms(1) by (cases "numLines d \<ge> dsize d") (simp_all add: Let_def cong: if_cong)
  moreover have "(if numLines d2 > 0 then map_option (\<lambda>l. fst l = off) (mem_read (lines d2) (numLines d2 - 1)) else Some False)
      = Some (0 < numLines d2 \<and> fst (lines d2 ! nat (numLines d2 - 1)) = off)" using d2(1-3) by (simp add: mem_read_def)
  moreover have "mem_write (lines d2) (if same then numLines d2 - 1 else numLines d2) (off, src)
      = Some ((lines d2)[nat (if same then numLines d2 - 1 else numLines d2) := (off, src)])" if "same \<Longrightarrow> 0 < numLines d2" for same
    using that d2(1-3) by (auto simp: mem_write_def)
  ultimately show ?thesis using put_line_ok [OF d2(1-3), of off src] d2(4) d(3) by simp
qed

lemma get_debug_line_ok:
  assumes "debug_ok debugp"
  shows "ejsGetDebugLine ejs None False (Some \<lparr>cdebug = debugp, debugOffset = 0\<rparr>) pc
      = Some (if debug_lines debugp = [] then None else Some (last (hd (debug_lines debugp) # takeWhile (\<lambda>l. fst l < pc) (debug_lines debugp))),
              Some \<lparr>cdebug = debugp, debugOffset = 0\<rparr>, False)"
proof (cases debugp)
  case (Some d)
  define n ls where "n = nat (numLines d)" and "ls = take n (lines d)"
  have n: "numLines d = int n" "n \<le> length (lines d)" using assms Some by (auto simp: debug_ok_def n_def)
  define tw where "tw = takeWhile (\<lambda>l. fst l < pc) ls"
  have tw: "line_index (lines d) (int n) (pc - 1) 0 = Some (int (length tw))"
    using line_index_eq [of n "lines d" 0 "pc - 1"] n by (simp add: tw_def ls_def zle_diff1_eq)
  have len: "length tw \<le> n" using n length_takeWhile_le [of "\<lambda>l. fst l < pc" ls] by (simp add: tw_def ls_def)
  have "last (hd ls # tw) = lines d ! (length tw - 1)" if "0 < n"
  proof (cases "tw = []")
    case True
    then show ?thesis using that n by (cases "lines d") (auto simp: ls_def)
  next
    case False
    then have "last tw = ls ! (length tw - 1)" by (simp add: last_conv_nth tw_def takeWhile_nth)
    moreover have "length tw - 1 < n" using False len by (cases tw) auto
    ultimately show ?thesis using False by (simp add: ls_def)
  qed
  moreover have "nat (int k - 1) = k - 1" for k :: nat by linarith
  ultimately show ?thesis using Some n tw len
    by (auto simp: ejsGetDebugLine_def debug_lines_def mem_read_def ls_def tw_def n_def [symmetric])
qed (simp add: ejsGetDebugLine_def debug_lines_def)

interpretation debug_calls: simulation debug_ok debug_lines "\<lambda>_ _. True" "debug_run \<lparr>exception = e, heap = (\<lambda>_. True)\<rparr>" debug_spec
  for e
proof unfold_locales
  fix d c
  assume ok: "debug_ok d"
  let ?ejs = "\<lparr>exception = e, heap = (\<lambda>_. True)\<rparr> :: ejs"
  show "\<exists>d'. debug_run ?ejs c d = Some (fst (debug_spec c (debug_lines d)), d') \<and> debug_ok d' \<and> debug_lines d' = snd (debug_spec c (debug_lines d))"
  proof (cases c)
    case (AddLine off src) then show ?thesis using add_debug_line_ok [of ?ejs d off src] ok by auto
  next
    case (GetLine pc) then show ?thesis using get_debug_line_ok [OF ok, of ?ejs pc] ok by simp
  qed
qed

text \<open>
  Lines recorded while code is generated: a line for the offset of the line before it
  replaces that one, and the line of a program counter is the last one of those, from the first on,
  that start before it, or the first line when there is none.
\<close>

theorem debug_lines_recorded:
  assumes "heap ejs = (\<lambda>_. True)"
  shows "\<exists>d. run_script (debug_run ejs) calls None = Some (fst (spec_script debug_spec calls []), d)
     \<and> debug_lines d = snd (spec_script debug_spec calls [])"
proof -
  obtain e where e: "ejs = \<lparr>exception = e, heap = (\<lambda>_. True)\<rparr>" using assms by (cases ejs) auto
  have "valid_script (\<lambda>_ _. True) debug_spec calls a" for a by (induction calls arbitrary: a) auto
  from debug_calls.script_refines [of None calls e] this e show ?thesis by (auto simp: debug_ok_def debug_lines_def)
qed

theorem debug_lines_recorded_witness:
  "\<exists>d. run_script (debug_run \<lparr>exception = None, heap = (\<lambda>_. True)\<rparr>) [AddLine 0 [97], AddLine 4 [98], AddLine 4 [99], GetLine 4, GetLine 5] None
      = Some ([Added 0, Added 0, Added 0, Line (Some (0, [97])), Line (Some (4, [99]))], d)
     \<and> debug_lines d = [(0, [97]), (4, [99])]"
  using debug_lines_recorded [of "\<lparr>exception = None, heap = (\<lambda>_. True)\<rparr>" "[AddLine 0 [97], AddLine 4 [98], AddLine 4 [99], GetLine 4, GetLine 5]"]
  by (simp add: add_line_def)

section \<open>Module sections\<close>

lemma flat_length_ge: "length strs \<le> length (flat strs)"
  by (induction strs) auto

lemma ecEncodeConst_ok:
  assumes "heap ejs = (\<lambda>_. True)" and "compiling_ok consts" and "const_valid (AddConst s) (const_strings consts)" and "code_ok cp"
  defines "i \<equiv> length (takeWhile (\<lambda>r. r \<noteq> s) (const_strings consts))"
  shows "\<exists>consts' cp'. ecEncodeConst ejs s consts cp = Some (consts', cp') \<and> compiling_ok consts' \<and> code_ok cp'
     \<and> const_strings consts' = snd (const_spec (AddConst s) (const_strings consts))
     \<and> code_bytes cp' = code_bytes cp @ ejsEncodeNum (word_of_int (int i)) \<and> fatalError cp' = fatalError cp"
proof -
  obtain consts' where 1: "ecAddModuleConstant ejs consts s = Some (int i, consts')" "compiling_ok consts'"
    "const_strings consts' = snd (const_spec (AddConst s) (const_strings consts))"
    using ecAddModuleConstant_ok [OF assms(1-3)] by (auto simp: i_def)
  obtain cp' where "ecEncodeNum ejs (int i) cp = Some cp'" "code_ok cp'" "code_bytes cp' = code_bytes cp @ ejsEncodeNum (word_of_int (int i))"
    "fatalError cp' = fatalError cp" using appendsD [OF appends_encode(2) [OF assms(1)] assms(4)] by blast
  with 1 show ?thesis by (simp add: ecEncodeConst_def)
qed

definition module_start :: "nat \<Rightarrow> int \<Rightarrow> bytes list \<Rightarrow> bytes" where
  "module_start i version strs = ejsEncodeNum (word_of_int (int i)) @ ejsEncodeNum (word_of_int version) @ fst (ejsEncodeInt32 (replicate 4 0) 0)
     @ ejsEncodeNum (word_of_int (int (length (flat strs)))) @ ejsEncodeNum (word_of_int (int (length strs))) @ flat strs"

lemma createModuleStart_ok:
  assumes heap: "heap ejs = (\<lambda>_. True)" and "compiling_ok consts" and "const_valid (AddConst name) (const_strings consts)" and "code_ok cp"
  defines "strs \<equiv> snd (const_spec (AddConst name) (const_strings consts))"
  shows "\<exists>consts' cp'. createModuleStart ejs name version consts cp = Some (consts', cp') \<and> locked consts' \<and> const_strings consts' = strs
     \<and> code_ok cp' \<and> fatalError cp' = fatalError cp
     \<and> code_bytes cp' = code_bytes cp @ 1 # module_start (length (takeWhile (\<lambda>r. r \<noteq> name) (const_strings consts))) version strs"
proof -
  have m: "\<bar>0\<bar> \<le> EJS_ENCODE_MAX_WORD" by (simp add: EJS_ENCODE_MAX_WORD_def)
  obtain cp1 where 1: "ecEncodeByte ejs EJS_SECT_MODULE cp = Some cp1" "code_ok cp1" "code_bytes cp1 = code_bytes cp @ [1]" "fatalError cp1 = fatalError cp"
    using appendsD [OF appends_encode(1) [OF heap, of EJS_SECT_MODULE] assms(4)] by (auto simp: EJS_SECT_MODULE_def)
  obtain c2 cp2 where 2: "ecEncodeConst ejs name consts cp1 = Some (c2, cp2)" "compiling_ok c2" "code_ok cp2" "const_strings c2 = strs"
    "code_bytes cp2 = code_bytes cp1 @ ejsEncodeNum (word_of_int (int (length (takeWhile (\<lambda>r. r \<noteq> name) (const_strings consts)))))"
    "fatalError cp2 = fatalError cp1"
    using ecEncodeConst_ok [OF assms(1-3) 1(2)] unfolding strs_def by blast
  note f = compiling_ok_facts [OF 2(2), unfolded 2(4)]
  have "length (flat strs) < 2 ^ 30" using 2(2,4) by (simp add: compiling_ok_def readable_def Let_def)
  then have c: "c_int (poolLength c2) = int (length (flat strs))" using f(3) by (simp add: c_int_id)
  have bs: "mem_read_block (pool c2) 0 (c_int (poolLength c2)) = Some (flat strs)"
    unfolding c mem_read_block_def using f(2,4) by (simp del: flat_simps) (metis append_eq_conv_conj)
  have "appends (\<lambda>cp. do { cp3 \<leftarrow> ecEncodeNum ejs version cp; cp4 \<leftarrow> ecEncodeInt32 ejs 0 cp3; cp5 \<leftarrow> ecEncodeNum ejs (poolLength c2) cp4;
      cp6 \<leftarrow> ecEncodeNum ejs (indexCount c2) cp5; ecEncodeBlock ejs (flat strs) cp6 })
    (ejsEncodeNum (word_of_int version) @ fst (ejsEncodeInt32 (replicate 4 0) 0) @ ejsEncodeNum (word_of_int (poolLength c2))
      @ ejsEncodeNum (word_of_int (indexCount c2)) @ flat strs)"
    by (intro appends_bind appends_encode heap m)
  from appendsD [OF this 2(3)] obtain cp' where 3: "do { cp3 \<leftarrow> ecEncodeNum ejs version cp2; cp4 \<leftarrow> ecEncodeInt32 ejs 0 cp3;
      cp5 \<leftarrow> ecEncodeNum ejs (poolLength c2) cp4; cp6 \<leftarrow> ecEncodeNum ejs (indexCount c2) cp5; ecEncodeBlock ejs (flat strs) cp6 } = Some cp'"
    "code_ok cp'" "fatalError cp' = fatalError cp2" "code_bytes cp' = code_bytes cp2 @ ejsEncodeNum (word_of_int version)
      @ fst (ejsEncodeInt32 (replicate 4 0) 0) @ ejsEncodeNum (word_of_int (poolLength c2)) @ ejsEncodeNum (word_of_int (indexCount c2)) @ flat strs"
    by blast
  have "createModuleStart ejs name version consts cp = Some (c2\<lparr>locked := True\<rparr>, cp')"
    using 1(1) 2(1) 3(1) bs by (auto simp: createModuleStart_def Let_def bind_eq_Some_conv)
  moreover have "const_strings (c2\<lparr>locked := True\<rparr>) = strs" using 2(4) by (simp add: const_strings_def)
  ultimately show ?thesis using 1(3,4) 2(5,6) 3(2,3,4) f(3,5) by (simp add: module_start_def)
qed

lemma loadModuleSection_ok:
  assumes "heap ejs = (\<lambda>_. True)" and "\<forall>s \<in> set strs. 0 \<notin> set s" and "int (length (flat strs)) \<le> EJS_MAX_POOL" and "\<bar>version\<bar> < 2 ^ 31" and "i < length strs"
  shows "\<exists>consts. loadModuleSection ejs compiling (module_start i version strs @ rest) = Some (Some (Some (strs ! i), version, 0, consts), rest)
     \<and> readable consts \<and> const_strings consts = strs"
proof -
  have len: "int (length (flat strs)) < 2 ^ 30" "length strs \<le> length (flat strs)" "strs \<noteq> []" "0 < length (flat strs)"
    using assms(3,5) flat_length_ge [of strs] flat_nonempty [of strs] by (auto simp: EJS_MAX_POOL_def)
  obtain cp where cp: "ejsCreateConstants ejs compiling (int (length strs)) (int (length (flat strs))) (Some (flat strs)) = Some (0, cp)"
    "readable cp" "const_strings cp = strs" using load_constants [OF assms(1,2) len(1,3)] by blast
  obtain idx where idx: "ejsCreateStringFromConst cp (int i) = Some (Some (strs ! i), cp\<lparr>index := idx\<rparr>)" "readable (cp\<lparr>index := idx\<rparr>)"
    using ejsCreateStringFromConst_ok [OF cp(2), of "int i"] cp(3) assms(5) by auto
  have m: "\<bar>0\<bar> \<le> EJS_ENCODE_MAX_WORD" by (simp add: EJS_ENCODE_MAX_WORD_def)
  note r = read_int_encoded [of "int i"] read_int_encoded [OF assms(4)] int32_field.get_put [OF m]
    read_int_encoded [of "int (length (flat strs))"] read_int_encoded [of "int (length strs)"]
  have "loadModuleSection ejs compiling (module_start i version strs @ rest) = Some (Some (Some (strs ! i), version, 0, cp\<lparr>index := idx\<rparr>), rest)"
    unfolding loadModuleSection_def module_start_def append_assoc
    using r assms len cp(1) idx(1) by (simp add: Let_def del: of_int_of_nat_eq)
  with idx(2) cp(3) show ?thesis by simp
qed


lemma spec_index:
  "i = length (takeWhile (\<lambda>r. r \<noteq> s) strs) \<Longrightarrow> ss = snd (const_spec (AddConst s) strs) \<Longrightarrow> i < length ss \<and> ss ! i = s"
proof (cases "s \<in> set strs")
  case True
  assume "i = length (takeWhile (\<lambda>r. r \<noteq> s) strs)" "ss = snd (const_spec (AddConst s) strs)"
  moreover from True have "length (takeWhile (\<lambda>r. r \<noteq> s) strs) < length strs"
    by (metis (mono_tags, lifting) length_takeWhile_le takeWhile_eq_all_conv takeWhile_eq_take le_neq_implies_less take_all order_refl)
  ultimately show ?thesis using True nth_length_takeWhile [of "\<lambda>r. r \<noteq> s" strs] by simp
next
  case False
  assume "i = length (takeWhile (\<lambda>r. r \<noteq> s) strs)" "ss = snd (const_spec (AddConst s) strs)"
  moreover from False have "takeWhile (\<lambda>r. r \<noteq> s) strs = strs" by (metis (mono_tags, lifting) takeWhile_eq_all_conv)
  ultimately show ?thesis using False by simp
qed

text \<open>
  Property C8. The start of a module section comes back from a module file: what the compiler appends to its
  code for the name, the version and the constants of a module is loaded, whatever follows it, as a
  module with this name and version and with constants that give the same string for every index.
  The compiler's constants are locked from then on.
\<close>

theorem module_section_roundtrip:
  assumes "heap ejs = (\<lambda>_. True)" and "compiling_ok consts" and "code_ok cp"
    and "const_valid (AddConst name) (const_strings consts)" and "\<bar>version\<bar> < 2 ^ 31"
    and "int (length (flat (snd (const_spec (AddConst name) (const_strings consts))))) \<le> EJS_MAX_POOL"
  shows "\<exists>consts' cp' sect loaded. createModuleStart ejs name version consts cp = Some (consts', cp') \<and> locked consts'
     \<and> fatalError cp' = fatalError cp \<and> code_bytes cp' = code_bytes cp @ 1 # sect
     \<and> loadModuleSection ejs compiling (sect @ rest) = Some (Some (Some name, version, 0, loaded), rest)
     \<and> (\<forall>i. map_option fst (ejsCreateStringFromConst loaded i)
           = Some (if 0 \<le> i \<and> i < int (length (const_strings consts')) then Some (const_strings consts' ! nat i) else None))"
proof -
  define strs i where "strs = snd (const_spec (AddConst name) (const_strings consts))" and "i = length (takeWhile (\<lambda>r. r \<noteq> name) (const_strings consts))"
  have i: "i < length strs" "strs ! i = name" using spec_index [OF i_def strs_def] by auto
  have nulls: "\<forall>s \<in> set strs. 0 \<notin> set s" using compiling_ok_facts(1) [OF assms(2)] assms(4) by (auto simp: strs_def)
  obtain loaded where l: "loadModuleSection ejs compiling (module_start i version strs @ rest) = Some (Some (Some name, version, 0, loaded), rest)"
    "readable loaded" "const_strings loaded = strs"
    using loadModuleSection_ok [OF assms(1) nulls assms(6) [folded strs_def] assms(5) i(1)] i(2) by blast
  have "map_option fst (ejsCreateStringFromConst loaded k) = Some (if 0 \<le> k \<and> k < int (length strs) then Some (strs ! nat k) else None)" for k
    using ejsCreateStringFromConst_ok [OF l(2), of k] l(3) by auto
  with createModuleStart_ok [OF assms(1,2,4,3), of version, folded strs_def i_def] l(1) show ?thesis by metis
qed

theorem module_section_roundtrip_witness:
  "\<exists>consts consts' cp' sect loaded. ejsCreateConstants \<lparr>exception = None, heap = (\<lambda>_. True)\<rparr> True 0 EC_BUFSIZE None = Some (0, consts)
     \<and> createModuleStart \<lparr>exception = None, heap = (\<lambda>_. True)\<rparr> [101, 106, 115] 2000005 consts empty_code = Some (consts', cp') \<and> locked consts'
     \<and> code_bytes cp' = 1 # sect
     \<and> loadModuleSection \<lparr>exception = None, heap = (\<lambda>_. True)\<rparr> False (sect @ [2]) = Some (Some (Some [101, 106, 115], 2000005, 0, loaded), [2])"
proof -
  let ?ejs = "\<lparr>exception = None, heap = (\<lambda>_. True)\<rparr> :: ejs"
  obtain cs where c: "ejsCreateConstants ?ejs True 0 EC_BUFSIZE None = Some (0, cs)" "compiling_ok cs" "const_strings cs = []"
    using new_constants_ok [of ?ejs EC_BUFSIZE] by (auto simp: EC_BUFSIZE_def)
  show ?thesis
    using module_section_roundtrip [of ?ejs cs empty_code "[101, 106, 115]" 2000005 False "[2]"] c empty_code_ok
    by (auto simp: EJS_MAX_POOL_def)
qed

section \<open>Versions of modules\<close>

definition acceptable :: "bytes \<Rightarrow> int \<Rightarrow> int \<Rightarrow> module \<Rightarrow> bool" where
  "acceptable name lo hi mp \<longleftrightarrow> mname mp = name \<and> (lo = 0 \<and> hi = 0 \<or> lo \<le> mversion mp \<and> (hi < 0 \<or> mversion mp \<le> hi))"

text \<open>The first one of those with the highest version.\<close>

definition highest :: "module list \<Rightarrow> module option" where
  "highest ms = (if ms = [] then None else Some (hd (filter (\<lambda>m. mversion m = Max (mversion ` set ms)) ms)))"

lemma highest_two:
  "mversion a < mversion b \<Longrightarrow> highest (a # b # ms) = highest (b # ms)"
  "mversion b \<le> mversion a \<Longrightarrow> highest (a # b # ms) = highest (a # ms)"
proof -
  have M: "Max (insert x (insert y A)) = Max (insert (max x y) A)" if "finite A" for x y :: int and A
    using that by (cases "A = {}") (auto simp: max.assoc)
  show "mversion a < mversion b \<Longrightarrow> highest (a # b # ms) = highest (b # ms)"
    using M [of "mversion ` set ms" "mversion a" "mversion b"] Max_ge [of "insert (mversion b) (mversion ` set ms)" "mversion b"]
    by (auto simp: highest_def max_def)
  assume le: "mversion b \<le> mversion a"
  then have "Max (mversion ` set (a # b # ms)) = Max (mversion ` set (a # ms))"
    using M [of "mversion ` set ms" "mversion a" "mversion b"] by (simp add: max_def)
  moreover have "mversion b = Max (mversion ` set (a # ms)) \<Longrightarrow> mversion a = Max (mversion ` set (a # ms))"
    using le Max_ge [of "mversion ` set (a # ms)" "mversion a"] by (intro antisym) auto
  ultimately show "highest (a # b # ms) = highest (a # ms)" unfolding highest_def by auto
qed

lemma best_module_highest:
  fixes name lo hi
  defines "ok \<equiv> \<lambda>m. (lo = 0 \<and> hi = 0 \<or> lo \<le> mversion m \<and> mversion m \<le> hi) \<and> mname m = name"
  shows "best_module name lo hi ms None = highest (filter ok ms)" "best_module name lo hi ms (Some b) = highest (b # filter ok ms)"
proof -
  have some: "best_module name lo hi ms (Some b) = highest (b # filter ok ms)" for b ms
  proof (induction ms arbitrary: b)
    case Nil
    then show ?case by (simp add: highest_def)
  next
    case (Cons m ms)
    have "best_module name lo hi (m # ms) (Some b) = best_module name lo hi ms (Some (if ok m \<and> mversion b < mversion m then m else b))"
      by (cases "ok m") (auto simp: ok_def)
    also have "\<dots> = highest (b # filter ok (m # ms))" unfolding Cons.IH using highest_two by auto
    finally show ?case .
  qed
  show "best_module name lo hi ms (Some b) = highest (b # filter ok ms)" by (rule some)
  show "best_module name lo hi ms None = highest (filter ok ms)"
  proof (induction ms)
    case Nil
    then show ?case by (simp add: highest_def)
  next
    case (Cons m ms)
    have "best_module name lo hi (m # ms) None = (if ok m then best_module name lo hi ms (Some m) else best_module name lo hi ms None)"
      by (cases "ok m") (auto simp: ok_def)
    with Cons show ?case by (simp add: some)
  qed
qed

text \<open>
  Looking up a loaded module gives, of the modules with the name and a version in the range, the
  first of those with the highest version, and nothing only if there is none. Both ends belong to the
  range; a negative upper end is none, and two zeros accept every version.
\<close>

theorem lookup_module_highest:
  assumes "list_all (\<lambda>m. mversion m \<le> MAXINT) modules"
  shows "ejsLookupModule modules name minVersion maxVersion = highest (filter (acceptable name minVersion maxVersion) modules)"
proof -
  have "filter (\<lambda>m. (lo = 0 \<and> hi = 0 \<or> lo \<le> mversion m \<and> mversion m \<le> hi) \<and> mname m = name) modules
      = filter (acceptable name minVersion maxVersion) modules"
    if "lo = minVersion" "hi = (if maxVersion < 0 then MAXINT else maxVersion)" for lo hi
    using assms that by (intro filter_cong) (auto simp: acceptable_def list_all_iff MAXINT_def)
  then show ?thesis by (simp add: ejsLookupModule_def best_module_highest)
qed

theorem lookup_module_highest_witness:
  "ejsLookupModule [\<lparr>mname = [97], mversion = 1000000\<rparr>, \<lparr>mname = [97], mversion = 2000000\<rparr>, \<lparr>mname = [97], mversion = 3000000\<rparr>] [97] 0 2000000
     = Some \<lparr>mname = [97], mversion = 2000000\<rparr>"
  by (subst lookup_module_highest) (simp_all add: MAXINT_def highest_def acceptable_def)

text \<open>Version numbers are compared part by part, and give their parts back, while every part is below 1000.\<close>

lemma version_parts:
  assumes "0 \<le> a" "a < 1000" "0 \<le> b" "b < 1000" "0 \<le> c" "c < 1000"
  shows "EJS_MAJOR (EJS_MAKE_VERSION a b c) = a" "EJS_MINOR (EJS_MAKE_VERSION a b c) = b" "EJS_PATCH (EJS_MAKE_VERSION a b c) = c"
proof -
  have "(x * 1000 + y) div 1000 = x" "(x * 1000 + y) mod 1000 = y" if "0 \<le> y" "y < 1000" for x y :: int using that by auto
  note d = this [OF assms(3,4), of a] this [OF assms(5,6), of "a * 1000 + b"]
  show "EJS_MAJOR (EJS_MAKE_VERSION a b c) = a" "EJS_MINOR (EJS_MAKE_VERSION a b c) = b" "EJS_PATCH (EJS_MAKE_VERSION a b c) = c"
    unfolding EJS_MAJOR_def EJS_MINOR_def EJS_PATCH_def EJS_MAKE_VERSION_def EJS_VERSION_FACTOR_def d using assms by simp_all
qed

lemma version_order:
  assumes "0 \<le> b" "b < 1000" "0 \<le> c" "c < 1000" "0 \<le> b'" "b' < 1000" "0 \<le> c'" "c' < 1000"
  shows "EJS_MAKE_VERSION a b c \<le> EJS_MAKE_VERSION a' b' c' \<longleftrightarrow> a < a' \<or> a = a' \<and> (b < b' \<or> b = b' \<and> c \<le> c')"
  using assms unfolding EJS_MAKE_VERSION_def EJS_VERSION_FACTOR_def
  by (cases a a' rule: linorder_cases; cases b b' rule: linorder_cases) auto

end
