(* ===== verification/Exceptions.thy ===== *)
theory Exceptions
  imports Prelude "HOL-Library.Monad_Syntax" "HOL-Library.Sublist"
begin

text \<open>
  Exception handling of the virtual machine (\<^verbatim>\<open>src/vm/ejsInterp.c\<close>, \<^verbatim>\<open>ejsException.c\<close>): the handlers of a
  function, the stacks of frames and lexical blocks, the attention trap, and the instructions that throw,
  enter and leave handlers, call and return.

  \<^item> Blocks live at addresses and are linked by \<open>prev\<close>. A frame is a block with a frame part; frames are
    linked by \<open>caller\<close>. The stack of operands is shown by its pointer.
  \<^item> A program counter is an offset into the code of its frame, or it is at the trap instruction; then
    \<open>attentionPc\<close> has the place to return to. Offsets are compared as \<^verbatim>\<open>uint\<close>.
  \<^item> Of a type there are its names and those of its base types and interfaces, and of an exception there is its
    type, or it is the type \<^verbatim>\<open>StopIteration\<close> itself, with which iterators end.
  \<^item> A null pointer that is followed, and an offset taken at the trap, is undefined (\<^const>\<open>None\<close>).
\<close>

section \<open>Types and handlers\<close>

type_synonym type_name = "string \<times> string"

record ex_type =
  type_chain :: "type_name list"
  interfaces :: "type_name list"

datatype exn = StopIterationType | Object ex_type

datatype catch_type = NoType | VoidType | CatchType type_name

definition ejsIsTypeSubType :: "ex_type \<Rightarrow> type_name \<Rightarrow> bool" where
  "ejsIsTypeSubType target type \<longleftrightarrow> type \<in> set (type_chain target) \<or> type \<in> set (interfaces target)"

text \<open>The type \<^verbatim>\<open>StopIteration\<close> as a value is an object of the type \<^verbatim>\<open>Type\<close>; it is asked for only before.\<close>

definition ejsIsA :: "exn option \<Rightarrow> type_name \<Rightarrow> bool" where
  "ejsIsA target type = (case target of Some (Object t) \<Rightarrow> ejsIsTypeSubType t type | _ \<Rightarrow> False)"

definition EJS_EX_CATCH :: int where "EJS_EX_CATCH = 1"
definition EJS_EX_FINALLY :: int where "EJS_EX_FINALLY = 2"
definition EJS_EX_ITERATION :: int where "EJS_EX_ITERATION = 4"

record handler =
  ex_catchType :: catch_type
  ex_flags :: int
  tryStart :: int
  tryEnd :: int
  handlerStart :: int
  handlerEnd :: int
  numBlocks :: int
  numStack :: int

section \<open>Stacks\<close>

datatype pc = At int | Trap

record frame =
  caller :: "nat option"
  fstackBase :: int
  stackReturn :: int
  fpc :: pc
  attentionPc :: "pc option"
  handlers :: "handler list"
  inCatch :: bool
  inException :: bool

record block =
  prev :: "nat option"
  stackBase :: int
  prevException :: "exn option"
  restartAddress :: "pc option"
  frame_of :: "frame option"

record machine =
  blocks :: "nat \<Rightarrow> block option"
  unused :: nat
  block_ptr :: "nat option"
  frame_ptr :: "nat option"
  stack_ptr :: int
  exn :: "exn option"
  exceptionArg :: "exn option"

definition the_frame :: "machine \<Rightarrow> (nat \<times> block \<times> frame) option" where
  "the_frame st = do { f \<leftarrow> frame_ptr st; b \<leftarrow> blocks st f; fr \<leftarrow> frame_of b; Some (f, b, fr) }"

definition set_block :: "nat \<Rightarrow> block \<Rightarrow> machine \<Rightarrow> machine" where
  "set_block a b st = st\<lparr>blocks := (blocks st)(a \<mapsto> b)\<rparr>"

definition set_frame :: "frame \<Rightarrow> machine \<Rightarrow> machine option" where
  "set_frame fr st = do { (f, b, _) \<leftarrow> the_frame st; Some (set_block f (b\<lparr>frame_of := Some fr\<rparr>) st) }"

text \<open>Setting the program counter forgets the place to return to.\<close>

definition SET_PC :: "int \<Rightarrow> frame \<Rightarrow> frame" where
  "SET_PC off fr = fr\<lparr>fpc := At off, attentionPc := None\<rparr>"

definition ejsAttention :: "machine \<Rightarrow> machine option" where
  "ejsAttention st =
     (if frame_ptr st = None then Some st
      else do { (f, b, fr) \<leftarrow> the_frame st;
                if attentionPc fr = None then set_frame (fr\<lparr>fpc := Trap, attentionPc := Some (fpc fr)\<rparr>) st else Some st })"

definition ejsClearAttention :: "machine \<Rightarrow> machine option" where
  "ejsClearAttention st =
     (if exn st \<noteq> None \<or> frame_ptr st = None then Some st
      else do { (f, b, fr) \<leftarrow> the_frame st;
                case attentionPc fr of
                  None \<Rightarrow> Some st
                | Some p \<Rightarrow> set_frame (fr\<lparr>fpc := p, attentionPc := None\<rparr>) st })"

definition ejsPopBlock :: "machine \<Rightarrow> machine option" where
  "ejsPopBlock st =
     do { a \<leftarrow> block_ptr st; b \<leftarrow> blocks st a; Some (st\<lparr>stack_ptr := stackBase b, block_ptr := prev b\<rparr>) }"

text \<open>A pending exception of the block below is thrown again; the program counter is advanced by one.\<close>

definition popExceptionBlock :: "machine \<Rightarrow> machine option" where
  "popExceptionBlock st =
     do { a \<leftarrow> block_ptr st; b \<leftarrow> blocks st a;
          st1 \<leftarrow> (case prev b of
                     None \<Rightarrow> Some st
                   | Some p \<Rightarrow>
                       if exn st = None
                       then do { pb \<leftarrow> blocks st p;
                                 let st1 = (set_block p (pb\<lparr>prevException := None\<rparr>) st)\<lparr>exn := prevException pb\<rparr>;
                                 if prevException pb = None then Some st1
                                 else do { (_, _, fr) \<leftarrow> the_frame st1;
                                           off \<leftarrow> (case fpc fr of At off \<Rightarrow> Some off | Trap \<Rightarrow> None);
                                           st2 \<leftarrow> set_frame (fr\<lparr>fpc := At (off + 1)\<rparr>) st1;
                                           ejsAttention st2 } }
                       else Some st);
          Some (st1\<lparr>block_ptr := prev b\<rparr>) }"

section \<open>Finding a handler\<close>

definition current_pc :: "frame \<Rightarrow> int option" where
  "current_pc fr = (case fpc fr of At off \<Rightarrow> Some ((off - 1) mod 2 ^ 32) | Trap \<Rightarrow> None)"

fun find_handler :: "exn option \<Rightarrow> int \<Rightarrow> int \<Rightarrow> handler list \<Rightarrow> handler option option" where
  "find_handler e kind off [] = Some None"
| "find_handler e kind off (ex # exs) =
     (if tryStart ex \<le> off \<and> off < handlerEnd ex \<and> ex_flags ex AND kind \<noteq> 0
      then if e = Some StopIterationType \<or> kind = EJS_EX_FINALLY then Some (Some ex)
           else case ex_catchType ex of
                  NoType \<Rightarrow> None
                | VoidType \<Rightarrow> Some (Some ex)
                | CatchType t \<Rightarrow> if ejsIsA e t then Some (Some ex) else find_handler e kind off exs
      else find_handler e kind off exs)"

definition findExceptionHandler :: "machine \<Rightarrow> int \<Rightarrow> handler option option" where
  "findExceptionHandler st kind =
     do { (_, _, fr) \<leftarrow> the_frame st; off \<leftarrow> current_pc fr; find_handler (exn st) kind off (handlers fr) }"

definition inHandler :: "machine \<Rightarrow> int \<Rightarrow> handler option option" where
  "inHandler st kind =
     do { (_, _, fr) \<leftarrow> the_frame st; off \<leftarrow> current_pc fr;
          Some (find (\<lambda>ex. handlerStart ex \<le> off \<and> off < handlerEnd ex \<and> ex_flags ex AND kind \<noteq> 0) (handlers fr)) }"

text \<open>The end of the last handler of the first try block that covers the place; nought without one.\<close>

fun end_exception :: "int \<Rightarrow> handler list \<Rightarrow> int" where
  "end_exception off [] = 0"
| "end_exception off (ex # exs) =
     (if tryStart ex \<le> off \<and> off < handlerEnd ex
      then handlerEnd (last (ex # filter (\<lambda>h. tryEnd ex = tryEnd h) exs))
      else end_exception off exs)"

definition findEndException :: "machine \<Rightarrow> int option" where
  "findEndException st = do { (_, _, fr) \<leftarrow> the_frame st; off \<leftarrow> current_pc fr; Some (end_exception off (handlers fr)) }"

section \<open>Entering a handler\<close>

text \<open>The number of blocks above the frame.\<close>

partial_function (option) count_blocks :: "(nat \<Rightarrow> block option) \<Rightarrow> nat option \<Rightarrow> nat option \<Rightarrow> int option" where
  "count_blocks bs p f =
     (if p = f then Some 0
      else case p of
             None \<Rightarrow> None
           | Some a \<Rightarrow> (case bs a of None \<Rightarrow> None | Some b \<Rightarrow> Option.bind (count_blocks bs (prev b) f) (\<lambda>n. Some (n + 1))))"

declare count_blocks.simps [code]

fun pop_blocks :: "nat \<Rightarrow> machine \<Rightarrow> machine option" where
  "pop_blocks 0 st = Some st"
| "pop_blocks (Suc n) st = do { st1 \<leftarrow> ejsPopBlock st; pop_blocks n st1 }"

text \<open>For a catch clause the blocks and operands of the try block are dropped.\<close>

definition drop_try_blocks :: "handler \<Rightarrow> machine \<Rightarrow> machine option" where
  "drop_try_blocks ex st =
     do { (f, _, fr) \<leftarrow> the_frame st;
          n \<leftarrow> count_blocks (blocks st) (block_ptr st) (Some f);
          st1 \<leftarrow> pop_blocks (nat (n - numBlocks ex)) st;
          Some (st1\<lparr>stack_ptr := fstackBase fr + numStack ex\<rparr>) }"

text \<open>The argument \<open>alloc\<close> says whether there is memory for the new block; without it nothing more is done.\<close>

definition createExceptionBlock :: "bool \<Rightarrow> handler \<Rightarrow> int \<Rightarrow> machine \<Rightarrow> machine option" where
  "createExceptionBlock alloc ex flags st =
     do { st1 \<leftarrow> ejsClearAttention st;
          (_, _, fr) \<leftarrow> the_frame st1;
          if flags AND EJS_EX_ITERATION \<noteq> 0
          then do { st2 \<leftarrow> set_frame (SET_PC (handlerStart ex) fr) st1; Some (st2\<lparr>exn := None\<rparr>) }
          else do {
            st2 \<leftarrow> (if flags AND EJS_EX_CATCH \<noteq> 0 then drop_try_blocks ex st1 else Some st1);
            if \<not> alloc then Some st2
            else do {
              let new = unused st2;
              let st3 = (set_block new \<lparr>prev = block_ptr st2, stackBase = stack_ptr st2, prevException = None, restartAddress = None, frame_of = None\<rparr> st2)
                          \<lparr>block_ptr := Some new, unused := Suc new\<rparr>;
              (_, _, fr3) \<leftarrow> the_frame st3;
              st4 \<leftarrow> set_frame (SET_PC (handlerStart ex) fr3) st3;
              st5 \<leftarrow> (if flags AND EJS_EX_CATCH \<noteq> 0
                       then do { (_, _, fr4) \<leftarrow> the_frame st4;
                                 st5 \<leftarrow> set_frame (fr4\<lparr>inCatch := True\<rparr>) st4;
                                 Some (st5\<lparr>exceptionArg := exn st5\<rparr>) }
                       else do { below \<leftarrow> block_ptr st2;
                                 pb \<leftarrow> blocks st4 below;
                                 let st5 = set_block below (pb\<lparr>prevException := exn st4\<rparr>) st4;
                                 (_, _, fr5) \<leftarrow> the_frame st5;
                                 st6 \<leftarrow> set_frame (fr5\<lparr>inCatch := False\<rparr>) st5;
                                 ejsAttention st6 });
              (_, _, fr6) \<leftarrow> the_frame st5;
              st6 \<leftarrow> set_frame (fr6\<lparr>inException := True\<rparr>) st5;
              Some (st6\<lparr>exn := None\<rparr>) } } }"

section \<open>Handling an exception\<close>

text \<open>The end of the check: a finally clause, or none.\<close>

definition check_finally :: "bool \<Rightarrow> machine \<Rightarrow> machine option" where
  "check_finally alloc st =
     do { h \<leftarrow> findExceptionHandler st EJS_EX_FINALLY;
          (_, _, fr) \<leftarrow> the_frame st;
          st1 \<leftarrow> (case h of
                     Some ex \<Rightarrow> do { st1 \<leftarrow> (if inCatch fr then popExceptionBlock st else Some st);
                                     createExceptionBlock alloc ex EJS_EX_FINALLY st1 }
                   | None \<Rightarrow> set_frame (fr\<lparr>inCatch := False, inException := False\<rparr>) st);
          ejsClearAttention st1 }"

definition check_catch :: "bool \<Rightarrow> machine \<Rightarrow> machine option" where
  "check_catch alloc st =
     do { h \<leftarrow> findExceptionHandler st EJS_EX_CATCH;
          case h of Some ex \<Rightarrow> createExceptionBlock alloc ex (ex_flags ex) st | None \<Rightarrow> check_finally alloc st }"

text \<open>The label \<^verbatim>\<open>rescan\<close> is reached again only with \<open>inException\<close> cleared.\<close>

definition checkExceptionHandlers :: "bool \<Rightarrow> machine \<Rightarrow> machine option" where
  "checkExceptionHandlers alloc st =
     do { (_, _, fr) \<leftarrow> the_frame st;
          if handlers fr = [] then Some st
          else if \<not> inException fr \<or> exn st = Some StopIterationType then check_catch alloc st
          else do {
            h \<leftarrow> inHandler st EJS_EX_FINALLY;
            case h of
              Some ex \<Rightarrow> do { st1 \<leftarrow> set_frame ((SET_PC (handlerEnd ex + 1) fr)\<lparr>inCatch := False, inException := False\<rparr>) st;
                              check_catch alloc st1 }
            | None \<Rightarrow> check_finally alloc st } }"

text \<open>Frame by frame, until the exception is handled or no frame is left.\<close>

partial_function (option) processException :: "bool \<Rightarrow> machine \<Rightarrow> (bool \<times> machine) option" where
  "processException alloc st =
     (if frame_ptr st = None then Some (False, st)
      else Option.bind (checkExceptionHandlers alloc st) (\<lambda>st1.
        if exn st1 = None then Some (True, st1)
        else Option.bind (the_frame st1) (\<lambda>(f, b, fr).
          Option.bind (ejsClearAttention (st1\<lparr>stack_ptr := stackReturn fr, block_ptr := prev b, frame_ptr := caller fr\<rparr>)) (\<lambda>st2.
            processException alloc st2))))"

declare processException.simps [code]

section \<open>Instructions\<close>

definition op_THROW :: "exn \<Rightarrow> machine \<Rightarrow> machine option" where
  "op_THROW e st = ejsAttention (st\<lparr>stack_ptr := stack_ptr st - 1, exn := Some e\<rparr>)"

definition op_GOTO_FINALLY :: "bool \<Rightarrow> machine \<Rightarrow> machine option" where
  "op_GOTO_FINALLY alloc st =
     do { h \<leftarrow> findExceptionHandler st EJS_EX_FINALLY;
          (_, _, fr) \<leftarrow> the_frame st;
          case h of
            None \<Rightarrow> Some st
          | Some ex \<Rightarrow> do { st1 \<leftarrow> (if inCatch fr then popExceptionBlock st else Some st);
                            createExceptionBlock alloc ex EJS_EX_FINALLY st1 } }"

definition op_CALL_FINALLY :: "bool \<Rightarrow> machine \<Rightarrow> machine option" where
  "op_CALL_FINALLY alloc st =
     do { h \<leftarrow> findExceptionHandler st EJS_EX_FINALLY;
          (_, _, fr) \<leftarrow> the_frame st;
          case h of
            None \<Rightarrow> Some st
          | Some ex \<Rightarrow> do { st1 \<leftarrow> (if inCatch fr then popExceptionBlock st else Some st);
                            (_, _, fr1) \<leftarrow> the_frame st1;
                            st2 \<leftarrow> createExceptionBlock alloc ex EJS_EX_FINALLY st1;
                            a \<leftarrow> block_ptr st2; b \<leftarrow> blocks st2 a;
                            Some (set_block a (b\<lparr>restartAddress := Some (fpc fr1)\<rparr>) st2) } }"

definition op_END_EXCEPTION :: "machine \<Rightarrow> machine option" where
  "op_END_EXCEPTION st =
     do { (_, _, fr) \<leftarrow> the_frame st;
          if \<not> inException fr then Some st
          else do {
            st1 \<leftarrow> set_frame (fr\<lparr>inCatch := False, inException := False\<rparr>) st;
            a \<leftarrow> block_ptr st1; b \<leftarrow> blocks st1 a;
            case restartAddress b of
              Some savePC \<Rightarrow> do { st2 \<leftarrow> popExceptionBlock st1;
                                  (_, _, fr2) \<leftarrow> the_frame st2;
                                  set_frame (fr2\<lparr>fpc := savePC, attentionPc := None\<rparr>) st2 }
            | None \<Rightarrow> do { offset \<leftarrow> findEndException st1;
                           (_, _, fr1) \<leftarrow> the_frame st1;
                           st2 \<leftarrow> set_frame (SET_PC offset fr1) st1;
                           popExceptionBlock st2 } } }"

text \<open>The trap. It ends the run of the machine when no frame handles the exception.\<close>

definition op_ATTENTION :: "bool \<Rightarrow> machine \<Rightarrow> (bool \<times> machine) option" where
  "op_ATTENTION alloc st =
     do { (_, _, fr) \<leftarrow> the_frame st;
          st1 \<leftarrow> (case attentionPc fr of None \<Rightarrow> Some st | Some p \<Rightarrow> set_frame (fr\<lparr>fpc := p, attentionPc := None\<rparr>) st);
          if exn st1 \<noteq> None then processException alloc st1 else Some (True, st1) }"

definition op_PUSH_CATCH_ARG :: "machine \<Rightarrow> exn option \<times> machine" where
  "op_PUSH_CATCH_ARG st = (exceptionArg st, st\<lparr>stack_ptr := stack_ptr st + 1, exceptionArg := None\<rparr>)"

text \<open>Lexical blocks: the block is a clone that has its links and its place on the stack set.\<close>

definition op_OPEN_BLOCK :: "machine \<Rightarrow> machine" where
  "op_OPEN_BLOCK st =
     (let new = unused st
      in (set_block new \<lparr>prev = block_ptr st, stackBase = stack_ptr st, prevException = None, restartAddress = None, frame_of = None\<rparr> st)
           \<lparr>block_ptr := Some new, unused := Suc new\<rparr>)"

definition op_CLOSE_BLOCK :: "machine \<Rightarrow> machine option" where
  "op_CLOSE_BLOCK st = do { a \<leftarrow> block_ptr st; b \<leftarrow> blocks st a; Some (st\<lparr>block_ptr := prev b\<rparr>) }"

text \<open>The end of \<^verbatim>\<open>callFunction\<close> for a script function: the new frame becomes the current one.\<close>

definition call_script :: "handler list \<Rightarrow> int \<Rightarrow> int \<Rightarrow> machine \<Rightarrow> machine option" where
  "call_script hs argc stackAdjust st =
     (let new = unused st;
          fr = \<lparr>caller = frame_ptr st, fstackBase = stack_ptr st, stackReturn = stack_ptr st - argc - stackAdjust, fpc = At 0,
                attentionPc = None, handlers = hs, inCatch = False, inException = False\<rparr>
      in ejsClearAttention
           ((set_block new \<lparr>prev = block_ptr st, stackBase = 0, prevException = None, restartAddress = None, frame_of = Some fr\<rparr> st)
              \<lparr>frame_ptr := Some new, block_ptr := Some new, unused := Suc new\<rparr>))"

text \<open>Returning from the first frame ends the run.\<close>

definition op_RETURN :: "machine \<Rightarrow> (bool \<times> machine) option" where
  "op_RETURN st =
     do { (f, b, fr) \<leftarrow> the_frame st;
          Some (if caller fr = None then (False, st)
                else (True, st\<lparr>stack_ptr := stackReturn fr, block_ptr := prev b, frame_ptr := caller fr\<rparr>)) }"

section \<open>Links\<close>

text \<open>What links a block to others: its previous block and, for a frame, its caller.\<close>

definition links :: "(nat \<Rightarrow> block option) \<Rightarrow> nat \<Rightarrow> (nat option \<times> nat option option) option" where
  "links S a = map_option (\<lambda>b. (prev b, map_option caller (frame_of b))) (S a)"

text \<open>The lexical blocks from an address down to a frame, and the frames with their blocks down to the first one.\<close>

fun path :: "(nat \<Rightarrow> block option) \<Rightarrow> nat option \<Rightarrow> nat list \<Rightarrow> nat \<Rightarrow> bool" where
  "path S p [] f \<longleftrightarrow> p = Some f"
| "path S p (a # as) f \<longleftrightarrow> p = Some a \<and> (\<exists>q. links S a = Some (q, None) \<and> path S q as f)"

fun stacks :: "(nat \<Rightarrow> block option) \<Rightarrow> nat option \<Rightarrow> nat option \<Rightarrow> (nat list \<times> nat) list \<Rightarrow> bool" where
  "stacks S p f [] \<longleftrightarrow> f = None"
| "stacks S p f ((as, g) # segs) \<longleftrightarrow> f = Some g \<and> path S p as g \<and> (\<exists>q c. links S g = Some (q, Some c) \<and> stacks S q c segs)"

lemma path_links: "path S p as f \<Longrightarrow> (\<And>a q. links S a = Some q \<Longrightarrow> links S' a = Some q) \<Longrightarrow> path S' p as f"
  by (induction as arbitrary: p) auto

lemma stacks_links: "stacks S p f segs \<Longrightarrow> (\<And>a q. links S a = Some q \<Longrightarrow> links S' a = Some q) \<Longrightarrow> stacks S' p f segs"
proof (induction segs arbitrary: p f)
  case (Cons s segs)
  obtain as g where s: "s = (as, g)" by force
  from Cons.prems(1) obtain q c where "f = Some g" "path S p as g" "links S g = Some (q, Some c)" "stacks S q c segs" by (auto simp: s)
  with Cons.IH [of q c] Cons.prems(2) path_links [of S p as g S'] show ?case by (auto simp: s)
qed simp

lemma the_frame_iff:
  "the_frame st = Some (f, b, fr) \<longleftrightarrow> frame_ptr st = Some f \<and> blocks st f = Some b \<and> frame_of b = Some fr"
  by (auto simp: the_frame_def bind_eq_Some_conv)

lemma set_frame_eq:
  "the_frame st = Some (f, b, fr) \<Longrightarrow> set_frame fr' st = Some (set_block f (b\<lparr>frame_of := Some fr'\<rparr>) st)"
  by (simp add: set_frame_def)

lemma set_block_simps [simp]:
  "blocks (set_block a b st) = (blocks st)(a \<mapsto> b)" "unused (set_block a b st) = unused st" "block_ptr (set_block a b st) = block_ptr st"
  "frame_ptr (set_block a b st) = frame_ptr st" "stack_ptr (set_block a b st) = stack_ptr st" "exn (set_block a b st) = exn st"
  "exceptionArg (set_block a b st) = exceptionArg st"
  by (simp_all add: set_block_def)

lemma the_frame_set_block:
  "the_frame st = Some (f, b, fr) \<Longrightarrow> frame_of b' = Some fr' \<Longrightarrow> the_frame (set_block f b' st) = Some (f, b', fr')"
  "the_frame st = Some (f, b, fr) \<Longrightarrow> a \<noteq> f \<Longrightarrow> the_frame (set_block a b' st) = Some (f, b, fr)"
  by (auto simp: the_frame_iff)

section \<open>Which handler an exception gets\<close>

definition covers :: "int \<Rightarrow> handler \<Rightarrow> bool" where
  "covers off ex \<longleftrightarrow> tryStart ex \<le> off \<and> off < handlerEnd ex"

definition accepts :: "exn \<Rightarrow> handler \<Rightarrow> bool" where
  "accepts e ex \<longleftrightarrow> e = StopIterationType \<or> ex_catchType ex = VoidType \<or> (\<exists>t. ex_catchType ex = CatchType t \<and> ejsIsA (Some e) t)"

definition catching :: "handler \<Rightarrow> bool" where
  "catching ex \<longleftrightarrow> ex_flags ex AND EJS_EX_CATCH \<noteq> 0"

definition finalizing :: "handler \<Rightarrow> bool" where
  "finalizing ex \<longleftrightarrow> ex_flags ex AND EJS_EX_FINALLY \<noteq> 0"

definition first_finally :: "int \<Rightarrow> handler list \<Rightarrow> (bool \<times> handler) option" where
  "first_finally off hs = map_option (Pair False) (find (\<lambda>ex. covers off ex \<and> finalizing ex) hs)"

definition first_catch :: "exn \<Rightarrow> int \<Rightarrow> handler list \<Rightarrow> (bool \<times> handler) option" where
  "first_catch e off hs =
     (case find (\<lambda>ex. covers off ex \<and> catching ex \<and> accepts e ex) hs of
        Some ex \<Rightarrow> Some (True, ex)
      | None \<Rightarrow> first_finally off hs)"

text \<open>
  A frame outside of handlers takes the first catch clause that covers the place and accepts the type, or
  else the first finally clause that covers it. Inside of a catch clause only finally clauses count; inside
  of a finally clause the search goes on from the end of that clause.
\<close>

definition decide :: "frame \<Rightarrow> exn \<Rightarrow> (bool \<times> handler) option" where
  "decide fr e =
     (case current_pc fr of
        None \<Rightarrow> None
      | Some off \<Rightarrow>
          if \<not> inException fr \<or> e = StopIterationType then first_catch e off (handlers fr)
          else case find (\<lambda>ex. handlerStart ex \<le> off \<and> off < handlerEnd ex \<and> finalizing ex) (handlers fr) of
                 Some g \<Rightarrow> first_catch e (handlerEnd g mod 2 ^ 32) (handlers fr)
               | None \<Rightarrow> first_finally off (handlers fr))"

definition handlers_ok :: "handler list \<Rightarrow> bool" where
  "handlers_ok hs \<longleftrightarrow> (\<forall>ex \<in> set hs. (catching ex \<longrightarrow> ex_catchType ex \<noteq> NoType) \<and> 0 \<le> numBlocks ex)"

lemma find_handler_catch:
  "handlers_ok hs \<Longrightarrow> find_handler (Some e) EJS_EX_CATCH off hs = Some (find (\<lambda>ex. covers off ex \<and> catching ex \<and> accepts e ex) hs)"
proof (induction hs)
  case (Cons ex hs)
  have ok: "handlers_ok hs" "catching ex \<longrightarrow> ex_catchType ex \<noteq> NoType" using Cons.prems by (auto simp: handlers_ok_def)
  show ?case
  proof (cases "covers off ex \<and> catching ex")
    case True
    with Cons.IH [OF ok(1)] ok(2) show ?thesis
      by (cases "ex_catchType ex") (auto simp: covers_def catching_def accepts_def EJS_EX_FINALLY_def EJS_EX_CATCH_def)
  next
    case False
    with Cons.IH [OF ok(1)] show ?thesis by (auto simp: covers_def catching_def)
  qed
qed simp

lemma find_handler_finally:
  "find_handler e EJS_EX_FINALLY off hs = Some (find (\<lambda>ex. covers off ex \<and> finalizing ex) hs)"
  by (induction hs) (auto simp: covers_def finalizing_def)

section \<open>Entering a handler\<close>

definition is_frame :: "(nat \<Rightarrow> block option) \<Rightarrow> nat \<Rightarrow> bool" where
  "is_frame S f \<longleftrightarrow> (\<exists>q c. links S f = Some (q, Some c))"

lemma count_blocks_path: "path S p as f \<Longrightarrow> is_frame S f \<Longrightarrow> count_blocks S p (Some f) = Some (int (length as))"
proof (induction as arbitrary: p)
  case (Cons a as)
  then obtain q where q: "p = Some a" "links S a = Some (q, None)" "path S q as f" by auto
  then have "a \<noteq> f" using Cons.prems(2) by (auto simp: is_frame_def)
  moreover obtain b where "S a = Some b" "prev b = q" using q(2) by (auto simp: links_def)
  ultimately show ?case using Cons.IH [OF q(3) Cons.prems(2)] q(1) by (subst count_blocks.simps) simp
qed (subst count_blocks.simps, simp)

lemma pop_blocks_path:
  "path (blocks st) (block_ptr st) as f \<Longrightarrow> n \<le> length as \<Longrightarrow>
     \<exists>sp q. pop_blocks n st = Some (st\<lparr>stack_ptr := sp, block_ptr := q\<rparr>) \<and> path (blocks st) q (drop n as) f"
proof (induction n arbitrary: st as)
  case 0
  then show ?case by (auto intro!: exI [of _ "stack_ptr st"] exI [of _ "block_ptr st"])
next
  case (Suc n)
  then obtain a as' where as: "as = a # as'" by (cases as) auto
  then obtain b where b: "block_ptr st = Some a" "blocks st a = Some b" "path (blocks st) (prev b) as' f"
    using Suc.prems(1) by (auto simp: links_def)
  let ?st = "st\<lparr>stack_ptr := stackBase b, block_ptr := prev b\<rparr>"
  have "\<exists>sp q. pop_blocks n ?st = Some (?st\<lparr>stack_ptr := sp, block_ptr := q\<rparr>) \<and> path (blocks ?st) q (drop n as') f"
    using b(3) Suc.prems(2) as by (intro Suc.IH) simp_all
  then show ?case using b as by (auto simp: ejsPopBlock_def)
qed

lemma drop_try_blocks_ok:
  assumes "the_frame st = Some (f, b, fr)" and "path (blocks st) (block_ptr st) as f" and "0 \<le> numBlocks ex"
  shows "\<exists>q. drop_try_blocks ex st = Some (st\<lparr>block_ptr := q, stack_ptr := fstackBase fr + numStack ex\<rparr>)
     \<and> path (blocks st) q (drop (length as - nat (numBlocks ex)) as) f"
proof -
  have "is_frame (blocks st) f" using assms(1) by (auto simp: the_frame_iff is_frame_def links_def)
  then have "count_blocks (blocks st) (block_ptr st) (Some f) = Some (int (length as))" by (rule count_blocks_path [OF assms(2)])
  moreover have "nat (int (length as) - numBlocks ex) = length as - nat (numBlocks ex)" using assms(3) by linarith
  ultimately show ?thesis using pop_blocks_path [OF assms(2), of "length as - nat (numBlocks ex)"] assms(1)
    by (auto simp: drop_try_blocks_def)
qed

text \<open>Where the frame goes on: after the trap, if it is there.\<close>

definition resume :: "frame \<Rightarrow> pc" where
  "resume fr = (case attentionPc fr of None \<Rightarrow> fpc fr | Some p \<Rightarrow> p)"

definition fresh_ok :: "machine \<Rightarrow> bool" where
  "fresh_ok st \<longleftrightarrow> (\<forall>a \<ge> unused st. blocks st a = None)"

text \<open>
  The machine after an exception has entered a handler of frame \<open>f\<close>. The end of an iteration only jumps; a
  catch clause has its own block above the blocks that were open before its try block, the operands of
  the frame from before the try block, and the exception as its argument; a finally clause has its own
  block above blocks of the frame, the first of which keeps the exception for the end of the clause.
\<close>

definition entered :: "nat list \<Rightarrow> nat \<Rightarrow> exn \<Rightarrow> bool \<times> handler \<Rightarrow> frame \<Rightarrow> machine \<Rightarrow> bool" where
  "entered as f e r fr0 st \<longleftrightarrow> (case r of (catch, ex) \<Rightarrow>
     exn st = None \<and> (\<exists>b fr. the_frame st = Some (f, b, fr) \<and> resume fr = At (handlerStart ex)
       \<and> (if catch \<and> ex_flags ex AND EJS_EX_ITERATION \<noteq> 0 then path (blocks st) (block_ptr st) as f
            \<and> (inCatch fr \<longrightarrow> inCatch fr0) \<and> (inException fr = inException fr0 \<or> \<not> inException fr \<and> \<not> inCatch fr)
          else inException fr \<and> inCatch fr = catch
            \<and> (\<exists>new below nb. path (blocks st) (block_ptr st) (new # below) f \<and> blocks st new = Some nb \<and> restartAddress nb = None
                \<and> (if catch then below = drop (length as - nat (numBlocks ex)) as \<and> exceptionArg st = Some e
                              \<and> stack_ptr st = fstackBase fr0 + numStack ex
                   else suffix below as \<and> (\<exists>pb. blocks st (hd (below @ [f])) = Some pb \<and> prevException pb = Some e))))))"


lemma links_set_frame:
  "blocks st f = Some b \<Longrightarrow> frame_of b = Some fr \<Longrightarrow> caller fr' = caller fr \<Longrightarrow>
     links ((blocks st)(f \<mapsto> b\<lparr>frame_of := Some fr'\<rparr>)) = links (blocks st)"
  by (rule ext) (simp add: links_def)

lemma path_cong: "path S p as f \<Longrightarrow> links S' = links S \<Longrightarrow> path S' p as f"
  by (erule path_links) simp

lemma path_new:
  assumes "path S p as f" and "S new = None"
  shows "path (S(new \<mapsto> b)) p as f" "frame_of b = None \<Longrightarrow> prev b = p \<Longrightarrow> path (S(new \<mapsto> b)) (Some new) (new # as) f"
proof -
  have l: "links (S(new \<mapsto> b)) a = Some q" if "links S a = Some q" for a q using that assms(2) by (auto simp: links_def)
  show 1: "path (S(new \<mapsto> b)) p as f" by (rule path_links [OF assms(1)]) (rule l)
  show "frame_of b = None \<Longrightarrow> prev b = p \<Longrightarrow> path (S(new \<mapsto> b)) (Some new) (new # as) f" using 1 by (simp add: links_def)
qed

lemma iteration_ok:
  assumes "the_frame st = Some (f, b, fr)" and "exn st = Some e" and "ex_flags ex AND EJS_EX_ITERATION \<noteq> 0"
    and "path (blocks st) (block_ptr st) as f"
  shows "\<exists>st'. createExceptionBlock True ex (ex_flags ex) st = Some st' \<and> entered as f e (True, ex) fr st'"
proof -
  let ?fr = "SET_PC (handlerStart ex) fr"
  let ?st = "(set_block f (b\<lparr>frame_of := Some ?fr\<rparr>) st)\<lparr>exn := None\<rparr>"
  have f: "frame_ptr st = Some f" "blocks st f = Some b" "frame_of b = Some fr" using assms(1) by (auto simp: the_frame_iff)
  have "createExceptionBlock True ex (ex_flags ex) st = Some ?st"
    using assms(1-3) by (simp add: createExceptionBlock_def ejsClearAttention_def set_frame_eq)
  moreover have "the_frame ?st = Some (f, b\<lparr>frame_of := Some ?fr\<rparr>, ?fr)" using f by (simp add: the_frame_iff)
  moreover have "path (blocks ?st) (block_ptr ?st) as f"
    using path_cong [OF assms(4) links_set_frame [OF f(2,3), of ?fr]] by (simp add: SET_PC_def)
  ultimately show ?thesis using assms(3) by (auto simp: entered_def resume_def SET_PC_def)
qed

lemma catch_ok:
  assumes fr: "the_frame st = Some (f, b, fr)" and e: "exn st = Some e" and "ex_flags ex AND EJS_EX_ITERATION = 0" and "ex_flags ex AND EJS_EX_CATCH \<noteq> 0"
    and p: "path (blocks st) (block_ptr st) as f" and nb: "0 \<le> numBlocks ex" and fresh: "fresh_ok st"
  shows "\<exists>st'. createExceptionBlock True ex (ex_flags ex) st = Some st' \<and> entered as f e (True, ex) fr st'"
proof -
  define below where "below = drop (length as - nat (numBlocks ex)) as"
  have f: "frame_ptr st = Some f" "blocks st f = Some b" "frame_of b = Some fr" using fr by (auto simp: the_frame_iff)
  obtain q where q: "drop_try_blocks ex st = Some (st\<lparr>block_ptr := q, stack_ptr := fstackBase fr + numStack ex\<rparr>)" "path (blocks st) q below f"
    using drop_try_blocks_ok [OF fr p nb] by (auto simp: below_def)
  define new where "new = unused st"
  have new: "blocks st new = None" "new \<noteq> f" using fresh f(2) by (auto simp: fresh_ok_def new_def)
  define nb' where "nb' = \<lparr>prev = q, stackBase = fstackBase fr + numStack ex, prevException = None, restartAddress = None, frame_of = None\<rparr>"
  define fr' where "fr' = (SET_PC (handlerStart ex) fr)\<lparr>inCatch := True, inException := True\<rparr>"
  define S where "S = (blocks st)(new \<mapsto> nb', f \<mapsto> b\<lparr>frame_of := Some fr'\<rparr>)"
  define st' where "st' = st\<lparr>blocks := S, unused := Suc new, block_ptr := Some new, stack_ptr := fstackBase fr + numStack ex, exceptionArg := Some e, exn := None\<rparr>"
  have "createExceptionBlock True ex (ex_flags ex) st = Some st'"
    using fr e assms(3,4) q(1) f new
    by (simp add: createExceptionBlock_def ejsClearAttention_def Let_def set_frame_def the_frame_def set_block_def
        st'_def S_def fr'_def nb'_def new_def [symmetric] SET_PC_def fun_upd_twist)
  moreover have "path S (Some new) (new # below) f"
  proof -
    have "path ((blocks st)(new \<mapsto> nb')) (Some new) (new # below) f" by (rule path_new(2) [OF q(2) new(1)]) (simp_all add: nb'_def)
    moreover have "links S = links ((blocks st)(new \<mapsto> nb'))" by (rule ext) (use f new in \<open>simp add: S_def links_def fr'_def SET_PC_def\<close>)
    ultimately show ?thesis by (rule path_cong)
  qed
  moreover have "the_frame st' = Some (f, b\<lparr>frame_of := Some fr'\<rparr>, fr')" using f by (simp add: the_frame_iff st'_def S_def)
  moreover have "S new = Some nb'" using new by (simp add: S_def)
  ultimately show ?thesis using assms(3)
    by (auto simp: entered_def st'_def below_def fr'_def resume_def SET_PC_def nb'_def)
qed

lemma path_top: "path S p as f \<Longrightarrow> p = Some (hd (as @ [f]))"
  by (cases as) auto

lemma path_block: "path S p as f \<Longrightarrow> is_frame S f \<Longrightarrow> \<exists>pb. S (hd (as @ [f])) = Some pb"
  by (cases as) (auto simp: links_def is_frame_def)

lemma flag_simps [simp]:
  "EJS_EX_FINALLY AND EJS_EX_ITERATION = 0" "EJS_EX_FINALLY AND EJS_EX_CATCH = 0"
  by (simp_all add: EJS_EX_FINALLY_def EJS_EX_ITERATION_def EJS_EX_CATCH_def)

text \<open>A finally clause is entered with an exception, or without one at the end of a try block.\<close>

lemma finally_block:
  assumes fr: "the_frame st = Some (f, b, fr)" and p: "path (blocks st) (block_ptr st) below f"
    and fresh: "fresh_ok st" and quiet: "exn st = None \<Longrightarrow> attentionPc fr = None"
  shows "\<exists>st' b' fr'. createExceptionBlock True ex EJS_EX_FINALLY st = Some st' \<and> the_frame st' = Some (f, b', fr')
     \<and> fr' = fr\<lparr>inCatch := False, fpc := Trap, attentionPc := Some (At (handlerStart ex)), inException := True\<rparr>
     \<and> st' = st\<lparr>block_ptr := Some (unused st), unused := Suc (unused st), blocks := blocks st', exn := None\<rparr>
     \<and> links (blocks st') = (links (blocks st))(unused st \<mapsto> (block_ptr st, None))
     \<and> (\<exists>pb. blocks st' (hd (below @ [f])) = Some pb \<and> prevException pb = exn st)
     \<and> (\<exists>nb. blocks st' (unused st) = Some nb \<and> restartAddress nb = None)"
proof -
  have f: "frame_ptr st = Some f" "blocks st f = Some b" "frame_of b = Some fr" using fr by (auto simp: the_frame_iff)
  have isf: "is_frame (blocks st) f" using f by (simp add: is_frame_def links_def)
  define new where "new = unused st"
  have new: "blocks st new = None" "new \<noteq> f" using fresh f(2) by (auto simp: fresh_ok_def new_def)
  define d where "d = hd (below @ [f])"
  obtain pb where pb: "block_ptr st = Some d" "blocks st d = Some pb" using path_top [OF p] path_block [OF p isf] by (auto simp: d_def)
  have dn: "d \<noteq> new" using pb(2) new(1) by auto
  define nb where "nb = \<lparr>prev = Some d, stackBase = stack_ptr st, prevException = None, restartAddress = None, frame_of = None\<rparr>"
  define fr' where "fr' = fr\<lparr>inCatch := False, fpc := Trap, attentionPc := Some (At (handlerStart ex)), inException := True\<rparr>"
  define S where "S = (if d = f then (blocks st)(new \<mapsto> nb, f \<mapsto> b\<lparr>prevException := exn st, frame_of := Some fr'\<rparr>)
     else (blocks st)(new \<mapsto> nb, d \<mapsto> pb\<lparr>prevException := exn st\<rparr>, f \<mapsto> b\<lparr>frame_of := Some fr'\<rparr>))"
  define st' where "st' = st\<lparr>block_ptr := Some new, unused := Suc new, blocks := S, exn := None\<rparr>"
  have clear: "ejsClearAttention st = Some st" using fr quiet by (auto simp: ejsClearAttention_def)
  have run: "createExceptionBlock True ex EJS_EX_FINALLY st = Some st'"
  proof (cases "d = f")
    case True
    then have [simp]: "pb = b" using pb f by simp
    show ?thesis using fr f new pb True
      by (simp add: createExceptionBlock_def clear Let_def set_frame_def the_frame_def set_block_def ejsAttention_def
        st'_def S_def fr'_def nb_def new_def [symmetric] SET_PC_def fun_upd_twist)
  next
    case False
    show ?thesis using fr f new pb dn False
      by (simp add: createExceptionBlock_def clear Let_def set_frame_def the_frame_def set_block_def ejsAttention_def
        st'_def S_def fr'_def nb_def new_def [symmetric] SET_PC_def fun_upd_twist)
  qed
  have links: "links S = (links (blocks st))(new \<mapsto> (Some d, None))"
    using f pb new dn by (auto simp: S_def links_def fr'_def nb_def fun_eq_iff)
  have "\<exists>b'. the_frame st' = Some (f, b', fr')" using f by (auto simp: the_frame_iff st'_def S_def)
  moreover have "\<exists>pb. S (hd (below @ [f])) = Some pb \<and> prevException pb = exn st" unfolding d_def [symmetric] by (auto simp: S_def)
  moreover have "S new = Some nb" using dn new by (auto simp: S_def)
  moreover have "block_ptr st = Some d" by (rule pb)
  ultimately show ?thesis using run links by (auto simp: st'_def new_def fr'_def nb_def)
qed

lemma finally_ok:
  assumes fr: "the_frame st = Some (f, b, fr)" and e: "exn st = Some e" and p: "path (blocks st) (block_ptr st) below f"
    and suf: "suffix below as" and fresh: "fresh_ok st"
  shows "\<exists>st'. createExceptionBlock True ex EJS_EX_FINALLY st = Some st' \<and> entered as f e (False, ex) fr0 st'"
proof -
  obtain st' b' fr' where r: "createExceptionBlock True ex EJS_EX_FINALLY st = Some st'" "the_frame st' = Some (f, b', fr')"
     "fr' = fr\<lparr>inCatch := False, fpc := Trap, attentionPc := Some (At (handlerStart ex)), inException := True\<rparr>"
     "st' = st\<lparr>block_ptr := Some (unused st), unused := Suc (unused st), blocks := blocks st', exn := None\<rparr>"
     "links (blocks st') = (links (blocks st))(unused st \<mapsto> (block_ptr st, None))"
     "\<exists>pb. blocks st' (hd (below @ [f])) = Some pb \<and> prevException pb = exn st" "\<exists>nb. blocks st' (unused st) = Some nb \<and> restartAddress nb = None"
    using finally_block [OF fr p fresh, of ex] e by auto
  have st': "block_ptr st' = Some (unused st)" "exn st' = None" by (subst r(4), simp)+
  have "links (blocks st) (unused st) = None" using fresh by (simp add: fresh_ok_def links_def)
  then have "path (blocks st') (block_ptr st) below f" using r(5) by (intro path_links [OF p]) auto
  then have "path (blocks st') (Some (unused st)) (unused st # below) f" using r(5) by simp
  then show ?thesis using r(1-3,6,7) e suf st' by (auto simp: entered_def resume_def)
qed


section \<open>Handling an exception\<close>

text \<open>What a frame is left with that does not handle the exception.\<close>

definition passed_on :: "nat \<Rightarrow> block \<Rightarrow> frame \<Rightarrow> machine \<Rightarrow> machine \<Rightarrow> bool" where
  "passed_on f b fr st st' \<longleftrightarrow> (\<exists>fr'. st' = set_block f (b\<lparr>frame_of := Some fr'\<rparr>) st \<and> caller fr' = caller fr \<and> stackReturn fr' = stackReturn fr)"

definition outcome :: "nat list \<Rightarrow> nat \<Rightarrow> block \<Rightarrow> frame \<Rightarrow> exn \<Rightarrow> (bool \<times> handler) option \<Rightarrow> machine \<Rightarrow> machine option \<Rightarrow> bool" where
  "outcome as f b fr e r st res \<longleftrightarrow>
     (\<exists>st'. res = Some st' \<and> (case r of Some h \<Rightarrow> entered as f e h fr st' | None \<Rightarrow> passed_on f b fr st st'))"

lemma entered_outside:
  assumes "entered as f e r fr' st" and "fstackBase fr' = fstackBase fr" and "\<not> inCatch fr'" and "\<not> inException fr'"
  shows "entered as f e r fr st"
proof (cases "fst r \<and> ex_flags (snd r) AND EJS_EX_ITERATION \<noteq> 0")
  case True
  with assms show ?thesis by (auto simp: entered_def split_beta)
next
  case False
  show ?thesis using assms(1) unfolding entered_def split_beta if_not_P [OF False] assms(2) .
qed

lemma entered_clear:
  assumes "entered as f e (False, ex) fr st"
  shows "\<exists>st'. ejsClearAttention st = Some st' \<and> entered as f e (False, ex) fr st'"
proof -
  obtain b' fr' where f: "exn st = None" "the_frame st = Some (f, b', fr')" using assms by (auto simp: entered_def)
  have f': "frame_ptr st = Some f" "blocks st f = Some b'" "frame_of b' = Some fr'" using f(2) by (auto simp: the_frame_iff)
  show ?thesis
  proof (cases "attentionPc fr'")
    case None
    then show ?thesis using f assms by (simp add: ejsClearAttention_def)
  next
    case (Some p)
    define fr2 where "fr2 = fr'\<lparr>fpc := p, attentionPc := None\<rparr>"
    define st2 where "st2 = set_block f (b'\<lparr>frame_of := Some fr2\<rparr>) st"
    have run: "ejsClearAttention st = Some st2" using f f'(1) Some by (simp add: ejsClearAttention_def set_frame_eq [OF f(2)] st2_def fr2_def)
    have links: "links (blocks st2) = links (blocks st)" using links_set_frame [OF f'(2,3), of fr2] by (simp add: st2_def fr2_def)
    have frame: "the_frame st2 = Some (f, b'\<lparr>frame_of := Some fr2\<rparr>, fr2)" using f' by (simp add: st2_def the_frame_iff)
    have keep: "\<exists>pb. blocks st2 a = Some pb \<and> prevException pb = x" if "\<exists>pb. blocks st a = Some pb \<and> prevException pb = x" for a x
      using that f' by (cases "a = f") (auto simp: st2_def)
    have keep': "\<exists>nb. blocks st2 a = Some nb \<and> restartAddress nb = None" if "\<exists>nb. blocks st a = Some nb \<and> restartAddress nb = None" for a
      using that f' by (cases "a = f") (auto simp: st2_def)
    obtain new below where o: "resume fr' = At (handlerStart ex)" "inException fr'" "\<not> inCatch fr'" "path (blocks st) (block_ptr st) (new # below) f"
      "suffix below as" "\<exists>pb. blocks st (hd (below @ [f])) = Some pb \<and> prevException pb = Some e"
      "\<exists>nb. blocks st new = Some nb \<and> restartAddress nb = None"
      using assms f(2) by (auto simp: entered_def)
    have "path (blocks st2) (block_ptr st2) (new # below) f" using path_cong [OF o(4) links] by (simp only: st2_def set_block_simps)
    moreover have "exn st2 = None" "resume fr2 = resume fr'" using f Some by (simp_all add: st2_def fr2_def resume_def)
    ultimately have "entered as f e (False, ex) fr st2" using frame o(1-3,5) keep [OF o(6)] keep' [OF o(7)]
      unfolding entered_def by (auto simp: fr2_def simp del: path.simps)
    with run show ?thesis by blast
  qed
qed

lemma check_finally_ok:
  assumes fr: "the_frame st = Some (f, b, fr)" and e: "exn st = Some e" and p: "path (blocks st) (block_ptr st) as f"
    and fresh: "fresh_ok st" and off: "current_pc fr = Some off" and inc: "inCatch fr \<Longrightarrow> as \<noteq> []"
  shows "outcome as f b fr e (first_finally off (handlers fr)) st (check_finally True st)"
proof (cases "find (\<lambda>ex. covers off ex \<and> finalizing ex) (handlers fr)")
  case None
  let ?fr = "fr\<lparr>inCatch := False, inException := False\<rparr>"
  have "check_finally True st = Some (set_block f (b\<lparr>frame_of := Some ?fr\<rparr>) st)"
    using fr e off None by (simp add: check_finally_def findExceptionHandler_def find_handler_finally set_frame_eq ejsClearAttention_def)
  with None show ?thesis by (auto simp: outcome_def first_finally_def passed_on_def intro!: exI [of _ ?fr])
next
  case (Some ex)
  obtain st1 below where st1: "(if inCatch fr then popExceptionBlock st else Some st) = Some st1" "path (blocks st1) (block_ptr st1) below f"
    "suffix below as" "the_frame st1 = Some (f, b, fr)" "exn st1 = Some e" "fresh_ok st1"
  proof (cases "inCatch fr")
    case True
    then obtain a as' where as: "as = a # as'" using inc by (cases as) auto
    then obtain ab where a: "block_ptr st = Some a" "blocks st a = Some ab" "path (blocks st) (prev ab) as' f"
      using p by (auto simp: links_def)
    have "popExceptionBlock st = Some (st\<lparr>block_ptr := prev ab\<rparr>)" using a e by (auto simp: popExceptionBlock_def split: option.splits)
    with True a as fr e fresh show ?thesis by (intro that [of "st\<lparr>block_ptr := prev ab\<rparr>" as']) (auto simp: the_frame_iff fresh_ok_def suffix_def)
  qed (use p fr e fresh in \<open>auto intro!: that [of st as]\<close>)
  obtain st2 where st2: "createExceptionBlock True ex EJS_EX_FINALLY st1 = Some st2" "entered as f e (False, ex) fr st2"
    using finally_ok [OF st1(4,5,2,3,6)] by blast
  obtain st3 where "ejsClearAttention st2 = Some st3" "entered as f e (False, ex) fr st3" using entered_clear [OF st2(2)] by blast
  then have "check_finally True st = Some st3" "entered as f e (False, ex) fr st3"
    using fr off Some st1(1) st2(1) by (simp_all add: check_finally_def findExceptionHandler_def find_handler_finally)
  with Some show ?thesis by (simp add: outcome_def first_finally_def)
qed

lemma check_catch_ok:
  assumes fr: "the_frame st = Some (f, b, fr)" and e: "exn st = Some e" and p: "path (blocks st) (block_ptr st) as f"
    and fresh: "fresh_ok st" and off: "current_pc fr = Some off" and inc: "inCatch fr \<Longrightarrow> as \<noteq> []" and hs: "handlers_ok (handlers fr)"
  shows "outcome as f b fr e (first_catch e off (handlers fr)) st (check_catch True st)"
proof (cases "find (\<lambda>ex. covers off ex \<and> catching ex \<and> accepts e ex) (handlers fr)")
  case None
  then have "check_catch True st = check_finally True st"
    using fr e off find_handler_catch [OF hs, of e off] by (simp add: check_catch_def findExceptionHandler_def)
  with check_finally_ok [OF assms(1-6)] None show ?thesis by (simp add: first_catch_def)
next
  case (Some ex)
  then have run: "check_catch True st = createExceptionBlock True ex (ex_flags ex) st"
    using fr e off find_handler_catch [OF hs, of e off] by (simp add: check_catch_def findExceptionHandler_def)
  have ex: "catching ex" "0 \<le> numBlocks ex" using Some hs by (auto simp: find_Some_iff handlers_ok_def)
  have "\<exists>st'. createExceptionBlock True ex (ex_flags ex) st = Some st' \<and> entered as f e (True, ex) fr st'"
    using iteration_ok [OF fr e _ p] catch_ok [OF fr e _ _ p ex(2) fresh] ex(1) by (cases "ex_flags ex AND EJS_EX_ITERATION = 0") (auto simp: catching_def)
  with Some run show ?thesis by (simp add: outcome_def first_catch_def)
qed

lemma check_ok:
  assumes fr: "the_frame st = Some (f, b, fr)" and e: "exn st = Some e" and p: "path (blocks st) (block_ptr st) as f"
    and fresh: "fresh_ok st" and off: "current_pc fr = Some off" and inc: "inCatch fr \<Longrightarrow> as \<noteq> []" and hs: "handlers_ok (handlers fr)"
  shows "outcome as f b fr e (decide fr e) st (checkExceptionHandlers True st)"
proof -
  consider "handlers fr = []" | "handlers fr \<noteq> []" "\<not> inException fr \<or> e = StopIterationType" | "handlers fr \<noteq> []" "inException fr" "e \<noteq> StopIterationType" by blast
  then show ?thesis
  proof cases
    case 1
    have "set_block f (b\<lparr>frame_of := Some fr\<rparr>) st = st" using fr by (cases st, cases b) (auto simp: set_block_def the_frame_iff fun_upd_idem)
    then have "passed_on f b fr st st" unfolding passed_on_def by (intro exI [of _ fr]) simp
    with 1 fr off show ?thesis by (simp add: outcome_def checkExceptionHandlers_def decide_def first_catch_def first_finally_def)
  next
    case 2
    then show ?thesis using check_catch_ok [OF assms] fr e off by (auto simp: checkExceptionHandlers_def decide_def)
  next
    case 3
    define g where "g = find (\<lambda>ex. handlerStart ex \<le> off \<and> off < handlerEnd ex \<and> finalizing ex) (handlers fr)"
    have "inHandler st EJS_EX_FINALLY = Some g" using fr off by (simp add: inHandler_def g_def finalizing_def)
    then show ?thesis
    proof (cases g)
      case None
      with 3 \<open>inHandler st _ = _\<close> have "checkExceptionHandlers True st = check_finally True st" using fr e by (simp add: checkExceptionHandlers_def)
      with check_finally_ok [OF assms(1-6)] 3 None off show ?thesis by (simp add: decide_def g_def)
    next
      case (Some ex)
      define fr1 where "fr1 = (SET_PC (handlerEnd ex + 1) fr)\<lparr>inCatch := False, inException := False\<rparr>"
      define b1 where "b1 = b\<lparr>frame_of := Some fr1\<rparr>"
      define st1 where "st1 = set_block f b1 st"
      have f: "frame_ptr st = Some f" "blocks st f = Some b" "frame_of b = Some fr" using fr by (auto simp: the_frame_iff)
      have 1: "the_frame st1 = Some (f, b1, fr1)" "exn st1 = Some e" "fresh_ok st1" "current_pc fr1 = Some (handlerEnd ex mod 2 ^ 32)" "\<not> inCatch fr1"
        "\<not> inException fr1"
        "handlers fr1 = handlers fr" "caller fr1 = caller fr" "stackReturn fr1 = stackReturn fr" "fstackBase fr1 = fstackBase fr"
        using f e fresh by (auto simp: st1_def b1_def the_frame_iff fr1_def SET_PC_def current_pc_def fresh_ok_def)
      have "path (blocks st1) (block_ptr st1) as f" unfolding st1_def b1_def
        by (simp, rule path_cong [OF p links_set_frame [OF f(2,3) 1(8)]])
      from check_catch_ok [OF 1(1,2) this 1(3,4)] 1(5,7) hs
      have c: "outcome as f b1 fr1 e (first_catch e (handlerEnd ex mod 2 ^ 32) (handlers fr)) st1 (check_catch True st1)" by simp
      have run: "checkExceptionHandlers True st = check_catch True st1"
        using 3 Some \<open>inHandler st _ = _\<close> fr e by (simp add: checkExceptionHandlers_def set_frame_eq st1_def b1_def fr1_def)
      have "passed_on f b1 fr1 st1 st' \<Longrightarrow> passed_on f b fr st st'" for st'
        using 1(8,9) by (auto simp: passed_on_def st1_def b1_def set_block_def)
      then have "outcome as f b fr e (first_catch e (handlerEnd ex mod 2 ^ 32) (handlers fr)) st (check_catch True st1)"
        using c entered_outside [OF _ 1(10,5,6)] unfolding outcome_def by (auto split: option.splits)
      with run 3 Some off show ?thesis by (simp add: decide_def g_def)
    qed
  qed
qed

text \<open>The first frame, from the current one along the callers, that decides for a handler.\<close>

fun dispatch :: "(nat \<Rightarrow> block option) \<Rightarrow> exn \<Rightarrow> (nat list \<times> nat) list \<Rightarrow> (nat list \<times> nat \<times> frame \<times> bool \<times> handler) option" where
  "dispatch S e [] = None"
| "dispatch S e ((as, f) # segs) =
     (case Option.bind (S f) frame_of of
        None \<Rightarrow> None
      | Some fr \<Rightarrow> (case decide fr e of Some r \<Rightarrow> Some (as, f, fr, r) | None \<Rightarrow> dispatch S e segs))"

definition ready_frame :: "(nat \<Rightarrow> block option) \<Rightarrow> nat list \<times> nat \<Rightarrow> bool" where
  "ready_frame S seg \<longleftrightarrow> (\<exists>b fr. S (snd seg) = Some b \<and> frame_of b = Some fr \<and> fpc fr \<noteq> Trap \<and> handlers_ok (handlers fr)
     \<and> (inCatch fr \<longrightarrow> fst seg \<noteq> []))"

lemma dispatch_cong: "(\<And>f. f \<in> snd ` set segs \<Longrightarrow> S' f = S f) \<Longrightarrow> dispatch S' e segs = dispatch S e segs"
  by (induction segs) (auto split: option.splits)

lemma process_step:
  assumes "frame_ptr st \<noteq> None" and "checkExceptionHandlers True st = Some st1" and "exn st1 = Some e" and "the_frame st1 = Some (f, b, fr)"
  shows "processException True st = processException True (st1\<lparr>stack_ptr := stackReturn fr, block_ptr := prev b, frame_ptr := caller fr\<rparr>)"
  using assms by (subst processException.simps) (auto simp: ejsClearAttention_def)

lemma process_ok:
  assumes "stacks (blocks st) (block_ptr st) (frame_ptr st) segs" and "distinct (map snd segs)" and "list_all (ready_frame (blocks st)) segs"
    and "fresh_ok st" and "exn st = Some e"
  shows "\<exists>r st'. processException True st = Some (r, st') \<and>
     (case dispatch (blocks st) e segs of
        Some (as, f, fr, h) \<Rightarrow> r \<and> entered as f e h fr st'
      | None \<Rightarrow> \<not> r \<and> frame_ptr st' = None \<and> exn st' = Some e)"
  using assms
proof (induction segs arbitrary: st)
  case Nil
  then show ?case by (subst processException.simps) (simp, blast)
next
  case (Cons seg segs)
  obtain as f where seg: "seg = (as, f)" by force
  from Cons.prems(3) obtain b fr where b: "blocks st f = Some b" "frame_of b = Some fr" "fpc fr \<noteq> Trap" "handlers_ok (handlers fr)" "inCatch fr \<longrightarrow> as \<noteq> []"
    by (auto simp: seg ready_frame_def)
  obtain off where off: "current_pc fr = Some off" using b(3) by (cases "fpc fr") (auto simp: current_pc_def)
  from Cons.prems(1) b have st: "frame_ptr st = Some f" "path (blocks st) (block_ptr st) as f" "stacks (blocks st) (prev b) (caller fr) segs"
    by (auto simp: seg links_def)
  have fr: "the_frame st = Some (f, b, fr)" using st b by (simp add: the_frame_iff)
  have out: "outcome as f b fr e (decide fr e) st (checkExceptionHandlers True st)"
    using check_ok [OF fr Cons.prems(5) st(2) Cons.prems(4) off _ b(4)] b(5) by blast
  show ?case
  proof (cases "decide fr e")
    case (Some h)
    then obtain st' where "checkExceptionHandlers True st = Some st'" "entered as f e h fr st'" using out by (auto simp: outcome_def)
    moreover from this have "exn st' = None" by (simp add: entered_def split_beta)
    ultimately show ?thesis using st(1) Some b by (subst processException.simps) (auto simp: seg)
  next
    case None
    then obtain fr' where c: "checkExceptionHandlers True st = Some (set_block f (b\<lparr>frame_of := Some fr'\<rparr>) st)" "caller fr' = caller fr"
      using out by (auto simp: outcome_def passed_on_def)
    define st1 where "st1 = set_block f (b\<lparr>frame_of := Some fr'\<rparr>) st"
    define st2 where "st2 = st1\<lparr>stack_ptr := stackReturn fr', block_ptr := prev b, frame_ptr := caller fr\<rparr>"
    have links: "links (blocks st2) = links (blocks st)" using links_set_frame [OF b(1,2) c(2)] by (simp add: st2_def st1_def)
    have f: "f \<notin> snd ` set segs" using Cons.prems(2) by (auto simp: seg)
    have other: "blocks st2 g = blocks st g" if "g \<in> snd ` set segs" for g using that f by (auto simp: st2_def st1_def)
    have "processException True st = processException True st2"
      using process_step [of st st1 e f "b\<lparr>frame_of := Some fr'\<rparr>" fr'] c st(1) Cons.prems(5) by (simp add: st2_def st1_def the_frame_iff)
    moreover have "stacks (blocks st2) (block_ptr st2) (frame_ptr st2) segs"
      using stacks_links [OF st(3), of "blocks st2"] links by (simp add: st2_def)
    moreover have "list_all (ready_frame (blocks st2)) segs"
      using Cons.prems(3) other by (auto simp: list_all_iff ready_frame_def)
    moreover have "fresh_ok st2" "exn st2 = Some e" using Cons.prems(4,5) b(1) by (auto simp: fresh_ok_def st2_def st1_def)
    moreover have "dispatch (blocks st2) e segs = dispatch (blocks st) e segs" by (rule dispatch_cong) (rule other)
    ultimately show ?thesis using Cons.IH [of st2] Cons.prems(2) None b by (simp add: seg)
  qed
qed

text \<open>
  Property C9. An exception is handled by the first frame, from the current one along the callers, that decides for one
  of its handlers, and the frames above are dropped. The handler goes on at its start with the exception
  taken: a catch clause as its argument, with the blocks and operands from before its try block, a finally clause
  kept for its end; an iteration just ends. Without such a frame none is left and the exception stays. No
  null pointer is followed.
\<close>

theorem exception_dispatch:
  assumes "stacks (blocks st) (block_ptr st) (frame_ptr st) segs" and "distinct (map snd segs)" and "list_all (ready_frame (blocks st)) segs"
    and "fresh_ok st" and "exn st = Some e"
  shows "\<exists>r st'. processException True st = Some (r, st') \<and>
     (case dispatch (blocks st) e segs of
        Some (as, f, fr, h) \<Rightarrow> r \<and> entered as f e h fr st'
      | None \<Rightarrow> \<not> r \<and> frame_ptr st' = None \<and> exn st' = Some e)"
  using assms by (rule process_ok)


text \<open>A function with a try statement calls one without; the exception goes to the catch clause of the caller.\<close>

definition sample_handler :: handler where
  "sample_handler = \<lparr>ex_catchType = CatchType (''Error'', ''public''), ex_flags = EJS_EX_CATCH, tryStart = 4, tryEnd = 10,
     handlerStart = 10, handlerEnd = 20, numBlocks = 0, numStack = 0\<rparr>"

definition sample_frame :: "nat option \<Rightarrow> handler list \<Rightarrow> frame" where
  "sample_frame c hs = \<lparr>caller = c, fstackBase = 5, stackReturn = 3, fpc = At 8, attentionPc = None, handlers = hs, inCatch = False, inException = False\<rparr>"

definition sample_block :: "nat option \<Rightarrow> frame option \<Rightarrow> block" where
  "sample_block p fr = \<lparr>prev = p, stackBase = 5, prevException = None, restartAddress = None, frame_of = fr\<rparr>"

definition type_error :: exn where
  "type_error = Object \<lparr>type_chain = [(''TypeError'', ''public''), (''Error'', ''public''), (''Object'', ''public'')], interfaces = []\<rparr>"

definition sample_machine :: machine where
  "sample_machine = \<lparr>blocks = [0 \<mapsto> sample_block None (Some (sample_frame None [sample_handler])), 1 \<mapsto> sample_block (Some 0) None,
       2 \<mapsto> sample_block (Some 1) (Some (sample_frame (Some 0) []))],
     unused = 3, block_ptr = Some 2, frame_ptr = Some 2, stack_ptr = 9, exn = Some type_error, exceptionArg = None\<rparr>"

theorem exception_dispatch_witness:
  "\<exists>st' fr. processException True sample_machine = Some (True, st') \<and> entered [1] 0 type_error (True, sample_handler) fr st'"
proof -
  have "\<exists>r st'. processException True sample_machine = Some (r, st') \<and>
     (case dispatch (blocks sample_machine) type_error [([], 2), ([1], 0)] of
        Some (as, f, fr, h) \<Rightarrow> r \<and> entered as f type_error h fr st'
      | None \<Rightarrow> \<not> r \<and> frame_ptr st' = None \<and> exn st' = Some type_error)"
    by (rule exception_dispatch)
      (auto simp: sample_machine_def links_def sample_block_def sample_frame_def ready_frame_def handlers_ok_def sample_handler_def
        catching_def fresh_ok_def EJS_EX_CATCH_def)
  moreover have "dispatch (blocks sample_machine) type_error [([], 2), ([1], 0)]
      = Some ([1], 0, sample_frame None [sample_handler], True, sample_handler)"
    by (simp add: sample_machine_def sample_block_def sample_frame_def decide_def current_pc_def first_catch_def first_finally_def
        covers_def catching_def accepts_def sample_handler_def EJS_EX_CATCH_def type_error_def ejsIsA_def ejsIsTypeSubType_def)
  ultimately show ?thesis by auto
qed

text \<open>
  Property C33. A try statement inside of a catch clause catches nothing: while a frame is in a catch clause, and not
  inside of a finally clause, the catch clauses that cover the place are not looked at, whatever they accept, for an exception other than
  \<^verbatim>\<open>StopIteration\<close>. The first finally clause that covers the place is entered, and without one the exception leaves the frame.
\<close>

theorem nested_catch_ignored:
  assumes "the_frame st = Some (f, b, fr)" and "exn st = Some (Object t)" and "path (blocks st) (block_ptr st) as f" and "as \<noteq> []"
    and "fresh_ok st" and "fpc fr = At p" and "handlers_ok (handlers fr)" and "inException fr"
    and "\<forall>ex \<in> set (handlers fr). finalizing ex \<longrightarrow> \<not> (handlerStart ex \<le> (p - 1) mod 2 ^ 32 \<and> (p - 1) mod 2 ^ 32 < handlerEnd ex)"
  shows "\<exists>st'. checkExceptionHandlers True st = Some st' \<and>
     (case find (\<lambda>ex. covers ((p - 1) mod 2 ^ 32) ex \<and> finalizing ex) (handlers fr) of
        Some ex \<Rightarrow> entered as f (Object t) (False, ex) fr st'
      | None \<Rightarrow> exn st' = Some (Object t))"
proof -
  have off: "current_pc fr = Some ((p - 1) mod 2 ^ 32)" using assms(6) by (simp add: current_pc_def)
  have "find (\<lambda>ex. handlerStart ex \<le> (p - 1) mod 2 ^ 32 \<and> (p - 1) mod 2 ^ 32 < handlerEnd ex \<and> finalizing ex) (handlers fr) = None"
    using assms(9) by (auto simp: find_None_iff)
  then have "decide fr (Object t) = first_finally ((p - 1) mod 2 ^ 32) (handlers fr)" using assms(8) by (simp add: decide_def off)
  with check_ok [OF assms(1,2,3,5) off _ assms(7)] assms(2,4) show ?thesis
    by (auto simp: outcome_def passed_on_def first_finally_def split: option.splits)
qed

definition nested_handler :: handler where
  "nested_handler = \<lparr>ex_catchType = VoidType, ex_flags = EJS_EX_CATCH, tryStart = 12, tryEnd = 15, handlerStart = 15, handlerEnd = 18, numBlocks = 1, numStack = 0\<rparr>"

definition catching_machine :: machine where
  "catching_machine = \<lparr>blocks = [0 \<mapsto> sample_block None (Some ((sample_frame None [nested_handler, sample_handler])\<lparr>fpc := At 14, inCatch := True, inException := True\<rparr>)),
       1 \<mapsto> sample_block (Some 0) None],
     unused = 2, block_ptr = Some 1, frame_ptr = Some 0, stack_ptr = 5, exn = Some type_error, exceptionArg = None\<rparr>"

theorem nested_catch_ignored_witness:
  "(\<exists>st'. checkExceptionHandlers True catching_machine = Some st' \<and> exn st' = Some type_error) \<and> covers 13 nested_handler"
proof
  let ?fr = "(sample_frame None [nested_handler, sample_handler])\<lparr>fpc := At 14, inCatch := True, inException := True\<rparr>"
  have "\<exists>st'. checkExceptionHandlers True catching_machine = Some st' \<and>
     (case find (\<lambda>ex. covers ((14 - 1) mod 2 ^ 32) ex \<and> finalizing ex) (handlers ?fr) of
        Some ex \<Rightarrow> entered [1] 0 type_error (False, ex) ?fr st'
      | None \<Rightarrow> exn st' = Some type_error)"
    unfolding type_error_def
    by (rule nested_catch_ignored)
      (auto simp: catching_machine_def the_frame_def sample_block_def sample_frame_def links_def fresh_ok_def handlers_ok_def
        nested_handler_def sample_handler_def catching_def finalizing_def EJS_EX_CATCH_def EJS_EX_FINALLY_def type_error_def)
  moreover have "find (\<lambda>ex. covers ((14 - 1) mod 2 ^ 32) ex \<and> finalizing ex) (handlers ?fr) = None"
    by (simp add: sample_frame_def nested_handler_def sample_handler_def finalizing_def EJS_EX_CATCH_def EJS_EX_FINALLY_def)
  ultimately show "\<exists>st'. checkExceptionHandlers True catching_machine = Some st' \<and> exn st' = Some type_error" by simp
  show "covers 13 nested_handler" by (simp add: covers_def nested_handler_def)
qed

text \<open>
  Property C32. An exception that a finally clause interrupts is thrown again at the end of the clause: when the code of the
  clause has run, and has left the blocks as they were, the instruction at its end drops the block of the clause,
  takes the exception up again and goes on behind the last handler of the try statement.
\<close>

theorem finally_rethrows:
  assumes "entered as f e (False, ex) fr0 st" and "the_frame st = Some (f, b, fr)"
    and "st1 = set_block f (b\<lparr>frame_of := Some (fr\<lparr>fpc := At q, attentionPc := None\<rparr>)\<rparr>) st"
  shows "\<exists>st' b' fr' below. op_END_EXCEPTION st1 = Some st' \<and> exn st' = Some e \<and> the_frame st' = Some (f, b', fr')
     \<and> resume fr' = At (end_exception ((q - 1) mod 2 ^ 32) (handlers fr) + 1) \<and> fpc fr' = Trap \<and> \<not> inException fr' \<and> \<not> inCatch fr'
     \<and> suffix below as \<and> path (blocks st') (block_ptr st') below f"
proof -
  obtain new below nb pb where o: "inException fr" "path (blocks st) (block_ptr st) (new # below) f" "blocks st new = Some nb" "restartAddress nb = None"
    "suffix below as" "blocks st (hd (below @ [f])) = Some pb" "prevException pb = Some e" "exn st = None"
    using assms(1,2) by (auto simp: entered_def)
  have f: "frame_ptr st = Some f" "blocks st f = Some b" "frame_of b = Some fr" using assms(2) by (auto simp: the_frame_iff)
  define d where "d = hd (below @ [f])"
  have new: "block_ptr st = Some new" "frame_of nb = None" "path (blocks st) (prev nb) below f" using o(2,3) by (auto simp: links_def)
  then have nd: "prev nb = Some d" "new \<noteq> f" using path_top [OF new(3)] f o(3) by (auto simp: d_def)
  define E where "E = end_exception ((q - 1) mod 2 ^ 32) (handlers fr)"
  define fr' where "fr' = fr\<lparr>inCatch := False, inException := False, fpc := Trap, attentionPc := Some (At (E + 1))\<rparr>"
  define S where "S = (if d = f then (blocks st)(f \<mapsto> b\<lparr>prevException := None, frame_of := Some fr'\<rparr>)
     else (blocks st)(d \<mapsto> pb\<lparr>prevException := None\<rparr>, f \<mapsto> b\<lparr>frame_of := Some fr'\<rparr>))"
  define st' where "st' = st\<lparr>exn := Some e, blocks := S, block_ptr := Some d\<rparr>"
  have run: "op_END_EXCEPTION st1 = Some st'"
  proof (cases "d = f")
    case True
    then have [simp]: "pb = b" using o(6) f by (simp add: d_def)
    show ?thesis using True f o(1,3,4,6-8) new(1) nd
      by (simp add: assms(3) op_END_EXCEPTION_def popExceptionBlock_def ejsAttention_def findEndException_def current_pc_def set_frame_def the_frame_def
          set_block_def SET_PC_def Let_def E_def st'_def S_def fr'_def)
  next
    case False
    then have "blocks st d = Some pb" using o(6) by (simp add: d_def)
    then show ?thesis using False f o(1,3,4,7,8) new(1) nd
      by (simp add: assms(3) op_END_EXCEPTION_def popExceptionBlock_def ejsAttention_def findEndException_def current_pc_def set_frame_def the_frame_def
          set_block_def SET_PC_def Let_def E_def st'_def S_def fr'_def fun_upd_twist)
  qed
  have "links S = links (blocks st)" using f o(6) by (auto simp: S_def links_def fr'_def fun_eq_iff d_def)
  then have "path S (Some d) below f" using path_cong [OF new(3)] nd(1) by simp
  moreover have "the_frame st' = Some (f, if d = f then b\<lparr>prevException := None, frame_of := Some fr'\<rparr> else b\<lparr>frame_of := Some fr'\<rparr>, fr')"
    using f by (auto simp: st'_def S_def the_frame_iff)
  ultimately show ?thesis using run o(5) by (auto simp: st'_def fr'_def resume_def E_def)
qed


definition finally_handler :: handler where
  "finally_handler = \<lparr>ex_catchType = VoidType, ex_flags = EJS_EX_FINALLY, tryStart = 4, tryEnd = 10, handlerStart = 10, handlerEnd = 20, numBlocks = 0, numStack = 0\<rparr>"

definition throwing_machine :: machine where
  "throwing_machine = \<lparr>blocks = [0 \<mapsto> sample_block None (Some (sample_frame None [finally_handler]))],
     unused = 1, block_ptr = Some 0, frame_ptr = Some 0, stack_ptr = 5, exn = Some type_error, exceptionArg = None\<rparr>"

theorem finally_rethrows_witness:
  "\<exists>st b fr st'. checkExceptionHandlers True throwing_machine = Some st \<and> exn st = None \<and> the_frame st = Some (0, b, fr) \<and> resume fr = At 10
     \<and> op_END_EXCEPTION (set_block 0 (b\<lparr>frame_of := Some (fr\<lparr>fpc := At 20, attentionPc := None\<rparr>)\<rparr>) st) = Some st' \<and> exn st' = Some type_error"
proof -
  have "outcome [] 0 (sample_block None (Some (sample_frame None [finally_handler]))) (sample_frame None [finally_handler]) type_error
      (decide (sample_frame None [finally_handler]) type_error) throwing_machine (checkExceptionHandlers True throwing_machine)"
    by (rule check_ok [where off = 7])
      (auto simp: throwing_machine_def the_frame_def sample_block_def sample_frame_def fresh_ok_def handlers_ok_def current_pc_def
        finally_handler_def catching_def EJS_EX_CATCH_def EJS_EX_FINALLY_def)
  moreover have "decide (sample_frame None [finally_handler]) type_error = Some (False, finally_handler)"
    by (simp add: decide_def sample_frame_def current_pc_def first_catch_def first_finally_def covers_def catching_def finalizing_def
        finally_handler_def EJS_EX_CATCH_def EJS_EX_FINALLY_def)
  ultimately obtain st where st: "checkExceptionHandlers True throwing_machine = Some st"
    "entered [] 0 type_error (False, finally_handler) (sample_frame None [finally_handler]) st" by (auto simp: outcome_def)
  then obtain b fr where fr: "exn st = None" "the_frame st = Some (0, b, fr)" "resume fr = At 10" by (auto simp: entered_def finally_handler_def)
  from finally_rethrows [OF st(2) fr(2) refl, of 20] st(1) fr show ?thesis by blast
qed

section \<open>The machine keeps its stacks\<close>

text \<open>
  What all operations do to the blocks there are: links, handlers and restart addresses stay, frames other than the current
  one stay as they are, new blocks are put at unused addresses.
\<close>

definition same_frame :: "bool \<Rightarrow> frame option \<Rightarrow> frame option \<Rightarrow> bool" where
  "same_frame exact x y \<longleftrightarrow> (case (x, y) of (None, None) \<Rightarrow> True
     | (Some fr, Some fr') \<Rightarrow> caller fr' = caller fr \<and> handlers fr' = handlers fr \<and> (exact \<longrightarrow> fr' = fr) | _ \<Rightarrow> False)"

definition keeps :: "nat \<Rightarrow> machine \<Rightarrow> machine \<Rightarrow> bool" where
  "keeps f st st' \<longleftrightarrow> frame_ptr st' = frame_ptr st \<and> fresh_ok st'
     \<and> (\<forall>a b. blocks st a = Some b \<longrightarrow> (\<exists>b'. blocks st' a = Some b' \<and> prev b' = prev b \<and> restartAddress b' = restartAddress b
           \<and> same_frame (a \<noteq> f) (frame_of b) (frame_of b')))
     \<and> (\<forall>a b'. blocks st a = None \<longrightarrow> blocks st' a = Some b' \<longrightarrow> restartAddress b' = None)"

lemma same_frame_refl [simp]: "same_frame x fr fr"
  by (simp add: same_frame_def split: option.splits)

lemma same_frame_trans: "same_frame x a b \<Longrightarrow> same_frame x b c \<Longrightarrow> same_frame x a c"
  by (auto simp: same_frame_def split: option.splits)

lemma keeps_same:
  "fresh_ok st \<Longrightarrow> blocks st' = blocks st \<Longrightarrow> unused st' = unused st \<Longrightarrow> frame_ptr st' = frame_ptr st \<Longrightarrow> keeps f st st'"
  by (auto simp: keeps_def fresh_ok_def)

lemma keeps_trans: "keeps f st st1 \<Longrightarrow> keeps f st1 st2 \<Longrightarrow> keeps f st st2"
proof -
  assume 1: "keeps f st st1" and 2: "keeps f st1 st2"
  have "\<exists>b'. blocks st2 a = Some b' \<and> prev b' = prev b \<and> restartAddress b' = restartAddress b \<and> same_frame (a \<noteq> f) (frame_of b) (frame_of b')"
    if old: "blocks st a = Some b" for a b
  proof -
    obtain b1 where b1: "blocks st1 a = Some b1" "prev b1 = prev b" "restartAddress b1 = restartAddress b" "same_frame (a \<noteq> f) (frame_of b) (frame_of b1)"
      using 1 old unfolding keeps_def by blast
    obtain b2 where "blocks st2 a = Some b2" "prev b2 = prev b1" "restartAddress b2 = restartAddress b1" "same_frame (a \<noteq> f) (frame_of b1) (frame_of b2)"
      using 2 b1(1) unfolding keeps_def by blast
    with b1 same_frame_trans show ?thesis by auto
  qed
  moreover have "restartAddress b' = None" if "blocks st a = None" "blocks st2 a = Some b'" for a b'
  proof (cases "blocks st1 a")
    case None
    then show ?thesis using 2 that by (auto simp: keeps_def)
  next
    case (Some b1)
    then have "restartAddress b1 = None" using 1 that(1) by (auto simp: keeps_def)
    moreover obtain b2 where "blocks st2 a = Some b2" "restartAddress b2 = restartAddress b1" using 2 Some unfolding keeps_def by blast
    ultimately show ?thesis using that(2) by simp
  qed
  ultimately show ?thesis using 1 2 by (simp add: keeps_def)
qed

lemma keeps_fresh: "keeps f st st' \<Longrightarrow> fresh_ok st'" and keeps_ptr: "keeps f st st' \<Longrightarrow> frame_ptr st' = frame_ptr st"
  by (simp_all add: keeps_def)

lemma keeps_set_frame:
  assumes "fresh_ok st" and "the_frame st = Some (f, b, fr)" and "set_frame fr' st = Some st'" and "caller fr' = caller fr" and "handlers fr' = handlers fr"
  shows "keeps f st st'"
proof -
  have f: "frame_ptr st = Some f" "blocks st f = Some b" "frame_of b = Some fr" using assms(2) by (auto simp: the_frame_iff)
  have "same_frame False (Some fr) (Some fr')" using assms(4,5) by (simp add: same_frame_def)
  moreover have "st' = set_block f (b\<lparr>frame_of := Some fr'\<rparr>) st" using assms(3) set_frame_eq [OF assms(2)] by simp
  ultimately show ?thesis using f assms(1) by (auto simp: keeps_def fresh_ok_def split: if_splits)
qed

lemma keeps_pending:
  assumes "fresh_ok st" and "blocks st a = Some b"
  shows "keeps f st (set_block a (b\<lparr>prevException := x\<rparr>) st)"
  using assms by (auto simp: keeps_def fresh_ok_def)

lemma keeps_new:
  assumes "fresh_ok st" and "restartAddress b = None"
  shows "keeps f st ((set_block (unused st) b st)\<lparr>block_ptr := p, unused := Suc (unused st)\<rparr>)"
  using assms by (auto simp: keeps_def fresh_ok_def)

lemma keeps_attention: "fresh_ok st \<Longrightarrow> frame_ptr st = Some f \<Longrightarrow> ejsAttention st = Some st' \<Longrightarrow> keeps f st st'"
  by (auto simp: ejsAttention_def bind_eq_Some_conv the_frame_iff intro: keeps_same keeps_set_frame split: if_splits)

lemma keeps_clear: "fresh_ok st \<Longrightarrow> frame_ptr st = Some f \<Longrightarrow> ejsClearAttention st = Some st' \<Longrightarrow> keeps f st st'"
  by (auto simp: ejsClearAttention_def bind_eq_Some_conv the_frame_iff intro: keeps_same keeps_set_frame split: if_splits option.splits)

lemma keeps_pop: "fresh_ok st \<Longrightarrow> ejsPopBlock st = Some st' \<Longrightarrow> keeps f st st'"
  by (auto simp: ejsPopBlock_def bind_eq_Some_conv intro: keeps_same)

lemma keeps_pops: "fresh_ok st \<Longrightarrow> pop_blocks n st = Some st' \<Longrightarrow> keeps f st st'"
proof (induction n arbitrary: st)
  case (Suc n)
  then obtain st1 where 1: "ejsPopBlock st = Some st1" "pop_blocks n st1 = Some st'" by (auto simp: bind_eq_Some_conv)
  have k: "keeps f st st1" by (rule keeps_pop [OF Suc.prems(1) 1(1)])
  show ?case by (rule keeps_trans [OF k Suc.IH [OF keeps_fresh [OF k] 1(2)]])
qed (auto intro: keeps_same)

lemma keeps_drop: "fresh_ok st \<Longrightarrow> drop_try_blocks ex st = Some st' \<Longrightarrow> keeps f st st'"
proof -
  assume st: "fresh_ok st" and run: "drop_try_blocks ex st = Some st'"
  then obtain n st1 x where 1: "pop_blocks n st = Some st1" "st' = st1\<lparr>stack_ptr := x\<rparr>" by (auto simp: drop_try_blocks_def bind_eq_Some_conv)
  have "keeps f st st1" by (rule keeps_pops [OF st 1(1)])
  moreover have "keeps f st1 st'" using keeps_fresh [OF calculation] 1(2) by (intro keeps_same) auto
  ultimately show ?thesis by (rule keeps_trans)
qed


text \<open>Chains of such steps, from a machine that keeps its stacks so far.\<close>

lemma keeps_cong: "blocks st2 = blocks st1 \<Longrightarrow> unused st2 = unused st1 \<Longrightarrow> frame_ptr st2 = frame_ptr st1 \<Longrightarrow> keeps f st st2 = keeps f st st1"
  by (simp add: keeps_def fresh_ok_def)

lemma keeps_fields [simp]:
  "keeps f st (st1\<lparr>exn := x\<rparr>) = keeps f st st1" "keeps f st (st1\<lparr>exceptionArg := y\<rparr>) = keeps f st st1"
  "keeps f st (st1\<lparr>block_ptr := p\<rparr>) = keeps f st st1" "keeps f st (st1\<lparr>stack_ptr := n\<rparr>) = keeps f st st1"
  by (rule keeps_cong; simp)+

lemma keeps_steps:
  assumes "frame_ptr st = Some f"
  shows "set_frame fr' st1 = Some st2 \<Longrightarrow> the_frame st1 = Some (g, b, fr) \<Longrightarrow> caller fr' = caller fr \<Longrightarrow> handlers fr' = handlers fr \<Longrightarrow> keeps f st st1 \<Longrightarrow> keeps f st st2"
    and "ejsAttention st1 = Some st2 \<Longrightarrow> keeps f st st1 \<Longrightarrow> keeps f st st2"
    and "ejsClearAttention st1 = Some st2 \<Longrightarrow> keeps f st st1 \<Longrightarrow> keeps f st st2"
    and "drop_try_blocks ex st1 = Some st2 \<Longrightarrow> keeps f st st1 \<Longrightarrow> keeps f st st2"
    and "blocks st1 a = Some pb \<Longrightarrow> keeps f st st1 \<Longrightarrow> keeps f st (set_block a (pb\<lparr>prevException := x\<rparr>) st1)"
    and "restartAddress nb = None \<Longrightarrow> keeps f st st1 \<Longrightarrow> keeps f st ((set_block (unused st1) nb st1)\<lparr>block_ptr := p, unused := Suc (unused st1)\<rparr>)"
proof -
  show "set_frame fr' st1 = Some st2 \<Longrightarrow> the_frame st1 = Some (g, b, fr) \<Longrightarrow> caller fr' = caller fr \<Longrightarrow> handlers fr' = handlers fr \<Longrightarrow> keeps f st st1 \<Longrightarrow> keeps f st st2"
  proof -
    assume *: "set_frame fr' st1 = Some st2" "the_frame st1 = Some (g, b, fr)" "caller fr' = caller fr" "handlers fr' = handlers fr" "keeps f st st1"
    then have "g = f" using assms by (auto simp: keeps_def the_frame_iff)
    with * have "keeps f st1 st2" using keeps_set_frame [OF keeps_fresh] by blast
    with *(5) show ?thesis by (rule keeps_trans)
  qed
  have ptr: "frame_ptr st1 = Some f" "fresh_ok st1" if "keeps f st st1" for st1 using that assms by (auto simp: keeps_def)
  show "ejsAttention st1 = Some st2 \<Longrightarrow> keeps f st st1 \<Longrightarrow> keeps f st st2" using keeps_attention ptr keeps_trans by blast
  show "ejsClearAttention st1 = Some st2 \<Longrightarrow> keeps f st st1 \<Longrightarrow> keeps f st st2" using keeps_clear ptr keeps_trans by blast
  show "drop_try_blocks ex st1 = Some st2 \<Longrightarrow> keeps f st st1 \<Longrightarrow> keeps f st st2" using keeps_drop ptr keeps_trans by blast
  show "blocks st1 a = Some pb \<Longrightarrow> keeps f st st1 \<Longrightarrow> keeps f st (set_block a (pb\<lparr>prevException := x\<rparr>) st1)" using keeps_pending ptr keeps_trans by blast
  show "restartAddress nb = None \<Longrightarrow> keeps f st st1 \<Longrightarrow> keeps f st ((set_block (unused st1) nb st1)\<lparr>block_ptr := p, unused := Suc (unused st1)\<rparr>)"
    using keeps_new ptr keeps_trans by blast
qed

definition keeping :: "nat \<Rightarrow> machine \<Rightarrow> machine option \<Rightarrow> bool" where
  "keeping f st m \<longleftrightarrow> (\<forall>st'. m = Some st' \<longrightarrow> keeps f st st')"

lemma keeping_rules:
  "keeps f st x \<Longrightarrow> keeping f st (Some x)"
  "keeping f st m \<Longrightarrow> (\<And>x. keeps f st x \<Longrightarrow> keeping f st (h x)) \<Longrightarrow> keeping f st (Option.bind m h)"
  "(\<And>g b fr. the_frame s = Some (g, b, fr) \<Longrightarrow> keeping f st (k g b fr)) \<Longrightarrow> keeping f st (Option.bind (the_frame s) (\<lambda>(g, b, fr). k g b fr))"
  "(\<And>p. keeping f st (h1 p)) \<Longrightarrow> keeping f st (Option.bind (block_ptr s) h1)"
  "(\<And>b. blocks s a = Some b \<Longrightarrow> keeping f st (h2 b)) \<Longrightarrow> keeping f st (Option.bind (blocks s a) h2)"
  "(\<And>ex. keeping f st (h3 ex)) \<Longrightarrow> keeping f st (Option.bind (findExceptionHandler s kind) h3)"
  "(\<And>ex. keeping f st (h3 ex)) \<Longrightarrow> keeping f st (Option.bind (inHandler s kind) h3)"
  "(\<And>off. keeping f st (h4 off)) \<Longrightarrow> keeping f st (Option.bind (findEndException s) h4)"
  "(\<And>off. keeping f st (h6 off)) \<Longrightarrow> keeping f st (Option.bind (case q of At off \<Rightarrow> Some off | Trap \<Rightarrow> None) h6)"
  "(c \<Longrightarrow> keeping f st m) \<Longrightarrow> (\<not> c \<Longrightarrow> keeping f st m') \<Longrightarrow> keeping f st (if c then m else m')"
  "(z = None \<Longrightarrow> keeping f st m) \<Longrightarrow> (\<And>y. z = Some y \<Longrightarrow> keeping f st (h5 y)) \<Longrightarrow> keeping f st (case z of None \<Rightarrow> m | Some y \<Rightarrow> h5 y)"
  by (auto simp: keeping_def bind_eq_Some_conv split: option.splits pc.splits)

lemma keeping_steps:
  assumes "frame_ptr st = Some f"
  shows "the_frame st1 = Some (g, b, fr) \<Longrightarrow> caller fr' = caller fr \<Longrightarrow> handlers fr' = handlers fr \<Longrightarrow> keeps f st st1 \<Longrightarrow> keeping f st (set_frame fr' st1)"
    "keeps f st st1 \<Longrightarrow> keeping f st (ejsAttention st1)" "keeps f st st1 \<Longrightarrow> keeping f st (ejsClearAttention st1)"
    "keeps f st st1 \<Longrightarrow> keeping f st (drop_try_blocks ex st1)"
  using keeps_steps [OF assms] unfolding keeping_def by blast+

lemma keeping_pop_exception:
  assumes fp: "frame_ptr st = Some f" and "keeps f st st1"
  shows "keeping f st (popExceptionBlock st1)"
  unfolding popExceptionBlock_def Let_def
  by (intro keeping_rules keeping_steps [OF fp] | (simp add: keeps_steps [OF fp] assms; fail))+

lemma keeping_create_exception:
  assumes fp: "frame_ptr st = Some f" and "keeps f st st1"
  shows "keeping f st (createExceptionBlock alloc ex flags st1)"
  unfolding createExceptionBlock_def Let_def
  by (intro keeping_rules keeping_steps [OF fp] | (simp add: keeps_steps [OF fp] assms SET_PC_def; fail))+

lemma keeping_check_finally:
  assumes fp: "frame_ptr st = Some f" and "keeps f st st1"
  shows "keeping f st (check_finally alloc st1)"
  unfolding check_finally_def Let_def
  by (intro keeping_rules keeping_steps [OF fp] keeping_create_exception [OF fp] keeping_pop_exception [OF fp] | (simp add: assms; fail))+

lemma keeping_check_catch:
  assumes fp: "frame_ptr st = Some f" and "keeps f st st1"
  shows "keeping f st (check_catch alloc st1)"
  unfolding check_catch_def Let_def
  by (intro keeping_rules keeping_create_exception [OF fp] keeping_check_finally [OF fp] | (simp add: assms; fail))+

lemma keeping_check:
  assumes fp: "frame_ptr st = Some f" and "keeps f st st1"
  shows "keeping f st (checkExceptionHandlers alloc st1)"
  unfolding checkExceptionHandlers_def Let_def
  by (intro keeping_rules keeping_steps [OF fp] keeping_check_catch [OF fp] keeping_check_finally [OF fp] | (simp add: assms SET_PC_def; fail))+

end
