(* ===== verification/ExceptionRuns.thy ===== *)
theory ExceptionRuns
  imports Exceptions
begin

text \<open>
  Runs of the machine of \<^verbatim>\<open>Exceptions\<close>: a step relation over its instructions (\<^verbatim>\<open>vm/ejsInterp.c\<close>), the invariant of its
  blocks and frames, and that every state that is reached has it, up to the one instruction that saves the trap as the address to restart at;
  till then no instruction follows a null block or frame.
\<close>

section \<open>Runs of the machine\<close>

text \<open>
  The invariant. The blocks of every frame lie between it and its caller; a frame in a handler has a block of its
  own; the callers are at an instruction of their code, and the current frame is there or goes on there after the trap.
\<close>

definition frame_inv :: "(nat \<Rightarrow> block option) \<Rightarrow> nat list \<times> nat \<Rightarrow> bool" where
  "frame_inv S seg \<longleftrightarrow> (\<exists>b fr. S (snd seg) = Some b \<and> frame_of b = Some fr \<and> handlers_ok (handlers fr) \<and> resume fr \<noteq> Trap
     \<and> (inCatch fr \<longrightarrow> inException fr) \<and> (inException fr \<longrightarrow> fst seg \<noteq> []))"

definition calm :: "(nat \<Rightarrow> block option) \<Rightarrow> nat list \<times> nat \<Rightarrow> bool" where
  "calm S seg \<longleftrightarrow> (\<exists>b fr. S (snd seg) = Some b \<and> frame_of b = Some fr \<and> attentionPc fr = None)"

definition restarts_ok :: "machine \<Rightarrow> bool" where
  "restarts_ok st \<longleftrightarrow> (\<forall>a b. blocks st a = Some b \<longrightarrow> restartAddress b \<noteq> Some Trap)"

definition machine_inv :: "machine \<Rightarrow> (nat list \<times> nat) list \<Rightarrow> bool" where
  "machine_inv st segs \<longleftrightarrow> segs \<noteq> [] \<and> stacks (blocks st) (block_ptr st) (frame_ptr st) segs \<and> distinct (map snd segs) \<and> fresh_ok st
     \<and> list_all (frame_inv (blocks st)) segs \<and> list_all (calm (blocks st)) (tl segs) \<and> restarts_ok st"

lemma keeps_block:
  assumes "keeps f st st'" and "blocks st a = Some b"
  obtains b' where "blocks st' a = Some b'" "prev b' = prev b" "restartAddress b' = restartAddress b" "same_frame (a \<noteq> f) (frame_of b) (frame_of b')"
  using assms unfolding keeps_def by blast

lemma same_frame_Some: "same_frame x (Some fr) y \<Longrightarrow> \<exists>fr'. y = Some fr' \<and> caller fr' = caller fr \<and> handlers fr' = handlers fr \<and> (x \<longrightarrow> fr' = fr)"
  by (cases y) (auto simp: same_frame_def)

lemma keeps_links: "keeps f st st' \<Longrightarrow> links (blocks st) a = Some q \<Longrightarrow> links (blocks st') a = Some q"
proof -
  assume k: "keeps f st st'" and l: "links (blocks st) a = Some q"
  then obtain b where b: "blocks st a = Some b" "q = (prev b, map_option caller (frame_of b))" by (auto simp: links_def)
  obtain b' where b': "blocks st' a = Some b'" "prev b' = prev b" "same_frame (a \<noteq> f) (frame_of b) (frame_of b')" using keeps_block [OF k b(1)] by blast
  then have "map_option caller (frame_of b') = map_option caller (frame_of b)" by (auto simp: same_frame_def split: option.splits)
  with b b' show ?thesis by (simp add: links_def)
qed

lemma keeps_other: "keeps f st st' \<Longrightarrow> a \<noteq> f \<Longrightarrow> blocks st a = Some b \<Longrightarrow> frame_of b = Some fr \<Longrightarrow> \<exists>b'. blocks st' a = Some b' \<and> frame_of b' = Some fr"
  by (erule (1) keeps_block) (auto dest: same_frame_Some)

lemma keeps_current:
  "keeps f st st' \<Longrightarrow> blocks st f = Some b \<Longrightarrow> frame_of b = Some fr \<Longrightarrow>
     \<exists>b' fr'. blocks st' f = Some b' \<and> frame_of b' = Some fr' \<and> handlers fr' = handlers fr \<and> caller fr' = caller fr \<and> prev b' = prev b"
  by (erule (1) keeps_block) (auto dest: same_frame_Some)

lemma keeps_restarts: "keeps f st st' \<Longrightarrow> restarts_ok st \<Longrightarrow> restarts_ok st'"
  unfolding restarts_ok_def keeps_def by (metis not_None_eq option.inject option.discI)

lemma machine_inv_top:
  assumes "machine_inv st segs"
  obtains as f b fr segs' where "segs = (as, f) # segs'" "the_frame st = Some (f, b, fr)" "path (blocks st) (block_ptr st) as f"
    "stacks (blocks st) (prev b) (caller fr) segs'" "handlers_ok (handlers fr)" "resume fr \<noteq> Trap" "inCatch fr \<longrightarrow> inException fr" "inException fr \<longrightarrow> as \<noteq> []"
    "f \<notin> snd ` set segs'" "fresh_ok st" "restarts_ok st"
proof -
  obtain as f segs' where s: "segs = (as, f) # segs'" using assms by (cases segs) (auto simp: machine_inv_def)
  with assms obtain b fr where "blocks st f = Some b" "frame_of b = Some fr" "handlers_ok (handlers fr)" "resume fr \<noteq> Trap" "inCatch fr \<longrightarrow> inException fr"
    "inException fr \<longrightarrow> as \<noteq> []" by (auto simp: machine_inv_def frame_inv_def)
  with that [of as f segs' b fr] s assms show thesis by (auto simp: machine_inv_def the_frame_iff links_def)
qed

lemma machine_inv_keeps:
  assumes inv: "machine_inv st ((as, f) # segs)" and k: "keeps f st st'" and p: "path (blocks st') (block_ptr st') as' f"
    and fr: "the_frame st' = Some (f, b', fr')" and "inCatch fr' \<longrightarrow> inException fr'" "inException fr' \<longrightarrow> as' \<noteq> []" "resume fr' \<noteq> Trap"
  shows "machine_inv st' ((as', f) # segs)"
proof -
  obtain b fr where o: "the_frame st = Some (f, b, fr)" "stacks (blocks st) (prev b) (caller fr) segs" "handlers_ok (handlers fr)" "f \<notin> snd ` set segs" "restarts_ok st"
    using machine_inv_top [OF inv] by (metis list.inject prod.inject)
  have f: "frame_ptr st = Some f" "blocks st f = Some b" "frame_of b = Some fr" using o(1) by (auto simp: the_frame_iff)
  have c: "handlers fr' = handlers fr" "caller fr' = caller fr" "prev b' = prev b" using keeps_current [OF k f(2,3)] fr by (auto simp: the_frame_iff)
  have "stacks (blocks st') (prev b') (caller fr') segs" unfolding c by (rule stacks_links [OF o(2) keeps_links [OF k]])
  then have "stacks (blocks st') (block_ptr st') (frame_ptr st') ((as', f) # segs)" using p fr by (auto simp: the_frame_iff links_def)
  moreover have "list_all (frame_inv (blocks st')) segs \<and> list_all (calm (blocks st')) segs"
  proof -
    have "frame_inv (blocks st') seg \<and> calm (blocks st') seg" if seg: "seg \<in> set segs" for seg
    proof -
      have "frame_inv (blocks st) seg" "calm (blocks st) seg" "snd seg \<noteq> f" using inv seg o(4) by (auto simp: machine_inv_def list_all_iff)
      then show ?thesis using keeps_other [OF k, of "snd seg"] unfolding frame_inv_def calm_def by fastforce
    qed
    then show ?thesis by (simp add: list_all_iff)
  qed
  moreover have "frame_inv (blocks st') (as', f)" using fr c(1) o(3) assms(5-7) by (auto simp: frame_inv_def the_frame_iff)
  ultimately show ?thesis using inv keeps_fresh [OF k] keeps_restarts [OF k o(5)] by (simp add: machine_inv_def)
qed

lemma entered_inv:
  assumes inv: "machine_inv st ((as, f) # segs)" and fr: "the_frame st = Some (f, b, fr)" and k: "keeps f st st'" and e: "entered as f e r fr st'"
  shows "\<exists>as'. machine_inv st' ((as', f) # segs)"
proof -
  obtain b' fr' where fr': "the_frame st' = Some (f, b', fr')" "resume fr' \<noteq> Trap" using e by (auto simp: entered_def split: prod.splits)
  have flags: "inCatch fr \<longrightarrow> inException fr" "inException fr \<longrightarrow> as \<noteq> []" using machine_inv_top [OF inv] fr by (metis list.inject prod.inject option.inject)+
  show ?thesis
  proof (cases "fst r \<and> ex_flags (snd r) AND EJS_EX_ITERATION \<noteq> 0")
    case True
    then have "path (blocks st') (block_ptr st') as f" "inCatch fr' \<longrightarrow> inCatch fr" "inException fr' = inException fr \<or> \<not> inException fr' \<and> \<not> inCatch fr'"
      using e fr' by (auto simp: entered_def split_beta)
    then have "machine_inv st' ((as, f) # segs)" using flags by (intro machine_inv_keeps [OF inv k _ fr'(1)]) (use fr' in auto)
    then show ?thesis by blast
  next
    case False
    then obtain new below where "path (blocks st') (block_ptr st') (new # below) f" "inException fr'"
      using e fr' unfolding entered_def split_beta if_not_P [OF False] by auto
    then have "machine_inv st' ((new # below, f) # segs)" by (intro machine_inv_keeps [OF inv k _ fr'(1)]) (use fr' in auto)
    then show ?thesis by blast
  qed
qed


lemma process_inv:
  assumes "machine_inv st segs" and "list_all (calm (blocks st)) segs" and "exn st = Some e"
  shows "\<exists>r st'. processException True st = Some (r, st') \<and> (if r then \<exists>segs'. machine_inv st' segs' else frame_ptr st' = None)"
  using assms
proof (induction segs arbitrary: st)
  case Nil
  then show ?case by (simp add: machine_inv_def)
next
  case (Cons seg segs)
  obtain as f b fr where o: "seg = (as, f)" "the_frame st = Some (f, b, fr)" "path (blocks st) (block_ptr st) as f"
    "stacks (blocks st) (prev b) (caller fr) segs" "handlers_ok (handlers fr)" "resume fr \<noteq> Trap" "inCatch fr \<longrightarrow> inException fr" "inException fr \<longrightarrow> as \<noteq> []"
    "f \<notin> snd ` set segs" "fresh_ok st" "restarts_ok st"
    using machine_inv_top [OF Cons.prems(1)] by (metis list.inject)
  have f: "frame_ptr st = Some f" "blocks st f = Some b" "frame_of b = Some fr" using o(2) by (auto simp: the_frame_iff)
  have "attentionPc fr = None" using Cons.prems(2) f by (auto simp: o(1) calm_def)
  then obtain off where off: "current_pc fr = Some off" using o(6) by (cases "fpc fr") (auto simp: current_pc_def resume_def)
  have out: "outcome as f b fr e (decide fr e) st (checkExceptionHandlers True st)"
    using check_ok [OF o(2) Cons.prems(3) o(3,10) off _ o(5)] o(7,8) by blast
  have k: "keeping f st (checkExceptionHandlers True st)" by (rule keeping_check [OF f(1)]) (rule keeps_same [OF o(10)], simp_all)
  show ?case
  proof (cases "decide fr e")
    case (Some h)
    then obtain st' where c: "checkExceptionHandlers True st = Some st'" "entered as f e h fr st'" using out by (auto simp: outcome_def)
    have "keeps f st st'" using k c(1) by (simp add: keeping_def)
    then obtain as' where "machine_inv st' ((as', f) # segs)" using entered_inv [OF _ o(2) _ c(2)] Cons.prems(1) o(1) by blast
    moreover have "exn st' = None" using c(2) by (simp add: entered_def split_beta)
    ultimately show ?thesis using c(1) f(1) by (subst processException.simps) auto
  next
    case None
    then obtain fr' where c: "checkExceptionHandlers True st = Some (set_block f (b\<lparr>frame_of := Some fr'\<rparr>) st)" "caller fr' = caller fr"
      using out by (auto simp: outcome_def passed_on_def)
    define st1 where "st1 = set_block f (b\<lparr>frame_of := Some fr'\<rparr>) st"
    define st2 where "st2 = st1\<lparr>stack_ptr := stackReturn fr', block_ptr := prev b, frame_ptr := caller fr\<rparr>"
    have step: "processException True st = processException True st2"
      using process_step [of st st1 e f "b\<lparr>frame_of := Some fr'\<rparr>" fr'] c f(1) Cons.prems(3) by (simp add: st2_def st1_def the_frame_iff)
    have links: "links (blocks st2) = links (blocks st)" using links_set_frame [OF f(2,3) c(2)] by (simp add: st2_def st1_def)
    have other: "blocks st2 (snd g) = blocks st (snd g)" if "g \<in> set segs" for g using that o(9) by (auto simp: st2_def st1_def)
    have stk: "stacks (blocks st2) (block_ptr st2) (frame_ptr st2) segs" using stacks_links [OF o(4), of "blocks st2"] links by (simp add: st2_def)
    show ?thesis
    proof (cases "segs = []")
      case True
      then have "frame_ptr st2 = None" using stk by simp
      then have "processException True st2 = Some (False, st2)" by (subst processException.simps) simp
      with step \<open>frame_ptr st2 = None\<close> show ?thesis by (intro exI [of _ False] exI [of _ st2]) simp
    next
      case False
      have "list_all (frame_inv (blocks st2)) segs" "list_all (calm (blocks st2)) segs"
        using Cons.prems(1,2) other by (auto simp: machine_inv_def list_all_iff frame_inv_def calm_def)
      moreover have "list_all (calm (blocks st2)) (tl segs)" using calculation(2) by (cases segs) auto
      moreover have "fresh_ok st2" "restarts_ok st2" "exn st2 = Some e" "distinct (map snd segs)" using o(10,11) f(2) Cons.prems(1,3)
        by (auto simp: fresh_ok_def restarts_ok_def st2_def st1_def machine_inv_def)
      ultimately have "machine_inv st2 segs" using stk False by (simp add: machine_inv_def)
      from Cons.IH [OF this] \<open>list_all (calm (blocks st2)) segs\<close> \<open>exn st2 = Some e\<close> step show ?thesis by simp
    qed
  qed
qed

text \<open>Leaving the block of a handler: the exception that the block below keeps is thrown again.\<close>

lemma pop_exception_ok:
  assumes fr: "the_frame st = Some (f, b, fr)" and p: "path (blocks st) (block_ptr st) (a # as) f" and pc: "attentionPc fr = None" "fpc fr = At q"
  shows "\<exists>st' b' fr'. popExceptionBlock st = Some st' \<and> the_frame st' = Some (f, b', fr') \<and> path (blocks st') (block_ptr st') as f
     \<and> inCatch fr' = inCatch fr \<and> inException fr' = inException fr \<and> resume fr' \<noteq> Trap
     \<and> (exn st' = None \<longrightarrow> attentionPc fr' = None)"
proof -
  have f: "frame_ptr st = Some f" "blocks st f = Some b" "frame_of b = Some fr" using fr by (auto simp: the_frame_iff)
  define d where "d = hd (as @ [f])"
  obtain ab where a: "block_ptr st = Some a" "blocks st a = Some ab" "frame_of ab = None" "path (blocks st) (prev ab) as f" using p by (auto simp: links_def)
  have d: "prev ab = Some d" using path_top [OF a(4)] by (simp add: d_def)
  obtain db where db: "blocks st d = Some db" using path_block [OF a(4)] f by (auto simp: d_def is_frame_def links_def)
  show ?thesis
  proof (cases "exn st = None \<and> prevException db \<noteq> None")
    case False
    define st' where "st' = (if exn st = None then (set_block d (db\<lparr>prevException := None\<rparr>) st)\<lparr>exn := None, block_ptr := Some d\<rparr> else st\<lparr>block_ptr := Some d\<rparr>)"
    have run: "popExceptionBlock st = Some st'" using False a d db by (auto simp: popExceptionBlock_def st'_def Let_def)
    have "links (blocks st') = links (blocks st)" using db by (auto simp: st'_def links_def fun_eq_iff)
    then have "path (blocks st') (prev ab) as f" by (rule path_cong [OF a(4)])
    moreover have "block_ptr st' = prev ab" using d by (simp add: st'_def)
    moreover have "\<exists>b'. the_frame st' = Some (f, b', fr)" using f db by (auto simp: st'_def the_frame_iff)
    ultimately show ?thesis using run pc by (auto simp: resume_def)
  next
    case True
    then obtain x where x: "exn st = None" "prevException db = Some x" by auto
    define fr' where "fr' = fr\<lparr>fpc := Trap, attentionPc := Some (At (q + 1))\<rparr>"
    define S where "S = (if d = f then (blocks st)(f \<mapsto> b\<lparr>prevException := None, frame_of := Some fr'\<rparr>)
       else (blocks st)(d \<mapsto> db\<lparr>prevException := None\<rparr>, f \<mapsto> b\<lparr>frame_of := Some fr'\<rparr>))"
    define st' where "st' = st\<lparr>exn := Some x, blocks := S, block_ptr := Some d\<rparr>"
    have run: "popExceptionBlock st = Some st'"
    proof (cases "d = f")
      case True
      then have [simp]: "db = b" using db f by simp
      show ?thesis using True f a d x pc
        by (simp add: popExceptionBlock_def ejsAttention_def set_frame_def the_frame_def set_block_def Let_def st'_def S_def fr'_def)
    next
      case False
      then show ?thesis using f a d x pc db
        by (simp add: popExceptionBlock_def ejsAttention_def set_frame_def the_frame_def set_block_def Let_def st'_def S_def fr'_def fun_upd_twist)
    qed
    have "links S = links (blocks st)" using f db by (auto simp: S_def links_def fr'_def fun_eq_iff)
    then have "path S (Some d) as f" using path_cong [OF a(4)] d by simp
    moreover have "\<exists>b'. the_frame st' = Some (f, b', fr')" using f by (auto simp: st'_def S_def the_frame_iff)
    ultimately show ?thesis using run by (auto simp: st'_def fr'_def resume_def)
  qed
qed


text \<open>
  The steps. An instruction of the code runs when the current frame is not at the trap. The code may go to any
  place of its function, and it closes only blocks that it has opened, so that a handler keeps its own.
\<close>

definition running :: "machine \<Rightarrow> bool" where
  "running st \<longleftrightarrow> (case the_frame st of None \<Rightarrow> False | Some (f, b, fr) \<Rightarrow> attentionPc fr = None \<and> fpc fr \<noteq> Trap)"

inductive vm_step :: "machine \<Rightarrow> machine \<Rightarrow> bool" where
  Go: "running st \<Longrightarrow> the_frame st = Some (f, b, fr) \<Longrightarrow> set_frame (fr\<lparr>fpc := At q\<rparr>) st = Some st' \<Longrightarrow> vm_step st st'"
| Throw: "running st \<Longrightarrow> op_THROW e st = Some st' \<Longrightarrow> vm_step st st'"
| OpenBlock: "running st \<Longrightarrow> vm_step st (op_OPEN_BLOCK st)"
| CloseBlock: "running st \<Longrightarrow> the_frame st = Some (f, b, fr) \<Longrightarrow> path (blocks st) (block_ptr st) as f \<Longrightarrow> (if inException fr then 2 else 1) \<le> length as
    \<Longrightarrow> op_CLOSE_BLOCK st = Some st' \<Longrightarrow> vm_step st st'"
| Call: "running st \<Longrightarrow> handlers_ok hs \<Longrightarrow> call_script hs argc adjust st = Some st' \<Longrightarrow> vm_step st st'"
| Return: "running st \<Longrightarrow> op_RETURN st = Some (True, st') \<Longrightarrow> vm_step st st'"
| GotoFinally: "running st \<Longrightarrow> op_GOTO_FINALLY True st = Some st' \<Longrightarrow> vm_step st st'"
| CallFinally: "running st \<Longrightarrow> op_CALL_FINALLY True st = Some st' \<Longrightarrow> vm_step st st'"
| EndException: "running st \<Longrightarrow> op_END_EXCEPTION st = Some st' \<Longrightarrow> vm_step st st'"
| CatchArg: "running st \<Longrightarrow> vm_step st (snd (op_PUSH_CATCH_ARG st))"
| Attention: "\<not> running st \<Longrightarrow> op_ATTENTION True st = Some (True, st') \<Longrightarrow> vm_step st st'"

text \<open>A run begins with the call of a function.\<close>

definition first_machine :: "handler list \<Rightarrow> machine" where
  "first_machine hs = \<lparr>blocks = [0 \<mapsto> \<lparr>prev = None, stackBase = 0, prevException = None, restartAddress = None,
      frame_of = Some \<lparr>caller = None, fstackBase = 0, stackReturn = 0, fpc = At 0, attentionPc = None, handlers = hs, inCatch = False, inException = False\<rparr>\<rparr>],
     unused = 1, block_ptr = Some 0, frame_ptr = Some 0, stack_ptr = 0, exn = None, exceptionArg = None\<rparr>"

lemma first_machine_inv: "handlers_ok hs \<Longrightarrow> machine_inv (first_machine hs) [([], 0)]"
  by (simp add: machine_inv_def first_machine_def links_def fresh_ok_def frame_inv_def restarts_ok_def resume_def)

lemma inv_same:
  "machine_inv st segs \<Longrightarrow> blocks st' = blocks st \<Longrightarrow> unused st' = unused st \<Longrightarrow> block_ptr st' = block_ptr st \<Longrightarrow> frame_ptr st' = frame_ptr st
     \<Longrightarrow> machine_inv st' segs"
  by (simp add: machine_inv_def fresh_ok_def restarts_ok_def)

lemma running_pc: "running st \<Longrightarrow> the_frame st = Some (f, b, fr) \<Longrightarrow> resume fr \<noteq> Trap \<Longrightarrow> attentionPc fr = None \<and> (\<exists>q. fpc fr = At q)"
  by (cases "fpc fr") (auto simp: running_def)

text \<open>Each instruction is defined and keeps the invariant.\<close>

lemma inv_set_frame:
  assumes inv: "machine_inv st ((as, f) # segs)" and fr: "the_frame st = Some (f, b, fr)" and p: "path (blocks st) (block_ptr st) as f"
    and same: "caller fr' = caller fr" "handlers fr' = handlers fr"
    and flags: "inCatch fr' \<longrightarrow> inException fr'" "inException fr' \<longrightarrow> as \<noteq> []" "resume fr' \<noteq> Trap"
  shows "\<exists>st'. set_frame fr' st = Some st' \<and> machine_inv st' ((as, f) # segs) \<and> the_frame st' = Some (f, b\<lparr>frame_of := Some fr'\<rparr>, fr')
     \<and> path (blocks st') (block_ptr st') as f \<and> st' = set_block f (b\<lparr>frame_of := Some fr'\<rparr>) st"
proof -
  define st' where "st' = set_block f (b\<lparr>frame_of := Some fr'\<rparr>) st"
  have f: "frame_ptr st = Some f" "blocks st f = Some b" "frame_of b = Some fr" using fr by (auto simp: the_frame_iff)
  have run: "set_frame fr' st = Some st'" using set_frame_eq [OF fr] by (simp add: st'_def)
  have k: "keeps f st st'" using inv by (intro keeps_set_frame [OF _ fr run same]) (simp add: machine_inv_def)
  have t: "the_frame st' = Some (f, b\<lparr>frame_of := Some fr'\<rparr>, fr')" using f by (simp add: st'_def the_frame_iff)
  have "path (blocks st') (block_ptr st') as f" using path_cong [OF p links_set_frame [OF f(2,3) same(1)]] by (simp add: st'_def)
  with machine_inv_keeps [OF inv k this t flags] run t show ?thesis by (simp add: st'_def)
qed

lemma throw_inv:
  assumes inv: "machine_inv st segs" and run: "running st"
  shows "\<exists>st' segs'. op_THROW e st = Some st' \<and> machine_inv st' segs'"
proof -
  obtain as f b fr segs' where o: "segs = (as, f) # segs'" "the_frame st = Some (f, b, fr)" "path (blocks st) (block_ptr st) as f"
    "resume fr \<noteq> Trap" "inCatch fr \<longrightarrow> inException fr" "inException fr \<longrightarrow> as \<noteq> []" using machine_inv_top [OF inv] by metis
  obtain q where q: "attentionPc fr = None" "fpc fr = At q" using running_pc [OF run o(2,4)] by auto
  define st1 where "st1 = st\<lparr>stack_ptr := stack_ptr st - 1, exn := Some e\<rparr>"
  have i1: "machine_inv st1 ((as, f) # segs')" using inv unfolding o(1) by (rule inv_same) (simp_all add: st1_def)
  have t1: "the_frame st1 = Some (f, b, fr)" "path (blocks st1) (block_ptr st1) as f" using o(2,3) by (auto simp: st1_def the_frame_iff)
  from inv_set_frame [OF i1 t1, of "fr\<lparr>fpc := Trap, attentionPc := Some (fpc fr)\<rparr>"] o(5,6) q
  obtain st' where "set_frame (fr\<lparr>fpc := Trap, attentionPc := Some (fpc fr)\<rparr>) st1 = Some st'" "machine_inv st' ((as, f) # segs')" by (auto simp: resume_def)
  moreover have "frame_ptr st1 \<noteq> None" using t1(1) by (simp add: the_frame_iff)
  ultimately show ?thesis using t1(1) q by (auto simp: op_THROW_def ejsAttention_def st1_def [symmetric])
qed

lemma open_inv:
  assumes inv: "machine_inv st segs"
  shows "\<exists>segs'. machine_inv (op_OPEN_BLOCK st) segs'"
proof -
  obtain as f b fr segs' where o: "segs = (as, f) # segs'" "the_frame st = Some (f, b, fr)" "path (blocks st) (block_ptr st) as f"
    "resume fr \<noteq> Trap" "inCatch fr \<longrightarrow> inException fr" "fresh_ok st" using machine_inv_top [OF inv] by metis
  define nb where "nb = \<lparr>prev = block_ptr st, stackBase = stack_ptr st, prevException = None, restartAddress = None, frame_of = None\<rparr>"
  define st' where "st' = (set_block (unused st) nb st)\<lparr>block_ptr := Some (unused st), unused := Suc (unused st)\<rparr>"
  have op: "op_OPEN_BLOCK st = st'" by (simp add: op_OPEN_BLOCK_def st'_def nb_def Let_def)
  have k: "keeps f st st'" unfolding st'_def by (rule keeps_new [OF o(6)]) (simp add: nb_def)
  have new: "blocks st (unused st) = None" using o(6) by (simp add: fresh_ok_def)
  then have "path (blocks st') (block_ptr st') (unused st # as) f" using path_new(2) [OF o(3), of "unused st" nb] by (simp add: st'_def nb_def)
  moreover have "the_frame st' = Some (f, b, fr)" using o(2) new by (auto simp: st'_def the_frame_iff)
  ultimately have "machine_inv st' ((unused st # as, f) # segs')" using machine_inv_keeps [OF inv [unfolded o(1)] k] o(4,5) by blast
  then show ?thesis unfolding op by blast
qed

lemma close_inv:
  assumes inv: "machine_inv st segs" and fr: "the_frame st = Some (f, b, fr)" and p: "path (blocks st) (block_ptr st) as f"
    and len: "(if inException fr then 2 else 1) \<le> length as"
  shows "\<exists>st' segs'. op_CLOSE_BLOCK st = Some st' \<and> machine_inv st' segs'"
proof -
  obtain as' segs' where s: "segs = (as', f) # segs'" "inCatch fr \<longrightarrow> inException fr" "resume fr \<noteq> Trap" "fresh_ok st"
    using machine_inv_top [OF inv] fr by (metis Pair_inject option.inject)
  obtain a as2 where as: "as = a # as2" using len by (cases as) (auto split: if_splits)
  then obtain ab where ab: "block_ptr st = Some a" "blocks st a = Some ab" "path (blocks st) (prev ab) as2 f" using p by (auto simp: links_def)
  let ?st = "st\<lparr>block_ptr := prev ab\<rparr>"
  have k: "keeps f st ?st" using keeps_same [OF s(4), of st f] by simp
  have "machine_inv ?st ((as2, f) # segs')"
    by (rule machine_inv_keeps [OF inv [unfolded s(1)] k, of as2 b fr]) (use ab fr s(2,3) len as in \<open>auto simp: the_frame_iff split: if_splits\<close>)
  with ab show ?thesis by (auto simp: op_CLOSE_BLOCK_def)
qed

lemma call_inv:
  assumes inv: "machine_inv st segs" and run: "running st" and hs: "handlers_ok hs"
  shows "\<exists>st' segs'. call_script hs argc adjust st = Some st' \<and> machine_inv st' segs'"
proof -
  define new where "new = unused st"
  define fr where "fr = \<lparr>caller = frame_ptr st, fstackBase = stack_ptr st, stackReturn = stack_ptr st - argc - adjust, fpc = At 0,
      attentionPc = None, handlers = hs, inCatch = False, inException = False\<rparr>"
  define nb where "nb = \<lparr>prev = block_ptr st, stackBase = 0, prevException = None, restartAddress = None, frame_of = Some fr\<rparr>"
  define st' where "st' = (set_block new nb st)\<lparr>frame_ptr := Some new, block_ptr := Some new, unused := Suc new\<rparr>"
  have free: "blocks st new = None" using inv by (simp add: machine_inv_def fresh_ok_def new_def)
  have "links (blocks st) a = Some q \<Longrightarrow> links (blocks st') a = Some q" for a q using free by (auto simp: st'_def links_def)
  then have stk: "stacks (blocks st') (block_ptr st) (frame_ptr st) segs" using inv stacks_links by (auto simp: machine_inv_def)
  have old: "blocks st' (snd seg) = blocks st (snd seg)" "snd seg \<noteq> new" if "seg \<in> set segs" for seg
    using inv that free by (auto simp: machine_inv_def list_all_iff frame_inv_def st'_def)
  have "calm (blocks st) seg" if "seg \<in> set segs" for seg
    using inv run that by (cases segs) (auto simp: machine_inv_def list_all_iff calm_def running_def the_frame_iff split: option.splits)
  then have "list_all (calm (blocks st')) segs" "list_all (frame_inv (blocks st')) segs" using inv old
    by (auto simp: machine_inv_def list_all_iff calm_def frame_inv_def)
  moreover have "distinct (map snd (([], new) # segs))" using inv old(2) by (force simp: machine_inv_def)
  moreover have "fresh_ok st'" "restarts_ok st'" using inv by (auto simp: machine_inv_def fresh_ok_def restarts_ok_def st'_def new_def nb_def)
  moreover have "frame_inv (blocks st') ([], new)" using hs by (simp add: frame_inv_def st'_def nb_def fr_def resume_def)
  moreover have "stacks (blocks st') (block_ptr st') (frame_ptr st') (([], new) # segs)" using stk
    by (auto simp: links_def st'_def nb_def fr_def)
  ultimately have "machine_inv st' (([], new) # segs)" by (simp add: machine_inv_def)
  moreover have "call_script hs argc adjust st = Some st'"
    unfolding call_script_def Let_def new_def [symmetric] fr_def [symmetric] nb_def [symmetric] st'_def [symmetric]
    by (simp add: ejsClearAttention_def the_frame_def) (simp add: st'_def nb_def fr_def)
  ultimately show ?thesis by blast
qed

lemma return_inv:
  assumes inv: "machine_inv st segs"
  shows "\<exists>r st'. op_RETURN st = Some (r, st') \<and> (r \<longrightarrow> (\<exists>segs'. machine_inv st' segs'))"
proof -
  obtain as f b fr segs' where o: "segs = (as, f) # segs'" "the_frame st = Some (f, b, fr)" "stacks (blocks st) (prev b) (caller fr) segs'"
    using machine_inv_top [OF inv] by metis
  let ?st = "st\<lparr>stack_ptr := stackReturn fr, block_ptr := prev b, frame_ptr := caller fr\<rparr>"
  have "machine_inv ?st segs'" if "caller fr \<noteq> None"
  proof -
    have "segs' \<noteq> []" using o(3) that by (cases segs') auto
    moreover have "list_all (calm (blocks st)) (tl segs')" using inv o(1) by (cases segs') (auto simp: machine_inv_def)
    ultimately show ?thesis using inv o(1,3) by (auto simp: machine_inv_def fresh_ok_def restarts_ok_def)
  qed
  then show ?thesis using o(2) by (auto simp: op_RETURN_def)
qed


text \<open>Entering a finally clause from the code, after the block of a catch clause has been left.\<close>

lemma leave_catch:
  assumes inv: "machine_inv st ((as, f) # segs)" and fr: "the_frame st = Some (f, b, fr)" and run: "running st"
  shows "\<exists>st1 b1 fr1 below. (if inCatch fr then popExceptionBlock st else Some st) = Some st1 \<and> keeps f st st1 \<and> the_frame st1 = Some (f, b1, fr1)
     \<and> path (blocks st1) (block_ptr st1) below f \<and> (exn st1 = None \<longrightarrow> attentionPc fr1 = None) \<and> (\<not> inCatch fr \<longrightarrow> st1 = st)
     \<and> (exn st1 = None \<longrightarrow> fpc fr1 \<noteq> Trap)"
proof -
  have o: "path (blocks st) (block_ptr st) as f" "resume fr \<noteq> Trap" "inCatch fr \<longrightarrow> as \<noteq> []" "fresh_ok st"
    using machine_inv_top [OF inv] fr by (metis Pair_inject list.inject option.inject)+
  obtain q where q: "attentionPc fr = None" "fpc fr = At q" using running_pc [OF run fr o(2)] by auto
  show ?thesis
  proof (cases "inCatch fr")
    case True
    then obtain a as' where as: "as = a # as'" using o(3) by (cases as) auto
    from pop_exception_ok [OF fr o(1) [unfolded as] q] obtain st1 b1 fr1 where p: "popExceptionBlock st = Some st1" "the_frame st1 = Some (f, b1, fr1)"
      "path (blocks st1) (block_ptr st1) as' f" "exn st1 = None \<longrightarrow> attentionPc fr1 = None" "resume fr1 \<noteq> Trap" by (elim exE conjE) (rule that)
    have "keeping f st (popExceptionBlock st)" by (rule keeping_pop_exception) (use fr o(4) in \<open>auto simp: the_frame_iff intro: keeps_same\<close>)
    with p(1) have "keeps f st st1" by (simp add: keeping_def)
    with p True show ?thesis by (auto simp: resume_def)
  next
    case False
    then show ?thesis using fr o(1,4) q by (auto intro: keeps_same)
  qed
qed

lemma enter_finally_inv:
  assumes inv: "machine_inv st ((as, f) # segs)" and fr: "the_frame st = Some (f, b, fr)" and k: "keeps f st st1"
    and st1: "the_frame st1 = Some (f, b1, fr1)" "path (blocks st1) (block_ptr st1) below f" "exn st1 = None \<longrightarrow> attentionPc fr1 = None"
  shows "\<exists>st' new. createExceptionBlock True ex EJS_EX_FINALLY st1 = Some st' \<and> machine_inv st' ((new # below, f) # segs) \<and> block_ptr st' = Some new"
proof -
  have fresh: "fresh_ok st1" using keeps_fresh [OF k] .
  obtain st' b' fr' where r: "createExceptionBlock True ex EJS_EX_FINALLY st1 = Some st'" "the_frame st' = Some (f, b', fr')"
     "fr' = fr1\<lparr>inCatch := False, fpc := Trap, attentionPc := Some (At (handlerStart ex)), inException := True\<rparr>"
     "st' = st1\<lparr>block_ptr := Some (unused st1), unused := Suc (unused st1), blocks := blocks st', exn := None\<rparr>"
     "links (blocks st') = (links (blocks st1))(unused st1 \<mapsto> (block_ptr st1, None))"
    using finally_block [OF st1(1,2) fresh, of ex] st1(3) by auto
  have bp: "block_ptr st' = Some (unused st1)" by (subst r(4)) simp
  have "frame_ptr st = Some f" using fr by (simp add: the_frame_iff)
  then have k': "keeps f st st'" using keeping_create_exception [OF _ k, of True ex EJS_EX_FINALLY] r(1) by (simp add: keeping_def)
  have "links (blocks st1) (unused st1) = None" using fresh by (simp add: fresh_ok_def links_def)
  then have "path (blocks st') (block_ptr st1) below f" using r(5) by (intro path_links [OF st1(2)]) auto
  then have "path (blocks st') (block_ptr st') (unused st1 # below) f" using r(5) bp by simp
  from machine_inv_keeps [OF inv k' this r(2)] r(1,3) bp show ?thesis by (simp add: resume_def)
qed

lemma goto_finally_inv:
  assumes inv: "machine_inv st segs" and run: "running st"
  shows "\<exists>st' segs'. op_GOTO_FINALLY True st = Some st' \<and> machine_inv st' segs'"
proof -
  obtain as f b fr segs' where o: "segs = (as, f) # segs'" "the_frame st = Some (f, b, fr)" "resume fr \<noteq> Trap" using machine_inv_top [OF inv] by metis
  obtain q where q: "fpc fr = At q" using running_pc [OF run o(2,3)] by auto
  define h where "h = find (\<lambda>ex. covers ((q - 1) mod 2 ^ 32) ex \<and> finalizing ex) (handlers fr)"
  have h: "findExceptionHandler st EJS_EX_FINALLY = Some h"
    using o(2) q find_handler_finally by (simp add: findExceptionHandler_def current_pc_def h_def)
  obtain st1 b1 fr1 below where 1: "(if inCatch fr then popExceptionBlock st else Some st) = Some st1" "keeps f st st1" "the_frame st1 = Some (f, b1, fr1)"
    "path (blocks st1) (block_ptr st1) below f" "exn st1 = None \<longrightarrow> attentionPc fr1 = None" using leave_catch [OF inv [unfolded o(1)] o(2) run] by (elim exE conjE) (rule that)
  show ?thesis
  proof (cases h)
    case None
    then show ?thesis using h o(2) inv by (auto simp: op_GOTO_FINALLY_def)
  next
    case (Some ex)
    with enter_finally_inv [OF inv [unfolded o(1)] o(2) 1(2-5), of ex] h o(2) 1(1) show ?thesis by (auto simp: op_GOTO_FINALLY_def)
  qed
qed

lemma inv_restart:
  assumes "machine_inv st segs" and "blocks st a = Some b" and "r \<noteq> Trap"
  shows "machine_inv (set_block a (b\<lparr>restartAddress := Some r\<rparr>) st) segs"
proof -
  let ?S = "(blocks st)(a \<mapsto> b\<lparr>restartAddress := Some r\<rparr>)"
  have "links ?S = links (blocks st)" using assms(2) by (auto simp: links_def fun_eq_iff)
  then have "stacks ?S (block_ptr st) (frame_ptr st) segs" using assms(1) stacks_links [of "blocks st" _ _ segs ?S] by (simp add: machine_inv_def)
  moreover have "frame_inv ?S = frame_inv (blocks st)" "calm ?S = calm (blocks st)" using assms(2) by (auto simp: frame_inv_def calm_def fun_eq_iff)
  ultimately show ?thesis using assms by (auto simp: machine_inv_def fresh_ok_def restarts_ok_def)
qed

text \<open>
  A call of a finally clause in a catch clause drops the block of the catch clause first. When the block below keeps an exception, that
  one is thrown again, and the place that is saved is the trap.
\<close>

definition throws_again :: "machine \<Rightarrow> bool" where
  "throws_again st \<longleftrightarrow> (case (the_frame st, popExceptionBlock st) of (Some (f, b, fr), Some st1) \<Rightarrow> inCatch fr \<and> exn st1 \<noteq> None | _ \<Rightarrow> False)"

lemma call_finally_inv:
  assumes inv: "machine_inv st segs" and run: "running st"
  shows "\<exists>st' segs'. op_CALL_FINALLY True st = Some st' \<and> fresh_ok st' \<and> (restarts_ok st' \<or> \<not> throws_again st \<longrightarrow> machine_inv st' segs')"
proof -
  obtain as f b fr segs' where o: "segs = (as, f) # segs'" "the_frame st = Some (f, b, fr)" "resume fr \<noteq> Trap" using machine_inv_top [OF inv] by metis
  obtain q where q: "fpc fr = At q" using running_pc [OF run o(2,3)] by auto
  define h where "h = find (\<lambda>ex. covers ((q - 1) mod 2 ^ 32) ex \<and> finalizing ex) (handlers fr)"
  have h: "findExceptionHandler st EJS_EX_FINALLY = Some h"
    using o(2) q find_handler_finally by (simp add: findExceptionHandler_def current_pc_def h_def)
  obtain st1 b1 fr1 below where 1: "(if inCatch fr then popExceptionBlock st else Some st) = Some st1" "keeps f st st1" "the_frame st1 = Some (f, b1, fr1)"
    "path (blocks st1) (block_ptr st1) below f" "exn st1 = None \<longrightarrow> attentionPc fr1 = None" "\<not> inCatch fr \<longrightarrow> st1 = st" "exn st1 = None \<longrightarrow> fpc fr1 \<noteq> Trap"
    using leave_catch [OF inv [unfolded o(1)] o(2) run] by (elim exE conjE) (rule that)
  have code: "fpc fr1 \<noteq> Trap" if "\<not> throws_again st"
    using that 1(1,3,6,7) o(2) q by (cases "inCatch fr") (auto simp: throws_again_def)
  show ?thesis
  proof (cases h)
    case None
    then show ?thesis using h o(2) inv by (auto simp: op_CALL_FINALLY_def machine_inv_def)
  next
    case (Some ex)
    with enter_finally_inv [OF inv [unfolded o(1)] o(2) 1(2-5), of ex] obtain st2 new
      where 2: "createExceptionBlock True ex EJS_EX_FINALLY st1 = Some st2" "machine_inv st2 ((new # below, f) # segs')" "block_ptr st2 = Some new" by blast
    then obtain nb where nb: "blocks st2 new = Some nb" by (auto simp: machine_inv_def links_def)
    let ?st = "set_block new (nb\<lparr>restartAddress := Some (fpc fr1)\<rparr>) st2"
    have "op_CALL_FINALLY True st = Some ?st" using h o(2) Some 1(1,3) 2(1,3) nb by (simp add: op_CALL_FINALLY_def)
    moreover have "machine_inv ?st ((new # below, f) # segs')" if "fpc fr1 \<noteq> Trap" by (rule inv_restart [OF 2(2) nb that])
    moreover have "fpc fr1 \<noteq> Trap" if "restarts_ok ?st" using that unfolding restarts_ok_def by (force dest!: spec [of _ new])
    moreover have "fresh_ok ?st" using 2(2) nb by (auto simp: machine_inv_def fresh_ok_def)
    ultimately show ?thesis using code by (intro exI [of _ ?st] exI) blast
  qed
qed


lemma end_exception_inv:
  assumes inv: "machine_inv st segs" and run: "running st"
  shows "\<exists>st' segs'. op_END_EXCEPTION st = Some st' \<and> machine_inv st' segs'"
proof -
  obtain as f b fr segs' where o: "segs = (as, f) # segs'" "the_frame st = Some (f, b, fr)" "path (blocks st) (block_ptr st) as f" "resume fr \<noteq> Trap"
    "inException fr \<longrightarrow> as \<noteq> []" "restarts_ok st" using machine_inv_top [OF inv] by metis
  obtain q where q: "attentionPc fr = None" "fpc fr = At q" using running_pc [OF run o(2,4)] by auto
  show ?thesis
  proof (cases "inException fr")
    case False
    then show ?thesis using o(2) inv by (auto simp: op_END_EXCEPTION_def)
  next
    case True
    then obtain a as' where as: "as = a # as'" using o(5) by (cases as) auto
    define fr1 where "fr1 = fr\<lparr>inCatch := False, inException := False\<rparr>"
    obtain st1 b1 where 1: "set_frame fr1 st = Some st1" "machine_inv st1 ((as, f) # segs')" "the_frame st1 = Some (f, b1, fr1)" "path (blocks st1) (block_ptr st1) as f"
      using inv_set_frame [OF inv [unfolded o(1)] o(2,3), of fr1] q by (auto simp: fr1_def resume_def)
    obtain ab where ab: "block_ptr st1 = Some a" "blocks st1 a = Some ab" using 1(4) by (auto simp: as links_def)
    have r1: "restarts_ok st1" "fresh_ok st1" using 1(2) by (auto simp: machine_inv_def)
    define E where "E = end_exception ((q - 1) mod 2 ^ 32) (handlers fr)"
    define fr2 where "fr2 = (if restartAddress ab = None then SET_PC E fr1 else fr1)"
    obtain st2 b2 where 2: "set_frame fr2 st1 = Some st2" "machine_inv st2 ((as, f) # segs')" "the_frame st2 = Some (f, b2, fr2)" "path (blocks st2) (block_ptr st2) as f"
      using inv_set_frame [OF 1(2,3,4), of fr2] q by (auto simp: fr2_def fr1_def SET_PC_def resume_def)
    have q2: "attentionPc fr2 = None" "\<exists>q2. fpc fr2 = At q2" using q by (auto simp: fr2_def fr1_def SET_PC_def)
    then obtain q2 where q2': "fpc fr2 = At q2" by blast
    obtain st3 b3 fr3 where 3: "popExceptionBlock st2 = Some st3" "the_frame st3 = Some (f, b3, fr3)" "path (blocks st3) (block_ptr st3) as' f"
      "inCatch fr3 = inCatch fr2" "inException fr3 = inException fr2" "resume fr3 \<noteq> Trap"
      using pop_exception_ok [OF 2(3) 2(4) [unfolded as] q2(1) q2'] by (elim exE conjE) (rule that)
    have fp: "frame_ptr st2 = Some f" using 2(3) by (simp add: the_frame_iff)
    have "keeps f st2 st2" using 2(2) by (intro keeps_same) (auto simp: machine_inv_def)
    then have k: "keeps f st2 st3" using keeping_pop_exception [OF fp] 3(1) by (auto simp: keeping_def)
    have nf: "\<not> inCatch fr3" "\<not> inException fr3" using 3(4,5) by (auto simp: fr2_def fr1_def SET_PC_def)
    have inv3: "machine_inv st3 ((as', f) # segs')" using machine_inv_keeps [OF 2(2) k 3(3,2)] nf 3(6) by simp
    show ?thesis
    proof (cases "restartAddress ab")
      case None
      have "findEndException st1 = Some E" using 1(3) q by (simp add: findEndException_def current_pc_def fr1_def E_def)
      with None True o(2) 1(1,3) ab 2(1) 3(1) have "op_END_EXCEPTION st = Some st3"
        by (simp add: op_END_EXCEPTION_def fr1_def [symmetric] fr2_def)
      with inv3 show ?thesis by blast
    next
      case (Some savePC)
      then have pc: "savePC \<noteq> Trap" using r1(1) ab(2) by (auto simp: restarts_ok_def)
      have "st2 = st1" using 2(1) Some set_frame_eq [OF 1(3), of fr1] 1(3)
        by (cases st1, cases b1) (auto simp: fr2_def set_block_def the_frame_iff fun_upd_idem)
      obtain st4 where 4: "set_frame (fr3\<lparr>fpc := savePC, attentionPc := None\<rparr>) st3 = Some st4" "machine_inv st4 ((as', f) # segs')"
        using inv_set_frame [OF inv3 3(2,3), of "fr3\<lparr>fpc := savePC, attentionPc := None\<rparr>"] nf pc by (auto simp: resume_def)
      have "op_END_EXCEPTION st = Some st4"
        using Some True o(2) 1(1) ab 3(1,2) 4(1) \<open>st2 = st1\<close> by (simp add: op_END_EXCEPTION_def fr1_def [symmetric])
      with 4(2) show ?thesis by blast
    qed
  qed
qed

lemma attention_inv:
  assumes inv: "machine_inv st segs"
  shows "\<exists>r st'. op_ATTENTION True st = Some (r, st') \<and> (r \<longrightarrow> (\<exists>segs'. machine_inv st' segs'))"
proof -
  obtain as f b fr segs' where o: "segs = (as, f) # segs'" "the_frame st = Some (f, b, fr)" "path (blocks st) (block_ptr st) as f" "resume fr \<noteq> Trap"
    "inCatch fr \<longrightarrow> inException fr" "inException fr \<longrightarrow> as \<noteq> []" using machine_inv_top [OF inv] by metis
  define fr1 where "fr1 = fr\<lparr>fpc := resume fr, attentionPc := None\<rparr>"
  obtain st1 b1 where 1: "set_frame fr1 st = Some st1" "machine_inv st1 ((as, f) # segs')" "the_frame st1 = Some (f, b1, fr1)"
    using inv_set_frame [OF inv [unfolded o(1)] o(2,3), of fr1] o(4-6) by (auto simp: fr1_def resume_def)
  have run: "(case attentionPc fr of None \<Rightarrow> Some st | Some p \<Rightarrow> set_frame (fr\<lparr>fpc := p, attentionPc := None\<rparr>) st) = Some st1"
  proof (cases "attentionPc fr")
    case None
    then have "fr1 = fr" by (simp add: fr1_def resume_def)
    then have "st1 = st" using 1(1) set_frame_eq [OF o(2), of fr] o(2) by (cases st, cases b) (auto simp: set_block_def the_frame_iff fun_upd_idem)
    with None show ?thesis by simp
  qed (use 1(1) in \<open>simp add: fr1_def resume_def\<close>)
  have "list_all (calm (blocks st1)) ((as, f) # segs')" using 1(2,3) by (auto simp: machine_inv_def calm_def the_frame_iff fr1_def)
  with process_inv [OF 1(2)] have p: "exn st1 = Some e \<Longrightarrow> \<exists>r st'. processException True st1 = Some (r, st') \<and> (r \<longrightarrow> (\<exists>segs'. machine_inv st' segs'))" for e
    by (fastforce split: if_splits)
  have op: "op_ATTENTION True st = (if exn st1 \<noteq> None then processException True st1 else Some (True, st1))"
    using o(2) run by (simp add: op_ATTENTION_def)
  show ?thesis
  proof (cases "exn st1")
    case None
    with op 1(2) show ?thesis by auto
  next
    case (Some e)
    with op p show ?thesis by simp
  qed
qed

lemma go_inv:
  assumes inv: "machine_inv st segs" and run: "running st" and fr: "the_frame st = Some (f, b, fr)" and go: "set_frame (fr\<lparr>fpc := At q\<rparr>) st = Some st'"
  shows "\<exists>segs'. machine_inv st' segs'"
proof -
  obtain as segs' where o: "segs = (as, f) # segs'" "path (blocks st) (block_ptr st) as f" "resume fr \<noteq> Trap" "inCatch fr \<longrightarrow> inException fr"
    "inException fr \<longrightarrow> as \<noteq> []" using machine_inv_top [OF inv] fr by (metis Pair_inject option.inject)
  have "attentionPc fr = None" using running_pc [OF run fr o(3)] by simp
  with inv_set_frame [OF inv [unfolded o(1)] fr o(2), of "fr\<lparr>fpc := At q\<rparr>"] o(4,5) go show ?thesis by (auto simp: resume_def)
qed

text \<open>A trap that has been saved stays saved: no step frees a block or changes the place that it keeps.\<close>

definition trap_saved :: "machine \<Rightarrow> bool" where
  "trap_saved st \<longleftrightarrow> fresh_ok st \<and> \<not> restarts_ok st"

lemma trap_saved_keeps: "keeps f st st' \<Longrightarrow> trap_saved st \<Longrightarrow> trap_saved st'"
  unfolding trap_saved_def restarts_ok_def keeps_def by metis

lemma trap_saved_keeping: "keeping f st m \<Longrightarrow> m = Some st' \<Longrightarrow> trap_saved st \<Longrightarrow> trap_saved st'"
  unfolding keeping_def using trap_saved_keeps by blast

lemma trap_saved_cong: "blocks st' = blocks st \<Longrightarrow> unused st' = unused st \<Longrightarrow> trap_saved st' = trap_saved st"
  by (simp add: trap_saved_def restarts_ok_def fresh_ok_def)

lemma trap_saved_fields [simp]:
  "trap_saved (st\<lparr>exn := x\<rparr>) = trap_saved st" "trap_saved (st\<lparr>stack_ptr := n\<rparr>) = trap_saved st" "trap_saved (st\<lparr>block_ptr := p\<rparr>) = trap_saved st"
  "trap_saved (st\<lparr>exceptionArg := y\<rparr>) = trap_saved st" "trap_saved (st\<lparr>frame_ptr := f\<rparr>) = trap_saved st"
  by (rule trap_saved_cong; simp)+

lemma keeps_refl: "trap_saved st \<Longrightarrow> keeps f st st"
  by (intro keeps_same) (simp_all add: trap_saved_def)

lemma frame_ptr_of: "the_frame st = Some (f, b, fr) \<Longrightarrow> frame_ptr st = Some f"
  by (simp add: the_frame_iff)

lemma trap_saved_set_frame:
  "the_frame st = Some (f, b, fr) \<Longrightarrow> set_frame fr' st = Some st' \<Longrightarrow> caller fr' = caller fr \<Longrightarrow> handlers fr' = handlers fr \<Longrightarrow> trap_saved st \<Longrightarrow> trap_saved st'"
  using keeps_set_frame [of st f b fr fr' st'] trap_saved_keeps [of f st st'] by (simp add: trap_saved_def)

lemma trap_saved_clear:
  assumes "ejsClearAttention st = Some st'" and "trap_saved st"
  shows "trap_saved st'"
proof (cases "frame_ptr st")
  case None
  with assms show ?thesis by (simp add: ejsClearAttention_def)
next
  case (Some f)
  then show ?thesis using trap_saved_keeps [OF keeps_clear [OF _ Some assms(1)] assms(2)] assms(2) by (simp add: trap_saved_def)
qed

lemma trap_saved_process: "processException alloc st = Some r \<Longrightarrow> trap_saved st \<longrightarrow> trap_saved (snd r)"
proof (erule processException.raw_induct [rotated])
  fix F :: "bool \<Rightarrow> machine \<Rightarrow> (bool \<times> machine) option" and alloc st r
  assume IH: "\<And>alloc st r. F alloc st = Some r \<Longrightarrow> trap_saved st \<longrightarrow> trap_saved (snd r)"
    and run: "(if frame_ptr st = None then Some (False, st)
      else Option.bind (checkExceptionHandlers alloc st) (\<lambda>st1.
        if exn st1 = None then Some (True, st1)
        else Option.bind (the_frame st1) (\<lambda>(f, b, fr).
          Option.bind (ejsClearAttention (st1\<lparr>stack_ptr := stackReturn fr, block_ptr := prev b, frame_ptr := caller fr\<rparr>)) (\<lambda>st2. F alloc st2)))) = Some r"
  show "trap_saved st \<longrightarrow> trap_saved (snd r)"
  proof
    assume s: "trap_saved st"
    show "trap_saved (snd r)"
    proof (cases "frame_ptr st")
      case None
      with run s show ?thesis by auto
    next
      case (Some f)
      then obtain st1 where c: "checkExceptionHandlers alloc st = Some st1" using run by (auto simp: bind_eq_Some_conv)
      have s1: "trap_saved st1" using trap_saved_keeping [OF keeping_check [OF Some keeps_refl [OF s]] c s] .
      show ?thesis
      proof (cases "exn st1")
        case None
        with run Some c s1 show ?thesis by auto
      next
        case (Some e)
        with run \<open>frame_ptr st = Some f\<close> c obtain st2 and b :: block and fr :: frame where 2: "ejsClearAttention (st1\<lparr>stack_ptr := stackReturn fr, block_ptr := prev b, frame_ptr := caller fr\<rparr>) = Some st2" "F alloc st2 = Some r"
          by (fastforce simp: bind_eq_Some_conv)
        from IH [OF 2(2)] trap_saved_clear [OF 2(1)] s1 show ?thesis by simp
      qed
    qed
  qed
qed

text \<open>The block of a finally clause is a new one.\<close>

lemma set_frame_ptrs: "set_frame fr st = Some st' \<Longrightarrow> block_ptr st' = block_ptr st \<and> unused st' = unused st"
  by (auto simp: set_frame_def set_block_def bind_eq_Some_conv)

lemma attention_ptrs: "ejsAttention st = Some st' \<Longrightarrow> block_ptr st' = block_ptr st \<and> unused st' = unused st"
  by (auto simp: ejsAttention_def bind_eq_Some_conv dest: set_frame_ptrs split: if_splits)

lemma clear_ptrs: "ejsClearAttention st = Some st' \<Longrightarrow> block_ptr st' = block_ptr st \<and> unused st' = unused st"
  by (auto simp: ejsClearAttention_def bind_eq_Some_conv dest: set_frame_ptrs split: if_splits option.splits)

lemma finally_block_new: "createExceptionBlock True ex EJS_EX_FINALLY st = Some st' \<Longrightarrow> block_ptr st' = Some (unused st)"
  by (auto simp: createExceptionBlock_def EJS_EX_FINALLY_def EJS_EX_CATCH_def EJS_EX_ITERATION_def bind_eq_Some_conv Let_def
      dest!: set_frame_ptrs attention_ptrs clear_ptrs)

lemma saved_call_finally:
  assumes run: "op_CALL_FINALLY True st = Some st'" and s: "trap_saved st" and fr: "the_frame st = Some (f, b, fr)"
  shows "trap_saved st'"
proof -
  obtain h where h: "findExceptionHandler st EJS_EX_FINALLY = Some h" using run by (auto simp: op_CALL_FINALLY_def bind_eq_Some_conv)
  show ?thesis
  proof (cases h)
    case None
    with run h fr s show ?thesis by (simp add: op_CALL_FINALLY_def)
  next
    case (Some ex)
    with run h fr obtain st1 st2 nb a r where 1: "(if inCatch fr then popExceptionBlock st else Some st) = Some st1" "createExceptionBlock True ex EJS_EX_FINALLY st1 = Some st2"
      "block_ptr st2 = Some a" "blocks st2 a = Some nb" "st' = set_block a (nb\<lparr>restartAddress := Some r\<rparr>) st2"
      by (auto simp: op_CALL_FINALLY_def bind_eq_Some_conv)
    note fp = frame_ptr_of [OF fr]
    have k1: "keeps f st st1" using 1(1) keeping_pop_exception [OF fp keeps_refl [OF s]] keeps_refl [OF s] by (auto simp: keeping_def split: if_splits)
    have k2: "keeps f st st2" using keeping_create_exception [OF fp k1] 1(2) unfolding keeping_def by blast
    have "blocks st1 a = None" using finally_block_new [OF 1(2)] 1(3) keeps_fresh [OF k1] by (simp add: fresh_ok_def)
    then have new: "blocks st a = None" using k1 unfolding keeps_def by (metis option.distinct(1) option.exhaust)
    obtain x bx where x: "blocks st x = Some bx" "restartAddress bx = Some Trap" using s by (auto simp: trap_saved_def restarts_ok_def)
    then obtain bx' where "blocks st2 x = Some bx'" "restartAddress bx' = Some Trap" using k2 unfolding keeps_def by metis
    moreover have "x \<noteq> a" using new x(1) by auto
    moreover have "fresh_ok st'" using keeps_fresh [OF k2] 1(4,5) by (auto simp: fresh_ok_def)
    ultimately show ?thesis using 1(5) by (auto simp: trap_saved_def restarts_ok_def)
  qed
qed

lemma step_saved:
  assumes "vm_step st st'" and s: "trap_saved st"
  shows "trap_saved st'"
  using assms(1)
proof (cases rule: vm_step.cases)
  case (Go f b fr q)
  from trap_saved_set_frame [OF Go(2,3) _ _ s] show ?thesis by simp
next
  case (Throw e)
  obtain f b fr where fp: "frame_ptr st = Some f" using Throw(1) by (auto simp: running_def the_frame_iff split: option.splits)
  have "keeping f st (op_THROW e st)" unfolding op_THROW_def by (rule keeping_steps(2) [OF fp]) (simp add: keeps_refl [OF s])
  then show ?thesis using Throw(2) s by (rule trap_saved_keeping)
next
  case OpenBlock
  have "fresh_ok st" using s by (simp add: trap_saved_def)
  from trap_saved_keeps [OF keeps_new [OF this] s] show ?thesis by (simp add: OpenBlock(1) op_OPEN_BLOCK_def Let_def)
next
  case (CloseBlock f b fr as)
  then show ?thesis using s by (auto simp: op_CLOSE_BLOCK_def bind_eq_Some_conv)
next
  case (Call hs argc adjust)
  have "fresh_ok st" using s by (simp add: trap_saved_def)
  then have new: "trap_saved ((set_block (unused st) nb st)\<lparr>block_ptr := q, unused := Suc (unused st)\<rparr>)" if "restartAddress nb = None" for nb q
    using trap_saved_keeps [OF keeps_new s, of nb q] that by simp
  have "trap_saved ((set_block (unused st) nb st)\<lparr>frame_ptr := fp, block_ptr := q, unused := Suc (unused st)\<rparr>)" if "restartAddress nb = None" for nb fp q
    using new [OF that, of q] by (simp add: trap_saved_def restarts_ok_def fresh_ok_def)
  from trap_saved_clear [OF Call(3) [unfolded call_script_def Let_def] this] show ?thesis by simp
next
  case Return
  then show ?thesis using s by (auto simp: op_RETURN_def bind_eq_Some_conv split: if_splits)
next
  case GotoFinally
  obtain f b fr where fp: "frame_ptr st = Some f" using GotoFinally(1) by (auto simp: running_def the_frame_iff split: option.splits)
  have "keeping f st (op_GOTO_FINALLY True st)" unfolding op_GOTO_FINALLY_def
    by (intro keeping_rules keeping_create_exception [OF fp] keeping_pop_exception [OF fp] | (simp add: keeps_refl [OF s]; fail))+
  then show ?thesis using GotoFinally(2) s by (rule trap_saved_keeping)
next
  case CallFinally
  then show ?thesis using saved_call_finally [OF _ s] by (auto simp: running_def split: option.splits)
next
  case EndException
  obtain f b fr where fp: "frame_ptr st = Some f" using EndException(1) by (auto simp: running_def the_frame_iff split: option.splits)
  have "keeping f st (op_END_EXCEPTION st)" unfolding op_END_EXCEPTION_def
    by (intro keeping_rules keeping_steps(1) [OF fp] keeping_pop_exception [OF fp] | assumption | (simp add: keeps_refl [OF s] SET_PC_def; fail))+
  then show ?thesis using EndException(2) s by (rule trap_saved_keeping)
next
  case CatchArg
  then show ?thesis using s by (simp add: op_PUSH_CATCH_ARG_def)
next
  case Attention
  then obtain f b fr st1 where 1: "the_frame st = Some (f, b, fr)" "(case attentionPc fr of None \<Rightarrow> Some st | Some p \<Rightarrow> set_frame (fr\<lparr>fpc := p, attentionPc := None\<rparr>) st) = Some st1"
    "(if exn st1 \<noteq> None then processException True st1 else Some (True, st1)) = Some (True, st')" by (auto simp: op_ATTENTION_def bind_eq_Some_conv)
  have "trap_saved st1" using 1(2) s trap_saved_set_frame [OF 1(1)] by (auto split: option.splits)
  with 1(3) trap_saved_process [of True st1 "(True, st')"] show ?thesis by (auto split: if_splits)
qed

lemma step_inv:
  assumes "vm_step st st'" and "machine_inv st segs"
  shows "(\<exists>segs'. machine_inv st' segs') \<or> (running st \<and> throws_again st \<and> op_CALL_FINALLY True st = Some st' \<and> trap_saved st')"
  using assms(1)
proof (cases rule: vm_step.cases)
  case (Go f b fr q)
  then show ?thesis using go_inv [OF assms(2)] by blast
next
  case (Throw e)
  with throw_inv [OF assms(2), of e] show ?thesis by auto
next
  case OpenBlock
  with open_inv [OF assms(2)] show ?thesis by simp
next
  case (CloseBlock f b fr as)
  from close_inv [OF assms(2) CloseBlock(2,3,4)] CloseBlock(5) show ?thesis by auto
next
  case (Call hs argc adjust)
  with call_inv [OF assms(2), of hs argc adjust] show ?thesis by auto
next
  case Return
  with return_inv [OF assms(2)] show ?thesis by auto
next
  case GotoFinally
  with goto_finally_inv [OF assms(2)] show ?thesis by auto
next
  case CallFinally
  with call_finally_inv [OF assms(2)] show ?thesis by (auto simp: trap_saved_def)
next
  case EndException
  with end_exception_inv [OF assms(2)] show ?thesis by auto
next
  case CatchArg
  have "machine_inv st' segs" using assms(2) by (rule inv_same) (simp_all add: CatchArg op_PUSH_CATCH_ARG_def)
  then show ?thesis by blast
next
  case Attention
  with attention_inv [OF assms(2)] show ?thesis by auto
qed

text \<open>Along a run the invariant holds until the trap is saved.\<close>

lemma reachable_inv:
  assumes "handlers_ok hs" and "vm_step\<^sup>*\<^sup>* (first_machine hs) st"
  shows "(\<exists>segs. machine_inv st segs) \<or> trap_saved st
     \<and> (\<exists>st1 st2. vm_step\<^sup>*\<^sup>* (first_machine hs) st1 \<and> running st1 \<and> throws_again st1 \<and> op_CALL_FINALLY True st1 = Some st2 \<and> vm_step\<^sup>*\<^sup>* st2 st)"
  using assms(2)
proof (induction rule: rtranclp_induct)
  case base
  then show ?case using first_machine_inv [OF assms(1)] by blast
next
  case (step y z)
  show ?case
  proof (cases "\<exists>segs. machine_inv y segs")
    case False
    with step.IH step_saved [OF step.hyps(2)] step.hyps(2) show ?thesis by (meson rtranclp.rtrancl_into_rtrancl)
  next
    case True
    then show ?thesis using step_inv [OF step.hyps(2)] step.hyps(1) by blast
  qed
qed

text \<open>
  Property C11. The exception handling of the machine keeps its stacks until a call of a finally clause saves the trap. In every state
  that a run reaches from the call of a function, and in which no block keeps the trap as the place to go on at, the blocks lead to the current
  frame and on to the first one, the frame that runs is not at the trap for good, and whatever comes next has a result: the
  instructions that throw, call, return, enter and end handlers when the code runs, and the handling of a pending exception when
  it is at the trap. So no null block or frame is followed, no loop over the blocks runs past the frame, and no search
  for a handler fails to end. A block comes to keep the trap in one way only: by a call of a finally clause from a catch clause whose
  block lies on one that keeps an exception. The block is dropped first, the exception is thrown again by that, and the trap is
  saved. From there a run may be lost, as the run below is.
\<close>

theorem exceptions_keep_stacks:
  assumes "handlers_ok hs" and "vm_step\<^sup>*\<^sup>* (first_machine hs) st"
  shows "(restarts_ok st \<longrightarrow>
       (\<exists>segs. stacks (blocks st) (block_ptr st) (frame_ptr st) segs)
     \<and> (\<exists>f b fr. the_frame st = Some (f, b, fr) \<and> resume fr \<noteq> Trap)
     \<and> op_ATTENTION True st \<noteq> None
     \<and> (running st \<longrightarrow> op_THROW e st \<noteq> None \<and> op_GOTO_FINALLY True st \<noteq> None \<and> op_CALL_FINALLY True st \<noteq> None
          \<and> op_END_EXCEPTION st \<noteq> None \<and> op_RETURN st \<noteq> None \<and> (handlers_ok hs' \<longrightarrow> call_script hs' argc adjust st \<noteq> None)))
     \<and> (\<not> restarts_ok st \<longrightarrow>
       (\<exists>st1 st2. vm_step\<^sup>*\<^sup>* (first_machine hs) st1 \<and> running st1 \<and> throws_again st1 \<and> op_CALL_FINALLY True st1 = Some st2 \<and> vm_step\<^sup>*\<^sup>* st2 st))"
proof (cases "\<exists>segs. machine_inv st segs")
  case False
  then show ?thesis using reachable_inv [OF assms] by (auto simp: trap_saved_def)
next
  case True
  then obtain segs where inv: "machine_inv st segs" by blast
  have "\<exists>f b fr. the_frame st = Some (f, b, fr) \<and> resume fr \<noteq> Trap" using machine_inv_top [OF inv] by metis
  moreover have "op_THROW e st \<noteq> None \<and> op_GOTO_FINALLY True st \<noteq> None \<and> op_CALL_FINALLY True st \<noteq> None
       \<and> op_END_EXCEPTION st \<noteq> None \<and> op_RETURN st \<noteq> None \<and> (handlers_ok hs' \<longrightarrow> call_script hs' argc adjust st \<noteq> None)" if run: "running st"
    using throw_inv [OF inv run, of e] goto_finally_inv [OF inv run] call_finally_inv [OF inv run] end_exception_inv [OF inv run]
      return_inv [OF inv] call_inv [OF inv run, of hs' argc adjust] by auto
  ultimately show ?thesis using attention_inv [OF inv] inv by (auto simp: machine_inv_def)
qed

text \<open>A function with a catch clause throws, the clause is entered and ends.\<close>

theorem exceptions_keep_stacks_witness:
  "\<exists>st. vm_step\<^sup>*\<^sup>* (first_machine [sample_handler]) st \<and> \<not> running st \<and> exn st = Some type_error \<and> op_ATTENTION True st \<noteq> None"
proof -
  let ?m = "first_machine [sample_handler]"
  obtain st where st: "op_THROW type_error ?m = Some st" "exn st = Some type_error" "\<not> running st" "blocks st = (blocks ?m)(0 := blocks st 0)" "\<forall>b. blocks st 0 = Some b \<longrightarrow> restartAddress b = None"
    by (auto simp: op_THROW_def ejsAttention_def first_machine_def the_frame_def running_def set_frame_def set_block_def)
  have "running ?m" by (simp add: running_def first_machine_def the_frame_def)
  then have run: "vm_step\<^sup>*\<^sup>* ?m st" using Throw [OF _ st(1)] by blast
  have "handlers_ok [sample_handler]" by (simp add: handlers_ok_def sample_handler_def catching_def EJS_EX_CATCH_def)
  moreover have "blocks st a = None" if "a \<noteq> 0" for a by (subst st(4)) (use that in \<open>simp add: first_machine_def\<close>)
  then have "restarts_ok st" using st(5) unfolding restarts_ok_def by (metis option.distinct(1))
  ultimately have "op_ATTENTION True st \<noteq> None" using exceptions_keep_stacks [OF _ run] by blast
  with run st(2,3) show ?thesis by blast
qed

text \<open>
  A run that is lost: an exception enters a finally clause; in it an iteration ends in a catch clause, whose block lies on the one that
  keeps the exception; the catch clause calls its own finally clause, at the end of which the frame stays at the trap.
\<close>

definition lost_handlers :: "handler list" where
  "lost_handlers =
     [\<lparr>ex_catchType = VoidType, ex_flags = EJS_EX_CATCH, tryStart = 32, tryEnd = 34, handlerStart = 34, handlerEnd = 36, numBlocks = 0, numStack = 0\<rparr>,
      \<lparr>ex_catchType = VoidType, ex_flags = EJS_EX_FINALLY, tryStart = 32, tryEnd = 36, handlerStart = 36, handlerEnd = 38, numBlocks = 0, numStack = 0\<rparr>,
      \<lparr>ex_catchType = VoidType, ex_flags = EJS_EX_FINALLY, tryStart = 4, tryEnd = 30, handlerStart = 30, handlerEnd = 40, numBlocks = 0, numStack = 0\<rparr>]"

definition go_to :: "int \<Rightarrow> machine \<Rightarrow> machine option" where
  "go_to q st = Option.bind (the_frame st) (\<lambda>(f, b, fr). if running st then set_frame (fr\<lparr>fpc := At q\<rparr>) st else None)"

definition when_running :: "(machine \<Rightarrow> machine option) \<Rightarrow> machine \<Rightarrow> machine option" where
  "when_running f st = (if running st then f st else None)"

definition attend :: "machine \<Rightarrow> machine option" where
  "attend st = (if running st then None else case op_ATTENTION True st of Some (True, st') \<Rightarrow> Some st' | _ \<Rightarrow> None)"

definition lost_run :: "(machine \<Rightarrow> machine option) list" where
  "lost_run = [go_to 10, when_running (op_THROW type_error), attend, go_to 33, when_running (op_THROW StopIterationType), attend, go_to 35,
     when_running (op_CALL_FINALLY True), attend, when_running op_END_EXCEPTION]"

lemma run_steps:
  "list_all (\<lambda>f. \<forall>st st'. f st = Some st' \<longrightarrow> vm_step st st') fs \<Longrightarrow> foldl Option.bind (Some st) fs = Some st' \<Longrightarrow> vm_step\<^sup>*\<^sup>* st st'"
proof (induction fs arbitrary: st)
  case (Cons f fs)
  have "foldl Option.bind None fs = None" by (induction fs) simp_all
  then obtain st1 where "f st = Some st1" "foldl Option.bind (Some st1) fs = Some st'" using Cons.prems(2) by (cases "f st") auto
  with Cons show ?case by (auto intro: converse_rtranclp_into_rtranclp)
qed simp

lemma lost_steps: "list_all (\<lambda>f. \<forall>st st'. f st = Some st' \<longrightarrow> vm_step st st') lost_run"
  by (auto simp: lost_run_def go_to_def when_running_def attend_def bind_eq_Some_conv split: if_splits option.splits bool.splits
      intro: vm_step.intros)

lemma call_finally_loses_run: "\<exists>st. vm_step\<^sup>*\<^sup>* (first_machine lost_handlers) st \<and> exn st = Some type_error \<and> op_ATTENTION True st = None"
proof -
  have "map_option (\<lambda>st. (exn st, op_ATTENTION True st = None)) (foldl Option.bind (Some (first_machine lost_handlers)) lost_run) = Some (Some type_error, True)"
    by code_simp
  then show ?thesis using run_steps [OF lost_steps] by (auto simp: map_option_case split: option.splits)
qed

end
