(* ===== verification/MprHash.thy ===== *)
theory MprHash
  imports MprString
begin

text \<open>
  The hash tables of the runtime (\<^verbatim>\<open>src/mpr/mprLib.c\<close>, \<^verbatim>\<open>MprHash\<close>): chained buckets of entries, which every
  lookup may spread over a larger table.

  \<^item> Entries live at addresses and are linked by \<open>next\<close>, since an iteration goes on from an entry that was removed
    or moved in the meantime. An entry that was removed stays at its address.
  \<^item> Keys are C strings, without the null character at their end. Data is a pointer, which may be null.
  \<^item> \<open>mem\<close> says which allocations succeed. A pointer that leads nowhere is undefined (\<^const>\<open>None\<close>).
\<close>

section \<open>Tables\<close>

definition ME_MAX_HASH :: int where "ME_MAX_HASH = 23"
definition MPR_OBJ_HASH :: int where "MPR_OBJ_HASH = 1"
definition MPR_HASH_CASELESS :: int where "MPR_HASH_CASELESS = 0x10"
definition MPR_HASH_UNIQUE :: int where "MPR_HASH_UNIQUE = 0x400"

record 'v mpr_key =
  next_key :: "nat option"
  key :: string
  data :: "'v option"
  key_type :: int
  bucket :: int

record 'v mpr_hash =
  hflags :: int
  hsize :: int
  hlength :: int
  buckets :: "nat option list"
  keys :: "nat \<Rightarrow> 'v mpr_key option"
  free_key :: nat

definition caseless :: "int \<Rightarrow> bool" where
  "caseless flags \<longleftrightarrow> flags AND MPR_HASH_CASELESS \<noteq> 0"

text \<open>The function of the table, and whether two keys are the same in it.\<close>

definition hash_fn :: "int \<Rightarrow> string \<Rightarrow> uint32" where
  "hash_fn flags k = (if caseless flags then shashlower k else shash k)"

definition same_key :: "int \<Rightarrow> string \<Rightarrow> string \<Rightarrow> bool" where
  "same_key flags k1 k2 \<longleftrightarrow> (if caseless flags then scaselesscmp k1 k2 = 0 else k1 = k2)"

definition key_index :: "int \<Rightarrow> int \<Rightarrow> string \<Rightarrow> int" where
  "key_index flags sz k = uint (hash_fn flags k) mod sz"

definition mprCreateHash :: "(int \<Rightarrow> bool) \<Rightarrow> int \<Rightarrow> int \<Rightarrow> 'v mpr_hash option" where
  "mprCreateHash mem hashSize flags =
     (let n = (if hashSize < ME_MAX_HASH then ME_MAX_HASH else hashSize)
      in if \<not> mem 48 \<or> \<not> mem (8 * n) then None
         else Some \<lparr>hflags = flags OR MPR_OBJ_HASH, hsize = n, hlength = 0, buckets = replicate (nat n) None, keys = (\<lambda>_. None), free_key = 0\<rparr>)"

definition getHashSize :: "int \<Rightarrow> int" where
  "getHashSize numKeys = hash_size_from hashSizes 0 numKeys"

text \<open>Spreading the entries of one chain over the new buckets; each becomes the first of its bucket.\<close>

partial_function (option) rehash_chain :: "int \<Rightarrow> int \<Rightarrow> nat option \<Rightarrow> (nat \<Rightarrow> 'v mpr_key option) \<times> nat option list \<times> int
    \<Rightarrow> ((nat \<Rightarrow> 'v mpr_key option) \<times> nat option list \<times> int) option" where
  "rehash_chain flags sz p st =
     (case p of
        None \<Rightarrow> Some st
      | Some a \<Rightarrow>
          Option.bind (fst st a) (\<lambda>sp.
            let index = key_index flags sz (key sp) in
            Option.bind (mem_read (fst (snd st)) index) (\<lambda>q.
              Option.bind (mem_write (fst (snd st)) index (Some a)) (\<lambda>bs.
                rehash_chain flags sz (next_key sp)
                  ((fst st)(a \<mapsto> sp\<lparr>next_key := q, bucket := index\<rparr>), bs, snd (snd st) + 1)))))"

declare rehash_chain.simps [code]

fun rehash_all :: "int \<Rightarrow> int \<Rightarrow> nat option list \<Rightarrow> (nat \<Rightarrow> 'v mpr_key option) \<times> nat option list \<times> int
    \<Rightarrow> ((nat \<Rightarrow> 'v mpr_key option) \<times> nat option list \<times> int) option" where
  "rehash_all flags sz [] st = Some st"
| "rehash_all flags sz (p # ps) st = Option.bind (rehash_chain flags sz p st) (rehash_all flags sz ps)"

text \<open>The growth at the start of a lookup. The product wraps as an \<^verbatim>\<open>int\<close>; a negative one asks for the least size.\<close>

definition grow_table :: "(int \<Rightarrow> bool) \<Rightarrow> 'v mpr_hash \<Rightarrow> 'v mpr_hash option" where
  "grow_table mem h =
     (let n = getHashSize (c_int (hlength h * 4) div 3)
      in if hlength h > hsize h \<and> hsize h < n \<and> mem (8 * n)
         then do { (ks, bs, len) \<leftarrow> rehash_all (hflags h) n (take (nat (hsize h)) (buckets h)) (keys h, replicate (nat n) None, 0);
                   Some (h\<lparr>hlength := len, keys := ks, hsize := n, buckets := bs\<rparr>) }
         else Some h)"

text \<open>Along the chain to the first entry with the key: the entry before it, and the entry.\<close>

partial_function (option) find_key :: "(nat \<Rightarrow> 'v mpr_key option) \<Rightarrow> (string \<Rightarrow> bool) \<Rightarrow> nat option \<Rightarrow> nat option \<Rightarrow> (nat option \<times> nat) option option" where
  "find_key ks P before p =
     (case p of
        None \<Rightarrow> Some None
      | Some a \<Rightarrow> Option.bind (ks a) (\<lambda>sp. if P (key sp) then Some (Some (before, a)) else find_key ks P (Some a) (next_key sp)))"

declare find_key.simps [code]

definition lookupHash :: "(int \<Rightarrow> bool) \<Rightarrow> 'v mpr_hash \<Rightarrow> string \<Rightarrow> (int \<times> (nat option \<times> nat) option \<times> 'v mpr_hash) option" where
  "lookupHash mem h k =
     do { h1 \<leftarrow> grow_table mem h;
          let index = key_index (hflags h1) (hsize h1) k;
          p \<leftarrow> mem_read (buckets h1) index;
          r \<leftarrow> find_key (keys h1) (\<lambda>k'. same_key (hflags h1) k' k) None p;
          Some (index, r, h1) }"

section \<open>Operations\<close>

text \<open>A new entry at the front of its bucket.\<close>

definition push_key :: "int \<Rightarrow> string \<Rightarrow> 'v option \<Rightarrow> 'v mpr_hash \<Rightarrow> (nat \<times> 'v mpr_hash) option" where
  "push_key index k ptr h =
     do { q \<leftarrow> mem_read (buckets h) index;
          bs \<leftarrow> mem_write (buckets h) index (Some (free_key h));
          Some (free_key h, h\<lparr>keys := (keys h)(free_key h \<mapsto> \<lparr>next_key = q, key = k, data = ptr, key_type = 0, bucket = index\<rparr>),
                              buckets := bs, hlength := hlength h + 1, free_key := Suc (free_key h)\<rparr>) }"

definition mprAddKey :: "(int \<Rightarrow> bool) \<Rightarrow> 'v mpr_hash \<Rightarrow> string \<Rightarrow> 'v option \<Rightarrow> (nat option \<times> 'v mpr_hash) option" where
  "mprAddKey mem h k ptr =
     do { (index, r, h1) \<leftarrow> lookupHash mem h k;
          case r of
            Some (_, a) \<Rightarrow>
              if hflags h1 AND MPR_HASH_UNIQUE \<noteq> 0 then Some (None, h1)
              else do { sp \<leftarrow> keys h1 a; Some (Some a, h1\<lparr>keys := (keys h1)(a \<mapsto> sp\<lparr>data := ptr\<rparr>)\<rparr>) }
          | None \<Rightarrow>
              if \<not> mem 32 then Some (None, h1)
              else do { (a, h2) \<leftarrow> push_key index k ptr h1; Some (Some a, h2) } }"

definition mprAddKeyWithType :: "(int \<Rightarrow> bool) \<Rightarrow> 'v mpr_hash \<Rightarrow> string \<Rightarrow> 'v option \<Rightarrow> int \<Rightarrow> (nat option \<times> 'v mpr_hash) option" where
  "mprAddKeyWithType mem h k ptr type =
     do { (r, h1) \<leftarrow> mprAddKey mem h k ptr;
          case r of
            None \<Rightarrow> Some (None, h1)
          | Some a \<Rightarrow> do { sp \<leftarrow> keys h1 a; Some (Some a, h1\<lparr>keys := (keys h1)(a \<mapsto> sp\<lparr>key_type := type\<rparr>)\<rparr>) } }"

definition mprAddDuplicateKey :: "(int \<Rightarrow> bool) \<Rightarrow> 'v mpr_hash \<Rightarrow> string \<Rightarrow> 'v option \<Rightarrow> (nat option \<times> 'v mpr_hash) option" where
  "mprAddDuplicateKey mem h k ptr =
     (if \<not> mem 32 then Some (None, h)
      else do { (a, h1) \<leftarrow> push_key (key_index (hflags h) (hsize h) k) k ptr h; Some (Some a, h1) })"

text \<open>Taking an entry out of its chain.\<close>

definition unlink :: "int \<Rightarrow> nat option \<Rightarrow> 'v mpr_key \<Rightarrow> 'v mpr_hash \<Rightarrow> 'v mpr_hash option" where
  "unlink index before sp h =
     (case before of
        Some b \<Rightarrow> do { prevSp \<leftarrow> keys h b; Some (h\<lparr>keys := (keys h)(b \<mapsto> prevSp\<lparr>next_key := next_key sp\<rparr>)\<rparr>) }
      | None \<Rightarrow> do { bs \<leftarrow> mem_write (buckets h) index (next_key sp); Some (h\<lparr>buckets := bs\<rparr>) })"

definition mprRemoveKey :: "(int \<Rightarrow> bool) \<Rightarrow> 'v mpr_hash \<Rightarrow> string \<Rightarrow> (int \<times> 'v mpr_hash) option" where
  "mprRemoveKey mem h k =
     do { (index, r, h1) \<leftarrow> lookupHash mem h k;
          case r of
            None \<Rightarrow> Some (MPR_ERR_CANT_FIND, h1)
          | Some (before, a) \<Rightarrow>
              do { sp \<leftarrow> keys h1 a;
                   h2 \<leftarrow> unlink index before sp h1;
                   Some (0, h2\<lparr>hlength := hlength h2 - 1\<rparr>) } }"

definition mprLookupKeyEntry :: "(int \<Rightarrow> bool) \<Rightarrow> 'v mpr_hash \<Rightarrow> string \<Rightarrow> (nat option \<times> 'v mpr_hash) option" where
  "mprLookupKeyEntry mem h k = do { (_, r, h1) \<leftarrow> lookupHash mem h k; Some (map_option snd r, h1) }"

definition mprLookupKey :: "(int \<Rightarrow> bool) \<Rightarrow> 'v mpr_hash \<Rightarrow> string \<Rightarrow> ('v option \<times> 'v mpr_hash) option" where
  "mprLookupKey mem h k =
     do { (_, r, h1) \<leftarrow> lookupHash mem h k;
          case r of
            None \<Rightarrow> Some (None, h1)
          | Some (_, a) \<Rightarrow> do { sp \<leftarrow> keys h1 a; Some (data sp, h1) } }"

definition mprGetHashLength :: "'v mpr_hash \<Rightarrow> int" where
  "mprGetHashLength h = hlength h"

section \<open>Iteration\<close>

text \<open>The first entry of the buckets from \<open>i\<close> on.\<close>

function first_from :: "'v mpr_hash \<Rightarrow> int \<Rightarrow> nat option option" where
  "first_from h i =
     (if i < hsize h
      then Option.bind (mem_read (buckets h) i) (\<lambda>p. case p of Some a \<Rightarrow> Some (Some a) | None \<Rightarrow> first_from h (i + 1))
      else Some None)"
  by pat_completeness auto
termination by (relation "measure (\<lambda>(h, i). nat (hsize h - i))") auto

declare first_from.simps [simp del]

definition mprGetFirstKey :: "'v mpr_hash \<Rightarrow> nat option option" where
  "mprGetFirstKey h = first_from h 0"

definition mprGetNextKey :: "'v mpr_hash \<Rightarrow> nat option \<Rightarrow> nat option option" where
  "mprGetNextKey h kp =
     (case kp of
        None \<Rightarrow> mprGetFirstKey h
      | Some a \<Rightarrow> do { sp \<leftarrow> keys h a; if next_key sp \<noteq> None then Some (next_key sp) else first_from h (bucket sp + 1) })"

text \<open>
  The loop \<^verbatim>\<open>for (kp = 0; (kp = mprGetNextKey(table, kp)) != 0; )\<close> with a body that sees the entry and changes a
  state, of which the table is a part.
\<close>

partial_function (option) for_keys :: "('s \<Rightarrow> 'v mpr_hash) \<Rightarrow> (nat \<Rightarrow> 's \<Rightarrow> 's option) \<Rightarrow> nat option \<Rightarrow> 's \<Rightarrow> 's option" where
  "for_keys table body kp s =
     Option.bind (mprGetNextKey (table s) kp) (\<lambda>r.
       case r of
         None \<Rightarrow> Some s
       | Some a \<Rightarrow> Option.bind (body a s) (for_keys table body (Some a)))"

declare for_keys.simps [code]

text \<open>Adding the entry of another table.\<close>

definition copy_key :: "(int \<Rightarrow> bool) \<Rightarrow> 'v mpr_hash \<Rightarrow> nat \<Rightarrow> 'v mpr_hash \<Rightarrow> 'v mpr_hash option" where
  "copy_key mem src a h = do { kp \<leftarrow> keys src a; (_, h1) \<leftarrow> mprAddKey mem h (key kp) (data kp); Some h1 }"

definition mprBlendHash :: "(int \<Rightarrow> bool) \<Rightarrow> 'v mpr_hash \<Rightarrow> 'v mpr_hash \<Rightarrow> 'v mpr_hash option" where
  "mprBlendHash mem h extra = for_keys (\<lambda>_. extra) (copy_key mem extra) None h"

text \<open>No memory for the new table is the result \<open>Some None\<close>.\<close>

definition mprCloneHash :: "(int \<Rightarrow> bool) \<Rightarrow> 'v mpr_hash \<Rightarrow> 'v mpr_hash option option" where
  "mprCloneHash mem master =
     (case mprCreateHash mem (hsize master) (hflags master) of
        None \<Rightarrow> Some None
      | Some h \<Rightarrow> map_option Some (for_keys (\<lambda>_. master) (copy_key mem master) None h))"

section \<open>Keys up to case\<close>

definition lower_char :: "char \<Rightarrow> char" where
  "lower_char c = char_of (nat (tolower c))"

text \<open>The key as the table sees it.\<close>

definition norm_key :: "int \<Rightarrow> string \<Rightarrow> string" where
  "norm_key flags k = (if caseless flags then map lower_char k else k)"

lemma of_char_less: "of_char c < (256 :: nat)"
  using of_char_mod_256 [of c] by (metis mod_less_divisor zero_less_numeral)

lemma tolower_bounds: "0 \<le> tolower c" "tolower c < 256"
  using of_char_less [of c] by (auto simp: tolower_def Let_def)

lemma tolower_lower: "tolower c = int (of_char (lower_char c))"
  using tolower_bounds [of c] by (simp add: lower_char_def)

lemma tolower_0: "tolower c = 0 \<longleftrightarrow> c = CHR 0x00"
proof -
  have "of_char c = (0 :: nat) \<longleftrightarrow> c = CHR 0x00"
    using of_char_eq_iff [of c "CHR 0x00", where 'a = nat] by simp
  then show ?thesis by (auto simp: tolower_def Let_def)
qed

lemma tolower_idem: "tolower (lower_char c) = tolower c"
  using tolower_lower [of c] by (auto simp: tolower_def Let_def split: if_splits)

lemma lower_char_eq_iff: "lower_char c = lower_char d \<longleftrightarrow> tolower c = tolower d"
  by (metis lower_char_def tolower_lower)

lemma norm_key_idem [simp]: "norm_key flags (norm_key flags k) = norm_key flags k"
  by (simp add: norm_key_def lower_char_eq_iff tolower_idem)

lemma c_string_norm [simp]: "c_string (norm_key flags k) \<longleftrightarrow> c_string k"
proof -
  have "lower_char c = CHR 0x00 \<longleftrightarrow> c = CHR 0x00" for c
    using tolower_0 [of "lower_char c"] tolower_0 [of c] by (simp only: tolower_idem)
  then have "CHR 0x00 \<in> lower_char ` set k \<longleftrightarrow> CHR 0x00 \<in> set k" by (metis image_iff)
  then show ?thesis by (simp add: norm_key_def c_string_def)
qed

lemma sncaselesscmp_iff:
  "c_string s1 \<Longrightarrow> c_string s2 \<Longrightarrow> length s1 \<le> n \<Longrightarrow> length s2 \<le> n \<Longrightarrow> sncaselesscmp s1 s2 n = 0 \<longleftrightarrow> map lower_char s1 = map lower_char s2"
proof (induction s1 s2 n rule: sncaselesscmp.induct)
  case (1 c s1 s2 n)
  have c: "tolower c \<noteq> 0" using "1.prems"(1) by (auto simp: tolower_0 c_string_def)
  show ?case
  proof (cases s2)
    case Nil
    with c show ?thesis by (simp add: Let_def)
  next
    case (Cons d s2')
    have "c_string s1" "c_string s2'" using "1.prems"(1,2) by (auto simp: Cons c_string_def)
    with "1.IH" "1.prems" show ?thesis by (auto simp: Cons Let_def lower_char_eq_iff)
  qed
qed auto

lemma same_key_iff: "c_string k1 \<Longrightarrow> c_string k2 \<Longrightarrow> same_key flags k1 k2 \<longleftrightarrow> norm_key flags k1 = norm_key flags k2"
  by (simp add: same_key_def norm_key_def scaselesscmp_def sncaselesscmp_iff)

lemma hash_fn_norm: "hash_fn flags (norm_key flags k) = hash_fn flags k"
proof -
  have "foldl (\<lambda>h c. (h XOR word_of_int (tolower c)) * HASH_PRIME) x (map lower_char k)
      = foldl (\<lambda>h c. (h XOR word_of_int (tolower c)) * HASH_PRIME) x k" for x
    by (induction k arbitrary: x) (simp_all add: tolower_idem)
  then show ?thesis by (simp add: hash_fn_def norm_key_def shashlower_def)
qed

lemma key_index_norm: "norm_key flags k1 = norm_key flags k2 \<Longrightarrow> key_index flags sz k1 = key_index flags sz k2"
  unfolding key_index_def by (metis hash_fn_norm)

lemma key_index_bounds: "0 < sz \<Longrightarrow> 0 \<le> key_index flags sz k \<and> key_index flags sz k < sz"
  by (simp add: key_index_def)

section \<open>Chains\<close>

fun key_chain :: "(nat \<Rightarrow> 'v mpr_key option) \<Rightarrow> nat option \<Rightarrow> nat list \<Rightarrow> bool" where
  "key_chain ks p [] \<longleftrightarrow> p = None"
| "key_chain ks p (a # as) \<longleftrightarrow> p = Some a \<and> (\<exists>sp. ks a = Some sp \<and> key_chain ks (next_key sp) as)"

lemma key_chain_cong:
  "(\<And>a. a \<in> set as \<Longrightarrow> map_option next_key (ks' a) = map_option next_key (ks a)) \<Longrightarrow> key_chain ks' p as \<longleftrightarrow> key_chain ks p as"
proof (induction as arbitrary: p)
  case (Cons a as)
  have "map_option next_key (ks' a) = map_option next_key (ks a)" by (rule Cons.prems) simp
  with Cons.IH Cons.prems show ?case by (cases "ks' a"; cases "ks a") auto
qed simp

lemma key_chain_unique: "key_chain ks p as \<Longrightarrow> key_chain ks p bs \<Longrightarrow> as = bs"
proof (induction as arbitrary: p bs)
  case Nil then show ?case by (cases bs) auto
next
  case (Cons a as) then show ?case by (cases bs) auto
qed

lemma key_chain_append: "key_chain ks p (as @ a # bs) \<Longrightarrow> \<exists>sp. ks a = Some sp \<and> key_chain ks (next_key sp) bs"
  by (induction as arbitrary: p) auto

lemma key_chain_distinct: "key_chain ks p as \<Longrightarrow> distinct as"
proof (rule ccontr)
  assume c: "key_chain ks p as" and "\<not> distinct as"
  then obtain xs ys zs a where "as = xs @ [a] @ ys @ [a] @ zs" using not_distinct_decomp by blast
  then have as: "as = xs @ a # (ys @ a # zs)" "as = (xs @ a # ys) @ a # zs" by simp_all
  obtain sp1 where 1: "ks a = Some sp1" "key_chain ks (next_key sp1) (ys @ a # zs)" using key_chain_append c as(1) by metis
  obtain sp2 where 2: "ks a = Some sp2" "key_chain ks (next_key sp2) zs" using key_chain_append c as(2) by metis
  have "ys @ a # zs = zs" using key_chain_unique 1 2 by fastforce
  then have "length (ys @ a # zs) = length zs" by (rule arg_cong)
  then show False by simp
qed

text \<open>Searching a chain.\<close>

lemma find_key_step:
  "find_key ks P before None = Some None"
  "find_key ks P before (Some a) = Option.bind (ks a) (\<lambda>sp. if P (key sp) then Some (Some (before, a)) else find_key ks P (Some a) (next_key sp))"
  by (subst find_key.simps, simp)+

fun walk_keys :: "(nat \<Rightarrow> bool) \<Rightarrow> nat option \<Rightarrow> nat list \<Rightarrow> (nat option \<times> nat) option" where
  "walk_keys P before [] = None"
| "walk_keys P before (a # as) = (if P a then Some (before, a) else walk_keys P (Some a) as)"

lemma find_key_chain: "key_chain ks p as \<Longrightarrow> find_key ks P before p = Some (walk_keys (\<lambda>a. P (key (the (ks a)))) before as)"
  by (induction as arbitrary: p before) (auto simp: find_key_step)

lemma walk_keys_None: "walk_keys P before as = None \<longleftrightarrow> (\<forall>a \<in> set as. \<not> P a)"
  by (induction as arbitrary: before) auto

lemma walk_keys_Some:
  "walk_keys P before as = Some (q, a) \<Longrightarrow> \<exists>ys zs. as = ys @ a # zs \<and> P a \<and> (\<forall>y \<in> set ys. \<not> P y) \<and> q = (if ys = [] then before else Some (last ys))"
proof (induction as arbitrary: before)
  case (Cons b as)
  show ?case
  proof (cases "P b")
    case True
    with Cons.prems show ?thesis by (intro exI [of _ "[]"] exI [of _ as]) auto
  next
    case False
    then have "walk_keys P (Some b) as = Some (q, a)" using Cons.prems by simp
    then obtain ys zs where "as = ys @ a # zs" "P a" "\<forall>y \<in> set ys. \<not> P y" "q = (if ys = [] then Some b else Some (last ys))"
      using Cons.IH by blast
    with False show ?thesis by (intro exI [of _ "b # ys"] exI [of _ zs]) auto
  qed
qed simp

text \<open>Taking an entry out of a chain.\<close>

lemma key_chain_remove:
  assumes "key_chain ks p (ys @ a # zs)" and "ks a = Some sp"
  shows "ys = [] \<Longrightarrow> p = Some a \<and> key_chain ks (next_key sp) zs"
    and "ys \<noteq> [] \<Longrightarrow> ks (last ys) = Some bp \<Longrightarrow> key_chain (ks(last ys \<mapsto> bp\<lparr>next_key := next_key sp\<rparr>)) p (ys @ zs)"
proof -
  show "ys = [] \<Longrightarrow> p = Some a \<and> key_chain ks (next_key sp) zs" using assms by auto
  assume "ys \<noteq> []" "ks (last ys) = Some bp"
  with assms(1) key_chain_distinct [OF assms(1)] show "key_chain (ks(last ys \<mapsto> bp\<lparr>next_key := next_key sp\<rparr>)) p (ys @ zs)"
  proof (induction ys arbitrary: p)
    case (Cons y ys)
    have n: "y \<notin> set (ys @ zs)" using Cons.prems by auto
    show ?case
    proof (cases "ys = []")
      case True
      have "key_chain ks (next_key sp) zs" using Cons.prems assms(2) by (auto simp: True)
      then have "key_chain (ks(y \<mapsto> bp\<lparr>next_key := next_key sp\<rparr>)) (next_key sp) zs" using n by (subst key_chain_cong [of _ _ ks]) auto
      with Cons.prems show ?thesis by (simp add: True fun_upd_def)
    next
      case False
      obtain yp where "ks y = Some yp" "key_chain ks (next_key yp) (ys @ a # zs)" using Cons.prems(1) by auto
      moreover have "last ys \<noteq> y" using False n by (metis Un_iff last_in_set set_append)
      ultimately show ?thesis using Cons False by auto
    qed
  qed simp
qed

section \<open>The invariant\<close>

text \<open>
  Every bucket has a chain; the entries of a chain know their bucket and belong there by their key; no two entries
  have the same key; the length is their number.
\<close>

definition members :: "int \<Rightarrow> (nat \<Rightarrow> nat list) \<Rightarrow> nat set" where
  "members sz ch = (\<Union>b < nat sz. set (ch b))"

definition entry_key :: "int \<Rightarrow> (nat \<Rightarrow> 'v mpr_key option) \<Rightarrow> nat \<Rightarrow> string" where
  "entry_key flags ks a = norm_key flags (key (the (ks a)))"

definition entry_ok :: "int \<Rightarrow> int \<Rightarrow> nat \<Rightarrow> 'v mpr_key option \<Rightarrow> bool" where
  "entry_ok flags sz b e \<longleftrightarrow> (\<exists>sp. e = Some sp \<and> bucket sp = int b \<and> key_index flags sz (key sp) = int b \<and> c_string (key sp))"

definition table_ok :: "int \<Rightarrow> int \<Rightarrow> (nat \<Rightarrow> 'v mpr_key option) \<Rightarrow> nat option list \<Rightarrow> (nat \<Rightarrow> nat list) \<Rightarrow> bool" where
  "table_ok flags sz ks bs ch \<longleftrightarrow> 0 < sz \<and> length bs = nat sz
     \<and> (\<forall>b < nat sz. key_chain ks (bs ! b) (ch b) \<and> (\<forall>a \<in> set (ch b). entry_ok flags sz b (ks a)))"

definition hash_ok :: "'v mpr_hash \<Rightarrow> (nat \<Rightarrow> nat list) \<Rightarrow> bool" where
  "hash_ok h ch \<longleftrightarrow> table_ok (hflags h) (hsize h) (keys h) (buckets h) ch
     \<and> inj_on (entry_key (hflags h) (keys h)) (members (hsize h) ch) \<and> hlength h = int (card (members (hsize h) ch))
     \<and> (\<forall>a. keys h a \<noteq> None \<longrightarrow> a < free_key h)"

lemma finite_members [simp]: "finite (members sz ch)"
  by (simp add: members_def)

lemma table_member:
  assumes "table_ok flags sz ks bs ch" and "a \<in> members sz ch"
  shows "\<exists>b sp. b < nat sz \<and> a \<in> set (ch b) \<and> ks a = Some sp \<and> bucket sp = int b \<and> key_index flags sz (key sp) = int b \<and> c_string (key sp)"
  using assms by (force simp: table_ok_def members_def entry_ok_def)

text \<open>The chain of an entry is the one of its key.\<close>

lemma table_in_chain:
  "table_ok flags sz ks bs ch \<Longrightarrow> b < nat sz \<Longrightarrow> a \<in> set (ch b) \<Longrightarrow> ks a = Some sp \<Longrightarrow> b = nat (key_index flags sz (key sp)) \<and> bucket sp = int b \<and> c_string (key sp)"
  by (force simp: table_ok_def entry_ok_def)

lemma hash_member: "hash_ok h ch \<Longrightarrow> a \<in> members (hsize h) ch \<Longrightarrow> \<exists>sp. keys h a = Some sp"
  using table_member [of "hflags h" "hsize h" "keys h" "buckets h" ch a] by (auto simp: hash_ok_def)

section \<open>Tables as maps\<close>

text \<open>The map of a table: for each key in its normal form the key as it was added, its type and its data.\<close>

definition entry_info :: "'v mpr_key \<Rightarrow> string \<times> int \<times> 'v option" where
  "entry_info sp = (key sp, key_type sp, data sp)"

definition hash_view :: "'v mpr_hash \<Rightarrow> string \<Rightarrow> (string \<times> int \<times> 'v option) option" where
  "hash_view h k =
     (if c_string k \<and> norm_key (hflags h) k = k
      then case find_key (keys h) (\<lambda>k'. same_key (hflags h) k' k) None (buckets h ! nat (key_index (hflags h) (hsize h) k)) of
             Some (Some (_, a)) \<Rightarrow> map_option entry_info (keys h a)
           | _ \<Rightarrow> None
      else None)"

text \<open>The search in the chain of a key.\<close>

lemma find_key_spec:
  assumes ok: "table_ok flags sz ks bs ch" and k: "c_string k" and b: "b = nat (key_index flags sz k)"
  shows "find_key ks (\<lambda>k'. same_key flags k' k) None (bs ! b) = Some (walk_keys (\<lambda>a. entry_key flags ks a = norm_key flags k) None (ch b))"
proof -
  have b': "b < nat sz" using ok b key_index_bounds [of sz flags k] by (auto simp: table_ok_def)
  then have c: "key_chain ks (bs ! b) (ch b)" using ok by (simp add: table_ok_def)
  have "walk_keys (\<lambda>a. same_key flags (key (the (ks a))) k) q as = walk_keys (\<lambda>a. entry_key flags ks a = norm_key flags k) q as"
    if "set as \<subseteq> set (ch b)" for q as
    using that
  proof (induction as arbitrary: q)
    case (Cons a as)
    obtain sp where "ks a = Some sp" "c_string (key sp)" using table_member [OF ok, of a] Cons.prems b' by (auto simp: members_def)
    then show ?case using Cons k by (auto simp: same_key_iff entry_key_def)
  qed simp
  then show ?thesis using find_key_chain [OF c] by simp
qed

lemma members_key_chain:
  assumes ok: "table_ok flags sz ks bs ch" and a: "a \<in> members sz ch" and k: "entry_key flags ks a = norm_key flags k"
  shows "a \<in> set (ch (nat (key_index flags sz k)))"
proof -
  obtain b sp where "b < nat sz" "a \<in> set (ch b)" "ks a = Some sp" "key_index flags sz (key sp) = int b" using table_member [OF ok a] by blast
  moreover have "key_index flags sz k = key_index flags sz (key sp)" using k \<open>ks a = Some sp\<close> by (intro key_index_norm) (simp add: entry_key_def)
  ultimately show ?thesis by simp
qed

lemma view_in:
  assumes ok: "hash_ok h ch" and a: "a \<in> members (hsize h) ch" and sp: "keys h a = Some sp"
  shows "hash_view h (norm_key (hflags h) (key sp)) = Some (entry_info sp)"
proof -
  let ?k = "norm_key (hflags h) (key sp)" and ?b = "nat (key_index (hflags h) (hsize h) (norm_key (hflags h) (key sp)))"
  have c: "table_ok (hflags h) (hsize h) (keys h) (buckets h) ch" using ok by (simp add: hash_ok_def)
  have s: "c_string ?k" using table_member [OF c a] sp by auto
  have ek: "entry_key (hflags h) (keys h) a = norm_key (hflags h) ?k" using sp by (simp add: entry_key_def)
  have "walk_keys (\<lambda>a. entry_key (hflags h) (keys h) a = norm_key (hflags h) ?k) None (ch ?b) \<noteq> None"
    using members_key_chain [OF c a ek] ek by (auto simp: walk_keys_None)
  then obtain q a' where w: "walk_keys (\<lambda>a. entry_key (hflags h) (keys h) a = norm_key (hflags h) ?k) None (ch ?b) = Some (q, a')" by auto
  then have a': "a' \<in> set (ch ?b)" "entry_key (hflags h) (keys h) a' = norm_key (hflags h) ?k" using walk_keys_Some by fastforce+
  have "?b < nat (hsize h)" using c key_index_bounds [of "hsize h" "hflags h" ?k] by (auto simp: table_ok_def)
  then have "a' \<in> members (hsize h) ch" using a'(1) by (auto simp: members_def)
  then have "a' = a" using ok a a'(2) ek by (auto simp: hash_ok_def inj_on_def)
  with w find_key_spec [OF c s refl] s sp show ?thesis by (simp add: hash_view_def)
qed

lemma view_not_in:
  assumes ok: "hash_ok h ch" and k: "k \<notin> entry_key (hflags h) (keys h) ` members (hsize h) ch"
  shows "hash_view h k = None"
proof (cases "c_string k \<and> norm_key (hflags h) k = k")
  case True
  let ?b = "nat (key_index (hflags h) (hsize h) k)"
  have c: "table_ok (hflags h) (hsize h) (keys h) (buckets h) ch" using ok by (simp add: hash_ok_def)
  have "?b < nat (hsize h)" using c key_index_bounds [of "hsize h" "hflags h" k] by (auto simp: table_ok_def)
  then have "set (ch ?b) \<subseteq> members (hsize h) ch" unfolding members_def by (intro UN_upper) (simp only: lessThan_iff)
  then have "walk_keys (\<lambda>a. entry_key (hflags h) (keys h) a = norm_key (hflags h) k) None (ch ?b) = None"
    unfolding walk_keys_None using k True by (metis imageI subsetD)
  with True find_key_spec [OF c _ refl, of k] show ?thesis by (simp add: hash_view_def)
qed (auto simp: hash_view_def)

lemma view_eqI:
  assumes ok: "hash_ok h ch"
    and "\<And>a sp. a \<in> members (hsize h) ch \<Longrightarrow> keys h a = Some sp \<Longrightarrow> m (norm_key (hflags h) (key sp)) = Some (entry_info sp)"
    and "\<And>k. k \<notin> entry_key (hflags h) (keys h) ` members (hsize h) ch \<Longrightarrow> m k = None"
  shows "hash_view h = m"
proof
  fix k
  show "hash_view h k = m k"
  proof (cases "k \<in> entry_key (hflags h) (keys h) ` members (hsize h) ch")
    case True
    then obtain a where a: "a \<in> members (hsize h) ch" "k = entry_key (hflags h) (keys h) a" by auto
    moreover obtain sp where "keys h a = Some sp" using hash_member [OF ok a(1)] by (elim exE)
    ultimately show ?thesis using view_in [OF ok a(1)] assms(2) [OF a(1)] by (simp add: entry_key_def)
  qed (simp add: view_not_in [OF ok] assms(3))
qed

lemma dom_view: "hash_ok h ch \<Longrightarrow> dom (hash_view h) = entry_key (hflags h) (keys h) ` members (hsize h) ch"
proof -
  assume ok: "hash_ok h ch"
  have "hash_view h (entry_key (hflags h) (keys h) a) \<noteq> None" if m: "a \<in> members (hsize h) ch" for a
  proof -
    obtain sp where sp: "keys h a = Some sp" using hash_member [OF ok m] by (elim exE)
    show ?thesis using view_in [OF ok m sp] sp by (simp add: entry_key_def)
  qed
  then have "entry_key (hflags h) (keys h) ` members (hsize h) ch \<subseteq> dom (hash_view h)" by auto
  moreover have "dom (hash_view h) \<subseteq> entry_key (hflags h) (keys h) ` members (hsize h) ch" 
  proof
    fix k assume "k \<in> dom (hash_view h)"
    then show "k \<in> entry_key (hflags h) (keys h) ` members (hsize h) ch" using view_not_in [OF ok, of k] by (auto simp only: domIff)
  qed
  ultimately show ?thesis by (rule equalityI [rotated])
qed

lemma finite_view: "hash_ok h ch \<Longrightarrow> finite (dom (hash_view h))"
  by (simp add: dom_view)

lemma length_view: "hash_ok h ch \<Longrightarrow> hlength h = int (card (dom (hash_view h)))"
  by (simp add: dom_view card_image) (simp add: hash_ok_def card_image)

lemma mprCreateHash_ok:
  assumes "mem 48" and "mem (8 * max ME_MAX_HASH n)"
  shows "\<exists>h. mprCreateHash mem n flags = Some h \<and> hash_ok h (\<lambda>_. []) \<and> hash_view h = Map.empty \<and> hflags h = flags OR MPR_OBJ_HASH
     \<and> hsize h = max ME_MAX_HASH n"
proof -
  let ?n = "max ME_MAX_HASH n"
  define h :: "'a mpr_hash" where "h = \<lparr>hflags = flags OR MPR_OBJ_HASH, hsize = ?n, hlength = 0, buckets = replicate (nat ?n) None, keys = (\<lambda>_. None), free_key = 0\<rparr>"
  have "mprCreateHash mem n flags = Some h" using assms by (auto simp: mprCreateHash_def h_def Let_def max_def)
  moreover have ok: "hash_ok h (\<lambda>_. [])" by (auto simp: hash_ok_def table_ok_def members_def h_def ME_MAX_HASH_def)
  moreover have "hash_view h = Map.empty" by (rule view_eqI [OF ok]) (auto simp: members_def)
  ultimately show ?thesis by (simp add: h_def)
qed

section \<open>Growing\<close>

text \<open>A new first entry of a bucket.\<close>

lemma table_push:
  assumes ok: "table_ok flags sz ks bs ch" and new: "a \<notin> members sz ch" and i: "i = key_index flags sz (key sp)" and s: "c_string (key sp)"
    and sp: "next_key sp = bs ! nat i" "bucket sp = i"
  shows "table_ok flags sz (ks(a \<mapsto> sp)) (bs[nat i := Some a]) (ch(nat i := a # ch (nat i)))"
    and "members sz (ch(nat i := a # ch (nat i))) = insert a (members sz ch)"
proof -
  have b: "0 < sz" "length bs = nat sz" "0 \<le> i" "i < sz" using ok key_index_bounds [of sz flags "key sp"] i by (auto simp: table_ok_def)
  have other: "a \<notin> set (ch b)" if "b < nat sz" for b using new that by (auto simp: members_def)
  have same: "key_chain (ks(a \<mapsto> sp)) p (ch b) = key_chain ks p (ch b)" if "b < nat sz" for p b
    using other [OF that] by (intro key_chain_cong) auto
  have "key_chain (ks(a \<mapsto> sp)) (bs[nat i := Some a] ! b) ((ch(nat i := a # ch (nat i))) b)
      \<and> (\<forall>a' \<in> set ((ch(nat i := a # ch (nat i))) b). entry_ok flags sz b ((ks(a \<mapsto> sp)) a'))" if "b < nat sz" for b
  proof (cases "b = nat i")
    case True
    have "key_chain ks (bs ! b) (ch b)" "\<forall>a' \<in> set (ch b). entry_ok flags sz b (ks a')" using ok that by (auto simp: table_ok_def)
    with True b sp i s same [OF that] other [OF that] that show ?thesis by (auto simp: entry_ok_def)
  next
    case False
    have "key_chain ks (bs ! b) (ch b)" "\<forall>a' \<in> set (ch b). entry_ok flags sz b (ks a')" using ok that by (auto simp: table_ok_def)
    with False same [OF that] other [OF that] show ?thesis by auto
  qed
  with b show "table_ok flags sz (ks(a \<mapsto> sp)) (bs[nat i := Some a]) (ch(nat i := a # ch (nat i)))" by (simp add: table_ok_def)
  show "members sz (ch(nat i := a # ch (nat i))) = insert a (members sz ch)" 
  proof -
    have "nat i \<in> {..<nat sz}" using b by simp
    then have "(\<Union>b<nat sz. set ((ch(nat i := a # ch (nat i))) b)) = insert a (\<Union>b<nat sz. set (ch b))" by (auto simp del: lessThan_iff split: if_splits)
    then show ?thesis by (simp add: members_def)
  qed
qed

text \<open>Moving changes only the links and the buckets of entries.\<close>

definition same_content :: "(nat \<Rightarrow> 'v mpr_key option) \<Rightarrow> (nat \<Rightarrow> 'v mpr_key option) \<Rightarrow> bool" where
  "same_content ks ks' \<longleftrightarrow> (\<forall>a. map_option (\<lambda>sp. (key sp, key_type sp, data sp)) (ks' a) = map_option (\<lambda>sp. (key sp, key_type sp, data sp)) (ks a))"

lemma same_content_refl [simp]: "same_content ks ks"
  by (simp add: same_content_def)

lemma same_content_trans: "same_content ks ks1 \<Longrightarrow> same_content ks1 ks2 \<Longrightarrow> same_content ks ks2"
  by (simp add: same_content_def)

lemma same_content_Some: "same_content ks ks' \<Longrightarrow> ks' a = Some sp' \<Longrightarrow> \<exists>sp. ks a = Some sp \<and> key sp = key sp' \<and> entry_info sp = entry_info sp'"
  unfolding same_content_def entry_info_def by (drule spec [of _ a]) (cases "ks a"; cases "ks' a"; auto)

lemma same_content_back: "same_content ks ks' \<Longrightarrow> ks a = Some sp \<Longrightarrow> \<exists>sp'. ks' a = Some sp' \<and> key sp' = key sp \<and> entry_info sp' = entry_info sp"
  unfolding same_content_def entry_info_def by (drule spec [of _ a]) (cases "ks a"; cases "ks' a"; auto)

lemma rehash_chain_step:
  "rehash_chain flags sz None st = Some st"
  "rehash_chain flags sz (Some a) (ks, bs, len) = Option.bind (ks a) (\<lambda>sp. let index = key_index flags sz (key sp) in
     Option.bind (mem_read bs index) (\<lambda>q. Option.bind (mem_write bs index (Some a)) (\<lambda>bs1.
       rehash_chain flags sz (next_key sp) (ks(a \<mapsto> sp\<lparr>next_key := q, bucket := index\<rparr>), bs1, len + 1))))"
  by (subst rehash_chain.simps, simp)+

lemma rehash_chain_ok:
  "key_chain ks p as \<Longrightarrow> table_ok flags sz ks bs ch \<Longrightarrow> set as \<inter> members sz ch = {} \<Longrightarrow> \<forall>a \<in> set as. c_string (key (the (ks a)))
   \<Longrightarrow> \<exists>ks' bs' ch'. rehash_chain flags sz p (ks, bs, len) = Some (ks', bs', len + int (length as)) \<and> table_ok flags sz ks' bs' ch'
      \<and> members sz ch' = members sz ch \<union> set as \<and> same_content ks ks' \<and> (\<forall>a. a \<notin> set as \<longrightarrow> ks' a = ks a)"
proof (induction as arbitrary: ks p bs ch len)
  case Nil
  then show ?case by (auto simp: rehash_chain_step)
next
  case (Cons a as)
  obtain sp where sp: "p = Some a" "ks a = Some sp" "key_chain ks (next_key sp) as" using Cons.prems(1) by auto
  have d: "a \<notin> set as" "a \<notin> members sz ch" using key_chain_distinct [OF Cons.prems(1)] Cons.prems(3) by auto
  define i where "i = key_index flags sz (key sp)"
  have b: "0 \<le> i" "i < sz" "length bs = nat sz" using Cons.prems(2) key_index_bounds [of sz flags "key sp"] by (auto simp: table_ok_def i_def)
  define sp1 where "sp1 = sp\<lparr>next_key := bs ! nat i, bucket := i\<rparr>"
  have s: "c_string (key sp)" using Cons.prems(4) sp(2) by simp
  have push: "table_ok flags sz (ks(a \<mapsto> sp1)) (bs[nat i := Some a]) (ch(nat i := a # ch (nat i)))"
    "members sz (ch(nat i := a # ch (nat i))) = insert a (members sz ch)"
    using table_push [OF Cons.prems(2) d(2), of i sp1] s by (simp_all add: sp1_def i_def)
  have "key_chain (ks(a \<mapsto> sp1)) (next_key sp) as" using sp(3) d(1) by (subst key_chain_cong [of _ _ ks]) auto
  moreover have "set as \<inter> members sz (ch(nat i := a # ch (nat i))) = {}" "\<forall>x \<in> set as. c_string (key (the ((ks(a \<mapsto> sp1)) x)))"
    using push(2) Cons.prems(3,4) d(1) by auto
  ultimately obtain ks' bs' ch' where r: "rehash_chain flags sz (next_key sp) (ks(a \<mapsto> sp1), bs[nat i := Some a], len + 1) = Some (ks', bs', len + 1 + int (length as))"
    "table_ok flags sz ks' bs' ch'" "members sz ch' = insert a (members sz ch) \<union> set as" "same_content (ks(a \<mapsto> sp1)) ks'" "\<forall>x. x \<notin> set as \<longrightarrow> ks' x = (ks(a \<mapsto> sp1)) x"
    using Cons.IH [OF _ push(1)] push(2) by metis
  have "same_content ks (ks(a \<mapsto> sp1))" using sp(2) by (simp add: same_content_def sp1_def)
  then have "same_content ks ks'" using r(4) by (rule same_content_trans)
  moreover have "rehash_chain flags sz p (ks, bs, len) = Some (ks', bs', len + int (length (a # as)))"
    using r(1) sp(1,2) b by (simp add: rehash_chain_step mem_read_Some mem_write_Some i_def [symmetric] sp1_def [symmetric] Let_def)
  ultimately show ?case using r(2,3,5) by (intro exI [of _ ks'] exI [of _ bs'] exI [of _ ch']) auto
qed

lemma rehash_all_ok:
  "list_all2 (key_chain ks) ps ass \<Longrightarrow> distinct (concat ass) \<Longrightarrow> table_ok flags sz ks bs ch \<Longrightarrow> set (concat ass) \<inter> members sz ch = {}
   \<Longrightarrow> \<forall>a \<in> set (concat ass). c_string (key (the (ks a)))
   \<Longrightarrow> \<exists>ks' bs' ch'. rehash_all flags sz ps (ks, bs, len) = Some (ks', bs', len + int (length (concat ass))) \<and> table_ok flags sz ks' bs' ch'
      \<and> members sz ch' = members sz ch \<union> set (concat ass) \<and> same_content ks ks' \<and> (\<forall>a. a \<notin> set (concat ass) \<longrightarrow> ks' a = ks a)"
proof (induction ass arbitrary: ks ps bs ch len)
  case Nil
  then show ?case by auto
next
  case (Cons as ass)
  obtain p ps' where ps: "ps = p # ps'" "key_chain ks p as" "list_all2 (key_chain ks) ps' ass" using Cons.prems(1) by (cases ps) auto
  obtain ks1 bs1 ch1 where 1: "rehash_chain flags sz p (ks, bs, len) = Some (ks1, bs1, len + int (length as))" "table_ok flags sz ks1 bs1 ch1"
    "members sz ch1 = members sz ch \<union> set as" "same_content ks ks1" "\<forall>a. a \<notin> set as \<longrightarrow> ks1 a = ks a"
    using rehash_chain_ok [OF ps(2) Cons.prems(3), of len] Cons.prems(4,5) by fastforce
  have n: "a \<notin> set as" if "a \<in> set (concat ass)" for a using Cons.prems(2) that by auto
  have "key_chain ks1 q as' = key_chain ks q as'" if "as' \<in> set ass" for q as'
  proof (rule key_chain_cong)
    fix a assume "a \<in> set as'"
    then have "a \<notin> set as" using that by (intro n) auto
    then show "map_option next_key (ks1 a) = map_option next_key (ks a)" using 1(5) by simp
  qed
  then have c: "list_all2 (key_chain ks1) ps' ass" using ps(3) by (auto simp: list_all2_conv_all_nth)
  have d: "distinct (concat ass)" "set (concat ass) \<inter> members sz ch1 = {}" using Cons.prems(2,4) 1(3) by auto
  have s: "\<forall>a \<in> set (concat ass). c_string (key (the (ks1 a)))" using Cons.prems(5) 1(5) n by auto
  obtain ks' bs' ch' where 2: "rehash_all flags sz ps' (ks1, bs1, len + int (length as)) = Some (ks', bs', len + int (length as) + int (length (concat ass)))"
    "table_ok flags sz ks' bs' ch'" "members sz ch' = members sz ch1 \<union> set (concat ass)" "same_content ks1 ks'" "\<forall>a. a \<notin> set (concat ass) \<longrightarrow> ks' a = ks1 a"
    using Cons.IH [OF c d(1) 1(2) d(2) s] by metis
  have "same_content ks ks'" using 1(4) 2(4) by (rule same_content_trans)
  with 1 2 ps(1) show ?case by (intro exI [of _ ks'] exI [of _ bs'] exI [of _ ch']) (auto simp: Un_assoc)
qed

text \<open>All entries, bucket by bucket.\<close>

definition entries :: "int \<Rightarrow> (nat \<Rightarrow> nat list) \<Rightarrow> nat list" where
  "entries sz ch = concat (map ch [0..<nat sz])"

lemma set_entries [simp]: "set (entries sz ch) = members sz ch"
  by (auto simp: entries_def members_def)

lemma table_one_bucket:
  assumes ok: "table_ok flags sz ks bs ch" and "b < nat sz" "b' < nat sz" "a \<in> set (ch b)" "a \<in> set (ch b')"
  shows "b = b'"
proof -
  have "entry_ok flags sz b (ks a)" using assms by (simp add: table_ok_def)
  then obtain sp where sp: "ks a = Some sp" by (auto simp: entry_ok_def)
  show ?thesis using table_in_chain [OF ok assms(2,4) sp] table_in_chain [OF ok assms(3,5) sp] by simp
qed

lemma distinct_concat_upt:
  assumes "\<And>b. b < n \<Longrightarrow> distinct (ch b)" and "\<And>b b' a. b < n \<Longrightarrow> b' < n \<Longrightarrow> a \<in> set (ch b) \<Longrightarrow> a \<in> set (ch b') \<Longrightarrow> b = b'"
  shows "distinct (concat (map ch [0..<n]))"
  using assms
proof (induction n)
  case (Suc n)
  have "a \<notin> set (ch n)" if "b < n" "a \<in> set (ch b)" for a b
  proof
    assume "a \<in> set (ch n)"
    then have "b = n" using that by (intro Suc.prems(2) [of b n a]) simp_all
    with that show False by simp
  qed
  then have "set (concat (map ch [0..<n])) \<inter> set (ch n) = {}" by auto
  moreover have "distinct (concat (map ch [0..<n]))" by (intro Suc.IH Suc.prems) simp_all
  moreover have "distinct (ch n)" by (rule Suc.prems) simp
  ultimately show ?case by simp
qed simp

lemma table_distinct:
  assumes ok: "table_ok flags sz ks bs ch"
  shows "distinct (entries sz ch)"
  unfolding entries_def
proof (rule distinct_concat_upt)
  fix b assume "b < nat sz"
  then have "key_chain ks (bs ! b) (ch b)" using ok by (simp add: table_ok_def)
  then show "distinct (ch b)" by (rule key_chain_distinct)
qed (rule table_one_bucket [OF ok])

lemma length_entries: "hash_ok h ch \<Longrightarrow> int (length (entries (hsize h) ch)) = hlength h"
  using distinct_card [of "entries (hsize h) ch"] table_distinct [of "hflags h" "hsize h" "keys h" "buckets h" ch] by (simp add: hash_ok_def)

lemma empty_table: "0 < sz \<Longrightarrow> table_ok flags sz ks (replicate (nat sz) None) (\<lambda>_. [])"
  by (simp add: table_ok_def)

lemma getHashSize_pos: "0 < getHashSize n"
  by (simp add: getHashSize_def hashSizes_def)

text \<open>A table with the same entries elsewhere is the same map.\<close>

lemma moved_ok:
  assumes ok: "hash_ok h ch" and t: "table_ok (hflags h1) (hsize h1) (keys h1) (buckets h1) ch1" and m: "members (hsize h1) ch1 = members (hsize h) ch"
    and c: "same_content (keys h) (keys h1)" and eq: "hflags h1 = hflags h" "hlength h1 = hlength h" "free_key h1 = free_key h"
  shows "hash_ok h1 ch1" and "hash_view h1 = hash_view h"
proof -
  have ek: "entry_key (hflags h) (keys h1) a = entry_key (hflags h) (keys h) a" if mem: "a \<in> members (hsize h) ch" for a
  proof -
    obtain sp where "keys h a = Some sp" using hash_member [OF ok mem] by (elim exE)
    then show ?thesis using same_content_back [OF c] by (force simp: entry_key_def)
  qed
  have "a < free_key h" if used: "keys h1 a \<noteq> None" for a
  proof -
    obtain sp where "keys h a = Some sp" using used same_content_Some [OF c, of a] by auto
    then show ?thesis using ok by (auto simp: hash_ok_def)
  qed
  moreover have "inj_on (entry_key (hflags h) (keys h1)) (members (hsize h) ch)" using ok ek by (auto simp: hash_ok_def inj_on_def)
  ultimately show ok1: "hash_ok h1 ch1" using ok t m eq by (simp add: hash_ok_def)
  show "hash_view h1 = hash_view h"
  proof (rule view_eqI [OF ok1])
    fix a sp assume "a \<in> members (hsize h1) ch1" "keys h1 a = Some sp"
    then show "hash_view h (norm_key (hflags h1) (key sp)) = Some (entry_info sp)"
      using same_content_Some [OF c, of a sp] view_in [OF ok, of a] m eq(1) by (metis)
  next
    fix k assume "k \<notin> entry_key (hflags h1) (keys h1) ` members (hsize h1) ch1"
    then show "hash_view h k = None" using view_not_in [OF ok, of k] ek m eq(1) by (auto simp: image_iff)
  qed
qed

lemma grow_table_ok:
  assumes ok: "hash_ok h ch"
  shows "\<exists>h1 ch1. grow_table mem h = Some h1 \<and> hash_ok h1 ch1 \<and> hash_view h1 = hash_view h \<and> hflags h1 = hflags h \<and> hlength h1 = hlength h
     \<and> free_key h1 = free_key h \<and> members (hsize h1) ch1 = members (hsize h) ch \<and> same_content (keys h) (keys h1)
     \<and> (hlength h \<le> hsize h \<longrightarrow> h1 = h \<and> ch1 = ch)"
proof (cases "hlength h > hsize h \<and> hsize h < getHashSize (c_int (hlength h * 4) div 3) \<and> mem (8 * getHashSize (c_int (hlength h * 4) div 3))")
  case True
  define n where "n = getHashSize (c_int (hlength h * 4) div 3)"
  have t: "table_ok (hflags h) (hsize h) (keys h) (buckets h) ch" using ok by (simp add: hash_ok_def)
  have c: "list_all2 (key_chain (keys h)) (take (nat (hsize h)) (buckets h)) (map ch [0..<nat (hsize h)])"
    using t by (auto simp: table_ok_def list_all2_conv_all_nth)
  have s: "\<forall>a \<in> set (entries (hsize h) ch). c_string (key (the (keys h a)))" using table_member [OF t] by fastforce
  have mem0: "members n (\<lambda>_. []) = {}" by (simp add: members_def)
  obtain ks' bs' ch' where r: "rehash_all (hflags h) n (take (nat (hsize h)) (buckets h)) (keys h, replicate (nat n) None, 0) = Some (ks', bs', hlength h)"
    "table_ok (hflags h) n ks' bs' ch'" "members n ch' = members (hsize h) ch" "same_content (keys h) ks'"
    using rehash_all_ok [OF c _ empty_table [of n "hflags h" "keys h"], of 0] table_distinct [OF t] s mem0 length_entries [OF ok] getHashSize_pos
    unfolding entries_def [symmetric] by (fastforce simp: n_def)
  let ?h = "h\<lparr>hlength := hlength h, keys := ks', hsize := n, buckets := bs'\<rparr>"
  have "grow_table mem h = Some ?h" using True r(1) by (simp add: grow_table_def n_def [symmetric] Let_def)
  moreover have "hash_ok ?h ch'" "hash_view ?h = hash_view h" using moved_ok [OF ok, of ?h ch'] r(2-4) by simp_all
  ultimately show ?thesis using r(3,4) True by (intro exI [of _ ?h] exI [of _ ch']) simp
next
  case False
  then have "grow_table mem h = Some h" by (auto simp: grow_table_def Let_def)
  with ok show ?thesis by (intro exI [of _ h] exI [of _ ch]) simp
qed

text \<open>
  A lookup finds the entry of a key, with the entry before it, in a table that may have grown.
\<close>

definition found :: "'v mpr_hash \<Rightarrow> (nat \<Rightarrow> nat list) \<Rightarrow> string \<Rightarrow> (nat option \<times> nat) option \<Rightarrow> bool" where
  "found h ch k r \<longleftrightarrow>
     (case r of
        None \<Rightarrow> norm_key (hflags h) k \<notin> entry_key (hflags h) (keys h) ` members (hsize h) ch
      | Some (before, a) \<Rightarrow> \<exists>ys zs sp. ch (nat (key_index (hflags h) (hsize h) k)) = ys @ a # zs \<and> keys h a = Some sp
          \<and> norm_key (hflags h) (key sp) = norm_key (hflags h) k \<and> before = (if ys = [] then None else Some (last ys)))"

lemma lookup_ok:
  assumes ok: "hash_ok h ch" and k: "c_string k"
  shows "\<exists>r h1 ch1. lookupHash mem h k = Some (key_index (hflags h1) (hsize h1) k, r, h1) \<and> hash_ok h1 ch1 \<and> hash_view h1 = hash_view h
     \<and> hflags h1 = hflags h \<and> hlength h1 = hlength h \<and> free_key h1 = free_key h \<and> members (hsize h1) ch1 = members (hsize h) ch
     \<and> same_content (keys h) (keys h1) \<and> (hlength h \<le> hsize h \<longrightarrow> h1 = h \<and> ch1 = ch) \<and> found h1 ch1 k r"
proof -
  obtain h1 ch1 where g: "grow_table mem h = Some h1" "hash_ok h1 ch1" "hash_view h1 = hash_view h" "hflags h1 = hflags h" "hlength h1 = hlength h"
     "free_key h1 = free_key h" "members (hsize h1) ch1 = members (hsize h) ch" "same_content (keys h) (keys h1)" "hlength h \<le> hsize h \<longrightarrow> h1 = h \<and> ch1 = ch"
    using grow_table_ok [OF ok, of mem] by (elim exE conjE) (rule that)
  let ?i = "key_index (hflags h1) (hsize h1) k" and ?P = "\<lambda>a. entry_key (hflags h1) (keys h1) a = norm_key (hflags h1) k"
  have t: "table_ok (hflags h1) (hsize h1) (keys h1) (buckets h1) ch1" using g(2) by (simp add: hash_ok_def)
  then have b: "0 \<le> ?i" "?i < hsize h1" "nat ?i < nat (hsize h1)" "length (buckets h1) = nat (hsize h1)"
    using key_index_bounds [of "hsize h1" "hflags h1" k] by (auto simp: table_ok_def)
  define r where "r = walk_keys ?P None (ch1 (nat ?i))"
  have "lookupHash mem h k = Some (?i, r, h1)"
    using g(1) b find_key_spec [OF t k refl] by (simp add: lookupHash_def mem_read_Some r_def Let_def)
  moreover have "found h1 ch1 k r"
  proof (cases r)
    case None
    then have "\<forall>a \<in> set (ch1 (nat ?i)). \<not> ?P a" by (simp add: r_def walk_keys_None)
    then have "norm_key (hflags h1) k \<notin> entry_key (hflags h1) (keys h1) ` members (hsize h1) ch1" using members_key_chain [OF t, of _ k] by (auto simp: image_iff)
    with None show ?thesis by (simp add: found_def)
  next
    case (Some qa)
    obtain q a where qa: "qa = (q, a)" by (cases qa)
    obtain ys zs where w: "ch1 (nat ?i) = ys @ a # zs" "?P a" "q = (if ys = [] then None else Some (last ys))"
      using walk_keys_Some [of ?P None "ch1 (nat ?i)" q a] Some qa by (auto simp: r_def)
    have "a \<in> set (ch1 (nat ?i))" by (simp add: w(1))
    then have "a \<in> members (hsize h1) ch1" using b(3) unfolding members_def by (intro UN_I [of "nat ?i"]) (simp_all only: lessThan_iff)
    then obtain sp where "keys h1 a = Some sp" using hash_member [OF g(2)] by blast
    with w Some qa show ?thesis by (auto simp: found_def entry_key_def)
  qed
  ultimately show ?thesis using g(2-9) by blast
qed

section \<open>What the operations do to the map\<close>

lemma hash_okD:
  "hash_ok h ch \<Longrightarrow> table_ok (hflags h) (hsize h) (keys h) (buckets h) ch"
  "hash_ok h ch \<Longrightarrow> inj_on (entry_key (hflags h) (keys h)) (members (hsize h) ch)"
  "hash_ok h ch \<Longrightarrow> hlength h = int (card (members (hsize h) ch))"
  "hash_ok h ch \<Longrightarrow> keys h a = Some sp \<Longrightarrow> a < free_key h"
  by (auto simp: hash_ok_def)

text \<open>Changing the type or the data of an entry.\<close>

lemma set_entry_ok:
  assumes ok: "hash_ok h ch" and a: "a \<in> members (hsize h) ch" "keys h a = Some sp"
    and same: "next_key sp' = next_key sp" "key sp' = key sp" "bucket sp' = bucket sp"
  shows "hash_ok (h\<lparr>keys := (keys h)(a \<mapsto> sp')\<rparr>) ch"
    and "hash_view (h\<lparr>keys := (keys h)(a \<mapsto> sp')\<rparr>) = (hash_view h)(norm_key (hflags h) (key sp) \<mapsto> entry_info sp')"
proof -
  let ?ks = "(keys h)(a \<mapsto> sp')" and ?h = "h\<lparr>keys := (keys h)(a \<mapsto> sp')\<rparr>"
  have ek: "entry_key (hflags h) ?ks = entry_key (hflags h) (keys h)" using a(2) same(2) by (auto simp: entry_key_def)
  have "key_chain ?ks p as = key_chain (keys h) p as" for p as using a(2) same(1) by (intro key_chain_cong) simp
  moreover have "entry_ok (hflags h) (hsize h) b (?ks a') = entry_ok (hflags h) (hsize h) b (keys h a')" for b a' using a(2) same by (auto simp: entry_ok_def)
  ultimately have "table_ok (hflags h) (hsize h) ?ks (buckets h) ch" using hash_okD(1) [OF ok] by (simp add: table_ok_def)
  then show ok': "hash_ok ?h ch" using ok ek a(2) by (auto simp: hash_ok_def)
  show "hash_view ?h = (hash_view h)(norm_key (hflags h) (key sp) \<mapsto> entry_info sp')"
  proof (rule view_eqI [OF ok'])
    fix a' sp1 assume m: "a' \<in> members (hsize ?h) ch" and k: "keys ?h a' = Some sp1"
    show "((hash_view h)(norm_key (hflags h) (key sp) \<mapsto> entry_info sp')) (norm_key (hflags ?h) (key sp1)) = Some (entry_info sp1)"
    proof (cases "a' = a")
      case True
      with k same(2) show ?thesis by simp
    next
      case False
      then have k': "keys h a' = Some sp1" using k by simp
      have "entry_key (hflags h) (keys h) a' \<noteq> entry_key (hflags h) (keys h) a" using hash_okD(2) [OF ok] m a(1) False by (auto simp: inj_on_def)
      then have "norm_key (hflags h) (key sp1) \<noteq> norm_key (hflags h) (key sp)" using k' a(2) by (simp add: entry_key_def)
      with view_in [OF ok, of a' sp1] m k' show ?thesis by simp
    qed
  next
    fix k assume n: "k \<notin> entry_key (hflags ?h) (keys ?h) ` members (hsize ?h) ch"
    then have "k \<noteq> norm_key (hflags h) (key sp)" using a ek by (auto simp: entry_key_def image_iff)
    with n view_not_in [OF ok, of k] ek show "((hash_view h)(norm_key (hflags h) (key sp) \<mapsto> entry_info sp')) k = None" by simp
  qed
qed

text \<open>A new entry.\<close>

lemma push_key_ok:
  assumes ok: "hash_ok h ch" and k: "c_string k" and new: "norm_key (hflags h) k \<notin> entry_key (hflags h) (keys h) ` members (hsize h) ch"
  shows "\<exists>h1 ch1. push_key (key_index (hflags h) (hsize h) k) k ptr h = Some (free_key h, h1) \<and> hash_ok h1 ch1 \<and> hflags h1 = hflags h \<and> hsize h1 = hsize h
     \<and> hash_view h1 = (hash_view h)(norm_key (hflags h) k \<mapsto> (k, 0, ptr)) \<and> free_key h \<in> members (hsize h1) ch1"
proof -
  let ?i = "key_index (hflags h) (hsize h) k"
  note t = hash_okD(1) [OF ok]
  have b: "0 \<le> ?i" "?i < hsize h" "length (buckets h) = nat (hsize h)" using t key_index_bounds [of "hsize h" "hflags h" k] by (auto simp: table_ok_def)
  define a where "a = free_key h"
  define sp where "sp = \<lparr>next_key = buckets h ! nat ?i, key = k, data = ptr, key_type = 0, bucket = ?i\<rparr>"
  define ch1 where "ch1 = ch(nat ?i := a # ch (nat ?i))"
  define h1 where "h1 = h\<lparr>keys := (keys h)(a \<mapsto> sp), buckets := (buckets h)[nat ?i := Some a], hlength := hlength h + 1, free_key := Suc a\<rparr>"
  have n: "keys h a = None" using hash_okD(4) [OF ok] by (force simp: a_def)
  then have na: "a \<notin> members (hsize h) ch" using hash_member [OF ok] by force
  have push: "table_ok (hflags h) (hsize h) ((keys h)(a \<mapsto> sp)) ((buckets h)[nat ?i := Some a]) ch1" "members (hsize h) ch1 = insert a (members (hsize h) ch)"
    using table_push [OF t na, of ?i sp] k by (simp_all add: sp_def ch1_def)
  have ek: "entry_key (hflags h) ((keys h)(a \<mapsto> sp)) x = (if x = a then norm_key (hflags h) k else entry_key (hflags h) (keys h) x)" for x
    by (simp add: entry_key_def sp_def)
  have "inj_on (entry_key (hflags h) ((keys h)(a \<mapsto> sp))) (insert a (members (hsize h) ch))"
    using hash_okD(2) [OF ok] new na by (auto simp: inj_on_def ek image_iff)
  then have ok1: "hash_ok h1 ch1" using push na hash_okD(3,4) [OF ok] by (auto simp: hash_ok_def h1_def a_def less_Suc_eq)
  have "hash_view h1 = (hash_view h)(norm_key (hflags h) k \<mapsto> (k, 0, ptr))"
  proof (rule view_eqI [OF ok1])
    fix x sx assume m: "x \<in> members (hsize h1) ch1" and x: "keys h1 x = Some sx"
    show "((hash_view h)(norm_key (hflags h) k \<mapsto> (k, 0, ptr))) (norm_key (hflags h1) (key sx)) = Some (entry_info sx)"
    proof (cases "x = a")
      case True
      with x show ?thesis by (auto simp: h1_def sp_def entry_info_def)
    next
      case False
      then have x': "keys h x = Some sx" "x \<in> members (hsize h) ch" using m x push(2) by (auto simp: h1_def)
      then have "entry_key (hflags h) (keys h) x \<noteq> norm_key (hflags h) k" using new by (auto simp: image_iff)
      with view_in [OF ok x'(2,1)] x'(1) show ?thesis by (simp add: h1_def entry_key_def)
    qed
  next
    fix k' assume "k' \<notin> entry_key (hflags h1) (keys h1) ` members (hsize h1) ch1"
    then have "k' \<noteq> norm_key (hflags h) k" "k' \<notin> entry_key (hflags h) (keys h) ` members (hsize h) ch"
      using push(2) na by (auto simp: h1_def ek image_iff split: if_splits)
    then show "((hash_view h)(norm_key (hflags h) k \<mapsto> (k, 0, ptr))) k' = None" using view_not_in [OF ok] by simp
  qed
  moreover have "push_key ?i k ptr h = Some (free_key h, h1)"
    using b by (simp add: push_key_def mem_read_Some mem_write_Some h1_def sp_def a_def)
  ultimately show ?thesis using ok1 push(2) by (intro exI [of _ h1] exI [of _ ch1]) (simp add: h1_def a_def)
qed

lemma found_member:
  assumes "hash_ok h ch" and "found h ch k (Some (q, a))"
  obtains sp where "keys h a = Some sp" "norm_key (hflags h) (key sp) = norm_key (hflags h) k" "a \<in> members (hsize h) ch"
    "hash_view h (norm_key (hflags h) k) = Some (entry_info sp)"
proof -
  let ?b = "nat (key_index (hflags h) (hsize h) k)"
  obtain ys zs sp where f: "ch ?b = ys @ a # zs" "keys h a = Some sp" "norm_key (hflags h) (key sp) = norm_key (hflags h) k"
    using assms(2) by (auto simp: found_def)
  have "?b < nat (hsize h)" using hash_okD(1) [OF assms(1)] key_index_bounds [of "hsize h" "hflags h" k] by (auto simp: table_ok_def)
  then have m: "a \<in> members (hsize h) ch" using f(1) unfolding members_def by (intro UN_I [of ?b]) (simp_all only: lessThan_iff, simp)
  show ?thesis using that [OF f(2,3) m] view_in [OF assms(1) m f(2)] f(3) by simp
qed

lemma found_None: "hash_ok h ch \<Longrightarrow> found h ch k None \<Longrightarrow> hash_view h (norm_key (hflags h) k) = None"
  by (rule view_not_in) (simp_all add: found_def)

text \<open>Adding a key, as the map sees it.\<close>

definition add_view :: "int \<Rightarrow> string \<Rightarrow> 'v option \<Rightarrow> (string \<Rightarrow> (string \<times> int \<times> 'v option) option) \<Rightarrow> (string \<Rightarrow> (string \<times> int \<times> 'v option) option)" where
  "add_view flags k v m =
     (case m (norm_key flags k) of
        None \<Rightarrow> m(norm_key flags k \<mapsto> (k, 0, v))
      | Some (k0, t, _) \<Rightarrow> if flags AND MPR_HASH_UNIQUE \<noteq> 0 then m else m(norm_key flags k \<mapsto> (k0, t, v)))"

lemma mprAddKey_ok:
  assumes ok: "hash_ok h ch" and k: "c_string k" and mem: "mem 32"
  shows "\<exists>r h1 ch1. mprAddKey mem h k v = Some (r, h1) \<and> hash_ok h1 ch1 \<and> hflags h1 = hflags h \<and> hash_view h1 = add_view (hflags h) k v (hash_view h)
     \<and> (r = None \<longleftrightarrow> hflags h AND MPR_HASH_UNIQUE \<noteq> 0 \<and> hash_view h (norm_key (hflags h) k) \<noteq> None)
     \<and> (\<forall>a. r = Some a \<longrightarrow> a \<in> members (hsize h1) ch1 \<and> entry_key (hflags h) (keys h1) a = norm_key (hflags h) k)"
proof -
  obtain r h1 ch1 where l: "lookupHash mem h k = Some (key_index (hflags h1) (hsize h1) k, r, h1)" "hash_ok h1 ch1" "hash_view h1 = hash_view h"
    "hflags h1 = hflags h" "found h1 ch1 k r" using lookup_ok [OF ok k, of mem] by (elim exE conjE) (rule that)
  show ?thesis
  proof (cases r)
    case None
    have "norm_key (hflags h1) k \<notin> entry_key (hflags h1) (keys h1) ` members (hsize h1) ch1" using l(5) None by (simp add: found_def)
    then obtain h2 ch2 where 2: "push_key (key_index (hflags h1) (hsize h1) k) k v h1 = Some (free_key h1, h2)" "hash_ok h2 ch2" "hflags h2 = hflags h"
      "hash_view h2 = (hash_view h)(norm_key (hflags h) k \<mapsto> (k, 0, v))" "free_key h1 \<in> members (hsize h2) ch2" "keys h2 (free_key h1) \<noteq> None"
      using push_key_ok [OF l(2) k, of v] l(3,4) hash_member by (metis option.distinct(1))
    have "key (the (keys h2 (free_key h1))) = k" using 2(1) by (auto simp: push_key_def bind_eq_Some_conv)
    moreover have "hash_view h (norm_key (hflags h) k) = None" using found_None [OF l(2)] l(3-5) None by simp
    ultimately show ?thesis using None mem l(1) 2 by (intro exI [of _ "Some (free_key h1)"] exI [of _ h2] exI [of _ ch2])
        (simp add: mprAddKey_def add_view_def entry_key_def)
  next
    case (Some qa)
    obtain q a where qa: "qa = (q, a)" by (cases qa)
    obtain sp where sp: "keys h1 a = Some sp" "norm_key (hflags h1) (key sp) = norm_key (hflags h1) k" "a \<in> members (hsize h1) ch1"
      "hash_view h1 (norm_key (hflags h1) k) = Some (entry_info sp)" using found_member [OF l(2)] l(5) Some qa by metis
    show ?thesis
    proof (cases "hflags h AND MPR_HASH_UNIQUE \<noteq> 0")
      case True
      with l Some qa sp(4) show ?thesis by (intro exI [of _ None] exI [of _ h1] exI [of _ ch1]) (simp add: mprAddKey_def add_view_def entry_info_def)
    next
      case False
      let ?h = "h1\<lparr>keys := (keys h1)(a \<mapsto> sp\<lparr>data := v\<rparr>)\<rparr>"
      have "hash_ok ?h ch1" "hash_view ?h = (hash_view h1)(norm_key (hflags h1) (key sp) \<mapsto> entry_info (sp\<lparr>data := v\<rparr>))"
        using set_entry_ok [OF l(2) sp(3,1), of "sp\<lparr>data := v\<rparr>"] by simp_all
      with False l Some qa sp show ?thesis by (intro exI [of _ "Some a"] exI [of _ ?h] exI [of _ ch1])
          (simp add: mprAddKey_def add_view_def entry_info_def entry_key_def)
    qed
  qed
qed

lemma members_remove:
  assumes t: "table_ok flags sz ks bs ch" and b: "b < nat sz" and c: "ch b = ys @ a # zs"
  shows "members sz (ch(b := ys @ zs)) = members sz ch - {a}"
proof -
  have "key_chain ks (bs ! b) (ys @ a # zs)" using t b unfolding table_ok_def c [symmetric] by blast
  then have d: "distinct (ys @ a # zs)" by (rule key_chain_distinct)
  have away: "x \<notin> set (ch b')" if "b' < nat sz" "b' \<noteq> b" "x \<in> set (ys @ a # zs)" for x b'
    using table_one_bucket [OF t that(1) b] that c by metis
  have mem: "x \<in> members sz f \<longleftrightarrow> x \<in> set (f b) \<or> (\<exists>b' < nat sz. b' \<noteq> b \<and> x \<in> set (f b'))" for x f
    using b unfolding members_def by blast
  have "a \<notin> members sz (ch(b := ys @ zs))" using d away [of _ a] by (auto simp: mem)
  moreover have "x \<in> members sz (ch(b := ys @ zs)) \<longleftrightarrow> x \<in> members sz ch" if "x \<noteq> a" for x using that by (auto simp: mem c)
  ultimately have "x \<in> members sz (ch(b := ys @ zs)) \<longleftrightarrow> x \<in> members sz ch \<and> x \<noteq> a" for x by (cases "x = a") simp_all
  then show ?thesis by auto
qed

lemma unlink_chains:
  assumes t: "table_ok flags sz (keys h) (buckets h) ch" and b: "0 \<le> i" "i < sz" and c: "ch (nat i) = ys @ a # zs" and sp: "keys h a = Some sp"
    and h1: "unlink i (if ys = [] then None else Some (last ys)) sp h = Some h1"
  shows "table_ok flags sz (keys h1) (buckets h1) (ch(nat i := ys @ zs))"
proof -
  have i: "nat i < nat sz" "length (buckets h) = nat sz" "0 < sz" using b t by (auto simp: table_ok_def)
  have old: "key_chain (keys h) (buckets h ! b') (ch b')" "\<forall>x \<in> set (ch b'). entry_ok flags sz b' (keys h x)" if "b' < nat sz" for b'
    using t that by (auto simp: table_ok_def)
  have ch: "key_chain (keys h) (buckets h ! nat i) (ys @ a # zs)" using old(1) [OF i(1)] by (simp only: c)
  have away: "x \<notin> set (ch b')" if "b' < nat sz" "b' \<noteq> nat i" "x \<in> set (ys @ a # zs)" for x b'
    using table_one_bucket [OF t that(1) i(1)] that c by metis
  have "ys \<noteq> [] \<Longrightarrow> keys h (last ys) \<noteq> None" using old(2) [OF i(1)] by (auto simp: entry_ok_def c)
  then obtain bp where bp: "ys \<noteq> [] \<Longrightarrow> keys h (last ys) = Some bp" by blast
  have h1': "h1 = (if ys = [] then h\<lparr>buckets := (buckets h)[nat i := next_key sp]\<rparr> else h\<lparr>keys := (keys h)(last ys \<mapsto> bp\<lparr>next_key := next_key sp\<rparr>)\<rparr>)"
    using h1 b i bp by (auto simp: unlink_def mem_write_Some)
  have new: "key_chain (keys h1) (buckets h1 ! nat i) (ys @ zs)" using key_chain_remove [OF ch sp] bp i by (simp add: h1')
  have other: "key_chain (keys h1) (buckets h1 ! b') (ch b')" if "b' < nat sz" "b' \<noteq> nat i" for b'
  proof -
    have "ys \<noteq> [] \<Longrightarrow> last ys \<notin> set (ch b')" by (rule away [OF that]) simp
    then have "key_chain (keys h1) (buckets h ! b') (ch b') = key_chain (keys h) (buckets h ! b') (ch b')" by (intro key_chain_cong) (auto simp: h1')
    then have "key_chain (keys h1) (buckets h ! b') (ch b')" using old(1) that by simp
    moreover have "buckets h1 ! b' = buckets h ! b'" using that(2) by (simp add: h1')
    ultimately show ?thesis by simp
  qed
  have "entry_ok flags sz b' (keys h1 x) = entry_ok flags sz b' (keys h x)" for b' x using bp by (auto simp: h1' entry_ok_def)
  moreover have "set ((ch(nat i := ys @ zs)) b') \<subseteq> set (ch b')" for b' using c by auto
  ultimately have "\<forall>x \<in> set ((ch(nat i := ys @ zs)) b'). entry_ok flags sz b' (keys h1 x)" if "b' < nat sz" for b' using old(2) [OF that] by blast
  moreover have "key_chain (keys h1) (buckets h1 ! b') ((ch(nat i := ys @ zs)) b')" if "b' < nat sz" for b' using new other [OF that] by (cases "b' = nat i") simp_all
  moreover have "length (buckets h1) = nat sz" using i by (simp add: h1')
  ultimately show ?thesis using i(3) unfolding table_ok_def by blast
qed

lemma unlink_table:
  assumes t: "table_ok (hflags h) (hsize h) (keys h) (buckets h) ch" and b: "0 \<le> i" "i < hsize h" and c: "ch (nat i) = ys @ a # zs" and sp: "keys h a = Some sp"
  shows "\<exists>h1. unlink i (if ys = [] then None else Some (last ys)) sp h = Some h1 \<and> table_ok (hflags h) (hsize h) (keys h1) (buckets h1) (ch(nat i := ys @ zs))
     \<and> members (hsize h) (ch(nat i := ys @ zs)) = members (hsize h) ch - {a} \<and> same_content (keys h) (keys h1) \<and> hflags h1 = hflags h \<and> hsize h1 = hsize h
     \<and> hlength h1 = hlength h \<and> free_key h1 = free_key h \<and> (\<forall>x. x \<notin> set ys \<longrightarrow> keys h1 x = keys h x)
     \<and> (\<forall>x. map_option bucket (keys h1 x) = map_option bucket (keys h x))"
proof -
  have i: "nat i < nat (hsize h)" "length (buckets h) = nat (hsize h)" using b t by (auto simp: table_ok_def)
  have "\<forall>x \<in> set (ch (nat i)). entry_ok (hflags h) (hsize h) (nat i) (keys h x)" using t i(1) by (simp add: table_ok_def)
  then have "ys \<noteq> [] \<Longrightarrow> keys h (last ys) \<noteq> None" by (auto simp: entry_ok_def c)
  then obtain bp where bp: "ys \<noteq> [] \<Longrightarrow> keys h (last ys) = Some bp" by blast
  obtain h1 where h1: "unlink i (if ys = [] then None else Some (last ys)) sp h = Some h1"
    "h1 = (if ys = [] then h\<lparr>buckets := (buckets h)[nat i := next_key sp]\<rparr> else h\<lparr>keys := (keys h)(last ys \<mapsto> bp\<lparr>next_key := next_key sp\<rparr>)\<rparr>)"
    using b i bp by (simp add: unlink_def mem_write_Some)
  have "same_content (keys h) (keys h1)" "\<forall>x. map_option bucket (keys h1 x) = map_option bucket (keys h x)" using bp by (auto simp: h1(2) same_content_def)
  with h1 unlink_chains [OF t b c sp h1(1)] members_remove [OF t i(1) c] show ?thesis by (intro exI [of _ h1]) auto
qed

lemma unlinked_ok:
  assumes ok: "hash_ok h ch" and t: "table_ok (hflags h) (hsize h) (keys h1) (buckets h1) ch1" and m: "members (hsize h) ch1 = members (hsize h) ch - {a}"
    and a: "a \<in> members (hsize h) ch" "keys h a = Some sp" and c: "same_content (keys h) (keys h1)"
    and eq: "hflags h1 = hflags h" "hsize h1 = hsize h" "hlength h1 = hlength h" "free_key h1 = free_key h"
  shows "hash_ok (h1\<lparr>hlength := hlength h1 - 1\<rparr>) ch1" and "hash_view (h1\<lparr>hlength := hlength h1 - 1\<rparr>) = (hash_view h)(norm_key (hflags h) (key sp) := None)"
proof -
  let ?h = "h1\<lparr>hlength := hlength h1 - 1\<rparr>"
  have ek: "entry_key (hflags h) (keys h1) x = entry_key (hflags h) (keys h) x" if x: "x \<in> members (hsize h) ch" for x
  proof -
    obtain sx where "keys h x = Some sx" using hash_member [OF ok x] by (elim exE)
    then show ?thesis using same_content_back [OF c] by (force simp: entry_key_def)
  qed
  have used: "x < free_key h" if used: "keys h1 x \<noteq> None" for x
  proof -
    obtain sx where "keys h x = Some sx" using used same_content_Some [OF c, of x] by auto
    then show ?thesis by (rule hash_okD(4) [OF ok])
  qed
  have inj: "inj_on (entry_key (hflags h) (keys h1)) (members (hsize h) ch - {a})" using hash_okD(2) [OF ok] ek by (auto simp: inj_on_def)
  have "0 < card (members (hsize h) ch)" using a(1) by (auto simp: card_gt_0_iff)
  then have len: "hlength h - 1 = int (card (members (hsize h) ch - {a}))" using hash_okD(3) [OF ok] a(1) by (simp add: card_Diff_singleton of_nat_diff)
  show ok': "hash_ok ?h ch1" using t m inj len used eq by (simp add: hash_ok_def)
  show "hash_view ?h = (hash_view h)(norm_key (hflags h) (key sp) := None)"
  proof (rule view_eqI [OF ok'])
    fix x sx assume x: "x \<in> members (hsize ?h) ch1" and sx: "keys ?h x = Some sx"
    have x': "x \<in> members (hsize h) ch" "x \<noteq> a" using x m eq by auto
    obtain sy where sy: "keys h x = Some sy" "key sy = key sx" "entry_info sy = entry_info sx" using same_content_Some [OF c, of x sx] sx by auto
    have "entry_key (hflags h) (keys h) x \<noteq> entry_key (hflags h) (keys h) a" using hash_okD(2) [OF ok] x' a(1) by (auto simp: inj_on_def)
    then have "norm_key (hflags h) (key sx) \<noteq> norm_key (hflags h) (key sp)" using sy a(2) by (simp add: entry_key_def)
    with view_in [OF ok x'(1) sy(1)] sy eq show "((hash_view h)(norm_key (hflags h) (key sp) := None)) (norm_key (hflags ?h) (key sx)) = Some (entry_info sx)" by simp
  next
    fix k assume k: "k \<notin> entry_key (hflags ?h) (keys ?h) ` members (hsize ?h) ch1"
    show "((hash_view h)(norm_key (hflags h) (key sp) := None)) k = None"
    proof (cases "k \<in> entry_key (hflags h) (keys h) ` members (hsize h) ch")
      case True
      then obtain x where x: "x \<in> members (hsize h) ch" "k = entry_key (hflags h) (keys h) x" by auto
      then have "x = a" using k m ek eq by (auto simp: image_iff)
      then show ?thesis using x a(2) by (simp add: entry_key_def)
    qed (simp add: view_not_in [OF ok])
  qed
qed

lemma mprRemoveKey_ok:
  assumes ok: "hash_ok h ch" and k: "c_string k"
  shows "\<exists>h1 ch1. mprRemoveKey mem h k = Some (if hash_view h (norm_key (hflags h) k) = None then MPR_ERR_CANT_FIND else 0, h1) \<and> hash_ok h1 ch1
     \<and> hflags h1 = hflags h \<and> hash_view h1 = (hash_view h)(norm_key (hflags h) k := None)"
proof -
  obtain r h1 ch1 where l: "lookupHash mem h k = Some (key_index (hflags h1) (hsize h1) k, r, h1)" "hash_ok h1 ch1" "hash_view h1 = hash_view h"
    "hflags h1 = hflags h" "found h1 ch1 k r" using lookup_ok [OF ok k, of mem] by (elim exE conjE) (rule that)
  show ?thesis
  proof (cases r)
    case None
    have "hash_view h (norm_key (hflags h) k) = None" using found_None [OF l(2)] l(3-5) None by simp
    with None l show ?thesis by (intro exI [of _ h1] exI [of _ ch1]) (simp add: mprRemoveKey_def fun_upd_idem)
  next
    case (Some qa)
    obtain q a where qa: "qa = (q, a)" by (cases qa)
    obtain sp where sp: "keys h1 a = Some sp" "norm_key (hflags h1) (key sp) = norm_key (hflags h1) k" "a \<in> members (hsize h1) ch1"
      "hash_view h1 (norm_key (hflags h1) k) = Some (entry_info sp)" using found_member [OF l(2)] l(5) Some qa by metis
    let ?i = "key_index (hflags h1) (hsize h1) k"
    obtain ys zs where c: "ch1 (nat ?i) = ys @ a # zs" "q = (if ys = [] then None else Some (last ys))" using l(5) Some qa by (auto simp: found_def)
    note t = hash_okD(1) [OF l(2)]
    have b: "0 \<le> ?i" "?i < hsize h1" using t key_index_bounds [of "hsize h1" "hflags h1" k] by (auto simp: table_ok_def)
    obtain h2 where u: "unlink ?i q sp h1 = Some h2" "table_ok (hflags h1) (hsize h1) (keys h2) (buckets h2) (ch1(nat ?i := ys @ zs))"
      "members (hsize h1) (ch1(nat ?i := ys @ zs)) = members (hsize h1) ch1 - {a}" "same_content (keys h1) (keys h2)"
      "hflags h2 = hflags h1" "hsize h2 = hsize h1" "hlength h2 = hlength h1" "free_key h2 = free_key h1"
      using unlink_table [OF t b c(1) sp(1)] unfolding c(2) [symmetric] by (elim exE conjE) (rule that)
    have "mprRemoveKey mem h k = Some (0, h2\<lparr>hlength := hlength h2 - 1\<rparr>)" using l(1) Some qa sp(1) u(1) by (simp add: mprRemoveKey_def)
    with unlinked_ok [OF l(2) u(2,3) sp(3,1) u(4-8)] sp l u(5) show ?thesis
      by (intro exI [of _ "h2\<lparr>hlength := hlength h2 - 1\<rparr>"] exI [of _ "ch1(nat ?i := ys @ zs)"]) simp
  qed
qed

lemma mprLookupKey_ok:
  assumes ok: "hash_ok h ch" and k: "c_string k"
  shows "\<exists>h1 ch1. mprLookupKey mem h k = Some (Option.bind (hash_view h (norm_key (hflags h) k)) (\<lambda>(_, _, d). d), h1) \<and> hash_ok h1 ch1
     \<and> hflags h1 = hflags h \<and> hash_view h1 = hash_view h \<and> (hlength h \<le> hsize h \<longrightarrow> h1 = h)"
proof -
  obtain r h1 ch1 where l: "lookupHash mem h k = Some (key_index (hflags h1) (hsize h1) k, r, h1)" "hash_ok h1 ch1" "hash_view h1 = hash_view h"
    "hflags h1 = hflags h" "found h1 ch1 k r" "hlength h \<le> hsize h \<longrightarrow> h1 = h \<and> ch1 = ch" using lookup_ok [OF ok k, of mem] by (elim exE conjE) (rule that)
  show ?thesis
  proof (cases r)
    case None
    have "hash_view h (norm_key (hflags h) k) = None" using found_None [OF l(2)] l(3-5) None by simp
    with None l show ?thesis by (intro exI [of _ h1] exI [of _ ch1]) (simp add: mprLookupKey_def)
  next
    case (Some qa)
    obtain q a where qa: "qa = (q, a)" by (cases qa)
    obtain sp where sp: "keys h1 a = Some sp" "hash_view h1 (norm_key (hflags h1) k) = Some (entry_info sp)"
      using found_member [OF l(2)] l(5) Some qa by metis
    with l Some qa show ?thesis by (intro exI [of _ h1] exI [of _ ch1]) (simp add: mprLookupKey_def entry_info_def)
  qed
qed

lemma mprAddKeyWithType_ok:
  assumes ok: "hash_ok h ch" and k: "c_string k" and mem: "mem 32"
  shows "\<exists>r h1 ch1. mprAddKeyWithType mem h k v t = Some (r, h1) \<and> hash_ok h1 ch1 \<and> hflags h1 = hflags h
     \<and> (r = None \<longleftrightarrow> hflags h AND MPR_HASH_UNIQUE \<noteq> 0 \<and> hash_view h (norm_key (hflags h) k) \<noteq> None)
     \<and> hash_view h1 = (if r = None then hash_view h
          else (add_view (hflags h) k v (hash_view h))(norm_key (hflags h) k := map_option (\<lambda>(k0, _, d). (k0, t, d)) (add_view (hflags h) k v (hash_view h) (norm_key (hflags h) k))))"
proof -
  obtain r h1 ch1 where a: "mprAddKey mem h k v = Some (r, h1)" "hash_ok h1 ch1" "hflags h1 = hflags h" "hash_view h1 = add_view (hflags h) k v (hash_view h)"
     "r = None \<longleftrightarrow> hflags h AND MPR_HASH_UNIQUE \<noteq> 0 \<and> hash_view h (norm_key (hflags h) k) \<noteq> None"
     "\<forall>a. r = Some a \<longrightarrow> a \<in> members (hsize h1) ch1 \<and> entry_key (hflags h) (keys h1) a = norm_key (hflags h) k"
    using mprAddKey_ok [of h ch k mem v, OF ok k mem] by (elim exE conjE) (rule that)
  show ?thesis
  proof (cases r)
    case None
    with a show ?thesis by (intro exI [of _ None] exI [of _ h1] exI [of _ ch1]) (auto simp: mprAddKeyWithType_def add_view_def)
  next
    case (Some x)
    then have x: "x \<in> members (hsize h1) ch1" "entry_key (hflags h) (keys h1) x = norm_key (hflags h) k" using a(6) by simp_all
    obtain sp where sp: "keys h1 x = Some sp" using hash_member [OF a(2) x(1)] by (elim exE)
    then have nk: "norm_key (hflags h1) (key sp) = norm_key (hflags h) k" using x(2) a(3) by (simp add: entry_key_def)
    let ?h = "h1\<lparr>keys := (keys h1)(x \<mapsto> sp\<lparr>key_type := t\<rparr>)\<rparr>"
    have s: "hash_ok ?h ch1" "hash_view ?h = (hash_view h1)(norm_key (hflags h1) (key sp) \<mapsto> entry_info (sp\<lparr>key_type := t\<rparr>))"
      using set_entry_ok [OF a(2) x(1) sp, of "sp\<lparr>key_type := t\<rparr>"] by simp_all
    have old: "add_view (hflags h) k v (hash_view h) (norm_key (hflags h) k) = Some (entry_info sp)"
      using view_in [OF a(2) x(1) sp] nk a(4) by simp
    with a(1,3,5) Some sp s old nk a(4) show ?thesis
      by (intro exI [of _ "Some x"] exI [of _ ?h] exI [of _ ch1]) (simp add: mprAddKeyWithType_def entry_info_def)
  qed
qed

section \<open>Scripts\<close>

datatype 'v hash_call = AddKey string "'v option" | AddTyped string "'v option" int | LookupKey string | RemoveKey string | GetLength

datatype 'v hash_result = Added bool | Value "'v option" | Code int | Len int

type_synonym 'v key_map = "string \<Rightarrow> (string \<times> int \<times> 'v option) option"

fun hash_run :: "'v hash_call \<Rightarrow> 'v mpr_hash \<Rightarrow> ('v hash_result \<times> 'v mpr_hash) option" where
  "hash_run (AddKey k v) h = map_option (\<lambda>(r, h1). (Added (r \<noteq> None), h1)) (mprAddKey (\<lambda>_. True) h k v)"
| "hash_run (AddTyped k v t) h = map_option (\<lambda>(r, h1). (Added (r \<noteq> None), h1)) (mprAddKeyWithType (\<lambda>_. True) h k v t)"
| "hash_run (LookupKey k) h = map_option (\<lambda>(v, h1). (Value v, h1)) (mprLookupKey (\<lambda>_. True) h k)"
| "hash_run (RemoveKey k) h = map_option (\<lambda>(c, h1). (Code c, h1)) (mprRemoveKey (\<lambda>_. True) h k)"
| "hash_run GetLength h = Some (Len (mprGetHashLength h), h)"

text \<open>The specification: a finite map, over the keys in lower case when the table does not tell cases apart.\<close>

definition refuses :: "int \<Rightarrow> string \<Rightarrow> 'v key_map \<Rightarrow> bool" where
  "refuses flags k m \<longleftrightarrow> flags AND MPR_HASH_UNIQUE \<noteq> 0 \<and> m (norm_key flags k) \<noteq> None"

fun hash_spec :: "'v hash_call \<Rightarrow> int \<times> 'v key_map \<Rightarrow> 'v hash_result \<times> int \<times> 'v key_map" where
  "hash_spec (AddKey k v) (fl, m) = (Added (\<not> refuses fl k m), fl, add_view fl k v m)"
| "hash_spec (AddTyped k v t) (fl, m) =
     (Added (\<not> refuses fl k m), fl,
      if refuses fl k m then m
      else (add_view fl k v m)(norm_key fl k := map_option (\<lambda>(k0, _, d). (k0, t, d)) (add_view fl k v m (norm_key fl k))))"
| "hash_spec (LookupKey k) (fl, m) = (Value (Option.bind (m (norm_key fl k)) (\<lambda>(_, _, d). d)), fl, m)"
| "hash_spec (RemoveKey k) (fl, m) = (Code (if m (norm_key fl k) = None then MPR_ERR_CANT_FIND else 0), fl, m(norm_key fl k := None))"
| "hash_spec GetLength (fl, m) = (Len (int (card (dom m))), fl, m)"

fun hash_valid :: "'v hash_call \<Rightarrow> int \<times> 'v key_map \<Rightarrow> bool" where
  "hash_valid (AddKey k v) _ \<longleftrightarrow> c_string k"
| "hash_valid (AddTyped k v t) _ \<longleftrightarrow> c_string k"
| "hash_valid (LookupKey k) _ \<longleftrightarrow> c_string k"
| "hash_valid (RemoveKey k) _ \<longleftrightarrow> c_string k"
| "hash_valid GetLength _ \<longleftrightarrow> True"

interpretation hash_calls: simulation "\<lambda>h. \<exists>ch. hash_ok h ch" "\<lambda>h. (hflags h, hash_view h)" hash_valid hash_run hash_spec
proof unfold_locales
  fix h :: "'v mpr_hash" and c
  assume "\<exists>ch. hash_ok h ch" and v: "hash_valid c (hflags h, hash_view h)"
  then obtain ch where ok: "hash_ok h ch" by (elim exE)
  show "\<exists>h'. hash_run c h = Some (fst (hash_spec c (hflags h, hash_view h)), h') \<and> (\<exists>ch. hash_ok h' ch)
      \<and> (hflags h', hash_view h') = snd (hash_spec c (hflags h, hash_view h))"
  proof (cases c)
    case (AddKey k d)
    then have "c_string k" using v by simp
    from mprAddKey_ok [of h ch k "\<lambda>_. True" d, OF ok this] AddKey show ?thesis by (auto simp: refuses_def)
  next
    case (AddTyped k d t)
    then have "c_string k" using v by simp
    from mprAddKeyWithType_ok [of h ch k "\<lambda>_. True" d t, OF ok this] AddTyped show ?thesis by (auto simp: refuses_def)
  next
    case (LookupKey k)
    then have "c_string k" using v by simp
    from mprLookupKey_ok [OF ok this, of "\<lambda>_. True"] LookupKey show ?thesis by auto
  next
    case (RemoveKey k)
    then have "c_string k" using v by simp
    from mprRemoveKey_ok [OF ok this, of "\<lambda>_. True"] RemoveKey show ?thesis by auto
  next
    case GetLength
    with ok length_view [OF ok] show ?thesis by (auto simp: mprGetHashLength_def)
  qed
qed

text \<open>
  Property C3. A hash table refines a finite map. From the creation of a table, of whatever size and flags, every script of
  additions, typed additions, lookups, removals and questions for the length returns what the map returns, while the table
  grows and moves its entries; with the flag for it, keys that differ in case are the same, and with the flag for unique
  keys an addition to a key that is there is refused.
\<close>

theorem hash_refines_map:
  fixes h :: "'v mpr_hash"
  assumes "mprCreateHash (\<lambda>_. True) n flags = Some h" and "valid_script hash_valid hash_spec cs (flags OR MPR_OBJ_HASH, Map.empty)"
  shows "\<exists>h'. run_script hash_run cs h = Some (fst (spec_script hash_spec cs (flags OR MPR_OBJ_HASH, Map.empty)), h')
     \<and> (hflags h', hash_view h') = snd (spec_script hash_spec cs (flags OR MPR_OBJ_HASH, Map.empty))"
proof -
  have "hash_ok h (\<lambda>_. [])" "hash_view h = Map.empty" "hflags h = flags OR MPR_OBJ_HASH"
    using mprCreateHash_ok [of "\<lambda>_. True" n flags, where 'a = 'v] assms(1) by auto
  then show ?thesis using hash_calls.script_refines [of h cs] assms(2) by auto
qed

theorem hash_refines_map_witness:
  "\<exists>h h'. mprCreateHash (\<lambda>_. True) 0 MPR_HASH_CASELESS = Some h
     \<and> run_script hash_run [AddKey ''Host'' (Some (1 :: nat)), AddKey ''HOST'' (Some 2), LookupKey ''host'', RemoveKey ''hosT'', LookupKey ''Host''] h
         = Some ([Added True, Added True, Value (Some 2), Code 0, Value None], h')"
proof -
  let ?cs = "[AddKey ''Host'' (Some (1 :: nat)), AddKey ''HOST'' (Some 2), LookupKey ''host'', RemoveKey ''hosT'', LookupKey ''Host'']"
  obtain h where h: "mprCreateHash (\<lambda>_. True) 0 MPR_HASH_CASELESS = Some (h :: nat mpr_hash)" by (simp add: mprCreateHash_def Let_def)
  have n: "caseless 17" "17 AND MPR_HASH_UNIQUE = 0" by (code_simp+)
  have l: "map lower_char ''Host'' = ''host''" "map lower_char ''HOST'' = ''host''" "map lower_char ''host'' = ''host''" "map lower_char ''hosT'' = ''host''" by code_simp+
  have f: "MPR_HASH_CASELESS OR MPR_OBJ_HASH = 17" by code_simp
  have "valid_script hash_valid hash_spec ?cs (17, Map.empty)" by (simp add: c_string_def)
  then obtain h' where "run_script hash_run ?cs h = Some (fst (spec_script hash_spec ?cs (17, Map.empty)), h')"
    using hash_refines_map [OF h, of ?cs] f by auto
  moreover have "fst (spec_script hash_spec ?cs (17, Map.empty)) = [Added True, Added True, Value (Some 2), Code 0, Value None]"
    using n by (simp add: refuses_def add_view_def norm_key_def l del: list.map)
  ultimately show ?thesis using h by auto
qed

section \<open>Loops over the keys\<close>

text \<open>The entries that come after an entry, which may itself have been taken out of its chain.\<close>

definition comes_after :: "'v mpr_hash \<Rightarrow> (nat \<Rightarrow> nat list) \<Rightarrow> nat \<Rightarrow> nat list \<Rightarrow> bool" where
  "comes_after h ch a rem \<longleftrightarrow> (\<exists>sp as. keys h a = Some sp \<and> 0 \<le> bucket sp \<and> key_chain (keys h) (next_key sp) as \<and> set as \<subseteq> set (ch (nat (bucket sp)))
     \<and> nat (bucket sp) < nat (hsize h) \<and> rem = as @ concat (map ch [Suc (nat (bucket sp))..<nat (hsize h)]))"

definition position :: "'v mpr_hash \<Rightarrow> (nat \<Rightarrow> nat list) \<Rightarrow> nat option \<Rightarrow> nat list \<Rightarrow> bool" where
  "position h ch kp rem \<longleftrightarrow> (case kp of None \<Rightarrow> rem = entries (hsize h) ch | Some a \<Rightarrow> comes_after h ch a rem)"

definition first_of :: "'a list \<Rightarrow> 'a option" where
  "first_of xs = (case xs of [] \<Rightarrow> None | x # _ \<Rightarrow> Some x)"

lemma first_of_simps [simp]: "first_of [] = None" "first_of (x # xs) = Some x" "first_of (xs @ ys) = (if xs = [] then first_of ys else first_of xs)"
  by (simp_all add: first_of_def split: list.split)

lemma chain_first: "key_chain ks p as \<Longrightarrow> p = first_of as"
  by (cases as) auto

lemma first_from_ok:
  "table_ok (hflags h) (hsize h) (keys h) (buckets h) ch \<Longrightarrow> first_from h (int i) = Some (first_of (concat (map ch [i..<nat (hsize h)])))"
proof (induction "nat (hsize h) - i" arbitrary: i)
  case 0
  then show ?case by (subst first_from.simps) auto
next
  case (Suc d)
  then have i: "i < nat (hsize h)" "int i < hsize h" "length (buckets h) = nat (hsize h)" by (auto simp: table_ok_def)
  have c: "key_chain (keys h) (buckets h ! i) (ch i)" using Suc.prems i(1) by (simp add: table_ok_def)
  have IH: "first_from h (int (Suc i)) = Some (first_of (concat (map ch [Suc i..<nat (hsize h)])))" by (rule Suc.hyps(1)) (use Suc in simp_all)
  have u: "[i..<nat (hsize h)] = i # [Suc i..<nat (hsize h)]" using i(1) by (rule upt_conv_Cons)
  show ?case
  proof (cases "ch i")
    case Nil
    with c i IH show ?thesis by (subst first_from.simps) (simp add: mem_read_Some u add.commute)
  next
    case (Cons a as)
    with c i show ?thesis by (subst first_from.simps) (simp add: mem_read_Some u)
  qed
qed

text \<open>The first entry of the buckets from one on, and what comes after it.\<close>

lemma bucket_entries:
  assumes t: "table_ok (hflags h) (hsize h) (keys h) (buckets h) ch" and x: "concat (map ch [i..<nat (hsize h)]) = x # rem"
  shows "comes_after h ch x rem"
  using x
proof (induction "nat (hsize h) - i" arbitrary: i)
  case (Suc d)
  then have i: "i < nat (hsize h)" by simp
  then have u: "[i..<nat (hsize h)] = i # [Suc i..<nat (hsize h)]" by (rule upt_conv_Cons)
  show ?case
  proof (cases "ch i")
    case Nil
    with Suc.prems u have "concat (map ch [Suc i..<nat (hsize h)]) = x # rem" by simp
    then show ?thesis by (rule Suc.hyps(1) [rotated]) (use Suc.hyps(2) in simp)
  next
    case (Cons a as)
    have c: "key_chain (keys h) (buckets h ! i) (ch i)" "entry_ok (hflags h) (hsize h) i (keys h a)" using t i Cons by (auto simp: table_ok_def)
    have "a = x" "rem = as @ concat (map ch [Suc i..<nat (hsize h)])" using Suc.prems u Cons by simp_all
    moreover obtain sp where "keys h a = Some sp" "bucket sp = int i" using c(2) by (auto simp: entry_ok_def)
    ultimately show ?thesis using c(1) Cons i unfolding comes_after_def by (intro exI [of _ sp] exI [of _ as]) auto
  qed
qed simp

lemma next_key_ok:
  assumes t: "table_ok (hflags h) (hsize h) (keys h) (buckets h) ch" and p: "position h ch kp rem"
  shows "mprGetNextKey h kp = Some (first_of rem)" and "rem = x # rem' \<Longrightarrow> position h ch (Some x) rem'"
proof -
  have a: "mprGetNextKey h kp = Some (first_of rem) \<and> (rem = x # rem' \<longrightarrow> position h ch (Some x) rem')"
  proof (cases kp)
    case None
    with p have r: "rem = concat (map ch [0..<nat (hsize h)])" by (simp add: position_def entries_def)
    with None first_from_ok [OF t, of 0] bucket_entries [OF t, of 0 x rem'] show ?thesis by (simp add: mprGetNextKey_def mprGetFirstKey_def position_def)
  next
    case (Some a)
    then obtain sp as where s: "keys h a = Some sp" "0 \<le> bucket sp" "key_chain (keys h) (next_key sp) as" "set as \<subseteq> set (ch (nat (bucket sp)))"
      "nat (bucket sp) < nat (hsize h)" "rem = as @ concat (map ch [Suc (nat (bucket sp))..<nat (hsize h)])" using p by (auto simp: position_def comes_after_def)
    have nk: "next_key sp = first_of as" using s(3) by (rule chain_first)
    show ?thesis
    proof (cases as)
      case Nil
      have "int (Suc (nat (bucket sp))) = bucket sp + 1" using s(2) by simp
      with Nil Some s nk first_from_ok [OF t, of "Suc (nat (bucket sp))"] bucket_entries [OF t, of "Suc (nat (bucket sp))" x rem']
      show ?thesis by (simp add: mprGetNextKey_def position_def add.commute)
    next
      case (Cons b bs)
      obtain sb where sb: "keys h b = Some sb" "key_chain (keys h) (next_key sb) bs" using s(3) Cons by auto
      have "entry_ok (hflags h) (hsize h) (nat (bucket sp)) (keys h b)" using t s(4,5) Cons by (auto simp: table_ok_def)
      then have "bucket sb = bucket sp" using sb(1) s(2) by (auto simp: entry_ok_def)
      then have "comes_after h ch b (bs @ concat (map ch [Suc (nat (bucket sp))..<nat (hsize h)]))"
        using sb s(2,4,5) Cons unfolding comes_after_def by (intro exI [of _ sb] exI [of _ bs]) auto
      with Cons Some s nk show ?thesis by (auto simp: mprGetNextKey_def position_def)
    qed
  qed
  from a show "mprGetNextKey h kp = Some (first_of rem)" by (rule conjunct1)
  from a show "rem = x # rem' \<Longrightarrow> position h ch (Some x) rem'" by blast
qed

text \<open>
  A loop over the keys whose body keeps an invariant on the entries to come: it ends, and the body has seen them all.
\<close>

lemma for_keys_step:
  "for_keys table body kp s = Option.bind (mprGetNextKey (table s) kp) (\<lambda>r. case r of None \<Rightarrow> Some s | Some a \<Rightarrow> Option.bind (body a s) (for_keys table body (Some a)))"
  by (subst for_keys.simps) (rule refl)

locale key_loop =
  fixes table :: "'s \<Rightarrow> 'v mpr_hash"
    and body :: "nat \<Rightarrow> 's \<Rightarrow> 's option"
    and inv :: "nat option \<Rightarrow> nat list \<Rightarrow> 's \<Rightarrow> bool"
  assumes next_law: "inv kp rem s \<Longrightarrow> mprGetNextKey (table s) kp = Some (first_of rem)"
    and body_law: "inv kp (a # rem) s \<Longrightarrow> \<exists>s'. body a s = Some s' \<and> inv (Some a) rem s'"
begin

lemma loop_ends: "inv kp rem s \<Longrightarrow> \<exists>s' kp'. for_keys table body kp s = Some s' \<and> inv kp' [] s'"
proof (induction rem arbitrary: kp s)
  case Nil
  then show ?case using next_law [OF Nil] by (auto simp: for_keys_step)
next
  case (Cons a rem)
  obtain s1 where 1: "body a s = Some s1" "inv (Some a) rem s1" using body_law [OF Cons.prems] by (elim exE conjE)
  show ?case using Cons.IH [OF 1(2)] next_law [OF Cons.prems] 1(1) by (subst for_keys_step) simp
qed

end

text \<open>Adding keys one after the other.\<close>

definition add_entries :: "int \<Rightarrow> (nat \<Rightarrow> 'v mpr_key option) \<Rightarrow> nat list \<Rightarrow> 'v key_map \<Rightarrow> 'v key_map" where
  "add_entries flags ks as m = foldl (\<lambda>m a. add_view flags (key (the (ks a))) (data (the (ks a))) m) m as"

lemma add_entries_view:
  assumes "distinct (map (entry_key flags ks) as)" and "flags AND MPR_HASH_UNIQUE = 0 \<or> dom m \<inter> entry_key flags ks ` set as = {}"
  shows "add_entries flags ks as m k =
     (if k \<in> entry_key flags ks ` set as
      then let sp = the (ks (SOME a. a \<in> set as \<and> entry_key flags ks a = k))
           in Some (case m k of None \<Rightarrow> (key sp, 0, data sp) | Some (k0, t, _) \<Rightarrow> (k0, t, data sp))
      else m k)"
  using assms
proof (induction as arbitrary: m)
  case Nil
  then show ?case by (simp add: add_entries_def)
next
  case (Cons a as)
  define m1 where "m1 = add_view flags (key (the (ks a))) (data (the (ks a))) m"
  let ?k = "entry_key flags ks a"
  have m1: "m1 = m(?k \<mapsto> (case m ?k of None \<Rightarrow> (key (the (ks a)), 0, data (the (ks a))) | Some (k0, t, _) \<Rightarrow> (k0, t, data (the (ks a)))))"
    using Cons.prems(2) by (auto simp: m1_def add_view_def entry_key_def [symmetric] split: option.splits)
  have new: "?k \<notin> entry_key flags ks ` set as" using Cons.prems(1) by simp
  have "flags AND MPR_HASH_UNIQUE = 0 \<or> dom m1 \<inter> entry_key flags ks ` set as = {}" using Cons.prems(2) new by (auto simp: m1)
  with Cons.IH Cons.prems(1) have IH: "add_entries flags ks as m1 k =
     (if k \<in> entry_key flags ks ` set as
      then let sp = the (ks (SOME a. a \<in> set as \<and> entry_key flags ks a = k))
           in Some (case m1 k of None \<Rightarrow> (key sp, 0, data sp) | Some (k0, t, _) \<Rightarrow> (k0, t, data sp))
      else m1 k)" by simp
  have step: "add_entries flags ks (a # as) m = add_entries flags ks as m1" by (simp add: add_entries_def m1_def)
  show ?case
  proof (cases "k = ?k")
    case True
    have "(SOME x. x \<in> set (a # as) \<and> entry_key flags ks x = k) = a" using True new by (intro some_equality) (auto simp: image_iff)
    with True new IH show ?thesis unfolding step by (simp add: m1 Let_def)
  next
    case False
    then have "(\<lambda>x. x \<in> set (a # as) \<and> entry_key flags ks x = k) = (\<lambda>x. x \<in> set as \<and> entry_key flags ks x = k)" by auto
    with False IH show ?thesis unfolding step by (simp add: m1)
  qed
qed

definition blend_inv :: "'v mpr_hash \<Rightarrow> int \<Rightarrow> 'v key_map \<Rightarrow> nat option \<Rightarrow> nat list \<Rightarrow> 'v mpr_hash \<Rightarrow> bool" where
  "blend_inv src flags m kp rem h \<longleftrightarrow> (\<exists>chx ch as. hash_ok src chx \<and> position src chx kp rem \<and> entries (hsize src) chx = as @ rem
     \<and> hash_ok h ch \<and> hflags h = flags \<and> hash_view h = add_entries flags (keys src) as m)"

interpretation blend: key_loop "\<lambda>_. src" "copy_key (\<lambda>_. True) src" "blend_inv src flags m" for src :: "'v mpr_hash" and flags m
proof unfold_locales
  fix kp rem and h :: "'v mpr_hash"
  assume "blend_inv src flags m kp rem h"
  then show "mprGetNextKey src kp = Some (first_of rem)" using next_key_ok(1) hash_okD(1) unfolding blend_inv_def by blast
next
  fix kp a rem and h :: "'v mpr_hash"
  assume "blend_inv src flags m kp (a # rem) h"
  then obtain chx ch as where i: "hash_ok src chx" "position src chx kp (a # rem)" "entries (hsize src) chx = as @ a # rem"
    "hash_ok h ch" "hflags h = flags" "hash_view h = add_entries flags (keys src) as m" unfolding blend_inv_def by (elim exE conjE)
  have "a \<in> members (hsize src) chx" using i(3) set_entries [of "hsize src" chx] by auto
  then obtain sp where sp: "keys src a = Some sp" "c_string (key sp)" using table_member [OF hash_okD(1) [OF i(1)]] by blast
  obtain r h1 ch1 where 1: "mprAddKey (\<lambda>_. True) h (key sp) (data sp) = Some (r, h1)" "hash_ok h1 ch1" "hflags h1 = hflags h"
    "hash_view h1 = add_view (hflags h) (key sp) (data sp) (hash_view h)"
    using mprAddKey_ok [of h ch "key sp" "\<lambda>_. True" "data sp", OF i(4) sp(2)] by blast
  have "copy_key (\<lambda>_. True) src a h = Some h1" using 1(1) sp(1) by (simp add: copy_key_def)
  moreover have "hash_view h1 = add_entries flags (keys src) (as @ [a]) m" using 1(4) i(5,6) sp(1) by (simp add: add_entries_def)
  moreover have "position src chx (Some a) rem" using next_key_ok(2) [OF hash_okD(1) [OF i(1)] i(2) refl] .
  ultimately show "\<exists>h'. copy_key (\<lambda>_. True) src a h = Some h' \<and> blend_inv src flags m (Some a) rem h'"
    using i(1,3,5) 1(2,3) unfolding blend_inv_def by (intro exI [of _ h1] conjI exI [of _ chx] exI [of _ ch1] exI [of _ "as @ [a]"]) simp_all
qed

text \<open>Adding all entries of a table that tells cases apart as the other one does.\<close>

lemma copy_all:
  assumes ok: "hash_ok h ch" and src: "hash_ok src chx" and same: "caseless (hflags h) = caseless (hflags src)"
    and fresh: "hflags h AND MPR_HASH_UNIQUE = 0 \<or> hash_view h = Map.empty"
  shows "\<exists>h'. for_keys (\<lambda>_. src) (copy_key (\<lambda>_. True) src) None h = Some h' \<and> (\<exists>ch'. hash_ok h' ch') \<and> hflags h' = hflags h
     \<and> hash_view h' = (\<lambda>k. case hash_view src k of
          None \<Rightarrow> hash_view h k
        | Some (k1, _, d) \<Rightarrow> Some (case hash_view h k of None \<Rightarrow> (k1, 0, d) | Some (k0, t, _) \<Rightarrow> (k0, t, d)))"
proof -
  have "blend_inv src (hflags h) (hash_view h) None (entries (hsize src) chx) h"
    unfolding blend_inv_def using ok src by (intro exI [of _ chx] exI [of _ ch] exI [of _ "[]"]) (simp add: position_def add_entries_def)
  from blend.loop_ends [OF this] obtain h' kp where h': "for_keys (\<lambda>_. src) (copy_key (\<lambda>_. True) src) None h = Some h'" "blend_inv src (hflags h) (hash_view h) kp [] h'"
    by (elim exE conjE)
  obtain chy ch' where f: "hash_ok src chy" "hash_ok h' ch'" "hflags h' = hflags h" "hash_view h' = add_entries (hflags h) (keys src) (entries (hsize src) chy) (hash_view h)"
    using h'(2) unfolding blend_inv_def by auto
  have nk: "norm_key (hflags h) = norm_key (hflags src)" using same by (simp add: norm_key_def fun_eq_iff)
  have ek: "entry_key (hflags h) (keys src) = entry_key (hflags src) (keys src)" by (simp add: entry_key_def nk fun_eq_iff)
  have d: "distinct (map (entry_key (hflags src) (keys src)) (entries (hsize src) chy))"
    using table_distinct [OF hash_okD(1) [OF f(1)]] hash_okD(2) [OF f(1)] by (simp add: distinct_map)
  have "hash_view h' k = (case hash_view src k of None \<Rightarrow> hash_view h k
        | Some (k1, _, d) \<Rightarrow> Some (case hash_view h k of None \<Rightarrow> (k1, 0, d) | Some (k0, t, _) \<Rightarrow> (k0, t, d)))" for k
  proof (cases "k \<in> entry_key (hflags src) (keys src) ` members (hsize src) chy")
    case True
    then obtain a where a: "a \<in> members (hsize src) chy" "k = entry_key (hflags src) (keys src) a" by blast
    obtain sp where sp: "keys src a = Some sp" using hash_member [OF f(1) a(1)] by (elim exE)
    have "(SOME x. x \<in> members (hsize src) chy \<and> entry_key (hflags src) (keys src) x = k) = a"
      using a hash_okD(2) [OF f(1)] by (intro some_equality) (auto simp: inj_on_def)
    moreover have "hash_view src k = Some (entry_info sp)" using view_in [OF f(1) a(1) sp] a(2) sp by (simp add: entry_key_def)
    ultimately show ?thesis using add_entries_view [of "hflags h" "keys src" "entries (hsize src) chy" "hash_view h" k] fresh d True f(4) sp
      by (auto simp: ek entry_info_def Let_def)
  next
    case False
    with add_entries_view [of "hflags h" "keys src" "entries (hsize src) chy" "hash_view h" k] fresh d f(4) view_not_in [OF f(1) False]
    show ?thesis by (auto simp: ek)
  qed
  with h'(1) f(2,3) show ?thesis by (intro exI [of _ h']) auto
qed

lemma flags_object: "caseless (flags OR MPR_OBJ_HASH) = caseless flags" "(flags OR MPR_OBJ_HASH) AND MPR_HASH_UNIQUE = flags AND MPR_HASH_UNIQUE"
  by (simp_all add: caseless_def MPR_OBJ_HASH_def MPR_HASH_CASELESS_def MPR_HASH_UNIQUE_def bit.conj_disj_distrib2)

text \<open>
  Property C34. For a table without the flag that keys are unique: a clone of the table has the same keys with the same data, but loses the types of its entries; blending another
  table, one that treats case alike, into the clone adds the keys of that table, overrides the data of those that are in both, and keeps the spelling and
  the type of the key that was there first. Each key of the source is met once, whatever moves in the table that grows.
\<close>

theorem clone_and_blend:
  fixes h extra :: "'v mpr_hash"
  assumes "hash_ok h ch" and "hash_ok extra chx" and "caseless (hflags h) = caseless (hflags extra)" and "hflags h AND MPR_HASH_UNIQUE = 0"
  shows "\<exists>c r. mprCloneHash (\<lambda>_. True) h = Some (Some c) \<and> hash_view c = (\<lambda>k. map_option (\<lambda>(k1, _, d). (k1, 0, d)) (hash_view h k))
     \<and> mprBlendHash (\<lambda>_. True) c extra = Some r \<and> (\<exists>chr. hash_ok r chr)
     \<and> hash_view r = (\<lambda>k. case (hash_view c k, hash_view extra k) of
          (x, None) \<Rightarrow> x
        | (None, Some (k1, _, d)) \<Rightarrow> Some (k1, 0, d)
        | (Some (k0, t, _), Some (_, _, d)) \<Rightarrow> Some (k0, t, d))"
proof -
  obtain e :: "'v mpr_hash" where e: "mprCreateHash (\<lambda>_. True) (hsize h) (hflags h) = Some e" "hash_ok e (\<lambda>_. [])" "hash_view e = Map.empty" "hflags e = hflags h OR MPR_OBJ_HASH"
    using mprCreateHash_ok [of "\<lambda>_. True" "hsize h" "hflags h", where 'a = 'v] by auto
  obtain c chc where c: "for_keys (\<lambda>_. h) (copy_key (\<lambda>_. True) h) None e = Some c" "hash_ok c chc" "hflags c = hflags e"
    "hash_view c = (\<lambda>k. case hash_view h k of None \<Rightarrow> hash_view e k | Some (k1, _, d) \<Rightarrow> Some (case hash_view e k of None \<Rightarrow> (k1, 0, d) | Some (k0, t, _) \<Rightarrow> (k0, t, d)))"
    using copy_all [OF e(2) assms(1)] e(3,4) flags_object by auto
  obtain r chr where r: "for_keys (\<lambda>_. extra) (copy_key (\<lambda>_. True) extra) None c = Some r" "hash_ok r chr"
    "hash_view r = (\<lambda>k. case hash_view extra k of None \<Rightarrow> hash_view c k | Some (k1, _, d) \<Rightarrow> Some (case hash_view c k of None \<Rightarrow> (k1, 0, d) | Some (k0, t, _) \<Rightarrow> (k0, t, d)))"
    using copy_all [OF c(2) assms(2)] c(3) e(4) assms(3,4) flags_object by auto
  have "hash_view c = (\<lambda>k. map_option (\<lambda>(k1, _, d). (k1, 0, d)) (hash_view h k))" using c(4) e(3) by (auto simp: fun_eq_iff split: option.splits)
  moreover have "hash_view r = (\<lambda>k. case (hash_view c k, hash_view extra k) of (x, None) \<Rightarrow> x | (None, Some (k1, _, d)) \<Rightarrow> Some (k1, 0, d)
        | (Some (k0, t, _), Some (_, _, d)) \<Rightarrow> Some (k0, t, d))" using r(3) by (auto simp: fun_eq_iff split: option.splits)
  ultimately show ?thesis using e(1) c(1) r(1,2) unfolding mprCloneHash_def mprBlendHash_def by (intro exI [of _ c] exI [of _ r]) auto
qed

text \<open>A typed key, and the same key in another table.\<close>

theorem clone_and_blend_witness:
  "\<exists>h extra c r. run_script hash_run [AddTyped ''a'' (Some (1 :: nat)) 5] h = Some ([Added True], extra)
     \<and> mprCloneHash (\<lambda>_. True) extra = Some (Some c) \<and> hash_view c ''a'' = Some (''a'', 0, Some 1)
     \<and> mprBlendHash (\<lambda>_. True) c extra = Some r \<and> hash_view r ''a'' = Some (''a'', 0, Some 1)"
proof -
  obtain h :: "nat mpr_hash" where h: "hash_ok h (\<lambda>_. [])" "hash_view h = Map.empty" "hflags h = 0 OR MPR_OBJ_HASH"
    using mprCreateHash_ok [of "\<lambda>_. True" 0 0, where 'a = nat] by auto
  have fl: "hflags h = 1" "\<not> caseless 1" "1 AND MPR_HASH_UNIQUE = 0" using h(3) by (simp_all add: MPR_OBJ_HASH_def caseless_def MPR_HASH_CASELESS_def MPR_HASH_UNIQUE_def)
  obtain extra chx where x: "run_script hash_run [AddTyped ''a'' (Some (1 :: nat)) 5] h = Some ([Added True], extra)" "hash_ok extra chx"
    "hflags extra = 1" "hash_view extra = [''a'' \<mapsto> (''a'', 5, Some 1)]"
    using mprAddKeyWithType_ok [of h _ "''a''" "\<lambda>_. True" "Some 1" 5, OF h(1)] h(2) fl by (auto simp: c_string_def add_view_def norm_key_def)
  have u: "hflags extra AND MPR_HASH_UNIQUE = 0" using x(3) fl(3) by simp
  obtain c r where c: "mprCloneHash (\<lambda>_. True) extra = Some (Some c)" "hash_view c = (\<lambda>k. map_option (\<lambda>(k1, _, d). (k1, 0, d)) (hash_view extra k))"
    "mprBlendHash (\<lambda>_. True) c extra = Some r" "hash_view r = (\<lambda>k. case (hash_view c k, hash_view extra k) of (x, None) \<Rightarrow> x | (None, Some (k1, _, d)) \<Rightarrow> Some (k1, 0, d)
        | (Some (k0, t, _), Some (_, _, d)) \<Rightarrow> Some (k0, t, d))"
    using clone_and_blend [OF x(2,2) refl u] by (elim exE conjE) (rule that)
  show ?thesis using x(1) c x(4) by (intro exI [of _ h] exI [of _ extra] exI [of _ c] exI [of _ r]) simp
qed

section \<open>Removal in a loop\<close>

lemma remove_current:
  assumes ok: "hash_ok h ch" and a: "a \<in> members (hsize h) ch" and after: "comes_after h ch a rem" and sp: "keys h a = Some sp" and small: "hlength h \<le> hsize h"
  shows "\<exists>h1 ch1. mprRemoveKey mem h (key sp) = Some (0, h1) \<and> hash_ok h1 ch1 \<and> hflags h1 = hflags h \<and> hsize h1 = hsize h \<and> hlength h1 = hlength h - 1
     \<and> hash_view h1 = (hash_view h)(norm_key (hflags h) (key sp) := None) \<and> comes_after h1 ch1 a rem \<and> members (hsize h1) ch1 = members (hsize h) ch - {a}
     \<and> same_content (keys h) (keys h1)"
proof -
  note t = hash_okD(1) [OF ok]
  let ?i = "key_index (hflags h) (hsize h) (key sp)"
  have s: "c_string (key sp)" using table_member [OF t a] sp by auto
  obtain r where l: "lookupHash mem h (key sp) = Some (?i, r, h)" "found h ch (key sp) r" using lookup_ok [OF ok s, of mem] small by metis
  have "norm_key (hflags h) (key sp) = entry_key (hflags h) (keys h) a" using sp by (simp add: entry_key_def)
  then have "norm_key (hflags h) (key sp) \<in> entry_key (hflags h) (keys h) ` members (hsize h) ch" using a by (rule image_eqI)
  then have "r \<noteq> None" using l(2) by (cases r) (auto simp: found_def)
  then obtain q a' where r: "r = Some (q, a')" by auto
  obtain sp' where sp': "keys h a' = Some sp'" "norm_key (hflags h) (key sp') = norm_key (hflags h) (key sp)" "a' \<in> members (hsize h) ch"
    using found_member [OF ok] l(2) r by metis
  have "a' = a" by (rule inj_onD [OF hash_okD(2) [OF ok] _ sp'(3) a]) (simp add: entry_key_def sp sp')
  with l(2) r obtain ys zs where c: "ch (nat ?i) = ys @ a # zs" "q = (if ys = [] then None else Some (last ys))" by (auto simp: found_def)
  have b: "0 \<le> ?i" "?i < hsize h" using t key_index_bounds [of "hsize h" "hflags h" "key sp"] by (auto simp: table_ok_def)
  define ch1 where "ch1 = ch(nat ?i := ys @ zs)"
  obtain h2 where u: "unlink ?i q sp h = Some h2" "table_ok (hflags h) (hsize h) (keys h2) (buckets h2) ch1" "members (hsize h) ch1 = members (hsize h) ch - {a}"
    "same_content (keys h) (keys h2)" "hflags h2 = hflags h" "hsize h2 = hsize h" "hlength h2 = hlength h" "free_key h2 = free_key h" "\<forall>x. x \<notin> set ys \<longrightarrow> keys h2 x = keys h x"
    using unlink_table [OF t b c(1) sp] unfolding c(2) [symmetric] ch1_def [symmetric] by (elim exE conjE) (rule that)
  let ?h = "h2\<lparr>hlength := hlength h2 - 1\<rparr>"
  have "mprRemoveKey mem h (key sp) = Some (0, ?h)" using l(1) r \<open>a' = a\<close> sp u(1) by (simp add: mprRemoveKey_def)
  moreover have ok1: "hash_ok ?h ch1" "hash_view ?h = (hash_view h)(norm_key (hflags h) (key sp) := None)" using unlinked_ok [OF ok u(2,3) a sp u(4-8)] by simp_all
  moreover have "comes_after ?h ch1 a rem"
  proof -
    have i: "nat ?i < nat (hsize h)" using b by simp
    have chain: "key_chain (keys h) (buckets h ! nat ?i) (ys @ a # zs)" using t i unfolding table_ok_def c(1) [symmetric] by blast
    have d: "distinct (ys @ a # zs)" by (rule key_chain_distinct [OF chain])
    have z: "key_chain (keys h) (next_key sp) zs" using key_chain_append [OF chain] sp by simp
    have bk: "bucket sp = ?i" using table_in_chain [OF t i _ sp] b c(1) by simp
    obtain as where as: "key_chain (keys h) (next_key sp) as" "rem = as @ concat (map ch [Suc (nat (bucket sp))..<nat (hsize h)])"
      using after sp unfolding comes_after_def by auto
    have rem: "rem = zs @ concat (map ch1 [Suc (nat ?i)..<nat (hsize h)])" using key_chain_unique [OF as(1) z] as(2) bk by (simp add: ch1_def)
    have "keys h2 x = keys h x" if "x \<in> set (a # zs)" for x using u(9) d that by auto
    then have "keys h2 a = Some sp" "key_chain (keys h2) (next_key sp) zs" using sp z key_chain_cong [of zs "keys h2" "keys h"] by simp_all
    with rem bk b i u(6) show ?thesis unfolding comes_after_def by (intro exI [of _ sp] exI [of _ zs]) (simp add: ch1_def)
  qed
  ultimately show ?thesis using u(3-7) by (intro exI [of _ ?h] exI [of _ ch1]) simp
qed

section \<open>Tables for clients\<close>

text \<open>The sum of a measure over a finite map.\<close>

definition map_weight :: "('k \<Rightarrow> 'v \<Rightarrow> int) \<Rightarrow> ('k \<Rightarrow> 'v option) \<Rightarrow> int" where
  "map_weight f m = (\<Sum>k \<in> dom m. f k (the (m k)))"

lemma map_weight_empty [simp]: "map_weight f Map.empty = 0"
  by (simp add: map_weight_def)

lemma map_weight_remove:
  assumes "finite (dom m)"
  shows "map_weight f (m(k := None)) = map_weight f m - (case m k of None \<Rightarrow> 0 | Some v \<Rightarrow> f k v)"
proof (cases "m k")
  case None
  then have "m(k := None) = m" by auto
  with None show ?thesis by simp
next
  case (Some v)
  have "(\<Sum>x \<in> dom m - {k}. f x (the ((m(k := None)) x))) = (\<Sum>x \<in> dom m - {k}. f x (the (m x)))" by (rule sum.cong) auto
  moreover have "k \<in> dom m" using Some by auto
  ultimately show ?thesis using assms Some sum.remove [of "dom m" k "\<lambda>x. f x (the (m x))"] by (simp add: map_weight_def)
qed

lemma map_weight_update:
  assumes "finite (dom m)"
  shows "map_weight f (m(k \<mapsto> v)) = map_weight f m - (case m k of None \<Rightarrow> 0 | Some u \<Rightarrow> f k u) + f k v"
proof -
  have "(m(k \<mapsto> v))(k := None) = m(k := None)" by auto
  then have "map_weight f (m(k := None)) = map_weight f (m(k \<mapsto> v)) - f k v" using map_weight_remove [of "m(k \<mapsto> v)" f k] assms by simp
  then show ?thesis using map_weight_remove [OF assms, of f k] by simp
qed

lemma map_weight_cong: "(\<And>k v. m k = Some v \<Longrightarrow> f k v = g k v) \<Longrightarrow> map_weight f m = map_weight g m"
  unfolding map_weight_def by (rule sum.cong) auto

text \<open>
  What a client relies on that keeps pointers that are not null under keys: the laws of lookup, addition and removal, each of
  which may move the entries, and of the number of keys.
\<close>

locale string_table =
  fixes ok :: "'t \<Rightarrow> bool"
    and view :: "'t \<Rightarrow> string \<Rightarrow> 'v option"
    and lookup :: "'t \<Rightarrow> string \<Rightarrow> ('v option \<times> 't) option"
    and add :: "'t \<Rightarrow> string \<Rightarrow> 'v \<Rightarrow> 't option"
    and remove :: "'t \<Rightarrow> string \<Rightarrow> 't option"
    and count :: "'t \<Rightarrow> int"
  assumes finite_law: "ok t \<Longrightarrow> finite (dom (view t))"
    and count_law: "ok t \<Longrightarrow> count t = int (card (dom (view t)))"
    and lookup_law: "ok t \<Longrightarrow> c_string k \<Longrightarrow> \<exists>t'. lookup t k = Some (view t k, t') \<and> ok t' \<and> view t' = view t"
    and add_law: "ok t \<Longrightarrow> c_string k \<Longrightarrow> \<exists>t'. add t k v = Some t' \<and> ok t' \<and> view t' = (view t)(k \<mapsto> v)"
    and remove_law: "ok t \<Longrightarrow> c_string k \<Longrightarrow> \<exists>t'. remove t k = Some t' \<and> ok t' \<and> view t' = (view t)(k := None)"
begin

lemma count_zero: "ok t \<Longrightarrow> count t = 0 \<longleftrightarrow> view t = Map.empty"
  by (simp add: count_law finite_law)

lemma weight_add:
  "ok t \<Longrightarrow> c_string k \<Longrightarrow> \<exists>t'. add t k v = Some t' \<and> ok t' \<and> view t' = (view t)(k \<mapsto> v)
     \<and> map_weight f (view t') = map_weight f (view t) - (case view t k of None \<Rightarrow> 0 | Some u \<Rightarrow> f k u) + f k v"
  using add_law [of t k v] map_weight_update [OF finite_law, of t f k v] by fastforce

lemma weight_remove:
  "ok t \<Longrightarrow> c_string k \<Longrightarrow> \<exists>t'. remove t k = Some t' \<and> ok t' \<and> view t' = (view t)(k := None)
     \<and> map_weight f (view t') = map_weight f (view t) - (case view t k of None \<Rightarrow> 0 | Some u \<Rightarrow> f k u)"
  using remove_law [of t k] map_weight_remove [OF finite_law, of t f k] by fastforce

end

text \<open>A table that tells cases apart, may be updated and has no null data.\<close>

definition plain_table :: "'v mpr_hash \<Rightarrow> bool" where
  "plain_table h \<longleftrightarrow> (\<exists>ch. hash_ok h ch) \<and> \<not> caseless (hflags h) \<and> hflags h AND MPR_HASH_UNIQUE = 0
     \<and> (\<forall>k i. hash_view h k = Some i \<longrightarrow> snd (snd i) \<noteq> None)"

definition table_view :: "'v mpr_hash \<Rightarrow> string \<Rightarrow> 'v option" where
  "table_view h k = Option.bind (hash_view h k) (\<lambda>(_, _, d). d)"

lemma plain_dom: "plain_table h \<Longrightarrow> dom (table_view h) = dom (hash_view h)"
  by (fastforce simp: plain_table_def table_view_def dom_def bind_eq_Some_conv)

lemma norm_plain [simp]: "\<not> caseless flags \<Longrightarrow> norm_key flags k = k"
  by (simp add: norm_key_def)

lemma plain_create: "mem 48 \<Longrightarrow> mem (8 * max ME_MAX_HASH n) \<Longrightarrow> \<exists>h. mprCreateHash mem n 0 = Some h \<and> plain_table h \<and> table_view h = Map.empty
     \<and> hash_ok h (\<lambda>_. []) \<and> hsize h = max ME_MAX_HASH n"
  using mprCreateHash_ok [of mem n 0] by (force simp: plain_table_def table_view_def caseless_def MPR_OBJ_HASH_def MPR_HASH_CASELESS_def MPR_HASH_UNIQUE_def fun_eq_iff)

interpretation plain: string_table plain_table table_view "mprLookupKey (\<lambda>_. True)"
  "\<lambda>h k v. map_option snd (mprAddKey (\<lambda>_. True) h k (Some v))" "\<lambda>h k. map_option snd (mprRemoveKey (\<lambda>_. True) h k)" mprGetHashLength
proof unfold_locales
  fix h :: "'v mpr_hash" and k v
  assume p: "plain_table h"
  then obtain ch where ok: "hash_ok h ch" and fl: "\<not> caseless (hflags h)" "hflags h AND MPR_HASH_UNIQUE = 0"
    and d: "\<forall>k i. hash_view h k = Some i \<longrightarrow> snd (snd i) \<noteq> None" by (auto simp: plain_table_def)
  show "finite (dom (table_view h))" using plain_dom [OF p] finite_view [OF ok] by simp
  show "mprGetHashLength h = int (card (dom (table_view h)))" using plain_dom [OF p] length_view [OF ok] by (simp add: mprGetHashLength_def)
  assume k: "c_string k"
  obtain h1 ch1 where l: "mprLookupKey (\<lambda>_. True) h k = Some (table_view h k, h1)" "hash_ok h1 ch1" "hflags h1 = hflags h" "hash_view h1 = hash_view h"
    using mprLookupKey_ok [OF ok k, of "\<lambda>_. True"] fl(1) by (auto simp: table_view_def)
  then show "\<exists>h'. mprLookupKey (\<lambda>_. True) h k = Some (table_view h k, h') \<and> plain_table h' \<and> table_view h' = table_view h"
    using fl d by (intro exI [of _ h1]) (auto simp: plain_table_def table_view_def)
  obtain h2 ch2 where r: "mprRemoveKey (\<lambda>_. True) h k = Some (if hash_view h k = None then MPR_ERR_CANT_FIND else 0, h2)" "hash_ok h2 ch2" "hflags h2 = hflags h"
    "hash_view h2 = (hash_view h)(k := None)" using mprRemoveKey_ok [OF ok k, of "\<lambda>_. True"] fl(1) by auto
  then show "\<exists>h'. map_option snd (mprRemoveKey (\<lambda>_. True) h k) = Some h' \<and> plain_table h' \<and> table_view h' = (table_view h)(k := None)"
    using fl d by (intro exI [of _ h2]) (auto simp: plain_table_def table_view_def)
  obtain x h3 ch3 where a: "mprAddKey (\<lambda>_. True) h k (Some v) = Some (x, h3)" "hash_ok h3 ch3" "hflags h3 = hflags h" "hash_view h3 = add_view (hflags h) k (Some v) (hash_view h)"
    using mprAddKey_ok [of h ch k "\<lambda>_. True" "Some v", OF ok k] by blast
  have "plain_table h3" "table_view h3 = (table_view h)(k \<mapsto> v)"
    using a(2-4) fl d by (auto simp: plain_table_def table_view_def add_view_def fun_eq_iff split: option.splits if_splits)
  then show "\<exists>h'. map_option snd (mprAddKey (\<lambda>_. True) h k (Some v)) = Some h' \<and> plain_table h' \<and> table_view h' = (table_view h)(k \<mapsto> v)"
    using a(1) by auto
qed

lemma plain_entry:
  assumes p: "plain_table h" and k: "c_string k"
  shows "\<exists>kp h1. mprLookupKeyEntry (\<lambda>_. True) h k = Some (kp, h1) \<and> plain_table h1 \<and> table_view h1 = table_view h
     \<and> (kp = None \<longleftrightarrow> table_view h k = None) \<and> (\<forall>a. kp = Some a \<longrightarrow> (\<exists>sp. keys h1 a = Some sp \<and> data sp = table_view h k))"
proof -
  obtain ch where ok: "hash_ok h ch" and fl: "\<not> caseless (hflags h)" "hflags h AND MPR_HASH_UNIQUE = 0"
    and d: "\<forall>k i. hash_view h k = Some i \<longrightarrow> snd (snd i) \<noteq> None" using p by (auto simp: plain_table_def)
  obtain r h1 ch1 where l: "lookupHash (\<lambda>_. True) h k = Some (key_index (hflags h1) (hsize h1) k, r, h1)" "hash_ok h1 ch1" "hash_view h1 = hash_view h"
    "hflags h1 = hflags h" "found h1 ch1 k r" using lookup_ok [OF ok k, of "\<lambda>_. True"] by (elim exE conjE) (rule that)
  have p1: "plain_table h1" "table_view h1 = table_view h" using l(2-4) fl d by (auto simp: plain_table_def table_view_def fun_eq_iff)
  show ?thesis
  proof (cases r)
    case None
    then have "table_view h k = None" using found_None [OF l(2)] l(3-5) fl(1) by (simp add: table_view_def)
    with None l(1) p1 show ?thesis by (simp add: mprLookupKeyEntry_def)
  next
    case (Some qa)
    obtain q a where qa: "qa = (q, a)" by (cases qa)
    obtain sp where sp: "keys h1 a = Some sp" "hash_view h1 (norm_key (hflags h1) k) = Some (entry_info sp)" using found_member [OF l(2)] l(5) Some qa by metis
    then have "hash_view h k = Some (entry_info sp)" using l(3,4) fl(1) by simp
    then have "table_view h k = data sp" "data sp \<noteq> None" using d by (auto simp: table_view_def entry_info_def)
    with Some qa l(1) p1 sp(1) show ?thesis by (simp add: mprLookupKeyEntry_def)
  qed
qed

end
