(* ===== verification/LocalCache.thy ===== *)
theory LocalCache
  imports MprHash "HOL-Library.Signed_Division"
begin

text \<open>
  The class \<^verbatim>\<open>LocalCache\<close> (\<^verbatim>\<open>src/core/src/ejsLocalCache.c\<close>): a store of strings under keys with expiry dates, versions and
  limits, on the hash tables of \<^verbatim>\<open>MprHash\<close>.

  \<^item> The items live at addresses, to which the table points; an item may be changed without the table.
  \<^item> Caches live at addresses too. One of them may be the shared cache, to which other caches are linked; every method
    but \<^verbatim>\<open>destroy\<close> goes to the linked cache first. A method is its body, on a cache, and the choice of the cache.
  \<^item> \<open>now\<close> is the time that \<^verbatim>\<open>mprGetTime\<close> returns, \<open>mem\<close> says which allocations succeed. Options are given by the properties
    that the code asks for, with their values as numbers, dates and strings.
  \<^item> The lock is a recursive mutex: the number of times it is held, by the one thread that makes the calls of a script. Null pointers that are followed are undefined (\<^const>\<open>None\<close>).
\<close>

section \<open>State\<close>

definition TPS :: int where "TPS = 1000"
definition CACHE_TIMER_PERIOD :: int where "CACHE_TIMER_PERIOD = 60 * TPS"
definition CACHE_HASH_SIZE :: int where "CACHE_HASH_SIZE = 257"
definition CACHE_LIFESPAN :: int where "CACHE_LIFESPAN = 86400 * TPS"
definition MAXSSIZE :: int where "MAXSSIZE = 0x7fffffffffffffff"

record cache_item =
  item_key :: string
  item_data :: "string option"
  item_expires :: int
  item_lifespan :: int
  item_version :: int

record local_cache =
  store :: "nat mpr_hash option"
  items :: "nat \<Rightarrow> cache_item option"
  free_item :: nat
  locks :: nat
  timer :: bool
  lifespan :: int
  resolution :: int
  usedMem :: int
  maxKeys :: int
  maxMem :: int
  shared_link :: "nat option"

record cache_world =
  caches :: "nat \<Rightarrow> local_cache option"
  shared :: "nat option"

datatype cache_value = CNull | CUndefined | CBool bool | CNumber int | CString string | CVersioned int string | CLimits int int int

datatype cache_result = Returned cache_value | Threw ejs_error

type_synonym 'a cache_step = "('a \<times> local_cache) option"

definition lock :: "local_cache \<Rightarrow> local_cache" where
  "lock c = c\<lparr>locks := Suc (locks c)\<rparr>"

definition unlock :: "local_cache \<Rightarrow> local_cache" where
  "unlock c = c\<lparr>locks := locks c - 1\<rparr>"

section \<open>Limits\<close>

record limit_options =
  opt_keys :: "int option"
  opt_lifespan :: "int option"
  opt_memory :: "int option"
  opt_resolution :: "int option"

definition limit_or :: "int \<Rightarrow> int option \<Rightarrow> int \<Rightarrow> int" where
  "limit_or dflt v old = (case v of None \<Rightarrow> old | Some x \<Rightarrow> if x \<le> 0 then dflt else x)"

definition setLocalLimits :: "limit_options option \<Rightarrow> local_cache \<Rightarrow> local_cache option" where
  "setLocalLimits options c =
     (case options of
        None \<Rightarrow> Some c
      | Some opts \<Rightarrow>
          do { life \<leftarrow> (case opt_lifespan opts of None \<Rightarrow> Some (lifespan c) | Some v \<Rightarrow> check_int64 (v * TPS));
               Some (c\<lparr>maxKeys := limit_or MAXSSIZE (opt_keys opts) (maxKeys c), lifespan := life,
                       maxMem := limit_or MAXSSIZE (opt_memory opts) (maxMem c),
                       resolution := limit_or CACHE_TIMER_PERIOD (opt_resolution opts) (resolution c)\<rparr>) })"

definition setLimits_body :: "limit_options \<Rightarrow> local_cache \<Rightarrow> cache_result cache_step" where
  "setLimits_body options c = map_option (\<lambda>c1. (Returned CUndefined, c1)) (setLocalLimits (Some options) c)"

definition limits_body :: "local_cache \<Rightarrow> cache_result cache_step" where
  "limits_body c = Some (Returned (CLimits (if maxKeys c = MAXSSIZE then 0 else maxKeys c) (lifespan c sdiv TPS) (if maxMem c = MAXSSIZE then 0 else maxMem c)), c)"

section \<open>The bodies of the methods\<close>

text \<open>A body works on the cache that the first lines of its method have chosen; the methods are below.\<close>

text \<open>The item under a key, in a table that may have grown.\<close>

definition lookup_item :: "(int \<Rightarrow> bool) \<Rightarrow> string \<Rightarrow> local_cache \<Rightarrow> (nat option \<times> local_cache) option" where
  "lookup_item mem k c = do { h \<leftarrow> store c; (r, h1) \<leftarrow> mprLookupKey mem h (c_str k); Some (r, c\<lparr>store := Some h1\<rparr>) }"

definition item_size :: "cache_item \<Rightarrow> int option" where
  "item_size it = map_option (\<lambda>d. int (length (item_key it)) + int (length d)) (item_data it)"

definition set_item :: "nat \<Rightarrow> cache_item \<Rightarrow> local_cache \<Rightarrow> local_cache" where
  "set_item i it c = c\<lparr>items := (items c)(i \<mapsto> it)\<rparr>"

definition removeItem :: "(int \<Rightarrow> bool) \<Rightarrow> nat \<Rightarrow> local_cache \<Rightarrow> local_cache option" where
  "removeItem mem i c0 =
     do { let c = lock c0;
          it \<leftarrow> items c i;
          h \<leftarrow> store c;
          (_, h1) \<leftarrow> mprRemoveKey mem h (c_str (item_key it));
          n \<leftarrow> item_size it;
          Some (unlock (c\<lparr>store := Some h1, usedMem := usedMem c - n\<rparr>)) }"

text \<open>No date, the value null, removes the key.\<close>

definition expire_body :: "(int \<Rightarrow> bool) \<Rightarrow> string \<Rightarrow> int option \<Rightarrow> local_cache \<Rightarrow> cache_result cache_step" where
  "expire_body mem k expires c =
     do { (r, c1) \<leftarrow> lookup_item mem k (lock c);
          case r of
            None \<Rightarrow> Some (Returned (CBool False), unlock c1)
          | Some i \<Rightarrow>
              do { it \<leftarrow> items c1 i;
                   let c2 = set_item i (it\<lparr>item_lifespan := 0\<rparr>) c1;
                   c3 \<leftarrow> (case expires of
                             None \<Rightarrow> removeItem mem i c2
                           | Some t \<Rightarrow> Some (set_item i (it\<lparr>item_lifespan := 0, item_expires := t\<rparr>) c2));
                   Some (Returned (CBool True), unlock c3) } }"

text \<open>An item for a key that is not there is made, but not added to the table.\<close>

definition blank_item :: "cache_item" where
  "blank_item = \<lparr>item_key = [], item_data = None, item_expires = 0, item_lifespan = 0, item_version = 0\<rparr>"

definition inc_body :: "(int \<Rightarrow> bool) \<Rightarrow> int \<Rightarrow> string \<Rightarrow> int \<Rightarrow> local_cache \<Rightarrow> cache_result cache_step" where
  "inc_body mem now k amount c =
     do { (r, c1) \<leftarrow> lookup_item mem k (lock c);
          if r = None \<and> \<not> mem 40 then Some (Threw MemoryError, unlock c1)
          else do {
            (i, it, n, c2) \<leftarrow>
              (case r of
                 None \<Rightarrow> Some (free_item c1, blank_item, amount, c1\<lparr>free_item := Suc (free_item c1)\<rparr>)
               | Some i \<Rightarrow> do { it \<leftarrow> items c1 i; d \<leftarrow> item_data it; v \<leftarrow> stoi (c_str d); n \<leftarrow> check_int64 (amount + v); Some (i, it, n, c1) });
            s \<leftarrow> itos n;
            d \<leftarrow> s;
            let old = (case item_data it of None \<Rightarrow> 0 | Some d0 \<Rightarrow> int (length d0));
            let it1 = it\<lparr>item_data := Some d, item_expires := now + item_lifespan it, item_version := item_version it + 1\<rparr>;
            Some (Returned (CString d), unlock (set_item i it1 (c2\<lparr>usedMem := usedMem c2 - old + int (length d)\<rparr>))) } }"

definition expired :: "int \<Rightarrow> cache_item \<Rightarrow> bool" where
  "expired now it \<longleftrightarrow> item_expires it \<noteq> 0 \<and> item_expires it \<le> now"

definition read_body :: "(int \<Rightarrow> bool) \<Rightarrow> int \<Rightarrow> string \<Rightarrow> bool \<Rightarrow> local_cache \<Rightarrow> cache_result cache_step" where
  "read_body mem now k getVersion c =
     do { (r, c1) \<leftarrow> lookup_item mem k (lock c);
          case r of
            None \<Rightarrow> Some (Returned CNull, unlock c1)
          | Some i \<Rightarrow>
              do { it \<leftarrow> items c1 i;
                   if expired now it then Some (Returned CNull, unlock c1)
                   else do { d \<leftarrow> item_data it;
                             Some (Returned (if getVersion then CVersioned (item_version it) d else CString d), unlock c1) } } }"

text \<open>Without a key all keys are removed, by a new table.\<close>

definition remove_body :: "(int \<Rightarrow> bool) \<Rightarrow> string option \<Rightarrow> local_cache \<Rightarrow> cache_result cache_step" where
  "remove_body mem opt_key c =
     (case opt_key of
        Some k \<Rightarrow>
          do { (r, c1) \<leftarrow> lookup_item mem k (lock c);
               case r of
                 None \<Rightarrow> Some (Returned (CBool False), unlock c1)
               | Some i \<Rightarrow>
                   do { it \<leftarrow> items c1 i;
                        d \<leftarrow> item_data it;
                        h \<leftarrow> store c1;
                        (_, h1) \<leftarrow> mprRemoveKey mem h (c_str k);
                        Some (Returned (CBool True), unlock (c1\<lparr>usedMem := usedMem c1 - (int (length k) + int (length d)), store := Some h1\<rparr>)) } }
      | None \<Rightarrow>
          do { h \<leftarrow> store c;
               Some (Returned (CBool (mprGetHashLength h \<noteq> 0)), unlock ((lock c)\<lparr>store := mprCreateHash mem CACHE_HASH_SIZE 0, usedMem := 0\<rparr>)) })"

section \<open>Writing\<close>

record write_options =
  w_lifespan :: "int option"
  w_expires :: "int option"
  w_mode :: "string option"
  w_throw :: bool
  w_version :: "int option"

datatype mode = SetMode | AddMode | AppendMode | PrependMode | OtherMode

definition write_mode :: "string option \<Rightarrow> mode" where
  "write_mode s =
     (case s of
        None \<Rightarrow> SetMode
      | Some m \<Rightarrow> if m = ''add'' then AddMode else if m = ''append'' then AppendMode else if m = ''prepend'' then PrependMode
                  else if m = ''set'' then SetMode else OtherMode)"

definition no_options :: write_options where
  "no_options = \<lparr>w_lifespan = None, w_expires = None, w_mode = None, w_throw = False, w_version = None\<rparr>"

text \<open>The new data of an item; no result is the return of \<^verbatim>\<open>null\<close> from an addition to a key that exists.\<close>

definition new_data :: "mode \<Rightarrow> bool \<Rightarrow> string \<Rightarrow> cache_item \<Rightarrow> string option option option" where
  "new_data mode exists val it =
     (case mode of
        SetMode \<Rightarrow> Some (Some (Some val))
      | AddMode \<Rightarrow> if exists then Some None else Some (Some (Some val))
      | AppendMode \<Rightarrow> map_option (\<lambda>d. Some (Some (d @ val))) (item_data it)
      | PrependMode \<Rightarrow> map_option (\<lambda>d. Some (Some (val @ d))) (item_data it)
      | OtherMode \<Rightarrow> Some (Some (item_data it)))"

text \<open>The dates of an item. A date of zero is no date.\<close>

definition stamp_item :: "int \<Rightarrow> int \<Rightarrow> int \<Rightarrow> cache_item \<Rightarrow> cache_item" where
  "stamp_item now expires life it =
     (if expires \<noteq> 0 then it\<lparr>item_expires := expires, item_lifespan := 0\<rparr>
      else if life = 0 then it\<lparr>item_expires := 0\<rparr>
      else it\<lparr>item_lifespan := life, item_expires := now + life\<rparr>)"

text \<open>The second half of \<^verbatim>\<open>sl_write\<close>: the item is there. The addition to a key that exists returns with the lock held.\<close>

definition write_item :: "int \<Rightarrow> mode \<Rightarrow> bool \<Rightarrow> int \<Rightarrow> int \<Rightarrow> string \<Rightarrow> nat \<Rightarrow> local_cache \<Rightarrow> cache_result cache_step" where
  "write_item now mode exists expires life val i c =
     do { it \<leftarrow> items c i;
          r \<leftarrow> new_data mode exists val it;
          case r of
            None \<Rightarrow> Some (Returned CNull, c)
          | Some d \<Rightarrow>
              do { let oldLen = (case item_size it of None \<Rightarrow> 0 | Some n \<Rightarrow> n);
                   let it1 = stamp_item now expires life (it\<lparr>item_data := d\<rparr>);
                   let it2 = it1\<lparr>item_version := item_version it1 + 1\<rparr>;
                   len \<leftarrow> item_size it2;
                   Some (Returned (CNumber len), unlock (set_item i it2 (c\<lparr>usedMem := usedMem c + (len - oldLen), timer := True\<rparr>))) } }"

definition write_body :: "(int \<Rightarrow> bool) \<Rightarrow> int \<Rightarrow> string \<Rightarrow> string \<Rightarrow> write_options option \<Rightarrow> local_cache \<Rightarrow> cache_result cache_step" where
  "write_body mem now k val options c0 =
     do { let opts = (case options of None \<Rightarrow> no_options | Some w \<Rightarrow> w);
          life \<leftarrow> (case w_lifespan opts of None \<Rightarrow> Some (lifespan c0) | Some v \<Rightarrow> check_int64 (v * TPS));
          let expires = (case w_expires opts of None \<Rightarrow> 0 | Some t \<Rightarrow> t);
          let c = lock c0;
          h \<leftarrow> store c;
          (kp, h1) \<leftarrow> mprLookupKeyEntry mem h (c_str k);
          let c1 = c\<lparr>store := Some h1\<rparr>;
          case kp of
            Some a \<Rightarrow>
              do { sp \<leftarrow> keys h1 a;
                   i \<leftarrow> data sp;
                   it \<leftarrow> items c1 i;
                   if (\<exists>v \<in> set_option (w_version opts). item_version it \<noteq> v)
                   then Some (if w_throw opts then Threw StateError else Returned CNull, unlock c1)
                   else write_item now (write_mode (w_mode opts)) True expires life val i c1 }
          | None \<Rightarrow>
              if \<not> mem 40 then Some (Threw MemoryError, unlock c1)
              else do { let i = free_item c1;
                        (_, h2) \<leftarrow> mprAddKey mem h1 (c_str k) (Some i);
                        write_item now SetMode False expires life val i
                          ((set_item i (blank_item\<lparr>item_key := k\<rparr>) c1)\<lparr>store := Some h2, free_item := Suc i\<rparr>) } }"

section \<open>Pruning\<close>

text \<open>The body of the loops: the item of an entry is removed when its date has come.\<close>

definition prune_entry :: "(int \<Rightarrow> bool) \<Rightarrow> int \<Rightarrow> nat \<Rightarrow> int \<times> local_cache \<Rightarrow> (int \<times> local_cache) option" where
  "prune_entry mem when a s =
     do { h \<leftarrow> store (snd s); kp \<leftarrow> keys h a; i \<leftarrow> data kp; it \<leftarrow> items (snd s) i;
          if expired when it then do { c1 \<leftarrow> removeItem mem i (snd s); Some (fst s - 1, c1) } else Some s }"

definition cache_table :: "int \<times> local_cache \<Rightarrow> nat mpr_hash" where
  "cache_table s = the (store (snd s))"

definition prune_keys :: "(int \<Rightarrow> bool) \<Rightarrow> int \<Rightarrow> int \<times> local_cache \<Rightarrow> (int \<times> local_cache) option" where
  "prune_keys mem when s = (if store (snd s) = None then None else for_keys cache_table (prune_entry mem when) None s)"

text \<open>While the cache is too big, dates further and further ahead are taken for come. The factor is positive from the start.\<close>

function prune_rounds :: "(int \<Rightarrow> bool) \<Rightarrow> int \<Rightarrow> int \<Rightarrow> int \<times> local_cache \<Rightarrow> (int \<times> local_cache) option" where
  "prune_rounds mem factor when s =
     (if 0 < factor \<and> factor < 86400 * 1000 \<and> (fst s > 0 \<or> usedMem (snd s) > maxMem (snd s))
      then Option.bind (prune_keys mem when s) (prune_rounds mem (factor * 4) (when + factor))
      else Some s)"
  by pat_completeness auto
termination by (relation "measure (\<lambda>(mem, factor, when, s). nat (86400 * 1000 - factor))") auto

declare prune_rounds.simps [simp del]

text \<open>The pruner runs when it gets the lock: nobody holds it, or its own thread does.\<close>

definition localPruner :: "(int \<Rightarrow> bool) \<Rightarrow> bool \<Rightarrow> int \<Rightarrow> local_cache \<Rightarrow> local_cache option" where
  "localPruner mem same_thread now c =
     (if locks c \<noteq> 0 \<and> \<not> same_thread then Some c
      else do { (_, c1) \<leftarrow> prune_keys mem now (0, lock c);
                h \<leftarrow> store c1;
                (_, c2) \<leftarrow> (if maxKeys c1 < MAXSSIZE \<or> maxMem c1 < MAXSSIZE
                            then prune_rounds mem 3600 now (mprGetHashLength h - maxKeys c1, c1)
                            else Some (0, c1));
                h2 \<leftarrow> store c2;
                Some (unlock (if mprGetHashLength h2 = 0 then c2\<lparr>timer := False\<rparr> else c2)) })"

section \<open>Caches\<close>

definition blank_cache :: local_cache where
  "blank_cache = \<lparr>store = None, items = (\<lambda>_. None), free_item = 0, locks = 0, timer = False, lifespan = 0, resolution = 0, usedMem = 0,
     maxKeys = 0, maxMem = 0, shared_link = None\<rparr>"

text \<open>The constructor fills in the object at an address. A store without memory is null.\<close>

definition localConstructor :: "(int \<Rightarrow> bool) \<Rightarrow> nat \<Rightarrow> bool \<Rightarrow> limit_options option \<Rightarrow> cache_world \<Rightarrow> cache_world option" where
  "localConstructor mem a wantShared options w =
     do { c \<leftarrow> caches w a;
          if wantShared \<and> shared w \<noteq> None then Some (w\<lparr>caches := (caches w)(a \<mapsto> c\<lparr>shared_link := shared w\<rparr>)\<rparr>)
          else do { c1 \<leftarrow> setLocalLimits options (c\<lparr>store := mprCreateHash mem CACHE_HASH_SIZE 0, maxMem := MAXSSIZE, maxKeys := MAXSSIZE,
                                                   resolution := CACHE_TIMER_PERIOD, lifespan := CACHE_LIFESPAN\<rparr>);
                    Some (w\<lparr>caches := (caches w)(a \<mapsto> c1), shared := if wantShared then Some a else shared w\<rparr>) } }"

text \<open>
  Every method but \<^verbatim>\<open>destroy\<close> begins with going to the linked cache, where there is one. The assertion that the linked cache is the shared
  one is empty unless the runtime is built for debugging.
\<close>

definition redirect :: "nat \<Rightarrow> cache_world \<Rightarrow> nat option" where
  "redirect a w = map_option (\<lambda>c. case shared_link c of None \<Rightarrow> a | Some b \<Rightarrow> b) (caches w a)"

definition call_body :: "(local_cache \<Rightarrow> 'r cache_step) \<Rightarrow> nat \<Rightarrow> cache_world \<Rightarrow> ('r \<times> cache_world) option" where
  "call_body body b w = Option.bind (caches w b) (\<lambda>c. map_option (\<lambda>(r, d). (r, w\<lparr>caches := (caches w)(b \<mapsto> d)\<rparr>)) (body c))"

definition sl_expire :: "(int \<Rightarrow> bool) \<Rightarrow> string \<Rightarrow> int option \<Rightarrow> nat \<Rightarrow> cache_world \<Rightarrow> (cache_result \<times> cache_world) option" where
  "sl_expire mem k expires a w = Option.bind (redirect a w) (\<lambda>b. call_body (expire_body mem k expires) b w)"

definition sl_inc :: "(int \<Rightarrow> bool) \<Rightarrow> int \<Rightarrow> string \<Rightarrow> int \<Rightarrow> nat \<Rightarrow> cache_world \<Rightarrow> (cache_result \<times> cache_world) option" where
  "sl_inc mem now k amount a w = Option.bind (redirect a w) (\<lambda>b. call_body (inc_body mem now k amount) b w)"

definition sl_limits :: "nat \<Rightarrow> cache_world \<Rightarrow> (cache_result \<times> cache_world) option" where
  "sl_limits a w = Option.bind (redirect a w) (\<lambda>b. call_body limits_body b w)"

definition sl_read :: "(int \<Rightarrow> bool) \<Rightarrow> int \<Rightarrow> string \<Rightarrow> bool \<Rightarrow> nat \<Rightarrow> cache_world \<Rightarrow> (cache_result \<times> cache_world) option" where
  "sl_read mem now k getVersion a w = Option.bind (redirect a w) (\<lambda>b. call_body (read_body mem now k getVersion) b w)"

definition sl_remove :: "(int \<Rightarrow> bool) \<Rightarrow> string option \<Rightarrow> nat \<Rightarrow> cache_world \<Rightarrow> (cache_result \<times> cache_world) option" where
  "sl_remove mem opt_key a w = Option.bind (redirect a w) (\<lambda>b. call_body (remove_body mem opt_key) b w)"

definition sl_setLimits :: "limit_options \<Rightarrow> nat \<Rightarrow> cache_world \<Rightarrow> (cache_result \<times> cache_world) option" where
  "sl_setLimits options a w = Option.bind (redirect a w) (\<lambda>b. call_body (setLimits_body options) b w)"

definition sl_write :: "(int \<Rightarrow> bool) \<Rightarrow> int \<Rightarrow> string \<Rightarrow> string \<Rightarrow> write_options option \<Rightarrow> nat \<Rightarrow> cache_world \<Rightarrow> (cache_result \<times> cache_world) option" where
  "sl_write mem now k val options a w = Option.bind (redirect a w) (\<lambda>b. call_body (write_body mem now k val options) b w)"

definition sl_destroy :: "nat \<Rightarrow> cache_world \<Rightarrow> cache_world option" where
  "sl_destroy a w =
     do { c \<leftarrow> caches w a;
          let w1 = (if timer c \<and> shared w \<noteq> Some a then w\<lparr>caches := (caches w)(a \<mapsto> c\<lparr>timer := False\<rparr>)\<rparr> else w);
          Some (if shared w = Some a then w1\<lparr>shared := None\<rparr> else w1) }"

text \<open>The object at the second address is a new one. A clone has an empty store and the memory count of its source.\<close>

definition cloneLocalCache :: "(int \<Rightarrow> bool) \<Rightarrow> nat \<Rightarrow> nat \<Rightarrow> cache_world \<Rightarrow> cache_world option" where
  "cloneLocalCache mem a b w =
     do { src \<leftarrow> caches w a;
          let dest = (if shared_link src \<noteq> None then blank_cache\<lparr>shared_link := shared_link src\<rparr>
                      else if shared w = Some a then blank_cache\<lparr>shared_link := Some a\<rparr>
                      else blank_cache\<lparr>store := mprCreateHash mem CACHE_HASH_SIZE 0, lifespan := lifespan src, resolution := resolution src,
                                       usedMem := usedMem src, maxMem := maxMem src, maxKeys := maxKeys src\<rparr>);
          Some (w\<lparr>caches := (caches w)(b \<mapsto> dest)\<rparr>) }"

section \<open>The invariant\<close>

definition cache_view :: "local_cache \<Rightarrow> string \<Rightarrow> cache_item option" where
  "cache_view c k = Option.bind (store c) (\<lambda>h. Option.bind (table_view h k) (items c))"

definition weight :: "string \<Rightarrow> cache_item \<Rightarrow> int" where
  "weight k it = int (length k) + int (length (the (item_data it)))"

text \<open>The item of every key is there, and has the key and data.\<close>

definition items_ok :: "nat mpr_hash \<Rightarrow> (nat \<Rightarrow> cache_item option) \<Rightarrow> nat \<Rightarrow> bool" where
  "items_ok h its n \<longleftrightarrow> (\<forall>k i. table_view h k = Some i \<longrightarrow> i < n \<and> (\<exists>it. its i = Some it \<and> item_key it = k \<and> item_data it \<noteq> None))"

definition cache_wf :: "local_cache \<Rightarrow> bool" where
  "cache_wf c \<longleftrightarrow> (\<exists>h. store c = Some h \<and> plain_table h \<and> items_ok h (items c) (free_item c))"

text \<open>What the memory count is off by. Only the increment of a key that is not there moves it: its data are counted and never entered.\<close>

definition drift :: "local_cache \<Rightarrow> int" where
  "drift c = usedMem c - map_weight weight (cache_view c)"

lemma items_okD: "items_ok h its n \<Longrightarrow> table_view h k = Some i \<Longrightarrow> \<exists>it d. its i = Some it \<and> item_key it = k \<and> item_data it = Some d \<and> i < n"
  unfolding items_ok_def by blast

lemma lock_simps [simp]:
  "cache_wf (lock c) = cache_wf c" "cache_wf (unlock c) = cache_wf c" "cache_view (lock c) = cache_view c" "cache_view (unlock c) = cache_view c"
  "unlock (lock c) = c" "store (lock c) = store c" "items (lock c) = items c" "free_item (lock c) = free_item c" "lifespan (lock c) = lifespan c"
  "locks (lock c) = Suc (locks c)" "locks (unlock c) = locks c - 1" "timer (unlock c) = timer c" "lifespan (unlock c) = lifespan c"
  "drift (lock c) = drift c" "drift (unlock c) = drift c" "usedMem (unlock c) = usedMem c" "store (unlock c) = store c"
  "maxKeys (unlock c) = maxKeys c" "maxMem (unlock c) = maxMem c" "resolution (unlock c) = resolution c"
  by (simp_all add: cache_wf_def cache_view_def[abs_def] lock_def unlock_def drift_def)

lemma cache_view_Some:
  "store c = Some h \<Longrightarrow> items_ok h (items c) n \<Longrightarrow> cache_view c k = Some it \<longleftrightarrow> (\<exists>i. table_view h k = Some i \<and> items c i = Some it)"
  by (auto simp: cache_view_def bind_eq_Some_conv)

lemma cache_view_None: "store c = Some h \<Longrightarrow> items_ok h (items c) n \<Longrightarrow> cache_view c k = None \<longleftrightarrow> table_view h k = None"
  using items_okD [of h "items c" n k] by (cases "table_view h k") (auto simp: cache_view_def)

lemma cache_dom: "store c = Some h \<Longrightarrow> items_ok h (items c) n \<Longrightarrow> dom (cache_view c) = dom (table_view h)"
  using cache_view_None [of c h n] by (auto simp: dom_def)

lemma cache_finite: "cache_wf c \<Longrightarrow> finite (dom (cache_view c))"
  using cache_dom plain.finite_law by (fastforce simp: cache_wf_def)

lemma view_data: "cache_wf c \<Longrightarrow> cache_view c k = Some it \<Longrightarrow> item_key it = k \<and> (\<exists>d. item_data it = Some d)"
  using items_okD [of _ "items c" "free_item c" k] by (fastforce simp: cache_wf_def cache_view_def bind_eq_Some_conv)

text \<open>Looking up an item.\<close>

lemma lookup_item_ok:
  assumes "cache_wf c" and "c_string k"
  obtains r h1 where "lookup_item (\<lambda>_. True) k c = Some (r, c\<lparr>store := Some h1\<rparr>)" "cache_wf (c\<lparr>store := Some h1\<rparr>)" "cache_view (c\<lparr>store := Some h1\<rparr>) = cache_view c"
    "table_view h1 k = r" "Option.bind r (items c) = cache_view c k" "r = None \<longleftrightarrow> cache_view c k = None"
proof -
  obtain h where h: "store c = Some h" "plain_table h" "items_ok h (items c) (free_item c)" using assms(1) by (auto simp: cache_wf_def)
  obtain h1 where l: "mprLookupKey (\<lambda>_. True) h k = Some (table_view h k, h1)" "plain_table h1" "table_view h1 = table_view h"
    using plain.lookup_law [OF h(2) assms(2)] by blast
  have v: "cache_view (c\<lparr>store := Some h1\<rparr>) = cache_view c" using h(1) l(3) by (simp add: cache_view_def fun_eq_iff)
  have "items_ok h1 (items c) (free_item c)" using h(3) l(3) by (simp add: items_ok_def)
  with v l(2) assms(1) have "cache_wf (c\<lparr>store := Some h1\<rparr>)" by (simp add: cache_wf_def)
  moreover have "lookup_item (\<lambda>_. True) k c = Some (table_view h k, c\<lparr>store := Some h1\<rparr>)" using h(1) l(1) assms(2) by (simp add: lookup_item_def)
  moreover have "Option.bind (table_view h k) (items c) = cache_view c k" using h(1) by (simp add: cache_view_def)
  ultimately show ?thesis using that [of "table_view h k" h1] v l(3) cache_view_None [OF h(1,3)] by simp
qed

text \<open>Changing the item of a key, with the memory count.\<close>

lemma set_item_ok:
  assumes wf: "cache_wf c" and h: "store c = Some h" "table_view h k = Some i" "items c i = Some it" and it': "item_key it' = k" "item_data it' \<noteq> None"
    and same: "store c' = store c" "items c' = (items c)(i \<mapsto> it')" "free_item c' = free_item c" "usedMem c' = usedMem c - weight k it + weight k it'"
  shows "cache_wf c'" and "cache_view c' = (cache_view c)(k \<mapsto> it')" and "drift c' = drift c"
proof -
  have p: "plain_table h" "items_ok h (items c) (free_item c)" using wf h(1) by (auto simp: cache_wf_def)
  have only: "k' = k" if "table_view h k' = Some i" for k' 
  proof -
    have "item_key it = k'" using items_okD [OF p(2) that] h(3) by auto
    moreover have "item_key it = k" using items_okD [OF p(2) h(2)] h(3) by auto
    ultimately show ?thesis by simp
  qed
  have "items_ok h ((items c)(i \<mapsto> it')) (free_item c)"
    unfolding items_ok_def
  proof (intro allI impI)
    fix k' j assume j: "table_view h k' = Some j"
    show "j < free_item c \<and> (\<exists>it. ((items c)(i \<mapsto> it')) j = Some it \<and> item_key it = k' \<and> item_data it \<noteq> None)"
      using items_okD [OF p(2) j] only [of k'] it' j by (cases "j = i") auto
  qed
  moreover show v: "cache_view c' = (cache_view c)(k \<mapsto> it')"
  proof
    fix k' show "cache_view c' k' = ((cache_view c)(k \<mapsto> it')) k'"

    proof (cases "k' = k")
      case True
      then show ?thesis using h same(1,2) by (simp add: cache_view_def)
    next
      case False
      then have "table_view h k' \<noteq> Some i" using only by blast
      then show ?thesis using h(1) same(1,2) False by (cases "table_view h k'") (simp_all add: cache_view_def)
    qed
  qed
  moreover have "cache_view c k = Some it" using h by (simp add: cache_view_def)
  ultimately show "cache_wf c'" "drift c' = drift c"
    using p(1) h(1) same map_weight_update [OF cache_finite [OF wf], of weight k it'] by (simp_all add: cache_wf_def drift_def)
qed

text \<open>Removing a key, with the memory count.\<close>

lemma remove_key_ok:
  assumes wf: "cache_wf c" and k: "c_string k" and h: "store c = Some h" "table_view h k = Some i" "items c i = Some it"
  obtains n h1 where "mprRemoveKey (\<lambda>_. True) h k = Some (n, h1)" "cache_wf (c\<lparr>store := Some h1, usedMem := usedMem c - weight k it\<rparr>)"
    "cache_view (c\<lparr>store := Some h1, usedMem := usedMem c - weight k it\<rparr>) = (cache_view c)(k := None)"
    "drift (c\<lparr>store := Some h1, usedMem := usedMem c - weight k it\<rparr>) = drift c"
proof -
  have p: "plain_table h" "items_ok h (items c) (free_item c)" using wf h(1) by (auto simp: cache_wf_def)
  obtain n h1 where r: "mprRemoveKey (\<lambda>_. True) h k = Some (n, h1)" "plain_table h1" "table_view h1 = (table_view h)(k := None)"
    using plain.remove_law [OF p(1) k] by auto
  have v: "cache_view (c\<lparr>store := Some h1, usedMem := usedMem c - weight k it\<rparr>) = (cache_view c)(k := None)"
    using h(1) r(3) by (auto simp: cache_view_def fun_eq_iff)
  have "cache_view c k = Some it" using h by (simp add: cache_view_def)
  moreover have "items_ok h1 (items c) (free_item c)" using p(2) r(3) by (auto simp: items_ok_def)
  ultimately have "cache_wf (c\<lparr>store := Some h1, usedMem := usedMem c - weight k it\<rparr>)" "drift (c\<lparr>store := Some h1, usedMem := usedMem c - weight k it\<rparr>) = drift c"
    using v r(2) map_weight_remove [OF cache_finite [OF wf], of weight k] by (simp_all add: cache_wf_def drift_def)
  then show ?thesis using that [OF r(1) _ v] by simp
qed

lemma item_size_weight: "item_key it = k \<Longrightarrow> item_data it = Some d \<Longrightarrow> item_size it = Some (weight k it)"
  by (simp add: item_size_def weight_def)

section \<open>Specification\<close>

text \<open>
  What a cache does: a map from keys to items, and the limits. It also says how often the lock is held after the call, and what the
  memory count is off by. Additions to a key that is there leave the lock, and increments of a key that is not there move the count.
\<close>

record abs_cache =
  abs_items :: "string \<Rightarrow> cache_item option"
  abs_lifespan :: int
  abs_keys :: int
  abs_memory :: int
  abs_resolution :: int
  abs_drift :: int
  abs_held :: nat

definition abs_of :: "local_cache \<Rightarrow> abs_cache" where
  "abs_of c = \<lparr>abs_items = cache_view c, abs_lifespan = lifespan c, abs_keys = maxKeys c, abs_memory = maxMem c, abs_resolution = resolution c,
     abs_drift = drift c, abs_held = locks c\<rparr>"

datatype cache_call =
    Read string bool int
  | Write string string "write_options option" int
  | Remove "string option"
  | Expire string "int option"
  | Inc string int int
  | SetLimits limit_options
  | Limits

definition put_abs :: "string \<Rightarrow> cache_item option \<Rightarrow> abs_cache \<Rightarrow> abs_cache" where
  "put_abs k it s = s\<lparr>abs_items := (abs_items s)(k := it)\<rparr>"

definition options_of :: "write_options option \<Rightarrow> write_options" where
  "options_of w = (case w of None \<Rightarrow> no_options | Some o' \<Rightarrow> o')"

definition life_of :: "write_options option \<Rightarrow> abs_cache \<Rightarrow> int" where
  "life_of w s = (case w_lifespan (options_of w) of None \<Rightarrow> abs_lifespan s | Some v \<Rightarrow> v * TPS)"

definition outdated :: "write_options option \<Rightarrow> cache_item \<Rightarrow> bool" where
  "outdated w it \<longleftrightarrow> (\<exists>v. w_version (options_of w) = Some v \<and> item_version it \<noteq> v)"

fun joined :: "mode \<Rightarrow> string \<Rightarrow> string \<Rightarrow> string" where
  "joined AppendMode v d = d @ v"
| "joined PrependMode v d = v @ d"
| "joined OtherMode v d = d"
| "joined _ v d = v"

definition written :: "int \<Rightarrow> write_options option \<Rightarrow> string \<Rightarrow> abs_cache \<Rightarrow> cache_item \<Rightarrow> cache_item" where
  "written now w d s it =
     (let it1 = stamp_item now (case w_expires (options_of w) of None \<Rightarrow> 0 | Some t \<Rightarrow> t) (life_of w s) (it\<lparr>item_data := Some d\<rparr>)
      in it1\<lparr>item_version := item_version it + 1\<rparr>)"

fun cache_spec :: "cache_call \<Rightarrow> abs_cache \<Rightarrow> cache_result \<times> abs_cache" where
  "cache_spec (Read k ver now) s =
     (Returned (case abs_items s k of
                  None \<Rightarrow> CNull
                | Some it \<Rightarrow> if expired now it then CNull
                             else if ver then CVersioned (item_version it) (the (item_data it)) else CString (the (item_data it))), s)"
| "cache_spec (Write k v w now) s =
     (case abs_items s k of
        None \<Rightarrow> (Returned (CNumber (int (length k) + int (length v))), put_abs k (Some (written now w v s (blank_item\<lparr>item_key := k\<rparr>))) s)
      | Some it \<Rightarrow>
          if outdated w it then (if w_throw (options_of w) then Threw StateError else Returned CNull, s)
          else if write_mode (w_mode (options_of w)) = AddMode then (Returned CNull, s\<lparr>abs_held := Suc (abs_held s)\<rparr>)
          else let d = joined (write_mode (w_mode (options_of w))) v (the (item_data it))
               in (Returned (CNumber (int (length k) + int (length d))), put_abs k (Some (written now w d s it)) s))"
| "cache_spec (Remove None) s = (Returned (CBool (abs_items s \<noteq> Map.empty)), s\<lparr>abs_items := Map.empty, abs_drift := 0\<rparr>)"
| "cache_spec (Remove (Some k)) s = (Returned (CBool (abs_items s k \<noteq> None)), put_abs k None s)"
| "cache_spec (Expire k t) s =
     (case abs_items s k of
        None \<Rightarrow> (Returned (CBool False), s)
      | Some it \<Rightarrow> (Returned (CBool True), put_abs k (map_option (\<lambda>t. it\<lparr>item_lifespan := 0, item_expires := t\<rparr>) t) s))"
| "cache_spec (Inc k n now) s =
     (case abs_items s k of
        None \<Rightarrow> (Returned (CString (the (the (itos n)))), s\<lparr>abs_drift := abs_drift s + int (length (the (the (itos n))))\<rparr>)
      | Some it \<Rightarrow>
          let d = the (the (itos (n + the (stoi (c_str (the (item_data it)))))))
          in (Returned (CString d), put_abs k (Some (it\<lparr>item_data := Some d, item_expires := now + item_lifespan it, item_version := item_version it + 1\<rparr>)) s))"
| "cache_spec (SetLimits l) s =
     (Returned CUndefined,
      s\<lparr>abs_keys := limit_or MAXSSIZE (opt_keys l) (abs_keys s), abs_lifespan := (case opt_lifespan l of None \<Rightarrow> abs_lifespan s | Some v \<Rightarrow> v * TPS),
        abs_memory := limit_or MAXSSIZE (opt_memory l) (abs_memory s), abs_resolution := limit_or CACHE_TIMER_PERIOD (opt_resolution l) (abs_resolution s)\<rparr>)"
| "cache_spec Limits s =
     (Returned (CLimits (if abs_keys s = MAXSSIZE then 0 else abs_keys s) (abs_lifespan s sdiv TPS) (if abs_memory s = MAXSSIZE then 0 else abs_memory s)), s)"

text \<open>
  The calls that it speaks of: keys without a null character, life spans that fit, and increments of a number whose sum can be printed.
\<close>

fun cache_valid :: "cache_call \<Rightarrow> abs_cache \<Rightarrow> bool" where
  "cache_valid (Read k _ _) s \<longleftrightarrow> c_string k"
| "cache_valid (Write k v w now) s \<longleftrightarrow> c_string k \<and> (\<forall>n \<in> set_option (w_lifespan (options_of w)). in_int64 (n * TPS))"
| "cache_valid (Remove k) s \<longleftrightarrow> (\<forall>x \<in> set_option k. c_string x)"
| "cache_valid (Expire k _) s \<longleftrightarrow> c_string k"
| "cache_valid (Inc k n now) s \<longleftrightarrow> c_string k
     \<and> (case abs_items s k of None \<Rightarrow> in_int64 n \<and> n \<noteq> - (2 ^ 63)
        | Some it \<Rightarrow> (case stoi (c_str (the (item_data it))) of None \<Rightarrow> False | Some v \<Rightarrow> in_int64 (n + v) \<and> n + v \<noteq> - (2 ^ 63)))"
| "cache_valid (SetLimits l) s \<longleftrightarrow> (\<forall>n \<in> set_option (opt_lifespan l). in_int64 (n * TPS))"
| "cache_valid Limits s \<longleftrightarrow> True"

fun cache_run :: "cache_call \<Rightarrow> local_cache \<Rightarrow> cache_result cache_step" where
  "cache_run (Read k ver now) c = read_body (\<lambda>_. True) now k ver c"
| "cache_run (Write k v w now) c = write_body (\<lambda>_. True) now k v w c"
| "cache_run (Remove k) c = remove_body (\<lambda>_. True) k c"
| "cache_run (Expire k t) c = expire_body (\<lambda>_. True) k t c"
| "cache_run (Inc k n now) c = inc_body (\<lambda>_. True) now k n c"
| "cache_run (SetLimits l) c = setLimits_body l c"
| "cache_run Limits c = limits_body c"

text \<open>A call on the object at an address.\<close>

fun world_run :: "nat \<Rightarrow> cache_call \<Rightarrow> cache_world \<Rightarrow> (cache_result \<times> cache_world) option" where
  "world_run a (Read k ver now) w = sl_read (\<lambda>_. True) now k ver a w"
| "world_run a (Write k v opts now) w = sl_write (\<lambda>_. True) now k v opts a w"
| "world_run a (Remove k) w = sl_remove (\<lambda>_. True) k a w"
| "world_run a (Expire k t) w = sl_expire (\<lambda>_. True) k t a w"
| "world_run a (Inc k n now) w = sl_inc (\<lambda>_. True) now k n a w"
| "world_run a (SetLimits l) w = sl_setLimits l a w"
| "world_run a Limits w = sl_limits a w"

lemma world_run_body: "world_run a call w = Option.bind (redirect a w) (\<lambda>b. call_body (cache_run call) b w)"
  by (cases call) (simp_all add: call_body_def sl_read_def sl_write_def sl_remove_def sl_expire_def sl_inc_def sl_setLimits_def sl_limits_def)

section \<open>The methods implement it\<close>

definition implements :: "cache_call \<Rightarrow> local_cache \<Rightarrow> bool" where
  "implements call c \<longleftrightarrow> (\<exists>c'. cache_run call c = Some (fst (cache_spec call (abs_of c)), c') \<and> cache_wf c' \<and> abs_of c' = snd (cache_spec call (abs_of c)))"

lemma implementsI: "cache_run call c = Some (fst (cache_spec call (abs_of c)), c') \<Longrightarrow> cache_wf c' \<Longrightarrow> abs_of c' = snd (cache_spec call (abs_of c)) \<Longrightarrow> implements call c"
  unfolding implements_def by blast

lemma abs_of_simps [simp]: "abs_items (abs_of c) = cache_view c" "abs_lifespan (abs_of c) = lifespan c" "abs_held (abs_of c) = locks c" "abs_drift (abs_of c) = drift c"
  by (simp_all add: abs_of_def)

lemma abs_of_change:
  "cache_view d = cache_view c \<Longrightarrow> lifespan d = lifespan c \<Longrightarrow> maxKeys d = maxKeys c \<Longrightarrow> maxMem d = maxMem c \<Longrightarrow> resolution d = resolution c
    \<Longrightarrow> drift d = drift c \<Longrightarrow> locks d = locks c \<Longrightarrow> abs_of d = abs_of c"
  "cache_view d = (cache_view c)(k := it) \<Longrightarrow> lifespan d = lifespan c \<Longrightarrow> maxKeys d = maxKeys c \<Longrightarrow> maxMem d = maxMem c \<Longrightarrow> resolution d = resolution c
    \<Longrightarrow> drift d = drift c \<Longrightarrow> locks d = locks c \<Longrightarrow> abs_of d = put_abs k it (abs_of c)"
  by (simp_all add: abs_of_def put_abs_def)

lemma lock_limits [simp]:
  "maxKeys (lock c) = maxKeys c" "maxMem (lock c) = maxMem c" "resolution (lock c) = resolution c" "usedMem (lock c) = usedMem c"
  by (simp_all add: lock_def)

lemma same_drift: "cache_view d = cache_view c \<Longrightarrow> usedMem d = usedMem c \<Longrightarrow> drift d = drift c"
  by (simp add: drift_def)

text \<open>Every method that takes the lock looks its key up first.\<close>

lemma locked_lookup:
  assumes "cache_wf c" and "c_string k"
  obtains r c1 h1 where "lookup_item (\<lambda>_. True) k (lock c) = Some (r, c1)" "cache_wf c1" "locks c1 = Suc (locks c)" "cache_view c1 = cache_view c" "cache_wf (unlock c1)" "abs_of (unlock c1) = abs_of c"
    "store c1 = Some h1" "table_view h1 k = r" "free_item c1 = free_item c" "usedMem c1 = usedMem c"
    "r = None \<Longrightarrow> cache_view c k = None"
    "\<And>i. r = Some i \<Longrightarrow> \<exists>it d. items c1 i = Some it \<and> cache_view c k = Some it \<and> item_key it = k \<and> item_data it = Some d"
proof -
  have wf: "cache_wf (lock c)" using assms(1) by simp
  obtain r h1 where l: "lookup_item (\<lambda>_. True) k (lock c) = Some (r, (lock c)\<lparr>store := Some h1\<rparr>)" "cache_wf ((lock c)\<lparr>store := Some h1\<rparr>)"
    "cache_view ((lock c)\<lparr>store := Some h1\<rparr>) = cache_view (lock c)" "table_view h1 k = r" "Option.bind r (items (lock c)) = cache_view (lock c) k"
    "r = None \<longleftrightarrow> cache_view (lock c) k = None" by (rule lookup_item_ok [OF wf assms(2)])
  let ?c = "(lock c)\<lparr>store := Some h1\<rparr>"
  have item: "\<exists>it d. items ?c i = Some it \<and> cache_view c k = Some it \<and> item_key it = k \<and> item_data it = Some d" if i: "r = Some i" for i
  proof -
    obtain it where it: "items c i = Some it" "cache_view c k = Some it" using l(5,6) i by (cases "items c i") auto
    with view_data [of c k it] assms(1) show ?thesis by auto
  qed
  have "drift ?c = drift c" using l(3) by (intro same_drift) simp_all
  then have a: "abs_of (unlock ?c) = abs_of c" using l(3) by (intro abs_of_change(1)) simp_all
  show ?thesis using that [of r ?c h1] l(1-4,6) item a by auto
qed

lemma read_ok:
  assumes "cache_wf c" and "c_string k"
  shows "implements (Read k ver now) c"
proof (rule locked_lookup [OF assms])
  fix r c1 h1
  assume l: "lookup_item (\<lambda>_. True) k (lock c) = Some (r, c1)" "cache_wf c1" "abs_of (unlock c1) = abs_of c" "r = None \<Longrightarrow> cache_view c k = None"
    and i: "\<And>i. r = Some i \<Longrightarrow> \<exists>it d. items c1 i = Some it \<and> cache_view c k = Some it \<and> item_key it = k \<and> item_data it = Some d"
  have "cache_run (Read k ver now) c = Some (fst (cache_spec (Read k ver now) (abs_of c)), unlock c1)"
    using l(1,4) i by (cases r) (auto simp: read_body_def)
  then show ?thesis using l(2,3) by (intro implementsI [where c' = "unlock c1"]) simp_all
qed

lemma removeItem_ok:
  assumes "cache_wf c" and "c_string k" and h: "store c = Some h" "table_view h k = Some i" "items c i = Some it"
  shows "\<exists>c1 n h1. removeItem (\<lambda>_. True) i c = Some c1 \<and> cache_wf c1 \<and> cache_view c1 = (cache_view c)(k := None) \<and> locks c1 = locks c
     \<and> drift c1 = drift c \<and> mprRemoveKey (\<lambda>_. True) h k = Some (n, h1) \<and> c1 = c\<lparr>store := Some h1, usedMem := usedMem c - weight k it\<rparr>"
proof -
  have v: "cache_view c k = Some it" using h by (simp add: cache_view_def)
  obtain d where it: "item_key it = k" "item_data it = Some d" using view_data [OF assms(1) v] by auto
  obtain n h1 where r: "mprRemoveKey (\<lambda>_. True) h k = Some (n, h1)" "cache_wf (c\<lparr>store := Some h1, usedMem := usedMem c - weight k it\<rparr>)"
    "cache_view (c\<lparr>store := Some h1, usedMem := usedMem c - weight k it\<rparr>) = (cache_view c)(k := None)"
    "drift (c\<lparr>store := Some h1, usedMem := usedMem c - weight k it\<rparr>) = drift c" by (rule remove_key_ok [OF assms])
  let ?c = "c\<lparr>store := Some h1, usedMem := usedMem c - weight k it\<rparr>"
  have e: "unlock ((lock c)\<lparr>store := Some h1, usedMem := usedMem c - weight k it\<rparr>) = ?c" by (simp add: lock_def unlock_def)
  have "removeItem (\<lambda>_. True) i c = Some ?c"
    using h r(1) it assms(2) e by (simp add: removeItem_def item_size_weight [OF it])
  then show ?thesis using r by (intro exI [of _ ?c] exI [of _ n] exI [of _ h1]) simp
qed

lemma put_abs_twice [simp]: "put_abs k x (put_abs k y s) = put_abs k x s"
  by (simp add: put_abs_def)

lemma expire_ok:
  assumes "cache_wf c" and k: "c_string k"
  shows "implements (Expire k t) c"
proof (rule locked_lookup [OF assms])
  fix r c1 h1
  assume l: "lookup_item (\<lambda>_. True) k (lock c) = Some (r, c1)" "cache_wf c1" "locks c1 = Suc (locks c)" "cache_view c1 = cache_view c" "cache_wf (unlock c1)" "abs_of (unlock c1) = abs_of c"
    "store c1 = Some h1" "table_view h1 k = r" "r = None \<Longrightarrow> cache_view c k = None"
    and i: "\<And>i. r = Some i \<Longrightarrow> \<exists>it d. items c1 i = Some it \<and> cache_view c k = Some it \<and> item_key it = k \<and> item_data it = Some d"
  show ?thesis
  proof (cases r)
    case None
    with l have "cache_run (Expire k t) c = Some (fst (cache_spec (Expire k t) (abs_of c)), unlock c1)" "abs_of (unlock c1) = snd (cache_spec (Expire k t) (abs_of c))"
      by (simp_all add: expire_body_def)
    then show ?thesis using l(5) by (intro implementsI [where c' = "unlock c1"])
  next
    case (Some i')
    obtain it d where it: "items c1 i' = Some it" "cache_view c k = Some it" "item_key it = k" "item_data it = Some d" using i [OF Some] by (elim exE conjE)
    have tv: "table_view h1 k = Some i'" using l(8) Some by simp
    show ?thesis
    proof (cases t)
      case (Some t')
      let ?it = "it\<lparr>item_lifespan := 0, item_expires := t'\<rparr>"
      let ?c = "set_item i' ?it (set_item i' (it\<lparr>item_lifespan := 0\<rparr>) c1)"
      have c: "cache_wf ?c" "cache_view ?c = (cache_view c1)(k \<mapsto> ?it)" "drift ?c = drift c1"
        using set_item_ok [OF l(2,7) tv it(1), of ?it ?c] it(3,4) by (simp_all add: set_item_def weight_def)
      have "cache_run (Expire k t) c = Some (fst (cache_spec (Expire k t) (abs_of c)), unlock ?c)"
        using l(1) \<open>r = Some i'\<close> it Some by (simp add: expire_body_def)
      moreover have "cache_wf (unlock ?c)" using c(1) by simp
      moreover have "abs_of (unlock ?c) = put_abs k (Some ?it) (abs_of (unlock c1))" using c(2,3) by (intro abs_of_change(2)) (simp_all add: set_item_def)
      then have "abs_of (unlock ?c) = snd (cache_spec (Expire k t) (abs_of c))" using l(6) it(2) Some by simp
      ultimately show ?thesis by (rule implementsI)
    next
      case None
      let ?it = "it\<lparr>item_lifespan := 0\<rparr>"
      let ?c = "set_item i' ?it c1"
      have c: "cache_wf ?c" "cache_view ?c = (cache_view c1)(k \<mapsto> ?it)" "drift ?c = drift c1"
        using set_item_ok [OF l(2,7) tv it(1), of ?it ?c] it(3,4) by (simp_all add: set_item_def weight_def)
      have sc: "store ?c = Some h1" "items ?c i' = Some ?it" using l(7) by (simp_all add: set_item_def)
      obtain c2 where r: "removeItem (\<lambda>_. True) i' ?c = Some c2" "cache_wf c2" "locks c2 = locks ?c" "cache_view c2 = (cache_view ?c)(k := None)"
        "drift c2 = drift ?c" "lifespan c2 = lifespan ?c" "maxKeys c2 = maxKeys ?c" "maxMem c2 = maxMem ?c" "resolution c2 = resolution ?c"
        using removeItem_ok [OF c(1) k sc(1) tv sc(2)] by (elim exE conjE) (rule that, assumption+, simp_all)
      have "abs_of (unlock c2) = put_abs k None (abs_of (unlock c1))" using r(3-9) c(2,3) by (intro abs_of_change(2)) (simp_all add: set_item_def)
      then have "abs_of (unlock c2) = snd (cache_spec (Expire k t) (abs_of c))" using l(6) it(2) None by simp
      moreover have "cache_run (Expire k t) c = Some (fst (cache_spec (Expire k t) (abs_of c)), unlock c2)"
        using l(1) \<open>r = Some i'\<close> it None r(1) by (simp add: expire_body_def)
      moreover have "cache_wf (unlock c2)" using r(2) by simp
      ultimately show ?thesis by (intro implementsI)
    qed
  qed
qed

lemma remove_one_ok:
  assumes "cache_wf c" and k: "c_string k"
  shows "implements (Remove (Some k)) c"
proof (rule locked_lookup [OF assms])
  fix r c1 h1
  assume l: "lookup_item (\<lambda>_. True) k (lock c) = Some (r, c1)" "cache_wf c1" "locks c1 = Suc (locks c)" "cache_view c1 = cache_view c" "cache_wf (unlock c1)" "abs_of (unlock c1) = abs_of c"
    "store c1 = Some h1" "table_view h1 k = r" "r = None \<Longrightarrow> cache_view c k = None"
    and i: "\<And>i. r = Some i \<Longrightarrow> \<exists>it d. items c1 i = Some it \<and> cache_view c k = Some it \<and> item_key it = k \<and> item_data it = Some d"
  show ?thesis
  proof (cases r)
    case None
    then have v: "cache_view c k = None" using l(9) by simp
    then have "put_abs k None (abs_of c) = abs_of c" by (simp add: put_abs_def abs_of_def fun_upd_idem)
    with None l v show ?thesis by (intro implementsI [where c' = "unlock c1"]) (simp_all add: remove_body_def)
  next
    case (Some i')
    obtain it d where it: "items c1 i' = Some it" "cache_view c k = Some it" "item_key it = k" "item_data it = Some d" using i [OF Some] by (elim exE conjE)
    have tv: "table_view h1 k = Some i'" using l(8) Some by simp
    obtain n h2 where r: "mprRemoveKey (\<lambda>_. True) h1 k = Some (n, h2)" "cache_wf (c1\<lparr>store := Some h2, usedMem := usedMem c1 - weight k it\<rparr>)"
      "cache_view (c1\<lparr>store := Some h2, usedMem := usedMem c1 - weight k it\<rparr>) = (cache_view c1)(k := None)"
      "drift (c1\<lparr>store := Some h2, usedMem := usedMem c1 - weight k it\<rparr>) = drift c1" by (rule remove_key_ok [OF l(2) k l(7) tv it(1)])
    let ?c = "c1\<lparr>store := Some h2, usedMem := usedMem c1 - weight k it\<rparr>"
    have e: "c1\<lparr>usedMem := usedMem c1 - (int (length k) + int (length d)), store := Some h2\<rparr> = ?c" using it(4) by (simp add: weight_def)
    have "cache_run (Remove (Some k)) c = Some (fst (cache_spec (Remove (Some k)) (abs_of c)), unlock ?c)"
      using l(1,7) Some it r(1) k e by (simp add: remove_body_def)
    moreover have "cache_wf (unlock ?c)" using r(2) by simp
    moreover have "abs_of (unlock ?c) = put_abs k None (abs_of (unlock c1))" using r(3,4) by (intro abs_of_change(2)) simp_all
    ultimately show ?thesis using l(6) by (intro implementsI [where c' = "unlock ?c"]) simp_all
  qed
qed

lemma remove_all_ok:
  assumes "cache_wf c"
  shows "implements (Remove None) c"
proof -
  obtain h where h: "store c = Some h" "plain_table h" "items_ok h (items c) (free_item c)" using assms by (auto simp: cache_wf_def)
  obtain e :: "nat mpr_hash" where e: "mprCreateHash (\<lambda>_. True) CACHE_HASH_SIZE 0 = Some e" "plain_table e" "table_view e = Map.empty" using plain_create [of "\<lambda>_. True"] by blast
  let ?c = "unlock ((lock c)\<lparr>store := Some e, usedMem := 0\<rparr>)"
  have v: "cache_view ?c = Map.empty" using e(3) by (simp add: cache_view_def fun_eq_iff)
  have "cache_wf ((lock c)\<lparr>store := Some e, usedMem := 0\<rparr>)" using v e(2,3) by (simp add: cache_wf_def items_ok_def)
  then have wf: "cache_wf ?c" by simp
  have "mprGetHashLength h = 0 \<longleftrightarrow> cache_view c = Map.empty" using plain.count_zero [OF h(2)] cache_dom [OF h(1,3)] by (metis dom_eq_empty_conv)
  then have "cache_run (Remove None) c = Some (fst (cache_spec (Remove None) (abs_of c)), ?c)" using h(1) e(1) by (simp add: remove_body_def)
  moreover have "drift ?c = 0" using v by (simp add: drift_def map_weight_def)
  then have "abs_of ?c = snd (cache_spec (Remove None) (abs_of c))" using v by (simp add: abs_of_def)
  ultimately show ?thesis using wf by (intro implementsI)
qed

lemma inc_ok:
  assumes "cache_wf c" and k: "c_string k" and v: "cache_valid (Inc k n now) (abs_of c)"
  shows "implements (Inc k n now) c"
proof (rule locked_lookup [OF assms(1,2)])
  fix r c1 h1
  assume l: "lookup_item (\<lambda>_. True) k (lock c) = Some (r, c1)" "cache_wf c1" "locks c1 = Suc (locks c)" "cache_view c1 = cache_view c" "abs_of (unlock c1) = abs_of c"
    "store c1 = Some h1" "table_view h1 k = r" "r = None \<Longrightarrow> cache_view c k = None"
    and i: "\<And>i. r = Some i \<Longrightarrow> \<exists>it d. items c1 i = Some it \<and> cache_view c k = Some it \<and> item_key it = k \<and> item_data it = Some d"
  show ?thesis
  proof (cases r)
    case None
    have x: "cache_view c k = None" "in_int64 n" "n \<noteq> - (2 ^ 63)" using l(8) None v by simp_all
    obtain s where s: "itos n = Some (Some s)" using number_string [of 10 n] x(2,3) by (auto simp: itos_def)
    define it1 where "it1 = blank_item\<lparr>item_data := Some s, item_expires := now, item_version := 1\<rparr>"
    let ?c = "set_item (free_item c1) it1 (c1\<lparr>free_item := Suc (free_item c1), usedMem := usedMem c1 + int (length s)\<rparr>)"
    have run: "cache_run (Inc k n now) c = Some (Returned (CString s), unlock ?c)"
      using l(1) None s by (simp add: inc_body_def it1_def blank_item_def set_item_def)
    have p: "plain_table h1" "items_ok h1 (items c1) (free_item c1)" using l(2,6) by (auto simp: cache_wf_def)
    have "items_ok h1 ((items c1)(free_item c1 \<mapsto> it1)) (Suc (free_item c1))" using p(2) unfolding items_ok_def by (metis fun_upd_other less_SucI less_irrefl)
    then have wf: "cache_wf ?c" using l(6) p(1) by (simp add: cache_wf_def set_item_def)
    have view: "cache_view ?c = cache_view c1"
    proof
      fix k' show "cache_view ?c k' = cache_view c1 k'"
        using items_okD [OF p(2), of k'] l(6) by (cases "table_view h1 k'") (auto simp: cache_view_def set_item_def)
    qed
    have u: "usedMem ?c = usedMem c1 + int (length s)" by (simp add: set_item_def)
    have "drift ?c = drift c1 + int (length s)" by (simp only: drift_def view u)
    then have "abs_of (unlock ?c) = (abs_of (unlock c1))\<lparr>abs_drift := abs_drift (abs_of (unlock c1)) + int (length s)\<rparr>"
      using view by (simp add: abs_of_def set_item_def)
    then show ?thesis using run l(5) x(1) s wf by (intro implementsI [where c' = "unlock ?c"]) simp_all
  next
    case (Some i')
    obtain it d where it: "items c1 i' = Some it" "cache_view c k = Some it" "item_key it = k" "item_data it = Some d" using i [OF Some] by (elim exE conjE)
    obtain x where x: "stoi (c_str d) = Some x" "in_int64 (n + x)" "n + x \<noteq> - (2 ^ 63)" using v it(2,4) by (auto split: option.splits)
    obtain s where s: "itos (n + x) = Some (Some s)" using number_string [of 10 "n + x"] x(2,3) by (auto simp: itos_def)
    let ?it = "it\<lparr>item_data := Some s, item_expires := now + item_lifespan it, item_version := item_version it + 1\<rparr>"
    let ?c = "set_item i' ?it (c1\<lparr>usedMem := usedMem c1 - int (length d) + int (length s)\<rparr>)"
    have tv: "table_view h1 k = Some i'" using l(7) Some by simp
    have c: "cache_wf ?c" "cache_view ?c = (cache_view c1)(k \<mapsto> ?it)" "drift ?c = drift c1"
      using set_item_ok [OF l(2,6) tv it(1), of ?it ?c] it(3,4) by (simp_all add: set_item_def weight_def)
    have run: "cache_run (Inc k n now) c = Some (Returned (CString s), unlock ?c)" using l(1) Some it x s by (simp add: inc_body_def check_int64_def)
    have spec: "cache_spec (Inc k n now) (abs_of c) = (Returned (CString s), put_abs k (Some ?it) (abs_of c))" using it(2,4) x(1) s by simp
    have "abs_of (unlock ?c) = put_abs k (Some ?it) (abs_of (unlock c1))" using c(2,3) by (intro abs_of_change(2)) (simp_all add: set_item_def)
    then show ?thesis using run spec l(5) c(1) by (intro implementsI [where c' = "unlock ?c"]) simp_all
  qed
qed

lemma stamp_simps [simp]:
  "item_data (stamp_item now e l it) = item_data it" "item_key (stamp_item now e l it) = item_key it" "item_version (stamp_item now e l it) = item_version it"
  by (simp_all add: stamp_item_def)

lemma written_simps [simp]: "item_key (written now w d s it) = item_key it" "item_data (written now w d s it) = Some d"
  by (simp_all add: written_def Let_def)

text \<open>A key that is there: the item changes.\<close>

lemma write_old:
  assumes wf: "cache_wf c1" and h: "store c1 = Some h1" "table_view h1 k = Some i" "items c1 i = Some it" and v: "cache_view c1 k = Some it"
    and n: "new_data mode True val it = Some (Some (Some d))" and s: "abs_of (unlock c1) = s"
  shows "\<exists>c2. write_item now mode True (case w_expires (options_of w) of None \<Rightarrow> 0 | Some t \<Rightarrow> t) (life_of w s) val i c1
       = Some (Returned (CNumber (int (length k) + int (length d))), c2) \<and> cache_wf c2 \<and> abs_of c2 = put_abs k (Some (written now w d s it)) s"
proof -
  obtain d0 where it: "item_key it = k" "item_data it = Some d0" using view_data [OF wf v] by auto
  let ?it = "written now w d s it"
  let ?c = "set_item i ?it (c1\<lparr>usedMem := usedMem c1 + (weight k ?it - weight k it), timer := True\<rparr>)"
  have c: "cache_wf ?c" "cache_view ?c = (cache_view c1)(k \<mapsto> ?it)" "drift ?c = drift c1"
    using set_item_ok [OF wf h, of ?it ?c] it by (simp_all add: set_item_def)
  have sz: "item_size it = Some (weight k it)" "item_size ?it = Some (weight k ?it)" "weight k ?it = int (length k) + int (length d)"
    using it by (simp_all add: item_size_def weight_def)
  have "write_item now mode True (case w_expires (options_of w) of None \<Rightarrow> 0 | Some t \<Rightarrow> t) (life_of w s) val i c1
       = Some (Returned (CNumber (int (length k) + int (length d))), unlock ?c)"
    using h(3) n sz by (simp add: write_item_def written_def Let_def)
  moreover have "abs_of (unlock ?c) = put_abs k (Some ?it) (abs_of (unlock c1))" using c(2,3) by (intro abs_of_change(2)) (simp_all add: set_item_def)
  ultimately show ?thesis using c(1) s by (intro exI [of _ "unlock ?c"]) simp
qed

text \<open>A new key: the item is new, and so is the entry of the table.\<close>

lemma write_new:
  assumes wf: "cache_wf c1" and k: "c_string k" and h: "store c1 = Some h1" "table_view h1 k = None" and s: "abs_of (unlock c1) = s"
    and add: "mprAddKey (\<lambda>_. True) h1 k (Some (free_item c1)) = Some (x, h2)" "plain_table h2" "table_view h2 = (table_view h1)(k \<mapsto> free_item c1)"
  shows "\<exists>c2. write_item now SetMode False (case w_expires (options_of w) of None \<Rightarrow> 0 | Some t \<Rightarrow> t) (life_of w s) val (free_item c1)
        ((set_item (free_item c1) (blank_item\<lparr>item_key := k\<rparr>) c1)\<lparr>store := Some h2, free_item := Suc (free_item c1)\<rparr>)
       = Some (Returned (CNumber (int (length k) + int (length val))), c2) \<and> cache_wf c2
     \<and> abs_of c2 = put_abs k (Some (written now w val s (blank_item\<lparr>item_key := k\<rparr>))) s"
proof -
  let ?i = "free_item c1" and ?it = "written now w val s (blank_item\<lparr>item_key := k\<rparr>)"
  let ?base = "(set_item ?i (blank_item\<lparr>item_key := k\<rparr>) c1)\<lparr>store := Some h2, free_item := Suc ?i\<rparr>"
  let ?c = "set_item ?i ?it (?base\<lparr>usedMem := usedMem c1 + weight k ?it, timer := True\<rparr>)"
  have p: "items_ok h1 (items c1) ?i" using wf h(1) by (auto simp: cache_wf_def)
  have io: "items_ok h2 ((items c1)(?i \<mapsto> ?it)) (Suc ?i)"
    unfolding items_ok_def
  proof (intro allI impI)
    fix k' j assume j: "table_view h2 k' = Some j"
    show "j < Suc ?i \<and> (\<exists>it. ((items c1)(?i \<mapsto> ?it)) j = Some it \<and> item_key it = k' \<and> item_data it \<noteq> None)"
    proof (cases "k' = k")
      case True
      with j add(3) show ?thesis by simp
    next
      case False
      then have "table_view h1 k' = Some j" using j add(3) by simp
      then show ?thesis using items_okD [OF p] by fastforce
    qed
  qed
  have v: "cache_view ?c = (cache_view c1)(k \<mapsto> ?it)"
  proof
    fix k' show "cache_view ?c k' = ((cache_view c1)(k \<mapsto> ?it)) k'"
    proof (cases "table_view h1 k'")
      case (Some j)
      then have "j \<noteq> ?i" using items_okD [OF p Some] by auto
      with Some h(1,2) add(3) show ?thesis by (auto simp: cache_view_def set_item_def)
    qed (use h(1) add(3) in \<open>simp add: cache_view_def set_item_def\<close>)
  qed
  have none: "cache_view c1 k = None" using h by (simp add: cache_view_def)
  have u: "usedMem ?c = usedMem c1 + weight k ?it" "store ?c = Some h2" "items ?c = (items c1)(?i \<mapsto> ?it)" "free_item ?c = Suc ?i" by (simp_all add: set_item_def)
  have "map_weight weight (cache_view ?c) = map_weight weight (cache_view c1) + weight k ?it"
    unfolding v using map_weight_update [OF cache_finite [OF wf], of weight k ?it] none by simp
  then have drift: "drift ?c = drift c1" using u(1) by (simp only: drift_def)
  have "cache_wf ?c" using io add(2) u unfolding cache_wf_def by simp
  moreover have "weight k ?it = int (length k) + int (length val)" "item_size ?it = Some (weight k ?it)" by (simp_all add: weight_def item_size_def)
  moreover have "write_item now SetMode False (case w_expires (options_of w) of None \<Rightarrow> 0 | Some t \<Rightarrow> t) (life_of w s) val ?i ?base
       = Some (Returned (CNumber (weight k ?it)), unlock ?c)"
  proof -
    define it0 c0 where "it0 = blank_item\<lparr>item_key := k\<rparr>" and "c0 = (set_item ?i it0 c1)\<lparr>store := Some h2, free_item := Suc ?i\<rparr>"
    have c0: "items c0 ?i = Some it0" "usedMem c0 = usedMem c1" "item_size it0 = None" by (simp_all add: c0_def it0_def set_item_def item_size_def blank_item_def)
    have "item_size (written now w val s it0) = Some (weight k (written now w val s it0))" by (simp add: item_size_def weight_def it0_def)
    with c0 show ?thesis unfolding it0_def [symmetric] c0_def [symmetric] by (simp add: write_item_def new_data_def written_def Let_def)
  qed
  moreover have "abs_of (unlock ?c) = put_abs k (Some ?it) (abs_of (unlock c1))" using v drift by (intro abs_of_change(2)) (simp_all add: set_item_def)
  ultimately show ?thesis using s by (intro exI [of _ "unlock ?c"]) simp
qed

lemma new_data_joined:
  "item_data it = Some d0 \<Longrightarrow> mode \<noteq> AddMode \<Longrightarrow> new_data mode True v it = Some (Some (Some (joined mode v d0)))"
  by (cases mode) (simp_all add: new_data_def)

lemma write_ok:
  assumes ok: "cache_wf c" and v: "cache_valid (Write k val w now) (abs_of c)"
  shows "implements (Write k val w now) c"
proof -
  have k: "c_string k" using v by simp
  obtain h where h: "store c = Some h" "plain_table h" "items_ok h (items c) (free_item c)" using ok by (auto simp: cache_wf_def)
  obtain kp h1 where l: "mprLookupKeyEntry (\<lambda>_. True) h k = Some (kp, h1)" "plain_table h1" "table_view h1 = table_view h"
    "kp = None \<longleftrightarrow> table_view h k = None" "\<forall>a. kp = Some a \<longrightarrow> (\<exists>sp. keys h1 a = Some sp \<and> data sp = table_view h k)"
    using plain_entry [OF h(2) k] by (elim exE conjE)
  define c1 where "c1 = (lock c)\<lparr>store := Some h1\<rparr>"
  have v1: "cache_view c1 = cache_view c" using h(1) l(3) by (simp add: c1_def cache_view_def fun_eq_iff)
  have c1: "cache_wf c1" "locks c1 = Suc (locks c)" "store c1 = Some h1" "items c1 = items c" "free_item c1 = free_item c"
    using ok h l(2,3) v1 by (simp_all add: cache_wf_def items_ok_def c1_def)
  have "drift c1 = drift c" using v1 by (rule same_drift) (simp add: c1_def)
  then have s: "abs_of (unlock c1) = abs_of c" using v1 by (intro abs_of_change(1)) (simp_all add: c1_def)
  have life: "(case w_lifespan (options_of w) of None \<Rightarrow> Some (lifespan c) | Some n \<Rightarrow> check_int64 (n * TPS)) = Some (life_of w (abs_of c))"
    using v by (auto simp: life_of_def check_int64_def split: option.splits)
  let ?e = "case w_expires (options_of w) of None \<Rightarrow> 0 | Some t \<Rightarrow> t"
  show ?thesis
  proof (cases kp)
    case None
    then have t: "table_view h1 k = None" "cache_view c k = None" using l(3,4) h(1) by (simp_all add: cache_view_def)
    obtain x h2 where a: "mprAddKey (\<lambda>_. True) h1 k (Some (free_item c1)) = Some (x, h2)" "plain_table h2" "table_view h2 = (table_view h1)(k \<mapsto> free_item c1)"
      using plain.add_law [OF l(2) k, of "free_item c1"] by auto
    obtain c2 where w: "write_item now SetMode False ?e (life_of w (abs_of c)) val (free_item c1)
        ((set_item (free_item c1) (blank_item\<lparr>item_key := k\<rparr>) c1)\<lparr>store := Some h2, free_item := Suc (free_item c1)\<rparr>)
       = Some (Returned (CNumber (int (length k) + int (length val))), c2)" "cache_wf c2"
      "abs_of c2 = put_abs k (Some (written now w val (abs_of c) (blank_item\<lparr>item_key := k\<rparr>))) (abs_of c)"
      using write_new [OF c1(1) k c1(3) t(1) s a, of now w val] by (elim exE conjE)
    have "cache_run (Write k val w now) c = Some (fst (cache_spec (Write k val w now) (abs_of c)), c2)"
      using None h(1) l(1) k a(1) w(1) life t(2) c1(5) by (simp add: write_body_def options_of_def [symmetric] c1_def [symmetric])
    then show ?thesis using w(2,3) t(2) by (intro implementsI) simp_all
  next
    case (Some a)
    obtain sp i where sp: "keys h1 a = Some sp" "data sp = Some i" "table_view h k = Some i" using l(4,5) Some by (cases "table_view h k") auto
    obtain it d0 where it: "items c i = Some it" "item_key it = k" "item_data it = Some d0" using items_okD [OF h(3) sp(3)] by auto
    have cv: "cache_view c k = Some it" using h(1) sp(3) it(1) by (simp add: cache_view_def)
    have out: "(\<exists>v \<in> set_option (w_version (options_of w)). item_version it \<noteq> v) = outdated w it" by (auto simp: outdated_def)
    show ?thesis
    proof (cases "outdated w it")
      case True
      have "cache_run (Write k val w now) c = Some (fst (cache_spec (Write k val w now) (abs_of c)), unlock c1)"
        using Some h(1) l(1) k sp it(1) life cv True out by (simp add: write_body_def options_of_def [symmetric] c1_def [symmetric] c1(4))
      then show ?thesis using c1(1,2) s cv True by (intro implementsI [where c' = "unlock c1"]) simp_all
    next
      case False
      show ?thesis
      proof (cases "write_mode (w_mode (options_of w)) = AddMode")
        case True
        have "cache_run (Write k val w now) c = Some (fst (cache_spec (Write k val w now) (abs_of c)), c1)"
          using Some h(1) l(1) k sp it(1) life cv True False out
          by (simp add: write_body_def options_of_def [symmetric] c1_def [symmetric] c1(4) write_item_def new_data_def)
        moreover have "abs_of c1 = (abs_of (unlock c1))\<lparr>abs_held := Suc (locks c)\<rparr>" using c1(2) by (simp add: abs_of_def)
        ultimately show ?thesis using c1(1) s cv False True by (intro implementsI [where c' = c1]) simp_all
      next
        case fresh: False
        let ?d = "joined (write_mode (w_mode (options_of w))) val d0"
        have nd: "new_data (write_mode (w_mode (options_of w))) True val it = Some (Some (Some ?d))" using it(3) fresh by (rule new_data_joined)
        have t: "table_view h1 k = Some i" "items c1 i = Some it" "cache_view c1 k = Some it" using sp(3) l(3) c1(4) it(1) v1 cv by simp_all
        obtain c2 where w: "write_item now (write_mode (w_mode (options_of w))) True ?e (life_of w (abs_of c)) val i c1
           = Some (Returned (CNumber (int (length k) + int (length ?d))), c2)" "cache_wf c2" "abs_of c2 = put_abs k (Some (written now w ?d (abs_of c) it)) (abs_of c)"
          using write_old [OF c1(1,3) t nd s, of now w] by (elim exE conjE)
        have "cache_run (Write k val w now) c = Some (fst (cache_spec (Write k val w now) (abs_of c)), c2)"
          using Some h(1) l(1) k sp it(1,3) life cv False out w(1) fresh by (simp add: write_body_def options_of_def [symmetric] c1_def [symmetric] c1(4) Let_def)
        then show ?thesis using w(2,3) cv False it(3) fresh by (intro implementsI) (simp_all add: Let_def)
      qed
    qed
  qed
qed

lemma limits_ok:
  assumes "cache_wf c"
  shows "implements Limits c" and "cache_valid (SetLimits l) (abs_of c) \<Longrightarrow> implements (SetLimits l) c"
proof -
  show "implements Limits c" using assms by (intro implementsI [where c' = c]) (simp_all add: limits_body_def abs_of_def)
  assume v: "cache_valid (SetLimits l) (abs_of c)"
  define life where "life = (case opt_lifespan l of None \<Rightarrow> lifespan c | Some n \<Rightarrow> n * TPS)"
  let ?c = "c\<lparr>maxKeys := limit_or MAXSSIZE (opt_keys l) (maxKeys c), lifespan := life,
                       maxMem := limit_or MAXSSIZE (opt_memory l) (maxMem c), resolution := limit_or CACHE_TIMER_PERIOD (opt_resolution l) (resolution c)\<rparr>"
  have "(case opt_lifespan l of None \<Rightarrow> Some (lifespan c) | Some n \<Rightarrow> check_int64 (n * TPS)) = Some life"
    using v by (auto simp: life_def check_int64_def split: option.splits)
  then have "cache_run (SetLimits l) c = Some (fst (cache_spec (SetLimits l) (abs_of c)), ?c)" by (simp add: setLimits_body_def setLocalLimits_def)
  moreover have view: "cache_view ?c = cache_view c" by (simp add: cache_view_def fun_eq_iff)
  moreover have "cache_wf ?c" "drift ?c = drift c" using assms view by (simp_all add: cache_wf_def drift_def)
  ultimately show "implements (SetLimits l) c" by (intro implementsI [where c' = ?c]) (simp_all add: abs_of_def life_def split: option.split)
qed

interpretation cache_calls: simulation cache_wf abs_of cache_valid cache_run cache_spec
proof unfold_locales
  fix c call
  assume "cache_wf c" "cache_valid call (abs_of c)"
  then have "implements call c"
  proof (cases call)
    case (Remove k)
    with \<open>cache_wf c\<close> \<open>cache_valid call (abs_of c)\<close> show ?thesis by (cases k) (simp_all add: remove_one_ok remove_all_ok)
  qed (simp_all add: read_ok write_ok expire_ok inc_ok limits_ok del: cache_valid.simps, simp_all add: read_ok expire_ok inc_ok)
  then show "\<exists>c'. cache_run call c = Some (fst (cache_spec call (abs_of c)), c') \<and> cache_wf c' \<and> abs_of c' = snd (cache_spec call (abs_of c))"
    unfolding implements_def .
qed

section \<open>Linked caches\<close>

text \<open>No body changes the link.\<close>

lemma lookup_item_link: "lookup_item mem k c = Some (r, c1) \<Longrightarrow> shared_link c1 = shared_link c"
  by (auto simp: lookup_item_def bind_eq_Some_conv)

lemma removeItem_link: "removeItem mem i c = Some c1 \<Longrightarrow> shared_link c1 = shared_link c"
  by (auto simp: removeItem_def bind_eq_Some_conv lock_def unlock_def Let_def)

lemma write_item_link: "write_item now m ex e l val i c = Some (r, c1) \<Longrightarrow> shared_link c1 = shared_link c"
  by (auto simp: write_item_def bind_eq_Some_conv unlock_def set_item_def Let_def split: option.splits)

lemma link_simps [simp]: "shared_link (lock c) = shared_link c" "shared_link (unlock c) = shared_link c" "shared_link (set_item i it c) = shared_link c"
  by (simp_all add: lock_def unlock_def set_item_def)

lemma write_body_link: "write_body mem now k val opts c = Some (r, c1) \<Longrightarrow> shared_link c1 = shared_link c"
  unfolding write_body_def Let_def
  by (auto simp: bind_eq_Some_conv split: option.splits if_splits dest!: write_item_link)

lemma cache_run_link: "cache_run call c = Some (r, c1) \<Longrightarrow> shared_link c1 = shared_link c"
proof (cases call)
  case (Remove k)
  assume "cache_run call c = Some (r, c1)"
  with Remove show ?thesis by (cases k) (auto simp: remove_body_def bind_eq_Some_conv split: option.splits dest!: lookup_item_link)
qed (auto simp: read_body_def expire_body_def inc_body_def Let_def limits_body_def setLimits_body_def setLocalLimits_def bind_eq_Some_conv
       split: option.splits if_splits dest!: write_body_link lookup_item_link removeItem_link)

text \<open>A group of objects: one cache that has no link, and others that are linked to it.\<close>

definition linked :: "nat \<Rightarrow> nat set \<Rightarrow> cache_world \<Rightarrow> bool" where
  "linked a objs w \<longleftrightarrow> a \<in> objs \<and> (\<forall>x \<in> objs. redirect x w = Some a)"

lemma linked_step:
  assumes "linked a objs w" and "caches w a = Some c" and "x \<in> objs"
  shows "world_run x call w = map_option (\<lambda>(r, c1). (r, w\<lparr>caches := (caches w)(a \<mapsto> c1)\<rparr>)) (cache_run call c)"
    and "cache_run call c = Some (r, c1) \<Longrightarrow> linked a objs (w\<lparr>caches := (caches w)(a \<mapsto> c1)\<rparr>)"
proof -
  show "world_run x call w = map_option (\<lambda>(r, c1). (r, w\<lparr>caches := (caches w)(a \<mapsto> c1)\<rparr>)) (cache_run call c)"
    using assms by (simp add: world_run_body linked_def call_body_def)
  assume "cache_run call c = Some (r, c1)"
  then show "linked a objs (w\<lparr>caches := (caches w)(a \<mapsto> c1)\<rparr>)" using assms(1,2) by (auto simp: linked_def redirect_def dest!: cache_run_link)
qed

lemma linked_script:
  assumes "linked a objs w" and "caches w a = Some c" and "fst ` set xs \<subseteq> objs"
  shows "run_script (\<lambda>(x, call). world_run x call) xs w = map_option (\<lambda>(rs, c1). (rs, w\<lparr>caches := (caches w)(a \<mapsto> c1)\<rparr>)) (run_script cache_run (map snd xs) c)"
  using assms
proof (induction xs arbitrary: w c)
  case Nil
  then have "(caches w)(a \<mapsto> c) = caches w" by (simp add: fun_upd_idem)
  then show ?case by (simp del: fun_upd_apply)
next
  case (Cons y xs)
  obtain x call where y: "y = (x, call)" by (cases y)
  note step = linked_step [OF Cons.prems(1,2), of x call]
  show ?case
  proof (cases "cache_run call c")
    case None
    then show ?thesis using step(1) Cons.prems(3) y by simp
  next
    case (Some s)
    obtain r c1 where s: "s = (r, c1)" by (cases s)
    have "linked a objs (w\<lparr>caches := (caches w)(a \<mapsto> c1)\<rparr>)" using step(2) Cons.prems(3) y Some s by simp
    from Cons.IH [OF this, of c1] Cons.prems(3) have "run_script (\<lambda>(x, call). world_run x call) xs (w\<lparr>caches := (caches w)(a \<mapsto> c1)\<rparr>)
      = map_option (\<lambda>(rs, c1). (rs, w\<lparr>caches := (caches w)(a \<mapsto> c1)\<rparr>)) (run_script cache_run (map snd xs) c1)" by (simp del: fun_upd_apply add: fun_upd_same)
    with Cons.prems(3) y step(1) Some s show ?thesis by (cases "run_script cache_run (map snd xs) c1") (auto simp del: fun_upd_apply)
  qed
qed

lemma own_script:
  assumes "caches w a = Some c" and "shared_link c = None"
  shows "run_script (world_run a) cs w = map_option (\<lambda>(rs, c1). (rs, w\<lparr>caches := (caches w)(a \<mapsto> c1)\<rparr>)) (run_script cache_run cs c)"
proof -
  have eq: "run_script (world_run a) cs w = run_script (\<lambda>(x, call). world_run x call) (map (Pair a) cs) w" for w
    by (induction cs arbitrary: w) (simp_all split: option.split)
  have "linked a {a} w" using assms by (simp add: linked_def redirect_def)
  from linked_script [OF this assms(1), of "map (Pair a) cs"] show ?thesis unfolding eq by (simp add: comp_def image_subset_iff)
qed

section \<open>Pruning keeps the keys whose date is to come\<close>

text \<open>Nobody holds the lock.\<close>

definition cache_ok :: "local_cache \<Rightarrow> bool" where
  "cache_ok c \<longleftrightarrow> cache_wf c \<and> locks c = 0"

definition keep :: "int \<Rightarrow> (string \<Rightarrow> cache_item option) \<Rightarrow> string \<Rightarrow> cache_item option" where
  "keep date m k = (case m k of None \<Rightarrow> None | Some it \<Rightarrow> if expired date it then None else Some it)"

lemma keep_keep: "date \<le> date' \<Longrightarrow> keep date' (keep date m) = keep date' m"
  by (auto simp: keep_def expired_def fun_eq_iff split: option.splits)

text \<open>The table has no reason to grow, so that no entry moves in a loop.\<close>

definition settled :: "local_cache \<Rightarrow> bool" where
  "settled c \<longleftrightarrow> (\<exists>h. store c = Some h \<and> hlength h \<le> hsize h)"

definition same_limits :: "local_cache \<Rightarrow> local_cache \<Rightarrow> bool" where
  "same_limits c c' \<longleftrightarrow> locks c' = locks c \<and> timer c' = timer c \<and> lifespan c' = lifespan c \<and> resolution c' = resolution c \<and> maxKeys c' = maxKeys c
     \<and> maxMem c' = maxMem c \<and> shared_link c' = shared_link c \<and> drift c' = drift c"

text \<open>
  The loop: what is gone has had its date, what has had its date and is not gone yet is still to come, and the number of keys
  in excess counts the keys.
\<close>

definition prune_inv :: "int \<Rightarrow> int \<Rightarrow> local_cache \<Rightarrow> nat option \<Rightarrow> nat list \<Rightarrow> int \<times> local_cache \<Rightarrow> bool" where
  "prune_inv date e0 c0 kp rem s \<longleftrightarrow> (\<exists>h ch. cache_wf (snd s) \<and> store (snd s) = Some h \<and> hash_ok h ch \<and> hlength h \<le> hsize h \<and> same_limits c0 (snd s)
     \<and> position h ch kp rem \<and> distinct rem \<and> set rem \<subseteq> members (hsize h) ch
     \<and> (\<forall>k it. cache_view (snd s) k = Some it \<longrightarrow> cache_view c0 k = Some it \<and> (expired date it \<longrightarrow> (\<exists>a sp. a \<in> set rem \<and> keys h a = Some sp \<and> key sp = k)))
     \<and> (\<forall>k it. cache_view c0 k = Some it \<longrightarrow> \<not> expired date it \<longrightarrow> cache_view (snd s) k = Some it)
     \<and> fst s = e0 + int (card (dom (cache_view (snd s)))))"

lemma prune_invI:
  assumes "cache_wf c" "store c = Some h" "hash_ok h ch" "hlength h \<le> hsize h" "same_limits c0 c" "position h ch kp rem" "distinct rem" "set rem \<subseteq> members (hsize h) ch"
    and "\<And>k it. cache_view c k = Some it \<Longrightarrow> cache_view c0 k = Some it"
    and "\<And>k it. cache_view c k = Some it \<Longrightarrow> expired date it \<Longrightarrow> \<exists>a sp. a \<in> set rem \<and> keys h a = Some sp \<and> key sp = k"
    and "\<And>k it. cache_view c0 k = Some it \<Longrightarrow> \<not> expired date it \<Longrightarrow> cache_view c k = Some it" and "e = e0 + int (card (dom (cache_view c)))"
  shows "prune_inv date e0 c0 kp rem (e, c)"
  unfolding prune_inv_def fst_conv snd_conv using assms by (intro exI [of _ h] exI [of _ ch]) blast

lemma entry_item:
  assumes wf: "cache_wf c" and h: "store c = Some h" "hash_ok h ch" and a: "a \<in> members (hsize h) ch"
  shows "\<exists>sp i it. keys h a = Some sp \<and> data sp = Some i \<and> items c i = Some it \<and> item_key it = key sp \<and> c_string (key sp)
     \<and> table_view h (key sp) = Some i \<and> cache_view c (key sp) = Some it"
proof -
  have p: "plain_table h" "items_ok h (items c) (free_item c)" using wf h(1) by (auto simp: cache_wf_def)
  have fl: "\<not> caseless (hflags h)" using p(1) by (simp add: plain_table_def)
  obtain sp where sp: "keys h a = Some sp" "c_string (key sp)" using table_member [OF hash_okD(1) [OF h(2)] a] by blast
  have v: "hash_view h (key sp) = Some (entry_info sp)" using view_in [OF h(2) a sp(1)] fl by simp
  then have "data sp \<noteq> None" using p(1) by (auto simp: plain_table_def entry_info_def)
  then obtain i where i: "data sp = Some i" "table_view h (key sp) = Some i" using v by (auto simp: table_view_def entry_info_def)
  obtain it where "items c i = Some it" "item_key it = key sp" using items_okD [OF p(2) i(2)] by auto
  with sp i h(1) show ?thesis by (auto simp: cache_view_def)
qed

lemma prune_step:
  assumes inv: "prune_inv date e0 c0 kp (a # rem) s"
  shows "\<exists>s'. prune_entry (\<lambda>_. True) date a s = Some s' \<and> prune_inv date e0 c0 (Some a) rem s'"
proof -
  obtain e c where s: "s = (e, c)" by (cases s)
  obtain h ch where i: "cache_wf c" "store c = Some h" "hash_ok h ch" "hlength h \<le> hsize h" "same_limits c0 c" "position h ch kp (a # rem)" "distinct (a # rem)"
    "set (a # rem) \<subseteq> members (hsize h) ch"
    and old: "\<forall>k it. cache_view c k = Some it \<longrightarrow> cache_view c0 k = Some it \<and> (expired date it \<longrightarrow> (\<exists>x sp. x \<in> set (a # rem) \<and> keys h x = Some sp \<and> key sp = k))"
    and kept: "\<forall>k it. cache_view c0 k = Some it \<longrightarrow> \<not> expired date it \<longrightarrow> cache_view c k = Some it" and e: "e = e0 + int (card (dom (cache_view c)))"
    using inv unfolding prune_inv_def s fst_conv snd_conv by (elim exE conjE)
  have a: "a \<in> members (hsize h) ch" using i(8) by simp
  obtain sp j it where sp: "keys h a = Some sp" "data sp = Some j" "items c j = Some it" "item_key it = key sp" "c_string (key sp)" "table_view h (key sp) = Some j"
    "cache_view c (key sp) = Some it" using entry_item [OF i(1-3) a] by (elim exE conjE)
  have pos: "position h ch (Some a) rem" using next_key_ok(2) [OF hash_okD(1) [OF i(3)] i(6) refl] .
  have rest: "\<exists>x sy. x \<in> set rem \<and> keys h x = Some sy \<and> key sy = k" if k: "cache_view c k = Some it'" "expired date it'" "k \<noteq> key sp" for k it'
  proof -
    obtain x sy where x: "x \<in> set (a # rem)" "keys h x = Some sy" "key sy = k" using old k(1,2) by blast
    then have "x \<noteq> a" using sp(1) k(3) by auto
    with x show ?thesis by auto
  qed
  show ?thesis
  proof (cases "expired date it")
    case False
    have "prune_inv date e0 c0 (Some a) rem (e, c)"
    proof (rule prune_invI [OF i(1-5) pos])
      show "\<exists>x sy. x \<in> set rem \<and> keys h x = Some sy \<and> key sy = k" if "cache_view c k = Some it'" "expired date it'" for k it'
      proof (rule rest [OF that])
        show "k \<noteq> key sp" using that sp(7) False by auto
      qed
      show "cache_view c0 k = Some it'" if "cache_view c k = Some it'" for k it' using old that by blast
      show "cache_view c k = Some it'" if "cache_view c0 k = Some it'" "\<not> expired date it'" for k it' using kept that by blast
    qed (use i(7,8) e in simp_all)
    moreover have "prune_entry (\<lambda>_. True) date a s = Some s" using i(2) sp(1-3) False by (simp add: prune_entry_def s)
    ultimately show ?thesis using s by blast
  next
    case True
    obtain n c1 h1 where r: "removeItem (\<lambda>_. True) j c = Some c1" "cache_wf c1" "cache_view c1 = (cache_view c)(key sp := None)"
      "mprRemoveKey (\<lambda>_. True) h (key sp) = Some (n, h1)" "drift c1 = drift c" "c1 = c\<lparr>store := Some h1, usedMem := usedMem c - weight (key sp) it\<rparr>"
      using removeItem_ok [OF i(1) sp(5) i(2) sp(6,3)] by (elim exE conjE)
    obtain h2 ch1 where m: "mprRemoveKey (\<lambda>_. True) h (key sp) = Some (0, h2)" "hash_ok h2 ch1" "hsize h2 = hsize h" "hlength h2 = hlength h - 1" "comes_after h2 ch1 a rem"
      "members (hsize h2) ch1 = members (hsize h) ch - {a}" "same_content (keys h) (keys h2)"
      using remove_current [OF i(3) a pos [unfolded position_def option.case] sp(1) i(4), of "\<lambda>_. True"] by (elim exE conjE) (rule that)
    have h2: "h2 = h1" using r(4) m(1) by simp
    have key: "\<exists>sx. keys h1 x = Some sx \<and> key sx = k" if "keys h x = Some sy" "key sy = k" for x sy k
      using same_content_back [OF m(7) that(1)] that(2) h2 by auto
    have c1: "k \<noteq> key sp \<and> cache_view c k = Some it'" if "cache_view c1 k = Some it'" for k it' using that r(3) by (auto split: if_splits)
    have dom: "dom (cache_view c1) = dom (cache_view c) - {key sp}" "key sp \<in> dom (cache_view c)" using r(3) sp(7) by auto
    then have card: "int (card (dom (cache_view c1))) = int (card (dom (cache_view c))) - 1" using card_Suc_Diff1 [OF cache_finite [OF i(1)], of "key sp"] by simp
    have "prune_inv date e0 c0 (Some a) rem (e - 1, c1)"
    proof (rule prune_invI [OF r(2) _ m(2) [unfolded h2]])
      show "\<exists>x sx. x \<in> set rem \<and> keys h1 x = Some sx \<and> key sx = k" if "cache_view c1 k = Some it'" "expired date it'" for k it'
        using rest [of k it'] c1 [OF that(1)] that(2) key by blast
      show "cache_view c0 k = Some it'" if "cache_view c1 k = Some it'" for k it' using old c1 [OF that] by blast
      show "cache_view c1 k = Some it'" if "cache_view c0 k = Some it'" "\<not> expired date it'" for k it' using kept that r(3) sp(7) True by auto
      show "store c1 = Some h1" using r(6) by simp
      show "hlength h1 \<le> hsize h1" using m(3,4) i(4) h2 by simp
      show "same_limits c0 c1" using i(5) r(5,6) by (simp add: same_limits_def)
      show "position h1 ch1 (Some a) rem" using m(5) h2 by (simp add: position_def)
      show "distinct rem" using i(7) by simp
      show "set rem \<subseteq> members (hsize h1) ch1" using i(7,8) m(6) h2 by auto
      show "e - 1 = e0 + int (card (dom (cache_view c1)))" using e card by simp
    qed
    moreover have "prune_entry (\<lambda>_. True) date a s = Some (e - 1, c1)" using i(2) sp(1-3) True r(1) by (simp add: prune_entry_def s)
    ultimately show ?thesis by blast
  qed
qed

interpretation prune: key_loop cache_table "prune_entry (\<lambda>_. True) date" "prune_inv date e0 c0" for date e0 c0
proof unfold_locales
  fix kp rem s
  assume "prune_inv date e0 c0 kp rem s"
  then obtain h ch where "store (snd s) = Some h" "hash_ok h ch" "position h ch kp rem" unfolding prune_inv_def by blast
  then show "mprGetNextKey (cache_table s) kp = Some (first_of rem)" using next_key_ok(1) [OF hash_okD(1)] by (simp add: cache_table_def)
qed (rule prune_step)

lemma entry_of_key:
  assumes wf: "cache_wf c" and h: "store c = Some h" "hash_ok h ch" and v: "cache_view c k = Some it"
  shows "\<exists>a sp. a \<in> set (entries (hsize h) ch) \<and> keys h a = Some sp \<and> key sp = k"
proof -
  have p: "plain_table h" using wf h(1) by (auto simp: cache_wf_def)
  have "k \<in> dom (hash_view h)" using v h(1) plain_dom [OF p, symmetric] by (simp add: cache_view_def bind_eq_Some_conv dom_def) blast
  then have "k \<in> entry_key (hflags h) (keys h) ` members (hsize h) ch" using dom_view [OF h(2)] by simp
  then obtain a where a: "a \<in> members (hsize h) ch" "k = entry_key (hflags h) (keys h) a" by blast
  obtain sp where sp: "keys h a = Some sp" using hash_member [OF h(2) a(1)] by (elim exE)
  have "\<not> caseless (hflags h)" using p by (simp add: plain_table_def)
  with a(2) sp have "k = key sp" by (simp add: entry_key_def)
  with a(1) sp show ?thesis by (metis set_entries)
qed

lemma prune_start:
  assumes wf: "cache_wf c" and h: "store c = Some h" "hash_ok h ch" "hlength h \<le> hsize h" and e: "e = e0 + int (card (dom (cache_view c)))"
  shows "prune_inv date e0 c None (entries (hsize h) ch) (e, c)"
proof (rule prune_invI [OF wf h])
  show "\<exists>a sp. a \<in> set (entries (hsize h) ch) \<and> keys h a = Some sp \<and> key sp = k" if "cache_view c k = Some it" "expired date it" for k it
    by (rule entry_of_key [OF wf h(1,2) that(1)])
  show "distinct (entries (hsize h) ch)" by (rule table_distinct [OF hash_okD(1) [OF h(2)]])
  show "same_limits c c" by (simp add: same_limits_def)
  show "position h ch None (entries (hsize h) ch)" by (simp add: position_def)
  show "set (entries (hsize h) ch) \<subseteq> members (hsize h) ch" by (simp add: set_entries)
  show "e = e0 + int (card (dom (cache_view c)))" by (rule e)
qed

lemma prune_end:
  assumes "prune_inv date e0 c kp [] (e', c')"
  shows "cache_wf c' \<and> settled c' \<and> same_limits c c' \<and> cache_view c' = keep date (cache_view c) \<and> e' = e0 + int (card (dom (cache_view c')))"
proof -
  obtain h ch where i: "cache_wf c'" "store c' = Some h" "hlength h \<le> hsize h" "same_limits c c'" "e' = e0 + int (card (dom (cache_view c')))"
    and view: "\<forall>k it. cache_view c' k = Some it \<longrightarrow> cache_view c k = Some it \<and> (expired date it \<longrightarrow> (\<exists>a sp. a \<in> set [] \<and> keys h a = Some sp \<and> key sp = k))"
    "\<forall>k it. cache_view c k = Some it \<longrightarrow> \<not> expired date it \<longrightarrow> cache_view c' k = Some it"
    using assms unfolding prune_inv_def fst_conv snd_conv by (elim exE conjE)
  have small: "settled c'" using i(2,3) by (simp add: settled_def)
  have old: "cache_view c k = Some it \<and> \<not> expired date it" if "cache_view c' k = Some it" for k it
    using view(1) that by simp
  have kept: "cache_view c' k = Some it" if "cache_view c k = Some it" "\<not> expired date it" for k it
    using view(2) that by simp
  have "cache_view c' k = keep date (cache_view c) k" for k
  proof (cases "cache_view c' k")
    case None
    show ?thesis
    proof (cases "cache_view c k")
      case (Some it)
      with None kept [of k it] show ?thesis by (auto simp: keep_def)
    qed (use None in \<open>simp add: keep_def\<close>)
  next
    case (Some it)
    then show ?thesis using old [OF Some] by (simp add: keep_def)
  qed
  with i(1,4,5) small show ?thesis by (simp add: fun_eq_iff)
qed

lemma prune_keys_ok:
  assumes wf: "cache_wf c" and small: "settled c" and e: "e = e0 + int (card (dom (cache_view c)))"
  shows "\<exists>c'. prune_keys (\<lambda>_. True) date (e, c) = Some (e0 + int (card (dom (cache_view c'))), c') \<and> cache_wf c' \<and> settled c' \<and> same_limits c c'
     \<and> cache_view c' = keep date (cache_view c)"
proof -
  obtain h where h: "store c = Some h" "hlength h \<le> hsize h" using small unfolding settled_def by (elim exE conjE)
  obtain ch where ch: "hash_ok h ch" using wf h(1) by (auto simp: cache_wf_def plain_table_def)
  obtain s' kp where s': "for_keys cache_table (prune_entry (\<lambda>_. True) date) None (e, c) = Some s'" "prune_inv date e0 c kp [] s'"
    using prune.loop_ends [OF prune_start [OF wf h(1) ch h(2) e, of date]] by (elim exE conjE)
  obtain e' c' where s: "s' = (e', c')" by (cases s')
  have "prune_keys (\<lambda>_. True) date (e, c) = Some (e', c')" using s'(1) s h(1) by (simp add: prune_keys_def)
  then show ?thesis using prune_end [OF s'(2) [unfolded s]] by (intro exI [of _ c']) simp
qed

text \<open>
  The rounds take the dates @now, now + 3600, now + 18000, \<dots>@ for come, up to the eighth. They stop at the first one that brings the
  cache within its limits.
\<close>

definition prune_date :: "int \<Rightarrow> nat \<Rightarrow> int" where
  "prune_date now i = now + 1200 * (4 ^ i - 1)"

definition fits :: "local_cache \<Rightarrow> (string \<Rightarrow> cache_item option) \<Rightarrow> bool" where
  "fits c m \<longleftrightarrow> int (card (dom m)) \<le> maxKeys c \<and> map_weight weight m + drift c \<le> maxMem c"

lemma prune_date_simps [simp]: "prune_date now 0 = now" "prune_date now i + 3600 * 4 ^ i = prune_date now (Suc i)"
  by (simp_all add: prune_date_def algebra_simps)

lemma prune_date_mono: "i \<le> j \<Longrightarrow> prune_date now i \<le> prune_date now j"
  by (simp add: prune_date_def power_increasing)

lemma prune_factor: "j < 8 \<Longrightarrow> (3600::int) * 4 ^ j < 86400000"
proof -
  assume "j < 8"
  then have "(4::int) ^ j \<le> 4 ^ 7" by (intro power_increasing) simp_all
  then show ?thesis by simp
qed

lemma fits_same: "same_limits c c' \<Longrightarrow> fits c' = fits c"
  by (simp add: fits_def same_limits_def fun_eq_iff)

lemma prune_rounds_ok:
  assumes "n \<le> 8" and "cache_wf c" and "settled c" and "cache_view c = keep (prune_date now (8 - n - 1)) m"
  shows "\<exists>c' i e. prune_rounds (\<lambda>_. True) (3600 * 4 ^ (8 - n)) (prune_date now (8 - n)) (int (card (dom (cache_view c))) - maxKeys c, c) = Some (e, c')
     \<and> cache_wf c' \<and> settled c' \<and> same_limits c c' \<and> cache_view c' = keep (prune_date now i) m \<and> i \<le> 7 \<and> (fits c (keep (prune_date now i) m) \<or> i = 7)
     \<and> (\<forall>i'. 8 - n - 1 \<le> i' \<and> i' < i \<longrightarrow> \<not> fits c (keep (prune_date now i') m))"
  using assms
proof (induction n arbitrary: c)
  case 0
  show ?case using 0 by (subst prune_rounds.simps, intro exI [of _ c] exI [of _ "7 :: nat"] exI) (auto simp: same_limits_def)
next
  case (Suc n)
  let ?j = "8 - Suc n" and ?s = "(int (card (dom (cache_view c))) - maxKeys c, c)"
  have used: "usedMem c = map_weight weight (cache_view c) + drift c" by (simp add: drift_def)
  have j: "8 - n = Suc ?j" "?j < 8" using Suc.prems(1) by auto
  show ?case
  proof (cases "fits c (cache_view c)")
    case True
    then have "prune_rounds (\<lambda>_. True) (3600 * 4 ^ ?j) (prune_date now ?j) ?s = Some ?s"
      using used by (subst prune_rounds.simps) (auto simp: fits_def)
    then show ?thesis using Suc.prems True j(2) by (intro exI [of _ c] exI [of _ "?j - 1"] exI) (auto simp: same_limits_def)
  next
    case False
    have e: "int (card (dom (cache_view c))) - maxKeys c = - maxKeys c + int (card (dom (cache_view c)))" by simp
    obtain c1 where 1: "prune_keys (\<lambda>_. True) (prune_date now ?j) ?s = Some (- maxKeys c + int (card (dom (cache_view c1))), c1)" "cache_wf c1" "settled c1"
      "same_limits c c1" "cache_view c1 = keep (prune_date now ?j) (cache_view c)"
      using prune_keys_ok [OF Suc.prems(2,3) e, of "prune_date now ?j"] by (elim exE conjE)
    have v1: "cache_view c1 = keep (prune_date now (8 - n - 1)) m"
      using 1(5) Suc.prems(4) keep_keep [OF prune_date_mono [of "?j - 1" ?j now]] j(1) by simp
    have mk: "maxKeys c1 = maxKeys c" using 1(4) by (simp add: same_limits_def)
    obtain c' i e where i: "prune_rounds (\<lambda>_. True) (3600 * 4 ^ (8 - n)) (prune_date now (8 - n)) (int (card (dom (cache_view c1))) - maxKeys c1, c1) = Some (e, c')"
      "cache_wf c'" "settled c'" "same_limits c1 c'" "cache_view c' = keep (prune_date now i) m" "i \<le> 7" "fits c1 (keep (prune_date now i) m) \<or> i = 7"
      "\<forall>i'. 8 - n - 1 \<le> i' \<and> i' < i \<longrightarrow> \<not> fits c1 (keep (prune_date now i') m)"
      using Suc.IH [OF Suc_leD [OF Suc.prems(1)] 1(2,3) v1] by (elim exE conjE)
    have over: "fst ?s > 0 \<or> usedMem (snd ?s) > maxMem (snd ?s)" using False used by (auto simp: fits_def)
    have "prune_rounds (\<lambda>_. True) (3600 * 4 ^ ?j) (prune_date now ?j) ?s = Some (e, c')"
      using i(1) 1(1) over prune_factor [OF j(2)] mk j(1) prune_date_simps(2) [of now ?j] by (subst prune_rounds.simps) (simp add: algebra_simps)
    moreover have "\<forall>i'. ?j - 1 \<le> i' \<and> i' < i \<longrightarrow> \<not> fits c (keep (prune_date now i') m)"
    proof (intro allI impI)
      fix i' assume i': "?j - 1 \<le> i' \<and> i' < i"
      show "\<not> fits c (keep (prune_date now i') m)"
      proof (cases "i' = ?j - 1")
        case True
        then show ?thesis using False Suc.prems(4) by simp
      next
        case False
        then have "8 - n - 1 \<le> i'" using i' by arith
        then show ?thesis using i(8) i' fits_same [OF 1(4)] by simp
      qed
    qed
    moreover have "same_limits c c'" using 1(4) i(4) by (simp add: same_limits_def)
    ultimately show ?thesis using i(2,3,5,6,7) fits_same [OF 1(4)] by (intro exI [of _ c'] exI [of _ i] exI [of _ e]) simp
  qed
qed

lemma cache_length: "cache_wf c \<Longrightarrow> store c = Some h \<Longrightarrow> mprGetHashLength h = int (card (dom (cache_view c)))"
proof -
  assume wf: "cache_wf c" and h: "store c = Some h"
  then have p: "plain_table h" "items_ok h (items c) (free_item c)" by (auto simp: cache_wf_def)
  show ?thesis using plain.count_law [OF p(1)] cache_dom [OF h p(2)] by simp
qed

lemma settled_store: "settled c \<Longrightarrow> \<exists>h. store c = Some h"
  by (auto simp: settled_def)

lemma settled_locks [simp]: "settled (lock c) = settled c" "settled (unlock c) = settled c"
  by (simp_all add: settled_def lock_def unlock_def)

text \<open>
  Property C15. The pruner removes the keys that have had their date. When the cache is then above its limits on keys or memory it also
  removes the keys that expire before a date ahead: the first of the eight dates that brings the cache within the limits, or the last.
  No other key goes, the memory count goes down by their length, and the timer stops when the cache is empty. This is for a table that
  has no more keys than buckets. Removing a key from a larger table makes it grow and moves the entries, and the loop may miss keys.
\<close>

theorem pruner_keeps_limits:
  assumes ok: "cache_ok c" and small: "settled c"
  shows "\<exists>c' i. localPruner (\<lambda>_. True) same_thread now c = Some c' \<and> cache_ok c' \<and> cache_view c' = keep (prune_date now i) (cache_view c) \<and> i \<le> 7
     \<and> (\<forall>i' < i. \<not> fits c (keep (prune_date now i') (cache_view c)))
     \<and> (if maxKeys c < MAXSSIZE \<or> maxMem c < MAXSSIZE then i < 7 \<longrightarrow> fits c (cache_view c') else i = 0)
     \<and> timer c' = (timer c \<and> cache_view c' \<noteq> Map.empty) \<and> maxKeys c' = maxKeys c \<and> maxMem c' = maxMem c \<and> drift c' = drift c"
proof -
  let ?m = "cache_view c" and ?lim = "maxKeys c < MAXSSIZE \<or> maxMem c < MAXSSIZE"
  have wf: "cache_wf (lock c)" "settled (lock c)" and free: "locks c = 0" using ok small by (simp_all add: cache_ok_def)
  have e: "0 = - int (card (dom ?m)) + int (card (dom (cache_view (lock c))))" by simp
  obtain e1 c1 where 1: "prune_keys (\<lambda>_. True) now (0, lock c) = Some (e1, c1)" "cache_wf c1" "settled c1" "same_limits (lock c) c1"
    "cache_view c1 = keep now (cache_view (lock c))" using prune_keys_ok [OF wf e, of now] by (elim exE conjE)
  obtain h where h: "store c1 = Some h" using settled_store [OF 1(3)] by (elim exE)
  have v1: "cache_view c1 = keep (prune_date now (8 - 8 - 1)) ?m" using 1(5) by simp
  have lim: "maxKeys c1 = maxKeys c" "maxMem c1 = maxMem c" "fits c1 = fits c"
    using 1(4) by (simp_all add: same_limits_def fits_def fun_eq_iff)
  obtain e2 c2 i where 2: "(if ?lim then prune_rounds (\<lambda>_. True) 3600 now (mprGetHashLength h - maxKeys c1, c1) else Some (0, c1)) = Some (e2, c2)"
    "cache_wf c2" "settled c2" "same_limits c1 c2" "cache_view c2 = keep (prune_date now i) ?m" "i \<le> 7"
    "\<forall>i' < i. \<not> fits c (keep (prune_date now i') ?m)" "if ?lim then i < 7 \<longrightarrow> fits c (cache_view c2) else i = 0"
  proof (cases ?lim)
    case True
    obtain c2 i e2 where r: "prune_rounds (\<lambda>_. True) (3600 * 4 ^ (8 - 8)) (prune_date now (8 - 8)) (int (card (dom (cache_view c1))) - maxKeys c1, c1) = Some (e2, c2)"
      "cache_wf c2" "settled c2" "same_limits c1 c2" "cache_view c2 = keep (prune_date now i) ?m" "i \<le> 7" "fits c1 (keep (prune_date now i) ?m) \<or> i = 7"
      "\<forall>i'. 8 - 8 - 1 \<le> i' \<and> i' < i \<longrightarrow> \<not> fits c1 (keep (prune_date now i') ?m)"
      using prune_rounds_ok [OF order_refl 1(2,3) v1] by (elim exE conjE)
    show ?thesis
    proof (rule that [OF _ r(2-6)])
      show "(if ?lim then prune_rounds (\<lambda>_. True) 3600 now (mprGetHashLength h - maxKeys c1, c1) else Some (0, c1)) = Some (e2, c2)"
        using r(1) True lim(1) cache_length [OF 1(2) h] by simp
      show "\<forall>i' < i. \<not> fits c (keep (prune_date now i') ?m)" using r(8) lim(3) by simp
      show "if ?lim then i < 7 \<longrightarrow> fits c (cache_view c2) else i = 0" using r(5,7) lim(3) True by auto
    qed
  next
    case False
    show ?thesis
    proof (rule that [OF _ 1(2,3)])
      show "cache_view c1 = keep (prune_date now 0) ?m" using v1 by simp
    qed (use False in \<open>simp_all add: same_limits_def\<close>)
  qed
  obtain h2 where h2: "store c2 = Some h2" using settled_store [OF 2(3)] by (elim exE)
  define c' where "c' = unlock (if mprGetHashLength h2 = 0 then c2\<lparr>timer := False\<rparr> else c2)"
  have run: "localPruner (\<lambda>_. True) same_thread now c = Some c'"
    using free 1(1) h 2(1) h2 lim(1,2) by (simp add: localPruner_def c'_def split del: if_split)
  have l2: "locks c2 = 1" "timer c2 = timer c" "maxKeys c2 = maxKeys c" "maxMem c2 = maxMem c" "drift c2 = drift c"
    using 1(4) 2(4) free by (simp_all add: same_limits_def) (simp_all add: lock_def)
  have empty: "mprGetHashLength h2 = 0 \<longleftrightarrow> cache_view c2 = Map.empty"
    using cache_length [OF 2(2) h2] cache_finite [OF 2(2)] by simp
  have v: "cache_view c' = cache_view c2" by (auto simp: c'_def cache_view_def fun_eq_iff unlock_def)
  have "cache_ok c'" using 2(2) l2(1) h2 v by (auto simp: c'_def cache_ok_def cache_wf_def unlock_def)
  moreover have "timer c' = (timer c \<and> cache_view c' \<noteq> Map.empty)" unfolding v empty [symmetric] using l2(2) by (simp add: c'_def unlock_def)
  moreover have "maxKeys c' = maxKeys c" "maxMem c' = maxMem c" using l2(3,4) by (simp_all add: c'_def)
  moreover have "usedMem c' = usedMem c2" by (simp add: c'_def)
  then have "drift c' = drift c" using l2(5) v by (simp add: drift_def)
  ultimately show ?thesis using run 2(5-8) [folded v] by blast
qed

section \<open>Caches from their construction on\<close>

lemma setLocalLimits_keeps: "setLocalLimits options c = Some c1 \<Longrightarrow> cache_ok c \<Longrightarrow> cache_ok c1 \<and> cache_view c1 = cache_view c \<and> drift c1 = drift c \<and> store c1 = store c \<and> shared_link c1 = shared_link c"
  by (auto simp: setLocalLimits_def cache_ok_def cache_wf_def drift_def cache_view_def[abs_def] fun_eq_iff bind_eq_Some_conv split: option.splits)

lemma construct_ok:
  assumes "localConstructor (\<lambda>_. True) a wantShared options w = Some w1" and "caches w a = Some blank_cache" and "\<not> (wantShared \<and> shared w \<noteq> None)" and "caches w1 a = Some c"
  shows "cache_ok c" and "cache_view c = Map.empty" and "settled c" and "shared_link c = None" and "drift c = 0"
proof -
  obtain h where h: "mprCreateHash (\<lambda>_. True) CACHE_HASH_SIZE 0 = Some (h :: nat mpr_hash)" "plain_table h" "table_view h = Map.empty" "hash_ok h (\<lambda>_. [])" "hsize h = max ME_MAX_HASH CACHE_HASH_SIZE"
    using plain_create [of "\<lambda>_. True" CACHE_HASH_SIZE, where 'a = nat] by auto
  let ?c = "blank_cache\<lparr>store := Some h, maxMem := MAXSSIZE, maxKeys := MAXSSIZE, resolution := CACHE_TIMER_PERIOD, lifespan := CACHE_LIFESPAN\<rparr>"
  have c: "setLocalLimits options ?c = Some c" using assms h(1) by (auto simp: localConstructor_def bind_eq_Some_conv split: if_splits)
  have v: "cache_view ?c = Map.empty" using h(3) by (simp add: cache_view_def fun_eq_iff)
  then have "cache_ok ?c" using h(2,3) by (simp add: cache_ok_def cache_wf_def items_ok_def blank_cache_def)
  from setLocalLimits_keeps [OF c this] v show "cache_ok c" "cache_view c = Map.empty" "settled c" "shared_link c = None" "drift c = 0"
    using hash_okD(3) [OF h(4)] h(5) by (simp_all add: drift_def map_weight_def settled_def ME_MAX_HASH_def CACHE_HASH_SIZE_def members_def blank_cache_def)
qed


text \<open>Concrete caches: the object at address zero, limited to one key.\<close>

definition sample_world :: cache_world where
  "sample_world = \<lparr>caches = [0 \<mapsto> blank_cache, 1 \<mapsto> blank_cache], shared = None\<rparr>"

definition sample_limits :: limit_options where
  "sample_limits = \<lparr>opt_keys = Some 1, opt_lifespan = None, opt_memory = None, opt_resolution = None\<rparr>"

definition sample_built :: "local_cache option" where
  "sample_built = Option.bind (localConstructor (\<lambda>_. True) 0 False (Some sample_limits) sample_world) (\<lambda>w. caches w 0)"

definition sample_script :: "cache_call list" where
  "sample_script = [Write ''a'' ''41'' (Some (no_options\<lparr>w_expires := Some 2000\<rparr>)) 10, Write ''b'' ''x'' None 30, Read ''a'' True 40, Limits]"

lemma sample_obtain:
  obtains w c where "localConstructor (\<lambda>_. True) 0 False (Some sample_limits) sample_world = Some w" "caches w 0 = Some c" "sample_built = Some c"
proof -
  have "sample_built \<noteq> None" by code_simp
  then show ?thesis using that by (auto simp: sample_built_def bind_eq_Some_conv)
qed

lemma sample_blank: "caches sample_world 0 = Some blank_cache" "\<not> (False \<and> shared sample_world \<noteq> None)"
  by (simp_all add: sample_world_def)

lemma sample_valid: "abs_items s = Map.empty \<Longrightarrow> valid_script cache_valid cache_spec sample_script s"
  by (simp add: sample_script_def c_string_def options_of_def no_options_def write_mode_def put_abs_def)



lemma sample_runs:
  assumes "cache_ok c" and "abs_items (abs_of c) = Map.empty"
  shows "\<exists>r c1. run_script cache_run sample_script c = Some (r, c1) \<and> cache_ok c1"
proof -
  have "abs_held (snd (spec_script cache_spec sample_script (abs_of c))) = 0"
    using assms by (simp add: cache_ok_def sample_script_def options_of_def no_options_def write_mode_def put_abs_def Let_def split_def)
  then show ?thesis using cache_calls.script_refines [OF _ sample_valid [OF assms(2)]] assms(1) abs_of_simps(3) by (metis cache_ok_def)
qed

theorem pruner_keeps_limits_witness:
  "\<exists>c r c1 c2 i. sample_built = Some c \<and> run_script cache_run sample_script c = Some (r, c1) \<and> localPruner (\<lambda>_. True) False 100 c1 = Some c2
     \<and> cache_ok c2 \<and> cache_view c2 = keep (prune_date 100 i) (cache_view c1) \<and> cache_view c2 ''a'' = None \<and> cache_view c2 ''b'' \<noteq> None"
proof -
  obtain w c where c: "localConstructor (\<lambda>_. True) 0 False (Some sample_limits) sample_world = Some w" "caches w 0 = Some c" "sample_built = Some c" by (rule sample_obtain)
  have e: "cache_ok c" "abs_items (abs_of c) = Map.empty" using construct_ok(1,2) [OF c(1) sample_blank c(2)] by simp_all
  obtain r c1 where r: "run_script cache_run sample_script c = Some (r, c1)" "cache_ok c1"
    using sample_runs [OF e] by (elim exE conjE)
  have run: "map_option (\<lambda>c. map_option (\<lambda>(_, c1). (map_option (\<lambda>h. hlength h \<le> hsize h) (store c1),
       map_option (\<lambda>c2. (cache_view c2 ''a'' = None, cache_view c2 ''b'' = None)) (localPruner (\<lambda>_. True) False 100 c1))) (run_script cache_run sample_script c)) sample_built
     = Some (Some (Some True, Some (True, False)))" by code_simp
  then have "settled c1" by (auto simp: c(3) r(1) settled_def)
  from pruner_keeps_limits [OF r(2) this, of False 100] obtain c2 i where 2: "localPruner (\<lambda>_. True) False 100 c1 = Some c2" "cache_ok c2"
    "cache_view c2 = keep (prune_date 100 i) (cache_view c1)" by (elim exE conjE)
  have "cache_view c2 ''a'' = None" "cache_view c2 ''b'' \<noteq> None" using run by (simp_all add: c(3) r(1) 2(1))
  with c(3) r(1) 2 show ?thesis by blast
qed

text \<open>
  Property C36. Adding a key that exists returns with the lock held: from then on the pruner of another thread does nothing.
\<close>

theorem add_existing_keeps_lock:
  assumes a: "redirect a w = Some b" "caches w b = Some c" and ok: "cache_ok c" and k: "c_string k" and v: "cache_view c k = Some it"
    and o': "w_mode opts = Some ''add''" "w_version opts = None" "w_lifespan opts = None"
  shows "\<exists>c'. sl_write (\<lambda>_. True) now k val (Some opts) a w = Some (Returned CNull, w\<lparr>caches := (caches w)(b \<mapsto> c')\<rparr>) \<and> cache_view c' = cache_view c \<and> locks c' = 1
     \<and> (\<forall>mem later. localPruner mem False later c' = Some c')"
proof -
  obtain h where h: "store c = Some h" "plain_table h" "items_ok h (items c) (free_item c)" using ok by (auto simp: cache_ok_def cache_wf_def)
  obtain kp h1 where l: "mprLookupKeyEntry (\<lambda>_. True) h k = Some (kp, h1)" "table_view h1 = table_view h"
    "kp = None \<longleftrightarrow> table_view h k = None" "\<forall>a. kp = Some a \<longrightarrow> (\<exists>sp. keys h1 a = Some sp \<and> data sp = table_view h k)"
    using plain_entry [OF h(2) k] by (elim exE conjE)
  obtain i where i: "table_view h k = Some i" "items c i = Some it" using v h(1) by (auto simp: cache_view_def bind_eq_Some_conv)
  obtain e sp where e: "kp = Some e" "keys h1 e = Some sp" "data sp = Some i" using l(3,4) i(1) by (cases kp) auto
  let ?c = "(lock c)\<lparr>store := Some h1\<rparr>"
  have "write_body (\<lambda>_. True) now k val (Some opts) c = Some (Returned CNull, ?c)"
    using o' h(1) k l(1) e i(2) by (simp add: write_body_def write_item_def write_mode_def new_data_def Let_def)
  then have "sl_write (\<lambda>_. True) now k val (Some opts) a w = Some (Returned CNull, w\<lparr>caches := (caches w)(b \<mapsto> ?c)\<rparr>)" using a by (simp add: sl_write_def call_body_def)
  moreover have "cache_view ?c = cache_view c" using h(1) l(2) by (simp add: cache_view_def fun_eq_iff)
  moreover have "locks ?c = 1" using ok by (simp add: cache_ok_def)
  ultimately show ?thesis by (intro exI [of _ ?c]) (simp add: localPruner_def)
qed

theorem add_existing_keeps_lock_witness:
  "\<exists>w c r c1 c2. caches w 0 = Some c1 \<and> sample_built = Some c \<and> run_script cache_run sample_script c = Some (r, c1)
     \<and> sl_write (\<lambda>_. True) 50 ''b'' ''y'' (Some (no_options\<lparr>w_mode := Some ''add''\<rparr>)) 0 w = Some (Returned CNull, w\<lparr>caches := (caches w)(0 \<mapsto> c2)\<rparr>)
     \<and> localPruner (\<lambda>_. True) False 100 c2 = Some c2"
proof -
  obtain w c where c: "localConstructor (\<lambda>_. True) 0 False (Some sample_limits) sample_world = Some w" "caches w 0 = Some c" "sample_built = Some c" by (rule sample_obtain)
  have e: "cache_ok c" "abs_items (abs_of c) = Map.empty" "shared_link c = None" using construct_ok(1,2,4) [OF c(1) sample_blank c(2)] by simp_all
  obtain r c1 where r: "run_script cache_run sample_script c = Some (r, c1)" "cache_ok c1"
    using sample_runs [OF e(1,2)] by (elim exE conjE)
  have "map_option (\<lambda>c. map_option (\<lambda>(_, c1). (cache_view c1 ''b'' = None, shared_link c1)) (run_script cache_run sample_script c)) sample_built = Some (Some (False, None))" by code_simp
  then obtain it where it: "cache_view c1 ''b'' = Some it" "shared_link c1 = None" by (auto simp: c(3) r(1))
  define w1 where "w1 = w\<lparr>caches := (caches w)(0 \<mapsto> c1)\<rparr>"
  have w1: "redirect 0 w1 = Some 0" "caches w1 0 = Some c1" using it(2) by (simp_all add: w1_def redirect_def)
  obtain c2 where "sl_write (\<lambda>_. True) 50 ''b'' ''y'' (Some (no_options\<lparr>w_mode := Some ''add''\<rparr>)) 0 w1 = Some (Returned CNull, w1\<lparr>caches := (caches w1)(0 \<mapsto> c2)\<rparr>)"
    "localPruner (\<lambda>_. True) False 100 c2 = Some c2"
    using add_existing_keeps_lock [OF w1 r(2) _ it(1), of "no_options\<lparr>w_mode := Some ''add''\<rparr>" 50 "''y''"] by (auto simp: no_options_def c_string_def)
  then show ?thesis using c(3) r(1) w1(2) by blast
qed

text \<open>
  Property C35. Caches that ask to be shared are one: for a cache built with the option while there is a shared cache, and a clone of a
  shared or linked cache, it makes no difference on which of the objects a call of a script is made, for every method but
  \<^verbatim>\<open>destroy\<close>, which acts on its own object. The answers are those of the shared cache, and it alone changes.
\<close>

theorem shared_caches_agree:
  assumes a: "localConstructor (\<lambda>_. True) a True o1 w = Some w1" "caches w a = Some blank_cache" "shared w = None"
    and b: "localConstructor (\<lambda>_. True) b True o2 w1 = Some w2" "caches w1 b \<noteq> None" "a \<noteq> b"
    and d: "cloneLocalCache (\<lambda>_. True) e d w2 = Some w3" "e = a \<or> e = b" "d \<noteq> a" "d \<noteq> b"
    and c: "caches w1 a = Some c" and xs: "fst ` set xs \<subseteq> {a, b, d}"
  shows "run_script (\<lambda>(x, call). world_run x call) xs w3 = map_option (\<lambda>(rs, c'). (rs, w3\<lparr>caches := (caches w3)(a \<mapsto> c')\<rparr>)) (run_script cache_run (map snd xs) c)
     \<and> run_script (\<lambda>(x, call). world_run x call) xs w3 = run_script (world_run a) (map snd xs) w3"
proof -
  have sh: "shared w1 = Some a" using a by (auto simp: localConstructor_def bind_eq_Some_conv)
  have link: "shared_link c = None" using construct_ok(4) [OF a(1,2) _ c] a(3) by simp
  obtain x :: local_cache where "caches w2 = (caches w1)(b \<mapsto> x\<lparr>shared_link := Some a\<rparr>)" "shared w2 = Some a" using b sh by (auto simp: localConstructor_def)
  then have w2: "caches w2 a = Some c" "caches w2 b = Some (x\<lparr>shared_link := Some a\<rparr>)" "shared w2 = Some a" using b(3) c by simp_all
  have w3: "caches w3 = (caches w2)(d \<mapsto> blank_cache\<lparr>shared_link := Some a\<rparr>)" using d(1,2) w2 link by (auto simp: cloneLocalCache_def bind_eq_Some_conv Let_def)
  have "caches w3 a = Some c" "caches w3 b = Some (x\<lparr>shared_link := Some a\<rparr>)" "caches w3 d = Some (blank_cache\<lparr>shared_link := Some a\<rparr>)"
    using w3 w2 d(3,4) by simp_all
  with link have "linked a {a, b, d} w3" "caches w3 a = Some c" by (simp_all add: linked_def redirect_def)
  then show ?thesis using linked_script [OF _ _ xs] own_script [OF _ link] by simp
qed

definition sample_shared :: "(nat \<times> cache_call) list" where
  "sample_shared = [(1, Write ''a'' ''x'' None 10), (0, Write ''a'' ''y'' (Some (no_options\<lparr>w_mode := Some ''append''\<rparr>)) 20), (2, Read ''a'' False 30), (0, Remove (Some ''a'')), (1, Read ''a'' False 40)]"

theorem shared_caches_agree_witness:
  "\<exists>w1 w2 w3 w4. localConstructor (\<lambda>_. True) 0 True None sample_world = Some w1 \<and> localConstructor (\<lambda>_. True) 1 True None w1 = Some w2 \<and> cloneLocalCache (\<lambda>_. True) 1 2 w2 = Some w3
     \<and> run_script (\<lambda>(x, call). world_run x call) sample_shared w3
       = Some ([Returned (CNumber 2), Returned (CNumber 3), Returned (CString ''xy''), Returned (CBool True), Returned CNull], w4)
     \<and> run_script (world_run 0) (map snd sample_shared) w3
       = Some ([Returned (CNumber 2), Returned (CNumber 3), Returned (CString ''xy''), Returned (CBool True), Returned CNull], w4)"
proof -
  obtain w1 c where 1: "localConstructor (\<lambda>_. True) 0 True None sample_world = Some w1" "caches w1 1 \<noteq> None" "shared w1 = Some 0" "caches w1 0 = Some c"
    by (simp add: localConstructor_def sample_world_def setLocalLimits_def)
  obtain w2 where 2: "localConstructor (\<lambda>_. True) 1 True None w1 = Some w2" "caches w2 1 \<noteq> None" using 1(2,3) by (auto simp: localConstructor_def)
  obtain w3 where 3: "cloneLocalCache (\<lambda>_. True) 1 2 w2 = Some w3" using 2(2) by (auto simp: cloneLocalCache_def)
  have w: "caches sample_world 0 = Some blank_cache" "shared sample_world = None" "0 \<noteq> (1 :: nat)" "(1 :: nat) = 0 \<or> (1 :: nat) = 1" "2 \<noteq> (0 :: nat)" "2 \<noteq> (1 :: nat)"
    by (simp_all add: sample_world_def)
  have objs: "fst ` set sample_shared \<subseteq> {0, 1, 2}" by (simp add: sample_shared_def)
  note agree = shared_caches_agree [OF 1(1) w(1,2) 2(1) 1(2) w(3) 3 w(4-6) 1(4) objs]
  have "Option.bind (localConstructor (\<lambda>_. True) 0 True None sample_world) (\<lambda>w1. Option.bind (localConstructor (\<lambda>_. True) 1 True None w1) (\<lambda>w2.
      Option.bind (cloneLocalCache (\<lambda>_. True) 1 2 w2) (\<lambda>w3. map_option fst (run_script (\<lambda>(x, call). world_run x call) sample_shared w3))))
     = Some [Returned (CNumber 2), Returned (CNumber 3), Returned (CString ''xy''), Returned (CBool True), Returned CNull]" by code_simp
  then obtain w4 where "run_script (\<lambda>(x, call). world_run x call) sample_shared w3
      = Some ([Returned (CNumber 2), Returned (CNumber 3), Returned (CString ''xy''), Returned (CBool True), Returned CNull], w4)"
    by (auto simp: 1(1) 2(1) [simplified] 3 [simplified])
  with conjunct2 [OF agree] 1(1) 2(1) 3 show ?thesis by metis
qed

end
