(* ===== verification/Json.thy ===== *)
theory Json
  imports MprString
begin

text \<open>
  JSON (\<^verbatim>\<open>src/core/src/ejsJSON.c\<close>): reading a string into objects and writing objects as a string, with the reading
  of plain values (\<^verbatim>\<open>ejsParse\<close> and \<^verbatim>\<open>parseNumber\<close> of \<^verbatim>\<open>src/vm/ejsHelper.c\<close>) and the quoting of strings (\<^verbatim>\<open>ejsToLiteralString\<close> of
  \<^verbatim>\<open>src/core/src/ejsString.c\<close>).

  \<^item> A pointer into the input is the rest of the input; behind the last character stands a null character. The pointer one past
    that, which is stored at the end of the input and not followed, is the empty rest.
  \<^item> Floating point numbers are a type parameter; what the host's library and the regular expression compiler do is in the record
    \<open>host\<close>. So is the printing of a number (\<open>number_string\<close>, which the core does with \<^verbatim>\<open>mprDtoa\<close> on the bits of a double): properties that need
    it name what they need, integers in decimal and other numbers with a point or an exponent, from which \<^verbatim>\<open>atof\<close> makes the number.
    Allocations succeed.
  \<^item> Reading makes new objects, so that its result is a tree. Writing goes through a heap of objects that may have cycles.
  \<^item> Buffers are the bytes in them, which is what a buffer promises (\<^verbatim>\<open>MprBuf\<close>).
\<close>

section \<open>Values\<close>

datatype 'n json =
    JUndefined
  | JNull
  | JBool bool
  | JNumber 'n
  | JString string
  | JRegExp string
  | JArray "'n json list"
  | JObject "(string \<times> 'n json) list"

record 'n host =
  of_int64 :: "int \<Rightarrow> 'n"
  nan :: 'n
  atof :: "string \<Rightarrow> 'n"
  negate :: "'n \<Rightarrow> 'n"
  number_string :: "'n \<Rightarrow> string"
  ejsParseRegExp :: "string \<Rightarrow> 'n json option"

definition NUL :: char where "NUL = CHR 0x00"
definition NL :: char where "NL = CHR 0x0A"
definition CR :: char where "CR = CHR 0x0D"
definition BS :: char where "BS = CHR 0x5C"
definition QUOTE :: char where "QUOTE = CHR 0x22"

lemmas char_defs = NUL_def NL_def CR_def BS_def QUOTE_def

definition deref :: "string \<Rightarrow> char" where
  "deref cp = (case cp of [] \<Rightarrow> NUL | c # _ \<Rightarrow> c)"

definition isalnum :: "char \<Rightarrow> bool" where
  "isalnum c \<longleftrightarrow> isdigit c \<or> (65 \<le> char_code c \<and> char_code c \<le> 90) \<or> (97 \<le> char_code c \<and> char_code c \<le> 122)"

section \<open>Plain values\<close>

definition has_fraction :: "string \<Rightarrow> bool" where
  "has_fraction str \<longleftrightarrow> (\<exists>c \<in> set str. c = CHR ''.'' \<or> tolower c = 101)"

definition parse_digits :: "string \<Rightarrow> int option" where
  "parse_digits str =
     (if deref str \<noteq> CHR ''0'' then map_option fst (dec_digits 10 str 0)
      else if tolower (deref (tl str)) = 120 then map_option fst (hex_digits (tl (tl str)) 0)
      else map_option fst (dec_digits 8 (tl str) 0))"

definition parseNumber :: "'n host \<Rightarrow> string \<Rightarrow> 'n option" where
  "parseNumber h str0 =
     (let negative = (deref str0 = CHR ''-'');
          str = (if deref str0 = CHR ''-'' \<or> deref str0 = CHR ''+'' then tl str0 else str0)
      in if deref str \<noteq> CHR ''.'' \<and> \<not> isdigit (deref str) then Some (nan h)
         else if \<not> (deref str = CHR ''0'' \<and> tolower (deref (tl str)) = 120) \<and> has_fraction str
         then let n = atof h (take 31 str) in Some (if negative then negate h n else n)
         else map_option (\<lambda>num. of_int64 h (if negative then 0 - num else num)) (parse_digits str))"

definition parseBoolean :: "string \<Rightarrow> bool" where
  "parseBoolean s \<longleftrightarrow> s \<noteq> [] \<and> s \<noteq> ''false'' \<and> s \<noteq> ''FALSE''"

text \<open>The type that is asked for; any negative type and \<^verbatim>\<open>Void\<close> leave the choice to the string.\<close>

datatype type_slot = S_Any | S_Void | S_Number | S_Boolean | S_RegExp | S_String | S_Other

definition guess_type :: "string \<Rightarrow> type_slot" where
  "guess_type buf =
     (let c = deref buf
      in if c = CHR ''-'' \<or> c = CHR ''+'' then S_Number
         else if c = CHR ''/'' then S_RegExp
         else if \<not> isdigit c \<and> c \<noteq> CHR ''.'' then S_String
         else S_Number)"

text \<open>The outer \<^const>\<open>None\<close> is an integer that overflows, the inner one the null pointer for an expression that does not compile.\<close>

definition ejsParse :: "'n host \<Rightarrow> string \<Rightarrow> type_slot \<Rightarrow> 'n json option option" where
  "ejsParse h str preferredType =
     (let buf = dropWhile isspace str;
          free = (preferredType = S_Void \<or> preferredType = S_Any);
          sid = (if free then guess_type buf else preferredType)
      in if free \<and> sid = S_String \<and> buf = ''true'' then Some (Some (JBool True))
         else if free \<and> sid = S_String \<and> buf = ''false'' then Some (Some (JBool False))
         else case sid of
                S_Number \<Rightarrow> map_option (\<lambda>n. Some (JNumber n)) (parseNumber h buf)
              | S_Boolean \<Rightarrow> Some (Some (JBool (parseBoolean buf)))
              | S_RegExp \<Rightarrow> Some (ejsParseRegExp h buf)
              | S_String \<Rightarrow>
                  Some (Some (if buf = ''null'' then JNull else if buf = ''undefined'' then JUndefined else JString buf))
              | _ \<Rightarrow> Some (Some JUndefined))"

section \<open>Tokens\<close>

datatype json_token =
    TOK_ERR | TOK_EOF | TOK_LBRACE | TOK_LBRACKET | TOK_RBRACE | TOK_RBRACKET | TOK_COLON | TOK_COMMA | TOK_ID | TOK_QID

record json_state =
  jnext :: string
  jerror :: "string option"

text \<open>The end of a comment. A comment that does not end is the null pointer.\<close>

fun block_end :: "string \<Rightarrow> string option" where
  "block_end (c # d # r) = (if c = CHR ''*'' \<and> d = CHR ''/'' then Some r else block_end (d # r))"
| "block_end _ = None"

fun line_end :: "string \<Rightarrow> string option" where
  "line_end (c # r) = (if c = NL then Some r else line_end r)"
| "line_end [] = None"

lemma comment_end_shorter: "block_end r = Some q \<Longrightarrow> length q < length r" "line_end r = Some q \<Longrightarrow> length q < length r"
proof -
  show "block_end r = Some q \<Longrightarrow> length q < length r" by (induction r rule: block_end.induct) (auto split: if_splits)
  show "line_end r = Some q \<Longrightarrow> length q < length r" by (induction r rule: line_end.induct) (auto split: if_splits)
qed

lemma length_skip [simp]: "length (dropWhile P xs) \<le> length xs"
  by (induction xs) auto

function skip_comments :: "string \<Rightarrow> string option" where
  "skip_comments cp =
     (if length cp < 2 then Some cp
      else if deref cp = CHR ''/'' \<and> deref (tl cp) = CHR ''*''
      then (case block_end (tl (tl cp)) of None \<Rightarrow> None | Some q \<Rightarrow> skip_comments (dropWhile isspace q))
      else if deref cp = CHR ''/'' \<and> deref (tl cp) = CHR ''/''
      then (case line_end (tl (tl cp)) of None \<Rightarrow> None | Some q \<Rightarrow> skip_comments (dropWhile isspace q))
      else Some cp)"
  by pat_completeness auto
termination
proof (relation "measure length", simp)
  fix cp q :: string
  have s: "length (dropWhile isspace q) < length cp" if "length q < length (tl (tl cp))"
    using that by (intro le_less_trans [OF length_skip]) simp
  show "(dropWhile isspace q, cp) \<in> measure length" if "block_end (tl (tl cp)) = Some q" using s [OF comment_end_shorter(1) [OF that]] by simp
  show "(dropWhile isspace q, cp) \<in> measure length" if "line_end (tl (tl cp)) = Some q" using s [OF comment_end_shorter(2) [OF that]] by simp
qed

declare skip_comments.simps [simp del]

definition skipComments :: "string \<Rightarrow> string option" where
  "skipComments cp = skip_comments (dropWhile isspace cp)"

text \<open>The characters of a token, and the rest behind them.\<close>

function scan_quoted :: "char \<Rightarrow> string \<Rightarrow> string \<times> string" where
  "scan_quoted quote cp =
     (case cp of
        [] \<Rightarrow> ([], [])
      | c # r \<Rightarrow>
          if c = BS \<and> r \<noteq> [] then map_prod (\<lambda>t. c # hd r # t) id (scan_quoted quote (tl r))
          else if c = quote then ([], cp)
          else map_prod (\<lambda>t. c # t) id (scan_quoted quote r))"
  by pat_completeness auto
termination by (relation "measure (length \<circ> snd)") auto

function scan_regexp :: "string \<Rightarrow> string \<times> string" where
  "scan_regexp cp =
     (case cp of
        [] \<Rightarrow> ([], [])
      | c # r \<Rightarrow>
          if c = BS then if deref r = CHR ''/'' then map_prod (\<lambda>t. c # hd r # t) id (scan_regexp (tl r)) else map_prod (\<lambda>t. c # t) id (scan_regexp r)
          else if c = CHR ''/'' then ([], cp)
          else map_prod (\<lambda>t. c # t) id (scan_regexp r))"
  by pat_completeness auto
termination by (relation "measure length") auto

declare scan_quoted.simps [simp del] scan_regexp.simps [simp del]

definition id_char :: "char \<Rightarrow> bool" where
  "id_char c \<longleftrightarrow> c = BS \<or> isalnum c \<or> c = CHR ''_'' \<or> c = CHR ''-'' \<or> c = CHR ''+'' \<or> c = CHR ''.''"

text \<open>The left value is the place of an error; else the kind, whether it is a regular expression, its characters, and the rest.\<close>

definition scan_token :: "string \<Rightarrow> string + (json_token \<times> bool \<times> string \<times> string)" where
  "scan_token cp =
     (let c = deref cp
      in if c = QUOTE \<or> c = CHR 0x27 \<or> c = CHR 0x60
         then let (t, r) = scan_quoted c (tl cp) in if deref r \<noteq> c then Inl r else Inr (TOK_QID, False, t, tl r)
         else if c = CHR ''/''
         then let (t, r) = scan_regexp (tl cp) in if deref r \<noteq> CHR ''/'' then Inl r else Inr (TOK_ID, True, c # t @ [CHR ''/''], tl r)
         else Inr (TOK_ID, False, takeWhile id_char cp, dropWhile id_char cp))"

definition escaped :: "char \<Rightarrow> char" where
  "escaped c = (if c = CHR ''r'' then CR else if c = CHR ''n'' then NL else if c = CHR ''b'' then CHR 0x08 else c)"

text \<open>A backslash at the end takes the null character that ends the buffer.\<close>

function unescape :: "bool \<Rightarrow> string \<Rightarrow> string" where
  "unescape isReg src =
     (case src of
        [] \<Rightarrow> []
      | c # r \<Rightarrow> if c = BS \<and> \<not> isReg then escaped (deref r) # unescape isReg (tl r) else c # unescape isReg r)"
  by pat_completeness auto
termination by (relation "measure (length \<circ> snd)") auto

declare unescape.simps [simp del]

text \<open>
  The next token; with a buffer also its text. \<^const>\<open>None\<close> is the null pointer of a comment that does not end, which is followed.
\<close>

definition getNextJsonToken :: "bool \<Rightarrow> json_state \<Rightarrow> (json_token \<times> string option \<times> json_state) option" where
  "getNextJsonToken buf js =
     (case skipComments (jnext js) of
        None \<Rightarrow> None
      | Some cp \<Rightarrow>
          let c = deref cp
          in if c = NUL then Some (TOK_EOF, None, js\<lparr>jnext := tl cp\<rparr>)
             else if c = CHR ''{'' then Some (TOK_LBRACE, None, js\<lparr>jnext := tl cp\<rparr>)
             else if c = CHR ''['' then Some (TOK_LBRACKET, None, js\<lparr>jnext := tl cp\<rparr>)
             else if c = CHR ''}'' \<or> c = CHR '']''
             then let cp1 = dropWhile isspace (tl cp); d = deref cp1
                  in if d \<noteq> NUL \<and> d \<noteq> CHR '','' \<and> d \<noteq> CHR ''}'' \<and> d \<noteq> CHR '']'' \<and> d \<noteq> CHR ''/''
                     then Some (TOK_ERR, None, js\<lparr>jerror := Some cp1\<rparr>)
                     else Some (if c = CHR ''}'' then TOK_RBRACE else TOK_RBRACKET, None,
                                js\<lparr>jnext := if d = CHR '','' \<or> d = CHR '':'' then tl cp1 else cp1\<rparr>)
             else case scan_token cp of
                    Inl e \<Rightarrow> Some (TOK_ERR, None, js\<lparr>jerror := Some e\<rparr>)
                  | Inr (tid, isReg, t, r) \<Rightarrow>
                      let r1 = dropWhile isspace r; d = deref r1
                      in if d \<noteq> CHR '','' \<and> d \<noteq> CHR '':'' \<and> d \<noteq> CHR ''}'' \<and> d \<noteq> CHR '']'' \<and> d \<noteq> NUL \<and> d \<noteq> NL \<and> d \<noteq> CR \<and> d \<noteq> CHR '' ''
                         then Some (TOK_ERR, None, js\<lparr>jerror := Some r1\<rparr>)
                         else Some (tid, if buf then Some (c_str (unescape isReg t)) else None,
                                    js\<lparr>jnext := if d = CHR '','' \<or> d = CHR '':'' then tl r1 else r1\<rparr>))"

definition peekNextJsonToken :: "json_state \<Rightarrow> json_token option" where
  "peekNextJsonToken js = map_option fst (getNextJsonToken False js)"

section \<open>Reading\<close>

text \<open>The object under construction: elements, or properties with the last key that was read.\<close>

datatype 'n frame = ArrayFrame "'n json list" | ObjectFrame "(string \<times> 'n json) list" "string option"

fun finish :: "'n frame \<Rightarrow> 'n json" where
  "finish (ArrayFrame xs) = JArray xs"
| "finish (ObjectFrame ps _) = JObject ps"

fun set_key :: "string option \<Rightarrow> 'n frame \<Rightarrow> 'n frame" where
  "set_key k (ObjectFrame ps _) = ObjectFrame ps k"
| "set_key k f = f"

fun set_property :: "string \<Rightarrow> 'v \<Rightarrow> (string \<times> 'v) list \<Rightarrow> (string \<times> 'v) list" where
  "set_property k v [] = [(k, v)]"
| "set_property k v ((k', v') # ps) = (if k = k' then (k, v) # ps else (k', v') # set_property k v ps)"

text \<open>A key that was never read is an uninitialised pointer (\<^const>\<open>None\<close>).\<close>

fun add_member :: "'n frame \<Rightarrow> 'n json \<Rightarrow> 'n frame option" where
  "add_member (ArrayFrame xs) v = Some (ArrayFrame (xs @ [v]))"
| "add_member (ObjectFrame ps (Some k)) v = Some (ObjectFrame (set_property k v ps) (Some k))"
| "add_member (ObjectFrame ps None) v = None"

text \<open>
  One round of the loop up to the value: the loop stops with a result, a nested literal follows, or the value is there, where a
  null pointer is possible.
\<close>

datatype 'n member = Stop "'n json option" json_state | Nested "'n frame" json_state | Value "'n frame" "'n json option" json_state

text \<open>The value of a property: a token whose kind is known.\<close>

definition property_value :: "'n host \<Rightarrow> 'n frame \<Rightarrow> json_state \<Rightarrow> 'n member option" where
  "property_value h f js =
     (case getNextJsonToken True js of
        Some (tid, Some value, js1) \<Rightarrow>
          if tid = TOK_QID then Some (Value f (Some (JString value)) js1)
          else if value = ''null'' then Some (Value f (Some JNull) js1)
          else if value = ''undefined'' then Some (Value f (Some JUndefined) js1)
          else map_option (\<lambda>v. Value f v js1) (ejsParse h value S_Any)
      | _ \<Rightarrow> None)"

definition next_property :: "'n host \<Rightarrow> 'n frame \<Rightarrow> json_state \<Rightarrow> 'n member option" where
  "next_property h f js =
     (case getNextJsonToken True js of
        None \<Rightarrow> None
      | Some (_, k, js1) \<Rightarrow>
          (case peekNextJsonToken js1 of
             None \<Rightarrow> None
           | Some tid \<Rightarrow>
               if tid = TOK_ERR then Some (Stop None js1)
               else if tid = TOK_EOF then Some (Stop (Some (finish f)) js1)
               else if tid = TOK_LBRACE \<or> tid = TOK_LBRACKET then Some (Nested (set_key k f) js1)
               else if tid = TOK_ID \<or> tid = TOK_QID then property_value h (set_key k f) js1
               else (case getNextJsonToken True js1 of
                       None \<Rightarrow> None
                     | Some (_, _, js2) \<Rightarrow> Some (Stop None (js2\<lparr>jerror := Some (jnext js2)\<rparr>)))))"

definition next_element :: "'n host \<Rightarrow> 'n frame \<Rightarrow> json_state \<Rightarrow> 'n member option" where
  "next_element h f js =
     (case getNextJsonToken True js of
        Some (tid, Some value, js1) \<Rightarrow> map_option (\<lambda>v. Value f v js1) (ejsParse h value (if tid = TOK_QID then S_String else S_Any))
      | _ \<Rightarrow> None)"

definition next_member :: "'n host \<Rightarrow> 'n frame \<Rightarrow> json_state \<Rightarrow> 'n member option" where
  "next_member h f js =
     (case peekNextJsonToken js of
        None \<Rightarrow> None
      | Some tid \<Rightarrow>
          if tid = TOK_ERR then Some (Stop None js)
          else if tid = TOK_EOF then Some (Stop (Some (finish f)) js)
          else if tid = TOK_RBRACE \<or> tid = TOK_RBRACKET
          then (case getNextJsonToken True js of None \<Rightarrow> None | Some (_, _, js1) \<Rightarrow> Some (Stop (Some (finish f)) js1))
          else if tid = TOK_LBRACE \<or> tid = TOK_LBRACKET then Some (Nested f js)
          else case f of ArrayFrame _ \<Rightarrow> next_element h f js | ObjectFrame _ _ \<Rightarrow> next_property h f js)"

text \<open>The end of a round: a null pointer is an error.\<close>

definition end_round :: "'n frame \<Rightarrow> 'n json option \<Rightarrow> json_state \<Rightarrow> ('n frame option \<times> json_state) option" where
  "end_round f v js =
     (case v of
        None \<Rightarrow> Some (None, js\<lparr>jerror := Some (jnext js)\<rparr>)
      | Some x \<Rightarrow> map_option (\<lambda>f1. (Some f1, js)) (add_member f x))"

text \<open>The start of a literal: a frame, or a result without one.\<close>

definition open_literal :: "'n host \<Rightarrow> json_state \<Rightarrow> (('n frame + 'n json option) \<times> json_state) option" where
  "open_literal h js =
     (case getNextJsonToken True js of
        None \<Rightarrow> None
      | Some (tid, token, js1) \<Rightarrow>
          if tid = TOK_ERR \<or> tid = TOK_EOF then Some (Inr None, js1)
          else if tid = TOK_LBRACKET then Some (Inl (ArrayFrame []), js1)
          else if tid = TOK_LBRACE then Some (Inl (ObjectFrame [] None), js1)
          else (case token of None \<Rightarrow> None | Some t \<Rightarrow> map_option (\<lambda>v. (Inr v, js1)) (ejsParse h t S_String)))"

text \<open>
  A literal, or the rounds of the loop on a frame. The outer \<^const>\<open>None\<close> is a run that does not end, the inner one undefined
  behaviour.
\<close>

partial_function (option) parseLiteralInner :: "'n host \<Rightarrow> 'n frame option \<Rightarrow> json_state \<Rightarrow> ('n json option \<times> json_state) option option" where
  "parseLiteralInner h frame js =
     (case frame of
        None \<Rightarrow>
          (case open_literal h js of
             None \<Rightarrow> Some None
           | Some (start, js1) \<Rightarrow> (case start of Inr r \<Rightarrow> Some (Some (r, js1)) | Inl f \<Rightarrow> parseLiteralInner h (Some f) js1))
      | Some f \<Rightarrow>
          (case next_member h f js of
             None \<Rightarrow> Some None
           | Some mb \<Rightarrow>
               (case mb of
                  Stop r js1 \<Rightarrow> Some (Some (r, js1))
                | Value f1 v js1 \<Rightarrow>
                    (case end_round f1 v js1 of
                       None \<Rightarrow> Some None
                     | Some (f2, js2) \<Rightarrow> (case f2 of None \<Rightarrow> Some (Some (None, js2)) | Some f3 \<Rightarrow> parseLiteralInner h (Some f3) js2))
                | Nested f1 js1 \<Rightarrow>
                    Option.bind (parseLiteralInner h None js1)
                      (\<lambda>r. case r of
                             None \<Rightarrow> Some None
                           | Some (v, js2) \<Rightarrow>
                               (case end_round f1 v js2 of
                                  None \<Rightarrow> Some None
                                | Some (f2, js3) \<Rightarrow> (case f2 of None \<Rightarrow> Some (Some (None, js3)) | Some f3 \<Rightarrow> parseLiteralInner h (Some f3) js3))))))"

declare parseLiteralInner.simps [code]

definition ejsDeserialize :: "'n host \<Rightarrow> string \<Rightarrow> (ejs_error + 'n json) option option" where
  "ejsDeserialize h str =
     (if str = [] then Some (Some (Inr (JString [])))
      else map_option (map_option (\<lambda>(obj, js). case obj of None \<Rightarrow> Inl SyntaxError | Some v \<Rightarrow> Inr v))
             (parseLiteralInner h None \<lparr>jnext = str, jerror = None\<rparr>))"

section \<open>Every token shortens the input\<close>

lemma skip_comments_ok:
  "skip_comments cp = Some q \<Longrightarrow> cp = [] \<or> \<not> isspace (hd cp) \<Longrightarrow> length q \<le> length cp \<and> (q = [] \<or> \<not> isspace (hd q))"
proof (induction cp rule: skip_comments.induct)
  case (1 cp)
  have head: "p = [] \<or> \<not> isspace (hd p)" if "p = dropWhile isspace r" for p r using that hd_dropWhile [of isspace r] by auto
  have len: "length (dropWhile isspace r) \<le> length cp" if "length r < length (tl (tl cp))" for r
    using that by (intro order_trans [OF length_skip]) simp
  show ?case
  proof (cases "length cp < 2")
    case True
    with 1 show ?thesis by (simp add: skip_comments.simps [of cp])
  next
    case False
    consider (block) "deref cp = CHR ''/'' \<and> deref (tl cp) = CHR ''*''" | (line) "deref cp = CHR ''/'' \<and> deref (tl cp) = CHR ''/''"
      | (none) "\<not> (deref cp = CHR ''/'' \<and> deref (tl cp) = CHR ''*'')" "\<not> (deref cp = CHR ''/'' \<and> deref (tl cp) = CHR ''/'')" by blast
    then show ?thesis
    proof cases
      case block
      then obtain r where r: "block_end (tl (tl cp)) = Some r" "skip_comments (dropWhile isspace r) = Some q"
        using 1(3) False by (subst (asm) skip_comments.simps) (auto split: option.splits)
      show ?thesis using 1(1) [OF False block r(1,2) head [OF refl]] len [OF comment_end_shorter(1) [OF r(1)]] by linarith
    next
      case line
      then obtain r where r: "line_end (tl (tl cp)) = Some r" "skip_comments (dropWhile isspace r) = Some q"
        using 1(3) False by (subst (asm) skip_comments.simps) (auto split: option.splits)
      have "\<not> (deref cp = CHR ''/'' \<and> deref (tl cp) = CHR ''*'')" using line by auto
      from 1(2) [OF False this line r(1,2) head [OF refl]] len [OF comment_end_shorter(2) [OF r(1)]] show ?thesis by linarith
    next
      case none
      with 1(3,4) False show ?thesis by (subst (asm) skip_comments.simps) (auto split: if_splits)
    qed
  qed
qed

lemma skipComments_ok: "skipComments cp = Some q \<Longrightarrow> length q \<le> length cp" "skipComments cp = Some q \<Longrightarrow> q = [] \<or> \<not> isspace (hd q)"
proof -
  assume q: "skipComments cp = Some q"
  have "dropWhile isspace cp = [] \<or> \<not> isspace (hd (dropWhile isspace cp))" using hd_dropWhile [of isspace cp] by auto
  from skip_comments_ok [OF q [unfolded skipComments_def] this] show "length q \<le> length cp" "q = [] \<or> \<not> isspace (hd q)"
    using length_skip [of isspace cp] by linarith+
qed

lemma scan_quoted_shorter: "length (snd (scan_quoted quote cp)) \<le> length cp"
proof (induction quote cp rule: scan_quoted.induct)
  case (1 quote cp)
  show ?case
  proof (cases cp)
    case (Cons c r)
    show ?thesis
    proof (cases "c = BS \<and> r \<noteq> []")
      case True
      then have "length (snd (scan_quoted quote (tl r))) \<le> length (tl r)" using 1(1) [OF Cons] by simp
      with True Cons show ?thesis by (subst scan_quoted.simps) (simp split: list.split)
    next
      case False
      then have "c \<noteq> quote \<Longrightarrow> length (snd (scan_quoted quote r)) \<le> length r" using 1(2) [OF Cons False] by simp
      with False Cons show ?thesis by (subst scan_quoted.simps) auto
    qed
  qed (simp add: scan_quoted.simps)
qed

lemma scan_regexp_shorter: "length (snd (scan_regexp cp)) \<le> length cp"
proof (induction cp rule: scan_regexp.induct)
  case (1 cp)
  show ?case
  proof (cases cp)
    case (Cons c r)
    have a: "c = BS \<Longrightarrow> deref r = CHR ''/'' \<Longrightarrow> length (snd (scan_regexp (tl r))) \<le> length (tl r)" using 1(1) [OF Cons] by simp
    have b: "c = BS \<Longrightarrow> deref r \<noteq> CHR ''/'' \<Longrightarrow> length (snd (scan_regexp r)) \<le> length r" using 1(2) [OF Cons] by simp
    have c: "c \<noteq> BS \<Longrightarrow> c \<noteq> CHR ''/'' \<Longrightarrow> length (snd (scan_regexp r)) \<le> length r" using 1(3) [OF Cons] by simp
    have t: "length (tl r) \<le> length r" by simp
    show ?thesis using a b c t Cons by (subst scan_regexp.simps) (auto simp: le_Suc_eq)
  qed (simp add: scan_regexp.simps)
qed

lemma deref_simps [simp]: "deref [] = NUL" "deref (c # r) = c"
  by (simp_all add: deref_def)

lemma isspace_chars [simp]: "isspace NL" "isspace CR" "isspace CHR '' ''" "\<not> isspace NUL"
  by code_simp+

lemma scan_token_shorter:
  assumes "scan_token cp = Inr (tid, isReg, t, r)" and "cp \<noteq> []"
  shows "length r < length cp \<or> (\<not> id_char (hd cp) \<and> r = cp)"
proof -
  have q: "length (tl (snd (scan_quoted c (tl cp)))) < length cp" "length (tl (snd (scan_regexp (tl cp)))) < length cp" for c
    using scan_quoted_shorter [of c "tl cp"] scan_regexp_shorter [of "tl cp"] assms(2) by (cases cp; simp)+
  have i: "length (dropWhile id_char cp) < length cp \<or> (\<not> id_char (hd cp) \<and> dropWhile id_char cp = cp)"
    using assms(2) by (cases cp) (auto simp: le_imp_less_Suc)
  show ?thesis using assms(1) q i by (auto simp: scan_token_def Let_def split_def split: if_splits)
qed

text \<open>The three kinds of tokens.\<close>

definition punctuation :: "char \<Rightarrow> bool" where
  "punctuation c \<longleftrightarrow> c = NUL \<or> c = CHR ''{'' \<or> c = CHR ''[''"

definition closing :: "char \<Rightarrow> bool" where
  "closing c \<longleftrightarrow> c = CHR ''}'' \<or> c = CHR '']''"

definition separator :: "char \<Rightarrow> bool" where
  "separator c \<longleftrightarrow> c = CHR '','' \<or> c = CHR '':''"

definition ends_word :: "char \<Rightarrow> bool" where
  "ends_word c \<longleftrightarrow> separator c \<or> closing c \<or> c = NUL \<or> c = NL \<or> c = CR \<or> c = CHR '' ''"

definition after_word :: "string \<Rightarrow> string" where
  "after_word r = (let r1 = dropWhile isspace r in if separator (deref r1) then tl r1 else r1)"

lemma get_punctuation:
  "skipComments (jnext js) = Some cp \<Longrightarrow> punctuation (deref cp)
   \<Longrightarrow> getNextJsonToken b js = Some (if deref cp = NUL then TOK_EOF else if deref cp = CHR ''{'' then TOK_LBRACE else TOK_LBRACKET, None, js\<lparr>jnext := tl cp\<rparr>)"
  by (auto simp: getNextJsonToken_def punctuation_def char_defs)

lemma get_closing:
  assumes "skipComments (jnext js) = Some cp" and "closing (deref cp)"
  shows "getNextJsonToken b js =
     (let cp1 = dropWhile isspace (tl cp); d = deref cp1
      in if d \<noteq> NUL \<and> d \<noteq> CHR '','' \<and> \<not> closing d \<and> d \<noteq> CHR ''/'' then Some (TOK_ERR, None, js\<lparr>jerror := Some cp1\<rparr>)
         else Some (if deref cp = CHR ''}'' then TOK_RBRACE else TOK_RBRACKET, None, js\<lparr>jnext := after_word (tl cp)\<rparr>))"
proof -
  have "deref cp \<noteq> NUL \<and> deref cp \<noteq> CHR ''{'' \<and> deref cp \<noteq> CHR ''['' \<and> (deref cp = CHR ''}'' \<or> deref cp = CHR '']'')"
    using assms(2) by (auto simp: closing_def char_defs)
  with assms(1) show ?thesis by (simp add: getNextJsonToken_def Let_def after_word_def separator_def closing_def [of "deref (dropWhile isspace (tl cp))"])
qed

lemma get_word:
  assumes "skipComments (jnext js) = Some cp" and "\<not> punctuation (deref cp)" and "\<not> closing (deref cp)"
  shows "getNextJsonToken b js =
     (case scan_token cp of
        Inl e \<Rightarrow> Some (TOK_ERR, None, js\<lparr>jerror := Some e\<rparr>)
      | Inr (tid, isReg, t, r) \<Rightarrow>
          if \<not> ends_word (deref (dropWhile isspace r)) then Some (TOK_ERR, None, js\<lparr>jerror := Some (dropWhile isspace r)\<rparr>)
          else Some (tid, if b then Some (c_str (unescape isReg t)) else None, js\<lparr>jnext := after_word r\<rparr>))"
  using assms by (simp add: getNextJsonToken_def Let_def after_word_def separator_def closing_def punctuation_def ends_word_def split: sum.split prod.split)

text \<open>A token that is neither an error nor the end takes at least one character.\<close>

lemma after_word_shorter: "length (after_word r) \<le> length r"
  by (auto simp: after_word_def Let_def intro: order_trans [OF diff_le_self length_skip])

lemma get_shorter:
  assumes g: "getNextJsonToken b js = Some (tid, t, js')" and tid: "tid \<noteq> TOK_ERR" "tid \<noteq> TOK_EOF"
  shows "length (jnext js') < length (jnext js)"
proof -
  obtain cp where cp: "skipComments (jnext js) = Some cp" using g unfolding getNextJsonToken_def by (cases "skipComments (jnext js)") simp_all
  note s = skipComments_ok [OF cp]
  consider "punctuation (deref cp)" | "\<not> punctuation (deref cp)" "closing (deref cp)" | "\<not> punctuation (deref cp)" "\<not> closing (deref cp)" by blast
  then have "length (jnext js') < length cp"
  proof cases
    case 1
    then show ?thesis using g tid unfolding get_punctuation [OF cp 1] by (cases cp) (auto split: if_splits)
  next
    case 2
    then have c: "cp \<noteq> []" by (auto simp: punctuation_def)
    have "jnext js' = after_word (tl cp)" using g tid unfolding get_closing [OF cp 2(2)] by (auto simp: Let_def split: if_splits)
    with c after_word_shorter [of "tl cp"] show ?thesis by (cases cp) simp_all
  next
    case 3
    then have c: "cp \<noteq> []" by (auto simp: punctuation_def)
    obtain k isReg x q where q: "scan_token cp = Inr (k, isReg, x, q)" "ends_word (deref (dropWhile isspace q))" "jnext js' = after_word q"
      using g tid unfolding get_word [OF cp 3] by (auto split: sum.splits if_splits)
    show ?thesis
    proof (cases "length q < length cp")
      case True
      with q(3) after_word_shorter [of q] show ?thesis by simp
    next
      case False
      then have "q = cp" using scan_token_shorter [OF q(1) c] by simp
      moreover obtain d r where "cp = d # r" "\<not> isspace d" using c s(2) by (cases cp) auto
      ultimately show ?thesis using q(2,3) 3 by (auto simp: after_word_def ends_word_def punctuation_def)
    qed
  qed
  with s(1) show ?thesis by simp
qed

lemma get_buffer:
  "getNextJsonToken False js = map_option (\<lambda>(tid, t, js'). (tid, None, js')) (getNextJsonToken True js)"
  by (simp add: getNextJsonToken_def Let_def split: option.split sum.split prod.split)

lemma scan_token_kind: "scan_token cp = Inr (tid, isReg, t, r) \<Longrightarrow> tid = TOK_ID \<or> tid = TOK_QID"
  by (auto simp: scan_token_def Let_def split_def split: if_splits)

lemma get_kinds:
  assumes g: "getNextJsonToken True js = Some (tid, t, js')"
  shows "(t \<noteq> None) = (tid = TOK_ID \<or> tid = TOK_QID)" "tid \<noteq> TOK_COLON" "tid \<noteq> TOK_COMMA"
proof -
  obtain cp where cp: "skipComments (jnext js) = Some cp" using g unfolding getNextJsonToken_def by (cases "skipComments (jnext js)") simp_all
  consider "punctuation (deref cp)" | "closing (deref cp)" | "\<not> punctuation (deref cp)" "\<not> closing (deref cp)" by blast
  then have "(t \<noteq> None) = (tid = TOK_ID \<or> tid = TOK_QID) \<and> tid \<noteq> TOK_COLON \<and> tid \<noteq> TOK_COMMA"
  proof cases
    case 1
    show ?thesis using g unfolding get_punctuation [OF cp 1] by (auto split: if_splits)
  next
    case 2
    show ?thesis using g unfolding get_closing [OF cp 2] by (auto simp: Let_def split: if_splits)
  next
    case 3
    show ?thesis using g scan_token_kind unfolding get_word [OF cp 3] by (fastforce split: sum.splits if_splits)
  qed
  then show "(t \<noteq> None) = (tid = TOK_ID \<or> tid = TOK_QID)" "tid \<noteq> TOK_COLON" "tid \<noteq> TOK_COMMA" by blast+
qed

lemma peek_get: "peekNextJsonToken js = Some tid \<longleftrightarrow> (\<exists>t js'. getNextJsonToken True js = Some (tid, t, js'))"
  by (auto simp: peekNextJsonToken_def get_buffer)

lemma get_le: "getNextJsonToken b js = Some (tid, t, js') \<Longrightarrow> length (jnext js') \<le> length (jnext js)"
proof -
  assume g: "getNextJsonToken b js = Some (tid, t, js')"
  obtain cp where cp: "skipComments (jnext js) = Some cp" using g unfolding getNextJsonToken_def by (cases "skipComments (jnext js)") simp_all
  show ?thesis
  proof (cases "tid = TOK_ERR \<or> tid = TOK_EOF")
    case False
    then show ?thesis using get_shorter [OF g] by simp
  next
    case True
    consider "punctuation (deref cp)" | "closing (deref cp)" | "\<not> punctuation (deref cp)" "\<not> closing (deref cp)" by blast
    then show ?thesis
    proof cases
      case 1
      show ?thesis using g skipComments_ok(1) [OF cp] unfolding get_punctuation [OF cp 1] by (auto intro: order_trans [OF diff_le_self])
    next
      case 2
      show ?thesis using g True unfolding get_closing [OF cp 2] by (auto simp: Let_def split: if_splits)
    next
      case 3
      show ?thesis using g True unfolding get_word [OF cp 3] by (auto dest: scan_token_kind split: sum.splits if_splits)
    qed
  qed
qed

definition shorter :: "'n member \<Rightarrow> json_state \<Rightarrow> bool" where
  "shorter mb js \<longleftrightarrow> (case mb of Stop _ js1 \<Rightarrow> length (jnext js1) \<le> length (jnext js) | Nested _ js1 \<Rightarrow> length (jnext js1) \<le> length (jnext js)
     | Value _ _ js1 \<Rightarrow> length (jnext js1) < length (jnext js))"

lemma shorter_trans: "shorter mb js1 \<Longrightarrow> length (jnext js1) \<le> length (jnext js) \<Longrightarrow> shorter mb js"
  by (auto simp: shorter_def split: member.splits)

lemma word_shorter:
  assumes "getNextJsonToken True js = Some (tid, Some value, js1)"
  shows "length (jnext js1) < length (jnext js)"
  using get_shorter [OF assms] get_kinds(1) [OF assms] by auto

lemma property_value_shorter: "property_value h f js = Some mb \<Longrightarrow> shorter mb js"
  by (auto simp: property_value_def shorter_def dest: word_shorter split: option.splits prod.splits if_splits)

lemma next_element_shorter: "next_element h f js = Some mb \<Longrightarrow> shorter mb js"
  by (auto simp: next_element_def shorter_def dest: word_shorter split: option.splits prod.splits)

lemma next_property_shorter: "next_property h f js = Some mb \<Longrightarrow> shorter mb js"
proof -
  assume n: "next_property h f js = Some mb"
  obtain t k js1 where g: "getNextJsonToken True js = Some (t, k, js1)" using n unfolding next_property_def by (cases "getNextJsonToken True js") auto
  obtain tid where p: "peekNextJsonToken js1 = Some tid" using n g unfolding next_property_def by (cases "peekNextJsonToken js1") auto
  note le = get_le [OF g]
  show ?thesis
  proof (cases "tid = TOK_ID \<or> tid = TOK_QID")
    case True
    then have "property_value h (set_key k f) js1 = Some mb" using n g p by (auto simp: next_property_def)
    then show ?thesis using property_value_shorter shorter_trans le by blast
  next
    case False
    then show ?thesis using n g p le by (auto simp: next_property_def shorter_def dest: get_le split: if_splits option.splits)
  qed
qed

lemma next_member_shorter: "next_member h f js = Some mb \<Longrightarrow> shorter mb js"
proof -
  assume n: "next_member h f js = Some mb"
  obtain tid where p: "peekNextJsonToken js = Some tid" using n unfolding next_member_def by (cases "peekNextJsonToken js") auto
  show ?thesis
  proof (cases "tid \<in> {TOK_ERR, TOK_EOF, TOK_RBRACE, TOK_RBRACKET, TOK_LBRACE, TOK_LBRACKET}")
    case True
    then show ?thesis using n p by (auto simp: next_member_def shorter_def dest: get_le split: if_splits option.splits)
  next
    case False
    then show ?thesis using n p next_element_shorter next_property_shorter by (auto simp: next_member_def split: frame.splits)
  qed
qed

lemma end_round_same: "end_round f v js = Some (f2, js2) \<Longrightarrow> length (jnext js2) = length (jnext js) \<and> (v = None \<longrightarrow> f2 = None)"
  by (auto simp: end_round_def split: option.splits)

lemma open_literal_shorter:
  "open_literal h js = Some (r, js1) \<Longrightarrow> length (jnext js1) \<le> length (jnext js) \<and> (r \<noteq> Inr None \<longrightarrow> length (jnext js1) < length (jnext js))"
  by (auto simp: open_literal_def dest: get_shorter get_le split: option.splits if_splits)

text \<open>The equations of the reader.\<close>

definition finish_round :: "'n host \<Rightarrow> 'n frame \<Rightarrow> 'n json option \<Rightarrow> json_state \<Rightarrow> ('n json option \<times> json_state) option option" where
  "finish_round h f v js =
     (case end_round f v js of
        None \<Rightarrow> Some None
      | Some (f2, js2) \<Rightarrow> (case f2 of None \<Rightarrow> Some (Some (None, js2)) | Some f3 \<Rightarrow> parseLiteralInner h (Some f3) js2))"

lemma parse_enter:
  "parseLiteralInner h None js =
     (case open_literal h js of
        None \<Rightarrow> Some None
      | Some (Inr r, js1) \<Rightarrow> Some (Some (r, js1))
      | Some (Inl f, js1) \<Rightarrow> parseLiteralInner h (Some f) js1)"
  by (subst parseLiteralInner.simps) (simp split: option.split prod.split sum.split)

lemma parse_round:
  "parseLiteralInner h (Some f) js =
     (case next_member h f js of
        None \<Rightarrow> Some None
      | Some (Stop r js1) \<Rightarrow> Some (Some (r, js1))
      | Some (Value f1 v js1) \<Rightarrow> finish_round h f1 v js1
      | Some (Nested f1 js1) \<Rightarrow> Option.bind (parseLiteralInner h None js1) (\<lambda>r. case r of None \<Rightarrow> Some None | Some (v, js2) \<Rightarrow> finish_round h f1 v js2))"
  by (subst parseLiteralInner.simps) (simp add: finish_round_def [abs_def] case_prod_unfold split: option.split member.split)

text \<open>Reading ends, whatever the input.\<close>

definition ends :: "('n json option \<times> json_state) option option \<Rightarrow> json_state \<Rightarrow> bool" where
  "ends res js \<longleftrightarrow> (\<exists>r. res = Some r \<and> (\<forall>v js2. r = Some (v, js2) \<longrightarrow> length (jnext js2) \<le> length (jnext js)))"

definition consumes :: "('n json option \<times> json_state) option option \<Rightarrow> json_state \<Rightarrow> bool" where
  "consumes res js \<longleftrightarrow> ends res js \<and> (\<forall>v js2. res = Some (Some (Some v, js2)) \<longrightarrow> length (jnext js2) < length (jnext js))"

lemma ends_trans: "ends res js1 \<Longrightarrow> length (jnext js1) \<le> length (jnext js) \<Longrightarrow> ends res js"
  by (auto simp: ends_def intro: order_trans)

lemma finish_round_ends:
  assumes "\<And>f3 js2. length (jnext js2) = length (jnext js) \<Longrightarrow> v \<noteq> None \<Longrightarrow> ends (parseLiteralInner h (Some f3) js2) js2"
  shows "ends (finish_round h f v js) js"
proof (cases "end_round f v js")
  case (Some y)
  then obtain f2 js2 where e: "end_round f v js = Some (f2, js2)" by (cases y) simp
  note l = end_round_same [OF e]
  show ?thesis
  proof (cases f2)
    case (Some f3)
    then have "ends (parseLiteralInner h (Some f3) js2) js" using assms [of js2 f3] l ends_trans by fastforce
    then show ?thesis using e Some by (simp add: finish_round_def)
  qed (use e l in \<open>simp add: finish_round_def ends_def\<close>)
qed (simp add: finish_round_def ends_def)

lemma parse_ends:
  "(\<forall>js. length (jnext js) \<le> n \<longrightarrow> consumes (parseLiteralInner h None js) js) \<and> (\<forall>f js. length (jnext js) \<le> n \<longrightarrow> ends (parseLiteralInner h (Some f) js) js)"
proof (induction n rule: less_induct)
  case (less n)
  have IH: "ends (parseLiteralInner h (Some f) js) js" if "length (jnext js) < n" for f js using less [OF that] by simp
  have enter: "consumes (parseLiteralInner h None js) js" if le: "length (jnext js) \<le> n" for js
  proof (cases "open_literal h js")
    case (Some x)
    then obtain st js1 where st: "open_literal h js = Some (st, js1)" by (cases x) simp
    note s = open_literal_shorter [OF st]
    show ?thesis
    proof (cases st)
      case (Inl f)
      have lt: "length (jnext js1) < length (jnext js)" using s Inl by simp
      have "ends (parseLiteralInner h (Some f) js1) js1" using IH lt le by simp
      then show ?thesis using st Inl lt by (auto simp: parse_enter [of h js] ends_def consumes_def)
    qed (use st s in \<open>auto simp: parse_enter [of h js] ends_def consumes_def\<close>)
  qed (simp add: parse_enter [of h js] ends_def consumes_def)
  have "ends (parseLiteralInner h (Some f) js) js" if le: "length (jnext js) \<le> n" for f js
  proof (cases "next_member h f js")
    case (Some mb)
    note s = next_member_shorter [OF Some]
    show ?thesis
    proof (cases mb)
      case (Stop r js1)
      then show ?thesis using Some s by (simp add: parse_round [of h f js] ends_def shorter_def)
    next
      case (Value f1 v js1)
      then have lt: "length (jnext js1) < length (jnext js)" using s by (simp add: shorter_def)
      have "ends (finish_round h f1 v js1) js1" using IH lt le by (intro finish_round_ends) simp
      then show ?thesis using Some Value lt ends_trans by (simp add: parse_round [of h f js]) fastforce
    next
      case (Nested f1 js1)
      then have l1: "length (jnext js1) \<le> length (jnext js)" using s by (simp add: shorter_def)
      then have c: "consumes (parseLiteralInner h None js1) js1" using enter le by simp
      then obtain r where r: "parseLiteralInner h None js1 = Some r" by (auto simp: consumes_def ends_def)
      show ?thesis
      proof (cases r)
        case None
        then show ?thesis using Some Nested r by (simp add: parse_round [of h f js] ends_def)
      next
        case (Some y)
        obtain v js2 where v: "r = Some (v, js2)" using Some by (cases y) simp
        have l2: "length (jnext js2) \<le> length (jnext js1)" "v \<noteq> None \<longrightarrow> length (jnext js2) < length (jnext js1)" using c r v by (auto simp: consumes_def ends_def)
        have "ends (finish_round h f1 v js2) js2" using IH l1 l2 le by (intro finish_round_ends) simp
        then have "ends (finish_round h f1 v js2) js" using l1 l2(1) ends_trans [of _ js2 js] by simp
        then show ?thesis using \<open>next_member h f js = Some mb\<close> Nested r v by (simp add: parse_round [of h f js])
      qed
    qed
  qed (simp add: parse_round [of h f js] ends_def)
  with enter show ?case by blast
qed

text \<open>
  Property C37. Reading a string as JSON ends, whatever the string: every token that is not the last one takes a character.
\<close>

theorem deserialize_ends: "\<exists>r. ejsDeserialize h str = Some r"
proof -
  have "consumes (parseLiteralInner h None \<lparr>jnext = str, jerror = None\<rparr>) \<lparr>jnext = str, jerror = None\<rparr>"
    using parse_ends [of "length str" h] by simp
  then show ?thesis by (auto simp: ejsDeserialize_def consumes_def ends_def)
qed

section \<open>Tokens of a text\<close>

definition blank :: "string \<Rightarrow> bool" where
  "blank W \<longleftrightarrow> (\<forall>c \<in> set W. isspace c)"

text \<open>What may come behind a value: nothing, a comma, or white space and a closing bracket. Behind a key comes a colon.\<close>

definition follow :: "string \<Rightarrow> bool" where
  "follow R \<longleftrightarrow> R = [] \<or> deref R = CHR '','' \<or> closing (deref (dropWhile isspace R))"

lemma blank_simps [simp]: "blank []" "blank (c # W) \<longleftrightarrow> isspace c \<and> blank W" "blank (V @ W) \<longleftrightarrow> blank V \<and> blank W"
  by (auto simp: blank_def)

lemma drop_blank [simp]: "blank W \<Longrightarrow> dropWhile isspace (W @ X) = dropWhile isspace X"
  unfolding blank_def by (induction W) auto

lemma char_eq_code: "c = d \<longleftrightarrow> char_code c = char_code d"
  by (auto simp: char_code_def)

lemma not_space [simp]: "\<not> isspace CHR '',''" "\<not> isspace CHR '':''" "\<not> isspace CHR ''{''" "\<not> isspace CHR ''[''" "\<not> isspace CHR ''}''" "\<not> isspace CHR '']''"
  "\<not> isspace QUOTE" "\<not> isspace BS"
  by code_simp+

lemma closing_not_space: "closing c \<Longrightarrow> \<not> isspace c"
  by (auto simp: closing_def)

lemma id_char_codes:
  assumes "id_char c"
  shows "\<not> isspace c" "\<not> punctuation c" "\<not> closing c" "\<not> separator c" "c \<noteq> QUOTE" "c \<noteq> CHR 0x27" "c \<noteq> CHR 0x60" "c \<noteq> CHR ''/''" "c \<noteq> NUL"
proof -
  have k: "char_code c \<in> {92, 95, 45, 43, 46} \<or> (48 \<le> char_code c \<and> char_code c \<le> 57) \<or> (65 \<le> char_code c \<and> char_code c \<le> 90) \<or> (97 \<le> char_code c \<and> char_code c \<le> 122)"
    using assms by (auto simp: id_char_def isalnum_def isdigit_def char_eq_code char_code_def BS_def)
  then show "\<not> isspace c" by (auto simp: isspace_def)
  have v: "char_code NUL = 0" "char_code CHR ''{'' = 123" "char_code CHR ''['' = 91" "char_code CHR ''}'' = 125" "char_code CHR '']'' = 93" "char_code CHR '','' = 44" "char_code CHR '':'' = 58"
    "char_code QUOTE = 34" "char_code CHR 0x27 = 39" "char_code CHR 0x60 = 96" "char_code CHR ''/'' = 47" by (simp_all add: char_code_def char_defs)
  show "\<not> punctuation c" "\<not> closing c" "\<not> separator c" "c \<noteq> QUOTE" "c \<noteq> CHR 0x27" "c \<noteq> CHR 0x60" "c \<noteq> CHR ''/''" "c \<noteq> NUL"
    unfolding punctuation_def closing_def separator_def char_eq_code v using k by auto
qed

lemma skip_blank: "blank W \<Longrightarrow> X \<noteq> [] \<Longrightarrow> \<not> isspace (hd X) \<Longrightarrow> hd X \<noteq> CHR ''/'' \<Longrightarrow> skipComments (W @ X) = Some X"
  by (cases X) (auto simp: skipComments_def skip_comments.simps)

lemma after_word_simps [simp]:
  "after_word [] = []" "after_word (CHR '','' # X) = X" "after_word (CHR '':'' # X) = X"
  "blank W \<Longrightarrow> closing c \<Longrightarrow> after_word (W @ c # X) = c # X"
  by (auto simp: after_word_def Let_def separator_def closing_def char_defs)

lemma follow_simps [simp]: "follow []" "follow (CHR '','' # X)" "blank W \<Longrightarrow> closing c \<Longrightarrow> follow (W @ c # X)"
  by (auto simp: follow_def closing_not_space)

lemma follow_ends:
  assumes "follow R \<or> deref R = CHR '':''"
  shows "ends_word (deref (dropWhile isspace R))" "R = [] \<or> \<not> id_char (hd R)"
proof -
  show "ends_word (deref (dropWhile isspace R))"
    using assms by (cases R) (auto simp: follow_def ends_word_def separator_def)
  show "R = [] \<or> \<not> id_char (hd R)"
  proof (cases R)
    case (Cons c r)
    have "\<not> id_char c" if "isspace c \<or> separator c \<or> closing c" using that id_char_codes [of c] by blast
    moreover have "isspace c \<or> separator c \<or> closing c" using assms Cons by (auto simp: follow_def separator_def split: if_splits)
    ultimately show ?thesis using Cons by simp
  qed simp
qed

text \<open>Brackets.\<close>

lemma get_open:
  assumes "blank W" "c = CHR ''{'' \<or> c = CHR ''[''"
  shows "getNextJsonToken b \<lparr>jnext = W @ c # X, jerror = e\<rparr> = Some (if c = CHR ''{'' then TOK_LBRACE else TOK_LBRACKET, None, \<lparr>jnext = X, jerror = e\<rparr>)"
proof -
  have "skipComments (jnext \<lparr>jnext = W @ c # X, jerror = e\<rparr>) = Some (c # X)" using assms by (auto intro!: skip_blank)
  from get_punctuation [OF this] show ?thesis using assms(2) by (auto simp: punctuation_def char_defs)
qed

lemma get_close:
  assumes "blank W" "closing c" "follow R"
  shows "getNextJsonToken b \<lparr>jnext = W @ c # R, jerror = e\<rparr> = Some (if c = CHR ''}'' then TOK_RBRACE else TOK_RBRACKET, None, \<lparr>jnext = after_word R, jerror = e\<rparr>)"
proof -
  have "skipComments (jnext \<lparr>jnext = W @ c # R, jerror = e\<rparr>) = Some (c # R)" using assms(1,2) by (auto simp: closing_def intro!: skip_blank)
  moreover have "deref (dropWhile isspace R) = NUL \<or> deref (dropWhile isspace R) = CHR '','' \<or> closing (deref (dropWhile isspace R))"
    using assms(3) by (cases R) (auto simp: follow_def)
  ultimately show ?thesis using assms(2) by (auto simp: get_closing Let_def)
qed

text \<open>Words without quotes.\<close>

lemma unescape_plain: "BS \<notin> set t \<Longrightarrow> unescape r t = t"
  by (induction t) (auto simp: unescape.simps)

definition plain_word :: "string \<Rightarrow> bool" where
  "plain_word t \<longleftrightarrow> t \<noteq> [] \<and> (\<forall>c \<in> set t. id_char c \<and> c \<noteq> BS)"

lemma get_plain:
  assumes "blank W" "plain_word t" "follow R \<or> deref R = CHR '':''"
  shows "getNextJsonToken True \<lparr>jnext = W @ t @ R, jerror = e\<rparr> = Some (TOK_ID, Some t, \<lparr>jnext = after_word R, jerror = e\<rparr>)"
proof -
  obtain c u where t: "t = c # u" "id_char c" "c \<noteq> BS" using assms(2) by (cases t) (auto simp: plain_word_def)
  note c = id_char_codes [OF t(2)]
  have "skipComments (jnext \<lparr>jnext = W @ t @ R, jerror = e\<rparr>) = Some (t @ R)" using assms(1) t c by (simp add: skip_blank)
  moreover have "takeWhile id_char (t @ R) = t" "dropWhile id_char (t @ R) = R"
    using assms(2) follow_ends(2) [OF assms(3)] by (cases R; auto simp: plain_word_def takeWhile_append2 dropWhile_append2)+
  then have "scan_token (t @ R) = Inr (TOK_ID, False, t, R)" using t c by (simp add: scan_token_def Let_def)
  moreover have "c_string t" unfolding c_string_def using assms(2) id_char_codes(9) by (auto simp: plain_word_def NUL_def)
  moreover have "unescape False t = t" using assms(2) by (intro unescape_plain) (auto simp: plain_word_def)
  ultimately show ?thesis using t c follow_ends(1) [OF assms(3)] by (simp add: get_word)
qed

text \<open>Words in quotes: every character as it is, or behind a backslash.\<close>

definition good_code :: "(char \<Rightarrow> string) \<Rightarrow> char \<Rightarrow> bool" where
  "good_code enc c \<longleftrightarrow> (enc c = [c] \<and> c \<noteq> QUOTE \<and> c \<noteq> BS) \<or> (\<exists>d. enc c = [BS, d] \<and> escaped d = c)"

lemma scan_quoted_code: "\<forall>c \<in> set s. good_code enc c \<Longrightarrow> scan_quoted QUOTE (concat (map enc s) @ QUOTE # R) = (concat (map enc s), QUOTE # R)"
proof (induction s)
  case Nil
  show ?case by (simp add: scan_quoted.simps char_defs)
next
  case (Cons c s)
  then show ?case by (auto simp: good_code_def scan_quoted.simps [of QUOTE "c # _"] scan_quoted.simps [of QUOTE "BS # _"])
qed

lemma unescape_code: "\<forall>c \<in> set s. good_code enc c \<Longrightarrow> unescape False (concat (map enc s)) = s"
proof (induction s)
  case Nil
  show ?case by (simp add: unescape.simps)
next
  case (Cons c s)
  then show ?case by (auto simp: good_code_def unescape.simps [of False "c # _"] unescape.simps [of False "BS # _"])
qed

lemma get_quoted:
  assumes "blank W" "\<forall>c \<in> set s. good_code enc c" "c_string s" "follow R \<or> deref R = CHR '':''"
  shows "getNextJsonToken True \<lparr>jnext = W @ QUOTE # concat (map enc s) @ QUOTE # R, jerror = e\<rparr> = Some (TOK_QID, Some s, \<lparr>jnext = after_word R, jerror = e\<rparr>)"
proof -
  let ?cp = "QUOTE # concat (map enc s) @ QUOTE # R"
  have "QUOTE \<noteq> CHR ''/''" "\<not> punctuation QUOTE" "\<not> closing QUOTE" by (simp_all add: char_defs punctuation_def closing_def)
  moreover have "skipComments (jnext \<lparr>jnext = W @ ?cp, jerror = e\<rparr>) = Some ?cp" using assms(1) calculation(1) by (simp add: skip_blank)
  moreover have "scan_token ?cp = Inr (TOK_QID, False, concat (map enc s), R)" using scan_quoted_code [OF assms(2)] by (simp add: scan_token_def Let_def)
  ultimately show ?thesis using unescape_code [OF assms(2)] assms(3) follow_ends(1) [OF assms(4)] by (simp add: get_word)
qed

end
