(* ===== verification/JsonWrite.thy ===== *)
theory JsonWrite
  imports Json Pot
begin

text \<open>
  Writing objects as JSON (\<^verbatim>\<open>src/core/src/ejsJSON.c\<close>). The objects are in a heap and may contain each other; the state has the
  buffer, the nesting, the depth that the interpreter keeps across calls, the marks of the objects that are being written,
  and whether an exception is pending. The functions \<^verbatim>\<open>toJSON\<close> of a value and the replacer are parameters that leave the objects as they
  are. A null pointer that is followed is undefined (\<^const>\<open>None\<close>).
\<close>

section \<open>Objects\<close>

datatype 'n any = AUndefined | ANull | ABool bool | ANumber 'n | AString string | ANative nat | ARef nat

datatype obj_type = ObjectType | ArrayType | OtherType

record 'n jprop =
  pname :: string
  pspace :: string
  pattributes :: int
  pvalue :: "'n any option"

record 'n jobj =
  jtype :: obj_type
  props :: "'n jprop list"

text \<open>
  \<open>toJSON\<close> is \<^const>\<open>None\<close> for a value whose type has no such function or that of \<^verbatim>\<open>Object\<close>; else the string that the function returned,
  if any, and whether it threw. The function of a string is \<^verbatim>\<open>ejsToLiteralString\<close>.
\<close>

record 'n writer =
  whost :: "'n host"
  objects :: "nat \<Rightarrow> 'n jobj option"
  object_string :: "'n any \<Rightarrow> string"
  user_toJSON :: "'n any \<Rightarrow> (string option \<times> bool) option"
  replacer :: "(string \<Rightarrow> string \<Rightarrow> string option) option"

record json_options =
  jdepth :: int
  jcommas :: bool
  jhidden :: bool
  jnamespaces :: bool
  jnulls :: bool
  jregexp :: bool
  jquotes :: bool
  jmultiline :: bool
  jpretty :: bool
  jindentString :: "string option"
  jindentCount :: int

record ser =
  sbuf :: string
  nest :: int
  serializeDepth :: int
  visited :: "nat set"
  exception :: bool

section \<open>Options\<close>

text \<open>A property of the options object: true, false, or something else.\<close>

datatype flag = FTrue | FFalse | FOther

record option_object =
  o_depth :: "int option"
  o_indent :: "(string + int) option"
  o_commas :: "flag option"
  o_hidden :: "flag option"
  o_namespaces :: "flag option"
  o_nulls :: "flag option"
  o_regexp :: "flag option"
  o_quotes :: "flag option"
  o_multiline :: "flag option"
  o_pretty :: "flag option"
  o_strict :: "flag option"

definition flag_true :: "flag option \<Rightarrow> bool \<Rightarrow> bool" where
  "flag_true arg dflt = (case arg of None \<Rightarrow> dflt | Some f \<Rightarrow> f = FTrue)"

definition flag_not_false :: "flag option \<Rightarrow> bool \<Rightarrow> bool" where
  "flag_not_false arg dflt = (case arg of None \<Rightarrow> dflt | Some f \<Rightarrow> f \<noteq> FFalse)"

definition default_options :: json_options where
  "default_options = \<lparr>jdepth = 99, jcommas = False, jhidden = False, jnamespaces = False, jnulls = True, jregexp = False, jquotes = True,
     jmultiline = True, jpretty = False, jindentString = None, jindentCount = 4\<rparr>"

definition set_strict :: "flag option \<Rightarrow> json_options \<Rightarrow> json_options" where
  "set_strict arg o' =
     (case arg of
        None \<Rightarrow> o'
      | Some f \<Rightarrow> o'\<lparr>jmultiline := (f = FFalse), jquotes := (f \<noteq> FFalse), jpretty := (f = FFalse)\<rparr>)"

definition read_options :: "option_object \<Rightarrow> json_options" where
  "read_options p =
     set_strict (o_strict p)
       (default_options\<lparr>jdepth := (case o_depth p of None \<Rightarrow> 99 | Some n \<Rightarrow> n),
          jindentString := (case o_indent p of Some (Inl s) \<Rightarrow> Some s | _ \<Rightarrow> None),
          jindentCount := (case o_indent p of Some (Inr n) \<Rightarrow> n | _ \<Rightarrow> 4),
          jcommas := flag_true (o_commas p) False, jhidden := flag_true (o_hidden p) False, jnamespaces := flag_true (o_namespaces p) False,
          jnulls := flag_true (o_nulls p) True, jregexp := flag_true (o_regexp p) False, jquotes := flag_not_false (o_quotes p) True,
          jmultiline := flag_not_false (o_multiline p) True, jpretty := flag_true (o_pretty p) False\<rparr>)"

definition EJS_JSON_SHOW_COMMAS :: int where "EJS_JSON_SHOW_COMMAS = 0x1"
definition EJS_JSON_SHOW_HIDDEN :: int where "EJS_JSON_SHOW_HIDDEN = 0x2"
definition EJS_JSON_SHOW_NAMESPACES :: int where "EJS_JSON_SHOW_NAMESPACES = 0x4"
definition EJS_JSON_SHOW_PRETTY :: int where "EJS_JSON_SHOW_PRETTY = 0x8"
definition EJS_JSON_SHOW_NOQUOTES :: int where "EJS_JSON_SHOW_NOQUOTES = 0x20"
definition EJS_JSON_SHOW_REGEXP :: int where "EJS_JSON_SHOW_REGEXP = 0x40"
definition EJS_JSON_SHOW_NULLS :: int where "EJS_JSON_SHOW_NULLS = 0x80"

text \<open>The indentation count stays zero here, and strings are kept on one line.\<close>

definition flag_options :: "int \<Rightarrow> json_options" where
  "flag_options flags = \<lparr>jdepth = 99, jcommas = (flags AND EJS_JSON_SHOW_COMMAS \<noteq> 0), jhidden = (flags AND EJS_JSON_SHOW_HIDDEN \<noteq> 0),
     jnamespaces = (flags AND EJS_JSON_SHOW_NAMESPACES \<noteq> 0), jnulls = (flags AND EJS_JSON_SHOW_NULLS \<noteq> 0),
     jregexp = (flags AND EJS_JSON_SHOW_REGEXP \<noteq> 0), jquotes = (flags AND EJS_JSON_SHOW_NOQUOTES = 0), jmultiline = False,
     jpretty = (flags AND EJS_JSON_SHOW_PRETTY \<noteq> 0), jindentString = None, jindentCount = 0\<rparr>"

section \<open>Plain values\<close>

definition escape_char :: "char \<Rightarrow> string" where
  "escape_char c = (if c = QUOTE \<or> c = BS then [BS, c] else [c])"

definition ejsToString :: "'n writer \<Rightarrow> 'n any \<Rightarrow> string" where
  "ejsToString w v =
     (case v of
        AUndefined \<Rightarrow> ''undefined'' | ANull \<Rightarrow> ''null'' | ABool b \<Rightarrow> if b then ''true'' else ''false''
      | ANumber n \<Rightarrow> number_string (whost w) n | AString s \<Rightarrow> s | _ \<Rightarrow> object_string w v)"

definition ejsToLiteralString :: "'n writer \<Rightarrow> 'n any \<Rightarrow> string" where
  "ejsToLiteralString w v = c_str (QUOTE # concat (map escape_char (ejsToString w v)) @ [QUOTE])"

definition isDefined :: "'n any \<Rightarrow> bool" where
  "isDefined v \<longleftrightarrow> (case v of AUndefined \<Rightarrow> False | ANull \<Rightarrow> False | _ \<Rightarrow> True)"

definition plain_string :: "'n writer \<Rightarrow> json_options \<Rightarrow> 'n any \<Rightarrow> string" where
  "plain_string w o' v =
     (case v of
        AUndefined \<Rightarrow> ejsToString w v | ANull \<Rightarrow> ejsToString w v | ABool _ \<Rightarrow> ejsToString w v | ANumber _ \<Rightarrow> ejsToString w v
      | _ \<Rightarrow> if jregexp o' then ejsToString w v else ejsToLiteralString w v)"

definition toJSON :: "'n writer \<Rightarrow> 'n any \<Rightarrow> (string option \<times> bool) option" where
  "toJSON w v = (case v of AString _ \<Rightarrow> Some (Some (ejsToLiteralString w v), False) | _ \<Rightarrow> user_toJSON w v)"

text \<open>The objects that the main code handles.\<close>

definition container :: "'n writer \<Rightarrow> 'n any \<Rightarrow> (nat \<times> 'n jobj) option" where
  "container w v =
     (case v of
        ARef a \<Rightarrow> (case objects w a of None \<Rightarrow> None | Some ob \<Rightarrow> if props ob = [] \<and> jtype ob = OtherType then None else Some (a, ob))
      | _ \<Rightarrow> None)"

section \<open>Writing\<close>

definition put :: "string \<Rightarrow> ser \<Rightarrow> ser" where
  "put t s = s\<lparr>sbuf := sbuf s @ t\<rparr>"

text \<open>Taking characters back moves the end of the buffer, not past its start.\<close>

definition take_back :: "nat \<Rightarrow> ser \<Rightarrow> ser" where
  "take_back n s = s\<lparr>sbuf := take (length (sbuf s) - n) (sbuf s)\<rparr>"

definition isArray :: "'n jobj \<Rightarrow> bool" where
  "isArray ob \<longleftrightarrow> jtype ob = ArrayType"

definition sameline :: "'n jobj \<Rightarrow> bool" where
  "sameline ob \<longleftrightarrow> isArray ob \<and> props ob = []"

definition indentation :: "json_options \<Rightarrow> int \<Rightarrow> string" where
  "indentation o' n = concat (replicate (nat n) (case jindentString o' of Some t \<Rightarrow> c_str t | None \<Rightarrow> replicate (nat (jindentCount o')) CHR '' ''))"

definition newline :: "json_options \<Rightarrow> 'n jobj \<Rightarrow> string" where
  "newline o' ob = (if jpretty o' \<and> \<not> sameline ob then [NL] else [])"

definition open_object :: "json_options \<Rightarrow> 'n jobj \<Rightarrow> ser \<Rightarrow> ser" where
  "open_object o' ob s =
     (put ((if isArray ob then CHR ''['' else CHR ''{'') # newline o' ob) s)\<lparr>nest := nest s + 1, serializeDepth := serializeDepth s + 1\<rparr>"

definition EJS_FUN_INITIALIZER :: int where "EJS_FUN_INITIALIZER = 0x10000"
definition EJS_FUN_MODULE_INITIALIZER :: int where "EJS_FUN_MODULE_INITIALIZER = 0x40000"

definition skipped :: "json_options \<Rightarrow> 'n jprop \<Rightarrow> bool" where
  "skipped o' p \<longleftrightarrow>
     (pattributes p AND (EJS_TRAIT_HIDDEN OR EJS_TRAIT_DELETED OR EJS_FUN_INITIALIZER OR EJS_FUN_MODULE_INITIALIZER) \<noteq> 0 \<and> \<not> jhidden o')
     \<or> (case pvalue p of None \<Rightarrow> True | Some v \<Rightarrow> \<not> jnulls o' \<and> \<not> isDefined v)"

definition needs_quotes :: "json_options \<Rightarrow> string \<Rightarrow> bool" where
  "needs_quotes o' name \<longleftrightarrow> jquotes o' \<or> (\<exists>c \<in> set name. \<not> isalnum c \<and> c \<noteq> CHR ''_'')"

definition key_text :: "json_options \<Rightarrow> 'n jprop \<Rightarrow> string" where
  "key_text o' p =
     (let q = (if needs_quotes o' (pname p) then [QUOTE] else [])
      in (if jnamespaces o' \<and> pspace p \<noteq> [] then QUOTE # pspace p @ [QUOTE] @ ''::'' else []) @ q @ concat (map escape_char (c_str (pname p))) @ q
         @ '':'' @ (if jpretty o' then '' '' else []))"

definition put_key :: "json_options \<Rightarrow> 'n jobj \<Rightarrow> 'n jprop \<Rightarrow> ser \<Rightarrow> ser" where
  "put_key o' ob p s = put ((if jpretty o' then indentation o' (serializeDepth s) else []) @ (if isArray ob then [] else key_text o' p)) s"

definition value_text :: "json_options \<Rightarrow> string \<Rightarrow> string" where
  "value_text o' sv = (if jmultiline o' then sv else concat (map (\<lambda>c. if c = NL then [BS, CHR ''n''] else [c]) sv))"

text \<open>The text of a value, if there is one, and the comma. The first component says that the object is left with an exception.\<close>

definition put_value :: "'n writer \<Rightarrow> json_options \<Rightarrow> 'n jobj \<Rightarrow> string \<Rightarrow> string option \<Rightarrow> ser \<Rightarrow> (bool \<times> ser) option" where
  "put_value w o' ob key sv s =
     (case sv of
        None \<Rightarrow> Some (if exception s then (True, s) else (False, put (CHR '','' # newline o' ob) s))
      | Some t \<Rightarrow>
          map_option (\<lambda>t1. (False, put (value_text o' t1 @ CHR '','' # newline o' ob) s)) (case replacer w of None \<Rightarrow> Some t | Some f \<Rightarrow> f key t))"

definition end_items :: "json_options \<Rightarrow> 'n jobj \<Rightarrow> nat \<Rightarrow> ser \<Rightarrow> ser" where
  "end_items o' ob items s =
     (if items > 0 \<and> \<not> jcommas o'
      then if jpretty o' \<and> \<not> sameline ob then put [NL] (take_back 2 s) else take_back 1 s
      else s)"

definition close_object :: "json_options \<Rightarrow> 'n jobj \<Rightarrow> ser \<Rightarrow> string option \<times> ser" where
  "close_object o' ob s =
     (let s1 = s\<lparr>serializeDepth := serializeDepth s - 1\<rparr>;
          s2 = put ((if jpretty o' \<and> \<not> sameline ob then indentation o' (serializeDepth s1) else []) @ [if isArray ob then CHR '']'' else CHR ''}'']) s1;
          s3 = s2\<lparr>nest := nest s2 - 1\<rparr>
      in (if nest s3 = 0 then Some (sbuf s3) else None, s3))"

definition key_name :: "'n jobj \<Rightarrow> nat \<Rightarrow> 'n jprop \<Rightarrow> string" where
  "key_name ob slotNum p = (if isArray ob then the (the (itos (int slotNum))) else pname p)"

text \<open>A value, or the rest of the slots of an object with the number of items written.\<close>

datatype 'n job = Start "'n any" | Slots nat nat nat

partial_function (option) serialize :: "'n writer \<Rightarrow> json_options \<Rightarrow> 'n job \<Rightarrow> ser \<Rightarrow> (string option \<times> ser) option" where
  "serialize w o' job s =
     (case job of
        Start v \<Rightarrow>
          (case container w v of
             None \<Rightarrow> Some (Some (plain_string w o' v), s)
           | Some (a, ob) \<Rightarrow>
               if serializeDepth s + 1 \<le> jdepth o' \<and> a \<notin> visited s
               then serialize w o' (Slots a 0 0) ((open_object o' ob s)\<lparr>visited := insert a (visited s)\<rparr>)
               else Some (close_object o' ob (open_object o' ob s)))
      | Slots a slotNum items \<Rightarrow>
          (case objects w a of
             None \<Rightarrow> None
           | Some ob \<Rightarrow>
               if slotNum \<ge> length (props ob) \<or> exception s
               then Some (close_object o' ob (end_items o' ob items (s\<lparr>visited := visited s - {a}\<rparr>)))
               else if skipped o' (props ob ! slotNum) then serialize w o' (Slots a (Suc slotNum) items) s
               else Option.bind
                      (case toJSON w (the (pvalue (props ob ! slotNum))) of
                         None \<Rightarrow> serialize w o' (Start (the (pvalue (props ob ! slotNum)))) (put_key o' ob (props ob ! slotNum) s)
                       | Some (sv, e) \<Rightarrow> Some (sv, (put_key o' ob (props ob ! slotNum) s)\<lparr>exception := exception s \<or> e\<rparr>))
                      (\<lambda>(sv, s1). case put_value w o' ob (key_name ob slotNum (props ob ! slotNum)) sv s1 of
                         None \<Rightarrow> None
                       | Some (left, s2) \<Rightarrow>
                           if left then Some (None, s2\<lparr>visited := visited s2 - {a}\<rparr>) else serialize w o' (Slots a (Suc slotNum) (Suc items)) s2)))"

declare serialize.simps [code]

text \<open>The depth is the one that earlier calls left; no object is marked at the start. The replacer is an option: without options there is none.\<close>

definition ejsSerializeWithOptions :: "'n writer \<Rightarrow> int \<Rightarrow> 'n any \<Rightarrow> option_object option \<Rightarrow> (string option \<times> ser) option" where
  "ejsSerializeWithOptions w d v options =
     serialize (case options of None \<Rightarrow> w\<lparr>replacer := None\<rparr> | Some _ \<Rightarrow> w) (case options of None \<Rightarrow> default_options | Some p \<Rightarrow> read_options p) (Start v)
       \<lparr>sbuf = [], nest = 0, serializeDepth = d, visited = {}, exception = False\<rparr>"

definition ejsSerialize :: "'n writer \<Rightarrow> int \<Rightarrow> 'n any \<Rightarrow> int \<Rightarrow> (string option \<times> ser) option" where
  "ejsSerialize w d v flags =
     serialize (w\<lparr>replacer := None\<rparr>) (flag_options flags) (Start v) \<lparr>sbuf = [], nest = 0, serializeDepth = d, visited = {}, exception = False\<rparr>"

definition ejsToJSON :: "'n writer \<Rightarrow> int \<Rightarrow> 'n any \<Rightarrow> option_object option \<Rightarrow> (string option \<times> ser) option" where
  "ejsToJSON w d v options =
     (case toJSON w v of
        None \<Rightarrow> ejsSerializeWithOptions w d v options
      | Some (r, e) \<Rightarrow> Some (r, \<lparr>sbuf = [], nest = 0, serializeDepth = d, visited = {}, exception = e\<rparr>))"

end
