(* ===== verification/JsonRoundtrip.thy ===== *)
theory JsonRoundtrip
  imports JsonWrite
begin

text \<open>
  What is written as JSON is read back. The specification is the text of a tree of values; the writer prints the tree that the objects
  unfold to, and the reader makes the tree from its text.
\<close>

section \<open>Numbers\<close>

text \<open>
  What the host's printing of a number promises: an integer is printed in decimal and is the integer's conversion; any other number is
  printed with a point or an exponent, in at most 31 characters behind its sign, from which \<^verbatim>\<open>atof\<close> makes its absolute value.
\<close>

definition prints_integer :: "'n host \<Rightarrow> 'n \<Rightarrow> bool" where
  "prints_integer h n \<longleftrightarrow> (\<exists>i. in_int64 i \<and> i \<noteq> - (2 ^ 63) \<and> n = of_int64 h i \<and> itos i = Some (Some (number_string h n)))"

definition number_char :: "char \<Rightarrow> bool" where
  "number_char c \<longleftrightarrow> isdigit c \<or> c = CHR ''.'' \<or> c = CHR ''e'' \<or> c = CHR ''E'' \<or> c = CHR ''+'' \<or> c = CHR ''-''"

definition prints_fraction :: "'n host \<Rightarrow> 'n \<Rightarrow> bool" where
  "prints_fraction h n \<longleftrightarrow> (\<exists>neg u. number_string h n = (if neg then CHR ''-'' # u else u) \<and> u \<noteq> [] \<and> length u \<le> 31
     \<and> (\<forall>c \<in> set u. number_char c) \<and> (isdigit (hd u) \<or> hd u = CHR ''.'') \<and> has_fraction u
     \<and> n = (if neg then negate h (atof h u) else atof h u))"

lemma digit_char: "isdigit c \<Longrightarrow> id_char c" "isdigit c \<Longrightarrow> c \<noteq> BS" "isdigit c \<Longrightarrow> \<not> isspace c" "isdigit c \<Longrightarrow> tolower c \<noteq> 120" "isdigit c \<Longrightarrow> tolower c \<noteq> 101"
  "isdigit c \<Longrightarrow> c \<notin> {CHR ''-'', CHR ''+'', CHR ''/'', CHR ''.''}"
  by (auto simp: id_char_def isalnum_def isdigit_def isspace_def char_eq_code char_code_def BS_def tolower_def Let_def)

lemma sign_chars: "id_char CHR ''-''" "id_char CHR ''+''" "id_char CHR ''.''" "id_char CHR ''e''" "id_char CHR ''E''" "\<not> isspace CHR ''-''" "\<not> isspace CHR ''.''"
  "CHR ''-'' \<noteq> BS" "CHR ''+'' \<noteq> BS" "CHR ''.'' \<noteq> BS" "CHR ''e'' \<noteq> BS" "CHR ''E'' \<noteq> BS" "\<not> isdigit CHR ''-''" "\<not> isdigit CHR ''.''"
  "tolower CHR ''.'' \<noteq> 120" "tolower CHR ''e'' \<noteq> 120" "tolower CHR ''E'' \<noteq> 120" "tolower CHR ''+'' \<noteq> 120" "tolower CHR ''-'' \<noteq> 120" "tolower NUL \<noteq> 120"
  by code_simp+

lemma decimal_digits: "is_digits 10 ds \<Longrightarrow> c \<in> set ds \<Longrightarrow> isdigit c"
  using digit_laws by (fastforce simp: is_digits_def digit_law_def)

lemma parse_signed:
  assumes "u \<noteq> []" and "isdigit (hd u) \<or> hd u = CHR ''.''"
    and "(if \<not> (deref u = CHR ''0'' \<and> tolower (deref (tl u)) = 120) \<and> has_fraction u
          then let x = atof h (take 31 u) in Some (if neg then negate h x else x)
          else map_option (\<lambda>num. of_int64 h (if neg then 0 - num else num)) (parse_digits u)) = Some n"
  shows "ejsParse h (if neg then CHR ''-'' # u else u) S_Any = Some (Some (JNumber n))"
proof -
  let ?x = "if neg then CHR ''-'' # u else u"
  have h: "deref u = hd u" using assms(1) by (cases u) auto
  have c: "\<not> isspace (hd u)" "hd u \<noteq> CHR ''-''" "hd u \<noteq> CHR ''+''" "hd u \<noteq> CHR ''/''"
    using assms(2) digit_char(3,6) [of "hd u"] sign_chars(7) by auto
  have x: "(deref ?x = CHR ''-'') = neg" "(if neg \<or> deref ?x = CHR ''+'' then tl ?x else ?x) = u" using c h by simp_all
  have nn: "(deref u \<noteq> CHR ''.'' \<and> \<not> isdigit (deref u)) = False" using assms(2) h by auto
  have "parseNumber h ?x = Some n" unfolding parseNumber_def Let_def x(1) unfolding x(2) nn if_False using assms(3) [unfolded Let_def] .
  moreover have "dropWhile isspace ?x = ?x" using c(1) assms(1) sign_chars(6) by (cases u) auto
  moreover have "guess_type ?x = S_Number" using c h assms(2) by (auto simp: guess_type_def Let_def)
  ultimately show ?thesis unfolding ejsParse_def by (simp add: Let_def)
qed

lemma integer_word:
  assumes "prints_integer h n"
  shows "plain_word (number_string h n) \<and> ejsParse h (number_string h n) S_Any = Some (Some (JNumber n))"
proof -
  obtain i where i: "in_int64 i" "i \<noteq> - (2 ^ 63)" "n = of_int64 h i" "itos i = Some (Some (number_string h n))" using assms by (auto simp: prints_integer_def)
  obtain ds where ds: "itos i = Some (Some (if i < 0 then CHR ''-'' # ds else ds))" "ds \<noteq> []" "is_digits 10 ds" "dec_digits 10 ds 0 = Some (\<bar>i\<bar>, [])"
    "hd ds = CHR ''0'' \<Longrightarrow> ds = ''0''" using itos_digits [OF i(1,2)] by metis
  have s: "number_string h n = (if i < 0 then CHR ''-'' # ds else ds)" using i(4) ds(1) by simp
  have d: "isdigit c" if "c \<in> set ds" for c using decimal_digits [OF ds(3) that] .
  have "plain_word (number_string h n)" using d digit_char(1,2) sign_chars(1,8) ds(2) by (auto simp: s plain_word_def)
  moreover have f: "\<not> has_fraction ds" using d digit_char(5,6) by (fastforce simp: has_fraction_def)
  moreover have "parse_digits ds = Some \<bar>i\<bar>"
  proof (cases "hd ds = CHR ''0''")
    case True
    then have z: "ds = ''0''" by (rule ds(5))
    then have "\<bar>i\<bar> = 0" using ds(4) by (simp add: isdigit_def char_code_def check_int64_def in_int64_def Let_def)
    then show ?thesis using z sign_chars(20) by (simp add: parse_digits_def NUL_def)
  next
    case False
    then show ?thesis using ds(2,4) by (cases ds) (simp_all add: parse_digits_def)
  qed
  ultimately show ?thesis using parse_signed [of ds h "i < 0" n] ds(2) d [of "hd ds"] i(3) unfolding s by auto
qed

lemma number_char: "number_char c \<Longrightarrow> id_char c" "number_char c \<Longrightarrow> c \<noteq> BS" "number_char c \<Longrightarrow> tolower c \<noteq> 120"
proof -
  assume "number_char c"
  then consider "isdigit c" | "c = CHR ''.''" | "c = CHR ''e''" | "c = CHR ''E''" | "c = CHR ''+''" | "c = CHR ''-''" by (auto simp: number_char_def)
  then have "id_char c \<and> c \<noteq> BS \<and> tolower c \<noteq> 120" using digit_char(1,2,4) sign_chars by cases metis+
  then show "id_char c" "c \<noteq> BS" "tolower c \<noteq> 120" by blast+
qed

lemma fraction_word:
  assumes "prints_fraction h n"
  shows "plain_word (number_string h n) \<and> ejsParse h (number_string h n) S_Any = Some (Some (JNumber n))"
proof -
  obtain neg u where u: "number_string h n = (if neg then CHR ''-'' # u else u)" "u \<noteq> []" "length u \<le> 31"
    "\<forall>c \<in> set u. number_char c" "isdigit (hd u) \<or> hd u = CHR ''.''" "has_fraction u"
    "n = (if neg then negate h (atof h u) else atof h u)" using assms unfolding prints_fraction_def by (elim exE conjE)
  have "id_char c \<and> c \<noteq> BS" if "c \<in> set u" for c using u(4) that number_char by blast
  then have "plain_word (number_string h n)" using u(1,2) sign_chars(1,8) by (auto simp: plain_word_def)
  moreover have "tolower (deref (tl u)) \<noteq> 120"
  proof (cases "tl u")
    case (Cons c r)
    then have "c \<in> set u" by (cases u) auto
    then show ?thesis using Cons u(4) number_char(3) by simp
  qed (use sign_chars(20) in simp)
  then have "ejsParse h (if neg then CHR ''-'' # u else u) S_Any = Some (Some (JNumber n))"
    using u(3,6,7) by (intro parse_signed [OF u(2,5)]) (simp add: Let_def)
  ultimately show ?thesis using u(1) by simp
qed

definition num_ok :: "'n host \<Rightarrow> 'n \<Rightarrow> bool" where
  "num_ok h n \<longleftrightarrow> prints_integer h n \<or> prints_fraction h n"

lemma number_word: "num_ok h n \<Longrightarrow> plain_word (number_string h n) \<and> ejsParse h (number_string h n) S_Any = Some (Some (JNumber n))"
  unfolding num_ok_def by (elim disjE integer_word fraction_word)

section \<open>The text of a tree\<close>

definition code_char :: "json_options \<Rightarrow> char \<Rightarrow> string" where
  "code_char o' c = (if c = QUOTE \<or> c = BS then [BS, c] else if c = NL \<and> \<not> jmultiline o' then [BS, CHR ''n''] else [c])"

definition nl :: "json_options \<Rightarrow> string" where
  "nl o' = (if jpretty o' then [NL] else [])"

definition indent :: "json_options \<Rightarrow> int \<Rightarrow> string" where
  "indent o' d = (if jpretty o' then indentation o' d else [])"

definition key_json :: "json_options \<Rightarrow> string \<Rightarrow> string" where
  "key_json o' k =
     (let q = (if needs_quotes o' k then [QUOTE] else [])
      in q @ concat (map escape_char k) @ q @ '':'' @ (if jpretty o' then '' '' else []))"

definition last_end :: "json_options \<Rightarrow> string" where
  "last_end o' = (if jcommas o' then CHR '','' # nl o' else nl o')"

fun join_items :: "json_options \<Rightarrow> string list \<Rightarrow> string" where
  "join_items o' [] = []"
| "join_items o' [t] = t @ last_end o'"
| "join_items o' (t # ts) = t @ CHR '','' # nl o' @ join_items o' ts"

fun print_json :: "'n host \<Rightarrow> json_options \<Rightarrow> int \<Rightarrow> 'n json \<Rightarrow> string" where
  "print_json h o' d JUndefined = ''undefined''"
| "print_json h o' d JNull = ''null''"
| "print_json h o' d (JBool b) = (if b then ''true'' else ''false'')"
| "print_json h o' d (JNumber n) = number_string h n"
| "print_json h o' d (JString s) = QUOTE # concat (map (code_char o') s) @ [QUOTE]"
| "print_json h o' d (JRegExp s) = []"
| "print_json h o' d (JArray ts) =
     CHR ''['' # (if ts = [] then [] else nl o') @ join_items o' (map (\<lambda>t. indent o' (d + 1) @ print_json h o' (d + 1) t) ts)
       @ (if ts = [] then [] else indent o' d) @ '']''"
| "print_json h o' d (JObject ps) =
     CHR ''{'' # nl o' @ join_items o' (map (\<lambda>(k, t). indent o' (d + 1) @ key_json o' k @ print_json h o' (d + 1) t) ps) @ indent o' d @ ''}''"

text \<open>
  The trees that come back. In an array a string comes back without the white space in front, and \<^verbatim>\<open>"null"\<close> and \<^verbatim>\<open>"undefined"\<close> as other
  values; keys are not written without quotes when they are empty.
\<close>

fun leaf :: "'n json \<Rightarrow> bool" where
  "leaf (JArray _) = False"
| "leaf (JObject _) = False"
| "leaf _ = True"

definition element_ok :: "'n json \<Rightarrow> bool" where
  "element_ok t \<longleftrightarrow> (case t of JString s \<Rightarrow> (s = [] \<or> \<not> isspace (hd s)) \<and> s \<noteq> ''null'' \<and> s \<noteq> ''undefined'' | _ \<Rightarrow> True)"

fun json_ok :: "'n host \<Rightarrow> json_options \<Rightarrow> 'n json \<Rightarrow> bool" where
  "json_ok h o' (JNumber n) = num_ok h n"
| "json_ok h o' (JString s) = c_string s"
| "json_ok h o' (JRegExp s) = False"
| "json_ok h o' (JArray ts) = (\<forall>t \<in> set ts. json_ok h o' t \<and> element_ok t)"
| "json_ok h o' (JObject ps) = (distinct (map fst ps) \<and> (\<forall>(k, t) \<in> set ps. c_string k \<and> (k = [] \<longrightarrow> jquotes o') \<and> json_ok h o' t))"
| "json_ok h o' _ = True"

text \<open>
  The trees that are written and read at all, and what is made of them: in an array a string is read as \<open>element_value\<close> says, at every other
  place a value is what it was.
\<close>

fun tree_ok :: "'n host \<Rightarrow> json_options \<Rightarrow> 'n json \<Rightarrow> bool" where
  "tree_ok h o' (JNumber n) = num_ok h n"
| "tree_ok h o' (JString s) = c_string s"
| "tree_ok h o' (JRegExp s) = False"
| "tree_ok h o' (JArray ts) = (\<forall>t \<in> set ts. tree_ok h o' t)"
| "tree_ok h o' (JObject ps) = (distinct (map fst ps) \<and> (\<forall>(k, t) \<in> set ps. c_string k \<and> (k = [] \<longrightarrow> jquotes o') \<and> tree_ok h o' t))"
| "tree_ok h o' _ = True"

fun element_value :: "'n json \<Rightarrow> 'n json" where
  "element_value (JString s) =
     (if dropWhile isspace s = ''null'' then JNull else if dropWhile isspace s = ''undefined'' then JUndefined else JString (dropWhile isspace s))"
| "element_value t = t"

fun as_read :: "'n json \<Rightarrow> 'n json" where
  "as_read (JArray ts) = JArray (map (\<lambda>t. element_value (as_read t)) ts)"
| "as_read (JObject ps) = JObject (map (\<lambda>(k, t). (k, as_read t)) ps)"
| "as_read t = t"

lemma element_ok_value: "element_ok t \<Longrightarrow> element_value t = t"
proof (cases t)
  case (JString s)
  assume "element_ok t"
  with JString have "dropWhile isspace s = s" by (cases s) (auto simp: element_ok_def)
  with JString \<open>element_ok t\<close> show ?thesis by (simp add: element_ok_def)
qed simp_all

lemma json_ok_tree: "json_ok h o' t \<Longrightarrow> tree_ok h o' t \<and> as_read t = t"
proof (induction t)
  case (JArray ts)
  then have "tree_ok h o' t \<and> element_value (as_read t) = t" if "t \<in> set ts" for t using that by (simp add: element_ok_value)
  then show ?case by (simp add: map_idI)
next
  case (JObject ps)
  have "tree_ok h o' t \<and> as_read t = t" if "(k, t) \<in> set ps" for k t using JObject.IH [OF that] JObject.prems that by auto
  then show ?case using JObject.prems by (auto intro!: map_idI)
qed simp_all

lemma as_read_leaf: "leaf t \<Longrightarrow> as_read t = t" "\<not> leaf t \<Longrightarrow> element_value (as_read t) = as_read t"
  by (cases t; simp)+

definition layout_ok :: "json_options \<Rightarrow> bool" where
  "layout_ok o' \<longleftrightarrow> (case jindentString o' of None \<Rightarrow> True | Some t \<Rightarrow> blank t)"

lemma blank_layout [simp]: "layout_ok o' \<Longrightarrow> blank (indent o' d)" "blank (nl o')"
proof -
  show "blank (nl o')" by (simp add: nl_def)
  assume l: "layout_ok o'"
  have r: "blank (concat (replicate n t))" if "blank t" for n t using that by (induction n) simp_all
  have "blank (replicate n CHR '' '')" for n by (induction n) simp_all
  moreover have "blank (c_str t)" if "blank t" for t using that by (auto simp: blank_def c_str_def dest: set_takeWhileD)
  ultimately show "blank (indent o' d)" using l r by (auto simp: indent_def indentation_def layout_ok_def split: option.splits)
qed

section \<open>Reading the text\<close>

lemma good_code_char: "good_code (code_char o') c"
  by (auto simp: good_code_def code_char_def escaped_def char_defs)

lemma good_escape: "good_code escape_char c"
  by (auto simp: good_code_def escape_char_def escaped_def char_defs)

lemma plain_keywords: "plain_word ''undefined''" "plain_word ''null''" "plain_word ''true''" "plain_word ''false''"
  by code_simp+

lemma parse_keywords:
  "ejsParse h ''undefined'' S_Any = Some (Some JUndefined)" "ejsParse h ''null'' S_Any = Some (Some JNull)"
  "ejsParse h ''true'' S_Any = Some (Some (JBool True))" "ejsParse h ''false'' S_Any = Some (Some (JBool False))"
  by (simp_all add: ejsParse_def guess_type_def isspace_def isdigit_def char_code_def Let_def)

text \<open>The words of the leaves.\<close>

lemma leaf_word:
  assumes "leaf t" "tree_ok h o' t" "\<And>s. t \<noteq> JString s"
  shows "plain_word (print_json h o' d t)" "ejsParse h (print_json h o' d t) S_Any = Some (Some t)"
    "print_json h o' d t = ''null'' \<Longrightarrow> t = JNull" "print_json h o' d t = ''undefined'' \<Longrightarrow> t = JUndefined"
proof -
  have "plain_word (print_json h o' d t) \<and> ejsParse h (print_json h o' d t) S_Any = Some (Some t)"
    using assms by (cases t) (auto simp: plain_keywords parse_keywords number_word [THEN conjunct1] number_word [THEN conjunct2])
  then show "plain_word (print_json h o' d t)" and p: "ejsParse h (print_json h o' d t) S_Any = Some (Some t)" by blast+
  show "t = JNull" if "print_json h o' d t = ''null''" using p parse_keywords(2) [of h] unfolding that by simp
  show "t = JUndefined" if "print_json h o' d t = ''undefined''" using p parse_keywords(1) [of h] unfolding that by simp
qed

text \<open>The token of a leaf.\<close>

lemma leaf_token:
  assumes t: "leaf t" "tree_ok h o' t" and W: "blank W" and S: "follow S"
  shows "\<exists>tid x. getNextJsonToken True \<lparr>jnext = W @ print_json h o' d t @ S, jerror = e\<rparr> = Some (tid, Some x, \<lparr>jnext = after_word S, jerror = e\<rparr>)
     \<and> (tid = TOK_QID \<and> t = JString x \<or> tid = TOK_ID \<and> x = print_json h o' d t \<and> (\<forall>s. t \<noteq> JString s))"
proof (cases "\<exists>s. t = JString s")
  case True
  then obtain s where s: "t = JString s" "c_string s" using t(2) by auto
  show ?thesis using get_quoted [OF W, of s "code_char o'" S e] good_code_char s S by (intro exI [of _ TOK_QID] exI [of _ s]) auto
next
  case False
  then show ?thesis using get_plain [OF W leaf_word(1) [OF t], of S d e] S by auto
qed

lemma peek_Some: "getNextJsonToken True js = Some (tid, x, js1) \<Longrightarrow> peekNextJsonToken js = Some tid"
  by (simp add: peek_get)

lemma element_leaf:
  assumes t: "leaf t" "tree_ok h o' t" and W: "blank W" and S: "follow S"
  shows "parseLiteralInner h (Some (ArrayFrame xs)) \<lparr>jnext = W @ print_json h o' d t @ S, jerror = e\<rparr>
       = parseLiteralInner h (Some (ArrayFrame (xs @ [element_value t]))) \<lparr>jnext = after_word S, jerror = e\<rparr>"
proof -
  obtain tid x where g: "getNextJsonToken True \<lparr>jnext = W @ print_json h o' d t @ S, jerror = e\<rparr> = Some (tid, Some x, \<lparr>jnext = after_word S, jerror = e\<rparr>)"
    and c: "tid = TOK_QID \<and> t = JString x \<or> tid = TOK_ID \<and> x = print_json h o' d t \<and> (\<forall>s. t \<noteq> JString s)"
    using leaf_token [OF t(1,2) W S, of d e] by (elim exE conjE)
  have "ejsParse h x (if tid = TOK_QID then S_String else S_Any) = Some (Some (element_value t))"
    using c
  proof (elim disjE conjE)
    assume "tid = TOK_QID" "t = JString x"
    then show ?thesis by (simp add: ejsParse_def Let_def)
  next
    assume "tid = TOK_ID" "x = print_json h o' d t" "\<forall>s. t \<noteq> JString s"
    moreover have "element_value t = t" using t(1) calculation(3) by (cases t) auto
    ultimately show ?thesis using leaf_word(2) [OF t(1,2), of d] by simp
  qed
  then have "next_member h (ArrayFrame xs) \<lparr>jnext = W @ print_json h o' d t @ S, jerror = e\<rparr> = Some (Value (ArrayFrame xs) (Some (element_value t)) \<lparr>jnext = after_word S, jerror = e\<rparr>)"
    using g c peek_Some [OF g] by (auto simp: next_member_def next_element_def)
  then show ?thesis by (simp add: parse_round [of h "ArrayFrame xs"] finish_round_def end_round_def)
qed

text \<open>Keys.\<close>

definition key_space :: "json_options \<Rightarrow> string" where
  "key_space o' = (if jpretty o' then '' '' else [])"

lemma blank_key_space [simp]: "blank (key_space o')"
  by (simp add: key_space_def)

lemma key_token:
  assumes W: "blank W" and k: "c_string k" "k = [] \<longrightarrow> jquotes o'"
  shows "\<exists>tid. getNextJsonToken True \<lparr>jnext = W @ key_json o' k @ X, jerror = e\<rparr> = Some (tid, Some k, \<lparr>jnext = key_space o' @ X, jerror = e\<rparr>) \<and> (tid = TOK_ID \<or> tid = TOK_QID)"
proof (cases "needs_quotes o' k")
  case True
  then show ?thesis using get_quoted [OF W, of k escape_char "CHR '':'' # key_space o' @ X" e] good_escape k(1)
    by (simp add: key_json_def key_space_def Let_def)
next
  case False
  have plain: "id_char c \<and> c \<noteq> QUOTE \<and> c \<noteq> BS" if "c \<in> set k" for c
  proof -
    have "isalnum c \<or> c = CHR ''_''" using False that by (auto simp: needs_quotes_def)
    then have i: "id_char c" by (auto simp: id_char_def)
    moreover have "c \<noteq> BS" using \<open>isalnum c \<or> c = CHR ''_''\<close> by (auto simp: isalnum_def isdigit_def char_code_def BS_def)
    ultimately show ?thesis using id_char_codes(5) by blast
  qed
  then have "concat (map escape_char k) = k" by (induction k) (auto simp: escape_char_def)
  moreover have "plain_word k" using plain k(2) False by (auto simp: plain_word_def needs_quotes_def)
  ultimately show ?thesis using False get_plain [OF W, of k "CHR '':'' # key_space o' @ X" e] by (simp add: key_json_def key_space_def Let_def)
qed

lemma key_round:
  assumes W: "blank W" and k: "c_string k" "k = [] \<longrightarrow> jquotes o'" and p: "peekNextJsonToken \<lparr>jnext = key_space o' @ X, jerror = e\<rparr> = Some tid" "tid \<noteq> TOK_ERR" "tid \<noteq> TOK_EOF"
  shows "next_member h (ObjectFrame ps k0) \<lparr>jnext = W @ key_json o' k @ X, jerror = e\<rparr> =
     (if tid = TOK_LBRACE \<or> tid = TOK_LBRACKET then Some (Nested (ObjectFrame ps (Some k)) \<lparr>jnext = key_space o' @ X, jerror = e\<rparr>)
      else if tid = TOK_ID \<or> tid = TOK_QID then property_value h (ObjectFrame ps (Some k)) \<lparr>jnext = key_space o' @ X, jerror = e\<rparr>
      else next_property h (ObjectFrame ps k0) \<lparr>jnext = W @ key_json o' k @ X, jerror = e\<rparr>)"
proof -
  obtain kt where g: "getNextJsonToken True \<lparr>jnext = W @ key_json o' k @ X, jerror = e\<rparr> = Some (kt, Some k, \<lparr>jnext = key_space o' @ X, jerror = e\<rparr>)"
    and kt: "kt = TOK_ID \<or> kt = TOK_QID" using key_token [OF W k, of X e] by (elim exE conjE)
  show ?thesis using peek_Some [OF g] kt g p by (auto simp: next_member_def next_property_def)
qed

lemma property_leaf:
  assumes t: "leaf t" "tree_ok h o' t" and W: "blank W" and S: "follow S" and k: "c_string k" "k = [] \<longrightarrow> jquotes o'"
  shows "parseLiteralInner h (Some (ObjectFrame ps k0)) \<lparr>jnext = W @ key_json o' k @ print_json h o' d t @ S, jerror = e\<rparr>
       = parseLiteralInner h (Some (ObjectFrame (set_property k t ps) (Some k))) \<lparr>jnext = after_word S, jerror = e\<rparr>"
proof -
  obtain tid x where g: "getNextJsonToken True \<lparr>jnext = key_space o' @ print_json h o' d t @ S, jerror = e\<rparr> = Some (tid, Some x, \<lparr>jnext = after_word S, jerror = e\<rparr>)"
    and c: "tid = TOK_QID \<and> t = JString x \<or> tid = TOK_ID \<and> x = print_json h o' d t \<and> (\<forall>s. t \<noteq> JString s)"
    using leaf_token [OF t(1,2) blank_key_space S, of o' d e] by (elim exE conjE)
  have tid: "tid \<noteq> TOK_ERR" "tid \<noteq> TOK_EOF" "\<not> (tid = TOK_LBRACE \<or> tid = TOK_LBRACKET)" "tid = TOK_ID \<or> tid = TOK_QID" using c by auto
  have "property_value h (ObjectFrame ps (Some k)) \<lparr>jnext = key_space o' @ print_json h o' d t @ S, jerror = e\<rparr>
      = Some (Value (ObjectFrame ps (Some k)) (Some t) \<lparr>jnext = after_word S, jerror = e\<rparr>)"
    using c
  proof (elim disjE conjE)
    assume "tid = TOK_QID" "t = JString x"
    then show ?thesis using g by (simp add: property_value_def)
  next
    assume a: "tid = TOK_ID" "x = print_json h o' d t" "\<forall>s. t \<noteq> JString s"
    note w = leaf_word(2-4) [OF t, of d]
    show ?thesis using g a(1,2) w a(3) by (auto simp: property_value_def)
  qed
  then have "next_member h (ObjectFrame ps k0) \<lparr>jnext = W @ key_json o' k @ print_json h o' d t @ S, jerror = e\<rparr>
      = Some (Value (ObjectFrame ps (Some k)) (Some t) \<lparr>jnext = after_word S, jerror = e\<rparr>)"
    using key_round [OF W k peek_Some [OF g] tid(1,2), of h ps k0] tid(3,4) by simp
  then show ?thesis by (simp add: parse_round [of h "ObjectFrame ps k0"] finish_round_def end_round_def)
qed

text \<open>What reading promises of a tree: as a literal, as an element, and behind a key.\<close>

definition reads_literal :: "'n host \<Rightarrow> json_options \<Rightarrow> int \<Rightarrow> 'n json \<Rightarrow> bool" where
  "reads_literal h o' d t \<longleftrightarrow> (\<forall>W S e. blank W \<longrightarrow> follow S \<longrightarrow>
     parseLiteralInner h None \<lparr>jnext = W @ print_json h o' d t @ S, jerror = e\<rparr> = Some (Some (Some (as_read t), \<lparr>jnext = after_word S, jerror = e\<rparr>)))"

definition reads_element :: "'n host \<Rightarrow> json_options \<Rightarrow> int \<Rightarrow> 'n json \<Rightarrow> bool" where
  "reads_element h o' d t \<longleftrightarrow> (\<forall>xs W S e. blank W \<longrightarrow> follow S \<longrightarrow>
     parseLiteralInner h (Some (ArrayFrame xs)) \<lparr>jnext = W @ print_json h o' d t @ S, jerror = e\<rparr>
       = parseLiteralInner h (Some (ArrayFrame (xs @ [element_value (as_read t)]))) \<lparr>jnext = after_word S, jerror = e\<rparr>)"

definition reads_property :: "'n host \<Rightarrow> json_options \<Rightarrow> int \<Rightarrow> 'n json \<Rightarrow> bool" where
  "reads_property h o' d t \<longleftrightarrow> (\<forall>ps k0 k W S e. blank W \<longrightarrow> follow S \<longrightarrow> c_string k \<longrightarrow> (k = [] \<longrightarrow> jquotes o') \<longrightarrow>
     parseLiteralInner h (Some (ObjectFrame ps k0)) \<lparr>jnext = W @ key_json o' k @ print_json h o' d t @ S, jerror = e\<rparr>
       = parseLiteralInner h (Some (ObjectFrame (set_property k (as_read t) ps) (Some k))) \<lparr>jnext = after_word S, jerror = e\<rparr>)"

lemma reads_elementD: "reads_element h o' d t \<Longrightarrow> blank W \<Longrightarrow> follow S \<Longrightarrow>
     parseLiteralInner h (Some (ArrayFrame xs)) \<lparr>jnext = W @ print_json h o' d t @ S, jerror = e\<rparr>
       = parseLiteralInner h (Some (ArrayFrame (xs @ [element_value (as_read t)]))) \<lparr>jnext = after_word S, jerror = e\<rparr>"
  by (simp add: reads_element_def)

lemma reads_propertyD: "reads_property h o' d t \<Longrightarrow> blank W \<Longrightarrow> follow S \<Longrightarrow> c_string k \<Longrightarrow> k = [] \<longrightarrow> jquotes o' \<Longrightarrow>
     parseLiteralInner h (Some (ObjectFrame ps k0)) \<lparr>jnext = W @ key_json o' k @ print_json h o' d t @ S, jerror = e\<rparr>
       = parseLiteralInner h (Some (ObjectFrame (set_property k (as_read t) ps) (Some k))) \<lparr>jnext = after_word S, jerror = e\<rparr>"
  by (simp add: reads_property_def)

text \<open>A container starts with its bracket.\<close>

lemma container_bracket: "\<not> leaf t \<Longrightarrow> \<exists>c X. print_json h o' d t = c # X \<and> (c = CHR ''{'' \<or> c = CHR ''['')"
  by (cases t) auto

lemma container_peek:
  assumes "\<not> leaf t" "blank W"
  shows "\<exists>tid. peekNextJsonToken \<lparr>jnext = W @ print_json h o' d t @ S, jerror = e\<rparr> = Some tid \<and> (tid = TOK_LBRACE \<or> tid = TOK_LBRACKET)"
proof -
  obtain c X where c: "print_json h o' d t = c # X" "c = CHR ''{'' \<or> c = CHR ''[''" using container_bracket [OF assms(1)] by blast
  then show ?thesis using peek_Some [OF get_open [OF assms(2) c(2), of True "X @ S" e]] by auto
qed

lemma container_reads:
  assumes t: "\<not> leaf t" and r: "reads_literal h o' d t"
  shows "reads_element h o' d t" "reads_property h o' d t"
proof -
  have lit: "parseLiteralInner h None \<lparr>jnext = W @ print_json h o' d t @ S, jerror = e\<rparr> = Some (Some (Some (as_read t), \<lparr>jnext = after_word S, jerror = e\<rparr>))"
    if "blank W" "follow S" for W S e using r that by (simp add: reads_literal_def)
  show "reads_element h o' d t"
    unfolding reads_element_def
  proof (intro allI impI)
    fix xs :: "'a json list" and W S e assume a: "blank W" "follow S"
    let ?js = "\<lparr>jnext = W @ print_json h o' d t @ S, jerror = e\<rparr>"
    obtain tid where p: "peekNextJsonToken ?js = Some tid" "tid = TOK_LBRACE \<or> tid = TOK_LBRACKET" using container_peek [OF t a(1), of h o' d S e] by (elim exE conjE)
    then have "next_member h (ArrayFrame xs) ?js = Some (Nested (ArrayFrame xs) ?js)" by (auto simp: next_member_def)
    then show "parseLiteralInner h (Some (ArrayFrame xs)) ?js = parseLiteralInner h (Some (ArrayFrame (xs @ [element_value (as_read t)]))) \<lparr>jnext = after_word S, jerror = e\<rparr>"
      using lit [OF a] as_read_leaf(2) [OF t] by (simp add: parse_round [of h "ArrayFrame xs"] finish_round_def end_round_def)
  qed
  show "reads_property h o' d t"
    unfolding reads_property_def
  proof (intro allI impI)
    fix ps :: "(string \<times> 'a json) list" and k0 k W S e assume a: "blank W" "follow S" and k: "c_string k" "k = [] \<longrightarrow> jquotes o'"
    let ?js = "\<lparr>jnext = key_space o' @ print_json h o' d t @ S, jerror = e\<rparr>"
    obtain tid where p: "peekNextJsonToken ?js = Some tid" "tid = TOK_LBRACE \<or> tid = TOK_LBRACKET" using container_peek [OF t blank_key_space, of o' h o' d S e] by (elim exE conjE)
    have "next_member h (ObjectFrame ps k0) \<lparr>jnext = W @ key_json o' k @ print_json h o' d t @ S, jerror = e\<rparr> = Some (Nested (ObjectFrame ps (Some k)) ?js)"
      using key_round [OF a(1) k p(1), of h ps k0] p(2) by auto
    then show "parseLiteralInner h (Some (ObjectFrame ps k0)) \<lparr>jnext = W @ key_json o' k @ print_json h o' d t @ S, jerror = e\<rparr>
       = parseLiteralInner h (Some (ObjectFrame (set_property k (as_read t) ps) (Some k))) \<lparr>jnext = after_word S, jerror = e\<rparr>"
      using lit [OF blank_key_space a(2)] by (simp add: parse_round [of h "ObjectFrame ps k0"] finish_round_def end_round_def)
  qed
qed

text \<open>The end of the items.\<close>

lemma read_close:
  assumes "blank W" "closing c" "follow R"
  shows "parseLiteralInner h (Some f) \<lparr>jnext = W @ c # R, jerror = e\<rparr> = Some (Some (Some (finish f), \<lparr>jnext = after_word R, jerror = e\<rparr>))"
proof -
  note g = get_close [OF assms, of True e]
  have "next_member h f \<lparr>jnext = W @ c # R, jerror = e\<rparr> = Some (Stop (Some (finish f)) \<lparr>jnext = after_word R, jerror = e\<rparr>)"
    using g peek_Some [OF g] by (simp add: next_member_def split: if_splits)
  then show ?thesis by (simp add: parse_round [of h f])
qed

text \<open>What is behind an item, and what is behind that when it was read.\<close>

definition item_rest :: "json_options \<Rightarrow> string list \<Rightarrow> string \<Rightarrow> string" where
  "item_rest o' ts Z = (if ts = [] then last_end o' @ Z else CHR '','' # nl o' @ join_items o' ts @ Z)"

lemma join_Cons: "join_items o' (t # ts) @ Z = t @ item_rest o' ts Z"
  by (cases ts) (simp_all add: item_rest_def)

lemma item_rest_follow: "blank E \<Longrightarrow> closing c \<Longrightarrow> follow (item_rest o' ts (E @ c # R))"
  using follow_simps(3) [of "nl o' @ E" c R] by (auto simp: item_rest_def last_end_def nl_def)

lemma item_rest_after:
  assumes "blank E" "closing c"
  shows "\<exists>W E'. after_word (item_rest o' ts (E @ c # R)) = W @ join_items o' ts @ E' @ c # R \<and> blank W \<and> blank E'"
proof (cases "ts = []")
  case True
  have b: "blank (nl o')" by (simp add: nl_def)
  show ?thesis
  proof (cases "jcommas o'")
    case False
    have "after_word (nl o' @ E @ c # R) = c # R" using after_word_simps(4) [of "nl o' @ E" c R] b assms by simp
    with True False show ?thesis by (intro exI [of _ "[]"]) (simp add: item_rest_def last_end_def)
  next
    case com: True
    show ?thesis by (rule exI [of _ "nl o'"], rule exI [of _ E]) (use True com b assms in \<open>simp add: item_rest_def last_end_def\<close>)
  qed
next
  case False
  show ?thesis by (rule exI [of _ "nl o'"], rule exI [of _ E]) (use False assms in \<open>simp add: item_rest_def nl_def\<close>)
qed

lemma read_elements:
  assumes l: "layout_ok o'" and r: "\<forall>t \<in> set ts. reads_element h o' d t" and R: "follow R"
  shows "blank W \<Longrightarrow> blank E \<Longrightarrow> parseLiteralInner h (Some (ArrayFrame xs))
       \<lparr>jnext = W @ join_items o' (map (\<lambda>t. indent o' d @ print_json h o' d t) ts) @ E @ CHR '']'' # R, jerror = e\<rparr>
     = Some (Some (Some (JArray (xs @ map (\<lambda>t. element_value (as_read t)) ts)), \<lparr>jnext = after_word R, jerror = e\<rparr>))"
  using r
proof (induction ts arbitrary: xs W E)
  case Nil
  then show ?case using read_close [of "W @ E" "CHR '']''" R h "ArrayFrame xs" e] R by (simp add: closing_def)
next
  case (Cons t ts)
  let ?its = "map (\<lambda>t. indent o' d @ print_json h o' d t) ts"
  have c: "closing CHR '']''" by (simp add: closing_def)
  obtain W' E' where a: "after_word (item_rest o' ?its (E @ CHR '']'' # R)) = W' @ join_items o' ?its @ E' @ CHR '']'' # R" "blank W'" "blank E'"
    using item_rest_after [OF Cons.prems(2) c] by blast
  have f: "follow (item_rest o' ?its (E @ CHR '']'' # R))" by (rule item_rest_follow [OF Cons.prems(2) c])
  have "reads_element h o' d t" using Cons.prems(3) by simp
  have "parseLiteralInner h (Some (ArrayFrame xs)) \<lparr>jnext = (W @ indent o' d) @ print_json h o' d t @ item_rest o' ?its (E @ CHR '']'' # R), jerror = e\<rparr>
     = parseLiteralInner h (Some (ArrayFrame (xs @ [element_value (as_read t)]))) \<lparr>jnext = W' @ join_items o' ?its @ E' @ CHR '']'' # R, jerror = e\<rparr>"
    using reads_elementD [OF _ _ f, of h o' d t "W @ indent o' d" xs e] Cons.prems(1) l a(1) \<open>reads_element h o' d t\<close> by simp
  also have "\<dots> = Some (Some (Some (JArray (xs @ map (\<lambda>t. element_value (as_read t)) (t # ts))), \<lparr>jnext = after_word R, jerror = e\<rparr>))"
    using Cons.IH [OF a(2,3), of "xs @ [element_value (as_read t)]"] Cons.prems(3) by simp
  finally show ?case by (simp add: join_Cons)
qed

lemma set_new_property: "k \<notin> fst ` set ps \<Longrightarrow> set_property k v ps = ps @ [(k, v)]"
  by (induction ps) auto

lemma read_properties:
  assumes l: "layout_ok o'" and R: "follow R"
  shows "blank W \<Longrightarrow> blank E \<Longrightarrow> \<forall>(k, t) \<in> set qs. c_string k \<and> (k = [] \<longrightarrow> jquotes o') \<and> reads_property h o' d t \<Longrightarrow> distinct (map fst (ps @ qs))
     \<Longrightarrow> parseLiteralInner h (Some (ObjectFrame ps k0))
       \<lparr>jnext = W @ join_items o' (map (\<lambda>(k, t). indent o' d @ key_json o' k @ print_json h o' d t) qs) @ E @ CHR ''}'' # R, jerror = e\<rparr>
     = Some (Some (Some (JObject (ps @ map (\<lambda>(k, t). (k, as_read t)) qs)), \<lparr>jnext = after_word R, jerror = e\<rparr>))"
proof (induction qs arbitrary: ps k0 W E)
  case Nil
  then show ?case using read_close [of "W @ E" "CHR ''}''" R h "ObjectFrame ps k0" e] R by (simp add: closing_def)
next
  case (Cons q qs)
  obtain k t where q: "q = (k, t)" by (cases q)
  let ?its = "map (\<lambda>(k, t). indent o' d @ key_json o' k @ print_json h o' d t) qs"
  have c: "closing CHR ''}''" by (simp add: closing_def)
  obtain W' E' where a: "after_word (item_rest o' ?its (E @ CHR ''}'' # R)) = W' @ join_items o' ?its @ E' @ CHR ''}'' # R" "blank W'" "blank E'"
    using item_rest_after [OF Cons.prems(2) c] by blast
  have f: "follow (item_rest o' ?its (E @ CHR ''}'' # R))" by (rule item_rest_follow [OF Cons.prems(2) c])
  have k: "c_string k" "k = [] \<longrightarrow> jquotes o'" "reads_property h o' d t" "set_property k (as_read t) ps = ps @ [(k, as_read t)]"
    using Cons.prems(3,4) q set_new_property [of k ps "as_read t"] by auto
  have "parseLiteralInner h (Some (ObjectFrame ps k0))
       \<lparr>jnext = (W @ indent o' d) @ key_json o' k @ print_json h o' d t @ item_rest o' ?its (E @ CHR ''}'' # R), jerror = e\<rparr>
     = parseLiteralInner h (Some (ObjectFrame (ps @ [(k, as_read t)]) (Some k))) \<lparr>jnext = W' @ join_items o' ?its @ E' @ CHR ''}'' # R, jerror = e\<rparr>"
    using reads_propertyD [OF k(3) _ f k(1,2), of "W @ indent o' d" ps k0 e] Cons.prems(1) l a(1) k(4) by simp
  also have "\<dots> = Some (Some (Some (JObject (ps @ map (\<lambda>(k, t). (k, as_read t)) (q # qs))), \<lparr>jnext = after_word R, jerror = e\<rparr>))"
    using Cons.IH [OF a(2,3), of "ps @ [(k, as_read t)]" "Some k"] Cons.prems(3,4) by (simp add: q)
  finally show ?case by (simp add: q join_Cons)
qed

lemma read_open:
  assumes "blank W"
  shows "parseLiteralInner h None \<lparr>jnext = W @ CHR ''['' # X, jerror = e\<rparr> = parseLiteralInner h (Some (ArrayFrame [])) \<lparr>jnext = X, jerror = e\<rparr>"
    and "parseLiteralInner h None \<lparr>jnext = W @ CHR ''{'' # X, jerror = e\<rparr> = parseLiteralInner h (Some (ObjectFrame [] None)) \<lparr>jnext = X, jerror = e\<rparr>"
  using get_open [OF assms, of _ True X e] by (simp_all add: parse_enter open_literal_def)

lemma leaf_reads:
  "leaf t \<Longrightarrow> tree_ok h o' t \<Longrightarrow> (\<not> leaf t \<longrightarrow> reads_literal h o' d t) \<and> reads_element h o' d t \<and> reads_property h o' d t"
  unfolding reads_element_def reads_property_def by (simp add: as_read_leaf(1) element_leaf property_leaf)

lemma print_reads:
  assumes l: "layout_ok o'"
  shows "tree_ok h o' t \<Longrightarrow> (\<not> leaf t \<longrightarrow> reads_literal h o' d t) \<and> reads_element h o' d t \<and> reads_property h o' d t"
proof (induction t arbitrary: d)
  case (JArray ts)
  have el: "\<forall>t \<in> set ts. reads_element h o' (d + 1) t" using JArray by simp
  have "reads_literal h o' d (JArray ts)"
    unfolding reads_literal_def
  proof (intro allI impI)
    fix W S e assume a: "blank W" "follow S"
    show "parseLiteralInner h None \<lparr>jnext = W @ print_json h o' d (JArray ts) @ S, jerror = e\<rparr> = Some (Some (Some (as_read (JArray ts)), \<lparr>jnext = after_word S, jerror = e\<rparr>))"
      using read_elements [OF l el a(2), of "if ts = [] then [] else nl o'" "if ts = [] then [] else indent o' d" "[]" e] l
      by (simp add: read_open [OF a(1)])
  qed
  then show ?case using container_reads [of "JArray ts" h o' d] by simp
next
  case (JObject ps)
  have pr: "\<forall>(k, t) \<in> set ps. c_string k \<and> (k = [] \<longrightarrow> jquotes o') \<and> reads_property h o' (d + 1) t"
  proof (intro ballI, clarify)
    fix k t assume kt: "(k, t) \<in> set ps"
    then have ok: "c_string k \<and> (k = [] \<longrightarrow> jquotes o') \<and> tree_ok h o' t" using JObject.prems by auto
    moreover have "reads_property h o' (d + 1) t" using JObject.IH [OF kt] ok by auto
    ultimately show "c_string k \<and> (k = [] \<longrightarrow> jquotes o') \<and> reads_property h o' (d + 1) t" by blast
  qed
  have "reads_literal h o' d (JObject ps)"
    unfolding reads_literal_def
  proof (intro allI impI)
    fix W S e assume a: "blank W" "follow S"
    show "parseLiteralInner h None \<lparr>jnext = W @ print_json h o' d (JObject ps) @ S, jerror = e\<rparr> = Some (Some (Some (as_read (JObject ps)), \<lparr>jnext = after_word S, jerror = e\<rparr>))"
      using read_properties [OF l a(2), of "nl o'" "indent o' d" ps h "d + 1" "[]" None e] pr l JObject.prems
      by (simp add: read_open [OF a(1)])
  qed
  then show ?case using container_reads [of "JObject ps" h o' d] by simp
qed (rule leaf_reads, simp, assumption)+

text \<open>The text of a container, read as a whole.\<close>

lemma print_nonempty: "\<not> leaf t \<Longrightarrow> print_json h o' d t \<noteq> []"
  using container_bracket [of t h o' d] by auto

lemma read_back:
  assumes "tree_ok h o' t" "\<not> leaf t" "layout_ok o'"
  shows "ejsDeserialize h (print_json h o' d t) = Some (Some (Inr (as_read t)))"
proof -
  have "reads_literal h o' d t" using print_reads [OF assms(3,1)] assms(2) by blast
  then have "parseLiteralInner h None \<lparr>jnext = [] @ print_json h o' d t @ [], jerror = None\<rparr> = Some (Some (Some (as_read t), \<lparr>jnext = after_word [], jerror = None\<rparr>))"
    unfolding reads_literal_def by (metis blank_simps(1) follow_simps(1))
  then show ?thesis using print_nonempty [OF assms(2)] by (simp add: ejsDeserialize_def)
qed

section \<open>Writing a tree\<close>

fun height :: "'n json \<Rightarrow> nat" where
  "height (JArray ts) = Suc (foldr max (map height ts) 0)"
| "height (JObject ps) = Suc (foldr max (map (\<lambda>(k, t). height t) ps) 0)"
| "height t = 0"

definition visible :: "'n jprop \<Rightarrow> bool" where
  "visible p \<longleftrightarrow> pattributes p AND (EJS_TRAIT_HIDDEN OR EJS_TRAIT_DELETED OR EJS_FUN_INITIALIZER OR EJS_FUN_MODULE_INITIALIZER) = 0"

text \<open>A value unfolds to a tree: the objects on the way are different, and all properties are visible and without namespace.\<close>

fun unfolds :: "'n writer \<Rightarrow> nat set \<Rightarrow> 'n any \<Rightarrow> 'n json \<Rightarrow> bool" where
  "unfolds w P v (JArray ts) \<longleftrightarrow> (\<exists>a ob. v = ARef a \<and> a \<notin> P \<and> objects w a = Some ob \<and> jtype ob = ArrayType
     \<and> list_all2 (\<lambda>p t. visible p \<and> (\<exists>u. pvalue p = Some u \<and> unfolds w (insert a P) u t)) (props ob) ts)"
| "unfolds w P v (JObject ps) \<longleftrightarrow> (\<exists>a ob. v = ARef a \<and> a \<notin> P \<and> objects w a = Some ob \<and> jtype ob = ObjectType
     \<and> list_all2 (\<lambda>p q. visible p \<and> pname p = fst q \<and> pspace p = [] \<and> (\<exists>u. pvalue p = Some u \<and> unfolds w (insert a P) u (snd q))) (props ob) ps)"
| "unfolds w P v JUndefined \<longleftrightarrow> v = AUndefined"
| "unfolds w P v JNull \<longleftrightarrow> v = ANull"
| "unfolds w P v (JBool b) \<longleftrightarrow> v = ABool b"
| "unfolds w P v (JNumber n) \<longleftrightarrow> v = ANumber n"
| "unfolds w P v (JString s) \<longleftrightarrow> v = AString s"
| "unfolds w P v (JRegExp s) \<longleftrightarrow> False"

lemma put_simps [simp]:
  "sbuf (put t s) = sbuf s @ t" "nest (put t s) = nest s" "serializeDepth (put t s) = serializeDepth s" "visited (put t s) = visited s" "exception (put t s) = exception s"
  "put t (put u s) = put (u @ t) s" "put [] s = s" "(put t s)\<lparr>visited := V\<rparr> = put t (s\<lparr>visited := V\<rparr>)"
  by (simp_all add: put_def)

text \<open>One slot, up to the next.\<close>

definition write_slot :: "'n writer \<Rightarrow> json_options \<Rightarrow> 'n jobj \<Rightarrow> nat \<Rightarrow> ser \<Rightarrow> (bool \<times> ser) option" where
  "write_slot w o' ob i s =
     Option.bind (case toJSON w (the (pvalue (props ob ! i))) of
                    None \<Rightarrow> serialize w o' (Start (the (pvalue (props ob ! i)))) (put_key o' ob (props ob ! i) s)
                  | Some (sv, e) \<Rightarrow> Some (sv, (put_key o' ob (props ob ! i) s)\<lparr>exception := exception s \<or> e\<rparr>))
       (\<lambda>(sv, s1). put_value w o' ob (key_name ob i (props ob ! i)) sv s1)"

lemma write_slots:
  assumes "objects w a = Some ob" "i < length (props ob)" "\<not> exception s" "\<not> skipped o' (props ob ! i)" "write_slot w o' ob i s = Some (False, s1)"
  shows "serialize w o' (Slots a i n) s = serialize w o' (Slots a (Suc i) (Suc n)) s1"
  using assms by (subst serialize.simps) (auto simp: write_slot_def bind_eq_Some_conv split: option.splits prod.splits)

definition item_ends :: "json_options \<Rightarrow> 'n jobj \<Rightarrow> string list \<Rightarrow> string" where
  "item_ends o' ob ts = concat (map (\<lambda>t. t @ CHR '','' # newline o' ob) ts)"

lemma write_all_slots:
  assumes h: "objects w a = Some ob" and len: "length ts = length (props ob)"
    and step: "\<And>i s. i < length ts \<Longrightarrow> \<not> exception s \<Longrightarrow> serializeDepth s = d \<Longrightarrow> nest s \<ge> 1 \<Longrightarrow> visited s = V
      \<Longrightarrow> \<not> skipped o' (props ob ! i) \<and> write_slot w o' ob i s = Some (False, put (ts ! i @ CHR '','' # newline o' ob) s)"
  shows "i \<le> length ts \<Longrightarrow> \<not> exception s \<Longrightarrow> serializeDepth s = d \<Longrightarrow> nest s \<ge> 1 \<Longrightarrow> visited s = V
      \<Longrightarrow> serialize w o' (Slots a i i) s
        = Some (close_object o' ob (end_items o' ob (length ts) ((put (item_ends o' ob (drop i ts)) s)\<lparr>visited := V - {a}\<rparr>)))"
proof (induction "length ts - i" arbitrary: i s)
  case 0
  then show ?case using h len by (subst serialize.simps) (simp add: item_ends_def)
next
  case (Suc n)
  have i: "i < length ts" using Suc.hyps(2) by simp
  note st = step [OF i Suc.prems(2-5)]
  have "serialize w o' (Slots a i i) s = serialize w o' (Slots a (Suc i) (Suc i)) (put (ts ! i @ CHR '','' # newline o' ob) s)"
    using write_slots [OF h _ Suc.prems(2), of i o'] st i len by simp
  also have "\<dots> = Some (close_object o' ob (end_items o' ob (length ts)
       ((put (item_ends o' ob (drop (Suc i) ts)) (put (ts ! i @ CHR '','' # newline o' ob) s))\<lparr>visited := V - {a}\<rparr>)))"
    by (rule Suc.hyps(1)) (use Suc i in simp_all)
  finally show ?case using i by (simp add: item_ends_def Cons_nth_drop_Suc [symmetric])
qed

lemma item_ends_join:
  assumes "ts \<noteq> []" and "newline o' ob = nl o'"
  shows "\<exists>C. item_ends o' ob ts = C @ CHR '','' # nl o' \<and> join_items o' ts = C @ last_end o'"
  using assms
proof (induction o' ts rule: join_items.induct)
  case (3 o'' t u us)
  then show ?case by (auto simp: item_ends_def)
qed (auto simp: item_ends_def)

lemma end_items_join:
  assumes "ts \<noteq> [] \<Longrightarrow> newline o' ob = nl o'" and "ts \<noteq> [] \<Longrightarrow> \<not> sameline ob"
  shows "end_items o' ob (length ts) (put (item_ends o' ob ts) s) = put (join_items o' ts) s"
proof (cases "ts = []")
  case True
  then show ?thesis by (simp add: end_items_def item_ends_def)
next
  case False
  obtain C where c: "item_ends o' ob ts = C @ CHR '','' # nl o'" "join_items o' ts = C @ last_end o'" using item_ends_join [OF False assms(1) [OF False]] by (elim exE conjE)
  show ?thesis using False assms(2) [OF False] unfolding c by (auto simp: end_items_def last_end_def nl_def take_back_def put_def)
qed

text \<open>Values in a slot: with a string of their own, or written in place.\<close>

definition standard :: "'n writer \<Rightarrow> bool" where
  "standard w \<longleftrightarrow> (\<forall>v. user_toJSON w v = None) \<and> replacer w = None"

definition writes_value :: "'n writer \<Rightarrow> json_options \<Rightarrow> 'n any \<Rightarrow> string \<Rightarrow> ser \<Rightarrow> bool" where
  "writes_value w o' v t s \<longleftrightarrow>
     (\<exists>x. (case toJSON w v of None \<Rightarrow> serialize w o' (Start v) s | Some (sv, e) \<Rightarrow> Some (sv, s\<lparr>exception := exception s \<or> e\<rparr>)) = Some (Some x, s) \<and> value_text o' x = t)
     \<or> (toJSON w v = None \<and> serialize w o' (Start v) s = Some (None, put t s))"

definition prefix :: "json_options \<Rightarrow> 'n jobj \<Rightarrow> 'n jprop \<Rightarrow> int \<Rightarrow> string" where
  "prefix o' ob p d = indent o' d @ (if isArray ob then [] else key_text o' p)"

lemma put_key_prefix: "put_key o' ob p s = put (prefix o' ob p (serializeDepth s)) s"
  by (simp add: put_key_def prefix_def indent_def)

lemma put_exception [simp]: "exception s \<Longrightarrow> s\<lparr>exception := True\<rparr> = s" "\<not> exception s \<Longrightarrow> s\<lparr>exception := False\<rparr> = s"
  by simp_all

lemma write_slot_value:
  assumes "standard w" and e: "\<not> exception s" and v: "writes_value w o' (the (pvalue (props ob ! i))) t (put_key o' ob (props ob ! i) s)"
  shows "write_slot w o' ob i s = Some (False, put ((prefix o' ob (props ob ! i) (serializeDepth s) @ t) @ CHR '','' # newline o' ob) s)"
proof -
  let ?u = "the (pvalue (props ob ! i))" and ?s = "put_key o' ob (props ob ! i) s"
  have r: "replacer w = None" using assms(1) by (simp add: standard_def)
  have ex: "exception ?s = exception s" by (simp add: put_key_prefix)
  show ?thesis using v unfolding writes_value_def
  proof (elim disjE exE conjE)
    fix x
    assume x: "(case toJSON w ?u of None \<Rightarrow> serialize w o' (Start ?u) ?s | Some (sv, e) \<Rightarrow> Some (sv, ?s\<lparr>exception := exception ?s \<or> e\<rparr>)) = Some (Some x, ?s)" "value_text o' x = t"
    have "write_slot w o' ob i s = put_value w o' ob (key_name ob i (props ob ! i)) (Some x) ?s"
      unfolding write_slot_def using x(1) unfolding ex by simp
    then show ?thesis using x(2) r by (simp add: put_value_def put_key_prefix)
  next
    assume x: "toJSON w ?u = None" "serialize w o' (Start ?u) ?s = Some (None, put t ?s)"
    then show ?thesis using e by (simp add: write_slot_def put_value_def put_key_prefix)
  qed
qed

lemma value_text_plain: "NL \<notin> set x \<Longrightarrow> value_text o' x = x"
  by (induction x) (auto simp: value_text_def)

lemma plain_no_newline: "plain_word x \<Longrightarrow> NL \<notin> set x"
  using id_char_codes(1) [of NL] by (auto simp: plain_word_def)

lemma value_text_literal: "value_text o' (QUOTE # concat (map escape_char s) @ [QUOTE]) = QUOTE # concat (map (code_char o') s) @ [QUOTE]"
proof -
  have "value_text o' (concat (map escape_char s)) = concat (map (code_char o') s)"
  proof (induction s)
    case (Cons c s)
    have "value_text o' (x @ y) = value_text o' x @ value_text o' y" for x y by (simp add: value_text_def)
    moreover have "value_text o' (escape_char c) = code_char o' c" by (auto simp: value_text_def escape_char_def code_char_def char_defs)
    ultimately show ?case using Cons by simp
  qed (simp add: value_text_def)
  moreover have "QUOTE \<noteq> NL" by (simp add: char_defs)
  ultimately show ?thesis by (cases "jmultiline o'") (simp_all add: value_text_def)
qed

lemma literal_string: "c_string s \<Longrightarrow> ejsToLiteralString w (AString s) = QUOTE # concat (map escape_char s) @ [QUOTE]"
proof -
  assume "c_string s"
  then have "c_string (QUOTE # concat (map escape_char s) @ [QUOTE])" by (auto simp: c_string_def escape_char_def char_defs)
  then show ?thesis by (simp add: ejsToLiteralString_def ejsToString_def)
qed

lemma leaf_writes:
  assumes w: "standard w" and t: "leaf t" "tree_ok (whost w) o' t" and u: "unfolds w P v t" and e: "\<not> exception s"
  shows "writes_value w o' v (print_json (whost w) o' d t) s"
proof (cases "\<exists>x. t = JString x")
  case True
  then obtain x where x: "t = JString x" "v = AString x" "c_string x" using t(2) u by auto
  then show ?thesis using value_text_literal [of o' x] e by (simp add: writes_value_def toJSON_def literal_string)
next
  case False
  then have n: "toJSON w v = None" using w u t(1) by (cases t) (auto simp: toJSON_def standard_def)
  have c: "container w v = None" "plain_string w o' v = print_json (whost w) o' d t"
    using u t(1) False by (cases t; auto simp: container_def plain_string_def ejsToString_def)+
  have "serialize w o' (Start v) s = Some (Some (print_json (whost w) o' d t), s)" using c by (subst serialize.simps) simp
  moreover have "value_text o' (print_json (whost w) o' d t) = print_json (whost w) o' d t"
    using leaf_word(1) [OF t] False by (intro value_text_plain plain_no_newline) blast
  ultimately show ?thesis using n by (simp add: writes_value_def)
qed

text \<open>A container, given its items.\<close>

lemma container_writes:
  assumes h: "container w v = Some (a, ob)" "objects w a = Some ob" and d: "serializeDepth s + 1 \<le> jdepth o'" "a \<notin> visited s" "\<not> exception s" "nest s \<ge> 0"
    and len: "length ts = length (props ob)"
    and step: "\<And>i s'. i < length ts \<Longrightarrow> \<not> exception s' \<Longrightarrow> serializeDepth s' = serializeDepth s + 1 \<Longrightarrow> nest s' \<ge> 1 \<Longrightarrow> visited s' = insert a (visited s)
      \<Longrightarrow> \<not> skipped o' (props ob ! i) \<and> write_slot w o' ob i s' = Some (False, put (ts ! i @ CHR '','' # newline o' ob) s')"
  shows "serialize w o' (Start v) s =
     (let t = (if isArray ob then CHR ''['' else CHR ''{'') # newline o' ob @ join_items o' ts @ (if sameline ob then [] else indent o' (serializeDepth s))
            @ [if isArray ob then CHR '']'' else CHR ''}'']
      in Some (if nest s = 0 then Some (sbuf s @ t) else None, put t s))"
proof -
  let ?s = "(open_object o' ob s)\<lparr>visited := insert a (visited s)\<rparr>"
  have s: "\<not> exception ?s" "serializeDepth ?s = serializeDepth s + 1" "nest ?s \<ge> 1" "visited ?s = insert a (visited s)"
    using d(3,4) by (simp_all add: open_object_def)
  have nl: "newline o' ob = nl o'" "\<not> sameline ob" if "ts \<noteq> []"
    using that len by (auto simp: newline_def nl_def sameline_def)
  have "serialize w o' (Start v) s = serialize w o' (Slots a 0 0) ?s" using h(1) d(1,2) by (subst serialize.simps) simp
  also have "\<dots> = Some (close_object o' ob (end_items o' ob (length ts) ((put (item_ends o' ob ts) ?s)\<lparr>visited := insert a (visited s) - {a}\<rparr>)))"
    by (rule trans [OF write_all_slots [where V = "insert a (visited s)" and d = "serializeDepth s + 1", OF h(2) len step]]) (use s in simp_all)
  also have "\<dots> = Some (close_object o' ob (put (join_items o' ts) (?s\<lparr>visited := visited s\<rparr>)))"
    using end_items_join [of ts o' ob] nl d(2) by simp
  finally show ?thesis using d(4) by (simp add: close_object_def open_object_def put_def indent_def Let_def)
qed

lemma height_member: "x \<le> foldr max (xs @ x # ys) (0 :: nat)"
  by (induction xs) auto

lemma height_in: "x \<in> set xs \<Longrightarrow> x \<le> foldr max xs (0 :: nat)"
  using height_member by (metis split_list)

lemma visible_written: "visible p \<Longrightarrow> pvalue p = Some u \<Longrightarrow> jnulls o' \<Longrightarrow> \<not> skipped o' p"
  by (simp add: visible_def skipped_def)

lemma key_text_json: "pspace p = [] \<Longrightarrow> c_string (pname p) \<Longrightarrow> key_text o' p = key_json o' (pname p)"
  by (simp add: key_text_def key_json_def Let_def)

definition writes_container :: "'n writer \<Rightarrow> json_options \<Rightarrow> 'n json \<Rightarrow> bool" where
  "writes_container w o' t \<longleftrightarrow> (\<forall>v (s :: ser). unfolds w (visited s) v t \<longrightarrow> \<not> exception s \<longrightarrow> nest s \<ge> 0 \<longrightarrow> int (height t) \<le> jdepth o' - serializeDepth s \<longrightarrow>
     serialize w o' (Start v) s = Some (if nest s = 0 then Some (sbuf s @ print_json (whost w) o' (serializeDepth s) t) else None,
                                       put (print_json (whost w) o' (serializeDepth s) t) s))"

lemma slot_writes:
  assumes w: "standard w" and n: "jnulls o'" and t: "tree_ok (whost w) o' t" "\<not> leaf t \<Longrightarrow> writes_container w o' t"
    and p: "visible (props ob ! i)" "pvalue (props ob ! i) = Some u" "unfolds w (visited s) u t"
    and s: "\<not> exception s" "nest s \<ge> 1" "int (height t) \<le> jdepth o' - serializeDepth s"
    and pre: "prefix o' ob (props ob ! i) (serializeDepth s) = x"
  shows "\<not> skipped o' (props ob ! i) \<and> write_slot w o' ob i s
     = Some (False, put ((x @ print_json (whost w) o' (serializeDepth s) t) @ CHR '','' # newline o' ob) s)"
proof -
  let ?s = "put_key o' ob (props ob ! i) s"
  have k: "\<not> exception ?s" "nest ?s = nest s" "serializeDepth ?s = serializeDepth s" "visited ?s = visited s" using s(1) by (simp_all add: put_key_prefix)
  have "writes_value w o' u (print_json (whost w) o' (serializeDepth s) t) ?s"
  proof (cases "leaf t")
    case True
    show ?thesis by (rule leaf_writes [OF w True t(1) p(3) k(1)])
  next
    case False
    have "toJSON w u = None" using p(3) w False by (cases t) (auto simp: toJSON_def standard_def)
    moreover have "serialize w o' (Start u) ?s = Some (None, put (print_json (whost w) o' (serializeDepth s) t) ?s)"
      using t(2) [OF False] p(3) k s(2,3) by (simp add: writes_container_def)
    ultimately show ?thesis by (simp add: writes_value_def)
  qed
  then have "write_slot w o' ob i s = Some (False, put ((prefix o' ob (props ob ! i) (serializeDepth s) @ print_json (whost w) o' (serializeDepth s) t) @ CHR '','' # newline o' ob) s)"
    using p(2) by (intro write_slot_value [OF w s(1)]) simp
  then show ?thesis using visible_written [OF p(1,2) n] pre by simp
qed

lemma print_written:
  assumes w: "standard w" and n: "jnulls o'"
  shows "tree_ok (whost w) o' t \<Longrightarrow> \<not> leaf t \<Longrightarrow> writes_container w o' t"
proof (induction t)
  case (JArray ts)
  show ?case unfolding writes_container_def
  proof (intro allI impI)
    fix v and s :: ser assume u: "unfolds w (visited s) v (JArray ts)" and s: "\<not> exception s" "nest s \<ge> 0" and d: "int (height (JArray ts)) \<le> jdepth o' - serializeDepth s"
    obtain a ob where ob: "v = ARef a" "a \<notin> visited s" "objects w a = Some ob" "jtype ob = ArrayType"
      "list_all2 (\<lambda>p t. visible p \<and> (\<exists>u. pvalue p = Some u \<and> unfolds w (insert a (visited s)) u t)) (props ob) ts" using u by auto
    have len: "length (props ob) = length ts" using ob(5) by (rule list_all2_lengthD)
    let ?txt = "map (\<lambda>t. indent o' (serializeDepth s + 1) @ print_json (whost w) o' (serializeDepth s + 1) t) ts"
    have "serialize w o' (Start v) s =
       (let t = (if isArray ob then CHR ''['' else CHR ''{'') # newline o' ob @ join_items o' ?txt @ (if sameline ob then [] else indent o' (serializeDepth s))
              @ [if isArray ob then CHR '']'' else CHR ''}'']
        in Some (if nest s = 0 then Some (sbuf s @ t) else None, put t s))"
    proof (rule container_writes [OF _ ob(3) _ ob(2) s])
      show "container w v = Some (a, ob)" using ob(1,3,4) by (simp add: container_def)
      show "serializeDepth s + 1 \<le> jdepth o'" using d by simp
      show "length ?txt = length (props ob)" using len by simp
      fix i and s' :: ser assume i: "i < length ?txt" and s': "\<not> exception s'" "serializeDepth s' = serializeDepth s + 1" "nest s' \<ge> 1" "visited s' = insert a (visited s)"
      have m: "ts ! i \<in> set ts" using i by simp
      obtain u where p: "visible (props ob ! i)" "pvalue (props ob ! i) = Some u" "unfolds w (insert a (visited s)) u (ts ! i)"
        using list_all2_nthD2 [OF ob(5)] i by auto
      have "int (height (ts ! i)) \<le> jdepth o' - serializeDepth s'" using d s'(2) height_in [of "height (ts ! i)" "map height ts"] m by simp
      moreover have "prefix o' ob (props ob ! i) (serializeDepth s') = indent o' (serializeDepth s + 1)" using s'(2) ob(4) by (simp add: prefix_def isArray_def)
      ultimately show "\<not> skipped o' (props ob ! i) \<and> write_slot w o' ob i s' = Some (False, put (?txt ! i @ CHR '','' # newline o' ob) s')"
        using slot_writes [OF w n _ _ p(1,2) p(3) [folded s'(4)] s'(1,3)] JArray.IH [OF m] JArray.prems(1) m i s'(2) by simp
    qed
    then show "serialize w o' (Start v) s = Some (if nest s = 0 then Some (sbuf s @ print_json (whost w) o' (serializeDepth s) (JArray ts)) else None,
                                       put (print_json (whost w) o' (serializeDepth s) (JArray ts)) s)"
      using ob(4) len by (auto simp: isArray_def sameline_def newline_def nl_def Let_def)
  qed
next
  case (JObject ps)
  show ?case unfolding writes_container_def
  proof (intro allI impI)
    fix v and s :: ser assume u: "unfolds w (visited s) v (JObject ps)" and s: "\<not> exception s" "nest s \<ge> 0" and d: "int (height (JObject ps)) \<le> jdepth o' - serializeDepth s"
    obtain a ob where ob: "v = ARef a" "a \<notin> visited s" "objects w a = Some ob" "jtype ob = ObjectType"
      "list_all2 (\<lambda>p q. visible p \<and> pname p = fst q \<and> pspace p = [] \<and> (\<exists>u. pvalue p = Some u \<and> unfolds w (insert a (visited s)) u (snd q))) (props ob) ps" using u by auto
    have len: "length (props ob) = length ps" using ob(5) by (rule list_all2_lengthD)
    let ?txt = "map (\<lambda>(k, t). indent o' (serializeDepth s + 1) @ key_json o' k @ print_json (whost w) o' (serializeDepth s + 1) t) ps"
    have "serialize w o' (Start v) s =
       (let t = (if isArray ob then CHR ''['' else CHR ''{'') # newline o' ob @ join_items o' ?txt @ (if sameline ob then [] else indent o' (serializeDepth s))
              @ [if isArray ob then CHR '']'' else CHR ''}'']
        in Some (if nest s = 0 then Some (sbuf s @ t) else None, put t s))"
    proof (rule container_writes [OF _ ob(3) _ ob(2) s])
      show "container w v = Some (a, ob)" using ob(1,3,4) by (simp add: container_def)
      show "serializeDepth s + 1 \<le> jdepth o'" using d by simp
      show "length ?txt = length (props ob)" using len by simp
      fix i and s' :: ser assume i: "i < length ?txt" and s': "\<not> exception s'" "serializeDepth s' = serializeDepth s + 1" "nest s' \<ge> 1" "visited s' = insert a (visited s)"
      obtain k t where kt: "ps ! i = (k, t)" by (cases "ps ! i")
      have m: "(k, t) \<in> set ps" using i kt by (metis length_map nth_mem)
      obtain u where p: "visible (props ob ! i)" "pvalue (props ob ! i) = Some u" "unfolds w (insert a (visited s)) u t" "pname (props ob ! i) = k" "pspace (props ob ! i) = []"
        using list_all2_nthD2 [OF ob(5), of i] i kt by auto
      have ok: "c_string k" "tree_ok (whost w) o' t" using JObject.prems(1) m by auto
      have "height t \<le> foldr max (map (\<lambda>(k, t). height t) ps) 0" using m by (intro height_in) force
      then have ht: "int (height t) \<le> jdepth o' - serializeDepth s'" using d s'(2) by simp
      have "prefix o' ob (props ob ! i) (serializeDepth s') = indent o' (serializeDepth s + 1) @ key_json o' k"
        using s'(2) ob(4) key_text_json [of "props ob ! i" o'] p(4,5) ok(1) by (simp add: prefix_def isArray_def)
      from slot_writes [OF w n ok(2) _ p(1,2) p(3) [folded s'(4)] s'(1,3) ht this]
      show "\<not> skipped o' (props ob ! i) \<and> write_slot w o' ob i s' = Some (False, put (?txt ! i @ CHR '','' # newline o' ob) s')"
        using JObject.IH [OF m] ok(2) i kt s'(2) by simp
    qed
    then show "serialize w o' (Start v) s = Some (if nest s = 0 then Some (sbuf s @ print_json (whost w) o' (serializeDepth s) (JObject ps)) else None,
                                       put (print_json (whost w) o' (serializeDepth s) (JObject ps)) s)"
      using ob(4) len by (auto simp: isArray_def sameline_def newline_def nl_def Let_def)
  qed
qed simp_all

section \<open>Writing and reading\<close>

definition chosen :: "option_object option \<Rightarrow> json_options" where
  "chosen options = (case options of None \<Rightarrow> default_options | Some p \<Rightarrow> read_options p)"

lemma standard_options: "standard w \<Longrightarrow> (case options of None \<Rightarrow> w\<lparr>replacer := None\<rparr> | Some _ \<Rightarrow> w) = w"
  by (cases w) (auto simp: standard_def split: option.split)

lemma written_read:
  assumes w: "standard w" and t: "unfolds w {} v t" "\<not> leaf t" "tree_ok (whost w) (chosen options) t" "int (height t) \<le> jdepth (chosen options) - d"
    and o': "layout_ok (chosen options)" "jnulls (chosen options)"
  shows "\<exists>str s. ejsToJSON w d v options = Some (Some str, s) \<and> serializeDepth s = d \<and> visited s = {} \<and> \<not> exception s
     \<and> ejsDeserialize (whost w) str = Some (Some (Inr (as_read t)))"
proof -
  let ?s = "\<lparr>sbuf = [], nest = 0, serializeDepth = d, visited = {}, exception = False\<rparr>" and ?t = "print_json (whost w) (chosen options) d t"
  have "toJSON w v = None" using w t(1,2) by (cases t) (auto simp: toJSON_def standard_def)
  moreover have "serialize w (chosen options) (Start v) ?s = Some (Some ?t, put ?t ?s)"
    using print_written [OF w o'(2) t(3,2)] t(1,4) by (simp add: writes_container_def)
  ultimately have "ejsToJSON w d v options = Some (Some ?t, put ?t ?s)"
    by (simp add: ejsToJSON_def ejsSerializeWithOptions_def standard_options [OF w] chosen_def)
  moreover have "ejsDeserialize (whost w) ?t = Some (Some (Inr (as_read t)))" by (rule read_back [OF t(3,2) o'(1)])
  ultimately show ?thesis by (intro exI [of _ ?t] exI [of _ "put ?t ?s"]) simp
qed

text \<open>
  Property C4. What is written as JSON is read back. Take objects that unfold to a tree not deeper than the depth that is left, with numbers that the host
  prints as it should, properties of different names, and in arrays no strings that start with white space and none of \<^verbatim>\<open>null\<close> and \<^verbatim>\<open>undefined\<close>.
  With whatever options for layout, quotes and commas, \<^verbatim>\<open>ejsToJSON\<close> returns a string from which \<^verbatim>\<open>ejsDeserialize\<close> makes the tree, and the
  depth and the marks are as before.
\<close>

theorem json_roundtrip:
  assumes w: "standard w" and t: "unfolds w {} v t" "\<not> leaf t" "json_ok (whost w) (chosen options) t" "int (height t) \<le> jdepth (chosen options) - d"
    and o': "layout_ok (chosen options)" "jnulls (chosen options)"
  shows "\<exists>str s. ejsToJSON w d v options = Some (Some str, s) \<and> serializeDepth s = d \<and> visited s = {} \<and> \<not> exception s
     \<and> ejsDeserialize (whost w) str = Some (Some (Inr t))"
  using written_read [OF w t(1,2) json_ok_tree [OF t(3), THEN conjunct1] t(4) o'] json_ok_tree [OF t(3)] by simp

text \<open>A host whose numbers are integers, and two objects: an object with an array of a number and a string with quotes, and an empty object.\<close>

definition integer_host :: "int host" where
  "integer_host = \<lparr>of_int64 = (\<lambda>i. i), nan = 0, atof = (\<lambda>_. 0), negate = uminus, number_string = (\<lambda>i. the (the (itos i))), ejsParseRegExp = (\<lambda>s. None)\<rparr>"

definition plain_prop :: "string \<Rightarrow> int any \<Rightarrow> int jprop" where
  "plain_prop k v = \<lparr>pname = k, pspace = [], pattributes = 0, pvalue = Some v\<rparr>"

definition sample_writer :: "int writer" where
  "sample_writer = \<lparr>whost = integer_host,
     objects = [1 \<mapsto> \<lparr>jtype = ObjectType, props = [plain_prop ''a'' (ARef 2), plain_prop ''b'' (ARef 3)]\<rparr>,
                2 \<mapsto> \<lparr>jtype = ArrayType, props = [plain_prop [] (ANumber (-12)), plain_prop [] (AString [QUOTE, NL, BS])]\<rparr>,
                3 \<mapsto> \<lparr>jtype = ObjectType, props = []\<rparr>],
     object_string = (\<lambda>_. []), user_toJSON = (\<lambda>_. None), replacer = None\<rparr>"

definition sample_tree :: "int json" where
  "sample_tree = JObject [(''a'', JArray [JNumber (-12), JString [QUOTE, NL, BS]]), (''b'', JObject [])]"

lemma sample_string: "itos (-12) = Some (Some ''-12'')"
  by code_simp

theorem json_roundtrip_witness:
  "\<exists>str s. ejsToJSON sample_writer 0 (ARef 1) None = Some (Some str, s) \<and> ejsDeserialize integer_host str = Some (Some (Inr sample_tree))"
proof -
  have w: "standard sample_writer" by (simp add: standard_def sample_writer_def)
  have u: "unfolds sample_writer {} (ARef 1) sample_tree"
    by (simp add: sample_tree_def sample_writer_def plain_prop_def visible_def)
  have n: "num_ok integer_host (-12)"
    unfolding num_ok_def prints_integer_def using sample_string by (intro disjI1 exI [of _ "-12"]) (simp add: integer_host_def in_int64_def)
  have k: "c_string [QUOTE, NL, BS]" "\<not> isspace QUOTE" by (simp_all add: c_string_def char_defs isspace_def char_code_def)
  have j: "json_ok integer_host (chosen None) sample_tree" using n k by (simp add: sample_tree_def element_ok_def c_string_def)
  have "layout_ok (chosen None)" "jnulls (chosen None)" "int (height sample_tree) \<le> jdepth (chosen None) - 0"
    by (simp_all add: chosen_def default_options_def layout_ok_def sample_tree_def)
  with json_roundtrip [OF w u _ _ _ this(1,2), of 0] j show ?thesis by (auto simp: sample_writer_def sample_tree_def)
qed

section \<open>Strings in arrays\<close>

lemma trimmed: "dropWhile isspace s = s \<longleftrightarrow> s = [] \<or> \<not> isspace (hd s)"
proof (cases s)
  case (Cons c r)
  have "dropWhile isspace r \<noteq> c # r" using length_skip [of isspace r] by (metis impossible_Cons)
  with Cons show ?thesis by simp
qed simp

lemma element_string_same: "element_value (JString s) = JString s \<longleftrightarrow> element_ok (JString s)"
proof -
  have "element_ok (JString s) \<longleftrightarrow> dropWhile isspace s = s \<and> s \<noteq> ''null'' \<and> s \<noteq> ''undefined''" by (simp add: element_ok_def trimmed)
  then show ?thesis by (auto split: if_splits)
qed

lemma map_same: "map f xs = xs \<longleftrightarrow> (\<forall>x \<in> set xs. f x = x)"
  by (induction xs) auto

lemma as_read_same: "tree_ok h o' t \<Longrightarrow> as_read t = t \<longleftrightarrow> json_ok h o' t"
proof (induction t)
  case (JArray ts)
  have "element_value (as_read t) = t \<longleftrightarrow> json_ok h o' t \<and> element_ok t" if t: "t \<in> set ts" for t
  proof (cases "\<exists>s. t = JString s")
    case True
    then obtain s where s: "t = JString s" by blast
    have "json_ok h o' t \<longleftrightarrow> tree_ok h o' t" using s by simp
    then show ?thesis using JArray.prems t element_string_same [of s] s by (metis as_read.simps(7) tree_ok.simps(4))
  next
    case False
    then have "element_value (as_read t) = as_read t" "element_ok t" by (cases t; auto simp: element_ok_def)+
    then show ?thesis using JArray t by simp
  qed
  then show ?case by (simp add: map_same)
next
  case (JObject ps)
  have "(as_read t = t) = json_ok h o' t" if "(k, t) \<in> set ps" for k t using JObject.IH [OF that] JObject.prems that by auto
  then have "as_read (JObject ps) = JObject ps \<longleftrightarrow> (\<forall>(k, t) \<in> set ps. json_ok h o' t)" by (auto simp: map_same)
  then show ?case using JObject.prems by auto
qed auto

text \<open>
  Property C39. What becomes of strings in arrays: of a tree that is written, \<^verbatim>\<open>ejsDeserialize\<close> makes the tree in which every string that is an element
  of an array has lost the white space in front and, when \<^verbatim>\<open>null\<close> or \<^verbatim>\<open>undefined\<close> remains, is that value. All else is as it was, so that exactly
  the trees without such elements come back.
\<close>

theorem array_strings_change:
  assumes w: "standard w" and t: "unfolds w {} v t" "\<not> leaf t" "tree_ok (whost w) (chosen options) t" "int (height t) \<le> jdepth (chosen options) - d"
    and o': "layout_ok (chosen options)" "jnulls (chosen options)"
  shows "\<exists>str s. ejsToJSON w d v options = Some (Some str, s) \<and> ejsDeserialize (whost w) str = Some (Some (Inr (as_read t)))
     \<and> (as_read t = t \<longleftrightarrow> json_ok (whost w) (chosen options) t)"
  using written_read [OF assms] as_read_same [OF t(3)] by blast

definition array_writer :: "int writer" where
  "array_writer = sample_writer\<lparr>objects := [1 \<mapsto> \<lparr>jtype = ArrayType, props = map (\<lambda>s. plain_prop [] (AString s)) [''null'', '' a'', ''b '']\<rparr>]\<rparr>"

theorem array_strings_change_witness:
  "\<exists>str s. ejsToJSON array_writer 0 (ARef 1) None = Some (Some str, s)
     \<and> ejsDeserialize integer_host str = Some (Some (Inr (JArray [JNull, JString ''a'', JString ''b ''])))"
proof -
  let ?t = "JArray [JString ''null'', JString '' a'', JString ''b '']"
  have w: "standard array_writer" by (simp add: standard_def array_writer_def sample_writer_def)
  have u: "unfolds array_writer {} (ARef 1) ?t" by (simp add: array_writer_def plain_prop_def visible_def)
  have h: "whost array_writer = integer_host" by (simp add: array_writer_def sample_writer_def)
  have o: "layout_ok (chosen None)" "jnulls (chosen None)" "int (height ?t) \<le> jdepth (chosen None) - 0"
    by (simp_all add: chosen_def default_options_def layout_ok_def)
  have j: "tree_ok integer_host (chosen None) ?t" by (simp add: c_string_def char_defs)
  have "as_read ?t = JArray [JNull, JString ''a'', JString ''b '']" by (simp add: isspace_def char_code_def)
  with array_strings_change [OF w u, of None 0] o j show ?thesis by (auto simp: h)
qed

section \<open>Undefined inputs\<close>

lemma block_end_Some: "block_end x \<noteq> None \<longleftrightarrow> (\<exists>a b. x = a @ ''*/'' @ b)"
proof (induction x rule: block_end.induct)
  case (1 c d r)
  have "(\<exists>a b. c # d # r = a @ ''*/'' @ b) \<longleftrightarrow> (c = CHR ''*'' \<and> d = CHR ''/'') \<or> (\<exists>a b. d # r = a @ ''*/'' @ b)"
    by (auto simp: Cons_eq_append_conv)
  then show ?case using 1 by auto
qed (auto simp: Cons_eq_append_conv)

lemma block_end_None: "block_end x = None \<longleftrightarrow> (\<forall>a b. x \<noteq> a @ ''*/'' @ b)"
  using block_end_Some [of x] by blast

lemma line_end_None: "line_end x = None \<longleftrightarrow> NL \<notin> set x"
  by (induction x) auto

text \<open>A comment that does not end, with white space in front.\<close>

definition unfinished_comment :: "string \<Rightarrow> bool" where
  "unfinished_comment x \<longleftrightarrow>
     (\<exists>W y. blank W \<and> (x = W @ ''/*'' @ y \<and> (\<forall>a b. y \<noteq> a @ ''*/'' @ b) \<or> x = W @ ''//'' @ y \<and> NL \<notin> set y))"

lemma skip_unfinished: "unfinished_comment x \<Longrightarrow> skipComments x = None"
proof -
  assume "unfinished_comment x"
  then obtain W y where y: "blank W" "x = W @ ''/*'' @ y \<and> block_end y = None \<or> x = W @ ''//'' @ y \<and> line_end y = None"
    unfolding unfinished_comment_def block_end_None line_end_None by blast
  have "\<not> isspace CHR ''/''" by code_simp
  with y show ?thesis by (auto simp: skipComments_def skip_comments.simps)
qed

lemma unfinished_undefined:
  assumes "unfinished_comment x"
  shows "parseLiteralInner h frame \<lparr>jnext = x, jerror = e\<rparr> = Some None"
proof -
  have g: "getNextJsonToken b \<lparr>jnext = x, jerror = e\<rparr> = None" for b by (simp add: getNextJsonToken_def skip_unfinished [OF assms])
  show ?thesis by (cases frame) (simp_all add: parse_enter open_literal_def parse_round next_member_def peekNextJsonToken_def g)
qed

lemma start_closing:
  assumes "blank W" "closing c"
  shows "parseLiteralInner h None \<lparr>jnext = W @ c # x, jerror = e\<rparr>
    = (let b = dropWhile isspace x in
       if deref b = NUL \<or> deref b = CHR '','' \<or> closing (deref b) \<or> deref b = CHR ''/'' then Some None
       else Some (Some (None, \<lparr>jnext = W @ c # x, jerror = Some b\<rparr>)))"
proof -
  have "skipComments (jnext \<lparr>jnext = W @ c # x, jerror = e\<rparr>) = Some (c # x)" using assms by (auto simp: closing_def intro!: skip_blank)
  then show ?thesis using assms(2) by (auto simp: parse_enter open_literal_def get_closing Let_def)
qed

text \<open>An object or an array in the place of the first key.\<close>

lemma nested_key:
  assumes W: "blank W" and y: "skipComments y = Some (c # z)" "c = CHR ''{'' \<or> c = CHR ''[''"
    and p: "parseLiteralInner h None \<lparr>jnext = y, jerror = e\<rparr> = Some (Some (Some v, js))"
  shows "parseLiteralInner h None \<lparr>jnext = W @ CHR ''{'' # y, jerror = e\<rparr> = Some None"
proof -
  have "skipComments (jnext \<lparr>jnext = y, jerror = e\<rparr>) = Some (c # z)" using y(1) by simp
  from get_punctuation [OF this] obtain tid where "peekNextJsonToken \<lparr>jnext = y, jerror = e\<rparr> = Some tid" "tid = TOK_LBRACE \<or> tid = TOK_LBRACKET"
    using y(2) by (auto simp: punctuation_def peek_get char_defs)
  then have "next_member h (ObjectFrame [] None) \<lparr>jnext = y, jerror = e\<rparr> = Some (Nested (ObjectFrame [] None) \<lparr>jnext = y, jerror = e\<rparr>)"
    by (auto simp: next_member_def)
  then show ?thesis using p by (simp add: read_open(2) [OF W] parse_round [of h "ObjectFrame [] None"] finish_round_def end_round_def)
qed


text \<open>
  Property C38. Inputs that are undefined. Where a literal, an element or a property is to be read, a comment that does not end makes the reader follow a
  null pointer. For a closing bracket at the start with nothing, a comma, a bracket or a slash behind it, it takes a token that was never set; with
  anything else behind it, the input is a syntax error. When an object or an array that can be read stands in the place of the first key of an object, a
  key that was never set is taken.
\<close>

theorem undefined_inputs:
  fixes h :: "'n host" and v :: "'n json"
  assumes W: "blank W"
  shows "(unfinished_comment x \<longrightarrow> parseLiteralInner h frame \<lparr>jnext = x, jerror = e\<rparr> = Some None \<and> ejsDeserialize h x = Some None)
     \<and> (closing c \<longrightarrow> ejsDeserialize h (W @ c # x)
          = (if deref (dropWhile isspace x) \<in> {NUL, CHR '','', CHR ''}'', CHR '']'', CHR ''/''} then Some None else Some (Some (Inl SyntaxError))))
     \<and> (skipComments y = Some (b # z) \<longrightarrow> b = CHR ''{'' \<or> b = CHR ''['' \<longrightarrow> ejsDeserialize h y = Some (Some (Inr v))
          \<longrightarrow> ejsDeserialize h (W @ CHR ''{'' # y) = Some None)"
proof (intro conjI impI)
  assume u: "unfinished_comment x"
  then have "x \<noteq> []" by (auto simp: unfinished_comment_def)
  then show "ejsDeserialize h x = Some None" using unfinished_undefined [OF u, of h None None] by (simp add: ejsDeserialize_def)
  show "parseLiteralInner h frame \<lparr>jnext = x, jerror = e\<rparr> = Some None" by (rule unfinished_undefined [OF u])
next
  assume "closing c"
  from start_closing [OF W this, of h x None] show "ejsDeserialize h (W @ c # x)
     = (if deref (dropWhile isspace x) \<in> {NUL, CHR '','', CHR ''}'', CHR '']'', CHR ''/''} then Some None else Some (Some (Inl SyntaxError)))"
    by (auto simp: ejsDeserialize_def closing_def Let_def split: if_splits)
next
  assume y: "skipComments y = Some (b # z)" "b = CHR ''{'' \<or> b = CHR ''[''" and r: "ejsDeserialize h y = Some (Some (Inr v))"
  have "y \<noteq> []" using y(1) by (auto simp: skipComments_def skip_comments.simps)
  then obtain js where "parseLiteralInner h None \<lparr>jnext = y, jerror = None\<rparr> = Some (Some (Some v, js))"
    using r by (auto simp: ejsDeserialize_def split: option.splits)
  from nested_key [OF W y this] show "ejsDeserialize h (W @ CHR ''{'' # y) = Some None" by (simp add: ejsDeserialize_def)
qed

theorem undefined_inputs_witness:
  "ejsDeserialize integer_host ''  // a'' = Some None \<and> ejsDeserialize integer_host ''] ]'' = Some None
   \<and> ejsDeserialize integer_host ''} x'' = Some (Some (Inl SyntaxError)) \<and> ejsDeserialize integer_host ''{ {}'' = Some None"
proof -
  have b: "blank []" by simp
  have u: "unfinished_comment ''  // a''" unfolding unfinished_comment_def by (intro exI [of _ "''  ''"] exI [of _ "'' a''"]) (simp add: NL_def)
  have y: "skipComments '' {}'' = Some (CHR ''{'' # ''}'')" by code_simp
  have r: "ejsDeserialize integer_host '' {}'' = Some (Some (Inr (JObject [])))" by code_simp
  have d: "deref (dropWhile isspace '' ]'') = CHR '']''" "deref (dropWhile isspace '' x'') = CHR ''x''" by code_simp+
  have c: "closing CHR '']''" "closing CHR ''}''" by (simp_all add: closing_def)
  have "ejsDeserialize integer_host ''  // a'' = Some None" using undefined_inputs [OF b, of "''  // a''" integer_host] u by blast
  moreover have "ejsDeserialize integer_host ''] ]'' = Some None" using undefined_inputs [OF b, of "'' ]''" integer_host _ _ "CHR '']''"] c d by simp
  moreover have "ejsDeserialize integer_host ''} x'' = Some (Some (Inl SyntaxError))"
    using undefined_inputs [OF b, of "'' x''" integer_host _ _ "CHR ''}''"] c d by (simp add: NUL_def)
  moreover have "ejsDeserialize integer_host ''{ {}'' = Some None" using undefined_inputs [OF b, of _ integer_host _ _ _ "'' {}''"] y r by fastforce
  ultimately show ?thesis by blast
qed

section \<open>Exceptions\<close>

text \<open>
  The depth and the nesting go up and down together. A run that starts in no object or in the slots of one ends at the nesting where it began, or
  with an exception and without a string at a higher one.
\<close>

definition base_nest :: "'n job \<Rightarrow> ser \<Rightarrow> int" where
  "base_nest job s = (case job of Start _ \<Rightarrow> nest s | Slots _ _ _ \<Rightarrow> nest s - 1)"

definition balanced :: "int \<Rightarrow> ser \<Rightarrow> string option \<times> ser \<Rightarrow> bool" where
  "balanced n s y \<longleftrightarrow> serializeDepth (snd y) - nest (snd y) = serializeDepth s - nest s \<and> nest (snd y) \<ge> n
     \<and> (nest (snd y) > n \<longrightarrow> fst y = None \<and> exception (snd y)) \<and> (fst y = None \<longrightarrow> nest (snd y) \<noteq> 0)"

lemma close_balanced:
  "serializeDepth s1 - nest s1 = serializeDepth s - nest s \<Longrightarrow> nest s1 = n + 1 \<Longrightarrow> n \<ge> 0 \<Longrightarrow> balanced n s (close_object o' ob (end_items o' ob i s1))"
  by (auto simp: balanced_def close_object_def end_items_def take_back_def put_def Let_def)

lemma put_value_same:
  "put_value w o' ob key sv s = Some (left, s2) \<Longrightarrow> serializeDepth s2 = serializeDepth s \<and> nest s2 = nest s \<and> exception s2 = exception s \<and> (left \<longrightarrow> exception s)
     \<and> (sv = None \<and> exception s \<longrightarrow> left)"
  by (auto simp: put_value_def split: option.splits if_splits)

lemma put_key_same: "serializeDepth (put_key o' ob p s) = serializeDepth s" "nest (put_key o' ob p s) = nest s" "exception (put_key o' ob p s) = exception s"
  by (simp_all add: put_key_def)

lemma open_object_same: "serializeDepth (open_object o' ob s) = serializeDepth s + 1" "nest (open_object o' ob s) = nest s + 1"
  by (simp_all add: open_object_def)

lemma balanced_shift:
  "balanced n s1 y \<Longrightarrow> serializeDepth s1 - nest s1 = serializeDepth s - nest s \<Longrightarrow> balanced n s y"
  by (simp add: balanced_def)

lemma start_balanced:
  assumes rec: "\<And>w o' job s y. rec w o' job s = Some y \<Longrightarrow> base_nest job s \<ge> 0 \<longrightarrow> balanced (base_nest job s) s y"
    and n: "nest s \<ge> 0"
    and run: "(case container w v of
        None \<Rightarrow> Some (Some (plain_string w o' v), s)
      | Some (a, ob) \<Rightarrow>
          if serializeDepth s + 1 \<le> jdepth o' \<and> a \<notin> visited s
          then rec w o' (Slots a 0 0) ((open_object o' ob s)\<lparr>visited := insert a (visited s)\<rparr>)
          else Some (close_object o' ob (open_object o' ob s))) = Some y"
  shows "balanced (nest s) s y"
proof (cases "container w v")
  case None
  then show ?thesis using run by (auto simp: balanced_def)
next
  case (Some z)
  obtain a ob where z: "z = (a, ob)" by (cases z)
  show ?thesis
  proof (cases "serializeDepth s + 1 \<le> jdepth o' \<and> a \<notin> visited s")
    case True
    let ?s = "(open_object o' ob s)\<lparr>visited := insert a (visited s)\<rparr>"
    have "rec w o' (Slots a 0 0) ?s = Some y" using run Some z True by simp
    from rec [OF this] have "balanced (nest s) ?s y" using n by (simp add: base_nest_def open_object_same)
    then show ?thesis using balanced_shift by (simp add: open_object_same)
  next
    case False
    have "y = close_object o' ob (open_object o' ob s)" using run Some z False by auto
    then show ?thesis using close_balanced [of "open_object o' ob s" s "nest s" o' ob 0] n by (simp add: open_object_same end_items_def)
  qed
qed

lemma slot_balanced:
  assumes rec: "\<And>w o' job s y. rec w o' job s = Some y \<Longrightarrow> base_nest job s \<ge> 0 \<longrightarrow> balanced (base_nest job s) s y"
    and n: "nest s \<ge> 1" "\<not> exception s"
    and x: "(case toJSON w v of None \<Rightarrow> rec w o' (Start v) (put_key o' ob p s) | Some (sv, e) \<Rightarrow> Some (sv, (put_key o' ob p s)\<lparr>exception := exception s \<or> e\<rparr>))
       = Some (sv, s1)"
    and run: "(case put_value w o' ob key sv s1 of
        None \<Rightarrow> None
      | Some (left, s2) \<Rightarrow> if left then Some (None, s2\<lparr>visited := visited s2 - {a}\<rparr>) else rec w o' (Slots a i k) s2) = Some y"
  shows "balanced (nest s - 1) s y"
proof -
  obtain left s2 where s2: "put_value w o' ob key sv s1 = Some (left, s2)"
    and y: "if left then y = (None, s2\<lparr>visited := visited s2 - {a}\<rparr>) else rec w o' (Slots a i k) s2 = Some y"
    using run by (cases "put_value w o' ob key sv s1") (auto split: if_splits)
  have b: "serializeDepth s1 - nest s1 = serializeDepth s - nest s \<and> nest s1 \<ge> nest s \<and> (nest s1 > nest s \<longrightarrow> sv = None \<and> exception s1)"
  proof (cases "toJSON w v")
    case None
    then have "rec w o' (Start v) (put_key o' ob p s) = Some (sv, s1)" using x by simp
    from rec [OF this] show ?thesis using n by (simp add: base_nest_def balanced_def put_key_same)
  next
    case (Some z)
    then show ?thesis using x by (cases z) (auto simp: put_key_same)
  qed
  note v = put_value_same [OF s2]
  show ?thesis
  proof (cases left)
    case True
    then show ?thesis using y b v n by (simp add: balanced_def)
  next
    case False
    then have e: "nest s1 = nest s" using b v by force
    have "rec w o' (Slots a i k) s2 = Some y" using y False by simp
    from rec [OF this] have "balanced (nest s - 1) s2 y" using n e v by (simp add: base_nest_def)
    then show ?thesis using balanced_shift b v by simp
  qed
qed

lemma serialize_balanced: "serialize w o' job s = Some y \<Longrightarrow> base_nest job s \<ge> 0 \<longrightarrow> balanced (base_nest job s) s y"
proof (erule serialize.raw_induct [rotated], intro impI)
  fix rec :: "'a writer \<Rightarrow> json_options \<Rightarrow> 'a job \<Rightarrow> ser \<Rightarrow> (string option \<times> ser) option" and w o' job s y
  assume rec: "\<And>w o' job s y. rec w o' job s = Some y \<Longrightarrow> base_nest job s \<ge> 0 \<longrightarrow> balanced (base_nest job s) s y"
    and run: "(case job of
        Start v \<Rightarrow>
          (case container w v of
             None \<Rightarrow> Some (Some (plain_string w o' v), s)
           | Some (a, ob) \<Rightarrow>
               if serializeDepth s + 1 \<le> jdepth o' \<and> a \<notin> visited s
               then rec w o' (Slots a 0 0) ((open_object o' ob s)\<lparr>visited := insert a (visited s)\<rparr>)
               else Some (close_object o' ob (open_object o' ob s)))
      | Slots a slotNum items \<Rightarrow>
          (case objects w a of
             None \<Rightarrow> None
           | Some ob \<Rightarrow>
               if slotNum \<ge> length (props ob) \<or> exception s
               then Some (close_object o' ob (end_items o' ob items (s\<lparr>visited := visited s - {a}\<rparr>)))
               else if skipped o' (props ob ! slotNum) then rec w o' (Slots a (Suc slotNum) items) s
               else Option.bind
                      (case toJSON w (the (pvalue (props ob ! slotNum))) of
                         None \<Rightarrow> rec w o' (Start (the (pvalue (props ob ! slotNum)))) (put_key o' ob (props ob ! slotNum) s)
                       | Some (sv, e) \<Rightarrow> Some (sv, (put_key o' ob (props ob ! slotNum) s)\<lparr>exception := exception s \<or> e\<rparr>))
                      (\<lambda>(sv, s1). case put_value w o' ob (key_name ob slotNum (props ob ! slotNum)) sv s1 of
                         None \<Rightarrow> None
                       | Some (left, s2) \<Rightarrow>
                           if left then Some (None, s2\<lparr>visited := visited s2 - {a}\<rparr>) else rec w o' (Slots a (Suc slotNum) (Suc items)) s2))) = Some y"
    and n: "base_nest job s \<ge> 0"
  show "balanced (base_nest job s) s y"
  proof (cases job)
    case (Start v)
    show ?thesis using start_balanced [where rec = rec, OF rec _ run [unfolded Start job.case]] n Start by (simp add: base_nest_def)
  next
    case (Slots a i k)
    then obtain ob where ob: "objects w a = Some ob" using run by (cases "objects w a") auto
    consider (stop) "i \<ge> length (props ob) \<or> exception s" | (skip) "i < length (props ob)" "\<not> exception s" "skipped o' (props ob ! i)"
      | (slot) "i < length (props ob)" "\<not> exception s" "\<not> skipped o' (props ob ! i)" by linarith
    then show ?thesis
    proof cases
      case stop
      then have "y = close_object o' ob (end_items o' ob k (s\<lparr>visited := visited s - {a}\<rparr>))" using run Slots ob by simp
      then show ?thesis using close_balanced [of "s\<lparr>visited := visited s - {a}\<rparr>" s "nest s - 1" o' ob k] n Slots by (simp add: base_nest_def)
    next
      case skip
      then have "rec w o' (Slots a (Suc i) k) s = Some y" using run Slots ob by simp
      from rec [OF this] show ?thesis using n Slots by (simp add: base_nest_def)
    next
      case slot
      let ?v = "the (pvalue (props ob ! i))"
      obtain sv s1 where x: "(case toJSON w ?v of None \<Rightarrow> rec w o' (Start ?v) (put_key o' ob (props ob ! i) s)
           | Some (sv, e) \<Rightarrow> Some (sv, (put_key o' ob (props ob ! i) s)\<lparr>exception := exception s \<or> e\<rparr>)) = Some (sv, s1)"
        and r: "(case put_value w o' ob (key_name ob i (props ob ! i)) sv s1 of
            None \<Rightarrow> None
          | Some (left, s2) \<Rightarrow> if left then Some (None, s2\<lparr>visited := visited s2 - {a}\<rparr>) else rec w o' (Slots a (Suc i) (Suc k)) s2) = Some y"
        using run Slots ob slot by (fastforce simp: bind_eq_Some_conv simp del: not_None_eq)
      show ?thesis using slot_balanced [where rec = rec, OF rec _ slot(2) x r] n Slots by (simp add: base_nest_def)
    qed
  qed
qed

text \<open>
  Property C40. The depth is given back exactly by the calls that return a string. When an exception leaves objects, so that there is no string, the depth
  that the interpreter keeps stays higher by one for each of them, and from the depth limit on a later call writes an object without its properties.
\<close>

theorem exception_leaks_depth:
  assumes "ejsSerializeWithOptions w d v options = Some (str, s)"
  shows "(str \<noteq> None \<longrightarrow> serializeDepth s = d) \<and> (str = None \<longrightarrow> exception s \<and> serializeDepth s = d + nest s \<and> nest s \<ge> 1)
     \<and> (serializeDepth s \<ge> jdepth (chosen options') \<longrightarrow> container w v' = Some (a, ob) \<longrightarrow>
          ejsSerializeWithOptions w (serializeDepth s) v' options'
            = Some (close_object (chosen options') ob (open_object (chosen options') ob \<lparr>sbuf = [], nest = 0, serializeDepth = serializeDepth s, visited = {}, exception = False\<rparr>)))"
proof (intro conjI impI)
  define w' where "w' = (case options of None \<Rightarrow> w\<lparr>replacer := None\<rparr> | Some _ \<Rightarrow> w)"
  have "serialize w' (chosen options) (Start v) \<lparr>sbuf = [], nest = 0, serializeDepth = d, visited = {}, exception = False\<rparr> = Some (str, s)"
    using assms by (simp add: ejsSerializeWithOptions_def chosen_def w'_def)
  from serialize_balanced [OF this] have b: "serializeDepth s - nest s = d" "nest s \<ge> 0" "nest s > 0 \<longrightarrow> str = None \<and> exception s" "str = None \<longrightarrow> nest s \<noteq> 0"
    by (simp_all add: base_nest_def balanced_def)
  show "serializeDepth s = d" if "str \<noteq> None" using that b by force
  show "exception s" "serializeDepth s = d + nest s" "nest s \<ge> 1" if "str = None" using that b by force+
next
  assume l: "serializeDepth s \<ge> jdepth (chosen options')" and c: "container w v' = Some (a, ob)"
  have "container (w\<lparr>replacer := r\<rparr>) v' = Some (a, ob)" for r using c by (cases v') (simp_all add: container_def)
  then show "ejsSerializeWithOptions w (serializeDepth s) v' options'
            = Some (close_object (chosen options') ob (open_object (chosen options') ob \<lparr>sbuf = [], nest = 0, serializeDepth = serializeDepth s, visited = {}, exception = False\<rparr>))"
    using l c unfolding ejsSerializeWithOptions_def by (subst serialize.simps) (simp add: chosen_def split: option.splits)
qed

text \<open>The function of the inner array throws, with two objects around it; then the depth is at a limit of two.\<close>

definition throwing_writer :: "int writer" where
  "throwing_writer = sample_writer\<lparr>objects := (objects sample_writer)(4 \<mapsto> \<lparr>jtype = ObjectType, props = [plain_prop ''c'' (ARef 1)]\<rparr>),
     user_toJSON := (\<lambda>v. if v = ARef 2 then Some (None, True) else None)\<rparr>"

definition depth_two :: option_object where
  "depth_two = \<lparr>o_depth = Some 2, o_indent = None, o_commas = None, o_hidden = None, o_namespaces = None, o_nulls = None, o_regexp = None,
     o_quotes = None, o_multiline = None, o_pretty = None, o_strict = None\<rparr>"

theorem exception_leaks_depth_witness:
  "\<exists>s. ejsSerializeWithOptions throwing_writer 0 (ARef 4) (Some depth_two) = Some (None, s) \<and> serializeDepth s = 2
     \<and> map_option fst (ejsSerializeWithOptions throwing_writer 2 (ARef 1) (Some depth_two)) = Some (Some ''{}'')"
proof -
  have "map_option fst (ejsSerializeWithOptions throwing_writer 0 (ARef 4) (Some depth_two)) = Some None" by code_simp
  moreover have "map_option (nest o snd) (ejsSerializeWithOptions throwing_writer 0 (ARef 4) (Some depth_two)) = Some 2" by code_simp
  ultimately obtain s where s: "ejsSerializeWithOptions throwing_writer 0 (ARef 4) (Some depth_two) = Some (None, s)" "nest s = 2"
    by (cases "ejsSerializeWithOptions throwing_writer 0 (ARef 4) (Some depth_two)") auto
  have c: "container throwing_writer (ARef 1) = Some (1, \<lparr>jtype = ObjectType, props = [plain_prop ''a'' (ARef 2), plain_prop ''b'' (ARef 3)]\<rparr>)"
    by (simp add: container_def throwing_writer_def sample_writer_def)
  have l: "jdepth (chosen (Some depth_two)) = 2" by code_simp
  have d: "serializeDepth s = 2" using exception_leaks_depth [OF s(1)] s(2) by simp
  have "ejsSerializeWithOptions throwing_writer 2 (ARef 1) (Some depth_two)
    = Some (close_object (chosen (Some depth_two)) \<lparr>jtype = ObjectType, props = [plain_prop ''a'' (ARef 2), plain_prop ''b'' (ARef 3)]\<rparr>
        (open_object (chosen (Some depth_two)) \<lparr>jtype = ObjectType, props = [plain_prop ''a'' (ARef 2), plain_prop ''b'' (ARef 3)]\<rparr>
          \<lparr>sbuf = [], nest = 0, serializeDepth = 2, visited = {}, exception = False\<rparr>))"
    using exception_leaks_depth [OF s(1), of "Some depth_two" "ARef 1"] c l d by simp
  moreover have "jpretty (chosen (Some depth_two)) = False" by code_simp
  ultimately show ?thesis using s(1) d
    by (simp add: close_object_def open_object_def isArray_def newline_def put_def Let_def)
qed

end
