(* ===== verification/LexStream.thy ===== *)
theory LexStream
  imports MprString
begin

text \<open>
  Input streams and tokens of the compiler (\<^verbatim>\<open>src/compiler/ecLex.c\<close>): reading and putting back of characters, with the
  place in the source; the console and the command line of \<^verbatim>\<open>cmd/ejs.c\<close> as inputs; the text of tokens.

  \<^item> A source is a block of characters that ends with a null character. \<^verbatim>\<open>nextChar\<close> and \<^verbatim>\<open>end\<close> are offsets in it. The null
    pointer is \<^const>\<open>None\<close>.
  \<^item> Characters are signed, as on x86: the lexer works on integers, negative from \<open>0x80\<close> on.
  \<^item> Reads and writes outside of a block and assertions that fail are undefined (\<^const>\<open>None\<close>). Fresh memory is shown as null
    characters. Lengths and line numbers are not cut to 32 bits.
  \<^item> The callback for more input is one of the two of \<^verbatim>\<open>cmd/ejs.c\<close>; the lines that the user will type are part of the stream.
\<close>

section \<open>Characters\<close>

abbreviation NUL :: char where "NUL \<equiv> CHR 0x00"
abbreviation NEWLINE :: int where "NEWLINE \<equiv> 10"
abbreviation RETURN :: int where "RETURN \<equiv> 13"

definition signed_char :: "char \<Rightarrow> int" where
  "signed_char ch = (if char_code ch < 128 then char_code ch else char_code ch - 256)"

text \<open>The conversion to \<^verbatim>\<open>wchar\<close>, which is \<^verbatim>\<open>char\<close>.\<close>

definition to_char :: "int \<Rightarrow> char" where
  "to_char c = char_of (nat (c mod 256))"

text \<open>The length of the string in a block.\<close>

definition strlen :: "string \<Rightarrow> int option" where
  "strlen block = (let s = c_str block in if length s < length block then Some (int (length s)) else None)"

section \<open>Streams\<close>

record ec_loc =
  source :: "string option"
  filename :: string
  lineNumber :: int
  column :: int

datatype input = NoInput | Console "string list" | Command

record ec_stream =
  loc :: ec_loc
  lastLoc :: ec_loc
  getInput :: input
  buf :: "string option"
  nextChar :: int
  bufEnd :: int
  eof :: bool
  sflags :: int

definition EC_STREAM_EOL :: int where "EC_STREAM_EOL = 1"

definition at_eol :: "ec_stream \<Rightarrow> bool" where
  "at_eol s \<longleftrightarrow> sflags s AND EC_STREAM_EOL \<noteq> 0"

text \<open>The line of the source for messages: from the first character that is no space, to the end of the line.\<close>

definition source_line :: "string \<Rightarrow> int \<Rightarrow> string option" where
  "source_line block i =
     (if i < 0 then None
      else let start = dropWhile isspace (drop (nat i) block);
               line = takeWhile (\<lambda>ch. ch \<noteq> NUL \<and> ch \<noteq> CHR 0x0A) start
           in if length line < length start then Some line else None)"

text \<open>The next character of the block, after more input has been looked for. The end of the input is the null character.\<close>

definition take_char :: "(int \<Rightarrow> bool) \<Rightarrow> ec_stream \<Rightarrow> (int \<times> ec_stream) option" where
  "take_char mem s =
     (if nextChar s < bufEnd s
      then do { block \<leftarrow> buf s;
                ch \<leftarrow> mem_read block (nextChar s);
                let l = loc s;
                let s1 = (if ch = CHR 0x0A
                          then s\<lparr>nextChar := nextChar s + 1, lastLoc := l, loc := l\<lparr>lineNumber := lineNumber l + 1, column := 0, source := None\<rparr>\<rparr>
                          else s\<lparr>nextChar := nextChar s + 1, loc := l\<lparr>column := column l + 1\<rparr>\<rparr>);
                s2 \<leftarrow> (if source (loc s1) = None
                       then do { line \<leftarrow> source_line block (nextChar s1 - 1);
                                 Some (s1\<lparr>loc := (loc s1)\<lparr>source := if mem (int (length line) + 1) then Some line else None\<rparr>\<rparr>) }
                       else Some s1);
                Some (signed_char ch, s2) }
      else Some (0, s))"

definition putBackChar :: "int \<Rightarrow> ec_stream \<Rightarrow> ec_stream option" where
  "putBackChar c s =
     (if 0 < nextChar s \<and> c \<noteq> 0
      then do { block \<leftarrow> buf s;
                ch \<leftarrow> mem_read block (nextChar s - 1);
                let l = (if c = NEWLINE then (lastLoc s)\<lparr>column := 0\<rparr> else (loc s)\<lparr>column := column (loc s) - 1\<rparr>);
                if c \<noteq> signed_char ch \<or> column l < 0 then None
                else Some (s\<lparr>nextChar := nextChar s - 1, loc := l\<rparr>) }
      else Some s)"

text \<open>\<^verbatim>\<open>strim\<close> of the line ends.\<close>

definition is_line_end :: "char \<Rightarrow> bool" where
  "is_line_end ch \<longleftrightarrow> ch = CHR 0x0D \<or> ch = CHR 0x0A"

definition strim_line :: "string \<Rightarrow> string" where
  "strim_line s = rev (dropWhile is_line_end (rev (dropWhile is_line_end (c_str s))))"

text \<open>The lines that a stream can still ask for.\<close>

fun pending :: "input \<Rightarrow> string list" where
  "pending (Console ls) = ls"
| "pending _ = []"

text \<open>
  Getting a character asks for input at the end of the block, setting a buffer reads its first character and puts it back. So an
  empty line makes the console ask for the next one.
\<close>

function getNextChar :: "(int \<Rightarrow> bool) \<Rightarrow> ec_stream \<Rightarrow> (int \<times> ec_stream) option"
  and consoleGets :: "(int \<Rightarrow> bool) \<Rightarrow> ec_stream \<Rightarrow> (int \<times> ec_stream) option"
  and ecSetStreamBuf :: "(int \<Rightarrow> bool) \<Rightarrow> ec_stream \<Rightarrow> string option \<Rightarrow> int \<Rightarrow> ec_stream option" where
  "getNextChar mem s =
     (if nextChar s \<ge> bufEnd s \<and> getInput s \<noteq> NoInput
      then do { (rc, s1) \<leftarrow> (case getInput s of
                     Console _ \<Rightarrow> consoleGets mem s
                   | _ \<Rightarrow> if buf s \<noteq> None then Some (-1, s\<lparr>eof := True\<rparr>) else None);
                if rc < 0 then Some (0, s1) else take_char mem s1 }
      else take_char mem s)"
| "consoleGets mem s =
     (if at_eol s then Some (0, s)
      else case pending (getInput s) of
             [] \<Rightarrow> Some (-1, s\<lparr>eof := True\<rparr>)
           | line # ls \<Rightarrow>
               (let cp = strim_line line
                in do { s1 \<leftarrow> ecSetStreamBuf mem (s\<lparr>getInput := Console ls\<rparr>) (Some (cp @ [NUL])) (int (length cp));
                        Some (int (length cp), s1\<lparr>sflags := sflags s1 OR EC_STREAM_EOL\<rparr>) }))"
| "ecSetStreamBuf mem s contents len =
     (case contents of
        None \<Rightarrow> Some s
      | Some block \<Rightarrow>
          do { n \<leftarrow> (if len \<le> 0 then strlen block else Some len);
               (c, s1) \<leftarrow> getNextChar mem (s\<lparr>buf := Some block, nextChar := 0, bufEnd := n\<rparr>);
               putBackChar c s1 })"
  by pat_completeness auto
termination
  by (relation "measure (\<lambda>x. case x of
        Inl (mem, s) \<Rightarrow> 3 * length (pending (getInput s)) + 2
      | Inr (Inl (mem, s)) \<Rightarrow> 3 * length (pending (getInput s)) + 1
      | Inr (Inr (mem, s, c, n)) \<Rightarrow> 3 * length (pending (getInput s)) + 3)") auto

declare getNextChar.simps [simp del] consoleGets.simps [simp del] ecSetStreamBuf.simps [simp del]

section \<open>Opening a stream\<close>

definition MPR_ERR_CANT_OPEN :: int where "MPR_ERR_CANT_OPEN = -21"
definition MPR_ERR_CANT_ACCESS :: int where "MPR_ERR_CANT_ACCESS = -12"

definition ecCreateStream :: "(int \<Rightarrow> bool) \<Rightarrow> string \<Rightarrow> ec_stream option" where
  "ecCreateStream mem path =
     (if \<not> mem 112 then None
      else let no_loc = \<lparr>source = None, filename = [], lineNumber = 0, column = 0\<rparr>
           in Some \<lparr>loc = no_loc\<lparr>filename := c_str path, lineNumber := 1\<rparr>, lastLoc = no_loc, getInput = NoInput, buf = None,
                    nextChar = 0, bufEnd = 0, eof = False, sflags = 0\<rparr>)"

text \<open>What the file system answers for a path: the errors of the three calls, or the contents.\<close>

datatype file_state = CannotOpen | NoPathInfo | ReadFails int | FileContents string

definition ecOpenFileStream :: "(int \<Rightarrow> bool) \<Rightarrow> (string \<Rightarrow> file_state) \<Rightarrow> string \<Rightarrow> (int \<times> ec_stream option) option" where
  "ecOpenFileStream mem files path =
     (case ecCreateStream mem path of
        None \<Rightarrow> Some (MPR_ERR_MEMORY, None)
      | Some fs \<Rightarrow>
          (case files path of
             CannotOpen \<Rightarrow> Some (MPR_ERR_CANT_OPEN, Some fs)
           | NoPathInfo \<Rightarrow> Some (MPR_ERR_CANT_ACCESS, Some fs)
           | ReadFails n \<Rightarrow> Some (if mem (n + 1) then MPR_ERR_CANT_READ else MPR_ERR_MEMORY, Some fs)
           | FileContents contents \<Rightarrow>
               if \<not> mem (int (length contents) + 1) then Some (MPR_ERR_MEMORY, Some fs)
               else do { s \<leftarrow> ecSetStreamBuf mem fs (Some (contents @ [NUL])) (int (length contents)); Some (0, Some s) }))"

definition ecOpenMemoryStream :: "(int \<Rightarrow> bool) \<Rightarrow> string option \<Rightarrow> int \<Rightarrow> (int \<times> ec_stream option) option" where
  "ecOpenMemoryStream mem contents len =
     (case ecCreateStream mem ''memory'' of
        None \<Rightarrow> Some (MPR_ERR_MEMORY, None)
      | Some ms \<Rightarrow> do { s \<leftarrow> ecSetStreamBuf mem ms contents len; Some (0, Some s) })"

text \<open>Without contents, the console stream starts with the empty string.\<close>

definition ecOpenConsoleStream :: "(int \<Rightarrow> bool) \<Rightarrow> input \<Rightarrow> string option \<Rightarrow> (int \<times> ec_stream option) option" where
  "ecOpenConsoleStream mem gets contents =
     (case ecCreateStream mem ''console'' of
        None \<Rightarrow> Some (MPR_ERR_MEMORY, None)
      | Some cs \<Rightarrow>
          (let str = (case contents of None \<Rightarrow> [] | Some c \<Rightarrow> c_str c)
           in do { s \<leftarrow> ecSetStreamBuf mem (cs\<lparr>getInput := gets\<rparr>) (if mem (int (length str) + 1) then Some (str @ [NUL]) else None)
                         (int (length str));
                   Some (0, Some s) }))"

section \<open>Tokens\<close>

record ec_token =
  ttext :: "string option"
  tlength :: int
  tsize :: int
  tokenId :: int
  subId :: int
  groupMask :: int
  tloc :: ec_loc

definition EC_TOKEN_INCR :: int where "EC_TOKEN_INCR = 64"

definition initializeToken :: "(int \<Rightarrow> bool) \<Rightarrow> ec_stream \<Rightarrow> ec_token \<Rightarrow> int \<times> ec_token" where
  "initializeToken mem s tp =
     (let tp1 = tp\<lparr>tloc := (loc s)\<lparr>lineNumber := 0\<rparr>, tlength := 0, tokenId := 0\<rparr>
      in if ttext tp1 = None
         then (let tp2 = tp1\<lparr>tsize := EC_TOKEN_INCR\<rparr>
               in if mem EC_TOKEN_INCR then (0, tp2\<lparr>ttext := Some (replicate (nat EC_TOKEN_INCR) NUL)\<rparr>) else (MPR_ERR_MEMORY, tp2))
         else (0, tp1))"

definition place_token :: "ec_stream \<Rightarrow> ec_token \<Rightarrow> ec_token" where
  "place_token s tp = (if lineNumber (tloc tp) = 0 then tp\<lparr>tloc := loc s\<rparr> else tp)"

definition finalizeToken :: "ec_stream \<Rightarrow> ec_token \<Rightarrow> int \<times> ec_token" where
  "finalizeToken s tp = (tokenId tp, place_token s tp)"

text \<open>The text is at least doubled when there is no room for the character and the null character behind it.\<close>

definition boost :: "ec_token \<Rightarrow> int" where
  "boost tp = max (tsize tp) EC_TOKEN_INCR"

definition grow_text :: "(int \<Rightarrow> bool) \<Rightarrow> ec_token \<Rightarrow> int \<times> ec_token" where
  "grow_text mem tp =
     (if tlength tp \<ge> tsize tp - 1
      then let size = tsize tp + boost tp; old = (case ttext tp of None \<Rightarrow> [] | Some t \<Rightarrow> t)
           in if mem size then (0, tp\<lparr>tsize := size, ttext := Some (old @ replicate (nat (size - int (length old))) NUL)\<rparr>)
              else (MPR_ERR_MEMORY, tp\<lparr>tsize := size, ttext := None\<rparr>)
      else (0, tp))"

definition addCharToToken :: "(int \<Rightarrow> bool) \<Rightarrow> ec_stream \<Rightarrow> int \<Rightarrow> ec_token \<Rightarrow> (int \<times> ec_token) option" where
  "addCharToToken mem s c tp =
     (let (rc, tp1) = grow_text mem tp
      in if rc < 0 then Some (rc, tp1)
         else do { t \<leftarrow> ttext tp1;
                   t1 \<leftarrow> mem_write t (tlength tp1) (to_char c);
                   t2 \<leftarrow> mem_write t1 (tlength tp1 + 1) NUL;
                   Some (0, place_token s (tp1\<lparr>ttext := Some t2, tlength := tlength tp1 + 1\<rparr>)) })"

fun addStringToToken :: "(int \<Rightarrow> bool) \<Rightarrow> ec_stream \<Rightarrow> string \<Rightarrow> ec_token \<Rightarrow> (int \<times> ec_token) option" where
  "addStringToToken mem s [] tp = Some (0, tp)"
| "addStringToToken mem s (ch # str) tp =
     do { (rc, tp1) \<leftarrow> addCharToToken mem s (signed_char ch) tp;
          if rc < 0 then Some (MPR_ERR_MEMORY, tp1) else addStringToToken mem s str tp1 }"

definition setTokenID :: "int \<Rightarrow> int \<Rightarrow> int \<Rightarrow> ec_token \<Rightarrow> ec_token" where
  "setTokenID ident sub grp tp = tp\<lparr>tokenId := ident, subId := sub, groupMask := grp\<rparr>"

end
