(* ===== verification/Lexer.thy ===== *)
theory Lexer
  imports LexStream MprHash
begin

text \<open>
  The lexical analyser (\<^verbatim>\<open>src/compiler/ecLex.c\<close>) and the tokens that the parser takes, looks ahead at and puts back
  (\<^verbatim>\<open>src/compiler/ecParser.c\<close>).

  \<^item> Tokens are values: a token is changed only while the lexer makes it, and then it is the current token. The list of tokens
    that were put back is a list of them.
  \<^item> Loops over the input are \<^theory_text>\<open>partial_function\<close>s.
  \<^item> Messages to the user are collected in a list.
\<close>

section \<open>Token numbers\<close>

definition T_ASSIGN :: int where [simp]: "T_ASSIGN = 1"
definition T_AT :: int where [simp]: "T_AT = 2"
definition T_ATTRIBUTE :: int where [simp]: "T_ATTRIBUTE = 3"
definition T_BIT_AND :: int where [simp]: "T_BIT_AND = 4"
definition T_BIT_AND_ASSIGN :: int where [simp]: "T_BIT_AND_ASSIGN = 5"
definition T_BIT_OR :: int where [simp]: "T_BIT_OR = 6"
definition T_BIT_OR_ASSIGN :: int where [simp]: "T_BIT_OR_ASSIGN = 7"
definition T_BIT_XOR :: int where [simp]: "T_BIT_XOR = 8"
definition T_BIT_XOR_ASSIGN :: int where [simp]: "T_BIT_XOR_ASSIGN = 9"
definition T_BREAK :: int where [simp]: "T_BREAK = 10"
definition T_CASE :: int where [simp]: "T_CASE = 13"
definition T_CAST :: int where [simp]: "T_CAST = 14"
definition T_CATCH :: int where [simp]: "T_CATCH = 15"
definition T_CLASS :: int where [simp]: "T_CLASS = 18"
definition T_COLON :: int where [simp]: "T_COLON = 19"
definition T_COLON_COLON :: int where [simp]: "T_COLON_COLON = 20"
definition T_COMMA :: int where [simp]: "T_COMMA = 21"
definition T_CONST :: int where [simp]: "T_CONST = 22"
definition T_CONTINUE :: int where [simp]: "T_CONTINUE = 24"
definition T_DEFAULT :: int where [simp]: "T_DEFAULT = 27"
definition T_DELETE :: int where [simp]: "T_DELETE = 28"
definition T_DIV :: int where [simp]: "T_DIV = 29"
definition T_DIV_ASSIGN :: int where [simp]: "T_DIV_ASSIGN = 30"
definition T_DO :: int where [simp]: "T_DO = 31"
definition T_DOT :: int where [simp]: "T_DOT = 32"
definition T_DOT_DOT :: int where [simp]: "T_DOT_DOT = 33"
definition T_DYNAMIC :: int where [simp]: "T_DYNAMIC = 36"
definition T_EACH :: int where [simp]: "T_EACH = 37"
definition T_ELIPSIS :: int where [simp]: "T_ELIPSIS = 38"
definition T_ELSE :: int where [simp]: "T_ELSE = 39"
definition T_ENUMERABLE :: int where [simp]: "T_ENUMERABLE = 40"
definition T_EOF :: int where [simp]: "T_EOF = 41"
definition T_EQ :: int where [simp]: "T_EQ = 42"
definition T_ERR :: int where [simp]: "T_ERR = 43"
definition T_EXTENDS :: int where [simp]: "T_EXTENDS = 44"
definition T_FALSE :: int where [simp]: "T_FALSE = 45"
definition T_FINAL :: int where [simp]: "T_FINAL = 46"
definition T_FINALLY :: int where [simp]: "T_FINALLY = 47"
definition T_FOR :: int where [simp]: "T_FOR = 49"
definition T_FUNCTION :: int where [simp]: "T_FUNCTION = 50"
definition T_GE :: int where [simp]: "T_GE = 51"
definition T_GET :: int where [simp]: "T_GET = 53"
definition T_GOTO :: int where [simp]: "T_GOTO = 54"
definition T_GT :: int where [simp]: "T_GT = 55"
definition T_HASH :: int where [simp]: "T_HASH = 57"
definition T_ID :: int where [simp]: "T_ID = 58"
definition T_IF :: int where [simp]: "T_IF = 59"
definition T_IMPLEMENTS :: int where [simp]: "T_IMPLEMENTS = 60"
definition T_IN :: int where [simp]: "T_IN = 61"
definition T_INSTANCEOF :: int where [simp]: "T_INSTANCEOF = 64"
definition T_INTERFACE :: int where [simp]: "T_INTERFACE = 66"
definition T_INTERNAL :: int where [simp]: "T_INTERNAL = 67"
definition T_INTRINSIC :: int where [simp]: "T_INTRINSIC = 68"
definition T_IS :: int where [simp]: "T_IS = 69"
definition T_LBRACE :: int where [simp]: "T_LBRACE = 70"
definition T_LBRACKET :: int where [simp]: "T_LBRACKET = 71"
definition T_LE :: int where [simp]: "T_LE = 72"
definition T_LET :: int where [simp]: "T_LET = 73"
definition T_LOGICAL_AND :: int where [simp]: "T_LOGICAL_AND = 74"
definition T_LOGICAL_AND_ASSIGN :: int where [simp]: "T_LOGICAL_AND_ASSIGN = 75"
definition T_LOGICAL_NOT :: int where [simp]: "T_LOGICAL_NOT = 76"
definition T_LOGICAL_OR :: int where [simp]: "T_LOGICAL_OR = 77"
definition T_LOGICAL_OR_ASSIGN :: int where [simp]: "T_LOGICAL_OR_ASSIGN = 78"
definition T_LOGICAL_XOR :: int where [simp]: "T_LOGICAL_XOR = 79"
definition T_LOGICAL_XOR_ASSIGN :: int where [simp]: "T_LOGICAL_XOR_ASSIGN = 80"
definition T_LPAREN :: int where [simp]: "T_LPAREN = 81"
definition T_LSH :: int where [simp]: "T_LSH = 82"
definition T_LSH_ASSIGN :: int where [simp]: "T_LSH_ASSIGN = 83"
definition T_LT :: int where [simp]: "T_LT = 84"
definition T_LT_SLASH :: int where [simp]: "T_LT_SLASH = 85"
definition T_MINUS :: int where [simp]: "T_MINUS = 86"
definition T_MINUS_ASSIGN :: int where [simp]: "T_MINUS_ASSIGN = 87"
definition T_MINUS_MINUS :: int where [simp]: "T_MINUS_MINUS = 88"
definition T_MODULE :: int where [simp]: "T_MODULE = 89"
definition T_MOD :: int where [simp]: "T_MOD = 90"
definition T_MOD_ASSIGN :: int where [simp]: "T_MOD_ASSIGN = 91"
definition T_MUL :: int where [simp]: "T_MUL = 92"
definition T_MUL_ASSIGN :: int where [simp]: "T_MUL_ASSIGN = 93"
definition T_NAMESPACE :: int where [simp]: "T_NAMESPACE = 94"
definition T_NATIVE :: int where [simp]: "T_NATIVE = 95"
definition T_NE :: int where [simp]: "T_NE = 96"
definition T_NEW :: int where [simp]: "T_NEW = 97"
definition T_NOP :: int where [simp]: "T_NOP = 98"
definition T_NULL :: int where [simp]: "T_NULL = 99"
definition T_NUMBER :: int where [simp]: "T_NUMBER = 100"
definition T_OVERRIDE :: int where [simp]: "T_OVERRIDE = 102"
definition T_PLUS :: int where [simp]: "T_PLUS = 103"
definition T_PLUS_ASSIGN :: int where [simp]: "T_PLUS_ASSIGN = 104"
definition T_PLUS_PLUS :: int where [simp]: "T_PLUS_PLUS = 105"
definition T_PRIVATE :: int where [simp]: "T_PRIVATE = 106"
definition T_PROTECTED :: int where [simp]: "T_PROTECTED = 107"
definition T_PUBLIC :: int where [simp]: "T_PUBLIC = 109"
definition T_QUERY :: int where [simp]: "T_QUERY = 110"
definition T_RBRACE :: int where [simp]: "T_RBRACE = 111"
definition T_RBRACKET :: int where [simp]: "T_RBRACKET = 112"
definition T_REGEXP :: int where [simp]: "T_REGEXP = 113"
definition T_REQUIRE :: int where [simp]: "T_REQUIRE = 114"
definition T_RESERVED_NAMESPACE :: int where [simp]: "T_RESERVED_NAMESPACE = 115"
definition T_RETURN :: int where [simp]: "T_RETURN = 116"
definition T_RPAREN :: int where [simp]: "T_RPAREN = 117"
definition T_RSH :: int where [simp]: "T_RSH = 118"
definition T_RSH_ASSIGN :: int where [simp]: "T_RSH_ASSIGN = 119"
definition T_RSH_ZERO :: int where [simp]: "T_RSH_ZERO = 120"
definition T_RSH_ZERO_ASSIGN :: int where [simp]: "T_RSH_ZERO_ASSIGN = 121"
definition T_SEMICOLON :: int where [simp]: "T_SEMICOLON = 122"
definition T_SET :: int where [simp]: "T_SET = 123"
definition T_SLASH_GT :: int where [simp]: "T_SLASH_GT = 124"
definition T_STANDARD :: int where [simp]: "T_STANDARD = 125"
definition T_STATIC :: int where [simp]: "T_STATIC = 126"
definition T_STRICT :: int where [simp]: "T_STRICT = 127"
definition T_STRICT_EQ :: int where [simp]: "T_STRICT_EQ = 128"
definition T_STRICT_NE :: int where [simp]: "T_STRICT_NE = 129"
definition T_STRING :: int where [simp]: "T_STRING = 130"
definition T_SUPER :: int where [simp]: "T_SUPER = 131"
definition T_SWITCH :: int where [simp]: "T_SWITCH = 132"
definition T_THIS :: int where [simp]: "T_THIS = 133"
definition T_THROW :: int where [simp]: "T_THROW = 134"
definition T_TILDE :: int where [simp]: "T_TILDE = 135"
definition T_TRUE :: int where [simp]: "T_TRUE = 137"
definition T_TRY :: int where [simp]: "T_TRY = 138"
definition T_TYPEOF :: int where [simp]: "T_TYPEOF = 140"
definition T_UNDEFINED :: int where [simp]: "T_UNDEFINED = 142"
definition T_USE :: int where [simp]: "T_USE = 143"
definition T_VAR :: int where [simp]: "T_VAR = 144"
definition T_VOID :: int where [simp]: "T_VOID = 145"
definition T_WHILE :: int where [simp]: "T_WHILE = 146"
definition T_WITH :: int where [simp]: "T_WITH = 147"

definition G_RESERVED :: int where [simp]: "G_RESERVED = 1"
definition G_CONREV :: int where [simp]: "G_CONREV = 2"
definition G_COMPOUND_ASSIGN :: int where [simp]: "G_COMPOUND_ASSIGN = 4"
definition G_OPERATOR :: int where [simp]: "G_OPERATOR = 8"

section \<open>Reserved words\<close>

record reserved_word =
  word_mask :: int
  word_token :: int
  word_sub :: int

definition reserved_words :: "(string \<times> int \<times> int \<times> int) list" where
  "reserved_words =
    [(''break'', G_RESERVED, T_BREAK, 0),
     (''case'', G_RESERVED, T_CASE, 0),
     (''cast'', G_CONREV, T_CAST, 0),
     (''catch'', G_RESERVED, T_CATCH, 0),
     (''class'', G_RESERVED, T_CLASS, 0),
     (''const'', G_CONREV, T_CONST, 0),
     (''continue'', G_RESERVED, T_CONTINUE, 0),
     (''default'', G_CONREV, T_DEFAULT, 0),
     (''delete'', G_RESERVED, T_DELETE, 0),
     (''do'', G_RESERVED, T_DO, 0),
     (''dynamic'', G_CONREV, T_ATTRIBUTE, T_DYNAMIC),
     (''each'', G_CONREV, T_EACH, 0),
     (''else'', G_RESERVED, T_ELSE, 0),
     (''enumerable'', G_CONREV, T_ATTRIBUTE, T_ENUMERABLE),
     (''extends'', G_RESERVED, T_EXTENDS, 0),
     (''false'', G_RESERVED, T_FALSE, 0),
     (''final'', G_CONREV, T_ATTRIBUTE, T_FINAL),
     (''finally'', G_RESERVED, T_FINALLY, 0),
     (''for'', G_RESERVED, T_FOR, 0),
     (''function'', G_RESERVED, T_FUNCTION, 0),
     (''get'', G_CONREV, T_GET, 0),
     (''goto'', G_CONREV, T_GOTO, 0),
     (''if'', G_RESERVED, T_IF, 0),
     (''implements'', G_CONREV, T_IMPLEMENTS, 0),
     (''in'', G_RESERVED, T_IN, 0),
     (''instanceof'', G_RESERVED, T_INSTANCEOF, 0),
     (''interface'', G_CONREV, T_INTERFACE, 0),
     (''internal'', G_CONREV, T_RESERVED_NAMESPACE, T_INTERNAL),
     (''intrinsic'', G_CONREV, T_RESERVED_NAMESPACE, T_INTRINSIC),
     (''is'', G_CONREV, T_IS, 0),
     (''let'', G_CONREV, T_LET, 0),
     (''module'', G_CONREV, T_MODULE, 0),
     (''namespace'', G_CONREV, T_NAMESPACE, 0),
     (''native'', G_CONREV, T_ATTRIBUTE, T_NATIVE),
     (''new'', G_RESERVED, T_NEW, 0),
     (''null'', G_RESERVED, T_NULL, 0),
     (''override'', G_CONREV, T_ATTRIBUTE, T_OVERRIDE),
     (''private'', G_CONREV, T_RESERVED_NAMESPACE, T_PRIVATE),
     (''protected'', G_CONREV, T_RESERVED_NAMESPACE, T_PROTECTED),
     (''public'', G_CONREV, T_RESERVED_NAMESPACE, T_PUBLIC),
     (''require'', G_CONREV, T_REQUIRE, 0),
     (''return'', G_RESERVED, T_RETURN, 0),
     (''set'', G_CONREV, T_SET, 0),
     (''standard'', G_CONREV, T_STANDARD, 0),
     (''static'', G_CONREV, T_ATTRIBUTE, T_STATIC),
     (''strict'', G_CONREV, T_STRICT, 0),
     (''super'', G_RESERVED, T_SUPER, 0),
     (''switch'', G_RESERVED, T_SWITCH, 0),
     (''this'', G_RESERVED, T_THIS, 0),
     (''throw'', G_RESERVED, T_THROW, 0),
     (''true'', G_RESERVED, T_TRUE, 0),
     (''try'', G_RESERVED, T_TRY, 0),
     (''typeof'', G_RESERVED, T_TYPEOF, 0),
     (''var'', G_RESERVED, T_VAR, 0),
     (''undefined'', G_CONREV, T_UNDEFINED, 0),
     (''use'', G_CONREV, T_USE, 0),
     (''void'', G_RESERVED, T_VOID, 0),
     (''while'', G_RESERVED, T_WHILE, 0),
     (''with'', G_RESERVED, T_WITH, 0)]"

definition keywords_table :: "(string \<times> reserved_word) list" where
  "keywords_table = List.map (\<lambda>(name, m, ident, sub). (name, \<lparr>word_mask = m, word_token = ident, word_sub = sub\<rparr>)) reserved_words"

definition MPR_HASH_UNICODE :: int where "MPR_HASH_UNICODE = 0x20"
definition MPR_HASH_STATIC_KEYS :: int where "MPR_HASH_STATIC_KEYS = 0x40"
definition MPR_HASH_STATIC_VALUES :: int where "MPR_HASH_STATIC_VALUES = 0x80"

section \<open>The compiler, as far as the lexer uses it\<close>

record ec_compiler =
  has_mem :: "int \<Rightarrow> bool"
  stream :: ec_stream
  token :: "ec_token option"
  peekToken :: "ec_token option"
  putback :: "ec_token list"
  keyword_hash :: "reserved_word mpr_hash option"
  docToken :: "string option"
  doc :: bool
  warnLevel :: int
  messages :: "(string \<times> ec_loc \<times> string) list"
  fatalError :: bool

fun add_keywords :: "(int \<Rightarrow> bool) \<Rightarrow> (string \<times> reserved_word) list \<Rightarrow> reserved_word mpr_hash \<Rightarrow> reserved_word mpr_hash option" where
  "add_keywords m [] h = Some h"
| "add_keywords m ((name, rp) # rps) h = do { (_, h1) \<leftarrow> mprAddKey m h name (Some rp); add_keywords m rps h1 }"

text \<open>The table has one entry more than there are words, the end mark.\<close>

definition ecInitLexer :: "ec_compiler \<Rightarrow> ec_compiler option" where
  "ecInitLexer cp =
     (let size = int (length keywords_table) + 1
      in case mprCreateHash (has_mem cp) size (MPR_HASH_UNICODE OR MPR_HASH_STATIC_KEYS OR MPR_HASH_STATIC_VALUES) of
           None \<Rightarrow> Some (cp\<lparr>keyword_hash := None\<rparr>)
         | Some h \<Rightarrow> do { h1 \<leftarrow> add_keywords (has_mem cp) keywords_table h; Some (cp\<lparr>keyword_hash := Some h1\<rparr>) })"

definition ecError :: "string \<Rightarrow> string \<Rightarrow> ec_compiler \<Rightarrow> ec_compiler" where
  "ecError severity msg cp = cp\<lparr>messages := messages cp @ [(severity, loc (stream cp), msg)]\<rparr>"

section \<open>Characters and the current token\<close>

abbreviation ord :: "char \<Rightarrow> int" where "ord \<equiv> char_code"

definition next_char :: "ec_compiler \<Rightarrow> (int \<times> ec_compiler) option" where
  "next_char cp = do { (c, s) \<leftarrow> getNextChar (has_mem cp) (stream cp); Some (c, cp\<lparr>stream := s\<rparr>) }"

definition put_back :: "int \<Rightarrow> ec_compiler \<Rightarrow> ec_compiler option" where
  "put_back c cp = do { s \<leftarrow> putBackChar c (stream cp); Some (cp\<lparr>stream := s\<rparr>) }"

definition on_token :: "(ec_token \<Rightarrow> (int \<times> ec_token) option) \<Rightarrow> ec_compiler \<Rightarrow> (int \<times> ec_compiler) option" where
  "on_token f cp = do { tp \<leftarrow> token cp; (rc, tp1) \<leftarrow> f tp; Some (rc, cp\<lparr>token := Some tp1\<rparr>) }"

text \<open>Most callers ignore the result of adding.\<close>

definition add_char :: "int \<Rightarrow> ec_compiler \<Rightarrow> ec_compiler option" where
  "add_char c cp = map_option snd (on_token (addCharToToken (has_mem cp) (stream cp) c) cp)"

definition add_string :: "string \<Rightarrow> ec_compiler \<Rightarrow> ec_compiler option" where
  "add_string str cp = map_option snd (on_token (addStringToToken (has_mem cp) (stream cp) str) cp)"

definition init_token :: "ec_compiler \<Rightarrow> ec_compiler option" where
  "init_token cp = map_option snd (on_token (\<lambda>tp. Some (initializeToken (has_mem cp) (stream cp) tp)) cp)"

text \<open>Setting the numbers of the token and finishing it.\<close>

definition finish :: "int \<Rightarrow> int \<Rightarrow> int \<Rightarrow> ec_compiler \<Rightarrow> (int \<times> ec_compiler) option" where
  "finish ident sub grp cp = on_token (\<lambda>tp. Some (finalizeToken (stream cp) (setTokenID ident sub grp tp))) cp"

definition makeToken :: "int \<Rightarrow> int \<Rightarrow> int \<Rightarrow> ec_compiler \<Rightarrow> (int \<times> ec_compiler) option" where
  "makeToken c ident grp cp =
     do { (rc, cp1) \<leftarrow> (if c \<noteq> 0 then on_token (addCharToToken (has_mem cp) (stream cp) c) cp else Some (0, cp));
          if rc < 0 then Some (T_ERR, cp1) else finish ident (-1) grp cp1 }"

definition makeSubToken :: "int \<Rightarrow> int \<Rightarrow> int \<Rightarrow> int \<Rightarrow> ec_compiler \<Rightarrow> (int \<times> ec_compiler) option" where
  "makeSubToken c ident sub grp cp =
     do { (rc, cp1) \<leftarrow> on_token (addCharToToken (has_mem cp) (stream cp) c) cp;
          if rc < 0 then Some (T_ERR, cp1) else finish ident sub grp cp1 }"

section \<open>Numbers in tokens\<close>

text \<open>The character functions of the C locale on \<^verbatim>\<open>(uchar) c\<close>; \<^verbatim>\<open>isxdigit\<close> gets the signed character and is undefined for a negative one, but for \<^verbatim>\<open>EOF\<close>.\<close>

definition uisdigit :: "int \<Rightarrow> bool" where "uisdigit c \<longleftrightarrow> isdigit (to_char c)"

definition utolower :: "int \<Rightarrow> int" where "utolower c = tolower (to_char c)"

definition uisalpha :: "int \<Rightarrow> bool" where
  "uisalpha c \<longleftrightarrow> (ord CHR ''a'' \<le> utolower c \<and> utolower c \<le> ord CHR ''z'')"

definition isxdigit :: "int \<Rightarrow> bool option" where
  "isxdigit c =
     (if c < -1 then None
      else Some (c \<noteq> -1 \<and> (uisdigit c \<or> (ord CHR ''a'' \<le> utolower c \<and> utolower c \<le> ord CHR ''f''))))"

definition is_octal :: "int \<Rightarrow> bool" where
  "is_octal c \<longleftrightarrow> ord CHR ''0'' \<le> c \<and> c \<le> ord CHR ''7''"

text \<open>Characters are added while a test holds; the first character for which it does not is the result.\<close>

partial_function (option) add_while :: "(int \<Rightarrow> bool option) \<Rightarrow> int \<Rightarrow> ec_compiler \<Rightarrow> (int \<times> ec_compiler) option" where
  "add_while P c cp =
     do { b \<leftarrow> P c;
          if b then do { cp1 \<leftarrow> add_char c cp; (c1, cp2) \<leftarrow> next_char cp1; add_while P c1 cp2 } else Some (c, cp) }"

declare add_while.simps [code]

definition add_and_next :: "int \<Rightarrow> ec_compiler \<Rightarrow> (int \<times> ec_compiler) option" where
  "add_and_next c cp = do { cp1 \<leftarrow> add_char c cp; next_char cp1 }"

definition number_token :: "int \<Rightarrow> ec_compiler \<Rightarrow> (int \<times> ec_compiler) option" where
  "number_token c cp = do { cp1 \<leftarrow> put_back c cp; finish T_NUMBER (-1) 0 cp1 }"

definition float_exponent :: "int \<Rightarrow> ec_compiler \<Rightarrow> (int \<times> ec_compiler) option" where
  "float_exponent c cp =
     (if utolower c = ord CHR ''e''
      then do { (d, cp1) \<leftarrow> add_and_next c cp;
                (e, cp2) \<leftarrow> (if d = ord CHR ''+'' \<or> d = ord CHR ''-'' then add_and_next d cp1 else Some (d, cp1));
                add_while (\<lambda>c. Some (uisdigit c)) e cp2 }
      else Some (c, cp))"

definition float_fraction :: "int \<Rightarrow> ec_compiler \<Rightarrow> (int \<times> ec_compiler) option" where
  "float_fraction c cp =
     do { (c1, cp1) \<leftarrow> (if c = ord CHR ''.'' then add_and_next c cp else Some (c, cp));
          add_while (\<lambda>c. Some (uisdigit c)) c1 cp1 }"

definition float_token :: "int \<Rightarrow> ec_compiler \<Rightarrow> (int \<times> ec_compiler) option" where
  "float_token c cp =
     do { (c1, cp1) \<leftarrow> add_while (\<lambda>c. Some (uisdigit c)) c cp;
          (c2, cp2) \<leftarrow> float_fraction c1 cp1;
          (c3, cp3) \<leftarrow> float_exponent c2 cp2;
          number_token c3 cp3 }"

definition makeNumberToken :: "int \<Rightarrow> ec_compiler \<Rightarrow> (int \<times> ec_compiler) option" where
  "makeNumberToken c cp =
     (if c = ord CHR ''0''
      then do { (c1, cp1) \<leftarrow> next_char cp;
                if utolower c1 = ord CHR ''x''
                then do { cp2 \<leftarrow> add_char (ord CHR ''0'') cp1;
                          (c2, cp3) \<leftarrow> add_and_next c1 cp2;
                          (c3, cp4) \<leftarrow> add_while isxdigit c2 cp3;
                          number_token c3 cp4 }
                else if is_octal c1
                then do { cp2 \<leftarrow> add_char (ord CHR ''0'') cp1;
                          (c2, cp3) \<leftarrow> add_and_next c1 cp2;
                          (c3, cp4) \<leftarrow> add_while (\<lambda>c. Some (is_octal c)) c2 cp3;
                          number_token c3 cp4 }
                else do { cp2 \<leftarrow> put_back c1 cp1; float_token (ord CHR ''0'') cp2 } }
      else float_token c cp)"

section \<open>Escapes\<close>

definition escape_digit :: "int \<Rightarrow> int \<Rightarrow> bool" where
  "escape_digit radix c \<longleftrightarrow>
     (if radix \<le> 10 then uisdigit c
      else if radix = 16 then uisdigit (utolower c) \<or> (ord CHR ''a'' \<le> utolower c \<and> utolower c \<le> ord CHR ''f'')
      else True)"

text \<open>The first character that is no digit is put back; the buffer for the digits has 16 places.\<close>

fun decode_digits :: "int \<Rightarrow> nat \<Rightarrow> string \<Rightarrow> ec_compiler \<Rightarrow> (string \<times> ec_compiler) option" where
  "decode_digits radix 0 ds cp = Some (ds, cp)"
| "decode_digits radix (Suc n) ds cp =
     do { (c, cp1) \<leftarrow> next_char cp;
          if c = 0 \<or> \<not> escape_digit radix c then do { cp2 \<leftarrow> put_back c cp1; Some (ds, cp2) }
          else decode_digits radix n (ds @ [to_char c]) cp1 }"

definition decodeNumber :: "int \<Rightarrow> nat \<Rightarrow> ec_compiler \<Rightarrow> (int \<times> ec_compiler) option" where
  "decodeNumber radix n cp =
     do { (ds, cp1) \<leftarrow> decode_digits radix n [] cp; (_, v) \<leftarrow> stoiradix ds radix; Some (c_int v, cp1) }"

section \<open>Names\<close>

definition name_char :: "int \<Rightarrow> bool" where
  "name_char c \<longleftrightarrow> uisalpha c \<or> uisdigit c \<or> c = ord CHR ''_'' \<or> c = ord CHR ''$'' \<or> c = ord CHR 0x5C"

partial_function (option) scan_name :: "int \<Rightarrow> ec_compiler \<Rightarrow> (int \<times> ec_compiler) option" where
  "scan_name c cp =
     (if \<not> name_char c then Some (c, cp)
      else if c = ord CHR 0x5C
      then do { (c1, cp1) \<leftarrow> next_char cp;
                if c1 = NEWLINE \<or> c1 = RETURN then Some (c1, cp1)
                else do { (c2, cp2) \<leftarrow> (if c1 = ord CHR ''u''
                                           then do { (v, cpa) \<leftarrow> decodeNumber 16 4 cp1; Some (v AND 0xff, cpa) }
                                           else Some (c1, cp1));
                          (c3, cp3) \<leftarrow> add_and_next c2 cp2;
                          scan_name c3 cp3 } }
      else do { (c1, cp1) \<leftarrow> add_and_next c cp; scan_name c1 cp1 })"

declare scan_name.simps [code]

text \<open>The text of the current token as a C string, for the lookup.\<close>

definition token_string :: "ec_compiler \<Rightarrow> string option" where
  "token_string cp = do { tp \<leftarrow> token cp; t \<leftarrow> ttext tp; n \<leftarrow> strlen t; Some (take (nat n) t) }"

definition lookup_keyword :: "ec_compiler \<Rightarrow> (reserved_word option \<times> ec_compiler) option" where
  "lookup_keyword cp =
     do { name \<leftarrow> token_string cp;
          h \<leftarrow> keyword_hash cp;
          (rp, h1) \<leftarrow> mprLookupKey (has_mem cp) h name;
          Some (rp, cp\<lparr>keyword_hash := Some h1\<rparr>) }"

definition makeAlphaToken :: "int \<Rightarrow> ec_compiler \<Rightarrow> (int \<times> ec_compiler) option" where
  "makeAlphaToken c cp =
     do { (c1, cp1) \<leftarrow> scan_name c cp;
          cp2 \<leftarrow> (if c1 \<noteq> 0 then put_back c1 cp1 else Some cp1);
          (rp, cp3) \<leftarrow> lookup_keyword cp2;
          case rp of
            Some w \<Rightarrow> finish (word_token w) (word_sub w) (word_mask w) cp3
          | None \<Rightarrow> finish T_ID (-1) 0 cp3 }"

section \<open>Strings\<close>

definition escape :: "int \<Rightarrow> ec_compiler \<Rightarrow> (int \<times> ec_compiler) option" where
  "escape c cp =
     (if c = ord CHR ''b'' then Some (8, cp)
      else if c = ord CHR ''f'' then Some (12, cp)
      else if c = ord CHR ''n'' then Some (10, cp)
      else if c = ord CHR ''r'' then Some (13, cp)
      else if c = ord CHR ''t'' then Some (9, cp)
      else if c = ord CHR ''u'' then decodeNumber 16 4 cp
      else if c = ord CHR ''x'' then decodeNumber 16 2 cp
      else if c = ord CHR ''v'' then Some (11, cp)
      else if c = ord CHR ''0'' then decodeNumber 8 3 cp
      else Some (c, cp))"

text \<open>The error for the end of the input is behind the test that ends the loop, and never reached.\<close>

partial_function (option) scan_quoted_token :: "int \<Rightarrow> int \<Rightarrow> ec_compiler \<Rightarrow> ec_compiler option" where
  "scan_quoted_token quoteType c cp =
     (if c = 0 \<or> c = quoteType then Some cp
      else do { (c1, cp1) \<leftarrow> (if c = ord CHR 0x5C then do { (d, cpa) \<leftarrow> next_char cp; escape d cpa } else Some (c, cp));
                (c2, cp2) \<leftarrow> add_and_next c1 cp1;
                scan_quoted_token quoteType c2 cp2 })"

declare scan_quoted_token.simps [code]

definition makeQuotedToken :: "int \<Rightarrow> ec_compiler \<Rightarrow> (int \<times> ec_compiler) option" where
  "makeQuotedToken quoteType cp =
     do { (c, cp1) \<leftarrow> next_char cp;
          cp2 \<leftarrow> scan_quoted_token quoteType c cp1;
          tp \<leftarrow> token cp2;
          if ttext tp = None then None else finish T_STRING (-1) 0 cp2 }"

section \<open>Comments\<close>

definition decimal :: "int \<Rightarrow> string" where
  "decimal n = (case itos n of Some (Some s) \<Rightarrow> s | _ \<Rightarrow> [])"

text \<open>
  The result is one for a comment that does not end. Behind a star, the next character is put back and added too; a character
  from \<open>0x80\<close> on is negative and ends the loop like the end of the input.
\<close>

partial_function (option) comment_loop :: "int \<Rightarrow> int \<Rightarrow> int \<Rightarrow> ec_compiler \<Rightarrow> (int \<times> ec_compiler) option" where
  "comment_loop form startLine c0 cp0 =
     (if c0 \<le> 0 then Some (0, cp0)
      else do { (c, cp) \<leftarrow> next_char cp0;
         if c \<le> 0
         then do { cp1 \<leftarrow> add_string (''Unterminated comment starting on line '' @ decimal startLine) cp;
                   (_, cp2) \<leftarrow> makeToken 0 (if form = ord CHR ''/'' then T_EOF else T_ERR) 0 cp1;
                   Some (1, cp2) }
         else if form = ord CHR ''/''
         then (if c = NEWLINE \<or> c = RETURN then Some (0, cp)
               else do { cp1 \<leftarrow> add_char c cp; comment_loop form startLine c cp1 })
         else if c = ord CHR ''*''
         then do { (d, cp1) \<leftarrow> next_char cp;
                   if d = ord CHR ''/'' then Some (0, cp1)
                   else do { cp2 \<leftarrow> add_char (ord CHR ''*'') cp1;
                             cp3 \<leftarrow> put_back d cp2;
                             cp4 \<leftarrow> add_char d cp3;
                             comment_loop form startLine d cp4 } }
         else if c = ord CHR ''/''
         then do { (d, cp1) \<leftarrow> next_char cp;
                   let cp2 = (if d = ord CHR ''*'' \<and> warnLevel cp1 > 0 then ecError ''Warning'' ''Possible nested comment'' cp1 else cp1);
                   cp3 \<leftarrow> add_char (ord CHR ''/'') cp2;
                   cp4 \<leftarrow> add_char d cp3;
                   comment_loop form startLine d cp4 }
         else do { cp1 \<leftarrow> add_char c cp; comment_loop form startLine c cp1 } })"

declare comment_loop.simps [code]

definition getComment :: "int \<Rightarrow> ec_compiler \<Rightarrow> (int \<times> ec_compiler) option" where
  "getComment c cp = comment_loop c (lineNumber (loc (stream cp))) c cp"

text \<open>A doc comment starts with exactly two stars, the first of which is not part of the text.\<close>

definition keep_doc :: "ec_compiler \<Rightarrow> ec_compiler option" where
  "keep_doc cp =
     (if \<not> doc cp then Some cp
      else do { tp \<leftarrow> token cp;
                case ttext tp of
                  None \<Rightarrow> Some cp
                | Some t \<Rightarrow>
                    do { a \<leftarrow> mem_read t 0; b \<leftarrow> (if a = CHR ''*'' then mem_read t 1 else Some a);
                         if a = CHR ''*'' \<and> b \<noteq> CHR ''*''
                         then do { block \<leftarrow> mem_read_block t 0 (tlength tp);
                                   Some (cp\<lparr>docToken := if has_mem cp (tlength tp) then Some block else None\<rparr>) }
                         else Some cp } })"

section \<open>Operators\<close>

text \<open>One function per first character, which has been read.\<close>

abbreviation assign_op :: "int \<Rightarrow> int \<Rightarrow> ec_compiler \<Rightarrow> (int \<times> ec_compiler) option" where
  "assign_op c sub \<equiv> makeSubToken c T_ASSIGN sub (G_OPERATOR OR G_COMPOUND_ASSIGN)"

definition lex_plus :: "ec_compiler \<Rightarrow> (int \<times> ec_compiler) option" where
  "lex_plus cp0 =
     do { (c, cp) \<leftarrow> next_char cp0;
          if c = ord CHR ''+'' then do { cp1 \<leftarrow> add_char (ord CHR ''+'') cp; makeToken c T_PLUS_PLUS G_OPERATOR cp1 }
          else if c = ord CHR ''='' then do { cp1 \<leftarrow> add_char (ord CHR ''+'') cp; assign_op c T_PLUS_ASSIGN cp1 }
          else do { cp1 \<leftarrow> put_back c cp; makeToken (ord CHR ''+'') T_PLUS G_OPERATOR cp1 } }"

definition lex_minus :: "ec_compiler \<Rightarrow> (int \<times> ec_compiler) option" where
  "lex_minus cp0 =
     do { (c, cp) \<leftarrow> next_char cp0;
          if uisdigit c then do { cp1 \<leftarrow> put_back c cp; makeToken (ord CHR ''-'') T_MINUS G_OPERATOR cp1 }
          else if c = ord CHR ''-'' then do { cp1 \<leftarrow> add_char (ord CHR ''-'') cp; makeToken c T_MINUS_MINUS G_OPERATOR cp1 }
          else if c = ord CHR ''='' then do { cp1 \<leftarrow> add_char (ord CHR ''-'') cp; assign_op c T_MINUS_ASSIGN cp1 }
          else do { cp1 \<leftarrow> put_back c cp; makeToken (ord CHR ''-'') T_MINUS G_OPERATOR cp1 } }"

definition lex_star :: "ec_compiler \<Rightarrow> (int \<times> ec_compiler) option" where
  "lex_star cp0 =
     do { (c, cp) \<leftarrow> next_char cp0;
          if c = ord CHR ''='' then do { cp1 \<leftarrow> add_char (ord CHR ''*'') cp; assign_op c T_MUL_ASSIGN cp1 }
          else do { cp1 \<leftarrow> put_back c cp; makeToken (ord CHR ''*'') T_MUL G_OPERATOR cp1 } }"

definition lex_percent :: "ec_compiler \<Rightarrow> (int \<times> ec_compiler) option" where
  "lex_percent cp0 =
     do { (c, cp) \<leftarrow> next_char cp0;
          if c = ord CHR ''='' then do { cp1 \<leftarrow> add_char (ord CHR ''%'') cp; assign_op c T_MOD_ASSIGN cp1 }
          else do { cp1 \<leftarrow> put_back c cp; makeToken (ord CHR ''%'') T_MOD G_OPERATOR cp1 } }"

definition lex_dot :: "ec_compiler \<Rightarrow> (int \<times> ec_compiler) option" where
  "lex_dot cp0 =
     do { (c, cp) \<leftarrow> next_char cp0;
          if c = ord CHR ''.''
          then do { (c1, cp1) \<leftarrow> next_char cp;
                    if c1 = ord CHR ''.'' then do { cp2 \<leftarrow> add_string ''..'' cp1; makeToken c1 T_ELIPSIS 0 cp2 }
                    else do { cp2 \<leftarrow> put_back c1 cp1; cp3 \<leftarrow> add_char (ord CHR ''.'') cp2; makeToken (ord CHR ''.'') T_DOT_DOT 0 cp3 } }
          else if uisdigit c then do { cp1 \<leftarrow> put_back c cp; makeNumberToken (ord CHR ''.'') cp1 }
          else do { cp1 \<leftarrow> put_back c cp; makeToken (ord CHR ''.'') T_DOT G_OPERATOR cp1 } }"

definition lex_colon :: "ec_compiler \<Rightarrow> (int \<times> ec_compiler) option" where
  "lex_colon cp0 =
     do { (c, cp) \<leftarrow> next_char cp0;
          if c = ord CHR '':'' then do { cp1 \<leftarrow> add_char (ord CHR '':'') cp; makeToken c T_COLON_COLON 0 cp1 }
          else do { cp1 \<leftarrow> put_back c cp; makeToken (ord CHR '':'') T_COLON 0 cp1 } }"

definition lex_not :: "ec_compiler \<Rightarrow> (int \<times> ec_compiler) option" where
  "lex_not cp0 =
     do { (c, cp) \<leftarrow> next_char cp0;
          if c = ord CHR ''=''
          then do { (c1, cp1) \<leftarrow> next_char cp;
                    if c1 = ord CHR ''='' then do { cp2 \<leftarrow> add_string ''!='' cp1; makeToken c1 T_STRICT_NE G_OPERATOR cp2 }
                    else do { cp2 \<leftarrow> put_back c1 cp1; cp3 \<leftarrow> add_char (ord CHR ''!'') cp2; makeToken (ord CHR ''='') T_NE G_OPERATOR cp3 } }
          else do { cp1 \<leftarrow> put_back c cp; makeToken (ord CHR ''!'') T_LOGICAL_NOT G_OPERATOR cp1 } }"

text \<open>The doubled operators \<^verbatim>\<open>&&\<close>, \<^verbatim>\<open>^^\<close> and \<^verbatim>\<open>||\<close> and their assignments are read alike.\<close>

definition lex_logical :: "char \<Rightarrow> int \<Rightarrow> int \<Rightarrow> int \<Rightarrow> int \<Rightarrow> ec_compiler \<Rightarrow> (int \<times> ec_compiler) option" where
  "lex_logical ch both both_assign single_assign single cp0 =
     do { (c, cp) \<leftarrow> next_char cp0;
          if c = ord ch
          then do { cp1 \<leftarrow> add_char (ord ch) cp;
                    (c1, cp2) \<leftarrow> next_char cp1;
                    if c1 = ord CHR ''='' then do { cp3 \<leftarrow> add_char (ord ch) cp2; assign_op (ord CHR ''='') both_assign cp3 }
                    else do { cp3 \<leftarrow> put_back c1 cp2; makeToken (ord ch) both G_OPERATOR cp3 } }
          else if c = ord CHR ''='' then do { cp1 \<leftarrow> add_char (ord ch) cp; assign_op (ord CHR ''='') single_assign cp1 }
          else do { cp1 \<leftarrow> put_back c cp; makeToken (ord ch) single G_OPERATOR cp1 } }"

definition lex_and :: "ec_compiler \<Rightarrow> (int \<times> ec_compiler) option" where
  "lex_and = lex_logical CHR ''&'' T_LOGICAL_AND T_LOGICAL_AND_ASSIGN T_BIT_AND_ASSIGN T_BIT_AND"

definition lex_xor :: "ec_compiler \<Rightarrow> (int \<times> ec_compiler) option" where
  "lex_xor = lex_logical CHR ''^'' T_LOGICAL_XOR T_LOGICAL_XOR_ASSIGN T_BIT_XOR_ASSIGN T_BIT_XOR"

definition lex_or :: "ec_compiler \<Rightarrow> (int \<times> ec_compiler) option" where
  "lex_or = lex_logical CHR ''|'' T_LOGICAL_OR T_LOGICAL_OR_ASSIGN T_BIT_OR_ASSIGN T_BIT_OR"

text \<open>Behind \<^verbatim>\<open><<\<close> and \<^verbatim>\<open>==\<close>, the character that is put back becomes part of the text too.\<close>

definition lex_less :: "ec_compiler \<Rightarrow> (int \<times> ec_compiler) option" where
  "lex_less cp0 =
     do { (c, cp) \<leftarrow> next_char cp0;
          if c = ord CHR ''='' then do { cp1 \<leftarrow> add_char (ord CHR ''<'') cp; makeToken c T_LE G_OPERATOR cp1 }
          else if c = ord CHR ''<''
          then do { (c1, cp1) \<leftarrow> next_char cp;
                    if c1 = ord CHR ''='' then do { cp2 \<leftarrow> add_string ''<<'' cp1; assign_op c1 T_LSH_ASSIGN cp2 }
                    else do { cp2 \<leftarrow> put_back c1 cp1; cp3 \<leftarrow> add_char (ord CHR ''<'') cp2; makeToken c1 T_LSH G_OPERATOR cp3 } }
          else if c = ord CHR ''/'' then do { cp1 \<leftarrow> add_char (ord CHR ''<'') cp; makeToken c T_LT_SLASH 0 cp1 }
          else do { cp1 \<leftarrow> put_back c cp; makeToken (ord CHR ''<'') T_LT G_OPERATOR cp1 } }"

definition lex_equals :: "ec_compiler \<Rightarrow> (int \<times> ec_compiler) option" where
  "lex_equals cp0 =
     do { (c, cp) \<leftarrow> next_char cp0;
          if c = ord CHR ''=''
          then do { (c1, cp1) \<leftarrow> next_char cp;
                    if c1 = ord CHR ''='' then do { cp2 \<leftarrow> add_string ''=='' cp1; makeToken c1 T_STRICT_EQ G_OPERATOR cp2 }
                    else do { cp2 \<leftarrow> put_back c1 cp1; cp3 \<leftarrow> add_char (ord CHR ''='') cp2; makeToken c1 T_EQ G_OPERATOR cp3 } }
          else do { cp1 \<leftarrow> put_back c cp; makeToken (ord CHR ''='') T_ASSIGN G_OPERATOR cp1 } }"

definition lex_greater :: "ec_compiler \<Rightarrow> (int \<times> ec_compiler) option" where
  "lex_greater cp0 =
     do { (c, cp) \<leftarrow> next_char cp0;
          if c = ord CHR ''='' then do { cp1 \<leftarrow> add_char (ord CHR ''<'') cp; makeToken c T_GE G_OPERATOR cp1 }
          else if c = ord CHR ''>''
          then do { (c1, cp1) \<leftarrow> next_char cp;
             if c1 = ord CHR ''='' then do { cp2 \<leftarrow> add_string ''>>'' cp1; assign_op c1 T_RSH_ASSIGN cp2 }
             else if c1 = ord CHR ''>''
             then do { (c2, cp2) \<leftarrow> next_char cp1;
                       if c2 = ord CHR ''='' then do { cp3 \<leftarrow> add_string ''>>>'' cp2; assign_op c2 T_RSH_ZERO_ASSIGN cp3 }
                       else do { cp3 \<leftarrow> put_back c2 cp2; cp4 \<leftarrow> add_string ''>>'' cp3; makeToken (ord CHR ''>'') T_RSH_ZERO G_OPERATOR cp4 } }
             else do { cp2 \<leftarrow> put_back c1 cp1; cp3 \<leftarrow> add_char (ord CHR ''>'') cp2; makeToken (ord CHR ''>'') T_RSH G_OPERATOR cp3 } }
          else do { cp1 \<leftarrow> put_back c cp; makeToken (ord CHR ''>'') T_GT G_OPERATOR cp1 } }"

text \<open>The characters that are a token of their own.\<close>

definition simple_tokens :: "(char \<times> int \<times> int) list" where
  "simple_tokens =
    [(CHR ''#'', T_HASH, 0), (CHR ''['', T_LBRACKET, G_OPERATOR), (CHR '']'', T_RBRACKET, 0), (CHR ''('', T_LPAREN, G_OPERATOR),
     (CHR '')'', T_RPAREN, 0), (CHR ''{'', T_LBRACE, 0), (CHR ''}'', T_RBRACE, 0), (CHR ''@'', T_AT, 0),
     (CHR '';'', T_SEMICOLON, 0), (CHR '','', T_COMMA, 0), (CHR ''?'', T_QUERY, 0), (CHR ''~'', T_TILDE, G_OPERATOR)]"

definition simple_token :: "int \<Rightarrow> (int \<times> int) option" where
  "simple_token c = map_of (List.map (\<lambda>(ch, t). (ord ch, t)) simple_tokens) c"

definition lexers :: "(char \<times> (ec_compiler \<Rightarrow> (int \<times> ec_compiler) option)) list" where
  "lexers =
    [(CHR ''+'', lex_plus), (CHR ''-'', lex_minus), (CHR ''*'', lex_star), (CHR ''%'', lex_percent), (CHR ''.'', lex_dot), (CHR '':'', lex_colon),
     (CHR ''!'', lex_not), (CHR ''<'', lex_less), (CHR ''='', lex_equals), (CHR ''>'', lex_greater),
     (CHR ''&'', lex_and), (CHR ''^'', lex_xor), (CHR ''|'', lex_or)]"

definition operator_lexer :: "int \<Rightarrow> (ec_compiler \<Rightarrow> (int \<times> ec_compiler) option) option" where
  "operator_lexer c = map_of (List.map (\<lambda>(ch, t). (ord ch, t)) lexers) c"

section \<open>Tokens\<close>

text \<open>White space between tokens. \<open>0xA0\<close> is never read, as characters are signed.\<close>

definition is_blank :: "int \<Rightarrow> bool" where
  "is_blank c \<longleftrightarrow> c \<in> {ord CHR '' '', 12, 9, 11, 0xA0, RETURN, NEWLINE}"

definition is_quote :: "int \<Rightarrow> bool" where
  "is_quote c \<longleftrightarrow> c = ord CHR 0x22 \<or> c = ord CHR 0x27 \<or> c = ord CHR 0x60"

definition end_token :: "ec_compiler \<Rightarrow> (int \<times> ec_compiler) option" where
  "end_token cp = (if at_eol (stream cp) then makeToken 0 T_NOP 0 cp else makeToken 0 T_EOF 0 cp)"

text \<open>
  After a comment the token is made anew and the search goes on, whether the comment ended or not. A backslash that is not in
  front of a line end becomes a line end, which starts no name.
\<close>

partial_function (option) get_token :: "ec_compiler \<Rightarrow> (int \<times> ec_compiler) option" where
  "get_token cp0 =
     do { (c, cp) \<leftarrow> next_char cp0;
          if c = -1 then makeToken 0 T_ERR 0 cp
          else if c = 0 then end_token cp
          else if is_blank c then get_token cp
          else if is_quote c then makeQuotedToken c cp
          else if simple_token c \<noteq> None then (let (ident, grp) = the (simple_token c) in makeToken c ident grp cp)
          else if operator_lexer c \<noteq> None then the (operator_lexer c) cp
          else if c = ord CHR ''/''
          then do { (d, cp1) \<leftarrow> next_char cp;
                    if d = ord CHR ''='' then do { cp2 \<leftarrow> add_char (ord CHR ''/'') cp1; assign_op d T_DIV_ASSIGN cp2 }
                    else if d = ord CHR ''>'' then do { cp2 \<leftarrow> add_char (ord CHR ''/'') cp1; makeToken d T_SLASH_GT G_OPERATOR cp2 }
                    else if d = ord CHR ''*'' \<or> d = ord CHR ''/''
                    then do { (rc, cp2) \<leftarrow> getComment d cp1;
                              if rc < 0 then do { tp \<leftarrow> token cp2; Some (tokenId tp, cp2) }
                              else do { cp3 \<leftarrow> keep_doc cp2; cp4 \<leftarrow> init_token cp3; get_token cp4 } }
                    else do { cp2 \<leftarrow> put_back d cp1; makeToken (ord CHR ''/'') T_DIV G_OPERATOR cp2 } }
          else if uisdigit c then makeNumberToken c cp
          else do { (d, cp1) \<leftarrow> (if c = ord CHR 0x5C then next_char cp else Some (c, cp));
                    if c = ord CHR 0x5C \<and> d = NEWLINE then get_token cp1
                    else do { cp2 \<leftarrow> (if c = ord CHR 0x5C then put_back d cp1 else Some cp1);
                              let e = (if c = ord CHR 0x5C then NEWLINE else c);
                              if uisalpha e \<or> e = ord CHR ''_'' \<or> e = ord CHR 0x5C \<or> e = ord CHR ''$'' then makeAlphaToken e cp2
                              else makeToken 0 T_ERR 0 cp2 } } }"

declare get_token.simps [code]

definition empty_token :: "ec_loc \<Rightarrow> ec_token" where
  "empty_token l = \<lparr>ttext = None, tlength = 0, tsize = 0, tokenId = 0, subId = 0, groupMask = 0, tloc = l\<rparr>"

definition no_location :: ec_loc where
  "no_location = \<lparr>source = None, filename = [], lineNumber = 0, column = 0\<rparr>"

definition getLexToken :: "ec_compiler \<Rightarrow> ec_compiler" where
  "getLexToken cp =
     (case putback cp of
        tp # tps \<Rightarrow> cp\<lparr>putback := tps, token := Some tp\<rparr>
      | [] \<Rightarrow> if \<not> has_mem cp 104 then cp\<lparr>token := None\<rparr>
             else cp\<lparr>token := Some (snd (initializeToken (has_mem cp) (stream cp) (empty_token no_location)))\<rparr>)"

definition ecGetToken :: "ec_compiler \<Rightarrow> (int \<times> ec_compiler) option" where
  "ecGetToken cp0 =
     (let cp = getLexToken cp0
      in case token cp of
           None \<Rightarrow> Some (T_ERR, cp)
         | Some tp \<Rightarrow> if tokenId tp \<noteq> 0 then Some (tokenId tp, cp) else get_token cp)"


section \<open>Regular expressions\<close>

text \<open>The flags behind the closing slash.\<close>

partial_function (option) regexp_flags :: "ec_compiler \<Rightarrow> ec_compiler option" where
  "regexp_flags cp0 =
     do { (c, cp) \<leftarrow> next_char cp0;
          if c \<notin> {ord CHR ''g'', ord CHR ''i'', ord CHR ''m'', ord CHR ''y'', ord CHR ''x'', ord CHR ''X'', ord CHR ''U'', ord CHR ''s''}
          then put_back c cp
          else do { cp1 \<leftarrow> add_char c cp; regexp_flags cp1 } }"

partial_function (option) regexp_loop :: "ec_compiler \<Rightarrow> (int \<times> ec_compiler) option" where
  "regexp_loop cp0 =
     do { (c, cp) \<leftarrow> next_char cp0;
          if c = -1 then makeToken 0 T_ERR 0 cp
          else if c = 0 then end_token cp
          else if c = ord CHR ''/''
          then do { cp1 \<leftarrow> add_char (ord CHR ''/'') cp; cp2 \<leftarrow> regexp_flags cp1; makeToken 0 T_REGEXP 0 cp2 }
          else if c = ord CHR 0x5C
          then do { (d, cp1) \<leftarrow> next_char cp;
                    if d = RETURN \<or> d = NEWLINE \<or> d = 0
                    then makeToken 0 T_ERR 0 (ecError ''Warning'' ''Illegal newline in regular expression'' cp1)
                    else do { cp2 \<leftarrow> add_char (ord CHR 0x5C) cp1; cp3 \<leftarrow> add_char d cp2; regexp_loop cp3 } }
          else if c = RETURN \<or> c = NEWLINE
          then makeToken 0 T_ERR 0 (ecError ''Warning'' ''Illegal newline in regular expression'' cp)
          else do { cp1 \<leftarrow> add_char c cp; regexp_loop cp1 } }"

declare regexp_flags.simps [code] regexp_loop.simps [code]

fun add_prefix :: "string \<Rightarrow> ec_compiler \<Rightarrow> ec_compiler option" where
  "add_prefix [] cp = Some cp"
| "add_prefix (ch # str) cp = do { cp1 \<leftarrow> add_char (signed_char ch) cp; add_prefix str cp1 }"

definition ecGetRegExpToken :: "string option \<Rightarrow> ec_compiler \<Rightarrow> (int \<times> ec_compiler) option" where
  "ecGetRegExpToken prefix cp =
     do { cp1 \<leftarrow> init_token cp;
          cp2 \<leftarrow> add_prefix (case prefix of None \<Rightarrow> [] | Some s \<Rightarrow> c_str s) cp1;
          regexp_loop cp2 }"

section \<open>Putting tokens back\<close>

definition ecPutSpecificToken :: "ec_token option \<Rightarrow> ec_compiler \<Rightarrow> ec_compiler option" where
  "ecPutSpecificToken t cp =
     do { tp \<leftarrow> t; if tokenId tp > 0 then Some (cp\<lparr>putback := tp # putback cp\<rparr>) else None }"

definition ecPutToken :: "ec_compiler \<Rightarrow> ec_compiler option" where
  "ecPutToken cp = do { cp1 \<leftarrow> ecPutSpecificToken (token cp) cp; Some (cp1\<lparr>token := None\<rparr>) }"

definition ecTakeToken :: "ec_compiler \<Rightarrow> ec_token option \<times> ec_compiler" where
  "ecTakeToken cp = (token cp, cp\<lparr>token := None\<rparr>)"

section \<open>The tokens of the parser\<close>

definition EC_MAX_LOOK_AHEAD :: int where "EC_MAX_LOOK_AHEAD = 12"

definition getToken :: "ec_compiler \<Rightarrow> (int \<times> ec_compiler) option" where
  "getToken cp =
     (if fatalError cp then Some (T_ERR, cp)
      else do { (ident, cp1) \<leftarrow> ecGetToken cp; Some (ident, cp1\<lparr>peekToken := None\<rparr>) })"

fun take_tokens :: "nat \<Rightarrow> ec_compiler \<Rightarrow> (ec_token option list \<times> ec_compiler) option" where
  "take_tokens 0 cp = Some ([], cp)"
| "take_tokens (Suc n) cp =
     do { (ident, cp1) \<leftarrow> ecGetToken cp;
          if ident < 0 then None
          else let (t, cp2) = ecTakeToken cp1 in do { (ts, cp3) \<leftarrow> take_tokens n cp2; Some (t # ts, cp3) } }"

text \<open>The tokens go back in reverse order.\<close>

fun put_tokens :: "ec_token option list \<Rightarrow> ec_compiler \<Rightarrow> ec_compiler option" where
  "put_tokens [] cp = Some cp"
| "put_tokens (t # ts) cp = do { cp1 \<leftarrow> put_tokens ts cp; ecPutSpecificToken t cp1 }"

definition peekAheadTokenStruct :: "int \<Rightarrow> ec_compiler \<Rightarrow> (ec_token option \<times> ec_compiler) option" where
  "peekAheadTokenStruct ahead cp =
     (if \<not> (0 < ahead \<and> ahead \<le> EC_MAX_LOOK_AHEAD) then None
      else if ahead = 1 \<and> putback cp \<noteq> [] then Some (Some (hd (putback cp)), cp\<lparr>peekToken := Some (hd (putback cp))\<rparr>)
      else do { let (currentToken, cp1) = ecTakeToken cp;
                (ts, cp2) \<leftarrow> take_tokens (nat ahead) cp1;
                let t = last ts;
                cp3 \<leftarrow> put_tokens ts cp2;
                cp4 \<leftarrow> (if currentToken \<noteq> None
                       then do { cpa \<leftarrow> ecPutSpecificToken currentToken cp3; (_, cpb) \<leftarrow> ecGetToken cpa; Some cpb }
                       else Some cp3);
                Some (t, cp4\<lparr>peekToken := t\<rparr>) })"

definition peekAheadToken :: "int \<Rightarrow> ec_compiler \<Rightarrow> (int \<times> ec_compiler) option" where
  "peekAheadToken ahead cp =
     do { (t, cp1) \<leftarrow> peekAheadTokenStruct ahead cp;
          case t of None \<Rightarrow> Some (EJS_ERR, cp1) | Some tp \<Rightarrow> Some (tokenId tp, cp1) }"

definition ecPeekToken :: "ec_compiler \<Rightarrow> (int \<times> ec_compiler) option" where
  "ecPeekToken cp = peekAheadToken 1 cp"

text \<open>The start of a regular expression: what was read ahead is dropped, the text of the current token is its first part.\<close>

partial_function (option) flush_putback :: "ec_compiler \<Rightarrow> ec_compiler option" where
  "flush_putback cp = (if putback cp = [] then Some cp else do { (_, cp1) \<leftarrow> getToken cp; flush_putback cp1 })"

declare flush_putback.simps [code]

definition regexp_token :: "ec_compiler \<Rightarrow> (int \<times> ec_compiler) option" where
  "regexp_token cp =
     do { cp1 \<leftarrow> flush_putback cp;
          prefix \<leftarrow> token_string cp1;
          (ident, cp2) \<leftarrow> ecGetRegExpToken (Some prefix) cp1;
          Some (ident, cp2\<lparr>peekToken := None\<rparr>) }"

end
