(* ===== verification/LexRun.thy ===== *)
theory LexRun
  imports Lexer
begin

text \<open>
  The states of the lexer while it reads a source that is in memory, and what its steps do in them.

  \<^item> \<open>returns\<close> says of a computation that it has a result, with a property: the rules for it are applied along the code.
  \<^item> \<open>reading\<close> divides the source into what was read and what is left; \<open>just_read\<close> adds that the last character can be put back.
  \<^item> \<open>lexing\<close> adds the text of the current token and the table of reserved words.
\<close>

section \<open>Computations that return\<close>

definition returns :: "'a option \<Rightarrow> ('a \<Rightarrow> bool) \<Rightarrow> bool" where
  "returns m P \<longleftrightarrow> (\<exists>x. m = Some x \<and> P x)"

lemma returns_Some [simp]: "returns (Some x) P \<longleftrightarrow> P x"
  by (simp add: returns_def)

lemma returns_None [simp]: "\<not> returns None P"
  by (simp add: returns_def)

lemma returns_bind [simp]: "returns (Option.bind m f) P \<longleftrightarrow> returns m (\<lambda>x. returns (f x) P)"
  by (cases m) simp_all

lemma returns_map [simp]: "returns (map_option f m) P \<longleftrightarrow> returns m (\<lambda>x. P (f x))"
  by (cases m) simp_all

lemma returns_mono: "returns m P \<Longrightarrow> (\<And>x. P x \<Longrightarrow> Q x) \<Longrightarrow> returns m Q"
  by (auto simp: returns_def)

lemma returns_pair: "returns m P \<Longrightarrow> (\<And>c x. P (c, x) \<Longrightarrow> Q (c, x)) \<Longrightarrow> returns m Q"
  by (auto simp: returns_def)

lemma returnsE: "returns m P \<Longrightarrow> (\<And>x. m = Some x \<Longrightarrow> P x \<Longrightarrow> R) \<Longrightarrow> R"
  by (auto simp: returns_def)

section \<open>Characters\<close>

lemma to_char_signed [simp]: "to_char (signed_char ch) = ch"
proof -
  have "char_code ch < 256" "0 \<le> char_code ch" by (simp_all add: char_code_def of_char_less)
  have "signed_char ch mod 256 = char_code ch mod 256"
    by (auto simp: signed_char_def mod_diff_right_eq [of _ 256 256, symmetric])
  then have "signed_char ch mod 256 = char_code ch" using \<open>char_code ch < 256\<close> \<open>0 \<le> char_code ch\<close> by simp
  then show ?thesis by (simp add: to_char_def char_code_def)
qed

lemma signed_char_eq [simp]: "signed_char a = signed_char b \<longleftrightarrow> a = b"
  by (metis to_char_signed)

lemma signed_NUL [simp]: "signed_char NUL = 0"
  by (simp add: signed_char_def char_code_def)

lemma signed_0 [simp]: "signed_char ch = 0 \<longleftrightarrow> ch = NUL" "0 = signed_char ch \<longleftrightarrow> ch = NUL"
  using signed_char_eq [of ch NUL] by (simp_all del: signed_char_eq)

lemma signed_NEWLINE [simp]: "signed_char ch = NEWLINE \<longleftrightarrow> ch = CHR 0x0A"
  using signed_char_eq [of ch "CHR 0x0A"] by (simp del: signed_char_eq add: signed_char_def [of "CHR 0x0A"] char_code_def)

section \<open>The source\<close>

definition line_count :: "string \<Rightarrow> int" where
  "line_count d = 1 + int (length (filter (\<lambda>ch. ch = CHR 0x0A) d))"

lemma line_count_simps [simp]: "line_count [] = 1" "line_count (d @ [c]) = (if c = CHR 0x0A then line_count d + 1 else line_count d)"
  by (simp_all add: line_count_def)

definition reading :: "string \<Rightarrow> string \<Rightarrow> ec_stream \<Rightarrow> bool" where
  "reading d t s \<longleftrightarrow> getInput s = NoInput \<and> nextChar s = int (length d) \<and> bufEnd s = int (length d + length t)
     \<and> 0 \<le> column (loc s) \<and> lineNumber (loc s) = line_count d \<and> (\<exists>rest. buf s = Some (d @ t @ rest) \<and> NUL \<in> set rest)"

definition just_read :: "string \<Rightarrow> char \<Rightarrow> string \<Rightarrow> ec_stream \<Rightarrow> bool" where
  "just_read d ch t s \<longleftrightarrow> reading (d @ [ch]) t s
     \<and> (if ch = CHR 0x0A then lineNumber (lastLoc s) = line_count d else 0 < column (loc s))"

lemma source_line_Some:
  assumes "NUL \<in> set (drop (nat i) block)" "0 \<le> i"
  shows "\<exists>line. source_line block i = Some line"
proof -
  let ?r = "drop (nat i) block" and ?P = "\<lambda>ch. ch \<noteq> NUL \<and> ch \<noteq> CHR 0x0A"
  have s: "\<not> isspace NUL" by (simp add: isspace_def char_code_def)
  have "NUL \<in> set (dropWhile isspace ?r)"
    using assms(1) s by (metis (no_types, lifting) UnE set_append set_takeWhileD takeWhile_dropWhile_id)
  then have "takeWhile ?P (dropWhile isspace ?r) \<noteq> dropWhile isspace ?r" by (auto simp: takeWhile_eq_all_conv)
  then have "length (takeWhile ?P (dropWhile isspace ?r)) < length (dropWhile isspace ?r)"
    by (metis (no_types, lifting) le_neq_implies_less length_takeWhile_le takeWhile_eq_take take_all_iff order_refl)
  with assms(2) show ?thesis by (simp add: source_line_def Let_def)
qed

lemma getNextChar_file: "getInput s = NoInput \<Longrightarrow> getNextChar mem s = take_char mem s"
  by (subst getNextChar.simps) simp

lemma getNextChar_end: "reading d [] s \<Longrightarrow> getNextChar mem s = Some (0, s)"
  by (simp add: reading_def getNextChar_file take_char_def)

lemma getNextChar_char:
  assumes "reading d (ch # t) s"
  shows "\<exists>s1. getNextChar mem s = Some (signed_char ch, s1) \<and> just_read d ch t s1 \<and> sflags s1 = sflags s"
proof -
  obtain rest where b: "buf s = Some (d @ ch # t @ rest)" "NUL \<in> set rest" using assms by (auto simp: reading_def)
  have n: "nextChar s = int (length d)" "getInput s = NoInput" "nextChar s < bufEnd s" using assms by (simp_all add: reading_def)
  have r: "mem_read (d @ ch # t @ rest) (int (length d)) = Some ch" by (simp add: mem_read_def)
  obtain line where l: "source_line (d @ ch # t @ rest) (int (length d)) = Some line"
    using source_line_Some [of "int (length d)" "d @ ch # t @ rest"] b(2) by auto
  show ?thesis
    using assms b n r l unfolding getNextChar_file [OF n(2)]
    by (auto simp: take_char_def just_read_def reading_def Let_def)
qed

lemma putBackChar_0 [simp]: "putBackChar 0 s = Some s"
  by (simp add: putBackChar_def)

lemma putBackChar_char:
  assumes "just_read d ch t s" "ch \<noteq> NUL"
  shows "\<exists>s1. putBackChar (signed_char ch) s = Some s1 \<and> reading d (ch # t) s1 \<and> sflags s1 = sflags s"
proof -
  obtain rest where b: "buf s = Some (d @ ch # t @ rest)" "NUL \<in> set rest" using assms by (auto simp: reading_def just_read_def)
  have n: "nextChar s = int (length d) + 1" using assms by (simp add: reading_def just_read_def)
  have r: "mem_read (d @ ch # t @ rest) (int (length d)) = Some ch" by (simp add: mem_read_def)
  show ?thesis using assms b n r by (auto simp: putBackChar_def just_read_def reading_def Let_def)
qed

section \<open>The text of a token\<close>

definition token_text :: "ec_token \<Rightarrow> string" where
  "token_text tp = (case ttext tp of None \<Rightarrow> [] | Some t \<Rightarrow> take (nat (tlength tp)) t)"

definition token_ok :: "ec_token \<Rightarrow> bool" where
  "token_ok tp \<longleftrightarrow> 0 \<le> tlength tp \<and> tlength tp < tsize tp
     \<and> (\<exists>t. ttext tp = Some t \<and> int (length t) = tsize tp \<and> NUL \<in> set t
        \<and> (tlength tp = 0 \<or> t ! nat (tlength tp) = NUL))"

lemma initializeToken_ok:
  assumes "ttext tp = None \<or> token_ok tp"
  shows "initializeToken (\<lambda>_. True) s tp = (0, snd (initializeToken (\<lambda>_. True) s tp)) \<and> token_ok (snd (initializeToken (\<lambda>_. True) s tp))
     \<and> token_text (snd (initializeToken (\<lambda>_. True) s tp)) = [] \<and> tokenId (snd (initializeToken (\<lambda>_. True) s tp)) = 0"
  using assms by (auto simp: initializeToken_def token_ok_def token_text_def EC_TOKEN_INCR_def Let_def)

lemma place_token_simps [simp]:
  "ttext (place_token s tp) = ttext tp" "tlength (place_token s tp) = tlength tp" "tsize (place_token s tp) = tsize tp"
  "tokenId (place_token s tp) = tokenId tp" "subId (place_token s tp) = subId tp" "groupMask (place_token s tp) = groupMask tp"
  by (simp_all add: place_token_def)

lemma token_cong:
  "ttext a = ttext b \<Longrightarrow> tlength a = tlength b \<Longrightarrow> tsize a = tsize b \<Longrightarrow> token_ok a = token_ok b \<and> token_text a = token_text b"
  by (auto simp: token_ok_def token_text_def split: option.splits)

lemma grow_text_ok:
  assumes "token_ok tp"
  shows "\<exists>tp1 t1. grow_text (\<lambda>_. True) tp = (0, tp1) \<and> ttext tp1 = Some t1 \<and> int (length t1) = tsize tp1 \<and> tlength tp1 = tlength tp
     \<and> tlength tp + 1 < tsize tp1 \<and> take (nat (tlength tp)) t1 = token_text tp"
proof -
  obtain t where t: "ttext tp = Some t" "int (length t) = tsize tp" "0 \<le> tlength tp" "tlength tp < tsize tp" using assms by (auto simp: token_ok_def)
  show ?thesis
  proof (cases "tlength tp \<ge> tsize tp - 1")
    case True
    with t show ?thesis by (auto simp: grow_text_def Let_def boost_def EC_TOKEN_INCR_def token_text_def)
  next
    case False
    with t show ?thesis by (auto simp: grow_text_def token_text_def)
  qed
qed

lemma addCharToToken_ok:
  assumes "token_ok tp"
  shows "\<exists>tp1. addCharToToken (\<lambda>_. True) s c tp = Some (0, tp1) \<and> token_ok tp1 \<and> token_text tp1 = token_text tp @ [to_char c]"
proof -
  obtain tp1 t1 where g: "grow_text (\<lambda>_. True) tp = (0, tp1)" "ttext tp1 = Some t1" "int (length t1) = tsize tp1" "tlength tp1 = tlength tp"
    "tlength tp + 1 < tsize tp1" "take (nat (tlength tp)) t1 = token_text tp" using grow_text_ok [OF assms] by (elim exE conjE) (rule that)
  have l: "0 \<le> tlength tp" using assms by (simp add: token_ok_def)
  let ?t = "t1[nat (tlength tp) := to_char c, nat (tlength tp) + 1 := NUL]"
  have w: "mem_write t1 (tlength tp) (to_char c) = Some (t1[nat (tlength tp) := to_char c])"
    "mem_write (t1[nat (tlength tp) := to_char c]) (tlength tp + 1) NUL = Some ?t"
    using l g(3,5) by (simp_all add: mem_write_def nat_add_distrib)
  have n: "nat (tlength tp + 1) = Suc (nat (tlength tp))" using l by simp
  have tk: "take (Suc (nat (tlength tp))) ?t = token_text tp @ [to_char c]"
    using g(3,5,6) l by (simp add: take_Suc_conv_app_nth)
  have "NUL \<in> set ?t" "?t ! Suc (nat (tlength tp)) = NUL" using g(3,5) l by (auto intro: set_update_memI)
  with g l w n tk show ?thesis
    by (auto simp: addCharToToken_def Let_def token_ok_def token_text_def)
qed

lemma finalizeToken_ok:
  "finalizeToken s (setTokenID ident sub grp tp) = (ident, snd (finalizeToken s (setTokenID ident sub grp tp)))
     \<and> tokenId (snd (finalizeToken s (setTokenID ident sub grp tp))) = ident \<and> subId (snd (finalizeToken s (setTokenID ident sub grp tp))) = sub
     \<and> groupMask (snd (finalizeToken s (setTokenID ident sub grp tp))) = grp
     \<and> token_ok (snd (finalizeToken s (setTokenID ident sub grp tp))) = token_ok tp
     \<and> token_text (snd (finalizeToken s (setTokenID ident sub grp tp))) = token_text tp"
  by (auto simp: finalizeToken_def setTokenID_def token_ok_def token_text_def split: option.splits)

section \<open>The compiler while it reads\<close>

definition words_ok :: "ec_compiler \<Rightarrow> bool" where
  "words_ok cp \<longleftrightarrow> (\<exists>h. keyword_hash cp = Some h \<and> plain_table h \<and> table_view h = map_of keywords_table)"

definition ready :: "string \<Rightarrow> ec_compiler \<Rightarrow> bool" where
  "ready x cp \<longleftrightarrow> (\<exists>tp. token cp = Some tp \<and> token_ok tp \<and> token_text tp = x)
     \<and> has_mem cp = (\<lambda>_. True) \<and> words_ok cp \<and> putback cp = [] \<and> \<not> at_eol (stream cp)"

definition lexing :: "string \<Rightarrow> string \<Rightarrow> string \<Rightarrow> ec_compiler \<Rightarrow> bool" where
  "lexing d t x cp \<longleftrightarrow> reading d t (stream cp) \<and> ready x cp"

definition lexed :: "string \<Rightarrow> char \<Rightarrow> string \<Rightarrow> string \<Rightarrow> ec_compiler \<Rightarrow> bool" where
  "lexed d ch t x cp \<longleftrightarrow> just_read d ch t (stream cp) \<and> ready x cp"

lemma lexed_lexing: "lexed d ch t x cp \<Longrightarrow> lexing (d @ [ch]) t x cp"
  by (simp add: lexed_def lexing_def just_read_def)

definition made :: "int \<Rightarrow> int \<Rightarrow> int \<Rightarrow> ec_compiler \<Rightarrow> bool" where
  "made ident sub grp cp \<longleftrightarrow> (\<exists>tp. token cp = Some tp \<and> tokenId tp = ident \<and> subId tp = sub \<and> groupMask tp = grp)"

lemma next_char_end: "lexing d [] x cp \<Longrightarrow> next_char cp = Some (0, cp)"
  using getNextChar_end [of d "stream cp" "has_mem cp"] by (simp add: lexing_def next_char_def)

lemma next_char_end_step: "lexing d [] x cp \<Longrightarrow> Q (0, cp) \<Longrightarrow> returns (next_char cp) Q"
  by (simp add: next_char_end)

lemma next_char_step:
  assumes "lexing d (ch # t) x cp" "\<And>cp1. lexed d ch t x cp1 \<Longrightarrow> Q (signed_char ch, cp1)"
  shows "returns (next_char cp) Q"
proof -
  have "reading d (ch # t) (stream cp)" and r: "ready x cp" using assms(1) by (simp_all add: lexing_def)
  then obtain s1 where s: "getNextChar (has_mem cp) (stream cp) = Some (signed_char ch, s1)" "just_read d ch t s1" "sflags s1 = sflags (stream cp)"
    using getNextChar_char by blast
  with r have "lexed d ch t x (cp\<lparr>stream := s1\<rparr>)" by (simp add: lexed_def ready_def words_ok_def at_eol_def)
  with s(1) assms(2) show ?thesis by (simp add: next_char_def)
qed

lemma put_back_0: "put_back 0 cp = Some cp"
  by (simp add: put_back_def)

lemma put_back_step:
  assumes "lexed d ch t x cp" "ch \<noteq> NUL" "\<And>cp1. lexing d (ch # t) x cp1 \<Longrightarrow> Q cp1"
  shows "returns (put_back (signed_char ch) cp) Q"
proof -
  have "just_read d ch t (stream cp)" and r: "ready x cp" using assms(1) by (simp_all add: lexed_def)
  then obtain s1 where s: "putBackChar (signed_char ch) (stream cp) = Some s1" "reading d (ch # t) s1" "sflags s1 = sflags (stream cp)"
    using putBackChar_char assms(2) by blast
  with r have "lexing d (ch # t) x (cp\<lparr>stream := s1\<rparr>)" by (simp add: lexing_def ready_def words_ok_def at_eol_def)
  with s(1) assms(3) show ?thesis by (simp add: put_back_def)
qed

text \<open>Changing the current token.\<close>

lemma ready_token:
  "ready x cp \<Longrightarrow> token_ok tp \<Longrightarrow> token_text tp = y \<Longrightarrow> ready y (cp\<lparr>token := Some tp\<rparr>)"
  by (simp add: ready_def words_ok_def)

lemma on_token_char:
  assumes "ready x cp"
  shows "returns (on_token (addCharToToken (has_mem cp) (stream cp) c) cp) (\<lambda>(rc, cp1). rc = 0 \<and> stream cp1 = stream cp \<and> ready (x @ [to_char c]) cp1)"
proof -
  obtain tp where tp: "token cp = Some tp" "token_ok tp" "token_text tp = x" and m: "has_mem cp = (\<lambda>_. True)"
    using assms by (auto simp: ready_def)
  obtain tp1 where a: "addCharToToken (\<lambda>_. True) (stream cp) c tp = Some (0, tp1)" "token_ok tp1" "token_text tp1 = token_text tp @ [to_char c]"
    using addCharToToken_ok [OF tp(2)] by blast
  with tp m ready_token [OF assms a(2)] show ?thesis by (simp add: on_token_def)
qed

lemma add_char_ready:
  assumes "ready x cp"
  shows "returns (add_char c cp) (\<lambda>cp1. stream cp1 = stream cp \<and> ready (x @ [to_char c]) cp1)"
  using on_token_char [OF assms, of c] by (auto simp: add_char_def elim: returns_mono)

lemma add_char_step: "lexing d t x cp \<Longrightarrow> (\<And>cp1. lexing d t (x @ [to_char c]) cp1 \<Longrightarrow> Q cp1) \<Longrightarrow> returns (add_char c cp) Q"
  using add_char_ready [of x cp c] by (auto simp: lexing_def elim!: returns_mono)

lemma add_char_lexed: "lexed d ch t x cp \<Longrightarrow> (\<And>cp1. lexed d ch t (x @ [to_char c]) cp1 \<Longrightarrow> Q cp1) \<Longrightarrow> returns (add_char c cp) Q"
  using add_char_ready [of x cp c] by (auto simp: lexed_def elim!: returns_mono)

lemma addStringToToken_ok:
  "token_ok tp \<Longrightarrow> \<exists>tp1. addStringToToken (\<lambda>_. True) s str tp = Some (0, tp1) \<and> token_ok tp1 \<and> token_text tp1 = token_text tp @ str"
proof (induction str arbitrary: tp)
  case (Cons ch str)
  obtain tp1 where a: "addCharToToken (\<lambda>_. True) s (signed_char ch) tp = Some (0, tp1)" "token_ok tp1" "token_text tp1 = token_text tp @ [ch]"
    using addCharToToken_ok [OF Cons.prems, of s "signed_char ch"] by auto
  from Cons.IH [OF a(2)] a show ?case by auto
qed simp

lemma add_string_ready:
  assumes "ready x cp"
  shows "returns (add_string str cp) (\<lambda>cp1. stream cp1 = stream cp \<and> ready (x @ str) cp1)"
proof -
  obtain tp where tp: "token cp = Some tp" "token_ok tp" "token_text tp = x" and m: "has_mem cp = (\<lambda>_. True)"
    using assms by (auto simp: ready_def)
  obtain tp1 where a: "addStringToToken (\<lambda>_. True) (stream cp) str tp = Some (0, tp1)" "token_ok tp1" "token_text tp1 = token_text tp @ str"
    using addStringToToken_ok [OF tp(2)] by blast
  with tp m ready_token [OF assms a(2)] show ?thesis by (simp add: on_token_def add_string_def)
qed

lemma add_string_step: "lexing d t x cp \<Longrightarrow> (\<And>cp1. lexing d t (x @ str) cp1 \<Longrightarrow> Q cp1) \<Longrightarrow> returns (add_string str cp) Q"
  using add_string_ready [of x cp str] by (auto simp: lexing_def elim!: returns_mono)

lemma finish_step:
  assumes "lexing d t x cp" "\<And>cp1. lexing d t x cp1 \<Longrightarrow> made ident sub grp cp1 \<Longrightarrow> Q (ident, cp1)"
  shows "returns (finish ident sub grp cp) Q"
proof -
  obtain tp where tp: "token cp = Some tp" "token_ok tp" "token_text tp = x" and r: "reading d t (stream cp)" "ready x cp"
    using assms(1) by (auto simp: lexing_def ready_def)
  let ?tp = "snd (finalizeToken (stream cp) (setTokenID ident sub grp tp))"
  have "lexing d t x (cp\<lparr>token := Some ?tp\<rparr>)" "made ident sub grp (cp\<lparr>token := Some ?tp\<rparr>)"
    using tp r finalizeToken_ok [of "stream cp" ident sub grp tp] ready_token [OF r(2), of ?tp x] by (simp_all add: lexing_def made_def)
  with assms(2) tp(1) finalizeToken_ok [of "stream cp" ident sub grp tp] show ?thesis
    unfolding finish_def on_token_def by (metis bind.bind_lunit case_prod_conv returns_Some)
qed

lemma makeToken_step:
  assumes "lexing d t x cp" "\<And>cp1. lexing d t (if c = 0 then x else x @ [to_char c]) cp1 \<Longrightarrow> made ident (-1) grp cp1 \<Longrightarrow> Q (ident, cp1)"
  shows "returns (makeToken c ident grp cp) Q"
proof (cases "c = 0")
  case True
  with assms show ?thesis by (auto simp: makeToken_def intro: finish_step)
next
  case False
  have "ready x cp" using assms(1) by (simp add: lexing_def)
  from on_token_char [OF this, of c] assms False show ?thesis
    by (auto simp: makeToken_def lexing_def elim!: returns_mono intro!: finish_step)
qed

lemma makeSubToken_step:
  assumes "lexing d t x cp" "\<And>cp1. lexing d t (x @ [to_char c]) cp1 \<Longrightarrow> made ident sub grp cp1 \<Longrightarrow> Q (ident, cp1)"
  shows "returns (makeSubToken c ident sub grp cp) Q"
proof -
  have "ready x cp" using assms(1) by (simp add: lexing_def)
  from on_token_char [OF this, of c] assms show ?thesis
    by (auto simp: makeSubToken_def lexing_def elim!: returns_mono intro!: finish_step)
qed

lemma init_token_step:
  assumes "lexing d t x cp" "\<And>cp1. lexing d t [] cp1 \<Longrightarrow> Q cp1"
  shows "returns (init_token cp) Q"
proof -
  obtain tp where tp: "token cp = Some tp" "token_ok tp" and r: "reading d t (stream cp)" "ready x cp" "has_mem cp = (\<lambda>_. True)"
    using assms(1) by (auto simp: lexing_def ready_def)
  obtain tp1 where i: "initializeToken (\<lambda>_. True) (stream cp) tp = (0, tp1)" "token_ok tp1" "token_text tp1 = []"
    using initializeToken_ok [of tp "stream cp"] tp(2) by (metis prod.collapse prod.inject)
  then have "lexing d t [] (cp\<lparr>token := Some tp1\<rparr>)" using r ready_token [OF r(2) i(2,3)] by (simp add: lexing_def)
  with assms(2) tp(1) r(3) i(1) show ?thesis by (simp add: init_token_def on_token_def)
qed

lemma keep_doc_step:
  assumes "lexing d t x cp" "\<And>cp1. lexing d t x cp1 \<Longrightarrow> Q cp1"
  shows "returns (keep_doc cp) Q"
proof -
  obtain tp b where tp: "token cp = Some tp" "ttext tp = Some b" "int (length b) = tsize tp" "0 \<le> tlength tp" "tlength tp < tsize tp" "NUL \<in> set b"
    using assms(1) by (auto simp: lexing_def ready_def token_ok_def)
  have k: "lexing d t x (cp\<lparr>docToken := z\<rparr>)" for z using assms(1) by (simp add: lexing_def ready_def words_ok_def)
  have b0: "mem_read b 0 = Some (b ! 0)" using tp by (simp add: mem_read_def)
  have b1: "\<exists>y. mem_read b 1 = Some y" if "b ! 0 \<noteq> NUL"
  proof -
    have "length b \<noteq> 1" using that tp(6) by (auto simp: length_Suc_conv)
    then show ?thesis using tp(3-5) by (auto simp: mem_read_def)
  qed
  have bl: "\<exists>y. mem_read_block b 0 (tlength tp) = Some y" using tp by (auto simp: mem_read_block_def)
  show ?thesis
  proof (cases "doc cp \<and> b ! 0 = CHR ''*''")
    case True
    then obtain y where y: "mem_read b 1 = Some y" using b1 by auto
    from True y tp(1,2) b0 bl k assms(1) show ?thesis by (auto simp: keep_doc_def intro!: assms(2))
  qed (use tp(1,2) b0 assms(1) in \<open>auto simp: keep_doc_def intro!: assms(2)\<close>)
qed

text \<open>Reading the next character, whatever is left.\<close>

lemma next_char_cases:
  assumes "lexing d t x cp" "t = [] \<Longrightarrow> Q (0, cp)" "\<And>ch t1 cp1. t = ch # t1 \<Longrightarrow> lexed d ch t1 x cp1 \<Longrightarrow> Q (signed_char ch, cp1)"
  shows "returns (next_char cp) Q"
  using assms by (cases t) (auto intro: next_char_step next_char_end_step)

lemma add_and_next_cases:
  assumes "lexing d t x cp" "\<And>cp1. t = [] \<Longrightarrow> lexing d t (x @ [to_char c]) cp1 \<Longrightarrow> Q (0, cp1)"
    "\<And>ch t1 cp1. t = ch # t1 \<Longrightarrow> lexed d ch t1 (x @ [to_char c]) cp1 \<Longrightarrow> Q (signed_char ch, cp1)"
  shows "returns (add_and_next c cp) Q"
  unfolding add_and_next_def returns_bind by (rule add_char_step [OF assms(1)]) (rule next_char_cases, assumption, auto intro: assms)

section \<open>Reserved words\<close>

lemma strlen_Some: "NUL \<in> set t \<Longrightarrow> strlen t = Some (int (length (c_str t))) \<and> take (length (c_str t)) t = c_str t"
proof -
  assume n: "NUL \<in> set t"
  have "c_str t \<noteq> t" using n by (auto simp: c_str_def takeWhile_eq_all_conv)
  moreover have tk: "take (length (c_str t)) t = c_str t" by (metis c_str_def takeWhile_eq_take)
  moreover have "length (c_str t) \<le> length t" by (simp add: c_str_def length_takeWhile_le)
  ultimately have "length (c_str t) < length t" by (metis le_neq_implies_less take_all_iff order_refl)
  with tk show ?thesis by (simp add: strlen_def Let_def)
qed

lemma c_string_c_str [simp]: "c_string (c_str t)"
  by (auto simp: c_string_def c_str_def dest: set_takeWhileD)

lemma c_str_text:
  assumes "token_ok tp" "ttext tp = Some t" "c_string (token_text tp)" "token_text tp \<noteq> []"
  shows "c_str t = token_text tp"
proof -
  let ?n = "nat (tlength tp)"
  have n: "?n < length t" "t ! ?n = NUL" "token_text tp = take ?n t"
    using assms(1,2,4) by (auto simp: token_ok_def token_text_def)
  then have "t = token_text tp @ NUL # drop (Suc ?n) t" by (metis id_take_nth_drop)
  moreover have "c_str (token_text tp @ NUL # drop (Suc ?n) t) = token_text tp"
    using assms(3) by (auto simp: c_str_def c_string_def takeWhile_append takeWhile_eq_all_conv)
  ultimately show ?thesis by simp
qed

lemma lookup_keyword_step:
  assumes l: "lexing d t x cp"
    and Q: "\<And>name cp1. lexing d t x cp1 \<Longrightarrow> (c_string x \<and> x \<noteq> [] \<longrightarrow> name = x) \<Longrightarrow> Q (map_of keywords_table name, cp1)"
  shows "returns (lookup_keyword cp) Q"
proof -
  obtain tp b where tp: "token cp = Some tp" "token_ok tp" "token_text tp = x" "ttext tp = Some b" "NUL \<in> set b" and m: "has_mem cp = (\<lambda>_. True)"
    using l by (auto simp: lexing_def ready_def token_ok_def)
  obtain h where h: "keyword_hash cp = Some h" "plain_table h" "table_view h = map_of keywords_table"
    using l by (auto simp: lexing_def ready_def words_ok_def)
  obtain h1 where h1: "mprLookupKey (\<lambda>_. True) h (c_str b) = Some (map_of keywords_table (c_str b), h1)" "plain_table h1" "table_view h1 = map_of keywords_table"
    using plain.lookup_law [OF h(2), of "c_str b"] h(3) by auto
  have "lexing d t x (cp\<lparr>keyword_hash := Some h1\<rparr>)"
    using l h1(2,3) by (auto simp: lexing_def ready_def words_ok_def)
  then have "Q (map_of keywords_table (c_str b), cp\<lparr>keyword_hash := Some h1\<rparr>)" using tp c_str_text [OF tp(2,4)] by (intro Q) auto
  with tp h h1(1) m strlen_Some [OF tp(5)] show ?thesis by (simp add: lookup_keyword_def token_string_def)
qed

lemma add_keywords_ok:
  "plain_table h \<Longrightarrow> (\<And>k. k \<in> fst ` set ws \<Longrightarrow> c_string k) \<Longrightarrow> distinct (List.map fst ws)
   \<Longrightarrow> \<exists>h1. add_keywords (\<lambda>_. True) ws h = Some h1 \<and> plain_table h1 \<and> table_view h1 = table_view h ++ map_of ws"
proof (induction ws arbitrary: h)
  case (Cons w ws)
  obtain name rp where w: "w = (name, rp)" by (cases w)
  obtain x h1 where a: "mprAddKey (\<lambda>_. True) h name (Some rp) = Some (x, h1)" "plain_table h1" "table_view h1 = (table_view h)(name \<mapsto> rp)"
    using plain.add_law [OF Cons.prems(1), of name rp] Cons.prems(2) w by auto
  obtain h2 where b: "add_keywords (\<lambda>_. True) ws h1 = Some h2" "plain_table h2" "table_view h2 = table_view h1 ++ map_of ws"
    using Cons.IH [OF a(2)] Cons.prems(2,3) by auto
  have "name \<notin> dom (map_of ws)" using Cons.prems(3) w by (simp add: dom_map_of_conv_image_fst)
  then have "(table_view h)(name \<mapsto> rp) ++ map_of ws = table_view h ++ (map_of ws)(name \<mapsto> rp)"
    by (auto simp: fun_eq_iff map_add_def dom_def split: option.splits)
  with b(3) a(3) w have "table_view h2 = table_view h ++ map_of (w # ws)" by simp
  moreover have "add_keywords (\<lambda>_. True) (w # ws) h = Some h2" using a(1) b(1) w by simp
  ultimately show ?case using b(2) by blast
qed simp

lemma words_distinct: "distinct (List.map fst keywords_table)" "k \<in> fst ` set keywords_table \<Longrightarrow> c_string k"
  by (auto simp: keywords_table_def reserved_words_def c_string_def)

text \<open>The lexer is initialised with the table of all reserved words.\<close>

lemma ecInitLexer_ok:
  assumes "has_mem cp = (\<lambda>_. True)"
  shows "\<exists>h. ecInitLexer cp = Some (cp\<lparr>keyword_hash := Some h\<rparr>) \<and> plain_table h \<and> table_view h = map_of keywords_table"
proof -
  let ?fl = "MPR_HASH_UNICODE OR MPR_HASH_STATIC_KEYS OR MPR_HASH_STATIC_VALUES" and ?n = "int (length keywords_table) + 1"
  have fl: "?fl = 0xE0" by (simp add: MPR_HASH_UNICODE_def MPR_HASH_STATIC_KEYS_def MPR_HASH_STATIC_VALUES_def)
  have "\<exists>h :: reserved_word mpr_hash. mprCreateHash (\<lambda>_. True) ?n ?fl = Some h \<and> plain_table h \<and> table_view h = Map.empty"
    using mprCreateHash_ok [of "\<lambda>_. True" ?n ?fl]
    by (force simp: fl plain_table_def table_view_def caseless_def MPR_OBJ_HASH_def MPR_HASH_CASELESS_def MPR_HASH_UNIQUE_def fun_eq_iff)
  then obtain h :: "reserved_word mpr_hash" where h: "mprCreateHash (\<lambda>_. True) ?n ?fl = Some h" "plain_table h" "table_view h = Map.empty" by blast
  from add_keywords_ok [OF h(2) words_distinct(2) words_distinct(1)] h(1,3) assms show ?thesis
    by (auto simp: ecInitLexer_def Let_def)
qed

section \<open>Digits\<close>

lemma hex_digits_Some: "0 \<le> v \<Longrightarrow> v < 16 ^ k \<Longrightarrow> k + length ds \<le> 15 \<Longrightarrow> \<exists>r. hex_digits ds v = Some r"
proof (induction ds arbitrary: v k)
  case (Cons c ds)
  have w: "\<exists>r. hex_digits ds w = Some r" if "0 \<le> w" "w < v * 16 + 16" for w
  proof -
    have "w < 16 ^ Suc k" using that(2) Cons.prems(2) by simp
    then show ?thesis using that(1) Cons.prems(3) by (intro Cons.IH [of w "Suc k"]) simp_all
  qed
  have "(16 :: int) ^ Suc k \<le> 16 ^ 15" using Cons.prems(3) by (intro power_increasing) simp_all
  then have "v * 16 < 16 ^ 15" using Cons.prems(2) by simp
  then have "check_int64 (v * 16 + x) = Some (v * 16 + x)" if "0 \<le> x" "x \<le> 102" for x
    using that Cons.prems(1) by (simp add: check_int64_def in_int64_def)
  then show ?case using w [of "v * 16 + tolower c - 48"] w [of "v * 16 + tolower c - 97 + 10"] Cons.prems(1) by (auto simp: Let_def algebra_simps)
qed simp

lemma dec_digits_Some: "0 \<le> v \<Longrightarrow> v < 16 ^ k \<Longrightarrow> r \<le> 16 \<Longrightarrow> k + length ds \<le> 15 \<Longrightarrow> \<exists>p. dec_digits r ds v = Some p"
proof (induction ds arbitrary: v k)
  case (Cons c ds)
  have small: "check_int64 w = Some w \<and> (\<exists>p. dec_digits r ds w = Some p)" if "0 \<le> w" "w < v * 16 + 16" for w
  proof -
    have "w < 16 ^ Suc k" using that(2) Cons.prems(2) by simp
    moreover have "(16 :: int) ^ Suc k \<le> 16 ^ 15" using Cons.prems(4) by (intro power_increasing) simp_all
    ultimately have "w < 2 ^ 63" by simp
    with that(1) have "check_int64 w = Some w" by (simp add: check_int64_def in_int64_def)
    moreover have "\<exists>p. dec_digits r ds w = Some p" using that(1) \<open>w < 16 ^ Suc k\<close> Cons.prems(3,4) by (intro Cons.IH [of w "Suc k"]) simp_all
    ultimately show ?thesis ..
  qed
  show ?case
  proof (cases "isdigit c \<and> char_code c - 48 < r")
    case True
    then have n: "0 \<le> char_code c - 48" "0 \<le> r" by (simp_all add: isdigit_def)
    have "v * r \<le> v * 16" using Cons.prems(1,3) by (intro mult_left_mono) simp_all
    moreover have "0 \<le> v * r" using Cons.prems(1) n by simp
    ultimately have "0 \<le> v * r + (char_code c - 48)" "v * r + (char_code c - 48) < v * 16 + 16" using n True Cons.prems(3) by linarith+
    from small [OF this] True show ?thesis by (auto simp: Let_def)
  qed (auto simp: Let_def)
qed simp

lemma stoiradix_Some:
  assumes "length ds \<le> 15" "r = 8 \<or> r = 16"
  shows "\<exists>p. stoiradix ds r = Some p"
proof -
  define start where "start = (let s = dropWhile isspace ds in if s \<noteq> [] \<and> hd s = CHR ''-'' then tl s else s)"
  have l: "length start \<le> 15" using assms(1) length_dropWhile_le [of isspace ds] by (auto simp: start_def Let_def)
  obtain r1 s1 where p: "radix_prefix start r = (r1, s1)" by (cases "radix_prefix start r")
  have r1: "r1 = r" "length s1 \<le> 15" using p assms(2) l by (auto simp: radix_prefix_def split: if_splits)
  have "\<exists>q. (if r1 = 16 then hex_digits s1 0 else dec_digits r1 s1 0) = Some q"
    using hex_digits_Some [of 0 0 s1] dec_digits_Some [of 0 0 r1 s1] r1 assms(2) by auto
  then obtain v rest where q: "(if r1 = 16 then hex_digits s1 0 else dec_digits r1 s1 0) = Some (v, rest)" by force
  show ?thesis using p q unfolding stoiradix_def start_def Let_def by (auto split: if_splits)
qed

end
