(* ===== verification/LexSafety.thy ===== *)
theory LexSafety
  imports LexRun
begin

text \<open>
  The lexer on arbitrary sources: every function returns, no access leaves a block, no assertion fails, and characters are used
  up. \<open>at_most full n\<close> holds in the states that read the source \<open>full\<close> and have at most \<open>n\<close> characters left; \<open>got full n c\<close> when
  \<open>c\<close> has just been read with at most \<open>n\<close> characters left before.
\<close>

section \<open>States on a source\<close>

definition at_most :: "string \<Rightarrow> nat \<Rightarrow> ec_compiler \<Rightarrow> bool" where
  "at_most full n cp \<longleftrightarrow> (\<exists>d t x. full = d @ t \<and> length t \<le> n \<and> lexing d t x cp)"

definition got :: "string \<Rightarrow> nat \<Rightarrow> int \<Rightarrow> ec_compiler \<Rightarrow> bool" where
  "got full n c cp \<longleftrightarrow> (c = 0 \<and> at_most full 0 cp)
     \<or> (\<exists>d ch t x. full = d @ ch # t \<and> length t < n \<and> c = signed_char ch \<and> lexed d ch t x cp)"

lemma at_mostI: "lexing d t x cp \<Longrightarrow> full = d @ t \<Longrightarrow> length t \<le> n \<Longrightarrow> at_most full n cp"
  unfolding at_most_def by blast

lemma at_mostE: "at_most full n cp \<Longrightarrow> (\<And>d t x. full = d @ t \<Longrightarrow> length t \<le> n \<Longrightarrow> lexing d t x cp \<Longrightarrow> R) \<Longrightarrow> R"
  unfolding at_most_def by blast

lemma gotI: "lexed d ch t x cp \<Longrightarrow> full = d @ ch # t \<Longrightarrow> length t < n \<Longrightarrow> got full n (signed_char ch) cp"
  unfolding got_def by blast

lemma got_0: "at_most full 0 cp \<Longrightarrow> got full n 0 cp"
  unfolding got_def by blast

lemma gotE:
  assumes "got full n c cp"
  obtains "c = 0" "at_most full 0 cp"
    | d ch t x where "full = d @ ch # t" "length t < n" "c = signed_char ch" "lexed d ch t x cp"
  using assms unfolding got_def by blast

lemma at_most_mono: "at_most full m cp \<Longrightarrow> m \<le> n \<Longrightarrow> at_most full n cp"
  by (elim at_mostE) (rule at_mostI, assumption+, rule le_trans)

lemma got_mono: "got full m c cp \<Longrightarrow> m \<le> n \<Longrightarrow> got full n c cp"
  by (elim gotE) (simp_all add: got_0 gotI)

lemma got_at_most: "got full n c cp \<Longrightarrow> at_most full (n - 1) cp"
proof (elim gotE)
  fix d ch t x
  assume "full = d @ ch # t" "length t < n" "lexed d ch t x cp"
  then show ?thesis by (intro at_mostI [OF lexed_lexing]) auto
qed (auto intro: at_most_mono)

lemma got_less: "got full n c cp \<Longrightarrow> c \<noteq> 0 \<Longrightarrow> \<exists>m < n. at_most full m cp \<and> got full (Suc m) c cp"
proof (elim gotE)
  fix d ch t x
  assume 1: "full = d @ ch # t" "length t < n" "c = signed_char ch" "lexed d ch t x cp"
  have "at_most full (length t) cp" by (rule at_mostI [OF lexed_lexing [OF 1(4)]]) (simp_all add: 1(1))
  moreover have "got full (Suc (length t)) c cp" unfolding 1(3) by (rule gotI [OF 1(4,1)]) simp
  ultimately show ?thesis using 1(2) by blast
qed simp

lemma next_char_total:
  assumes "at_most full n cp" "\<And>c cp1. got full n c cp1 \<Longrightarrow> Q (c, cp1)"
  shows "returns (next_char cp) Q"
  using assms(1)
proof (rule at_mostE)
  fix d t x
  assume 1: "full = d @ t" "length t \<le> n" "lexing d t x cp"
  show ?thesis
  proof (rule next_char_cases [OF 1(3)])
    assume "t = []"
    then show "Q (0, cp)" using at_mostI [OF 1(3,1), of 0] by (intro assms(2) got_0) simp
  next
    fix ch t1 cp1
    assume 2: "t = ch # t1" "lexed d ch t1 x cp1"
    show "Q (signed_char ch, cp1)" using 1(1,2) 2(1) by (intro assms(2) gotI [OF 2(2)]) simp_all
  qed
qed

lemma put_back_total:
  assumes "got full n c cp" "\<And>cp1. at_most full n cp1 \<Longrightarrow> Q cp1"
  shows "returns (put_back c cp) Q"
proof (cases "c = 0")
  case True
  have "at_most full n cp" using got_at_most [OF assms(1)] by (rule at_most_mono) simp
  with True assms(2) show ?thesis by (simp add: put_back_0)
next
  case False
  with assms(1) show ?thesis
  proof (elim gotE)
    fix d ch t x
    assume 1: "full = d @ ch # t" "length t < n" "c = signed_char ch" "lexed d ch t x cp"
    have "at_most full n cp1" if "lexing d (ch # t) x cp1" for cp1 using 1(1,2) by (intro at_mostI [OF that]) simp_all
    with put_back_step [OF 1(4)] assms(2) False 1(3) show ?thesis by simp
  qed simp
qed

lemma add_char_at_most: "at_most full n cp \<Longrightarrow> (\<And>cp1. at_most full n cp1 \<Longrightarrow> Q cp1) \<Longrightarrow> returns (add_char c cp) Q"
  by (erule at_mostE) (rule add_char_step, assumption, blast intro: at_mostI)

lemma add_char_got:
  assumes "got full n e cp" "\<And>cp1. got full n e cp1 \<Longrightarrow> Q cp1"
  shows "returns (add_char c cp) Q"
  using assms(1)
proof (rule gotE)
  assume "e = 0" "at_most full 0 cp"
  then show ?thesis using assms(2) by (intro add_char_at_most [of full 0]) (simp_all add: got_0)
next
  fix d ch t x
  assume 1: "full = d @ ch # t" "length t < n" "e = signed_char ch" "lexed d ch t x cp"
  show ?thesis by (rule add_char_lexed [OF 1(4)], rule assms(2), unfold 1(3), rule gotI [OF _ 1(1,2)])
qed

lemma add_string_total: "at_most full n cp \<Longrightarrow> (\<And>cp1. at_most full n cp1 \<Longrightarrow> Q cp1) \<Longrightarrow> returns (add_string str cp) Q"
  by (erule at_mostE) (rule add_string_step, assumption, blast intro: at_mostI)

lemma init_token_total: "at_most full n cp \<Longrightarrow> (\<And>cp1. at_most full n cp1 \<Longrightarrow> Q cp1) \<Longrightarrow> returns (init_token cp) Q"
  by (erule at_mostE) (rule init_token_step, assumption, blast intro: at_mostI)

text \<open>A finished token: its number is the result.\<close>

definition token_made :: "string \<Rightarrow> nat \<Rightarrow> int \<times> ec_compiler \<Rightarrow> bool" where
  "token_made full n r \<longleftrightarrow> (case r of (ident, cp) \<Rightarrow> at_most full n cp \<and> ident > 0 \<and> (\<exists>sub grp. made ident sub grp cp))"

lemma token_made_mono: "token_made full m r \<Longrightarrow> m \<le> n \<Longrightarrow> token_made full n r"
  by (auto simp: token_made_def intro: at_most_mono split: prod.splits)

lemma finish_total: "at_most full n cp \<Longrightarrow> 0 < ident \<Longrightarrow> returns (finish ident sub grp cp) (token_made full n)"
  by (erule at_mostE) (rule finish_step, assumption, unfold token_made_def, blast intro: at_mostI)

lemma makeToken_total: "at_most full n cp \<Longrightarrow> 0 < ident \<Longrightarrow> returns (makeToken c ident grp cp) (token_made full n)"
  by (erule at_mostE) (rule makeToken_step, assumption, unfold token_made_def, blast intro: at_mostI)

lemma makeSubToken_total: "at_most full n cp \<Longrightarrow> 0 < ident \<Longrightarrow> returns (makeSubToken c ident sub grp cp) (token_made full n)"
  by (erule at_mostE) (rule makeSubToken_step, assumption, unfold token_made_def, blast intro: at_mostI)

lemma add_and_next_total: "at_most full n cp \<Longrightarrow> (\<And>c1 cp1. got full n c1 cp1 \<Longrightarrow> Q (c1, cp1)) \<Longrightarrow> returns (add_and_next c cp) Q"
  by (auto simp: add_and_next_def intro!: add_char_at_most next_char_total)

lemma keep_doc_total: "at_most full n cp \<Longrightarrow> (\<And>cp1. at_most full n cp1 \<Longrightarrow> Q cp1) \<Longrightarrow> returns (keep_doc cp) Q"
  by (erule at_mostE) (rule keep_doc_step, assumption, blast intro: at_mostI)

section \<open>Numbers\<close>

text \<open>
  \<^verbatim>\<open>isxdigit\<close> is undefined for negative characters: sources in which such a character comes right behind a hexadecimal digit or
  an \<open>x\<close> are excluded, but for \<open>0xFF\<close>, which is \<^verbatim>\<open>EOF\<close>.
\<close>

definition hex_char :: "char \<Rightarrow> bool" where
  "hex_char ch \<longleftrightarrow> isdigit ch \<or> (97 \<le> tolower ch \<and> tolower ch \<le> 102) \<or> tolower ch = 120"

fun hex_safe :: "string \<Rightarrow> bool" where
  "hex_safe (a # b # s) \<longleftrightarrow> (hex_char a \<longrightarrow> -1 \<le> signed_char b) \<and> hex_safe (b # s)"
| "hex_safe _ \<longleftrightarrow> True"

lemma hex_safe_at: "hex_safe (d @ a # b # t) \<Longrightarrow> hex_char a \<Longrightarrow> -1 \<le> signed_char b"
proof (induction d)
  case (Cons c d)
  then show ?case by (cases d) simp_all
qed simp

lemma not_digit_0 [simp]: "\<not> uisdigit 0" "\<not> is_octal 0" "isxdigit 0 = Some False" "\<not> name_char 0" "utolower 0 = 0"
  by (simp_all add: uisdigit_def is_octal_def isxdigit_def name_char_def uisalpha_def utolower_def to_char_def isdigit_def tolower_def char_code_def)

lemma add_while_total:
  assumes "got full n c cp" "\<And>c. P c \<noteq> None" "P 0 = Some False"
  shows "returns (add_while P c cp) (\<lambda>(c1, cp1). got full n c1 cp1)"
  using assms(1)
proof (induction n arbitrary: c cp rule: less_induct)
  case (less n)
  obtain b where b: "P c = Some b" using assms(2) by blast
  show ?case
  proof (cases b)
    case True
    then have "c \<noteq> 0" using b assms(3) by auto
    then obtain m where m: "m < n" "at_most full m cp" using got_less [OF less.prems] by blast
    show ?thesis
      by (subst add_while.simps) (use b True m in \<open>auto intro!: add_char_at_most [OF m(2)] next_char_total elim!: returns_mono [OF less.IH] got_mono [OF _ less_imp_le [OF m(1)]]\<close>)
  next
    case False
    then show ?thesis by (subst add_while.simps) (simp add: b less.prems)
  qed
qed

lemma add_while_digits:
  "got full n c cp \<Longrightarrow> (\<And>c1 cp1. got full n c1 cp1 \<Longrightarrow> Q (c1, cp1)) \<Longrightarrow> returns (add_while (\<lambda>c. Some (uisdigit c)) c cp) Q"
  "got full n c cp \<Longrightarrow> (\<And>c1 cp1. got full n c1 cp1 \<Longrightarrow> Q (c1, cp1)) \<Longrightarrow> returns (add_while (\<lambda>c. Some (is_octal c)) c cp) Q"
  by (rule returns_pair [OF add_while_total]; auto)+

lemma hex_char_digit: "isxdigit (signed_char ch) = Some True \<Longrightarrow> hex_char ch"
  by (auto simp: isxdigit_def hex_char_def uisdigit_def utolower_def char_code_def split: if_splits)

lemma add_while_hex:
  assumes "hex_safe (d @ ch # t)" "lexed d ch t x cp" "-1 \<le> signed_char ch"
  shows "returns (add_while isxdigit (signed_char ch) cp) (\<lambda>(c1, cp1). got (d @ ch # t) (Suc (length t)) c1 cp1)"
  using assms
proof (induction t arbitrary: d ch x cp)
  case Nil
  obtain b where b: "isxdigit (signed_char ch) = Some b" using Nil.prems(3) by (simp add: isxdigit_def)
  have g: "got (d @ [ch]) 1 (signed_char ch) cp" by (rule gotI [OF Nil.prems(2)]) simp_all
  have a: "at_most (d @ [ch]) 0 cp" by (rule at_mostI [OF lexed_lexing [OF Nil.prems(2)]]) simp_all
  have e: "add_while isxdigit 0 cp1 = Some (0, cp1)" for cp1 by (subst add_while.simps) simp
  have "got (d @ [ch]) 1 c1 cp1 \<Longrightarrow> c1 = 0 \<or> True" for c1 cp1 by simp
  show ?case
  proof (cases b)
    case True
    show ?thesis
      by (subst add_while.simps, simp add: b True, rule add_char_step [OF lexed_lexing [OF Nil.prems(2)]],
          rule next_char_end_step, assumption, simp add: e, rule got_0, rule at_mostI) simp_all
  next
    case False
    with g show ?thesis by (subst add_while.simps) (simp add: b)
  qed
next
  case (Cons e t)
  obtain b where b: "isxdigit (signed_char ch) = Some b" using Cons.prems(3) by (simp add: isxdigit_def)
  have g: "got (d @ ch # e # t) (Suc (length (e # t))) (signed_char ch) cp" by (rule gotI [OF Cons.prems(2)]) simp_all
  show ?case
  proof (cases b)
    case True
    then have "-1 \<le> signed_char e" using hex_char_digit [of ch] b hex_safe_at [OF Cons.prems(1)] by simp
    then have IH: "returns (add_while isxdigit (signed_char e) cp1) (\<lambda>(c1, cp1). got (d @ ch # e # t) (Suc (length t)) c1 cp1)"
      if "lexed (d @ [ch]) e t y cp1" for y cp1 using Cons.IH [of "d @ [ch]" e y cp1] Cons.prems(1) that by simp
    show ?thesis
      by (subst add_while.simps, simp add: b True, rule add_char_step [OF lexed_lexing [OF Cons.prems(2)]],
          rule next_char_step, assumption, simp, rule returns_pair [OF IH], assumption, auto elim: got_mono)
  next
    case False
    with g show ?thesis by (subst add_while.simps) (simp add: b)
  qed
qed

lemma number_token_total: "got full n c cp \<Longrightarrow> returns (number_token c cp) (token_made full n)"
  by (auto simp: number_token_def intro!: put_back_total finish_total)

lemma add_next_got: "got full n e cp \<Longrightarrow> (\<And>c1 cp1. got full n c1 cp1 \<Longrightarrow> Q (c1, cp1)) \<Longrightarrow> returns (add_and_next c cp) Q"
  by (rule add_and_next_total [OF got_at_most], assumption) (auto intro: got_mono [OF _ diff_le_self])

lemma got_le: "got full n c cp \<Longrightarrow> at_most full n cp"
  by (rule at_most_mono [OF got_at_most, of full n c cp]) auto

lemma float_exponent_total: "got full n c cp \<Longrightarrow> (\<And>c1 cp1. got full n c1 cp1 \<Longrightarrow> Q (c1, cp1)) \<Longrightarrow> returns (float_exponent c cp) Q"
  unfolding float_exponent_def by (auto intro!: add_next_got add_while_digits)

lemma float_fraction_total: "got full n c cp \<Longrightarrow> (\<And>c1 cp1. got full n c1 cp1 \<Longrightarrow> Q (c1, cp1)) \<Longrightarrow> returns (float_fraction c cp) Q"
  unfolding float_fraction_def by (auto intro!: add_next_got add_while_digits)

lemma float_fraction_dot: "at_most full n cp \<Longrightarrow> (\<And>c1 cp1. got full n c1 cp1 \<Longrightarrow> Q (c1, cp1)) \<Longrightarrow> returns (float_fraction (ord CHR ''.'') cp) Q"
  unfolding float_fraction_def by (auto intro!: add_and_next_total add_while_digits)

lemma lexed_char: "got full n c cp \<Longrightarrow> c \<noteq> 0 \<Longrightarrow> \<exists>d ch t x. full = d @ ch # t \<and> length t < n \<and> c = signed_char ch \<and> lexed d ch t x cp"
  by (elim gotE) auto

lemma utolower_signed [simp]: "utolower (signed_char ch) = tolower ch"
  by (simp add: utolower_def)

lemma hex_token_total:
  assumes "hex_safe full" "got full n c cp" "utolower c = ord CHR ''x''"
  shows "returns (add_char (ord CHR ''0'') cp) (\<lambda>cp2. returns (add_and_next c cp2) (\<lambda>(c2, cp3). returns (add_while isxdigit c2 cp3)
     (\<lambda>(c3, cp4). returns (number_token c3 cp4) (token_made full n))))"
proof -
  have "c \<noteq> 0" using assms(3) by (auto simp: char_code_def)
  then obtain d ch t x where 1: "full = d @ ch # t" "length t < n" "c = signed_char ch" "lexed d ch t x cp" using lexed_char [OF assms(2)] by blast
  have h: "hex_char ch" using assms(3) 1(3) by (simp add: hex_char_def char_code_def)
  show ?thesis
  proof (rule add_char_step [OF lexed_lexing [OF 1(4)]], rule add_and_next_cases, assumption)
    fix cp1
    assume t: "t = []" and l: "lexing (d @ [ch]) t ((x @ [to_char (ord CHR ''0'')]) @ [to_char c]) cp1"
    have "at_most full 0 cp1" by (rule at_mostI [OF l]) (simp_all add: 1(1) t)
    then have "returns (number_token 0 cp1) (token_made full n)" by (intro number_token_total got_0)
    moreover have "add_while isxdigit 0 cp1 = Some (0, cp1)" by (subst add_while.simps) simp
    ultimately show "case (0, cp1) of (c2, cp3) \<Rightarrow> returns (add_while isxdigit c2 cp3) (\<lambda>(c3, cp4). returns (number_token c3 cp4) (token_made full n))" by simp
  next
    fix e t1 cp1
    assume t: "t = e # t1" and l: "lexed (d @ [ch]) e t1 ((x @ [to_char (ord CHR ''0'')]) @ [to_char c]) cp1"
    have "-1 \<le> signed_char e" using hex_safe_at [OF _ h] assms(1) 1(1) t by blast
    with add_while_hex [of "d @ [ch]" e t1 _ cp1] l assms(1) 1(1) t
    have "returns (add_while isxdigit (signed_char e) cp1) (\<lambda>(c1, cp1). got full (Suc (length t1)) c1 cp1)" by auto
    then have "returns (add_while isxdigit (signed_char e) cp1) (\<lambda>(c3, cp4). returns (number_token c3 cp4) (token_made full n))"
      by (rule returns_pair) (use 1(2) t in \<open>auto intro!: number_token_total elim: got_mono\<close>)
    then show "case (signed_char e, cp1) of (c2, cp3) \<Rightarrow> returns (add_while isxdigit c2 cp3) (\<lambda>(c3, cp4). returns (number_token c3 cp4) (token_made full n))" by simp
  qed
qed

text \<open>A number that starts with a character that cannot be put back any more.\<close>

lemma float_token_started:
  assumes "at_most full n cp" "uisdigit c \<or> c = ord CHR ''.''"
  shows "returns (float_token c cp) (token_made full n)"
proof -
  have "returns (add_while (\<lambda>c. Some (uisdigit c)) c cp) (\<lambda>(c1, cp1). got full n c1 cp1 \<or> (c1 = ord CHR ''.'' \<and> at_most full n cp1))"
  proof (cases "uisdigit c")
    case True
    then show ?thesis
      by (subst add_while.simps) (auto intro!: add_char_at_most [OF assms(1)] next_char_total add_while_digits)
  next
    case False
    then show ?thesis using assms by (subst add_while.simps) auto
  qed
  then show ?thesis
    unfolding float_token_def returns_bind
    apply (rule returns_pair)
    apply (unfold prod.case, elim disjE conjE)
    subgoal by (auto intro!: float_fraction_total float_exponent_total number_token_total)
    subgoal by (auto intro!: float_fraction_dot float_exponent_total number_token_total)
    done
qed

lemma makeNumberToken_started:
  assumes "at_most full n cp"
  shows "returns (makeNumberToken (ord CHR ''.'') cp) (token_made full n)"
  using float_token_started [OF assms, of "ord CHR ''.''"] by (simp add: makeNumberToken_def char_code_def)

lemma makeNumberToken_total:
  assumes "hex_safe full" "at_most full n cp" "uisdigit c"
  shows "returns (makeNumberToken c cp) (token_made full n)"
proof (cases "c = ord CHR ''0''")
  case True
  have z: "uisdigit (ord CHR ''0'')" by (simp add: uisdigit_def to_char_def isdigit_def char_code_def)
  show ?thesis
    unfolding makeNumberToken_def if_P [OF True] returns_bind
  proof (rule next_char_total [OF assms(2)], unfold prod.case)
    fix c1 cp1
    assume g: "got full n c1 cp1"
    show "returns
          (if utolower c1 = ord CHR ''x''
           then do { cp2 \<leftarrow> add_char (ord CHR ''0'') cp1; (c2, cp3) \<leftarrow> add_and_next c1 cp2; (c3, cp4) \<leftarrow> add_while isxdigit c2 cp3; number_token c3 cp4 }
           else if is_octal c1
           then do { cp2 \<leftarrow> add_char (ord CHR ''0'') cp1; (c2, cp3) \<leftarrow> add_and_next c1 cp2; (c3, cp4) \<leftarrow> add_while (\<lambda>c. Some (is_octal c)) c2 cp3; number_token c3 cp4 }
           else do { cp2 \<leftarrow> put_back c1 cp1; float_token (ord CHR ''0'') cp2 }) (token_made full n)"
    proof (cases "utolower c1 = ord CHR ''x''")
      case True
      with hex_token_total [OF assms(1) g] show ?thesis by (simp add: case_prod_unfold)
    next
      case False
      with g show ?thesis by (auto intro!: put_back_total add_char_got add_next_got add_while_digits number_token_total float_token_started simp: z)
    qed
  qed
next
  case False
  with float_token_started [OF assms(2)] assms(3) show ?thesis by (simp add: makeNumberToken_def)
qed

section \<open>Names and strings\<close>

lemma decode_digits_total:
  assumes "at_most full n cp" "\<And>ds1 cp1. at_most full n cp1 \<Longrightarrow> length ds1 \<le> length ds + k \<Longrightarrow> Q (ds1, cp1)"
  shows "returns (decode_digits r k ds cp) Q"
  using assms
proof (induction k arbitrary: ds cp)
  case (Suc k)
  show ?case
    unfolding decode_digits.simps returns_bind
  proof (rule next_char_total [OF Suc.prems(1)], unfold prod.case)
    fix c cp1
    assume g: "got full n c cp1"
    show "returns (if c = 0 \<or> \<not> escape_digit r c then do { cp2 \<leftarrow> put_back c cp1; Some (ds, cp2) } else decode_digits r k (ds @ [to_char c]) cp1) Q"
    proof (cases "c = 0 \<or> \<not> escape_digit r c")
      case True
      with Suc.prems(2) show ?thesis by (auto intro!: put_back_total [OF g])
    next
      case False
      with Suc.prems(2) show ?thesis by (auto intro!: Suc.IH [OF got_le [OF g]])
    qed
  qed
qed simp

lemma decodeNumber_total:
  assumes "at_most full n cp" "k \<le> 15" "r = 8 \<or> r = 16" "\<And>v cp1. at_most full n cp1 \<Longrightarrow> Q (v, cp1)"
  shows "returns (decodeNumber r k cp) Q"
  unfolding decodeNumber_def returns_bind
proof (rule decode_digits_total [OF assms(1)], unfold prod.case returns_bind)
  fix ds :: string and cp1
  assume "at_most full n cp1" "length ds \<le> length ([] :: string) + k"
  with assms(2-4) stoiradix_Some [of ds r] show "returns (stoiradix ds r) (\<lambda>x. returns (case x of (_, v) \<Rightarrow> Some (c_int v, cp1)) Q)" by auto
qed

lemma escape_total: "got full n c cp \<Longrightarrow> (\<And>v cp1. at_most full n cp1 \<Longrightarrow> Q (v, cp1)) \<Longrightarrow> returns (escape c cp) Q"
  using got_le [of full n c cp] by (auto simp: escape_def intro!: decodeNumber_total)

lemma BS_not_0: "ord CHR 0x5C \<noteq> 0"
  by (simp add: char_code_def)

lemma scan_name_total:
  assumes "got full n c cp"
  shows "returns (scan_name c cp) (\<lambda>(c1, cp1). got full n c1 cp1)"
  using assms
proof (induction n arbitrary: c cp rule: less_induct)
  case (less n)
  show ?case
  proof (cases "name_char c")
    case True
    then have "c \<noteq> 0" by auto
    then obtain m where m: "m < n" "at_most full m cp" using got_less [OF less.prems] by blast
    have IH: "returns (scan_name c1 cp1) (\<lambda>(c2, cp2). got full n c2 cp2)" if "got full m c1 cp1" for c1 cp1
      using less.IH [OF m(1) that] by (rule returns_pair) (auto intro: got_mono [OF _ less_imp_le [OF m(1)]])
    show ?thesis
    proof (cases "c = ord CHR 0x5C")
      case bs: True
      show ?thesis
        apply (subst scan_name.simps)
        apply (simp add: True [unfolded bs] bs)
        apply (rule next_char_total [OF m(2)])
        apply (auto intro!: add_and_next_total [OF got_le] decodeNumber_total [OF got_le] add_and_next_total IH
            intro: got_mono [OF _ less_imp_le [OF m(1)]])
        apply (erule got_le)+
        done
    next
      case False
      with True show ?thesis by (subst scan_name.simps) (auto intro!: add_and_next_total [OF m(2)] IH)
    qed
  next
    case False
    with less.prems show ?thesis by (subst scan_name.simps) simp
  qed
qed

lemma word_token_pos: "map_of keywords_table name = Some w \<Longrightarrow> 0 < word_token w"
  by (drule map_of_SomeD) (auto simp: keywords_table_def reserved_words_def)

lemma lookup_keyword_total:
  assumes "at_most full n cp" "\<And>name cp1. at_most full n cp1 \<Longrightarrow> Q (map_of keywords_table name, cp1)"
  shows "returns (lookup_keyword cp) Q"
  using assms(1)
proof (rule at_mostE)
  fix d t x
  assume 1: "full = d @ t" "length t \<le> n" "lexing d t x cp"
  show ?thesis by (rule lookup_keyword_step [OF 1(3)], rule assms(2), rule at_mostI, assumption) (use 1 in simp_all)
qed

lemma scan_name_started:
  assumes "at_most full n cp" "name_char c" "c \<noteq> ord CHR 0x5C"
  shows "returns (scan_name c cp) (\<lambda>(c1, cp1). got full n c1 cp1)"
  using assms(2,3) by (subst scan_name.simps) (auto intro!: add_and_next_total [OF assms(1)] scan_name_total)

lemma makeAlphaToken_total:
  assumes "at_most full n cp" "name_char c" "c \<noteq> ord CHR 0x5C"
  shows "returns (makeAlphaToken c cp) (token_made full n)"
  unfolding makeAlphaToken_def returns_bind
proof (rule returns_pair [OF scan_name_started [OF assms]], unfold prod.case returns_bind)
  fix c1 cp1
  assume g: "got full n c1 cp1"
  have "returns (lookup_keyword cp2) (\<lambda>x. returns (case x of (rp, cp3) \<Rightarrow>
        (case rp of None \<Rightarrow> finish T_ID (-1) 0 cp3 | Some w \<Rightarrow> finish (word_token w) (word_sub w) (word_mask w) cp3)) (token_made full n))"
    if "at_most full n cp2" for cp2
    by (rule lookup_keyword_total [OF that]) (auto intro!: finish_total dest: word_token_pos split: option.split)
  with g show "returns (if c1 \<noteq> 0 then put_back c1 cp1 else Some cp1) (\<lambda>cp2. returns (lookup_keyword cp2) (\<lambda>x. returns (case x of (rp, cp3) \<Rightarrow>
        (case rp of None \<Rightarrow> finish T_ID (-1) 0 cp3 | Some w \<Rightarrow> finish (word_token w) (word_sub w) (word_mask w) cp3)) (token_made full n)))"
    by (auto intro!: put_back_total [OF g] dest: got_le)
qed

lemma scan_quoted_total:
  assumes "got full n c cp"
  shows "returns (scan_quoted_token q c cp) (at_most full n)"
  using assms
proof (induction n arbitrary: c cp rule: less_induct)
  case (less n)
  show ?case
  proof (cases "c = 0 \<or> c = q")
    case True
    with got_le [OF less.prems] show ?thesis by (subst scan_quoted_token.simps) auto
  next
    case False
    then obtain m where m: "m < n" "at_most full m cp" using got_less [OF less.prems] by blast
    have IH: "returns (scan_quoted_token q c1 cp1) (at_most full n)" if "got full m c1 cp1" for c1 cp1
      using less.IH [OF m(1) that] by (rule returns_mono) (rule at_most_mono, assumption, simp add: m(1) less_imp_le)
    show ?thesis
      using False by (subst scan_quoted_token.simps) (auto intro!: add_and_next_total [OF m(2)] next_char_total [OF m(2)] escape_total add_and_next_total IH)
  qed
qed

lemma at_most_text: "at_most full n cp \<Longrightarrow> \<exists>tp b. token cp = Some tp \<and> ttext tp = Some b"
  by (auto simp: at_most_def lexing_def ready_def token_ok_def)

lemma makeQuotedToken_total:
  assumes "at_most full n cp"
  shows "returns (makeQuotedToken q cp) (token_made full n)"
  unfolding makeQuotedToken_def returns_bind
proof (rule next_char_total [OF assms], unfold prod.case returns_bind)
  fix c cp1
  assume g: "got full n c cp1"
  show "returns (scan_quoted_token q c cp1) (\<lambda>cp2. returns (token cp2) (\<lambda>tp. returns (if ttext tp = None then None else finish T_STRING (-1) 0 cp2) (token_made full n)))"
  proof (rule returns_mono [OF scan_quoted_total [OF g]])
    fix cp2
    assume a: "at_most full n cp2"
    with at_most_text [OF a] show "returns (token cp2) (\<lambda>tp. returns (if ttext tp = None then None else finish T_STRING (-1) 0 cp2) (token_made full n))"
      by (auto intro!: finish_total)
  qed
qed

section \<open>Comments\<close>

lemma comment_loop_total:
  assumes "at_most full n cp"
  shows "returns (comment_loop form l c cp) (\<lambda>(rc, cp1). at_most full n cp1 \<and> 0 \<le> rc)"
  using assms
proof (induction n arbitrary: c cp rule: less_induct)
  case (less n)
  show ?case
  proof (cases "c \<le> 0")
    case True
    with less.prems show ?thesis by (subst comment_loop.simps) simp
  next
    case False
    show ?thesis
    proof (subst comment_loop.simps, unfold if_not_P [OF False] returns_bind, rule next_char_total [OF less.prems], unfold prod.case)
      fix e cp1
      assume g: "got full n e cp1"
      show "returns
          (if e \<le> 0
           then do { cp2 \<leftarrow> add_string (''Unterminated comment starting on line '' @ decimal l) cp1;
                     (_, cp3) \<leftarrow> makeToken 0 (if form = ord CHR ''/'' then T_EOF else T_ERR) 0 cp2;
                     Some (1, cp3) }
           else if form = ord CHR ''/''
           then (if e = NEWLINE \<or> e = RETURN then Some (0, cp1)
                 else do { cp2 \<leftarrow> add_char e cp1; comment_loop form l e cp2 })
           else if e = ord CHR ''*''
           then do { (d, cp2) \<leftarrow> next_char cp1;
                     if d = ord CHR ''/'' then Some (0, cp2)
                     else do { cp3 \<leftarrow> add_char (ord CHR ''*'') cp2; cp4 \<leftarrow> put_back d cp3; cp5 \<leftarrow> add_char d cp4; comment_loop form l d cp5 } }
           else if e = ord CHR ''/''
           then do { (d, cp2) \<leftarrow> next_char cp1;
                     let cp3 = (if d = ord CHR ''*'' \<and> warnLevel cp2 > 0 then ecError ''Warning'' ''Possible nested comment'' cp2 else cp2);
                     cp4 \<leftarrow> add_char (ord CHR ''/'') cp3; cp5 \<leftarrow> add_char d cp4; comment_loop form l d cp5 }
           else do { cp2 \<leftarrow> add_char e cp1; comment_loop form l e cp2 }) (\<lambda>(rc, cp1). at_most full n cp1 \<and> 0 \<le> rc)"
      proof (cases "e \<le> 0")
        case True
        then show ?thesis
          by (auto simp: token_made_def intro!: add_string_total [OF got_le [OF g]] returns_pair [OF makeToken_total [of full n]])
      next
        case False
        then have "e \<noteq> 0" by simp
        then obtain m where m: "m < n" "at_most full m cp1" using got_less [OF g] by blast
        have IH: "returns (comment_loop form l d cp2) (\<lambda>(rc, cp3). at_most full n cp3 \<and> 0 \<le> rc)" if "at_most full m cp2" for d cp2
          using less.IH [OF m(1) that] by (rule returns_pair) (auto intro: at_most_mono [OF _ less_imp_le [OF m(1)]])
        have E: "got full m d (ecError a b cp2)" if "got full m d cp2" for a b d cp2
          using that by (elim gotE) (auto simp: ecError_def lexed_def lexing_def ready_def words_ok_def at_most_def
              intro!: got_0 gotI at_mostI)
        have W: "got full m d (if C then ecError a b cp2 else cp2)" if "got full m d cp2" for a b C d cp2 using that E by simp
        have mn: "at_most full n cp2" if "at_most full m cp2" for cp2 using that m(1) by (auto elim: at_most_mono)
        consider "form = ord CHR ''/''" | "form \<noteq> ord CHR ''/''" "e = ord CHR ''*''" | "form \<noteq> ord CHR ''/''" "e \<noteq> ord CHR ''*''" "e = ord CHR ''/''"
          | "form \<noteq> ord CHR ''/''" "e \<noteq> ord CHR ''*''" "e \<noteq> ord CHR ''/''" by blast
        then show ?thesis
        proof cases
          case 1
          then have f: "form = 47" by (simp add: char_code_def)
          show ?thesis using False mn [OF m(2)] IH [unfolded f] by (auto simp: f char_code_def intro!: add_char_at_most [OF m(2)])
        next
          case 2
          show ?thesis
            unfolding if_not_P [OF False] if_not_P [OF 2(1)] if_P [OF 2(2)] returns_bind
            by (rule next_char_total [OF m(2)], unfold prod.case, split if_split, intro conjI impI,
                simp add: mn got_le, unfold returns_bind, rule add_char_got, assumption, rule put_back_total, assumption, rule add_char_at_most, assumption, erule IH)
        next
          case 3
          show ?thesis
            unfolding if_not_P [OF False] if_not_P [OF 3(1)] if_not_P [OF 3(2)] if_P [OF 3(3)] returns_bind
            by (rule next_char_total [OF m(2)], unfold prod.case Let_def returns_bind, rule add_char_got [OF W], assumption,
                rule add_char_at_most [OF got_le], assumption, erule IH)
        next
          case 4
          show ?thesis
            unfolding if_not_P [OF False] if_not_P [OF 4(1)] if_not_P [OF 4(2)] if_not_P [OF 4(3)] returns_bind
            by (rule add_char_at_most [OF m(2)]) (rule IH)
        qed
      qed
    qed
  qed
qed

section \<open>Operators\<close>

text \<open>The steps of the operators: one or two characters ahead, then the token, from the state behind the first character.\<close>

lemmas operator_steps = next_char_total next_char_total [OF got_le] put_back_total

lemma op_makeToken: "at_most full n cp \<Longrightarrow> 0 < ident \<Longrightarrow> returns (makeToken c ident grp cp) (token_made full n)"
  "got full n e cp \<Longrightarrow> 0 < ident \<Longrightarrow> returns (makeToken c ident grp cp) (token_made full n)"
  "at_most full n cp \<Longrightarrow> 0 < ident \<Longrightarrow> returns (makeSubToken c ident sub grp cp) (token_made full n)"
  "got full n e cp \<Longrightarrow> 0 < ident \<Longrightarrow> returns (makeSubToken c ident sub grp cp) (token_made full n)"
  by (auto intro: makeToken_total makeSubToken_total got_le)

lemma op_doubled:
  assumes "got full n c cp" "0 < i1"
  shows "returns (add_char e cp) (\<lambda>cp1. returns (makeToken c i1 g1 cp1) (token_made full n))"
    "returns (add_char e cp) (\<lambda>cp1. returns (makeSubToken c i1 s1 g1 cp1) (token_made full n))"
    "returns (add_string str cp) (\<lambda>cp1. returns (makeToken c i1 g1 cp1) (token_made full n))"
    "returns (add_string str cp) (\<lambda>cp1. returns (makeSubToken c i1 s1 g1 cp1) (token_made full n))"
    "returns (put_back c cp) (\<lambda>cp1. returns (makeToken e i1 g1 cp1) (token_made full n))"
    "returns (put_back c cp) (\<lambda>cp1. returns (add_char e cp1) (\<lambda>cp2. returns (makeToken f i1 g1 cp2) (token_made full n)))"
    "returns (put_back c cp) (\<lambda>cp1. returns (add_string str cp1) (\<lambda>cp2. returns (makeToken f i1 g1 cp2) (token_made full n)))"
  using assms
  by (auto intro!: add_char_at_most [OF got_le [OF assms(1)]] add_string_total [OF got_le [OF assms(1)]] makeToken_total makeSubToken_total put_back_total [OF assms(1)]
      add_char_at_most add_string_total makeNumberToken_started)

lemma op_number: "got full n c cp \<Longrightarrow> returns (put_back c cp) (\<lambda>cp1. returns (makeNumberToken (ord CHR ''.'') cp1) (token_made full n))"
  by (auto intro!: put_back_total makeNumberToken_started)

lemma next_got: "got full n c cp \<Longrightarrow> (\<And>d cp1. got full n d cp1 \<Longrightarrow> Q (d, cp1)) \<Longrightarrow> returns (next_char cp) Q"
  by (rule next_char_total [OF got_le])

lemma lex_simple_total:
  assumes "at_most full n cp"
  shows "returns (lex_plus cp) (token_made full n)" "returns (lex_minus cp) (token_made full n)" "returns (lex_star cp) (token_made full n)"
    "returns (lex_percent cp) (token_made full n)" "returns (lex_colon cp) (token_made full n)"
  unfolding lex_plus_def lex_minus_def lex_star_def lex_percent_def lex_colon_def
  by (auto intro!: next_char_total [OF assms] op_doubled)

lemma lex_longer_total:
  assumes "at_most full n cp"
  shows "returns (lex_not cp) (token_made full n)" "returns (lex_less cp) (token_made full n)" "returns (lex_equals cp) (token_made full n)"
  unfolding lex_not_def lex_less_def lex_equals_def
  by (auto intro!: next_char_total [OF assms] op_doubled next_got)

lemma lex_greater_total:
  assumes "at_most full n cp"
  shows "returns (lex_greater cp) (token_made full n)"
  unfolding lex_greater_def
  by (auto intro!: next_char_total [OF assms] op_doubled next_got)

lemma lex_dot_total:
  assumes "at_most full n cp"
  shows "returns (lex_dot cp) (token_made full n)"
  unfolding lex_dot_def
  by (auto intro!: next_char_total [OF assms] op_number op_doubled next_got)

lemma lex_logical_total:
  assumes "at_most full n cp" "0 < a" "0 < b" "0 < c" "0 < d"
  shows "returns (lex_logical ch a b c d cp) (token_made full n)"
  unfolding lex_logical_def
  by (auto simp: assms intro!: next_char_total [OF assms(1)] op_doubled add_char_at_most [OF got_le] next_char_total makeSubToken_total)


lemma operator_lexer_total: "operator_lexer c = Some f \<Longrightarrow> at_most full n cp \<Longrightarrow> returns (f cp) (token_made full n)"
  unfolding operator_lexer_def
  by (drule map_of_SomeD)
     (auto simp: lexers_def lex_and_def lex_xor_def lex_or_def
        intro!: lex_simple_total lex_longer_total lex_greater_total lex_dot_total lex_logical_total)

lemma simple_token_pos: "simple_token c = Some (ident, grp) \<Longrightarrow> 0 < ident"
  unfolding simple_token_def by (drule map_of_SomeD) (auto simp: simple_tokens_def)

section \<open>Tokens\<close>

lemma end_token_total: "at_most full n cp \<Longrightarrow> returns (end_token cp) (token_made full n)"
  by (auto simp: end_token_def intro!: makeToken_total)

lemma name_start: "uisalpha c \<or> c = ord CHR ''_'' \<or> c = ord CHR ''$'' \<Longrightarrow> name_char c \<and> c \<noteq> ord CHR 0x5C"
  by (auto simp: name_char_def uisalpha_def utolower_def to_char_def tolower_def char_code_def)

lemma newline_no_name: "\<not> uisalpha NEWLINE" "NEWLINE \<noteq> ord CHR ''_''" "NEWLINE \<noteq> ord CHR 0x5C" "NEWLINE \<noteq> ord CHR ''$''"
  by (simp_all add: uisalpha_def utolower_def to_char_def tolower_def char_code_def)

lemma get_token_total:
  assumes "hex_safe full" "at_most full n cp"
  shows "returns (get_token cp) (token_made full (n - 1))"
  using assms(2)
proof (induction n arbitrary: cp rule: less_induct)
  case (less n)
  show ?case
  proof (subst get_token.simps, unfold returns_bind, rule next_char_total [OF less.prems], unfold prod.case)
    fix c cp1
    assume g: "got full n c cp1"
    have a: "at_most full (n - 1) cp1" by (rule got_at_most [OF g])
    have rec: "returns (get_token cp2) (token_made full (n - 1))" if "c \<noteq> 0" "at_most full (n - 1) cp2" for cp2
    proof -
      have "0 < n" using got_less [OF g that(1)] by auto
      with less.IH [of "n - 1" cp2] that(2) have "returns (get_token cp2) (token_made full (n - 1 - 1))" by simp
      then show ?thesis by (rule returns_mono) (rule token_made_mono, assumption, simp)
    qed
    let ?rest = "do { (d, cp2) \<leftarrow> (if c = ord CHR 0x5C then next_char cp1 else Some (c, cp1));
                    if c = ord CHR 0x5C \<and> d = NEWLINE then get_token cp2
                    else do { cp3 \<leftarrow> (if c = ord CHR 0x5C then put_back d cp2 else Some cp2);
                              let e = (if c = ord CHR 0x5C then NEWLINE else c);
                              if uisalpha e \<or> e = ord CHR ''_'' \<or> e = ord CHR 0x5C \<or> e = ord CHR ''$'' then makeAlphaToken e cp3
                              else makeToken 0 T_ERR 0 cp3 } }"
    have rest: "returns ?rest (token_made full (n - 1))" if "c \<noteq> 0"
    proof (cases "c = ord CHR 0x5C")
      case True
      show ?thesis
        unfolding True
        by (auto simp: newline_no_name Let_def simp del: One_nat_def intro!: next_char_total [OF a] rec [OF that got_le] put_back_total makeToken_total)
    next
      case False
      have "returns (makeAlphaToken c cp1) (token_made full (n - 1))" if "uisalpha c \<or> c = ord CHR ''_'' \<or> c = ord CHR 0x5C \<or> c = ord CHR ''$''"
        using name_start [of c] that False by (intro makeAlphaToken_total [OF a]) blast+
      with False show ?thesis using makeToken_total [OF a, of T_ERR 0 0] by (simp add: Let_def del: One_nat_def)
    qed
    let ?slash = "do { (d, cp1) \<leftarrow> next_char cp1;
                    if d = ord CHR ''='' then do { cp2 \<leftarrow> add_char (ord CHR ''/'') cp1; assign_op d T_DIV_ASSIGN cp2 }
                    else if d = ord CHR ''>'' then do { cp2 \<leftarrow> add_char (ord CHR ''/'') cp1; makeToken d T_SLASH_GT G_OPERATOR cp2 }
                    else if d = ord CHR ''*'' \<or> d = ord CHR ''/''
                    then do { (rc, cp2) \<leftarrow> getComment d cp1;
                              if rc < 0 then do { tp \<leftarrow> token cp2; Some (tokenId tp, cp2) }
                              else do { cp3 \<leftarrow> keep_doc cp2; cp4 \<leftarrow> init_token cp3; get_token cp4 } }
                    else do { cp2 \<leftarrow> put_back d cp1; makeToken (ord CHR ''/'') T_DIV G_OPERATOR cp2 } }"
    have slash: "returns ?slash (token_made full (n - 1))" if "c \<noteq> 0"
    proof (unfold returns_bind, rule next_char_total [OF a], unfold prod.case)
      fix d cp2
      assume h: "got full (n - 1) d cp2"
      have "returns (getComment d cp2) (\<lambda>(rc, cp3). returns (if rc < 0 then do { tp \<leftarrow> token cp3; Some (tokenId tp, cp3) }
                              else do { cp4 \<leftarrow> keep_doc cp3; cp5 \<leftarrow> init_token cp4; get_token cp5 }) (token_made full (n - 1)))"
        unfolding getComment_def
        by (rule returns_pair [OF comment_loop_total [OF got_le [OF h]]]) (auto simp del: One_nat_def intro!: keep_doc_total init_token_total rec [OF that])
      then show "returns
          (if d = ord CHR ''='' then do { cp2 \<leftarrow> add_char (ord CHR ''/'') cp2; assign_op d T_DIV_ASSIGN cp2 }
           else if d = ord CHR ''>'' then do { cp2 \<leftarrow> add_char (ord CHR ''/'') cp2; makeToken d T_SLASH_GT G_OPERATOR cp2 }
           else if d = ord CHR ''*'' \<or> d = ord CHR ''/''
           then do { (rc, cp2) \<leftarrow> getComment d cp2;
                     if rc < 0 then do { tp \<leftarrow> token cp2; Some (tokenId tp, cp2) }
                     else do { cp3 \<leftarrow> keep_doc cp2; cp4 \<leftarrow> init_token cp3; get_token cp4 } }
           else do { cp2 \<leftarrow> put_back d cp2; makeToken (ord CHR ''/'') T_DIV G_OPERATOR cp2 }) (token_made full (n - 1))"
        using h by (auto simp: case_prod_unfold intro!: op_doubled)
    qed
    show "returns (if c = - 1 then makeToken 0 T_ERR 0 cp1
           else if c = 0 then end_token cp1
           else if is_blank c then get_token cp1
           else if is_quote c then makeQuotedToken c cp1
           else if simple_token c \<noteq> None then (let (ident, grp) = the (simple_token c) in makeToken c ident grp cp1)
           else if operator_lexer c \<noteq> None then the (operator_lexer c) cp1
           else if c = ord CHR ''/'' then ?slash
           else if uisdigit c then makeNumberToken c cp1
           else ?rest) (token_made full (n - 1))"
      using rest slash a
      by (auto simp del: returns_bind One_nat_def intro!: makeToken_total end_token_total makeQuotedToken_total rec makeNumberToken_total [OF assms(1)]
           dest: simple_token_pos operator_lexer_total)
  qed
qed

section \<open>Whole sources\<close>

text \<open>Opening a script that is in memory, and reading tokens from it.\<close>

definition open_script :: "string \<Rightarrow> ec_compiler \<Rightarrow> ec_compiler option" where
  "open_script src cp =
     do { (rc, s) \<leftarrow> ecOpenMemoryStream (has_mem cp) (Some (src @ [NUL])) (int (length src));
          s1 \<leftarrow> s;
          ecInitLexer (cp\<lparr>stream := s1, putback := []\<rparr>) }"

fun next_tokens :: "nat \<Rightarrow> ec_compiler \<Rightarrow> (ec_token list \<times> ec_compiler) option" where
  "next_tokens 0 cp = Some ([], cp)"
| "next_tokens (Suc n) cp =
     do { (ident, cp1) \<leftarrow> ecGetToken cp; tp \<leftarrow> token cp1; (ts, cp2) \<leftarrow> next_tokens n cp1; Some (tp # ts, cp2) }"

definition idle :: "string \<Rightarrow> string \<Rightarrow> ec_compiler \<Rightarrow> bool" where
  "idle d t cp \<longleftrightarrow> reading d t (stream cp) \<and> has_mem cp = (\<lambda>_. True) \<and> words_ok cp \<and> putback cp = [] \<and> \<not> at_eol (stream cp)"

lemma lexing_idle: "lexing d t x cp \<Longrightarrow> idle d t cp"
  by (simp add: idle_def lexing_def ready_def)

lemma getLexToken_idle:
  assumes "idle d t cp"
  shows "\<exists>tp. token (getLexToken cp) = Some tp \<and> tokenId tp = 0 \<and> lexing d t [] (getLexToken cp)"
proof -
  obtain tp where i: "initializeToken (\<lambda>_. True) (stream cp) (empty_token no_location) = (0, tp)" "token_ok tp" "token_text tp = []" "tokenId tp = 0"
    using initializeToken_ok [of "empty_token no_location" "stream cp"] by (auto simp: empty_token_def)
  with assms show ?thesis
    by (auto simp: getLexToken_def idle_def lexing_def ready_def words_ok_def)
qed

lemma ecGetToken_idle: "idle d t cp \<Longrightarrow> ecGetToken cp = get_token (getLexToken cp) \<and> lexing d t [] (getLexToken cp)"
  using getLexToken_idle [of d t cp] by (auto simp: ecGetToken_def Let_def)

lemma ecGetToken_total:
  assumes "idle d t cp" "hex_safe (d @ t)"
  shows "returns (ecGetToken cp) (token_made (d @ t) (length t - 1))"
proof -
  have "at_most (d @ t) (length t) (getLexToken cp)" using ecGetToken_idle [OF assms(1)] by (auto intro: at_mostI)
  from get_token_total [OF assms(2) this] ecGetToken_idle [OF assms(1)] show ?thesis by simp
qed

lemma ecGetToken_end:
  assumes "idle d [] cp"
  shows "returns (ecGetToken cp) (\<lambda>(ident, cp1). ident = T_EOF \<and> idle d [] cp1 \<and> made T_EOF (-1) 0 cp1 \<and> (\<exists>tp. token cp1 = Some tp \<and> token_ok tp \<and> token_text tp = []))"
proof -
  have l: "lexing d [] [] (getLexToken cp)" and e: "ecGetToken cp = get_token (getLexToken cp)" using ecGetToken_idle [OF assms] by simp_all
  have "\<not> at_eol (stream (getLexToken cp))" using l by (simp add: lexing_def ready_def)
  then have "get_token (getLexToken cp) = makeToken 0 T_EOF 0 (getLexToken cp)"
    by (subst get_token.simps) (simp add: next_char_end [OF l] end_token_def)
  with e show ?thesis
    by (auto intro!: makeToken_step [OF l] dest: lexing_idle simp: lexing_def ready_def)
qed

lemma ecSetStreamBuf_file:
  assumes "getInput s = NoInput" "lineNumber (loc s) = 1" "column (loc s) = 0"
  shows "\<exists>d t s1. ecSetStreamBuf mem s (Some (src @ [NUL])) (int (length src)) = Some s1 \<and> src = d @ t \<and> reading d t s1 \<and> sflags s1 = sflags s
    \<and> (NUL \<notin> set src \<longrightarrow> d = [])"
proof -
  let ?s = "s\<lparr>buf := Some (src @ [NUL]), nextChar := 0, bufEnd := int (length src)\<rparr>"
  have r: "reading [] src ?s" using assms by (auto simp: reading_def)
  have n: "(if int (length src) \<le> 0 then strlen (src @ [NUL]) else Some (int (length src))) = Some (int (length src))"
    by (simp add: strlen_def c_str_def)
  show ?thesis
  proof (cases src)
    case Nil
    with r getNextChar_end [of "[]" ?s mem] n show ?thesis by (auto simp: ecSetStreamBuf.simps)
  next
    case (Cons ch t)
    then obtain s1 where s1: "getNextChar mem ?s = Some (signed_char ch, s1)" "just_read [] ch t s1" "sflags s1 = sflags s"
      using getNextChar_char [of "[]" ch t ?s mem] r by auto
    show ?thesis
    proof (cases "ch = NUL")
      case True
      with s1 n Cons show ?thesis by (intro exI [of _ "[ch]"] exI [of _ t]) (auto simp: ecSetStreamBuf.simps just_read_def)
    next
      case False
      then obtain s2 where "putBackChar (signed_char ch) s1 = Some s2" "reading [] (ch # t) s2" "sflags s2 = sflags s1"
        using putBackChar_char [OF s1(2)] by blast
      with s1 n Cons show ?thesis by (intro exI [of _ "[]"] exI [of _ src]) (auto simp: ecSetStreamBuf.simps)
    qed
  qed
qed

lemma open_script_ok:
  assumes "has_mem cp = (\<lambda>_. True)"
  shows "\<exists>d t cp1. open_script src cp = Some cp1 \<and> src = d @ t \<and> idle d t cp1 \<and> (NUL \<notin> set src \<longrightarrow> d = [])"
proof -
  obtain ms where ms: "ecCreateStream (\<lambda>_. True) ''memory'' = Some ms" "getInput ms = NoInput" "lineNumber (loc ms) = 1" "column (loc ms) = 0" "sflags ms = 0"
    by (simp add: ecCreateStream_def Let_def)
  obtain d t s where s: "ecSetStreamBuf (\<lambda>_. True) ms (Some (src @ [NUL])) (int (length src)) = Some s" "src = d @ t" "reading d t s" "sflags s = sflags ms"
    "NUL \<notin> set src \<longrightarrow> d = []" using ecSetStreamBuf_file [OF ms(2-4), of "\<lambda>_. True" src] by blast
  let ?cp = "cp\<lparr>stream := s, putback := []\<rparr>"
  obtain h where h: "ecInitLexer ?cp = Some (?cp\<lparr>keyword_hash := Some h\<rparr>)" "plain_table h" "table_view h = map_of keywords_table"
    using ecInitLexer_ok [of ?cp] assms by auto
  have "open_script src cp = Some (?cp\<lparr>keyword_hash := Some h\<rparr>)"
    using ms(1) s(1) h(1) assms by (simp add: open_script_def ecOpenMemoryStream_def)
  moreover have "idle d t (?cp\<lparr>keyword_hash := Some h\<rparr>)"
    using s(3,4) ms(5) h(2,3) assms by (simp add: idle_def words_ok_def at_eol_def)
  ultimately show ?thesis using s(2,5) by blast
qed

text \<open>What holds of the tokens, and of the place in the source.\<close>

definition good_token :: "ec_token \<Rightarrow> bool" where
  "good_token tp \<longleftrightarrow> 0 < tokenId tp \<and> (\<exists>t. ttext tp = Some t \<and> int (length t) = tsize tp \<and> 0 \<le> tlength tp \<and> tlength tp < tsize tp)"

definition good_place :: "string \<Rightarrow> ec_compiler \<Rightarrow> bool" where
  "good_place src cp \<longleftrightarrow> 0 \<le> nextChar (stream cp) \<and> nextChar (stream cp) \<le> int (length src) \<and> 0 \<le> column (loc (stream cp))
     \<and> lineNumber (loc (stream cp)) = line_count (take (nat (nextChar (stream cp))) src)"

lemma idle_place: "idle d t cp \<Longrightarrow> good_place (d @ t) cp"
  by (simp add: good_place_def idle_def reading_def)

lemma token_made_good:
  "token_made full n (ident, cp) \<Longrightarrow> \<exists>tp d t. token cp = Some tp \<and> good_token tp \<and> tokenId tp = ident \<and> full = d @ t \<and> length t \<le> n \<and> idle d t cp"
  by (fastforce simp: token_made_def at_most_def made_def good_token_def lexing_def ready_def token_ok_def idle_def)

lemma next_tokens_total:
  assumes "idle d t cp" "hex_safe (d @ t)"
  shows "\<exists>ts cp1 d1 t1. next_tokens n cp = Some (ts, cp1) \<and> length ts = n \<and> (\<forall>tp \<in> set ts. good_token tp) \<and> d @ t = d1 @ t1 \<and> idle d1 t1 cp1
     \<and> length t1 \<le> length t - n \<and> (length t < n \<longrightarrow> tokenId (last ts) = T_EOF)"
  using assms
proof (induction n arbitrary: d t cp)
  case (Suc n)
  show ?case
  proof (cases "t = []")
    case True
    obtain ident cp1 tp where e: "ecGetToken cp = Some (ident, cp1)" "ident = T_EOF" "idle d [] cp1" "token cp1 = Some tp" "tokenId tp = T_EOF" "token_ok tp"
      using ecGetToken_end [of d cp] Suc.prems(1) True by (auto simp: returns_def made_def)
    have g: "good_token tp" using e(5,6) by (auto simp: good_token_def token_ok_def)
    from Suc.IH [OF e(3)] Suc.prems(2) True obtain ts cp2 d1 t1 where i: "next_tokens n cp1 = Some (ts, cp2)" "length ts = n" "\<forall>tp \<in> set ts. good_token tp"
      "d @ [] = d1 @ t1" "idle d1 t1 cp2" "length t1 \<le> 0" "0 < n \<longrightarrow> tokenId (last ts) = T_EOF" by auto
    have "tokenId (last (tp # ts)) = T_EOF" using i(2,7) e(5) by (cases ts) auto
    with e g i True show ?thesis by (intro exI [of _ "tp # ts"] exI [of _ cp2] exI [of _ d1] exI [of _ t1]) auto
  next
    case False
    obtain ident cp1 where e: "ecGetToken cp = Some (ident, cp1)" "token_made (d @ t) (length t - 1) (ident, cp1)"
      using ecGetToken_total [OF Suc.prems] by (auto elim!: returnsE)
    obtain tp d1 t1 where p: "token cp1 = Some tp" "good_token tp" "d @ t = d1 @ t1" "length t1 \<le> length t - 1" "idle d1 t1 cp1"
      using token_made_good [OF e(2)] by blast
    from Suc.IH [OF p(5)] Suc.prems(2) p(3) obtain ts cp2 d2 t2 where i: "next_tokens n cp1 = Some (ts, cp2)" "length ts = n" "\<forall>tp \<in> set ts. good_token tp"
      "d1 @ t1 = d2 @ t2" "idle d2 t2 cp2" "length t2 \<le> length t1 - n" "length t1 < n \<longrightarrow> tokenId (last ts) = T_EOF" by auto
    have l: "length t < Suc n \<longrightarrow> tokenId (last (tp # ts)) = T_EOF" using i(2,7) p(4) False by (cases ts) auto
    show ?thesis
      by (intro exI [of _ "tp # ts"] exI [of _ cp2] exI [of _ d2] exI [of _ t2])
         (use e(1) p i l in auto)
  qed
qed (auto intro: exI)

text \<open>
  Property C12. The lexer is total on sources in memory. Whatever the source, but for a negative character right behind a hexadecimal
  digit, it can be asked for tokens any number of times: every token has a number and its text inside of its block, the place in the
  source stays inside of it with the right line number, every call uses up a character at least, and when there are more
  calls than characters the last one gives the end of the file.
\<close>

theorem lexer_total:
  assumes "hex_safe src" "has_mem cp0 = (\<lambda>_. True)"
  shows "\<exists>cp. open_script src cp0 = Some cp \<and> (\<exists>ts cp1. next_tokens n cp = Some (ts, cp1) \<and> length ts = n \<and> list_all good_token ts
     \<and> good_place src cp1 \<and> min (int n) (int (length src)) \<le> nextChar (stream cp1) \<and> (length src < n \<longrightarrow> tokenId (last ts) = T_EOF))"
proof -
  obtain d t cp where o: "open_script src cp0 = Some cp" "src = d @ t" "idle d t cp" using open_script_ok [OF assms(2)] by blast
  obtain ts cp1 d1 t1 where n: "next_tokens n cp = Some (ts, cp1)" "length ts = n" "\<forall>tp \<in> set ts. good_token tp" "d @ t = d1 @ t1" "idle d1 t1 cp1"
    "length t1 \<le> length t - n" "length t < n \<longrightarrow> tokenId (last ts) = T_EOF" using next_tokens_total [OF o(3), of n] assms(1) o(2) by auto
  have "nextChar (stream cp1) = int (length d1)" using n(5) by (simp add: idle_def reading_def)
  moreover have "length d + length t = length d1 + length t1" using n(4) by (metis length_append)
  ultimately have "min (int n) (int (length src)) \<le> nextChar (stream cp1)" using n(6) o(2) by simp
  moreover have "good_place src cp1" using idle_place [OF n(5)] n(4) o(2) by simp
  moreover have "list_all good_token ts" using n(3) by (simp add: list_all_iff)
  moreover have "length src < n \<longrightarrow> tokenId (last ts) = T_EOF" using n(7) o(2) by simp
  ultimately show ?thesis using o(1) n(1,2) by blast
qed


definition empty_compiler :: ec_compiler where
  "empty_compiler =
     \<lparr>has_mem = (\<lambda>_. True),
      stream = \<lparr>loc = no_location, lastLoc = no_location, getInput = NoInput, buf = None, nextChar = 0, bufEnd = 0, eof = False, sflags = 0\<rparr>,
      token = None, peekToken = None, putback = [], keyword_hash = None, docToken = None, doc = False, warnLevel = 0, messages = [], fatalError = False\<rparr>"

theorem lexer_total_witness:
  "\<exists>cp ts cp1. open_script ''x = 0x1F /* ?'' empty_compiler = Some cp \<and> next_tokens 14 cp = Some (ts, cp1) \<and> tokenId (last ts) = T_EOF
     \<and> nextChar (stream cp1) = 13"
  using lexer_total [of "''x = 0x1F /* ?''" empty_compiler 14]
  by (force simp: hex_char_def isdigit_def tolower_def char_code_def signed_char_def empty_compiler_def good_place_def)

end
