(* ===== verification/LexRead.thy ===== *)
theory LexRead
  imports LexSafety
begin

text \<open>
  What the lexer reads. A source that is written as names, numbers, strings and operators, with white space and comments between
  them, comes back as their tokens, in order. The exceptions are part of the statement: the text of three operators.
\<close>

section \<open>Characters\<close>

lemma char_code_Char:
  "char_code (Char b0 b1 b2 b3 b4 b5 b6 b7) =
     of_bool b0 + 2 * of_bool b1 + 4 * of_bool b2 + 8 * of_bool b3 + 16 * of_bool b4 + 32 * of_bool b5 + 64 * of_bool b6 + 128 * of_bool b7"
  by (simp add: char_code_def)

lemma char_code_ascii [simp]: "char_code (Char b0 b1 b2 b3 b4 b5 b6 False) < 128"
  by (cases b0; cases b1; cases b2; cases b3; cases b4; cases b5; cases b6) (simp_all add: char_code_Char)

lemma char_code_eq [simp]: "char_code a = char_code b \<longleftrightarrow> a = b" "char_code a = 0 \<longleftrightarrow> a = NUL" "char_code a \<noteq> -1"
proof -
  show e: "char_code a = char_code b \<longleftrightarrow> a = b" for a b by (simp add: char_code_def)
  show "char_code a = 0 \<longleftrightarrow> a = NUL" using e [of a NUL] by (simp add: char_code_def)
  have "0 \<le> char_code a" by (simp add: char_code_def)
  then show "char_code a \<noteq> -1" by linarith
qed

lemma signed_eq_ord [simp]: "signed_char ch = char_code x \<longleftrightarrow> ch = x \<and> char_code x < 128"
proof -
  have b: "char_code ch < 256" "0 \<le> char_code x" by (simp_all add: char_code_def of_char_less)
  show ?thesis using b by (cases "char_code ch < 128") (auto simp: signed_char_def)
qed

lemma to_char_ord [simp]: "to_char (char_code ch) = ch"
proof -
  have "char_code ch < 256" "0 \<le> char_code ch" by (simp_all add: char_code_def of_char_less)
  then have "char_code ch mod 256 = char_code ch" by simp
  then show ?thesis unfolding to_char_def by (simp add: char_code_def)
qed

lemma uisdigit_signed [simp]: "uisdigit (signed_char ch) = isdigit ch" "uisdigit (char_code ch) = isdigit ch"
  by (simp_all add: uisdigit_def)

definition is_letter :: "char \<Rightarrow> bool" where
  "is_letter ch \<longleftrightarrow> 97 \<le> tolower ch \<and> tolower ch \<le> 122"

lemma uisalpha_signed [simp]: "uisalpha (signed_char ch) = is_letter ch"
  by (simp add: uisalpha_def is_letter_def char_code_Char)

text \<open>The white space that a source uses.\<close>

definition blank_char :: "char \<Rightarrow> bool" where
  "blank_char ch \<longleftrightarrow> ch \<in> {CHR '' '', CHR 0x09, CHR 0x0A, CHR 0x0B, CHR 0x0C, CHR 0x0D}"

lemma blank_is_blank: "blank_char ch \<Longrightarrow> is_blank (signed_char ch) \<and> signed_char ch \<noteq> 0 \<and> signed_char ch \<noteq> -1"
  by (auto simp: blank_char_def is_blank_def signed_char_def char_code_Char)

lemma blank_other:
  assumes "blank_char ch"
  shows "ch \<noteq> CHR ''=''" "ch \<noteq> CHR ''+''" "ch \<noteq> CHR ''-''" "ch \<noteq> CHR ''*''" "ch \<noteq> CHR ''/''" "ch \<noteq> CHR ''.''" "ch \<noteq> CHR '':''"
    "ch \<noteq> CHR ''<''" "ch \<noteq> CHR ''>''" "ch \<noteq> CHR ''&''" "ch \<noteq> CHR ''^''" "ch \<noteq> CHR ''|''" "ch \<noteq> NUL" "\<not> isdigit ch" "ch \<noteq> CHR ''e''" "tolower ch \<noteq> 101" "tolower ch \<noteq> 120"
    "\<not> is_letter ch" "ch \<noteq> CHR ''_''" "ch \<noteq> CHR ''$''" "ch \<noteq> CHR 0x5C" "\<not> hex_char ch"
  using assms by (auto simp: blank_char_def isdigit_def is_letter_def tolower_def hex_char_def Let_def char_code_Char)

section \<open>Steps behind a character\<close>

lemma next_char_lexed:
  "lexed d a (ch # t) x cp \<Longrightarrow> (\<And>cp1. lexed (d @ [a]) ch t x cp1 \<Longrightarrow> Q (signed_char ch, cp1)) \<Longrightarrow> returns (next_char cp) Q"
  by (rule next_char_step [OF lexed_lexing])

lemma makeToken_lexed:
  "lexed d a t x cp \<Longrightarrow> (\<And>cp1. lexing (d @ [a]) t (if c = 0 then x else x @ [to_char c]) cp1 \<Longrightarrow> made ident (-1) grp cp1 \<Longrightarrow> Q (ident, cp1))
   \<Longrightarrow> returns (makeToken c ident grp cp) Q"
  by (rule makeToken_step [OF lexed_lexing])

lemma makeSubToken_lexed:
  "lexed d a t x cp \<Longrightarrow> (\<And>cp1. lexing (d @ [a]) t (x @ [to_char c]) cp1 \<Longrightarrow> made ident sub grp cp1 \<Longrightarrow> Q (ident, cp1))
   \<Longrightarrow> returns (makeSubToken c ident sub grp cp) Q"
  by (rule makeSubToken_step [OF lexed_lexing])

lemma add_string_lexed:
  assumes "lexed d a t x cp" "\<And>cp1. lexed d a t (x @ str) cp1 \<Longrightarrow> Q cp1"
  shows "returns (add_string str cp) Q"
proof -
  have "ready x cp" "just_read d a t (stream cp)" using assms(1) by (simp_all add: lexed_def)
  from add_string_ready [OF this(1), of str] this(2) assms(2) show ?thesis by (auto simp: lexed_def elim!: returns_mono)
qed

section \<open>Operators\<close>

definition signs :: "(string \<times> int \<times> int \<times> int) list" where
  "signs =
    [(''#'', T_HASH, -1, 0), (''['', T_LBRACKET, -1, G_OPERATOR), (''('', T_LPAREN, -1, G_OPERATOR), ('')'', T_RPAREN, -1, 0),
     ('']'', T_RBRACKET, -1, 0), (''{'', T_LBRACE, -1, 0), (''}'', T_RBRACE, -1, 0), (''@'', T_AT, -1, 0), ('';'', T_SEMICOLON, -1, 0),
     ('','', T_COMMA, -1, 0), (''?'', T_QUERY, -1, 0), (''~'', T_TILDE, -1, G_OPERATOR),
     (''+'', T_PLUS, -1, G_OPERATOR), (''++'', T_PLUS_PLUS, -1, G_OPERATOR), (''+='', T_ASSIGN, T_PLUS_ASSIGN, 12),
     (''-'', T_MINUS, -1, G_OPERATOR), (''--'', T_MINUS_MINUS, -1, G_OPERATOR), (''-='', T_ASSIGN, T_MINUS_ASSIGN, 12),
     (''*'', T_MUL, -1, G_OPERATOR), (''*='', T_ASSIGN, T_MUL_ASSIGN, 12),
     (''/'', T_DIV, -1, G_OPERATOR), (''/='', T_ASSIGN, T_DIV_ASSIGN, 12), (''/>'', T_SLASH_GT, -1, G_OPERATOR),
     (''%'', T_MOD, -1, G_OPERATOR), (''%='', T_ASSIGN, T_MOD_ASSIGN, 12),
     (''.'', T_DOT, -1, G_OPERATOR), (''..'', T_DOT_DOT, -1, 0), (''...'', T_ELIPSIS, -1, 0),
     ('':'', T_COLON, -1, 0), (''::'', T_COLON_COLON, -1, 0),
     (''!'', T_LOGICAL_NOT, -1, G_OPERATOR), (''!='', T_NE, -1, G_OPERATOR), (''!=='', T_STRICT_NE, -1, G_OPERATOR),
     (''&'', T_BIT_AND, -1, G_OPERATOR), (''&&'', T_LOGICAL_AND, -1, G_OPERATOR), (''&='', T_ASSIGN, T_BIT_AND_ASSIGN, 12),
     (''&&='', T_ASSIGN, T_LOGICAL_AND_ASSIGN, 12),
     (''^'', T_BIT_XOR, -1, G_OPERATOR), (''^^'', T_LOGICAL_XOR, -1, G_OPERATOR), (''^='', T_ASSIGN, T_BIT_XOR_ASSIGN, 12),
     (''^^='', T_ASSIGN, T_LOGICAL_XOR_ASSIGN, 12),
     (''|'', T_BIT_OR, -1, G_OPERATOR), (''||'', T_LOGICAL_OR, -1, G_OPERATOR), (''|='', T_ASSIGN, T_BIT_OR_ASSIGN, 12),
     (''||='', T_ASSIGN, T_LOGICAL_OR_ASSIGN, 12),
     (''<'', T_LT, -1, G_OPERATOR), (''<='', T_LE, -1, G_OPERATOR), (''<<'', T_LSH, -1, G_OPERATOR), (''<<='', T_ASSIGN, T_LSH_ASSIGN, 12), (''</'', T_LT_SLASH, -1, 0),
     (''='', T_ASSIGN, -1, G_OPERATOR), (''=='', T_EQ, -1, G_OPERATOR), (''==='', T_STRICT_EQ, -1, G_OPERATOR),
     (''>'', T_GT, -1, G_OPERATOR), (''>='', T_GE, -1, G_OPERATOR), (''>>'', T_RSH, -1, G_OPERATOR), (''>>='', T_ASSIGN, T_RSH_ASSIGN, 12),
     (''>>>'', T_RSH_ZERO, -1, G_OPERATOR), (''>>>='', T_ASSIGN, T_RSH_ZERO_ASSIGN, 12)]"

text \<open>The text of the token, with the character behind the operator.\<close>

definition sign_text :: "string \<Rightarrow> char \<Rightarrow> string" where
  "sign_text s sep = (if s = ''>='' then ''<='' else if s = ''=='' \<or> s = ''<<'' then [hd s, sep] else s)"

definition reads :: "string \<Rightarrow> string \<Rightarrow> int \<Rightarrow> int \<Rightarrow> int \<Rightarrow> string \<Rightarrow> int \<times> ec_compiler \<Rightarrow> bool" where
  "reads d t ident sub grp x r \<longleftrightarrow> (case r of (i, cp) \<Rightarrow> i = ident \<and> lexing d t x cp \<and> made ident sub grp cp)"

lemmas op_steps = next_char_lexed add_char_lexed add_string_lexed makeToken_lexed makeSubToken_lexed add_char_step add_string_step makeToken_step makeSubToken_step

lemma get_token_operator:
  assumes "lexing d (ch # t) x cp" "operator_lexer (signed_char ch) = Some f" "\<And>cp1. lexed d ch t x cp1 \<Longrightarrow> returns (f cp1) Q"
    "\<not> is_blank (signed_char ch)" "\<not> is_quote (signed_char ch)" "simple_token (signed_char ch) = None" "signed_char ch \<noteq> -1" "ch \<noteq> NUL"
  shows "returns (get_token cp) Q"
  by (subst get_token.simps, unfold returns_bind, rule next_char_step [OF assms(1)]) (use assms in simp)

lemma get_token_simple:
  assumes "lexing d (ch # t) x cp" "simple_token (signed_char ch) = Some (ident, grp)"
    "\<not> is_blank (signed_char ch)" "\<not> is_quote (signed_char ch)" "signed_char ch \<noteq> -1" "ch \<noteq> NUL"
  shows "returns (get_token cp) (reads (d @ [ch]) t ident (-1) grp (x @ [ch]))"
  by (subst get_token.simps, unfold returns_bind, rule next_char_step [OF assms(1)])
     (use assms in \<open>auto simp: reads_def intro!: makeToken_lexed\<close>)

lemmas lexer_defs = lex_plus_def lex_minus_def lex_star_def lex_percent_def lex_dot_def lex_colon_def lex_not_def lex_less_def lex_equals_def
  lex_greater_def lex_and_def lex_xor_def lex_or_def lex_logical_def

lemma operator_char:
  assumes "lexing d (ch # t) x cp" "(ch, f) \<in> set lexers" "\<And>cp1. lexed d ch t x cp1 \<Longrightarrow> returns (f cp1) Q"
  shows "returns (get_token cp) Q"
proof (rule get_token_operator [OF assms(1) _ assms(3)])
  have ch: "ch \<in> set ''+-*%.:!<=>&^|''" using assms(2) by (auto simp: lexers_def)
  have "distinct (List.map fst lexers)" by (simp add: lexers_def)
  then have "map_of lexers ch = Some f" using assms(2) by simp
  moreover have "map_of (List.map (\<lambda>(ch, t). (ord ch, t)) l) (ord ch) = map_of l ch" for l :: "(char \<times> (ec_compiler \<Rightarrow> (int \<times> ec_compiler) option)) list"
    by (induction l) auto
  ultimately have "map_of (List.map (\<lambda>(ch, t). (ord ch, t)) lexers) (ord ch) = Some f" by simp
  moreover have sg: "signed_char ch = ord ch" using ch by auto
  ultimately show "operator_lexer (signed_char ch) = Some f" unfolding operator_lexer_def sg by simp
  show "\<not> is_blank (signed_char ch)" "\<not> is_quote (signed_char ch)" "simple_token (signed_char ch) = None" "signed_char ch \<noteq> -1" "ch \<noteq> NUL"
    using ch by (auto simp: is_blank_def is_quote_def simple_token_def simple_tokens_def signed_char_def char_code_Char)
qed

lemma digit_chars: "\<not> isdigit CHR ''-''" "\<not> isdigit CHR ''=''" "\<not> isdigit CHR ''.''"
  by (simp_all add: isdigit_def char_code_Char)

lemma operator_reads:
  assumes "(s, i, sub, g) \<in> set signs" "hd s \<in> fst ` set lexers" "blank_char sep" "lexing d (s @ sep # t) [] cp"
  shows "returns (get_token cp) (reads (d @ s) (sep # t) i sub g (sign_text s sep))"
  using assms(1,2,4)
  apply (simp add: signs_def lexers_def)
  apply (elim disjE conjE)
  apply (simp_all add: sign_text_def)
  apply (rule operator_char, assumption, simp add: lexers_def, simp add: lexer_defs, (erule op_steps put_back_step | simp add: blank_other [OF assms(3)] reads_def digit_chars)+)+
  done

text \<open>The table, by first characters.\<close>

lemma simple_signs:
  "\<forall>e \<in> set signs. case e of (s, i, sub, g) \<Rightarrow> hd s \<in> set ''#[](){}@;,?~'' \<longrightarrow>
     length s = 1 \<and> sub = -1 \<and> sign_text s sep = s \<and> map_of simple_tokens (hd s) = Some (i, g)"
  by (simp add: signs_def simple_tokens_def sign_text_def)

lemma slash_signs:
  "\<forall>e \<in> set signs. case e of (s, i, sub, g) \<Rightarrow> hd s = CHR ''/'' \<longrightarrow>
     (s, i, sub, g) \<in> {(''/'', T_DIV, -1, 8), (''/='', T_ASSIGN, T_DIV_ASSIGN, 12), (''/>'', T_SLASH_GT, -1, 8)}"
  by (simp add: signs_def)

lemma all_signs:
  "\<forall>e \<in> set signs. case e of (s, i, sub, g) \<Rightarrow> hd s \<in> set ''+-*%.:!<=>&^|'' \<or> hd s \<in> set ''#[](){}@;,?~'' \<or> hd s = CHR ''/''"
  by (simp add: signs_def)

lemma simple_char:
  assumes "ch \<in> set ''#[](){}@;,?~''"
  shows "\<not> is_blank (signed_char ch)" "\<not> is_quote (signed_char ch)" "signed_char ch \<noteq> -1" "ch \<noteq> NUL" "signed_char ch = ord ch"
  using assms by (auto simp: is_blank_def is_quote_def signed_char_def char_code_Char)

lemma simple_reads:
  assumes "(s, i, sub, g) \<in> set signs" "hd s \<in> set ''#[](){}@;,?~''" "lexing d (s @ sep # t) [] cp"
  shows "returns (get_token cp) (reads (d @ s) (sep # t) i sub g (sign_text s sep))"
proof -
  have "length s = 1" and s: "sub = -1" "sign_text s sep = s" "map_of simple_tokens (hd s) = Some (i, g)"
    using bspec [OF simple_signs [of sep] assms(1)] assms(2) by (simp_all only: prod.case)
  then obtain ch where sc: "s = [ch]" by (auto simp: length_Suc_conv)
  have ch: "ch \<in> set ''#[](){}@;,?~''" using assms(2) unfolding sc by (simp only: list.sel)
  have sg: "signed_char ch = ord ch" by (rule simple_char [OF ch])
  have "map_of (List.map (\<lambda>(ch, t). (ord ch, t)) l) (ord ch) = map_of l ch" for l :: "(char \<times> int \<times> int) list"
    by (induction l) auto
  moreover have "map_of simple_tokens ch = Some (i, g)" using s(3) sc by simp
  ultimately have "simple_token (signed_char ch) = Some (i, g)" unfolding simple_token_def sg by simp
  moreover note simple_char(1-4) [OF ch]
  ultimately have "returns (get_token cp) (reads (d @ [ch]) (sep # t) i (-1) g ([] @ [ch]))"
    using assms(3) sc by (intro get_token_simple) simp_all
  then show ?thesis using s sc by simp
qed

lemma get_token_slash:
  assumes "lexing d (CHR ''/'' # t) x cp"
    "\<And>cp1. lexed d CHR ''/'' t x cp1 \<Longrightarrow> returns (do { (d, cp1) \<leftarrow> next_char cp1;
                    if d = ord CHR ''='' then do { cp2 \<leftarrow> add_char (ord CHR ''/'') cp1; assign_op d T_DIV_ASSIGN cp2 }
                    else if d = ord CHR ''>'' then do { cp2 \<leftarrow> add_char (ord CHR ''/'') cp1; makeToken d T_SLASH_GT G_OPERATOR cp2 }
                    else if d = ord CHR ''*'' \<or> d = ord CHR ''/''
                    then do { (rc, cp2) \<leftarrow> getComment d cp1;
                              if rc < 0 then do { tp \<leftarrow> token cp2; Some (tokenId tp, cp2) }
                              else do { cp3 \<leftarrow> keep_doc cp2; cp4 \<leftarrow> init_token cp3; get_token cp4 } }
                    else do { cp2 \<leftarrow> put_back d cp1; makeToken (ord CHR ''/'') T_DIV G_OPERATOR cp2 } }) Q"
  shows "returns (get_token cp) Q"
proof -
  have c: "signed_char CHR ''/'' = 47" "signed_char CHR ''/'' = ord CHR ''/''" by (simp_all add: signed_char_def char_code_Char)
  have n: "\<not> is_blank (signed_char CHR ''/'')" "\<not> is_quote (signed_char CHR ''/'')" "simple_token (signed_char CHR ''/'') = None"
    "operator_lexer (signed_char CHR ''/'') = None" "signed_char CHR ''/'' \<noteq> -1" "signed_char CHR ''/'' \<noteq> 0"
    by (simp_all add: c(1) is_blank_def is_quote_def simple_token_def simple_tokens_def operator_lexer_def lexers_def char_code_Char)
  show ?thesis
    by (subst get_token.simps, unfold returns_bind, rule next_char_step [OF assms(1)], unfold prod.case)
       (use n c(2) assms(2) in \<open>simp del: returns_bind signed_eq_ord\<close>)
qed

lemma slash_reads:
  assumes "(s, i, sub, g) \<in> set signs" "hd s = CHR ''/''" "blank_char sep" "lexing d (s @ sep # t) [] cp"
  shows "returns (get_token cp) (reads (d @ s) (sep # t) i sub g (sign_text s sep))"
proof -
  consider "s = ''/''" "i = T_DIV" "sub = -1" "g = 8" | "s = ''/=''" "i = T_ASSIGN" "sub = T_DIV_ASSIGN" "g = 12" | "s = ''/>''" "i = T_SLASH_GT" "sub = -1" "g = 8"
    using bspec [OF slash_signs assms(1)] assms(2) by (auto simp only: prod.case insert_iff empty_iff prod.inject)
  then show ?thesis
  proof cases
    case 1
    with assms(4) have "lexing d (CHR ''/'' # sep # t) [] cp" by simp
    then show ?thesis unfolding 1
      by (rule get_token_slash) (simp, (erule op_steps put_back_step | simp add: blank_other [OF assms(3)] reads_def sign_text_def)+)
  next
    case 2
    with assms(4) have "lexing d (CHR ''/'' # CHR ''='' # sep # t) [] cp" by simp
    then show ?thesis unfolding 2
      by (rule get_token_slash) (simp, (erule op_steps put_back_step | simp add: blank_other [OF assms(3)] reads_def sign_text_def)+)
  next
    case 3
    with assms(4) have "lexing d (CHR ''/'' # CHR ''>'' # sep # t) [] cp" by simp
    then show ?thesis unfolding 3
      by (rule get_token_slash) (simp, (erule op_steps put_back_step | simp add: blank_other [OF assms(3)] reads_def sign_text_def)+)
  qed
qed

lemma sign_reads:
  assumes "(s, i, sub, g) \<in> set signs" "blank_char sep" "lexing d (s @ sep # t) [] cp"
  shows "returns (get_token cp) (reads (d @ s) (sep # t) i sub g (sign_text s sep))"
proof -
  have "hd s \<in> set ''+-*%.:!<=>&^|'' \<or> hd s \<in> set ''#[](){}@;,?~'' \<or> hd s = CHR ''/''"
    using bspec [OF all_signs assms(1)] by (simp only: prod.case)
  moreover have "set ''+-*%.:!<=>&^|'' = fst ` set lexers" by (auto simp: lexers_def)
  ultimately show ?thesis using operator_reads [OF assms(1) _ assms(2,3)] simple_reads [OF assms(1) _ assms(3)] slash_reads [OF assms(1) _ assms(2,3)] by blast
qed

section \<open>Runs of characters\<close>

text \<open>The first character of a string has been read, the others are left.\<close>

definition front :: "string \<Rightarrow> string \<Rightarrow> string \<Rightarrow> ec_compiler \<Rightarrow> bool" where
  "front d u x cp \<longleftrightarrow> (\<exists>ch t. u = ch # t \<and> lexed d ch t x cp)"

lemma front_next: "lexing d u x cp \<Longrightarrow> u \<noteq> [] \<Longrightarrow> (\<And>cp1. front d u x cp1 \<Longrightarrow> Q (signed_char (hd u), cp1)) \<Longrightarrow> returns (next_char cp) Q"
  by (cases u) (auto simp: front_def intro: next_char_step)

lemma front_lexing: "front d (ch # u) x cp \<Longrightarrow> lexing (d @ [ch]) u x cp"
  by (auto simp: front_def dest: lexed_lexing)

lemma add_and_next_lexing:
  "lexing d u x cp \<Longrightarrow> u \<noteq> [] \<Longrightarrow> (\<And>cp1. front d u (x @ [to_char c]) cp1 \<Longrightarrow> Q (signed_char (hd u), cp1)) \<Longrightarrow> returns (add_and_next c cp) Q"
  unfolding add_and_next_def returns_bind by (erule add_char_step) (rule front_next, assumption+)

lemma add_and_next_front:
  "front d (ch # u) x cp \<Longrightarrow> u \<noteq> [] \<Longrightarrow> (\<And>cp1. front (d @ [ch]) u (x @ [to_char c]) cp1 \<Longrightarrow> Q (signed_char (hd u), cp1)) \<Longrightarrow> returns (add_and_next c cp) Q"
  by (rule add_and_next_lexing [OF front_lexing])

lemma put_back_front: "front d (ch # u) x cp \<Longrightarrow> ch \<noteq> NUL \<Longrightarrow> (\<And>cp1. lexing d (ch # u) x cp1 \<Longrightarrow> Q cp1) \<Longrightarrow> returns (put_back (signed_char ch) cp) Q"
  by (auto simp: front_def intro: put_back_step)

lemma add_while_reads:
  assumes "\<And>ch. ch \<in> set w \<Longrightarrow> P (signed_char ch) = Some True" "P (signed_char sep) = Some False"
    "\<And>cp1. front (d @ w) (sep # t) (x @ w) cp1 \<Longrightarrow> Q (signed_char sep, cp1)" "front d (w @ sep # t) x cp"
  shows "returns (add_while P (signed_char (hd (w @ [sep]))) cp) Q"
  using assms
proof (induction w arbitrary: d x cp)
  case Nil
  then show ?case by (subst add_while.simps) simp
next
  case (Cons c w)
  have "front d (c # w @ sep # t) x cp" using Cons.prems(4) by simp
  then have "returns (add_and_next (signed_char c) cp) (\<lambda>(c1, cp2). returns (add_while P c1 cp2) Q)"
  proof (rule add_and_next_front)
    fix cp1
    assume "front (d @ [c]) (w @ sep # t) (x @ [to_char (signed_char c)]) cp1"
    then have "returns (add_while P (signed_char (hd (w @ [sep]))) cp1) Q" using Cons.prems by (intro Cons.IH [of "d @ [c]" "x @ [c]"]) auto
    moreover have "hd (w @ sep # t) = hd (w @ [sep])" by (cases w) simp_all
    ultimately show "case (signed_char (hd (w @ sep # t)), cp1) of (c1, cp2) \<Rightarrow> returns (add_while P c1 cp2) Q" by simp
  qed simp
  then show ?case using Cons.prems(1) by (subst add_while.simps) (simp add: add_and_next_def case_prod_unfold)
qed

section \<open>Names\<close>

definition name_start_char :: "char \<Rightarrow> bool" where
  "name_start_char ch \<longleftrightarrow> is_letter ch \<or> ch = CHR ''_'' \<or> ch = CHR ''$''"

definition plain_name :: "string \<Rightarrow> bool" where
  "plain_name w \<longleftrightarrow> w \<noteq> [] \<and> name_start_char (hd w) \<and> (\<forall>ch \<in> set w. name_start_char ch \<or> isdigit ch)"

definition name_numbers :: "string \<Rightarrow> int \<times> int \<times> int" where
  "name_numbers w = (case map_of keywords_table w of Some k \<Rightarrow> (word_token k, word_sub k, word_mask k) | None \<Rightarrow> (T_ID, -1, 0))"

lemma name_char_signed [simp]: "name_char (signed_char ch) \<longleftrightarrow> name_start_char ch \<or> isdigit ch \<or> ch = CHR 0x5C"
  by (auto simp: name_char_def name_start_char_def)

lemma name_no_BS: "name_start_char ch \<or> isdigit ch \<Longrightarrow> ch \<noteq> CHR 0x5C \<and> ch \<noteq> NUL"
  by (auto simp: name_start_char_def is_letter_def isdigit_def tolower_def char_code_Char)

lemma scan_name_reads:
  assumes "\<And>ch. ch \<in> set w \<Longrightarrow> name_start_char ch \<or> isdigit ch" "blank_char sep"
    "\<And>cp1. front (d @ w) (sep # t) (x @ w) cp1 \<Longrightarrow> Q (signed_char sep, cp1)" "front d (w @ sep # t) x cp"
  shows "returns (scan_name (signed_char (hd (w @ [sep]))) cp) Q"
  using assms
proof (induction w arbitrary: d x cp)
  case Nil
  have "\<not> name_start_char sep" using blank_other [OF assms(2)] by (simp add: name_start_char_def)
  with Nil blank_other [OF assms(2)] show ?case by (subst scan_name.simps) simp
next
  case (Cons c w)
  have c: "name_start_char c \<or> isdigit c" "c \<noteq> CHR 0x5C" using Cons.prems(1) [of c] name_no_BS by auto
  have "front d (c # w @ sep # t) x cp" using Cons.prems(4) by simp
  then have "returns (add_and_next (signed_char c) cp) (\<lambda>(c1, cp2). returns (scan_name c1 cp2) Q)"
  proof (rule add_and_next_front)
    fix cp1
    assume "front (d @ [c]) (w @ sep # t) (x @ [to_char (signed_char c)]) cp1"
    then have "returns (scan_name (signed_char (hd (w @ [sep]))) cp1) Q" using Cons.prems by (intro Cons.IH [of "d @ [c]" "x @ [c]"]) auto
    moreover have "hd (w @ sep # t) = hd (w @ [sep])" by (cases w) simp_all
    ultimately show "case (signed_char (hd (w @ sep # t)), cp1) of (c1, cp2) \<Rightarrow> returns (scan_name c1 cp2) Q" by simp
  qed simp
  then show ?case using c by (subst scan_name.simps) (simp add: case_prod_unfold)
qed

lemma signed_is [simp]:
  "is_blank (signed_char ch) \<longleftrightarrow> blank_char ch" "is_quote (signed_char ch) \<longleftrightarrow> ch \<in> {CHR 0x22, CHR 0x27, CHR 0x60}"
  "signed_char ch = -1 \<longleftrightarrow> ch = CHR 0xFF"
proof -
  have k: "signed_char ch = k \<longleftrightarrow> ch = c" if "signed_char c = k" for k c using that signed_char_eq by metis
  have lit: "signed_char CHR 0x0C = 12" "signed_char CHR 0x09 = 9" "signed_char CHR 0x0B = 11" "signed_char CHR 0x0D = 13" "signed_char CHR 0xFF = -1"
    by (simp_all add: signed_char_def char_code_Char)
  have "char_code ch < 256" by (simp add: char_code_def of_char_less)
  then have "signed_char ch \<noteq> 0xA0" by (simp add: signed_char_def)
  then show "is_blank (signed_char ch) \<longleftrightarrow> blank_char ch"
    by (auto simp: is_blank_def blank_char_def k [OF lit(1)] k [OF lit(2)] k [OF lit(3)] k [OF lit(4)])
  show "is_quote (signed_char ch) \<longleftrightarrow> ch \<in> {CHR 0x22, CHR 0x27, CHR 0x60}" by (auto simp: is_quote_def)
  show "signed_char ch = -1 \<longleftrightarrow> ch = CHR 0xFF" by (rule k [OF lit(5)])
qed

text \<open>The characters that start something else.\<close>

definition special_chars :: string where
  "special_chars = ''#[](){}@;,?~+-*%.:!<=>&^|/ '' @ [CHR 0x09, CHR 0x0A, CHR 0x0B, CHR 0x0C, CHR 0x0D, CHR 0x22, CHR 0x27, CHR 0x60, CHR 0xFF, NUL, CHR 0x5C]"

lemma starts_no_other:
  assumes "ch \<notin> set special_chars"
  shows "\<not> blank_char ch" "ch \<notin> {CHR 0x22, CHR 0x27, CHR 0x60}" "ch \<noteq> CHR 0xFF" "ch \<noteq> NUL" "simple_token (signed_char ch) = None"
    "operator_lexer (signed_char ch) = None" "ch \<noteq> CHR ''/''" "ch \<noteq> CHR 0x5C"
  using assms by (simp_all add: special_chars_def blank_char_def simple_token_def simple_tokens_def operator_lexer_def lexers_def)

lemma start_not_special: "name_start_char ch \<or> isdigit ch \<Longrightarrow> ch \<notin> set special_chars"
proof -
  have "list_all (\<lambda>ch. \<not> name_start_char ch \<and> \<not> isdigit ch) special_chars" by code_simp
  then show "name_start_char ch \<or> isdigit ch \<Longrightarrow> ch \<notin> set special_chars" by (auto simp: list_all_iff)
qed

lemma start_no_digit: "name_start_char ch \<Longrightarrow> \<not> isdigit ch"
  by (auto simp: name_start_char_def is_letter_def isdigit_def tolower_def char_code_def split: if_splits)

lemma makeAlphaToken_reads:
  assumes "plain_name w" "blank_char sep" "front d (w @ sep # t) [] cp"
  shows "returns (makeAlphaToken (signed_char (hd w)) cp) (\<lambda>r. case name_numbers w of (i, sub, g) \<Rightarrow> reads (d @ w) (sep # t) i sub g w r)"
proof -
  have w: "w \<noteq> []" "\<And>ch. ch \<in> set w \<Longrightarrow> name_start_char ch \<or> isdigit ch" using assms(1) by (auto simp: plain_name_def)
  have cs: "c_string w" using w(2) name_no_BS by (auto simp: c_string_def)
  have "returns (scan_name (signed_char (hd (w @ [sep]))) cp)
     (\<lambda>(c1, cp1). returns (if c1 \<noteq> 0 then put_back c1 cp1 else Some cp1) (\<lambda>cp2. returns (lookup_keyword cp2)
     (\<lambda>(rp, cp3). returns (case rp of Some k \<Rightarrow> finish (word_token k) (word_sub k) (word_mask k) cp3 | None \<Rightarrow> finish T_ID (-1) 0 cp3)
        (\<lambda>r. case name_numbers w of (i, sub, g) \<Rightarrow> reads (d @ w) (sep # t) i sub g w r))))"
  proof (rule scan_name_reads [OF w(2) assms(2) _ assms(3)], assumption, unfold prod.case)
    fix cp1
    assume f: "front (d @ w) (sep # t) ([] @ w) cp1"
    have "returns (put_back (signed_char sep) cp1) (\<lambda>cp2. returns (lookup_keyword cp2)
     (\<lambda>(rp, cp3). returns (case rp of Some k \<Rightarrow> finish (word_token k) (word_sub k) (word_mask k) cp3 | None \<Rightarrow> finish T_ID (-1) 0 cp3)
        (\<lambda>r. case name_numbers w of (i, sub, g) \<Rightarrow> reads (d @ w) (sep # t) i sub g w r)))"
    proof (rule put_back_front [OF f], rule blank_other [OF assms(2)], rule lookup_keyword_step, assumption, unfold prod.case)
      fix cp2 name cp3
      assume l: "lexing (d @ w) (sep # t) ([] @ w) cp3" and n: "c_string ([] @ w) \<and> [] @ w \<noteq> [] \<longrightarrow> name = [] @ w"
      then have "name = w" using cs w(1) by simp
      with l show "returns (case map_of keywords_table name of Some k \<Rightarrow> finish (word_token k) (word_sub k) (word_mask k) cp3 | None \<Rightarrow> finish T_ID (-1) 0 cp3)
        (\<lambda>r. case name_numbers w of (i, sub, g) \<Rightarrow> reads (d @ w) (sep # t) i sub g w r)"
        by (auto simp: name_numbers_def reads_def intro!: finish_step split: option.split)
    qed
    with blank_other [OF assms(2)] show "returns (if signed_char sep \<noteq> 0 then put_back (signed_char sep) cp1 else Some cp1) (\<lambda>cp2. returns (lookup_keyword cp2)
     (\<lambda>(rp, cp3). returns (case rp of Some k \<Rightarrow> finish (word_token k) (word_sub k) (word_mask k) cp3 | None \<Rightarrow> finish T_ID (-1) 0 cp3)
        (\<lambda>r. case name_numbers w of (i, sub, g) \<Rightarrow> reads (d @ w) (sep # t) i sub g w r)))" by simp
  qed
  moreover have "hd (w @ [sep]) = hd w" using w(1) by simp
  ultimately show ?thesis by (simp add: makeAlphaToken_def case_prod_unfold)
qed

lemma name_reads:
  assumes "plain_name w" "blank_char sep" "lexing d (w @ sep # t) [] cp"
  shows "returns (get_token cp) (\<lambda>r. case name_numbers w of (i, sub, g) \<Rightarrow> reads (d @ w) (sep # t) i sub g w r)"
proof -
  obtain c v where w: "w = c # v" "name_start_char c" using assms(1) by (cases w) (auto simp: plain_name_def)
  have l: "lexing d (c # v @ sep # t) [] cp" using assms(3) w(1) by simp
  have a: "is_letter c \<or> c = CHR ''_'' \<or> c = CHR ''$''" using w(2) by (simp add: name_start_char_def)
  have m: "returns (makeAlphaToken (signed_char c) cp1) (\<lambda>r. case name_numbers w of (i, sub, g) \<Rightarrow> reads (d @ w) (sep # t) i sub g w r)"
    if "lexed d c (v @ sep # t) [] cp1" for cp1
    using makeAlphaToken_reads [OF assms(1,2), of d t cp1] that w(1) by (simp add: front_def)
  show ?thesis
    by (subst get_token.simps, unfold returns_bind, rule next_char_step [OF l], unfold prod.case)
       (use starts_no_other [OF start_not_special, of c] start_no_digit [OF w(2)] w(2) a m in \<open>auto simp: Let_def\<close>)
qed

section \<open>Numbers\<close>

text \<open>The forms of numbers: hexadecimal, octal, and decimal with a fraction and an exponent.\<close>

datatype numeral = Hex char string | Octal string | Decimal string "string option" "(char \<times> string \<times> string) option"

fun show_fraction :: "string option \<Rightarrow> string" where
  "show_fraction None = []"
| "show_fraction (Some f) = CHR ''.'' # f"

fun show_exponent :: "(char \<times> string \<times> string) option \<Rightarrow> string" where
  "show_exponent None = []"
| "show_exponent (Some (e, sg, ds)) = e # sg @ ds"

fun show_numeral :: "numeral \<Rightarrow> string" where
  "show_numeral (Hex x ds) = CHR ''0'' # x # ds"
| "show_numeral (Octal ds) = CHR ''0'' # ds"
| "show_numeral (Decimal i f e) = i @ show_fraction f @ show_exponent e"

definition is_hex :: "char \<Rightarrow> bool" where
  "is_hex ch \<longleftrightarrow> isdigit ch \<or> (97 \<le> tolower ch \<and> tolower ch \<le> 102)"

fun good_exponent :: "(char \<times> string \<times> string) option \<Rightarrow> bool" where
  "good_exponent None \<longleftrightarrow> True"
| "good_exponent (Some (e, sg, ds)) \<longleftrightarrow> tolower e = 101 \<and> sg \<in> {'''', ''+'', ''-''} \<and> list_all isdigit ds"

text \<open>A decimal number starts with a digit, with zero only in front of the fraction or exponent, or with the point in front of a digit.\<close>

fun good_numeral :: "numeral \<Rightarrow> bool" where
  "good_numeral (Hex x ds) \<longleftrightarrow> tolower x = 120 \<and> list_all is_hex ds"
| "good_numeral (Octal ds) \<longleftrightarrow> ds \<noteq> [] \<and> list_all (\<lambda>ch. isdigit ch \<and> ch \<notin> {CHR ''8'', CHR ''9''}) ds"
| "good_numeral (Decimal i f e) \<longleftrightarrow> list_all isdigit i \<and> list_all isdigit (concat (case f of None \<Rightarrow> [] | Some ds \<Rightarrow> [ds])) \<and> good_exponent e
     \<and> (i = [] \<longrightarrow> (\<exists>ds. f = Some ds \<and> ds \<noteq> [])) \<and> (i \<noteq> [] \<and> hd i = CHR ''0'' \<longrightarrow> i = ''0'')"

lemma number_token_reads:
  assumes "front d (sep # t) x cp" "sep \<noteq> NUL"
  shows "returns (number_token (signed_char sep) cp) (reads d (sep # t) T_NUMBER (-1) 0 x)"
  unfolding number_token_def returns_bind by (rule put_back_front [OF assms]) (auto simp: reads_def intro!: finish_step)

lemma tolower_chars: "tolower ch = 101 \<Longrightarrow> \<not> isdigit ch \<and> ch \<noteq> CHR ''.'' \<and> ch \<noteq> CHR ''+'' \<and> ch \<noteq> CHR ''-'' \<and> ch \<noteq> NUL"
  by (auto simp: tolower_def isdigit_def char_code_def split: if_splits)

text \<open>What follows the digits: the first character of the exponent or the blank stops them.\<close>

lemma exponent_head:
  assumes "good_exponent e" "blank_char sep"
  shows "\<exists>h u. show_exponent e @ sep # t = h # u \<and> \<not> isdigit h \<and> h \<noteq> CHR ''.'' \<and> h \<noteq> NUL"
proof (cases e)
  case None
  with blank_other [OF assms(2)] show ?thesis by simp
next
  case (Some p)
  obtain a sg ds where "p = (a, sg, ds)" by (cases p)
  with Some assms(1) tolower_chars [of a] show ?thesis by simp
qed

lemma add_digits_reads:
  assumes "list_all isdigit w" "\<not> isdigit h" "front d (w @ h # u) x cp"
    "\<And>cp1. front (d @ w) (h # u) (x @ w) cp1 \<Longrightarrow> Q (signed_char h, cp1)"
  shows "returns (add_while (\<lambda>c. Some (uisdigit c)) (signed_char (hd (w @ [h]))) cp) Q"
  using assms by (intro add_while_reads [where w = w and sep = h and t = u and d = d and x = x]) (auto simp: list_all_iff)

lemma exponent_reads:
  assumes e: "good_exponent e" and sep: "blank_char sep" and u: "show_exponent e @ sep # t = h # u" and f: "front d (h # u) x cp"
    and Q: "\<And>cp1. front (d @ show_exponent e) (sep # t) (x @ show_exponent e) cp1 \<Longrightarrow> Q (signed_char sep, cp1)"
  shows "returns (float_exponent (signed_char h) cp) Q"
proof (cases e)
  case None
  with u have "h = sep" "u = t" by simp_all
  with None f Q blank_other [OF sep] show ?thesis by (simp add: float_exponent_def char_code_Char)
next
  case (Some p)
  obtain a sg ds where p: "p = (a, sg, ds)" by (cases p)
  have h: "h = a" "u = sg @ ds @ sep # t" "tolower a = ord CHR ''e''" "list_all isdigit ds" "sg \<in> {'''', ''+'', ''-''}"
    using u e Some p by (auto simp: char_code_Char)
  have ns: "\<not> isdigit sep" using blank_other [OF sep] by simp
  have digits: "returns (add_while (\<lambda>c. Some (uisdigit c)) (signed_char (hd (ds @ [sep]))) cp2) Q"
    if "front (d @ a # sg) (ds @ sep # t) (x @ a # sg) cp2" for cp2
    using Q Some p by (intro add_digits_reads [OF h(4) ns that]) simp
  have hd: "hd (ds @ sep # t) = hd (ds @ [sep])" by (cases ds) simp_all
  have nsg: "hd (ds @ [sep]) \<noteq> CHR ''+''" "hd (ds @ [sep]) \<noteq> CHR ''-''"
    using h(4) blank_other [OF sep] by (cases ds; auto simp: isdigit_def char_code_Char)+
  have f1: "front d (a # sg @ ds @ sep # t) x cp" using f h by simp
  have "returns (add_and_next (signed_char a) cp) (\<lambda>(dd, cp1). returns (if dd = ord CHR ''+'' \<or> dd = ord CHR ''-'' then add_and_next dd cp1 else Some (dd, cp1))
        (\<lambda>(e, cp2). returns (add_while (\<lambda>c. Some (uisdigit c)) e cp2) Q))"
  proof (rule add_and_next_front [OF f1], simp, unfold prod.case)
    fix cp1
    assume f2: "front (d @ [a]) (sg @ ds @ sep # t) (x @ [to_char (signed_char a)]) cp1"
    consider "sg = ''''" | s where "sg = [s]" "s = CHR ''+'' \<or> s = CHR ''-''" using h(5) by auto
    then show "returns (if signed_char (hd (sg @ ds @ sep # t)) = ord CHR ''+'' \<or> signed_char (hd (sg @ ds @ sep # t)) = ord CHR ''-''
        then add_and_next (signed_char (hd (sg @ ds @ sep # t))) cp1 else Some (signed_char (hd (sg @ ds @ sep # t)), cp1))
        (\<lambda>(e, cp2). returns (add_while (\<lambda>c. Some (uisdigit c)) e cp2) Q)"
    proof cases
      case 1
      then show ?thesis using f2 digits [of cp1] nsg hd by simp
    next
      case 2
      then have f3: "front (d @ [a]) (s # ds @ sep # t) (x @ [a]) cp1" using f2 by simp
      have "returns (add_and_next (signed_char s) cp1) (\<lambda>(e, cp2). returns (add_while (\<lambda>c. Some (uisdigit c)) e cp2) Q)"
        by (rule add_and_next_front [OF f3]) (use digits 2 hd in simp_all)
      with 2 show ?thesis by auto
    qed
  qed
  then show ?thesis using h(1,3) by (simp add: float_exponent_def case_prod_unfold)
qed


lemma fraction_reads:
  assumes "list_all isdigit (concat (case f of None \<Rightarrow> [] | Some ds \<Rightarrow> [ds]))" "\<not> isdigit h" "h \<noteq> CHR ''.''"
    "front d (show_fraction f @ h # u) x cp"
    "\<And>cp1. front (d @ show_fraction f) (h # u) (x @ show_fraction f) cp1 \<Longrightarrow> Q (signed_char h, cp1)"
  shows "returns (float_fraction (signed_char (hd (show_fraction f @ [h]))) cp) Q"
proof (cases f)
  case None
  with assms add_digits_reads [of "[]" h d u x cp Q] show ?thesis by (simp add: float_fraction_def)
next
  case (Some ds)
  have f1: "front d (CHR ''.'' # ds @ h # u) x cp" using assms(4) Some by simp
  have "returns (add_and_next (signed_char CHR ''.'') cp) (\<lambda>(c1, cp1). returns (add_while (\<lambda>c. Some (uisdigit c)) c1 cp1) Q)"
  proof (rule add_and_next_front [OF f1], simp, unfold prod.case)
    fix cp1
    assume "front (d @ ''.'') (ds @ h # u) (x @ [to_char (signed_char CHR ''.'')]) cp1"
    then have "returns (add_while (\<lambda>c. Some (uisdigit c)) (signed_char (hd (ds @ [h]))) cp1) Q"
      using assms(1,2,5) Some by (intro add_digits_reads [of ds h "d @ ''.''" u "x @ ''.''"]) simp_all
    moreover have "hd (ds @ h # u) = hd (ds @ [h])" by (cases ds) simp_all
    ultimately show "returns (add_while (\<lambda>c. Some (uisdigit c)) (signed_char (hd (ds @ h # u))) cp1) Q" by simp
  qed
  with Some show ?thesis by (simp add: float_fraction_def case_prod_unfold)
qed

lemma fraction_dot_reads:
  assumes "list_all isdigit ds" "\<not> isdigit h" "lexing d (ds @ h # u) x cp"
    "\<And>cp1. front (d @ ds) (h # u) (x @ CHR ''.'' # ds) cp1 \<Longrightarrow> Q (signed_char h, cp1)"
  shows "returns (float_fraction (ord CHR ''.'') cp) Q"
proof -
  have "returns (add_and_next (ord CHR ''.'') cp) (\<lambda>(c1, cp1). returns (add_while (\<lambda>c. Some (uisdigit c)) c1 cp1) Q)"
  proof (rule add_and_next_lexing [OF assms(3)], simp, unfold prod.case)
    fix cp1
    assume "front d (ds @ h # u) (x @ [to_char (ord CHR ''.'')]) cp1"
    then have "returns (add_while (\<lambda>c. Some (uisdigit c)) (signed_char (hd (ds @ [h]))) cp1) Q"
      using assms(1,2,4) by (intro add_digits_reads [of ds h d u "x @ ''.''"]) simp_all
    moreover have "hd (ds @ h # u) = hd (ds @ [h])" by (cases ds) simp_all
    ultimately show "returns (add_while (\<lambda>c. Some (uisdigit c)) (signed_char (hd (ds @ h # u))) cp1) Q" by simp
  qed
  then show ?thesis by (simp add: float_fraction_def case_prod_unfold)
qed

lemma exponent_number_reads:
  assumes "good_exponent e" "blank_char sep" "show_exponent e @ sep # t = h # u" "front d (h # u) x cp"
  shows "returns (float_exponent (signed_char h) cp) (\<lambda>(c3, cp3). returns (number_token c3 cp3)
     (reads (d @ show_exponent e) (sep # t) T_NUMBER (-1) 0 (x @ show_exponent e)))"
  by (rule exponent_reads [OF assms], unfold prod.case) (erule number_token_reads, rule blank_other [OF assms(2)])

lemma float_reads:
  assumes g: "list_all isdigit i" "list_all isdigit (concat (case f of None \<Rightarrow> [] | Some ds \<Rightarrow> [ds]))" "good_exponent e" and sep: "blank_char sep"
    and fr: "front d (i @ show_fraction f @ show_exponent e @ sep # t) x cp"
  shows "returns (float_token (signed_char (hd (i @ show_fraction f @ show_exponent e @ [sep]))) cp)
     (reads (d @ i @ show_fraction f @ show_exponent e) (sep # t) T_NUMBER (-1) 0 (x @ i @ show_fraction f @ show_exponent e))"
proof -
  obtain h u where hu: "show_exponent e @ sep # t = h # u" "\<not> isdigit h" "h \<noteq> CHR ''.''" using exponent_head [OF g(3) sep] by blast
  have hd_h: "hd (show_exponent e @ [sep]) = h" using hu(1) by (cases "show_exponent e") auto
  obtain k v where kv: "show_fraction f @ h # u = k # v" by (cases "show_fraction f") auto
  have k: "\<not> isdigit k" using kv hu(2) by (cases f) (auto simp: isdigit_def char_code_Char)
  have hd_k: "hd (show_fraction f @ [h]) = k" "hd (show_fraction f @ show_exponent e @ [sep]) = k"
    using kv hd_h by (cases f; simp)+
  have hd_i: "hd (i @ show_fraction f @ show_exponent e @ [sep]) = hd (i @ [k])" using hd_k(2) by (cases i) simp_all
  have "returns (add_while (\<lambda>c. Some (uisdigit c)) (signed_char (hd (i @ [k]))) cp) (\<lambda>(c1, cp1). returns (float_fraction c1 cp1)
     (\<lambda>(c2, cp2). returns (float_exponent c2 cp2) (\<lambda>(c3, cp3). returns (number_token c3 cp3)
     (reads (d @ i @ show_fraction f @ show_exponent e) (sep # t) T_NUMBER (-1) 0 (x @ i @ show_fraction f @ show_exponent e)))))"
  proof (rule add_digits_reads [OF g(1) k, of d v x], unfold prod.case)
    show "front d (i @ k # v) x cp" using fr hu(1) kv by simp
    fix cp1
    assume "front (d @ i) (k # v) (x @ i) cp1"
    then have "front (d @ i) (show_fraction f @ h # u) (x @ i) cp1" using kv by simp
    then have "returns (float_fraction (signed_char k) cp1)
      (\<lambda>(c2, cp2). returns (float_exponent c2 cp2) (\<lambda>(c3, cp3). returns (number_token c3 cp3)
       (reads ((d @ i @ show_fraction f) @ show_exponent e) (sep # t) T_NUMBER (-1) 0 ((x @ i @ show_fraction f) @ show_exponent e))))"
      unfolding hd_k(1) [symmetric] by (rule fraction_reads [OF g(2) hu(2,3)], unfold prod.case)
        (rule exponent_number_reads [OF g(3) sep hu(1)], simp)
    then show "returns (float_fraction (signed_char k) cp1)
      (\<lambda>(c2, cp2). returns (float_exponent c2 cp2) (\<lambda>(c3, cp3). returns (number_token c3 cp3)
       (reads (d @ i @ show_fraction f @ show_exponent e) (sep # t) T_NUMBER (-1) 0 (x @ i @ show_fraction f @ show_exponent e))))" by simp
  qed
  with hd_i show ?thesis by (simp add: float_token_def case_prod_unfold)
qed

lemma float_token_digit: "uisdigit c \<Longrightarrow> float_token c cp = do { (c1, cp1) \<leftarrow> add_and_next c cp; float_token c1 cp1 }"
  unfolding float_token_def by (subst add_while.simps) (simp add: add_and_next_def case_prod_unfold)

text \<open>The three forms, and the number that starts with a point.\<close>

lemma float_token_no_digit: "\<not> uisdigit c \<Longrightarrow> float_token c cp = do { (c2, cp2) \<leftarrow> float_fraction c cp; (c3, cp3) \<leftarrow> float_exponent c2 cp2; number_token c3 cp3 }"
  unfolding float_token_def by (subst add_while.simps) (simp add: case_prod_unfold)

lemma dot_number_reads:
  assumes "list_all isdigit ds" "good_exponent e" "blank_char sep" "lexing d (ds @ show_exponent e @ sep # t) [] cp"
  shows "returns (makeNumberToken (ord CHR ''.'') cp) (reads (d @ ds @ show_exponent e) (sep # t) T_NUMBER (-1) 0 (CHR ''.'' # ds @ show_exponent e))"
proof -
  obtain h u where hu: "show_exponent e @ sep # t = h # u" "\<not> isdigit h" using exponent_head [OF assms(2,3)] by blast
  have l: "lexing d (ds @ h # u) [] cp" using assms(4) hu(1) by simp
  have "returns (float_fraction (ord CHR ''.'') cp) (\<lambda>(c2, cp2). returns (float_exponent c2 cp2) (\<lambda>(c3, cp3). returns (number_token c3 cp3)
       (reads (d @ ds @ show_exponent e) (sep # t) T_NUMBER (-1) 0 (CHR ''.'' # ds @ show_exponent e))))"
    by (rule fraction_dot_reads [OF assms(1) hu(2) l]) (use exponent_number_reads [OF assms(2,3) hu(1), of "d @ ds" "CHR ''.'' # ds"] in simp)
  then show ?thesis by (simp add: makeNumberToken_def float_token_no_digit digit_chars case_prod_unfold)
qed

lemma zero_reads:
  assumes g: "list_all isdigit (concat (case f of None \<Rightarrow> [] | Some ds \<Rightarrow> [ds]))" "good_exponent e" and sep: "blank_char sep"
    and l: "lexing d (show_fraction f @ show_exponent e @ sep # t) [] cp"
  shows "returns (makeNumberToken (ord CHR ''0'') cp)
     (reads (d @ show_fraction f @ show_exponent e) (sep # t) T_NUMBER (-1) 0 (CHR ''0'' # show_fraction f @ show_exponent e))"
proof -
  obtain h u where hu: "show_exponent e @ sep # t = h # u" "\<not> isdigit h" "h \<noteq> CHR ''.''" "h \<noteq> NUL" using exponent_head [OF g(2) sep] by blast
  have hx: "tolower h \<noteq> 120" using hu(1) g(2) blank_other [OF sep] by (cases e) auto
  obtain k v where kv: "show_fraction f @ show_exponent e @ sep # t = k # v" "\<not> isdigit k" "tolower k \<noteq> 120" "k \<noteq> NUL"
    using hu hx by (cases f) (auto simp: isdigit_def tolower_def char_code_Char)
  have oct: "\<not> is_octal (signed_char k)"
  proof -
    have "char_code k < 256" by (simp add: char_code_def of_char_less)
    with kv(2) show ?thesis by (auto simp: is_octal_def isdigit_def signed_char_def char_code_Char split: if_splits)
  qed
  have l1: "lexing d (k # v) [] cp" using l kv(1) by simp
  have k_hd: "hd (show_fraction f @ show_exponent e @ [sep]) = k" using kv(1) by (cases f; cases "show_exponent e") auto
  have "returns (next_char cp) (\<lambda>(c1, cp1). returns (put_back c1 cp1) (\<lambda>cp2. returns (float_token (ord CHR ''0'') cp2)
     (reads (d @ show_fraction f @ show_exponent e) (sep # t) T_NUMBER (-1) 0 (CHR ''0'' # show_fraction f @ show_exponent e))) \<and> c1 = signed_char k)"
  proof (rule next_char_step [OF l1], unfold prod.case, intro conjI refl, erule put_back_step, rule kv(4))
    fix cp1
    assume l2: "lexing d (k # v) [] cp1"
    have "isdigit CHR ''0''" by (simp add: isdigit_def char_code_Char)
    then have z: "uisdigit (ord CHR ''0'')" by simp
    have "returns (add_and_next (ord CHR ''0'') cp1) (\<lambda>(c1, cp2). returns (float_token c1 cp2)
     (reads (d @ show_fraction f @ show_exponent e) (sep # t) T_NUMBER (-1) 0 (CHR ''0'' # show_fraction f @ show_exponent e)))"
    proof (rule add_and_next_lexing [OF l2], simp, unfold prod.case)
      fix cp2
      assume "front d (k # v) ([] @ [to_char (ord CHR ''0'')]) cp2"
      then have "front d ([] @ show_fraction f @ show_exponent e @ sep # t) ''0'' cp2" using kv(1) by simp
      from float_reads [OF _ g sep this] k_hd
      show "returns (float_token (signed_char (hd (k # v))) cp2)
         (reads (d @ show_fraction f @ show_exponent e) (sep # t) T_NUMBER (-1) 0 (CHR ''0'' # show_fraction f @ show_exponent e))" by simp
    qed
    then show "returns (float_token (ord CHR ''0'') cp1)
         (reads (d @ show_fraction f @ show_exponent e) (sep # t) T_NUMBER (-1) 0 (CHR ''0'' # show_fraction f @ show_exponent e))"
      unfolding float_token_digit [OF z] by (simp add: case_prod_unfold)
  qed
  then show ?thesis
    unfolding makeNumberToken_def by (auto simp: oct kv(3) char_code_Char elim!: returns_mono)
qed

lemma tolower_code: "tolower ch = (if 65 \<le> char_code ch \<and> char_code ch \<le> 90 then char_code ch + 32 else char_code ch)"
  by (simp add: tolower_def char_code_def Let_def)

lemma ord_letters: "ord CHR ''x'' = 120" "ord CHR ''a'' = 97" "ord CHR ''f'' = 102"
  by (simp_all add: char_code_Char)

lemma zero_lit: "signed_char CHR ''0'' = ord CHR ''0''" "isdigit CHR ''0''"
  by (simp, simp add: isdigit_def char_code_Char)

lemma hex_reads:
  assumes "tolower x = 120" "list_all is_hex ds" "blank_char sep" "front d (CHR ''0'' # x # ds @ sep # t) [] cp"
  shows "returns (makeNumberToken (signed_char CHR ''0'') cp) (reads (d @ CHR ''0'' # x # ds) (sep # t) T_NUMBER (-1) 0 (CHR ''0'' # x # ds))"
proof -
  have l: "lexing (d @ ''0'') (x # ds @ sep # t) [] cp" using assms(4) by (rule front_lexing)
  have hexd: "isxdigit (signed_char ch) = Some True" if "is_hex ch" for ch
  proof -
    have "char_code ch < 128" using that by (auto simp: is_hex_def isdigit_def tolower_code split: if_splits)
    then have "0 \<le> signed_char ch" by (simp add: signed_char_def char_code_def)
    moreover have "ch \<noteq> CHR 0xFF" using that by (auto simp: is_hex_def isdigit_def tolower_code char_code_Char)
    ultimately show ?thesis using that by (simp add: isxdigit_def is_hex_def ord_letters)
  qed
  have hexs: "isxdigit (signed_char sep) = Some False"
  proof -
    have "char_code sep \<le> 32" using assms(3) by (auto simp: blank_char_def char_code_Char)
    then have "0 \<le> signed_char sep" "\<not> isdigit sep" "tolower sep < 97" by (simp_all add: signed_char_def isdigit_def tolower_code char_code_def)
    then show ?thesis by (simp add: isxdigit_def ord_letters)
  qed
  have hd: "hd (ds @ sep # t) = hd (ds @ [sep])" by (cases ds) simp_all
  have "returns (next_char cp) (\<lambda>(c1, cp1). c1 = signed_char x \<and> returns (add_char (ord CHR ''0'') cp1) (\<lambda>cp2. returns (add_and_next c1 cp2) (\<lambda>(c2, cp3).
     returns (add_while isxdigit c2 cp3) (\<lambda>(c3, cp4). returns (number_token c3 cp4)
       (reads (d @ CHR ''0'' # x # ds) (sep # t) T_NUMBER (-1) 0 (CHR ''0'' # x # ds))))))"
  proof (rule next_char_step [OF l], unfold prod.case, intro conjI refl, erule add_char_lexed)
    fix cp2
    assume "lexed (d @ ''0'') x (ds @ sep # t) ([] @ [to_char (ord CHR ''0'')]) cp2"
    then have f: "front (d @ ''0'') (x # ds @ sep # t) ''0'' cp2" by (simp add: front_def)
    show "returns (add_and_next (signed_char x) cp2) (\<lambda>(c2, cp3). returns (add_while isxdigit c2 cp3) (\<lambda>(c3, cp4). returns (number_token c3 cp4)
       (reads (d @ CHR ''0'' # x # ds) (sep # t) T_NUMBER (-1) 0 (CHR ''0'' # x # ds))))"
    proof (rule add_and_next_front [OF f], simp, unfold prod.case hd)
      fix cp3
      assume "front ((d @ ''0'') @ [x]) (ds @ sep # t) (''0'' @ [to_char (signed_char x)]) cp3"
      then have g: "front (d @ CHR ''0'' # [x]) (ds @ sep # t) (CHR ''0'' # [x]) cp3" by simp
      show "returns (add_while isxdigit (signed_char (hd (ds @ [sep]))) cp3) (\<lambda>(c3, cp4). returns (number_token c3 cp4)
         (reads (d @ CHR ''0'' # x # ds) (sep # t) T_NUMBER (-1) 0 (CHR ''0'' # x # ds)))"
        by (rule add_while_reads [where P = isxdigit and w = ds and sep = sep, OF _ hexs _ g], use assms(2) in \<open>simp add: hexd list_all_iff\<close>, unfold prod.case)
          (use number_token_reads [where sep = sep] blank_other [OF assms(3)] in fastforce)
    qed
  qed
  then show ?thesis
    unfolding makeNumberToken_def by (auto simp: assms(1) ord_letters zero_lit(1) case_prod_unfold elim!: returns_mono simp del: signed_eq_ord)
qed

lemma octal_reads:
  assumes "ds \<noteq> []" "list_all (\<lambda>ch. isdigit ch \<and> ch \<notin> {CHR ''8'', CHR ''9''}) ds" "blank_char sep" "front d (CHR ''0'' # ds @ sep # t) [] cp"
  shows "returns (makeNumberToken (signed_char CHR ''0'') cp) (reads (d @ CHR ''0'' # ds) (sep # t) T_NUMBER (-1) 0 (CHR ''0'' # ds))"
proof -
  obtain o1 os where ds: "ds = o1 # os" using assms(1) by (cases ds) auto
  have l: "lexing (d @ ''0'') (o1 # os @ sep # t) [] cp" using assms(4) ds by (auto dest: front_lexing)
  have oct: "is_octal (signed_char ch)" if "isdigit ch \<and> ch \<notin> {CHR ''8'', CHR ''9''}" for ch
  proof -
    have "char_code ch \<noteq> ord CHR ''8''" "char_code ch \<noteq> ord CHR ''9''" using that by auto
    with that show ?thesis by (auto simp: is_octal_def isdigit_def signed_char_def char_code_Char)
  qed
  have no: "\<not> is_octal (signed_char sep)"
    using assms(3) by (auto simp: blank_char_def is_octal_def signed_char_def char_code_Char)
  have o1: "is_octal (signed_char o1)" "isdigit o1" using assms(2) ds oct by simp_all
  have nx: "tolower o1 \<noteq> 120" using o1(2) by (auto simp: tolower_def isdigit_def char_code_def)
  have hd: "hd (os @ sep # t) = hd (os @ [sep])" by (cases os) simp_all
  have "returns (next_char cp) (\<lambda>(c1, cp1). c1 = signed_char o1 \<and> returns (add_char (ord CHR ''0'') cp1) (\<lambda>cp2. returns (add_and_next c1 cp2) (\<lambda>(c2, cp3).
     returns (add_while (\<lambda>c. Some (is_octal c)) c2 cp3) (\<lambda>(c3, cp4). returns (number_token c3 cp4)
       (reads (d @ CHR ''0'' # ds) (sep # t) T_NUMBER (-1) 0 (CHR ''0'' # ds))))))"
  proof (rule next_char_step [OF l], unfold prod.case, intro conjI refl, erule add_char_lexed)
    fix cp2
    assume "lexed (d @ ''0'') o1 (os @ sep # t) ([] @ [to_char (ord CHR ''0'')]) cp2"
    then have f: "front (d @ ''0'') (o1 # os @ sep # t) ''0'' cp2" by (simp add: front_def)
    show "returns (add_and_next (signed_char o1) cp2) (\<lambda>(c2, cp3). returns (add_while (\<lambda>c. Some (is_octal c)) c2 cp3) (\<lambda>(c3, cp4). returns (number_token c3 cp4)
       (reads (d @ CHR ''0'' # ds) (sep # t) T_NUMBER (-1) 0 (CHR ''0'' # ds))))"
    proof (rule add_and_next_front [OF f], simp, unfold prod.case hd)
      fix cp3
      assume "front ((d @ ''0'') @ [o1]) (os @ sep # t) (''0'' @ [to_char (signed_char o1)]) cp3"
      then have g: "front (d @ CHR ''0'' # [o1]) (os @ sep # t) (CHR ''0'' # [o1]) cp3" by simp
      show "returns (add_while (\<lambda>c. Some (is_octal c)) (signed_char (hd (os @ [sep]))) cp3) (\<lambda>(c3, cp4). returns (number_token c3 cp4)
         (reads (d @ CHR ''0'' # ds) (sep # t) T_NUMBER (-1) 0 (CHR ''0'' # ds)))"
        by (rule add_while_reads [where P = "\<lambda>c. Some (is_octal c)" and w = os and sep = sep, OF _ _ _ g], use assms(2) ds oct in \<open>simp add: list_all_iff\<close>, simp add: no, unfold prod.case)
          (use number_token_reads [where sep = sep] blank_other [OF assms(3)] ds in fastforce)
    qed
  qed
  then show ?thesis
    unfolding makeNumberToken_def by (auto simp: o1(1) nx ord_letters zero_lit(1) case_prod_unfold elim!: returns_mono simp del: signed_eq_ord)
qed

lemma get_token_digit:
  assumes "lexing d (c # u) [] cp" "isdigit c" "\<And>cp1. front d (c # u) [] cp1 \<Longrightarrow> returns (makeNumberToken (signed_char c) cp1) Q"
  shows "returns (get_token cp) Q"
  by (subst get_token.simps, unfold returns_bind, rule next_char_step [OF assms(1)], unfold prod.case)
     (use starts_no_other [OF start_not_special, of c] assms(2,3) in \<open>auto simp: front_def\<close>)

lemma numeral_reads:
  assumes g: "good_numeral nm" and sep: "blank_char sep" and l: "lexing d (show_numeral nm @ sep # t) [] cp"
  shows "returns (get_token cp) (reads (d @ show_numeral nm) (sep # t) T_NUMBER (-1) 0 (show_numeral nm))"
proof (cases nm)
  case (Hex x ds)
  show ?thesis using l g hex_reads [OF _ _ sep] Hex by (auto intro!: get_token_digit simp: zero_lit(2))
next
  case (Octal ds)
  show ?thesis using l g octal_reads [OF _ _ sep] Octal by (auto intro!: get_token_digit simp: zero_lit(2))
next
  case (Decimal i f e)
  note gd = g [unfolded Decimal good_numeral.simps]
  show ?thesis
  proof (cases i)
    case Nil
    then obtain c ds where f: "f = Some (c # ds)" using gd by (metis neq_Nil_conv)
    have cd: "isdigit c" "list_all isdigit (c # ds)" using gd f by simp_all
    have l1: "lexing d (CHR ''.'' # c # ds @ show_exponent e @ sep # t) [] cp" using l Decimal Nil f by simp
    have c: "c \<noteq> CHR ''.''" "c \<noteq> NUL" using cd(1) by (auto simp: isdigit_def char_code_Char)
    have "returns (lex_dot cp1) (reads (d @ CHR ''.'' # c # ds @ show_exponent e) (sep # t) T_NUMBER (-1) 0 (CHR ''.'' # c # ds @ show_exponent e))"
      if "lexed d CHR ''.'' (c # ds @ show_exponent e @ sep # t) [] cp1" for cp1
    proof -
      have n: "returns (makeNumberToken (ord CHR ''.'') cp2) (reads (d @ CHR ''.'' # c # ds @ show_exponent e) (sep # t) T_NUMBER (-1) 0 (CHR ''.'' # c # ds @ show_exponent e))"
        if "lexing (d @ ''.'') (c # ds @ show_exponent e @ sep # t) [] cp2" for cp2
        using dot_number_reads [OF cd(2) _ sep, of e "d @ ''.''" t cp2] gd that by simp
      show ?thesis
        unfolding lex_dot_def returns_bind
        by (rule next_char_lexed [OF that], unfold prod.case) (use cd(1) c n in \<open>auto elim!: put_back_step\<close>)
    qed
    with l1 show ?thesis unfolding Decimal Nil f by (auto intro!: operator_char [of d "CHR ''.''" _ "[]" cp lex_dot] simp: lexers_def)
  next
    case (Cons c w)
    have cd: "isdigit c" using gd Cons by simp
    have l1: "lexing d (c # w @ show_fraction f @ show_exponent e @ sep # t) [] cp" using l Decimal Cons by simp
    show ?thesis
    proof (cases "c = CHR ''0''")
      case True
      then have w: "w = []" using gd Cons by simp
      show ?thesis
        unfolding Decimal Cons True w
        by (rule get_token_digit [OF l1 [unfolded True w append_Nil]])
          (use zero_reads [of f e sep "d @ ''0''" t] gd sep in \<open>auto simp: zero_lit dest: front_lexing simp del: signed_eq_ord\<close>)
    next
      case False
      then have ne: "signed_char c \<noteq> ord CHR ''0''" by simp
      show ?thesis
      proof (rule get_token_digit [OF l1 cd])
        fix cp1
        assume "front d (c # w @ show_fraction f @ show_exponent e @ sep # t) [] cp1"
        then have "front d (i @ show_fraction f @ show_exponent e @ sep # t) [] cp1" using Cons by simp
        from float_reads [OF _ _ _ sep this] gd have "returns (float_token (signed_char c) cp1)
           (reads (d @ i @ show_fraction f @ show_exponent e) (sep # t) T_NUMBER (-1) 0 ([] @ i @ show_fraction f @ show_exponent e))" using Cons by simp
        with ne Decimal show "returns (makeNumberToken (signed_char c) cp1) (reads (d @ show_numeral nm) (sep # t) T_NUMBER (-1) 0 (show_numeral nm))"
          by (simp add: makeNumberToken_def)
      qed
    qed
  qed
qed

section \<open>Strings\<close>

text \<open>A string in quotes: the quote and the backslash are escaped, control characters are written with two hexadecimal digits.\<close>

definition hex_pair :: "char \<Rightarrow> string" where
  "hex_pair ch = (let n = (of_char ch :: nat) in [digits ! (n div 16), digits ! (n mod 16)])"

definition print_char :: "char \<Rightarrow> char \<Rightarrow> string" where
  "print_char q ch =
     (if ch = q \<or> ch = CHR 0x5C then [CHR 0x5C, ch] else if 32 \<le> char_code ch then [ch] else CHR 0x5C # CHR ''x'' # hex_pair ch)"

definition quote_char :: "char \<Rightarrow> bool" where
  "quote_char q \<longleftrightarrow> q \<in> {CHR 0x22, CHR 0x27, CHR 0x60}"

lemma hex_pair_digits: "\<exists>a b. a < 16 \<and> b < 16 \<and> hex_pair ch = [digits ! a, digits ! b] \<and> char_code ch = int (a * 16 + b)"
proof -
  let ?n = "of_char ch :: nat"
  have "?n < 256" by (rule of_char_less)
  then have "?n div 16 < 16" by (simp add: less_mult_imp_div_less)
  moreover have "char_code ch = int (?n div 16 * 16 + ?n mod 16)" unfolding char_code_def by (metis div_mult_mod_eq)
  ultimately show ?thesis unfolding hex_pair_def Let_def by (intro exI [of _ "?n div 16"] exI [of _ "?n mod 16"]) simp
qed

lemma stoiradix_pair:
  assumes "a < 16" "b < 16"
  shows "stoiradix [digits ! a, digits ! b] 16 = Some (0, int (a * 16 + b))"
proof -
  have l: "digit_law a" "digit_law b" using assms by (simp_all add: digit_laws)
  have "is_digits 16 [digits ! a, digits ! b]" using assms by (auto simp: is_digits_def)
  moreover have n: "number 16 0 [digits ! a, digits ! b] = int (a * 16 + b)" using l by (simp add: number_def digit_law_def)
  ultimately have "hex_digits [digits ! a, digits ! b] 0 = Some (int (a * 16 + b), [])"
    using read_digits [of 16 "[digits ! a, digits ! b]" 0] assms by simp
  then show ?thesis using l by (simp add: stoiradix_def digit_law_def radix_prefix_def second_is_x_def)
qed

lemma escape_hex:
  assumes "a < 16"
  shows "escape_digit 16 (signed_char (digits ! a))" "digits ! a \<noteq> NUL"
proof -
  have l: "digit_law a" using assms by (rule digit_laws)
  have "uisdigit (48 + int a)" if "a < 10"
    using that by (simp add: uisdigit_def to_char_def isdigit_def char_code_def nat_add_distrib)
  then show "escape_digit 16 (signed_char (digits ! a))"
    using l assms by (cases "a < 10") (auto simp: escape_digit_def digit_law_def ord_letters)
  have "\<not> isdigit NUL" "tolower NUL = 0" by (simp_all add: isdigit_def tolower_def char_code_def)
  with l show "digits ! a \<noteq> NUL" by (cases "a < 10") (auto simp: digit_law_def)
qed

lemma decode_pair:
  assumes "lexing d (hex_pair ch @ t) x cp" "\<And>cp1. lexing (d @ hex_pair ch) t x cp1 \<Longrightarrow> Q (char_code ch, cp1)"
  shows "returns (decodeNumber 16 2 cp) Q"
proof -
  obtain a b where ab: "a < 16" "b < 16" "hex_pair ch = [digits ! a, digits ! b]" "char_code ch = int (a * 16 + b)"
    using hex_pair_digits by blast
  have "char_code ch < 256" by (simp add: char_code_def of_char_less)
  then have v: "c_int (int (a * 16 + b)) = char_code ch" using ab(4) by (simp add: c_int_id)
  have l: "lexing d (digits ! a # digits ! b # t) x cp" using assms(1) ab(3) by simp
  show ?thesis
    unfolding decodeNumber_def numeral_2_eq_2 decode_digits.simps returns_bind
  proof (rule next_char_step [OF l], unfold prod.case)
    fix cp1
    assume l1: "lexed d (digits ! a) (digits ! b # t) x cp1"
    have "returns (next_char cp1) (\<lambda>(c, cp2). returns (if c = 0 \<or> \<not> escape_digit 16 c then do { cp3 \<leftarrow> put_back c cp2; Some ([digits ! a], cp3) }
         else decode_digits 16 0 ([digits ! a] @ [to_char c]) cp2) (\<lambda>(ds, cp1). returns (stoiradix ds 16) (\<lambda>(_, v). Q (c_int v, cp1))))"
    proof (rule next_char_lexed [OF l1], unfold prod.case)
      fix cp2
      assume l2: "lexed (d @ [digits ! a]) (digits ! b) t x cp2"
      have "lexing (d @ hex_pair ch) t x cp2" using lexed_lexing [OF l2] ab(3) by simp
      with assms(2) show "returns (if signed_char (digits ! b) = 0 \<or> \<not> escape_digit 16 (signed_char (digits ! b)) then do { cp3 \<leftarrow> put_back (signed_char (digits ! b)) cp2; Some ([digits ! a], cp3) }
         else decode_digits 16 0 ([digits ! a] @ [to_char (signed_char (digits ! b))]) cp2) (\<lambda>(ds, cp1). returns (stoiradix ds 16) (\<lambda>(_, v). Q (c_int v, cp1)))"
        using escape_hex [OF ab(2)] stoiradix_pair [OF ab(1,2)] v by simp
    qed
    then show "returns (if signed_char (digits ! a) = 0 \<or> \<not> escape_digit 16 (signed_char (digits ! a)) then do { cp2 \<leftarrow> put_back (signed_char (digits ! a)) cp1; Some ([], cp2) }
         else do { (c, cp1) \<leftarrow> next_char cp1;
                   if c = 0 \<or> \<not> escape_digit 16 c then do { cp2 \<leftarrow> put_back c cp1; Some ([] @ [to_char (signed_char (digits ! a))], cp2) }
                   else Some (([] @ [to_char (signed_char (digits ! a))]) @ [to_char c], cp1) })
         (\<lambda>x. returns (case x of (ds, cp1) \<Rightarrow> do { (_, v) \<leftarrow> stoiradix ds 16; Some (c_int v, cp1) }) Q)"
      using escape_hex [OF ab(1)] by (auto simp: case_prod_unfold elim!: returns_mono)
  qed
qed


lemma hd_sep: "hd (l @ q # t) = hd (l @ [q])"
  by (cases l) simp_all

lemma scan_quoted_step:
  assumes "c \<noteq> 0" "c \<noteq> q" "returns (if c = ord CHR 0x5C then do { (d, cpa) \<leftarrow> next_char cp; escape d cpa } else Some (c, cp))
     (\<lambda>(c1, cp1). returns (add_and_next c1 cp1) (\<lambda>(c2, cp2). returns (scan_quoted_token q c2 cp2) Q))"
  shows "returns (scan_quoted_token q c cp) Q"
  using assms by (subst scan_quoted_token.simps) (simp add: case_prod_unfold)

lemma print_char_head: "quote_char q \<Longrightarrow> \<exists>h u. print_char q ch = h # u \<and> h \<noteq> q \<and> h \<noteq> NUL"
  by (auto simp: print_char_def quote_char_def char_code_Char)

lemma escape_self: "quote_char ch \<or> ch = CHR 0x5C \<Longrightarrow> escape (signed_char ch) cp = Some (signed_char ch, cp)"
  by (auto simp: escape_def quote_char_def)

lemma scan_quoted_reads:
  assumes "quote_char q" "front d (concat (List.map (print_char q) s) @ q # t) x cp"
    "\<And>cp1. lexing (d @ concat (List.map (print_char q) s) @ [q]) t (x @ s) cp1 \<Longrightarrow> Q cp1"
  shows "returns (scan_quoted_token (signed_char q) (signed_char (hd (concat (List.map (print_char q) s) @ [q]))) cp) Q"
  using assms(2,3)
proof (induction s arbitrary: d x cp)
  case Nil
  have "lexing (d @ [q]) t x cp" using Nil.prems(1) by (auto dest: front_lexing)
  then show ?case using Nil.prems(2) by (subst scan_quoted_token.simps) simp
next
  case (Cons c s)
  let ?u = "concat (List.map (print_char q) s) @ q # t"
  have hd: "hd ?u = hd (concat (List.map (print_char q) s) @ [q])" by (rule hd_sep)
  have IH: "returns (scan_quoted_token (signed_char q) (signed_char (hd ?u)) cp1) Q"
    if "front (d @ print_char q c) ?u (x @ [c]) cp1" for cp1
    unfolding hd using that Cons.prems(2) by (intro Cons.IH [of "d @ print_char q c" "x @ [c]"]) simp_all
  have qn: "q \<noteq> NUL" "q \<noteq> CHR 0x5C" using assms(1) by (auto simp: quote_char_def)
  have fr: "front d (print_char q c @ ?u) x cp" using Cons.prems(1) by simp
  consider "c = q \<or> c = CHR 0x5C" | "c \<noteq> q" "c \<noteq> CHR 0x5C" "32 \<le> char_code c" | "c \<noteq> q" "c \<noteq> CHR 0x5C" "\<not> 32 \<le> char_code c" by blast
  then have "returns (scan_quoted_token (signed_char q) (signed_char (hd (print_char q c))) cp) Q"
  proof cases
    case 1
    then have pc: "print_char q c = [CHR 0x5C, c]" by (simp add: print_char_def)
    have cq: "quote_char c \<or> c = CHR 0x5C" using 1 assms(1) by auto
    have l: "lexing (d @ [CHR 0x5C]) (c # ?u) x cp" using fr pc by (auto dest: front_lexing)
    have "returns (next_char cp) (\<lambda>(e, cp1). returns (escape e cp1) (\<lambda>(c1, cp1). returns (add_and_next c1 cp1) (\<lambda>(c2, cp2). returns (scan_quoted_token (signed_char q) c2 cp2) Q)))"
    proof (rule next_char_step [OF l], unfold prod.case escape_self [OF cq] returns_Some)
      fix cp1
      assume "lexed (d @ [CHR 0x5C]) c ?u x cp1"
      then have "front (d @ [CHR 0x5C]) (c # ?u) x cp1" by (simp add: front_def)
      then show "returns (add_and_next (signed_char c) cp1) (\<lambda>(c2, cp2). returns (scan_quoted_token (signed_char q) c2 cp2) Q)"
        by (rule add_and_next_front) (use IH pc in simp_all)
    qed
    then show ?thesis using pc qn by (intro scan_quoted_step) (auto simp: case_prod_unfold)
  next
    case 2
    then have pc: "print_char q c = [c]" by (simp add: print_char_def)
    have "c \<noteq> NUL" using 2(3) by (auto simp: char_code_Char)
    moreover have "returns (add_and_next (signed_char c) cp) (\<lambda>(c2, cp2). returns (scan_quoted_token (signed_char q) c2 cp2) Q)"
      by (rule add_and_next_front [of d c ?u x]) (use IH pc fr in simp_all)
    ultimately show ?thesis using pc 2 by (intro scan_quoted_step) simp_all
  next
    case 3
    then have pc: "print_char q c = CHR 0x5C # CHR ''x'' # hex_pair c" by (simp add: print_char_def)
    have l: "lexing (d @ [CHR 0x5C]) (CHR ''x'' # hex_pair c @ ?u) x cp" using fr pc by (auto dest: front_lexing)
    have "returns (next_char cp) (\<lambda>(e, cp1). returns (escape e cp1) (\<lambda>(c1, cp1). returns (add_and_next c1 cp1) (\<lambda>(c2, cp2). returns (scan_quoted_token (signed_char q) c2 cp2) Q)))"
    proof (rule next_char_step [OF l], unfold prod.case)
      fix cp1
      assume "lexed (d @ [CHR 0x5C]) CHR ''x'' (hex_pair c @ ?u) x cp1"
      then have l1: "lexing (d @ [CHR 0x5C, CHR ''x'']) (hex_pair c @ ?u) x cp1" by (auto dest: lexed_lexing)
      have "escape (signed_char CHR ''x'') cp1 = decodeNumber 16 2 cp1" by (simp add: escape_def)
      moreover have "returns (decodeNumber 16 2 cp1) (\<lambda>(c1, cp1). returns (add_and_next c1 cp1) (\<lambda>(c2, cp2). returns (scan_quoted_token (signed_char q) c2 cp2) Q))"
      proof (rule decode_pair [OF l1], unfold prod.case)
        fix cp2
        assume "lexing ((d @ [CHR 0x5C, CHR ''x'']) @ hex_pair c) ?u x cp2"
        then have "lexing (d @ print_char q c) ?u x cp2" using pc by simp
        then show "returns (add_and_next (char_code c) cp2) (\<lambda>(c2, cp2). returns (scan_quoted_token (signed_char q) c2 cp2) Q)"
          by (rule add_and_next_lexing) (use IH in simp_all)
      qed
      ultimately show "returns (escape (signed_char CHR ''x'') cp1) (\<lambda>(c1, cp1). returns (add_and_next c1 cp1) (\<lambda>(c2, cp2). returns (scan_quoted_token (signed_char q) c2 cp2) Q))" by simp
    qed
    then show ?thesis using pc qn by (intro scan_quoted_step) (auto simp: case_prod_unfold)
  qed
  moreover have "hd (concat (List.map (print_char q) (c # s)) @ [q]) = hd (print_char q c)"
    using print_char_head [OF assms(1), of c] by auto
  ultimately show ?case by simp
qed

lemma string_reads:
  assumes "quote_char q" "lexing d (q # concat (List.map (print_char q) s) @ q # t) [] cp"
  shows "returns (get_token cp) (reads (d @ q # concat (List.map (print_char q) s) @ [q]) t T_STRING (-1) 0 s)"
proof -
  let ?u = "concat (List.map (print_char q) s) @ q # t"
  have hd: "hd ?u = hd (concat (List.map (print_char q) s) @ [q])" by (rule hd_sep)
  have q: "\<not> blank_char q" "q \<noteq> NUL" "q \<noteq> CHR 0xFF" "q \<in> {CHR 0x22, CHR 0x27, CHR 0x60}" using assms(1) by (auto simp: quote_char_def blank_char_def)
  have "returns (makeQuotedToken (signed_char q) cp1) (reads (d @ q # concat (List.map (print_char q) s) @ [q]) t T_STRING (-1) 0 s)"
    if l: "lexed d q ?u [] cp1" for cp1
    unfolding makeQuotedToken_def returns_bind
  proof (rule front_next [OF lexed_lexing [OF l]], simp, unfold prod.case hd returns_bind, rule scan_quoted_reads [OF assms(1)], assumption)
    fix cp2 cp3
    assume l3: "lexing ((d @ [q]) @ concat (List.map (print_char q) s) @ [q]) t ([] @ s) cp3"
    then obtain tp b where "token cp3 = Some tp" "ttext tp = Some b" by (auto simp: lexing_def ready_def token_ok_def)
    with l3 show "returns (token cp3) (\<lambda>tp. returns (if ttext tp = None then None else finish T_STRING (-1) 0 cp3)
        (reads (d @ q # concat (List.map (print_char q) s) @ [q]) t T_STRING (-1) 0 s))"
      by (auto simp: reads_def intro!: finish_step)
  qed
  then show ?thesis
    by (subst get_token.simps, unfold returns_bind, intro next_char_step [OF assms(2)], unfold prod.case) (use q in auto)
qed

end
