(* ===== verification/LexSource.thy ===== *)
theory LexSource
  imports LexRead
begin

text \<open>
  What the lexer makes of a whole source: white space and comments are skipped, and a source that is written as names, numbers, strings
  and operators is read as their tokens.
\<close>

section \<open>White space and comments\<close>

datatype gap = Blank char | Block string | Line string | Cut char string char

fun show_gap :: "gap \<Rightarrow> string" where
  "show_gap (Blank c) = [c]"
| "show_gap (Block s) = ''/*'' @ s @ ''*/''"
| "show_gap (Line s) = ''//'' @ s @ [CHR 0x0A]"
| "show_gap (Cut form s b) = CHR ''/'' # form # s @ [b]"

definition ascii :: "char \<Rightarrow> bool" where
  "ascii ch \<longleftrightarrow> ch \<noteq> NUL \<and> char_code ch < 128"

definition block_char :: "char \<Rightarrow> bool" where
  "block_char ch \<longleftrightarrow> ascii ch \<and> ch \<noteq> CHR ''*'' \<and> ch \<noteq> CHR ''/''"

definition line_char :: "char \<Rightarrow> bool" where
  "line_char ch \<longleftrightarrow> ascii ch \<and> ch \<noteq> CHR 0x0A \<and> ch \<noteq> CHR 0x0D"

text \<open>
  Comments of seven bit characters; a block comment without stars and slashes. A character of eight bits cuts the comment: it
  is negative, and the code behind goes on as if the comment had ended.
\<close>

fun good_gap :: "gap \<Rightarrow> bool" where
  "good_gap (Blank c) \<longleftrightarrow> blank_char c"
| "good_gap (Block s) \<longleftrightarrow> list_all block_char s"
| "good_gap (Line s) \<longleftrightarrow> list_all line_char s"
| "good_gap (Cut form s b) \<longleftrightarrow> (form = CHR ''*'' \<and> list_all block_char s \<or> form = CHR ''/'' \<and> list_all line_char s) \<and> 128 \<le> char_code b"

lemma ascii_signed: "ascii ch \<Longrightarrow> \<not> signed_char ch \<le> 0"
proof -
  assume a: "ascii ch"
  then have "signed_char ch \<noteq> 0" by (simp add: ascii_def)
  moreover have "0 \<le> char_code ch" by (simp add: char_code_def)
  then have "0 \<le> signed_char ch" using a by (simp add: ascii_def signed_char_def)
  ultimately show ?thesis by simp
qed

lemma signed_RETURN [simp]: "signed_char ch = RETURN \<longleftrightarrow> ch = CHR 0x0D"
  using signed_eq_ord [of ch "CHR 0x0D"] by (simp add: char_code_Char)

lemma comment_step:
  assumes "0 < c" "returns (next_char cp) (\<lambda>(c, cp). 0 < c \<and> returns
       (if form = ord CHR ''/''
         then (if c = NEWLINE \<or> c = RETURN then Some (0, cp)
               else do { cp1 \<leftarrow> add_char c cp; comment_loop form l c cp1 })
         else if c = ord CHR ''*''
         then do { (d, cp1) \<leftarrow> next_char cp;
                   if d = ord CHR ''/'' then Some (0, cp1)
                   else do { cp2 \<leftarrow> add_char (ord CHR ''*'') cp1; cp3 \<leftarrow> put_back d cp2; cp4 \<leftarrow> add_char d cp3; comment_loop form l d cp4 } }
         else if c = ord CHR ''/''
         then do { (d, cp1) \<leftarrow> next_char cp;
                   let cp2 = (if d = ord CHR ''*'' \<and> warnLevel cp1 > 0 then ecError ''Warning'' ''Possible nested comment'' cp1 else cp1);
                   cp3 \<leftarrow> add_char (ord CHR ''/'') cp2; cp4 \<leftarrow> add_char d cp3; comment_loop form l d cp4 }
         else do { cp1 \<leftarrow> add_char c cp; comment_loop form l c cp1 }) Q)"
  shows "returns (comment_loop form l c cp) Q"
  using assms by (subst comment_loop.simps) (auto simp: returns_def)

lemma block_reads:
  assumes "list_all block_char s" "lexing d (s @ CHR ''*'' # CHR ''/'' # t) x cp" "0 < c"
    "\<And>y cp1. lexing (d @ s @ ''*/'') t y cp1 \<Longrightarrow> Q (0, cp1)"
  shows "returns (comment_loop (ord CHR ''*'') l c cp) Q"
  using assms
proof (induction s arbitrary: d x c cp)
  case Nil
  have l: "lexing d (CHR ''*'' # CHR ''/'' # t) x cp" using Nil.prems(2) by simp
  show ?case
    by (rule comment_step [OF Nil.prems(3)], rule next_char_step [OF l], unfold prod.case)
       (auto simp: signed_char_def char_code_Char intro!: next_char_step Nil.prems(4) [simplified] dest!: lexed_lexing)
next
  case (Cons a s)
  have a: "a \<noteq> CHR ''*''" "a \<noteq> CHR ''/''" "0 < signed_char a" using Cons.prems(1) ascii_signed [of a] by (auto simp: block_char_def)
  have l: "lexing d (a # s @ CHR ''*'' # CHR ''/'' # t) x cp" using Cons.prems(2) by simp
  show ?case
    by (rule comment_step [OF Cons.prems(3)], rule next_char_step [OF l], unfold prod.case)
       (use a Cons.prems(1,4) in \<open>auto intro!: add_char_step [OF lexed_lexing] Cons.IH [of "d @ [a]"]\<close>)
qed

lemma line_reads:
  assumes "list_all line_char s" "lexing d (s @ CHR 0x0A # t) x cp" "0 < c"
    "\<And>y cp1. lexing (d @ s @ [CHR 0x0A]) t y cp1 \<Longrightarrow> Q (0, cp1)"
  shows "returns (comment_loop (ord CHR ''/'') l c cp) Q"
  using assms
proof (induction s arbitrary: d x c cp)
  case Nil
  have l: "lexing d (CHR 0x0A # t) x cp" using Nil.prems(2) by simp
  show ?case
    by (rule comment_step [OF Nil.prems(3)], rule next_char_step [OF l], unfold prod.case)
       (auto simp: signed_char_def char_code_Char dest!: lexed_lexing intro!: Nil.prems(4) [simplified])
next
  case (Cons a s)
  have a: "a \<noteq> CHR 0x0A" "a \<noteq> CHR 0x0D" "0 < signed_char a" using Cons.prems(1) ascii_signed [of a] by (auto simp: line_char_def)
  have l: "lexing d (a # s @ CHR 0x0A # t) x cp" using Cons.prems(2) by simp
  show ?case
    by (rule comment_step [OF Cons.prems(3)], rule next_char_step [OF l], unfold prod.case)
       (use a Cons.prems(1,4) in \<open>auto intro!: add_char_step [OF lexed_lexing] Cons.IH [of "d @ [a]"]\<close>)
qed

lemma comment_stop:
  assumes "0 < c" "returns (next_char cp) (\<lambda>(c, cp1). c \<le> 0 \<and> lexing e t x cp1)" "\<And>y cp1. lexing e t y cp1 \<Longrightarrow> Q (1, cp1)"
  shows "returns (comment_loop form l c cp) Q"
proof -
  obtain c1 cp1 where n: "next_char cp = Some (c1, cp1)" "c1 \<le> 0" "lexing e t x cp1" using assms(2) by (auto elim!: returnsE)
  have "returns (add_string (''Unterminated comment starting on line '' @ decimal l) cp1)
     (\<lambda>cp1. returns (makeToken 0 (if form = ord CHR ''/'' then T_EOF else T_ERR) 0 cp1) (\<lambda>(_, cp2). Q (1, cp2)))"
    by (rule add_string_step [OF n(3)]) (auto intro!: makeToken_step assms(3))
  with assms(1) n(1,2) show ?thesis by (subst comment_loop.simps) (auto simp: returns_def)
qed

lemma stop_reads:
  assumes "form = CHR ''*'' \<and> list_all block_char s \<or> form = CHR ''/'' \<and> list_all line_char s" "lexing d (s @ u) x cp" "0 < c"
    "\<And>y cp1. lexing (d @ s) u y cp1 \<Longrightarrow> returns (next_char cp1) (\<lambda>(c, cp2). c \<le> 0 \<and> lexing e t y cp2)"
    "\<And>y cp1. lexing e t y cp1 \<Longrightarrow> Q (1, cp1)"
  shows "returns (comment_loop (char_code form) l c cp) Q"
  using assms
proof (induction s arbitrary: d x c cp)
  case Nil
  then show ?case by (intro comment_stop [of c cp e t x]) simp_all
next
  case (Cons a s)
  have a: "form = CHR ''*'' \<and> a \<noteq> CHR ''*'' \<and> a \<noteq> CHR ''/'' \<or> form = CHR ''/'' \<and> a \<noteq> CHR 0x0A \<and> a \<noteq> CHR 0x0D" "0 < signed_char a"
    using Cons.prems(1) ascii_signed [of a] by (auto simp: block_char_def line_char_def)
  have l: "lexing d (a # s @ u) x cp" using Cons.prems(2) by simp
  have IH: "returns (comment_loop (char_code form) l (signed_char a) cp1) Q" if "lexing (d @ [a]) (s @ u) y cp1" for cp1 y
    using Cons.prems(1,4,5) by (intro Cons.IH [OF _ that a(2)]) auto
  have "returns (add_char (signed_char a) cp1) (\<lambda>cp1. returns (comment_loop (char_code form) l (signed_char a) cp1) Q)"
    if "lexed d a (s @ u) x cp1" for cp1 by (rule add_char_step [OF lexed_lexing [OF that]], rule IH)
  with a show ?case
    by (intro comment_step [OF Cons.prems(3)] next_char_step [OF l]) auto
qed

text \<open>A character of eight bits, and the end of the source, in a comment.\<close>

lemma cut_reads:
  assumes "form = CHR ''*'' \<and> list_all block_char s \<or> form = CHR ''/'' \<and> list_all line_char s" "lexing d (s @ b # t) x cp" "0 < c" "128 \<le> char_code b"
    "\<And>y cp1. lexing (d @ s @ [b]) t y cp1 \<Longrightarrow> Q (1, cp1)"
  shows "returns (comment_loop (char_code form) l c cp) Q"
proof -
  have "char_code b < 256" by (simp add: char_code_def of_char_less)
  then have n: "signed_char b \<le> 0" using assms(4) by (simp add: signed_char_def)
  show ?thesis
    by (rule stop_reads [OF assms(1-3), of "d @ s @ [b]" t]) (use n in \<open>auto intro!: next_char_step assms(5) dest: lexed_lexing\<close>)
qed

lemma end_reads:
  assumes "form = CHR ''*'' \<and> list_all block_char s \<or> form = CHR ''/'' \<and> list_all line_char s" "lexing d s x cp" "0 < c"
    "\<And>y cp1. lexing (d @ s) [] y cp1 \<Longrightarrow> Q (1, cp1)"
  shows "returns (comment_loop (char_code form) l c cp) Q"
  by (rule stop_reads [OF assms(1) _ assms(3), of d "[]" x cp "d @ s" "[]"]) (use assms(2,4) in \<open>auto intro: next_char_end_step\<close>)

lemma comment_skipped:
  assumes l: "lexed d CHR ''/'' (form # u @ t) x cp" and form: "form = CHR ''*'' \<or> form = CHR ''/''"
    and loop: "\<And>cp1 (R :: int \<times> ec_compiler \<Rightarrow> bool). lexing (d @ [CHR ''/'', form]) (u @ t) x cp1 \<Longrightarrow> (\<And>rc y cp2. 0 \<le> rc \<Longrightarrow> lexing (d @ CHR ''/'' # form # u) t y cp2 \<Longrightarrow> R (rc, cp2))
       \<Longrightarrow> returns (comment_loop (signed_char form) (lineNumber (loc (stream cp1))) (signed_char form) cp1) R"
    and Q: "\<And>cp1. lexing (d @ CHR ''/'' # form # u) t [] cp1 \<Longrightarrow> returns (get_token cp1) Q"
  shows "returns (next_char cp) (\<lambda>(e, cp1). e = signed_char form \<and> returns (getComment e cp1)
     (\<lambda>(rc, cp2). \<not> rc < 0 \<and> returns (keep_doc cp2) (\<lambda>cp3. returns (init_token cp3) (\<lambda>cp4. returns (get_token cp4) Q))))"
proof (rule next_char_lexed [OF l], unfold prod.case getComment_def, intro conjI refl)
  fix cp1
  assume "lexed (d @ [CHR ''/'']) form (u @ t) x cp1"
  then have "lexing (d @ [CHR ''/'', form]) (u @ t) x cp1" by (auto dest: lexed_lexing)
  then show "returns (comment_loop (signed_char form) (lineNumber (loc (stream cp1))) (signed_char form) cp1)
     (\<lambda>(rc, cp2). \<not> rc < 0 \<and> returns (keep_doc cp2) (\<lambda>cp3. returns (init_token cp3) (\<lambda>cp4. returns (get_token cp4) Q)))"
  proof (rule loop, unfold prod.case, intro conjI)
    fix rc :: int and y cp2
    assume "0 \<le> rc" and m: "lexing (d @ CHR ''/'' # form # u) t y cp2"
    then show "\<not> rc < 0" by simp
    show "returns (keep_doc cp2) (\<lambda>cp3. returns (init_token cp3) (\<lambda>cp4. returns (get_token cp4) Q))"
      by (rule keep_doc_step [OF m], erule init_token_step, erule Q)
  qed
qed

lemma get_token_comment:
  assumes "lexing d (CHR ''/'' # form # u @ t) x cp" and form: "form = CHR ''*'' \<or> form = CHR ''/''"
    and "\<And>cp1 (R :: int \<times> ec_compiler \<Rightarrow> bool). lexing (d @ [CHR ''/'', form]) (u @ t) x cp1 \<Longrightarrow> (\<And>rc y cp2. 0 \<le> rc \<Longrightarrow> lexing (d @ CHR ''/'' # form # u) t y cp2 \<Longrightarrow> R (rc, cp2))
       \<Longrightarrow> returns (comment_loop (signed_char form) (lineNumber (loc (stream cp1))) (signed_char form) cp1) R"
    and "\<And>cp1. lexing (d @ CHR ''/'' # form # u) t [] cp1 \<Longrightarrow> returns (get_token cp1) Q"
  shows "returns (get_token cp) Q"
proof (rule get_token_slash [OF assms(1)])
  fix cp1
  assume "lexed d CHR ''/'' (form # u @ t) x cp1"
  from comment_skipped [OF this assms(2-4)]
  obtain cp2 where c: "next_char cp1 = Some (signed_char form, cp2)" "returns (getComment (signed_char form) cp2)
     (\<lambda>(rc, cp2). \<not> rc < 0 \<and> returns (keep_doc cp2) (\<lambda>cp3. returns (init_token cp3) (\<lambda>cp4. returns (get_token cp4) Q)))"
    by (auto elim!: returnsE)
  have n: "signed_char form \<noteq> ord CHR ''=''" "signed_char form \<noteq> ord CHR ''>''" "signed_char form = ord CHR ''*'' \<or> signed_char form = ord CHR ''/''"
    using form by auto
  have "returns (getComment (signed_char form) cp2) (\<lambda>x. returns (case x of (rc, cp2) \<Rightarrow> if rc < 0 then do { tp \<leftarrow> token cp2; Some (tokenId tp, cp2) }
                              else do { cp3 \<leftarrow> keep_doc cp2; cp4 \<leftarrow> init_token cp3; get_token cp4 }) Q)"
    using c(2) by (auto elim!: returns_mono)
  with c(1) n show "returns (do { (d, cp1) \<leftarrow> next_char cp1;
                    if d = ord CHR ''='' then do { cp2 \<leftarrow> add_char (ord CHR ''/'') cp1; assign_op d T_DIV_ASSIGN cp2 }
                    else if d = ord CHR ''>'' then do { cp2 \<leftarrow> add_char (ord CHR ''/'') cp1; makeToken d T_SLASH_GT G_OPERATOR cp2 }
                    else if d = ord CHR ''*'' \<or> d = ord CHR ''/''
                    then do { (rc, cp2) \<leftarrow> getComment d cp1;
                              if rc < 0 then do { tp \<leftarrow> token cp2; Some (tokenId tp, cp2) }
                              else do { cp3 \<leftarrow> keep_doc cp2; cp4 \<leftarrow> init_token cp3; get_token cp4 } }
                    else do { cp2 \<leftarrow> put_back d cp1; makeToken (ord CHR ''/'') T_DIV G_OPERATOR cp2 } }) Q"
    by (simp del: signed_eq_ord)
qed

lemma gap_skipped:
  assumes "good_gap g" "lexing d (show_gap g @ t) [] cp" "\<And>cp1. lexing (d @ show_gap g) t [] cp1 \<Longrightarrow> returns (get_token cp1) Q"
  shows "returns (get_token cp) Q"
proof (cases g)
  case (Blank c)
  then have c: "blank_char c" "c \<noteq> NUL" "c \<noteq> CHR 0xFF" using assms(1) by (auto simp: blank_char_def)
  have l: "lexing d (c # t) [] cp" using assms(2) Blank by simp
  have "returns (get_token cp1) Q" if "lexed d c t [] cp1" for cp1 using assms(3) lexed_lexing [OF that] Blank by simp
  then show ?thesis
    by (subst get_token.simps, unfold returns_bind, intro next_char_step [OF l], unfold prod.case) (use c in auto)
next
  case (Block s)
  have l: "lexing d (CHR ''/'' # CHR ''*'' # (s @ ''*/'') @ t) [] cp" using assms(2) Block by simp
  have st: "signed_char CHR ''*'' = ord CHR ''*''" "0 < ord CHR ''*''" by (simp, simp add: char_code_Char)
  show ?thesis
  proof (rule get_token_comment [OF l], simp)
    fix cp1 and R :: "int \<times> ec_compiler \<Rightarrow> bool"
    assume "lexing (d @ [CHR ''/'', CHR ''*'']) ((s @ ''*/'') @ t) [] cp1"
      and "\<And>rc y cp2. 0 \<le> rc \<Longrightarrow> lexing (d @ CHR ''/'' # CHR ''*'' # s @ ''*/'') t y cp2 \<Longrightarrow> R (rc, cp2)"
    then show "returns (comment_loop (signed_char CHR ''*'') (lineNumber (loc (stream cp1))) (signed_char CHR ''*'') cp1) R"
      unfolding st(1) using assms(1) Block st(2) by (intro block_reads [where s = s]) (simp_all, fastforce?)
  qed (use assms(3) Block in simp)
next
  case (Line s)
  have l: "lexing d (CHR ''/'' # CHR ''/'' # (s @ [CHR 0x0A]) @ t) [] cp" using assms(2) Line by simp
  have st: "signed_char CHR ''/'' = ord CHR ''/''" "0 < ord CHR ''/''" by (simp, simp add: char_code_Char)
  show ?thesis
  proof (rule get_token_comment [OF l], simp)
    fix cp1 and R :: "int \<times> ec_compiler \<Rightarrow> bool"
    assume "lexing (d @ [CHR ''/'', CHR ''/'']) ((s @ [CHR 0x0A]) @ t) [] cp1"
      and "\<And>rc y cp2. 0 \<le> rc \<Longrightarrow> lexing (d @ CHR ''/'' # CHR ''/'' # s @ [CHR 0x0A]) t y cp2 \<Longrightarrow> R (rc, cp2)"
    then show "returns (comment_loop (signed_char CHR ''/'') (lineNumber (loc (stream cp1))) (signed_char CHR ''/'') cp1) R"
      unfolding st(1) using assms(1) Line st(2) by (intro line_reads [where s = s]) (simp_all, fastforce?)
  qed (use assms(3) Line in simp)
next
  case (Cut form s b)
  have l: "lexing d (CHR ''/'' # form # (s @ [b]) @ t) [] cp" and f: "form = CHR ''*'' \<or> form = CHR ''/''" using assms(1,2) Cut by auto
  have st: "signed_char form = char_code form" "0 < char_code form" using f by (auto simp: char_code_Char)
  show ?thesis
  proof (rule get_token_comment [OF l f])
    fix cp1 and R :: "int \<times> ec_compiler \<Rightarrow> bool"
    assume "lexing (d @ [CHR ''/'', form]) ((s @ [b]) @ t) [] cp1"
      and "\<And>rc y cp2. 0 \<le> rc \<Longrightarrow> lexing (d @ CHR ''/'' # form # s @ [b]) t y cp2 \<Longrightarrow> R (rc, cp2)"
    then have "lexing (d @ [CHR ''/'', form]) (s @ b # t) [] cp1" "\<And>y cp2. lexing ((d @ [CHR ''/'', form]) @ s @ [b]) t y cp2 \<Longrightarrow> R (1, cp2)"
      by simp_all
    with assms(1) Cut st(2) show "returns (comment_loop (signed_char form) (lineNumber (loc (stream cp1))) (signed_char form) cp1) R"
      unfolding st(1) by (intro cut_reads [where s = s]) auto
  qed (use assms(3) Cut in simp)
qed

lemma gaps_skipped:
  "list_all good_gap gs \<Longrightarrow> lexing d (concat (List.map show_gap gs) @ t) [] cp
   \<Longrightarrow> (\<And>cp1. lexing (d @ concat (List.map show_gap gs)) t [] cp1 \<Longrightarrow> returns (get_token cp1) Q) \<Longrightarrow> returns (get_token cp) Q"
proof (induction gs arbitrary: d cp)
  case (Cons g gs)
  have l: "lexing d (show_gap g @ concat (List.map show_gap gs) @ t) [] cp" using Cons.prems(2) by simp
  show ?case
  proof (rule gap_skipped [OF _ l])
    fix cp1
    assume "lexing (d @ show_gap g) (concat (List.map show_gap gs) @ t) [] cp1"
    then show "returns (get_token cp1) Q"
      by (rule Cons.IH [rotated]) (use Cons.prems(1,3) in simp_all)
  qed (use Cons.prems(1) in simp)
qed simp

section \<open>Whole sources\<close>

datatype lexeme = Name string | Numeral numeral | Quoted char string | Sign string

fun show_lexeme :: "lexeme \<Rightarrow> string" where
  "show_lexeme (Name w) = w"
| "show_lexeme (Numeral nm) = show_numeral nm"
| "show_lexeme (Quoted q s) = q # concat (List.map (print_char q) s) @ [q]"
| "show_lexeme (Sign s) = s"

fun good_lexeme :: "lexeme \<Rightarrow> bool" where
  "good_lexeme (Name w) \<longleftrightarrow> plain_name w"
| "good_lexeme (Numeral nm) \<longleftrightarrow> good_numeral nm"
| "good_lexeme (Quoted q s) \<longleftrightarrow> quote_char q"
| "good_lexeme (Sign s) \<longleftrightarrow> map_of signs s \<noteq> None"

text \<open>The token: its number, its second number, its groups and its text.\<close>

fun lexeme_token :: "lexeme \<Rightarrow> char \<Rightarrow> int \<times> int \<times> int \<times> string" where
  "lexeme_token (Name w) sep = (case name_numbers w of (i, sub, g) \<Rightarrow> (i, sub, g, w))"
| "lexeme_token (Numeral nm) sep = (T_NUMBER, -1, 0, show_numeral nm)"
| "lexeme_token (Quoted q s) sep = (T_STRING, -1, 0, s)"
| "lexeme_token (Sign s) sep = (case the (map_of signs s) of (i, sub, g) \<Rightarrow> (i, sub, g, sign_text s sep))"

lemma lexeme_reads:
  assumes "good_lexeme lx" "blank_char sep" "lexing d (show_lexeme lx @ sep # t) [] cp"
  shows "returns (get_token cp) (case lexeme_token lx sep of (i, sub, g, x) \<Rightarrow> reads (d @ show_lexeme lx) (sep # t) i sub g x)"
proof (cases lx)
  case (Name w)
  with assms name_reads [of w sep d t cp] show ?thesis by (auto split: prod.splits)
next
  case (Numeral nm)
  with assms numeral_reads [of nm sep d t cp] show ?thesis by simp
next
  case (Quoted q s)
  with assms string_reads [of q d s "sep # t" cp] show ?thesis by simp
next
  case (Sign s)
  then obtain i sub g where m: "map_of signs s = Some (i, sub, g)" using assms(1) by auto
  from sign_reads [OF map_of_SomeD [OF m] assms(2)] assms(3) m Sign show ?thesis by simp
qed

text \<open>A source: each token with the blank behind it and more blanks and comments.\<close>

type_synonym item = "lexeme \<times> char \<times> gap list"

definition show_item :: "item \<Rightarrow> string" where
  "show_item it = (case it of (lx, sep, gs) \<Rightarrow> show_lexeme lx @ sep # concat (List.map show_gap gs))"

definition good_item :: "item \<Rightarrow> bool" where
  "good_item it \<longleftrightarrow> (case it of (lx, sep, gs) \<Rightarrow> good_lexeme lx \<and> blank_char sep \<and> list_all good_gap gs)"

definition item_token :: "item \<Rightarrow> int \<times> int \<times> int \<times> string" where
  "item_token it = (case it of (lx, sep, gs) \<Rightarrow> lexeme_token lx sep)"

definition token_info :: "ec_token \<Rightarrow> int \<times> int \<times> int \<times> string" where
  "token_info tp = (tokenId tp, subId tp, groupMask tp, token_text tp)"

text \<open>A comment that the source does not end.\<close>

type_synonym open_comment = "(char \<times> string) option"

definition show_open :: "open_comment \<Rightarrow> string" where
  "show_open oc = (case oc of None \<Rightarrow> [] | Some (form, s) \<Rightarrow> CHR ''/'' # form # s)"

definition good_open :: "open_comment \<Rightarrow> bool" where
  "good_open oc \<longleftrightarrow>
     (case oc of None \<Rightarrow> True | Some (form, s) \<Rightarrow> form = CHR ''*'' \<and> list_all block_char s \<or> form = CHR ''/'' \<and> list_all line_char s)"

definition at_end :: "int \<times> ec_compiler \<Rightarrow> bool" where
  "at_end r \<longleftrightarrow> (\<exists>tp. token (snd r) = Some tp \<and> token_info tp = (T_EOF, -1, 0, []))"

lemma end_at_end:
  assumes "lexing d [] [] cp"
  shows "returns (get_token cp) at_end"
proof -
  have "get_token cp = makeToken 0 T_EOF 0 cp"
    using assms by (subst get_token.simps) (simp add: next_char_end [OF assms] end_token_def lexing_def ready_def)
  then show ?thesis
    using assms by (auto simp: at_end_def made_def lexing_def ready_def token_info_def intro!: makeToken_step)
qed

lemma open_at_end:
  assumes "good_open oc" "lexing d (show_open oc) [] cp"
  shows "returns (get_token cp) at_end"
proof (cases oc)
  case None
  then show ?thesis using assms(2) by (auto simp: show_open_def intro: end_at_end)
next
  case (Some fs)
  then obtain form s where oc: "oc = Some (form, s)" by (cases fs) auto
  have g: "form = CHR ''*'' \<and> list_all block_char s \<or> form = CHR ''/'' \<and> list_all line_char s" using assms(1) oc by (simp add: good_open_def)
  then have f: "form = CHR ''*'' \<or> form = CHR ''/''" by auto
  have l: "lexing d (CHR ''/'' # form # s @ []) [] cp" using assms(2) oc by (simp add: show_open_def)
  have st: "signed_char form = char_code form" "0 < char_code form" using f by (auto simp: char_code_Char)
  show ?thesis
  proof (rule get_token_comment [OF l f])
    fix cp1 and R :: "int \<times> ec_compiler \<Rightarrow> bool"
    assume "lexing (d @ [CHR ''/'', form]) (s @ []) [] cp1"
      and "\<And>rc y cp2. 0 \<le> rc \<Longrightarrow> lexing (d @ CHR ''/'' # form # s) [] y cp2 \<Longrightarrow> R (rc, cp2)"
    then have "lexing (d @ [CHR ''/'', form]) s [] cp1" "\<And>y cp2. lexing ((d @ [CHR ''/'', form]) @ s) [] y cp2 \<Longrightarrow> R (1, cp2)" by simp_all
    with g st(2) show "returns (comment_loop (signed_char form) (lineNumber (loc (stream cp1))) (signed_char form) cp1) R"
      unfolding st(1) by (intro end_reads [where s = s]) auto
  qed (rule end_at_end)
qed

lemma items_read:
  assumes "list_all good_item items" "list_all good_gap lead" "good_open oc"
    "idle d (concat (List.map show_gap lead) @ concat (List.map show_item items) @ show_open oc) cp"
  shows "\<exists>ts cp1. next_tokens (length items + 1) cp = Some (ts, cp1) \<and> List.map token_info ts = List.map item_token items @ [(T_EOF, -1, 0, [])]"
  using assms
proof (induction items arbitrary: lead d cp)
  case Nil
  have l: "lexing d (concat (List.map show_gap lead) @ show_open oc) [] (getLexToken cp)" and e: "ecGetToken cp = get_token (getLexToken cp)"
    using ecGetToken_idle Nil.prems(4) by auto
  have "returns (get_token (getLexToken cp)) at_end"
    by (rule gaps_skipped [OF Nil.prems(2) l], rule open_at_end [OF Nil.prems(3)])
  with e show ?case by (auto simp: at_end_def elim!: returnsE)
next
  case (Cons it items)
  obtain lx sep gs where it: "it = (lx, sep, gs)" by (cases it)
  obtain i sub g x where tk: "lexeme_token lx sep = (i, sub, g, x)" by (cases "lexeme_token lx sep")
  let ?lead = "concat (List.map show_gap lead)" and ?rest = "concat (List.map show_gap gs) @ concat (List.map show_item items) @ show_open oc"
  have sh: "show_item it = show_lexeme lx @ sep # concat (List.map show_gap gs)" by (simp add: show_item_def it)
  have l: "lexing d (?lead @ show_lexeme lx @ sep # ?rest) [] (getLexToken cp)" and e: "ecGetToken cp = get_token (getLexToken cp)"
    using ecGetToken_idle [OF Cons.prems(4)] by (simp_all add: sh)
  have "returns (get_token (getLexToken cp)) (reads (d @ ?lead @ show_lexeme lx) (sep # ?rest) i sub g x)"
    using lexeme_reads [of lx sep "d @ ?lead"] Cons.prems(1) it tk by (intro gaps_skipped [OF Cons.prems(2) l]) (auto simp: good_item_def)
  then obtain cp1 tp where r: "ecGetToken cp = Some (i, cp1)" "lexing (d @ ?lead @ show_lexeme lx) (sep # ?rest) x cp1" "token cp1 = Some tp" "token_info tp = (i, sub, g, x)"
    using e by (auto simp: reads_def made_def lexing_def ready_def token_info_def elim!: returnsE)
  have "idle (d @ ?lead @ show_lexeme lx) (concat (List.map show_gap (Blank sep # gs)) @ concat (List.map show_item items) @ show_open oc) cp1"
    using lexing_idle [OF r(2)] by simp
  from Cons.IH [OF _ _ Cons.prems(3) this] Cons.prems(1) it obtain ts cp2 where "next_tokens (Suc (length items)) cp1 = Some (ts, cp2)"
    "List.map token_info ts = List.map item_token items @ [(T_EOF, -1, 0, [])]" by (auto simp: good_item_def simp del: next_tokens.simps)
  then have "next_tokens (length (it # items) + 1) cp = Some (tp # ts, cp2)" "List.map token_info (tp # ts) = List.map item_token (it # items) @ [(T_EOF, -1, 0, [])]"
    using r(1,3,4) tk it by (simp_all add: item_token_def del: next_tokens.simps(2) add: next_tokens.simps(2) [of "Suc (length items)"])
  then show ?case by blast
qed

text \<open>None of these texts holds a NUL.\<close>

lemma isdigit_NUL [simp]: "\<not> isdigit NUL" "tolower NUL = 0" "\<not> is_hex NUL" "\<not> blank_char NUL" "\<not> name_start_char NUL"
  by (simp_all add: isdigit_def tolower_def is_hex_def blank_char_def name_start_char_def is_letter_def char_code_Char)

lemma list_all_no_NUL: "list_all P s \<Longrightarrow> \<not> P NUL \<Longrightarrow> NUL \<notin> set s"
  by (auto simp: list_all_iff)

lemma digits_no_NUL: "list_all isdigit s \<Longrightarrow> NUL \<notin> set s"
  by (erule list_all_no_NUL) simp

lemma exponent_no_NUL: "good_exponent e \<Longrightarrow> NUL \<notin> set (show_exponent e)"
  by (cases e rule: good_exponent.cases) (auto dest: digits_no_NUL)

lemma gap_no_NUL: "good_gap g \<Longrightarrow> NUL \<notin> set (show_gap g)"
  using list_all_no_NUL [of block_char] list_all_no_NUL [of line_char]
  by (cases g) (auto simp: block_char_def line_char_def ascii_def char_code_Char)

lemma numeral_no_NUL: "good_numeral nm \<Longrightarrow> NUL \<notin> set (show_numeral nm)"
proof (cases nm)
  case (Decimal i f e)
  assume g: "good_numeral nm"
  have "NUL \<notin> set i" using g Decimal digits_no_NUL by simp
  moreover have "NUL \<notin> set (show_fraction f)" using g Decimal by (cases f) (auto dest: digits_no_NUL)
  moreover have "NUL \<notin> set (show_exponent e)" using g Decimal exponent_no_NUL by simp
  ultimately show ?thesis using Decimal by simp
next
  case (Hex x ds)
  assume "good_numeral nm"
  then show ?thesis using Hex list_all_no_NUL [of is_hex ds] by auto
next
  case (Octal ds)
  assume "good_numeral nm"
  then show ?thesis using Octal list_all_no_NUL [of "\<lambda>ch. isdigit ch \<and> ch \<notin> {CHR ''8'', CHR ''9''}" ds] by simp
qed

lemma print_char_no_NUL: "quote_char q \<Longrightarrow> NUL \<notin> set (print_char q ch)"
proof -
  assume q: "quote_char q"
  obtain a b where ab: "a < 16" "b < 16" "hex_pair ch = [digits ! a, digits ! b]" using hex_pair_digits by blast
  then have "NUL \<notin> set (hex_pair ch)" using escape_hex(2) [of a] escape_hex(2) [of b] by auto
  with q show ?thesis by (auto simp: print_char_def quote_char_def char_code_Char)
qed

lemma signs_no_NUL: "(s, k) \<in> set signs \<Longrightarrow> NUL \<notin> set s"
  by (auto simp: signs_def)

lemma lexeme_no_NUL: "good_lexeme lx \<Longrightarrow> NUL \<notin> set (show_lexeme lx)"
proof (cases lx)
  case (Sign s)
  assume "good_lexeme lx"
  then show ?thesis using Sign signs_no_NUL by (auto dest: map_of_SomeD)
next
  case (Quoted q s)
  assume "good_lexeme lx"
  then show ?thesis using Quoted print_char_no_NUL [of q] by (auto simp: quote_char_def)
qed (auto simp: plain_name_def numeral_no_NUL)

lemma item_no_NUL: "good_item it \<Longrightarrow> NUL \<notin> set (show_item it)"
  using gap_no_NUL lexeme_no_NUL by (fastforce simp: good_item_def show_item_def list_all_iff)

lemma open_no_NUL: "good_open oc \<Longrightarrow> NUL \<notin> set (show_open oc)"
  using list_all_no_NUL [of block_char] list_all_no_NUL [of line_char]
  by (auto simp: good_open_def show_open_def block_char_def line_char_def ascii_def split: option.splits)

text \<open>
  Property C5. Lexing is the inverse of writing: a source that is written as white space and comments, then names, numbers, strings
  and operators, each with white space behind it and more white space and comments, is read as just these tokens, in their order, with
  their numbers and their texts, and then the end of the file. Three operators have a wrong text, and a character of eight bits
  ends a comment: the words behind it, on the same line, are read as tokens. A comment that the source does not end is no error.
\<close>

theorem lexer_reads_source:
  assumes "list_all good_gap lead" "list_all good_item items" "good_open oc" "has_mem cp0 = (\<lambda>_. True)"
  shows "\<exists>cp ts cp1. open_script (concat (List.map show_gap lead) @ concat (List.map show_item items) @ show_open oc) cp0 = Some cp
     \<and> next_tokens (length items + 1) cp = Some (ts, cp1) \<and> List.map token_info ts = List.map item_token items @ [(T_EOF, -1, 0, [])]"
proof -
  let ?src = "concat (List.map show_gap lead) @ concat (List.map show_item items) @ show_open oc"
  have "NUL \<notin> set ?src" using assms(1,2) open_no_NUL [OF assms(3)] gap_no_NUL item_no_NUL by (fastforce simp: list_all_iff)
  with open_script_ok [OF assms(4), of ?src] obtain t cp where o: "open_script ?src cp0 = Some cp" "?src = t" "idle [] t cp" by auto
  have "idle [] ?src cp" using o(2,3) by simp
  from items_read [OF assms(2,1,3) this] o(1) show ?thesis by blast
qed

text \<open>
  A script with comments, a keyword, names, two numbers, a string with a quote and a line end, and a comment in Latin letters
  whose last word becomes a token.
\<close>

definition sample_items :: "item list" where
  "sample_items =
     [(Name ''while'', CHR '' '', []), (Sign ''('', CHR '' '', []), (Name ''a_1'', CHR '' '', []), (Sign ''>>='', CHR '' '', []),
      (Numeral (Hex CHR ''x'' ''1F''), CHR '' '', [Block '' or '', Blank CHR '' '']), (Sign ''<'', CHR '' '', []),
      (Numeral (Decimal ''1'' (Some ''5'') (Some (CHR ''e'', ''-'', ''3''))), CHR '' '', []), (Sign '')'', CHR '' '', []), (Name ''say'', CHR '' '', []),
      (Quoted CHR 0x22 (''it'' @ [CHR 0x22, CHR 0x0A]), CHR '' '', []), (Sign '';'', CHR '' '', [Cut CHR ''/'' '' Caf'' CHR 0xE9, Blank CHR '' '']),
      (Name ''bar'', CHR 0x0A, [Line '' end''])]"

theorem lexer_reads_source_witness:
  "\<exists>cp ts cp1. open_script (''// max'' @ CHR 0x0A # ''while ( a_1 >>= 0x1F /* or */ < 1.5e-3 ) say '' @ [CHR 0x22, CHR ''i'', CHR ''t'', CHR 0x5C, CHR 0x22, CHR 0x5C] @ ''x0A'' @ [CHR 0x22]
         @ '' ; // Caf'' @ CHR 0xE9 # '' bar'' @ CHR 0x0A # ''// end'' @ CHR 0x0A # ''/* open'') empty_compiler = Some cp
     \<and> next_tokens 13 cp = Some (ts, cp1)
     \<and> List.map token_info ts = [(T_WHILE, 0, G_RESERVED, ''while''), (T_LPAREN, -1, G_OPERATOR, ''(''), (T_ID, -1, 0, ''a_1''), (T_ASSIGN, T_RSH_ASSIGN, 12, ''>>=''),
         (T_NUMBER, -1, 0, ''0x1F''), (T_LT, -1, G_OPERATOR, ''<''), (T_NUMBER, -1, 0, ''1.5e-3''), (T_RPAREN, -1, 0, '')''), (T_ID, -1, 0, ''say''),
         (T_STRING, -1, 0, ''it'' @ [CHR 0x22, CHR 0x0A]), (T_SEMICOLON, -1, 0, '';''), (T_ID, -1, 0, ''bar''), (T_EOF, -1, 0, [])]"
proof -
  have lead: "list_all good_gap [Line '' max'']" by (simp add: line_char_def ascii_def char_code_Char)
  have good: "list_all good_item sample_items"
    by (simp add: sample_items_def good_item_def line_char_def block_char_def ascii_def char_code_Char blank_char_def plain_name_def name_start_char_def is_letter_def isdigit_def tolower_def
        is_hex_def quote_char_def signs_def)
  have op: "good_open (Some (CHR ''*'', '' open''))" by (simp add: good_open_def block_char_def ascii_def char_code_Char)
  have src: "concat (List.map show_gap [Line '' max'']) @ concat (List.map show_item sample_items) @ show_open (Some (CHR ''*'', '' open'')) =
     ''// max'' @ CHR 0x0A # ''while ( a_1 >>= 0x1F /* or */ < 1.5e-3 ) say '' @ [CHR 0x22, CHR ''i'', CHR ''t'', CHR 0x5C, CHR 0x22, CHR 0x5C] @ ''x0A'' @ [CHR 0x22]
         @ '' ; // Caf'' @ CHR 0xE9 # '' bar'' @ CHR 0x0A # ''// end'' @ CHR 0x0A # ''/* open''"
    by (simp add: show_open_def sample_items_def show_item_def print_char_def hex_pair_def char_code_Char digits_def Let_def)
  have toks: "List.map item_token sample_items @ [(T_EOF, -1, 0, [])] =
      [(T_WHILE, 0, G_RESERVED, ''while''), (T_LPAREN, -1, G_OPERATOR, ''(''), (T_ID, -1, 0, ''a_1''), (T_ASSIGN, T_RSH_ASSIGN, 12, ''>>=''),
         (T_NUMBER, -1, 0, ''0x1F''), (T_LT, -1, G_OPERATOR, ''<''), (T_NUMBER, -1, 0, ''1.5e-3''), (T_RPAREN, -1, 0, '')''), (T_ID, -1, 0, ''say''),
         (T_STRING, -1, 0, ''it'' @ [CHR 0x22, CHR 0x0A]), (T_SEMICOLON, -1, 0, '';''), (T_ID, -1, 0, ''bar''), (T_EOF, -1, 0, [])]"
    by (simp add: sample_items_def item_token_def sign_text_def signs_def name_numbers_def keywords_table_def reserved_words_def)
  have len: "length sample_items + 1 = 13" by (simp add: sample_items_def)
  have "has_mem empty_compiler = (\<lambda>_. True)" by (simp add: empty_compiler_def)
  from lexer_reads_source [OF lead good op this] show ?thesis unfolding toks len src .
qed

end
