(* ===== verification/LexAhead.thy ===== *)
theory LexAhead
  imports LexSource
begin

text \<open>
  The queue of tokens between the lexer and the parser: tokens that were read ahead and put back come again, in their order, before the
  lexer goes on.
\<close>

section \<open>Tokens that were read and put back\<close>

lemma getLexToken_token [simp]: "getLexToken (cp\<lparr>token := x\<rparr>) = getLexToken cp"
  by (simp add: getLexToken_def split: list.split)

lemma ecGetToken_token [simp]: "ecGetToken (cp\<lparr>token := x\<rparr>) = ecGetToken cp"
  by (simp add: ecGetToken_def)

text \<open>A compiler between two tokens of a source: what was put back are good tokens, the source goes on behind them.\<close>

definition settled :: "string \<Rightarrow> ec_compiler \<Rightarrow> bool" where
  "settled src cp \<longleftrightarrow> hex_safe src \<and> (\<exists>d t. src = d @ t \<and> idle d t (cp\<lparr>putback := []\<rparr>)) \<and> list_all good_token (putback cp)
     \<and> pred_option good_token (token cp)"

lemma good_token_id: "good_token tp \<Longrightarrow> 0 < tokenId tp \<and> tokenId tp \<noteq> 0"
  by (simp add: good_token_def)

lemma settled_update: "settled src cp \<Longrightarrow> list_all good_token q \<Longrightarrow> pred_option good_token x \<Longrightarrow> settled src (cp\<lparr>putback := q, token := x\<rparr>)"
  by (simp add: settled_def idle_def words_ok_def)

lemma settled_peek: "settled src cp \<Longrightarrow> settled src (cp\<lparr>peekToken := x\<rparr>)"
  by (simp add: settled_def idle_def words_ok_def)

lemma ecGetToken_putback:
  "putback cp = tp # q \<Longrightarrow> good_token tp \<Longrightarrow> ecGetToken cp = Some (tokenId tp, cp\<lparr>putback := q, token := Some tp\<rparr>)"
  by (simp add: ecGetToken_def getLexToken_def good_token_id)

lemma ecGetToken_settled:
  assumes "settled src cp"
  shows "\<exists>tp cp1. ecGetToken cp = Some (tokenId tp, cp1) \<and> token cp1 = Some tp \<and> good_token tp \<and> settled src cp1 \<and> putback cp1 = tl (putback cp)"
proof (cases "putback cp")
  case (Cons tp q)
  then have g: "good_token tp" "list_all good_token q" using assms by (auto simp: settled_def)
  show ?thesis using ecGetToken_putback [OF Cons g(1)] settled_update [OF assms g(2), of "Some tp"] g(1) Cons by simp
next
  case Nil
  then have "cp\<lparr>putback := []\<rparr> = cp" by simp
  then obtain d t where i: "src = d @ t" "idle d t cp" "hex_safe (d @ t)" using assms by (auto simp: settled_def)
  show ?thesis
  proof (cases "t = []")
    case True
    with i(2) ecGetToken_end [of d cp] obtain cp1 tp where e: "ecGetToken cp = Some (T_EOF, cp1)" "idle d [] cp1" "token cp1 = Some tp" "tokenId tp = T_EOF" "token_ok tp"
      by (auto simp: returns_def made_def)
    have g: "good_token tp" using e(4,5) by (auto simp: good_token_def token_ok_def)
    have p: "putback cp1 = []" using e(2) by (simp add: idle_def)
    then have "cp1\<lparr>putback := []\<rparr> = cp1" by simp
    then have "idle src [] (cp1\<lparr>putback := []\<rparr>)" using e(2) i(1) True by (metis append_Nil2)
    then have "settled src cp1" using e(3) g i p by (auto simp: settled_def)
    then show ?thesis using e g p Nil by simp
  next
    case False
    then obtain ident cp1 where e: "ecGetToken cp = Some (ident, cp1)" "token_made (d @ t) (length t - 1) (ident, cp1)"
      using ecGetToken_total [OF i(2,3)] by (auto elim!: returnsE)
    obtain tp d1 t1 where p: "token cp1 = Some tp" "good_token tp" "tokenId tp = ident" "d @ t = d1 @ t1" "idle d1 t1 cp1"
      using token_made_good [OF e(2)] by blast
    have q: "putback cp1 = []" using p(5) by (simp add: idle_def)
    then have "cp1\<lparr>putback := []\<rparr> = cp1" by simp
    then have "idle d1 t1 (cp1\<lparr>putback := []\<rparr>)" using p(5) by metis
    then have "settled src cp1" using p i q by (auto simp: settled_def)
    then show ?thesis using e(1) p q Nil by auto
  qed
qed

lemma next_tokens_settled:
  "settled src cp \<Longrightarrow> \<exists>ts cp1. next_tokens n cp = Some (ts, cp1) \<and> length ts = n \<and> list_all good_token ts \<and> settled src cp1 \<and> (0 < n \<longrightarrow> token cp1 = Some (last ts))
     \<and> take_tokens n (cp\<lparr>token := x\<rparr>) = Some (List.map Some ts, if n = 0 then cp\<lparr>token := x\<rparr> else cp1\<lparr>token := None\<rparr>)"
proof (induction n arbitrary: cp x)
  case (Suc n)
  obtain tp cpa where e: "ecGetToken cp = Some (tokenId tp, cpa)" "token cpa = Some tp" "good_token tp" "settled src cpa"
    using ecGetToken_settled [OF Suc.prems] by blast
  from Suc.IH [OF e(4), of None] obtain ts cp1 where i: "next_tokens n cpa = Some (ts, cp1)" "length ts = n" "list_all good_token ts" "settled src cp1"
    "0 < n \<longrightarrow> token cp1 = Some (last ts)" "take_tokens n (cpa\<lparr>token := None\<rparr>) = Some (List.map Some ts, if n = 0 then cpa\<lparr>token := None\<rparr> else cp1\<lparr>token := None\<rparr>)"
    by blast
  have "\<not> tokenId tp < 0" using good_token_id [OF e(3)] by simp
  then have "take_tokens (Suc n) (cp\<lparr>token := x\<rparr>) = Some (List.map Some (tp # ts), cp1\<lparr>token := None\<rparr>)"
    unfolding take_tokens.simps(2) using e(1,2) i(1,6) by (cases "n = 0") (simp_all add: ecTakeToken_def)
  moreover have "token cp1 = Some (last (tp # ts))" using i(1,2,5) e(2) by (cases n) auto
  ultimately show ?case using e(1-3) i(1-4) by simp
qed simp

lemma put_tokens_good: "list_all good_token ts \<Longrightarrow> put_tokens (List.map Some ts) cp = Some (cp\<lparr>putback := ts @ putback cp\<rparr>)"
  by (induction ts arbitrary: cp) (simp_all add: ecPutSpecificToken_def good_token_id)

lemma next_tokens_putback:
  "list_all good_token ts \<Longrightarrow> ts \<noteq> [] \<Longrightarrow> putback cp = ts @ q \<Longrightarrow> next_tokens (length ts) cp = Some (ts, cp\<lparr>putback := q, token := Some (last ts)\<rparr>)"
proof (induction ts arbitrary: cp)
  case (Cons tp ts)
  have e: "ecGetToken cp = Some (tokenId tp, cp\<lparr>putback := ts @ q, token := Some tp\<rparr>)"
    using Cons.prems by (intro ecGetToken_putback) simp_all
  show ?case
    using Cons.prems Cons.IH [of "cp\<lparr>putback := ts @ q, token := Some tp\<rparr>"] e by (cases "ts = []") simp_all
qed simp

text \<open>The current token is put back and taken again.\<close>

lemma current_token_kept:
  "pred_option good_token tk \<Longrightarrow> token cp = None \<Longrightarrow>
     (if tk \<noteq> None then do { cpa \<leftarrow> ecPutSpecificToken tk cp; (_, cpb) \<leftarrow> ecGetToken cpa; Some cpb } else Some cp) = Some (cp\<lparr>token := tk\<rparr>)"
  by (cases tk) (simp_all add: ecPutSpecificToken_def good_token_id ecGetToken_putback)

text \<open>
  Property C13. Looking ahead changes nothing but the token that is remembered as peeked at: the token is the one that as many calls
  of the lexer would bring, the current token stays, and the calls that follow bring just the tokens they would have brought.
\<close>

theorem peek_keeps_tokens:
  assumes "settled src cp" "1 \<le> k" "k \<le> EC_MAX_LOOK_AHEAD"
  shows "\<exists>ts cp1 cp2. next_tokens (nat k) cp = Some (ts, cp1) \<and> length ts = nat k \<and> peekAheadToken k cp = Some (tokenId (last ts), cp2) \<and> token cp2 = token cp
     \<and> settled src cp2 \<and> next_tokens (nat k) cp2 = Some (ts, cp1\<lparr>peekToken := Some (last ts)\<rparr>)"
proof (cases "k = 1 \<and> putback cp \<noteq> []")
  case True
  then obtain tp q where q: "putback cp = [tp] @ q" by (cases "putback cp") auto
  then have g: "list_all good_token [tp]" using assms(1) by (simp add: settled_def)
  have n: "next_tokens (length [tp]) cp = Some ([tp], cp\<lparr>putback := q, token := Some tp\<rparr>)"
    "next_tokens (length [tp]) (cp\<lparr>peekToken := Some tp\<rparr>) = Some ([tp], cp\<lparr>peekToken := Some tp, putback := q, token := Some tp\<rparr>)"
    using next_tokens_putback [OF g, of _ q] q by simp_all
  have "peekAheadToken k cp = Some (tokenId tp, cp\<lparr>peekToken := Some tp\<rparr>)"
    using True q by (simp add: peekAheadToken_def peekAheadTokenStruct_def EC_MAX_LOOK_AHEAD_def)
  with n True settled_peek [OF assms(1)] show ?thesis
    by (intro exI [of _ "[tp]"] exI [of _ "cp\<lparr>putback := q, token := Some tp\<rparr>"] exI [of _ "cp\<lparr>peekToken := Some tp\<rparr>"]) (simp del: next_tokens.simps)
next
  case False
  have k: "0 < nat k" using assms(2) by simp
  obtain ts cp1 where n: "next_tokens (nat k) cp = Some (ts, cp1)" "length ts = nat k" "list_all good_token ts" "settled src cp1" "token cp1 = Some (last ts)"
    "take_tokens (nat k) (cp\<lparr>token := None\<rparr>) = Some (List.map Some ts, cp1\<lparr>token := None\<rparr>)"
    using next_tokens_settled [OF assms(1), of "nat k" None] k by auto
  have ts: "ts \<noteq> []" using n(2) k by auto
  let ?q = "cp1\<lparr>token := None, putback := ts @ putback cp1\<rparr>" and ?p = "Some (last ts)"
  let ?cp2 = "cp1\<lparr>putback := ts @ putback cp1, token := token cp, peekToken := ?p\<rparr>"
  have tk: "pred_option good_token (token cp)" using assms(1) by (simp add: settled_def)
  have f: "(k = 1 \<and> putback cp \<noteq> []) = False" using False by simp
  have "peekAheadTokenStruct k cp = Some (?p, ?cp2)"
    unfolding peekAheadTokenStruct_def f using assms(2,3) n(6) put_tokens_good [OF n(3), of "cp1\<lparr>token := None\<rparr>"] current_token_kept [OF tk, of ?q] ts
    by (simp add: ecTakeToken_def last_map Let_def)
  then have "peekAheadToken k cp = Some (tokenId (last ts), ?cp2)" by (simp add: peekAheadToken_def)
  moreover have "settled src ?cp2"
    using settled_peek [OF settled_update [OF n(4) _ tk]] n(3,4) by (simp add: settled_def)
  moreover have "next_tokens (nat k) ?cp2 = Some (ts, cp1\<lparr>peekToken := ?p\<rparr>)"
    using next_tokens_putback [OF n(3) ts, of ?cp2 "putback cp1"] n(2,5) by simp
  ultimately show ?thesis using n(1,2) by (intro exI [of _ ts] exI [of _ cp1] exI [of _ ?cp2]) simp
qed

lemma open_script_token: "open_script src cp0 = Some cp \<Longrightarrow> has_mem cp0 = (\<lambda>_. True) \<Longrightarrow> token cp = token cp0"
  by (auto simp: open_script_def ecOpenMemoryStream_def Let_def ecInitLexer_def split: if_splits option.splits bind_splits)

lemma idle_settled:
  assumes "idle d t cp" "hex_safe (d @ t)" "token cp = None"
  shows "settled (d @ t) cp"
proof -
  have p: "putback cp = []" using assms(1) by (simp add: idle_def)
  then have "cp\<lparr>putback := []\<rparr> = cp" by simp
  then have "idle d t (cp\<lparr>putback := []\<rparr>)" using assms(1) by metis
  with assms(2,3) p show ?thesis by (auto simp: settled_def)
qed

text \<open>The current token and the ones behind it, of a script that was just opened.\<close>

theorem peek_keeps_tokens_witness:
  "\<exists>cp ts cp1 cp2. open_script ''a ( 7 '' empty_compiler = Some cp \<and> next_tokens 4 cp = Some (ts, cp1)
     \<and> List.map token_info ts = [(T_ID, -1, 0, ''a''), (T_LPAREN, -1, G_OPERATOR, ''(''), (T_NUMBER, -1, 0, ''7''), (T_EOF, -1, 0, [])]
     \<and> peekAheadToken 4 cp = Some (T_EOF, cp2) \<and> next_tokens 4 cp2 = Some (ts, cp1\<lparr>peekToken := Some (last ts)\<rparr>)"
proof -
  let ?items = "[(Name ''a'', CHR '' '', []), (Sign ''('', CHR '' '', []), (Numeral (Decimal ''7'' None None), CHR '' '', [])]"
  have "has_mem empty_compiler = (\<lambda>_. True)" "token empty_compiler = None" by (simp_all add: empty_compiler_def)
  moreover obtain cp where cp: "open_script ''a ( 7 '' empty_compiler = Some cp" "idle [] ''a ( 7 '' cp"
    using open_script_ok [OF calculation(1), of "''a ( 7 ''"] by auto
  moreover have "hex_safe ([] @ ''a ( 7 '')" by (auto simp: hex_char_def isdigit_def tolower_def char_code_def signed_char_def)
  ultimately have st: "settled ([] @ ''a ( 7 '') cp" using open_script_token [OF cp(1)] by (intro idle_settled) simp_all
  have good: "list_all good_item ?items"
    by (simp add: good_item_def blank_char_def plain_name_def name_start_char_def is_letter_def isdigit_def tolower_def signs_def char_code_Char)
  have src: "concat (List.map show_gap []) @ concat (List.map show_item ?items) @ show_open None = ''a ( 7 ''" by (simp add: show_item_def show_open_def)
  have toks: "List.map item_token ?items @ [(T_EOF, -1, 0, [])] = [(T_ID, -1, 0, ''a''), (T_LPAREN, -1, G_OPERATOR, ''(''), (T_NUMBER, -1, 0, ''7''), (T_EOF, -1, 0, [])]"
    by (simp add: item_token_def sign_text_def signs_def name_numbers_def keywords_table_def reserved_words_def)
  have len: "length ?items + 1 = 4" and lead: "list_all good_gap []" "good_open None" by (simp_all add: good_open_def)
  have "idle [] (concat (List.map show_gap []) @ concat (List.map show_item ?items) @ show_open None) cp" unfolding src by (rule cp(2))
  from items_read [OF good lead this] obtain ts cp1 where n: "next_tokens 4 cp = Some (ts, cp1)"
    "List.map token_info ts = [(T_ID, -1, 0, ''a''), (T_LPAREN, -1, G_OPERATOR, ''(''), (T_NUMBER, -1, 0, ''7''), (T_EOF, -1, 0, [])]"
    unfolding toks len by (elim exE conjE) (rule that)
  then have "ts \<noteq> []" by auto
  then have "token_info (last ts) = (T_EOF, -1, 0, [])" using n(2) by (metis last.simps last_map list.discI)
  then have "tokenId (last ts) = T_EOF" by (simp add: token_info_def)
  with peek_keeps_tokens [OF st, of 4] n cp(1) show ?thesis by (auto simp: EC_MAX_LOOK_AHEAD_def)
qed

text \<open>
  Throwing away what was put back, in front of a regular expression, never ends once there was a fatal error: the parser's
  function for the next token then brings an error and takes nothing.
\<close>

lemma flush_putback_fatal_never: "flush_putback cp = Some y \<Longrightarrow> fatalError cp \<longrightarrow> putback cp = []"
  by (erule flush_putback.raw_induct [rotated]) (auto simp: getToken_def split: if_splits)

lemma flush_putback_fatal: "fatalError cp \<Longrightarrow> putback cp \<noteq> [] \<Longrightarrow> flush_putback cp = None"
  using flush_putback_fatal_never [of cp] by (cases "flush_putback cp") auto

lemma flush_putback_ok:
  "list_all good_token (putback cp) \<Longrightarrow> \<not> fatalError cp \<Longrightarrow>
   flush_putback cp = Some (if putback cp = [] then cp else cp\<lparr>putback := [], token := Some (last (putback cp)), peekToken := None\<rparr>)"
proof (induction "putback cp" arbitrary: cp)
  case Nil
  then show ?case by (subst flush_putback.simps) simp
next
  case (Cons tp q)
  let ?cp = "cp\<lparr>putback := q, token := Some tp, peekToken := None\<rparr>"
  have g: "good_token tp" "list_all good_token q" using Cons.prems(1) Cons.hyps(2) [symmetric] by simp_all
  have "getToken cp = Some (tokenId tp, ?cp)" using ecGetToken_putback [OF Cons.hyps(2) [symmetric] g(1)] Cons.prems(2) by (simp add: getToken_def)
  then have "flush_putback cp = flush_putback ?cp" using Cons.hyps(2) [symmetric] by (subst flush_putback.simps) simp
  also have "\<dots> = Some (if q = [] then ?cp else ?cp\<lparr>putback := [], token := Some (last q), peekToken := None\<rparr>)"
    using Cons.hyps(1) [of ?cp] g(2) Cons.prems(2) by simp
  finally show ?case using Cons.hyps(2) [symmetric] by (cases "q = []") simp_all
qed

end
