(* ===== verification/Spec2Isabelle.thy ===== *)
theory Spec2Isabelle
  imports Encoding ByteArray EjsArray Scope ModuleFile ExceptionRuns LocalCache JsonRoundtrip LexAhead
begin

text \<open>
  \<^bold>\<open>Ejscript: a verification library of its core\<close>

  Ejscript is a JavaScript compiler and virtual machine in C. The compiler (\<^verbatim>\<open>src/src/compiler\<close>) turns a
  program into a module file: byte code with variable length numbers, a pool of constant strings,
  debug lines. The virtual machine (\<^verbatim>\<open>src/src/vm\<close>) loads modules and runs them over the objects of the core
  classes (\<^verbatim>\<open>src/src/core/src\<close>): every object with named properties is an \<^verbatim>\<open>EjsPot\<close>, names are found along a
  chain of blocks, prototypes and base types, and \<^verbatim>\<open>Array\<close> and \<^verbatim>\<open>ByteArray\<close> have elements of their own. All
  parts stand on the runtime library \<^verbatim>\<open>src/src/mpr\<close>, of which the growable buffers, the hash tables and the number
  strings are modelled.

  \<^bold>\<open>Conventions\<close> (\<^verbatim>\<open>Prelude\<close>). A C function is a HOL function on the state that it changes. An access outside of a
  memory block, a null pointer, a shift past the width, an endless loop is the value \<^const>\<open>None\<close> of an option; a
  result that is \<^const>\<open>Some\<close> is therefore also a statement of memory safety. Error codes and Ejscript exceptions are
  ordinary results. Whether an allocation of some size succeeds is the field \<open>heap\<close> of the interpreter: it is
  arbitrary in the definitions, and properties of successful runs assume that it always does. Machine integers are
  words where the code wraps or shifts, and integers with \<^const>\<open>c_int\<close> where it casts. The locale \<open>simulation\<close>
  is the contract between an implementation with an invariant and a specification of its calls on an abstract
  state; scripts of calls are proved to refine the specification once, in the locale, and each component interprets it.

  \<^bold>\<open>Theories\<close>

  \<^item> \<^verbatim>\<open>Encoding\<close>: numbers in byte code and module files (\<^verbatim>\<open>ejsEncodeNum\<close>, \<^verbatim>\<open>ejsDecodeNum\<close>, \<^verbatim>\<open>ejsModuleRead...\<close> of
    \<^verbatim>\<open>vm/ejsModule.c\<close>). For every 64-bit number what comes back: exact limits of both readers, lengths, truncated files.
    The locale \<open>module_field\<close> is the contract between the writer and the reader of a field.
  \<^item> \<^verbatim>\<open>ByteArray\<close>: the class of \<^verbatim>\<open>core/src/ejsByteArray.c\<close> with its observers. In scripts of the methods, no access leaves the
    block, under conditions on the calls that the theory names (each is one that the code fails to check); typed values come back in order; what \<open>read\<close>, \<open>write\<close> and \<open>compact\<close> do to the contents.
  \<^item> \<^verbatim>\<open>Pot\<close>: objects with properties (\<^verbatim>\<open>core/src/ejsPot.c\<close>), slots, names, traits, and the hash index with its chains.
    An object refines a finite map; the hashed lookup is the linear search; where the index is lost or never ends.
  \<^item> \<^verbatim>\<open>EjsArray\<close>: the class of \<^verbatim>\<open>core/src/ejsArray.c\<close>. An array refines a list; sorting is a sorted permutation;
    splice, concat, set operators and iteration; the calls that leave the block. The numbers among the elements are integers; there is no NaN.
  \<^item> \<^verbatim>\<open>Scope\<close>: name lookup (\<^verbatim>\<open>vm/ejsScope.c\<close>) over a store of linked objects. The result is the first object of a path,
    given by the specification, in which the name resolves in the open namespaces.
  \<^item> \<^verbatim>\<open>MprBuf\<close>: the growable buffers of \<^verbatim>\<open>mpr/mprLib.c\<close>. A buffer refines a queue of bytes.
  \<^item> \<^verbatim>\<open>ModuleFile\<close>: the constant pool, the encoders of the code buffer, debug lines, and the start of module sections, on
    the side of the compiler (\<^verbatim>\<open>compiler/ecModuleWrite.c\<close>) and of the loader (\<^verbatim>\<open>vm/ejsModule.c\<close>, \<^verbatim>\<open>vm/ejsLoader.c\<close>).
    The pool refines a list of distinct strings, and what the compiler writes is what the loader reads.
  \<^item> \<^verbatim>\<open>Exceptions\<close>, \<^verbatim>\<open>ExceptionRuns\<close>: the exception handling of the interpreter (\<^verbatim>\<open>vm/ejsInterp.c\<close>): the search for handlers, the
    attention trap, the instructions that throw, enter and end handlers. The handler that is entered is the one that the
    specification names; in every state that the step relation reaches the chains of frames and blocks are whole, up to the one instruction that saves
    the trap as the address to restart at and loses the run.
  \<^item> \<^verbatim>\<open>MprString\<close>, \<^verbatim>\<open>MprHash\<close>: number strings, caseless comparison, and the hash tables of \<^verbatim>\<open>mpr/mprLib.c\<close>. A table refines a finite
    map while it grows; the locale \<open>key_loop\<close> is the contract of a loop over the keys of a table that its body may change, the locale
    \<open>string_table\<close> what users of a table rely on.
  \<^item> \<^verbatim>\<open>LocalCache\<close>: the class of \<^verbatim>\<open>core/src/ejsLocalCache.c\<close>, on \<open>string_table\<close> for its methods and \<open>key_loop\<close> for its pruner. Every method is its body
    behind the redirection to the shared cache, in a store of linked cache objects. A cache
    refines a map of items, how far its memory count is off is known, and the pruner removes what expires before the first date that brings the
    cache within its limits.
  \<^item> \<^verbatim>\<open>Json\<close>, \<^verbatim>\<open>JsonWrite\<close>, \<^verbatim>\<open>JsonRoundtrip\<close>: the reader and the writer of \<^verbatim>\<open>core/src/ejsJSON.c\<close> with the plain values of
    \<^verbatim>\<open>ejsParse\<close> and the literals of \<^verbatim>\<open>ejsToLiteralString\<close>. Reading ends on every string. What is written for a tree of objects
    is read back as that tree, in every layout, apart from strings in arrays, for which \<open>as_read\<close> says what they become; the
    specification \<open>print_json\<close> stands between the two. Where the reader is undefined, and that the writer gives its depth back exactly when it
    returns a string. How the host prints floating point numbers is a parameter.
  \<^item> \<^verbatim>\<open>LexStream\<close>, \<^verbatim>\<open>Lexer\<close>: the lexer (\<^verbatim>\<open>compiler/ecLex.c\<close>) and the tokens that the parser puts back or looks ahead at
    (\<^verbatim>\<open>compiler/ecParser.c\<close>), over a file, a string or the console (\<^verbatim>\<open>cmd/ejs.c\<close>); keywords are in a table of \<^verbatim>\<open>MprHash\<close>.
    \<^verbatim>\<open>LexRun\<close> holds the rules for single steps, \<^verbatim>\<open>LexSafety\<close> that the lexer is total and stays inside of its blocks, \<^verbatim>\<open>LexRead\<close> and
    \<^verbatim>\<open>LexSource\<close> which tokens a source is read as, \<^verbatim>\<open>LexAhead\<close> that looking ahead keeps the tokens.

  \<^bold>\<open>Loops.\<close> Structural loops and loops with a counter are total functions with a measure. Loops along
  pointers (\<open>walk_chain\<close> and its uses, the chains of the hash index), the recursion over literals and objects (\<open>parseLiteralInner\<close>,
  \<open>serialize\<close>) and over the characters of a source (\<open>get_token\<close>, \<open>comment_loop\<close>, \<open>scan_name\<close>) are \<^theory_text>\<open>partial_function\<close>s whose results on
  well-formed states are proved to exist. Two loops have fuel: \<open>put_rounds\<close> three rounds, of which the third has
  nothing left to write, and \<open>quickSort\<close> one more than the elements, since every call has a shorter range; the properties
  show that this is enough. Where a loop of the code never ends, the model has no result for any fuel.

  \<^bold>\<open>Not modelled.\<close> The instruction loop of the interpreter and the sections of module files that build classes and functions, whose
  state is the whole of the virtual machine; the parser and the code generator, which work on about sixty kinds of nodes and that state;
  the String, Date, Number, XML, RegExp, Uri and Path classes and workers; floating point encodings; garbage collection, threads and locks
  (one thread is modelled); and all input and output. Third-party code under \<^verbatim>\<open>src/src\<close> (mbedtls, pcre, sqlite, zlib, http) is left
  out. Observers, comparison functions and helpers of types that the code calls back are parameters.
\<close>

end
